(* ===== verification/Prelude.thy ===== *)
theory Prelude
  imports Main "HOL-Library.Word"
begin

text \<open>
  Shared ground of the development: the machine types of the C code, a flat byte memory with
  the C library's \<^verbatim>\<open>memcpy\<close> and \<^verbatim>\<open>memmove\<close>, nullable pointers, and the generic lemmas on
  lists and memory that the component theories use. The collection \<open>mem_simps\<close> gathers the
  rewrite rules about reads and writes.

  A \<^verbatim>\<open>uint8_t *\<close> is a \<open>ptr\<close>: \<open>None\<close> is \<^verbatim>\<open>NULL\<close>, \<open>Some a\<close> the byte address \<open>a\<close>. A C
  \<^verbatim>\<open>int\<close> is an \<open>int\<close>; the places where its width matters name \<open>INT_MAX\<close> explicitly or
  wrap the value with \<open>c_int\<close>.
\<close>

unbundle bit_operations_syntax

type_synonym byte = "8 word"
type_synonym u16 = "16 word"
type_synonym u32 = "32 word"
type_synonym u64 = "64 word"

type_synonym ptr = "nat option"
type_synonym mem = "nat \<Rightarrow> byte"

named_theorems mem_simps \<open>reads and writes of the flat memory\<close>
named_theorems iface_simps \<open>the state changes of the flow interfaces\<close>

abbreviation INT_MAX :: int where
  "INT_MAX \<equiv> 2147483647"

abbreviation UINT16_MAX :: int where
  "UINT16_MAX \<equiv> 65535"

text \<open>The value a number has when it is stored in a C \<^verbatim>\<open>int\<close>.\<close>

definition c_int :: "int \<Rightarrow> int" where
  "c_int n = sint (word_of_int n :: u32)"

lemma c_int_id: "- INT_MAX - 1 \<le> n \<Longrightarrow> n \<le> INT_MAX \<Longrightarrow> c_int n = n"
  by (simp add: c_int_def sint_sbintrunc' signed_take_bit_int_eq_self)

lemma c_int_range: "- INT_MAX - 1 \<le> c_int n" "c_int n \<le> INT_MAX"
  using sint_greater_eq [of "word_of_int n :: u32"] sint_less [of "word_of_int n :: u32"]
  by (simp_all add: c_int_def)

lemma c_int_le: "0 \<le> n \<Longrightarrow> c_int n \<le> n"
  using c_int_range(2) [of n] c_int_id [of n] by (cases "n \<le> INT_MAX") auto

abbreviation NULL :: ptr where
  "NULL \<equiv> None"

section \<open>Pointers and memory\<close>

definition padd :: "ptr \<Rightarrow> int \<Rightarrow> ptr" where
  "padd p n = map_option (\<lambda>a. nat (int a + n)) p"

lemma padd_simps [simp]:
  "padd None n = None"
  "padd (Some a) n = Some (nat (int a + n))"
  by (simp_all add: padd_def)

definition mem_read :: "mem \<Rightarrow> nat \<Rightarrow> nat \<Rightarrow> byte list" where
  "mem_read m a n = map m [a..<a + n]"

definition mem_write :: "mem \<Rightarrow> nat \<Rightarrow> byte list \<Rightarrow> mem" where
  "mem_write m a bs = (\<lambda>x. if a \<le> x \<and> x < a + length bs then bs ! (x - a) else m x)"

definition memcpy :: "mem \<Rightarrow> nat \<Rightarrow> nat \<Rightarrow> nat \<Rightarrow> mem" where
  "memcpy m dst src n = mem_write m dst (mem_read m src n)"

definition memmove :: "mem \<Rightarrow> nat \<Rightarrow> nat \<Rightarrow> nat \<Rightarrow> mem" where
  "memmove m dst src n = mem_write m dst (mem_read m src n)"

lemma length_mem_read [simp]: "length (mem_read m a n) = n"
  by (simp add: mem_read_def)

lemma mem_read_0 [simp]: "mem_read m a 0 = []"
  by (simp add: mem_read_def)

lemma nth_mem_read [simp]: "i < n \<Longrightarrow> mem_read m a n ! i = m (a + i)"
  by (simp add: mem_read_def)

lemma mem_write_Nil [simp]: "mem_write m a [] = m"
  by (rule ext) (auto simp: mem_write_def)

lemma mem_write_outside:
  "x < a \<or> a + length bs \<le> x \<Longrightarrow> mem_write m a bs x = m x"
  by (auto simp: mem_write_def)

lemma mem_read_eqI:
  "(\<And>i. i < n \<Longrightarrow> m (a + i) = m' (a' + i)) \<Longrightarrow> mem_read m a n = mem_read m' a' n"
  by (rule nth_equalityI) auto

lemma mem_read_write_same [mem_simps]:
  "n = length bs \<Longrightarrow> mem_read (mem_write m a bs) a n = bs"
  by (rule nth_equalityI) (auto simp: mem_write_def)

lemma mem_read_write_disjoint [mem_simps]:
  "b + n \<le> a \<or> a + length bs \<le> b \<Longrightarrow> mem_read (mem_write m a bs) b n = mem_read m b n"
  by (rule mem_read_eqI) (auto simp: mem_write_def)

lemma mem_read_append: "mem_read m a (n + k) = mem_read m a n @ mem_read m (a + n) k"
proof -
  have "[a..<a + (n + k)] = [a..<a + n] @ [a + n..<a + n + k]"
    using upt_add_eq_append [of a "a + n" k] by (simp add: add.assoc)
  then show ?thesis by (simp add: mem_read_def)
qed

lemma mem_read_sub_write:
  assumes "a \<le> b" and "b + n \<le> a + length bs"
  shows "mem_read (mem_write m a bs) b n = take n (drop (b - a) bs)"
  using assms by (intro nth_equalityI) (auto simp: mem_write_def)

lemma mem_read_take_drop:
  "i + k \<le> n \<Longrightarrow> take k (drop i (mem_read m a n)) = mem_read m (a + i) k"
  by (rule nth_equalityI) (auto simp: add.assoc)

lemma take_mem_read: "k \<le> n \<Longrightarrow> take k (mem_read m a n) = mem_read m a k"
  using mem_read_take_drop [of 0 k n m a] by simp

section \<open>Lists\<close>

lemma take_drop_append_length [simp]:
  "take n (drop (length xs) (xs @ ys)) = take n ys"
  by simp

lemma remove1_Cons_filter:
  "distinct xs \<Longrightarrow> remove1 x xs = filter (\<lambda>y. y \<noteq> x) xs"
  by (simp add: distinct_remove1_removeAll removeAll_filter_not_eq eq_commute)

lemma hd_append_tl: "xs \<noteq> [] \<Longrightarrow> hd xs # tl xs = xs"
  by simp

lemma distinct_move_last:
  "distinct xs \<Longrightarrow> x \<in> set xs \<Longrightarrow> distinct (remove1 x xs @ [x])"
  by simp

lemma set_move_last: "distinct xs \<Longrightarrow> x \<in> set xs \<Longrightarrow> set (remove1 x xs @ [x]) = set xs"
  by auto

lemma length_move_last: "x \<in> set xs \<Longrightarrow> length (remove1 x xs @ [x]) = length xs"
  by (auto simp: length_remove1) (metis Suc_pred length_pos_if_in_set)

section \<open>Maps\<close>

lemma card_dom_fun_upd_None:
  "finite (dom m) \<Longrightarrow> m k \<noteq> None \<Longrightarrow> card (dom (m(k := None))) = card (dom m) - 1"
  by (simp add: domIff)

lemma card_dom_fun_upd_Some:
  "finite (dom m) \<Longrightarrow> m k = None \<Longrightarrow> card (dom (m(k \<mapsto> v))) = Suc (card (dom m))"
  by (simp add: domIff)

end
