(* ===== verification/Misc.thy ===== *)
theory Misc
  imports Prelude
begin

text \<open>
  The helpers of \<^verbatim>\<open>badvpn/misc\<close>: \<^verbatim>\<open>byteorder.h\<close> and \<^verbatim>\<open>read_write_int.h\<close> on a little-endian host
  (the build defines \<^verbatim>\<open>BADVPN_LITTLE_ENDIAN\<close>), \<^verbatim>\<open>balign.h\<close>, \<^verbatim>\<open>bsize.h\<close>, \<^verbatim>\<open>compare.h\<close> and
  \<^verbatim>\<open>minmax.h\<close>. \<open>bytes16\<close> and \<open>bytes32\<close> are the object representations of a \<^verbatim>\<open>uint16_t\<close> and
  a \<^verbatim>\<open>uint32_t\<close> in memory on such a host; \<open>word16\<close> and \<open>word32\<close> read them back.
\<close>

section \<open>Object representations\<close>

definition bytes16 :: "u16 \<Rightarrow> byte list" where
  "bytes16 x = [ucast x, ucast (drop_bit 8 x)]"

definition word16 :: "byte list \<Rightarrow> u16" where
  "word16 bs = ucast (bs ! 0) OR push_bit 8 (ucast (bs ! 1))"

definition bytes32 :: "u32 \<Rightarrow> byte list" where
  "bytes32 x = [ucast x, ucast (drop_bit 8 x), ucast (drop_bit 16 x), ucast (drop_bit 24 x)]"

definition word32 :: "byte list \<Rightarrow> u32" where
  "word32 bs = ucast (bs ! 0) OR push_bit 8 (ucast (bs ! 1))
     OR push_bit 16 (ucast (bs ! 2)) OR push_bit 24 (ucast (bs ! 3))"

lemma length_bytes16 [simp]: "length (bytes16 x) = 2"
  by (simp add: bytes16_def)

lemma length_bytes32 [simp]: "length (bytes32 x) = 4"
  by (simp add: bytes32_def)

lemma word16_bytes16 [simp]: "word16 (bytes16 x) = x"
  by (rule bit_word_eqI) (auto simp: word16_def bytes16_def bit_simps)

lemma word32_bytes32 [simp]: "word32 (bytes32 x) = x"
proof (rule bit_word_eqI)
  fix n :: nat
  assume "n < LENGTH(32)"
  then show "bit (word32 (bytes32 x)) n = bit x n"
    by (cases "n < 8"; cases "n < 16"; cases "n < 24")
      (auto simp: word32_def bytes32_def bit_simps)
qed


lemma bytes16_nths:
  "bytes16 x ! 0 = ucast x" "bytes16 x ! Suc 0 = ucast (drop_bit 8 x)"
  by (simp_all add: bytes16_def)

lemma bytes16_inject: "bytes16 x = bytes16 y \<longleftrightarrow> x = y"
  by (metis word16_bytes16)

lemma bytes16_word16:
  assumes "length bs = 2" shows "bytes16 (word16 bs) = bs"
proof -
  obtain a b where bs: "bs = [a, b]"
    using assms by (auto simp: numeral_2_eq_2 length_Suc_conv)
  have "ucast (ucast a OR push_bit 8 (ucast b) :: u16) = a"
    by (rule bit_word_eqI) (auto simp: bit_simps)
  moreover have "ucast (drop_bit 8 (ucast a OR push_bit 8 (ucast b) :: u16)) = b"
    by (rule bit_word_eqI) (auto simp: bit_simps dest: bit_imp_le_length)
  ultimately show ?thesis by (simp add: bs bytes16_def word16_def)
qed

lemma bytes32_word32:
  assumes "length bs = 4" shows "bytes32 (word32 bs) = bs"
proof -
  obtain a b c d where bs: "bs = [a, b, c, d]"
    using assms by (auto simp: numeral_eq_Suc length_Suc_conv)
  let ?w = "ucast a OR push_bit 8 (ucast b) OR push_bit 16 (ucast c) OR push_bit 24 (ucast d) :: u32"
  have "ucast ?w = a" "ucast (drop_bit 8 ?w) = b" "ucast (drop_bit 16 ?w) = c" "ucast (drop_bit 24 ?w) = d"
    by (rule bit_word_eqI, force simp: bit_simps dest: bit_imp_le_length)+
  then show ?thesis by (simp add: bs bytes32_def word32_def)
qed

section \<open>byteorder.h\<close>

definition badvpn_reverse16 :: "u16 \<Rightarrow> u16" where
  "badvpn_reverse16 x = word16 [bytes16 x ! 1, bytes16 x ! 0]"

definition badvpn_reverse32 :: "u32 \<Rightarrow> u32" where
  "badvpn_reverse32 x = word32 [bytes32 x ! 3, bytes32 x ! 2, bytes32 x ! 1, bytes32 x ! 0]"

definition hton8 :: "byte \<Rightarrow> byte" where "hton8 x = x"

definition hton16 :: "u16 \<Rightarrow> u16" where "hton16 x = badvpn_reverse16 x"

definition hton32 :: "u32 \<Rightarrow> u32" where "hton32 x = badvpn_reverse32 x"

definition htol16 :: "u16 \<Rightarrow> u16" where "htol16 x = x"

definition ntoh8 :: "byte \<Rightarrow> byte" where "ntoh8 x = hton8 x"

definition ntoh16 :: "u16 \<Rightarrow> u16" where "ntoh16 x = hton16 x"

definition ntoh32 :: "u32 \<Rightarrow> u32" where "ntoh32 x = hton32 x"

definition ltoh16 :: "u16 \<Rightarrow> u16" where "ltoh16 x = htol16 x"

lemmas byteorder_defs =
  hton8_def hton16_def hton32_def htol16_def ntoh8_def ntoh16_def ntoh32_def ltoh16_def

lemma bytes16_reverse16: "bytes16 (badvpn_reverse16 x) = rev (bytes16 x)"
  by (simp add: badvpn_reverse16_def bytes16_word16) (simp add: bytes16_def)

lemma reverse16_reverse16 [simp]: "badvpn_reverse16 (badvpn_reverse16 x) = x"
  by (metis bytes16_inject bytes16_reverse16 rev_rev_ident)

lemma ntoh16_hton16 [simp]: "ntoh16 (hton16 x) = x"
  by (simp add: byteorder_defs)

lemma hton16_ntoh16 [simp]: "hton16 (ntoh16 x) = x"
  by (simp add: byteorder_defs)

lemma hton16_inject [simp]: "hton16 x = hton16 y \<longleftrightarrow> x = y"
  by (metis ntoh16_hton16)

section \<open>read_write_int.h\<close>

definition badvpn_read_be16 :: "byte list \<Rightarrow> u16" where
  "badvpn_read_be16 bs = push_bit 8 (ucast (bs ! 0)) OR push_bit 0 (ucast (bs ! 1))"

lemma read_be16_bytes16: "badvpn_read_be16 (bytes16 x) = ntoh16 x"
  by (rule bit_word_eqI)
    (auto simp: badvpn_read_be16_def byteorder_defs badvpn_reverse16_def word16_def
      bytes16_def bit_simps)

section \<open>balign.h, minmax.h, compare.h\<close>

definition bdivide_up :: "nat \<Rightarrow> nat \<Rightarrow> nat" where
  "bdivide_up a b = (let r = a mod b in if r > 0 then a div b + 1 else a div b)"

lemma bdivide_up_le:
  assumes "0 < b"
  shows "bdivide_up a b \<le> n \<longleftrightarrow> a \<le> n * b"
proof (cases "a mod b = 0")
  case True
  then obtain q where "a = b * q" by auto
  with assms True show ?thesis by (simp add: bdivide_up_def Let_def mult.commute)
next
  case False
  have a: "a = (a div b) * b + a mod b" by simp
  have "a div b + 1 \<le> n \<longleftrightarrow> a \<le> n * b"
  proof
    assume "a div b + 1 \<le> n"
    then have "(a div b + 1) * b \<le> n * b" by (rule mult_le_mono1)
    then have "(a div b) * b + b \<le> n * b" by (simp add: add_mult_distrib)
    with a mod_less_divisor [OF assms, of a] show "a \<le> n * b" by linarith
  next
    assume le: "a \<le> n * b"
    show "a div b + 1 \<le> n"
    proof (rule ccontr)
      assume "\<not> a div b + 1 \<le> n"
      then have "n * b \<le> (a div b) * b" by (intro mult_le_mono1) simp
      with a le False show False by linarith
    qed
  qed
  with False show ?thesis by (simp add: bdivide_up_def Let_def)
qed

lemma bdivide_up_ge: "0 < b \<Longrightarrow> a \<le> bdivide_up a b * b"
  using bdivide_up_le [of b a "bdivide_up a b"] by simp

lemma bdivide_up_0 [simp]: "bdivide_up 0 b = 0"
  by (simp add: bdivide_up_def)

definition B_COMPARE :: "'a::linorder \<Rightarrow> 'a \<Rightarrow> int" where
  "B_COMPARE a b = (if a > b then 1 else 0) - (if a < b then 1 else 0)"

lemma B_COMPARE_simps:
  "B_COMPARE a b = 0 \<longleftrightarrow> a = b"
  "B_COMPARE a b < 0 \<longleftrightarrow> a < b"
  "B_COMPARE a b > 0 \<longleftrightarrow> b < a"
  by (auto simp: B_COMPARE_def)

definition bmin_int :: "int \<Rightarrow> int \<Rightarrow> int" where
  "bmin_int a b = (if a < b then a else b)"

definition bmax_uint64 :: "u64 \<Rightarrow> u64 \<Rightarrow> u64" where
  "bmax_uint64 a b = (if a > b then a else b)"

section \<open>bsize.h\<close>

text \<open>
  \<^verbatim>\<open>size_t\<close> is 32 bits wide on the armeabi and x86 targets and 64 bits wide on arm64, so
  \<^verbatim>\<open>SIZE_MAX\<close> is the argument \<open>smax\<close>; \<open>bvalue\<close> is reduced modulo \<open>smax + 1\<close> as the unsigned
  arithmetic of C does.
\<close>

record bsize_t =
  is_overflow :: bool
  bvalue :: nat

definition bsize_fromsize :: "nat \<Rightarrow> bsize_t" where
  "bsize_fromsize v = \<lparr>is_overflow = False, bvalue = v\<rparr>"

definition bsize_fromint :: "nat \<Rightarrow> int \<Rightarrow> bsize_t" where
  "bsize_fromint smax v =
     \<lparr>is_overflow = (v < 0 \<or> v > int smax), bvalue = nat (v mod (int smax + 1))\<rparr>"

definition bsize_toint :: "bsize_t \<Rightarrow> int option" where
  "bsize_toint s = (if is_overflow s \<or> int (bvalue s) > INT_MAX then None else Some (int (bvalue s)))"

definition bsize_add :: "nat \<Rightarrow> bsize_t \<Rightarrow> bsize_t \<Rightarrow> bsize_t" where
  "bsize_add smax s1 s2 =
     \<lparr>is_overflow = (is_overflow s1 \<or> is_overflow s2 \<or> bvalue s2 > smax - bvalue s1),
      bvalue = (bvalue s1 + bvalue s2) mod (smax + 1)\<rparr>"

definition bsize_max :: "bsize_t \<Rightarrow> bsize_t \<Rightarrow> bsize_t" where
  "bsize_max s1 s2 =
     \<lparr>is_overflow = (is_overflow s1 \<or> is_overflow s2),
      bvalue = (if bvalue s1 > bvalue s2 then bvalue s1 else 0)
        + (if bvalue s1 \<le> bvalue s2 then bvalue s2 else 0)\<rparr>"

definition bsize_mul :: "nat \<Rightarrow> bsize_t \<Rightarrow> bsize_t \<Rightarrow> bsize_t" where
  "bsize_mul smax s1 s2 =
     \<lparr>is_overflow = (is_overflow s1 \<or> is_overflow s2
        \<or> (bvalue s1 \<noteq> 0 \<and> bvalue s2 > smax div bvalue s1)),
      bvalue = (bvalue s1 * bvalue s2) mod (smax + 1)\<rparr>"

lemma bsize_add_exact:
  "bvalue s1 \<le> smax \<Longrightarrow> \<not> is_overflow (bsize_add smax s1 s2) \<Longrightarrow>
    bvalue (bsize_add smax s1 s2) = bvalue s1 + bvalue s2"
  by (auto simp: bsize_add_def not_less intro!: mod_less)

lemma bsize_mul_exact:
  assumes "\<not> is_overflow (bsize_mul smax s1 s2)"
  shows "bvalue (bsize_mul smax s1 s2) = bvalue s1 * bvalue s2"
proof (cases "bvalue s1 = 0")
  case True
  then show ?thesis by (simp add: bsize_mul_def)
next
  case False
  with assms have "bvalue s2 \<le> smax div bvalue s1" by (simp add: bsize_mul_def)
  with False have "bvalue s1 * bvalue s2 \<le> smax"
    by (simp add: less_eq_div_iff_mult_less_eq mult.commute)
  then show ?thesis by (simp add: bsize_mul_def)
qed

end
