(* ===== verification/Fifo.thy ===== *)
theory Fifo
  imports Prelude
begin

text \<open>
  The contract of a bounded packet queue: \<open>put\<close> may refuse a packet, \<open>get\<close> delivers the oldest
  one. \<open>fifo_run\<close> drives any implementation with a sequence of operations and records what it
  accepted and what it delivered; the locale \<open>packet_fifo\<close> states what an implementation
  promises and shows once that nothing is lost, duplicated or reordered.
\<close>

datatype 'b fifo_op = Put 'b | Get

primrec fifo_run ::
  "('b \<Rightarrow> 's \<Rightarrow> 's option) \<Rightarrow> ('s \<Rightarrow> ('b \<times> 's) option) \<Rightarrow> 'b fifo_op list \<Rightarrow> 's
    \<Rightarrow> 'b list \<times> 'b list \<times> 's" where
  "fifo_run put get [] s = ([], [], s)"
| "fifo_run put get (x # xs) s =
     (case x of
        Put b \<Rightarrow> (case put b s of
            None \<Rightarrow> fifo_run put get xs s
          | Some s' \<Rightarrow> (case fifo_run put get xs s' of (acc, del, t) \<Rightarrow> (b # acc, del, t)))
      | Get \<Rightarrow> (case get s of
            None \<Rightarrow> fifo_run put get xs s
          | Some (b, s') \<Rightarrow> (case fifo_run put get xs s' of (acc, del, t) \<Rightarrow> (acc, b # del, t))))"

locale packet_fifo =
  fixes rep :: "'s \<Rightarrow> 'b list \<Rightarrow> bool"
    and put :: "'b \<Rightarrow> 's \<Rightarrow> 's option"
    and get :: "'s \<Rightarrow> ('b \<times> 's) option"
  assumes put_appends: "rep s q \<Longrightarrow> put b s = Some s' \<Longrightarrow> rep s' (q @ [b])"
    and get_empty: "rep s [] \<Longrightarrow> get s = None"
    and get_oldest: "rep s (b # q) \<Longrightarrow> \<exists>s'. get s = Some (b, s') \<and> rep s' q"
begin

lemma get_iff: "rep s q \<Longrightarrow> get s = None \<longleftrightarrow> q = []"
  using get_empty get_oldest by (cases q) fastforce+

lemma run_conserves:
  "rep s q \<Longrightarrow> fifo_run put get xs s = (acc, del, t) \<Longrightarrow> \<exists>q'. rep t q' \<and> q @ acc = del @ q'"
proof (induction xs arbitrary: s q acc del)
  case Nil
  then show ?case by auto
next
  case (Cons x xs)
  show ?case
  proof (cases x)
    case (Put b)
    then show ?thesis
    proof (cases "put b s")
      case None
      with Cons Put show ?thesis by simp
    next
      case (Some s')
      then obtain acc' where run: "fifo_run put get xs s' = (acc', del, t)" and acc: "acc = b # acc'"
        using Cons.prems(2) Put by (auto split: prod.splits)
      from put_appends [OF Cons.prems(1) Some] run
      obtain q' where "rep t q'" "(q @ [b]) @ acc' = del @ q'" using Cons.IH by blast
      with acc show ?thesis by auto
    qed
  next
    case Get
    show ?thesis
    proof (cases q)
      case Nil
      with Cons.prems(1) have "get s = None" by (simp add: get_empty)
      with Cons.prems(2) Get have "fifo_run put get xs s = (acc, del, t)" by simp
      with Cons.prems(1) show ?thesis by (rule Cons.IH)
    next
      case q: (Cons b q1)
      then obtain s' where g: "get s = Some (b, s')" and r: "rep s' q1"
        using get_oldest Cons.prems(1) by blast
      then obtain del' where run: "fifo_run put get xs s' = (acc, del', t)" and del: "del = b # del'"
        using Cons.prems(2) Get by (auto split: prod.splits)
      from Cons.IH [OF r run] obtain q' where "rep t q'" "q1 @ acc = del' @ q'" by blast
      with q del show ?thesis by auto
    qed
  qed
qed

lemma run_from_empty:
  assumes "rep s []" and "fifo_run put get xs s = (acc, del, t)"
  shows "\<exists>q. rep t q \<and> acc = del @ q"
  using run_conserves [OF assms] by simp

end

end
