(* ===== verification/ChunkBuffer2.thy ===== *)
theory ChunkBuffer2
  imports Misc Fifo
begin

text \<open>
  \<^verbatim>\<open>structure/ChunkBuffer2.h\<close>: the circular packet buffer under every send queue. The ring is an
  array of 4-byte blocks in memory; a packet is one header block holding its length followed by
  its payload. The record has the fields of the C struct; the buffer is addressed by its base
  address, and \<open>blk b i\<close> is the address of \<^verbatim>\<open>&buffer[i]\<close>.

  The abstraction \<open>cb_rep\<close> relates the ring to the queue of packets it holds, and the locale
  \<open>packet_fifo\<close> is the contract the flow elements rely on.
\<close>

section \<open>The code\<close>

record ChunkBuffer2 =
  buffer :: nat
  cb_size :: int
  wrap :: int
  start :: int
  used :: int
  cb_mtu :: int
  input_dest :: ptr
  input_avail :: int
  output_dest :: ptr
  output_avail :: int

abbreviation block_size :: nat where
  "block_size \<equiv> 4"

definition blk :: "nat \<Rightarrow> int \<Rightarrow> nat" where
  "blk b i = b + block_size * nat i"

definition block_len :: "mem \<Rightarrow> nat \<Rightarrow> int \<Rightarrow> int" where
  "block_len m b i = sint (word32 (mem_read m (blk b i) 4))"

definition set_block_len :: "mem \<Rightarrow> nat \<Rightarrow> int \<Rightarrow> int \<Rightarrow> mem" where
  "set_block_len m b i len = mem_write m (blk b i) (bytes32 (word_of_int len))"

definition blocks_for :: "int \<Rightarrow> int" where
  "blocks_for len = int (bdivide_up (nat len) block_size)"

definition ChunkBuffer2_end :: "ChunkBuffer2 \<Rightarrow> int" where
  "ChunkBuffer2_end buf =
     (if used buf \<ge> wrap buf - start buf then used buf - (wrap buf - start buf)
      else start buf + used buf)"

definition ChunkBuffer2_update_input :: "ChunkBuffer2 \<Rightarrow> ChunkBuffer2" where
  "ChunkBuffer2_update_input buf =
     (let e = ChunkBuffer2_end buf in
      if cb_size buf - e - 1 < cb_mtu buf then buf\<lparr>input_dest := NULL, input_avail := -1\<rparr>
      else
        let free = (if used buf \<ge> wrap buf - start buf then start buf - e else cb_size buf - e) in
        if free > 0
        then buf\<lparr>input_dest := Some (blk (buffer buf) (e + 1)), input_avail := c_int ((free - 1) * 4)\<rparr>
        else buf\<lparr>input_dest := NULL, input_avail := -1\<rparr>)"

definition ChunkBuffer2_update_output :: "mem \<Rightarrow> ChunkBuffer2 \<Rightarrow> ChunkBuffer2" where
  "ChunkBuffer2_update_output m buf =
     (if used buf > 0
      then buf\<lparr>output_dest := Some (blk (buffer buf) (start buf + 1)),
               output_avail := block_len m (buffer buf) (start buf)\<rparr>
      else buf\<lparr>output_dest := NULL, output_avail := -1\<rparr>)"

definition ChunkBuffer2_calc_blocks :: "int \<Rightarrow> int \<Rightarrow> int" where
  "ChunkBuffer2_calc_blocks chunk_len num =
     (let chunk_data_blocks = blocks_for chunk_len in
      if chunk_data_blocks > INT_MAX - 1 then -1
      else let chunk_blocks = 1 + chunk_data_blocks in
      if num > INT_MAX - 1 then -1
      else let num_chunks = num + 1 in
      if chunk_blocks > INT_MAX div num_chunks then -1
      else chunk_blocks * num_chunks)"

definition ChunkBuffer2_Init :: "mem \<Rightarrow> nat \<Rightarrow> int \<Rightarrow> int \<Rightarrow> ChunkBuffer2" where
  "ChunkBuffer2_Init m b blocks mtu =
     (let buf = \<lparr>buffer = b, cb_size = blocks, wrap = blocks, start = 0, used = 0,
                 cb_mtu = blocks_for mtu, input_dest = NULL, input_avail = 0,
                 output_dest = NULL, output_avail = 0\<rparr>
      in ChunkBuffer2_update_output m (ChunkBuffer2_update_input buf))"

definition ChunkBuffer2_SubmitPacket :: "mem \<Rightarrow> ChunkBuffer2 \<Rightarrow> int \<Rightarrow> mem \<times> ChunkBuffer2" where
  "ChunkBuffer2_SubmitPacket m buf len =
     (let e = ChunkBuffer2_end buf; blocklen = blocks_for len;
          m1 = set_block_len m (buffer buf) e len;
          buf1 = buf\<lparr>used := used buf + (1 + blocklen)\<rparr>;
          buf2 = (if used buf1 \<le> wrap buf1 - start buf1
                     \<and> cb_mtu buf1 > cb_size buf1 - (e + 1 + blocklen) - 1
                  then buf1\<lparr>wrap := e + 1 + blocklen\<rparr> else buf1);
          buf3 = ChunkBuffer2_update_input buf2;
          buf4 = (if used buf3 = 1 + blocklen then ChunkBuffer2_update_output m1 buf3 else buf3)
      in (m1, buf4))"

definition ChunkBuffer2_ConsumePacket :: "mem \<Rightarrow> ChunkBuffer2 \<Rightarrow> ChunkBuffer2" where
  "ChunkBuffer2_ConsumePacket m buf =
     (let blocklen = blocks_for (block_len m (buffer buf) (start buf));
          data_wrapped = (used buf \<ge> wrap buf - start buf);
          buf1 = buf\<lparr>start := start buf + (1 + blocklen), used := used buf - (1 + blocklen)\<rparr>;
          buf2 = (if start buf1 = wrap buf1 then buf1\<lparr>start := 0, wrap := cb_size buf1\<rparr> else buf1);
          buf3 = (if data_wrapped then ChunkBuffer2_update_input buf2 else buf2)
      in ChunkBuffer2_update_output m buf3)"

section \<open>The asserted state\<close>

text \<open>\<^verbatim>\<open>_ChunkBuffer2_assert_buffer\<close> and \<^verbatim>\<open>_ChunkBuffer2_assert_io\<close>, compiled out in the release build.\<close>

definition ChunkBuffer2_assert_buffer :: "ChunkBuffer2 \<Rightarrow> bool" where
  "ChunkBuffer2_assert_buffer buf \<longleftrightarrow>
     cb_size buf > 0 \<and> wrap buf > 0 \<and> wrap buf \<le> cb_size buf
     \<and> start buf \<ge> 0 \<and> start buf < wrap buf \<and> used buf \<ge> 0 \<and> used buf \<le> wrap buf
     \<and> (wrap buf = cb_size buf \<or> used buf \<ge> wrap buf - start buf) \<and> cb_mtu buf \<ge> 0"

definition ChunkBuffer2_assert_io :: "mem \<Rightarrow> ChunkBuffer2 \<Rightarrow> bool" where
  "ChunkBuffer2_assert_io m buf \<longleftrightarrow>
     (let e = ChunkBuffer2_end buf in
      if cb_size buf - e - 1 < cb_mtu buf then input_dest buf = NULL \<and> input_avail buf = -1
      else
        let free = (if used buf \<ge> wrap buf - start buf then start buf - e else cb_size buf - e) in
        if free > 0
        then input_dest buf = Some (blk (buffer buf) (e + 1)) \<and> input_avail buf = c_int ((free - 1) * 4)
        else input_dest buf = NULL \<and> input_avail buf = -1) \<and>
     (if used buf > 0
      then let datalen = block_len m (buffer buf) (start buf); blocklen = blocks_for datalen in
        datalen \<ge> 0 \<and> blocklen \<le> used buf - 1 \<and> blocklen \<le> wrap buf - start buf - 1
        \<and> output_dest buf = Some (blk (buffer buf) (start buf + 1)) \<and> output_avail buf = datalen
      else output_dest buf = NULL \<and> output_avail buf = -1)"


section \<open>Blocks\<close>

lemma blocks_for_nonneg [simp]: "0 \<le> blocks_for len"
  by (simp add: blocks_for_def)

lemma blocks_for_0 [simp]: "blocks_for 0 = 0"
  by (simp add: blocks_for_def)

lemma blocks_for_le: "0 \<le> len \<Longrightarrow> 0 \<le> n \<Longrightarrow> blocks_for len \<le> n \<longleftrightarrow> len \<le> 4 * n"
  using bdivide_up_le [of 4 "nat len" "nat n"]
  by (simp add: blocks_for_def mult.commute) (simp add: le_nat_iff nat_le_iff nat_mult_distrib mult.commute)

lemma blocks_for_ge: "0 \<le> len \<Longrightarrow> len \<le> 4 * blocks_for len"
  using blocks_for_le [of len "blocks_for len"] by simp

lemma blk_add: "0 \<le> i \<Longrightarrow> 0 \<le> j \<Longrightarrow> blk b (i + j) = blk b i + 4 * nat j"
  by (simp add: blk_def nat_add_distrib)

lemma blk_le_iff: "0 \<le> i \<Longrightarrow> 0 \<le> j \<Longrightarrow> blk b i \<le> blk b j \<longleftrightarrow> i \<le> j"
  by (simp add: blk_def nat_le_eq_zle)

lemma blk_mono: "i \<le> j \<Longrightarrow> blk b i \<le> blk b j"
  by (simp add: blk_def nat_mono)

lemma blk_payload_bound:
  assumes "0 \<le> s"
  shows "blk b (s + 1) + n \<le> blk b (s + 1 + blocks_for (int n))"
  using assms blocks_for_ge [of "int n"] by (simp add: blk_add)

lemma block_len_cong:
  "(\<And>x. blk b i \<le> x \<Longrightarrow> x < blk b i + 4 \<Longrightarrow> m x = m' x) \<Longrightarrow> block_len m b i = block_len m' b i"
  unfolding block_len_def by (rule arg_cong [where f = "\<lambda>z. sint (word32 z)"], rule mem_read_eqI) simp

lemma block_len_set_same:
  "0 \<le> len \<Longrightarrow> len \<le> INT_MAX \<Longrightarrow> block_len (set_block_len m b i len) b i = len"
  by (simp add: block_len_def set_block_len_def mem_simps sint_sbintrunc'
      signed_take_bit_int_eq_self)

lemma set_block_len_outside:
  "x < blk b i \<or> blk b i + 4 \<le> x \<Longrightarrow> set_block_len m b i len x = m x"
  by (simp add: set_block_len_def mem_write_outside)

section \<open>Segments of packets\<close>

text \<open>
  \<open>seg m b lim s ps e\<close>: from block \<open>s\<close> up to block \<open>e\<close> the memory holds exactly the packets \<open>ps\<close>,
  each one starting at a block no greater than \<open>lim\<close>.
\<close>

primrec seg :: "mem \<Rightarrow> nat \<Rightarrow> int \<Rightarrow> int \<Rightarrow> byte list list \<Rightarrow> int \<Rightarrow> bool" where
  "seg m b lim s [] e \<longleftrightarrow> s = e"
| "seg m b lim s (p # ps) e \<longleftrightarrow>
     s \<le> lim \<and> block_len m b s = int (length p) \<and> mem_read m (blk b (s + 1)) (length p) = p
     \<and> seg m b lim (s + 1 + blocks_for (int (length p))) ps e"

definition packet_blocks :: "byte list list \<Rightarrow> int" where
  "packet_blocks ps = (\<Sum>p\<leftarrow>ps. 1 + blocks_for (int (length p)))"

lemma packet_blocks_simps [simp]:
  "packet_blocks [] = 0"
  "packet_blocks (p # ps) = 1 + blocks_for (int (length p)) + packet_blocks ps"
  "packet_blocks (ps @ qs) = packet_blocks ps + packet_blocks qs"
  by (simp_all add: packet_blocks_def)

lemma packet_blocks_ge_length: "int (length ps) \<le> packet_blocks ps"
proof (induction ps)
  case (Cons p ps)
  then show ?case using blocks_for_nonneg [of "int (length p)"] by (simp del: blocks_for_nonneg)
qed simp

lemma packet_blocks_le:
  "(\<And>p. p \<in> set ps \<Longrightarrow> blocks_for (int (length p)) \<le> k) \<Longrightarrow>
    packet_blocks ps \<le> int (length ps) * (1 + k)"
proof (induction ps)
  case (Cons p ps)
  then have "packet_blocks ps \<le> int (length ps) * (1 + k)"
    and "blocks_for (int (length p)) \<le> k" by auto
  then show ?case by (simp add: algebra_simps)
qed simp

lemma seg_blocks: "seg m b lim s ps e \<Longrightarrow> e = s + packet_blocks ps"
  by (induction ps arbitrary: s) fastforce+

lemma seg_le: "seg m b lim s ps e \<Longrightarrow> s \<le> e"
  using seg_blocks [of m b lim s ps e] packet_blocks_ge_length [of ps] by simp

lemma seg_cong:
  assumes "seg m b lim s ps e" and "0 \<le> s"
    and "\<And>x. blk b s \<le> x \<Longrightarrow> x < blk b e \<Longrightarrow> m x = m' x"
  shows "seg m' b lim s ps e"
  using assms
proof (induction ps arbitrary: s)
  case Nil
  then show ?case by simp
next
  case (Cons p ps)
  define s' where "s' = s + 1 + blocks_for (int (length p))"
  have rest: "seg m b lim s' ps e" using Cons.prems by (simp add: s'_def)
  have bounds: "0 \<le> s'" "blk b s \<le> blk b s'" "blk b s' \<le> blk b e"
    "blk b s + 4 \<le> blk b s'" "blk b (s + 1) + length p \<le> blk b s'"
    using Cons.prems seg_le [OF rest] blk_payload_bound [of s b "length p"]
      blk_add [of s 1 b] blocks_for_nonneg [of "int (length p)"]
    by (auto simp: s'_def intro!: blk_mono)
  have "block_len m' b s = block_len m b s"
    using bounds by (intro block_len_cong Cons.prems(3) [symmetric]) auto
  moreover have "mem_read m' (blk b (s + 1)) (length p) = mem_read m (blk b (s + 1)) (length p)"
    using bounds Cons.prems(2) by (intro mem_read_eqI Cons.prems(3) [symmetric]) (auto simp: blk_add)
  moreover have "seg m' b lim s' ps e"
    using rest bounds by (intro Cons.IH Cons.prems(3)) auto
  ultimately show ?case using Cons.prems(1) by (simp add: s'_def)
qed

lemma seg_snoc:
  assumes "seg m b lim s ps e" and "e \<le> lim" and "block_len m b e = int (length p)"
    and "mem_read m (blk b (e + 1)) (length p) = p"
  shows "seg m b lim s (ps @ [p]) (e + 1 + blocks_for (int (length p)))"
  using assms by (induction ps arbitrary: s) auto


section \<open>The cached input and output positions\<close>

lemma update_input_fields [simp]:
  "buffer (ChunkBuffer2_update_input buf) = buffer buf"
  "cb_size (ChunkBuffer2_update_input buf) = cb_size buf"
  "wrap (ChunkBuffer2_update_input buf) = wrap buf"
  "start (ChunkBuffer2_update_input buf) = start buf"
  "used (ChunkBuffer2_update_input buf) = used buf"
  "cb_mtu (ChunkBuffer2_update_input buf) = cb_mtu buf"
  "output_dest (ChunkBuffer2_update_input buf) = output_dest buf"
  "output_avail (ChunkBuffer2_update_input buf) = output_avail buf"
  by (simp_all add: ChunkBuffer2_update_input_def Let_def)

lemma update_output_fields [simp]:
  "buffer (ChunkBuffer2_update_output m buf) = buffer buf"
  "cb_size (ChunkBuffer2_update_output m buf) = cb_size buf"
  "wrap (ChunkBuffer2_update_output m buf) = wrap buf"
  "start (ChunkBuffer2_update_output m buf) = start buf"
  "used (ChunkBuffer2_update_output m buf) = used buf"
  "cb_mtu (ChunkBuffer2_update_output m buf) = cb_mtu buf"
  "input_dest (ChunkBuffer2_update_output m buf) = input_dest buf"
  "input_avail (ChunkBuffer2_update_output m buf) = input_avail buf"
  by (simp_all add: ChunkBuffer2_update_output_def)

lemma end_update [simp]:
  "ChunkBuffer2_end (ChunkBuffer2_update_input buf) = ChunkBuffer2_end buf"
  "ChunkBuffer2_end (ChunkBuffer2_update_output m buf) = ChunkBuffer2_end buf"
  by (simp_all add: ChunkBuffer2_end_def)

definition input_cached :: "ChunkBuffer2 \<Rightarrow> bool" where
  "input_cached buf \<longleftrightarrow> ChunkBuffer2_update_input buf = buf"

definition output_cached :: "mem \<Rightarrow> ChunkBuffer2 \<Rightarrow> bool" where
  "output_cached m buf \<longleftrightarrow> ChunkBuffer2_update_output m buf = buf"

lemma output_cached_iff:
  "output_cached m buf \<longleftrightarrow>
     (if used buf > 0
      then output_dest buf = Some (blk (buffer buf) (start buf + 1))
        \<and> output_avail buf = block_len m (buffer buf) (start buf)
      else output_dest buf = NULL \<and> output_avail buf = -1)"
  by (cases buf) (auto simp: output_cached_def ChunkBuffer2_update_output_def)

lemma input_cached_iff:
  "input_cached buf \<longleftrightarrow>
     (let e = ChunkBuffer2_end buf;
          free = (if used buf \<ge> wrap buf - start buf then start buf - e else cb_size buf - e) in
      if cb_size buf - e - 1 < cb_mtu buf \<or> free \<le> 0
      then input_dest buf = NULL \<and> input_avail buf = -1
      else input_dest buf = Some (blk (buffer buf) (e + 1)) \<and> input_avail buf = c_int ((free - 1) * 4))"
  by (cases buf) (auto simp: input_cached_def ChunkBuffer2_update_input_def ChunkBuffer2_end_def Let_def)

lemma input_cached_update [simp]: "input_cached (ChunkBuffer2_update_input buf)"
  by (auto simp: input_cached_iff Let_def) (auto simp: ChunkBuffer2_update_input_def Let_def)

lemma output_cached_update [simp]: "output_cached m (ChunkBuffer2_update_output m buf)"
  by (auto simp: output_cached_iff) (auto simp: ChunkBuffer2_update_output_def)

lemma input_cached_update_output [simp]:
  "input_cached (ChunkBuffer2_update_output m buf) \<longleftrightarrow> input_cached buf"
  by (simp add: input_cached_iff)

section \<open>The queue a ring represents\<close>

definition cb_lim :: "ChunkBuffer2 \<Rightarrow> int" where
  "cb_lim buf = cb_size buf - 1 - cb_mtu buf"

definition cb_wrapped :: "ChunkBuffer2 \<Rightarrow> bool" where
  "cb_wrapped buf \<longleftrightarrow> used buf \<ge> wrap buf - start buf"

definition cb_content :: "mem \<Rightarrow> ChunkBuffer2 \<Rightarrow> byte list list \<Rightarrow> bool" where
  "cb_content m buf ps \<longleftrightarrow>
     (if cb_wrapped buf
      then \<exists>ps1 ps2. ps = ps1 @ ps2 \<and> seg m (buffer buf) (cb_lim buf) (start buf) ps1 (wrap buf)
        \<and> seg m (buffer buf) (cb_lim buf) 0 ps2 (ChunkBuffer2_end buf)
      else seg m (buffer buf) (cb_lim buf) (start buf) ps (ChunkBuffer2_end buf))"

text \<open>
  The shape the ring keeps beyond the C assertions: a packet always starts where a packet of
  full MTU would fit before the end of the array, and the wrap mark leaves less than one such
  packet unused.
\<close>

definition cb_shape :: "ChunkBuffer2 \<Rightarrow> bool" where
  "cb_shape buf \<longleftrightarrow> ChunkBuffer2_assert_buffer buf \<and> start buf \<le> cb_lim buf
     \<and> ChunkBuffer2_end buf \<le> cb_lim buf
     \<and> (wrap buf = cb_size buf \<or> cb_size buf - wrap buf \<le> cb_mtu buf)"

definition cb_rep :: "mem \<Rightarrow> ChunkBuffer2 \<Rightarrow> byte list list \<Rightarrow> bool" where
  "cb_rep m buf ps \<longleftrightarrow> cb_shape buf \<and> cb_content m buf ps \<and> input_cached buf \<and> output_cached m buf"

lemmas cb_state_defs =
  cb_shape_def ChunkBuffer2_assert_buffer_def ChunkBuffer2_end_def cb_lim_def cb_wrapped_def

lemma cb_wrapped_update [simp]:
  "cb_wrapped (ChunkBuffer2_update_input buf) = cb_wrapped buf"
  "cb_wrapped (ChunkBuffer2_update_output m buf) = cb_wrapped buf"
  "cb_shape (ChunkBuffer2_update_input buf) = cb_shape buf"
  "cb_shape (ChunkBuffer2_update_output m buf) = cb_shape buf"
  "cb_lim (ChunkBuffer2_update_input buf) = cb_lim buf"
  "cb_lim (ChunkBuffer2_update_output m buf) = cb_lim buf"
  by (simp_all add: cb_state_defs)

lemma cb_content_update [simp]:
  "cb_content m (ChunkBuffer2_update_input buf) ps = cb_content m buf ps"
  "cb_content m (ChunkBuffer2_update_output m' buf) ps = cb_content m buf ps"
  by (simp_all add: cb_content_def)

lemma cb_content_wrappedI:
  "cb_wrapped buf \<Longrightarrow> seg m (buffer buf) (cb_lim buf) (start buf) ps1 (wrap buf) \<Longrightarrow>
    seg m (buffer buf) (cb_lim buf) 0 ps2 (ChunkBuffer2_end buf) \<Longrightarrow> cb_content m buf (ps1 @ ps2)"
  by (auto simp: cb_content_def)

lemma cb_content_blocks:
  assumes "cb_content m buf ps"
  shows "packet_blocks ps = used buf"
proof (cases "cb_wrapped buf")
  case True
  with assms obtain ps1 ps2 where "ps = ps1 @ ps2"
    and "seg m (buffer buf) (cb_lim buf) (start buf) ps1 (wrap buf)"
    and "seg m (buffer buf) (cb_lim buf) 0 ps2 (ChunkBuffer2_end buf)"
    by (auto simp: cb_content_def)
  then have "packet_blocks ps = (wrap buf - start buf) + ChunkBuffer2_end buf"
    by (auto dest!: seg_blocks)
  with True show ?thesis by (simp add: ChunkBuffer2_end_def cb_wrapped_def)
next
  case False
  with assms have "seg m (buffer buf) (cb_lim buf) (start buf) ps (ChunkBuffer2_end buf)"
    by (simp add: cb_content_def)
  then have "ChunkBuffer2_end buf = start buf + packet_blocks ps" by (rule seg_blocks)
  with False show ?thesis by (simp add: ChunkBuffer2_end_def cb_wrapped_def)
qed

lemma cb_content_Nil_iff:
  assumes "cb_content m buf ps"
  shows "ps = [] \<longleftrightarrow> used buf = 0"
  using cb_content_blocks [OF assms] packet_blocks_ge_length [of ps] by (cases ps) auto

lemma cb_content_Cons_first:
  assumes "cb_content m buf (p # ps)" and "cb_shape buf"
  shows "block_len m (buffer buf) (start buf) = int (length p)"
    and "mem_read m (blk (buffer buf) (start buf + 1)) (length p) = p"
proof -
  have "seg m (buffer buf) (cb_lim buf) (start buf) (p # qs) e \<Longrightarrow>
      block_len m (buffer buf) (start buf) = int (length p)
      \<and> mem_read m (blk (buffer buf) (start buf + 1)) (length p) = p" for qs e
    by simp
  moreover have "seg m (buffer buf) (cb_lim buf) (start buf) [] (wrap buf) \<Longrightarrow> False"
    using assms(2) by (simp add: cb_state_defs)
  ultimately have "block_len m (buffer buf) (start buf) = int (length p)
      \<and> mem_read m (blk (buffer buf) (start buf + 1)) (length p) = p"
    using assms(1) by (auto simp: cb_content_def Cons_eq_append_conv split: if_splits)
  then show "block_len m (buffer buf) (start buf) = int (length p)"
    and "mem_read m (blk (buffer buf) (start buf + 1)) (length p) = p" by simp_all
qed


section \<open>Free space\<close>

definition cb_free_end :: "ChunkBuffer2 \<Rightarrow> int" where
  "cb_free_end buf = (if cb_wrapped buf then start buf else cb_size buf)"

lemma cb_input:
  assumes "cb_shape buf" and "input_cached buf"
  shows "if cb_free_end buf > ChunkBuffer2_end buf
    then input_dest buf = Some (blk (buffer buf) (ChunkBuffer2_end buf + 1))
      \<and> input_avail buf = c_int ((cb_free_end buf - ChunkBuffer2_end buf - 1) * 4)
    else input_dest buf = NULL \<and> input_avail buf = -1"
proof -
  have "\<not> cb_size buf - ChunkBuffer2_end buf - 1 < cb_mtu buf"
    using assms(1) by (simp add: cb_shape_def cb_lim_def)
  then show ?thesis
    using assms(2) by (auto simp: input_cached_iff cb_free_end_def cb_wrapped_def Let_def split: if_splits)
qed

lemma cb_input_le:
  assumes "cb_shape buf" and "input_cached buf" and "input_dest buf = Some a"
  shows "input_avail buf \<le> (cb_free_end buf - ChunkBuffer2_end buf - 1) * 4"
  using cb_input [OF assms(1,2)] assms(3)
    c_int_le [of "(cb_free_end buf - ChunkBuffer2_end buf - 1) * 4"] by (auto split: if_splits)

lemma cb_end_nonneg: "cb_shape buf \<Longrightarrow> 0 \<le> ChunkBuffer2_end buf"
  by (auto simp: cb_state_defs)

lemma cb_content_cong:
  assumes "cb_content m buf ps" and "cb_shape buf"
    and eq: "\<And>x. x < blk (buffer buf) (ChunkBuffer2_end buf)
        \<or> blk (buffer buf) (cb_free_end buf) \<le> x \<Longrightarrow> m x = m' x"
  shows "cb_content m' buf ps"
proof -
  have st: "0 \<le> start buf" using assms(2) by (simp add: cb_state_defs)
  show ?thesis
  proof (cases "cb_wrapped buf")
    case True
    with assms(1) obtain ps1 ps2 where ps: "ps = ps1 @ ps2"
      and s1: "seg m (buffer buf) (cb_lim buf) (start buf) ps1 (wrap buf)"
      and s2: "seg m (buffer buf) (cb_lim buf) 0 ps2 (ChunkBuffer2_end buf)"
      by (auto simp: cb_content_def)
    have "seg m' (buffer buf) (cb_lim buf) (start buf) ps1 (wrap buf)"
      by (rule seg_cong [OF s1 st]) (rule eq, simp add: cb_free_end_def True)
    moreover have "seg m' (buffer buf) (cb_lim buf) 0 ps2 (ChunkBuffer2_end buf)"
      by (rule seg_cong [OF s2]) (simp, rule eq, simp)
    ultimately show ?thesis using True ps by (auto simp: cb_content_def)
  next
    case False
    with assms(1) have "seg m (buffer buf) (cb_lim buf) (start buf) ps (ChunkBuffer2_end buf)"
      by (simp add: cb_content_def)
    then have "seg m' (buffer buf) (cb_lim buf) (start buf) ps (ChunkBuffer2_end buf)"
      by (rule seg_cong [OF _ st]) (rule eq, simp)
    with False show ?thesis by (simp add: cb_content_def)
  qed
qed

lemma cb_output_cached_cong:
  assumes "output_cached m buf" and "cb_content m buf ps" and "cb_content m' buf ps"
    and "cb_shape buf"
  shows "output_cached m' buf"
proof (cases ps)
  case Nil
  with cb_content_Nil_iff [OF assms(2)] assms(1) show ?thesis by (simp add: output_cached_iff)
next
  case (Cons p ps')
  with assms show ?thesis
    by (simp add: output_cached_iff cb_content_Cons_first(1))
qed

text \<open>The producer may fill the offered input area without disturbing the queued packets.\<close>

lemma cb_rep_write_input:
  assumes rep: "cb_rep m buf ps" and dest: "input_dest buf = Some a"
    and len: "int (length bs) \<le> input_avail buf"
  shows "cb_rep (mem_write m a bs) buf ps"
proof -
  have sh: "cb_shape buf" and c: "cb_content m buf ps" and ic: "input_cached buf"
    and oc: "output_cached m buf"
    using rep by (simp_all add: cb_rep_def)
  note inp = cb_input [OF sh ic] and e0 = cb_end_nonneg [OF sh]
  have a: "a = blk (buffer buf) (ChunkBuffer2_end buf + 1)"
    and fe: "cb_free_end buf > ChunkBuffer2_end buf"
    using inp dest by (auto split: if_splits)
  have av: "input_avail buf \<le> (cb_free_end buf - ChunkBuffer2_end buf - 1) * 4"
    by (rule cb_input_le [OF sh ic dest])
  have "a + length bs \<le> blk (buffer buf) (cb_free_end buf)"
  proof -
    have "blk (buffer buf) (cb_free_end buf)
        = a + 4 * nat (cb_free_end buf - ChunkBuffer2_end buf - 1)"
      using blk_add [of "ChunkBuffer2_end buf + 1" "cb_free_end buf - ChunkBuffer2_end buf - 1"
          "buffer buf"] e0 fe a by simp
    with len av fe show ?thesis by simp
  qed
  moreover have "blk (buffer buf) (ChunkBuffer2_end buf) \<le> a"
    using a by (simp add: blk_mono)
  ultimately have "cb_content (mem_write m a bs) buf ps"
    by (intro cb_content_cong [OF c sh]) (auto simp: mem_write_outside)
  with sh ic oc c show ?thesis
    by (auto simp: cb_rep_def intro: cb_output_cached_cong)
qed

section \<open>The operations on the queue\<close>

lemma cb_rep_Init:
  assumes "0 \<le> mtu" and "blocks_for mtu < blocks"
  shows "cb_rep m (ChunkBuffer2_Init m b blocks mtu) []"
proof -
  have "0 < blocks" using assms(2) blocks_for_nonneg [of mtu] by linarith
  with assms show ?thesis
    by (simp add: cb_rep_def ChunkBuffer2_Init_def Let_def cb_content_def)
      (auto simp: cb_state_defs)
qed

lemma cb_rep_Nil_output:
  "cb_rep m buf [] \<Longrightarrow> output_dest buf = NULL \<and> output_avail buf = -1"
  by (auto simp: cb_rep_def output_cached_iff dest: cb_content_Nil_iff split: if_splits)

lemma cb_rep_Cons_output:
  assumes "cb_rep m buf (p # ps)"
  shows "output_dest buf = Some (blk (buffer buf) (start buf + 1))"
    and "output_avail buf = int (length p)"
    and "mem_read m (blk (buffer buf) (start buf + 1)) (length p) = p"
proof -
  have sh: "cb_shape buf" and c: "cb_content m buf (p # ps)" and oc: "output_cached m buf"
    using assms by (simp_all add: cb_rep_def)
  have "used buf > 0"
    using cb_content_Nil_iff [OF c] sh by (auto simp: cb_state_defs)
  then show "output_dest buf = Some (blk (buffer buf) (start buf + 1))"
    and "output_avail buf = int (length p)"
    using oc cb_content_Cons_first(1) [OF c sh] by (auto simp: output_cached_iff)
  show "mem_read m (blk (buffer buf) (start buf + 1)) (length p) = p"
    by (rule cb_content_Cons_first(2) [OF c sh])
qed

lemma cb_rep_output_avail: "cb_rep m buf ps \<Longrightarrow> output_avail buf \<ge> 0 \<longleftrightarrow> ps \<noteq> []"
  using cb_rep_Nil_output [of m buf] cb_rep_Cons_output(2) [of m buf] by (cases ps) auto


lemma seg_submit:
  assumes sg: "seg m b lim s ps e" and s0: "0 \<le> s" and lim: "e \<le> lim"
    and len: "0 \<le> len" "len \<le> INT_MAX"
  shows "seg (set_block_len m b e len) b lim s (ps @ [mem_read m (blk b (e + 1)) (nat len)])
     (e + 1 + blocks_for len)"
proof -
  define m1 where "m1 = set_block_len m b e len"
  define p where "p = mem_read m (blk b (e + 1)) (nat len)"
  have e0: "0 \<le> e" using seg_le [OF sg] s0 by simp
  have lp: "length p = nat len" by (simp add: p_def)
  have "seg m1 b lim s ps e"
    by (rule seg_cong [OF sg s0]) (simp add: m1_def set_block_len_outside)
  moreover have "block_len m1 b e = int (length p)"
    using len by (simp add: m1_def block_len_set_same lp)
  moreover have "mem_read m1 (blk b (e + 1)) (length p) = p"
  proof -
    have "mem_read m1 (blk b (e + 1)) (length p) = mem_read m (blk b (e + 1)) (length p)"
      using e0 by (intro mem_read_eqI) (simp add: m1_def set_block_len_outside blk_add)
    then show ?thesis by (simp add: lp) (simp add: p_def)
  qed
  ultimately have "seg m1 b lim s (ps @ [p]) (e + 1 + blocks_for (int (length p)))"
    using lim by (intro seg_snoc)
  then show ?thesis using len by (simp add: lp p_def m1_def)
qed

text \<open>The ring state after a submission, before the cached positions are refreshed.\<close>

definition cb_submitted :: "ChunkBuffer2 \<Rightarrow> int \<Rightarrow> ChunkBuffer2" where
  "cb_submitted buf len =
     (let e' = ChunkBuffer2_end buf + 1 + blocks_for len;
          buf1 = buf\<lparr>used := used buf + (1 + blocks_for len)\<rparr>
      in if used buf1 \<le> wrap buf1 - start buf1 \<and> cb_mtu buf1 > cb_size buf1 - e' - 1
         then buf1\<lparr>wrap := e'\<rparr> else buf1)"

lemma SubmitPacket_unfold:
  "ChunkBuffer2_SubmitPacket m buf len =
     (let m1 = set_block_len m (buffer buf) (ChunkBuffer2_end buf) len;
          buf3 = ChunkBuffer2_update_input (cb_submitted buf len)
      in (m1, if used buf + (1 + blocks_for len) = 1 + blocks_for len
              then ChunkBuffer2_update_output m1 buf3 else buf3))"
  by (simp add: ChunkBuffer2_SubmitPacket_def cb_submitted_def Let_def)

lemma cb_submitted_straight:
  assumes sh: "cb_shape buf" and nw: "\<not> cb_wrapped buf" and len: "0 \<le> len"
    and fits: "len \<le> (cb_size buf - ChunkBuffer2_end buf - 1) * 4"
  shows "cb_shape (cb_submitted buf len)"
    and "cb_wrapped (cb_submitted buf len) \<Longrightarrow>
      wrap (cb_submitted buf len) = ChunkBuffer2_end buf + 1 + blocks_for len
      \<and> ChunkBuffer2_end (cb_submitted buf len) = 0"
    and "\<not> cb_wrapped (cb_submitted buf len) \<Longrightarrow>
      ChunkBuffer2_end (cb_submitted buf len) = ChunkBuffer2_end buf + 1 + blocks_for len"
proof -
  have lim: "ChunkBuffer2_end buf \<le> cb_lim buf" using sh by (simp add: cb_shape_def)
  have bl: "blocks_for len \<le> cb_size buf - ChunkBuffer2_end buf - 1"
    using fits len lim sh by (subst blocks_for_le) (auto simp: cb_state_defs)
  note [simp del] = blocks_for_nonneg
  note bn = blocks_for_nonneg [of len]
  show "cb_shape (cb_submitted buf len)"
    using sh nw len bl bn by (auto simp: cb_submitted_def Let_def cb_state_defs)
  show "cb_wrapped (cb_submitted buf len) \<Longrightarrow>
      wrap (cb_submitted buf len) = ChunkBuffer2_end buf + 1 + blocks_for len
      \<and> ChunkBuffer2_end (cb_submitted buf len) = 0"
    using sh nw len bl bn by (auto simp: cb_submitted_def Let_def cb_state_defs split: if_splits)
  show "\<not> cb_wrapped (cb_submitted buf len) \<Longrightarrow>
      ChunkBuffer2_end (cb_submitted buf len) = ChunkBuffer2_end buf + 1 + blocks_for len"
    using sh nw len bl bn by (auto simp: cb_submitted_def Let_def cb_state_defs split: if_splits)
qed

lemma cb_submitted_wrapped:
  assumes sh: "cb_shape buf" and w: "cb_wrapped buf" and len: "0 \<le> len"
    and e: "ChunkBuffer2_end buf < start buf"
    and fits: "len \<le> (start buf - ChunkBuffer2_end buf - 1) * 4"
  shows "cb_shape (cb_submitted buf len)" and "cb_wrapped (cb_submitted buf len)"
    and "wrap (cb_submitted buf len) = wrap buf"
    and "ChunkBuffer2_end (cb_submitted buf len) = ChunkBuffer2_end buf + 1 + blocks_for len"
proof -
  have bl: "blocks_for len \<le> start buf - ChunkBuffer2_end buf - 1"
    using fits len e by (subst blocks_for_le) auto
  note [simp del] = blocks_for_nonneg
  note bn = blocks_for_nonneg [of len]
  show "wrap (cb_submitted buf len) = wrap buf"
    using sh w bn by (auto simp: cb_submitted_def Let_def cb_state_defs)
  show "cb_shape (cb_submitted buf len)"
    using sh w len bl bn e by (auto simp: cb_submitted_def Let_def cb_state_defs)
  show "cb_wrapped (cb_submitted buf len)"
    using sh w len bl bn e by (auto simp: cb_submitted_def Let_def cb_state_defs)
  show "ChunkBuffer2_end (cb_submitted buf len) = ChunkBuffer2_end buf + 1 + blocks_for len"
    using sh w len bl bn e by (auto simp: cb_submitted_def Let_def cb_state_defs split: if_splits)
qed


lemma cb_submitted_fields [simp]:
  "buffer (cb_submitted buf len) = buffer buf"
  "start (cb_submitted buf len) = start buf"
  "cb_size (cb_submitted buf len) = cb_size buf"
  "cb_mtu (cb_submitted buf len) = cb_mtu buf"
  "cb_lim (cb_submitted buf len) = cb_lim buf"
  "used (cb_submitted buf len) = used buf + (1 + blocks_for len)"
  "output_dest (cb_submitted buf len) = output_dest buf"
  "output_avail (cb_submitted buf len) = output_avail buf"
  by (simp_all add: cb_submitted_def Let_def cb_lim_def)

lemma cb_content_submitted:
  assumes sh: "cb_shape buf" and c: "cb_content m buf ps" and ic: "input_cached buf"
    and dest: "input_dest buf = Some a" and len: "0 \<le> len" "len \<le> input_avail buf" "len \<le> INT_MAX"
  shows "cb_shape (cb_submitted buf len)"
    and "cb_content (set_block_len m (buffer buf) (ChunkBuffer2_end buf) len)
      (cb_submitted buf len) (ps @ [mem_read m a (nat len)])"
proof -
  let ?e = "ChunkBuffer2_end buf" and ?b = "buffer buf" and ?lim = "cb_lim buf"
  let ?m1 = "set_block_len m ?b ?e len" and ?buf' = "cb_submitted buf len"
  note inp = cb_input [OF sh ic]
  have a: "a = blk ?b (?e + 1)" and fe: "?e < cb_free_end buf"
    using inp dest by (auto split: if_splits)
  have av: "len \<le> (cb_free_end buf - ?e - 1) * 4"
    using cb_input_le [OF sh ic dest] len(2) by simp
  have lim: "?e \<le> ?lim" and st: "0 \<le> start buf"
    using sh by (auto simp: cb_shape_def ChunkBuffer2_assert_buffer_def)
  have "cb_shape ?buf' \<and> cb_content ?m1 ?buf' (ps @ [mem_read m a (nat len)])"
  proof (cases "cb_wrapped buf")
    case False
    then have av': "len \<le> (cb_size buf - ?e - 1) * 4" using av by (simp add: cb_free_end_def)
    note st' = cb_submitted_straight [OF sh False len(1) av']
    have "seg m ?b ?lim (start buf) ps ?e" using c False by (simp add: cb_content_def)
    from seg_submit [OF this st lim len(1,3)]
    have sg: "seg ?m1 ?b ?lim (start buf) (ps @ [mem_read m a (nat len)]) (?e + 1 + blocks_for len)"
      by (simp add: a)
    show ?thesis
    proof (cases "cb_wrapped ?buf'")
      case True
      with sg st' show ?thesis
        using cb_content_wrappedI [of ?buf' ?m1 "ps @ [mem_read m a (nat len)]" "[]"] by simp
    next
      case False
      with sg st' show ?thesis by (simp add: cb_content_def)
    qed
  next
    case True
    then have av': "len \<le> (start buf - ?e - 1) * 4" and e: "?e < start buf"
      using av fe by (simp_all add: cb_free_end_def)
    note st' = cb_submitted_wrapped [OF sh True len(1) e av']
    from c True obtain ps1 ps2 where ps: "ps = ps1 @ ps2"
      and s1: "seg m ?b ?lim (start buf) ps1 (wrap buf)" and s2: "seg m ?b ?lim 0 ps2 ?e"
      by (auto simp: cb_content_def)
    have "blk ?b ?e + 4 \<le> blk ?b (start buf)"
      using blk_mono [of "?e + 1" "start buf" ?b] e cb_end_nonneg [OF sh] by (simp add: blk_add)
    then have "seg ?m1 ?b ?lim (start buf) ps1 (wrap buf)"
      by (intro seg_cong [OF s1 st]) (simp add: set_block_len_outside)
    moreover have "seg ?m1 ?b ?lim 0 (ps2 @ [mem_read m a (nat len)]) (?e + 1 + blocks_for len)"
      using seg_submit [OF s2 _ lim len(1,3)] by (simp add: a)
    ultimately show ?thesis using st' ps
      cb_content_wrappedI [of ?buf' ?m1 ps1 "ps2 @ [mem_read m a (nat len)]"] by simp
  qed
  then show "cb_shape ?buf'" and "cb_content ?m1 ?buf' (ps @ [mem_read m a (nat len)])" by simp_all
qed

lemma cb_rep_Submit:
  assumes rep: "cb_rep m buf ps" and dest: "input_dest buf = Some a"
    and len: "0 \<le> len" "len \<le> input_avail buf" "len \<le> INT_MAX"
    and res: "ChunkBuffer2_SubmitPacket m buf len = (m', buf')"
  shows "cb_rep m' buf' (ps @ [mem_read m a (nat len)])"
proof -
  let ?p = "mem_read m a (nat len)" and ?buf2 = "cb_submitted buf len"
  have sh: "cb_shape buf" and c: "cb_content m buf ps" and ic: "input_cached buf"
    and oc: "output_cached m buf"
    using rep by (simp_all add: cb_rep_def)
  have m': "m' = set_block_len m (buffer buf) (ChunkBuffer2_end buf) len"
    and buf': "buf' = (if used buf = 0
        then ChunkBuffer2_update_output m' (ChunkBuffer2_update_input ?buf2)
        else ChunkBuffer2_update_input ?buf2)"
    using res by (auto simp: SubmitPacket_unfold Let_def)
  have sh': "cb_shape ?buf2" and c': "cb_content m' ?buf2 (ps @ [?p])"
    using cb_content_submitted [OF sh c ic dest len] by (simp_all add: m')
  have "output_cached m' buf'"
  proof (cases ps)
    case Nil
    with cb_content_Nil_iff [OF c] show ?thesis by (simp add: buf')
  next
    case (Cons q qs)
    then have u: "used buf > 0" using cb_content_Nil_iff [OF c] sh by (auto simp: cb_state_defs)
    have "block_len m' (buffer buf) (start buf) = int (length q)"
      using cb_content_Cons_first(1) [OF c' [unfolded Cons append_Cons] sh'] by simp
    moreover have "block_len m (buffer buf) (start buf) = int (length q)"
      using cb_content_Cons_first(1) [OF c [unfolded Cons] sh] .
    moreover have "0 < used buf + (1 + blocks_for len)"
      using u blocks_for_nonneg [of len] by linarith
    ultimately show ?thesis using u oc by (simp add: buf' output_cached_iff)
  qed
  then show ?thesis using sh' c' by (simp add: cb_rep_def buf')
qed

section \<open>Removing the first packet\<close>

definition cb_consumed :: "ChunkBuffer2 \<Rightarrow> int \<Rightarrow> ChunkBuffer2" where
  "cb_consumed buf bl =
     (let buf1 = buf\<lparr>start := start buf + (1 + bl), used := used buf - (1 + bl)\<rparr>
      in if start buf1 = wrap buf1 then buf1\<lparr>start := 0, wrap := cb_size buf1\<rparr> else buf1)"

lemma ConsumePacket_unfold:
  "ChunkBuffer2_ConsumePacket m buf =
     (let buf2 = cb_consumed buf (blocks_for (block_len m (buffer buf) (start buf)))
      in ChunkBuffer2_update_output m
           (if cb_wrapped buf then ChunkBuffer2_update_input buf2 else buf2))"
  by (simp add: ChunkBuffer2_ConsumePacket_def cb_consumed_def cb_wrapped_def Let_def)

lemma cb_consumed_fields [simp]:
  "buffer (cb_consumed buf bl) = buffer buf"
  "cb_size (cb_consumed buf bl) = cb_size buf"
  "cb_mtu (cb_consumed buf bl) = cb_mtu buf"
  "cb_lim (cb_consumed buf bl) = cb_lim buf"
  "used (cb_consumed buf bl) = used buf - (1 + bl)"
  "input_dest (cb_consumed buf bl) = input_dest buf"
  "input_avail (cb_consumed buf bl) = input_avail buf"
  by (simp_all add: cb_consumed_def Let_def cb_lim_def)

lemma seg_start_le:
  "seg m b lim s ps e \<Longrightarrow> e \<le> lim \<Longrightarrow> s \<le> lim"
  by (cases ps) auto

lemma cb_consumed_content:
  assumes sh: "cb_shape buf" and c: "cb_content m buf (p # ps)"
    and bl: "bl = blocks_for (int (length p))"
  shows "cb_shape (cb_consumed buf bl)" and "cb_content m (cb_consumed buf bl) ps"
    and "ChunkBuffer2_end (cb_consumed buf bl) = ChunkBuffer2_end buf"
    and "\<not> cb_wrapped buf \<Longrightarrow> \<not> cb_wrapped (cb_consumed buf bl)"
    and "cb_wrapped (cb_consumed buf bl) \<Longrightarrow> start buf \<le> start (cb_consumed buf bl)"
proof -
  let ?e = "ChunkBuffer2_end buf" and ?b = "buffer buf" and ?lim = "cb_lim buf"
  let ?buf' = "cb_consumed buf bl" and ?s' = "start buf + 1 + bl"
  have bn: "0 \<le> bl" by (simp add: bl)
  have lim: "?e \<le> ?lim" using sh by (simp add: cb_shape_def)
  have "cb_shape ?buf' \<and> cb_content m ?buf' ps \<and> ChunkBuffer2_end ?buf' = ?e
      \<and> (\<not> cb_wrapped buf \<longrightarrow> \<not> cb_wrapped ?buf') \<and> (cb_wrapped ?buf' \<longrightarrow> start buf \<le> start ?buf')"
  proof (cases "cb_wrapped buf")
    case False
    have sg: "seg m ?b ?lim ?s' ps ?e"
      using c False by (simp add: cb_content_def bl)
    have le: "?s' \<le> ?e" "?s' \<le> ?lim" using seg_le [OF sg] seg_start_le [OF sg lim] by simp_all
    with sh False bn have f: "cb_consumed buf bl = buf\<lparr>start := ?s', used := used buf - (1 + bl)\<rparr>"
      by (auto simp: cb_consumed_def Let_def cb_state_defs)
    have "cb_shape ?buf' \<and> \<not> cb_wrapped ?buf' \<and> ChunkBuffer2_end ?buf' = ?e \<and> start ?buf' = ?s'"
      using sh False le bn unfolding f by (auto simp: cb_state_defs)
    then show ?thesis using sg by (simp add: cb_content_def)
  next
    case True
    then obtain ps1 ps2 where ps: "ps = ps1 @ ps2"
      and s1: "seg m ?b ?lim ?s' ps1 (wrap buf)" and s2: "seg m ?b ?lim 0 ps2 ?e"
      using c sh by (auto simp: cb_content_def Cons_eq_append_conv bl cb_state_defs)
    show ?thesis
    proof (cases "?s' = wrap buf")
      case eq: True
      then have "ps1 = []"
        using seg_blocks [OF s1] packet_blocks_ge_length [of ps1] by (cases ps1) auto
      have f: "cb_consumed buf bl = buf\<lparr>start := 0, used := used buf - (1 + bl), wrap := cb_size buf\<rparr>"
        using eq by (simp add: cb_consumed_def Let_def algebra_simps)
      have "cb_shape ?buf' \<and> \<not> cb_wrapped ?buf' \<and> ChunkBuffer2_end ?buf' = ?e \<and> start ?buf' = 0"
        using sh True eq bn unfolding f by (auto simp: cb_state_defs)
      then show ?thesis using s2 \<open>ps1 = []\<close> ps True by (simp add: cb_content_def)
    next
      case ne: False
      then have "ps1 \<noteq> []" using s1 by auto
      then have le: "?s' < wrap buf" "?s' \<le> ?lim" using s1 ne seg_le [OF s1] by (auto simp: neq_Nil_conv)
      have f: "cb_consumed buf bl = buf\<lparr>start := ?s', used := used buf - (1 + bl)\<rparr>"
        using ne by (simp add: cb_consumed_def Let_def algebra_simps)
      have "cb_shape ?buf' \<and> cb_wrapped ?buf' \<and> ChunkBuffer2_end ?buf' = ?e \<and> start ?buf' = ?s'
          \<and> wrap ?buf' = wrap buf"
        using sh True le bn unfolding f by (auto simp: cb_state_defs)
      then show ?thesis using s1 s2 ps bn True by (auto simp: cb_content_def)
    qed
  qed
  then show "cb_shape ?buf'" "cb_content m ?buf' ps" "ChunkBuffer2_end ?buf' = ?e"
    "\<not> cb_wrapped buf \<Longrightarrow> \<not> cb_wrapped ?buf'"
    "cb_wrapped ?buf' \<Longrightarrow> start buf \<le> start ?buf'" by simp_all
qed

lemma cb_rep_Consume:
  assumes rep: "cb_rep m buf (p # ps)"
  shows "cb_rep m (ChunkBuffer2_ConsumePacket m buf) ps"
proof -
  have sh: "cb_shape buf" and c: "cb_content m buf (p # ps)" and ic: "input_cached buf"
    using rep by (simp_all add: cb_rep_def)
  define bl where "bl = blocks_for (int (length p))"
  let ?buf2 = "cb_consumed buf bl"
  note cc = cb_consumed_content [OF sh c bl_def]
  have eq: "ChunkBuffer2_ConsumePacket m buf = ChunkBuffer2_update_output m
      (if cb_wrapped buf then ChunkBuffer2_update_input ?buf2 else ?buf2)"
    by (simp add: ConsumePacket_unfold Let_def bl_def cb_content_Cons_first(1) [OF c sh])
  have "\<not> cb_wrapped buf \<Longrightarrow> input_cached ?buf2"
    using ic cc(3,4) by (simp add: input_cached_iff Let_def cb_wrapped_def split: if_splits)
  then have "input_cached (if cb_wrapped buf then ChunkBuffer2_update_input ?buf2 else ?buf2)"
    by simp
  with cc(1,2) show ?thesis by (simp add: eq cb_rep_def)
qed


section \<open>Capacity, stability of the offered area, and the C assertions\<close>

text \<open>
  The space behind the offered address is an \<^verbatim>\<open>int\<close>: up to \<open>cb_blocks_max\<close> blocks, a ring of 2 GiB,
  it is the number of bytes that are free. \<^verbatim>\<open>ChunkBuffer2_calc_blocks\<close> allows larger rings, in which it
  may wrap.
\<close>

abbreviation cb_blocks_max :: int where
  "cb_blocks_max \<equiv> 2 ^ 29"

lemma cb_input_exact:
  assumes "cb_shape buf" and "input_cached buf" and "cb_size buf \<le> cb_blocks_max"
    and "cb_free_end buf > ChunkBuffer2_end buf"
  shows "input_avail buf = (cb_free_end buf - ChunkBuffer2_end buf - 1) * 4"
proof -
  have "cb_free_end buf \<le> cb_size buf" using assms(1) by (auto simp: cb_free_end_def cb_state_defs)
  then have "(cb_free_end buf - ChunkBuffer2_end buf - 1) * 4 \<le> INT_MAX"
    using cb_end_nonneg [OF assms(1)] assms(3) by simp
  then show ?thesis using cb_input [OF assms(1,2)] assms(4) by (simp add: c_int_id)
qed

lemma input_avail_wraps: "input_avail (ChunkBuffer2_Init m b (cb_blocks_max + 1) 0) = - INT_MAX - 1"
  by (simp add: ChunkBuffer2_Init_def ChunkBuffer2_update_input_def ChunkBuffer2_update_output_def
      ChunkBuffer2_end_def Let_def c_int_def)

text \<open>
  While a receive into the offered area is in progress packets may be consumed: the area stays
  where it is and, up to that size, never shrinks.
\<close>

lemma cb_Consume_input_stable:
  assumes rep: "cb_rep m buf (p # ps)" and dest: "input_dest buf = Some a" and max: "cb_size buf \<le> cb_blocks_max"
  shows "input_dest (ChunkBuffer2_ConsumePacket m buf) = Some a"
    and "input_avail buf \<le> input_avail (ChunkBuffer2_ConsumePacket m buf)"
proof -
  have sh: "cb_shape buf" and c: "cb_content m buf (p # ps)" and ic: "input_cached buf"
    using rep by (simp_all add: cb_rep_def)
  define bl where "bl = blocks_for (int (length p))"
  let ?buf2 = "cb_consumed buf bl" and ?buf' = "ChunkBuffer2_ConsumePacket m buf"
  note cc = cb_consumed_content [OF sh c bl_def]
  have eq: "?buf' = ChunkBuffer2_update_output m
      (if cb_wrapped buf then ChunkBuffer2_update_input ?buf2 else ?buf2)"
    by (simp add: ConsumePacket_unfold Let_def bl_def cb_content_Cons_first(1) [OF c sh])
  have f: "buffer ?buf' = buffer buf" "ChunkBuffer2_end ?buf' = ChunkBuffer2_end buf"
    "cb_free_end ?buf' = cb_free_end ?buf2"
    using cc(3) by (simp_all add: eq cb_free_end_def)
  have fe: "cb_free_end buf \<le> cb_free_end ?buf2"
    using cc(4,5) sh by (auto simp: cb_free_end_def) (auto simp: cb_state_defs)
  have "cb_rep m ?buf' ps" by (rule cb_rep_Consume [OF rep])
  then have sh': "cb_shape ?buf'" and ic': "input_cached ?buf'" by (simp_all add: cb_rep_def)
  have sz: "cb_size ?buf' \<le> cb_blocks_max" using max by (simp add: eq)
  have free: "cb_free_end buf > ChunkBuffer2_end buf" and a: "a = blk (buffer buf) (ChunkBuffer2_end buf + 1)"
    using cb_input [OF sh ic] dest by (auto split: if_splits)
  have free': "cb_free_end ?buf' > ChunkBuffer2_end ?buf'" using free fe f by simp
  show "input_dest ?buf' = Some a" using cb_input [OF sh' ic'] free' f a by simp
  show "input_avail buf \<le> input_avail ?buf'"
    using cb_input_exact [OF sh ic max free] cb_input_exact [OF sh' ic' sz free'] fe f by simp
qed

lemma calc_blocks_bounds:
  assumes "ChunkBuffer2_calc_blocks mtu num \<noteq> -1" and "0 \<le> mtu" and "0 < num"
  shows "ChunkBuffer2_calc_blocks mtu num = (1 + blocks_for mtu) * (num + 1)"
    and "ChunkBuffer2_calc_blocks mtu num \<le> INT_MAX"
    and "blocks_for mtu < ChunkBuffer2_calc_blocks mtu num"
proof -
  show eq: "ChunkBuffer2_calc_blocks mtu num = (1 + blocks_for mtu) * (num + 1)"
    using assms(1) by (auto simp: ChunkBuffer2_calc_blocks_def Let_def split: if_splits)
  have "1 + blocks_for mtu \<le> INT_MAX div (num + 1)"
    using assms(1) by (auto simp: ChunkBuffer2_calc_blocks_def Let_def split: if_splits)
  then have "(1 + blocks_for mtu) * (num + 1) \<le> INT_MAX div (num + 1) * (num + 1)"
    using assms(3) by (intro mult_right_mono) auto
  also have "\<dots> \<le> INT_MAX" using assms(3) by (simp add: minus_mod_eq_div_mult [symmetric])
  finally show "ChunkBuffer2_calc_blocks mtu num \<le> INT_MAX" by (simp add: eq)
  have "(1 + blocks_for mtu) * 1 \<le> (1 + blocks_for mtu) * (num + 1)"
    using assms(3) blocks_for_nonneg [of mtu] by (intro mult_left_mono) auto
  then show "blocks_for mtu < ChunkBuffer2_calc_blocks mtu num" by (simp add: eq)
qed

lemma cb_capacity:
  assumes rep: "cb_rep m buf ps" and mtu: "0 \<le> mtu" "cb_mtu buf = blocks_for mtu"
    and size: "cb_size buf = (1 + blocks_for mtu) * (num + 1)"
    and ps: "\<And>p. p \<in> set ps \<Longrightarrow> int (length p) \<le> mtu" and n: "int (length ps) < num"
    and max: "cb_size buf \<le> cb_blocks_max"
  shows "mtu \<le> input_avail buf"
proof -
  have sh: "cb_shape buf" and c: "cb_content m buf ps" and ic: "input_cached buf"
    using rep by (simp_all add: cb_rep_def)
  let ?k = "blocks_for mtu" and ?e = "ChunkBuffer2_end buf"
  have k: "0 \<le> ?k" "mtu \<le> 4 * ?k" using blocks_for_ge [OF mtu(1)] by simp_all
  have free: "?k + 1 \<le> cb_free_end buf - ?e"
  proof (cases "cb_wrapped buf")
    case False
    then show ?thesis using sh mtu(2) by (simp add: cb_free_end_def cb_shape_def cb_lim_def)
  next
    case True
    have "blocks_for (int (length p)) \<le> ?k" if "p \<in> set ps" for p
      using ps [OF that] k by (subst blocks_for_le) auto
    then have "packet_blocks ps \<le> int (length ps) * (1 + ?k)" by (rule packet_blocks_le)
    also have "\<dots> \<le> (num - 1) * (1 + ?k)" using n k by (intro mult_right_mono) auto
    finally have u: "used buf \<le> (num - 1) * (1 + ?k)" using cb_content_blocks [OF c] by simp
    have w: "cb_size buf - wrap buf \<le> ?k" using sh mtu(2) k by (auto simp: cb_shape_def)
    have f: "cb_free_end buf - ?e = wrap buf - used buf"
      using True by (simp add: cb_free_end_def ChunkBuffer2_end_def cb_wrapped_def)
    obtain ub where ub: "ub = (num - 1) * (1 + ?k)" by simp
    have sz: "cb_size buf = ub + 2 * (1 + ?k)" by (simp add: size ub algebra_simps)
    have "used buf \<le> ub" using u by (simp add: ub)
    with w f sz show ?thesis by (simp add: f)
  qed
  have "cb_free_end buf > ?e" using free k by linarith
  have "(cb_free_end buf - ?e - 1) * 4 \<ge> ?k * 4" using free by (intro mult_right_mono) auto
  then show ?thesis using cb_input_exact [OF sh ic max \<open>cb_free_end buf > ?e\<close>] k(2) by simp
qed

lemma cb_rep_assertions:
  assumes rep: "cb_rep m buf ps"
  shows "ChunkBuffer2_assert_buffer buf" and "ChunkBuffer2_assert_io m buf"
proof -
  have sh: "cb_shape buf" and c: "cb_content m buf ps" and ic: "input_cached buf"
    and oc: "output_cached m buf"
    using rep by (simp_all add: cb_rep_def)
  show "ChunkBuffer2_assert_buffer buf" using sh by (simp add: cb_shape_def)
  show "ChunkBuffer2_assert_io m buf"
  proof (cases ps)
    case Nil
    then have "used buf = 0" using cb_content_Nil_iff [OF c] by simp
    with ic oc show ?thesis
      by (auto simp: ChunkBuffer2_assert_io_def input_cached_iff output_cached_iff Let_def)
  next
    case (Cons p qs)
    let ?bl = "blocks_for (int (length p))"
    have bl: "block_len m (buffer buf) (start buf) = int (length p)"
      by (rule cb_content_Cons_first(1) [OF c [unfolded Cons] sh])
    have "used buf = 1 + ?bl + packet_blocks qs" using cb_content_blocks [OF c] Cons by simp
    then have "?bl \<le> used buf - 1" and "0 < used buf"
      using packet_blocks_ge_length [of qs] blocks_for_nonneg [of "int (length p)"]
      by (auto simp del: blocks_for_nonneg)
    moreover have "?bl \<le> wrap buf - start buf - 1"
    proof (cases "cb_wrapped buf")
      case True
      then obtain ps1 where "seg m (buffer buf) (cb_lim buf) (start buf + 1 + ?bl) ps1 (wrap buf)"
        using c sh Cons by (auto simp: cb_content_def Cons_eq_append_conv cb_state_defs)
      then show ?thesis using seg_le by force
    next
      case False
      with \<open>?bl \<le> used buf - 1\<close> show ?thesis by (simp add: cb_wrapped_def)
    qed
    ultimately show ?thesis using ic oc bl
      by (auto simp: ChunkBuffer2_assert_io_def input_cached_iff output_cached_iff Let_def)
  qed
qed


section \<open>The ring as a packet queue\<close>

text \<open>
  The way a producer and a consumer use the ring: write the packet into the offered area and
  submit it; read the first packet and consume it.
\<close>

definition cb_put :: "byte list \<Rightarrow> mem \<times> ChunkBuffer2 \<Rightarrow> (mem \<times> ChunkBuffer2) option" where
  "cb_put bs = (\<lambda>(m, buf).
     case input_dest buf of
       None \<Rightarrow> None
     | Some a \<Rightarrow>
         if int (length bs) \<le> input_avail buf \<and> int (length bs) \<le> INT_MAX
         then Some (ChunkBuffer2_SubmitPacket (mem_write m a bs) buf (int (length bs)))
         else None)"

definition cb_get :: "mem \<times> ChunkBuffer2 \<Rightarrow> (byte list \<times> (mem \<times> ChunkBuffer2)) option" where
  "cb_get = (\<lambda>(m, buf).
     case output_dest buf of
       None \<Rightarrow> None
     | Some a \<Rightarrow> Some (mem_read m a (nat (output_avail buf)), (m, ChunkBuffer2_ConsumePacket m buf)))"

lemma cb_rep_put:
  assumes rep: "cb_rep m buf q" and put: "cb_put bs (m, buf) = Some (m', buf')"
  shows "cb_rep m' buf' (q @ [bs])"
proof -
  obtain a where a: "input_dest buf = Some a" and len: "int (length bs) \<le> input_avail buf"
      "int (length bs) \<le> INT_MAX"
    and sub: "ChunkBuffer2_SubmitPacket (mem_write m a bs) buf (int (length bs)) = (m', buf')"
    using put by (auto simp: cb_put_def split: option.splits if_splits)
  have "cb_rep (mem_write m a bs) buf q" by (rule cb_rep_write_input [OF rep a len(1)])
  from cb_rep_Submit [OF this a _ len sub]
  show ?thesis by (simp add: mem_simps)
qed

interpretation ring: packet_fifo "\<lambda>(m, buf). cb_rep m buf" cb_put cb_get
proof (unfold_locales, goal_cases)
  case (1 s q b s')
  then show ?case by (auto split: prod.splits intro: cb_rep_put)
next
  case (2 s)
  then show ?case by (auto simp: cb_get_def dest: cb_rep_Nil_output split: prod.splits)
next
  case (3 s b q)
  then show ?case
    by (auto simp: cb_get_def cb_rep_Cons_output split: prod.splits intro: cb_rep_Consume)
qed

text \<open>
  C10: the circular packet buffer is a FIFO queue. Whatever sequence of writes and reads is
  performed on a freshly initialised ring of at least one MTU-sized packet, the packets accepted
  are, in order, the packets delivered followed by the packets still represented in the ring.
\<close>

theorem ring_is_fifo:
  assumes "0 \<le> mtu" and "blocks_for mtu < blocks"
  shows "case fifo_run cb_put cb_get xs (m, ChunkBuffer2_Init m b blocks mtu) of
    (acc, del, (m', buf')) \<Rightarrow> \<exists>q. cb_rep m' buf' q \<and> acc = del @ q"
  using ring.run_from_empty [of "(m, ChunkBuffer2_Init m b blocks mtu)" xs] cb_rep_Init [OF assms]
  by (auto split: prod.splits)

theorem ring_is_fifo_witness:
  "0 \<le> (6::int) \<and> blocks_for 6 < 8 \<and>
   (case fifo_run cb_put cb_get [Put [1, 2, 3], Put [], Get, Put [4, 5, 6, 7, 8], Get]
       ((\<lambda>_. 0), ChunkBuffer2_Init (\<lambda>_. 0) 64 8 6) of
    (acc, del, (m', buf')) \<Rightarrow> \<exists>q. cb_rep m' buf' q \<and> acc = del @ q)"
proof -
  have h: "0 \<le> (6::int)" "blocks_for 6 < 8" by (simp_all add: blocks_for_def bdivide_up_def)
  show ?thesis using h ring_is_fifo [OF h, of "[Put [1, 2, 3], Put [], Get, Put [4, 5, 6, 7, 8], Get]"
      "\<lambda>_. 0" 64] by simp
qed

text \<open>
  C20: capacity. A ring sized by \<^verbatim>\<open>ChunkBuffer2_calc_blocks(mtu, num)\<close> offers room for one more
  packet of \<^verbatim>\<open>mtu\<close> bytes as long as it holds fewer than \<^verbatim>\<open>num\<close> packets of at most that length,
  wherever in the ring they lie, provided that it has at most \<open>2 ^ 29\<close> blocks, so that the free bytes
  fit the \<^verbatim>\<open>int\<close> that holds them. The block count itself never exceeds \<^verbatim>\<open>INT_MAX\<close>.
\<close>

theorem ring_capacity:
  assumes "cb_rep m buf ps" and "0 \<le> mtu" and "0 < num"
    and "ChunkBuffer2_calc_blocks mtu num \<noteq> -1"
    and "cb_size buf = ChunkBuffer2_calc_blocks mtu num" and "cb_mtu buf = blocks_for mtu"
    and "\<forall>p \<in> set ps. int (length p) \<le> mtu" and "int (length ps) < num"
    and "cb_size buf \<le> 2 ^ 29"
  shows "mtu \<le> input_avail buf \<and> ChunkBuffer2_calc_blocks mtu num \<le> INT_MAX"
  using cb_capacity [OF assms(1,2,6)] calc_blocks_bounds [OF assms(4,2,3)] assms(5,7,8,9) by auto

theorem ring_capacity_witness:
  "ChunkBuffer2_calc_blocks 6 2 \<noteq> -1 \<and>
   6 \<le> input_avail (ChunkBuffer2_Init (\<lambda>_. 0) 64 9 6)
   \<and> ChunkBuffer2_calc_blocks 6 2 \<le> INT_MAX"
proof -
  let ?buf = "ChunkBuffer2_Init (\<lambda>_. 0) 64 9 6"
  have c: "ChunkBuffer2_calc_blocks 6 2 = 9"
    by (simp add: ChunkBuffer2_calc_blocks_def blocks_for_def bdivide_up_def)
  have f: "cb_size ?buf = 9" "cb_mtu ?buf = blocks_for 6"
    by (simp_all add: ChunkBuffer2_Init_def Let_def)
  have r: "cb_rep (\<lambda>_. 0) ?buf []"
    by (rule cb_rep_Init) (simp_all add: blocks_for_def bdivide_up_def)
  show ?thesis using ring_capacity [OF r, of 6 2] c f by simp
qed

text \<open>
  The area a receive is reading into survives the consumption of other packets, in a ring of at most
  \<open>2 ^ 29\<close> blocks. Consuming
  the first packet moves neither the offered input address nor shrinks the space behind it, and
  the packets that follow are the queue that is left.
\<close>

theorem ring_consume_keeps_input:
  assumes "cb_rep m buf (p # ps)" and "input_dest buf = Some a" and "cb_size buf \<le> cb_blocks_max"
  shows "cb_rep m (ChunkBuffer2_ConsumePacket m buf) ps
    \<and> input_dest (ChunkBuffer2_ConsumePacket m buf) = Some a
    \<and> input_avail buf \<le> input_avail (ChunkBuffer2_ConsumePacket m buf)"
  using cb_rep_Consume [OF assms(1)] cb_Consume_input_stable [OF assms] by simp

theorem ring_consume_keeps_input_witness:
  "\<exists>m buf. cb_rep m buf [[7, 8]] \<and> cb_rep m (ChunkBuffer2_ConsumePacket m buf) []
    \<and> input_dest (ChunkBuffer2_ConsumePacket m buf) = input_dest buf
    \<and> input_avail buf \<le> input_avail (ChunkBuffer2_ConsumePacket m buf)"
proof -
  let ?i = "ChunkBuffer2_Init (\<lambda>_. 0) 64 9 6"
  have r: "cb_rep (\<lambda>_. 0) ?i []"
    by (rule cb_rep_Init) (simp_all add: blocks_for_def bdivide_up_def)
  have i: "input_dest ?i = Some 68" "input_avail ?i = 32"
    by (simp_all add: ChunkBuffer2_Init_def Let_def ChunkBuffer2_update_input_def
        ChunkBuffer2_update_output_def ChunkBuffer2_end_def blk_def blocks_for_def bdivide_up_def c_int_def)
  obtain m1 buf1 where s: "cb_put [7, 8] ((\<lambda>_. 0), ?i) = Some (m1, buf1)"
    by (cases "ChunkBuffer2_SubmitPacket (mem_write (\<lambda>_. 0) 68 [7, 8]) ?i 2")
      (simp add: cb_put_def i)
  have r1: "cb_rep m1 buf1 [[7, 8]]" using cb_rep_put [OF r s] by simp
  have "ChunkBuffer2_SubmitPacket (mem_write (\<lambda>_. 0) 68 [7, 8]) ?i 2 = (m1, buf1)"
    using s by (simp add: cb_put_def i)
  then have d: "input_dest buf1 = Some 76"
    by (auto simp: ChunkBuffer2_SubmitPacket_def ChunkBuffer2_Init_def Let_def
        ChunkBuffer2_update_input_def ChunkBuffer2_update_output_def ChunkBuffer2_end_def
        blk_def blocks_for_def bdivide_up_def)
  have "cb_size buf1 \<le> cb_blocks_max"
    using \<open>ChunkBuffer2_SubmitPacket _ ?i 2 = (m1, buf1)\<close>
    by (auto simp: SubmitPacket_unfold Let_def ChunkBuffer2_Init_def)
  from ring_consume_keeps_input [OF r1 d this] r1 d show ?thesis
    by (intro exI [of _ m1] exI [of _ buf1]) simp
qed

text \<open>
  Every state the ring reaches satisfies the assertions the C code checks in debug builds,
  \<^verbatim>\<open>_ChunkBuffer2_assert_buffer\<close> and \<^verbatim>\<open>_ChunkBuffer2_assert_io\<close>.
\<close>

theorem ring_assertions_hold:
  assumes "0 \<le> mtu" and "blocks_for mtu < blocks"
  shows "case fifo_run cb_put cb_get xs (m, ChunkBuffer2_Init m b blocks mtu) of
    (acc, del, (m', buf')) \<Rightarrow> ChunkBuffer2_assert_buffer buf' \<and> ChunkBuffer2_assert_io m' buf'"
proof -
  obtain acc del m' buf' where run:
    "fifo_run cb_put cb_get xs (m, ChunkBuffer2_Init m b blocks mtu) = (acc, del, (m', buf'))"
    by (metis prod_cases3 surj_pair)
  then obtain q where "cb_rep m' buf' q"
    using ring.run_from_empty [of "(m, ChunkBuffer2_Init m b blocks mtu)" xs] cb_rep_Init [OF assms]
    by auto
  then show ?thesis using run cb_rep_assertions by simp
qed

theorem ring_assertions_hold_witness:
  "0 \<le> (6::int) \<and> blocks_for 6 < 8 \<and>
   (case fifo_run cb_put cb_get [Put [1, 2, 3], Get] ((\<lambda>_. 0), ChunkBuffer2_Init (\<lambda>_. 0) 64 8 6) of
    (acc, del, (m', buf')) \<Rightarrow> ChunkBuffer2_assert_buffer buf' \<and> ChunkBuffer2_assert_io m' buf')"
proof -
  have h: "0 \<le> (6::int)" "blocks_for 6 < 8" by (simp_all add: blocks_for_def bdivide_up_def)
  show ?thesis using h ring_assertions_hold [OF h, of "[Put [1, 2, 3], Get]" "\<lambda>_. 0" 64] by simp
qed

end
