(* ===== verification/BPending.thy ===== *)
theory BPending
  imports Prelude
begin

text \<open>
  \<^verbatim>\<open>base/BPending.c\<close> and \<^verbatim>\<open>structure/SLinkedList_impl.h\<close>: the job list on which the whole event
  loop runs. Jobs are the nodes of an intrusive doubly linked list (the list is instantiated
  without a \<^verbatim>\<open>last\<close> pointer); a job that is not pending points to itself. \<open>bp_heap\<close> is the heap of
  \<^verbatim>\<open>BSmallPending\<close> objects, addressed by natural numbers, and \<open>bp_first\<close> the \<^verbatim>\<open>first\<close> field of
  the group's list.

  \<open>job_set\<close> and \<open>job_unset\<close> are the abstract operations on the stack of pending jobs, newest
  first; the refinement to them is what the flow theories rely on. The locale \<open>job_group\<close> is
  that contract.
\<close>

section \<open>The code\<close>

record 'h BSmallPending =
  bp_handler :: 'h
  bp_prev :: "nat option"
  bp_next :: "nat option"

record 'h BPendingGroup =
  bp_first :: "nat option"
  bp_heap :: "nat \<Rightarrow> 'h BSmallPending"

definition set_next :: "nat \<Rightarrow> nat option \<Rightarrow> 'h BPendingGroup \<Rightarrow> 'h BPendingGroup" where
  "set_next p v g = g\<lparr>bp_heap := (bp_heap g)(p := (bp_heap g p)\<lparr>bp_next := v\<rparr>)\<rparr>"

definition set_prev :: "nat \<Rightarrow> nat option \<Rightarrow> 'h BPendingGroup \<Rightarrow> 'h BPendingGroup" where
  "set_prev p v g = g\<lparr>bp_heap := (bp_heap g)(p := (bp_heap g p)\<lparr>bp_prev := v\<rparr>)\<rparr>"

definition SLinkedList_Init :: "'h BPendingGroup \<Rightarrow> 'h BPendingGroup" where
  "SLinkedList_Init g = g\<lparr>bp_first := None\<rparr>"

definition SLinkedList_First :: "'h BPendingGroup \<Rightarrow> nat option" where
  "SLinkedList_First g = bp_first g"

definition SLinkedList_IsEmpty :: "'h BPendingGroup \<Rightarrow> bool" where
  "SLinkedList_IsEmpty g = (bp_first g = None)"

definition SLinkedList_Prepend :: "'h BPendingGroup \<Rightarrow> nat \<Rightarrow> 'h BPendingGroup" where
  "SLinkedList_Prepend g entry =
     (let g1 = set_next entry (bp_first g) (set_prev entry None g);
          g2 = (case bp_first g1 of None \<Rightarrow> g1 | Some f \<Rightarrow> set_prev f (Some entry) g1)
      in g2\<lparr>bp_first := Some entry\<rparr>)"

definition SLinkedList_Remove :: "'h BPendingGroup \<Rightarrow> nat \<Rightarrow> 'h BPendingGroup" where
  "SLinkedList_Remove g entry =
     (let g1 = (case bp_prev (bp_heap g entry) of
                  Some p \<Rightarrow> set_next p (bp_next (bp_heap g entry)) g
                | None \<Rightarrow> g\<lparr>bp_first := bp_next (bp_heap g entry)\<rparr>)
      in case bp_next (bp_heap g1 entry) of
           Some n \<Rightarrow> set_prev n (bp_prev (bp_heap g1 entry)) g1
         | None \<Rightarrow> g1)"

definition BPendingGroup_Init :: "'h BPendingGroup \<Rightarrow> 'h BPendingGroup" where
  "BPendingGroup_Init g = SLinkedList_Init g"

definition BPendingGroup_HasJobs :: "'h BPendingGroup \<Rightarrow> bool" where
  "BPendingGroup_HasJobs g = (\<not> SLinkedList_IsEmpty g)"

definition BPendingGroup_ExecuteJob :: "'h BPendingGroup \<Rightarrow> ('h BPendingGroup \<times> 'h) option" where
  "BPendingGroup_ExecuteJob g =
     (case SLinkedList_First g of
        None \<Rightarrow> None
      | Some p \<Rightarrow>
          let g1 = SLinkedList_Remove g p; g2 = set_next p (Some p) g1
          in Some (g2, bp_handler (bp_heap g2 p)))"

definition BPendingGroup_PeekJob :: "'h BPendingGroup \<Rightarrow> nat option" where
  "BPendingGroup_PeekJob g = SLinkedList_First g"

definition BSmallPending_Init :: "nat \<Rightarrow> 'h BPendingGroup \<Rightarrow> 'h \<Rightarrow> 'h BPendingGroup" where
  "BSmallPending_Init o1 g handler =
     (let g1 = g\<lparr>bp_heap := (bp_heap g)(o1 := (bp_heap g o1)\<lparr>bp_handler := handler\<rparr>)\<rparr>
      in set_next o1 (Some o1) g1)"

definition BSmallPending_Free :: "nat \<Rightarrow> 'h BPendingGroup \<Rightarrow> 'h BPendingGroup" where
  "BSmallPending_Free o1 g =
     (if bp_next (bp_heap g o1) \<noteq> Some o1 then SLinkedList_Remove g o1 else g)"

definition BSmallPending_SetHandler :: "nat \<Rightarrow> 'h \<Rightarrow> 'h BPendingGroup \<Rightarrow> 'h BPendingGroup" where
  "BSmallPending_SetHandler o1 handler g =
     g\<lparr>bp_heap := (bp_heap g)(o1 := (bp_heap g o1)\<lparr>bp_handler := handler\<rparr>)\<rparr>"

definition BSmallPending_Set :: "nat \<Rightarrow> 'h BPendingGroup \<Rightarrow> 'h BPendingGroup" where
  "BSmallPending_Set o1 g =
     (let g1 = (if bp_next (bp_heap g o1) \<noteq> Some o1 then SLinkedList_Remove g o1 else g)
      in SLinkedList_Prepend g1 o1)"

definition BSmallPending_Unset :: "nat \<Rightarrow> 'h BPendingGroup \<Rightarrow> 'h BPendingGroup" where
  "BSmallPending_Unset o1 g =
     (if bp_next (bp_heap g o1) \<noteq> Some o1
      then set_next o1 (Some o1) (SLinkedList_Remove g o1) else g)"

definition BSmallPending_IsSet :: "nat \<Rightarrow> 'h BPendingGroup \<Rightarrow> bool" where
  "BSmallPending_IsSet o1 g = (bp_next (bp_heap g o1) \<noteq> Some o1)"

text \<open>\<^verbatim>\<open>BPending\<close> is a \<^verbatim>\<open>BSmallPending\<close> that remembers its group; there is one group here.\<close>

definition BPending_Init :: "nat \<Rightarrow> 'h BPendingGroup \<Rightarrow> 'h \<Rightarrow> 'h BPendingGroup" where
  "BPending_Init o1 g handler = BSmallPending_Init o1 g handler"

definition BPending_Free :: "nat \<Rightarrow> 'h BPendingGroup \<Rightarrow> 'h BPendingGroup" where
  "BPending_Free o1 g = BSmallPending_Free o1 g"

definition BPending_Set :: "nat \<Rightarrow> 'h BPendingGroup \<Rightarrow> 'h BPendingGroup" where
  "BPending_Set o1 g = BSmallPending_Set o1 g"

definition BPending_Unset :: "nat \<Rightarrow> 'h BPendingGroup \<Rightarrow> 'h BPendingGroup" where
  "BPending_Unset o1 g = BSmallPending_Unset o1 g"

definition BPending_IsSet :: "nat \<Rightarrow> 'h BPendingGroup \<Rightarrow> bool" where
  "BPending_IsSet o1 g = BSmallPending_IsSet o1 g"

lemmas BPending_wrappers =
  BPending_Init_def BPending_Free_def BPending_Set_def BPending_Unset_def BPending_IsSet_def

section \<open>The stack of pending jobs\<close>

definition job_set :: "'j \<Rightarrow> 'j list \<Rightarrow> 'j list" where
  "job_set j js = j # remove1 j js"

definition job_unset :: "'j \<Rightarrow> 'j list \<Rightarrow> 'j list" where
  "job_unset j js = remove1 j js"

lemma set_job_set [simp]: "distinct js \<Longrightarrow> set (job_set j js) = insert j (set js)"
  by (auto simp: job_set_def)

lemma set_job_unset [simp]: "distinct js \<Longrightarrow> set (job_unset j js) = set js - {j}"
  by (simp add: job_unset_def)

lemma distinct_job_set [simp]: "distinct js \<Longrightarrow> distinct (job_set j js)"
  by (simp add: job_set_def)

lemma distinct_job_unset [simp]: "distinct js \<Longrightarrow> distinct (job_unset j js)"
  by (simp add: job_unset_def)

lemma job_set_fresh: "j \<notin> set js \<Longrightarrow> job_set j js = j # js"
  by (simp add: job_set_def remove1_idem)

lemma job_unset_fresh [simp]: "j \<notin> set js \<Longrightarrow> job_unset j js = js"
  by (simp add: job_unset_def remove1_idem)


section \<open>Linked segments\<close>

definition head_or :: "nat list \<Rightarrow> nat option \<Rightarrow> nat option" where
  "head_or xs n = (case xs of [] \<Rightarrow> n | y # _ \<Rightarrow> Some y)"

definition last_or :: "nat list \<Rightarrow> nat option \<Rightarrow> nat option" where
  "last_or xs p = (if xs = [] then p else Some (last xs))"

lemma head_or_simps [simp]:
  "head_or [] n = n" "head_or (x # xs) n = Some x" "head_or (xs @ ys) n = head_or xs (head_or ys n)"
  by (simp_all add: head_or_def split: list.splits)

lemma last_or_simps [simp]:
  "last_or [] p = p" "last_or (x # xs) p = last_or xs (Some x)"
  "last_or (xs @ ys) p = last_or ys (last_or xs p)"
  by (simp_all add: last_or_def)

primrec dseg :: "(nat \<Rightarrow> 'h BSmallPending) \<Rightarrow> nat option \<Rightarrow> nat list \<Rightarrow> nat option \<Rightarrow> bool" where
  "dseg h p [] n \<longleftrightarrow> True"
| "dseg h p (x # xs) n \<longleftrightarrow>
     bp_prev (h x) = p \<and> bp_next (h x) = head_or xs n \<and> dseg h (Some x) xs n"

lemma dseg_append:
  "dseg h p (xs @ ys) n \<longleftrightarrow> dseg h p xs (head_or ys n) \<and> dseg h (last_or xs p) ys n"
proof (induction xs arbitrary: p)
  case (Cons x xs)
  show ?case by (simp add: Cons.IH)
qed simp

lemma dseg_cong:
  "(\<And>x. x \<in> set xs \<Longrightarrow> bp_prev (h' x) = bp_prev (h x) \<and> bp_next (h' x) = bp_next (h x)) \<Longrightarrow>
    dseg h' p xs n \<longleftrightarrow> dseg h p xs n"
proof (induction xs arbitrary: p)
  case (Cons x xs)
  then have "dseg h' (Some x) xs n \<longleftrightarrow> dseg h (Some x) xs n" by simp
  moreover have "bp_prev (h' x) = bp_prev (h x)" "bp_next (h' x) = bp_next (h x)"
    using Cons.prems by simp_all
  ultimately show ?case by simp
qed simp

lemma dseg_upd [simp]: "x \<notin> set xs \<Longrightarrow> dseg (h(x := v)) p xs n \<longleftrightarrow> dseg h p xs n"
  by (rule dseg_cong) auto

lemma head_or_None_in: "head_or xs None = Some x \<Longrightarrow> x \<in> set xs"
  by (cases xs) simp_all

lemma last_or_None_in: "last_or xs None = Some x \<Longrightarrow> x \<in> set xs"
  by (auto simp: last_or_def split: if_splits)

lemma dseg_next_not_self:
  "dseg h p xs None \<Longrightarrow> distinct xs \<Longrightarrow> x \<in> set xs \<Longrightarrow> bp_next (h x) \<noteq> Some x"
proof (induction xs arbitrary: p)
  case (Cons y ys)
  show ?case
  proof (cases "x = y")
    case True
    with Cons.prems show ?thesis using head_or_None_in [of ys y] by auto
  next
    case False
    with Cons.prems show ?thesis using Cons.IH [of "Some y"] by simp
  qed
qed simp

lemma dseg_set_next_last:
  "dseg h p (xs @ [y]) n \<Longrightarrow> y \<notin> set xs \<Longrightarrow>
    dseg (h(y := (h y)\<lparr>bp_next := n'\<rparr>)) p (xs @ [y]) n'"
  by (simp add: dseg_append)

lemma dseg_set_prev_head:
  "dseg h p (z # zs) n \<Longrightarrow> z \<notin> set zs \<Longrightarrow>
    dseg (h(z := (h z)\<lparr>bp_prev := p'\<rparr>)) p' (z # zs) n"
  by simp

text \<open>
  \<open>pg_rep L g xs\<close>: over the live job objects \<open>L\<close>, the group's list holds exactly the jobs \<open>xs\<close>,
  and every other live job points to itself.
\<close>

definition pg_rep :: "nat set \<Rightarrow> 'h BPendingGroup \<Rightarrow> nat list \<Rightarrow> bool" where
  "pg_rep L g xs \<longleftrightarrow> distinct xs \<and> set xs \<subseteq> L \<and> bp_first g = head_or xs None
     \<and> dseg (bp_heap g) None xs None
     \<and> (\<forall>x \<in> L - set xs. bp_next (bp_heap g x) = Some x)"

lemma pg_rep_is_set:
  "pg_rep L g xs \<Longrightarrow> x \<in> L \<Longrightarrow> bp_next (bp_heap g x) \<noteq> Some x \<longleftrightarrow> x \<in> set xs"
  by (auto simp: pg_rep_def dest: dseg_next_not_self)

lemma remove_heap_frame:
  "bp_handler (bp_heap (SLinkedList_Remove g e) x) = bp_handler (bp_heap g x)"
  by (auto simp: SLinkedList_Remove_def set_next_def set_prev_def Let_def split: option.splits)

lemma BSmallPending_Set_handler [simp]:
  "bp_handler (bp_heap (BSmallPending_Set e g) x) = bp_handler (bp_heap g x)"
  by (auto simp: BSmallPending_Set_def SLinkedList_Prepend_def set_next_def set_prev_def Let_def
      remove_heap_frame split: option.splits)

lemma BSmallPending_Unset_handler [simp]:
  "bp_handler (bp_heap (BSmallPending_Unset e g) x) = bp_handler (bp_heap g x)"
  by (auto simp: BSmallPending_Unset_def set_next_def remove_heap_frame)

text \<open>Removing a member leaves the segment without it, and every non-neighbour untouched.\<close>

lemma SLinkedList_Remove_seg:
  assumes d: "distinct (ys @ e # zs)" and s: "dseg (bp_heap g) None (ys @ e # zs) None"
    and f: "bp_first g = head_or (ys @ e # zs) None"
  defines "g' \<equiv> SLinkedList_Remove g e"
  shows "dseg (bp_heap g') None (ys @ zs) None" and "bp_first g' = head_or (ys @ zs) None"
    and "x \<notin> set (ys @ zs) \<Longrightarrow> bp_next (bp_heap g' x) = bp_next (bp_heap g x)"
proof -
  have pe: "bp_prev (bp_heap g e) = last_or ys None" and ne: "bp_next (bp_heap g e) = head_or zs None"
    and sy: "dseg (bp_heap g) None ys (Some e)" and sz: "dseg (bp_heap g) (Some e) zs None"
    using s by (simp_all add: dseg_append)
  let ?p = "last_or ys None" and ?n = "head_or zs None"
  define g1 where "g1 = (case ?p of Some p \<Rightarrow> set_next p ?n g | None \<Rightarrow> g\<lparr>bp_first := ?n\<rparr>)"
  have e1: "bp_prev (bp_heap g1 e) = ?p" "bp_next (bp_heap g1 e) = ?n"
    using pe ne d by (auto simp: g1_def set_next_def last_or_def split: option.splits)
  have g': "g' = (case ?n of Some n \<Rightarrow> set_prev n ?p g1 | None \<Rightarrow> g1)"
    unfolding g'_def SLinkedList_Remove_def Let_def pe ne g1_def [symmetric] e1 ..
  have first1: "bp_first g1 = head_or (ys @ zs) None"
    using f by (cases ys) (auto simp: g1_def last_or_def set_next_def)
  then show "bp_first g' = head_or (ys @ zs) None"
    by (auto simp: g' set_prev_def split: option.splits)
  have sy1: "dseg (bp_heap g1) None ys ?n" and sz1: "dseg (bp_heap g1) (Some e) zs None"
  proof -
    show "dseg (bp_heap g1) None ys ?n"
    proof (cases ys rule: rev_cases)
      case (snoc ws y)
      with sy d show ?thesis
        using dseg_set_next_last [of "bp_heap g" None ws y "Some e" ?n]
        by (simp add: g1_def set_next_def)
    qed simp
    show "dseg (bp_heap g1) (Some e) zs None"
    proof (cases ys rule: rev_cases)
      case (snoc ws y)
      with sz d show ?thesis by (simp add: g1_def set_next_def)
    qed (use sz in \<open>simp add: g1_def\<close>)
  qed
  have "dseg (bp_heap g') None ys ?n \<and> dseg (bp_heap g') ?p zs None"
  proof (cases zs)
    case Nil
    with sy1 show ?thesis by (simp add: g')
  next
    case (Cons z zs')
    then have h: "bp_heap g' = (bp_heap g1)(z := (bp_heap g1 z)\<lparr>bp_prev := ?p\<rparr>)"
      by (simp add: g' set_prev_def)
    have "dseg (bp_heap g') None ys ?n"
      using sy1 d Cons by (intro dseg_cong [THEN iffD2, OF _ sy1]) (auto simp: h)
    moreover have "dseg (bp_heap g') ?p zs None"
      using dseg_set_prev_head [of "bp_heap g1" "Some e" z zs' None ?p] sz1 d Cons by (simp add: h)
    ultimately show ?thesis ..
  qed
  then show "dseg (bp_heap g') None (ys @ zs) None" by (simp add: dseg_append)
  show "bp_next (bp_heap g' x) = bp_next (bp_heap g x)" if "x \<notin> set (ys @ zs)"
    using that by (auto simp: g' g1_def set_prev_def set_next_def last_or_def head_or_def
        split: option.splits list.splits if_splits)
qed

text \<open>The operations on the represented stack.\<close>

lemma pg_rep_split:
  assumes "pg_rep L g xs" and "e \<in> set xs"
  obtains ys zs where "xs = ys @ e # zs" "remove1 e xs = ys @ zs" "e \<notin> set ys"
proof -
  obtain ys zs where "xs = ys @ e # zs" "e \<notin> set ys"
    using split_list_first [OF assms(2)] by auto
  then show ?thesis using that by (simp add: remove1_append)
qed

lemma pg_rep_Remove:
  assumes r: "pg_rep L g xs" and e: "e \<in> set xs"
  shows "pg_rep (L - {e}) (SLinkedList_Remove g e) (remove1 e xs)"
proof -
  obtain ys zs where xs: "xs = ys @ e # zs" and rm: "remove1 e xs = ys @ zs"
    using pg_rep_split [OF r e] by metis
  have "distinct (ys @ e # zs)" "dseg (bp_heap g) None (ys @ e # zs) None"
    "bp_first g = head_or (ys @ e # zs) None"
    using r by (simp_all add: pg_rep_def xs)
  note rem = SLinkedList_Remove_seg [OF this]
  have "bp_next (bp_heap (SLinkedList_Remove g e) x) = Some x" if "x \<in> L - {e} - set (ys @ zs)" for x
    using rem(3) [of x] r that by (auto simp: pg_rep_def xs)
  then show ?thesis using r rem(1,2) unfolding rm by (auto simp: pg_rep_def xs)
qed

lemma pg_rep_unlink:
  assumes "pg_rep (L - {e}) g xs" and "e \<in> L"
  shows "pg_rep L (set_next e (Some e) g) xs"
proof -
  have "e \<notin> set xs" using assms by (auto simp: pg_rep_def)
  with assms show ?thesis by (auto simp: pg_rep_def set_next_def)
qed

lemma pg_rep_Prepend:
  assumes "pg_rep (L - {e}) g xs" and "e \<in> L"
  shows "pg_rep L (SLinkedList_Prepend g e) (e # xs)"
proof (cases xs)
  case Nil
  with assms show ?thesis
    by (auto simp: pg_rep_def SLinkedList_Prepend_def Let_def set_next_def set_prev_def)
next
  case (Cons f fs)
  then have "f \<noteq> e" "e \<notin> set fs" using assms by (auto simp: pg_rep_def)
  with Cons assms show ?thesis
    by (auto simp: pg_rep_def SLinkedList_Prepend_def Let_def set_next_def set_prev_def)
qed

lemma pg_rep_shrink: "pg_rep L g xs \<Longrightarrow> e \<notin> set xs \<Longrightarrow> pg_rep (L - {e}) g xs"
  by (auto simp: pg_rep_def)

lemma pg_rep_Init: "pg_rep {} (BPendingGroup_Init g) []"
  by (simp add: pg_rep_def BPendingGroup_Init_def SLinkedList_Init_def)

lemma pg_rep_Pending_Init:
  "pg_rep L g xs \<Longrightarrow> e \<notin> L \<Longrightarrow> pg_rep (insert e L) (BSmallPending_Init e g h) xs"
proof -
  assume r: "pg_rep L g xs" "e \<notin> L"
  then have "e \<notin> set xs" by (auto simp: pg_rep_def)
  with r show ?thesis by (auto simp: pg_rep_def BSmallPending_Init_def Let_def set_next_def)
qed

lemma pg_rep_Free:
  assumes "pg_rep L g xs" "e \<in> L"
  shows "pg_rep (L - {e}) (BSmallPending_Free e g) (job_unset e xs)"
  using assms pg_rep_Remove [OF assms(1), of e] pg_rep_is_set [OF assms]
    pg_rep_shrink [OF assms(1), of e]
  by (cases "e \<in> set xs") (simp_all add: BSmallPending_Free_def job_unset_def remove1_idem)

lemma pg_rep_Set:
  assumes "pg_rep L g xs" "e \<in> L"
  shows "pg_rep L (BSmallPending_Set e g) (job_set e xs)"
proof -
  have "pg_rep (L - {e}) (BSmallPending_Free e g) (remove1 e xs)"
    using pg_rep_Free [OF assms] by (simp add: job_unset_def)
  from pg_rep_Prepend [OF this assms(2)] show ?thesis
    by (simp add: BSmallPending_Set_def BSmallPending_Free_def job_set_def Let_def)
qed

lemma pg_rep_Unset:
  assumes "pg_rep L g xs" "e \<in> L"
  shows "pg_rep L (BSmallPending_Unset e g) (job_unset e xs)"
proof (cases "e \<in> set xs")
  case True
  then show ?thesis
    using pg_rep_unlink [OF pg_rep_Remove [OF assms(1) True] assms(2)] pg_rep_is_set [OF assms]
    by (simp add: BSmallPending_Unset_def job_unset_def)
next
  case False
  then show ?thesis using assms pg_rep_is_set [OF assms]
    by (simp add: BSmallPending_Unset_def)
qed

lemma pg_rep_SetHandler: "pg_rep L g xs \<Longrightarrow> pg_rep L (BSmallPending_SetHandler e h g) xs"
proof -
  assume r: "pg_rep L g xs"
  have "dseg (bp_heap (BSmallPending_SetHandler e h g)) None xs None"
    using r by (subst dseg_cong [where h = "bp_heap g"])
      (simp_all add: pg_rep_def BSmallPending_SetHandler_def)
  with r show ?thesis by (simp add: pg_rep_def BSmallPending_SetHandler_def)
qed

lemma pg_rep_IsSet: "pg_rep L g xs \<Longrightarrow> e \<in> L \<Longrightarrow> BSmallPending_IsSet e g \<longleftrightarrow> e \<in> set xs"
  by (simp add: BSmallPending_IsSet_def pg_rep_is_set)

lemma pg_rep_Execute_Nil: "pg_rep L g [] \<Longrightarrow> BPendingGroup_ExecuteJob g = None"
  by (simp add: pg_rep_def BPendingGroup_ExecuteJob_def SLinkedList_First_def)

lemma pg_rep_Execute_Cons:
  assumes "pg_rep L g (e # xs)"
  obtains g' where "BPendingGroup_ExecuteJob g = Some (g', bp_handler (bp_heap g e))"
    and "pg_rep L g' xs" and "\<forall>x. bp_handler (bp_heap g' x) = bp_handler (bp_heap g x)"
proof -
  let ?g = "set_next e (Some e) (SLinkedList_Remove g e)"
  have e: "e \<in> L" using assms by (simp add: pg_rep_def)
  have r: "pg_rep L ?g xs"
    using pg_rep_unlink [OF pg_rep_Remove [OF assms] e] by simp
  have h: "bp_handler (bp_heap ?g x) = bp_handler (bp_heap g x)" for x
    by (simp add: set_next_def remove_heap_frame)
  have "BPendingGroup_ExecuteJob g = Some (?g, bp_handler (bp_heap g e))"
    using assms h [of e]
    by (simp add: BPendingGroup_ExecuteJob_def SLinkedList_First_def pg_rep_def Let_def)
  moreover have "\<forall>x. bp_handler (bp_heap ?g x) = bp_handler (bp_heap g x)" using h by blast
  ultimately show ?thesis using r by (intro that)
qed

section \<open>The contract of a job group\<close>

datatype 'j job_op = JSet 'j | JUnset 'j | JExec

fun stack_step :: "'j job_op \<Rightarrow> 'j list \<times> 'j list \<Rightarrow> 'j list \<times> 'j list" where
  "stack_step (JSet j) (js, tr) = (job_set j js, tr)"
| "stack_step (JUnset j) (js, tr) = (job_unset j js, tr)"
| "stack_step JExec ([], tr) = ([], tr)"
| "stack_step JExec (j # js, tr) = (js, tr @ [j])"

fun op_job :: "'j job_op \<Rightarrow> 'j set" where
  "op_job (JSet j) = {j}"
| "op_job (JUnset j) = {j}"
| "op_job JExec = {}"

fun group_step :: "('j \<Rightarrow> 'g \<Rightarrow> 'g) \<Rightarrow> ('j \<Rightarrow> 'g \<Rightarrow> 'g) \<Rightarrow> ('g \<Rightarrow> ('g \<times> 'h) option) \<Rightarrow>
    'j job_op \<Rightarrow> 'g \<times> 'h list \<Rightarrow> 'g \<times> 'h list" where
  "group_step st un ex (JSet j) (g, tr) = (st j g, tr)"
| "group_step st un ex (JUnset j) (g, tr) = (un j g, tr)"
| "group_step st un ex JExec (g, tr) =
     (case ex g of None \<Rightarrow> (g, tr) | Some (g', h) \<Rightarrow> (g', tr @ [h]))"

text \<open>
  A job group over a fixed set of live jobs: its state stands for a stack, setting and unsetting
  act on the stack, executing pops it. \<open>handler_of\<close> is the registered handler of a job.
\<close>

locale job_group =
  fixes live :: "'j set" and rep :: "'g \<Rightarrow> 'j list \<Rightarrow> bool"
    and setj :: "'j \<Rightarrow> 'g \<Rightarrow> 'g" and unsetj :: "'j \<Rightarrow> 'g \<Rightarrow> 'g"
    and is_set :: "'j \<Rightarrow> 'g \<Rightarrow> bool"
    and exec :: "'g \<Rightarrow> ('g \<times> 'h) option" and handler_of :: "'j \<Rightarrow> 'h"
  assumes rep_set: "rep g js \<Longrightarrow> j \<in> live \<Longrightarrow> rep (setj j g) (job_set j js)"
    and rep_unset: "rep g js \<Longrightarrow> j \<in> live \<Longrightarrow> rep (unsetj j g) (job_unset j js)"
    and rep_is_set: "rep g js \<Longrightarrow> j \<in> live \<Longrightarrow> is_set j g \<longleftrightarrow> j \<in> set js"
    and exec_empty: "rep g [] \<Longrightarrow> exec g = None"
    and exec_top: "rep g (j # js) \<Longrightarrow> \<exists>g'. exec g = Some (g', handler_of j) \<and> rep g' js"
begin

lemma step_refines:
  assumes "rep g js" "op_job a \<subseteq> live" "stack_step a (js, tr) = (js', tr')"
  shows "\<exists>g'. group_step setj unsetj exec a (g, map handler_of tr) = (g', map handler_of tr') \<and> rep g' js'"
proof (cases a)
  case JExec
  show ?thesis
  proof (cases js)
    case Nil
    with JExec assms show ?thesis using exec_empty by auto
  next
    case (Cons j ks)
    with exec_top [of g j ks] assms(1) JExec assms(3) show ?thesis by auto
  qed
qed (use assms rep_set rep_unset in auto)

lemma run_refines:
  assumes "rep g js" "\<forall>a \<in> set as. op_job a \<subseteq> live" "fold stack_step as (js, tr) = (js', tr')"
  shows "\<exists>g'. fold (group_step setj unsetj exec) as (g, map handler_of tr) = (g', map handler_of tr') \<and> rep g' js'"
  using assms
proof (induction as arbitrary: g js tr)
  case (Cons a as)
  obtain ks us where k: "stack_step a (js, tr) = (ks, us)" by fastforce
  then obtain g1 where "group_step setj unsetj exec a (g, map handler_of tr) = (g1, map handler_of us)" "rep g1 ks"
    using step_refines [of g js a tr ks us] Cons.prems by auto
  with Cons.IH [of g1 ks us] Cons.prems k show ?case by auto
qed auto

end

interpretation bp: job_group L "\<lambda>g xs. pg_rep L g xs \<and> (\<forall>x. bp_handler (bp_heap g x) = hd_of x)"
  BPending_Set BPending_Unset BPending_IsSet BPendingGroup_ExecuteJob hd_of
  for L :: "nat set" and hd_of :: "nat \<Rightarrow> 'h"
proof unfold_locales
  fix g :: "'h BPendingGroup" and js j
  let ?R = "\<lambda>g xs. pg_rep L g xs \<and> (\<forall>x. bp_handler (bp_heap g x) = hd_of x)"
  show "?R (BPending_Set j g) (job_set j js)" if "?R g js" "j \<in> L"
    using that by (simp add: BPending_wrappers pg_rep_Set BSmallPending_Set_handler)
  show "?R (BPending_Unset j g) (job_unset j js)" if "?R g js" "j \<in> L"
    using that by (simp add: BPending_wrappers pg_rep_Unset BSmallPending_Unset_handler)
  show "BPending_IsSet j g = (j \<in> set js)" if "?R g js" "j \<in> L"
    using that pg_rep_IsSet [of L g js j] by (simp add: BPending_wrappers)
  show "BPendingGroup_ExecuteJob g = None" if "?R g []"
    using that by (blast intro: pg_rep_Execute_Nil)
  show "\<exists>g'. BPendingGroup_ExecuteJob g = Some (g', hd_of j) \<and> ?R g' js" if "?R g (j # js)"
  proof -
    from that have r: "pg_rep L g (j # js)" and h: "\<forall>x. bp_handler (bp_heap g x) = hd_of x"
      by simp_all
    from r obtain g' where "BPendingGroup_ExecuteJob g = Some (g', bp_handler (bp_heap g j))"
      "pg_rep L g' js" "\<forall>x. bp_handler (bp_heap g' x) = bp_handler (bp_heap g x)"
      by (rule pg_rep_Execute_Cons)
    with h show ?thesis by simp
  qed
qed

section \<open>Properties\<close>

text \<open>
  C14: Every sequence of \<^verbatim>\<open>BPending_Set\<close>, \<^verbatim>\<open>BPending_Unset\<close> and \<^verbatim>\<open>BPendingGroup_ExecuteJob\<close> calls
  on the linked list behaves like the stack of pending jobs: setting moves a job to the front
  (also when it was pending already), unsetting removes it, and each execution runs the handler
  of the front job, exactly once. The pointer structure represents the resulting stack.
\<close>

theorem jobs_run_as_stack:
  assumes "pg_rep L g xs" and "\<forall>a \<in> set as. op_job a \<subseteq> L"
    and "fold stack_step as (xs, []) = (ys, tr)"
  shows "\<exists>g'. fold (group_step BPending_Set BPending_Unset BPendingGroup_ExecuteJob) as (g, [])
              = (g', map (\<lambda>x. bp_handler (bp_heap g x)) tr)
            \<and> pg_rep L g' ys"
  using bp.run_refines [of L g xs "\<lambda>x. bp_handler (bp_heap g x)" as "[]" ys tr] assms by auto

definition demo_group :: "nat BPendingGroup" where
  "demo_group = fold (\<lambda>j g. BPending_Init j g (100 + j)) [1, 2, 3]
     (BPendingGroup_Init \<lparr>bp_first = None,
        bp_heap = (\<lambda>_. \<lparr>bp_handler = 0, bp_prev = None, bp_next = None\<rparr>)\<rparr>)"

lemma demo_group_rep: "pg_rep {1, 2, 3} demo_group []"
proof -
  let ?i = "\<lambda>g j. BSmallPending_Init j g (100 + j)"
  let ?g = "BPendingGroup_Init \<lparr>bp_first = None,
      bp_heap = (\<lambda>_. \<lparr>bp_handler = 0, bp_prev = None, bp_next = None\<rparr>)\<rparr> :: nat BPendingGroup"
  have "pg_rep {1} (?i ?g 1) []" by (rule pg_rep_Pending_Init [OF pg_rep_Init]) simp
  then have "pg_rep {2, 1} (?i (?i ?g 1) 2) []" by (rule pg_rep_Pending_Init) simp
  then have "pg_rep {3, 2, 1} (?i (?i (?i ?g 1) 2) 3) []" by (rule pg_rep_Pending_Init) simp
  moreover have "{3, 2, 1} = {1, 2, 3 :: nat}" by auto
  ultimately show ?thesis by (simp add: demo_group_def BPending_wrappers)
qed

theorem jobs_run_as_stack_witness:
  "\<exists>g'. fold (group_step BPending_Set BPending_Unset BPendingGroup_ExecuteJob)
          [JSet 1, JSet 2, JSet 3, JSet 1, JUnset 2, JExec, JExec, JExec] (demo_group, [])
        = (g', map (\<lambda>x. bp_handler (bp_heap demo_group x)) [1, 3]) \<and> pg_rep {1, 2, 3} g' []"
  by (rule jobs_run_as_stack [OF demo_group_rep]) (simp_all add: job_set_def job_unset_def)

text \<open>
  A job object is pending exactly when it is in the stack, and freeing it removes it: after
  \<^verbatim>\<open>BPending_Free\<close> the remaining live jobs are linked as before without it, so no dangling object
  stays in the group's list.
\<close>

theorem job_free_unlinks:
  assumes "pg_rep L g xs" and "j \<in> L"
  shows "(BPending_IsSet j g \<longleftrightarrow> j \<in> set xs)
    \<and> pg_rep (L - {j}) (BPending_Free j g) (job_unset j xs)
    \<and> (\<forall>i \<in> L - {j}. BPending_IsSet i (BPending_Free j g) \<longleftrightarrow> BPending_IsSet i g)"
proof -
  have free: "pg_rep (L - {j}) (BPending_Free j g) (job_unset j xs)"
    using assms by (simp add: BPending_wrappers pg_rep_Free)
  have "distinct xs" using assms by (simp add: pg_rep_def)
  with free have "BPending_IsSet i (BPending_Free j g) \<longleftrightarrow> i \<in> set xs" if "i \<in> L - {j}" for i
    using that pg_rep_IsSet [OF free, of i] by (auto simp: BPending_wrappers)
  with free assms show ?thesis by (simp add: BPending_wrappers pg_rep_IsSet [OF assms(1)])
qed

theorem job_free_unlinks_witness:
  "pg_rep {1, 2} (BPending_Free 3 (BPending_Set 3 demo_group)) []
   \<and> \<not> BPending_IsSet 2 (BPending_Free 3 (BPending_Set 3 demo_group))"
proof -
  have r: "pg_rep {1, 2, 3} (BPending_Set 3 demo_group) (job_set 3 [])"
    using pg_rep_Set [OF demo_group_rep, of 3] by (simp add: BPending_wrappers)
  have "{1, 2, 3} - {3::nat} = {1, 2}" by auto
  with job_free_unlinks [OF r, of 3] have "pg_rep {1, 2} (BPending_Free 3 (BPending_Set 3 demo_group)) []"
    by (simp add: job_set_def job_unset_def)
  then show ?thesis using pg_rep_IsSet [of "{1, 2}" _ "[]" 2] by (simp add: BPending_wrappers)
qed

end
