(* ===== verification/Flow_Interfaces.thy ===== *)
theory Flow_Interfaces
  imports BPending
begin

text \<open>
  The four interfaces through which the flow elements talk to each other
  (\<^verbatim>\<open>flow/PacketPassInterface\<close>, \<^verbatim>\<open>PacketRecvInterface\<close>, \<^verbatim>\<open>StreamPassInterface\<close>,
  \<^verbatim>\<open>StreamRecvInterface\<close>). A call of the user schedules the operation job, whose handler calls the
  provider; a call of the provider schedules the done job, whose handler calls the user back.
  Function pointers (a handler with its \<^verbatim>\<open>void *\<close> argument) are values of a type \<open>'f\<close>, jobs are
  identifiers of a type \<open>'j\<close>, and the pending group is the stack of pending jobs of theory
  \<^verbatim>\<open>BPending\<close>. A job handler returns the new interface state and the call it ends with.

  \<open>iface_ops\<close> collects what the four have in common, the locale \<open>io_interface\<close> states the laws,
  and each interface interprets it; \<open>iface_proto\<close> is the protocol they all follow.
\<close>

section \<open>The code\<close>

datatype iface_state = STATE_NONE | STATE_OPERATION_PENDING | STATE_BUSY | STATE_DONE_PENDING

subsection \<open>PacketPassInterface\<close>

record ('j, 'f) PacketPassInterface =
  ppi_mtu :: int
  ppi_handler_operation :: 'f
  ppi_handler_requestcancel :: "'f option"
  ppi_handler_done :: "'f option"
  ppi_job_operation :: 'j
  ppi_operation_data :: ptr
  ppi_operation_len :: int
  ppi_job_requestcancel :: 'j
  ppi_job_done :: 'j
  ppi_state :: iface_state
  ppi_cancel_requested :: bool

definition PacketPassInterface_Init ::
    "('j, 'f) PacketPassInterface \<Rightarrow> int \<Rightarrow> 'f \<Rightarrow> 'j \<Rightarrow> 'j \<Rightarrow> 'j \<Rightarrow> ('j, 'f) PacketPassInterface" where
  "PacketPassInterface_Init i mtu handler_operation j_op j_cancel j_done =
     i\<lparr>ppi_mtu := mtu, ppi_handler_operation := handler_operation,
       ppi_handler_requestcancel := None, ppi_handler_done := None,
       ppi_job_operation := j_op, ppi_job_requestcancel := j_cancel, ppi_job_done := j_done,
       ppi_state := STATE_NONE\<rparr>"

definition PacketPassInterface_Free :: "('j, 'f) PacketPassInterface \<Rightarrow> 'j list \<Rightarrow> 'j list" where
  "PacketPassInterface_Free i js =
     job_unset (ppi_job_operation i) (job_unset (ppi_job_requestcancel i)
       (job_unset (ppi_job_done i) js))"

definition PacketPassInterface_EnableCancel ::
    "('j, 'f) PacketPassInterface \<Rightarrow> 'f \<Rightarrow> ('j, 'f) PacketPassInterface" where
  "PacketPassInterface_EnableCancel i h = i\<lparr>ppi_handler_requestcancel := Some h\<rparr>"

definition PacketPassInterface_Done ::
    "('j, 'f) PacketPassInterface \<times> 'j list \<Rightarrow> ('j, 'f) PacketPassInterface \<times> 'j list" where
  "PacketPassInterface_Done = (\<lambda>(i, js).
     (i\<lparr>ppi_state := STATE_DONE_PENDING\<rparr>,
      job_set (ppi_job_done i) (job_unset (ppi_job_requestcancel i) js)))"

definition PacketPassInterface_GetMTU :: "('j, 'f) PacketPassInterface \<Rightarrow> int" where
  "PacketPassInterface_GetMTU i = ppi_mtu i"

definition PacketPassInterface_Sender_Init ::
    "('j, 'f) PacketPassInterface \<Rightarrow> 'f \<Rightarrow> ('j, 'f) PacketPassInterface" where
  "PacketPassInterface_Sender_Init i h = i\<lparr>ppi_handler_done := Some h\<rparr>"

definition PacketPassInterface_Sender_Send ::
    "ptr \<Rightarrow> int \<Rightarrow> ('j, 'f) PacketPassInterface \<times> 'j list \<Rightarrow> ('j, 'f) PacketPassInterface \<times> 'j list" where
  "PacketPassInterface_Sender_Send data data_len = (\<lambda>(i, js).
     (i\<lparr>ppi_operation_data := data, ppi_operation_len := data_len,
        ppi_state := STATE_OPERATION_PENDING, ppi_cancel_requested := False\<rparr>,
      job_set (ppi_job_operation i) js))"

definition PacketPassInterface_Sender_RequestCancel ::
    "('j, 'f) PacketPassInterface \<times> 'j list \<Rightarrow> ('j, 'f) PacketPassInterface \<times> 'j list" where
  "PacketPassInterface_Sender_RequestCancel = (\<lambda>(i, js).
     if ppi_cancel_requested i then (i, js)
     else let i = i\<lparr>ppi_cancel_requested := True\<rparr> in
       if ppi_state i = STATE_OPERATION_PENDING
       then (i\<lparr>ppi_state := STATE_DONE_PENDING\<rparr>,
             job_set (ppi_job_done i) (job_unset (ppi_job_operation i) js))
       else if ppi_state i = STATE_BUSY then (i, job_set (ppi_job_requestcancel i) js)
       else (i, js))"

definition PacketPassInterface_HasCancel :: "('j, 'f) PacketPassInterface \<Rightarrow> bool" where
  "PacketPassInterface_HasCancel i = (ppi_handler_requestcancel i \<noteq> None)"

definition PacketPassInterface_job_operation ::
    "('j, 'f) PacketPassInterface \<Rightarrow> ('j, 'f) PacketPassInterface \<times> 'f \<times> ptr \<times> int" where
  "PacketPassInterface_job_operation i =
     (i\<lparr>ppi_state := STATE_BUSY\<rparr>, ppi_handler_operation i, ppi_operation_data i, ppi_operation_len i)"

definition PacketPassInterface_job_requestcancel ::
    "('j, 'f) PacketPassInterface \<Rightarrow> ('j, 'f) PacketPassInterface \<times> 'f option" where
  "PacketPassInterface_job_requestcancel i = (i, ppi_handler_requestcancel i)"

definition PacketPassInterface_job_done ::
    "('j, 'f) PacketPassInterface \<Rightarrow> ('j, 'f) PacketPassInterface \<times> 'f option" where
  "PacketPassInterface_job_done i = (i\<lparr>ppi_state := STATE_NONE\<rparr>, ppi_handler_done i)"

subsection \<open>PacketRecvInterface\<close>

record ('j, 'f) PacketRecvInterface =
  pri_mtu :: int
  pri_handler_operation :: 'f
  pri_handler_done :: "'f option"
  pri_job_operation :: 'j
  pri_operation_data :: ptr
  pri_job_done :: 'j
  pri_done_len :: int
  pri_state :: iface_state

definition PacketRecvInterface_Init ::
    "('j, 'f) PacketRecvInterface \<Rightarrow> int \<Rightarrow> 'f \<Rightarrow> 'j \<Rightarrow> 'j \<Rightarrow> ('j, 'f) PacketRecvInterface" where
  "PacketRecvInterface_Init i mtu handler_operation j_op j_done =
     i\<lparr>pri_mtu := mtu, pri_handler_operation := handler_operation, pri_handler_done := None,
       pri_job_operation := j_op, pri_job_done := j_done, pri_state := STATE_NONE\<rparr>"

definition PacketRecvInterface_Free :: "('j, 'f) PacketRecvInterface \<Rightarrow> 'j list \<Rightarrow> 'j list" where
  "PacketRecvInterface_Free i js = job_unset (pri_job_operation i) (job_unset (pri_job_done i) js)"

definition PacketRecvInterface_Done ::
    "int \<Rightarrow> ('j, 'f) PacketRecvInterface \<times> 'j list \<Rightarrow> ('j, 'f) PacketRecvInterface \<times> 'j list" where
  "PacketRecvInterface_Done data_len = (\<lambda>(i, js).
     (i\<lparr>pri_done_len := data_len, pri_state := STATE_DONE_PENDING\<rparr>, job_set (pri_job_done i) js))"

definition PacketRecvInterface_GetMTU :: "('j, 'f) PacketRecvInterface \<Rightarrow> int" where
  "PacketRecvInterface_GetMTU i = pri_mtu i"

definition PacketRecvInterface_Receiver_Init ::
    "('j, 'f) PacketRecvInterface \<Rightarrow> 'f \<Rightarrow> ('j, 'f) PacketRecvInterface" where
  "PacketRecvInterface_Receiver_Init i h = i\<lparr>pri_handler_done := Some h\<rparr>"

definition PacketRecvInterface_Receiver_Recv ::
    "ptr \<Rightarrow> ('j, 'f) PacketRecvInterface \<times> 'j list \<Rightarrow> ('j, 'f) PacketRecvInterface \<times> 'j list" where
  "PacketRecvInterface_Receiver_Recv data = (\<lambda>(i, js).
     (i\<lparr>pri_operation_data := data, pri_state := STATE_OPERATION_PENDING\<rparr>,
      job_set (pri_job_operation i) js))"

definition PacketRecvInterface_job_operation ::
    "('j, 'f) PacketRecvInterface \<Rightarrow> ('j, 'f) PacketRecvInterface \<times> 'f \<times> ptr" where
  "PacketRecvInterface_job_operation i =
     (i\<lparr>pri_state := STATE_BUSY\<rparr>, pri_handler_operation i, pri_operation_data i)"

definition PacketRecvInterface_job_done ::
    "('j, 'f) PacketRecvInterface \<Rightarrow> ('j, 'f) PacketRecvInterface \<times> 'f option \<times> int" where
  "PacketRecvInterface_job_done i =
     (i\<lparr>pri_state := STATE_NONE\<rparr>, pri_handler_done i, pri_done_len i)"

subsection \<open>StreamPassInterface\<close>

record ('j, 'f) StreamPassInterface =
  spi_handler_operation :: 'f
  spi_handler_done :: "'f option"
  spi_job_operation :: 'j
  spi_operation_data :: ptr
  spi_operation_len :: int
  spi_job_done :: 'j
  spi_done_len :: int
  spi_state :: iface_state

definition StreamPassInterface_Init ::
    "('j, 'f) StreamPassInterface \<Rightarrow> 'f \<Rightarrow> 'j \<Rightarrow> 'j \<Rightarrow> ('j, 'f) StreamPassInterface" where
  "StreamPassInterface_Init i handler_operation j_op j_done =
     i\<lparr>spi_handler_operation := handler_operation, spi_handler_done := None,
       spi_job_operation := j_op, spi_job_done := j_done, spi_state := STATE_NONE\<rparr>"

definition StreamPassInterface_Free :: "('j, 'f) StreamPassInterface \<Rightarrow> 'j list \<Rightarrow> 'j list" where
  "StreamPassInterface_Free i js = job_unset (spi_job_operation i) (job_unset (spi_job_done i) js)"

definition StreamPassInterface_Done ::
    "int \<Rightarrow> ('j, 'f) StreamPassInterface \<times> 'j list \<Rightarrow> ('j, 'f) StreamPassInterface \<times> 'j list" where
  "StreamPassInterface_Done data_len = (\<lambda>(i, js).
     (i\<lparr>spi_done_len := data_len, spi_state := STATE_DONE_PENDING\<rparr>, job_set (spi_job_done i) js))"

definition StreamPassInterface_Sender_Init ::
    "('j, 'f) StreamPassInterface \<Rightarrow> 'f \<Rightarrow> ('j, 'f) StreamPassInterface" where
  "StreamPassInterface_Sender_Init i h = i\<lparr>spi_handler_done := Some h\<rparr>"

definition StreamPassInterface_Sender_Send ::
    "ptr \<Rightarrow> int \<Rightarrow> ('j, 'f) StreamPassInterface \<times> 'j list \<Rightarrow> ('j, 'f) StreamPassInterface \<times> 'j list" where
  "StreamPassInterface_Sender_Send data data_len = (\<lambda>(i, js).
     (i\<lparr>spi_operation_data := data, spi_operation_len := data_len,
        spi_state := STATE_OPERATION_PENDING\<rparr>, job_set (spi_job_operation i) js))"

definition StreamPassInterface_job_operation ::
    "('j, 'f) StreamPassInterface \<Rightarrow> ('j, 'f) StreamPassInterface \<times> 'f \<times> ptr \<times> int" where
  "StreamPassInterface_job_operation i =
     (i\<lparr>spi_state := STATE_BUSY\<rparr>, spi_handler_operation i, spi_operation_data i, spi_operation_len i)"

definition StreamPassInterface_job_done ::
    "('j, 'f) StreamPassInterface \<Rightarrow> ('j, 'f) StreamPassInterface \<times> 'f option \<times> int" where
  "StreamPassInterface_job_done i =
     (i\<lparr>spi_state := STATE_NONE\<rparr>, spi_handler_done i, spi_done_len i)"

subsection \<open>StreamRecvInterface\<close>

record ('j, 'f) StreamRecvInterface =
  sri_handler_operation :: 'f
  sri_handler_done :: "'f option"
  sri_job_operation :: 'j
  sri_operation_data :: ptr
  sri_operation_len :: int
  sri_job_done :: 'j
  sri_done_len :: int
  sri_state :: iface_state

definition StreamRecvInterface_Init ::
    "('j, 'f) StreamRecvInterface \<Rightarrow> 'f \<Rightarrow> 'j \<Rightarrow> 'j \<Rightarrow> ('j, 'f) StreamRecvInterface" where
  "StreamRecvInterface_Init i handler_operation j_op j_done =
     i\<lparr>sri_handler_operation := handler_operation, sri_handler_done := None,
       sri_job_operation := j_op, sri_job_done := j_done, sri_state := STATE_NONE\<rparr>"

definition StreamRecvInterface_Free :: "('j, 'f) StreamRecvInterface \<Rightarrow> 'j list \<Rightarrow> 'j list" where
  "StreamRecvInterface_Free i js = job_unset (sri_job_operation i) (job_unset (sri_job_done i) js)"

definition StreamRecvInterface_Done ::
    "int \<Rightarrow> ('j, 'f) StreamRecvInterface \<times> 'j list \<Rightarrow> ('j, 'f) StreamRecvInterface \<times> 'j list" where
  "StreamRecvInterface_Done data_len = (\<lambda>(i, js).
     (i\<lparr>sri_done_len := data_len, sri_state := STATE_DONE_PENDING\<rparr>, job_set (sri_job_done i) js))"

definition StreamRecvInterface_Receiver_Init ::
    "('j, 'f) StreamRecvInterface \<Rightarrow> 'f \<Rightarrow> ('j, 'f) StreamRecvInterface" where
  "StreamRecvInterface_Receiver_Init i h = i\<lparr>sri_handler_done := Some h\<rparr>"

definition StreamRecvInterface_Receiver_Recv ::
    "ptr \<Rightarrow> int \<Rightarrow> ('j, 'f) StreamRecvInterface \<times> 'j list \<Rightarrow> ('j, 'f) StreamRecvInterface \<times> 'j list" where
  "StreamRecvInterface_Receiver_Recv data data_len = (\<lambda>(i, js).
     (i\<lparr>sri_operation_data := data, sri_operation_len := data_len,
        sri_state := STATE_OPERATION_PENDING\<rparr>, job_set (sri_job_operation i) js))"

definition StreamRecvInterface_job_operation ::
    "('j, 'f) StreamRecvInterface \<Rightarrow> ('j, 'f) StreamRecvInterface \<times> 'f \<times> ptr \<times> int" where
  "StreamRecvInterface_job_operation i =
     (i\<lparr>sri_state := STATE_BUSY\<rparr>, sri_handler_operation i, sri_operation_data i, sri_operation_len i)"

definition StreamRecvInterface_job_done ::
    "('j, 'f) StreamRecvInterface \<Rightarrow> ('j, 'f) StreamRecvInterface \<times> 'f option \<times> int" where
  "StreamRecvInterface_job_done i =
     (i\<lparr>sri_state := STATE_NONE\<rparr>, sri_handler_done i, sri_done_len i)"

section \<open>What the interfaces have in common\<close>

text \<open>
  The operations of an interface as a client and an event loop see them. The guards are the
  assertions of the source, which the users of the interface have to respect; an interface that
  cannot be cancelled has no cancel job.
\<close>

record ('i, 'j, 'a, 'd) iface_ops =
  io_st :: "'i \<Rightarrow> iface_state"
  io_creq :: "'i \<Rightarrow> bool"
  io_ids :: "'i \<Rightarrow> 'j \<times> 'j option \<times> 'j"
  io_can_start :: "'a \<Rightarrow> 'i \<Rightarrow> bool"
  io_start :: "'a \<Rightarrow> 'i \<times> 'j list \<Rightarrow> 'i \<times> 'j list"
  io_job_op :: "'i \<Rightarrow> 'i"
  io_can_done :: "'d \<Rightarrow> 'i \<Rightarrow> bool"
  io_done :: "'d \<Rightarrow> 'i \<times> 'j list \<Rightarrow> 'i \<times> 'j list"
  io_job_done :: "'i \<Rightarrow> 'i"
  io_can_cancel :: "'i \<Rightarrow> bool"
  io_cancel :: "'i \<times> 'j list \<Rightarrow> 'i \<times> 'j list"
  io_job_cancel :: "'i \<Rightarrow> 'i"

definition io_jop where "io_jop ops i = fst (io_ids ops i)"
definition io_jcancel where "io_jcancel ops i = fst (snd (io_ids ops i))"
definition io_jdone where "io_jdone ops i = snd (snd (io_ids ops i))"

definition own_jobs :: "('i, 'j, 'a, 'd) iface_ops \<Rightarrow> 'i \<Rightarrow> 'j list" where
  "own_jobs ops i = io_jop ops i # io_jdone ops i # (case io_jcancel ops i of None \<Rightarrow> [] | Some c \<Rightarrow> [c])"

datatype iface_ev = Start | RunOp | Finish | RunDone | Cancel | RunCancel | Other

text \<open>
  One step of the system around an interface: a call of the user or the provider, the event loop
  running the interface's job when it is the newest pending one, or anything else that happens
  to the jobs of the other objects.
\<close>

inductive io_step :: "('i, 'j, 'a, 'd) iface_ops \<Rightarrow> 'i \<times> 'j list \<Rightarrow> iface_ev \<Rightarrow> 'i \<times> 'j list \<Rightarrow> bool"
  for ops where
  io_start: "io_can_start ops a i \<Longrightarrow> io_step ops (i, js) Start (io_start ops a (i, js))"
| io_run_op: "io_step ops (i, io_jop ops i # js) RunOp (io_job_op ops i, js)"
| io_finish: "io_can_done ops d i \<Longrightarrow> io_step ops (i, js) Finish (io_done ops d (i, js))"
| io_run_done: "io_step ops (i, io_jdone ops i # js) RunDone (io_job_done ops i, js)"
| io_cancel: "io_can_cancel ops i \<Longrightarrow> io_step ops (i, js) Cancel (io_cancel ops (i, js))"
| io_run_cancel: "io_jcancel ops i = Some c \<Longrightarrow> io_step ops (i, c # js) RunCancel (io_job_cancel ops i, js)"
| io_other: "filter (\<lambda>j. j \<in> set (own_jobs ops i)) js' = filter (\<lambda>j. j \<in> set (own_jobs ops i)) js \<Longrightarrow>
    distinct js' \<Longrightarrow> io_step ops (i, js) Other (i, js')"

inductive_cases io_stepE: "io_step ops w ev w'"

inductive io_run :: "('i, 'j, 'a, 'd) iface_ops \<Rightarrow> 'i \<times> 'j list \<Rightarrow> iface_ev list \<Rightarrow> 'i \<times> 'j list \<Rightarrow> bool"
  for ops where
  io_run_Nil: "io_run ops w [] w"
| io_run_snoc: "io_run ops w evs w' \<Longrightarrow> io_step ops w' ev w'' \<Longrightarrow> io_run ops w (evs @ [ev]) w''"

text \<open>The protocol: which events are possible in which state, and the state after them.\<close>

fun iface_proto :: "iface_state \<Rightarrow> iface_ev \<Rightarrow> iface_state option" where
  "iface_proto STATE_NONE Start = Some STATE_OPERATION_PENDING"
| "iface_proto STATE_OPERATION_PENDING RunOp = Some STATE_BUSY"
| "iface_proto STATE_OPERATION_PENDING Cancel = Some STATE_DONE_PENDING"
| "iface_proto STATE_BUSY Finish = Some STATE_DONE_PENDING"
| "iface_proto STATE_BUSY Cancel = Some STATE_BUSY"
| "iface_proto STATE_BUSY RunCancel = Some STATE_BUSY"
| "iface_proto STATE_DONE_PENDING Cancel = Some STATE_DONE_PENDING"
| "iface_proto STATE_DONE_PENDING RunDone = Some STATE_NONE"
| "iface_proto s Other = Some s"
| "iface_proto _ _ = None"

fun proto_run :: "iface_state \<Rightarrow> iface_ev list \<Rightarrow> iface_state option" where
  "proto_run s [] = Some s"
| "proto_run s (ev # evs) = (case iface_proto s ev of None \<Rightarrow> None | Some s' \<Rightarrow> proto_run s' evs)"

lemma proto_run_append:
  "proto_run s (xs @ ys) = (case proto_run s xs of None \<Rightarrow> None | Some s' \<Rightarrow> proto_run s' ys)"
  by (induction xs arbitrary: s) (auto split: option.splits)

lemma proto_run_counts:
  "proto_run s evs = Some s' \<Longrightarrow>
    count_list evs Start + (if s = STATE_NONE then 0 else 1)
    = count_list evs RunDone + (if s' = STATE_NONE then 0 else 1)
    \<and> count_list evs RunOp \<le> count_list evs Start + (if s = STATE_OPERATION_PENDING then 1 else 0)"
proof (induction evs arbitrary: s)
  case (Cons ev evs)
  then obtain t where t: "iface_proto s ev = Some t" "proto_run t evs = Some s'"
    by (auto split: option.splits)
  from Cons.IH [OF t(2)] t(1) show ?case
    by (cases s; cases ev) (auto split: if_splits)
qed auto

definition io_inv :: "('i, 'j, 'a, 'd) iface_ops \<Rightarrow> 'i \<times> 'j list \<Rightarrow> bool" where
  "io_inv ops = (\<lambda>(i, js). distinct js \<and> distinct (own_jobs ops i)
     \<and> (io_jop ops i \<in> set js \<longleftrightarrow> io_st ops i = STATE_OPERATION_PENDING)
     \<and> (io_jdone ops i \<in> set js \<longleftrightarrow> io_st ops i = STATE_DONE_PENDING)
     \<and> (\<forall>c. io_jcancel ops i = Some c \<longrightarrow> c \<in> set js \<longrightarrow> io_st ops i = STATE_BUSY \<and> io_creq ops i)
     \<and> (io_st ops i = STATE_OPERATION_PENDING \<longrightarrow> \<not> io_creq ops i))"

locale io_interface =
  fixes ops :: "('i, 'j, 'a, 'd) iface_ops"
  assumes start_law: "io_can_start ops a i \<Longrightarrow> \<exists>i'. io_start ops a (i, js) = (i', job_set (io_jop ops i) js)
        \<and> io_ids ops i' = io_ids ops i \<and> io_st ops i = STATE_NONE
        \<and> io_st ops i' = STATE_OPERATION_PENDING \<and> \<not> io_creq ops i'"
    and job_op_law: "io_st ops (io_job_op ops i) = STATE_BUSY
        \<and> io_ids ops (io_job_op ops i) = io_ids ops i \<and> io_creq ops (io_job_op ops i) = io_creq ops i"
    and done_law: "io_can_done ops d i \<Longrightarrow> \<exists>i'. io_done ops d (i, js) =
          (i', job_set (io_jdone ops i) (case io_jcancel ops i of None \<Rightarrow> js | Some c \<Rightarrow> job_unset c js))
        \<and> io_ids ops i' = io_ids ops i \<and> io_st ops i = STATE_BUSY \<and> io_st ops i' = STATE_DONE_PENDING"
    and job_done_law: "io_st ops (io_job_done ops i) = STATE_NONE
        \<and> io_ids ops (io_job_done ops i) = io_ids ops i"
    and job_cancel_law: "io_st ops (io_job_cancel ops i) = io_st ops i
        \<and> io_ids ops (io_job_cancel ops i) = io_ids ops i
        \<and> io_creq ops (io_job_cancel ops i) = io_creq ops i"
    and cancel_law: "io_can_cancel ops i \<Longrightarrow> io_st ops i \<noteq> STATE_NONE \<and>
        (\<exists>i' c. io_jcancel ops i = Some c \<and> io_ids ops i' = io_ids ops i \<and>
          io_cancel ops (i, js) =
           (if io_creq ops i then (i, js)
            else if io_st ops i = STATE_OPERATION_PENDING
            then (i', job_set (io_jdone ops i) (job_unset (io_jop ops i) js))
            else if io_st ops i = STATE_BUSY then (i', job_set c js) else (i', js)) \<and>
          (\<not> io_creq ops i \<longrightarrow> io_creq ops i' \<and> io_st ops i' =
             (if io_st ops i = STATE_OPERATION_PENDING then STATE_DONE_PENDING else io_st ops i)))"
begin

lemma ids_jobs:
  "io_ids ops i' = io_ids ops i \<Longrightarrow> io_jop ops i' = io_jop ops i \<and> io_jdone ops i' = io_jdone ops i
    \<and> io_jcancel ops i' = io_jcancel ops i \<and> own_jobs ops i' = own_jobs ops i"
  by (simp add: io_jop_def io_jdone_def io_jcancel_def own_jobs_def)

lemma inv_other:
  assumes "io_inv ops (i, js)" "distinct js'"
    and "filter (\<lambda>j. j \<in> set (own_jobs ops i)) js' = filter (\<lambda>j. j \<in> set (own_jobs ops i)) js"
  shows "io_inv ops (i, js')"
proof -
  have "x \<in> set js' \<longleftrightarrow> x \<in> set js" if "x \<in> set (own_jobs ops i)" for x
    using arg_cong [OF assms(3), of set] that by auto
  then show ?thesis using assms(1,2)
    by (auto simp: io_inv_def own_jobs_def split: option.splits)
qed

lemma step_inv_start:
  assumes "io_inv ops (i, js)" "io_can_start ops a i"
  shows "io_inv ops (io_start ops a (i, js)) \<and>
    iface_proto (io_st ops i) Start = Some (io_st ops (fst (io_start ops a (i, js))))"
  using assms start_law [OF assms(2), of js]
  by (auto simp: io_inv_def dest!: ids_jobs) (auto simp: own_jobs_def split: option.splits)

lemma step_inv_done:
  assumes "io_inv ops (i, js)" "io_can_done ops d i"
  shows "io_inv ops (io_done ops d (i, js)) \<and>
    iface_proto (io_st ops i) Finish = Some (io_st ops (fst (io_done ops d (i, js))))"
  using assms done_law [OF assms(2), of js]
  by (auto simp: io_inv_def dest!: ids_jobs split: option.splits)
    (auto simp: own_jobs_def split: option.splits)

lemma step_inv_cancel:
  assumes inv: "io_inv ops (i, js)" and can: "io_can_cancel ops i"
  shows "io_inv ops (io_cancel ops (i, js)) \<and>
    iface_proto (io_st ops i) Cancel = Some (io_st ops (fst (io_cancel ops (i, js))))"
proof -
  obtain i' c where st: "io_st ops i \<noteq> STATE_NONE" and c: "io_jcancel ops i = Some c"
    and ids: "io_ids ops i' = io_ids ops i"
    and eq: "io_cancel ops (i, js) =
           (if io_creq ops i then (i, js)
            else if io_st ops i = STATE_OPERATION_PENDING
            then (i', job_set (io_jdone ops i) (job_unset (io_jop ops i) js))
            else if io_st ops i = STATE_BUSY then (i', job_set c js) else (i', js))"
    and i': "\<not> io_creq ops i \<Longrightarrow> io_creq ops i' \<and> io_st ops i' =
             (if io_st ops i = STATE_OPERATION_PENDING then STATE_DONE_PENDING else io_st ops i)"
    using cancel_law [OF can, of js] by auto
  have own: "distinct [io_jop ops i, io_jdone ops i, c]"
    using inv c by (simp add: io_inv_def own_jobs_def)
  note same = ids_jobs [OF ids]
  show ?thesis
  proof (cases "io_creq ops i")
    case True
    then show ?thesis using inv st eq by (cases "io_st ops i") (auto simp: io_inv_def)
  next
    case False
    from i' [OF this] eq False inv st c own same show ?thesis
      by (cases "io_st ops i") (auto simp: io_inv_def)
  qed
qed

lemma step_inv:
  assumes "io_step ops (i, js) ev (i', js')" "io_inv ops (i, js)"
  shows "io_inv ops (i', js') \<and> iface_proto (io_st ops i) ev = Some (io_st ops i')"
  using assms(1)
proof (cases rule: io_step.cases)
  case (io_start a)
  then show ?thesis using step_inv_start [OF assms(2), of a] by (metis fst_conv)
next
  case io_run_op
  then show ?thesis using assms(2) job_op_law [of i] ids_jobs [of "io_job_op ops i" i]
    by (auto simp: io_inv_def own_jobs_def split: option.splits)
next
  case (io_finish d)
  then show ?thesis using step_inv_done [OF assms(2), of d] by (metis fst_conv)
next
  case io_run_done
  then show ?thesis using assms(2) job_done_law [of i] ids_jobs [of "io_job_done ops i" i]
    by (auto simp: io_inv_def own_jobs_def split: option.splits)
next
  case io_cancel
  then show ?thesis using step_inv_cancel [OF assms(2)] by (metis fst_conv)
next
  case (io_run_cancel c)
  then show ?thesis using assms(2) job_cancel_law [of i] ids_jobs [of "io_job_cancel ops i" i]
    by (auto simp: io_inv_def own_jobs_def)
next
  case io_other
  then show ?thesis using inv_other [OF assms(2)] by (cases "io_st ops i") auto
qed

lemma step_ids: "io_step ops w ev w' \<Longrightarrow> io_ids ops (fst w') = io_ids ops (fst w)"
proof (induction rule: io_step.induct)
  case (io_start a i js)
  then show ?case using start_law [of a i js] by auto
next
  case (io_finish d i js)
  then show ?case using done_law [of d i js] by auto
next
  case (io_cancel i js)
  then show ?case using cancel_law [of i js] by auto
qed (use job_op_law job_done_law job_cancel_law in auto)

lemma run_ids: "io_run ops w evs w' \<Longrightarrow> io_ids ops (fst w') = io_ids ops (fst w)"
  by (induction rule: io_run.induct) (auto dest: step_ids)

lemma run_inv:
  assumes "io_run ops w evs w'" "io_inv ops w"
  shows "io_inv ops w' \<and> proto_run (io_st ops (fst w)) evs = Some (io_st ops (fst w'))"
  using assms
proof (induction rule: io_run.induct)
  case (io_run_snoc w evs w' ev w'')
  then show ?case using step_inv [of "fst w'" "snd w'" ev "fst w''" "snd w''"]
    by (simp add: proto_run_append)
qed auto

lemma run_protocol:
  assumes "io_run ops w evs w'" "io_inv ops w" "io_st ops (fst w) = STATE_NONE"
  shows "proto_run STATE_NONE evs = Some (io_st ops (fst w'))
    \<and> count_list evs Start = count_list evs RunDone + (if io_st ops (fst w') = STATE_NONE then 0 else 1)
    \<and> count_list evs RunOp \<le> count_list evs Start"
proof -
  have *: "proto_run STATE_NONE evs = Some (io_st ops (fst w'))"
    using run_inv [OF assms(1,2)] assms(3) by simp
  from proto_run_counts [OF this] * show ?thesis by simp
qed

end

section \<open>The four interfaces\<close>

text \<open>
  The guards are the assertions of the calls in the source; \<open>data = None\<close> is \<^verbatim>\<open>NULL\<close>.
\<close>

definition ppi_ops :: "(('j, 'f) PacketPassInterface, 'j, ptr \<times> int, unit) iface_ops" where
  "ppi_ops = \<lparr>io_st = ppi_state, io_creq = ppi_cancel_requested,
     io_ids = (\<lambda>i. (ppi_job_operation i, Some (ppi_job_requestcancel i), ppi_job_done i)),
     io_can_start = (\<lambda>(data, len) i. 0 \<le> len \<and> len \<le> ppi_mtu i \<and> (0 < len \<longrightarrow> data \<noteq> NULL)
        \<and> ppi_state i = STATE_NONE \<and> ppi_handler_done i \<noteq> None),
     io_start = (\<lambda>(data, len). PacketPassInterface_Sender_Send data len),
     io_job_op = (\<lambda>i. fst (PacketPassInterface_job_operation i)),
     io_can_done = (\<lambda>_ i. ppi_state i = STATE_BUSY),
     io_done = (\<lambda>_. PacketPassInterface_Done),
     io_job_done = (\<lambda>i. fst (PacketPassInterface_job_done i)),
     io_can_cancel = (\<lambda>i. ppi_state i \<noteq> STATE_NONE \<and> ppi_handler_requestcancel i \<noteq> None),
     io_cancel = PacketPassInterface_Sender_RequestCancel,
     io_job_cancel = (\<lambda>i. fst (PacketPassInterface_job_requestcancel i))\<rparr>"

definition pri_ops :: "(('j, 'f) PacketRecvInterface, 'j, ptr, int) iface_ops" where
  "pri_ops = \<lparr>io_st = pri_state, io_creq = (\<lambda>_. False),
     io_ids = (\<lambda>i. (pri_job_operation i, None, pri_job_done i)),
     io_can_start = (\<lambda>data i. (0 < pri_mtu i \<longrightarrow> data \<noteq> NULL)
        \<and> pri_state i = STATE_NONE \<and> pri_handler_done i \<noteq> None),
     io_start = PacketRecvInterface_Receiver_Recv,
     io_job_op = (\<lambda>i. fst (PacketRecvInterface_job_operation i)),
     io_can_done = (\<lambda>len i. 0 \<le> len \<and> len \<le> pri_mtu i \<and> pri_state i = STATE_BUSY),
     io_done = PacketRecvInterface_Done,
     io_job_done = (\<lambda>i. fst (PacketRecvInterface_job_done i)),
     io_can_cancel = (\<lambda>_. False), io_cancel = id, io_job_cancel = id\<rparr>"

definition spi_ops :: "(('j, 'f) StreamPassInterface, 'j, ptr \<times> int, int) iface_ops" where
  "spi_ops = \<lparr>io_st = spi_state, io_creq = (\<lambda>_. False),
     io_ids = (\<lambda>i. (spi_job_operation i, None, spi_job_done i)),
     io_can_start = (\<lambda>(data, len) i. 0 < len \<and> data \<noteq> NULL
        \<and> spi_state i = STATE_NONE \<and> spi_handler_done i \<noteq> None),
     io_start = (\<lambda>(data, len). StreamPassInterface_Sender_Send data len),
     io_job_op = (\<lambda>i. fst (StreamPassInterface_job_operation i)),
     io_can_done = (\<lambda>len i. spi_state i = STATE_BUSY \<and> 0 < len \<and> len \<le> spi_operation_len i),
     io_done = StreamPassInterface_Done,
     io_job_done = (\<lambda>i. fst (StreamPassInterface_job_done i)),
     io_can_cancel = (\<lambda>_. False), io_cancel = id, io_job_cancel = id\<rparr>"

definition sri_ops :: "(('j, 'f) StreamRecvInterface, 'j, ptr \<times> int, int) iface_ops" where
  "sri_ops = \<lparr>io_st = sri_state, io_creq = (\<lambda>_. False),
     io_ids = (\<lambda>i. (sri_job_operation i, None, sri_job_done i)),
     io_can_start = (\<lambda>(data, len) i. 0 < len \<and> data \<noteq> NULL
        \<and> sri_state i = STATE_NONE \<and> sri_handler_done i \<noteq> None),
     io_start = (\<lambda>(data, len). StreamRecvInterface_Receiver_Recv data len),
     io_job_op = (\<lambda>i. fst (StreamRecvInterface_job_operation i)),
     io_can_done = (\<lambda>len i. sri_state i = STATE_BUSY \<and> 0 < len \<and> len \<le> sri_operation_len i),
     io_done = StreamRecvInterface_Done,
     io_job_done = (\<lambda>i. fst (StreamRecvInterface_job_done i)),
     io_can_cancel = (\<lambda>_. False), io_cancel = id, io_job_cancel = id\<rparr>"

lemmas ppi_defs = ppi_ops_def PacketPassInterface_Sender_Send_def PacketPassInterface_Done_def
  PacketPassInterface_job_operation_def PacketPassInterface_job_done_def
  PacketPassInterface_job_requestcancel_def PacketPassInterface_Sender_RequestCancel_def

lemmas pri_defs = pri_ops_def PacketRecvInterface_Receiver_Recv_def PacketRecvInterface_Done_def
  PacketRecvInterface_job_operation_def PacketRecvInterface_job_done_def

lemmas spi_defs = spi_ops_def StreamPassInterface_Sender_Send_def StreamPassInterface_Done_def
  StreamPassInterface_job_operation_def StreamPassInterface_job_done_def

lemmas sri_defs = sri_ops_def StreamRecvInterface_Receiver_Recv_def StreamRecvInterface_Done_def
  StreamRecvInterface_job_operation_def StreamRecvInterface_job_done_def

lemmas io_job_defs = io_jop_def io_jdone_def io_jcancel_def

interpretation ppi: io_interface ppi_ops
proof unfold_locales
  fix i :: "('j, 'f) PacketPassInterface" and js :: "'j list"
  assume "io_can_cancel ppi_ops i"
  then show "io_st ppi_ops i \<noteq> STATE_NONE \<and>
        (\<exists>i' c. io_jcancel ppi_ops i = Some c \<and> io_ids ppi_ops i' = io_ids ppi_ops i \<and>
          io_cancel ppi_ops (i, js) =
           (if io_creq ppi_ops i then (i, js)
            else if io_st ppi_ops i = STATE_OPERATION_PENDING
            then (i', job_set (io_jdone ppi_ops i) (job_unset (io_jop ppi_ops i) js))
            else if io_st ppi_ops i = STATE_BUSY then (i', job_set c js) else (i', js)) \<and>
          (\<not> io_creq ppi_ops i \<longrightarrow> io_creq ppi_ops i' \<and> io_st ppi_ops i' =
             (if io_st ppi_ops i = STATE_OPERATION_PENDING then STATE_DONE_PENDING
              else io_st ppi_ops i)))"
    by (intro conjI exI [of _ "fst (PacketPassInterface_Sender_RequestCancel (i, js))"])
      (auto simp: ppi_defs io_job_defs Let_def)
qed (auto simp: ppi_defs io_job_defs)

interpretation pri: io_interface pri_ops
  by unfold_locales (auto simp: pri_defs io_job_defs)

interpretation spi: io_interface spi_ops
  by unfold_locales (auto simp: spi_defs io_job_defs)

interpretation sri: io_interface sri_ops
  by unfold_locales (auto simp: sri_defs io_job_defs)

lemmas iface_init_defs = io_inv_def io_job_defs own_jobs_def
  ppi_ops_def pri_ops_def spi_ops_def sri_ops_def
  PacketPassInterface_Init_def PacketPassInterface_EnableCancel_def PacketPassInterface_Sender_Init_def
  PacketRecvInterface_Init_def PacketRecvInterface_Receiver_Init_def
  StreamPassInterface_Init_def StreamPassInterface_Sender_Init_def
  StreamRecvInterface_Init_def StreamRecvInterface_Receiver_Init_def

lemma iface_init_inv:
  "distinct [jo, jc, jd] \<Longrightarrow> jo \<notin> set js \<Longrightarrow> jc \<notin> set js \<Longrightarrow> jd \<notin> set js \<Longrightarrow> distinct js \<Longrightarrow>
    io_inv ppi_ops (PacketPassInterface_Init i mtu h jo jc jd, js)"
  "jo \<noteq> jd \<Longrightarrow> jo \<notin> set js \<Longrightarrow> jd \<notin> set js \<Longrightarrow> distinct js \<Longrightarrow>
    io_inv pri_ops (PacketRecvInterface_Init pi mtu h jo jd, js)"
  "jo \<noteq> jd \<Longrightarrow> jo \<notin> set js \<Longrightarrow> jd \<notin> set js \<Longrightarrow> distinct js \<Longrightarrow>
    io_inv spi_ops (StreamPassInterface_Init si h jo jd, js)"
  "jo \<noteq> jd \<Longrightarrow> jo \<notin> set js \<Longrightarrow> jd \<notin> set js \<Longrightarrow> distinct js \<Longrightarrow>
    io_inv sri_ops (StreamRecvInterface_Init ri h jo jd, js)"
  by (auto simp: iface_init_defs)

section \<open>Properties\<close>

text \<open>
  Whatever the users of a \<^verbatim>\<open>PacketPassInterface\<close> do within its assertions, and whatever
  happens to other jobs, each of its jobs runs only in the state that the handler asserts, every
  send is answered by exactly one call of \<^verbatim>\<open>handler_done\<close> (also when it was cancelled, at any
  moment), the provider is called at most once per send, and freeing the interface leaves none
  of its jobs pending.
\<close>

theorem packet_pass_protocol:
  assumes "distinct [jo, jc, jd]" and "set [jo, jc, jd] \<inter> set js = {}" and "distinct js"
    and "io_run ppi_ops (PacketPassInterface_Sender_Init
           (PacketPassInterface_EnableCancel (PacketPassInterface_Init i0 mtu h jo jc jd) hc) hdone, js)
         evs (i, js')"
  shows "proto_run STATE_NONE evs = Some (ppi_state i)
    \<and> count_list evs Start = count_list evs RunDone + (if ppi_state i = STATE_NONE then 0 else 1)
    \<and> count_list evs RunOp \<le> count_list evs Start
    \<and> set (PacketPassInterface_Free i js') \<inter> {jo, jc, jd} = {}"
proof -
  let ?i = "PacketPassInterface_Sender_Init
           (PacketPassInterface_EnableCancel (PacketPassInterface_Init i0 mtu h jo jc jd) hc) hdone"
  have inv0: "io_inv ppi_ops (?i, js)"
    using iface_init_inv(1) [of jo jc jd js i0 mtu h] assms(1-3)
    by (simp add: iface_init_defs)
  have ids: "io_ids ppi_ops ?i = (jo, Some jc, jd)"
    by (simp add: iface_init_defs)
  have st: "io_st ppi_ops ?i = STATE_NONE"
    by (simp add: iface_init_defs)
  have r: "io_inv ppi_ops (i, js')" "proto_run STATE_NONE evs = Some (ppi_state i)"
    using ppi.run_inv [OF assms(4) inv0] st by (simp_all add: ppi_ops_def)
  have "distinct js'" using r(1) by (simp add: io_inv_def)
  moreover have "io_ids ppi_ops i = (jo, Some jc, jd)"
    using ppi.run_ids [OF assms(4)] ids by simp
  ultimately have "set (PacketPassInterface_Free i js') \<inter> {jo, jc, jd} = {}"
    by (auto simp: PacketPassInterface_Free_def ppi_ops_def)
  with r(2) proto_run_counts [OF r(2)] show ?thesis by simp
qed

theorem packet_pass_protocol_witness:
  "\<exists>(i :: (nat, nat) PacketPassInterface) js'.
     io_run ppi_ops (PacketPassInterface_Sender_Init
           (PacketPassInterface_EnableCancel (PacketPassInterface_Init undefined 100 7 0 1 2) 8) 9, [])
         [Start, Cancel, RunDone] (i, js')
     \<and> proto_run STATE_NONE [Start, Cancel, RunDone] = Some (ppi_state i)
     \<and> set (PacketPassInterface_Free i js') \<inter> {0, 1, 2} = {}"
proof -
  let ?i = "PacketPassInterface_Sender_Init
     (PacketPassInterface_EnableCancel (PacketPassInterface_Init undefined 100 7 0 1 2) 8) 9
     :: (nat, nat) PacketPassInterface"
  have "io_step ppi_ops (?i, []) Start (io_start ppi_ops (Some 4096, 20) (?i, []))"
    by (rule io_step.io_start) (simp add: iface_init_defs)
  then obtain i1 where s1: "io_step ppi_ops (?i, []) Start (i1, [0])"
    and i1: "i1 = fst (io_start ppi_ops (Some 4096, 20) (?i, []))"
    by (simp add: ppi_defs job_set_def iface_init_defs)
  have "io_step ppi_ops (i1, [0]) Cancel (io_cancel ppi_ops (i1, [0]))"
    by (rule io_step.io_cancel) (simp add: i1 ppi_defs iface_init_defs)
  then obtain i2 where s2: "io_step ppi_ops (i1, [0]) Cancel (i2, [2])"
    and i2: "i2 = fst (io_cancel ppi_ops (i1, [0]))" and j2: "io_jdone ppi_ops i2 = 2"
    by (simp add: i1 ppi_defs job_set_def job_unset_def io_jdone_def iface_init_defs)
  have s3: "io_step ppi_ops (i2, [2]) RunDone (io_job_done ppi_ops i2, [])"
    using io_step.io_run_done [of ppi_ops i2 "[]"] by (simp add: j2)
  have run: "io_run ppi_ops (?i, []) [Start, Cancel, RunDone] (io_job_done ppi_ops i2, [])"
    using io_run_snoc [OF io_run_snoc [OF io_run_snoc [OF io_run_Nil s1] s2] s3] by simp
  from packet_pass_protocol [OF _ _ _ run] run show ?thesis
    by (intro exI [of _ "io_job_done ppi_ops i2"] exI [of _ "[]"]) simp
qed

text \<open>
  The receive and stream interfaces follow the same protocol: the operation handler and the
  done handler strictly alternate, every job runs in the state its handler asserts, and each
  started operation is answered by exactly one done call.
\<close>

theorem recv_stream_protocol:
  assumes "jo \<noteq> jd" and "{jo, jd} \<inter> set js = {}" and "distinct js"
  shows "(io_run pri_ops (PacketRecvInterface_Receiver_Init
             (PacketRecvInterface_Init p0 mtu h jo jd) hdone, js) evs (p1, js') \<longrightarrow>
           proto_run STATE_NONE evs = Some (pri_state p1) \<and>
           count_list evs Start = count_list evs RunDone + (if pri_state p1 = STATE_NONE then 0 else 1))
    \<and> (io_run spi_ops (StreamPassInterface_Sender_Init
             (StreamPassInterface_Init s0 h jo jd) hdone, js) evs (s1, js') \<longrightarrow>
           proto_run STATE_NONE evs = Some (spi_state s1) \<and>
           count_list evs Start = count_list evs RunDone + (if spi_state s1 = STATE_NONE then 0 else 1))
    \<and> (io_run sri_ops (StreamRecvInterface_Receiver_Init
             (StreamRecvInterface_Init r0 h jo jd) hdone, js) evs (r1, js') \<longrightarrow>
           proto_run STATE_NONE evs = Some (sri_state r1) \<and>
           count_list evs Start = count_list evs RunDone + (if sri_state r1 = STATE_NONE then 0 else 1))"
proof (intro conjI impI)
  assume r: "io_run pri_ops (PacketRecvInterface_Receiver_Init
      (PacketRecvInterface_Init p0 mtu h jo jd) hdone, js) evs (p1, js')"
  show "proto_run STATE_NONE evs = Some (pri_state p1)"
    "count_list evs Start = count_list evs RunDone + (if pri_state p1 = STATE_NONE then 0 else 1)"
    using pri.run_protocol [OF r] assms by (simp_all add: iface_init_defs)
next
  assume r: "io_run spi_ops (StreamPassInterface_Sender_Init
      (StreamPassInterface_Init s0 h jo jd) hdone, js) evs (s1, js')"
  show "proto_run STATE_NONE evs = Some (spi_state s1)"
    "count_list evs Start = count_list evs RunDone + (if spi_state s1 = STATE_NONE then 0 else 1)"
    using spi.run_protocol [OF r] assms by (simp_all add: iface_init_defs)
next
  assume r: "io_run sri_ops (StreamRecvInterface_Receiver_Init
      (StreamRecvInterface_Init r0 h jo jd) hdone, js) evs (r1, js')"
  show "proto_run STATE_NONE evs = Some (sri_state r1)"
    "count_list evs Start = count_list evs RunDone + (if sri_state r1 = STATE_NONE then 0 else 1)"
    using sri.run_protocol [OF r] assms by (simp_all add: iface_init_defs)
qed

theorem recv_stream_protocol_witness:
  "\<exists>(r1 :: (nat, nat) StreamRecvInterface) js'.
     io_run sri_ops (StreamRecvInterface_Receiver_Init
        (StreamRecvInterface_Init undefined 7 0 1) 9, []) [Start, RunOp] (r1, js')
     \<and> sri_state r1 = STATE_BUSY \<and> proto_run STATE_NONE [Start, RunOp] = Some (sri_state r1)"
proof -
  let ?i = "StreamRecvInterface_Receiver_Init (StreamRecvInterface_Init undefined 7 0 1) 9
     :: (nat, nat) StreamRecvInterface"
  have "io_step sri_ops (?i, []) Start (io_start sri_ops (Some 4096, 20) (?i, []))"
    by (rule io_step.io_start) (simp add: iface_init_defs)
  then obtain i1 where s1: "io_step sri_ops (?i, []) Start (i1, [0])"
    and j1: "io_jop sri_ops i1 = 0"
    by (simp add: sri_defs job_set_def iface_init_defs)
  have s2: "io_step sri_ops (i1, [0]) RunOp (io_job_op sri_ops i1, [])"
    using io_step.io_run_op [of sri_ops i1 "[]"] by (simp add: j1)
  have run: "io_run sri_ops (?i, []) [Start, RunOp] (io_job_op sri_ops i1, [])"
    using io_run_snoc [OF io_run_snoc [OF io_run_Nil s1] s2] by simp
  have "proto_run STATE_NONE [Start, RunOp] = Some (sri_state (io_job_op sri_ops i1))"
    using recv_stream_protocol [THEN conjunct2, THEN conjunct2, THEN mp, OF _ _ _ run] by simp
  with run show ?thesis by (intro exI [of _ "io_job_op sri_ops i1"] exI [of _ "[]"]) simp
qed

end
