(* ===== verification/Packet_Proto.thy ===== *)
theory Packet_Proto
  imports Misc
begin

text \<open>
  The framing of packets on a byte stream: \<^verbatim>\<open>protocol/packetproto.h\<close>, \<^verbatim>\<open>flow/PacketProtoEncoder.c\<close>
  and \<^verbatim>\<open>flow/PacketProtoDecoder.c\<close>. An operation returns the new memory and object state and the
  calls it makes on its neighbours, in order. \<open>parse_frames\<close> is the reference parser of the byte
  stream; the locale \<open>framing\<close> states what incremental decoding needs of an encoding, and its
  interpretation on PacketProto carries the stream properties.
\<close>

section \<open>The code\<close>

definition sizeof_packetproto_header :: int where
  "sizeof_packetproto_header = 2"

definition PACKETPROTO_ENCLEN :: "int \<Rightarrow> int" where
  "PACKETPROTO_ENCLEN len = sizeof_packetproto_header + len"

definition PACKETPROTO_MAXPAYLOAD :: int where
  "PACKETPROTO_MAXPAYLOAD = UINT16_MAX"

subsection \<open>PacketProtoEncoder\<close>

record PacketProtoEncoder =
  enc_output_mtu :: int
  enc_output_packet :: ptr

datatype enc_call =
    Enc_Input_Recv ptr
  | Enc_Output_Done int

definition PacketProtoEncoder_Init :: "int \<Rightarrow> PacketProtoEncoder" where
  "PacketProtoEncoder_Init input_mtu =
     \<lparr>enc_output_mtu = PACKETPROTO_ENCLEN input_mtu, enc_output_packet = NULL\<rparr>"

definition PacketProtoEncoder_output_handler_recv ::
    "PacketProtoEncoder \<Rightarrow> ptr \<Rightarrow> PacketProtoEncoder \<times> enc_call list" where
  "PacketProtoEncoder_output_handler_recv enc data =
     (enc\<lparr>enc_output_packet := data\<rparr>, [Enc_Input_Recv (padd data sizeof_packetproto_header)])"

definition PacketProtoEncoder_input_handler_done ::
    "mem \<Rightarrow> PacketProtoEncoder \<Rightarrow> int \<Rightarrow> mem \<times> PacketProtoEncoder \<times> enc_call list" where
  "PacketProtoEncoder_input_handler_done m enc in_len =
     (let pp_len = htol16 (word_of_int in_len);
          m' = (case enc_output_packet enc of None \<Rightarrow> m | Some a \<Rightarrow> mem_write m a (bytes16 pp_len))
      in (m', enc\<lparr>enc_output_packet := NULL\<rparr>, [Enc_Output_Done (PACKETPROTO_ENCLEN in_len)]))"

subsection \<open>PacketProtoDecoder\<close>

record PacketProtoDecoder =
  dec_output_mtu :: int
  dec_buf_size :: int
  dec_buf_start :: int
  dec_buf_used :: int
  dec_buf :: nat

datatype dec_call =
    Dec_Send nat int
  | Dec_Recv nat int
  | Dec_Error

text \<open>\<open>None\<close> is the packet-too-large error, \<open>Some None\<close> that more data is needed, \<open>Some (Some n)\<close> a
  whole packet of \<open>n\<close> bytes: the outcome of the \<^verbatim>\<open>do { ... } while (0)\<close> of the source.\<close>

definition decoder_check :: "mem \<Rightarrow> PacketProtoDecoder \<Rightarrow> int option option" where
  "decoder_check m enc =
     (let data = dec_buf enc + nat (dec_buf_start enc); left = dec_buf_used enc
      in if left < sizeof_packetproto_header then Some None
         else let header_len = word16 (mem_read m data 2);
                  left = left - sizeof_packetproto_header;
                  data_len = uint (ltoh16 header_len)
              in if data_len > dec_output_mtu enc then None
                 else if left < data_len then Some None
                 else Some (Some data_len))"

definition process_data :: "mem \<Rightarrow> PacketProtoDecoder \<Rightarrow> mem \<times> PacketProtoDecoder \<times> dec_call list" where
  "process_data m enc =
     (case decoder_check m enc of
        Some (Some data_len) \<Rightarrow>
          (m, enc\<lparr>dec_buf_start := dec_buf_start enc + (sizeof_packetproto_header + data_len),
                  dec_buf_used := dec_buf_used enc - (sizeof_packetproto_header + data_len)\<rparr>,
           [Dec_Send (dec_buf enc + nat (dec_buf_start enc) + nat sizeof_packetproto_header) data_len])
      | r \<Rightarrow>
          let was_error = (r = None);
              (m1, enc1) =
                (if was_error then (m, enc\<lparr>dec_buf_start := 0, dec_buf_used := 0\<rparr>)
                 else if dec_buf_start enc + dec_buf_used enc = dec_buf_size enc
                 then (memmove m (dec_buf enc) (dec_buf enc + nat (dec_buf_start enc))
                         (nat (dec_buf_used enc)), enc\<lparr>dec_buf_start := 0\<rparr>)
                 else (m, enc));
              recv = Dec_Recv (dec_buf enc1 + nat (dec_buf_start enc1 + dec_buf_used enc1))
                       (dec_buf_size enc1 - (dec_buf_start enc1 + dec_buf_used enc1))
          in (m1, enc1, recv # (if was_error then [Dec_Error] else [])))"

definition PacketProtoDecoder_input_handler_done ::
    "mem \<Rightarrow> PacketProtoDecoder \<Rightarrow> int \<Rightarrow> mem \<times> PacketProtoDecoder \<times> dec_call list" where
  "PacketProtoDecoder_input_handler_done m enc data_len =
     process_data m (enc\<lparr>dec_buf_used := dec_buf_used enc + data_len\<rparr>)"

definition PacketProtoDecoder_output_handler_done ::
    "mem \<Rightarrow> PacketProtoDecoder \<Rightarrow> mem \<times> PacketProtoDecoder \<times> dec_call list" where
  "PacketProtoDecoder_output_handler_done m enc = process_data m enc"

definition PacketProtoDecoder_Init :: "int \<Rightarrow> ptr \<Rightarrow> (PacketProtoDecoder \<times> dec_call list) option" where
  "PacketProtoDecoder_Init output_mtu malloc_buf =
     (let mtu = bmin_int output_mtu PACKETPROTO_MAXPAYLOAD; size = PACKETPROTO_ENCLEN mtu
      in case malloc_buf of
           None \<Rightarrow> None
         | Some b \<Rightarrow> Some (\<lparr>dec_output_mtu = mtu, dec_buf_size = size, dec_buf_start = 0,
                           dec_buf_used = 0, dec_buf = b\<rparr>, [Dec_Recv b size]))"

definition PacketProtoDecoder_Reset :: "PacketProtoDecoder \<Rightarrow> PacketProtoDecoder" where
  "PacketProtoDecoder_Reset enc =
     enc\<lparr>dec_buf_start := dec_buf_start enc + dec_buf_used enc, dec_buf_used := 0\<rparr>"

section \<open>The reference parser\<close>

definition frame :: "byte list \<Rightarrow> byte list" where
  "frame p = bytes16 (word_of_nat (length p)) @ p"

text \<open>The packets of a stream with the unparsed rest, \<open>None\<close> when a header exceeds the MTU.\<close>

function parse_frames :: "nat \<Rightarrow> byte list \<Rightarrow> byte list list \<times> byte list option" where
  "parse_frames mtu bs =
     (if length bs < 2 then ([], Some bs)
      else let n = unat (word16 (take 2 bs))
           in if mtu < n then ([], None)
              else if length bs < 2 + n then ([], Some bs)
              else let (ps, r) = parse_frames mtu (drop (2 + n) bs)
                   in (take n (drop 2 bs) # ps, r))"
  by auto
termination by (relation "measure (\<lambda>(_, bs). length bs)") auto

declare parse_frames.simps [simp del]

lemma parse_frames_short: "length bs < 2 \<Longrightarrow> parse_frames mtu bs = ([], Some bs)"
  by (subst parse_frames.simps) simp

lemma unat_word_of_nat_16: "n \<le> 65535 \<Longrightarrow> unat (word_of_nat n :: u16) = n"
  by (simp add: unat_of_nat)

lemma frame_Cons_parse:
  assumes "length p \<le> mtu" "mtu \<le> 65535"
  shows "parse_frames mtu (frame p @ bs) = (p # fst (parse_frames mtu bs), snd (parse_frames mtu bs))"
proof -
  have n: "unat (word16 (take 2 (frame p @ bs))) = length p"
    using assms by (simp add: frame_def unat_word_of_nat_16)
  have d: "drop (2 + length p) (frame p @ bs) = bs" "take (length p) (drop 2 (frame p @ bs)) = p"
    and l: "\<not> length (frame p @ bs) < 2 + length p" "\<not> length (frame p @ bs) < 2"
    by (simp_all add: frame_def)
  show ?thesis
    using assms(1) l by (subst parse_frames.simps) (simp only: n d Let_def split_beta, simp)
qed

lemma parse_frames_more:
  "parse_frames mtu bs = (ps, Some r) \<Longrightarrow>
    parse_frames mtu (bs @ c) = (ps @ fst (parse_frames mtu (r @ c)), snd (parse_frames mtu (r @ c)))"
proof (induction mtu bs arbitrary: ps rule: parse_frames.induct)
  case (1 mtu bs)
  let ?n = "unat (word16 (take 2 bs))"
  show ?case
  proof (cases "length bs < 2 \<or> length bs < 2 + ?n \<and> ?n \<le> mtu")
    case True
    then have "ps = [] \<and> r = bs"
      using "1.prems" by (subst (asm) parse_frames.simps) (auto simp: Let_def split: if_splits)
    then show ?thesis by simp
  next
    case False
    have m: "\<not> mtu < ?n"
      using "1.prems" False by (subst (asm) parse_frames.simps) (auto simp: Let_def split: if_splits)
    with False have n: "\<not> length bs < 2" "\<not> mtu < ?n" "\<not> length bs < 2 + ?n" by auto
    obtain qs where q: "parse_frames mtu (drop (2 + ?n) bs) = (qs, Some r)"
      and ps: "ps = take ?n (drop 2 bs) # qs"
      using "1.prems" n by (subst (asm) parse_frames.simps) (auto simp: Let_def split: prod.splits)
    have IH: "parse_frames mtu (drop (2 + ?n) bs @ c) =
        (qs @ fst (parse_frames mtu (r @ c)), snd (parse_frames mtu (r @ c)))"
      using "1.IH" [OF n(1) refl n(2,3) q] .
    have "take 2 (bs @ c) = take 2 bs" "drop (2 + ?n) (bs @ c) = drop (2 + ?n) bs @ c"
      "take ?n (drop 2 (bs @ c)) = take ?n (drop 2 bs)" "\<not> length (bs @ c) < 2 + ?n"
      "\<not> length (bs @ c) < 2"
      using n by simp_all
    with n IH ps show ?thesis
      by (subst parse_frames.simps) (simp only: Let_def split_beta if_False, simp)
  qed
qed

lemma parse_frames_error:
  "parse_frames mtu bs = (ps, None) \<Longrightarrow> parse_frames mtu (bs @ c) = (ps, None)"
proof (induction mtu bs arbitrary: ps rule: parse_frames.induct)
  case (1 mtu bs)
  let ?n = "unat (word16 (take 2 bs))"
  have l0: "\<not> length bs < 2"
    using "1.prems" by (subst (asm) parse_frames.simps) (auto split: if_splits)
  then have l: "\<not> length bs < 2" "\<not> length (bs @ c) < 2" and t: "take 2 (bs @ c) = take 2 bs"
    by auto
  show ?case
  proof (cases "mtu < ?n")
    case True
    then have "ps = []" using "1.prems" l
      by (subst (asm) parse_frames.simps) (simp add: Let_def)
    then show ?thesis using l t True by (subst parse_frames.simps) (simp add: Let_def)
  next
    case False
    have n: "\<not> length bs < 2 + ?n"
      using "1.prems" l False by (subst (asm) parse_frames.simps) (auto simp: Let_def split: if_splits)
    obtain qs where q: "parse_frames mtu (drop (2 + ?n) bs) = (qs, None)"
      and ps: "ps = take ?n (drop 2 bs) # qs"
      using "1.prems" l False n by (subst (asm) parse_frames.simps) (auto simp: Let_def split: prod.splits)
    from "1.IH" [OF l(1) refl False n q]
    have "parse_frames mtu (drop (2 + ?n) (bs @ c)) = (qs, None)" using n by simp
    moreover have "\<not> length (bs @ c) < 2 + ?n" "take ?n (drop 2 (bs @ c)) = take ?n (drop 2 bs)"
      using n by simp_all
    ultimately show ?thesis using l t False ps
      by (subst parse_frames.simps) (simp only: Let_def split_beta if_False, simp)
  qed
qed

section \<open>Incremental decoding\<close>

text \<open>
  \<open>feed_chunks\<close> parses a stream that arrives in chunks, keeping the unparsed rest in between.
\<close>

fun feed_chunks :: "('b list \<Rightarrow> 'p list \<times> 'b list option) \<Rightarrow> 'b list \<Rightarrow> 'b list list \<Rightarrow>
    'p list \<times> 'b list option" where
  "feed_chunks parse r [] = ([], Some r)"
| "feed_chunks parse r (c # cs) =
     (case parse (r @ c) of
        (ps, None) \<Rightarrow> (ps, None)
      | (ps, Some r') \<Rightarrow> (ps @ fst (feed_chunks parse r' cs), snd (feed_chunks parse r' cs)))"

locale framing =
  fixes valid :: "'p \<Rightarrow> bool" and enc :: "'p \<Rightarrow> 'b list"
    and parse :: "'b list \<Rightarrow> 'p list \<times> 'b list option"
  assumes parse_Nil: "parse [] = ([], Some [])"
    and parse_enc: "valid p \<Longrightarrow> parse (enc p @ bs) = (p # fst (parse bs), snd (parse bs))"
    and parse_more: "parse bs = (ps, Some r) \<Longrightarrow>
          parse (bs @ c) = (ps @ fst (parse (r @ c)), snd (parse (r @ c)))"
    and parse_error: "parse bs = (ps, None) \<Longrightarrow> parse (bs @ c) = (ps, None)"
begin

lemma parse_stream:
  "\<forall>p \<in> set ps. valid p \<Longrightarrow> parse (concat (map enc ps)) = (ps, Some [])"
  by (induction ps) (auto simp: parse_Nil parse_enc)

lemma parse_rest: "parse bs = (ps, Some r) \<Longrightarrow> parse r = ([], Some r)"
  using parse_more [of bs ps r "[]"] by (auto simp: prod_eq_iff)

lemma feed_is_parse:
  assumes "parse r = ([], Some r)"
  shows "feed_chunks parse r cs = parse (r @ concat cs)"
  using assms
proof (induction cs arbitrary: r)
  case (Cons c cs)
  obtain ps t where t: "parse (r @ c) = (ps, t)" by fastforce
  show ?case
  proof (cases t)
    case None
    then show ?thesis using t parse_error [of "r @ c" ps "concat cs"] by simp
  next
    case (Some r')
    then have "parse (r @ c @ concat cs) = (ps @ fst (parse (r' @ concat cs)), snd (parse (r' @ concat cs)))"
      using parse_more [of "r @ c" ps r' "concat cs"] t by simp
    then show ?thesis
      using Some t Cons.IH [of r'] Cons.prems parse_rest [of "r @ c" ps r'] by simp
  qed
qed simp

end

interpretation pp: framing "\<lambda>p. length p \<le> min mtu 65535" frame "parse_frames (min mtu 65535)"
  for mtu :: nat
proof unfold_locales
  show "parse_frames (min mtu 65535) [] = ([], Some [])" by (rule parse_frames_short) simp
qed (auto intro: frame_Cons_parse parse_frames_more parse_frames_error)

section \<open>The decoder implements the parser\<close>

definition dec_inv :: "PacketProtoDecoder \<Rightarrow> bool" where
  "dec_inv d \<longleftrightarrow> 0 \<le> dec_output_mtu d \<and> dec_output_mtu d \<le> PACKETPROTO_MAXPAYLOAD
     \<and> dec_buf_size d = PACKETPROTO_ENCLEN (dec_output_mtu d) \<and> 0 \<le> dec_buf_start d
     \<and> 0 \<le> dec_buf_used d \<and> dec_buf_start d + dec_buf_used d \<le> dec_buf_size d"

definition dec_content :: "mem \<Rightarrow> PacketProtoDecoder \<Rightarrow> byte list" where
  "dec_content m d = mem_read m (dec_buf d + nat (dec_buf_start d)) (nat (dec_buf_used d))"

lemmas pp_consts =
  sizeof_packetproto_header_def PACKETPROTO_ENCLEN_def PACKETPROTO_MAXPAYLOAD_def

lemma length_dec_content [simp]: "length (dec_content m d) = nat (dec_buf_used d)"
  by (simp add: dec_content_def)

lemma decoder_check_content:
  assumes "dec_inv d"
  shows "decoder_check m d =
    (let bs = dec_content m d; n = unat (word16 (take 2 bs))
     in if length bs < 2 then Some None else if nat (dec_output_mtu d) < n then None
        else if length bs < 2 + n then Some None else Some (Some (int n)))"
proof -
  let ?w = "word16 (mem_read m (dec_buf d + nat (dec_buf_start d)) 2)"
  obtain n where n: "unat ?w = n" "uint ?w = int n" by simp
  have "take 2 (dec_content m d) = mem_read m (dec_buf d + nat (dec_buf_start d)) 2"
    if "2 \<le> dec_buf_used d"
    using that by (simp add: dec_content_def take_mem_read)
  then show ?thesis
    using assms n by (cases "2 \<le> dec_buf_used d")
      (simp_all add: decoder_check_def dec_inv_def pp_consts Let_def byteorder_defs, arith+)
qed

definition dec_send_of :: "dec_call list \<Rightarrow> (nat \<times> int) option" where
  "dec_send_of cs = (case cs of [Dec_Send a n] \<Rightarrow> Some (a, n) | _ \<Rightarrow> None)"

lemma process_data_send:
  assumes "process_data m d = (m', d', cs)" "dec_send_of cs = Some (a, n)"
  shows "decoder_check m d = Some (Some n)" "m' = m"
    "d' = d\<lparr>dec_buf_start := dec_buf_start d + (2 + n), dec_buf_used := dec_buf_used d - (2 + n)\<rparr>"
    "a = dec_buf d + nat (dec_buf_start d) + 2"
  using assms
  by (auto simp: process_data_def dec_send_of_def Let_def pp_consts split: option.splits if_splits prod.splits)

lemma decoder_check_bounds:
  "decoder_check m d = Some (Some n) \<Longrightarrow> 0 \<le> n \<and> 2 + n \<le> dec_buf_used d"
  by (auto simp: decoder_check_def Let_def pp_consts split: if_splits)

text \<open>
  The decoder together with the packet consumer: while there is a whole packet, it is passed on
  and the consumer's completion makes the decoder look for the next one.
\<close>

function dec_drain :: "mem \<Rightarrow> PacketProtoDecoder \<Rightarrow>
    byte list list \<times> mem \<times> PacketProtoDecoder \<times> dec_call list" where
  "dec_drain m d =
     (let (m', d', cs) = process_data m d
      in case dec_send_of cs of
           None \<Rightarrow> ([], m', d', cs)
         | Some (a, n) \<Rightarrow>
             (let (ps, w) = dec_drain m' d' in (mem_read m' a (nat n) # ps, w)))"
  by pat_completeness auto
termination
proof (relation "measure (\<lambda>(_, d). nat (dec_buf_used d))")
  fix m d m' d' cs a n and x y :: "mem \<times> PacketProtoDecoder \<times> dec_call list"
    and z :: "PacketProtoDecoder \<times> dec_call list" and u :: "nat \<times> int"
  assume "x = process_data m d" "(m', z) = x" "(d', cs) = z" "dec_send_of cs = Some u" "(a, n) = u"
  then have p: "process_data m d = (m', d', cs)" "dec_send_of cs = Some (a, n)" by auto
  from process_data_send [OF this] decoder_check_bounds [of m d n]
  show "((m', d'), m, d) \<in> measure (\<lambda>(_, d). nat (dec_buf_used d))" by simp
qed simp

declare dec_drain.simps [simp del]

definition dec_feed :: "byte list \<Rightarrow> mem \<times> PacketProtoDecoder \<Rightarrow>
    byte list list \<times> mem \<times> PacketProtoDecoder \<times> dec_call list" where
  "dec_feed c = (\<lambda>(m, d).
     dec_drain (mem_write m (dec_buf d + nat (dec_buf_start d + dec_buf_used d)) c)
       (d\<lparr>dec_buf_used := dec_buf_used d + int (length c)\<rparr>))"

lemma process_data_stop:
  assumes inv: "dec_inv d" and p: "process_data m d = (m', d', cs)" and ns: "dec_send_of cs = None"
  shows "dec_inv d'" and "dec_output_mtu d' = dec_output_mtu d" and "dec_buf d' = dec_buf d"
    and "0 < dec_buf_size d' - (dec_buf_start d' + dec_buf_used d')"
    and "cs = Dec_Recv (dec_buf d' + nat (dec_buf_start d' + dec_buf_used d'))
                (dec_buf_size d' - (dec_buf_start d' + dec_buf_used d'))
              # (if decoder_check m d = None then [Dec_Error] else [])"
    and "if decoder_check m d = None then dec_buf_used d' = 0 else dec_content m' d' = dec_content m d"
    and "x < dec_buf d \<or> dec_buf d + nat (dec_buf_size d) \<le> x \<Longrightarrow> m' x = m x"
proof -
  have ok: "decoder_check m d = None \<or> decoder_check m d = Some None"
    using p ns by (auto simp: process_data_def dec_send_of_def Let_def split: option.splits)
  have full: "dec_buf_used d < dec_buf_size d" if "decoder_check m d = Some None"
    using that inv by (auto simp: decoder_check_def dec_inv_def Let_def pp_consts split: if_splits)
  note defs = process_data_def Let_def dec_inv_def pp_consts memmove_def dec_content_def
  from ok show "dec_inv d'" "dec_output_mtu d' = dec_output_mtu d" "dec_buf d' = dec_buf d"
    "0 < dec_buf_size d' - (dec_buf_start d' + dec_buf_used d')"
    "cs = Dec_Recv (dec_buf d' + nat (dec_buf_start d' + dec_buf_used d'))
                (dec_buf_size d' - (dec_buf_start d' + dec_buf_used d'))
              # (if decoder_check m d = None then [Dec_Error] else [])"
    "if decoder_check m d = None then dec_buf_used d' = 0 else dec_content m' d' = dec_content m d"
    using inv p full by (auto simp: defs mem_read_write_same split: if_splits)
  show "m' x = m x" if "x < dec_buf d \<or> dec_buf d + nat (dec_buf_size d) \<le> x"
    using ok inv p full that by (auto simp: defs split: if_splits intro!: mem_write_outside)
qed

lemma dec_content_drop:
  "0 \<le> dec_buf_start d \<Longrightarrow> 0 \<le> k \<Longrightarrow> k \<le> dec_buf_used d \<Longrightarrow>
    dec_content m (d\<lparr>dec_buf_start := dec_buf_start d + k, dec_buf_used := dec_buf_used d - k\<rparr>)
    = drop (nat k) (dec_content m d)"
  by (rule nth_equalityI) (auto simp: dec_content_def nat_add_distrib nat_diff_distrib add.assoc)

lemma dec_content_take:
  "0 \<le> n \<Longrightarrow> 2 + n \<le> dec_buf_used d \<Longrightarrow>
    mem_read m (dec_buf d + nat (dec_buf_start d) + 2) (nat n) = take (nat n) (drop 2 (dec_content m d))"
  unfolding dec_content_def by (subst mem_read_take_drop) auto

lemma dec_drain_parse:
  assumes "dec_inv d" and "dec_drain m d = (ps, m', d', cs)"
  shows "dec_inv d' \<and> dec_output_mtu d' = dec_output_mtu d \<and> dec_buf d' = dec_buf d
    \<and> 0 < dec_buf_size d' - (dec_buf_start d' + dec_buf_used d')
    \<and> fst (parse_frames (nat (dec_output_mtu d)) (dec_content m d)) = ps
    \<and> cs = Dec_Recv (dec_buf d' + nat (dec_buf_start d' + dec_buf_used d'))
                (dec_buf_size d' - (dec_buf_start d' + dec_buf_used d'))
              # (if snd (parse_frames (nat (dec_output_mtu d)) (dec_content m d)) = None then [Dec_Error] else [])
    \<and> dec_content m' d' = (case snd (parse_frames (nat (dec_output_mtu d)) (dec_content m d)) of
          None \<Rightarrow> [] | Some r \<Rightarrow> r)
    \<and> (\<forall>x. x < dec_buf d \<or> dec_buf d + nat (dec_buf_size d) \<le> x \<longrightarrow> m' x = m x)"
  using assms
proof (induction m d arbitrary: ps rule: dec_drain.induct)
  case (1 m d)
  obtain m1 d1 cs1 where p: "process_data m d = (m1, d1, cs1)" by (metis prod_cases3)
  show ?case
  proof (cases "dec_send_of cs1")
    case None
    then have eq: "ps = []" "m' = m1" "d' = d1" "cs = cs1"
      using "1.prems"(2) p by (subst (asm) dec_drain.simps, simp)+
    note stop = process_data_stop [OF "1.prems"(1) p None]
    have chk: "decoder_check m d \<noteq> Some (Some n)" for n
      using p None by (auto simp: process_data_def dec_send_of_def)
    have "parse_frames (nat (dec_output_mtu d)) (dec_content m d) =
        ([], if decoder_check m d = None then None else Some (dec_content m d))"
      using chk [of "uint (word16 (take 2 (dec_content m d)))"] by (subst parse_frames.simps)
        (auto simp: decoder_check_content [OF "1.prems"(1)] Let_def split: if_splits)
    then show ?thesis using stop eq by (auto simp: dec_content_def split: if_splits)
  next
    case (Some an)
    obtain a n where an: "an = (a, n)" by fastforce
    note send = process_data_send [OF p Some [unfolded an]]
    note chk = decoder_check_bounds [OF send(1)]
    obtain qs where q: "dec_drain m d1 = (qs, m', d', cs)" and ps: "ps = mem_read m a (nat n) # qs"
      using "1.prems"(2) p Some an send(2) by (subst (asm) dec_drain.simps) (auto split: prod.splits)
    have inv1: "dec_inv d1" using "1.prems"(1) chk by (auto simp: send(3) dec_inv_def)
    have same: "dec_output_mtu d1 = dec_output_mtu d" "dec_buf d1 = dec_buf d" "dec_buf_size d1 = dec_buf_size d"
      by (simp_all add: send(3))
    have c: "dec_content m d1 = drop (2 + nat n) (dec_content m d)"
      "mem_read m a (nat n) = take (nat n) (drop 2 (dec_content m d))"
      using chk "1.prems"(1) dec_content_drop [of d "2 + n" m] dec_content_take [of n d m]
      by (simp_all add: send(3,4) dec_inv_def nat_add_distrib)
    have "parse_frames (nat (dec_output_mtu d)) (dec_content m d) =
        (let (ps, r) = parse_frames (nat (dec_output_mtu d)) (dec_content m d1)
         in (mem_read m a (nat n) # ps, r))"
      using send(1) by (subst parse_frames.simps)
        (auto simp: decoder_check_content [OF "1.prems"(1)] Let_def c split: if_splits)
    moreover have "(m1, d1, cs1) = process_data m d" "dec_send_of cs1 = Some (a, n)"
      using p Some an by simp_all
    note IH = "1.IH" [OF this(1) refl refl this(2) refl, unfolded send(2), OF inv1 q]
    ultimately show ?thesis using IH by (simp add: same split_beta ps)
  qed
qed

lemma dec_feed_parse:
  assumes inv: "dec_inv d" and c: "int (length c) \<le> dec_buf_size d - (dec_buf_start d + dec_buf_used d)"
    and f: "dec_feed c (m, d) = (ps, m', d', cs)"
  shows "dec_inv d' \<and> dec_output_mtu d' = dec_output_mtu d \<and> dec_buf d' = dec_buf d
    \<and> 0 < dec_buf_size d' - (dec_buf_start d' + dec_buf_used d')
    \<and> fst (parse_frames (nat (dec_output_mtu d)) (dec_content m d @ c)) = ps
    \<and> cs = Dec_Recv (dec_buf d' + nat (dec_buf_start d' + dec_buf_used d'))
                (dec_buf_size d' - (dec_buf_start d' + dec_buf_used d'))
              # (if snd (parse_frames (nat (dec_output_mtu d)) (dec_content m d @ c)) = None then [Dec_Error] else [])
    \<and> dec_content m' d' = (case snd (parse_frames (nat (dec_output_mtu d)) (dec_content m d @ c)) of
          None \<Rightarrow> [] | Some r \<Rightarrow> r)
    \<and> (\<forall>x. x < dec_buf d \<or> dec_buf d + nat (dec_buf_size d) \<le> x \<longrightarrow> m' x = m x)"
proof -
  let ?m = "mem_write m (dec_buf d + nat (dec_buf_start d + dec_buf_used d)) c"
  let ?d = "d\<lparr>dec_buf_used := dec_buf_used d + int (length c)\<rparr>"
  have inv1: "dec_inv ?d" using inv c by (simp add: dec_inv_def)
  have split: "nat (dec_buf_used d + int (length c)) = nat (dec_buf_used d) + length c"
    "nat (dec_buf_start d + dec_buf_used d) = nat (dec_buf_start d) + nat (dec_buf_used d)"
    using inv by (auto simp: dec_inv_def nat_add_distrib)
  have "dec_content ?m ?d = dec_content m d @ c"
    by (simp add: dec_content_def split mem_read_append mem_read_write_disjoint mem_read_write_same
        add.assoc)
  moreover have "\<forall>x. x < dec_buf d \<or> dec_buf d + nat (dec_buf_size d) \<le> x \<longrightarrow> ?m x = m x"
    using inv c by (auto simp: dec_inv_def intro!: mem_write_outside)
  moreover have "dec_drain ?m ?d = (ps, m', d', cs)" using f by (simp add: dec_feed_def)
  from dec_drain_parse [OF inv1 this] calculation show ?thesis by simp
qed

text \<open>
  A whole stream in chunks. The provider of the stream may complete a receive request with any
  number of bytes between one and the requested length; other chunks are not admissible (\<open>None\<close>).
  \<open>dec_run\<close> also returns whether the error handler was called.
\<close>

fun dec_run :: "byte list list \<Rightarrow> mem \<times> PacketProtoDecoder \<Rightarrow>
    (byte list list \<times> bool \<times> mem \<times> PacketProtoDecoder) option" where
  "dec_run [] (m, d) = Some ([], False, m, d)"
| "dec_run (c # cs) (m, d) =
     (if c = [] \<or> dec_buf_size d - (dec_buf_start d + dec_buf_used d) < int (length c) then None
      else let (ps, m1, d1, calls) = dec_feed c (m, d)
           in if Dec_Error \<in> set calls then Some (ps, True, m1, d1)
              else case dec_run cs (m1, d1) of
                     None \<Rightarrow> None
                   | Some (qs, e, w) \<Rightarrow> Some (ps @ qs, e, w))"

lemma dec_run_feed:
  assumes "dec_inv d" "dec_run cs (m, d) = Some (ps, e, m', d')"
  shows "dec_inv d' \<and> ps = fst (feed_chunks (parse_frames (nat (dec_output_mtu d))) (dec_content m d) cs)
    \<and> (e \<longleftrightarrow> snd (feed_chunks (parse_frames (nat (dec_output_mtu d))) (dec_content m d) cs) = None)
    \<and> dec_content m' d' = (case snd (feed_chunks (parse_frames (nat (dec_output_mtu d))) (dec_content m d) cs)
         of None \<Rightarrow> [] | Some r \<Rightarrow> r)"
  using assms
proof (induction cs arbitrary: m d ps)
  case (Cons c cs)
  obtain qs m1 d1 calls where f: "dec_feed c (m, d) = (qs, m1, d1, calls)" by (metis prod_cases4)
  have c: "int (length c) \<le> dec_buf_size d - (dec_buf_start d + dec_buf_used d)"
    using Cons.prems(2) by (auto split: if_splits)
  note feed = dec_feed_parse [OF Cons.prems(1) c f]
  show ?case
  proof (cases "snd (parse_frames (nat (dec_output_mtu d)) (dec_content m d @ c))")
    case None
    then have "calls = Dec_Recv (dec_buf d1 + nat (dec_buf_start d1 + dec_buf_used d1))
        (dec_buf_size d1 - (dec_buf_start d1 + dec_buf_used d1)) # [Dec_Error]"
      using feed by simp
    then have "ps = qs" "e" "m' = m1" "d' = d1"
      using Cons.prems(2) f by (auto split: if_splits)
    with None feed show ?thesis by (auto simp: split_beta prod_eq_iff split: option.splits)
  next
    case (Some r)
    then have "Dec_Error \<notin> set calls" using feed by simp
    then obtain us where us: "dec_run cs (m1, d1) = Some (us, e, m', d')" "ps = qs @ us"
      using Cons.prems(2) f by (auto split: if_splits option.splits)
    have "dec_content m1 d1 = r" "dec_inv d1" "dec_output_mtu d1 = dec_output_mtu d"
      "parse_frames (nat (dec_output_mtu d)) (dec_content m d @ c) = (qs, Some r)"
      using feed Some by (simp_all add: prod_eq_iff)
    with Cons.IH [OF _ us(1)] us(2) show ?thesis by simp
  qed
qed auto

lemma dec_run_bytes:
  "dec_inv d \<Longrightarrow> 0 < dec_buf_size d - (dec_buf_start d + dec_buf_used d) \<Longrightarrow>
    dec_run (map (\<lambda>b. [b]) bs) (m, d) \<noteq> None"
proof (induction bs arbitrary: m d)
  case (Cons b bs)
  obtain qs m1 d1 calls where f: "dec_feed [b] (m, d) = (qs, m1, d1, calls)" by (metis prod_cases4)
  have "int (length [b]) \<le> dec_buf_size d - (dec_buf_start d + dec_buf_used d)"
    using Cons.prems by simp
  note feed = dec_feed_parse [OF Cons.prems(1) this f]
  with Cons.IH [of d1 m1] f Cons.prems show ?case by (auto split: option.splits)
qed simp

section \<open>Properties\<close>

lemma dec_Init_inv:
  assumes "PacketProtoDecoder_Init output_mtu (Some b) = Some (d, calls)" "0 \<le> output_mtu"
  shows "dec_inv d" "dec_buf_start d = 0" "dec_buf_used d = 0" "dec_buf d = b"
    "dec_output_mtu d = bmin_int output_mtu 65535" "calls = [Dec_Recv b (dec_buf_size d)]"
    "nat (dec_output_mtu d) = min (nat output_mtu) 65535" "0 < dec_buf_size d"
  using assms by (auto simp: PacketProtoDecoder_Init_def dec_inv_def pp_consts bmin_int_def Let_def)

lemma dec_run_parse:
  assumes "PacketProtoDecoder_Init output_mtu (Some b) = Some (d, calls)" "0 \<le> output_mtu"
    and run: "dec_run cs (m, d) = Some (ps, e, m', d')"
  shows "ps = fst (parse_frames (min (nat output_mtu) 65535) (concat cs))
    \<and> (e \<longleftrightarrow> snd (parse_frames (min (nat output_mtu) 65535) (concat cs)) = None)
    \<and> dec_content m' d' = (case snd (parse_frames (min (nat output_mtu) 65535) (concat cs)) of
         None \<Rightarrow> [] | Some r \<Rightarrow> r)"
proof -
  note init = dec_Init_inv [OF assms(1,2)]
  have "dec_content m d = []" by (simp add: dec_content_def init)
  with dec_run_feed [OF init(1) run] pp.feed_is_parse [of "nat output_mtu" "[]" cs]
  show ?thesis by (simp add: init(7) pp.parse_Nil)
qed

text \<open>
  C9: The decoder implements the reference parser of the framing, whatever way the stream is cut
  into chunks: it delivers exactly the packets of the stream, in order, each only once, reports
  the error exactly when a header announces more than the MTU, and keeps the unparsed rest in its
  buffer (nothing after an error). Byte by byte, every stream is accepted.
\<close>

theorem decoder_refines_parser:
  assumes "PacketProtoDecoder_Init output_mtu (Some b) = Some (d, calls)" and "0 \<le> output_mtu"
  shows "(\<forall>cs ps e m' d'. dec_run cs (m, d) = Some (ps, e, m', d') \<longrightarrow>
            ps = fst (parse_frames (min (nat output_mtu) 65535) (concat cs))
          \<and> (e \<longleftrightarrow> snd (parse_frames (min (nat output_mtu) 65535) (concat cs)) = None)
          \<and> dec_content m' d' = (case snd (parse_frames (min (nat output_mtu) 65535) (concat cs)) of
               None \<Rightarrow> [] | Some r \<Rightarrow> r))
       \<and> (\<forall>bs. \<exists>r. dec_run (map (\<lambda>x. [x]) bs) (m, d) = Some r)"
proof -
  note init = dec_Init_inv [OF assms]
  have "dec_run (map (\<lambda>x. [x]) bs) (m, d) \<noteq> None" for bs
    by (rule dec_run_bytes [OF init(1)]) (simp add: init)
  with dec_run_parse [OF assms] show ?thesis by blast
qed

theorem decoder_refines_parser_witness:
  "\<exists>r. dec_run (map (\<lambda>x. [x]) [2, 0, 7, 8]) (\<lambda>_. 0,
       \<lparr>dec_output_mtu = 10, dec_buf_size = 12, dec_buf_start = 0, dec_buf_used = 0, dec_buf = 500\<rparr>) = Some r"
proof -
  have "PacketProtoDecoder_Init 10 (Some 500) = Some (\<lparr>dec_output_mtu = 10, dec_buf_size = 12,
      dec_buf_start = 0, dec_buf_used = 0, dec_buf = 500\<rparr>, [Dec_Recv 500 12])"
    by (simp add: PacketProtoDecoder_Init_def bmin_int_def pp_consts)
  then have "\<forall>bs. \<exists>r. dec_run (map (\<lambda>x. [x]) bs) (\<lambda>_. 0, \<lparr>dec_output_mtu = 10, dec_buf_size = 12,
      dec_buf_start = 0, dec_buf_used = 0, dec_buf = 500\<rparr>) = Some r"
    by (rule decoder_refines_parser [THEN conjunct2]) simp
  then show ?thesis by (rule spec)
qed

text \<open>
  Round trip of a stream of packets: the concatenated frames of any packets within the MTU,
  delivered in chunks of any admissible sizes, come out of the decoder as exactly those packets,
  without error and with nothing left over.
\<close>

theorem decoder_stream_roundtrip:
  assumes "PacketProtoDecoder_Init output_mtu (Some b) = Some (d, calls)" and "0 \<le> output_mtu"
    and "\<forall>p \<in> set ps. int (length p) \<le> bmin_int output_mtu PACKETPROTO_MAXPAYLOAD"
    and "concat cs = concat (map frame ps)" and "dec_run cs (m, d) = Some (qs, e, m', d')"
  shows "qs = ps \<and> \<not> e \<and> dec_content m' d' = []"
proof -
  have "\<forall>p \<in> set ps. length p \<le> min (nat output_mtu) 65535"
    using assms(2,3) by (auto simp: bmin_int_def pp_consts split: if_splits)
  from pp.parse_stream [OF this] dec_run_parse [OF assms(1,2,5)] assms(4) show ?thesis by simp
qed

theorem decoder_stream_roundtrip_witness:
  "\<exists>m' d'. dec_run [[2, 0, 7], [8, 0, 0]] (\<lambda>_. 0,
       \<lparr>dec_output_mtu = 4, dec_buf_size = 6, dec_buf_start = 0, dec_buf_used = 0, dec_buf = 0\<rparr>)
     = Some ([[7, 8], []], False, m', d')"
proof -
  let ?d = "\<lparr>dec_output_mtu = 4, dec_buf_size = 6, dec_buf_start = 0, dec_buf_used = 0, dec_buf = 0\<rparr>"
  have init: "PacketProtoDecoder_Init 4 (Some 0) = Some (?d, [Dec_Recv 0 6])"
    by (simp add: PacketProtoDecoder_Init_def bmin_int_def pp_consts)
  have c: "concat [[2, 0, 7], [8, 0, 0]] = concat (map frame [[7, 8], []])"
    by (simp add: frame_def bytes16_def)
  have "dec_run [[2, 0, 7], [8, 0, 0]] (\<lambda>_. 0, ?d) \<noteq> None"
    by code_simp
  then obtain qs e m' d' where r: "dec_run [[2, 0, 7], [8, 0, 0]] (\<lambda>_. 0, ?d) = Some (qs, e, m', d')"
    by (metis option.exhaust prod_cases4)
  from decoder_stream_roundtrip [OF init _ _ c r] r show ?thesis
    by (auto simp: bmin_int_def pp_consts)
qed

text \<open>
  The decoder never gets stuck and never leaves its buffer: after every completed receive it
  asks for a positive number of bytes that lie inside its buffer (the contract of the stream
  interface), and memory outside the buffer is unchanged. Resetting it in the middle of a receive
  keeps the outstanding request inside the free part of the buffer.
\<close>

theorem decoder_requests_in_bounds:
  assumes "dec_inv d" and "int (length c) \<le> dec_buf_size d - (dec_buf_start d + dec_buf_used d)"
    and "dec_feed c (m, d) = (ps, m', d', calls)"
  shows "dec_inv d' \<and> dec_inv (PacketProtoDecoder_Reset d')
    \<and> (\<exists>a n. hd calls = Dec_Recv a n \<and> 0 < n \<and> dec_buf d \<le> a
        \<and> int a + n = int (dec_buf d) + dec_buf_size d
        \<and> a = dec_buf d + nat (dec_buf_start (PacketProtoDecoder_Reset d')
                             + dec_buf_used (PacketProtoDecoder_Reset d')))
    \<and> (\<forall>x. x < dec_buf d \<or> dec_buf d + nat (dec_buf_size d) \<le> x \<longrightarrow> m' x = m x)"
  using dec_feed_parse [OF assms] assms(1)
  by (auto simp: dec_inv_def PacketProtoDecoder_Reset_def)

theorem decoder_requests_in_bounds_witness:
  "\<exists>ps m' d' calls. dec_feed [2, 0, 7] (\<lambda>_. 0,
      \<lparr>dec_output_mtu = 4, dec_buf_size = 6, dec_buf_start = 0, dec_buf_used = 0, dec_buf = 0\<rparr>)
      = (ps, m', d', calls) \<and> dec_inv d' \<and> (\<exists>a n. hd calls = Dec_Recv a n \<and> 0 < n)"
proof -
  let ?d = "\<lparr>dec_output_mtu = 4, dec_buf_size = 6, dec_buf_start = 0, dec_buf_used = 0, dec_buf = 0\<rparr>"
  obtain ps m' d' calls where f: "dec_feed [2, 0, 7] (\<lambda>_. 0, ?d) = (ps, m', d', calls)"
    by (metis prod_cases4)
  have "dec_inv ?d" by (simp add: dec_inv_def pp_consts)
  from decoder_requests_in_bounds [OF this _ f] f show ?thesis by auto
qed

text \<open>
  The encoder builds a frame in place: when its consumer offers the buffer \<open>a\<close>, it lets its
  producer write the payload behind the header, and on completion the buffer holds the frame of
  the payload, whose length is what it reports; within the MTU the frame fits the reported output
  MTU. Only the two header bytes are written.
\<close>

theorem encoder_builds_frame:
  assumes "enc_output_packet enc = NULL" and "length p \<le> 65535"
    and "PacketProtoEncoder_output_handler_recv enc (Some a) = (enc1, calls1)"
    and "PacketProtoEncoder_input_handler_done (mem_write m (a + 2) p) enc1 (int (length p))
         = (m', enc2, calls2)"
  shows "calls1 = [Enc_Input_Recv (Some (a + 2))]
    \<and> calls2 = [Enc_Output_Done (int (length (frame p)))]
    \<and> mem_read m' a (length (frame p)) = frame p
    \<and> (\<forall>x. x < a \<or> a + length (frame p) \<le> x \<longrightarrow> m' x = m x)
    \<and> enc2 = enc
    \<and> (\<forall>mtu. int (length p) \<le> mtu \<longrightarrow> int (length (frame p)) \<le> enc_output_mtu (PacketProtoEncoder_Init mtu))"
proof -
  let ?h = "bytes16 (word_of_nat (length p))"
  have m': "m' = mem_write (mem_write m (a + 2) p) a ?h"
    and e: "enc2 = enc" "calls1 = [Enc_Input_Recv (Some (a + 2))]"
    "calls2 = [Enc_Output_Done (2 + int (length p))]"
    using assms by (auto simp: PacketProtoEncoder_output_handler_recv_def nat_add_distrib
        PacketProtoEncoder_input_handler_done_def Let_def byteorder_defs pp_consts)
  have "mem_read m' a (2 + length p) = ?h @ p"
    by (subst mem_read_append) (simp add: m' mem_simps)
  moreover have "m' x = m x" if "x < a \<or> a + length (frame p) \<le> x" for x
    using that by (auto simp: m' frame_def mem_write_outside)
  ultimately show ?thesis
    by (auto simp: e frame_def PacketProtoEncoder_Init_def pp_consts)
qed

theorem encoder_builds_frame_witness:
  "\<exists>m' enc2 calls2.
     PacketProtoEncoder_input_handler_done (mem_write (\<lambda>_. 0) 102 [5, 6, 7])
        (fst (PacketProtoEncoder_output_handler_recv (PacketProtoEncoder_Init 10) (Some 100))) 3
       = (m', enc2, calls2)
     \<and> mem_read m' 100 5 = [3, 0, 5, 6, 7]"
proof -
  obtain enc1 calls1 where 1: "PacketProtoEncoder_output_handler_recv (PacketProtoEncoder_Init 10) (Some 100)
      = (enc1, calls1)" by fastforce
  obtain m' enc2 calls2 where 2: "PacketProtoEncoder_input_handler_done
      (mem_write (\<lambda>_. 0) (100 + 2) [5, 6, 7]) enc1 (int (length [5, 6, 7 :: byte])) = (m', enc2, calls2)"
    by (metis prod_cases3)
  have "mem_read m' 100 (length (frame [5, 6, 7])) = frame [5, 6, 7]"
    using encoder_builds_frame [OF _ _ 1 2] by (simp add: PacketProtoEncoder_Init_def)
  moreover have "length (frame [5, 6, 7]) = 5" "frame [5, 6, 7] = [3, 0, 5, 6, 7]"
    by (simp_all add: frame_def bytes16_def)
  ultimately have "mem_read m' 100 5 = [3, 0, 5, 6, 7]" by metis
  with 1 2 show ?thesis by simp
qed

end
