(* ===== verification/BAddr.thy ===== *)
theory BAddr
  imports Misc
begin

text \<open>
  Socket addresses: \<^verbatim>\<open>system/BAddr.h\<close>, without the packet-socket addresses and without the
  functions that call the resolver. IP addresses and ports are the objects the code stores, in
  network byte order; an IPv6 address is its 16 bytes.

  The locale \<open>comparator\<close> is the contract the search trees of the program require of the
  three-way comparison of their keys; \<open>cmp_lex\<close> combines two of them like
  \<^verbatim>\<open>B_COMPARE_COMBINE\<close>.
\<close>

section \<open>The code\<close>

datatype BIPAddr =
    BIPAddr_None
  | BIPAddr_IPv4 u32
  | BIPAddr_IPv6 "byte list"

datatype BAddr =
    BAddr_None
  | BAddr_IPv4 (ip4: u32) (port4: u16)
  | BAddr_IPv6 (ip6: "byte list") (port6: u16)

definition BIPAddr_IsInvalid :: "BIPAddr \<Rightarrow> bool" where
  "BIPAddr_IsInvalid a = (a = BIPAddr_None)"

fun BIPAddr_Compare :: "BIPAddr \<Rightarrow> BIPAddr \<Rightarrow> bool" where
  "BIPAddr_Compare (BIPAddr_IPv4 a) (BIPAddr_IPv4 b) = (a = b)"
| "BIPAddr_Compare (BIPAddr_IPv6 a) (BIPAddr_IPv6 b) = (a = b)"
| "BIPAddr_Compare _ _ = False"

definition BAddr_MakeNone :: BAddr where
  "BAddr_MakeNone = BAddr_None"

definition BAddr_MakeIPv4 :: "u32 \<Rightarrow> u16 \<Rightarrow> BAddr" where
  "BAddr_MakeIPv4 ip port = BAddr_IPv4 ip port"

definition BAddr_MakeIPv6 :: "byte list \<Rightarrow> u16 \<Rightarrow> BAddr" where
  "BAddr_MakeIPv6 ip port = BAddr_IPv6 ip port"

fun BAddr_MakeFromIpaddrAndPort :: "BIPAddr \<Rightarrow> u16 \<Rightarrow> BAddr" where
  "BAddr_MakeFromIpaddrAndPort BIPAddr_None port = BAddr_MakeNone"
| "BAddr_MakeFromIpaddrAndPort (BIPAddr_IPv4 ip) port = BAddr_MakeIPv4 ip port"
| "BAddr_MakeFromIpaddrAndPort (BIPAddr_IPv6 ip) port = BAddr_MakeIPv6 ip port"

fun BAddr_GetPort :: "BAddr \<Rightarrow> u16" where
  "BAddr_GetPort (BAddr_IPv4 ip port) = port"
| "BAddr_GetPort (BAddr_IPv6 ip port) = port"
| "BAddr_GetPort BAddr_None = 0"

fun BAddr_GetIPAddr :: "BAddr \<Rightarrow> BIPAddr" where
  "BAddr_GetIPAddr (BAddr_IPv4 ip port) = BIPAddr_IPv4 ip"
| "BAddr_GetIPAddr (BAddr_IPv6 ip port) = BIPAddr_IPv6 ip"
| "BAddr_GetIPAddr BAddr_None = BIPAddr_None"

fun BAddr_SetPort :: "BAddr \<Rightarrow> u16 \<Rightarrow> BAddr" where
  "BAddr_SetPort (BAddr_IPv4 ip _) port = BAddr_IPv4 ip port"
| "BAddr_SetPort (BAddr_IPv6 ip _) port = BAddr_IPv6 ip port"
| "BAddr_SetPort BAddr_None port = BAddr_None"

definition BAddr_IsInvalid :: "BAddr \<Rightarrow> bool" where
  "BAddr_IsInvalid a = (a = BAddr_None)"

fun BAddr_Compare :: "BAddr \<Rightarrow> BAddr \<Rightarrow> bool" where
  "BAddr_Compare (BAddr_IPv4 ip1 port1) (BAddr_IPv4 ip2 port2) = (ip1 = ip2 \<and> port1 = port2)"
| "BAddr_Compare (BAddr_IPv6 ip1 port1) (BAddr_IPv6 ip2 port2) = (ip1 = ip2 \<and> port1 = port2)"
| "BAddr_Compare _ _ = False"

fun memcmp :: "byte list \<Rightarrow> byte list \<Rightarrow> int" where
  "memcmp (a # as) (b # bs) = (if a = b then memcmp as bs else uint a - uint b)"
| "memcmp _ _ = 0"

fun addr_type :: "BAddr \<Rightarrow> int" where
  "addr_type BAddr_None = 0"
| "addr_type (BAddr_IPv4 _ _) = 1"
| "addr_type (BAddr_IPv6 _ _) = 2"

fun BAddr_CompareOrder :: "BAddr \<Rightarrow> BAddr \<Rightarrow> int" where
  "BAddr_CompareOrder (BAddr_IPv4 ip1 port1) (BAddr_IPv4 ip2 port2) =
     (let cmp = B_COMPARE (ntoh32 ip1) (ntoh32 ip2)
      in if cmp \<noteq> 0 then cmp else B_COMPARE (ntoh16 port1) (ntoh16 port2))"
| "BAddr_CompareOrder (BAddr_IPv6 ip1 port1) (BAddr_IPv6 ip2 port2) =
     (let cmp = memcmp ip1 ip2
      in if cmp \<noteq> 0 then B_COMPARE cmp 0 else B_COMPARE (ntoh16 port1) (ntoh16 port2))"
| "BAddr_CompareOrder addr1 addr2 = B_COMPARE (addr_type addr1) (addr_type addr2)"

section \<open>Comparators\<close>

definition cmp_lex :: "('a \<Rightarrow> 'a \<Rightarrow> int) \<Rightarrow> ('b \<Rightarrow> 'b \<Rightarrow> int) \<Rightarrow> 'a \<times> 'b \<Rightarrow> 'a \<times> 'b \<Rightarrow> int" where
  "cmp_lex f g = (\<lambda>(a, b) (c, d). if f a c \<noteq> 0 then f a c else g b d)"

text \<open>The values of \<open>dom\<close> are totally ordered by the sign of \<open>cmp\<close>, and only equal ones compare as 0.\<close>

locale comparator =
  fixes dom :: "'a set" and cmp :: "'a \<Rightarrow> 'a \<Rightarrow> int"
  assumes cmp_eq_0: "x \<in> dom \<Longrightarrow> y \<in> dom \<Longrightarrow> cmp x y = 0 \<longleftrightarrow> x = y"
    and cmp_swap: "x \<in> dom \<Longrightarrow> y \<in> dom \<Longrightarrow> cmp x y < 0 \<longleftrightarrow> 0 < cmp y x"
    and cmp_trans: "x \<in> dom \<Longrightarrow> y \<in> dom \<Longrightarrow> z \<in> dom \<Longrightarrow> cmp x y < 0 \<Longrightarrow> cmp y z < 0 \<Longrightarrow> cmp x z < 0"
begin

lemma cmp_refl: "x \<in> dom \<Longrightarrow> cmp x x = 0"
  by (simp add: cmp_eq_0)

lemma cmp_total: "x \<in> dom \<Longrightarrow> y \<in> dom \<Longrightarrow> x \<noteq> y \<Longrightarrow> cmp x y < 0 \<or> cmp y x < 0"
  using cmp_eq_0 [of x y] cmp_swap [of y x] by linarith

lemma cmp_asym: "x \<in> dom \<Longrightarrow> y \<in> dom \<Longrightarrow> cmp x y < 0 \<Longrightarrow> \<not> cmp y x < 0"
  using cmp_swap [of x y] by linarith

text \<open>Walking a sorted key sequence by the sign of the comparison finds a key exactly if it is there.\<close>

fun find_sorted :: "'a \<Rightarrow> 'a list \<Rightarrow> bool" where
  "find_sorted k [] = False"
| "find_sorted k (x # xs) = (if cmp k x = 0 then True else if cmp k x < 0 then False else find_sorted k xs)"

lemma find_sorted_iff:
  "sorted_wrt (\<lambda>x y. cmp x y < 0) xs \<Longrightarrow> set xs \<subseteq> dom \<Longrightarrow> k \<in> dom \<Longrightarrow>
    find_sorted k xs \<longleftrightarrow> k \<in> set xs"
proof (induction xs)
  case (Cons x xs)
  then have IH: "find_sorted k xs \<longleftrightarrow> k \<in> set xs" and x: "x \<in> dom" by auto
  have "k \<notin> set xs" if "cmp k x < 0"
    using that Cons.prems cmp_trans [of k x k] cmp_refl [of k] by fastforce
  with IH x Cons.prems(3) show ?case by (auto simp: cmp_eq_0)
qed simp

end

interpretation word_cmp: comparator UNIV "B_COMPARE :: 'a::linorder \<Rightarrow> 'a \<Rightarrow> int"
  by unfold_locales (auto simp: B_COMPARE_simps)

lemma cmp_lex_simps:
  "cmp_lex f g (a, b) (c, d) < 0 \<longleftrightarrow> f a c < 0 \<or> f a c = 0 \<and> g b d < 0"
  "cmp_lex f g (a, b) (c, d) > 0 \<longleftrightarrow> f a c > 0 \<or> f a c = 0 \<and> g b d > 0"
  "cmp_lex f g (a, b) (c, d) = 0 \<longleftrightarrow> f a c = 0 \<and> g b d = 0"
  by (auto simp: cmp_lex_def)

lemma comparator_lex:
  assumes "comparator A f" "comparator B g"
  shows "comparator (A \<times> B) (cmp_lex f g)"
proof -
  note f = comparator.cmp_eq_0 [OF assms(1)] comparator.cmp_swap [OF assms(1)]
    comparator.cmp_trans [OF assms(1)]
  note g = comparator.cmp_eq_0 [OF assms(2)] comparator.cmp_swap [OF assms(2)]
    comparator.cmp_trans [OF assms(2)]
  show ?thesis
  proof unfold_locales
    fix x y assume "x \<in> A \<times> B" "y \<in> A \<times> B"
    then obtain a b c d where xy: "x = (a, b)" "y = (c, d)" "a \<in> A" "c \<in> A" "b \<in> B" "d \<in> B" by blast
    show "cmp_lex f g x y = 0 \<longleftrightarrow> x = y" using xy f(1) g(1) by (simp add: cmp_lex_simps)
    show "cmp_lex f g x y < 0 \<longleftrightarrow> 0 < cmp_lex f g y x"
      using xy f(1) [of a c] f(1) [of c a] f(2) [of a c] g(2) [of b d] by (auto simp: cmp_lex_simps)
  next
    fix x y z assume "x \<in> A \<times> B" "y \<in> A \<times> B" "z \<in> A \<times> B"
      and lt: "cmp_lex f g x y < 0" "cmp_lex f g y z < 0"
    then obtain a b c d u v where xyz: "x = (a, b)" "y = (c, d)" "z = (u, v)"
      and A: "a \<in> A" "c \<in> A" "u \<in> A" and B: "b \<in> B" "d \<in> B" "v \<in> B" by blast
    have eq: "f a c = 0 \<longleftrightarrow> a = c" "f c u = 0 \<longleftrightarrow> c = u" using f(1) A by simp_all
    show "cmp_lex f g x z < 0"
      using lt f(3) [of a c u] g(3) [of b d v] A B f(1) [of a a]
      unfolding xyz cmp_lex_simps eq by auto
  qed
qed

section \<open>The order of addresses\<close>

text \<open>Well-formed addresses: an IPv6 address has 16 bytes.\<close>

definition addr_wf :: "BAddr \<Rightarrow> bool" where
  "addr_wf a = (case a of BAddr_IPv6 ip _ \<Rightarrow> length ip = 16 | _ \<Rightarrow> True)"

lemma memcmp_eq_0: "length xs = length ys \<Longrightarrow> memcmp xs ys = 0 \<longleftrightarrow> xs = ys"
  by (induction xs ys rule: memcmp.induct) (auto simp: word_uint_eq_iff)

lemma memcmp_swap: "memcmp ys xs = - memcmp xs ys"
  by (induction xs ys rule: memcmp.induct) auto

lemma memcmp_flip: "0 < memcmp ys xs \<longleftrightarrow> memcmp xs ys < 0"
  using memcmp_swap [of ys xs] by simp

lemma memcmp_trans:
  "length xs = length ys \<Longrightarrow> length ys = length zs \<Longrightarrow> memcmp xs ys < 0 \<Longrightarrow> memcmp ys zs < 0 \<Longrightarrow>
    memcmp xs zs < 0"
proof (induction xs ys arbitrary: zs rule: memcmp.induct)
  case (1 a as b bs)
  then obtain c cs where zs: "zs = c # cs" by (cases zs) auto
  show ?case using 1 by (auto simp: zs split: if_splits)
qed auto

interpretation ip6_cmp: comparator "{ip. length ip = 16}" memcmp
proof unfold_locales
  fix x y z :: "byte list"
  assume "x \<in> {ip. length ip = 16}" "y \<in> {ip. length ip = 16}"
  then have l: "length x = 16" "length y = 16" by simp_all
  show "memcmp x y = 0 \<longleftrightarrow> x = y" using l by (simp add: memcmp_eq_0)
  show "memcmp x y < 0 \<longleftrightarrow> 0 < memcmp y x" using memcmp_swap [of x y] by simp
  assume "z \<in> {ip. length ip = 16}" "memcmp x y < 0" "memcmp y z < 0"
  then show "memcmp x z < 0" using l memcmp_trans [of x y z] by simp
qed

lemma bytes32_nths:
  "bytes32 x ! 0 = ucast x" "bytes32 x ! Suc 0 = ucast (drop_bit 8 x)"
  "bytes32 x ! 2 = ucast (drop_bit 16 x)" "bytes32 x ! 3 = ucast (drop_bit 24 x)"
  by (simp_all add: bytes32_def)

lemma reverse32_reverse32 [simp]: "badvpn_reverse32 (badvpn_reverse32 x) = x"
proof -
  have "bytes32 x = [bytes32 x ! 0, bytes32 x ! 1, bytes32 x ! 2, bytes32 x ! 3]"
    by (simp add: bytes32_def)
  then have "word32 [bytes32 x ! 0, bytes32 x ! 1, bytes32 x ! 2, bytes32 x ! 3] = x"
    by (metis word32_bytes32)
  then show ?thesis by (simp add: badvpn_reverse32_def bytes32_word32)
qed

lemma ntoh32_inject [simp]: "ntoh32 x = ntoh32 y \<longleftrightarrow> x = y"
  unfolding byteorder_defs by (metis reverse32_reverse32)

lemma ntoh16_inject [simp]: "ntoh16 x = ntoh16 y \<longleftrightarrow> x = y"
  by (metis hton16_ntoh16)

lemma CompareOrder_IPv4:
  "BAddr_CompareOrder (BAddr_IPv4 ip1 p1) (BAddr_IPv4 ip2 p2) < 0 \<longleftrightarrow>
     ntoh32 ip1 < ntoh32 ip2 \<or> ip1 = ip2 \<and> ntoh16 p1 < ntoh16 p2"
  "0 < BAddr_CompareOrder (BAddr_IPv4 ip1 p1) (BAddr_IPv4 ip2 p2) \<longleftrightarrow>
     ntoh32 ip2 < ntoh32 ip1 \<or> ip1 = ip2 \<and> ntoh16 p2 < ntoh16 p1"
  "BAddr_CompareOrder (BAddr_IPv4 ip1 p1) (BAddr_IPv4 ip2 p2) = 0 \<longleftrightarrow> ip1 = ip2 \<and> p1 = p2"
  by (auto simp: Let_def B_COMPARE_simps)

lemma CompareOrder_IPv6:
  "BAddr_CompareOrder (BAddr_IPv6 a1 p1) (BAddr_IPv6 a2 p2) < 0 \<longleftrightarrow>
     memcmp a1 a2 < 0 \<or> memcmp a1 a2 = 0 \<and> ntoh16 p1 < ntoh16 p2"
  "0 < BAddr_CompareOrder (BAddr_IPv6 a1 p1) (BAddr_IPv6 a2 p2) \<longleftrightarrow>
     0 < memcmp a1 a2 \<or> memcmp a1 a2 = 0 \<and> ntoh16 p2 < ntoh16 p1"
  "BAddr_CompareOrder (BAddr_IPv6 a1 p1) (BAddr_IPv6 a2 p2) = 0 \<longleftrightarrow> memcmp a1 a2 = 0 \<and> p1 = p2"
  by (auto simp: Let_def B_COMPARE_simps)

lemma CompareOrder_types:
  "addr_type a \<noteq> addr_type b \<Longrightarrow> BAddr_CompareOrder a b = B_COMPARE (addr_type a) (addr_type b)"
  "BAddr_CompareOrder BAddr_None BAddr_None = 0"
  by (cases a; cases b; simp) (simp add: B_COMPARE_simps)

lemma CompareOrder_trans:
  assumes "addr_wf x" "addr_wf y" "addr_wf z" "BAddr_CompareOrder x y < 0" "BAddr_CompareOrder y z < 0"
  shows "BAddr_CompareOrder x z < 0"
proof -
  have "addr_type u \<le> addr_type v" if "BAddr_CompareOrder u v < 0" for u v
    using that by (cases u; cases v; simp add: B_COMPARE_def)
  from this [OF assms(4)] this [OF assms(5)]
  have types: "addr_type x \<le> addr_type y" "addr_type y \<le> addr_type z" .
  show ?thesis
  proof (cases "addr_type x = addr_type z")
    case False
    then show ?thesis using types by (simp add: CompareOrder_types B_COMPARE_simps)
  next
    case True
    with types have eq: "addr_type x = addr_type y" "addr_type y = addr_type z" by simp_all
    show ?thesis
    proof (cases x)
      case BAddr_None
      with eq assms(4) show ?thesis by (cases y) (simp_all add: B_COMPARE_def)
    next
      case (BAddr_IPv4 i p)
      with eq obtain i2 p2 i3 p3 where "y = BAddr_IPv4 i2 p2" "z = BAddr_IPv4 i3 p3"
        by (cases y; cases z; simp)
      with BAddr_IPv4 assms(4,5) show ?thesis by (auto simp only: CompareOrder_IPv4) 
    next
      case (BAddr_IPv6 i p)
      with eq obtain i2 p2 i3 p3 where yz: "y = BAddr_IPv6 i2 p2" "z = BAddr_IPv6 i3 p3"
        by (cases y; cases z; simp)
      have l: "length i = 16" "length i2 = 16" "length i3 = 16"
        using assms(1-3) BAddr_IPv6 yz by (simp_all add: addr_wf_def)
      show ?thesis
        using assms(4,5) ip6_cmp.cmp_trans [of i i2 i3] ip6_cmp.cmp_eq_0 [of i i2]
          ip6_cmp.cmp_eq_0 [of i2 i3] ip6_cmp.cmp_eq_0 [of i i3] l
        unfolding BAddr_IPv6 yz CompareOrder_IPv6 by auto
    qed
  qed
qed

interpretation addr_cmp: comparator "{a. addr_wf a}" BAddr_CompareOrder
proof unfold_locales
  fix x y z assume xy: "x \<in> {a. addr_wf a}" "y \<in> {a. addr_wf a}"
  show "BAddr_CompareOrder x y = 0 \<longleftrightarrow> x = y"
    using xy by (cases x; cases y)
      (simp_all add: CompareOrder_IPv4 CompareOrder_IPv6 CompareOrder_types B_COMPARE_def addr_wf_def
        memcmp_eq_0 del: BAddr_CompareOrder.simps)
  show "BAddr_CompareOrder x y < 0 \<longleftrightarrow> 0 < BAddr_CompareOrder y x"
    using xy by (cases x; cases y)
      (auto simp: CompareOrder_IPv4 CompareOrder_IPv6 CompareOrder_types B_COMPARE_def addr_wf_def
        memcmp_eq_0 memcmp_flip simp del: BAddr_CompareOrder.simps)
  assume "z \<in> {a. addr_wf a}" "BAddr_CompareOrder x y < 0" "BAddr_CompareOrder y z < 0"
  with xy show "BAddr_CompareOrder x z < 0" using CompareOrder_trans [of x y z] by simp
qed

text \<open>
  C19: \<^verbatim>\<open>BAddr_CompareOrder\<close>, which orders the address keys of the search trees, is a strict total
  order on well-formed addresses (total, transitive, antisymmetric) whose comparison is zero only
  for equal addresses, so a tree searched with it identifies a connection's address uniquely.
\<close>

theorem address_order_total:
  assumes "addr_wf a" and "addr_wf b" and "addr_wf c"
  shows "(BAddr_CompareOrder a b = 0 \<longleftrightarrow> a = b)
    \<and> (a \<noteq> b \<longrightarrow> BAddr_CompareOrder a b < 0 \<or> BAddr_CompareOrder b a < 0)
    \<and> \<not> (BAddr_CompareOrder a b < 0 \<and> BAddr_CompareOrder b a < 0)
    \<and> (BAddr_CompareOrder a b < 0 \<and> BAddr_CompareOrder b c < 0 \<longrightarrow> BAddr_CompareOrder a c < 0)"
  using assms addr_cmp.cmp_eq_0 [of a b] addr_cmp.cmp_total [of a b] addr_cmp.cmp_asym [of a b]
    addr_cmp.cmp_trans [of a b c] by auto

theorem address_order_total_witness:
  "BAddr_CompareOrder (BAddr_IPv4 0x0100007F 0x3500) (BAddr_IPv6 (replicate 16 0) 0x5000) \<noteq> 0"
  using address_order_total [of "BAddr_IPv4 0x0100007F 0x3500" "BAddr_IPv6 (replicate 16 0) 0x5000"
      BAddr_None]
  by (simp add: addr_wf_def)

end
