(* ===== verification/Socks_Client.thy ===== *)
theory Socks_Client
  imports BAddr
begin

text \<open>
  The SOCKS5 client \<^verbatim>\<open>socksclient/BSocksClient.c\<close> with the messages of \<^verbatim>\<open>misc/socks_proto.h\<close>. The
  heap block \<^verbatim>\<open>o->buffer\<close> is a byte list; \<open>alloc n\<close> is what \<^verbatim>\<open>BRealloc\<close> gives for a request of \<open>n\<close>
  bytes: \<open>None\<close> on failure, otherwise a block with arbitrary contents in its new part. A handler
  returns the new state and the calls it makes, in order; connector, connection and the two
  interfaces of the connection are the other side of those calls.

  \<open>sc_step\<close> is the transition relation of the client in its environment, \<open>sc_inv\<close> relates every
  state to the bytes exchanged so far, and \<open>sc_play\<close> runs a whole session.
\<close>

section \<open>The code\<close>

datatype sc_state =
    STATE_CONNECTING | STATE_SENDING_HELLO | STATE_SENT_HELLO
  | STATE_SENDING_PASSWORD | STATE_SENT_PASSWORD
  | STATE_SENDING_REQUEST | STATE_SENT_REQUEST | STATE_RECEIVED_REPLY_HEADER | STATE_UP

datatype sc_event = EVENT_ERROR | EVENT_UP | EVENT_ERROR_CLOSED

datatype BSocksClient_auth_info =
    Auth_None
  | Auth_Password (username: "byte list") (password: "byte list")

fun auth_type :: "BSocksClient_auth_info \<Rightarrow> int" where
  "auth_type Auth_None = 0"
| "auth_type (Auth_Password _ _) = 2"

definition SOCKS_VERSION :: byte where "SOCKS_VERSION = 5"
definition SOCKS_CMD_CONNECT :: byte where "SOCKS_CMD_CONNECT = 1"
definition SOCKS_ATYP_IPV4 :: byte where "SOCKS_ATYP_IPV4 = 1"
definition SOCKS_ATYP_IPV6 :: byte where "SOCKS_ATYP_IPV6 = 4"
definition SOCKS_REP_SUCCEEDED :: byte where "SOCKS_REP_SUCCEEDED = 0"

lemmas socks_consts = SOCKS_VERSION_def SOCKS_CMD_CONNECT_def SOCKS_ATYP_IPV4_def
  SOCKS_ATYP_IPV6_def SOCKS_REP_SUCCEEDED_def

record BSocksClient =
  sc_auth_info :: "BSocksClient_auth_info list"
  sc_dest_addr :: BAddr
  sc_state :: sc_state
  sc_buffer :: "byte list option"
  sc_recv_dest :: nat
  sc_recv_len :: int
  sc_recv_total :: int

datatype sc_call =
    Connection_Init | Connection_Free | Connector_Free
  | Control_Init | Control_Free | Up_Init | Up_Free | Buffer_Free
  | Control_Send "byte list"
  | Control_Recv nat int
  | Report sc_event

type_synonym alloc = "nat \<Rightarrow> byte list option"

definition buf_put :: "nat \<Rightarrow> byte list \<Rightarrow> byte list \<Rightarrow> byte list" where
  "buf_put off bs b = take off b @ bs @ drop (off + length bs) b"

definition the_buffer :: "BSocksClient \<Rightarrow> byte list" where
  "the_buffer o1 = (case sc_buffer o1 of None \<Rightarrow> [] | Some b \<Rightarrow> b)"

definition report_error :: "sc_event \<Rightarrow> sc_call list" where
  "report_error e = [Report e]"

definition init_control_io :: "sc_call list" where "init_control_io = [Control_Init]"
definition free_control_io :: "sc_call list" where "free_control_io = [Control_Free]"
definition init_up_io :: "sc_call list" where "init_up_io = [Up_Init]"
definition free_up_io :: "sc_call list" where "free_up_io = [Up_Free]"

definition reserve_buffer :: "alloc \<Rightarrow> BSocksClient \<Rightarrow> bsize_t \<Rightarrow> BSocksClient option" where
  "reserve_buffer alloc o1 sz =
     (if is_overflow sz then None
      else case alloc (bvalue sz) of
             None \<Rightarrow> None
           | Some blk \<Rightarrow>
               Some (o1\<lparr>sc_buffer := Some (take (length blk) (the_buffer o1) @ drop (length (the_buffer o1)) blk)\<rparr>))"

definition do_receive :: "BSocksClient \<Rightarrow> sc_call list" where
  "do_receive o1 =
     [Control_Recv (sc_recv_dest o1 + nat (sc_recv_len o1)) (sc_recv_total o1 - sc_recv_len o1)]"

definition start_receive :: "BSocksClient \<Rightarrow> nat \<Rightarrow> int \<Rightarrow> BSocksClient \<times> sc_call list" where
  "start_receive o1 dest n_total =
     (let o2 = o1\<lparr>sc_recv_dest := dest, sc_recv_len := 0, sc_recv_total := n_total\<rparr>
      in (o2, do_receive o2))"

definition put_buffer :: "nat \<Rightarrow> byte list \<Rightarrow> BSocksClient \<Rightarrow> BSocksClient" where
  "put_buffer off bs o1 = o1\<lparr>sc_buffer := Some (buf_put off bs (the_buffer o1))\<rparr>"

definition connector_handler ::
    "nat \<Rightarrow> alloc \<Rightarrow> bool \<Rightarrow> BSocksClient \<Rightarrow> bool \<Rightarrow> BSocksClient \<times> sc_call list" where
  "connector_handler smax alloc con_ok o1 is_error =
     (let fail0 = report_error EVENT_ERROR;
          fail1 = [Connection_Init] @ init_control_io @ free_control_io @ [Connection_Free] @ fail0
      in if is_error then (o1, fail0)
         else if \<not> con_ok then (o1, fail0)
         else
           let num_auth_info = length (sc_auth_info o1)
           in if num_auth_info = 0 \<or> num_auth_info > 255 then (o1, fail1)
              else
                let sz = bsize_add smax (bsize_fromsize 2)
                             (bsize_mul smax (bsize_fromsize num_auth_info) (bsize_fromsize 1))
                in case reserve_buffer alloc o1 sz of
                     None \<Rightarrow> (o1, fail1)
                   | Some o2 \<Rightarrow>
                       let o3 = put_buffer 0 [hton8 SOCKS_VERSION, hton8 (word_of_nat num_auth_info)] o2;
                           o4 = fold (\<lambda>i x. put_buffer (2 + i * 1)
                                        [hton8 (word_of_int (auth_type (sc_auth_info o1 ! i)))] x)
                                  [0..<num_auth_info] o3
                       in (o4\<lparr>sc_state := STATE_SENDING_HELLO\<rparr>,
                           [Connection_Init] @ init_control_io @
                           [Control_Send (take (bvalue sz) (the_buffer o4))]))"

datatype con_event = CON_ERROR | CON_RECVCLOSED

definition connection_handler :: "BSocksClient \<Rightarrow> con_event \<Rightarrow> BSocksClient \<times> sc_call list" where
  "connection_handler o1 event =
     (if sc_state o1 = STATE_UP \<and> event = CON_RECVCLOSED then (o1, report_error EVENT_ERROR_CLOSED)
      else (o1, report_error EVENT_ERROR))"

definition auth_finished :: "nat \<Rightarrow> alloc \<Rightarrow> BSocksClient \<Rightarrow> BSocksClient \<times> sc_call list" where
  "auth_finished smax alloc o1 =
     (let size0 = bsize_fromsize 4;
          sz = (case sc_dest_addr o1 of
                    BAddr_IPv4 _ _ \<Rightarrow> bsize_add smax size0 (bsize_fromsize 6)
                  | BAddr_IPv6 _ _ \<Rightarrow> bsize_add smax size0 (bsize_fromsize 18)
                  | BAddr_None \<Rightarrow> size0)
      in case reserve_buffer alloc o1 sz of
           None \<Rightarrow> (o1, report_error EVENT_ERROR)
         | Some o2 \<Rightarrow>
             let (atyp, o3) =
                   (case sc_dest_addr o1 of
                      BAddr_IPv4 ip port \<Rightarrow> (hton8 SOCKS_ATYP_IPV4, put_buffer 4 (bytes32 ip @ bytes16 port) o2)
                    | BAddr_IPv6 ip port \<Rightarrow> (hton8 SOCKS_ATYP_IPV6, put_buffer 4 (ip @ bytes16 port) o2)
                    | BAddr_None \<Rightarrow> (0, o2));
                 o4 = put_buffer 0 [hton8 SOCKS_VERSION, hton8 SOCKS_CMD_CONNECT, hton8 0, atyp] o3
             in (o4\<lparr>sc_state := STATE_SENDING_REQUEST\<rparr>,
                 [Control_Send (take (bvalue sz) (the_buffer o4))]))"

text \<open>The end of a receive: the \<^verbatim>\<open>switch\<close> of \<^verbatim>\<open>recv_handler_done\<close>, one case per definition.\<close>

definition received_hello :: "nat \<Rightarrow> alloc \<Rightarrow> BSocksClient \<Rightarrow> BSocksClient \<times> sc_call list" where
  "received_hello smax alloc o1 =
     (let ver = the_buffer o1 ! 0; method = the_buffer o1 ! 1; fail = (o1, report_error EVENT_ERROR)
      in if ntoh8 ver \<noteq> SOCKS_VERSION then fail
         else case find (\<lambda>ai. auth_type ai = uint (ntoh8 method)) (sc_auth_info o1) of
                None \<Rightarrow> fail
              | Some Auth_None \<Rightarrow> auth_finished smax alloc o1
              | Some (Auth_Password user pass) \<Rightarrow>
                  if length user = 0 \<or> length user > 255 \<or> length pass = 0 \<or> length pass > 255 then fail
                  else
                    let sz = bsize_fromsize (1 + 1 + length user + 1 + length pass)
                    in case reserve_buffer alloc o1 sz of
                         None \<Rightarrow> fail
                       | Some o2 \<Rightarrow>
                           let o3 = put_buffer 0 [1, word_of_nat (length user)] o2;
                               o4 = put_buffer 2 user o3;
                               o5 = put_buffer (2 + length user) [word_of_nat (length pass)] o4;
                               o6 = put_buffer (3 + length user) pass o5
                           in (o6\<lparr>sc_state := STATE_SENDING_PASSWORD\<rparr>,
                               [Control_Send (take (bvalue sz) (the_buffer o6))]))"

definition received_reply_header :: "BSocksClient \<Rightarrow> BSocksClient \<times> sc_call list" where
  "received_reply_header o1 =
     (let ver = the_buffer o1 ! 0; rep = the_buffer o1 ! 1; atyp = the_buffer o1 ! 3;
          fail = (o1, report_error EVENT_ERROR)
      in if ntoh8 ver \<noteq> SOCKS_VERSION then fail
         else if ntoh8 rep \<noteq> SOCKS_REP_SUCCEEDED then fail
         else case (if ntoh8 atyp = SOCKS_ATYP_IPV4 then Some 6
                    else if ntoh8 atyp = SOCKS_ATYP_IPV6 then Some 18 else None) of
                None \<Rightarrow> fail
              | Some addr_len \<Rightarrow>
                  let (o2, calls) = start_receive o1 4 addr_len
                  in (o2\<lparr>sc_state := STATE_RECEIVED_REPLY_HEADER\<rparr>, calls))"

definition received_password_reply :: "nat \<Rightarrow> alloc \<Rightarrow> BSocksClient \<Rightarrow> BSocksClient \<times> sc_call list" where
  "received_password_reply smax alloc o1 =
     (if the_buffer o1 ! 0 \<noteq> 1 then (o1, report_error EVENT_ERROR)
      else if the_buffer o1 ! 1 \<noteq> 0 then (o1, report_error EVENT_ERROR)
      else auth_finished smax alloc o1)"

definition received_reply_rest :: "BSocksClient \<Rightarrow> BSocksClient \<times> sc_call list" where
  "received_reply_rest o1 =
     (o1\<lparr>sc_buffer := None, sc_state := STATE_UP\<rparr>,
      [Buffer_Free] @ free_control_io @ init_up_io @ [Report EVENT_UP])"

definition recv_complete :: "nat \<Rightarrow> alloc \<Rightarrow> BSocksClient \<Rightarrow> BSocksClient \<times> sc_call list" where
  "recv_complete smax alloc o1 =
     (case sc_state o1 of
        STATE_SENT_HELLO \<Rightarrow> received_hello smax alloc o1
      | STATE_SENT_REQUEST \<Rightarrow> received_reply_header o1
      | STATE_SENT_PASSWORD \<Rightarrow> received_password_reply smax alloc o1
      | STATE_RECEIVED_REPLY_HEADER \<Rightarrow> received_reply_rest o1
      | _ \<Rightarrow> (o1, []))"

definition recv_handler_done :: "nat \<Rightarrow> alloc \<Rightarrow> BSocksClient \<Rightarrow> int \<Rightarrow> BSocksClient \<times> sc_call list" where
  "recv_handler_done smax alloc o1 data_len =
     (let o2 = o1\<lparr>sc_recv_len := sc_recv_len o1 + data_len\<rparr>
      in if sc_recv_len o2 < sc_recv_total o2 then (o2, do_receive o2)
         else recv_complete smax alloc o2)"

definition send_handler_done :: "nat \<Rightarrow> alloc \<Rightarrow> BSocksClient \<Rightarrow> BSocksClient \<times> sc_call list" where
  "send_handler_done smax alloc o1 =
     (let receive = (\<lambda>sz n_total st. case reserve_buffer alloc o1 sz of
            None \<Rightarrow> (o1, report_error EVENT_ERROR)
          | Some o2 \<Rightarrow> let (o3, calls) = start_receive o2 0 n_total in (o3\<lparr>sc_state := st\<rparr>, calls))
      in case sc_state o1 of
           STATE_SENDING_HELLO \<Rightarrow> receive (bsize_fromsize 2) 2 STATE_SENT_HELLO
         | STATE_SENDING_REQUEST \<Rightarrow>
             receive (bsize_add smax (bsize_fromsize 4) (bsize_max (bsize_fromsize 6) (bsize_fromsize 18)))
               4 STATE_SENT_REQUEST
         | STATE_SENDING_PASSWORD \<Rightarrow> receive (bsize_fromsize 2) 2 STATE_SENT_PASSWORD
         | _ \<Rightarrow> (o1, []))"

definition BSocksClient_auth_none :: BSocksClient_auth_info where
  "BSocksClient_auth_none = Auth_None"

definition BSocksClient_auth_password :: "byte list \<Rightarrow> byte list \<Rightarrow> BSocksClient_auth_info" where
  "BSocksClient_auth_password user pass = Auth_Password user pass"

definition BSocksClient_Init ::
    "BSocksClient_auth_info list \<Rightarrow> BAddr \<Rightarrow> bool \<Rightarrow> BSocksClient option" where
  "BSocksClient_Init auth_info dest_addr connector_ok =
     (if \<not> connector_ok then None
      else Some \<lparr>sc_auth_info = auth_info, sc_dest_addr = dest_addr, sc_state = STATE_CONNECTING,
                 sc_buffer = None, sc_recv_dest = 0, sc_recv_len = 0, sc_recv_total = 0\<rparr>)"

definition BSocksClient_Free :: "BSocksClient \<Rightarrow> sc_call list" where
  "BSocksClient_Free o1 =
     (if sc_state o1 \<noteq> STATE_CONNECTING
      then (if sc_state o1 = STATE_UP then free_up_io else free_control_io) @ [Connection_Free]
      else []) @ [Connector_Free] @ (if sc_buffer o1 \<noteq> None then [Buffer_Free] else [])"

section \<open>The messages\<close>

definition hello_msg :: "BSocksClient_auth_info list \<Rightarrow> byte list" where
  "hello_msg auths = [5, word_of_nat (length auths)] @ map (\<lambda>a. word_of_int (auth_type a)) auths"

definition password_msg :: "byte list \<Rightarrow> byte list \<Rightarrow> byte list" where
  "password_msg user pass =
     [1, word_of_nat (length user)] @ user @ [word_of_nat (length pass)] @ pass"

fun request_msg :: "BAddr \<Rightarrow> byte list" where
  "request_msg (BAddr_IPv4 ip port) = [5, 1, 0, 1] @ bytes32 ip @ bytes16 port"
| "request_msg (BAddr_IPv6 ip port) = [5, 1, 0, 4] @ ip @ bytes16 port"
| "request_msg BAddr_None = [5, 1, 0, 0]"

text \<open>
  What a finished authentication has sent and received, and a successful reply to the request.
\<close>

definition password_chosen :: "BSocksClient_auth_info list \<Rightarrow> byte list \<Rightarrow> byte list \<Rightarrow> bool" where
  "password_chosen auths user pass \<longleftrightarrow>
     find (\<lambda>ai. auth_type ai = 2) auths = Some (Auth_Password user pass)
     \<and> 0 < length user \<and> length user \<le> 255 \<and> 0 < length pass \<and> length pass \<le> 255"

definition auth_exchange ::
    "BSocksClient_auth_info list \<Rightarrow> byte list list \<Rightarrow> byte list \<Rightarrow> bool" where
  "auth_exchange auths snt rcv \<longleftrightarrow>
     Auth_None \<in> set auths \<and> snt = [hello_msg auths] \<and> rcv = [5, 0]
   \<or> (\<exists>user pass. password_chosen auths user pass
        \<and> snt = [hello_msg auths, password_msg user pass] \<and> rcv = [5, 2, 1, 0])"

definition addr_len_of :: "byte \<Rightarrow> nat option" where
  "addr_len_of atyp = (if atyp = 1 then Some 6 else if atyp = 4 then Some 18 else None)"

definition success_reply :: "byte list \<Rightarrow> bool" where
  "success_reply bs \<longleftrightarrow> 4 \<le> length bs \<and> bs ! 0 = 5 \<and> bs ! 1 = 0
     \<and> addr_len_of (bs ! 3) = Some (length bs - 4)"

definition handshake_done ::
    "BSocksClient_auth_info list \<Rightarrow> BAddr \<Rightarrow> byte list list \<Rightarrow> byte list \<Rightarrow> bool" where
  "handshake_done auths dest snt rcv \<longleftrightarrow>
     (\<exists>s r rep. auth_exchange auths s r \<and> success_reply rep
        \<and> snt = s @ [request_msg dest] \<and> rcv = r @ rep)"

section \<open>The client in its environment\<close>

fun sent_by :: "sc_call list \<Rightarrow> byte list list" where
  "sent_by [] = []"
| "sent_by (Control_Send b # cs) = b # sent_by cs"
| "sent_by (_ # cs) = sent_by cs"

fun reports_of :: "sc_call list \<Rightarrow> sc_event list" where
  "reports_of [] = []"
| "reports_of (Report e # cs) = e # reports_of cs"
| "reports_of (_ # cs) = reports_of cs"

definition alloc_ok :: "alloc \<Rightarrow> bool" where
  "alloc_ok alloc \<longleftrightarrow> (\<forall>n blk. alloc n = Some blk \<longrightarrow> length blk = n)"

definition is_sending :: "sc_state \<Rightarrow> bool" where
  "is_sending st \<longleftrightarrow> st \<in> {STATE_SENDING_HELLO, STATE_SENDING_PASSWORD, STATE_SENDING_REQUEST}"

definition is_receiving :: "sc_state \<Rightarrow> bool" where
  "is_receiving st \<longleftrightarrow> st \<in> {STATE_SENT_HELLO, STATE_SENT_PASSWORD, STATE_SENT_REQUEST,
     STATE_RECEIVED_REPLY_HEADER}"

text \<open>
  A world is the client, the messages it sent, the bytes it received and the events it reported.
  After reporting an error the client is freed and takes no further step; the connection may
  report an event at any time.
\<close>

type_synonym sc_world = "BSocksClient \<times> byte list list \<times> byte list \<times> sc_event list"

definition sc_receive :: "nat \<Rightarrow> alloc \<Rightarrow> byte list \<Rightarrow> BSocksClient \<Rightarrow> BSocksClient \<times> sc_call list" where
  "sc_receive smax alloc c o1 =
     recv_handler_done smax alloc (put_buffer (sc_recv_dest o1 + nat (sc_recv_len o1)) c o1) (int (length c))"

inductive sc_step :: "nat \<Rightarrow> sc_world \<Rightarrow> sc_world \<Rightarrow> bool" for smax where
  connect: "sc_state o1 = STATE_CONNECTING \<Longrightarrow> alloc_ok alloc \<Longrightarrow>
    connector_handler smax alloc con_ok o1 is_error = (o2, cs) \<Longrightarrow>
    sc_step smax (o1, s, r, []) (o2, s @ sent_by cs, r, reports_of cs)"
| sent: "is_sending (sc_state o1) \<Longrightarrow> alloc_ok alloc \<Longrightarrow>
    send_handler_done smax alloc o1 = (o2, cs) \<Longrightarrow>
    sc_step smax (o1, s, r, []) (o2, s @ sent_by cs, r, reports_of cs)"
| received: "is_receiving (sc_state o1) \<Longrightarrow> alloc_ok alloc \<Longrightarrow>
    c \<noteq> [] \<Longrightarrow> int (length c) \<le> sc_recv_total o1 - sc_recv_len o1 \<Longrightarrow>
    sc_receive smax alloc c o1 = (o2, cs) \<Longrightarrow>
    sc_step smax (o1, s, r, []) (o2, s @ sent_by cs, r @ c, reports_of cs)"
| con_event: "sc_state o1 \<noteq> STATE_CONNECTING \<Longrightarrow> set rep \<subseteq> {EVENT_UP} \<Longrightarrow>
    connection_handler o1 ev = (o2, cs) \<Longrightarrow>
    sc_step smax (o1, s, r, rep) (o2, s @ sent_by cs, r, rep @ reports_of cs)"

inductive_cases sc_stepE: "sc_step smax w w'"

definition recv_window :: "BSocksClient \<Rightarrow> nat \<Rightarrow> nat \<Rightarrow> nat \<Rightarrow> byte list \<Rightarrow> bool" where
  "recv_window o1 sz dest n_total got \<longleftrightarrow>
     (\<exists>b. sc_buffer o1 = Some b \<and> length b = sz) \<and> sc_recv_dest o1 = dest
     \<and> sc_recv_total o1 = int n_total \<and> dest + n_total \<le> sz \<and> sc_recv_len o1 = int (length got)
     \<and> length got < n_total \<and> take (length got) (drop dest (the_buffer o1)) = got"

fun sc_phase :: "BSocksClient \<Rightarrow> byte list list \<Rightarrow> byte list \<Rightarrow> sc_state \<Rightarrow> bool" where
  "sc_phase o1 s r STATE_CONNECTING \<longleftrightarrow> s = [] \<and> r = []"
| "sc_phase o1 s r STATE_SENDING_HELLO \<longleftrightarrow>
     s = [hello_msg (sc_auth_info o1)] \<and> r = [] \<and> sc_buffer o1 \<noteq> None"
| "sc_phase o1 s r STATE_SENT_HELLO \<longleftrightarrow>
     s = [hello_msg (sc_auth_info o1)] \<and> recv_window o1 2 0 2 r"
| "sc_phase o1 s r STATE_SENDING_PASSWORD \<longleftrightarrow> sc_buffer o1 \<noteq> None \<and>
     (\<exists>user pass. password_chosen (sc_auth_info o1) user pass
        \<and> s = [hello_msg (sc_auth_info o1), password_msg user pass] \<and> r = [5, 2])"
| "sc_phase o1 s r STATE_SENT_PASSWORD \<longleftrightarrow>
     (\<exists>user pass got. password_chosen (sc_auth_info o1) user pass
        \<and> s = [hello_msg (sc_auth_info o1), password_msg user pass] \<and> r = [5, 2] @ got
        \<and> recv_window o1 2 0 2 got)"
| "sc_phase o1 s r STATE_SENDING_REQUEST \<longleftrightarrow> sc_buffer o1 \<noteq> None \<and>
     (\<exists>s0. auth_exchange (sc_auth_info o1) s0 r \<and> s = s0 @ [request_msg (sc_dest_addr o1)])"
| "sc_phase o1 s r STATE_SENT_REQUEST \<longleftrightarrow>
     (\<exists>s0 r0 got. auth_exchange (sc_auth_info o1) s0 r0 \<and> s = s0 @ [request_msg (sc_dest_addr o1)]
        \<and> r = r0 @ got \<and> recv_window o1 22 0 4 got)"
| "sc_phase o1 s r STATE_RECEIVED_REPLY_HEADER \<longleftrightarrow>
     (\<exists>s0 r0 hdr got n. auth_exchange (sc_auth_info o1) s0 r0 \<and> s = s0 @ [request_msg (sc_dest_addr o1)]
        \<and> r = r0 @ hdr @ got \<and> length hdr = 4 \<and> hdr ! 0 = 5 \<and> hdr ! 1 = 0
        \<and> addr_len_of (hdr ! 3) = Some n \<and> recv_window o1 22 4 n got)"
| "sc_phase o1 s r STATE_UP \<longleftrightarrow> sc_buffer o1 = None
     \<and> handshake_done (sc_auth_info o1) (sc_dest_addr o1) s r"

definition sc_inv :: "BSocksClient_auth_info list \<Rightarrow> BAddr \<Rightarrow> sc_world \<Rightarrow> bool" where
  "sc_inv auths dest = (\<lambda>(o1, s, r, rep).
     sc_auth_info o1 = auths \<and> sc_dest_addr o1 = dest
     \<and> (rep \<in> {[], [EVENT_UP]} \<longrightarrow> sc_phase o1 s r (sc_state o1))
     \<and> (sc_state o1 = STATE_UP \<longleftrightarrow> EVENT_UP \<in> set rep)
     \<and> (EVENT_UP \<in> set rep \<longrightarrow> handshake_done auths dest s r))"

section \<open>The handlers\<close>

text \<open>A handler either fails, reporting an error and sending nothing, or sends one message.\<close>

definition failed :: "BSocksClient \<Rightarrow> BSocksClient \<times> sc_call list \<Rightarrow> bool" where
  "failed o1 = (\<lambda>(o2, cs). o2 = o1 \<and> sent_by cs = [] \<and> reports_of cs = [EVENT_ERROR])"

definition sends_msg :: "BSocksClient \<Rightarrow> sc_state \<Rightarrow> byte list \<Rightarrow> BSocksClient \<times> sc_call list \<Rightarrow> bool" where
  "sends_msg o1 st msg = (\<lambda>(o2, cs). (\<exists>b. o2 = o1\<lparr>sc_buffer := Some b, sc_state := st\<rparr>)
     \<and> sent_by cs = [msg] \<and> reports_of cs = [])"

lemma reserve_buffer_SomeD:
  assumes "alloc_ok alloc" "reserve_buffer alloc o1 sz = Some o2"
  obtains b where "o2 = o1\<lparr>sc_buffer := Some b\<rparr>" "length b = bvalue sz" "\<not> is_overflow sz"
  using assms by (auto simp: reserve_buffer_def alloc_ok_def min_def split: if_splits option.splits)

lemma put_buffer_Some [simp]:
  "put_buffer off bs (o1\<lparr>sc_buffer := Some b\<rparr>) = o1\<lparr>sc_buffer := Some (buf_put off bs b)\<rparr>"
  "the_buffer (o1\<lparr>sc_buffer := Some b\<rparr>) = b"
  by (simp_all add: put_buffer_def the_buffer_def)

lemma the_buffer_upd [simp]:
  "the_buffer (o1\<lparr>sc_state := st\<rparr>) = the_buffer o1" "the_buffer (o1\<lparr>sc_recv_len := n\<rparr>) = the_buffer o1"
  by (simp_all add: the_buffer_def)

lemma fold_put_buffer:
  "fold (\<lambda>i x. put_buffer (g i) (h i) x) is (o1\<lparr>sc_buffer := Some b\<rparr>)
   = o1\<lparr>sc_buffer := Some (fold (\<lambda>i. buf_put (g i) (h i)) is b)\<rparr>"
  by (induction "is" arbitrary: b) simp_all

lemma fold_buf_put_bytes:
  "2 + k \<le> length b \<Longrightarrow>
    fold (\<lambda>i. buf_put (2 + i) [f i]) [0..<k] b = take 2 b @ map f [0..<k] @ drop (2 + k) b"
proof (induction k)
  case (Suc k)
  then have "drop (2 + k) b = b ! (2 + k) # drop (Suc (2 + k)) b"
    by (simp add: Cons_nth_drop_Suc)
  with Suc show ?case by (simp add: buf_put_def min_def numeral_2_eq_2)
qed (simp add: buf_put_def)

lemma length_buf_put: "off + length bs \<le> length b \<Longrightarrow> length (buf_put off bs b) = length b"
  by (simp add: buf_put_def)

lemma connector_handler_result:
  assumes "alloc_ok alloc" "65535 \<le> smax"
  shows "failed o1 (connector_handler smax alloc con_ok o1 is_error) \<or>
    sends_msg o1 STATE_SENDING_HELLO (hello_msg (sc_auth_info o1))
      (connector_handler smax alloc con_ok o1 is_error)"
proof (cases "is_error \<or> \<not> con_ok \<or> length (sc_auth_info o1) = 0 \<or> 255 < length (sc_auth_info o1)")
  case True
  then show ?thesis
    by (auto simp: connector_handler_def failed_def report_error_def init_control_io_def free_control_io_def Let_def)
next
  case False
  let ?n = "length (sc_auth_info o1)"
  let ?sz = "bsize_add smax (bsize_fromsize 2) (bsize_mul smax (bsize_fromsize ?n) (bsize_fromsize 1))"
  show ?thesis
  proof (cases "reserve_buffer alloc o1 ?sz")
    case None
    with False show ?thesis
      by (auto simp: connector_handler_def failed_def report_error_def init_control_io_def
          free_control_io_def Let_def)
  next
    case (Some o2)
    then obtain b where o2: "o2 = o1\<lparr>sc_buffer := Some b\<rparr>" and b: "length b = bvalue ?sz"
      and ov: "\<not> is_overflow ?sz"
      using reserve_buffer_SomeD [OF assms(1)] by metis
    have sz: "bvalue ?sz = 2 + ?n"
      using False assms(2) by (simp add: bsize_add_def bsize_mul_def bsize_fromsize_def)
    let ?b = "buf_put 0 [5, word_of_nat ?n] b"
    have lb: "length ?b = 2 + ?n" using b sz by (simp add: length_buf_put)
    have "fold (\<lambda>i. buf_put (2 + i) [word_of_int (auth_type (sc_auth_info o1 ! i))]) [0..<?n] ?b
        = hello_msg (sc_auth_info o1)"
    proof -
      have "map (\<lambda>i. word_of_int (auth_type (sc_auth_info o1 ! i))) [0..<?n]
          = map (\<lambda>a. word_of_int (auth_type a) :: byte) (sc_auth_info o1)"
        by (rule nth_equalityI) simp_all
      moreover have "take 2 ?b = [5, word_of_nat ?n]" by (simp add: buf_put_def)
      ultimately show ?thesis using lb
        by (subst fold_buf_put_bytes) (simp_all add: hello_msg_def)
    qed
    then show ?thesis
      using False Some lb sz
      by (simp add: connector_handler_def o2 sends_msg_def fold_put_buffer byteorder_defs
          socks_consts init_control_io_def hello_msg_def Let_def) auto
  qed
qed

lemma auth_finished_result:
  assumes "alloc_ok alloc" "65535 \<le> smax" "addr_wf (sc_dest_addr o1)"
  shows "failed o1 (auth_finished smax alloc o1) \<or>
    sends_msg o1 STATE_SENDING_REQUEST (request_msg (sc_dest_addr o1)) (auth_finished smax alloc o1)"
proof -
  let ?sz = "case sc_dest_addr o1 of BAddr_IPv4 _ _ \<Rightarrow> bsize_add smax (bsize_fromsize 4) (bsize_fromsize 6)
                  | BAddr_IPv6 _ _ \<Rightarrow> bsize_add smax (bsize_fromsize 4) (bsize_fromsize 18)
                  | BAddr_None \<Rightarrow> bsize_fromsize 4"
  show ?thesis
  proof (cases "reserve_buffer alloc o1 ?sz")
    case None
    then show ?thesis by (auto simp: auth_finished_def failed_def report_error_def Let_def)
  next
    case (Some o2)
    then obtain b where o2: "o2 = o1\<lparr>sc_buffer := Some b\<rparr>" and b: "length b = bvalue ?sz"
      using reserve_buffer_SomeD [OF assms(1)] by metis
    have sz: "bvalue ?sz = (case sc_dest_addr o1 of BAddr_IPv4 _ _ \<Rightarrow> 10 | BAddr_IPv6 _ _ \<Rightarrow> 22 | BAddr_None \<Rightarrow> 4)"
      using assms(2) by (auto simp: bsize_add_def bsize_fromsize_def split: BAddr.split)
    show ?thesis
    proof (cases "sc_dest_addr o1")
      case BAddr_None
      then show ?thesis using Some b sz
        by (simp add: auth_finished_def o2 sends_msg_def Let_def buf_put_def byteorder_defs socks_consts)
          auto
    next
      case (BAddr_IPv4 ip port)
      then show ?thesis using Some b sz
        by (simp add: auth_finished_def o2 sends_msg_def Let_def buf_put_def byteorder_defs socks_consts)
          auto
    next
      case (BAddr_IPv6 ip port)
      then show ?thesis using Some b sz assms(3)
        by (simp add: auth_finished_def o2 sends_msg_def Let_def buf_put_def byteorder_defs socks_consts addr_wf_def)
          auto
    qed
  qed
qed

lemma buf_put_password:
  assumes "length b = 3 + length u + length p"
  shows "buf_put (3 + length u) p (buf_put (2 + length u) [y] (buf_put 2 u (buf_put 0 [1, x] b)))
    = [1, x] @ u @ [y] @ p"
proof -
  have "buf_put 2 u (buf_put 0 [1, x] b) = [1, x] @ u @ drop (2 + length u) b"
    using assms by (simp add: buf_put_def)
  moreover have "drop (2 + length u) b = b ! (2 + length u) # drop (3 + length u) b"
    using assms Cons_nth_drop_Suc [of "2 + length u" b] by (simp add: numeral_3_eq_3)
  ultimately have "buf_put (2 + length u) [y] (buf_put 2 u (buf_put 0 [1, x] b))
      = [1, x] @ u @ [y] @ drop (3 + length u) b"
    by (simp add: buf_put_def)
  then show ?thesis using assms by (simp add: buf_put_def numeral_3_eq_3)
qed

lemma find_auth_cases:
  assumes "find (\<lambda>ai. auth_type ai = n) auths = Some a"
  shows "(a = Auth_None \<longrightarrow> n = 0 \<and> Auth_None \<in> set auths) \<and> (\<forall>u p. a = Auth_Password u p \<longrightarrow> n = 2)"
  using assms by (auto simp: find_Some_iff) (metis nth_mem)

lemma received_hello_result:
  assumes "alloc_ok alloc" "65535 \<le> smax" "addr_wf (sc_dest_addr o1)" "the_buffer o1 = [x, y]"
  shows "failed o1 (received_hello smax alloc o1) \<or>
    x = 5 \<and> y = 0 \<and> Auth_None \<in> set (sc_auth_info o1) \<and>
      sends_msg o1 STATE_SENDING_REQUEST (request_msg (sc_dest_addr o1)) (received_hello smax alloc o1) \<or>
    x = 5 \<and> y = 2 \<and> (\<exists>u p. password_chosen (sc_auth_info o1) u p \<and>
      sends_msg o1 STATE_SENDING_PASSWORD (password_msg u p) (received_hello smax alloc o1))"
proof (cases "x = 5")
  case False
  then show ?thesis using assms(4)
    by (simp add: received_hello_def failed_def report_error_def byteorder_defs socks_consts Let_def)
next
  case x: True
  show ?thesis
  proof (cases "find (\<lambda>ai. auth_type ai = uint y) (sc_auth_info o1)")
    case None
    then show ?thesis using assms(4)
      by (simp add: received_hello_def failed_def report_error_def byteorder_defs socks_consts Let_def)
  next
    case (Some a)
    note c = find_auth_cases [OF Some]
    show ?thesis
    proof (cases a)
      case Auth_None
      then have "received_hello smax alloc o1 = auth_finished smax alloc o1"
        using Some x assms(4) by (simp add: received_hello_def byteorder_defs socks_consts Let_def)
      moreover have "y = 0" using c Auth_None by (simp add: word_uint_eq_iff)
      ultimately show ?thesis using auth_finished_result [OF assms(1-3)] c Auth_None x by auto
    next
      case (Auth_Password u p)
      then have y: "y = 2" using c by (simp add: word_uint_eq_iff)
      let ?sz = "bsize_fromsize (1 + 1 + length u + 1 + length p)"
      show ?thesis
      proof (cases "length u = 0 \<or> length u > 255 \<or> length p = 0 \<or> length p > 255 \<or>
          reserve_buffer alloc o1 ?sz = None")
        case True
        then show ?thesis using Some x assms(4) Auth_Password
          by (auto simp: received_hello_def failed_def report_error_def byteorder_defs socks_consts Let_def)
      next
        case False
        then obtain o2 where o2: "reserve_buffer alloc o1 ?sz = Some o2" by auto
        obtain b where b0: "o2 = o1\<lparr>sc_buffer := Some b\<rparr>" "length b = bvalue ?sz"
          by (rule reserve_buffer_SomeD [OF assms(1) o2])
        then have b: "o2 = o1\<lparr>sc_buffer := Some b\<rparr>" "length b = 3 + length u + length p"
          by (simp_all add: bsize_fromsize_def)
        have "sends_msg o1 STATE_SENDING_PASSWORD (password_msg u p) (received_hello smax alloc o1)"
          using Some x assms(4) Auth_Password False o2 b buf_put_password [OF b(2)]
          by (auto simp: received_hello_def sends_msg_def byteorder_defs socks_consts Let_def
              bsize_fromsize_def password_msg_def)
        moreover have "password_chosen (sc_auth_info o1) u p"
          using Some Auth_Password False y by (auto simp: password_chosen_def)
        ultimately show ?thesis using x y by blast
      qed
    qed
  qed
qed

lemma received_password_reply_result:
  assumes "alloc_ok alloc" "65535 \<le> smax" "addr_wf (sc_dest_addr o1)" "the_buffer o1 = [x, y]"
  shows "failed o1 (received_password_reply smax alloc o1) \<or>
    x = 1 \<and> y = 0 \<and>
      sends_msg o1 STATE_SENDING_REQUEST (request_msg (sc_dest_addr o1)) (received_password_reply smax alloc o1)"
  using auth_finished_result [OF assms(1-3)] assms(4)
  by (auto simp: received_password_reply_def failed_def report_error_def)

lemma received_reply_header_result:
  assumes "4 \<le> length (the_buffer o1)"
  defines "hdr \<equiv> take 4 (the_buffer o1)"
  shows "failed o1 (received_reply_header o1) \<or>
    hdr ! 0 = 5 \<and> hdr ! 1 = 0 \<and> (\<exists>n. addr_len_of (hdr ! 3) = Some n \<and>
      received_reply_header o1 =
        (o1\<lparr>sc_recv_dest := 4, sc_recv_len := 0, sc_recv_total := int n,
            sc_state := STATE_RECEIVED_REPLY_HEADER\<rparr>, [Control_Recv 4 (int n)]))"
  using assms
  by (auto simp: received_reply_header_def failed_def report_error_def byteorder_defs socks_consts
      addr_len_of_def start_receive_def do_receive_def Let_def)

lemma sc_receive_more:
  assumes w: "recv_window o1 sz dest n got" and c: "length got + length c < n"
  shows "sc_receive smax alloc c o1 =
      (let o2 = put_buffer (dest + length got) c o1\<lparr>sc_recv_len := int (length (got @ c))\<rparr>
       in (o2, do_receive o2))"
    and "recv_window (put_buffer (dest + length got) c o1\<lparr>sc_recv_len := int (length (got @ c))\<rparr>) sz dest n (got @ c)"
proof -
  show "sc_receive smax alloc c o1 =
      (let o2 = put_buffer (dest + length got) c o1\<lparr>sc_recv_len := int (length (got @ c))\<rparr>
       in (o2, do_receive o2))"
    using w c by (simp add: sc_receive_def recv_handler_done_def recv_window_def put_buffer_def Let_def)
  obtain b where b: "sc_buffer o1 = Some b" "the_buffer o1 = b" "length b = sz"
    using w by (auto simp: recv_window_def the_buffer_def)
  have "take (length got) (drop dest (buf_put (dest + length got) c b)) = got"
    "take (length c) (drop (dest + length got) (buf_put (dest + length got) c b)) = c"
    using w c b by (auto simp: recv_window_def buf_put_def min_def take_drop)
  then have "take (length (got @ c)) (drop dest (buf_put (dest + length got) c b)) = got @ c"
    by (simp add: take_add add.commute [of dest])
  then show "recv_window (put_buffer (dest + length got) c o1\<lparr>sc_recv_len := int (length (got @ c))\<rparr>) sz dest n (got @ c)"
    using w c b by (auto simp: recv_window_def put_buffer_def the_buffer_def length_buf_put)
qed

lemma sc_receive_last:
  assumes w: "recv_window o1 sz dest n got" and c: "length got + length c = n"
  shows "\<exists>b. sc_receive smax alloc c o1 =
      recv_complete smax alloc (o1\<lparr>sc_buffer := Some b, sc_recv_len := int n\<rparr>)
      \<and> length b = sz \<and> take n (drop dest b) = got @ c \<and> take dest b = take dest (the_buffer o1)"
proof -
  obtain b where b: "sc_buffer o1 = Some b" "the_buffer o1 = b" "length b = sz"
    using w by (auto simp: recv_window_def the_buffer_def)
  let ?b = "buf_put (dest + length got) c b"
  have "take (length got) (drop dest ?b) = got"
    "take (length c) (drop (dest + length got) ?b) = c"
    using w c b by (auto simp: recv_window_def buf_put_def min_def take_drop)
  then have "take n (drop dest ?b) = got @ c"
    by (simp add: take_add add.commute [of dest] flip: c)
  moreover have "sc_receive smax alloc c o1 =
      recv_complete smax alloc (o1\<lparr>sc_buffer := Some ?b, sc_recv_len := int n\<rparr>)"
    using w b by (simp add: sc_receive_def recv_handler_done_def recv_window_def put_buffer_def Let_def flip: c)
  moreover have "length ?b = sz" "take dest ?b = take dest b"
    using w c b by (simp_all add: recv_window_def length_buf_put buf_put_def min_def)
  ultimately show ?thesis using b by blast
qed

lemma send_handler_done_result:
  assumes "alloc_ok alloc" "65535 \<le> smax" "is_sending (sc_state o1)"
  defines "sz \<equiv> if sc_state o1 = STATE_SENDING_REQUEST then 22 else 2"
    and "n \<equiv> if sc_state o1 = STATE_SENDING_REQUEST then 4 else 2"
    and "st \<equiv> if sc_state o1 = STATE_SENDING_REQUEST then STATE_SENT_REQUEST
              else if sc_state o1 = STATE_SENDING_HELLO then STATE_SENT_HELLO else STATE_SENT_PASSWORD"
  shows "failed o1 (send_handler_done smax alloc o1) \<or>
    (\<exists>b. length b = sz \<and> send_handler_done smax alloc o1 =
       (o1\<lparr>sc_buffer := Some b, sc_recv_dest := 0, sc_recv_len := 0, sc_recv_total := n, sc_state := st\<rparr>,
        [Control_Recv 0 n]))"
proof -
  let ?sz = "if sc_state o1 = STATE_SENDING_REQUEST
    then bsize_add smax (bsize_fromsize 4) (bsize_max (bsize_fromsize 6) (bsize_fromsize 18))
    else bsize_fromsize 2"
  have v: "bvalue ?sz = sz"
    using assms(2) by (simp add: sz_def bsize_add_def bsize_max_def bsize_fromsize_def)
  show ?thesis
  proof (cases "reserve_buffer alloc o1 ?sz")
    case None
    then show ?thesis using assms(3)
      by (auto simp: send_handler_done_def failed_def report_error_def is_sending_def Let_def)
  next
    case (Some o2)
    obtain b where "o2 = o1\<lparr>sc_buffer := Some b\<rparr>" "length b = sz"
      using reserve_buffer_SomeD [OF assms(1) Some] v by metis
    then show ?thesis using assms(3) Some
      by (auto simp: send_handler_done_def start_receive_def do_receive_def is_sending_def Let_def
          n_def st_def intro!: exI [of _ b])
  qed
qed

lemma failed_step:
  assumes "failed o1 (o2, cs)" "sc_inv auths dest (o1, s, r, [])" "sc_state o1 \<noteq> STATE_UP"
  shows "sc_inv auths dest (o2, s', r', reports_of cs)"
  using assms by (auto simp: failed_def sc_inv_def)

lemma sc_inv_sent:
  assumes "sc_inv auths dest (o1, s, r, [])" "is_sending (sc_state o1)" "alloc_ok alloc" "65535 \<le> smax"
    and "send_handler_done smax alloc o1 = (o2, cs)"
  shows "sc_inv auths dest (o2, s @ sent_by cs, r, reports_of cs)"
  using send_handler_done_result [OF assms(3,4,2)]
proof (elim disjE exE conjE)
  assume "failed o1 (send_handler_done smax alloc o1)"
  with assms show ?thesis using failed_step by (auto simp: is_sending_def)
next
  fix b :: "byte list"
  assume b: "length b = (if sc_state o1 = STATE_SENDING_REQUEST then 22 else 2)"
    and eq: "send_handler_done smax alloc o1 =
       (o1\<lparr>sc_buffer := Some b, sc_recv_dest := 0, sc_recv_len := 0,
           sc_recv_total := (if sc_state o1 = STATE_SENDING_REQUEST then 4 else 2),
           sc_state := (if sc_state o1 = STATE_SENDING_REQUEST then STATE_SENT_REQUEST
              else if sc_state o1 = STATE_SENDING_HELLO then STATE_SENT_HELLO else STATE_SENT_PASSWORD)\<rparr>,
        [Control_Recv 0 (if sc_state o1 = STATE_SENDING_REQUEST then 4 else 2)])"
  have "sc_state o1 = STATE_SENDING_HELLO \<or> sc_state o1 = STATE_SENDING_PASSWORD
      \<or> sc_state o1 = STATE_SENDING_REQUEST"
    using assms(2) by (simp add: is_sending_def)
  then show ?thesis
    using assms(1,5) b eq by (elim disjE) (auto simp: sc_inv_def recv_window_def, blast)
qed

lemma sends_msg_inv:
  assumes "sends_msg o1 st msg (o2, cs)" "sc_auth_info o1 = auths" "sc_dest_addr o1 = dest"
    and "\<And>b. sc_phase (o1\<lparr>sc_buffer := Some b, sc_state := st\<rparr>) (s @ [msg]) r st" "st \<noteq> STATE_UP"
  shows "sc_inv auths dest (o2, s @ sent_by cs, r, reports_of cs)"
  using assms by (auto simp: sends_msg_def sc_inv_def)

lemma length_2_list: "length b = 2 \<Longrightarrow> b = [b ! 0, b ! 1]"
  by (cases b; cases "tl b") auto

lemma sc_inv_received_hello:
  assumes inv: "sc_inv auths dest (o1, s, r, [])" and st: "sc_state o1 = STATE_SENT_HELLO"
    and al: "alloc_ok alloc" "65535 \<le> smax" "addr_wf dest" and c: "length r + length c = 2"
    and rcv: "sc_receive smax alloc c o1 = (o2, cs)"
  shows "sc_inv auths dest (o2, s @ sent_by cs, r @ c, reports_of cs)"
proof -
  have w: "recv_window o1 2 0 2 r" and s: "s = [hello_msg auths]" "sc_auth_info o1 = auths"
    "sc_dest_addr o1 = dest"
    using inv st by (auto simp: sc_inv_def)
  obtain b where b: "sc_receive smax alloc c o1 =
        recv_complete smax alloc (o1\<lparr>sc_buffer := Some b, sc_recv_len := 2\<rparr>)" "length b = 2" "b = r @ c"
    using sc_receive_last [OF w c, of smax alloc] by auto
  let ?o = "o1\<lparr>sc_buffer := Some b, sc_recv_len := 2\<rparr>"
  have res: "received_hello smax alloc ?o = (o2, cs)"
    using rcv b(1) st by (simp add: recv_complete_def)
  have bb: "the_buffer ?o = [b ! 0, b ! 1]" using length_2_list [OF b(2)] by (simp add: the_buffer_def)
  from received_hello_result [OF al(1,2) _ bb] al(3) s(2,3)
  consider "failed ?o (o2, cs)"
    | "b ! 0 = 5" "b ! 1 = 0" "Auth_None \<in> set auths"
      "sends_msg ?o STATE_SENDING_REQUEST (request_msg dest) (o2, cs)"
    | u p where "b ! 0 = 5" "b ! 1 = 2" "password_chosen auths u p"
      "sends_msg ?o STATE_SENDING_PASSWORD (password_msg u p) (o2, cs)"
    unfolding res by auto
  then show ?thesis
  proof cases
    case 1
    then show ?thesis using s st by (auto simp: failed_def sc_inv_def)
  next
    case 2
    then have "r @ c = [5, 0]" using length_2_list [OF b(2)] b(3) by simp
    with 2 s show ?thesis
      by (intro sends_msg_inv [OF 2(4)]) (auto simp: auth_exchange_def)
  next
    case 3
    then have "r @ c = [5, 2]" using length_2_list [OF b(2)] b(3) by simp
    with 3 s show ?thesis by (intro sends_msg_inv [OF 3(4)]) auto
  qed
qed

lemma sc_inv_received_password:
  assumes inv: "sc_inv auths dest (o1, s, r, [])" and st: "sc_state o1 = STATE_SENT_PASSWORD"
    and al: "alloc_ok alloc" "65535 \<le> smax" "addr_wf dest" and c: "sc_recv_len o1 + int (length c) = 2"
    and rcv: "sc_receive smax alloc c o1 = (o2, cs)"
  shows "sc_inv auths dest (o2, s @ sent_by cs, r @ c, reports_of cs)"
proof -
  obtain u p got where w: "recv_window o1 2 0 2 got" and up: "password_chosen auths u p"
    and s: "s = [hello_msg auths, password_msg u p]" "r = [5, 2] @ got"
    "sc_auth_info o1 = auths" "sc_dest_addr o1 = dest"
    using inv st by (auto simp: sc_inv_def)
  have "length got + length c = 2" using c w by (auto simp: recv_window_def)
  then obtain b where b: "sc_receive smax alloc c o1 =
        recv_complete smax alloc (o1\<lparr>sc_buffer := Some b, sc_recv_len := 2\<rparr>)" "length b = 2" "b = got @ c"
    using sc_receive_last [OF w, of c smax alloc] by auto
  let ?o = "o1\<lparr>sc_buffer := Some b, sc_recv_len := 2\<rparr>"
  have res: "received_password_reply smax alloc ?o = (o2, cs)"
    using rcv b(1) st by (simp add: recv_complete_def)
  have bb: "the_buffer ?o = [b ! 0, b ! 1]" using length_2_list [OF b(2)] by (simp add: the_buffer_def)
  from received_password_reply_result [OF al(1,2) _ bb] al(3) s(3,4)
  consider "failed ?o (o2, cs)"
    | "b ! 0 = 1" "b ! 1 = 0" "sends_msg ?o STATE_SENDING_REQUEST (request_msg dest) (o2, cs)"
    unfolding res by auto
  then show ?thesis
  proof cases
    case 1
    then show ?thesis using s st by (auto simp: failed_def sc_inv_def)
  next
    case 2
    then have "got @ c = [1, 0]" using length_2_list [OF b(2)] b(3) by simp
    then have "auth_exchange auths s (r @ c)" using up s by (auto simp: auth_exchange_def)
    with 2 s show ?thesis by (intro sends_msg_inv [OF 2(3)]) auto
  qed
qed

lemma sc_inv_received_header:
  assumes inv: "sc_inv auths dest (o1, s, r, [])" and st: "sc_state o1 = STATE_SENT_REQUEST"
    and c: "sc_recv_len o1 + int (length c) = 4"
    and rcv: "sc_receive smax alloc c o1 = (o2, cs)"
  shows "sc_inv auths dest (o2, s @ sent_by cs, r @ c, reports_of cs)"
proof -
  obtain s0 r0 got where w: "recv_window o1 22 0 4 got" and a: "auth_exchange auths s0 r0"
    and s: "s = s0 @ [request_msg dest]" "r = r0 @ got" "sc_auth_info o1 = auths" "sc_dest_addr o1 = dest"
    using inv st by (auto simp: sc_inv_def)
  have "length got + length c = 4" using c w by (auto simp: recv_window_def)
  then obtain b where b: "sc_receive smax alloc c o1 =
        recv_complete smax alloc (o1\<lparr>sc_buffer := Some b, sc_recv_len := 4\<rparr>)" "length b = 22"
      "take 4 b = got @ c"
    using sc_receive_last [OF w, of c smax alloc] by auto
  let ?o = "o1\<lparr>sc_buffer := Some b, sc_recv_len := 4\<rparr>"
  have res: "received_reply_header ?o = (o2, cs)"
    using rcv b(1) st by (simp add: recv_complete_def)
  have bb: "the_buffer ?o = b" by (simp add: the_buffer_def)
  from received_reply_header_result [of ?o] b(2)
  consider "failed ?o (o2, cs)"
    | n where "(got @ c) ! 0 = 5" "(got @ c) ! 1 = 0" "addr_len_of ((got @ c) ! 3) = Some n"
      "o2 = ?o\<lparr>sc_recv_dest := 4, sc_recv_len := 0, sc_recv_total := int n,
            sc_state := STATE_RECEIVED_REPLY_HEADER\<rparr>" "cs = [Control_Recv 4 (int n)]"
    unfolding res bb b(3) by auto
  then show ?thesis
  proof cases
    case 1
    then show ?thesis using s st by (auto simp: failed_def sc_inv_def)
  next
    case 2
    have "0 < n" "n \<le> 18" using 2(3) by (auto simp: addr_len_of_def split: if_splits)
    then have "recv_window o2 22 4 n []" using b(2) 2(4) by (simp add: recv_window_def)
    moreover have "length (got @ c) = 4" using \<open>length got + length c = 4\<close> by simp
    ultimately have "sc_phase o2 s (r @ c) STATE_RECEIVED_REPLY_HEADER"
      using 2 s a unfolding sc_phase.simps
      by (intro exI [of _ s0] exI [of _ r0] exI [of _ "got @ c"] exI [of _ "[]"] exI [of _ n]) simp
    with 2 s show ?thesis by (simp add: sc_inv_def)
  qed
qed

lemma sc_inv_received_rest:
  assumes inv: "sc_inv auths dest (o1, s, r, [])" and st: "sc_state o1 = STATE_RECEIVED_REPLY_HEADER"
    and c: "sc_recv_len o1 + int (length c) = sc_recv_total o1"
    and rcv: "sc_receive smax alloc c o1 = (o2, cs)"
  shows "sc_inv auths dest (o2, s @ sent_by cs, r @ c, reports_of cs)"
proof -
  obtain s0 r0 hdr got n where w: "recv_window o1 22 4 n got" and a: "auth_exchange auths s0 r0"
    and h: "length hdr = 4" "hdr ! 0 = 5" "hdr ! 1 = 0" "addr_len_of (hdr ! 3) = Some n"
    and s: "s = s0 @ [request_msg dest]" "r = r0 @ hdr @ got" "sc_auth_info o1 = auths" "sc_dest_addr o1 = dest"
    using inv st by (auto simp: sc_inv_def)
  have n: "length got + length c = n" using c w by (auto simp: recv_window_def)
  then obtain b where b: "sc_receive smax alloc c o1 =
        recv_complete smax alloc (o1\<lparr>sc_buffer := Some b, sc_recv_len := int n\<rparr>)"
    using sc_receive_last [OF w, of c smax alloc] by auto
  then have eq: "o2 = o1\<lparr>sc_buffer := None, sc_recv_len := int n, sc_state := STATE_UP\<rparr>"
    "sent_by cs = []" "reports_of cs = [EVENT_UP]"
    using rcv st by (auto simp: recv_complete_def received_reply_rest_def free_control_io_def init_up_io_def)
  have "success_reply (hdr @ got @ c)"
    using h n by (simp add: success_reply_def nth_append)
  then have "handshake_done auths dest s (r @ c)"
    using a s unfolding handshake_done_def
    by (intro exI [of _ s0] exI [of _ r0] exI [of _ "hdr @ got @ c"]) simp
  then show ?thesis using eq s by (simp add: sc_inv_def)
qed

lemma put_buffer_fields [simp]:
  "sc_state (put_buffer k c o1) = sc_state o1" "sc_auth_info (put_buffer k c o1) = sc_auth_info o1"
  "sc_dest_addr (put_buffer k c o1) = sc_dest_addr o1"
  by (simp_all add: put_buffer_def)

lemma sc_inv_received_more:
  assumes inv: "sc_inv auths dest (o1, s, r, [])" and st: "is_receiving (sc_state o1)"
    and c: "sc_recv_len o1 + int (length c) < sc_recv_total o1"
    and rcv: "sc_receive smax alloc c o1 = (o2, cs)"
  shows "sc_inv auths dest (o2, s @ sent_by cs, r @ c, reports_of cs)"
proof -
  have more: "recv_window o2 sz d n (g @ c) \<and> sc_state o2 = sc_state o1 \<and> sc_auth_info o2 = sc_auth_info o1
      \<and> sc_dest_addr o2 = sc_dest_addr o1 \<and> sent_by cs = [] \<and> reports_of cs = []"
    if w: "recv_window o1 sz d n g" for sz d n g
  proof -
    have l: "length g + length c < n" using w c by (auto simp: recv_window_def)
    show ?thesis
      using sc_receive_more(1) [OF w l, of smax alloc] sc_receive_more(2) [OF w l] rcv
      by (auto simp: Let_def do_receive_def)
  qed
  have f: "sc_auth_info o1 = auths" "sc_dest_addr o1 = dest" "sc_phase o1 s r (sc_state o1)"
    using inv by (auto simp: sc_inv_def)
  have "sc_state o1 = STATE_SENT_HELLO \<or> sc_state o1 = STATE_SENT_PASSWORD \<or>
      sc_state o1 = STATE_SENT_REQUEST \<or> sc_state o1 = STATE_RECEIVED_REPLY_HEADER"
    using st by (simp add: is_receiving_def)
  then show ?thesis
  proof (elim disjE)
    assume a: "sc_state o1 = STATE_SENT_HELLO"
    then have "recv_window o1 2 0 2 r" "s = [hello_msg auths]" using f by auto
    with more [OF this(1)] f a show ?thesis by (simp add: sc_inv_def)
  next
    assume a: "sc_state o1 = STATE_SENT_PASSWORD"
    then obtain u p g where w: "recv_window o1 2 0 2 g" "password_chosen auths u p"
      "s = [hello_msg auths, password_msg u p]" "r = [5, 2] @ g" using f by auto
    with more [OF w(1)] f a show ?thesis by (auto simp: sc_inv_def)
  next
    assume a: "sc_state o1 = STATE_SENT_REQUEST"
    then obtain s0 r0 g where w: "recv_window o1 22 0 4 g" "auth_exchange auths s0 r0"
      "s = s0 @ [request_msg dest]" "r = r0 @ g" using f by auto
    with more [OF w(1)] f a show ?thesis by (auto simp: sc_inv_def)
  next
    assume a: "sc_state o1 = STATE_RECEIVED_REPLY_HEADER"
    then obtain s0 r0 hdr g n where w: "recv_window o1 22 4 n g"
      and x: "auth_exchange auths s0 r0" "s = s0 @ [request_msg dest]" "r = r0 @ hdr @ g"
      "length hdr = 4" "hdr ! 0 = 5" "hdr ! 1 = 0" "addr_len_of (hdr ! 3) = Some n"
      using f by auto
    have "sc_phase o2 s (r @ c) STATE_RECEIVED_REPLY_HEADER"
      using more [OF w] f x unfolding sc_phase.simps
      by (intro exI [of _ s0] exI [of _ r0] exI [of _ hdr] exI [of _ "g @ c"] exI [of _ n]) simp
    with more [OF w] f a show ?thesis by (simp add: sc_inv_def)
  qed
qed

lemma sc_inv_received:
  assumes inv: "sc_inv auths dest (o1, s, r, [])" and st: "is_receiving (sc_state o1)"
    and al: "alloc_ok alloc" "65535 \<le> smax" "addr_wf dest"
    and c: "int (length c) \<le> sc_recv_total o1 - sc_recv_len o1"
    and rcv: "sc_receive smax alloc c o1 = (o2, cs)"
  shows "sc_inv auths dest (o2, s @ sent_by cs, r @ c, reports_of cs)"
proof (cases "sc_recv_len o1 + int (length c) < sc_recv_total o1")
  case True
  then show ?thesis using sc_inv_received_more [OF inv st _ rcv] by simp
next
  case False
  with c have eq: "sc_recv_len o1 + int (length c) = sc_recv_total o1" by simp
  have "sc_state o1 = STATE_SENT_HELLO \<or> sc_state o1 = STATE_SENT_PASSWORD \<or>
      sc_state o1 = STATE_SENT_REQUEST \<or> sc_state o1 = STATE_RECEIVED_REPLY_HEADER"
    using st by (simp add: is_receiving_def)
  then show ?thesis
  proof (elim disjE)
    assume a: "sc_state o1 = STATE_SENT_HELLO"
    then have "recv_window o1 2 0 2 r" using inv by (auto simp: sc_inv_def)
    then have "length r + length c = 2" using eq by (auto simp: recv_window_def)
    from sc_inv_received_hello [OF inv a al this rcv] show ?thesis .
  next
    assume a: "sc_state o1 = STATE_SENT_PASSWORD"
    then have "sc_recv_total o1 = 2" using inv by (auto simp: sc_inv_def recv_window_def)
    with sc_inv_received_password [OF inv a al _ rcv] eq show ?thesis by simp
  next
    assume a: "sc_state o1 = STATE_SENT_REQUEST"
    then have "sc_recv_total o1 = 4" using inv by (auto simp: sc_inv_def recv_window_def)
    with sc_inv_received_header [OF inv a _ rcv] eq show ?thesis by simp
  next
    assume a: "sc_state o1 = STATE_RECEIVED_REPLY_HEADER"
    from sc_inv_received_rest [OF inv a eq rcv] show ?thesis .
  qed
qed

lemma sc_step_inv:
  assumes "sc_step smax w w'" "sc_inv auths dest w" "65535 \<le> smax" "addr_wf dest"
  shows "sc_inv auths dest w'"
  using assms
proof (induction rule: sc_step.induct)
  case (connect o1 alloc con_ok is_error o2 cs s r)
  have f: "sc_auth_info o1 = auths" "sc_dest_addr o1 = dest" "s = []" "r = []"
    using connect by (auto simp: sc_inv_def)
  from connector_handler_result [OF connect(2), of smax o1 con_ok is_error] connect f show ?case
    using failed_step [of o1 o2 cs auths dest s r s r]
      sends_msg_inv [of o1 STATE_SENDING_HELLO "hello_msg auths" o2 cs auths dest s r]
    by (auto simp: failed_def)
next
  case (sent o1 alloc o2 cs s r)
  then show ?case using sc_inv_sent by blast
next
  case (received o1 alloc c o2 cs s r)
  then show ?case using sc_inv_received by blast
next
  case (con_event o1 rep ev o2 cs s r)
  then show ?case
    by (auto simp: connection_handler_def report_error_def sc_inv_def split: if_splits)
qed

lemma sc_reachable_inv:
  assumes "(sc_step smax)\<^sup>*\<^sup>* (o0, [], [], []) w" "BSocksClient_Init auths dest True = Some o0"
    "65535 \<le> smax" "addr_wf dest"
  shows "sc_inv auths dest w"
  using assms(1)
proof (induction rule: rtranclp_induct)
  case base
  then show ?case using assms(2) by (auto simp: BSocksClient_Init_def sc_inv_def)
next
  case (step w w')
  then show ?case using sc_step_inv assms(3,4) by blast
qed

section \<open>Whole sessions\<close>

fun sc_recvs :: "nat \<Rightarrow> alloc \<Rightarrow> byte list list \<Rightarrow> BSocksClient \<Rightarrow> BSocksClient \<times> sc_call list" where
  "sc_recvs smax alloc [] o1 = (o1, [])"
| "sc_recvs smax alloc (c # cs) o1 =
     (let (o2, k2) = sc_receive smax alloc c o1; (o3, k3) = sc_recvs smax alloc cs o2 in (o3, k2 @ k3))"

text \<open>A session: a list of replies, each delivered in chunks; pending sends complete in between.\<close>

fun sc_play :: "nat \<Rightarrow> alloc \<Rightarrow> byte list list list \<Rightarrow> BSocksClient \<Rightarrow> BSocksClient \<times> sc_call list" where
  "sc_play smax alloc [] o1 = (o1, [])"
| "sc_play smax alloc (cs # css) o1 =
     (let (o2, k2) = (if is_sending (sc_state o1) then send_handler_done smax alloc o1 else (o1, []));
          (o3, k3) = sc_recvs smax alloc cs o2;
          (o4, k4) = sc_play smax alloc css o3
      in (o4, k2 @ k3 @ k4))"

declare sc_play.simps(2) [simp del]

definition server_replies :: "BSocksClient_auth_info list \<Rightarrow> byte list list \<Rightarrow> bool" where
  "server_replies auths rs \<longleftrightarrow> Auth_None \<in> set auths \<and> rs = [[5, 0]]
     \<or> (\<exists>user pass. password_chosen auths user pass \<and> rs = [[5, 2], [1, 0]])"

definition alloc_total :: "alloc \<Rightarrow> bool" where
  "alloc_total alloc \<longleftrightarrow> (\<forall>n. \<exists>blk. alloc n = Some blk \<and> length blk = n)"

lemma alloc_total_ok: "alloc_total alloc \<Longrightarrow> alloc_ok alloc"
  unfolding alloc_total_def alloc_ok_def by (metis option.inject)

lemma reserve_buffer_total:
  "alloc_total alloc \<Longrightarrow> \<not> is_overflow sz \<Longrightarrow> reserve_buffer alloc o1 sz \<noteq> None"
  unfolding alloc_total_def reserve_buffer_def by (auto split: option.splits dest: spec [of _ "bvalue sz"])

lemma reports_of_append [simp]: "reports_of (xs @ ys) = reports_of xs @ reports_of ys"
  by (induction xs rule: reports_of.induct) simp_all

lemma sc_recvs_complete:
  assumes "recv_window o1 sz d n got" "length got + length (concat cs) = n" "[] \<notin> set cs"
  shows "\<exists>b k. sc_recvs smax alloc cs o1 =
      (let (o2, k2) = recv_complete smax alloc (o1\<lparr>sc_buffer := Some b, sc_recv_len := int n\<rparr>)
       in (o2, k @ k2)) \<and> reports_of k = [] \<and> length b = sz \<and> take n (drop d b) = got @ concat cs"
  using assms
proof (induction cs arbitrary: o1 got)
  case Nil
  then show ?case by (simp add: recv_window_def)
next
  case (Cons c cs)
  show ?case
  proof (cases cs)
    case Nil
    then have "length got + length c = n" using Cons.prems by simp
    from sc_receive_last [OF Cons.prems(1) this, of smax alloc] obtain b where
      "sc_receive smax alloc c o1 = recv_complete smax alloc (o1\<lparr>sc_buffer := Some b, sc_recv_len := int n\<rparr>)"
      "length b = sz" "take n (drop d b) = got @ c" by auto
    with Nil show ?thesis by (intro exI [of _ b] exI [of _ "[]"]) (simp add: split_beta)
  next
    case (Cons c' cs')
    have l: "length got + length c < n"
      using Cons.prems Cons by (cases c') auto
    let ?o = "put_buffer (d + length got) c o1\<lparr>sc_recv_len := int (length (got @ c))\<rparr>"
    note more = sc_receive_more(1) [OF Cons.prems(1) l, of smax alloc] sc_receive_more(2) [OF Cons.prems(1) l]
    from Cons.IH [OF more(2)] Cons.prems obtain b k where
      "sc_recvs smax alloc cs ?o = (let (o2, k2) = recv_complete smax alloc
          (?o\<lparr>sc_buffer := Some b, sc_recv_len := int n\<rparr>) in (o2, k @ k2))"
      "reports_of k = []" "length b = sz" "take n (drop d b) = (got @ c) @ concat cs"
      by auto
    moreover have "?o\<lparr>sc_buffer := Some b, sc_recv_len := int n\<rparr> = o1\<lparr>sc_buffer := Some b, sc_recv_len := int n\<rparr>"
      by (simp add: put_buffer_def)
    ultimately show ?thesis using more(1)
      by (intro exI [of _ b] exI [of _ "do_receive ?o @ k"])
        (simp add: split_beta Let_def do_receive_def)
  qed
qed

text \<open>One reply in each phase, with memory available.\<close>

lemma send_handler_done_total:
  assumes "alloc_total alloc" "65535 \<le> smax" "is_sending (sc_state o1)"
  shows "\<not> failed o1 (send_handler_done smax alloc o1)"
proof -
  have "reserve_buffer alloc o1 (bsize_fromsize 2) \<noteq> None"
    "reserve_buffer alloc o1 (bsize_add smax (bsize_fromsize 4)
      (bsize_max (bsize_fromsize 6) (bsize_fromsize 18))) \<noteq> None"
    using assms(2) by (intro reserve_buffer_total [OF assms(1)],
      simp add: bsize_fromsize_def bsize_add_def bsize_max_def)+
  then show ?thesis using assms(3)
    by (auto simp: failed_def send_handler_done_def start_receive_def do_receive_def is_sending_def Let_def)
qed

lemma auth_finished_total:
  assumes "alloc_total alloc" "65535 \<le> smax"
  shows "\<not> failed o1 (auth_finished smax alloc o1)"
proof -
  have "reserve_buffer alloc o1 (case sc_dest_addr o1 of
        BAddr_IPv4 _ _ \<Rightarrow> bsize_add smax (bsize_fromsize 4) (bsize_fromsize 6)
      | BAddr_IPv6 _ _ \<Rightarrow> bsize_add smax (bsize_fromsize 4) (bsize_fromsize 18)
      | BAddr_None \<Rightarrow> bsize_fromsize 4) \<noteq> None"
    using assms(2) by (intro reserve_buffer_total [OF assms(1)])
      (auto simp: bsize_fromsize_def bsize_add_def split: BAddr.splits)
  then show ?thesis
    by (auto simp: failed_def auth_finished_def Let_def split_beta split: option.splits)
qed

text \<open>The reply \<open>cs\<close> completes in the state \<open>o'\<close>; the session goes on from there.\<close>

definition plays_to :: "nat \<Rightarrow> alloc \<Rightarrow> byte list list \<Rightarrow> BSocksClient \<Rightarrow> sc_call list \<Rightarrow> BSocksClient \<Rightarrow> bool" where
  "plays_to smax alloc cs o1 k o' \<longleftrightarrow> (\<forall>css. sc_play smax alloc (cs # css) o1 =
     (let (o2, k2) = recv_complete smax alloc o'; (o3, k3) = sc_play smax alloc css o2
      in (o3, k @ k2 @ k3)))"

lemma play_phase:
  assumes al: "alloc_total alloc" "65535 \<le> smax" and st: "is_sending (sc_state o1)" and cs: "[] \<notin> set cs"
  defines "n \<equiv> if sc_state o1 = STATE_SENDING_REQUEST then 4 else 2 :: nat"
    and "st \<equiv> if sc_state o1 = STATE_SENDING_REQUEST then STATE_SENT_REQUEST
              else if sc_state o1 = STATE_SENDING_HELLO then STATE_SENT_HELLO else STATE_SENT_PASSWORD"
  assumes len: "length (concat cs) = n"
  shows "\<exists>b k. plays_to smax alloc cs o1 k (o1\<lparr>sc_buffer := Some b, sc_recv_dest := 0,
              sc_recv_len := int n, sc_recv_total := int n, sc_state := st\<rparr>) \<and> reports_of k = []
      \<and> length b = (if sc_state o1 = STATE_SENDING_REQUEST then 22 else 2) \<and> take n b = concat cs"
proof -
  obtain b0 where b0: "length b0 = (if sc_state o1 = STATE_SENDING_REQUEST then 22 else 2)"
    and snd: "send_handler_done smax alloc o1 =
       (o1\<lparr>sc_buffer := Some b0, sc_recv_dest := 0, sc_recv_len := 0, sc_recv_total := int n, sc_state := st\<rparr>,
        [Control_Recv 0 (int n)])"
    using send_handler_done_result [OF alloc_total_ok [OF al(1)] al(2) st] send_handler_done_total [OF al st]
    unfolding n_def st_def by auto
  let ?o = "o1\<lparr>sc_buffer := Some b0, sc_recv_dest := 0, sc_recv_len := 0, sc_recv_total := int n, sc_state := st\<rparr>"
  have "recv_window ?o (if sc_state o1 = STATE_SENDING_REQUEST then 22 else 2) 0 n []"
    using b0 by (auto simp: recv_window_def n_def)
  from sc_recvs_complete [OF this _ cs, of smax alloc] len obtain b k where
    r: "sc_recvs smax alloc cs ?o =
      (let (o2, k2) = recv_complete smax alloc (?o\<lparr>sc_buffer := Some b, sc_recv_len := int n\<rparr>)
       in (o2, k @ k2))" and k: "reports_of k = []"
    "length b = (if sc_state o1 = STATE_SENDING_REQUEST then 22 else 2)" "take n b = concat cs"
    by auto
  have "?o\<lparr>sc_buffer := Some b, sc_recv_len := int n\<rparr> = o1\<lparr>sc_buffer := Some b, sc_recv_dest := 0,
              sc_recv_len := int n, sc_recv_total := int n, sc_state := st\<rparr>"
    by (cases o1) simp
  note r' = r [unfolded this]
  show ?thesis using st snd k
    by (intro exI [of _ b] exI [of _ "Control_Recv 0 (int n) # k"])
      (simp add: plays_to_def sc_play.simps r' split_beta Let_def)
qed

text \<open>From the sent request on, a successful reply header and its address bring the client up.\<close>

lemma recv_complete_rest:
  "sc_state o1 = STATE_RECEIVED_REPLY_HEADER \<Longrightarrow> recv_complete smax alloc o1 =
    (o1\<lparr>sc_buffer := None, sc_state := STATE_UP\<rparr>, [Buffer_Free, Control_Free, Up_Init, Report EVENT_UP])"
  by (simp add: recv_complete_def received_reply_rest_def free_control_io_def init_up_io_def)

lemma play_reply:
  assumes al: "alloc_total alloc" "65535 \<le> smax" and st: "sc_state o1 = STATE_SENDING_REQUEST"
    and cs: "[] \<notin> set cs1" "[] \<notin> set cs2"
    and h: "length (concat cs1) = 4" "concat cs1 ! 0 = 5" "concat cs1 ! 1 = 0"
      "addr_len_of (concat cs1 ! 3) = Some n" "length (concat cs2) = n"
  shows "\<exists>k o2. sc_play smax alloc [cs1, cs2] o1 = (o2, k) \<and> reports_of k = [EVENT_UP] \<and> sc_state o2 = STATE_UP"
proof -
  obtain b k where p: "plays_to smax alloc cs1 o1 k
      (o1\<lparr>sc_buffer := Some b, sc_recv_dest := 0,
              sc_recv_len := 4, sc_recv_total := 4, sc_state := STATE_SENT_REQUEST\<rparr>)" and k: "reports_of k = []" "length b = 22" "take 4 b = concat cs1"
    using play_phase [OF al _ cs(1), of o1] st h(1) by (auto simp: is_sending_def)
  let ?o = "o1\<lparr>sc_buffer := Some b, sc_recv_dest := 0, sc_recv_len := 4, sc_recv_total := 4,
    sc_state := STATE_SENT_REQUEST\<rparr>"
  let ?o2 = "?o\<lparr>sc_recv_dest := 4, sc_recv_len := 0, sc_recv_total := int n,
    sc_state := STATE_RECEIVED_REPLY_HEADER\<rparr>"
  have bs: "b ! 0 = 5" "b ! 1 = 0" "b ! 3 = concat cs1 ! 3"
    using h(2,3) by (simp_all flip: k(3))
  have r: "recv_complete smax alloc ?o = (?o2, [Control_Recv 4 (int n)])"
    using bs h(4) k(2)
    by (auto simp: recv_complete_def received_reply_header_def the_buffer_def byteorder_defs socks_consts
        addr_len_of_def start_receive_def do_receive_def Let_def split: if_splits)
  have n: "0 < n" "n \<le> 18" using h(4) by (auto simp: addr_len_of_def split: if_splits)
  then have "recv_window ?o2 22 4 n []" using k(2) by (simp add: recv_window_def)
  from sc_recvs_complete [OF this _ cs(2), of smax alloc] h(5) obtain b2 k2 where
    "sc_recvs smax alloc cs2 ?o2 =
      (let (o2, k3) = recv_complete smax alloc (?o2\<lparr>sc_buffer := Some b2, sc_recv_len := int n\<rparr>)
       in (o2, k2 @ k3))" "reports_of k2 = []" by auto
  then show ?thesis using p [unfolded plays_to_def, rule_format, of "[cs2]"] k(1) r
    by (auto simp: sc_play.simps(2) [of _ _ cs2] is_sending_def recv_complete_rest Let_def)
qed

lemma received_hello_total:
  assumes al: "alloc_total alloc" "65535 \<le> smax" and b: "the_buffer o1 = [5, m]"
    and m: "m = 0 \<and> Auth_None \<in> set (sc_auth_info o1) \<or> m = 2 \<and> password_chosen (sc_auth_info o1) u p"
  shows "\<not> failed o1 (received_hello smax alloc o1)"
  using m
proof (elim disjE conjE)
  assume m: "m = 0" "Auth_None \<in> set (sc_auth_info o1)"
  then have "find (\<lambda>ai. auth_type ai = 0) (sc_auth_info o1) \<noteq> None"
    by (auto simp: find_None_iff intro!: bexI [of _ Auth_None])
  then obtain a where a: "find (\<lambda>ai. auth_type ai = 0) (sc_auth_info o1) = Some a" by auto
  have "a = Auth_None" using find_auth_cases [OF a] by (cases a) auto
  with a m b have "received_hello smax alloc o1 = auth_finished smax alloc o1"
    by (simp add: received_hello_def byteorder_defs socks_consts Let_def)
  then show ?thesis using auth_finished_total [OF al] by simp
next
  assume m: "m = 2" "password_chosen (sc_auth_info o1) u p"
  have "reserve_buffer alloc o1 (bsize_fromsize (1 + 1 + length u + 1 + length p)) \<noteq> None"
    by (rule reserve_buffer_total [OF al(1)]) (simp add: bsize_fromsize_def)
  then show ?thesis using m b
    by (auto simp: received_hello_def password_chosen_def failed_def byteorder_defs socks_consts Let_def)
qed

definition phase_goes :: "nat \<Rightarrow> alloc \<Rightarrow> byte list list list \<Rightarrow> sc_state \<Rightarrow> BSocksClient \<Rightarrow> bool" where
  "phase_goes smax alloc css st o1 \<longleftrightarrow> (\<exists>k o2. sc_state o2 = st \<and> sc_auth_info o2 = sc_auth_info o1 \<and>
     sc_dest_addr o2 = sc_dest_addr o1 \<and> reports_of k = [] \<and>
     (\<forall>css'. sc_play smax alloc (css @ css') o1 = (let (o3, k3) = sc_play smax alloc css' o2 in (o3, k @ k3))))"

lemma sends_msg_goes:
  assumes p: "plays_to smax alloc cs o1 k o'"
    and k: "reports_of k = []" and o': "sc_auth_info o' = sc_auth_info o1" "sc_dest_addr o' = sc_dest_addr o1"
    and snd: "sends_msg o' st msg (recv_complete smax alloc o')"
  shows "phase_goes smax alloc [cs] st o1"
proof -
  obtain o2 k2 where r: "recv_complete smax alloc o' = (o2, k2)" by fastforce
  with snd o' have "sc_state o2 = st" "sc_auth_info o2 = sc_auth_info o1" "sc_dest_addr o2 = sc_dest_addr o1"
    "reports_of k2 = []" by (auto simp: sends_msg_def)
  then show ?thesis using k p r unfolding phase_goes_def plays_to_def
    by (intro exI [of _ "k @ k2"] exI [of _ o2]) (simp add: split_beta)
qed

lemma play_hello:
  assumes al: "alloc_total alloc" "65535 \<le> smax" and wf: "addr_wf (sc_dest_addr o1)"
    and st: "sc_state o1 = STATE_SENDING_HELLO" and cs: "[] \<notin> set cs" "concat cs = [5, m]"
    and m: "m = 0 \<and> Auth_None \<in> set (sc_auth_info o1) \<or> m = 2 \<and> password_chosen (sc_auth_info o1) u p"
  shows "phase_goes smax alloc [cs] (if m = 0 then STATE_SENDING_REQUEST else STATE_SENDING_PASSWORD) o1"
proof -
  obtain b k where p: "plays_to smax alloc cs o1 k
      (o1\<lparr>sc_buffer := Some b, sc_recv_dest := 0,
              sc_recv_len := 2, sc_recv_total := 2, sc_state := STATE_SENT_HELLO\<rparr>)" and k: "reports_of k = []" "b = [5, m]"
    using play_phase [OF al _ cs(1), of o1] st cs(2) by (auto simp: is_sending_def)
  let ?o = "o1\<lparr>sc_buffer := Some b, sc_recv_dest := 0, sc_recv_len := 2, sc_recv_total := 2,
    sc_state := STATE_SENT_HELLO\<rparr>"
  have b: "the_buffer ?o = [5, m]" using k(2) by (simp add: the_buffer_def)
  have r: "recv_complete smax alloc ?o = received_hello smax alloc ?o" by (simp add: recv_complete_def)
  have "\<exists>msg. sends_msg ?o (if m = 0 then STATE_SENDING_REQUEST else STATE_SENDING_PASSWORD) msg
      (recv_complete smax alloc ?o)"
    using received_hello_result [OF alloc_total_ok [OF al(1)] al(2) _ b]
      received_hello_total [OF al b, of u p] m wf unfolding r by auto
  then show ?thesis using sends_msg_goes [OF p k(1)] by auto
qed

lemma play_password:
  assumes al: "alloc_total alloc" "65535 \<le> smax" and wf: "addr_wf (sc_dest_addr o1)"
    and st: "sc_state o1 = STATE_SENDING_PASSWORD" and cs: "[] \<notin> set cs" "concat cs = [1, 0]"
  shows "phase_goes smax alloc [cs] STATE_SENDING_REQUEST o1"
proof -
  obtain b k where p: "plays_to smax alloc cs o1 k
      (o1\<lparr>sc_buffer := Some b, sc_recv_dest := 0,
              sc_recv_len := 2, sc_recv_total := 2, sc_state := STATE_SENT_PASSWORD\<rparr>)" and k: "reports_of k = []" "b = [1, 0]"
    using play_phase [OF al _ cs(1), of o1] st cs(2) by (auto simp: is_sending_def)
  let ?o = "o1\<lparr>sc_buffer := Some b, sc_recv_dest := 0, sc_recv_len := 2, sc_recv_total := 2,
    sc_state := STATE_SENT_PASSWORD\<rparr>"
  have "recv_complete smax alloc ?o = auth_finished smax alloc ?o"
    using k(2) by (simp add: recv_complete_def received_password_reply_def the_buffer_def)
  then have "sends_msg ?o STATE_SENDING_REQUEST (request_msg (sc_dest_addr ?o)) (recv_complete smax alloc ?o)"
    using auth_finished_result [OF alloc_total_ok [OF al(1)] al(2), of ?o] auth_finished_total [OF al, of ?o] wf
    by simp
  then show ?thesis using sends_msg_goes [OF p k(1)] by auto
qed

lemma phase_goes_trans:
  assumes "phase_goes smax alloc [cs] st o1"
    and "\<And>o2. sc_state o2 = st \<Longrightarrow> sc_auth_info o2 = sc_auth_info o1 \<Longrightarrow> sc_dest_addr o2 = sc_dest_addr o1 \<Longrightarrow>
      phase_goes smax alloc css st' o2"
  shows "phase_goes smax alloc (cs # css) st' o1"
proof -
  obtain k o2 where 2: "sc_state o2 = st" "sc_auth_info o2 = sc_auth_info o1" "sc_dest_addr o2 = sc_dest_addr o1"
    "reports_of k = []" "\<forall>css'. sc_play smax alloc (cs # css') o1 =
      (let (o3, k3) = sc_play smax alloc css' o2 in (o3, k @ k3))"
    using assms(1) by (auto simp: phase_goes_def)
  from assms(2) [OF 2(1-3)] obtain k' o3 where 3: "sc_state o3 = st'" "sc_auth_info o3 = sc_auth_info o2"
    "sc_dest_addr o3 = sc_dest_addr o2" "reports_of k' = []" "\<forall>css'. sc_play smax alloc (css @ css') o2 =
      (let (o4, k4) = sc_play smax alloc css' o3 in (o4, k' @ k4))"
    by (auto simp: phase_goes_def)
  show ?thesis unfolding phase_goes_def
    using 2 3 by (intro exI [of _ "k @ k'"] exI [of _ o3]) (simp add: split_beta)
qed

lemma play_auth:
  assumes al: "alloc_total alloc" "65535 \<le> smax" and wf: "addr_wf (sc_dest_addr o1)"
    and st: "sc_state o1 = STATE_SENDING_HELLO" and cs: "\<forall>cs \<in> set css. [] \<notin> set cs"
    and rs: "server_replies (sc_auth_info o1) (map concat css)"
  shows "phase_goes smax alloc css STATE_SENDING_REQUEST o1"
proof -
  consider (none) cs1 where "css = [cs1]" "concat cs1 = [5, 0]" "Auth_None \<in> set (sc_auth_info o1)"
    | (pw) cs1 cs2 u p where "css = [cs1, cs2]" "concat cs1 = [5, 2]" "concat cs2 = [1, 0]"
      "password_chosen (sc_auth_info o1) u p"
    using rs by (auto simp: server_replies_def map_eq_Cons_conv)
  then show ?thesis
  proof cases
    case none
    then show ?thesis using play_hello [OF al wf st _ none(2)] cs by simp
  next
    case pw
    have 1: "phase_goes smax alloc [cs1] STATE_SENDING_PASSWORD o1"
      using play_hello [OF al wf st _ pw(2)] cs pw by auto
    show ?thesis unfolding pw(1)
      by (rule phase_goes_trans [OF 1]) (use play_password [OF al] wf cs pw in auto)
  qed
qed

section \<open>Resources\<close>

text \<open>
  Which of connection, control I/O and up I/O are initialised; \<open>None\<close> when a call initialises
  something twice, frees something that is not there, or uses the control interfaces without
  having them.
\<close>

fun res_step :: "sc_call \<Rightarrow> bool \<times> bool \<times> bool \<Rightarrow> (bool \<times> bool \<times> bool) option" where
  "res_step Connection_Init (con, ctl, up) = (if con then None else Some (True, ctl, up))"
| "res_step Connection_Free (con, ctl, up) = (if con \<and> \<not> ctl \<and> \<not> up then Some (False, ctl, up) else None)"
| "res_step Control_Init (con, ctl, up) = (if con \<and> \<not> ctl \<and> \<not> up then Some (con, True, up) else None)"
| "res_step Control_Free (con, ctl, up) = (if ctl then Some (con, False, up) else None)"
| "res_step Up_Init (con, ctl, up) = (if con \<and> \<not> ctl \<and> \<not> up then Some (con, ctl, True) else None)"
| "res_step Up_Free (con, ctl, up) = (if up then Some (con, ctl, False) else None)"
| "res_step (Control_Send _) (con, ctl, up) = (if ctl then Some (con, ctl, up) else None)"
| "res_step (Control_Recv _ _) (con, ctl, up) = (if ctl then Some (con, ctl, up) else None)"
| "res_step _ r = Some r"

fun res_run :: "sc_call list \<Rightarrow> bool \<times> bool \<times> bool \<Rightarrow> (bool \<times> bool \<times> bool) option" where
  "res_run [] r = Some r"
| "res_run (c # cs) r = (case res_step c r of None \<Rightarrow> None | Some r' \<Rightarrow> res_run cs r')"

definition res_of :: "BSocksClient \<Rightarrow> bool \<times> bool \<times> bool" where
  "res_of o1 = (sc_state o1 \<noteq> STATE_CONNECTING,
     sc_state o1 \<noteq> STATE_CONNECTING \<and> sc_state o1 \<noteq> STATE_UP, sc_state o1 = STATE_UP)"

lemma put_buffer_fold_state [simp]:
  "sc_state (fold (\<lambda>i x. put_buffer (g i) (h i) x) is o1) = sc_state o1"
  by (induction "is" arbitrary: o1) simp_all

lemma reserve_buffer_state: "reserve_buffer alloc o1 sz = Some o2 \<Longrightarrow> sc_state o2 = sc_state o1"
  by (auto simp: reserve_buffer_def split: if_splits option.splits)

lemma res_auth_finished:
  "sc_state o1 \<noteq> STATE_CONNECTING \<Longrightarrow> sc_state o1 \<noteq> STATE_UP \<Longrightarrow>
    auth_finished smax alloc o1 = (o2, cs) \<Longrightarrow> res_run cs (res_of o1) = Some (res_of o2)"
  by (auto simp: auth_finished_def res_of_def report_error_def Let_def split_beta split: option.splits)

lemma res_recv_complete:
  assumes "is_receiving (sc_state o1)" "recv_complete smax alloc o1 = (o2, cs)"
  shows "res_run cs (res_of o1) = Some (res_of o2)"
proof -
  have st: "sc_state o1 \<noteq> STATE_CONNECTING" "sc_state o1 \<noteq> STATE_UP"
    using assms(1) by (auto simp: is_receiving_def)
  note af = res_auth_finished [OF st, of smax alloc o2 cs]
  show ?thesis
  proof (cases "sc_state o1")
    case STATE_SENT_HELLO
    then show ?thesis using assms(2) af
      by (auto simp: recv_complete_def received_hello_def Let_def report_error_def res_of_def
          split: if_splits option.splits BSocksClient_auth_info.splits)
  next
    case STATE_SENT_PASSWORD
    then show ?thesis using assms(2) af
      by (auto simp: recv_complete_def received_password_reply_def report_error_def res_of_def split: if_splits)
  next
    case STATE_SENT_REQUEST
    then show ?thesis using assms(2)
      by (auto simp: recv_complete_def received_reply_header_def report_error_def res_of_def Let_def
          start_receive_def do_receive_def split: if_splits option.splits)
  next
    case STATE_RECEIVED_REPLY_HEADER
    then show ?thesis using assms(2) by (auto simp: recv_complete_rest res_of_def)
  qed (use assms(1) in \<open>auto simp: is_receiving_def\<close>)
qed

lemma res_of_cong: "sc_state o1 = sc_state o2 \<Longrightarrow> res_of o1 = res_of o2"
  by (simp add: res_of_def)

lemma res_receive:
  assumes "is_receiving (sc_state o1)" "sc_receive smax alloc c o1 = (o2, cs)"
  shows "res_run cs (res_of o1) = Some (res_of o2)"
proof -
  let ?o = "put_buffer (sc_recv_dest o1 + nat (sc_recv_len o1)) c o1"
  let ?o' = "?o\<lparr>sc_recv_len := sc_recv_len ?o + int (length c)\<rparr>"
  have same: "sc_state ?o' = sc_state o1" by simp
  show ?thesis
  proof (cases "sc_recv_len ?o' < sc_recv_total ?o'")
    case True
    then have "o2 = ?o'" "\<exists>a n. cs = [Control_Recv a n]"
      using assms(2) by (auto simp: sc_receive_def recv_handler_done_def do_receive_def Let_def)
    then show ?thesis using assms(1) by (auto simp: res_of_def is_receiving_def)
  next
    case False
    then have "recv_complete smax alloc ?o' = (o2, cs)"
      using assms(2) by (simp add: sc_receive_def recv_handler_done_def Let_def)
    from res_recv_complete [OF _ this] assms(1) show ?thesis
      by (simp add: res_of_cong [OF same])
  qed
qed

lemma res_send:
  assumes "is_sending (sc_state o1)" "send_handler_done smax alloc o1 = (o2, cs)"
  shows "res_run cs (res_of o1) = Some (res_of o2)"
  using assms
  by (auto simp: send_handler_done_def is_sending_def report_error_def res_of_def start_receive_def
      do_receive_def Let_def split: option.splits)

lemma res_connector:
  assumes "sc_state o1 = STATE_CONNECTING" "connector_handler smax alloc con_ok o1 is_error = (o2, cs)"
  shows "res_run cs (res_of o1) = Some (res_of o2)"
  using assms
  by (auto simp: connector_handler_def report_error_def res_of_def init_control_io_def
      free_control_io_def Let_def split: if_splits option.splits)

section \<open>Properties\<close>

text \<open>
  C15: The client reports that it is up only after a complete and correct SOCKS5 handshake: in
  every execution (any chunking of the stream, allocation failures and connection events
  included), when \<^verbatim>\<open>BSOCKSCLIENT_EVENT_UP\<close> was reported, what it has sent is exactly the hello
  with the offered methods, the username/password message if the server chose that method, and
  the CONNECT request for the destination; and what it has consumed of the server's stream is
  exactly a matching method choice, a positive password reply, and a success reply with its
  address, not one byte of the tunnelled data.
\<close>

theorem socks_up_only_after_handshake:
  assumes "BSocksClient_Init auths dest True = Some o0" and "65535 \<le> smax" and "addr_wf dest"
    and "(sc_step smax)\<^sup>*\<^sup>* (o0, [], [], []) (o1, snt, rcvd, reports)" and "EVENT_UP \<in> set reports"
  shows "handshake_done auths dest snt rcvd"
  using sc_reachable_inv [OF assms(4,1-3)] assms(5) by (simp add: sc_inv_def)

text \<open>
  C21: A correct server always gets the client up: with memory available and between one and 255
  methods offered, when the connection succeeds and the server sends a method choice that was
  offered (with an accepted password where it chose that method) and a success reply, cut into
  chunks in any way, the client ends up in \<^verbatim>\<open>STATE_UP\<close> having reported exactly the up event.
\<close>

theorem socks_handshake_completes:
  assumes "alloc_total alloc" and "65535 \<le> smax" and "addr_wf dest"
    and "0 < length auths" and "length auths \<le> 255"
    and "BSocksClient_Init auths dest True = Some o0"
    and "connector_handler smax alloc True o0 False = (o1, k1)"
    and "server_replies auths (map concat css)" and "\<forall>cs \<in> set (css @ [cs1, cs2]). [] \<notin> set cs"
    and "length (concat cs1) = 4" and "concat cs1 ! 0 = 5" and "concat cs1 ! 1 = 0"
    and "addr_len_of (concat cs1 ! 3) = Some (length (concat cs2))"
  shows "\<exists>o2 k2. sc_play smax alloc (css @ [cs1, cs2]) o1 = (o2, k2) \<and> sc_state o2 = STATE_UP
    \<and> reports_of (k1 @ k2) = [EVENT_UP]"
proof -
  note ok = alloc_total_ok [OF assms(1)]
  have o0: "sc_auth_info o0 = auths" "sc_dest_addr o0 = dest" "sc_state o0 = STATE_CONNECTING"
    using assms(6) by (auto simp: BSocksClient_Init_def)
  have "reserve_buffer alloc o0 (bsize_add smax (bsize_fromsize 2)
      (bsize_mul smax (bsize_fromsize (length auths)) (bsize_fromsize 1))) \<noteq> None"
    using assms(2,5) by (intro reserve_buffer_total [OF assms(1)])
      (auto simp: bsize_add_def bsize_mul_def bsize_fromsize_def div_eq_0_iff)
  then have "\<not> failed o0 (o1, k1)"
    using assms(4,5,7) o0
    by (auto simp: connector_handler_def failed_def Let_def init_control_io_def)
  with connector_handler_result [OF ok assms(2), of o0 True False]
  have h: "sends_msg o0 STATE_SENDING_HELLO (hello_msg auths) (o1, k1)" by (simp add: assms(7) o0)
  then have o1: "sc_auth_info o1 = auths" "sc_dest_addr o1 = dest" "sc_state o1 = STATE_SENDING_HELLO"
    "reports_of k1 = []" using o0 by (auto simp: sends_msg_def)
  obtain k o2 where o2: "sc_state o2 = STATE_SENDING_REQUEST" "reports_of k = []"
    "\<forall>css'. sc_play smax alloc (css @ css') o1 = (let (o3, k3) = sc_play smax alloc css' o2 in (o3, k @ k3))"
    using play_auth [OF assms(1,2) _ o1(3), of css] o1 assms(3,8,9) by (auto simp: phase_goes_def)
  show ?thesis
    using play_reply [OF assms(1,2) o2(1) _ _ assms(10-13) refl] assms(9) o2(2,3) o1(4) by auto
qed

definition demo_alloc :: alloc where "demo_alloc n = Some (replicate n 0)"

definition demo_dest :: BAddr where "demo_dest = BAddr_IPv4 0x0808A8C0 0x5000"

lemma demo_alloc_total: "alloc_total demo_alloc"
  by (simp add: alloc_total_def demo_alloc_def)

lemma demo_run:
  "(sc_step 65535)\<^sup>*\<^sup>*
     (\<lparr>sc_auth_info = [Auth_None], sc_dest_addr = demo_dest, sc_state = STATE_CONNECTING,
       sc_buffer = None, sc_recv_dest = 0, sc_recv_len = 0, sc_recv_total = 0\<rparr>, [], [], [])
     (\<lparr>sc_auth_info = [Auth_None], sc_dest_addr = demo_dest, sc_state = STATE_UP,
       sc_buffer = None, sc_recv_dest = 4, sc_recv_len = 6, sc_recv_total = 6\<rparr>,
      [[5, 1, 0], [5, 1, 0, 1, 0xC0, 0xA8, 8, 8, 0, 0x50]], [5, 0, 5, 0, 0, 1, 0, 0, 0, 0, 0, 0], [EVENT_UP])"
proof -
  let ?o = "\<lambda>st b d l t. \<lparr>sc_auth_info = [Auth_None], sc_dest_addr = demo_dest, sc_state = st,
       sc_buffer = b, sc_recv_dest = d, sc_recv_len = l, sc_recv_total = t\<rparr>"
  have ok: "alloc_ok demo_alloc" using alloc_total_ok demo_alloc_total by blast
  note ev = connector_handler_def send_handler_done_def sc_receive_def recv_handler_done_def
    recv_complete_def received_hello_def received_reply_header_def received_reply_rest_def
    auth_finished_def start_receive_def do_receive_def reserve_buffer_def put_buffer_def the_buffer_def
    buf_put_def demo_alloc_def demo_dest_def bsize_add_def bsize_mul_def bsize_max_def
    bsize_fromsize_def socks_consts byteorder_defs init_control_io_def free_control_io_def
    init_up_io_def bytes32_def bytes16_def
  have 1: "connector_handler 65535 demo_alloc True (?o STATE_CONNECTING None 0 0 0) False
    = (?o STATE_SENDING_HELLO (Some [5, 1, 0]) 0 0 0, [Connection_Init, Control_Init, Control_Send [5, 1, 0]])"
    by (simp add: ev)
  have 2: "send_handler_done 65535 demo_alloc (?o STATE_SENDING_HELLO (Some [5, 1, 0]) 0 0 0)
    = (?o STATE_SENT_HELLO (Some [5, 1]) 0 0 2, [Control_Recv 0 2])"
    by (simp add: ev)
  have 3: "sc_receive 65535 demo_alloc [5, 0] (?o STATE_SENT_HELLO (Some [5, 1]) 0 0 2)
    = (?o STATE_SENDING_REQUEST (Some [5, 1, 0, 1, 0xC0, 0xA8, 8, 8, 0, 0x50]) 0 2 2,
       [Control_Send [5, 1, 0, 1, 0xC0, 0xA8, 8, 8, 0, 0x50]])"
    by (simp add: ev)
  have 4: "send_handler_done 65535 demo_alloc
        (?o STATE_SENDING_REQUEST (Some [5, 1, 0, 1, 0xC0, 0xA8, 8, 8, 0, 0x50]) 0 2 2)
    = (?o STATE_SENT_REQUEST (Some ([5, 1, 0, 1, 0xC0, 0xA8, 8, 8, 0, 0x50] @ replicate 12 0)) 0 0 4,
       [Control_Recv 0 4])"
    by (simp add: ev)
  let ?b = "[5, 0, 0, 1, 0xC0, 0xA8, 8, 8, 0, 0x50] @ replicate 12 0"
  have 5: "sc_receive 65535 demo_alloc [5, 0, 0, 1]
        (?o STATE_SENT_REQUEST (Some ([5, 1, 0, 1, 0xC0, 0xA8, 8, 8, 0, 0x50] @ replicate 12 0)) 0 0 4)
    = (?o STATE_RECEIVED_REPLY_HEADER (Some ?b) 4 0 6, [Control_Recv 4 6])"
    by (simp add: ev)
  have 6: "sc_receive 65535 demo_alloc [0, 0, 0, 0, 0, 0] (?o STATE_RECEIVED_REPLY_HEADER (Some ?b) 4 0 6)
    = (?o STATE_UP None 4 6 6, [Buffer_Free, Control_Free, Up_Init, Report EVENT_UP])"
    by (simp add: ev)
  note s1 = sc_step.connect [OF _ ok 1, of "[]" "[]", simplified]
  note s2 = sc_step.sent [OF _ ok 2, of "[[5, 1, 0]]" "[]", simplified is_sending_def, simplified]
  note s3 = sc_step.received [OF _ ok _ _ 3, of "[[5, 1, 0]]" "[]", simplified is_receiving_def, simplified]
  note s4 = sc_step.sent [OF _ ok 4, of "[[5, 1, 0], [5, 1, 0, 1, 0xC0, 0xA8, 8, 8, 0, 0x50]]" "[5, 0]",
      simplified is_sending_def, simplified]
  note s5 = sc_step.received [OF _ ok _ _ 5, of "[[5, 1, 0], [5, 1, 0, 1, 0xC0, 0xA8, 8, 8, 0, 0x50]]" "[5, 0]",
      simplified is_receiving_def, simplified]
  note s6 = sc_step.received [OF _ ok _ _ 6, of "[[5, 1, 0], [5, 1, 0, 1, 0xC0, 0xA8, 8, 8, 0, 0x50]]"
      "[5, 0, 5, 0, 0, 1]", simplified is_receiving_def, simplified]
  show ?thesis
    by (intro converse_rtranclp_into_rtranclp [where r = "sc_step 65535", OF s1]
        converse_rtranclp_into_rtranclp [where r = "sc_step 65535", OF s2]
        converse_rtranclp_into_rtranclp [where r = "sc_step 65535", OF s3]
        converse_rtranclp_into_rtranclp [where r = "sc_step 65535", OF s4]
        converse_rtranclp_into_rtranclp [where r = "sc_step 65535", OF s5]
        converse_rtranclp_into_rtranclp [where r = "sc_step 65535", OF s6]
        rtranclp.rtrancl_refl)
qed

theorem socks_handshake_completes_witness:
  "\<exists>o1 k1 o2 k2. connector_handler 65535 demo_alloc True
     \<lparr>sc_auth_info = [Auth_None], sc_dest_addr = demo_dest, sc_state = STATE_CONNECTING,
      sc_buffer = None, sc_recv_dest = 0, sc_recv_len = 0, sc_recv_total = 0\<rparr> False = (o1, k1)
   \<and> sc_play 65535 demo_alloc ([[[5], [0]]] @ [[[5, 0, 0], [1]], [[0, 0, 0, 0, 0, 0]]]) o1 = (o2, k2)
   \<and> sc_state o2 = STATE_UP"
proof -
  let ?o0 = "\<lparr>sc_auth_info = [Auth_None], sc_dest_addr = demo_dest, sc_state = STATE_CONNECTING,
      sc_buffer = None, sc_recv_dest = 0, sc_recv_len = 0, sc_recv_total = 0\<rparr>"
  obtain o1 k1 where c: "connector_handler 65535 demo_alloc True ?o0 False = (o1, k1)" by fastforce
  have "BSocksClient_Init [Auth_None] demo_dest True = Some ?o0" by (simp add: BSocksClient_Init_def)
  from socks_handshake_completes [OF demo_alloc_total _ _ _ _ this c,
      of "[[[5], [0]]]" "[[5, 0, 0], [1]]" "[[0, 0, 0, 0, 0, 0]]"] c
  show ?thesis by (auto simp: server_replies_def addr_len_of_def addr_wf_def demo_dest_def)
qed

theorem socks_up_only_after_handshake_witness:
  "handshake_done [Auth_None] demo_dest [[5, 1, 0], [5, 1, 0, 1, 0xC0, 0xA8, 8, 8, 0, 0x50]]
     [5, 0, 5, 0, 0, 1, 0, 0, 0, 0, 0, 0]"
  by (rule socks_up_only_after_handshake [OF _ _ _ demo_run])
    (simp_all add: BSocksClient_Init_def addr_wf_def demo_dest_def)

text \<open>
  C22: Connection, control I/O and up I/O are managed without leak, double initialisation or
  double free: every handler's calls take the resources of the old state to those of the new one,
  sending and receiving only while the control I/O exists, and \<^verbatim>\<open>BSocksClient_Free\<close> releases
  exactly what is held in whatever state the client is (with the buffer, exactly when there is one).
\<close>

theorem socks_resources_balanced:
  "(sc_state o1 = STATE_CONNECTING \<longrightarrow>
      (\<forall>o2 cs. connector_handler smax alloc con_ok o1 is_error = (o2, cs) \<longrightarrow>
         res_run cs (res_of o1) = Some (res_of o2)))
   \<and> (is_sending (sc_state o1) \<longrightarrow>
      (\<forall>o2 cs. send_handler_done smax alloc o1 = (o2, cs) \<longrightarrow> res_run cs (res_of o1) = Some (res_of o2)))
   \<and> (is_receiving (sc_state o1) \<longrightarrow>
      (\<forall>o2 cs. sc_receive smax alloc c o1 = (o2, cs) \<longrightarrow> res_run cs (res_of o1) = Some (res_of o2)))
   \<and> res_run (BSocksClient_Free o1) (res_of o1) = Some (False, False, False)
   \<and> count_list (BSocksClient_Free o1) Buffer_Free = (if sc_buffer o1 = None then 0 else 1)"
proof -
  have "res_run (BSocksClient_Free o1) (res_of o1) = Some (False, False, False)"
    "count_list (BSocksClient_Free o1) Buffer_Free = (if sc_buffer o1 = None then 0 else 1)"
    by (auto simp: BSocksClient_Free_def res_of_def free_up_io_def free_control_io_def)
  then show ?thesis using res_connector res_send res_receive by blast
qed

theorem socks_resources_balanced_witness:
  "\<exists>o2 cs. connector_handler 65535 demo_alloc True
      \<lparr>sc_auth_info = [], sc_dest_addr = demo_dest, sc_state = STATE_CONNECTING,
       sc_buffer = None, sc_recv_dest = 0, sc_recv_len = 0, sc_recv_total = 0\<rparr> False = (o2, cs)
    \<and> res_run cs (False, False, False) = Some (False, False, False)"
proof -
  let ?o = "\<lparr>sc_auth_info = [], sc_dest_addr = demo_dest, sc_state = STATE_CONNECTING,
       sc_buffer = None, sc_recv_dest = 0, sc_recv_len = 0, sc_recv_total = 0\<rparr>"
  obtain o2 cs where c: "connector_handler 65535 demo_alloc True ?o False = (o2, cs)" by fastforce
  have "sc_state o2 = STATE_CONNECTING" using c by (auto simp: connector_handler_def Let_def)
  with socks_resources_balanced [of ?o 65535 demo_alloc True False "[]"] c show ?thesis
    by (auto simp: res_of_def)
qed

end
