(* ===== verification/UdpGw_Client.thy ===== *)
theory UdpGw_Client
  imports BAddr Packet_Proto
begin

text \<open>
  The udpgw client: \<^verbatim>\<open>udpgw_client/UdpGwClient.c\<close> with \<^verbatim>\<open>protocol/udpgw_proto.h\<close>. A connection
  object lives at an address of \<open>ug_cons\<close>; the two AVL trees are maps from their keys to object
  addresses (their comparators are total orders that identify keys, see theory \<^verbatim>\<open>BAddr\<close>), and the
  list of connections, least recently used first, is a list of addresses. \<open>malloc\<close> results, the
  success of \<^verbatim>\<open>PacketProtoFlow_Init\<close> and the availability of buffer space are arguments; a packet
  written to the connection's send buffer is the call \<open>UG_Packet\<close>.

  \<open>lru_touch\<close> is the abstract specification of the connection table, and the locale \<open>lru_table\<close>
  the contract its clients use.
\<close>

section \<open>protocol/udpgw\_proto.h\<close>

definition UDPGW_CLIENT_FLAG_KEEPALIVE :: byte where "UDPGW_CLIENT_FLAG_KEEPALIVE = push_bit 0 1"
definition UDPGW_CLIENT_FLAG_REBIND :: byte where "UDPGW_CLIENT_FLAG_REBIND = push_bit 1 1"
definition UDPGW_CLIENT_FLAG_DNS :: byte where "UDPGW_CLIENT_FLAG_DNS = push_bit 2 1"
definition UDPGW_CLIENT_FLAG_IPV6 :: byte where "UDPGW_CLIENT_FLAG_IPV6 = push_bit 3 1"

lemmas udpgw_flags = UDPGW_CLIENT_FLAG_KEEPALIVE_def UDPGW_CLIENT_FLAG_REBIND_def
  UDPGW_CLIENT_FLAG_DNS_def UDPGW_CLIENT_FLAG_IPV6_def

text \<open>On Android the header counts as four bytes (\<^verbatim>\<open>struct socks_udp_header\<close>); \<open>-1\<close> is the error result.\<close>

definition udpgw_compute_mtu :: "nat \<Rightarrow> int \<Rightarrow> int" where
  "udpgw_compute_mtu smax dgram_mtu =
     (let bs = bsize_add smax (bsize_fromsize 4)
                 (bsize_add smax (bsize_max (bsize_fromsize 6) (bsize_fromsize 18))
                    (bsize_fromint smax dgram_mtu))
      in case bsize_toint bs of None \<Rightarrow> -1 | Some s \<Rightarrow> s)"

section \<open>The client\<close>

record UdpGwClient_conaddr =
  ca_local_addr :: BAddr
  ca_remote_addr :: BAddr

record UdpGwClient_connection =
  cn_conaddr :: UdpGwClient_conaddr
  cn_first_flags :: byte
  cn_first_data :: "byte list"
  cn_conid :: u16
  cn_first_pending :: bool

record UdpGwClient =
  ug_udp_mtu :: int
  ug_max_connections :: int
  ug_send_buffer_size :: int
  ug_udpgw_mtu :: int
  ug_pp_mtu :: int
  ug_by_conaddr :: "UdpGwClient_conaddr \<Rightarrow> nat option"
  ug_by_conid :: "u16 \<Rightarrow> nat option"
  ug_list :: "nat list"
  ug_num :: int
  ug_next_conid :: int
  ug_keepalive_packet :: "byte list"
  ug_keepalive_sending :: bool
  ug_have_server :: bool
  ug_cons :: "nat \<Rightarrow> UdpGwClient_connection option"

datatype ug_call =
    UG_Recv_Done
  | UG_Received BAddr BAddr "byte list"
  | UG_Server_Error
  | UG_Keepalive_Send "byte list"
  | UG_Packet nat "byte list"
  | UG_Recv_If_Init | UG_Recv_If_Free | UG_Decoder_Init | UG_Decoder_Free
  | UG_Sender_Init | UG_Sender_Free | UG_Connector_Connect | UG_Connector_Disconnect

definition uint16_comparator :: "u16 \<Rightarrow> u16 \<Rightarrow> int" where
  "uint16_comparator v1 v2 = B_COMPARE v1 v2"

definition conaddr_comparator :: "UdpGwClient_conaddr \<Rightarrow> UdpGwClient_conaddr \<Rightarrow> int" where
  "conaddr_comparator v1 v2 =
     (let r = BAddr_CompareOrder (ca_remote_addr v1) (ca_remote_addr v2)
      in if r \<noteq> 0 then r else BAddr_CompareOrder (ca_local_addr v1) (ca_local_addr v2))"

definition bavl_insert :: "'k \<Rightarrow> nat \<Rightarrow> ('k \<Rightarrow> nat option) \<Rightarrow> 'k \<Rightarrow> nat option" where
  "bavl_insert k v t = (if t k \<noteq> None then t else t(k \<mapsto> v))"

definition free_server :: "ug_call list" where
  "free_server = [UG_Connector_Disconnect, UG_Sender_Free, UG_Decoder_Free, UG_Recv_If_Free]"

definition decoder_handler_error :: "ug_call list" where
  "decoder_handler_error = [UG_Server_Error]"

definition find_connection_by_conaddr :: "UdpGwClient \<Rightarrow> UdpGwClient_conaddr \<Rightarrow> nat option" where
  "find_connection_by_conaddr o1 conaddr = ug_by_conaddr o1 conaddr"

definition find_connection_by_conid :: "UdpGwClient \<Rightarrow> u16 \<Rightarrow> nat option" where
  "find_connection_by_conid o1 conid = ug_by_conid o1 conid"

definition move_to_end :: "nat \<Rightarrow> UdpGwClient \<Rightarrow> UdpGwClient" where
  "move_to_end con o1 = o1\<lparr>ug_list := remove1 con (ug_list o1) @ [con]\<rparr>"

text \<open>The address behind the header: the remote address with the remaining data.\<close>

definition udpgw_parse_addr :: "byte \<Rightarrow> byte list \<Rightarrow> (BAddr \<times> byte list) option" where
  "udpgw_parse_addr flags data =
     (if flags AND UDPGW_CLIENT_FLAG_IPV6 \<noteq> 0
      then if length data < 18 then None
           else Some (BAddr_MakeIPv6 (take 16 data) (word16 (take 2 (drop 16 data))), drop 18 data)
      else if length data < 6 then None
           else Some (BAddr_MakeIPv4 (word32 (take 4 data)) (word16 (take 2 (drop 4 data))), drop 6 data))"

definition recv_interface_handler_send :: "UdpGwClient \<Rightarrow> byte list \<Rightarrow> UdpGwClient \<times> ug_call list" where
  "recv_interface_handler_send o1 data =
     (if length data < 3 then (o1, [UG_Recv_Done])
      else
        let flags = data ! 0; conid = ltoh16 (word16 (take 2 (drop 1 data)))
        in case udpgw_parse_addr flags (drop 3 data) of
             None \<Rightarrow> (o1, [UG_Recv_Done])
           | Some (remote_addr, payload) \<Rightarrow>
               if int (length payload) > ug_udp_mtu o1 then (o1, [UG_Recv_Done])
               else case find_connection_by_conid o1 conid of
                      None \<Rightarrow> (o1, [UG_Recv_Done])
                    | Some con \<Rightarrow>
                        (case ug_cons o1 con of
                           None \<Rightarrow> (o1, [UG_Recv_Done])
                         | Some c \<Rightarrow>
                             if BAddr_CompareOrder (ca_remote_addr (cn_conaddr c)) remote_addr \<noteq> 0
                             then (o1, [UG_Recv_Done])
                             else (move_to_end con o1,
                                   [UG_Recv_Done, UG_Received (ca_local_addr (cn_conaddr c))
                                      (ca_remote_addr (cn_conaddr c)) payload])))"

definition send_monitor_handler :: "UdpGwClient \<Rightarrow> UdpGwClient \<times> ug_call list" where
  "send_monitor_handler o1 =
     (if ug_keepalive_sending o1 then (o1, [])
      else (o1\<lparr>ug_keepalive_sending := True\<rparr>, [UG_Keepalive_Send (ug_keepalive_packet o1)]))"

definition keepalive_if_handler_done :: "UdpGwClient \<Rightarrow> UdpGwClient" where
  "keepalive_if_handler_done o1 = o1\<lparr>ug_keepalive_sending := False\<rparr>"

text \<open>The \<^verbatim>\<open>while (1)\<close> of \<^verbatim>\<open>find_unused_conid\<close>: the value of \<^verbatim>\<open>next_conid\<close> when it returns.\<close>

partial_function (option) find_unused_conid_loop :: "(u16 \<Rightarrow> nat option) \<Rightarrow> int \<Rightarrow> int \<Rightarrow> int option" where
  "find_unused_conid_loop by_conid max_connections next_conid =
     (if by_conid (word_of_int next_conid) = None then Some next_conid
      else find_unused_conid_loop by_conid max_connections
             (if next_conid = max_connections - 1 then 0 else next_conid + 1))"

definition find_unused_conid :: "UdpGwClient \<Rightarrow> (UdpGwClient \<times> u16) option" where
  "find_unused_conid o1 =
     (case find_unused_conid_loop (ug_by_conid o1) (ug_max_connections o1) (ug_next_conid o1) of
        None \<Rightarrow> None
      | Some n \<Rightarrow> Some (o1\<lparr>ug_next_conid := n\<rparr>, word_of_int n))"

definition connection_init ::
    "nat option \<Rightarrow> bool \<Rightarrow> UdpGwClient \<Rightarrow> UdpGwClient_conaddr \<Rightarrow> byte \<Rightarrow> byte list \<Rightarrow> UdpGwClient option" where
  "connection_init malloc ppflow_ok o1 conaddr flags data =
     (case malloc of
        None \<Rightarrow> Some o1
      | Some con \<Rightarrow>
          (case find_unused_conid o1 of
             None \<Rightarrow> None
           | Some (o2, conid) \<Rightarrow>
               let c = \<lparr>cn_conaddr = conaddr, cn_first_flags = flags, cn_first_data = data,
                        cn_conid = conid, cn_first_pending = True\<rparr>
               in if \<not> ppflow_ok then Some o2
                  else Some (o2\<lparr>ug_cons := (ug_cons o2)(con \<mapsto> c),
                               ug_by_conaddr := bavl_insert conaddr con (ug_by_conaddr o2),
                               ug_by_conid := bavl_insert conid con (ug_by_conid o2),
                               ug_list := ug_list o2 @ [con],
                               ug_num := ug_num o2 + 1\<rparr>)))"

definition connection_free :: "nat \<Rightarrow> UdpGwClient \<Rightarrow> UdpGwClient" where
  "connection_free con o1 =
     (case ug_cons o1 con of
        None \<Rightarrow> o1
      | Some c \<Rightarrow>
          o1\<lparr>ug_num := ug_num o1 - 1,
             ug_list := remove1 con (ug_list o1),
             ug_by_conid := (ug_by_conid o1)(cn_conid c := None),
             ug_by_conaddr := (ug_by_conaddr o1)(cn_conaddr c := None),
             ug_cons := (ug_cons o1)(con := None)\<rparr>)"

definition udpgw_addr_bytes :: "BAddr \<Rightarrow> byte list" where
  "udpgw_addr_bytes a =
     (case a of BAddr_IPv4 ip port \<Rightarrow> bytes32 ip @ bytes16 port
              | BAddr_IPv6 ip port \<Rightarrow> ip @ bytes16 port
              | BAddr_None \<Rightarrow> [])"

definition connection_send ::
    "bool \<Rightarrow> nat \<Rightarrow> UdpGwClient_connection \<Rightarrow> byte \<Rightarrow> byte list \<Rightarrow> ug_call list" where
  "connection_send buffer_ok con c flags data =
     (if \<not> buffer_ok then []
      else
        let flags = (case ca_remote_addr (cn_conaddr c) of
                       BAddr_IPv6 _ _ \<Rightarrow> flags OR UDPGW_CLIENT_FLAG_IPV6 | _ \<Rightarrow> flags)
        in [UG_Packet con ([flags] @ bytes16 (ltoh16 (cn_conid c))
                             @ udpgw_addr_bytes (ca_remote_addr (cn_conaddr c)) @ data)])"

definition connection_first_job_handler :: "bool \<Rightarrow> nat \<Rightarrow> UdpGwClient \<Rightarrow> UdpGwClient \<times> ug_call list" where
  "connection_first_job_handler buffer_ok con o1 =
     (case ug_cons o1 con of
        None \<Rightarrow> (o1, [])
      | Some c \<Rightarrow>
          (o1\<lparr>ug_cons := (ug_cons o1)(con \<mapsto> c\<lparr>cn_first_pending := False\<rparr>)\<rparr>,
           connection_send buffer_ok con c (UDPGW_CLIENT_FLAG_REBIND OR cn_first_flags c) (cn_first_data c)))"

definition reuse_connection :: "UdpGwClient \<Rightarrow> UdpGwClient_conaddr \<Rightarrow> UdpGwClient \<times> nat" where
  "reuse_connection o1 conaddr =
     (let con = hd (ug_list o1)
      in case ug_cons o1 con of
           None \<Rightarrow> (o1, con)
         | Some c \<Rightarrow>
             (o1\<lparr>ug_by_conaddr := bavl_insert conaddr con ((ug_by_conaddr o1)(cn_conaddr c := None)),
                 ug_cons := (ug_cons o1)(con \<mapsto> c\<lparr>cn_conaddr := conaddr\<rparr>)\<rparr>, con))"

definition UdpGwClient_Init :: "nat \<Rightarrow> int \<Rightarrow> int \<Rightarrow> int \<Rightarrow> bool \<Rightarrow> UdpGwClient option" where
  "UdpGwClient_Init smax udp_mtu max_connections send_buffer_size queue_ok =
     (let maxc = (if max_connections > UINT16_MAX + 1 then UINT16_MAX + 1 else max_connections);
          udpgw_mtu = udpgw_compute_mtu smax udp_mtu
      in if \<not> queue_ok then None
         else Some \<lparr>ug_udp_mtu = udp_mtu, ug_max_connections = maxc, ug_send_buffer_size = send_buffer_size,
               ug_udpgw_mtu = udpgw_mtu, ug_pp_mtu = udpgw_mtu + sizeof_packetproto_header,
               ug_by_conaddr = (\<lambda>_. None), ug_by_conid = (\<lambda>_. None), ug_list = [], ug_num = 0,
               ug_next_conid = 0,
               ug_keepalive_packet = bytes16 3 @ [UDPGW_CLIENT_FLAG_KEEPALIVE] @ bytes16 0,
               ug_keepalive_sending = False, ug_have_server = False, ug_cons = (\<lambda>_. None)\<rparr>)"

text \<open>The loop of \<^verbatim>\<open>UdpGwClient_Free\<close> over the connections list.\<close>

function free_connections_loop :: "UdpGwClient \<Rightarrow> UdpGwClient" where
  "free_connections_loop o1 =
     (case ug_list o1 of
        [] \<Rightarrow> o1
      | con # _ \<Rightarrow> if ug_cons o1 con = None then o1 else free_connections_loop (connection_free con o1))"
  by auto
termination
  by (relation "measure (\<lambda>o1. length (ug_list o1))") (auto simp: connection_free_def)

declare free_connections_loop.simps [simp del]

definition UdpGwClient_Free :: "UdpGwClient \<Rightarrow> UdpGwClient \<times> ug_call list" where
  "UdpGwClient_Free o1 =
     (let o2 = free_connections_loop o1 in (o2, if ug_have_server o2 then free_server else []))"

definition UdpGwClient_SubmitPacket ::
    "nat option \<Rightarrow> bool \<Rightarrow> bool \<Rightarrow> UdpGwClient \<Rightarrow> BAddr \<Rightarrow> BAddr \<Rightarrow> bool \<Rightarrow> byte list \<Rightarrow>
     (UdpGwClient \<times> ug_call list) option" where
  "UdpGwClient_SubmitPacket malloc ppflow_ok buffer_ok o1 local_addr remote_addr is_dns data =
     (let conaddr = \<lparr>ca_local_addr = local_addr, ca_remote_addr = remote_addr\<rparr>;
          con = find_connection_by_conaddr o1 conaddr;
          flags = (if is_dns then 0 OR UDPGW_CLIENT_FLAG_DNS else 0);
          (o2, con, flags) =
            (if con = None \<and> ug_num o1 = ug_max_connections o1
             then let (o2, c) = reuse_connection o1 conaddr in (o2, Some c, flags OR UDPGW_CLIENT_FLAG_REBIND)
             else (o1, con, flags))
      in case con of
           None \<Rightarrow> (case connection_init malloc ppflow_ok o2 conaddr flags data of
                      None \<Rightarrow> None | Some o3 \<Rightarrow> Some (o3, []))
         | Some c \<Rightarrow>
             let o3 = move_to_end c o2
             in Some (o3, case ug_cons o3 c of
                            None \<Rightarrow> [] | Some cc \<Rightarrow> connection_send buffer_ok c cc flags data))"

definition UdpGwClient_ConnectServer :: "bool \<Rightarrow> UdpGwClient \<Rightarrow> bool \<times> UdpGwClient \<times> ug_call list" where
  "UdpGwClient_ConnectServer decoder_ok o1 =
     (if \<not> decoder_ok then (False, o1, [UG_Recv_If_Init, UG_Recv_If_Free])
      else (True, o1\<lparr>ug_have_server := True\<rparr>,
            [UG_Recv_If_Init, UG_Decoder_Init, UG_Sender_Init, UG_Connector_Connect]))"

definition UdpGwClient_DisconnectServer :: "UdpGwClient \<Rightarrow> UdpGwClient \<times> ug_call list" where
  "UdpGwClient_DisconnectServer o1 = (o1\<lparr>ug_have_server := False\<rparr>, free_server)"

section \<open>The connection table\<close>

definition ug_inv :: "UdpGwClient \<Rightarrow> bool" where
  "ug_inv o1 \<longleftrightarrow> 1 \<le> ug_max_connections o1 \<and> ug_max_connections o1 \<le> 65536
     \<and> 0 \<le> ug_next_conid o1 \<and> ug_next_conid o1 < ug_max_connections o1
     \<and> distinct (ug_list o1) \<and> set (ug_list o1) = dom (ug_cons o1)
     \<and> ug_num o1 = int (length (ug_list o1)) \<and> ug_num o1 \<le> ug_max_connections o1
     \<and> (\<forall>k con. ug_by_conid o1 k = Some con \<longleftrightarrow> (\<exists>c. ug_cons o1 con = Some c \<and> cn_conid c = k))
     \<and> (\<forall>k con. ug_by_conaddr o1 k = Some con \<longleftrightarrow> (\<exists>c. ug_cons o1 con = Some c \<and> cn_conaddr c = k))
     \<and> (\<forall>con c. ug_cons o1 con = Some c \<longrightarrow> uint (cn_conid c) < ug_max_connections o1)"

lemma find_unused_conid_loop_returns:
  assumes "0 \<le> m" "m < maxc" "by_conid (word_of_int m) = None" "0 \<le> n" "n < maxc"
  shows "\<exists>k. find_unused_conid_loop by_conid maxc n = Some k \<and> 0 \<le> k \<and> k < maxc
    \<and> by_conid (word_of_int k) = None"
  using assms(4,5)
proof (induction "nat (if n \<le> m then m - n else m - n + maxc)" arbitrary: n rule: less_induct)
  case less
  show ?case
  proof (cases "by_conid (word_of_int n) = None")
    case True
    then show ?thesis using less.prems by (subst find_unused_conid_loop.simps) simp
  next
    case False
    then have nm: "n \<noteq> m" using assms(3) by auto
    let ?n = "if n = maxc - 1 then 0 else n + 1"
    have "find_unused_conid_loop by_conid maxc n = find_unused_conid_loop by_conid maxc ?n"
      by (subst find_unused_conid_loop.simps) (simp only: False if_False)
    moreover have "0 \<le> ?n" "?n < maxc" using less.prems assms(1,2) by auto
    moreover have "nat (if ?n \<le> m then m - ?n else m - ?n + maxc) < nat (if n \<le> m then m - n else m - n + maxc)"
      using nm less.prems assms(1,2) by auto
    ultimately show ?thesis using less.hyps by metis
  qed
qed

lemma unused_conid_exists:
  assumes inv: "ug_inv o1" and lt: "ug_num o1 < ug_max_connections o1"
  shows "\<exists>m. 0 \<le> m \<and> m < ug_max_connections o1 \<and> ug_by_conid o1 (word_of_int m) = None"
proof (rule ccontr)
  assume neg: "\<not> ?thesis"
  have all: "ug_by_conid o1 (word_of_int m) \<noteq> None" if "0 \<le> m" "m < ug_max_connections o1" for m
    using neg that by (metis (no_types))
  let ?M = "ug_max_connections o1"
  have "{0..<?M} \<subseteq> (\<lambda>con. uint (cn_conid (the (ug_cons o1 con)))) ` set (ug_list o1)"
  proof
    fix m assume m: "m \<in> {0..<?M}"
    then obtain con where "ug_by_conid o1 (word_of_int m) = Some con" using all [of m] by auto
    then obtain c where c: "ug_cons o1 con = Some c" "cn_conid c = word_of_int m"
      using inv by (auto simp: ug_inv_def)
    have "m \<le> 65535" using m inv by (simp add: ug_inv_def)
    then have "uint (cn_conid c) = m" using m c(2) by (simp add: uint_word_of_int)
    moreover have "con \<in> set (ug_list o1)" using c inv by (auto simp: ug_inv_def)
    ultimately show "m \<in> (\<lambda>con. uint (cn_conid (the (ug_cons o1 con)))) ` set (ug_list o1)"
      using c(1) by force
  qed
  then have "card {0..<?M} \<le> card (set (ug_list o1))"
    by (meson List.finite_set card_image_le card_mono finite_imageI le_trans)
  also have "\<dots> \<le> length (ug_list o1)" by (rule card_length)
  finally show False using lt inv by (simp add: ug_inv_def)
qed

lemma find_unused_conid_returns:
  assumes inv: "ug_inv o1" and lt: "ug_num o1 < ug_max_connections o1"
  shows "\<exists>n. find_unused_conid o1 = Some (o1\<lparr>ug_next_conid := n\<rparr>, word_of_int n)
    \<and> 0 \<le> n \<and> n < ug_max_connections o1 \<and> ug_by_conid o1 (word_of_int n) = None"
proof -
  obtain m where "0 \<le> m" "m < ug_max_connections o1" "ug_by_conid o1 (word_of_int m) = None"
    using unused_conid_exists [OF assms] by blast
  from find_unused_conid_loop_returns [where by_conid = "ug_by_conid o1", OF this, of "ug_next_conid o1"] inv
  show ?thesis by (auto simp: ug_inv_def find_unused_conid_def)
qed

lemma ug_inv_lookup:
  assumes "ug_inv o1" "ug_cons o1 con = Some c"
  shows "ug_by_conid o1 (cn_conid c) = Some con" "ug_by_conaddr o1 (cn_conaddr c) = Some con"
    "con \<in> set (ug_list o1)"
  using assms by (auto simp: ug_inv_def)

lemma ug_inv_dom: "ug_inv o1 \<Longrightarrow> con \<in> set (ug_list o1) \<Longrightarrow> \<exists>c. ug_cons o1 con = Some c"
  unfolding ug_inv_def by blast

lemma ug_inv_found:
  assumes "ug_inv o1"
  shows "ug_by_conid o1 k = Some con \<Longrightarrow> \<exists>c. ug_cons o1 con = Some c \<and> cn_conid c = k"
    and "ug_by_conaddr o1 a = Some con \<Longrightarrow> \<exists>c. ug_cons o1 con = Some c \<and> cn_conaddr c = a"
  using assms by (auto simp: ug_inv_def)

lemma ug_inv_Init:
  assumes "UdpGwClient_Init smax udp_mtu maxc sbs True = Some o1" "0 < maxc"
  shows "ug_inv o1"
  using assms by (auto simp: UdpGwClient_Init_def Let_def ug_inv_def)

lemma ug_inv_move_to_end:
  assumes "ug_inv o1" "con \<in> set (ug_list o1)"
  shows "ug_inv (move_to_end con o1)"
  using assms length_move_last [OF assms(2)]
  by (auto simp: ug_inv_def move_to_end_def)

lemma connection_init_inv:
  assumes inv: "ug_inv o1" and lt: "ug_num o1 < ug_max_connections o1"
    and fresh: "\<forall>con. malloc = Some con \<longrightarrow> ug_cons o1 con = None"
    and new: "ug_by_conaddr o1 conaddr = None"
  shows "\<exists>o2. connection_init malloc ok o1 conaddr flags data = Some o2 \<and> ug_inv o2
    \<and> (malloc = None \<or> \<not> ok \<longrightarrow> ug_cons o2 = ug_cons o1 \<and> ug_list o2 = ug_list o1)
    \<and> (ok \<longrightarrow> (\<forall>con. malloc = Some con \<longrightarrow> (\<exists>conid. ug_list o2 = ug_list o1 @ [con]
          \<and> (\<forall>k. ug_by_conid o1 conid \<noteq> Some k)
          \<and> ug_cons o2 = (ug_cons o1)(con \<mapsto> \<lparr>cn_conaddr = conaddr, cn_first_flags = flags,
               cn_first_data = data, cn_conid = conid, cn_first_pending = True\<rparr>))))"
proof (cases malloc)
  case None
  then show ?thesis using inv by (simp add: connection_init_def)
next
  case (Some con)
  obtain n where f: "find_unused_conid o1 = Some (o1\<lparr>ug_next_conid := n\<rparr>, word_of_int n)"
    and n: "0 \<le> n" "n < ug_max_connections o1" and u: "ug_by_conid o1 (word_of_int n) = None"
    using find_unused_conid_returns [OF inv lt] by blast
  have un: "uint (word_of_int n :: u16) = n" using n inv by (simp add: ug_inv_def uint_word_of_int)
  have c0: "ug_cons o1 con = None" using fresh Some by simp
  show ?thesis
  proof (cases ok)
    case False
    then show ?thesis using Some f n inv by (simp add: connection_init_def ug_inv_def)
  next
    case True
    let ?o = "o1\<lparr>ug_next_conid := n,
       ug_cons := (ug_cons o1)(con \<mapsto> \<lparr>cn_conaddr = conaddr, cn_first_flags = flags,
               cn_first_data = data, cn_conid = word_of_int n, cn_first_pending = True\<rparr>),
       ug_by_conaddr := (ug_by_conaddr o1)(conaddr \<mapsto> con),
       ug_by_conid := (ug_by_conid o1)(word_of_int n \<mapsto> con),
       ug_list := ug_list o1 @ [con], ug_num := ug_num o1 + 1\<rparr>"
    have eq: "connection_init malloc ok o1 conaddr flags data = Some ?o"
      using Some True f u new by (simp add: connection_init_def bavl_insert_def)
    have "con \<notin> set (ug_list o1)" using c0 inv by (auto simp: ug_inv_def)
    moreover have "cn_conid c \<noteq> word_of_int n" "cn_conaddr c \<noteq> conaddr" if "ug_cons o1 k = Some c" for k c
      using ug_inv_lookup [OF inv that] u new by auto
    ultimately have "ug_inv ?o"
      using inv lt n un c0 unfolding ug_inv_def by auto
    with eq True Some u show ?thesis by auto
  qed
qed

lemma reuse_connection_inv:
  assumes inv: "ug_inv o1" and ne: "ug_list o1 \<noteq> []" and new: "ug_by_conaddr o1 conaddr = None"
  shows "\<exists>c. ug_cons o1 (hd (ug_list o1)) = Some c \<and>
    reuse_connection o1 conaddr =
      (o1\<lparr>ug_by_conaddr := (ug_by_conaddr o1)(cn_conaddr c := None, conaddr \<mapsto> hd (ug_list o1)),
          ug_cons := (ug_cons o1)(hd (ug_list o1) \<mapsto> c\<lparr>cn_conaddr := conaddr\<rparr>)\<rparr>, hd (ug_list o1))
    \<and> ug_inv (fst (reuse_connection o1 conaddr))"
proof -
  let ?k = "hd (ug_list o1)"
  have "?k \<in> dom (ug_cons o1)" using inv ne by (auto simp: ug_inv_def)
  then obtain c where c: "ug_cons o1 ?k = Some c" by auto
  have new': "cn_conaddr c' \<noteq> conaddr" if "ug_cons o1 k = Some c'" for k c'
    using ug_inv_lookup(2) [OF inv that] new by auto
  have other: "cn_conaddr c' \<noteq> cn_conaddr c" if "ug_cons o1 k = Some c'" "k \<noteq> ?k" for k c'
    using ug_inv_lookup(2) [OF inv that(1)] ug_inv_lookup(2) [OF inv c] that(2) by auto
  let ?o = "o1\<lparr>ug_by_conaddr := (ug_by_conaddr o1)(cn_conaddr c := None, conaddr \<mapsto> ?k),
          ug_cons := (ug_cons o1)(?k \<mapsto> c\<lparr>cn_conaddr := conaddr\<rparr>)\<rparr>"
  have eq: "reuse_connection o1 conaddr = (?o, ?k)"
    using c new by (simp add: reuse_connection_def bavl_insert_def Let_def)
  have "ug_inv ?o" unfolding ug_inv_def
  proof (intro conjI allI impI)
    fix a con
    show "ug_by_conaddr ?o a = Some con \<longleftrightarrow> (\<exists>c'. ug_cons ?o con = Some c' \<and> cn_conaddr c' = a)"
      using ug_inv_found(2) [OF inv, of a con] ug_inv_lookup(2) [OF inv, of con] new' other c
      by (auto split: if_splits)
    show "ug_by_conid ?o k = Some con \<longleftrightarrow> (\<exists>c'. ug_cons ?o con = Some c' \<and> cn_conid c' = k)" for k
      using inv c by (auto simp: ug_inv_def)
  qed (use inv c ne in \<open>auto simp: ug_inv_def split: if_splits\<close>)
  with c eq show ?thesis by auto
qed

section \<open>The table as a least-recently-used cache\<close>

definition lru_touch :: "nat \<Rightarrow> 'v \<Rightarrow> 'k \<Rightarrow> ('k \<times> 'v) list \<Rightarrow> ('k \<times> 'v) list" where
  "lru_touch maxn v k xs =
     (case map_of xs k of
        Some w \<Rightarrow> filter (\<lambda>e. fst e \<noteq> k) xs @ [(k, w)]
      | None \<Rightarrow> if length xs < maxn then xs @ [(k, v)] else tl xs @ [(k, snd (hd xs))])"

inductive touches :: "('k \<Rightarrow> 's \<Rightarrow> 's \<Rightarrow> bool) \<Rightarrow> 's \<Rightarrow> 'k list \<Rightarrow> 's \<Rightarrow> bool" for touch where
  touches_Nil: "touches touch s [] s"
| touches_snoc: "touches touch s ks s' \<Longrightarrow> touch k s' s'' \<Longrightarrow> touches touch s (ks @ [k]) s''"

locale lru_table =
  fixes inv :: "'s \<Rightarrow> bool" and tbl :: "'s \<Rightarrow> ('k \<times> 'v) list" and maxn :: nat
    and touch :: "'k \<Rightarrow> 's \<Rightarrow> 's \<Rightarrow> bool"
  assumes touch_inv: "inv s \<Longrightarrow> touch k s s' \<Longrightarrow> inv s'"
    and touch_tbl: "inv s \<Longrightarrow> touch k s s' \<Longrightarrow>
          \<exists>v. (map_of (tbl s) k = None \<and> length (tbl s) < maxn \<longrightarrow> v \<notin> snd ` set (tbl s))
            \<and> tbl s' = lru_touch maxn v k (tbl s)"
    and tbl_distinct: "inv s \<Longrightarrow> distinct (map fst (tbl s))"
    and maxn_pos: "0 < maxn"
begin

lemma touches_inv: "touches touch s ks s' \<Longrightarrow> inv s \<Longrightarrow> inv s'"
  by (induction rule: touches.induct) (auto intro: touch_inv)

text \<open>The keys behind \<open>k\<close> are the ones used since: \<open>k\<close> keeps its value while they are few.\<close>

definition kept :: "'k \<Rightarrow> 'v \<Rightarrow> 'k set \<Rightarrow> ('k \<times> 'v) list \<Rightarrow> bool" where
  "kept k v K xs \<longleftrightarrow> (\<exists>pre post. xs = pre @ (k, v) # post \<and> fst ` set post \<subseteq> K)"

lemma keptI: "xs = pre @ (k, v) # post \<Longrightarrow> fst ` set post \<subseteq> K \<Longrightarrow> kept k v K xs"
  by (auto simp: kept_def)

lemma kept_filter:
  assumes "kept k v K xs" "k' \<noteq> k"
  shows "kept k v (insert k' K) (filter (\<lambda>e. fst e \<noteq> k') xs @ [(k', w)])"
proof -
  obtain pre post where "xs = pre @ (k, v) # post" "fst ` set post \<subseteq> K"
    using assms(1) by (auto simp: kept_def)
  with assms(2) show ?thesis
    by (intro keptI [of _ "filter (\<lambda>e. fst e \<noteq> k') pre" k v "filter (\<lambda>e. fst e \<noteq> k') post @ [(k', w)]"]) auto
qed

lemma kept_tl:
  assumes "kept k v K xs" "distinct (map fst xs)" "k' \<notin> fst ` set xs" "\<not> length xs < maxn"
    "card (insert k' (insert k K)) \<le> maxn" "k' \<noteq> k" "finite K"
  shows "kept k v (insert k' K) (tl xs @ [(k', w)])"
proof -
  obtain pre post where xs: "xs = pre @ (k, v) # post" "fst ` set post \<subseteq> K"
    using assms(1) by (auto simp: kept_def)
  show ?thesis
  proof (cases pre)
    case (Cons p ps)
    with xs show ?thesis by (intro keptI [of _ ps k v "post @ [(k', w)]"]) auto
  next
    case Nil
    then have d: "distinct (map fst post)" "k \<notin> fst ` set post" "k' \<notin> fst ` set post"
      using xs assms(2,3) by auto
    have "Suc (Suc (length post)) = card (insert k' (insert k (fst ` set post)))"
      using d assms(6) by (simp add: card_image distinct_map distinct_card image_iff)
    also have "\<dots> \<le> card (insert k' (insert k K))"
      using xs(2) assms(7) by (intro card_mono) auto
    finally show ?thesis using assms(4,5) Nil xs(1) by simp
  qed
qed

lemma kept_touch:
  assumes s: "inv s" "touch k' s s'" and k: "kept k v K (tbl s)" and K: "finite K"
    and c: "card (insert k' (insert k K)) \<le> maxn"
  shows "kept k v (if k' = k then {} else insert k' K) (tbl s') \<and> map_of (tbl s') k = Some v"
proof -
  obtain w where w: "tbl s' = lru_touch maxn w k' (tbl s)" using touch_tbl [OF s] by blast
  note d = tbl_distinct [OF s(1)] tbl_distinct [OF touch_inv [OF s]]
  have in_s: "map_of (tbl s) k = Some v" using k d(1) by (auto simp: kept_def)
  have keep: "kept k v (if k' = k then {} else insert k' K) (tbl s')"
  proof (cases "k' = k")
    case True
    then show ?thesis using in_s by (intro keptI [of _ "filter (\<lambda>e. fst e \<noteq> k') (tbl s)" k v "[]"])
        (simp_all add: w lru_touch_def)
  next
    case neq: False
    show ?thesis
    proof (cases "map_of (tbl s) k'")
      case (Some u)
      then show ?thesis using neq kept_filter [OF k neq] by (simp add: w lru_touch_def)
    next
      case None
      then have nk: "k' \<notin> fst ` set (tbl s)" by (simp add: map_of_eq_None_iff)
      show ?thesis
      proof (cases "length (tbl s) < maxn")
        case True
        obtain pre post where "tbl s = pre @ (k, v) # post" "fst ` set post \<subseteq> K"
          using k by (auto simp: kept_def)
        moreover have "tbl s' = tbl s @ [(k', w)]" using None True by (simp add: w lru_touch_def)
        ultimately show ?thesis using neq by (intro keptI [of _ pre k v "post @ [(k', w)]"]) auto
      next
        case False
        then show ?thesis using None neq kept_tl [OF k d(1) nk False c neq K]
          by (simp add: w lru_touch_def)
      qed
    qed
  qed
  then have "(k, v) \<in> set (tbl s')" by (auto simp: kept_def)
  with keep d(2) show ?thesis by simp
qed

lemma recently_used_kept:
  assumes "touches touch s ks s'" "inv s" "map_of (tbl s) k = Some v" "last (tbl s) = (k, v)" "tbl s \<noteq> []"
    and "card (insert k (set ks)) \<le> maxn"
  shows "map_of (tbl s') k = Some v"
proof -
  have "(\<exists>K. K \<subseteq> set ks \<and> kept k v K (tbl s')) \<and> map_of (tbl s') k = Some v"
    using assms
  proof (induction rule: touches.induct)
    case (touches_Nil s)
    then have "tbl s = butlast (tbl s) @ [(k, v)]" by (metis append_butlast_last_id)
    then have "kept k v {} (tbl s)" by (intro keptI [of _ "butlast (tbl s)" k v "[]"]) auto
    with touches_Nil show ?case by auto
  next
    case (touches_snoc s ks s' k' s'')
    have c: "card (insert k' (insert k (set ks))) \<le> maxn"
      using touches_snoc.prems by (simp add: insert_commute)
    moreover have "card (insert k (set ks)) \<le> card (insert k' (insert k (set ks)))"
      by (rule card_mono) auto
    ultimately obtain K where K: "K \<subseteq> set ks" "kept k v K (tbl s')"
      using touches_snoc by auto
    have "card (insert k' (insert k K)) \<le> card (insert k' (insert k (set ks)))"
      using K(1) by (intro card_mono) auto
    with c have "card (insert k' (insert k K)) \<le> maxn" by simp
    from kept_touch [OF touches_inv [OF touches_snoc(1)] touches_snoc(2) K(2) _ this]
    have "kept k v (if k' = k then {} else insert k' K) (tbl s'') \<and> map_of (tbl s'') k = Some v"
      using touches_snoc.prems K(1) finite_subset by blast
    moreover have "(if k' = k then {} else insert k' K) \<subseteq> set (ks @ [k'])" using K(1) by auto
    ultimately show ?case by blast
  qed
  then show ?thesis by blast
qed

lemma used_kept:
  assumes "inv s0" "touch k s0 s" "map_of (tbl s) k = Some v" "touches touch s ks s'"
    and "card (insert k (set ks)) \<le> maxn"
  shows "map_of (tbl s') k = Some v \<and> inv s'"
proof -
  obtain w where i: "inv s" and t: "tbl s = lru_touch maxn w k (tbl s0)"
    using touch_inv touch_tbl assms(1,2) by blast
  have l: "tbl s \<noteq> []" "fst (last (tbl s)) = k"
    unfolding t lru_touch_def by (auto split: option.splits)
  then have "last (tbl s) \<in> set (tbl s)" by simp
  then have "map_of (tbl s) k = Some (snd (last (tbl s)))"
    using tbl_distinct [OF i] l(2) by (metis map_of_eq_Some_iff prod.collapse)
  then have "last (tbl s) = (k, v)" using assms(3) l(2) by (metis option.inject prod.collapse)
  from recently_used_kept [OF assms(4) i assms(3) this l(1) assms(5)] touches_inv [OF assms(4) i]
  show ?thesis by simp
qed

end

text \<open>The client's table: address pair and connection id, least recently used first.\<close>

definition ug_entry :: "UdpGwClient \<Rightarrow> nat \<Rightarrow> UdpGwClient_conaddr \<times> u16" where
  "ug_entry o1 con = (cn_conaddr (the (ug_cons o1 con)), cn_conid (the (ug_cons o1 con)))"

definition ug_table :: "UdpGwClient \<Rightarrow> (UdpGwClient_conaddr \<times> u16) list" where
  "ug_table o1 = map (ug_entry o1) (ug_list o1)"

lemma ug_entry_inj:
  assumes inv: "ug_inv o1" and x: "x \<in> set (ug_list o1)" "y \<in> set (ug_list o1)"
  shows "fst (ug_entry o1 x) = fst (ug_entry o1 y) \<longleftrightarrow> x = y" "snd (ug_entry o1 x) = snd (ug_entry o1 y) \<longleftrightarrow> x = y"
proof -
  obtain c d where cd: "ug_cons o1 x = Some c" "ug_cons o1 y = Some d"
    using inv x unfolding ug_inv_def by blast
  show "fst (ug_entry o1 x) = fst (ug_entry o1 y) \<longleftrightarrow> x = y" "snd (ug_entry o1 x) = snd (ug_entry o1 y) \<longleftrightarrow> x = y"
    using ug_inv_lookup [OF inv cd(1)] ug_inv_lookup [OF inv cd(2)] cd by (auto simp: ug_entry_def)
qed

lemma ug_table_distinct:
  assumes "ug_inv o1"
  shows "distinct (map fst (ug_table o1))" "distinct (map snd (ug_table o1))"
proof -
  have "distinct (ug_list o1)" using assms by (simp add: ug_inv_def)
  then show "distinct (map fst (ug_table o1))" "distinct (map snd (ug_table o1))"
    using ug_entry_inj [OF assms] by (auto simp: ug_table_def distinct_map inj_on_def comp_def)
qed

lemma ug_table_lookup:
  assumes inv: "ug_inv o1"
  shows "ug_by_conaddr o1 a = Some con \<Longrightarrow> map_of (ug_table o1) a = Some (cn_conid (the (ug_cons o1 con)))"
    and "ug_by_conaddr o1 a = None \<Longrightarrow> map_of (ug_table o1) a = None"
proof -
  assume "ug_by_conaddr o1 a = Some con"
  then obtain c where c: "ug_cons o1 con = Some c" "cn_conaddr c = a" using ug_inv_found(2) [OF inv] by blast
  then have "(a, cn_conid (the (ug_cons o1 con))) \<in> set (ug_table o1)"
    using ug_inv_lookup(3) [OF inv c(1)] by (force simp: ug_table_def ug_entry_def)
  then show "map_of (ug_table o1) a = Some (cn_conid (the (ug_cons o1 con)))"
    using ug_table_distinct(1) [OF inv] by simp
next
  assume none: "ug_by_conaddr o1 a = None"
  have "fst (ug_entry o1 x) \<noteq> a" if "x \<in> set (ug_list o1)" for x
  proof -
    obtain c where c: "ug_cons o1 x = Some c" using inv \<open>x \<in> _\<close> unfolding ug_inv_def by blast
    with ug_inv_lookup(2) [OF inv c] none show ?thesis by (auto simp: ug_entry_def)
  qed
  then have "a \<notin> (\<lambda>x. fst (ug_entry o1 x)) ` set (ug_list o1)" by blast
  then show "map_of (ug_table o1) a = None"
    by (simp add: ug_table_def map_of_eq_None_iff image_image)
qed

lemma ug_table_con:
  assumes "ug_inv o1" "map_of (ug_table o1) a = Some conid"
  shows "\<exists>con c. ug_cons o1 con = Some c \<and> cn_conaddr c = a \<and> cn_conid c = conid"
proof -
  obtain con where con: "con \<in> set (ug_list o1)" "ug_entry o1 con = (a, conid)"
    using map_of_SomeD [OF assms(2)] by (auto simp: ug_table_def)
  then obtain c where "ug_cons o1 con = Some c" using ug_inv_dom [OF assms(1)] by blast
  with con show ?thesis by (auto simp: ug_entry_def)
qed

lemma ug_table_move:
  assumes inv: "ug_inv o1" and a: "ug_by_conaddr o1 a = Some con"
  shows "ug_table (move_to_end con o1) = lru_touch n v a (ug_table o1)"
proof -
  obtain c where c: "ug_cons o1 con = Some c" "cn_conaddr c = a" using ug_inv_found(2) [OF inv a] by blast
  have m: "con \<in> set (ug_list o1)" by (rule ug_inv_lookup(3) [OF inv c(1)])
  have e: "ug_entry (move_to_end con o1) = ug_entry o1" by (auto simp: ug_entry_def move_to_end_def)
  have "remove1 con (ug_list o1) = filter (\<lambda>x. x \<noteq> con) (ug_list o1)"
    using inv by (simp add: ug_inv_def remove1_Cons_filter)
  also have "\<dots> = filter (\<lambda>x. fst (ug_entry o1 x) \<noteq> a) (ug_list o1)"
    using ug_entry_inj(1) [OF inv _ m] c by (intro filter_cong) (auto simp: ug_entry_def)
  finally have "map (ug_entry o1) (remove1 con (ug_list o1)) = filter (\<lambda>e. fst e \<noteq> a) (ug_table o1)"
    by (simp add: ug_table_def filter_map comp_def)
  then show ?thesis
    using c ug_table_lookup(1) [OF inv a]
    by (simp add: ug_table_def e lru_touch_def) (simp add: move_to_end_def ug_entry_def ug_table_def)
qed

lemma SubmitPacket_found:
  assumes "ug_by_conaddr o1 \<lparr>ca_local_addr = l, ca_remote_addr = r\<rparr> = Some con" "ug_inv o1"
  obtains c where "ug_cons o1 con = Some c" "cn_conaddr c = \<lparr>ca_local_addr = l, ca_remote_addr = r\<rparr>"
    and "UdpGwClient_SubmitPacket m p b o1 l r dns data = Some (move_to_end con o1,
      connection_send b con c (if dns then UDPGW_CLIENT_FLAG_DNS else 0) data)"
proof -
  obtain c where c: "ug_cons o1 con = Some c" "cn_conaddr c = \<lparr>ca_local_addr = l, ca_remote_addr = r\<rparr>"
    using ug_inv_found(2) [OF assms(2,1)] by blast
  then show ?thesis using assms(1)
    by (intro that) (auto simp: UdpGwClient_SubmitPacket_def find_connection_by_conaddr_def
        move_to_end_def Let_def)
qed

lemma SubmitPacket_full:
  assumes n: "ug_by_conaddr o1 \<lparr>ca_local_addr = l, ca_remote_addr = r\<rparr> = None" and inv: "ug_inv o1"
    and full: "ug_num o1 = ug_max_connections o1"
  defines "a \<equiv> \<lparr>ca_local_addr = l, ca_remote_addr = r\<rparr>" and "con \<equiv> hd (ug_list o1)"
  obtains c o2 where "ug_cons o1 con = Some c"
    and "UdpGwClient_SubmitPacket m p b o1 l r dns data = Some (o2,
      connection_send b con (c\<lparr>cn_conaddr := a\<rparr>)
        ((if dns then UDPGW_CLIENT_FLAG_DNS else 0) OR UDPGW_CLIENT_FLAG_REBIND) data)"
    and "ug_inv o2" "ug_max_connections o2 = ug_max_connections o1"
    and "ug_cons o2 = (ug_cons o1)(con \<mapsto> c\<lparr>cn_conaddr := a\<rparr>)" and "ug_list o2 = tl (ug_list o1) @ [con]"
proof -
  have ne: "ug_list o1 \<noteq> []" using inv full by (auto simp: ug_inv_def)
  obtain c where c: "ug_cons o1 con = Some c" and
    r: "reuse_connection o1 a = (o1\<lparr>ug_by_conaddr := (ug_by_conaddr o1)(cn_conaddr c := None, a \<mapsto> con),
          ug_cons := (ug_cons o1)(con \<mapsto> c\<lparr>cn_conaddr := a\<rparr>)\<rparr>, con)"
    and i: "ug_inv (fst (reuse_connection o1 a))"
    using reuse_connection_inv [OF inv ne, of a] n unfolding a_def con_def by blast
  let ?o = "fst (reuse_connection o1 a)"
  have m: "con \<in> set (ug_list ?o)" using r ne by (simp add: con_def)
  show ?thesis
  proof (rule that [of c "move_to_end con ?o"])
    show "ug_inv (move_to_end con ?o)" by (rule ug_inv_move_to_end [OF i m])
    show "UdpGwClient_SubmitPacket m p b o1 l r dns data = Some (move_to_end con ?o,
      connection_send b con (c\<lparr>cn_conaddr := a\<rparr>)
        ((if dns then UDPGW_CLIENT_FLAG_DNS else 0) OR UDPGW_CLIENT_FLAG_REBIND) data)"
      using n full r unfolding a_def [symmetric]
      by (simp add: UdpGwClient_SubmitPacket_def find_connection_by_conaddr_def a_def [symmetric]
          move_to_end_def Let_def)
    show "ug_list (move_to_end con ?o) = tl (ug_list o1) @ [con]"
      using r ne by (cases "ug_list o1") (auto simp: move_to_end_def con_def)
  qed (use c r in \<open>auto simp: move_to_end_def\<close>)
qed

lemma SubmitPacket_new:
  assumes n: "ug_by_conaddr o1 \<lparr>ca_local_addr = l, ca_remote_addr = r\<rparr> = None" and inv: "ug_inv o1"
    and lt: "ug_num o1 \<noteq> ug_max_connections o1"
  shows "UdpGwClient_SubmitPacket m p b o1 l r dns data =
    map_option (\<lambda>o2. (o2, [])) (connection_init m p o1 \<lparr>ca_local_addr = l, ca_remote_addr = r\<rparr>
      (if dns then UDPGW_CLIENT_FLAG_DNS else 0) data)"
  using assms
  by (auto simp: UdpGwClient_SubmitPacket_def find_connection_by_conaddr_def Let_def split: option.splits)

text \<open>
  A submission gets a connection when its address pair has one, when the least recently used one is
  rebound to it, or when a new one can be allocated.
\<close>

definition ug_accepts :: "nat option \<Rightarrow> bool \<Rightarrow> UdpGwClient \<Rightarrow> UdpGwClient_conaddr \<Rightarrow> bool" where
  "ug_accepts m p o1 a \<longleftrightarrow>
     ug_by_conaddr o1 a \<noteq> None \<or> ug_num o1 = ug_max_connections o1 \<or> m \<noteq> None \<and> p"

lemma SubmitPacket_step:
  fixes l r :: BAddr
  defines "a \<equiv> \<lparr>ca_local_addr = l, ca_remote_addr = r\<rparr>"
  assumes inv: "ug_inv o1" and fresh: "\<forall>con. m = Some con \<longrightarrow> ug_cons o1 con = None"
  shows "\<exists>o2 calls. UdpGwClient_SubmitPacket m p b o1 l r dns data = Some (o2, calls) \<and> ug_inv o2
    \<and> ug_max_connections o2 = ug_max_connections o1
    \<and> (if ug_accepts m p o1 a then \<exists>v.
           (map_of (ug_table o1) a = None \<and> length (ug_table o1) < nat (ug_max_connections o1) \<longrightarrow>
              v \<notin> snd ` set (ug_table o1))
         \<and> ug_table o2 = lru_touch (nat (ug_max_connections o1)) v a (ug_table o1)
       else ug_table o2 = ug_table o1)"
proof (cases "ug_by_conaddr o1 a")
  case (Some con)
  then obtain c where s: "UdpGwClient_SubmitPacket m p b o1 l r dns data = Some (move_to_end con o1,
      connection_send b con c (if dns then UDPGW_CLIENT_FLAG_DNS else 0) data)" "ug_cons o1 con = Some c"
    using SubmitPacket_found [OF _ inv] unfolding a_def by blast
  have "ug_inv (move_to_end con o1)"
    by (rule ug_inv_move_to_end [OF inv ug_inv_lookup(3) [OF inv s(2)]])
  moreover have "map_of (ug_table o1) a \<noteq> None" using ug_table_lookup(1) [OF inv Some] by simp
  moreover have "ug_accepts m p o1 a" using Some by (simp add: ug_accepts_def)
  moreover have "ug_max_connections (move_to_end con o1) = ug_max_connections o1" by (simp add: move_to_end_def)
  ultimately show ?thesis using s(1) ug_table_move [OF inv Some] by auto
next
  case None
  note nol = ug_table_lookup(2) [OF inv None]
  have len: "int (length (ug_table o1)) = ug_num o1" using inv by (simp add: ug_inv_def ug_table_def)
  show ?thesis
  proof (cases "ug_num o1 = ug_max_connections o1")
    case True
    obtain c o2 calls where s: "ug_cons o1 (hd (ug_list o1)) = Some c"
      "UdpGwClient_SubmitPacket m p b o1 l r dns data = Some (o2, calls)"
      "ug_inv o2" "ug_max_connections o2 = ug_max_connections o1"
      "ug_cons o2 = (ug_cons o1)(hd (ug_list o1) \<mapsto> c\<lparr>cn_conaddr := a\<rparr>)"
      "ug_list o2 = tl (ug_list o1) @ [hd (ug_list o1)]"
      using SubmitPacket_full [OF None [unfolded a_def] inv True] unfolding a_def by blast
    have ne: "ug_list o1 \<noteq> []" using inv True by (auto simp: ug_inv_def)
    then have "hd (ug_list o1) \<notin> set (tl (ug_list o1))"
      using inv by (cases "ug_list o1") (auto simp: ug_inv_def)
    then have "ug_table o2 = tl (ug_table o1) @ [(a, snd (hd (ug_table o1)))]"
      using s(1,5,6) ne by (cases "ug_list o1") (auto simp: ug_table_def ug_entry_def)
    moreover have "\<not> length (ug_table o1) < nat (ug_max_connections o1)" using len True by simp
    ultimately have "ug_table o2 = lru_touch (nat (ug_max_connections o1)) v a (ug_table o1)" for v
      using nol by (simp add: lru_touch_def)
    moreover have "ug_accepts m p o1 a" using True by (simp add: ug_accepts_def)
    ultimately show ?thesis using s len True by auto
  next
    case False
    then have lt: "ug_num o1 < ug_max_connections o1" using inv by (simp add: ug_inv_def)
    obtain o2 where o2: "connection_init m p o1 a (if dns then UDPGW_CLIENT_FLAG_DNS else 0) data = Some o2"
        "ug_inv o2" and lost: "m = None \<or> \<not> p \<longrightarrow> ug_cons o2 = ug_cons o1 \<and> ug_list o2 = ug_list o1"
      and add: "p \<Longrightarrow> (\<forall>con. m = Some con \<longrightarrow> (\<exists>conid. ug_list o2 = ug_list o1 @ [con]
          \<and> (\<forall>k. ug_by_conid o1 conid \<noteq> Some k)
          \<and> ug_cons o2 = (ug_cons o1)(con \<mapsto> \<lparr>cn_conaddr = a,
               cn_first_flags = (if dns then UDPGW_CLIENT_FLAG_DNS else 0),
               cn_first_data = data, cn_conid = conid, cn_first_pending = True\<rparr>)))"
      using connection_init_inv [OF inv lt fresh None] by blast
    have sub: "UdpGwClient_SubmitPacket m p b o1 l r dns data = Some (o2, [])"
      using SubmitPacket_new [OF None [unfolded a_def] inv False] o2(1) unfolding a_def by simp
    have max: "ug_max_connections o2 = ug_max_connections o1"
      using o2(1) by (auto simp: connection_init_def find_unused_conid_def Let_def split: option.splits if_splits)
    have "\<exists>v. v \<notin> snd ` set (ug_table o1)
         \<and> ug_table o2 = lru_touch (nat (ug_max_connections o1)) v a (ug_table o1)" if mp: "m \<noteq> None \<and> p"
    proof -
      obtain con conid where l: "ug_list o2 = ug_list o1 @ [con]" "m = Some con"
        and u: "\<forall>k. ug_by_conid o1 conid \<noteq> Some k"
        and c: "ug_cons o2 = (ug_cons o1)(con \<mapsto> \<lparr>cn_conaddr = a,
               cn_first_flags = (if dns then UDPGW_CLIENT_FLAG_DNS else 0),
               cn_first_data = data, cn_conid = conid, cn_first_pending = True\<rparr>)"
        using mp add by (cases m) auto
      have "con \<notin> set (ug_list o1)" using fresh l(2) inv by (auto simp: ug_inv_def)
      then have "ug_table o2 = ug_table o1 @ [(a, conid)]"
        using l(1) c by (auto simp: ug_table_def ug_entry_def)
      moreover have "conid \<notin> snd ` set (ug_table o1)"
      proof
        assume "conid \<in> snd ` set (ug_table o1)"
        then obtain x where x: "x \<in> set (ug_list o1)" "conid = cn_conid (the (ug_cons o1 x))"
          by (auto simp: ug_table_def ug_entry_def)
        then obtain c' where "ug_cons o1 x = Some c'" using inv unfolding ug_inv_def by blast
        with ug_inv_lookup(1) [OF inv this] x u show False by auto
      qed
      ultimately show ?thesis using nol len lt by (intro exI [of _ conid]) (auto simp: lru_touch_def)
    qed
    note lru = this
    show ?thesis
    proof (rule exI [of _ o2], rule exI [of _ "[]"], intro conjI)
      show "UdpGwClient_SubmitPacket m p b o1 l r dns data = Some (o2, [])" by (rule sub)
      show "ug_inv o2" "ug_max_connections o2 = ug_max_connections o1" by fact+
      have acc: "ug_accepts m p o1 a \<longleftrightarrow> m \<noteq> None \<and> p" using None False by (simp add: ug_accepts_def)
      show "if ug_accepts m p o1 a then \<exists>v. (map_of (ug_table o1) a = None \<and>
            length (ug_table o1) < nat (ug_max_connections o1) \<longrightarrow> v \<notin> snd ` set (ug_table o1))
         \<and> ug_table o2 = lru_touch (nat (ug_max_connections o1)) v a (ug_table o1)
         else ug_table o2 = ug_table o1"
      proof (cases "m \<noteq> None \<and> p")
        case True
        from lru [OF True] obtain v where "v \<notin> snd ` set (ug_table o1)"
          "ug_table o2 = lru_touch (nat (ug_max_connections o1)) v a (ug_table o1)" by (elim exE conjE)
        with acc True show ?thesis by auto
      next
        case False
        then have "m = None \<or> \<not> p" by blast
        with lost have "ug_cons o2 = ug_cons o1 \<and> ug_list o2 = ug_list o1" by blast
        then have "ug_table o2 = ug_table o1" by (simp add: ug_table_def ug_entry_def)
        moreover have "\<not> ug_accepts m p o1 a" using acc False by simp
        ultimately show ?thesis by simp
      qed
    qed
  qed
qed

lemma SubmitPacket_refines:
  fixes l r :: BAddr
  defines "a \<equiv> \<lparr>ca_local_addr = l, ca_remote_addr = r\<rparr>"
  assumes inv: "ug_inv o1" and fresh: "\<forall>con. m = Some con \<longrightarrow> ug_cons o1 con = None"
  shows "\<exists>o2 calls. UdpGwClient_SubmitPacket m p b o1 l r dns data = Some (o2, calls) \<and> ug_inv o2
    \<and> ug_max_connections o2 = ug_max_connections o1
    \<and> (m \<noteq> None \<and> p \<longrightarrow> (\<exists>v.
           (map_of (ug_table o1) a = None \<and> length (ug_table o1) < nat (ug_max_connections o1) \<longrightarrow>
              v \<notin> snd ` set (ug_table o1))
         \<and> ug_table o2 = lru_touch (nat (ug_max_connections o1)) v a (ug_table o1)))"
proof -
  obtain o2 calls where s: "UdpGwClient_SubmitPacket m p b o1 l r dns data = Some (o2, calls)" "ug_inv o2"
      "ug_max_connections o2 = ug_max_connections o1"
    and t: "if ug_accepts m p o1 a then \<exists>v.
           (map_of (ug_table o1) a = None \<and> length (ug_table o1) < nat (ug_max_connections o1) \<longrightarrow>
              v \<notin> snd ` set (ug_table o1))
         \<and> ug_table o2 = lru_touch (nat (ug_max_connections o1)) v a (ug_table o1)
       else ug_table o2 = ug_table o1"
    using SubmitPacket_step [OF inv fresh, of p b l r dns data] unfolding a_def by blast
  show ?thesis
    by (rule exI [of _ o2], rule exI [of _ calls]) (use s t in \<open>simp add: ug_accepts_def split: if_splits\<close>)
qed

section \<open>The other operations\<close>

lemma connection_free_inv:
  assumes inv: "ug_inv o1" and c: "ug_cons o1 con = Some c"
  shows "ug_inv (connection_free con o1)" "length (ug_list (connection_free con o1)) < length (ug_list o1)"
    "ug_max_connections (connection_free con o1) = ug_max_connections o1"
proof -
  have m: "con \<in> set (ug_list o1)" by (rule ug_inv_lookup(3) [OF inv c])
  then have "length (remove1 con (ug_list o1)) = length (ug_list o1) - 1" by (simp add: length_remove1)
  then have l: "int (length (remove1 con (ug_list o1))) = int (length (ug_list o1)) - 1"
    using length_pos_if_in_set [OF m] by linarith
  let ?o = "connection_free con o1"
  have o: "?o = o1\<lparr>ug_num := ug_num o1 - 1, ug_list := remove1 con (ug_list o1),
             ug_by_conid := (ug_by_conid o1)(cn_conid c := None),
             ug_by_conaddr := (ug_by_conaddr o1)(cn_conaddr c := None), ug_cons := (ug_cons o1)(con := None)\<rparr>"
    using c by (simp add: connection_free_def)
  show "ug_inv ?o" unfolding ug_inv_def
  proof (intro conjI allI impI)
    fix k con'
    show "ug_by_conid ?o k = Some con' \<longleftrightarrow> (\<exists>c'. ug_cons ?o con' = Some c' \<and> cn_conid c' = k)"
      using ug_inv_found(1) [OF inv, of k con'] ug_inv_lookup(1) [OF inv, of con'] ug_inv_lookup(1) [OF inv c] c
      by (auto simp: o)
    show "ug_by_conaddr ?o a = Some con' \<longleftrightarrow> (\<exists>c'. ug_cons ?o con' = Some c' \<and> cn_conaddr c' = a)" for a
      using ug_inv_found(2) [OF inv, of a con'] ug_inv_lookup(2) [OF inv, of con'] ug_inv_lookup(2) [OF inv c] c
      by (auto simp: o)
  qed (use inv l m in \<open>auto simp: o ug_inv_def split: if_splits\<close>)
  show "length (ug_list ?o) < length (ug_list o1)" using l by (simp add: o)
  show "ug_max_connections ?o = ug_max_connections o1" by (simp add: o)
qed

lemma free_connections_loop_empty:
  "ug_inv o1 \<Longrightarrow> ug_inv (free_connections_loop o1) \<and> ug_list (free_connections_loop o1) = []"
proof (induction o1 rule: free_connections_loop.induct)
  case (1 o1)
  show ?case
  proof (cases "ug_list o1")
    case Nil
    then show ?thesis using "1.prems" by (subst (1 2) free_connections_loop.simps) simp
  next
    case (Cons con cs)
    then obtain c where c: "ug_cons o1 con = Some c" using ug_inv_dom [OF "1.prems", of con] by auto
    have "free_connections_loop o1 = free_connections_loop (connection_free con o1)"
      using Cons c by (subst free_connections_loop.simps) simp
    then show ?thesis using "1.IH" [OF Cons] connection_free_inv(1) [OF "1.prems" c] c by simp
  qed
qed

lemma ug_inv_empty:
  assumes "ug_inv o1" "ug_list o1 = []"
  shows "ug_cons o1 = (\<lambda>_. None)" "ug_by_conid o1 = (\<lambda>_. None)" "ug_by_conaddr o1 = (\<lambda>_. None)" "ug_num o1 = 0"
proof -
  have d: "dom (ug_cons o1) = {}" using assms by (simp add: ug_inv_def)
  then show c: "ug_cons o1 = (\<lambda>_. None)" by simp
  show "ug_by_conid o1 = (\<lambda>_. None)" "ug_by_conaddr o1 = (\<lambda>_. None)"
  proof -
    have "ug_by_conid o1 k = None" for k using ug_inv_found(1) [OF assms(1), of k] c by (cases "ug_by_conid o1 k") auto
    then show "ug_by_conid o1 = (\<lambda>_. None)" by blast
    have "ug_by_conaddr o1 k = None" for k using ug_inv_found(2) [OF assms(1), of k] c by (cases "ug_by_conaddr o1 k") auto
    then show "ug_by_conaddr o1 = (\<lambda>_. None)" by blast
  qed
  show "ug_num o1 = 0" using assms by (simp add: ug_inv_def)
qed

lemma recv_result:
  assumes inv: "ug_inv o1" and r: "recv_interface_handler_send o1 data = (o2, calls)"
  shows "o2 = o1 \<and> calls = [UG_Recv_Done] \<or>
    (\<exists>con c payload remote. ug_cons o1 con = Some c \<and> o2 = move_to_end con o1
       \<and> 3 \<le> length data \<and> cn_conid c = word16 (take 2 (drop 1 data))
       \<and> udpgw_parse_addr (data ! 0) (drop 3 data) = Some (remote, payload)
       \<and> BAddr_CompareOrder (ca_remote_addr (cn_conaddr c)) remote = 0
       \<and> int (length payload) \<le> ug_udp_mtu o1
       \<and> calls = [UG_Recv_Done, UG_Received (ca_local_addr (cn_conaddr c)) (ca_remote_addr (cn_conaddr c)) payload])"
proof (cases "length data < 3 \<or> udpgw_parse_addr (data ! 0) (drop 3 data) = None")
  case True
  then show ?thesis using r by (auto simp: recv_interface_handler_send_def Let_def split: if_splits)
next
  case False
  then obtain remote payload where p: "3 \<le> length data"
    "udpgw_parse_addr (data ! 0) (drop 3 data) = Some (remote, payload)" by auto
  let ?id = "word16 (take 2 (drop 1 data))"
  show ?thesis
  proof (cases "ug_by_conid o1 ?id")
    case None
    then show ?thesis using r p
      by (auto simp: recv_interface_handler_send_def find_connection_by_conid_def byteorder_defs Let_def
          split: if_splits)
  next
    case (Some con)
    then obtain c where c: "ug_cons o1 con = Some c" "cn_conid c = ?id" using ug_inv_found(1) [OF inv] by blast
    with Some r p show ?thesis
      by (auto simp: recv_interface_handler_send_def find_connection_by_conid_def byteorder_defs Let_def
          split: if_splits)
  qed
qed

lemma parse_addr_bytes:
  assumes "addr_wf a" "a \<noteq> BAddr_None"
    and "flags AND UDPGW_CLIENT_FLAG_IPV6 \<noteq> 0 \<longleftrightarrow> (\<exists>ip port. a = BAddr_IPv6 ip port)"
  shows "udpgw_parse_addr flags (udpgw_addr_bytes a @ data) = Some (a, data)"
proof (cases a)
  case (BAddr_IPv4 ip port)
  have "take 4 (bytes32 ip @ bytes16 port @ data) = bytes32 ip"
    "take 2 (drop 4 (bytes32 ip @ bytes16 port @ data)) = bytes16 port"
    "drop 6 (bytes32 ip @ bytes16 port @ data) = data" by simp_all
  with BAddr_IPv4 assms show ?thesis
    by (simp add: udpgw_parse_addr_def udpgw_addr_bytes_def BAddr_MakeIPv4_def)
next
  case (BAddr_IPv6 ip port)
  then have "length ip = 16" using assms(1) by (simp add: addr_wf_def)
  then have "take 16 (ip @ bytes16 port @ data) = ip"
    "take 2 (drop 16 (ip @ bytes16 port @ data)) = bytes16 port"
    "drop 18 (ip @ bytes16 port @ data) = data" "\<not> length (ip @ bytes16 port @ data) < 18" by simp_all
  with BAddr_IPv6 assms show ?thesis
    by (simp add: udpgw_parse_addr_def udpgw_addr_bytes_def BAddr_MakeIPv6_def)
qed (use assms in simp)

lemma connection_send_form:
  assumes "cn_conaddr c = \<lparr>ca_local_addr = l, ca_remote_addr = r\<rparr>"
  shows "\<exists>g. connection_send True con c flags data =
    [UG_Packet con ([g] @ bytes16 (cn_conid c) @ udpgw_addr_bytes r @ data)]"
  using assms by (simp add: connection_send_def byteorder_defs)

lemma reply_delivered:
  assumes "ug_inv o1" and "ug_cons o1 con = Some c" and "cn_conaddr c = \<lparr>ca_local_addr = l, ca_remote_addr = r\<rparr>"
    and "addr_wf r" and "r \<noteq> BAddr_None" and "int (length reply) \<le> ug_udp_mtu o1"
    and "f AND UDPGW_CLIENT_FLAG_IPV6 \<noteq> 0 \<longleftrightarrow> (\<exists>ip port. r = BAddr_IPv6 ip port)"
  shows "recv_interface_handler_send o1 ([f] @ bytes16 (cn_conid c) @ udpgw_addr_bytes r @ reply)
       = (move_to_end con o1, [UG_Recv_Done, UG_Received l r reply])"
proof -
  define pkt where "pkt = [f] @ bytes16 (cn_conid c) @ udpgw_addr_bytes r @ reply"
  have "pkt ! 0 = f" "take 2 (drop 1 pkt) = bytes16 (cn_conid c)"
    "drop 3 pkt = udpgw_addr_bytes r @ reply" "\<not> length pkt < 3"
    by (simp_all add: pkt_def bytes16_def)
  with parse_addr_bytes [OF assms(4,5,7), of reply] ug_inv_lookup(1) [OF assms(1,2)] assms(2-6)
    addr_cmp.cmp_refl [of r]
  show ?thesis unfolding pkt_def [symmetric]
    by (simp add: recv_interface_handler_send_def find_connection_by_conid_def byteorder_defs)
qed

text \<open>
  Using an address pair: submitting a packet for it with memory available, or receiving a reply
  for it.
\<close>

definition ug_uses :: "UdpGwClient_conaddr \<Rightarrow> UdpGwClient \<Rightarrow> UdpGwClient \<Rightarrow> bool" where
  "ug_uses a o1 o2 \<longleftrightarrow>
     (\<exists>con b dns data calls. ug_cons o1 con = None \<and>
        UdpGwClient_SubmitPacket (Some con) True b o1 (ca_local_addr a) (ca_remote_addr a) dns data
          = Some (o2, calls))
   \<or> (\<exists>data payload. recv_interface_handler_send o1 data =
        (o2, [UG_Recv_Done, UG_Received (ca_local_addr a) (ca_remote_addr a) payload]))"

lemma ug_uses_touch:
  assumes inv: "ug_inv o1" and u: "ug_uses a o1 o2"
  shows "ug_inv o2 \<and> ug_max_connections o2 = ug_max_connections o1 \<and>
    (\<exists>v. (map_of (ug_table o1) a = None \<and> length (ug_table o1) < nat (ug_max_connections o1) \<longrightarrow>
            v \<notin> snd ` set (ug_table o1))
       \<and> ug_table o2 = lru_touch (nat (ug_max_connections o1)) v a (ug_table o1))"
  using u unfolding ug_uses_def
proof (elim disjE exE conjE)
  fix con b dns data calls
  assume "ug_cons o1 con = None" and
    s: "UdpGwClient_SubmitPacket (Some con) True b o1 (ca_local_addr a) (ca_remote_addr a) dns data = Some (o2, calls)"
  then have "\<forall>c. Some con = Some c \<longrightarrow> ug_cons o1 c = None" by simp
  note ref = SubmitPacket_refines [OF inv this, of True b "ca_local_addr a" "ca_remote_addr a" dns data]
  have same: "\<lparr>ca_local_addr = ca_local_addr a, ca_remote_addr = ca_remote_addr a\<rparr> = a" by (cases a) simp
  from ref [unfolded same] s show ?thesis by simp
next
  fix data payload
  assume r: "recv_interface_handler_send o1 data =
    (o2, [UG_Recv_Done, UG_Received (ca_local_addr a) (ca_remote_addr a) payload])"
  from recv_result [OF inv this] obtain con c where
    c: "ug_cons o1 con = Some c" "o2 = move_to_end con o1" "ca_local_addr a = ca_local_addr (cn_conaddr c)"
    "ca_remote_addr a = ca_remote_addr (cn_conaddr c)" by auto
  have "a = cn_conaddr c" using c(3,4) by (intro UdpGwClient_conaddr.equality) simp_all
  then have a: "ug_by_conaddr o1 a = Some con" using ug_inv_lookup(2) [OF inv c(1)] by simp
  have "ug_inv o2" unfolding c(2) by (rule ug_inv_move_to_end [OF inv ug_inv_lookup(3) [OF inv c(1)]])
  then show ?thesis using ug_table_move [OF inv a] ug_table_lookup(1) [OF inv a] c(2)
    by (auto simp: move_to_end_def)
qed

interpretation ug: lru_table "\<lambda>o1. ug_inv o1 \<and> nat (ug_max_connections o1) = Suc n" ug_table "Suc n" ug_uses
  for n :: nat
  by unfold_locales (use ug_uses_touch ug_table_distinct in fastforce)+

section \<open>Properties\<close>

text \<open>
  C23: The connection table stays consistent: starting from \<^verbatim>\<open>UdpGwClient_Init\<close>, every submitted
  packet, received packet and first job keeps the invariant (both trees and the list describe
  exactly the live connections, ids are unique and below the limit, the count is right and within
  the limit), whatever allocations fail; \<^verbatim>\<open>UdpGwClient_SubmitPacket\<close> always returns, its search for
  an unused connection id included, and \<^verbatim>\<open>UdpGwClient_Free\<close> leaves no connection behind.
\<close>

theorem udpgw_table_invariant:
  "(0 < maxc \<and> UdpGwClient_Init smax mtu maxc sbs True = Some o0 \<longrightarrow> ug_inv o0)
   \<and> (ug_inv o1 \<and> (\<forall>con. m = Some con \<longrightarrow> ug_cons o1 con = None) \<longrightarrow>
        (\<exists>o2 calls. UdpGwClient_SubmitPacket m p b o1 l r dns data = Some (o2, calls) \<and> ug_inv o2))
   \<and> (ug_inv o1 \<longrightarrow> ug_inv (fst (recv_interface_handler_send o1 pkt))
        \<and> ug_inv (fst (connection_first_job_handler b con o1))
        \<and> ug_cons (fst (UdpGwClient_Free o1)) = (\<lambda>_. None)
        \<and> ug_by_conid (fst (UdpGwClient_Free o1)) = (\<lambda>_. None)
        \<and> ug_by_conaddr (fst (UdpGwClient_Free o1)) = (\<lambda>_. None))"
proof (intro conjI impI)
  assume "0 < maxc \<and> UdpGwClient_Init smax mtu maxc sbs True = Some o0"
  then show "ug_inv o0" using ug_inv_Init by blast
next
  assume "ug_inv o1 \<and> (\<forall>con. m = Some con \<longrightarrow> ug_cons o1 con = None)"
  then show "\<exists>o2 calls. UdpGwClient_SubmitPacket m p b o1 l r dns data = Some (o2, calls) \<and> ug_inv o2"
    using SubmitPacket_refines [of o1 m p b l r dns data] by auto
next
  assume inv: "ug_inv o1"
  obtain o2 calls where r: "recv_interface_handler_send o1 pkt = (o2, calls)" by fastforce
  show "ug_inv (fst (recv_interface_handler_send o1 pkt))"
    using recv_result [OF inv r] inv ug_inv_move_to_end [OF inv] ug_inv_lookup(3) [OF inv] r by auto
  show "ug_inv (fst (connection_first_job_handler b con o1))"
    using inv by (auto simp: connection_first_job_handler_def ug_inv_def split: option.splits)
  note e = free_connections_loop_empty [OF inv]
  show "ug_cons (fst (UdpGwClient_Free o1)) = (\<lambda>_. None)" "ug_by_conid (fst (UdpGwClient_Free o1)) = (\<lambda>_. None)"
    "ug_by_conaddr (fst (UdpGwClient_Free o1)) = (\<lambda>_. None)"
    using ug_inv_empty [of "free_connections_loop o1"] e by (simp_all add: UdpGwClient_Free_def Let_def)
qed

definition demo_gw :: UdpGwClient where
  "demo_gw = the (UdpGwClient_Init 4294967295 1472 256 8 True)"

lemma demo_gw_init: "UdpGwClient_Init 4294967295 1472 256 8 True = Some demo_gw"
  by (simp add: demo_gw_def UdpGwClient_Init_def Let_def)

lemma demo_gw_inv: "ug_inv demo_gw"
  by (rule ug_inv_Init [OF demo_gw_init]) simp

theorem udpgw_table_invariant_witness:
  "\<exists>o2 calls. UdpGwClient_SubmitPacket (Some 7) True True demo_gw (BAddr_IPv4 1 2) (BAddr_IPv4 3 4) False [9]
     = Some (o2, calls) \<and> ug_inv o2"
proof -
  have "\<forall>con. Some 7 = Some con \<longrightarrow> ug_cons demo_gw con = None"
    by (simp add: demo_gw_def UdpGwClient_Init_def Let_def)
  then show ?thesis
    using udpgw_table_invariant [of 1 0 0 0 demo_gw demo_gw "Some 7" True True "BAddr_IPv4 1 2" "BAddr_IPv4 3 4" False "[9]"]
      demo_gw_inv by blast
qed

text \<open>
  C12: Submitting a packet is a least-recently-used cache access: with memory available, the table
  of address pairs and connection ids after \<^verbatim>\<open>UdpGwClient_SubmitPacket\<close> is the old one with the
  pair moved to the end, or appended with an id that no live connection has, or, when the table is
  full, with the least recently used entry rebound to the new pair, keeping its id.
\<close>

theorem udpgw_submit_is_lru:
  assumes "ug_inv o1" and "ug_cons o1 con = None"
  shows "\<exists>o2 calls v. UdpGwClient_SubmitPacket (Some con) True b o1 l r dns data = Some (o2, calls)
    \<and> ug_table o2 = lru_touch (nat (ug_max_connections o1)) v
        \<lparr>ca_local_addr = l, ca_remote_addr = r\<rparr> (ug_table o1)
    \<and> (map_of (ug_table o1) \<lparr>ca_local_addr = l, ca_remote_addr = r\<rparr> = None
        \<and> length (ug_table o1) < nat (ug_max_connections o1) \<longrightarrow> v \<notin> snd ` set (ug_table o1))
    \<and> distinct (map fst (ug_table o2)) \<and> distinct (map snd (ug_table o2))"
proof -
  have "\<forall>c. Some con = Some c \<longrightarrow> ug_cons o1 c = None" using assms(2) by simp
  from SubmitPacket_refines [OF assms(1) this, of True b l r dns data]
  obtain o2 calls v where s: "UdpGwClient_SubmitPacket (Some con) True b o1 l r dns data = Some (o2, calls)"
    "ug_inv o2" "ug_table o2 = lru_touch (nat (ug_max_connections o1)) v
        \<lparr>ca_local_addr = l, ca_remote_addr = r\<rparr> (ug_table o1)"
    "map_of (ug_table o1) \<lparr>ca_local_addr = l, ca_remote_addr = r\<rparr> = None
        \<and> length (ug_table o1) < nat (ug_max_connections o1) \<longrightarrow> v \<notin> snd ` set (ug_table o1)" by auto
  show ?thesis
    by (rule exI [of _ o2], rule exI [of _ calls], rule exI [of _ v])
      (use s ug_table_distinct [OF s(2)] in simp)
qed

theorem udpgw_submit_is_lru_witness:
  "\<exists>o2 calls v. UdpGwClient_SubmitPacket (Some 7) True True demo_gw (BAddr_IPv4 1 2) (BAddr_IPv4 3 4) False [9]
      = Some (o2, calls)
    \<and> ug_table o2 = lru_touch 256 v \<lparr>ca_local_addr = BAddr_IPv4 1 2, ca_remote_addr = BAddr_IPv4 3 4\<rparr> []"
proof -
  have d: "ug_cons demo_gw 7 = None" "ug_table demo_gw = []" "ug_max_connections demo_gw = 256"
    by (simp_all add: demo_gw_def UdpGwClient_Init_def Let_def ug_table_def)
  show ?thesis
    using udpgw_submit_is_lru [OF demo_gw_inv d(1), of True "BAddr_IPv4 1 2" "BAddr_IPv4 3 4" False "[9]"]
    by (auto simp: d)
qed

text \<open>
  A connection keeps its id while it is in use: after an address pair was used, as long as
  fewer other pairs than the limit are used, by submitted packets or received replies in any
  order, the pair stays in the table under the same connection id (so replies of the server still
  reach it).
\<close>

theorem udpgw_conid_stable:
  assumes "ug_inv o0" and "ug_uses a o0 o1" and "map_of (ug_table o1) a = Some conid"
    and "touches ug_uses o1 as o2"
    and "int (card (insert a (set as))) \<le> ug_max_connections o0"
  shows "map_of (ug_table o2) a = Some conid \<and> ug_by_conaddr o2 a = ug_by_conid o2 conid
    \<and> ug_by_conid o2 conid \<noteq> None"
proof -
  let ?n = "nat (ug_max_connections o0) - 1"
  have i: "ug_inv o0 \<and> nat (ug_max_connections o0) = Suc ?n" using assms(1) by (auto simp: ug_inv_def)
  have c: "card (insert a (set as)) \<le> Suc ?n" using assms(1,5) by (simp add: ug_inv_def)
  have k: "map_of (ug_table o2) a = Some conid" and inv2: "ug_inv o2"
    using ug.used_kept [OF i assms(2-4) c] by auto
  then show ?thesis using ug_table_con [OF inv2 k] ug_inv_lookup [OF inv2] by fastforce
qed

lemma demo_gw_use:
  "\<exists>o1 calls. UdpGwClient_SubmitPacket (Some 7) True True demo_gw (BAddr_IPv4 1 2) (BAddr_IPv4 3 4) False [9]
      = Some (o1, calls)
    \<and> ug_table o1 = [(\<lparr>ca_local_addr = BAddr_IPv4 1 2, ca_remote_addr = BAddr_IPv4 3 4\<rparr>, 0)]
    \<and> ug_udp_mtu o1 = 1472 \<and> ug_cons o1 = [7 \<mapsto>
       \<lparr>cn_conaddr = \<lparr>ca_local_addr = BAddr_IPv4 1 2, ca_remote_addr = BAddr_IPv4 3 4\<rparr>, cn_first_flags = 0,
        cn_first_data = [9], cn_conid = 0, cn_first_pending = True\<rparr>]"
proof -
  have "find_unused_conid_loop (\<lambda>_. None) 256 0 = Some 0" by (subst find_unused_conid_loop.simps) simp
  then show ?thesis
    by (simp add: demo_gw_def UdpGwClient_Init_def UdpGwClient_SubmitPacket_def find_connection_by_conaddr_def
        connection_init_def find_unused_conid_def bavl_insert_def ug_table_def ug_entry_def Let_def)
qed

theorem udpgw_conid_stable_witness:
  "\<exists>o1. map_of (ug_table o1) \<lparr>ca_local_addr = BAddr_IPv4 1 2, ca_remote_addr = BAddr_IPv4 3 4\<rparr> = Some 0
     \<and> ug_by_conid o1 0 \<noteq> None"
proof -
  let ?a = "\<lparr>ca_local_addr = BAddr_IPv4 1 2, ca_remote_addr = BAddr_IPv4 3 4\<rparr>"
  obtain o1 calls where s: "UdpGwClient_SubmitPacket (Some 7) True True demo_gw (BAddr_IPv4 1 2) (BAddr_IPv4 3 4) False [9]
      = Some (o1, calls)" and t: "ug_table o1 = [(?a, 0)]"
    using demo_gw_use by blast
  have "ug_cons demo_gw 7 = None" by (simp add: demo_gw_def UdpGwClient_Init_def Let_def)
  with s have u: "ug_uses ?a demo_gw o1"
    unfolding ug_uses_def by (intro disjI1) (simp, blast)
  have m: "map_of (ug_table o1) ?a = Some 0" "ug_max_connections demo_gw = 256"
    using t by (simp_all add: demo_gw_def UdpGwClient_Init_def Let_def)
  from udpgw_conid_stable [OF demo_gw_inv u m(1) touches_Nil] m show ?thesis by auto
qed

text \<open>
  Round trip through the server: a packet sent for a connection carries the id and remote
  address of the connection, and a reply that carries the same id and remote address (with the
  address-family bit set accordingly) delivers its payload to exactly the local address the packet
  came from, as coming from that remote address; the connection becomes the most recently used.
\<close>

theorem udpgw_reply_roundtrip:
  assumes "ug_inv o1" and "ug_cons o1 con = Some c" and "cn_conaddr c = \<lparr>ca_local_addr = l, ca_remote_addr = r\<rparr>"
    and "addr_wf r" and "r \<noteq> BAddr_None" and "int (length reply) \<le> ug_udp_mtu o1"
    and "f AND UDPGW_CLIENT_FLAG_IPV6 \<noteq> 0 \<longleftrightarrow> (\<exists>ip port. r = BAddr_IPv6 ip port)"
  shows "(\<exists>g. connection_send True con c flags data =
            [UG_Packet con ([g] @ bytes16 (cn_conid c) @ udpgw_addr_bytes r @ data)])
    \<and> recv_interface_handler_send o1 ([f] @ bytes16 (cn_conid c) @ udpgw_addr_bytes r @ reply)
       = (move_to_end con o1, [UG_Recv_Done, UG_Received l r reply])"
  using connection_send_form [OF assms(3), of con flags data] reply_delivered [OF assms] by blast

lemma demo_gw1:
  obtains o1 c where "ug_inv o1" "ug_cons o1 7 = Some c" "ug_udp_mtu o1 = 1472" "cn_conid c = 0"
    "cn_conaddr c = \<lparr>ca_local_addr = BAddr_IPv4 1 2, ca_remote_addr = BAddr_IPv4 3 4\<rparr>"
    "ug_cons o1 = [7 \<mapsto> c]"
proof -
  obtain o1 calls where s: "UdpGwClient_SubmitPacket (Some 7) True True demo_gw (BAddr_IPv4 1 2) (BAddr_IPv4 3 4) False [9]
      = Some (o1, calls)" and t: "ug_udp_mtu o1 = 1472" "ug_cons o1 = [7 \<mapsto>
       \<lparr>cn_conaddr = \<lparr>ca_local_addr = BAddr_IPv4 1 2, ca_remote_addr = BAddr_IPv4 3 4\<rparr>, cn_first_flags = 0,
        cn_first_data = [9], cn_conid = 0, cn_first_pending = True\<rparr>]"
    using demo_gw_use by blast
  have "\<forall>con. Some 7 = Some con \<longrightarrow> ug_cons demo_gw con = None"
    by (simp add: demo_gw_def UdpGwClient_Init_def Let_def)
  from SubmitPacket_refines [OF demo_gw_inv this, of True True "BAddr_IPv4 1 2" "BAddr_IPv4 3 4" False "[9]"] s
  have "ug_inv o1" by auto
  with t show ?thesis by (intro that) simp_all
qed

theorem udpgw_reply_roundtrip_witness:
  "\<exists>o1. recv_interface_handler_send o1 ([0] @ bytes16 0 @ udpgw_addr_bytes (BAddr_IPv4 3 4) @ [1, 2])
     = (move_to_end 7 o1, [UG_Recv_Done, UG_Received (BAddr_IPv4 1 2) (BAddr_IPv4 3 4) [1, 2]])"
proof -
  obtain o1 c where o1: "ug_inv o1" "ug_cons o1 7 = Some c" "ug_udp_mtu o1 = 1472" "cn_conid c = 0"
    "cn_conaddr c = \<lparr>ca_local_addr = BAddr_IPv4 1 2, ca_remote_addr = BAddr_IPv4 3 4\<rparr>"
    by (rule demo_gw1)
  from udpgw_reply_roundtrip [OF o1(1,2,5), of "[1, 2]" 0] o1(3,4) show ?thesis
    by (auto simp: addr_wf_def)
qed

text \<open>
  C24: A packet from the server reaches the user only through the connection it names: the reported
  payload and addresses are those of a live connection whose id is the one in the header and whose
  remote address is the one in the packet; anything else (short packets, unknown ids, wrong
  addresses, oversized payloads) is dropped without changing the table. The receive interface is
  always completed.
\<close>

theorem udpgw_reply_only_to_owner:
  assumes "ug_inv o1" and "recv_interface_handler_send o1 pkt = (o2, calls)"
    and "\<forall>con c. ug_cons o1 con = Some c \<longrightarrow> addr_wf (ca_remote_addr (cn_conaddr c))"
  shows "hd calls = UG_Recv_Done \<and>
    (\<forall>l r payload. UG_Received l r payload \<in> set calls \<longrightarrow>
       (\<exists>con c flags rest. ug_cons o1 con = Some c \<and> ca_local_addr (cn_conaddr c) = l
          \<and> ca_remote_addr (cn_conaddr c) = r \<and> pkt = [flags] @ bytes16 (cn_conid c) @ rest
          \<and> udpgw_parse_addr flags rest = Some (r, payload) \<and> int (length payload) \<le> ug_udp_mtu o1))
    \<and> ((\<forall>l r payload. UG_Received l r payload \<notin> set calls) \<longrightarrow> o2 = o1)"
proof -
  have split3: "pkt = [pkt ! 0] @ take 2 (drop 1 pkt) @ drop 3 pkt" if "3 \<le> length pkt"
  proof -
    have "drop 1 pkt = take 2 (drop 1 pkt) @ drop 3 pkt"
      using append_take_drop_id [of 2 "drop 1 pkt"] by simp
    moreover have "pkt = [pkt ! 0] @ drop 1 pkt" using that by (cases pkt) auto
    ultimately show ?thesis by metis
  qed
  from recv_result [OF assms(1,2)] show ?thesis
  proof (elim disjE exE conjE)
    fix con c payload remote
    assume c: "ug_cons o1 con = Some c" "3 \<le> length pkt" "cn_conid c = word16 (take 2 (drop 1 pkt))"
      and p: "udpgw_parse_addr (pkt ! 0) (drop 3 pkt) = Some (remote, payload)"
        "BAddr_CompareOrder (ca_remote_addr (cn_conaddr c)) remote = 0" "int (length payload) \<le> ug_udp_mtu o1"
      and calls: "calls = [UG_Recv_Done, UG_Received (ca_local_addr (cn_conaddr c)) (ca_remote_addr (cn_conaddr c)) payload]"
    have "addr_wf remote"
      using p(1) by (auto simp: udpgw_parse_addr_def addr_wf_def BAddr_MakeIPv4_def BAddr_MakeIPv6_def split: if_splits)
    then have r: "remote = ca_remote_addr (cn_conaddr c)"
      using addr_cmp.cmp_eq_0 [of "ca_remote_addr (cn_conaddr c)" remote] p(2) assms(3) c(1) by auto
    have "pkt = [pkt ! 0] @ bytes16 (cn_conid c) @ drop 3 pkt"
      using split3 [OF c(2)] c(2,3) bytes16_word16 [of "take 2 (drop 1 pkt)"] by simp
    then show ?thesis using c(1) p r calls by auto
  qed auto
qed

theorem udpgw_reply_only_to_owner_witness:
  "\<exists>o1 o2 calls. recv_interface_handler_send o1 [0, 5, 0, 3, 0, 0, 0, 4, 0, 1] = (o2, calls)
     \<and> ug_inv o1 \<and> hd calls = UG_Recv_Done"
proof -
  obtain o1 c where o1: "ug_inv o1" "ug_cons o1 = [7 \<mapsto> c]"
    "cn_conaddr c = \<lparr>ca_local_addr = BAddr_IPv4 1 2, ca_remote_addr = BAddr_IPv4 3 4\<rparr>"
    by (rule demo_gw1)
  obtain o2 calls where r: "recv_interface_handler_send o1 [0, 5, 0, 3, 0, 0, 0, 4, 0, 1] = (o2, calls)" by fastforce
  have "\<forall>con c'. ug_cons o1 con = Some c' \<longrightarrow> addr_wf (ca_remote_addr (cn_conaddr c'))"
    using o1(2,3) by (auto simp: addr_wf_def split: if_splits)
  from udpgw_reply_only_to_owner [OF o1(1) r this] o1(1) r show ?thesis by auto
qed

text \<open>
  Every packet the client writes into a connection's send buffer fits the MTU the buffer was
  made for: \<^verbatim>\<open>udpgw_compute_mtu\<close> is 22 bytes more than the datagram MTU unless that exceeds
  \<^verbatim>\<open>INT_MAX\<close> (then it reports the error), and header, address and data of a packet need no more.
\<close>

theorem udpgw_packet_fits:
  assumes "2147483647 \<le> smax" and "0 \<le> udp_mtu" and "udp_mtu \<le> INT_MAX"
  shows "udpgw_compute_mtu smax udp_mtu = (if udp_mtu + 22 \<le> INT_MAX then udp_mtu + 22 else -1)
    \<and> (addr_wf (ca_remote_addr (cn_conaddr c)) \<and> int (length data) \<le> udp_mtu \<and> udp_mtu + 22 \<le> INT_MAX
        \<and> UG_Packet con pkt \<in> set (connection_send b con c flags data)
        \<longrightarrow> int (length pkt) \<le> udpgw_compute_mtu smax udp_mtu)"
proof -
  have m: "udpgw_compute_mtu smax udp_mtu = (if udp_mtu + 22 \<le> INT_MAX then udp_mtu + 22 else -1)"
  proof -
    have v: "nat (udp_mtu mod (int smax + 1)) = nat udp_mtu" using assms by simp
    have n: "(18 + nat udp_mtu) mod (smax + 1) = 18 + nat udp_mtu" if "udp_mtu + 22 \<le> INT_MAX"
      using that assms by simp
    show ?thesis
    proof (cases "udp_mtu + 22 \<le> INT_MAX")
      case True
      then show ?thesis using assms v n [OF True]
        by (simp add: udpgw_compute_mtu_def bsize_add_def bsize_max_def bsize_fromsize_def bsize_fromint_def
            bsize_toint_def Let_def) arith
    next
      case False
      then show ?thesis using assms v
        by (auto simp: udpgw_compute_mtu_def bsize_add_def bsize_max_def bsize_fromsize_def bsize_fromint_def
            bsize_toint_def Let_def mod_if split: if_splits)
    qed
  qed
  moreover have "int (length pkt) \<le> udp_mtu + 22"
    if "addr_wf (ca_remote_addr (cn_conaddr c))" "int (length data) \<le> udp_mtu"
      "UG_Packet con pkt \<in> set (connection_send b con c flags data)"
    using that by (cases "ca_remote_addr (cn_conaddr c)")
      (auto simp: connection_send_def udpgw_addr_bytes_def addr_wf_def Let_def split: if_splits)
  ultimately show ?thesis by simp
qed

theorem udpgw_packet_fits_witness:
  "udpgw_compute_mtu 4294967295 1472 = 1494 \<and> udpgw_compute_mtu 4294967295 2147483647 = -1"
  using udpgw_packet_fits [of 4294967295 1472] udpgw_packet_fits [of 4294967295 2147483647] by simp

end
