(* ===== verification/Socks_UdpGw.thy ===== *)
theory Socks_UdpGw
  imports Socks_Client UdpGw_Client
begin

text \<open>
  \<^verbatim>\<open>tun2socks/SocksUdpGwClient.c\<close>, the udpgw client over a SOCKS connection that reconnects, as
  built without \<^verbatim>\<open>ANDROID_UDP\<close>. It owns an \<open>UdpGwClient\<close>, a \<open>BSocksClient\<close> while \<open>gw_have_socks\<close>
  holds, and a reconnect timer. The results of allocation-dependent initialisations are arguments.
  \<open>gw_step\<close> is its transition relation under the events of its neighbours.
\<close>

section \<open>The code\<close>

record SocksUdpGwClient =
  gw_auth_info :: "BSocksClient_auth_info list"
  gw_remote_udpgw_addr :: BAddr
  gw_udpgw_client :: UdpGwClient
  gw_timer_running :: bool
  gw_have_socks :: bool
  gw_socks_client :: "BSocksClient option"
  gw_socks_up :: bool

datatype gw_call =
    GW_UdpGw ug_call
  | GW_Socks sc_call
  | GW_SetTimer | GW_RemoveTimer
  | GW_Received BAddr BAddr "byte list"

definition gw_set_timer :: "SocksUdpGwClient \<Rightarrow> SocksUdpGwClient \<times> gw_call list" where
  "gw_set_timer o1 = (o1\<lparr>gw_timer_running := True\<rparr>, [GW_SetTimer])"

definition free_socks :: "SocksUdpGwClient \<Rightarrow> SocksUdpGwClient \<times> gw_call list" where
  "free_socks o1 =
     (let (u, c1) = (if gw_socks_up o1 then UdpGwClient_DisconnectServer (gw_udpgw_client o1)
                     else (gw_udpgw_client o1, []));
          c2 = (case gw_socks_client o1 of None \<Rightarrow> [] | Some s \<Rightarrow> BSocksClient_Free s)
      in (o1\<lparr>gw_udpgw_client := u, gw_socks_client := None, gw_have_socks := False\<rparr>,
          map GW_UdpGw c1 @ map GW_Socks c2))"

definition try_connect :: "bool \<Rightarrow> SocksUdpGwClient \<Rightarrow> SocksUdpGwClient \<times> gw_call list" where
  "try_connect connector_ok o1 =
     (case BSocksClient_Init (gw_auth_info o1) (gw_remote_udpgw_addr o1) connector_ok of
        None \<Rightarrow> gw_set_timer o1
      | Some s \<Rightarrow> (o1\<lparr>gw_socks_client := Some s, gw_have_socks := True, gw_socks_up := False\<rparr>, []))"

text \<open>The timer has expired when its handler runs, so it is not running any more.\<close>

definition reconnect_timer_handler :: "bool \<Rightarrow> SocksUdpGwClient \<Rightarrow> SocksUdpGwClient \<times> gw_call list" where
  "reconnect_timer_handler connector_ok o1 = try_connect connector_ok (o1\<lparr>gw_timer_running := False\<rparr>)"

definition gw_reconnect :: "SocksUdpGwClient \<Rightarrow> SocksUdpGwClient \<times> gw_call list" where
  "gw_reconnect o1 = (let (o2, c1) = free_socks o1; (o3, c2) = gw_set_timer o2 in (o3, c1 @ c2))"

definition socks_client_handler :: "bool \<Rightarrow> SocksUdpGwClient \<Rightarrow> sc_event \<Rightarrow> SocksUdpGwClient \<times> gw_call list" where
  "socks_client_handler decoder_ok o1 event =
     (case event of
        EVENT_UP \<Rightarrow>
          (let (ok, u, c1) = UdpGwClient_ConnectServer decoder_ok (gw_udpgw_client o1);
               o2 = o1\<lparr>gw_udpgw_client := u\<rparr>
           in if \<not> ok then let (o3, c2) = gw_reconnect o2 in (o3, map GW_UdpGw c1 @ c2)
              else (o2\<lparr>gw_socks_up := True\<rparr>, map GW_UdpGw c1))
      | EVENT_ERROR \<Rightarrow> gw_reconnect o1
      | EVENT_ERROR_CLOSED \<Rightarrow> gw_reconnect o1)"

definition udpgw_handler_servererror :: "SocksUdpGwClient \<Rightarrow> SocksUdpGwClient \<times> gw_call list" where
  "udpgw_handler_servererror o1 = gw_reconnect o1"

definition udpgw_handler_received :: "BAddr \<Rightarrow> BAddr \<Rightarrow> byte list \<Rightarrow> gw_call list" where
  "udpgw_handler_received local_addr remote_addr data = [GW_Received local_addr remote_addr data]"

definition SocksUdpGwClient_Init ::
    "nat \<Rightarrow> int \<Rightarrow> int \<Rightarrow> int \<Rightarrow> bool \<Rightarrow> bool \<Rightarrow> BSocksClient_auth_info list \<Rightarrow> BAddr \<Rightarrow>
     (SocksUdpGwClient \<times> gw_call list) option" where
  "SocksUdpGwClient_Init smax udp_mtu max_connections send_buffer_size queue_ok connector_ok auth_info
     remote_udpgw_addr =
     (case UdpGwClient_Init smax udp_mtu max_connections send_buffer_size queue_ok of
        None \<Rightarrow> None
      | Some u \<Rightarrow> Some (try_connect connector_ok
          \<lparr>gw_auth_info = auth_info, gw_remote_udpgw_addr = remote_udpgw_addr, gw_udpgw_client = u,
           gw_timer_running = False, gw_have_socks = False, gw_socks_client = None, gw_socks_up = False\<rparr>))"

definition SocksUdpGwClient_Free :: "SocksUdpGwClient \<Rightarrow> SocksUdpGwClient \<times> gw_call list" where
  "SocksUdpGwClient_Free o1 =
     (let (o2, c1) = (if gw_have_socks o1 then free_socks o1 else (o1, []));
          (u, c2) = UdpGwClient_Free (gw_udpgw_client o2)
      in (o2\<lparr>gw_timer_running := False, gw_udpgw_client := u\<rparr>, c1 @ [GW_RemoveTimer] @ map GW_UdpGw c2))"

definition SocksUdpGwClient_SubmitPacket ::
    "nat option \<Rightarrow> bool \<Rightarrow> bool \<Rightarrow> SocksUdpGwClient \<Rightarrow> BAddr \<Rightarrow> BAddr \<Rightarrow> bool \<Rightarrow> byte list \<Rightarrow>
     (SocksUdpGwClient \<times> gw_call list) option" where
  "SocksUdpGwClient_SubmitPacket malloc ppflow_ok buffer_ok o1 local_addr remote_addr is_dns data =
     (case UdpGwClient_SubmitPacket malloc ppflow_ok buffer_ok (gw_udpgw_client o1) local_addr remote_addr is_dns data of
        None \<Rightarrow> None
      | Some (u, cs) \<Rightarrow> Some (o1\<lparr>gw_udpgw_client := u\<rparr>, map GW_UdpGw cs))"

section \<open>Reconnecting\<close>

text \<open>
  The events: the timer, the SOCKS client (its own steps change only its state; an event it
  reports reaches the handler), an error or a packet from the udpgw server, a submitted packet.
\<close>

inductive gw_step :: "SocksUdpGwClient \<Rightarrow> SocksUdpGwClient \<Rightarrow> bool" where
  gw_timer: "gw_timer_running o1 \<Longrightarrow> reconnect_timer_handler ok o1 = (o2, cs) \<Longrightarrow> gw_step o1 o2"
| gw_socks_moves: "gw_socks_client o1 = Some s \<Longrightarrow> gw_step o1 (o1\<lparr>gw_socks_client := Some s'\<rparr>)"
| gw_socks_up: "gw_have_socks o1 \<Longrightarrow> \<not> gw_socks_up o1 \<Longrightarrow>
    socks_client_handler ok o1 EVENT_UP = (o2, cs) \<Longrightarrow> gw_step o1 o2"
| gw_socks_error: "gw_have_socks o1 \<Longrightarrow> ev \<noteq> EVENT_UP \<Longrightarrow>
    socks_client_handler ok o1 ev = (o2, cs) \<Longrightarrow> gw_step o1 o2"
| gw_server_error: "gw_have_socks o1 \<Longrightarrow> gw_socks_up o1 \<Longrightarrow>
    udpgw_handler_servererror o1 = (o2, cs) \<Longrightarrow> gw_step o1 o2"
| gw_packet: "gw_have_socks o1 \<Longrightarrow> gw_socks_up o1 \<Longrightarrow>
    recv_interface_handler_send (gw_udpgw_client o1) pkt = (u, cs) \<Longrightarrow>
    gw_step o1 (o1\<lparr>gw_udpgw_client := u\<rparr>)"
| gw_submit: "(\<forall>con. m = Some con \<longrightarrow> ug_cons (gw_udpgw_client o1) con = None) \<Longrightarrow>
    SocksUdpGwClient_SubmitPacket m p b o1 l r dns data = Some (o2, cs) \<Longrightarrow> gw_step o1 o2"

definition gw_inv :: "SocksUdpGwClient \<Rightarrow> bool" where
  "gw_inv o1 \<longleftrightarrow> gw_timer_running o1 = (\<not> gw_have_socks o1)
     \<and> (gw_socks_client o1 \<noteq> None) = gw_have_socks o1
     \<and> ug_have_server (gw_udpgw_client o1) = (gw_have_socks o1 \<and> gw_socks_up o1)
     \<and> ug_inv (gw_udpgw_client o1)"

lemma gw_reconnect_inv:
  assumes "ug_inv (gw_udpgw_client o1)" "gw_reconnect o1 = (o2, cs)"
    "ug_have_server (gw_udpgw_client o1) = gw_socks_up o1"
  shows "gw_inv o2 \<and> gw_timer_running o2 \<and> GW_SetTimer \<in> set cs"
  using assms
  by (auto simp: gw_reconnect_def free_socks_def gw_set_timer_def gw_inv_def Let_def split_beta
      UdpGwClient_DisconnectServer_def ug_inv_def)

lemma try_connect_inv:
  assumes "ug_inv (gw_udpgw_client o1)" "try_connect ok o1 = (o2, cs)" "\<not> gw_timer_running o1"
    "\<not> gw_have_socks o1" "gw_socks_client o1 = None" "\<not> ug_have_server (gw_udpgw_client o1)"
  shows "gw_inv o2"
  using assms by (auto simp: try_connect_def gw_set_timer_def gw_inv_def split: option.splits)

lemma SubmitPacket_have_server:
  "UdpGwClient_SubmitPacket m p b o1 l r dns data = Some (o2, cs) \<Longrightarrow> ug_have_server o2 = ug_have_server o1"
  by (auto simp: UdpGwClient_SubmitPacket_def reuse_connection_def move_to_end_def connection_init_def
      find_unused_conid_def Let_def split: option.splits if_splits prod.splits)

lemma recv_have_server:
  "recv_interface_handler_send o1 pkt = (o2, cs) \<Longrightarrow> ug_have_server o2 = ug_have_server o1"
  by (auto simp: recv_interface_handler_send_def move_to_end_def Let_def
      split: option.splits if_splits prod.splits)

lemma free_connections_loop_have_server:
  "ug_have_server (free_connections_loop u) = ug_have_server u"
proof (induction u rule: free_connections_loop.induct)
  case (1 u)
  then show ?case
    by (subst free_connections_loop.simps) (auto split: list.splits simp: connection_free_def)
qed

lemma ug_steps_inv:
  assumes "ug_inv u"
  shows "recv_interface_handler_send u pkt = (u', cs) \<Longrightarrow> ug_inv u'"
    and "(\<forall>con. m = Some con \<longrightarrow> ug_cons u con = None) \<Longrightarrow>
      UdpGwClient_SubmitPacket m p b u l r dns data = Some (u', cs') \<Longrightarrow> ug_inv u'"
  using recv_result [OF assms, of pkt u' cs] assms ug_inv_move_to_end [OF assms] ug_inv_lookup(3) [OF assms]
    SubmitPacket_refines [OF assms, of m p b l r dns data] by auto

lemma gw_step_inv:
  assumes "gw_step o1 o2" "gw_inv o1"
  shows "gw_inv o2"
  using assms
proof (induction rule: gw_step.induct)
  case (gw_timer o1 ok o2 cs)
  show ?case
    by (rule try_connect_inv [of "o1\<lparr>gw_timer_running := False\<rparr>" ok o2 cs])
      (use gw_timer in \<open>auto simp: reconnect_timer_handler_def gw_inv_def\<close>)
next
  case (gw_socks_up o1 ok o2 cs)
  have i: "ug_inv (gw_udpgw_client o1)" "\<not> ug_have_server (gw_udpgw_client o1)"
    using gw_socks_up by (auto simp: gw_inv_def)
  show ?case
  proof (cases ok)
    case True
    then show ?thesis using gw_socks_up i
      by (auto simp: socks_client_handler_def UdpGwClient_ConnectServer_def gw_inv_def ug_inv_def)
  next
    case False
    then have "gw_reconnect o1 = (o2, snd (gw_reconnect o1))" using gw_socks_up
      by (auto simp: socks_client_handler_def UdpGwClient_ConnectServer_def split_beta prod_eq_iff)
    then show ?thesis using gw_reconnect_inv [of o1 o2 "snd (gw_reconnect o1)"] i gw_socks_up by simp
  qed
next
  case (gw_socks_error o1 ev ok o2 cs)
  then show ?case using gw_reconnect_inv [of o1 o2 cs]
    by (cases ev) (auto simp: socks_client_handler_def gw_inv_def)
next
  case (gw_server_error o1 o2 cs)
  then show ?case using gw_reconnect_inv [of o1 o2 cs]
    by (auto simp: udpgw_handler_servererror_def gw_inv_def)
next
  case (gw_packet o1 pkt u cs)
  then show ?case using recv_have_server [OF gw_packet(3)] ug_steps_inv(1) [OF _ gw_packet(3)]
    by (auto simp: gw_inv_def)
next
  case (gw_submit m o1 p b l r dns data o2 cs)
  then obtain u cs' where u: "UdpGwClient_SubmitPacket m p b (gw_udpgw_client o1) l r dns data = Some (u, cs')"
    "o2 = o1\<lparr>gw_udpgw_client := u\<rparr>"
    by (auto simp: SocksUdpGwClient_SubmitPacket_def split: option.splits)
  then show ?case using gw_submit SubmitPacket_have_server [OF u(1)] ug_steps_inv(2) [OF _ _ u(1)]
    by (auto simp: gw_inv_def)
qed (auto simp: gw_inv_def)

lemma SocksUdpGwClient_Init_inv:
  assumes "SocksUdpGwClient_Init smax mtu maxc sbs qok cok auths remote = Some (o0, cs)" "0 < maxc"
  shows "gw_inv o0"
proof -
  from assms obtain u where u: "UdpGwClient_Init smax mtu maxc sbs qok = Some u"
    and o0: "try_connect cok \<lparr>gw_auth_info = auths, gw_remote_udpgw_addr = remote, gw_udpgw_client = u,
       gw_timer_running = False, gw_have_socks = False, gw_socks_client = None, gw_socks_up = False\<rparr> = (o0, cs)"
    by (auto simp: SocksUdpGwClient_Init_def split: option.splits)
  have q: qok using u by (simp add: UdpGwClient_Init_def Let_def split: if_splits)
  have "ug_inv u" using ug_inv_Init [of smax mtu maxc sbs u] u q assms(2) by simp
  moreover have "\<not> ug_have_server u" using u q by (auto simp: UdpGwClient_Init_def Let_def)
  ultimately show ?thesis using try_connect_inv [OF _ o0] by simp
qed

section \<open>Properties\<close>

text \<open>
  The udpgw session always recovers: in every reachable state exactly one of a SOCKS client and
  a running reconnect timer exists, the udpgw client has a server exactly while SOCKS is up, and the
  connection table is consistent; whenever the timer runs, a successful connector gives a SOCKS
  client again; a SOCKS error frees the connection, starts the timer and keeps every entry of the
  connection table; and \<^verbatim>\<open>SocksUdpGwClient_Free\<close> leaves no SOCKS client, timer, server or connection.
\<close>

theorem socks_udpgw_reconnects:
  assumes "SocksUdpGwClient_Init smax mtu maxc sbs qok cok auths remote = Some (o0, cs0)" and "0 < maxc"
    and "gw_step\<^sup>*\<^sup>* o0 o1"
  shows "gw_timer_running o1 = (\<not> gw_have_socks o1)
    \<and> ug_have_server (gw_udpgw_client o1) = (gw_have_socks o1 \<and> gw_socks_up o1)
    \<and> ug_inv (gw_udpgw_client o1)
    \<and> (gw_timer_running o1 \<longrightarrow> gw_have_socks (fst (reconnect_timer_handler True o1)))
    \<and> (gw_have_socks o1 \<longrightarrow> (case socks_client_handler ok o1 EVENT_ERROR of (o2, cs) \<Rightarrow>
          gw_timer_running o2 \<and> \<not> gw_have_socks o2 \<and> GW_SetTimer \<in> set cs
          \<and> ug_table (gw_udpgw_client o2) = ug_table (gw_udpgw_client o1)))
    \<and> (case SocksUdpGwClient_Free o1 of (o2, cs) \<Rightarrow>
          \<not> gw_have_socks o2 \<and> \<not> gw_timer_running o2 \<and> \<not> ug_have_server (gw_udpgw_client o2)
          \<and> ug_cons (gw_udpgw_client o2) = (\<lambda>_. None))"
proof -
  have "gw_inv o1" using assms(3)
    by (induction rule: rtranclp_induct) (use SocksUdpGwClient_Init_inv [OF assms(1,2)] gw_step_inv in auto)
  then have i: "gw_timer_running o1 = (\<not> gw_have_socks o1)" "(gw_socks_client o1 \<noteq> None) = gw_have_socks o1"
    "ug_have_server (gw_udpgw_client o1) = (gw_have_socks o1 \<and> gw_socks_up o1)" "ug_inv (gw_udpgw_client o1)"
    by (auto simp: gw_inv_def)
  have "gw_have_socks (fst (reconnect_timer_handler True o1))"
    by (simp add: reconnect_timer_handler_def try_connect_def BSocksClient_Init_def)
  moreover have "gw_have_socks o1 \<longrightarrow> (case socks_client_handler ok o1 EVENT_ERROR of (o2, cs) \<Rightarrow>
          gw_timer_running o2 \<and> \<not> gw_have_socks o2 \<and> GW_SetTimer \<in> set cs
          \<and> ug_table (gw_udpgw_client o2) = ug_table (gw_udpgw_client o1))"
    by (auto simp: socks_client_handler_def gw_reconnect_def free_socks_def gw_set_timer_def Let_def split_beta
        UdpGwClient_DisconnectServer_def ug_table_def ug_entry_def)
  moreover have "case SocksUdpGwClient_Free o1 of (o2, cs) \<Rightarrow>
          \<not> gw_have_socks o2 \<and> \<not> gw_timer_running o2 \<and> \<not> ug_have_server (gw_udpgw_client o2)
          \<and> ug_cons (gw_udpgw_client o2) = (\<lambda>_. None)"
  proof -
    define o2 where "o2 = (if gw_have_socks o1 then fst (free_socks o1) else o1)"
    have o2: "ug_inv (gw_udpgw_client o2)" "\<not> ug_have_server (gw_udpgw_client o2)" "\<not> gw_have_socks o2"
      using i by (auto simp: o2_def free_socks_def split_beta Let_def UdpGwClient_DisconnectServer_def ug_inv_def)
    have "gw_udpgw_client (fst (SocksUdpGwClient_Free o1)) = free_connections_loop (gw_udpgw_client o2)"
      "\<not> gw_timer_running (fst (SocksUdpGwClient_Free o1))"
      "gw_have_socks (fst (SocksUdpGwClient_Free o1)) = gw_have_socks o2"
      by (auto simp: SocksUdpGwClient_Free_def o2_def split_beta Let_def UdpGwClient_Free_def)
    then show ?thesis
      using free_connections_loop_empty [OF o2(1)] ug_inv_empty(1) free_connections_loop_have_server o2
      by (auto simp: split_beta)
  qed
  ultimately show ?thesis using i by auto
qed

theorem socks_udpgw_reconnects_witness:
  "\<exists>o0 cs0. SocksUdpGwClient_Init 4294967295 1472 256 8 True True [] (BAddr_IPv4 1 2) = Some (o0, cs0)
    \<and> gw_have_socks o0 \<and> \<not> gw_timer_running o0
    \<and> gw_timer_running (fst (socks_client_handler True o0 EVENT_ERROR))"
proof -
  obtain o0 cs0 where i: "SocksUdpGwClient_Init 4294967295 1472 256 8 True True [] (BAddr_IPv4 1 2) = Some (o0, cs0)"
    "gw_have_socks o0"
    by (simp add: SocksUdpGwClient_Init_def UdpGwClient_Init_def try_connect_def BSocksClient_Init_def Let_def)
  from socks_udpgw_reconnects [OF i(1) _ rtranclp.rtrancl_refl, of True] i show ?thesis by auto
qed

end
