(* ===== verification/Net_Proto.thy ===== *)
theory Net_Proto
  imports Misc
begin

text \<open>
  The packet headers of \<^verbatim>\<open>misc/ipv4_proto.h\<close>, \<^verbatim>\<open>misc/ipv6_proto.h\<close> and \<^verbatim>\<open>misc/udp_proto.h\<close>: the packed
  structs with their memory layout, the checksum routines at the width of the code (\<^verbatim>\<open>uint32_t\<close> sums,
  \<^verbatim>\<open>uint16_t\<close> lengths) and the validity checks. A multi-byte field holds the value the little-endian
  host reads from memory, so it is in network order, as in the code.

  \<open>words_sum\<close> is the reference: the sum of the big-endian 16-bit words of a byte string, an odd last
  byte padded with zero, of which RFC 1071 takes the one's complement sum.
\<close>

section \<open>Headers\<close>

record ipv4_header =
  ip4_version4_ihl4 :: byte
  ip4_ds :: byte
  ip4_total_length :: u16
  ip4_identification :: u16
  ip4_flags3_fragmentoffset13 :: u16
  ip4_ttl :: byte
  ip4_protocol :: byte
  ip4_checksum :: u16
  ip4_source_address :: u32
  ip4_destination_address :: u32

record ipv6_header =
  ip6_version4_tc4 :: byte
  ip6_tc4_fl4 :: byte
  ip6_fl :: u16
  ip6_payload_length :: u16
  ip6_next_header :: byte
  ip6_hop_limit :: byte
  ip6_source_address :: "byte list"
  ip6_destination_address :: "byte list"

record udp_header =
  udp_source_port :: u16
  udp_dest_port :: u16
  udp_length :: u16
  udp_cksum :: u16

definition IPV4_PROTOCOL_UDP :: nat where "IPV4_PROTOCOL_UDP = 17"
definition IPV6_NEXT_UDP :: nat where "IPV6_NEXT_UDP = 17"

definition sizeof_ipv4_header :: nat where "sizeof_ipv4_header = 20"
definition sizeof_ipv6_header :: nat where "sizeof_ipv6_header = 40"
definition sizeof_udp_header :: nat where "sizeof_udp_header = 8"

lemmas sizeof_headers = sizeof_ipv4_header_def sizeof_ipv6_header_def sizeof_udp_header_def

definition ipv4_header_bytes :: "ipv4_header \<Rightarrow> byte list" where
  "ipv4_header_bytes h = [ip4_version4_ihl4 h, ip4_ds h] @ bytes16 (ip4_total_length h)
     @ bytes16 (ip4_identification h) @ bytes16 (ip4_flags3_fragmentoffset13 h)
     @ [ip4_ttl h, ip4_protocol h] @ bytes16 (ip4_checksum h)
     @ bytes32 (ip4_source_address h) @ bytes32 (ip4_destination_address h)"

definition ipv4_header_read :: "byte list \<Rightarrow> ipv4_header" where
  "ipv4_header_read d = \<lparr>ip4_version4_ihl4 = d ! 0, ip4_ds = d ! 1, ip4_total_length = word16 (take 2 (drop 2 d)),
     ip4_identification = word16 (take 2 (drop 4 d)), ip4_flags3_fragmentoffset13 = word16 (take 2 (drop 6 d)),
     ip4_ttl = d ! 8, ip4_protocol = d ! 9, ip4_checksum = word16 (take 2 (drop 10 d)),
     ip4_source_address = word32 (take 4 (drop 12 d)), ip4_destination_address = word32 (take 4 (drop 16 d))\<rparr>"

definition ipv6_header_bytes :: "ipv6_header \<Rightarrow> byte list" where
  "ipv6_header_bytes h = [ip6_version4_tc4 h, ip6_tc4_fl4 h] @ bytes16 (ip6_fl h) @ bytes16 (ip6_payload_length h)
     @ [ip6_next_header h, ip6_hop_limit h] @ ip6_source_address h @ ip6_destination_address h"

definition ipv6_header_read :: "byte list \<Rightarrow> ipv6_header" where
  "ipv6_header_read d = \<lparr>ip6_version4_tc4 = d ! 0, ip6_tc4_fl4 = d ! 1, ip6_fl = word16 (take 2 (drop 2 d)),
     ip6_payload_length = word16 (take 2 (drop 4 d)), ip6_next_header = d ! 6, ip6_hop_limit = d ! 7,
     ip6_source_address = take 16 (drop 8 d), ip6_destination_address = take 16 (drop 24 d)\<rparr>"

definition udp_header_bytes :: "udp_header \<Rightarrow> byte list" where
  "udp_header_bytes h = bytes16 (udp_source_port h) @ bytes16 (udp_dest_port h) @ bytes16 (udp_length h)
     @ bytes16 (udp_cksum h)"

definition udp_header_read :: "byte list \<Rightarrow> udp_header" where
  "udp_header_read d = \<lparr>udp_source_port = word16 (take 2 d), udp_dest_port = word16 (take 2 (drop 2 d)),
     udp_length = word16 (take 2 (drop 4 d)), udp_cksum = word16 (take 2 (drop 6 d))\<rparr>"

definition IPV4_GET_VERSION :: "ipv4_header \<Rightarrow> nat" where
  "IPV4_GET_VERSION h = unat (drop_bit 4 (ip4_version4_ihl4 h AND 0xF0))"

definition IPV4_GET_IHL :: "ipv4_header \<Rightarrow> nat" where
  "IPV4_GET_IHL h = unat (drop_bit 0 (ip4_version4_ihl4 h AND 0x0F))"

definition IPV4_MAKE_VERSION_IHL :: "nat \<Rightarrow> byte" where
  "IPV4_MAKE_VERSION_IHL sz = word_of_nat (sz div 4 + 64)"

section \<open>Checksums\<close>

lemma unat_bound: "unat (w :: 'a::len word) < 2 ^ LENGTH('a)"
  by (rule unsigned_less)

text \<open>The loop \<^verbatim>\<open>t += badvpn_read_be16(data + 2 * i)\<close> for \<^verbatim>\<open>i < len / 2\<close>, and the loop that folds the carries.\<close>

definition sum_be16 :: "byte list \<Rightarrow> nat \<Rightarrow> u32 \<Rightarrow> u32" where
  "sum_be16 data len t = fold (\<lambda>i t. t + ucast (badvpn_read_be16 (take 2 (drop (2 * i) data)))) [0..<len div 2] t"

lemma fold_carry_step:
  assumes "drop_bit 16 (t :: u32) \<noteq> 0"
  shows "unat ((t AND 0xFFFF) + drop_bit 16 t) = unat t mod 65536 + unat t div 65536"
    and "unat t mod 65536 + unat t div 65536 < unat t"
proof -
  have "t AND 0xFFFF = take_bit 16 t" by (simp add: take_bit_eq_mask mask_eq_exp_minus_1)
  then have a: "unat (t AND 0xFFFF) = unat t mod 65536"
    by (simp add: take_bit_eq_mod unat_mod)
  have b: "unat (drop_bit 16 t) = unat t div 65536"
    by (simp add: drop_bit_eq_div unat_div)
  have "unat t < 65536 * 65536" using unat_bound [of t] by simp
  then have "unat t div 65536 < 65536" by (rule less_mult_imp_div_less)
  moreover have "unat t mod 65536 < 65536" by simp
  ultimately have "unat t mod 65536 + unat t div 65536 < 2 ^ LENGTH(32)" by simp
  then show "unat ((t AND 0xFFFF) + drop_bit 16 t) = unat t mod 65536 + unat t div 65536"
    using a b by (simp add: unat_word_ariths)
  have "unat t div 65536 \<noteq> 0" using assms b by (metis unat_eq_zero)
  then show "unat t mod 65536 + unat t div 65536 < unat t"
    using div_mult_mod_eq [of "unat t" 65536] by linarith
qed

function fold_carry :: "u32 \<Rightarrow> u32" where
  "fold_carry t = (if drop_bit 16 t \<noteq> 0 then fold_carry ((t AND 0xFFFF) + drop_bit 16 t) else t)"
  by auto
termination
  by (relation "measure unat") (auto simp: fold_carry_step)

declare fold_carry.simps [simp del]

definition ipv4_checksum :: "ipv4_header \<Rightarrow> byte list \<Rightarrow> u16" where
  "ipv4_checksum header extra =
     (let t = sum_be16 (ipv4_header_bytes header) sizeof_ipv4_header 0;
          t = sum_be16 extra (length extra) t;
          t = fold_carry t
      in hton16 (ucast (NOT t)))"

definition udp_checksum_summer :: "byte list \<Rightarrow> nat \<Rightarrow> u32" where
  "udp_checksum_summer data len = sum_be16 data len 0"

text \<open>The part of \<^verbatim>\<open>udp_checksum\<close> and \<^verbatim>\<open>udp_ip6_checksum\<close> after the pseudo header; \<open>plen\<close> is the \<^verbatim>\<open>uint16_t\<close> length.\<close>

definition udp_checksum_rest :: "udp_header \<Rightarrow> byte list \<Rightarrow> nat \<Rightarrow> u32 \<Rightarrow> u16" where
  "udp_checksum_rest header payload plen t =
     (let t = t + udp_checksum_summer (udp_header_bytes header) sizeof_udp_header;
          t = (if plen mod 2 = 0 then t + udp_checksum_summer payload plen
               else t + udp_checksum_summer payload (plen - 1)
                      + udp_checksum_summer (bytes16 (hton16 (push_bit 8 (ucast (payload ! (plen - 1)))))) 2);
          t = fold_carry t;
          t = (if t = 0 then 0xFFFF else t)
      in hton16 (ucast (NOT t)))"

definition udp_checksum :: "udp_header \<Rightarrow> byte list \<Rightarrow> u32 \<Rightarrow> u32 \<Rightarrow> u16" where
  "udp_checksum header payload source_addr dest_addr =
     (let plen = unat (word_of_nat (length payload) :: u16);
          t = udp_checksum_summer (bytes32 source_addr) 4 + udp_checksum_summer (bytes32 dest_addr) 4
            + udp_checksum_summer (bytes16 (hton16 (word_of_nat IPV4_PROTOCOL_UDP))) 2
            + udp_checksum_summer (bytes16 (hton16 (word_of_nat (sizeof_udp_header + plen)))) 2
      in udp_checksum_rest header payload plen t)"

definition udp_ip6_checksum :: "udp_header \<Rightarrow> byte list \<Rightarrow> byte list \<Rightarrow> byte list \<Rightarrow> u16" where
  "udp_ip6_checksum header payload source_addr dest_addr =
     (let plen = unat (word_of_nat (length payload) :: u16);
          t = udp_checksum_summer source_addr 16 + udp_checksum_summer dest_addr 16
            + udp_checksum_summer (bytes32 (hton32 (word_of_nat (sizeof_udp_header + plen)))) 4
            + udp_checksum_summer (bytes32 (hton32 (word_of_nat IPV6_NEXT_UDP))) 4
      in udp_checksum_rest header payload plen t)"

section \<open>Checks\<close>

definition ipv4_check :: "byte list \<Rightarrow> (ipv4_header \<times> byte list) option" where
  "ipv4_check data =
     (if length data < sizeof_ipv4_header then None
      else
        let h = ipv4_header_read data
        in if IPV4_GET_VERSION h \<noteq> 4 then None
           else
             let header_len = IPV4_GET_IHL h * 4
             in if header_len < sizeof_ipv4_header then None
                else if header_len > length data then None
                else
                  let total_length = unat (ntoh16 (ip4_total_length h))
                  in if total_length < header_len then None
                     else if total_length > length data then None
                     else
                       let computed = ipv4_checksum (h\<lparr>ip4_checksum := hton16 0\<rparr>)
                             (take (header_len - sizeof_ipv4_header) (drop sizeof_ipv4_header data))
                       in if ip4_checksum h \<noteq> computed then None
                          else Some (h, take (total_length - header_len) (drop header_len data)))"

definition ipv6_check :: "byte list \<Rightarrow> (ipv6_header \<times> byte list) option" where
  "ipv6_check data =
     (if length data < sizeof_ipv6_header then None
      else
        let h = ipv6_header_read data
        in if drop_bit 4 (ntoh8 (ip6_version4_tc4 h)) \<noteq> 6 then None
           else
             let payload_length = unat (ntoh16 (ip6_payload_length h))
             in if payload_length > length data - sizeof_ipv6_header then None
                else Some (h, take payload_length (drop sizeof_ipv6_header data)))"

definition udp_check :: "byte list \<Rightarrow> (udp_header \<times> byte list) option" where
  "udp_check data =
     (if length data < sizeof_udp_header then None
      else
        let h = udp_header_read data; data = drop sizeof_udp_header data; len = unat (ntoh16 (udp_length h))
        in if len < sizeof_udp_header then None
           else if len > sizeof_udp_header + length data then None
           else Some (h, take (len - sizeof_udp_header) data))"

section \<open>The one's complement sum\<close>

fun words_sum :: "byte list \<Rightarrow> nat" where
  "words_sum [] = 0"
| "words_sum [a] = 256 * unat a"
| "words_sum (a # b # r) = 256 * unat a + unat b + words_sum r"

lemma words_sum_append: "even (length xs) \<Longrightarrow> words_sum (xs @ ys) = words_sum xs + words_sum ys"
  by (induction xs rule: words_sum.induct) auto

lemma read_be16_unat: "unat (badvpn_read_be16 [a, b]) = 256 * unat a + unat b"
proof -
  have "badvpn_read_be16 [a, b] = push_bit 8 (ucast a) + ucast b"
    unfolding badvpn_read_be16_def
    by (subst disjunctive_add_eq_or) (use bit_imp_le_length [of b] in \<open>force intro!: bit_eqI simp: bit_simps\<close>)+
  moreover have "unat (push_bit 8 (ucast a :: u16)) = 256 * unat a"
    using unat_bound [of a]
    by (simp add: push_bit_eq_mult unat_word_ariths unsigned_ucast_eq take_bit_nat_eq_self)
  moreover have "unat (ucast b :: u16) = unat b"
    using unat_bound [of b] by (simp add: unsigned_ucast_eq take_bit_eq_mod)
  ultimately show ?thesis
    using unat_bound [of a] unat_bound [of b] by (simp add: unat_word_ariths)
qed

lemma read_be16_le: "unat (badvpn_read_be16 [a, b]) \<le> 65535"
  using unat_bound [of "badvpn_read_be16 [a, b]"] by simp

lemma words_sum_le: "words_sum xs \<le> 65535 * ((length xs + 1) div 2)"
proof (induction xs rule: words_sum.induct)
  case (2 a)
  then show ?case using unat_bound [of a] by simp
next
  case (3 a b r)
  then show ?case using read_be16_le [of a b] by (simp add: read_be16_unat)
qed simp

lemma words_sum_bound: "length xs \<le> 2 * n \<Longrightarrow> words_sum xs \<le> 65535 * n"
  using words_sum_le [of xs] mult_le_mono2 [of "(length xs + 1) div 2" n 65535] by linarith

lemma take_Suc_Suc: "Suc (Suc n) \<le> length d \<Longrightarrow> \<exists>a b. drop n d = a # b # drop (Suc (Suc n)) d
    \<and> take (Suc (Suc n)) d = take n d @ [a, b]"
  by (metis Cons_nth_drop_Suc Suc_leD Suc_le_lessD append.assoc append_Cons append_Nil take_Suc_conv_app_nth)

lemma sum_be16_unat:
  assumes "2 * n \<le> length d" "unat t + 65535 * n < 2 ^ 32"
  shows "unat (fold (\<lambda>i t. t + ucast (badvpn_read_be16 (take 2 (drop (2 * i) d)))) [0..<n] t)
    = unat (t :: u32) + words_sum (take (2 * n) d)
    \<and> words_sum (take (2 * n) d) \<le> 65535 * n"
  using assms
proof (induction n)
  case (Suc n)
  let ?u = "fold (\<lambda>i t. t + ucast (badvpn_read_be16 (take 2 (drop (2 * i) d)))) [0..<n] t"
  obtain a b where ab: "drop (2 * n) d = a # b # drop (Suc (Suc (2 * n))) d"
    "take (Suc (Suc (2 * n))) d = take (2 * n) d @ [a, b]" using take_Suc_Suc [of "2 * n" d] Suc.prems(1) by auto
  have IH: "unat ?u = unat t + words_sum (take (2 * n) d)" "words_sum (take (2 * n) d) \<le> 65535 * n"
    using Suc by auto
  have w: "words_sum (take (2 * Suc n) d) = words_sum (take (2 * n) d) + unat (badvpn_read_be16 [a, b])"
    using ab(2) Suc.prems(1) by (simp add: words_sum_append read_be16_unat)
  have c: "unat (ucast (badvpn_read_be16 [a, b]) :: u32) = unat (badvpn_read_be16 [a, b])"
    using read_be16_le [of a b] by (simp add: unsigned_ucast_eq take_bit_eq_mod)
  have "unat (?u + ucast (badvpn_read_be16 [a, b])) = unat ?u + unat (badvpn_read_be16 [a, b])"
    using IH c read_be16_le [of a b] Suc.prems(2) by (subst unat_add_lem [THEN iffD1]) auto
  then show ?case using IH w read_be16_le [of a b] ab(1) by simp
qed simp

lemma sum_be16_words:
  assumes "even len" "len \<le> length d" "unat t + 65535 * (len div 2) < 2 ^ 32"
  shows "unat (sum_be16 d len t) = unat t + words_sum (take len d)"
  using sum_be16_unat [of "len div 2" d t] assms by (simp add: sum_be16_def)

lemma summer_words:
  assumes "even len" "len \<le> length d" "len \<le> 65536"
  shows "unat (udp_checksum_summer d len) = words_sum (take len d)"
  using sum_be16_words [of len d 0] assms by (simp add: udp_checksum_summer_def)

lemma fold_carry_result:
  "unat (fold_carry t) < 65536 \<and> unat (fold_carry t) mod 65535 = unat t mod 65535
    \<and> (unat (fold_carry t) = 0 \<longleftrightarrow> unat t = 0)"
proof (induction t rule: fold_carry.induct)
  case (1 t)
  show ?case
  proof (cases "drop_bit 16 t = 0")
    case True
    then have "unat t div 65536 = 0" 
      using unat_div [of t 65536] by (simp add: drop_bit_eq_div)
    then show ?thesis using True by (subst (1 2 3) fold_carry.simps) simp
  next
    case False
    note s = fold_carry_step [OF False]
    have m: "(unat t mod 65536 + unat t div 65536) mod 65535 = unat t mod 65535"
    proof -
      have "unat t = (unat t mod 65536 + unat t div 65536) + 65535 * (unat t div 65536)"
        using div_mult_mod_eq [of "unat t" 65536] by linarith
      then show ?thesis by (metis mod_mult_self2)
    qed
    have z: "unat t mod 65536 + unat t div 65536 = 0 \<longleftrightarrow> unat t = 0"
      using div_mult_mod_eq [of "unat t" 65536] by linarith
    have "fold_carry t = fold_carry ((t AND 0xFFFF) + drop_bit 16 t)" using False by (subst fold_carry.simps) simp
    then show ?thesis using "1.IH" [OF False] s(1) m z by simp
  qed
qed

lemma words_sum_bytes16: "words_sum (bytes16 x) = unat (ntoh16 x)"
  using read_be16_bytes16 [of x] by (simp add: bytes16_def flip: read_be16_unat)

lemma hton16_0 [simp]: "hton16 0 = 0" "ntoh16 0 = 0"
  by (simp_all add: byteorder_defs badvpn_reverse16_def bytes16_def word16_def)

lemma ntoh16_ffff: "unat (ntoh16 c) \<noteq> 65535 \<longleftrightarrow> c \<noteq> 0xFFFF"
proof -
  have "hton16 0xFFFF = 0xFFFF"
    by (simp add: byteorder_defs badvpn_reverse16_def bytes16_def word16_def)
  then have "c = 0xFFFF \<longleftrightarrow> ntoh16 c = 0xFFFF" by (metis hton16_ntoh16 ntoh16_hton16)
  also have "\<dots> \<longleftrightarrow> unat (ntoh16 c) = unat (0xFFFF :: u16)" by (metis unsigned_word_eqI)
  finally show ?thesis by simp
qed

lemma complement_carry:
  "unat (ucast (NOT (fold_carry t)) :: u16) = 65535 - unat (fold_carry t)"
proof -
  let ?f = "fold_carry t"
  have f: "unat ?f < 65536" using fold_carry_result by blast
  have m: "(-1 :: u32) = 4294967295" by simp
  have "unat (NOT ?f) = unat (4294967295 - ?f)"
    unfolding m [symmetric] not_eq_complement by (rule arg_cong [of _ _ unat]) simp
  also have "\<dots> = 4294967295 - unat ?f"
    using f by (subst unat_sub) (auto simp: word_le_nat_alt)
  finally have "unat (NOT ?f) = 4294967295 - unat ?f" .
  then have "unat (ucast (NOT ?f) :: u16) = (4294967295 - unat ?f) mod 65536"
    by (simp add: unsigned_ucast_eq take_bit_eq_mod)
  also have "\<dots> = (65535 - unat ?f + 65535 * 65536) mod 65536" using f by simp
  also have "\<dots> = 65535 - unat ?f" by (simp only: mod_mult_self1) simp
  finally show ?thesis by simp
qed

lemma complement_iff:
  assumes "f < 65536" "f mod 65535 = S mod 65535" "f \<noteq> 0" "c < (65536::nat)"
  shows "c = 65535 - f \<longleftrightarrow> (S + c) mod 65535 = 0 \<and> c \<noteq> 65535"
proof -
  have "(S + c) mod 65535 = (f + c) mod 65535" using assms(2) by (metis mod_add_left_eq)
  moreover have "(f + c) mod 65535 = 0 \<longleftrightarrow> f + c = 65535 \<or> f + c = 131070"
    using assms by (auto simp: mod_eq_0_iff_dvd dvd_def)
  ultimately show ?thesis using assms by auto
qed

lemma ipv4_header_bytes_read:
  assumes "20 \<le> length d" shows "ipv4_header_bytes (ipv4_header_read d) = take 20 d"
proof -
  have two: "[d ! i, d ! Suc i] = take 2 (drop i d)" if "Suc i < 20" for i
    using that assms by (intro nth_equalityI) (auto simp: nth_Cons' less_Suc_eq)
  have "take 20 d = take 2 (drop 0 d) @ take 2 (drop 2 d) @ take 2 (drop 4 d) @ take 2 (drop 6 d) @ take 2 (drop 8 d)
      @ take 2 (drop 10 d) @ take 4 (drop 12 d) @ take 4 (drop 16 d)"
    using take_add [of 2 18 d] take_add [of 2 16 "drop 2 d"] take_add [of 2 14 "drop 4 d"] take_add [of 2 12 "drop 6 d"]
      take_add [of 2 10 "drop 8 d"] take_add [of 2 8 "drop 10 d"] take_add [of 4 4 "drop 12 d"] by simp
  then show ?thesis using assms two [of 0] two [of 8]
    by (simp add: ipv4_header_bytes_def ipv4_header_read_def bytes16_word16 bytes32_word32 flip: two)
qed

lemma length_ipv4_header_bytes [simp]: "length (ipv4_header_bytes h) = 20"
  by (simp add: ipv4_header_bytes_def)

lemma length_udp_header_bytes [simp]: "length (udp_header_bytes h) = 8"
  by (simp add: udp_header_bytes_def)

lemma ipv4_header_read_bytes: "ipv4_header_read (ipv4_header_bytes h @ r) = h"
  by (simp add: ipv4_header_read_def ipv4_header_bytes_def nth_append)

lemma udp_header_read_bytes: "udp_header_read (udp_header_bytes h @ r) = h"
  by (simp add: udp_header_read_def udp_header_bytes_def)

lemma ipv6_header_read_bytes:
  "length (ip6_source_address h) = 16 \<Longrightarrow> length (ip6_destination_address h) = 16 \<Longrightarrow>
    ipv6_header_read (ipv6_header_bytes h @ r) = h"
  by (simp add: ipv6_header_read_def ipv6_header_bytes_def nth_append)

lemma words_sum_ipv4_checksum:
  "words_sum (ipv4_header_bytes h) = words_sum (ipv4_header_bytes (h\<lparr>ip4_checksum := 0\<rparr>)) + unat (ntoh16 (ip4_checksum h))"
  by (simp add: ipv4_header_bytes_def words_sum_append words_sum_bytes16)

lemma words_sum_udp_checksum:
  "words_sum (udp_header_bytes h) = words_sum (udp_header_bytes (h\<lparr>udp_cksum := 0\<rparr>)) + unat (ntoh16 (udp_cksum h))"
  by (simp add: udp_header_bytes_def words_sum_append words_sum_bytes16)

section \<open>Checksums against the reference\<close>

definition pseudo_header4 :: "u32 \<Rightarrow> u32 \<Rightarrow> nat \<Rightarrow> byte list" where
  "pseudo_header4 src dst plen = bytes32 src @ bytes32 dst @ bytes16 (hton16 17) @ bytes16 (hton16 (word_of_nat (8 + plen)))"

definition pseudo_header6 :: "byte list \<Rightarrow> byte list \<Rightarrow> nat \<Rightarrow> byte list" where
  "pseudo_header6 src dst plen = src @ dst @ bytes32 (hton32 (word_of_nat (8 + plen))) @ bytes32 (hton32 17)"

lemma ipv4_checksum_words:
  assumes "even (length extra)" "length extra \<le> 40" "words_sum (ipv4_header_bytes h @ extra) \<noteq> 0"
  shows "\<exists>f. unat (ntoh16 (ipv4_checksum h extra)) = 65535 - f \<and> f < 65536 \<and> f \<noteq> 0
    \<and> f mod 65535 = words_sum (ipv4_header_bytes h @ extra) mod 65535"
proof -
  define t where "t = sum_be16 extra (length extra) (sum_be16 (ipv4_header_bytes h) sizeof_ipv4_header 0)"
  have u: "unat (sum_be16 (ipv4_header_bytes h) sizeof_ipv4_header 0) = words_sum (ipv4_header_bytes h)"
    using sum_be16_words [of 20 "ipv4_header_bytes h" 0] by (simp add: sizeof_headers)
  have "words_sum (ipv4_header_bytes h) \<le> 65535 * 10" using words_sum_le [of "ipv4_header_bytes h"] by simp
  then have "unat t = words_sum (ipv4_header_bytes h @ extra)"
    unfolding t_def using u assms
    by (subst sum_be16_words) (auto simp: words_sum_append)
  then show ?thesis using fold_carry_result [of t] assms(3)
    by (intro exI [of _ "unat (fold_carry t)"]) (simp add: ipv4_checksum_def Let_def complement_carry flip: t_def)
qed

lemma checksum_field_iff:
  assumes "unat (ntoh16 c') = 65535 - f" "f < 65536" "f \<noteq> 0" "f mod 65535 = S mod 65535"
    "S' = S + unat (ntoh16 c)"
  shows "c = c' \<longleftrightarrow> S' mod 65535 = 0 \<and> c \<noteq> 0xFFFF"
proof -
  have "c = c' \<longleftrightarrow> unat (ntoh16 c) = 65535 - f"
    unfolding assms(1) [symmetric] by (metis hton16_ntoh16 unsigned_word_eqI)
  also have "\<dots> \<longleftrightarrow> S' mod 65535 = 0 \<and> unat (ntoh16 c) \<noteq> 65535"
    unfolding assms(5) using complement_iff [OF assms(2,4,3), of "unat (ntoh16 c)"] unat_bound [of "ntoh16 c"] by simp
  finally show ?thesis by (simp only: ntoh16_ffff)
qed

text \<open>A received header carries the checksum the code computes exactly if its words, checksum included, sum to zero.\<close>

lemma ipv4_checksum_iff:
  assumes "even (length extra)" "length extra \<le> 40" "words_sum (ipv4_header_bytes (h\<lparr>ip4_checksum := 0\<rparr>)) \<noteq> 0"
  shows "ip4_checksum h = ipv4_checksum (h\<lparr>ip4_checksum := 0\<rparr>) extra \<longleftrightarrow>
    words_sum (ipv4_header_bytes h @ extra) mod 65535 = 0 \<and> ip4_checksum h \<noteq> 0xFFFF"
proof -
  let ?h = "h\<lparr>ip4_checksum := 0\<rparr>"
  obtain f where f: "unat (ntoh16 (ipv4_checksum ?h extra)) = 65535 - f" "f < 65536" "f \<noteq> 0"
      "f mod 65535 = words_sum (ipv4_header_bytes ?h @ extra) mod 65535"
    using ipv4_checksum_words [of extra ?h] assms by (auto simp: words_sum_append)
  then show ?thesis
    by (rule checksum_field_iff) (use words_sum_ipv4_checksum [of h] in \<open>simp add: words_sum_append\<close>)
qed

lemma unat_add_small: "unat (a :: u32) + unat b < 4294967296 \<Longrightarrow> unat (a + b) = unat a + unat b"
  by (subst unat_add_lem [THEN iffD1]) auto

lemma unat_add4_small:
  assumes "unat (a :: u32) + unat b + unat c + unat d < 4294967296"
  shows "unat (a + b + c + d) = unat a + unat b + unat c + unat d"
proof -
  have "unat (a + b) = unat a + unat b" using assms by (intro unat_add_small) simp
  moreover from this have "unat (a + b + c) = unat a + unat b + unat c" using assms unat_add_small [of "a + b" c] by simp
  ultimately show ?thesis using assms unat_add_small [of "a + b + c" d] by simp
qed

lemma summer_add4:
  assumes "even (length a)" "even (length b)" "even (length c)" "even (length d)"
    "length a + length b + length c + length d \<le> 40"
  shows "unat (udp_checksum_summer a (length a) + udp_checksum_summer b (length b)
      + udp_checksum_summer c (length c) + udp_checksum_summer d (length d)) = words_sum (a @ b @ c @ d)"
proof -
  have s: "unat (udp_checksum_summer x (length x)) = words_sum x" if "even (length x)" "length x \<le> 40" for x
    using summer_words [of "length x" x] that by simp
  have "words_sum (a @ b @ c @ d) \<le> 65535 * 20" using assms(5) by (intro words_sum_bound) simp
  then have "words_sum a + words_sum b + words_sum c + words_sum d \<le> 65535 * 20"
    using assms(1-4) by (simp add: words_sum_append)
  then show ?thesis using assms s [of a] s [of b] s [of c] s [of d] by (subst unat_add4_small) (simp_all add: words_sum_append)
qed

lemma words_sum_last:
  assumes "odd (length xs)"
  shows "words_sum xs = words_sum (take (length xs - 1) xs) + 256 * unat (xs ! (length xs - 1))"
proof -
  have "xs = take (length xs - 1) xs @ [xs ! (length xs - 1)]"
    using assms by (cases xs rule: rev_cases) (auto simp: nth_append)
  then show ?thesis using assms words_sum_append [of "take (length xs - 1) xs" "[xs ! (length xs - 1)]"] by simp
qed

lemma summer_last: "unat (udp_checksum_summer (bytes16 (hton16 (push_bit 8 (ucast (b :: byte))))) 2) = 256 * unat b"
proof -
  have "unat (udp_checksum_summer (bytes16 (hton16 (push_bit 8 (ucast b)))) 2) = unat (push_bit 8 (ucast b) :: u16)"
    by (subst summer_words) (simp_all add: words_sum_bytes16)
  also have "\<dots> = 256 * unat b"
    using unat_bound [of b] by (simp add: push_bit_eq_mult unat_word_ariths unsigned_ucast_eq take_bit_nat_eq_self)
  finally show ?thesis .
qed

lemma udp_payload_sum:
  assumes "length payload \<le> 65527" and that: "unat t \<le> 1638375"
  shows "unat (if length payload mod 2 = 0 then t + udp_checksum_summer payload (length payload)
               else t + udp_checksum_summer payload (length payload - 1)
                 + udp_checksum_summer (bytes16 (hton16 (push_bit 8 (ucast (payload ! (length payload - 1)))))) 2)
    = unat t + words_sum payload"
proof -
  have b: "words_sum payload \<le> 65535 * 32764"
    using assms by (intro words_sum_bound) simp
  show ?thesis
  proof (cases "even (length payload)")
    case True
    then have s: "unat (udp_checksum_summer payload (length payload)) = words_sum payload"
      using summer_words [of "length payload" payload] assms by simp
    then show ?thesis using that b True by (simp add: even_iff_mod_2_eq_zero unat_add_small)
  next
    case False
    then have e: "unat (udp_checksum_summer payload (length payload - 1)) = words_sum (take (length payload - 1) payload)"
      using summer_words [of "length payload - 1" payload] assms by simp
    note l = words_sum_last [OF False]
    have a: "unat (t + udp_checksum_summer payload (length payload - 1)) = unat t + words_sum (take (length payload - 1) payload)"
      using that b l e by (subst unat_add_small) auto
    then show ?thesis using that b l False summer_last [of "payload ! (length payload - 1)"]
      by (simp add: even_iff_mod_2_eq_zero unat_add_small)
  qed
qed

lemma udp_checksum_rest_words:
  assumes len: "length payload \<le> 65527" and t: "unat t = words_sum P" "even (length P)" "length P \<le> 40"
    and nz: "words_sum P \<noteq> 0"
  shows "\<exists>f. unat (ntoh16 (udp_checksum_rest h payload (length payload) t)) = 65535 - f \<and> f < 65536 \<and> f \<noteq> 0
    \<and> f mod 65535 = words_sum (P @ udp_header_bytes h @ payload) mod 65535"
proof -
  define t1 where "t1 = t + udp_checksum_summer (udp_header_bytes h) sizeof_udp_header"
  define t2 where "t2 = (if length payload mod 2 = 0 then t1 + udp_checksum_summer payload (length payload)
               else t1 + udp_checksum_summer payload (length payload - 1)
                 + udp_checksum_summer (bytes16 (hton16 (push_bit 8 (ucast (payload ! (length payload - 1)))))) 2)"
  have P: "words_sum P \<le> 65535 * 20" using t(3) by (intro words_sum_bound) simp
  have U: "words_sum (udp_header_bytes h) \<le> 65535 * 4" using words_sum_le [of "udp_header_bytes h"] by simp
  have s: "unat (udp_checksum_summer (udp_header_bytes h) sizeof_udp_header) = words_sum (udp_header_bytes h)"
    by (subst summer_words) (simp_all add: sizeof_headers)
  have t1: "unat t1 = words_sum (P @ udp_header_bytes h)"
    unfolding t1_def using P U s t by (subst unat_add_small) (auto simp: words_sum_append)
  then have "unat t1 \<le> 1638375" using P U t(2) by (simp add: words_sum_append)
  then have "unat t2 = words_sum (P @ udp_header_bytes h @ payload)"
    unfolding t2_def using udp_payload_sum [OF len] t1 t(2) by (simp add: words_sum_append)
  moreover from this have "unat (fold_carry t2) \<noteq> 0" using fold_carry_result [of t2] nz t(2) by (simp add: words_sum_append)
  ultimately show ?thesis using fold_carry_result [of t2]
    by (intro exI [of _ "unat (fold_carry t2)"])
      (auto simp: udp_checksum_rest_def Let_def complement_carry simp flip: t1_def t2_def)
qed

lemma udp_rest_iff:
  assumes "length payload \<le> 65527" "unat t = words_sum P" "even (length P)" "length P \<le> 40" "words_sum P \<noteq> 0"
  shows "udp_cksum h = udp_checksum_rest (h\<lparr>udp_cksum := 0\<rparr>) payload (length payload) t \<longleftrightarrow>
    words_sum (P @ udp_header_bytes h @ payload) mod 65535 = 0 \<and> udp_cksum h \<noteq> 0xFFFF"
proof -
  obtain f where "unat (ntoh16 (udp_checksum_rest (h\<lparr>udp_cksum := 0\<rparr>) payload (length payload) t)) = 65535 - f"
    "f < 65536" "f \<noteq> 0" "f mod 65535 = words_sum (P @ udp_header_bytes (h\<lparr>udp_cksum := 0\<rparr>) @ payload) mod 65535"
    using udp_checksum_rest_words [OF assms] by blast
  then show ?thesis
    by (rule checksum_field_iff) (use assms(3) words_sum_udp_checksum [of h] in \<open>simp add: words_sum_append\<close>)
qed

lemma plen_small: "length payload \<le> 65527 \<Longrightarrow> unat (word_of_nat (length payload) :: u16) = length payload"
  by (simp add: unat_of_nat)

lemma udp_checksum_iff:
  assumes "length payload \<le> 65527"
  shows "udp_cksum h = udp_checksum (h\<lparr>udp_cksum := 0\<rparr>) payload s d \<longleftrightarrow>
    words_sum (pseudo_header4 s d (length payload) @ udp_header_bytes h @ payload) mod 65535 = 0 \<and> udp_cksum h \<noteq> 0xFFFF"
proof -
  let ?P = "pseudo_header4 s d (length payload)"
  let ?t = "udp_checksum_summer (bytes32 s) 4 + udp_checksum_summer (bytes32 d) 4
            + udp_checksum_summer (bytes16 (hton16 (word_of_nat IPV4_PROTOCOL_UDP))) 2
            + udp_checksum_summer (bytes16 (hton16 (word_of_nat (sizeof_udp_header + length payload)))) 2"
  have 1: "unat ?t = words_sum ?P"
    using summer_add4 [of "bytes32 s" "bytes32 d" "bytes16 (hton16 (word_of_nat IPV4_PROTOCOL_UDP))"
        "bytes16 (hton16 (word_of_nat (sizeof_udp_header + length payload)))"]
    unfolding pseudo_header4_def IPV4_PROTOCOL_UDP_def sizeof_headers by simp
  have 4: "words_sum ?P \<noteq> 0" by (simp add: pseudo_header4_def words_sum_append words_sum_bytes16)
  have 2: "even (length ?P)" "length ?P \<le> 40" by (simp_all add: pseudo_header4_def)
  have "udp_cksum h = udp_checksum_rest (h\<lparr>udp_cksum := 0\<rparr>) payload (length payload) ?t \<longleftrightarrow>
    words_sum (?P @ udp_header_bytes h @ payload) mod 65535 = 0 \<and> udp_cksum h \<noteq> 0xFFFF"
    by (rule udp_rest_iff [OF assms 1 2 4])
  then show ?thesis using plen_small [OF assms] by (simp add: udp_checksum_def Let_def)
qed

lemma udp_ip6_checksum_iff:
  assumes "length payload \<le> 65527" "length s = 16" "length d = 16"
  shows "udp_cksum h = udp_ip6_checksum (h\<lparr>udp_cksum := 0\<rparr>) payload s d \<longleftrightarrow>
    words_sum (pseudo_header6 s d (length payload) @ udp_header_bytes h @ payload) mod 65535 = 0 \<and> udp_cksum h \<noteq> 0xFFFF"
proof -
  let ?P = "pseudo_header6 s d (length payload)"
  let ?t = "udp_checksum_summer s 16 + udp_checksum_summer d 16
            + udp_checksum_summer (bytes32 (hton32 (word_of_nat (sizeof_udp_header + length payload)))) 4
            + udp_checksum_summer (bytes32 (hton32 (word_of_nat IPV6_NEXT_UDP))) 4"
  have 1: "unat ?t = words_sum ?P"
    using summer_add4 [of s d "bytes32 (hton32 (word_of_nat (sizeof_udp_header + length payload)))"
        "bytes32 (hton32 (word_of_nat IPV6_NEXT_UDP))"] assms(2,3)
    unfolding pseudo_header6_def IPV6_NEXT_UDP_def sizeof_headers by simp
  have "words_sum (bytes32 (hton32 17)) \<noteq> 0"
    by (simp add: byteorder_defs badvpn_reverse32_def bytes32_word32) (simp add: bytes32_def)
  then have 4: "words_sum ?P \<noteq> 0" using assms by (simp add: pseudo_header6_def words_sum_append)
  have 2: "even (length ?P)" "length ?P \<le> 40" using assms by (simp_all add: pseudo_header6_def)
  have "udp_cksum h = udp_checksum_rest (h\<lparr>udp_cksum := 0\<rparr>) payload (length payload) ?t \<longleftrightarrow>
    words_sum (?P @ udp_header_bytes h @ payload) mod 65535 = 0 \<and> udp_cksum h \<noteq> 0xFFFF"
    by (rule udp_rest_iff [OF assms(1) 1 2 4])
  then show ?thesis using plen_small [OF assms(1)] by (simp add: udp_ip6_checksum_def Let_def)
qed

lemma ihl_le: "IPV4_GET_IHL h \<le> 15"
proof -
  have "ip4_version4_ihl4 h AND 0x0F = take_bit 4 (ip4_version4_ihl4 h)" by (simp add: take_bit_eq_mask mask_eq_exp_minus_1)
  then show ?thesis by (simp add: IPV4_GET_IHL_def take_bit_eq_mod unat_mod)
qed

lemma version_nonzero:
  assumes "IPV4_GET_VERSION h = 4"
  shows "words_sum (ipv4_header_bytes (h\<lparr>ip4_checksum := c\<rparr>)) \<noteq> 0"
proof -
  have "ip4_version4_ihl4 h \<noteq> 0" using assms by (auto simp: IPV4_GET_VERSION_def)
  then show ?thesis by (simp add: ipv4_header_bytes_def unat_eq_zero)
qed

lemma udp_checksum_eq:
  assumes "length payload \<le> 65527"
    "words_sum (pseudo_header4 s d (length payload) @ udp_header_bytes h @ payload) mod 65535 = 0" "udp_cksum h \<noteq> 0xFFFF"
  shows "udp_checksum (h\<lparr>udp_cksum := 0\<rparr>) payload s d = udp_cksum h"
  using udp_checksum_iff [OF assms(1), of h s d] assms(2,3) by simp

text \<open>
  A sum of 65535 gives a computed checksum of zero, which is stored as zero: the substitution
  of \<^verbatim>\<open>UINT16_MAX\<close> tests the sum before its complement and never takes effect.
\<close>

lemma udp_checksum_sends_zero:
  "udp_checksum \<lparr>udp_source_port = hton16 65502, udp_dest_port = 0, udp_length = hton16 8, udp_cksum = 0\<rparr> [] 0 0 = 0"
proof -
  let ?h = "\<lparr>udp_source_port = hton16 65502, udp_dest_port = 0, udp_length = hton16 8, udp_cksum = 0\<rparr>"
  have z: "words_sum (bytes32 0) = 0" by (simp add: bytes32_def)
  have "words_sum (pseudo_header4 0 0 (length []) @ udp_header_bytes ?h @ []) mod 65535 = 0"
    by (simp add: pseudo_header4_def udp_header_bytes_def words_sum_append words_sum_bytes16 z)
  from udp_checksum_eq [OF _ this] show ?thesis by simp
qed

section \<open>Properties\<close>

text \<open>
  \<^verbatim>\<open>ipv4_check\<close> accepts exactly the well-formed IPv4 packets: the version is 4, the header has at
  least five words and lies in the packet, the total length is between the header and the received
  length, and the one's complement sum over the whole header, options and checksum included, is zero
  (RFC 1071); the value \<^verbatim>\<open>0xFFFF\<close> of the checksum field, the other representation of zero, is not
  accepted. The payload is what follows the header, without bytes beyond the total length.
\<close>

theorem ipv4_check_accepts:
  "ipv4_check data = Some (h, payload) \<longleftrightarrow>
     20 \<le> length data \<and> h = ipv4_header_read data
     \<and> IPV4_GET_VERSION h = 4 \<and> 5 \<le> IPV4_GET_IHL h
     \<and> IPV4_GET_IHL h * 4 \<le> unat (ntoh16 (ip4_total_length h)) \<and> unat (ntoh16 (ip4_total_length h)) \<le> length data
     \<and> words_sum (take (IPV4_GET_IHL h * 4) data) mod 65535 = 0 \<and> ip4_checksum h \<noteq> 0xFFFF
     \<and> payload = take (unat (ntoh16 (ip4_total_length h)) - IPV4_GET_IHL h * 4) (drop (IPV4_GET_IHL h * 4) data)"
proof (cases "20 \<le> length data \<and> IPV4_GET_VERSION (ipv4_header_read data) = 4 \<and> 5 \<le> IPV4_GET_IHL (ipv4_header_read data)
    \<and> IPV4_GET_IHL (ipv4_header_read data) * 4 \<le> length data")
  case True
  let ?r = "ipv4_header_read data" and ?n = "IPV4_GET_IHL (ipv4_header_read data) * 4"
  let ?extra = "take (?n - 20) (drop 20 data)"
  have e: "even (length ?extra)" "length ?extra \<le> 40" using True ihl_le [of ?r] by auto
  have "take ?n data = take 20 data @ ?extra" using True take_add [of 20 "?n - 20" data] by simp
  then have "take ?n data = ipv4_header_bytes ?r @ ?extra" using True ipv4_header_bytes_read [of data] by simp
  then have c: "ip4_checksum ?r = ipv4_checksum (?r\<lparr>ip4_checksum := 0\<rparr>) ?extra \<longleftrightarrow>
      words_sum (take ?n data) mod 65535 = 0 \<and> ip4_checksum ?r \<noteq> 0xFFFF"
    using ipv4_checksum_iff [OF e, of ?r] version_nonzero [of ?r 0] True by simp
  show ?thesis using True c by (auto simp: ipv4_check_def Let_def sizeof_headers)
next
  case False
  then show ?thesis by (auto simp: ipv4_check_def Let_def sizeof_headers)
qed

text \<open>
  C25: The UDP checksum routines verify the checksum of RFC 768: for IPv4 and IPv6, a received header
  carries the checksum computed with its checksum field cleared exactly when the one's complement
  sum over pseudo header, UDP header and payload, an odd byte padded with zero, is zero and the field
  is not \<^verbatim>\<open>0xFFFF\<close>; no 32-bit sum wraps around for any payload that fits a datagram.
\<close>

theorem udp_checksum_verifies:
  assumes "length payload \<le> 65527" and "length s6 = 16" and "length d6 = 16"
  shows "(udp_cksum h = udp_checksum (h\<lparr>udp_cksum := 0\<rparr>) payload s4 d4 \<longleftrightarrow>
      words_sum (pseudo_header4 s4 d4 (length payload) @ udp_header_bytes h @ payload) mod 65535 = 0
        \<and> udp_cksum h \<noteq> 0xFFFF)
    \<and> (udp_cksum h = udp_ip6_checksum (h\<lparr>udp_cksum := 0\<rparr>) payload s6 d6 \<longleftrightarrow>
      words_sum (pseudo_header6 s6 d6 (length payload) @ udp_header_bytes h @ payload) mod 65535 = 0
        \<and> udp_cksum h \<noteq> 0xFFFF)"
  by (rule conjI [OF udp_checksum_iff [OF assms(1)] udp_ip6_checksum_iff [OF assms]])

theorem udp_checksum_verifies_witness:
  "udp_checksum \<lparr>udp_source_port = hton16 65000, udp_dest_port = hton16 53, udp_length = hton16 9, udp_cksum = 0\<rparr> [1] 0 0
    = hton16 (65535 - 65000 - 53 - 9 - 17 - 9 - 256)"
proof -
  let ?h = "\<lparr>udp_source_port = hton16 65000, udp_dest_port = hton16 53, udp_length = hton16 9,
    udp_cksum = hton16 (65535 - 65000 - 53 - 9 - 17 - 9 - 256)\<rparr>"
  have z: "words_sum (bytes32 0) = 0" by (simp add: bytes32_def)
  have w: "words_sum (pseudo_header4 0 0 (length [1]) @ udp_header_bytes ?h @ [1 :: byte]) mod 65535 = 0"
    by (simp add: pseudo_header4_def udp_header_bytes_def words_sum_append words_sum_bytes16 z)
  have n: "hton16 (191 :: u16) \<noteq> 0xFFFF" using ntoh16_ffff [of "hton16 191"] by simp
  show ?thesis
    using udp_checksum_verifies [of "[1]" "replicate 16 0" "replicate 16 0" ?h 0 0] w n by simp
qed

end
