(* ===== verification/Tun_Device.thy ===== *)
theory Tun_Device
  imports BAddr Net_Proto
begin

text \<open>
  The device side of \<^verbatim>\<open>tun2socks/tun2socks.c\<close>: packets read from the TUN device
  (\<^verbatim>\<open>device_read_handler_send\<close>, \<^verbatim>\<open>process_device_dns_packet\<close>, \<^verbatim>\<open>process_device_udp_packet\<close>), packets
  written to it (\<^verbatim>\<open>common_netif_output\<close>, \<^verbatim>\<open>udpgw_client_handler_received\<close>) and the table of forwarded DNS
  queries. The file-scope variables these functions use are the record \<open>tun_state\<close>; what they call
  outside is listed in \<open>td_call\<close>. The AVL tree of queries is its in-order list of entries;
  \<open>td_live\<close> counts the \<^verbatim>\<open>Connection\<close> objects that are allocated and not freed. A packet buffer of lwIP
  is the list of the payloads of its chain; how lwIP splits a packet over a chain, and the results
  of lwIP calls, are arguments. A result of \<open>None\<close> is the use of a null pointer after a failed
  \<^verbatim>\<open>malloc\<close> that \<^verbatim>\<open>insert_connection\<close> does not check.
\<close>

section \<open>State\<close>

record Connection =
  dc_local_addr :: BAddr
  dc_remote_addr :: BAddr
  dc_port :: u16
  dc_count :: int

record tun_state =
  td_have_dnsgw :: bool
  td_dnsgw :: BAddr
  td_have_udpgw :: bool
  td_transparent_dns :: bool
  td_have_ip6addr :: bool
  td_netif_ipaddr :: u32
  td_udp_mtu :: int
  td_device_mtu :: int
  td_quitting :: bool
  td_dns_init :: bool
  td_connections :: "(u16 \<times> Connection) list"
  td_live :: int

datatype err_t = ERR_OK | ERR_MEM | ERR_ABRT | ERR_OTHER int

datatype td_call =
    TD_Read_Done
  | TD_Tap_Send "byte list"
  | TD_Udp_Submit BAddr BAddr bool "byte list"
  | TD_Ip_Input "byte list list"
  | TD_Ip6_Input "byte list list"
  | TD_Pbuf_Free
  | TD_Sync_Begin | TD_Sync_Commit

text \<open>An lwIP address: the tag \<^verbatim>\<open>is_ipv6\<close> of the pcb and the member of the union it selects.\<close>

datatype ipX_addr = IP4 u32 | IP6 "byte list"

definition baddr_from_lwip :: "ipX_addr \<Rightarrow> u16 \<Rightarrow> BAddr" where
  "baddr_from_lwip ipx port_hostorder =
     (case ipx of IP6 a \<Rightarrow> BAddr_MakeIPv6 a (hton16 port_hostorder)
                | IP4 a \<Rightarrow> BAddr_MakeIPv4 a (hton16 port_hostorder))"

text \<open>The fields \<^verbatim>\<open>ipv4.ip\<close> and \<^verbatim>\<open>ipv4.port\<close> of an address that holds an IPv4 address.\<close>

definition baddr_ipv4_ip :: "BAddr \<Rightarrow> u32" where
  "baddr_ipv4_ip a = (case a of BAddr_IPv4 ip port \<Rightarrow> ip | _ \<Rightarrow> 0)"

definition baddr_ipv4_port :: "BAddr \<Rightarrow> u16" where
  "baddr_ipv4_port a = (case a of BAddr_IPv4 ip port \<Rightarrow> port | _ \<Rightarrow> 0)"

section \<open>Forwarded DNS queries\<close>

definition port_comparator :: "u16 \<Rightarrow> u16 \<Rightarrow> int" where
  "port_comparator v1 v2 = (if v1 = v2 then 0 else if v1 > v2 then 1 else -1)"

definition find_connection :: "tun_state \<Rightarrow> u16 \<Rightarrow> Connection option" where
  "find_connection st port = map_of (td_connections st) port"

text \<open>The entry of \<open>port\<close> changed in place.\<close>

definition set_connection :: "u16 \<Rightarrow> Connection \<Rightarrow> tun_state \<Rightarrow> tun_state" where
  "set_connection port con st =
     st\<lparr>td_connections := map (\<lambda>(p, c). if p = port then (p, con) else (p, c)) (td_connections st)\<rparr>"

fun tree_insert :: "u16 \<Rightarrow> Connection \<Rightarrow> (u16 \<times> Connection) list \<Rightarrow> (u16 \<times> Connection) list" where
  "tree_insert k v [] = [(k, v)]"
| "tree_insert k v ((k', v') # t) =
     (if port_comparator k k' < 0 then (k, v) # (k', v') # t else (k', v') # tree_insert k v t)"

definition tree_remove :: "u16 \<Rightarrow> (u16 \<times> Connection) list \<Rightarrow> (u16 \<times> Connection) list" where
  "tree_remove k t = filter (\<lambda>(k', _). k' \<noteq> k) t"

definition remove_connection :: "Connection \<Rightarrow> tun_state \<Rightarrow> tun_state" where
  "remove_connection con st =
     (let con = con\<lparr>dc_count := dc_count con - 1\<rparr>; st = set_connection (dc_port con) con st
      in if dc_count con \<le> 0
         then st\<lparr>td_connections := tree_remove (dc_port con) (td_connections st), td_live := td_live st - 1\<rparr>
         else st)"

definition insert_connection :: "bool \<Rightarrow> BAddr \<Rightarrow> BAddr \<Rightarrow> u16 \<Rightarrow> tun_state \<Rightarrow> tun_state option" where
  "insert_connection malloc_ok local_addr remote_addr port st =
     (case find_connection st port of
        Some con \<Rightarrow> Some (set_connection port (con\<lparr>dc_count := dc_count con + 1\<rparr>) st)
      | None \<Rightarrow>
          if \<not> malloc_ok then None
          else Some (st\<lparr>td_connections := tree_insert port
                          \<lparr>dc_local_addr = local_addr, dc_remote_addr = remote_addr, dc_port = port, dc_count = 1\<rparr>
                          (td_connections st),
                       td_live := td_live st + 1\<rparr>))"

function free_connections :: "tun_state \<Rightarrow> tun_state" where
  "free_connections st =
     (if td_connections st = [] then st
      else free_connections
             (st\<lparr>td_connections := butlast (td_connections st)\<rparr>))"
  by auto
termination
  by (relation "measure (\<lambda>st. length (td_connections st))") auto

declare free_connections.simps [simp del]

section \<open>Packets from the device\<close>

definition ip_version :: "byte list \<Rightarrow> nat" where
  "ip_version data = (if length data > 0 then unat (drop_bit 4 (data ! 0)) else 0)"

text \<open>
  The code both packet handlers share for IPv4: only UDP, valid IPv4 and UDP headers, valid UDP
  checksum; the result is both headers, the UDP checksum cleared, and the payload.
\<close>

definition parse_device_udp4 :: "byte list \<Rightarrow> (ipv4_header \<times> udp_header \<times> byte list) option" where
  "parse_device_udp4 data =
     (if length data < sizeof_ipv4_header \<or> unat (data ! 9) \<noteq> IPV4_PROTOCOL_UDP then None
      else case ipv4_check data of
             None \<Rightarrow> None
           | Some (ipv4_header, data) \<Rightarrow>
               (case udp_check data of
                  None \<Rightarrow> None
                | Some (udp_header, data) \<Rightarrow>
                    let checksum_in_packet = udp_cksum udp_header;
                        udp_header = udp_header\<lparr>udp_cksum := 0\<rparr>;
                        checksum_computed = udp_checksum udp_header data (ip4_source_address ipv4_header)
                          (ip4_destination_address ipv4_header)
                    in if checksum_in_packet \<noteq> checksum_computed then None
                       else Some (ipv4_header, udp_header, data)))"

definition parse_device_udp6 :: "byte list \<Rightarrow> (ipv6_header \<times> udp_header \<times> byte list) option" where
  "parse_device_udp6 data =
     (if length data < sizeof_ipv6_header \<or> unat (data ! 6) \<noteq> IPV6_NEXT_UDP then None
      else case ipv6_check data of
             None \<Rightarrow> None
           | Some (ipv6_header, data) \<Rightarrow>
               (case udp_check data of
                  None \<Rightarrow> None
                | Some (udp_header, data) \<Rightarrow>
                    let checksum_in_packet = udp_cksum udp_header;
                        udp_header = udp_header\<lparr>udp_cksum := 0\<rparr>;
                        checksum_computed = udp_ip6_checksum udp_header data (ip6_source_address ipv6_header)
                          (ip6_destination_address ipv6_header)
                    in if checksum_in_packet \<noteq> checksum_computed then None
                       else Some (ipv6_header, udp_header, data)))"

text \<open>The end of \<^verbatim>\<open>process_device_dns_packet\<close>: both checksums recomputed, the packet assembled.\<close>

definition dns_packet :: "ipv4_header \<Rightarrow> udp_header \<Rightarrow> byte list \<Rightarrow> byte list" where
  "dns_packet ipv4_header udp_header data =
     (let ipv4_header = ipv4_header\<lparr>ip4_checksum := hton16 0\<rparr>;
          ipv4_header = ipv4_header\<lparr>ip4_checksum := ipv4_checksum ipv4_header []\<rparr>;
          udp_header = udp_header\<lparr>udp_cksum := hton16 0\<rparr>;
          udp_header = udp_header\<lparr>udp_cksum := udp_checksum udp_header data (ip4_source_address ipv4_header)
                         (ip4_destination_address ipv4_header)\<rparr>
      in ipv4_header_bytes ipv4_header @ udp_header_bytes udp_header @ data)"

definition process_device_dns_packet ::
    "bool \<Rightarrow> tun_state \<Rightarrow> byte list \<Rightarrow> (bool \<times> tun_state \<times> td_call list) option" where
  "process_device_dns_packet malloc_ok st data =
     (if \<not> td_have_dnsgw st then Some (False, st, [])
      else if ip_version data \<noteq> 4 then Some (False, st, [])
      else case parse_device_udp4 data of
             None \<Rightarrow> Some (False, st, [])
           | Some (ipv4_header, udp_header, data) \<Rightarrow>
               let to_dns = (udp_dest_port udp_header = hton16 53);
                   from_dns = (udp_source_port udp_header = baddr_ipv4_port (td_dnsgw st))
               in if \<not> to_dns \<and> \<not> from_dns then Some (False, st, [])
                  else if to_dns then
                    let st = (if \<not> td_dns_init st then st\<lparr>td_dns_init := True, td_connections := []\<rparr> else st);
                        local_addr = BAddr_MakeIPv4 (ip4_source_address ipv4_header) (udp_source_port udp_header);
                        remote_addr = BAddr_MakeIPv4 (ip4_destination_address ipv4_header) (udp_dest_port udp_header)
                    in (case insert_connection malloc_ok local_addr remote_addr (udp_source_port udp_header) st of
                          None \<Rightarrow> None
                        | Some st \<Rightarrow>
                            Some (True, st, [TD_Tap_Send (dns_packet
                              (ipv4_header\<lparr>ip4_destination_address := baddr_ipv4_ip (td_dnsgw st),
                                           ip4_source_address := td_netif_ipaddr st\<rparr>)
                              (udp_header\<lparr>udp_dest_port := baddr_ipv4_port (td_dnsgw st)\<rparr>) data)]))
                  else if \<not> td_dns_init st then Some (False, st, [])
                  else case find_connection st (udp_dest_port udp_header) of
                         None \<Rightarrow> Some (False, st, [])
                       | Some con \<Rightarrow>
                           Some (True, remove_connection con st, [TD_Tap_Send (dns_packet
                             (ipv4_header\<lparr>ip4_source_address := baddr_ipv4_ip (dc_remote_addr con),
                                          ip4_destination_address := baddr_ipv4_ip (dc_local_addr con)\<rparr>)
                             (udp_header\<lparr>udp_source_port := baddr_ipv4_port (dc_remote_addr con)\<rparr>) data)]))"

definition process_device_udp_packet :: "tun_state \<Rightarrow> byte list \<Rightarrow> bool \<times> td_call list" where
  "process_device_udp_packet st data =
     (if \<not> td_have_udpgw st then (False, [])
      else
        let parsed =
          (if ip_version data = 4 then
             case parse_device_udp4 data of
               None \<Rightarrow> None
             | Some (h, u, data) \<Rightarrow>
                 Some (BAddr_MakeIPv4 (ip4_source_address h) (udp_source_port u),
                       BAddr_MakeIPv4 (ip4_destination_address h) (udp_dest_port u),
                       td_transparent_dns st \<and> ip4_destination_address h = td_netif_ipaddr st
                         \<and> udp_dest_port u = hton16 53, data)
           else if ip_version data = 6 then
             if \<not> td_have_ip6addr st then None
             else case parse_device_udp6 data of
                    None \<Rightarrow> None
                  | Some (h, u, data) \<Rightarrow>
                      Some (BAddr_MakeIPv6 (ip6_source_address h) (udp_source_port u),
                            BAddr_MakeIPv6 (ip6_destination_address h) (udp_dest_port u), False, data)
           else None)
        in case parsed of
             None \<Rightarrow> (False, [])
           | Some (local_addr, remote_addr, is_dns, data) \<Rightarrow>
               if int (length data) > td_udp_mtu st then (False, [])
               else (True, [TD_Udp_Submit local_addr remote_addr is_dns data]))"

text \<open>\<^verbatim>\<open>ip_input\<close> and \<^verbatim>\<open>ip6_input\<close> of lwIP return \<open>lwip_result\<close>.\<close>

definition netif_input_func :: "err_t \<Rightarrow> tun_state \<Rightarrow> byte list list \<Rightarrow> err_t \<times> td_call list" where
  "netif_input_func lwip_result st p =
     (let v = ip_version (hd p)
      in if v = 4 then (lwip_result, [TD_Ip_Input p])
         else if v = 6 \<and> td_have_ip6addr st then (lwip_result, [TD_Ip6_Input p])
         else (ERR_OK, [TD_Pbuf_Free]))"

text \<open>
  \<open>pbuf\<close> is \<^verbatim>\<open>pbuf_alloc\<close> with \<^verbatim>\<open>pbuf_take\<close>: the chain that holds the packet, or a failed allocation.
\<close>

definition device_read_handler_send ::
    "bool \<Rightarrow> (byte list \<Rightarrow> byte list list) option \<Rightarrow> err_t \<Rightarrow> tun_state \<Rightarrow> byte list \<Rightarrow>
     (tun_state \<times> td_call list) option" where
  "device_read_handler_send malloc_ok pbuf lwip_result st data =
     (case process_device_dns_packet malloc_ok st data of
        None \<Rightarrow> None
      | Some (True, st, cs) \<Rightarrow> Some (st, TD_Read_Done # cs)
      | Some (False, st, cs) \<Rightarrow>
          (case process_device_udp_packet st data of
             (True, cs) \<Rightarrow> Some (st, TD_Read_Done # cs)
           | (False, cs) \<Rightarrow>
               if int (length data) > UINT16_MAX then Some (st, [TD_Read_Done])
               else case pbuf of
                      None \<Rightarrow> Some (st, [TD_Read_Done])
                    | Some take_pbuf \<Rightarrow>
                        let (err, cs) = netif_input_func lwip_result st (take_pbuf data)
                        in Some (st, TD_Read_Done # cs @ (if err \<noteq> ERR_OK then [TD_Pbuf_Free] else []))))"

section \<open>Packets to the device\<close>

text \<open>The loop that copies a chain to \<^verbatim>\<open>device_write_buf\<close>: \<open>None\<close> when it does not fit.\<close>

fun netif_gather :: "int \<Rightarrow> byte list \<Rightarrow> byte list list \<Rightarrow> byte list option" where
  "netif_gather mtu buf [] = Some buf"
| "netif_gather mtu buf (p # ps) =
     (if int (length p) > mtu - int (length buf) then None else netif_gather mtu (buf @ p) ps)"

definition common_netif_output :: "tun_state \<Rightarrow> byte list list \<Rightarrow> err_t \<times> td_call list" where
  "common_netif_output st p =
     (if td_quitting st then (ERR_OK, [])
      else if tl p = [] then
        if int (length (hd p)) > td_device_mtu st then (ERR_OK, [])
        else (ERR_OK, [TD_Sync_Begin, TD_Tap_Send (hd p), TD_Sync_Commit])
      else case netif_gather (td_device_mtu st) [] p of
             None \<Rightarrow> (ERR_OK, [])
           | Some buf \<Rightarrow> (ERR_OK, [TD_Sync_Begin, TD_Tap_Send buf, TD_Sync_Commit]))"

definition netif_output_func :: "tun_state \<Rightarrow> byte list list \<Rightarrow> err_t \<times> td_call list" where
  "netif_output_func st p = common_netif_output st p"

definition netif_output_ip6_func :: "tun_state \<Rightarrow> byte list list \<Rightarrow> err_t \<times> td_call list" where
  "netif_output_ip6_func st p = common_netif_output st p"

definition udp4_packet :: "u32 \<Rightarrow> u16 \<Rightarrow> u32 \<Rightarrow> u16 \<Rightarrow> byte list \<Rightarrow> byte list" where
  "udp4_packet remote_ip remote_port local_ip local_port data =
     (let iph = \<lparr>ip4_version4_ihl4 = IPV4_MAKE_VERSION_IHL sizeof_ipv4_header, ip4_ds = hton8 0,
            ip4_total_length = hton16 (word_of_nat (sizeof_ipv4_header + sizeof_udp_header + length data)),
            ip4_identification = hton16 0, ip4_flags3_fragmentoffset13 = hton16 0, ip4_ttl = hton8 64,
            ip4_protocol = hton8 (word_of_nat IPV4_PROTOCOL_UDP), ip4_checksum = hton16 0,
            ip4_source_address = remote_ip, ip4_destination_address = local_ip\<rparr>;
          iph = iph\<lparr>ip4_checksum := ipv4_checksum iph []\<rparr>;
          udph = \<lparr>udp_source_port = remote_port, udp_dest_port = local_port,
            udp_length = hton16 (word_of_nat (sizeof_udp_header + length data)), udp_cksum = hton16 0\<rparr>;
          udph = udph\<lparr>udp_cksum := udp_checksum udph data (ip4_source_address iph) (ip4_destination_address iph)\<rparr>
      in ipv4_header_bytes iph @ udp_header_bytes udph @ data)"

definition udp6_packet :: "byte list \<Rightarrow> u16 \<Rightarrow> byte list \<Rightarrow> u16 \<Rightarrow> byte list \<Rightarrow> byte list" where
  "udp6_packet remote_ip remote_port local_ip local_port data =
     (let iph = \<lparr>ip6_version4_tc4 = hton8 (push_bit 4 6), ip6_tc4_fl4 = hton8 0, ip6_fl = hton16 0,
            ip6_payload_length = hton16 (word_of_nat (sizeof_udp_header + length data)),
            ip6_next_header = hton8 (word_of_nat IPV6_NEXT_UDP), ip6_hop_limit = hton8 64,
            ip6_source_address = take 16 remote_ip, ip6_destination_address = take 16 local_ip\<rparr>;
          udph = \<lparr>udp_source_port = remote_port, udp_dest_port = local_port,
            udp_length = hton16 (word_of_nat (sizeof_udp_header + length data)), udp_cksum = hton16 0\<rparr>;
          udph = udph\<lparr>udp_cksum := udp_ip6_checksum udph data (ip6_source_address iph) (ip6_destination_address iph)\<rparr>
      in ipv6_header_bytes iph @ udp_header_bytes udph @ data)"

text \<open>The two address types are equal and not none, as the code asserts.\<close>

definition udpgw_client_handler_received :: "tun_state \<Rightarrow> BAddr \<Rightarrow> BAddr \<Rightarrow> byte list \<Rightarrow> td_call list" where
  "udpgw_client_handler_received st local_addr remote_addr data =
     (case (local_addr, remote_addr) of
        (BAddr_IPv4 lip lport, BAddr_IPv4 rip rport) \<Rightarrow>
          if int (length data) > UINT16_MAX - int (sizeof_ipv4_header + sizeof_udp_header)
            \<or> int (length data) > td_device_mtu st - int (sizeof_ipv4_header + sizeof_udp_header) then []
          else [TD_Tap_Send (udp4_packet rip rport lip lport data)]
      | (BAddr_IPv6 lip lport, BAddr_IPv6 rip rport) \<Rightarrow>
          if \<not> td_have_ip6addr st then []
          else if int (length data) > UINT16_MAX - int sizeof_udp_header
            \<or> int (length data) > td_device_mtu st - int (sizeof_ipv6_header + sizeof_udp_header) then []
          else [TD_Tap_Send (udp6_packet rip rport lip lport data)]
      | _ \<Rightarrow> [])"

section \<open>Built packets parse\<close>

lemma make_version_ihl: "IPV4_MAKE_VERSION_IHL 20 = 0x45"
  by (simp add: IPV4_MAKE_VERSION_IHL_def)

lemma version_ihl_45:
  "ip4_version4_ihl4 h = 0x45 \<Longrightarrow> IPV4_GET_VERSION h = 4"
  "ip4_version4_ihl4 h = 0x45 \<Longrightarrow> IPV4_GET_IHL h = 5"
  by (simp_all add: IPV4_GET_VERSION_def IPV4_GET_IHL_def)

lemma udp_check_built:
  assumes "unat (ntoh16 (udp_length u)) = 8 + length data"
  shows "udp_check (udp_header_bytes u @ data) = Some (u, data)"
  using assms by (simp add: udp_check_def Let_def sizeof_headers udp_header_read_bytes)

lemma parse_device_udp4_built:
  assumes "ip4_version4_ihl4 h = 0x45" "ip4_protocol h = 17"
    "unat (ntoh16 (ip4_total_length h)) = 28 + length data" "unat (ntoh16 (udp_length u)) = 8 + length data"
    "ip4_checksum h = ipv4_checksum (h\<lparr>ip4_checksum := 0\<rparr>) []"
    "udp_cksum u = udp_checksum (u\<lparr>udp_cksum := 0\<rparr>) data (ip4_source_address h) (ip4_destination_address h)"
  shows "parse_device_udp4 (ipv4_header_bytes h @ udp_header_bytes u @ data) = Some (h, u\<lparr>udp_cksum := 0\<rparr>, data)"
proof -
  let ?d = "ipv4_header_bytes h @ udp_header_bytes u @ data"
  have "ipv4_check ?d = Some (h, udp_header_bytes u @ data)"
    using assms by (simp add: ipv4_check_def Let_def sizeof_headers ipv4_header_read_bytes version_ihl_45)
  moreover have "?d ! 9 = 17" using assms(2) by (simp add: ipv4_header_bytes_def nth_append)
  ultimately show ?thesis
    using assms by (simp add: parse_device_udp4_def udp_check_built Let_def sizeof_headers IPV4_PROTOCOL_UDP_def)
qed

lemma parse_device_udp6_built:
  assumes "ip6_version4_tc4 h = 0x60" "ip6_next_header h = 17"
    "length (ip6_source_address h) = 16" "length (ip6_destination_address h) = 16"
    "unat (ntoh16 (ip6_payload_length h)) = 8 + length data" "unat (ntoh16 (udp_length u)) = 8 + length data"
    "udp_cksum u = udp_ip6_checksum (u\<lparr>udp_cksum := 0\<rparr>) data (ip6_source_address h) (ip6_destination_address h)"
  shows "parse_device_udp6 (ipv6_header_bytes h @ udp_header_bytes u @ data) = Some (h, u\<lparr>udp_cksum := 0\<rparr>, data)"
proof -
  let ?d = "ipv6_header_bytes h @ udp_header_bytes u @ data"
  have "length (ipv6_header_bytes h) = 40" using assms by (simp add: ipv6_header_bytes_def)
  then have "ipv6_check ?d = Some (h, udp_header_bytes u @ data)"
    using assms by (simp add: ipv6_check_def Let_def sizeof_headers ipv6_header_read_bytes byteorder_defs(1,5))
  moreover have "?d ! 6 = 17" using assms(2) by (simp add: ipv6_header_bytes_def nth_append)
  ultimately show ?thesis
    using assms \<open>length (ipv6_header_bytes h) = 40\<close>
    by (simp add: parse_device_udp6_def udp_check_built Let_def sizeof_headers IPV6_NEXT_UDP_def)
qed

lemma unat_of_nat_add: "k + n < 65536 \<Longrightarrow> unat (word_of_nat k + word_of_nat n :: u16) = k + n"
  by (simp add: unat_of_nat flip: of_nat_add)

lemma udp4_packet_parses:
  assumes "length data \<le> 65507"
  shows "\<exists>h u. parse_device_udp4 (udp4_packet rip rport lip lport data) = Some (h, u, data)
    \<and> ip4_source_address h = rip \<and> ip4_destination_address h = lip
    \<and> udp_source_port u = rport \<and> udp_dest_port u = lport
    \<and> ip4_version4_ihl4 h = 0x45 \<and> unat (ntoh16 (ip4_total_length h)) = 28 + length data"
proof -
  have w: "unat (28 + word_of_nat (length data) :: u16) = 28 + length data"
    "unat (8 + word_of_nat (length data) :: u16) = 8 + length data"
    using assms unat_of_nat_add [of 28 "length data"] unat_of_nat_add [of 8 "length data"] by simp_all
  show ?thesis
    unfolding udp4_packet_def Let_def
    by (subst parse_device_udp4_built)
      (simp_all add: w sizeof_headers make_version_ihl IPV4_PROTOCOL_UDP_def byteorder_defs(1,5))
qed

lemma udp6_packet_parses:
  assumes "length data \<le> 65527" "length rip = 16" "length lip = 16"
  shows "\<exists>h u. parse_device_udp6 (udp6_packet rip rport lip lport data) = Some (h, u, data)
    \<and> ip6_source_address h = rip \<and> ip6_destination_address h = lip
    \<and> udp_source_port u = rport \<and> udp_dest_port u = lport"
proof -
  have w: "unat (8 + word_of_nat (length data) :: u16) = 8 + length data"
    using assms unat_of_nat_add [of 8 "length data"] by simp
  show ?thesis
    unfolding udp6_packet_def Let_def
    by (subst parse_device_udp6_built)
      (simp_all add: w assms sizeof_headers IPV6_NEXT_UDP_def byteorder_defs(1,5))
qed

lemma packet_versions:
  "ip_version (udp4_packet rip rport lip lport data) = 4"
  "ip_version (udp6_packet rip6 rport lip6 lport data) = 6"
  by (simp_all add: ip_version_def udp4_packet_def udp6_packet_def Let_def ipv4_header_bytes_def ipv6_header_bytes_def
      sizeof_headers make_version_ihl byteorder_defs(1))

lemma length_udp_packets:
  "length (udp4_packet rip rport lip lport data) = 28 + length data"
  "length rip6 = 16 \<Longrightarrow> length lip6 = 16 \<Longrightarrow> length (udp6_packet rip6 rport lip6 lport data) = 48 + length data"
  by (simp_all add: udp4_packet_def udp6_packet_def Let_def ipv6_header_bytes_def)

section \<open>The query table\<close>

definition dns_inv :: "tun_state \<Rightarrow> bool" where
  "dns_inv st \<longleftrightarrow> sorted_wrt (<) (map fst (td_connections st))
     \<and> (\<forall>p c. (p, c) \<in> set (td_connections st) \<longrightarrow> dc_port c = p \<and> 1 \<le> dc_count c)
     \<and> td_live st = int (length (td_connections st)) \<and> (\<not> td_dns_init st \<longrightarrow> td_connections st = [])"

lemma port_comparator_less: "port_comparator a b < 0 \<longleftrightarrow> a < b"
  by (auto simp: port_comparator_def)

interpretation port_cmp: comparator UNIV port_comparator
  by unfold_locales (auto simp: port_comparator_def split: if_splits)

lemma map_of_tree_insert: "k \<notin> fst ` set t \<Longrightarrow> map_of (tree_insert k v t) = (map_of t)(k \<mapsto> v)"
  by (induction t) (auto simp: fun_upd_twist)

lemma set_tree_insert: "set (tree_insert k v t) = insert (k, v) (set t)"
  by (induction t) (auto split: if_splits)

lemma length_tree_insert: "length (tree_insert k v t) = Suc (length t)"
  by (induction t) auto

lemma tree_insert_sorted:
  "sorted_wrt (<) (map fst t) \<Longrightarrow> k \<notin> fst ` set t \<Longrightarrow> sorted_wrt (<) (map fst (tree_insert k v t))"
  by (induction t) (fastforce simp: set_tree_insert port_comparator_less)+

lemma set_connection_fst [simp]: "map fst (td_connections (set_connection p c st)) = map fst (td_connections st)"
  by (auto simp: set_connection_def)

lemma set_connection_fields [simp]:
  "td_live (set_connection p c st) = td_live st" "td_dns_init (set_connection p c st) = td_dns_init st"
  "td_have_dnsgw (set_connection p c st) = td_have_dnsgw st" "td_dnsgw (set_connection p c st) = td_dnsgw st"
  "td_netif_ipaddr (set_connection p c st) = td_netif_ipaddr st"
  by (simp_all add: set_connection_def)

lemma map_of_set_connection:
  "map_of (td_connections (set_connection p c st)) q =
     (if q = p \<and> map_of (td_connections st) p \<noteq> None then Some c else map_of (td_connections st) q)"
proof -
  have "map_of (map (\<lambda>(k, d). if k = p then (k, c) else (k, d)) t) q =
     (if q = p \<and> map_of t p \<noteq> None then Some c else map_of t q)" for t :: "(u16 \<times> Connection) list"
    by (induction t) auto
  then show ?thesis by (simp add: set_connection_def)
qed

lemma map_of_tree_remove: "map_of (tree_remove k t) q = (if q = k then None else map_of t q)"
  by (induction t) (auto simp: tree_remove_def)

lemma length_tree_remove:
  "sorted_wrt (<) (map fst t) \<Longrightarrow> k \<in> fst ` set t \<Longrightarrow> length (tree_remove k t) = length t - 1"
proof (induction t)
  case (Cons x t)
  show ?case
  proof (cases "fst x = k")
    case True
    then have "\<forall>y\<in>set t. fst y \<noteq> k" using Cons.prems by auto
    then have "filter (\<lambda>(k', _). k' \<noteq> k) t = t" by (auto simp: filter_id_conv)
    then show ?thesis using True by (auto simp: tree_remove_def split_beta)
  next
    case False
    then have "k \<in> fst ` set t" using Cons.prems by auto
    moreover from this have "t \<noteq> []" by auto
    ultimately show ?thesis using Cons False by (auto simp: tree_remove_def split_beta)
  qed
qed simp

lemma tree_remove_sorted: "sorted_wrt (<) (map fst t) \<Longrightarrow> sorted_wrt (<) (map fst (tree_remove k t))"
  by (induction t) (auto simp: tree_remove_def)

lemma dns_inv_lookup:
  assumes "dns_inv st" "map_of (td_connections st) p = Some c"
  shows "dc_port c = p" "1 \<le> dc_count c" "p \<in> fst ` set (td_connections st)"
  using assms map_of_SomeD [OF assms(2)] by (force simp: dns_inv_def)+

lemma set_connection_inv:
  assumes "dns_inv st" "dc_port c = p" "1 \<le> dc_count c"
  shows "dns_inv (set_connection p c st)"
proof -
  have "dc_port d = q \<and> 1 \<le> dc_count d" if "(q, d) \<in> set (td_connections (set_connection p c st))" for q d
    using that assms by (auto simp: set_connection_def dns_inv_def split: if_splits)
  moreover have "length (td_connections (set_connection p c st)) = length (td_connections st)"
    "td_connections st = [] \<Longrightarrow> td_connections (set_connection p c st) = []"
    by (simp_all add: set_connection_def)
  ultimately show ?thesis using assms(1) unfolding dns_inv_def by simp
qed

lemma insert_connection_inv:
  assumes "dns_inv st" "insert_connection ok l r p st = Some st'" "td_dns_init st"
  shows "dns_inv st'"
proof (cases "find_connection st p")
  case None
  then have n: "p \<notin> fst ` set (td_connections st)" by (simp add: find_connection_def map_of_eq_None_iff)
  then show ?thesis using None assms tree_insert_sorted [OF _ n]
    by (auto simp: insert_connection_def dns_inv_def set_tree_insert length_tree_insert split: if_splits)
next
  case (Some c)
  then have m: "map_of (td_connections st) p = Some c" by (simp add: find_connection_def)
  have "st' = set_connection p (c\<lparr>dc_count := dc_count c + 1\<rparr>) st" using Some assms(2) by (simp add: insert_connection_def)
  then show ?thesis using dns_inv_lookup [OF assms(1) m]
      set_connection_inv [OF assms(1), of "c\<lparr>dc_count := dc_count c + 1\<rparr>" p] by simp
qed

lemma remove_connection_inv:
  assumes "dns_inv st" "find_connection st p = Some con"
  shows "dns_inv (remove_connection con st)"
proof -
  note l = dns_inv_lookup [OF assms(1) assms(2) [unfolded find_connection_def]]
  let ?c = "con\<lparr>dc_count := dc_count con - 1\<rparr>"
  let ?st = "set_connection p ?c st"
  show ?thesis
  proof (cases "dc_count con \<le> 1")
    case True
    have f: "map fst (td_connections ?st) = map fst (td_connections st)" by simp
    have s: "sorted_wrt (<) (map fst (td_connections ?st))" using assms(1) by (simp add: dns_inv_def)
    have "fst ` set (td_connections ?st) = fst ` set (td_connections st)" using f by (metis image_set)
    then have "p \<in> fst ` set (td_connections ?st)" using l(3) by simp
    then have "length (tree_remove p (td_connections ?st)) = length (td_connections ?st) - 1" "td_connections ?st \<noteq> []"
      using length_tree_remove [OF s] by auto
    moreover have "length (td_connections ?st) = length (td_connections st)" using f by (metis length_map)
    ultimately have len: "int (length (tree_remove p (td_connections ?st))) = td_live st - 1"
      using assms(1) by (cases "td_connections ?st") (auto simp: dns_inv_def)
    have "dc_port c = q \<and> 1 \<le> dc_count c" if "(q, c) \<in> set (tree_remove p (td_connections ?st))" for q c
      using that assms(1) by (auto simp: tree_remove_def set_connection_def dns_inv_def split: if_splits)
    moreover have "remove_connection con st = ?st\<lparr>td_connections := tree_remove p (td_connections ?st), td_live := td_live st - 1\<rparr>"
      using True l(1) by (simp add: remove_connection_def Let_def)
    moreover have "\<not> td_dns_init st \<Longrightarrow> td_connections st = []" using assms(1) by (simp add: dns_inv_def)
    ultimately show ?thesis unfolding dns_inv_def using len tree_remove_sorted [OF s, of p] l(3) by auto
  next
    case False
    then show ?thesis using l set_connection_inv [OF assms(1), of ?c p] by (simp add: remove_connection_def Let_def)
  qed
qed

section \<open>DNS packets\<close>

lemma udp_check_length: "udp_check pl = Some (v, d) \<Longrightarrow> unat (ntoh16 (udp_length v)) = 8 + length d"
  by (auto simp: udp_check_def Let_def sizeof_headers split: if_splits)

lemma parse_device_udp4_facts:
  assumes "parse_device_udp4 data = Some (h, u, d)"
  shows "ip4_protocol h = 17" "unat (ntoh16 (udp_length u)) = 8 + length d" "udp_cksum u = 0"
proof -
  obtain pl where p: "20 \<le> length data" "unat (data ! 9) = 17" "ipv4_check data = Some (h, pl)"
    and u: "udp_check pl = Some (u\<lparr>udp_cksum := udp_checksum u d (ip4_source_address h) (ip4_destination_address h)\<rparr>, d)"
    and z: "udp_cksum u = 0"
    using assms by (auto simp: parse_device_udp4_def sizeof_headers IPV4_PROTOCOL_UDP_def Let_def split: if_splits option.splits)
  have "h = ipv4_header_read data" using p(3) by (auto simp: ipv4_check_def Let_def split: if_splits)
  then have "unat (ip4_protocol h) = unat (17 :: byte)" using p(2) by (simp add: ipv4_header_read_def)
  then show "ip4_protocol h = 17" by (metis unsigned_word_eqI)
  show "unat (ntoh16 (udp_length u)) = 8 + length d"
    using udp_check_length [OF u] by simp
  show "udp_cksum u = 0" by (rule z)
qed

lemma dns_packet_parses:
  assumes "ip4_version4_ihl4 h = 0x45" "ip4_protocol h = 17"
    "unat (ntoh16 (ip4_total_length h)) = 28 + length d" "unat (ntoh16 (udp_length u)) = 8 + length d"
  shows "parse_device_udp4 (dns_packet h u d) =
    Some (h\<lparr>ip4_checksum := ipv4_checksum (h\<lparr>ip4_checksum := 0\<rparr>) []\<rparr>, u\<lparr>udp_cksum := 0\<rparr>, d)"
  unfolding dns_packet_def Let_def using assms by (subst parse_device_udp4_built) simp_all

lemma dns_packet_version: "ip4_version4_ihl4 h = 0x45 \<Longrightarrow> ip_version (dns_packet h u d) = 4"
  by (simp add: dns_packet_def Let_def ip_version_def ipv4_header_bytes_def)

lemma dns_inv_init: "dns_inv st \<Longrightarrow>
    dns_inv (if \<not> td_dns_init st then st\<lparr>td_dns_init := True, td_connections := []\<rparr> else st)"
  by (simp add: dns_inv_def)

lemma process_dns_inv:
  assumes "dns_inv st" "process_device_dns_packet ok st data = Some (b, st', cs)"
  shows "dns_inv st'"
proof (cases "td_have_dnsgw st \<and> ip_version data = 4 \<and> parse_device_udp4 data \<noteq> None")
  case True
  then obtain h u d where p: "parse_device_udp4 data = Some (h, u, d)" by auto
  let ?st = "if \<not> td_dns_init st then st\<lparr>td_dns_init := True, td_connections := []\<rparr> else st"
  have i: "td_dns_init ?st" by simp
  show ?thesis
  proof (cases "udp_dest_port u = hton16 53")
    case to: True
    then show ?thesis
      using True p assms insert_connection_inv [OF dns_inv_init [OF assms(1)] _ i]
      by (auto simp: process_device_dns_packet_def Let_def split: option.splits)
  next
    case False
    then show ?thesis
      using True p assms remove_connection_inv [OF assms(1)]
      by (auto simp: process_device_dns_packet_def Let_def split: option.splits if_splits)
  qed
next
  case False
  then show ?thesis using assms
    by (auto simp: process_device_dns_packet_def split: option.splits if_splits)
qed

lemma free_connections_empty:
  "td_connections (free_connections st) = [] \<and> td_live (free_connections st) = td_live st"
proof (induction st rule: free_connections.induct)
  case (1 st)
  then show ?case by (subst (1 2) free_connections.simps) auto
qed

text \<open>The handling of a run of packets, and packets that have nothing to do with the queries of a port.\<close>

fun dns_run :: "tun_state \<Rightarrow> byte list list \<Rightarrow> tun_state option" where
  "dns_run st [] = Some st"
| "dns_run st (p # ps) =
     (case process_device_dns_packet True st p of None \<Rightarrow> None | Some (_, st', _) \<Rightarrow> dns_run st' ps)"

definition other_port :: "u16 \<Rightarrow> byte list \<Rightarrow> bool" where
  "other_port port p = (case parse_device_udp4 p of
     None \<Rightarrow> True | Some (h, u, d) \<Rightarrow> udp_source_port u \<noteq> port \<and> udp_dest_port u \<noteq> port)"

definition dns_config :: "tun_state \<Rightarrow> bool \<times> BAddr \<times> u32" where
  "dns_config st = (td_have_dnsgw st, td_dnsgw st, td_netif_ipaddr st)"

lemma insert_connection_result [simp]:
  "insert_connection True l r p st = None \<longleftrightarrow> False"
  by (cases "find_connection st p") (simp_all add: insert_connection_def)

lemma insert_connection_other:
  assumes "insert_connection ok l r p st = Some st'"
  shows "dns_config st' = dns_config st" "td_dns_init st' = td_dns_init st"
    "q \<noteq> p \<Longrightarrow> find_connection st' q = find_connection st q"
proof -
  have n: "p \<notin> fst ` set (td_connections st)" if "find_connection st p = None"
    using that by (simp add: find_connection_def map_of_eq_None_iff)
  show "dns_config st' = dns_config st" "td_dns_init st' = td_dns_init st"
    using assms by (auto simp: insert_connection_def dns_config_def split: option.splits if_splits)
  show "q \<noteq> p \<Longrightarrow> find_connection st' q = find_connection st q"
    using assms n by (auto simp: insert_connection_def find_connection_def map_of_set_connection map_of_tree_insert
        split: option.splits if_splits)
qed

lemma remove_connection_other:
  "dns_config (remove_connection con st) = dns_config st"
  "td_dns_init (remove_connection con st) = td_dns_init st"
  "q \<noteq> dc_port con \<Longrightarrow> find_connection (remove_connection con st) q = find_connection st q"
  by (auto simp: remove_connection_def Let_def dns_config_def find_connection_def map_of_set_connection map_of_tree_remove)

lemma process_dns_total: "\<exists>b st' cs. process_device_dns_packet True st p = Some (b, st', cs)"
proof -
  have "process_device_dns_packet True st p \<noteq> None"
  proof
    assume "process_device_dns_packet True st p = None"
    then show False by (simp add: process_device_dns_packet_def Let_def split: option.splits if_splits prod.splits)
  qed
  then show ?thesis by auto
qed

lemma process_dns_other:
  assumes "dns_inv st" "td_dns_init st" "other_port port p" "process_device_dns_packet ok st p = Some (b, st', cs)"
  shows "find_connection st' port = find_connection st port \<and> td_dns_init st' \<and> dns_config st' = dns_config st"
proof (cases "td_have_dnsgw st \<and> ip_version p = 4 \<and> parse_device_udp4 p \<noteq> None")
  case True
  then obtain h u d where p: "parse_device_udp4 p = Some (h, u, d)" by auto
  have o: "udp_source_port u \<noteq> port" "udp_dest_port u \<noteq> port" using assms(3) p by (simp_all add: other_port_def)
  show ?thesis
  proof (cases "udp_dest_port u = hton16 53")
    case to: True
    then obtain l r where "insert_connection ok l r (udp_source_port u) st = Some st'"
      using True p assms by (auto simp: process_device_dns_packet_def Let_def split: option.splits)
    then show ?thesis using insert_connection_other [of ok l r "udp_source_port u" st st'] o assms(2) by metis
  next
    case False
    then have "st' = st \<or> (\<exists>con. find_connection st (udp_dest_port u) = Some con \<and> st' = remove_connection con st)"
      using True p assms by (auto simp: process_device_dns_packet_def Let_def split: option.splits if_splits)
    then show ?thesis using dns_inv_lookup(1) [OF assms(1)] o assms(2)
        remove_connection_other by (auto simp: find_connection_def)
  qed
next
  case False
  then show ?thesis using assms
    by (auto simp: process_device_dns_packet_def split: option.splits if_splits)
qed

lemma dns_run_other:
  assumes "dns_inv st" "td_dns_init st" "list_all (other_port port) ps"
  shows "\<exists>st'. dns_run st ps = Some st' \<and> find_connection st' port = find_connection st port
    \<and> td_dns_init st' \<and> dns_config st' = dns_config st \<and> dns_inv st'"
  using assms
proof (induction ps arbitrary: st)
  case (Cons p ps)
  obtain b st' cs where r: "process_device_dns_packet True st p = Some (b, st', cs)" using process_dns_total by blast
  have o: "other_port port p" using Cons.prems by simp
  note i = process_dns_inv [OF Cons.prems(1) r]
  note f = process_dns_other [OF Cons.prems(1,2) o r]
  show ?case using Cons.IH [OF i] f Cons.prems(3) r by auto
qed simp

lemma dns_query_forwarded:
  fixes h :: ipv4_header and u :: udp_header
  defines "con \<equiv> \<lparr>dc_local_addr = BAddr_IPv4 (ip4_source_address h) (udp_source_port u),
    dc_remote_addr = BAddr_IPv4 (ip4_destination_address h) (udp_dest_port u), dc_port = udp_source_port u, dc_count = 1\<rparr>"
  assumes "td_have_dnsgw st" "td_dnsgw st = BAddr_IPv4 gip gport" "dns_inv st" "ip_version q = 4"
    "parse_device_udp4 q = Some (h, u, d)" "udp_dest_port u = hton16 53" "ip4_version4_ihl4 h = 0x45"
    "unat (ntoh16 (ip4_total_length h)) = 28 + length d" "find_connection st (udp_source_port u) = None"
  shows "\<exists>st1 fwd h1 u1. process_device_dns_packet True st q = Some (True, st1, [TD_Tap_Send fwd])
    \<and> parse_device_udp4 fwd = Some (h1, u1, d) \<and> ip4_source_address h1 = td_netif_ipaddr st \<and> ip4_destination_address h1 = gip
    \<and> udp_source_port u1 = udp_source_port u \<and> udp_dest_port u1 = gport
    \<and> dns_inv st1 \<and> td_dns_init st1 \<and> dns_config st1 = dns_config st \<and> find_connection st1 (udp_source_port u) = Some con"
proof -
  let ?p = "udp_source_port u"
  let ?sti = "if \<not> td_dns_init st then st\<lparr>td_dns_init := True, td_connections := []\<rparr> else st"
  define st1 where "st1 = ?sti\<lparr>td_connections := tree_insert ?p con (td_connections ?sti), td_live := td_live ?sti + 1\<rparr>"
  have n: "find_connection ?sti ?p = None" using assms(10) by (simp add: find_connection_def)
  then have np: "?p \<notin> fst ` set (td_connections ?sti)" by (simp add: find_connection_def map_of_eq_None_iff)
  have ins: "insert_connection True (BAddr_IPv4 (ip4_source_address h) ?p)
      (BAddr_IPv4 (ip4_destination_address h) (udp_dest_port u)) ?p ?sti = Some st1"
    using n by (simp add: insert_connection_def st1_def con_def)
  have i1: "dns_inv st1" by (rule insert_connection_inv [OF dns_inv_init [OF assms(4)] ins]) simp
  have c1: "dns_config st1 = dns_config st" "td_dns_init st1" "find_connection st1 ?p = Some con"
    using map_of_tree_insert [OF np] by (auto simp: st1_def dns_config_def find_connection_def)
  let ?fh = "h\<lparr>ip4_destination_address := gip, ip4_source_address := td_netif_ipaddr st\<rparr>"
  let ?fu = "u\<lparr>udp_dest_port := gport\<rparr>"
  have q: "process_device_dns_packet True st q = Some (True, st1, [TD_Tap_Send (dns_packet ?fh ?fu d)])"
    using assms(2,3,5-7) ins c1(1) by (simp add: process_device_dns_packet_def Let_def BAddr_MakeIPv4_def dns_config_def
        baddr_ipv4_ip_def baddr_ipv4_port_def)
  have qf: "ip4_protocol ?fh = 17" "unat (ntoh16 (udp_length ?fu)) = 8 + length d"
    using parse_device_udp4_facts [OF assms(6)] by simp_all
  have "parse_device_udp4 (dns_packet ?fh ?fu d) =
      Some (?fh\<lparr>ip4_checksum := ipv4_checksum (?fh\<lparr>ip4_checksum := 0\<rparr>) []\<rparr>, ?fu\<lparr>udp_cksum := 0\<rparr>, d)"
    by (rule dns_packet_parses) (use assms(8,9) qf in simp_all)
  with q i1 c1 show ?thesis by auto
qed

lemma dns_answer_returned:
  assumes "td_have_dnsgw st" "td_dnsgw st = BAddr_IPv4 gip gport" "td_dns_init st" "ip_version r = 4"
    "parse_device_udp4 r = Some (h, u, d)" "udp_source_port u = gport" "udp_dest_port u \<noteq> hton16 53"
    "find_connection st (udp_dest_port u) = Some \<lparr>dc_local_addr = BAddr_IPv4 lip lport,
       dc_remote_addr = BAddr_IPv4 rip rport, dc_port = udp_dest_port u, dc_count = 1\<rparr>"
    "ip4_version4_ihl4 h = 0x45" "unat (ntoh16 (ip4_total_length h)) = 28 + length d"
  shows "\<exists>st2 back h2 u2. process_device_dns_packet True st r = Some (True, st2, [TD_Tap_Send back])
    \<and> parse_device_udp4 back = Some (h2, u2, d) \<and> ip4_source_address h2 = rip \<and> ip4_destination_address h2 = lip
    \<and> udp_source_port u2 = rport \<and> udp_dest_port u2 = udp_dest_port u \<and> find_connection st2 (udp_dest_port u) = None"
proof -
  let ?con = "\<lparr>dc_local_addr = BAddr_IPv4 lip lport, dc_remote_addr = BAddr_IPv4 rip rport, dc_port = udp_dest_port u, dc_count = 1\<rparr>"
  let ?bh = "h\<lparr>ip4_source_address := rip, ip4_destination_address := lip\<rparr>" and ?bu = "u\<lparr>udp_source_port := rport\<rparr>"
  have r: "process_device_dns_packet True st r =
      Some (True, remove_connection ?con st, [TD_Tap_Send (dns_packet ?bh ?bu d)])"
    using assms(1-8) by (simp add: process_device_dns_packet_def Let_def baddr_ipv4_ip_def baddr_ipv4_port_def)
  have rf: "ip4_protocol ?bh = 17" "unat (ntoh16 (udp_length ?bu)) = 8 + length d"
    using parse_device_udp4_facts [OF assms(5)] by simp_all
  have "parse_device_udp4 (dns_packet ?bh ?bu d) =
      Some (?bh\<lparr>ip4_checksum := ipv4_checksum (?bh\<lparr>ip4_checksum := 0\<rparr>) []\<rparr>, ?bu\<lparr>udp_cksum := 0\<rparr>, d)"
    by (rule dns_packet_parses) (use assms(9,10) rf in simp_all)
  moreover have "find_connection (remove_connection ?con st) (udp_dest_port u) = None"
    by (simp add: remove_connection_def Let_def find_connection_def map_of_tree_remove)
  ultimately show ?thesis using r by auto
qed

text \<open>Whether a reply fits the device behind its headers, and the length fields of the headers.\<close>

definition udp_reply_fits :: "tun_state \<Rightarrow> BAddr \<Rightarrow> byte list \<Rightarrow> bool" where
  "udp_reply_fits st remote data \<longleftrightarrow>
     (case remote of
        BAddr_IPv6 _ _ \<Rightarrow> 8 + length data \<le> 65535 \<and> int (48 + length data) \<le> td_device_mtu st
      | _ \<Rightarrow> 28 + length data \<le> 65535 \<and> int (28 + length data) \<le> td_device_mtu st)"

lemma reply4_reads_back:
  assumes "td_have_udpgw st" and "int (length data) \<le> td_udp_mtu st"
  shows "if udp_reply_fits st (BAddr_IPv4 rip rport) data
    then \<exists>pkt. udpgw_client_handler_received st (BAddr_IPv4 lip lport) (BAddr_IPv4 rip rport) data = [TD_Tap_Send pkt]
        \<and> int (length pkt) \<le> td_device_mtu st
        \<and> process_device_udp_packet st pkt = (True, [TD_Udp_Submit (BAddr_IPv4 rip rport) (BAddr_IPv4 lip lport)
            (td_transparent_dns st \<and> lip = td_netif_ipaddr st \<and> lport = hton16 53) data])
    else udpgw_client_handler_received st (BAddr_IPv4 lip lport) (BAddr_IPv4 rip rport) data = []"
proof (cases "udp_reply_fits st (BAddr_IPv4 rip rport) data")
  case True
  then have fit: "length data \<le> 65507" "int (length data) + 28 \<le> td_device_mtu st" by (simp_all add: udp_reply_fits_def)
  obtain h u where p4: "parse_device_udp4 (udp4_packet rip rport lip lport data) = Some (h, u, data)"
    "ip4_source_address h = rip" "ip4_destination_address h = lip" "udp_source_port u = rport" "udp_dest_port u = lport"
    using udp4_packet_parses [OF fit(1), of rip rport lip lport] by auto
  have "udpgw_client_handler_received st (BAddr_IPv4 lip lport) (BAddr_IPv4 rip rport) data
      = [TD_Tap_Send (udp4_packet rip rport lip lport data)]"
    using fit by (simp add: udpgw_client_handler_received_def sizeof_headers)
  moreover have "int (length (udp4_packet rip rport lip lport data)) \<le> td_device_mtu st"
    using fit by (simp add: length_udp_packets)
  moreover have "process_device_udp_packet st (udp4_packet rip rport lip lport data)
      = (True, [TD_Udp_Submit (BAddr_IPv4 rip rport) (BAddr_IPv4 lip lport)
            (td_transparent_dns st \<and> lip = td_netif_ipaddr st \<and> lport = hton16 53) data])"
    using assms p4 by (simp add: process_device_udp_packet_def Let_def packet_versions sizeof_headers BAddr_MakeIPv4_def)
  ultimately show ?thesis using True by simp
qed (simp add: udp_reply_fits_def udpgw_client_handler_received_def sizeof_headers, linarith)

lemma reply6_reads_back:
  assumes "td_have_udpgw st" and "int (length data) \<le> td_udp_mtu st" and "length rip = 16" and "length lip = 16"
  shows "if td_have_ip6addr st \<and> udp_reply_fits st (BAddr_IPv6 rip rport) data
    then \<exists>pkt. udpgw_client_handler_received st (BAddr_IPv6 lip lport) (BAddr_IPv6 rip rport) data = [TD_Tap_Send pkt]
        \<and> int (length pkt) \<le> td_device_mtu st
        \<and> process_device_udp_packet st pkt =
            (True, [TD_Udp_Submit (BAddr_IPv6 rip rport) (BAddr_IPv6 lip lport) False data])
    else udpgw_client_handler_received st (BAddr_IPv6 lip lport) (BAddr_IPv6 rip rport) data = []"
proof (cases "td_have_ip6addr st \<and> udp_reply_fits st (BAddr_IPv6 rip rport) data")
  case True
  then have fit: "length data \<le> 65527" "int (length data) + 48 \<le> td_device_mtu st" by (simp_all add: udp_reply_fits_def)
  obtain h u where p6: "parse_device_udp6 (udp6_packet rip rport lip lport data) = Some (h, u, data)"
    "ip6_source_address h = rip" "ip6_destination_address h = lip" "udp_source_port u = rport" "udp_dest_port u = lport"
    using udp6_packet_parses [OF fit(1) assms(3,4), of rport lport] by auto
  have "udpgw_client_handler_received st (BAddr_IPv6 lip lport) (BAddr_IPv6 rip rport) data
      = [TD_Tap_Send (udp6_packet rip rport lip lport data)]"
    using fit True by (simp add: udpgw_client_handler_received_def sizeof_headers)
  moreover have "int (length (udp6_packet rip rport lip lport data)) \<le> td_device_mtu st"
    using fit assms(3,4) by (simp add: length_udp_packets)
  moreover have "process_device_udp_packet st (udp6_packet rip rport lip lport data)
      = (True, [TD_Udp_Submit (BAddr_IPv6 rip rport) (BAddr_IPv6 lip lport) False data])"
    using assms p6 True by (simp add: process_device_udp_packet_def Let_def packet_versions sizeof_headers BAddr_MakeIPv6_def)
  ultimately show ?thesis using True by simp
qed (simp add: udp_reply_fits_def udpgw_client_handler_received_def sizeof_headers, linarith)

section \<open>Properties\<close>

text \<open>
  C26: Replies are written to the device exactly when they fit. With a UDP gateway configured and a payload
  within the UDP MTU, \<^verbatim>\<open>udpgw_client_handler_received\<close> writes one packet if the payload with its headers,
  28 bytes for IPv4 and 48 for IPv6, fits the device and the 16-bit length fields, and, for IPv6, an IPv6
  address is configured; otherwise it writes nothing. The packet fits the write buffer, and reading it back
  with \<^verbatim>\<open>process_device_udp_packet\<close>, checksums included, gives exactly that payload, from the remote to the
  local address.
\<close>

theorem udp_device_roundtrip:
  assumes "td_have_udpgw st" and "int (length data) \<le> td_udp_mtu st"
    and "length rip6 = 16" and "length lip6 = 16"
  shows "(if udp_reply_fits st (BAddr_IPv4 rip rport) data
      then \<exists>pkt. udpgw_client_handler_received st (BAddr_IPv4 lip lport) (BAddr_IPv4 rip rport) data = [TD_Tap_Send pkt]
        \<and> int (length pkt) \<le> td_device_mtu st
        \<and> process_device_udp_packet st pkt = (True, [TD_Udp_Submit (BAddr_IPv4 rip rport) (BAddr_IPv4 lip lport)
            (td_transparent_dns st \<and> lip = td_netif_ipaddr st \<and> lport = hton16 53) data])
      else udpgw_client_handler_received st (BAddr_IPv4 lip lport) (BAddr_IPv4 rip rport) data = [])
    \<and> (if td_have_ip6addr st \<and> udp_reply_fits st (BAddr_IPv6 rip6 rport) data
      then \<exists>pkt. udpgw_client_handler_received st (BAddr_IPv6 lip6 lport) (BAddr_IPv6 rip6 rport) data = [TD_Tap_Send pkt]
        \<and> int (length pkt) \<le> td_device_mtu st
        \<and> process_device_udp_packet st pkt =
            (True, [TD_Udp_Submit (BAddr_IPv6 rip6 rport) (BAddr_IPv6 lip6 lport) False data])
      else udpgw_client_handler_received st (BAddr_IPv6 lip6 lport) (BAddr_IPv6 rip6 rport) data = [])"
  by (rule conjI [OF reply4_reads_back [OF assms(1,2)] reply6_reads_back [OF assms]])

definition demo_td :: tun_state where
  "demo_td = \<lparr>td_have_dnsgw = True, td_dnsgw = BAddr_IPv4 7 8153, td_have_udpgw = True, td_transparent_dns = False,
     td_have_ip6addr = True, td_netif_ipaddr = 9, td_udp_mtu = 1472, td_device_mtu = 1500, td_quitting = False,
     td_dns_init = False, td_connections = [], td_live = 0\<rparr>"

theorem udp_device_roundtrip_witness:
  "(\<exists>pkt. udpgw_client_handler_received demo_td (BAddr_IPv4 1 2) (BAddr_IPv4 3 4) [5, 6] = [TD_Tap_Send pkt]
    \<and> process_device_udp_packet demo_td pkt = (True, [TD_Udp_Submit (BAddr_IPv4 3 4) (BAddr_IPv4 1 2) False [5, 6]]))
   \<and> udpgw_client_handler_received (demo_td\<lparr>td_device_mtu := 29\<rparr>) (BAddr_IPv4 1 2) (BAddr_IPv4 3 4) [5, 6] = []"
  using udp_device_roundtrip [of demo_td "[5, 6]" "replicate 16 0" "replicate 16 0" 3 4 1 2]
    udp_device_roundtrip [of "demo_td\<lparr>td_device_mtu := 29\<rparr>" "[5, 6]" "replicate 16 0" "replicate 16 0" 3 4 1 2]
  by (auto simp: demo_td_def udp_reply_fits_def)

text \<open>
  C13: DNS forwarding is transparent: a valid query to port 53, from a source port other than 53 for which no query is
  pending, is sent to the DNS gateway from the interface address, with valid checksums and the same payload; after any
  number of packets that concern other ports, an answer from the gateway's port to the query's source port is sent
  to the querying address as if it came from the server asked, with the answer's payload, and the query is
  forgotten. This is for a query and an answer without IP options and without bytes behind the UDP datagram, and while
  memory can be allocated.
\<close>

theorem dns_nat_roundtrip:
  assumes "td_have_dnsgw st" and "td_dnsgw st = BAddr_IPv4 gip gport" and "dns_inv st"
    and "ip_version q = 4" and "parse_device_udp4 q = Some (h, u, d)" and "udp_dest_port u = hton16 53"
    and "ip4_version4_ihl4 h = 0x45" and "unat (ntoh16 (ip4_total_length h)) = 28 + length d"
    and "find_connection st (udp_source_port u) = None"
    and "list_all (other_port (udp_source_port u)) ps"
    and "ip_version r = 4" and "parse_device_udp4 r = Some (rh, ru, rd)" and "udp_source_port ru = gport"
    and "udp_dest_port ru = udp_source_port u" and "udp_source_port u \<noteq> hton16 53"
    and "ip4_version4_ihl4 rh = 0x45" and "unat (ntoh16 (ip4_total_length rh)) = 28 + length rd"
  shows "\<exists>st1 st2 st3 fwd back h1 u1 h3 u3.
      process_device_dns_packet True st q = Some (True, st1, [TD_Tap_Send fwd])
    \<and> parse_device_udp4 fwd = Some (h1, u1, d)
    \<and> ip4_source_address h1 = td_netif_ipaddr st \<and> ip4_destination_address h1 = gip
    \<and> udp_source_port u1 = udp_source_port u \<and> udp_dest_port u1 = gport
    \<and> dns_run st1 ps = Some st2
    \<and> process_device_dns_packet True st2 r = Some (True, st3, [TD_Tap_Send back])
    \<and> parse_device_udp4 back = Some (h3, u3, rd)
    \<and> ip4_source_address h3 = ip4_destination_address h \<and> ip4_destination_address h3 = ip4_source_address h
    \<and> udp_source_port u3 = hton16 53 \<and> udp_dest_port u3 = udp_source_port u
    \<and> find_connection st3 (udp_source_port u) = None"
proof -
  let ?p = "udp_source_port u"
  let ?con = "\<lparr>dc_local_addr = BAddr_IPv4 (ip4_source_address h) ?p,
    dc_remote_addr = BAddr_IPv4 (ip4_destination_address h) (udp_dest_port u), dc_port = ?p, dc_count = 1\<rparr>"
  obtain st1 fwd h1 u1 where q: "process_device_dns_packet True st q = Some (True, st1, [TD_Tap_Send fwd])"
    "parse_device_udp4 fwd = Some (h1, u1, d)" "ip4_source_address h1 = td_netif_ipaddr st" "ip4_destination_address h1 = gip"
    "udp_source_port u1 = ?p" "udp_dest_port u1 = gport"
    and i1: "dns_inv st1" "td_dns_init st1" "dns_config st1 = dns_config st" "find_connection st1 ?p = Some ?con"
    using dns_query_forwarded [OF assms(1-9)] by blast
  obtain st2 where st2: "dns_run st1 ps = Some st2" "find_connection st2 ?p = Some ?con" "td_dns_init st2"
    "dns_config st2 = dns_config st"
    using dns_run_other [OF i1(1,2) assms(10)] i1(3,4) by auto
  have c2: "td_have_dnsgw st2" "td_dnsgw st2 = BAddr_IPv4 gip gport" "udp_dest_port ru \<noteq> hton16 53"
    using st2(2,4) assms(1,2,14,15) by (simp_all add: dns_config_def)
  have f2: "find_connection st2 (udp_dest_port ru) = Some \<lparr>dc_local_addr = BAddr_IPv4 (ip4_source_address h) ?p,
      dc_remote_addr = BAddr_IPv4 (ip4_destination_address h) (udp_dest_port u), dc_port = udp_dest_port ru, dc_count = 1\<rparr>"
    using st2(2) assms(14) by simp
  obtain st3 bk h3 u3 where r: "process_device_dns_packet True st2 r = Some (True, st3, [TD_Tap_Send bk])"
    "parse_device_udp4 bk = Some (h3, u3, rd)" "ip4_source_address h3 = ip4_destination_address h"
    "ip4_destination_address h3 = ip4_source_address h" "udp_source_port u3 = udp_dest_port u"
    "udp_dest_port u3 = udp_dest_port ru" "find_connection st3 (udp_dest_port ru) = None"
    using dns_answer_returned [OF c2(1,2) st2(3) assms(11-13) c2(3) f2 assms(16,17)] by auto
  show ?thesis
    by (rule exI [of _ st1], rule exI [of _ st2], rule exI [of _ st3], rule exI [of _ fwd], rule exI [of _ bk],
        rule exI [of _ h1], rule exI [of _ u1], rule exI [of _ h3], rule exI [of _ u3])
      (use q st2(1) r assms(6,14) in simp)
qed

theorem dns_nat_roundtrip_witness:
  "\<exists>st1 st3 fwd back h1 u1 h3 u3.
      process_device_dns_packet True demo_td (udp4_packet 1 (hton16 1000) 2 (hton16 53) [5]) = Some (True, st1, [TD_Tap_Send fwd])
    \<and> parse_device_udp4 fwd = Some (h1, u1, [5]) \<and> ip4_destination_address h1 = 7
    \<and> process_device_dns_packet True st1 (udp4_packet 7 8153 9 (hton16 1000) [6]) = Some (True, st3, [TD_Tap_Send back])
    \<and> parse_device_udp4 back = Some (h3, u3, [6]) \<and> ip4_source_address h3 = 2 \<and> ip4_destination_address h3 = 1"
proof -
  let ?q = "udp4_packet 1 (hton16 1000) 2 (hton16 53) [5]" and ?r = "udp4_packet 7 8153 9 (hton16 1000) [6]"
  obtain h u where q: "parse_device_udp4 ?q = Some (h, u, [5])"
    "ip4_source_address h = 1" "ip4_destination_address h = 2" "udp_source_port u = hton16 1000" "udp_dest_port u = hton16 53"
    "ip4_version4_ihl4 h = 0x45" "unat (ntoh16 (ip4_total_length h)) = 28 + length [5 :: byte]"
    using udp4_packet_parses [of "[5]" 1 "hton16 1000" 2 "hton16 53"] by auto
  obtain rh ru where r: "parse_device_udp4 ?r = Some (rh, ru, [6])"
    "udp_source_port ru = 8153" "udp_dest_port ru = hton16 1000"
    "ip4_version4_ihl4 rh = 0x45" "unat (ntoh16 (ip4_total_length rh)) = 28 + length [6 :: byte]"
    using udp4_packet_parses [of "[6]" 7 8153 9 "hton16 1000"] by auto
  have d: "td_have_dnsgw demo_td" "td_dnsgw demo_td = BAddr_IPv4 7 8153" "dns_inv demo_td"
    "find_connection demo_td (udp_source_port u) = None"
    by (simp_all add: demo_td_def dns_inv_def find_connection_def)
  have e: "list_all (other_port (udp_source_port u)) []" "udp_dest_port ru = udp_source_port u" "udp_source_port u \<noteq> hton16 53"
    using q r by simp_all
  from dns_nat_roundtrip [OF d(1-3) packet_versions(1) q(1,5,6,7) d(4) e(1) packet_versions(1) r(1,2) e(2,3) r(4,5)]
  show ?thesis using q by fastforce
qed

text \<open>
  The table of forwarded DNS queries stays a search tree without duplicates whose entries are
  filed under their own port with a positive count, and exactly its entries are allocated, whatever
  packets are processed; with memory available a packet is always processed, and it is taken over
  exactly when one packet is sent.
\<close>

theorem dns_table_invariant:
  assumes "dns_inv st"
  shows "\<exists>b st' cs. process_device_dns_packet True st data = Some (b, st', cs) \<and> dns_inv st'
    \<and> (b \<longleftrightarrow> (\<exists>pkt. cs = [TD_Tap_Send pkt])) \<and> (\<not> b \<longrightarrow> cs = [] \<and> st' = st)"
proof -
  obtain b st' cs where r: "process_device_dns_packet True st data = Some (b, st', cs)" using process_dns_total by blast
  have c: "(b \<longleftrightarrow> (\<exists>pkt. cs = [TD_Tap_Send pkt])) \<and> (\<not> b \<longrightarrow> cs = [] \<and> st' = st)"
    using r by (auto simp: process_device_dns_packet_def Let_def split: option.splits if_splits prod.splits)
  show ?thesis by (intro exI conjI) (rule r process_dns_inv [OF assms r] c [THEN conjunct1] c [THEN conjunct2])+
qed

theorem dns_table_invariant_witness:
  "\<exists>b st' cs. process_device_dns_packet True demo_td [1, 2, 3] = Some (b, st', cs) \<and> dns_inv st'"
  using dns_table_invariant [of demo_td "[1, 2, 3]"] by (auto simp: demo_td_def dns_inv_def)

text \<open>The loop of \<^verbatim>\<open>free_connections\<close> ends with an empty tree, and frees none of the objects it removes.\<close>

lemma dns_connections_leak:
  "td_connections (free_connections st) = [] \<and> td_live (free_connections st) = td_live st"
  by (rule free_connections_empty)

lemma netif_gather_concat:
  "netif_gather mtu buf p = (if p = [] \<or> int (length buf + length (concat p)) \<le> mtu then Some (buf @ concat p) else None)"
  by (induction mtu buf p rule: netif_gather.induct) auto

text \<open>
  lwIP's packets reach the device whole: unless the program is quitting, a packet chain of any
  number of buffers is written as one packet, the concatenation of its buffers, when that fits the
  device MTU (so the write buffer is never overrun), and otherwise nothing is written.
\<close>

theorem netif_output_whole_packet:
  assumes "p \<noteq> []" and "\<not> td_quitting st"
  shows "netif_output_func st p =
      (ERR_OK, if int (length (concat p)) \<le> td_device_mtu st
               then [TD_Sync_Begin, TD_Tap_Send (concat p), TD_Sync_Commit] else [])
    \<and> netif_output_ip6_func st p = netif_output_func st p"
  using assms
  by (cases p) (auto simp: netif_output_func_def netif_output_ip6_func_def common_netif_output_def netif_gather_concat)

theorem netif_output_whole_packet_witness:
  "netif_output_func demo_td [[1, 2], [3]] = (ERR_OK, [TD_Sync_Begin, TD_Tap_Send [1, 2, 3], TD_Sync_Commit])"
  using netif_output_whole_packet [of "[[1, 2], [3]]" demo_td] by (simp add: demo_td_def)

text \<open>
  Every packet read from the device is acknowledged exactly once, before anything else, and a
  TCP/IPv4 packet reaches lwIP unchanged and alone: neither the DNS nor the UDP path takes it, the
  state is kept, and its buffer is freed when lwIP refuses it.
\<close>

theorem device_read_dispatch:
  assumes "take_pbuf data \<noteq> []" and "hd (take_pbuf data) \<noteq> []" and "concat (take_pbuf data) = data"
  shows "(\<exists>st' cs. device_read_handler_send True (Some take_pbuf) res st data = Some (st', TD_Read_Done # cs)
        \<and> TD_Read_Done \<notin> set cs)
    \<and> (ip_version data = 4 \<and> 20 \<le> length data \<and> length data \<le> 65535 \<and> data ! 9 = 6 \<longrightarrow>
        device_read_handler_send True (Some take_pbuf) res st data =
          Some (st, TD_Read_Done # TD_Ip_Input (take_pbuf data) # (if res \<noteq> ERR_OK then [TD_Pbuf_Free] else [])))"
proof
  obtain b st1 cs where d: "process_device_dns_packet True st data = Some (b, st1, cs)" using process_dns_total by blast
  have cs: "TD_Read_Done \<notin> set cs"
    using d by (auto simp: process_device_dns_packet_def Let_def split: option.splits if_splits prod.splits)
  have u: "TD_Read_Done \<notin> set (snd (process_device_udp_packet st1 data))"
    by (auto simp: process_device_udp_packet_def Let_def split: option.splits)
  show "\<exists>st' cs. device_read_handler_send True (Some take_pbuf) res st data = Some (st', TD_Read_Done # cs)
        \<and> TD_Read_Done \<notin> set cs"
  proof (cases b)
    case True
    then show ?thesis using d cs by (simp add: device_read_handler_send_def)
  next
    case False
    obtain b2 cs2 where p: "process_device_udp_packet st1 data = (b2, cs2)" by fastforce
    show ?thesis using False d u p
      by (cases b2) (simp_all add: device_read_handler_send_def netif_input_func_def Let_def)
  qed
next
  have "hd (take_pbuf data) ! 0 = data ! 0" using assms by (cases "take_pbuf data"; cases "hd (take_pbuf data)") auto
  moreover have "data \<noteq> []" using assms by (cases "take_pbuf data") auto
  ultimately have v: "ip_version (hd (take_pbuf data)) = ip_version data" using assms(2) by (simp add: ip_version_def)
  show "ip_version data = 4 \<and> 20 \<le> length data \<and> length data \<le> 65535 \<and> data ! 9 = 6 \<longrightarrow>
        device_read_handler_send True (Some take_pbuf) res st data =
          Some (st, TD_Read_Done # TD_Ip_Input (take_pbuf data) # (if res \<noteq> ERR_OK then [TD_Pbuf_Free] else []))"
  proof
    assume a: "ip_version data = 4 \<and> 20 \<le> length data \<and> length data \<le> 65535 \<and> data ! 9 = 6"
    then have "parse_device_udp4 data = None" by (simp add: parse_device_udp4_def IPV4_PROTOCOL_UDP_def)
    then have "process_device_dns_packet True st data = Some (False, st, [])" "process_device_udp_packet st data = (False, [])"
      using a by (simp_all add: process_device_dns_packet_def process_device_udp_packet_def)
    then show "device_read_handler_send True (Some take_pbuf) res st data =
          Some (st, TD_Read_Done # TD_Ip_Input (take_pbuf data) # (if res \<noteq> ERR_OK then [TD_Pbuf_Free] else []))"
      using a v by (simp add: device_read_handler_send_def netif_input_func_def)
  qed
qed

theorem device_read_dispatch_witness:
  "device_read_handler_send True (Some (\<lambda>d. [d])) ERR_MEM demo_td (0x45 # replicate 8 0 @ 6 # replicate 10 0)
    = Some (demo_td, [TD_Read_Done, TD_Ip_Input [0x45 # replicate 8 0 @ 6 # replicate 10 0], TD_Pbuf_Free])"
  using device_read_dispatch [of "\<lambda>d. [d]" "0x45 # replicate 8 0 @ 6 # replicate 10 0" ERR_MEM demo_td]
  by (simp add: ip_version_def nth_append)

end
