(* ===== verification/Tcp_Client.thy ===== *)
theory Tcp_Client
  imports Tun_Device Socks_Client "HOL-Library.Sublist"
begin

text \<open>
  The TCP clients of \<^verbatim>\<open>tun2socks/tun2socks.c\<close>: one \<^verbatim>\<open>struct tcp_client\<close> relays the byte streams between an
  lwIP connection and a SOCKS connection. A handler maps the client to the client afterwards,
  \<open>None\<close> once \<^verbatim>\<open>client_dealloc\<close> freed it, with the calls it makes. \<open>tc_buf\<close> is the used part of \<^verbatim>\<open>buf\<close>, so
  \<^verbatim>\<open>buf_used\<close> is its length. The callbacks registered with the pcb are part of the client, since
  lwIP calls only registered ones. The results of lwIP calls are arguments: whether \<^verbatim>\<open>tcp_close\<close>
  succeeds, and per round of the sending loop the value of \<^verbatim>\<open>tcp_sndbuf\<close> and the result of \<^verbatim>\<open>tcp_write\<close>.

  Where a handler runs pending jobs with \<^verbatim>\<open>SYNC_COMMIT\<close>, what those jobs do to the client is the argument
  \<open>sync\<close>; \<^verbatim>\<open>DEAD_KILLED\<close> then means that they closed the lwIP side or freed the client.
\<close>

section \<open>The client\<close>

definition TCP_WND :: nat where "TCP_WND = 4 * 1460"
definition CLIENT_SOCKS_RECV_BUF_SIZE :: nat where "CLIENT_SOCKS_RECV_BUF_SIZE = 8192"

record tcp_client =
  tc_local_addr :: BAddr
  tc_remote_addr :: BAddr
  tc_err_cb :: bool
  tc_recv_cb :: bool
  tc_sent_cb :: bool
  tc_client_closed :: bool
  tc_buf :: "byte list"
  tc_socks_username :: bool
  tc_socks_up :: bool
  tc_socks_closed :: bool
  tc_socks_recv_buf :: "byte list"
  tc_socks_recv_buf_used :: int
  tc_socks_recv_buf_sent :: int
  tc_socks_recv_waiting :: bool
  tc_socks_recv_tcp_pending :: int

datatype tc_call =
    TC_Close | TC_Abort
  | TC_Recved nat
  | TC_Write "byte list" err_t | TC_Output
  | TC_Socks_Free
  | TC_Send_If_Init | TC_Recv_If_Init
  | TC_Socks_Send "byte list" | TC_Socks_Recv nat
  | TC_Dealloc
  | TC_Pbuf_Free

type_synonym tc_result = "tcp_client option \<times> tc_call list"

definition client_dealloc :: "tcp_client \<Rightarrow> tc_result" where
  "client_dealloc client = (None, [TC_Dealloc])"

text \<open>\<^verbatim>\<open>tcp_err\<close>, \<^verbatim>\<open>tcp_recv\<close> and \<^verbatim>\<open>tcp_sent\<close> with \<^verbatim>\<open>NULL\<close>.\<close>

definition remove_callbacks :: "tcp_client \<Rightarrow> tcp_client" where
  "remove_callbacks client = client\<lparr>tc_err_cb := False, tc_recv_cb := False, tc_sent_cb := False\<rparr>"

lemma remove_callbacks_fields [simp]:
  "tc_client_closed (remove_callbacks c) = tc_client_closed c" "tc_socks_closed (remove_callbacks c) = tc_socks_closed c"
  "tc_socks_up (remove_callbacks c) = tc_socks_up c" "tc_buf (remove_callbacks c) = tc_buf c"
  by (simp_all add: remove_callbacks_def)

text \<open>
  The three functions call one another; each side is closed at most once, which bounds the calls.
\<close>

function (sequential) client_handle_freed_client :: "bool \<Rightarrow> tcp_client \<Rightarrow> tc_result"
  and client_free_client :: "bool \<Rightarrow> tcp_client \<Rightarrow> tc_result"
  and client_free_socks :: "bool \<Rightarrow> tcp_client \<Rightarrow> tc_result" where
  "client_handle_freed_client close_ok client =
     (let client = client\<lparr>tc_client_closed := True\<rparr>
      in if tc_buf client \<noteq> [] \<and> \<not> tc_socks_closed client then (Some client, [])
         else if \<not> tc_socks_closed client then client_free_socks close_ok client
         else client_dealloc client)"
| "client_free_client close_ok client =
     (let client = remove_callbacks client;
          (r, cs) = client_handle_freed_client close_ok client
      in (r, TC_Close # (if close_ok then [] else [TC_Abort]) @ cs))"
| "client_free_socks close_ok client =
     (let client = (if tc_socks_up client \<and> \<not> tc_client_closed client then client\<lparr>tc_recv_cb := False\<rparr> else client);
          client = client\<lparr>tc_socks_closed := True\<rparr>;
          (r, cs) =
            (if tc_socks_up client \<and> (tc_socks_recv_buf_used client \<ge> 0 \<or> tc_socks_recv_tcp_pending client > 0)
                 \<and> \<not> tc_client_closed client
             then (Some client, [])
             else if \<not> tc_client_closed client then client_free_client close_ok client
             else client_dealloc client)
      in (r, TC_Socks_Free # cs))"
  by pat_completeness auto
termination
  by (relation "measure (\<lambda>x. case x of
        Inl (_, c) \<Rightarrow> if tc_socks_closed c then 0 else 3
      | Inr (Inl (_, c)) \<Rightarrow> if tc_socks_closed c then 1 else 4
      | Inr (Inr (_, c)) \<Rightarrow> 2)") (auto split: if_splits)

declare client_handle_freed_client.simps [simp del] client_free_client.simps [simp del] client_free_socks.simps [simp del]

definition client_abort_client :: "bool \<Rightarrow> tcp_client \<Rightarrow> tc_result" where
  "client_abort_client close_ok client =
     (let (r, cs) = client_handle_freed_client close_ok (remove_callbacks client) in (r, TC_Abort # cs))"

definition client_murder :: "tcp_client \<Rightarrow> tc_result" where
  "client_murder client =
     (let c1 = (if \<not> tc_client_closed client then [TC_Abort] else []);
          client = (if \<not> tc_client_closed client then (remove_callbacks client)\<lparr>tc_client_closed := True\<rparr> else client);
          c2 = (if \<not> tc_socks_closed client then [TC_Socks_Free] else []);
          client = (if \<not> tc_socks_closed client then client\<lparr>tc_socks_closed := True\<rparr> else client);
          (r, c3) = client_dealloc client
      in (r, c1 @ c2 @ c3))"

definition client_err_func :: "bool \<Rightarrow> tcp_client \<Rightarrow> tc_result" where
  "client_err_func close_ok client = client_handle_freed_client close_ok client"

definition client_send_to_socks :: "tcp_client \<Rightarrow> tc_call list" where
  "client_send_to_socks client = [TC_Socks_Send (tc_buf client)]"

definition client_socks_recv_initiate :: "tcp_client \<Rightarrow> tc_call list" where
  "client_socks_recv_initiate client = [TC_Socks_Recv CLIENT_SOCKS_RECV_BUF_SIZE]"

definition killed :: "tcp_client option \<Rightarrow> bool" where
  "killed r = (case r of None \<Rightarrow> True | Some client \<Rightarrow> tc_client_closed client)"

definition client_recv_func ::
    "bool \<Rightarrow> (tcp_client \<Rightarrow> tc_result) \<Rightarrow> tcp_client \<Rightarrow> byte list option \<Rightarrow> err_t \<times> tc_result" where
  "client_recv_func close_ok sync client p =
     (case p of
        None \<Rightarrow> (ERR_ABRT, client_free_client close_ok client)
      | Some data \<Rightarrow>
          if length data > TCP_WND - length (tc_buf client) then (ERR_MEM, Some client, [])
          else
            let client = client\<lparr>tc_buf := tc_buf client @ data\<rparr>
            in if length (tc_buf client) = length data \<and> tc_socks_up client
               then let c1 = client_send_to_socks client; (r, c2) = sync client
                    in if killed r then (ERR_ABRT, r, c1 @ c2) else (ERR_OK, r, c1 @ c2 @ [TC_Pbuf_Free])
               else (ERR_OK, Some client, [TC_Pbuf_Free]))"

definition client_socks_handler :: "bool \<Rightarrow> tcp_client \<Rightarrow> sc_event \<Rightarrow> tc_result" where
  "client_socks_handler close_ok client event =
     (case event of
        EVENT_ERROR \<Rightarrow> client_free_socks close_ok client
      | EVENT_UP \<Rightarrow>
          let client = client\<lparr>tc_socks_recv_buf_used := -1, tc_socks_recv_tcp_pending := 0\<rparr>;
              client = (if \<not> tc_client_closed client then client\<lparr>tc_sent_cb := True\<rparr> else client);
              client = client\<lparr>tc_socks_up := True\<rparr>
          in (Some client, [TC_Send_If_Init, TC_Recv_If_Init]
                @ (if tc_buf client \<noteq> [] then client_send_to_socks client else [])
                @ (if \<not> tc_client_closed client then client_socks_recv_initiate client else []))
      | EVENT_ERROR_CLOSED \<Rightarrow> client_free_socks close_ok client)"

definition client_socks_send_handler_done :: "bool \<Rightarrow> tcp_client \<Rightarrow> nat \<Rightarrow> tc_result" where
  "client_socks_send_handler_done close_ok client data_len =
     (let client = client\<lparr>tc_buf := drop data_len (tc_buf client)\<rparr>;
          c1 = (if \<not> tc_client_closed client then [TC_Recved data_len] else [])
      in if tc_buf client \<noteq> [] then (Some client, c1 @ [TC_Socks_Send (tc_buf client)])
         else if tc_client_closed client
         then let (r, c2) = client_free_socks close_ok client in (r, c1 @ c2)
         else (Some client, c1))"

text \<open>
  The loop of \<^verbatim>\<open>client_socks_recv_send_out\<close>. Round \<open>i\<close> finds \<open>fst (lw i)\<close> bytes of send buffer and
  \<^verbatim>\<open>tcp_write\<close> returns \<open>snd (lw i)\<close>; the last result says whether to abort. As the code asserts,
  something is left to send, so the amount is not negative.
\<close>

function send_out_loop :: "(nat \<Rightarrow> nat \<times> err_t) \<Rightarrow> nat \<Rightarrow> tcp_client \<Rightarrow> tcp_client \<times> tc_call list \<times> bool" where
  "send_out_loop lw i client =
     (let to_write = bmin_int (tc_socks_recv_buf_used client - tc_socks_recv_buf_sent client) (int (fst (lw i)));
          data = take (nat to_write) (drop (nat (tc_socks_recv_buf_sent client)) (tc_socks_recv_buf client));
          err = snd (lw i)
      in if to_write \<le> 0 then (client, [], False)
         else if err \<noteq> ERR_OK then (client, [TC_Write data err], err \<noteq> ERR_MEM)
         else
           let client = client\<lparr>tc_socks_recv_buf_sent := tc_socks_recv_buf_sent client + to_write,
                               tc_socks_recv_tcp_pending := tc_socks_recv_tcp_pending client + to_write\<rparr>
           in if tc_socks_recv_buf_sent client < tc_socks_recv_buf_used client
              then let (c, cs, a) = send_out_loop lw (Suc i) client in (c, TC_Write data err # cs, a)
              else (client, [TC_Write data err], False))"
  by auto
termination
  by (relation "measure (\<lambda>(lw, i, c). nat (tc_socks_recv_buf_used c - tc_socks_recv_buf_sent c))") (auto simp: Let_def)

declare send_out_loop.simps [simp del]

text \<open>The result \<open>True\<close> is \<^verbatim>\<open>-1\<close>: the connection was aborted.\<close>

definition client_socks_recv_send_out ::
    "bool \<Rightarrow> (nat \<Rightarrow> nat \<times> err_t) \<Rightarrow> err_t \<Rightarrow> tcp_client \<Rightarrow> bool \<times> tc_result" where
  "client_socks_recv_send_out close_ok lw output_err client =
     (let (client, c1, abort) = send_out_loop lw 0 client
      in if abort then let (r, c2) = client_abort_client close_ok client in (True, r, c1 @ c2)
         else if output_err \<noteq> ERR_OK
         then let (r, c2) = client_abort_client close_ok client in (True, r, c1 @ [TC_Output] @ c2)
         else if tc_socks_recv_buf_sent client < tc_socks_recv_buf_used client
         then if tc_socks_recv_tcp_pending client = 0
              then let (r, c2) = client_abort_client close_ok client in (True, r, c1 @ [TC_Output] @ c2)
              else (False, Some (client\<lparr>tc_socks_recv_waiting := True\<rparr>), c1 @ [TC_Output])
         else (False, Some (client\<lparr>tc_socks_recv_buf_used := -1\<rparr>), c1 @ [TC_Output]))"

definition client_socks_recv_handler_done ::
    "bool \<Rightarrow> (nat \<Rightarrow> nat \<times> err_t) \<Rightarrow> err_t \<Rightarrow> tcp_client \<Rightarrow> byte list \<Rightarrow> tc_result" where
  "client_socks_recv_handler_done close_ok lw output_err client data =
     (if tc_client_closed client then (Some client, [])
      else
        let client = client\<lparr>tc_socks_recv_buf := data, tc_socks_recv_buf_used := int (length data),
                            tc_socks_recv_buf_sent := 0, tc_socks_recv_waiting := False\<rparr>;
            (aborted, r, c1) = client_socks_recv_send_out close_ok lw output_err client
        in if aborted then (r, c1)
           else (case r of
                   None \<Rightarrow> (None, c1)
                 | Some client \<Rightarrow>
                     if tc_socks_recv_buf_used client = -1
                     then (Some client, c1 @ client_socks_recv_initiate client)
                     else (Some client, c1)))"

definition client_sent_func ::
    "bool \<Rightarrow> (nat \<Rightarrow> nat \<times> err_t) \<Rightarrow> err_t \<Rightarrow> (tcp_client \<Rightarrow> tc_result) \<Rightarrow> tcp_client \<Rightarrow> nat \<Rightarrow> err_t \<times> tc_result" where
  "client_sent_func close_ok lw output_err sync client len =
     (let client = client\<lparr>tc_socks_recv_tcp_pending := tc_socks_recv_tcp_pending client - int len\<rparr>
      in if tc_socks_recv_buf_used client > 0
         then
           let client = client\<lparr>tc_socks_recv_waiting := False\<rparr>;
               (aborted, r, c1) = client_socks_recv_send_out close_ok lw output_err client
           in if aborted then (ERR_ABRT, r, c1)
              else (case r of
                      None \<Rightarrow> (ERR_ABRT, None, c1)
                    | Some client \<Rightarrow>
                        if tc_socks_recv_buf_used client = -1 \<and> \<not> tc_socks_closed client
                        then let (r, c2) = sync client
                             in if killed r then (ERR_ABRT, r, c1 @ client_socks_recv_initiate client @ c2)
                                else (ERR_OK, r, c1 @ client_socks_recv_initiate client @ c2)
                        else (ERR_OK, Some client, c1))
         else if tc_socks_closed client \<and> tc_socks_recv_tcp_pending client = 0
         then (ERR_ABRT, client_free_client close_ok client)
         else (ERR_OK, Some client, []))"

section \<open>All clients\<close>

text \<open>
  The clients by address, the list \<^verbatim>\<open>tcp_clients\<close>, \<^verbatim>\<open>num_clients\<close>, and the array \<^verbatim>\<open>socks_auth_info\<close> all
  SOCKS clients share. \<open>world_after\<close> stores what a handler made of a client; when the handler
  deallocated it, it also performs the updates of \<^verbatim>\<open>client_dealloc\<close> on the list and the counter.
\<close>

record tcp_world =
  tw_clients :: "nat \<Rightarrow> tcp_client option"
  tw_list :: "nat list"
  tw_num :: int
  tw_auth :: "BSocksClient_auth_info list"

definition world_after :: "nat \<Rightarrow> tcp_client option \<Rightarrow> tcp_world \<Rightarrow> tcp_world" where
  "world_after a r w =
     (case r of
        Some c \<Rightarrow> w\<lparr>tw_clients := (tw_clients w)(a \<mapsto> c)\<rparr>
      | None \<Rightarrow> w\<lparr>tw_num := tw_num w - 1, tw_list := remove1 a (tw_list w), tw_clients := (tw_clients w)(a := None)\<rparr>)"

text \<open>The fields about receiving are set when SOCKS comes up and not read before; here they start as zero.\<close>

definition new_client :: "BAddr \<Rightarrow> BAddr \<Rightarrow> bool \<Rightarrow> tcp_client" where
  "new_client local remote named =
     \<lparr>tc_local_addr = local, tc_remote_addr = remote, tc_err_cb = True, tc_recv_cb = True, tc_sent_cb = False,
      tc_client_closed = False, tc_buf = [], tc_socks_username = named, tc_socks_up = False, tc_socks_closed = False,
      tc_socks_recv_buf = [], tc_socks_recv_buf_used = 0, tc_socks_recv_buf_sent = 0, tc_socks_recv_waiting = False,
      tc_socks_recv_tcp_pending = 0\<rparr>"

text \<open>
  \<open>user\<close> is \<^verbatim>\<open>options.username\<close>, \<open>append_source\<close> \<^verbatim>\<open>options.append_source_to_username\<close>; \<open>print\<close> is \<^verbatim>\<open>BAddr_Print\<close>,
  which goes through the C library. \<open>concat_ok\<close> and \<open>connector_ok\<close> are the results of
  \<^verbatim>\<open>concat_strings\<close> and of the initialisation of the SOCKS client.
\<close>

definition listener_accept_func ::
    "nat option \<Rightarrow> bool \<Rightarrow> bool \<Rightarrow> (BAddr \<Rightarrow> byte list) \<Rightarrow> byte list option \<Rightarrow> bool \<Rightarrow> (tcp_world \<Rightarrow> tcp_world) \<Rightarrow>
     ipX_addr \<Rightarrow> u16 \<Rightarrow> ipX_addr \<Rightarrow> u16 \<Rightarrow> tcp_world \<Rightarrow> err_t \<times> tcp_world \<times> BSocksClient option" where
  "listener_accept_func malloc concat_ok connector_ok print user append_source sync local_ip local_port remote_ip remote_port w =
     (case malloc of
        None \<Rightarrow> (ERR_MEM, w, None)
      | Some a \<Rightarrow>
          let local = baddr_from_lwip local_ip local_port; remote = baddr_from_lwip remote_ip remote_port;
              rename = (user \<noteq> None \<and> append_source)
          in if rename \<and> \<not> concat_ok then (ERR_MEM, w, None)
             else
               let w = (if rename
                        then w\<lparr>tw_auth := (tw_auth w)[1 := Auth_Password (the user @ [0x40] @ print remote)
                                                        (password (tw_auth w ! 1))]\<rparr>
                        else w)
               in case BSocksClient_Init (tw_auth w) local connector_ok of
                    None \<Rightarrow> (ERR_MEM, w, None)
                  | Some socks \<Rightarrow>
                      let w = sync (w\<lparr>tw_clients := (tw_clients w)(a \<mapsto> new_client local remote rename),
                                     tw_list := tw_list w @ [a], tw_num := tw_num w + 1\<rparr>)
                      in (if killed (tw_clients w a) then ERR_ABRT else ERR_OK, w, Some socks))"

text \<open>The loop of \<^verbatim>\<open>main\<close> that frees the clients.\<close>

function free_clients_loop :: "tcp_world \<Rightarrow> tcp_world" where
  "free_clients_loop w =
     (case tw_list w of
        [] \<Rightarrow> w
      | a # _ \<Rightarrow> (case tw_clients w a of
                    None \<Rightarrow> w
                  | Some c \<Rightarrow> free_clients_loop (world_after a (fst (client_murder c)) w)))"
  by auto
termination
  by (relation "measure (\<lambda>w. length (tw_list w))")
    (auto simp: world_after_def client_murder_def client_dealloc_def Let_def)

declare free_clients_loop.simps [simp del]

section \<open>Closing\<close>

lemma client_handle_freed_client_eq:
  "client_handle_freed_client ok c =
     (if tc_buf c \<noteq> [] \<and> \<not> tc_socks_closed c then (Some (c\<lparr>tc_client_closed := True\<rparr>), [])
      else (None, (if tc_socks_closed c then [] else [TC_Socks_Free]) @ [TC_Dealloc]))"
  by (simp add: client_handle_freed_client.simps client_free_socks.simps client_dealloc_def Let_def)

lemma client_free_client_eq:
  "client_free_client ok c =
     (if tc_buf c \<noteq> [] \<and> \<not> tc_socks_closed c then Some ((remove_callbacks c)\<lparr>tc_client_closed := True\<rparr>) else None,
      TC_Close # (if ok then [] else [TC_Abort])
        @ (if tc_buf c \<noteq> [] \<and> \<not> tc_socks_closed c then []
           else (if tc_socks_closed c then [] else [TC_Socks_Free]) @ [TC_Dealloc]))"
  by (simp add: client_free_client.simps client_handle_freed_client_eq Let_def)

lemma client_free_socks_eq:
  "client_free_socks ok c =
     (if tc_socks_up c \<and> (tc_socks_recv_buf_used c \<ge> 0 \<or> tc_socks_recv_tcp_pending c > 0) \<and> \<not> tc_client_closed c
      then (Some (c\<lparr>tc_recv_cb := False, tc_socks_closed := True\<rparr>), [TC_Socks_Free])
      else (None, TC_Socks_Free # (if tc_client_closed c then [] else TC_Close # (if ok then [] else [TC_Abort])) @ [TC_Dealloc]))"
  by (simp add: client_free_socks.simps client_free_client_eq client_dealloc_def Let_def)

lemma client_abort_client_eq:
  "client_abort_client ok c =
     (if tc_buf c \<noteq> [] \<and> \<not> tc_socks_closed c then Some ((remove_callbacks c)\<lparr>tc_client_closed := True\<rparr>) else None,
      TC_Abort # (if tc_buf c \<noteq> [] \<and> \<not> tc_socks_closed c then []
           else (if tc_socks_closed c then [] else [TC_Socks_Free]) @ [TC_Dealloc]))"
  by (simp add: client_abort_client_def client_handle_freed_client_eq Let_def)

lemmas closing_eqs = client_handle_freed_client_eq client_free_client_eq client_free_socks_eq client_abort_client_eq

section \<open>The relay as a transition system\<close>

text \<open>
  The state of a relay with its history: the bytes lwIP handed over and the bytes the SOCKS connection
  accepted, the bytes received from SOCKS and the bytes accepted by \<^verbatim>\<open>tcp_write\<close>, how many of these lwIP has
  confirmed, and the outstanding operations of the two stream interfaces: a send with its data, of which the
  connection accepts a first part of its choice, and a receive.
\<close>

record tc_sys =
  ts_client :: "tcp_client option"
  ts_in :: "byte list"
  ts_up :: "byte list"
  ts_down :: "byte list"
  ts_out :: "byte list"
  ts_acked :: nat
  ts_sending :: "byte list option"
  ts_receiving :: bool

fun ts_call :: "tc_call \<Rightarrow> tc_sys \<Rightarrow> tc_sys" where
  "ts_call (TC_Write d e) s = (if e = ERR_OK then s\<lparr>ts_out := ts_out s @ d\<rparr> else s)"
| "ts_call (TC_Socks_Send d) s = s\<lparr>ts_sending := Some d\<rparr>"
| "ts_call (TC_Socks_Recv n) s = s\<lparr>ts_receiving := True\<rparr>"
| "ts_call TC_Socks_Free s = s\<lparr>ts_sending := None, ts_receiving := False\<rparr>"
| "ts_call _ s = s"

definition ts_after :: "tc_result \<Rightarrow> tc_sys \<Rightarrow> tc_sys" where
  "ts_after res s = (fold ts_call (snd res) s)\<lparr>ts_client := fst res\<rparr>"

text \<open>
  The jobs a \<^verbatim>\<open>SYNC_COMMIT\<close> runs are steps of their own, right after the step of the callback: behind
  the commit the callbacks only choose their result and free the packet (lemma \<open>sync_is_a_step\<close>).
  An error callback comes with the destruction of the pcb, so no callback follows it.
\<close>

abbreviation no_jobs :: "tcp_client \<Rightarrow> tc_result" where
  "no_jobs c \<equiv> (Some c, [])"

inductive tc_step :: "tc_sys \<Rightarrow> tc_sys \<Rightarrow> bool" where
  socks_event: "ts_client s = Some c \<Longrightarrow> \<not> tc_socks_closed c \<Longrightarrow> (ev = EVENT_UP \<longleftrightarrow> \<not> tc_socks_up c) \<or> ev = EVENT_ERROR \<Longrightarrow>
    tc_step s (ts_after (client_socks_handler ok c ev) s)"
| send_done: "ts_client s = Some c \<Longrightarrow> ts_sending s = Some data \<Longrightarrow> 0 < k \<Longrightarrow> k \<le> length data \<Longrightarrow>
    tc_step s (ts_after (client_socks_send_handler_done ok c k)
                 (s\<lparr>ts_up := ts_up s @ take k data, ts_sending := None\<rparr>))"
| recv_done: "ts_client s = Some c \<Longrightarrow> ts_receiving s \<Longrightarrow> d \<noteq> [] \<Longrightarrow> length d \<le> CLIENT_SOCKS_RECV_BUF_SIZE \<Longrightarrow>
    tc_step s (ts_after (client_socks_recv_handler_done ok lw oerr c d)
                 (s\<lparr>ts_down := ts_down s @ d, ts_receiving := False\<rparr>))"
| lwip_recv: "ts_client s = Some c \<Longrightarrow> tc_recv_cb c \<Longrightarrow> d \<noteq> [] \<Longrightarrow>
    client_recv_func ok no_jobs c (Some d) = (e, res) \<Longrightarrow>
    tc_step s (ts_after res (s\<lparr>ts_in := ts_in s @ (if e = ERR_MEM then [] else d)\<rparr>))"
| lwip_fin: "ts_client s = Some c \<Longrightarrow> tc_recv_cb c \<Longrightarrow> client_recv_func ok no_jobs c None = (e, res) \<Longrightarrow>
    tc_step s (ts_after res s)"
| lwip_sent: "ts_client s = Some c \<Longrightarrow> tc_sent_cb c \<Longrightarrow> 0 < len \<Longrightarrow> ts_acked s + len \<le> length (ts_out s) \<Longrightarrow>
    client_sent_func ok lw oerr no_jobs c len = (e, res) \<Longrightarrow>
    tc_step s (ts_after res (s\<lparr>ts_acked := ts_acked s + len\<rparr>))"
| lwip_err: "ts_client s = Some c \<Longrightarrow> tc_err_cb c \<Longrightarrow>
    tc_step s (ts_after (client_err_func ok (remove_callbacks c)) s)"

definition tc_client_inv :: "tc_sys \<Rightarrow> tcp_client \<Rightarrow> bool" where
  "tc_client_inv s c \<longleftrightarrow>
     ts_in s = ts_up s @ tc_buf c \<and> length (tc_buf c) \<le> TCP_WND
     \<and> tc_err_cb c = (\<not> tc_client_closed c) \<and> tc_recv_cb c = (\<not> tc_client_closed c \<and> \<not> tc_socks_closed c)
     \<and> tc_sent_cb c = (\<not> tc_client_closed c \<and> tc_socks_up c)
     \<and> (tc_client_closed c \<longrightarrow> tc_buf c \<noteq> [] \<and> \<not> tc_socks_closed c)
     \<and> (\<forall>d. ts_sending s = Some d \<longrightarrow> d \<noteq> [] \<and> prefix d (tc_buf c) \<and> tc_socks_up c \<and> \<not> tc_socks_closed c)
     \<and> (tc_socks_up c \<and> \<not> tc_socks_closed c \<and> tc_buf c \<noteq> [] \<longrightarrow> ts_sending s \<noteq> None)
     \<and> (ts_receiving s \<longrightarrow> tc_socks_up c \<and> \<not> tc_socks_closed c \<and> tc_socks_recv_buf_used c = -1)
     \<and> (\<not> tc_socks_up c \<longrightarrow> ts_out s = [] \<and> ts_down s = [] \<and> ts_acked s = 0 \<and> \<not> tc_socks_closed c)"

definition tc_down_inv :: "tc_sys \<Rightarrow> tcp_client \<Rightarrow> bool" where
  "tc_down_inv s c \<longleftrightarrow>
     (tc_socks_up c \<and> \<not> tc_client_closed c \<longrightarrow>
        tc_socks_recv_tcp_pending c = int (length (ts_out s)) - int (ts_acked s)
      \<and> (tc_socks_recv_buf_used c = -1 \<and> ts_down s = ts_out s
           \<and> (tc_socks_closed c \<and> tc_socks_recv_tcp_pending c > 0 \<or> ts_receiving s)
         \<or> 0 \<le> tc_socks_recv_buf_sent c \<and> tc_socks_recv_buf_sent c < tc_socks_recv_buf_used c
           \<and> tc_socks_recv_buf_used c = int (length (tc_socks_recv_buf c)) \<and> tc_socks_recv_waiting c
           \<and> tc_socks_recv_tcp_pending c > 0
           \<and> ts_down s = ts_out s @ drop (nat (tc_socks_recv_buf_sent c)) (tc_socks_recv_buf c)))"

definition tc_inv :: "tc_sys \<Rightarrow> bool" where
  "tc_inv s \<longleftrightarrow> prefix (ts_up s) (ts_in s) \<and> prefix (ts_out s) (ts_down s) \<and> ts_acked s \<le> length (ts_out s)
     \<and> (case ts_client s of None \<Rightarrow> True | Some c \<Rightarrow> tc_client_inv s c \<and> tc_down_inv s c)"

section \<open>The sending loop\<close>

lemma send_out_loop_result:
  assumes "send_out_loop lw i c = (c', cs, a)" "0 \<le> tc_socks_recv_buf_sent c"
    "tc_socks_recv_buf_sent c < tc_socks_recv_buf_used c" "tc_socks_recv_buf_used c = int (length (tc_socks_recv_buf c))"
  shows "\<exists>n. c' = c\<lparr>tc_socks_recv_buf_sent := tc_socks_recv_buf_sent c + int n,
                    tc_socks_recv_tcp_pending := tc_socks_recv_tcp_pending c + int n\<rparr>
    \<and> tc_socks_recv_buf_sent c + int n \<le> tc_socks_recv_buf_used c
    \<and> (\<forall>s. fold ts_call cs s = s\<lparr>ts_out := ts_out s @ take n (drop (nat (tc_socks_recv_buf_sent c)) (tc_socks_recv_buf c))\<rparr>)"
  using assms
proof (induction lw i c arbitrary: c' cs a rule: send_out_loop.induct)
  case (1 lw i c)
  let ?sent = "tc_socks_recv_buf_sent c" and ?used = "tc_socks_recv_buf_used c" and ?buf = "tc_socks_recv_buf c"
  let ?w = "bmin_int (?used - ?sent) (int (fst (lw i)))"
  let ?data = "take (nat ?w) (drop (nat ?sent) ?buf)"
  let ?c = "c\<lparr>tc_socks_recv_buf_sent := ?sent + ?w, tc_socks_recv_tcp_pending := tc_socks_recv_tcp_pending c + ?w\<rparr>"
  have le: "?w \<le> ?used - ?sent" by (simp add: bmin_int_def)
  have stop: ?case if "c' = c" "\<And>s. fold ts_call cs s = s"
    by (rule exI [of _ 0]) (use that 1(4) in simp)
  consider (brk) "?w \<le> 0" | (err) "\<not> ?w \<le> 0" "snd (lw i) \<noteq> ERR_OK"
    | (more) "\<not> ?w \<le> 0" "snd (lw i) = ERR_OK" "?sent + ?w < ?used" | (all) "\<not> ?w \<le> 0" "snd (lw i) = ERR_OK" "\<not> ?sent + ?w < ?used"
    by blast
  then show ?case
  proof cases
    case brk
    then have "c' = c \<and> cs = []" using 1(2) by (subst (asm) send_out_loop.simps) (simp add: Let_def)
    then show ?thesis by (intro stop) simp_all
  next
    case err
    then have "c' = c \<and> cs = [TC_Write ?data (snd (lw i))]" using 1(2) by (subst (asm) send_out_loop.simps) (auto simp: Let_def)
    then show ?thesis using err by (intro stop) simp_all
  next
    case all
    then have r: "c' = ?c \<and> cs = [TC_Write ?data ERR_OK]" using 1(2) by (subst (asm) send_out_loop.simps) (auto simp: Let_def)
    show ?thesis by (rule exI [of _ "nat ?w"]) (use r all le in simp)
  next
    case more
    obtain c2 cs2 a2 where r2: "send_out_loop lw (Suc i) ?c = (c2, cs2, a2)" by (metis prod_cases3)
    have r: "c' = c2" "cs = TC_Write ?data ERR_OK # cs2"
      using 1(2) more r2 by (subst (asm) send_out_loop.simps, simp add: Let_def)+
    have "\<exists>n. c2 = ?c\<lparr>tc_socks_recv_buf_sent := tc_socks_recv_buf_sent ?c + int n,
                    tc_socks_recv_tcp_pending := tc_socks_recv_tcp_pending ?c + int n\<rparr>
      \<and> tc_socks_recv_buf_sent ?c + int n \<le> tc_socks_recv_buf_used ?c
      \<and> (\<forall>s. fold ts_call cs2 s = s\<lparr>ts_out := ts_out s @ take n (drop (nat (tc_socks_recv_buf_sent ?c)) (tc_socks_recv_buf ?c))\<rparr>)"
      by (rule "1.IH" [OF refl refl refl more(1) _ refl _ r2]) (use more 1(3-5) in simp_all)
    then obtain n where n: "c2 = ?c\<lparr>tc_socks_recv_buf_sent := ?sent + ?w + int n,
                    tc_socks_recv_tcp_pending := tc_socks_recv_tcp_pending c + ?w + int n\<rparr>"
      "?sent + ?w + int n \<le> ?used"
      "\<And>s. fold ts_call cs2 s = s\<lparr>ts_out := ts_out s @ take n (drop (nat (?sent + ?w)) ?buf)\<rparr>" by auto
    have "take (nat ?w) (drop (nat ?sent) ?buf) @ take n (drop (nat (?sent + ?w)) ?buf) = take (nat ?w + n) (drop (nat ?sent) ?buf)"
      using more 1(3) take_add [of "nat ?w" n "drop (nat ?sent) ?buf"] by (simp add: nat_add_distrib add.commute [of "nat ?sent"])
    then show ?thesis using r n more by (intro exI [of _ "nat ?w + n"]) simp
  qed
qed

lemma send_out_result:
  assumes r: "client_socks_recv_send_out ok lw oerr c = (ab, res)"
    and c: "0 \<le> tc_socks_recv_buf_sent c" "tc_socks_recv_buf_sent c < tc_socks_recv_buf_used c"
      "tc_socks_recv_buf_used c = int (length (tc_socks_recv_buf c))" "0 \<le> tc_socks_recv_tcp_pending c"
  shows "\<exists>n c1. c1 = c\<lparr>tc_socks_recv_buf_sent := tc_socks_recv_buf_sent c + int n,
            tc_socks_recv_tcp_pending := tc_socks_recv_tcp_pending c + int n\<rparr>
    \<and> tc_socks_recv_buf_sent c1 \<le> tc_socks_recv_buf_used c
    \<and> (\<forall>s. ts_after res s = (let s1 = s\<lparr>ts_out := ts_out s @ take n (drop (nat (tc_socks_recv_buf_sent c)) (tc_socks_recv_buf c))\<rparr>
        in if ab then ts_after (client_abort_client ok c1) s1 else s1\<lparr>ts_client := fst res\<rparr>))
    \<and> (\<not> ab \<longrightarrow> fst res = Some (if tc_socks_recv_buf_sent c1 < tc_socks_recv_buf_used c
        then c1\<lparr>tc_socks_recv_waiting := True\<rparr> else c1\<lparr>tc_socks_recv_buf_used := -1\<rparr>))
    \<and> (\<not> ab \<longrightarrow> tc_socks_recv_buf_sent c1 < tc_socks_recv_buf_used c \<longrightarrow> 0 < tc_socks_recv_tcp_pending c1)"
proof -
  obtain c1 cs a where l: "send_out_loop lw 0 c = (c1, cs, a)" by (metis prod_cases3)
  from send_out_loop_result [OF l c(1-3)] obtain n where n:
    "c1 = c\<lparr>tc_socks_recv_buf_sent := tc_socks_recv_buf_sent c + int n,
            tc_socks_recv_tcp_pending := tc_socks_recv_tcp_pending c + int n\<rparr>"
    "tc_socks_recv_buf_sent c1 \<le> tc_socks_recv_buf_used c"
    and f: "\<And>s. fold ts_call cs s = s\<lparr>ts_out := ts_out s @ take n (drop (nat (tc_socks_recv_buf_sent c)) (tc_socks_recv_buf c))\<rparr>"
    by auto
  have u: "tc_socks_recv_buf_used c1 = tc_socks_recv_buf_used c" by (simp add: n(1))
  have p: "0 \<le> tc_socks_recv_tcp_pending c1" using c(4) by (simp add: n(1))
  have r': "(ab, res) = (if a then (True, fst (client_abort_client ok c1), cs @ snd (client_abort_client ok c1))
      else if oerr \<noteq> ERR_OK then (True, fst (client_abort_client ok c1), cs @ [TC_Output] @ snd (client_abort_client ok c1))
      else if tc_socks_recv_buf_sent c1 < tc_socks_recv_buf_used c1
      then if tc_socks_recv_tcp_pending c1 = 0
           then (True, fst (client_abort_client ok c1), cs @ [TC_Output] @ snd (client_abort_client ok c1))
           else (False, Some (c1\<lparr>tc_socks_recv_waiting := True\<rparr>), cs @ [TC_Output])
      else (False, Some (c1\<lparr>tc_socks_recv_buf_used := -1\<rparr>), cs @ [TC_Output]))"
    unfolding r [symmetric] client_socks_recv_send_out_def l by (simp add: split_beta Let_def)
  show ?thesis
  proof (intro exI conjI allI impI)
    show "c1 = c\<lparr>tc_socks_recv_buf_sent := tc_socks_recv_buf_sent c + int n,
            tc_socks_recv_tcp_pending := tc_socks_recv_tcp_pending c + int n\<rparr>"
      "tc_socks_recv_buf_sent c1 \<le> tc_socks_recv_buf_used c" by (rule n)+
    show "ts_after res s = (let s1 = s\<lparr>ts_out := ts_out s @ take n (drop (nat (tc_socks_recv_buf_sent c)) (tc_socks_recv_buf c))\<rparr>
        in if ab then ts_after (client_abort_client ok c1) s1 else s1\<lparr>ts_client := fst res\<rparr>)" for s
      using r' by (auto simp: ts_after_def f Let_def split: if_splits)
    show "fst res = Some (if tc_socks_recv_buf_sent c1 < tc_socks_recv_buf_used c
        then c1\<lparr>tc_socks_recv_waiting := True\<rparr> else c1\<lparr>tc_socks_recv_buf_used := -1\<rparr>)" if "\<not> ab"
      using r' that u by (auto split: if_splits)
    show "0 < tc_socks_recv_tcp_pending c1" if "\<not> ab" "tc_socks_recv_buf_sent c1 < tc_socks_recv_buf_used c"
      using r' that u p by (auto split: if_splits)
  qed
qed

section \<open>Every step keeps the invariant\<close>

lemma ts_after_simps:
  "ts_after (r, []) s = s\<lparr>ts_client := r\<rparr>"
  "ts_after (r, c # cs) s = ts_after (r, cs) (ts_call c s)"
  by (simp_all add: ts_after_def)

lemma tc_down_inv_frame [simp]:
  "tc_down_inv (s\<lparr>ts_client := r\<rparr>) c = tc_down_inv s c" "tc_down_inv (s\<lparr>ts_in := x\<rparr>) c = tc_down_inv s c"
  "tc_down_inv (s\<lparr>ts_up := x\<rparr>) c = tc_down_inv s c" "tc_down_inv (s\<lparr>ts_sending := n\<rparr>) c = tc_down_inv s c"
  "tc_down_inv s (c\<lparr>tc_buf := x\<rparr>) = tc_down_inv s c" "tc_down_inv s (c\<lparr>tc_recv_cb := b\<rparr>) = tc_down_inv s c"
  by (simp_all add: tc_down_inv_def)

lemma tc_client_inv_frame [simp]: "tc_client_inv (s\<lparr>ts_client := r\<rparr>) c = tc_client_inv s c"
  by (simp add: tc_client_inv_def)

lemma tc_invI:
  "ts_client s = Some c \<Longrightarrow> tc_client_inv s c \<Longrightarrow> tc_down_inv s c \<Longrightarrow> prefix (ts_out s) (ts_down s) \<Longrightarrow>
    ts_acked s \<le> length (ts_out s) \<Longrightarrow> tc_inv s"
  by (simp add: tc_inv_def tc_client_inv_def)

lemma tc_invI_None:
  "ts_client s = None \<Longrightarrow> prefix (ts_up s) (ts_in s) \<Longrightarrow> prefix (ts_out s) (ts_down s) \<Longrightarrow>
    ts_acked s \<le> length (ts_out s) \<Longrightarrow> tc_inv s"
  by (simp add: tc_inv_def)

lemma tc_invD:
  assumes "tc_inv s" "ts_client s = Some c"
  shows "tc_client_inv s c" "tc_down_inv s c" "prefix (ts_up s) (ts_in s)" "prefix (ts_out s) (ts_down s)"
    "ts_acked s \<le> length (ts_out s)"
  using assms by (simp_all add: tc_inv_def)

lemma tc_client_invD:
  assumes "tc_client_inv s c"
  shows "ts_in s = ts_up s @ tc_buf c" "length (tc_buf c) \<le> TCP_WND" "tc_err_cb c = (\<not> tc_client_closed c)"
    "tc_recv_cb c = (\<not> tc_client_closed c \<and> \<not> tc_socks_closed c)" "tc_sent_cb c = (\<not> tc_client_closed c \<and> tc_socks_up c)"
    "tc_client_closed c \<Longrightarrow> tc_buf c \<noteq> [] \<and> \<not> tc_socks_closed c"
    "ts_sending s = Some d \<Longrightarrow> d \<noteq> [] \<and> prefix d (tc_buf c) \<and> tc_socks_up c \<and> \<not> tc_socks_closed c"
    "tc_socks_up c \<Longrightarrow> \<not> tc_socks_closed c \<Longrightarrow> tc_buf c \<noteq> [] \<Longrightarrow> ts_sending s \<noteq> None"
    "ts_receiving s \<Longrightarrow> tc_socks_up c \<and> \<not> tc_socks_closed c \<and> tc_socks_recv_buf_used c = -1"
    "\<not> tc_socks_up c \<Longrightarrow> ts_out s = [] \<and> ts_down s = [] \<and> ts_acked s = 0 \<and> \<not> tc_socks_closed c"
  using assms unfolding tc_client_inv_def by auto

lemma inv_aborted:
  assumes "tc_client_inv s c" "prefix (ts_out s) (ts_down s)" "ts_acked s \<le> length (ts_out s)" "tc_socks_up c"
  shows "tc_inv (ts_after (client_abort_client ok c) s)"
proof -
  have p: "prefix (ts_up s) (ts_in s)" using tc_client_invD(1) [OF assms(1)] by simp
  show ?thesis
  proof (cases "tc_buf c \<noteq> [] \<and> \<not> tc_socks_closed c")
    case True
    let ?c = "(remove_callbacks c)\<lparr>tc_client_closed := True\<rparr>"
    have "tc_client_inv s ?c" using assms(1,4) True by (auto simp: tc_client_inv_def remove_callbacks_def)
    moreover have "tc_down_inv s ?c" by (simp add: tc_down_inv_def)
    ultimately show ?thesis using True assms
      by (intro tc_invI [of _ ?c]) (simp_all add: client_abort_client_eq ts_after_simps)
  next
    case False
    then show ?thesis using assms p
      by (intro tc_invI_None) (auto simp: client_abort_client_eq ts_after_simps)
  qed
qed

lemma step_free_socks:
  assumes "tc_inv s" "ts_client s = Some c" "\<not> tc_socks_closed c"
  shows "tc_inv (ts_after (client_free_socks ok c) s)"
proof -
  note i = tc_invD [OF assms(1,2)]
  let ?s = "s\<lparr>ts_sending := None, ts_receiving := False, ts_client := Some (c\<lparr>tc_recv_cb := False, tc_socks_closed := True\<rparr>)\<rparr>"
  let ?c = "c\<lparr>tc_recv_cb := False, tc_socks_closed := True\<rparr>"
  show ?thesis
  proof (cases "tc_socks_up c \<and> (tc_socks_recv_buf_used c \<ge> 0 \<or> tc_socks_recv_tcp_pending c > 0) \<and> \<not> tc_client_closed c")
    case True
    then have "tc_socks_recv_tcp_pending c > 0" using i(2) by (auto simp: tc_down_inv_def)
    then have "tc_client_inv ?s ?c" using i(1) True by (simp add: tc_client_inv_def)
    moreover have "tc_down_inv ?s ?c" using i(2) True by (auto simp: tc_down_inv_def)
    ultimately show ?thesis using True i
      by (intro tc_invI [of _ ?c]) (simp_all add: client_free_socks_eq ts_after_simps)
  next
    case False
    then show ?thesis using i
      by (intro tc_invI_None) (auto simp: client_free_socks_eq ts_after_simps)
  qed
qed

lemma step_socks_event:
  assumes "tc_inv s" "ts_client s = Some c" "\<not> tc_socks_closed c" "(ev = EVENT_UP \<longleftrightarrow> \<not> tc_socks_up c) \<or> ev = EVENT_ERROR"
  shows "tc_inv (ts_after (client_socks_handler ok c ev) s)"
proof (cases ev)
  case EVENT_UP
  then have n: "\<not> tc_socks_up c" using assms(4) by auto
  note i = tc_invD [OF assms(1,2)]
  let ?c = "c\<lparr>tc_socks_recv_buf_used := -1, tc_socks_recv_tcp_pending := 0,
    tc_sent_cb := tc_sent_cb c \<or> \<not> tc_client_closed c, tc_socks_up := True\<rparr>"
  let ?s = "s\<lparr>ts_sending := if tc_buf c \<noteq> [] then Some (tc_buf c) else ts_sending s,
    ts_receiving := ts_receiving s \<or> \<not> tc_client_closed c, ts_client := Some ?c\<rparr>"
  have e: "ts_after (client_socks_handler ok c ev) s = ?s"
    using EVENT_UP
    by (cases "tc_client_closed c"; cases "tc_buf c = []"; cases s; cases c)
      (simp_all add: client_socks_handler_def client_send_to_socks_def client_socks_recv_initiate_def ts_after_simps Let_def)
  have "tc_client_inv ?s ?c" using i(1) n assms(3) by (auto simp: tc_client_inv_def)
  moreover have "tc_down_inv ?s ?c" using tc_client_invD(10) [OF i(1) n] by (simp add: tc_down_inv_def)
  ultimately show ?thesis unfolding e using i by (intro tc_invI [of _ ?c]) simp_all
qed (use step_free_socks [OF assms(1-3)] in \<open>simp_all add: client_socks_handler_def\<close>)

lemma step_send_done:
  assumes "tc_inv s" "ts_client s = Some c" "ts_sending s = Some data" "0 < k" "k \<le> length data"
  shows "tc_inv (ts_after (client_socks_send_handler_done ok c k)
    (s\<lparr>ts_up := ts_up s @ take k data, ts_sending := None\<rparr>))"
proof -
  note i = tc_invD [OF assms(1,2)]
  note u = tc_client_invD(7) [OF i(1) assms(3)]
  let ?c = "c\<lparr>tc_buf := drop k (tc_buf c)\<rparr>"
  have t: "take k data = take k (tc_buf c)" using u assms(5) by (auto simp: prefix_def)
  have u: "0 < length (tc_buf c) \<and> k \<le> length (tc_buf c) \<and> tc_socks_up c \<and> \<not> tc_socks_closed c"
    using u assms(4,5) prefix_length_le by fastforce
  let ?s = "s\<lparr>ts_up := ts_up s @ take k (tc_buf c), ts_sending := None\<rparr>"
  have p: "prefix (ts_up ?s) (ts_in ?s)"
    unfolding prefix_def by (rule exI [of _ "drop k (tc_buf c)"]) (use tc_client_invD(1) [OF i(1)] in simp)
  have "tc_inv (ts_after (client_socks_send_handler_done ok c k) ?s)"
  proof (cases "drop k (tc_buf c) = [] \<and> tc_client_closed c")
    case True
    then show ?thesis using i p u
      by (intro tc_invI_None) (auto simp: client_socks_send_handler_done_def client_free_socks_eq ts_after_simps Let_def)
  next
    case False
    let ?s2 = "?s\<lparr>ts_sending := if drop k (tc_buf c) = [] then None else Some (drop k (tc_buf c)), ts_client := Some ?c\<rparr>"
    have e: "ts_after (client_socks_send_handler_done ok c k) ?s = ?s2"
      using False by (auto simp: client_socks_send_handler_done_def ts_after_simps Let_def)
    have "tc_client_inv ?s2 ?c" using i(1) u False by (auto simp: tc_client_inv_def)
    moreover have "tc_down_inv ?s2 ?c" using i(2) by simp
    ultimately show ?thesis unfolding e using i by (intro tc_invI [of _ ?c]) simp_all
  qed
  then show ?thesis by (simp add: t)
qed

lemma step_lwip_recv:
  assumes "tc_inv s" "ts_client s = Some c" "tc_recv_cb c" "d \<noteq> []" "client_recv_func ok no_jobs c (Some d) = (e, res)"
  shows "tc_inv (ts_after res (s\<lparr>ts_in := ts_in s @ (if e = ERR_MEM then [] else d)\<rparr>))"
proof -
  note i = tc_invD [OF assms(1,2)]
  have n: "\<not> tc_client_closed c" "\<not> tc_socks_closed c" using tc_client_invD(4) [OF i(1)] assms(3) by auto
  show ?thesis
  proof (cases "length d > TCP_WND - length (tc_buf c)")
    case True
    then have "e = ERR_MEM" "res = (Some c, [])" using assms(5) by (simp_all add: client_recv_func_def)
    moreover have "s\<lparr>ts_in := ts_in s @ [], ts_client := Some c\<rparr> = s" using assms(2) by (cases s) simp
    ultimately show ?thesis using assms(1) by (simp add: ts_after_simps)
  next
    case False
    let ?c = "c\<lparr>tc_buf := tc_buf c @ d\<rparr>"
    let ?s = "s\<lparr>ts_in := ts_in s @ d, ts_sending := if tc_buf c = [] \<and> tc_socks_up c then Some d else ts_sending s,
      ts_client := Some ?c\<rparr>"
    have "e = ERR_OK \<and> res = (Some ?c, (if tc_buf c = [] \<and> tc_socks_up c then [TC_Socks_Send d] else []) @ [TC_Pbuf_Free])"
      using assms(5) False n by (auto simp: client_recv_func_def client_send_to_socks_def killed_def Let_def)
    then have e: "ts_after res (s\<lparr>ts_in := ts_in s @ (if e = ERR_MEM then [] else d)\<rparr>) = ?s"
      by (cases s) (auto simp: ts_after_simps)
    have "length (tc_buf c) + length d \<le> TCP_WND" using False tc_client_invD(2) [OF i(1)] by linarith
    then have "tc_client_inv ?s ?c" using i(1) n assms(4) by (auto simp: tc_client_inv_def)
    moreover have "tc_down_inv ?s ?c" using i(2) by simp
    ultimately show ?thesis unfolding e using i by (intro tc_invI [of _ ?c]) simp_all
  qed
qed

lemma inv_closed:
  assumes "tc_client_inv s c" "prefix (ts_out s) (ts_down s)" "ts_acked s \<le> length (ts_out s)"
    "tc_buf c \<noteq> []" "\<not> tc_socks_closed c"
  shows "tc_inv (s\<lparr>ts_client := Some ((remove_callbacks c)\<lparr>tc_client_closed := True\<rparr>)\<rparr>)"
  using assms by (intro tc_invI [of _ "(remove_callbacks c)\<lparr>tc_client_closed := True\<rparr>"])
    (auto simp: tc_client_inv_def tc_down_inv_def remove_callbacks_def)

lemma step_lwip_close:
  assumes "tc_inv s" "ts_client s = Some c"
  shows "client_recv_func ok no_jobs c None = (e, res) \<Longrightarrow> tc_inv (ts_after res s)"
    "tc_inv (ts_after (client_err_func ok (remove_callbacks c)) s)"
    "tc_inv (ts_after (client_free_client ok c) s)"
proof -
  note i = tc_invD [OF assms]
  have a: "tc_inv (ts_after (client_free_client ok c) s) \<and> tc_inv (ts_after (client_err_func ok (remove_callbacks c)) s)"
  proof (cases "tc_buf c \<noteq> [] \<and> \<not> tc_socks_closed c")
    case True
    then show ?thesis using inv_closed [OF i(1,4,5)]
      by (simp add: client_free_client_eq client_err_func_def client_handle_freed_client_eq ts_after_simps)
  next
    case False
    have "tc_inv (s\<lparr>ts_sending := x, ts_receiving := y, ts_client := None\<rparr>)" "tc_inv (s\<lparr>ts_client := None\<rparr>)" for x y
      using i by (simp_all add: tc_inv_def)
    then show ?thesis using False
      by (auto simp: client_free_client_eq client_err_func_def client_handle_freed_client_eq ts_after_simps)
  qed
  show "tc_inv (ts_after res s)" if "client_recv_func ok no_jobs c None = (e, res)"
    using a that by (simp add: client_recv_func_def)
  show "tc_inv (ts_after (client_err_func ok (remove_callbacks c)) s)" "tc_inv (ts_after (client_free_client ok c) s)"
    using a by simp_all
qed

text \<open>Sending out what was received: shared by the first attempt and the later ones.\<close>

lemma send_out_inv:
  assumes r: "client_socks_recv_send_out ok lw oerr c = (ab, res)" and i: "tc_client_inv s c"
    and d: "ts_down s = ts_out s @ drop (nat (tc_socks_recv_buf_sent c)) (tc_socks_recv_buf c)" "ts_acked s \<le> length (ts_out s)"
      "tc_socks_recv_tcp_pending c = int (length (ts_out s)) - int (ts_acked s)"
    and c: "0 \<le> tc_socks_recv_buf_sent c" "tc_socks_recv_buf_sent c < tc_socks_recv_buf_used c"
      "tc_socks_recv_buf_used c = int (length (tc_socks_recv_buf c))"
    and n: "\<not> tc_client_closed c" "tc_socks_up c" "\<not> ts_receiving s"
  shows "(ab \<longrightarrow> tc_inv (ts_after res s)) \<and>
    (\<not> ab \<longrightarrow> (\<exists>c1. fst res = Some c1 \<and> tc_client_closed c1 = tc_client_closed c \<and> tc_socks_closed c1 = tc_socks_closed c
        \<and> (tc_socks_recv_buf_used c1 = -1 \<and> \<not> tc_socks_closed c \<longrightarrow> tc_inv ((ts_after res s)\<lparr>ts_receiving := True\<rparr>))
        \<and> (tc_socks_recv_buf_used c1 \<noteq> -1 \<or> tc_socks_closed c \<longrightarrow> tc_inv (ts_after res s))))"
proof -
  let ?sent = "tc_socks_recv_buf_sent c" and ?buf = "tc_socks_recv_buf c"
  have p0: "0 \<le> tc_socks_recv_tcp_pending c" using d by simp
  from send_out_result [OF r c p0] obtain k c1 where
    c1: "c1 = c\<lparr>tc_socks_recv_buf_sent := ?sent + int k, tc_socks_recv_tcp_pending := tc_socks_recv_tcp_pending c + int k\<rparr>"
    and le: "tc_socks_recv_buf_sent c1 \<le> tc_socks_recv_buf_used c"
    and a: "\<forall>s. ts_after res s = (let s1 = s\<lparr>ts_out := ts_out s @ take k (drop (nat ?sent) ?buf)\<rparr>
        in if ab then ts_after (client_abort_client ok c1) s1 else s1\<lparr>ts_client := fst res\<rparr>)"
    and nab: "\<not> ab \<longrightarrow> fst res = Some (if tc_socks_recv_buf_sent c1 < tc_socks_recv_buf_used c
        then c1\<lparr>tc_socks_recv_waiting := True\<rparr> else c1\<lparr>tc_socks_recv_buf_used := -1\<rparr>)"
      "\<not> ab \<longrightarrow> tc_socks_recv_buf_sent c1 < tc_socks_recv_buf_used c \<longrightarrow> 0 < tc_socks_recv_tcp_pending c1"
    by (elim exE conjE)
  define s1 where "s1 = s\<lparr>ts_out := ts_out s @ take k (drop (nat ?sent) ?buf)\<rparr>"
  have k: "length (take k (drop (nat ?sent) ?buf)) = k" using le c by (simp add: c1)
  have i1: "tc_client_inv s1 c1" using i n by (auto simp: tc_client_inv_def s1_def c1)
  have dn: "ts_down s1 = ts_out s1 @ drop (nat (tc_socks_recv_buf_sent c1)) ?buf"
    using d(1) c(1) by (simp add: s1_def c1 nat_add_distrib add.commute [of "nat ?sent"] flip: drop_drop)
  have pr: "prefix (ts_out s1) (ts_down s1)" by (simp add: dn)
  have ac: "ts_acked s1 \<le> length (ts_out s1)" using d(2) by (simp add: s1_def)
  have pd: "tc_socks_recv_tcp_pending c1 = int (length (ts_out s1)) - int (ts_acked s1)" using d(3) k by (simp add: s1_def c1)
  show ?thesis
  proof (cases ab)
    case True
    then show ?thesis using inv_aborted [OF i1 pr ac] n by (simp add: a c1 flip: s1_def)
  next
    case False
    let ?c2 = "if tc_socks_recv_buf_sent c1 < tc_socks_recv_buf_used c
        then c1\<lparr>tc_socks_recv_waiting := True\<rparr> else c1\<lparr>tc_socks_recv_buf_used := -1\<rparr>"
    have s2: "ts_after res s = s1\<lparr>ts_client := Some ?c2\<rparr>" using False nab(1) by (simp add: a flip: s1_def)
    show ?thesis
    proof (cases "tc_socks_recv_buf_sent c1 < tc_socks_recv_buf_used c")
      case True
      then have "tc_client_inv s1 ?c2" using i1 by (simp add: tc_client_inv_def)
      moreover have "tc_down_inv s1 ?c2" using True c n pd dn nab(2) False by (simp add: tc_down_inv_def c1)
      ultimately have "tc_inv (ts_after res s)" unfolding s2 using pr ac by (intro tc_invI [of _ ?c2]) simp_all
      then show ?thesis using False nab(1) True c by (simp add: c1)
    next
      case all: False
      then have e: "ts_down s1 = ts_out s1" using dn le c by (simp add: c1)
      let ?c3 = "c1\<lparr>tc_socks_recv_buf_used := -1\<rparr>"
      have s3: "ts_after res s = s1\<lparr>ts_client := Some ?c3\<rparr>" using s2 all by simp
      have p1: "0 < tc_socks_recv_tcp_pending c1" using all p0 c by (simp add: c1)
      have "tc_inv ((ts_after res s)\<lparr>ts_receiving := True\<rparr>)" if "\<not> tc_socks_closed c"
        unfolding s3 by (rule tc_invI [of _ ?c3])
          (use i1 n that e pd pr ac in \<open>simp_all add: tc_client_inv_def tc_down_inv_def c1\<close>)
      moreover have "tc_inv (ts_after res s)" if "tc_socks_closed c"
        unfolding s3 by (rule tc_invI [of _ ?c3])
          (use i1 n that e pd pr ac p1 in \<open>simp_all add: tc_client_inv_def tc_down_inv_def c1 s1_def\<close>)
      ultimately show ?thesis using False nab(1) all by (simp add: c1)
    qed
  qed
qed

lemma step_recv_done:
  assumes "tc_inv s" "ts_client s = Some c" "ts_receiving s" "d \<noteq> []"
  shows "tc_inv (ts_after (client_socks_recv_handler_done ok lw oerr c d)
    (s\<lparr>ts_down := ts_down s @ d, ts_receiving := False\<rparr>))"
proof -
  note i = tc_invD [OF assms(1,2)]
  note u = tc_client_invD(9) [OF i(1) assms(3)]
  let ?s = "s\<lparr>ts_down := ts_down s @ d, ts_receiving := False\<rparr>"
  show ?thesis
  proof (cases "tc_client_closed c")
    case True
    have "tc_client_inv ?s c" "tc_down_inv ?s c" using i(1) True u by (simp_all add: tc_client_inv_def tc_down_inv_def)
    then show ?thesis using True i
      by (intro tc_invI [of _ c]) (simp_all add: client_socks_recv_handler_done_def ts_after_simps prefix_prefix)
  next
    case False
    let ?c = "c\<lparr>tc_socks_recv_buf := d, tc_socks_recv_buf_used := int (length d),
      tc_socks_recv_buf_sent := 0, tc_socks_recv_waiting := False\<rparr>"
    obtain ab res where r: "client_socks_recv_send_out ok lw oerr ?c = (ab, res)" by (rule prod.exhaust)
    have ic: "tc_client_inv ?s ?c" using i(1) u by (simp add: tc_client_inv_def)
    have dd: "ts_down s = ts_out s" "tc_socks_recv_tcp_pending c = int (length (ts_out s)) - int (ts_acked s)"
      using i(2) u False by (auto simp: tc_down_inv_def)
    have so: "(ab \<longrightarrow> tc_inv (ts_after res ?s)) \<and>
      (\<not> ab \<longrightarrow> (\<exists>c1. fst res = Some c1 \<and> tc_client_closed c1 = tc_client_closed ?c \<and> tc_socks_closed c1 = tc_socks_closed ?c
        \<and> (tc_socks_recv_buf_used c1 = -1 \<and> \<not> tc_socks_closed ?c \<longrightarrow> tc_inv ((ts_after res ?s)\<lparr>ts_receiving := True\<rparr>))
        \<and> (tc_socks_recv_buf_used c1 \<noteq> -1 \<or> tc_socks_closed ?c \<longrightarrow> tc_inv (ts_after res ?s))))"
      by (rule send_out_inv [OF r ic]) (use dd i False u assms(4) in simp_all)
    show ?thesis
    proof (cases ab)
      case True
      then have "client_socks_recv_handler_done ok lw oerr c d = res" using False r
        by (cases res) (simp add: client_socks_recv_handler_done_def Let_def)
      then show ?thesis using so True by simp
    next
      case nab: False
      then obtain c1 where c1: "fst res = Some c1" using so by auto
      have h: "client_socks_recv_handler_done ok lw oerr c d =
          (Some c1, snd res @ (if tc_socks_recv_buf_used c1 = -1 then client_socks_recv_initiate c1 else []))"
        using False r nab c1 by (cases res) (simp add: client_socks_recv_handler_done_def Let_def)
      have "ts_after (Some c1, snd res @ client_socks_recv_initiate c1) ?s = (ts_after res ?s)\<lparr>ts_receiving := True\<rparr>"
        using c1 by (simp add: ts_after_def client_socks_recv_initiate_def)
      moreover have "ts_after (Some c1, snd res) ?s = ts_after res ?s" using c1 by (simp add: ts_after_def)
      ultimately show ?thesis unfolding h using so nab c1 u by auto
    qed
  qed
qed

lemma step_lwip_sent:
  assumes "tc_inv s" "ts_client s = Some c" "tc_sent_cb c" "0 < len" "ts_acked s + len \<le> length (ts_out s)"
    "client_sent_func ok lw oerr no_jobs c len = (e, res)"
  shows "tc_inv (ts_after res (s\<lparr>ts_acked := ts_acked s + len\<rparr>))"
proof -
  note i = tc_invD [OF assms(1,2)]
  let ?s = "s\<lparr>ts_acked := ts_acked s + len\<rparr>"
  let ?c0 = "c\<lparr>tc_socks_recv_tcp_pending := tc_socks_recv_tcp_pending c - int len\<rparr>"
  have n: "\<not> tc_client_closed c" "tc_socks_up c" using tc_client_invD(5) [OF i(1)] assms(3) by auto
  have p: "tc_socks_recv_tcp_pending c = int (length (ts_out s)) - int (ts_acked s)" using i(2) n by (auto simp: tc_down_inv_def)
  have ic: "tc_client_inv ?s ?c0" using i(1) n by (simp add: tc_client_inv_def)
  have down: "tc_socks_recv_buf_used c = -1 \<and> ts_down s = ts_out s
           \<and> (tc_socks_closed c \<and> tc_socks_recv_tcp_pending c > 0 \<or> ts_receiving s)
         \<or> 0 \<le> tc_socks_recv_buf_sent c \<and> tc_socks_recv_buf_sent c < tc_socks_recv_buf_used c
           \<and> tc_socks_recv_buf_used c = int (length (tc_socks_recv_buf c))
           \<and> ts_down s = ts_out s @ drop (nat (tc_socks_recv_buf_sent c)) (tc_socks_recv_buf c)"
    using i(2) n by (auto simp: tc_down_inv_def)
  show ?thesis
  proof (cases "tc_socks_recv_buf_used c > 0")
    case True
    let ?c = "?c0\<lparr>tc_socks_recv_waiting := False\<rparr>"
    have nr: "\<not> ts_receiving s" using tc_client_invD(9) [OF i(1)] n True by auto
    obtain ab res' where r: "client_socks_recv_send_out ok lw oerr ?c = (ab, res')" by (rule prod.exhaust)
    have "tc_client_inv ?s ?c" using ic by (simp add: tc_client_inv_def)
    then have so: "(ab \<longrightarrow> tc_inv (ts_after res' ?s)) \<and>
      (\<not> ab \<longrightarrow> (\<exists>c1. fst res' = Some c1 \<and> tc_client_closed c1 = tc_client_closed ?c \<and> tc_socks_closed c1 = tc_socks_closed ?c
        \<and> (tc_socks_recv_buf_used c1 = -1 \<and> \<not> tc_socks_closed ?c \<longrightarrow> tc_inv ((ts_after res' ?s)\<lparr>ts_receiving := True\<rparr>))
        \<and> (tc_socks_recv_buf_used c1 \<noteq> -1 \<or> tc_socks_closed ?c \<longrightarrow> tc_inv (ts_after res' ?s))))"
      by (rule send_out_inv [OF r]) (use down i n nr p True assms(5) in auto)
    show ?thesis
    proof (cases ab)
      case ab: True
      then have "res = res'" using True r assms(6) by (cases res') (simp add: client_sent_func_def Let_def)
      then show ?thesis using so ab by simp
    next
      case nab: False
      then obtain c1 where c1: "fst res' = Some c1" "tc_client_closed c1 = tc_client_closed c" "tc_socks_closed c1 = tc_socks_closed c"
        using so by auto
      have h: "res = (Some c1, snd res' @ (if tc_socks_recv_buf_used c1 = -1 \<and> \<not> tc_socks_closed c1 then client_socks_recv_initiate c1 else []))"
        using True r nab c1 assms(6) n by (cases res') (auto simp: client_sent_func_def Let_def killed_def split: if_splits)
      have "ts_after (Some c1, snd res' @ client_socks_recv_initiate c1) ?s = (ts_after res' ?s)\<lparr>ts_receiving := True\<rparr>"
        using c1 by (simp add: ts_after_def client_socks_recv_initiate_def)
      moreover have "ts_after (Some c1, snd res') ?s = ts_after res' ?s" using c1 by (simp add: ts_after_def)
      ultimately show ?thesis unfolding h using so nab c1 by auto
    qed
  next
    case False
    then have d: "tc_socks_recv_buf_used c = -1" "ts_down s = ts_out s" "tc_socks_closed c \<or> ts_receiving s" using down by auto
    show ?thesis
    proof (cases "tc_socks_closed c \<and> tc_socks_recv_tcp_pending ?c0 = 0")
      case True
      then have "res = client_free_client ok ?c0" using False assms(6) by (simp add: client_sent_func_def Let_def)
      then have "ts_after res ?s = ?s\<lparr>ts_client := None\<rparr>" using True
        by (cases ok) (simp_all add: client_free_client_eq ts_after_simps)
      then show ?thesis using i assms(5) by (simp add: tc_inv_def)
    next
      case keep: False
      then have "res = (Some ?c0, [])" using False assms(6) by (auto simp: client_sent_func_def Let_def)
      moreover have "tc_down_inv ?s ?c0" using d p keep assms(5) by (auto simp: tc_down_inv_def)
      ultimately show ?thesis using ic i assms(5) by (intro tc_invI [of _ ?c0]) (simp_all add: ts_after_simps)
    qed
  qed
qed

lemma tc_step_inv: "tc_step s s' \<Longrightarrow> tc_inv s \<Longrightarrow> tc_inv s'"
proof (induction rule: tc_step.induct)
  case (socks_event s c ev ok)
  then show ?case using step_socks_event by blast
next
  case (send_done s c n k ok)
  then show ?case using step_send_done by blast
next
  case (recv_done s c d ok lw oerr)
  then show ?case using step_recv_done by blast
next
  case (lwip_recv s c d ok e res)
  then show ?case using step_lwip_recv by blast
next
  case (lwip_fin s c ok e res)
  then show ?case using step_lwip_close(1) by blast
next
  case (lwip_sent s c len ok lw oerr e res)
  then show ?case using step_lwip_sent by blast
next
  case (lwip_err s c ok)
  then show ?case using step_lwip_close(2) by blast
qed

text \<open>What a callback with a commit does is its step without jobs, followed by the jobs.\<close>

lemma sync_is_a_step:
  "\<exists>c'. fst (snd (client_recv_func ok no_jobs c (Some d))) = Some c'
     \<and> fst (snd (client_recv_func ok sync c (Some d))) \<in> {Some c', fst (sync c')}"
  "fst (snd (client_sent_func ok lw oerr sync c len)) = fst (snd (client_sent_func ok lw oerr no_jobs c len)) \<or>
   (\<exists>c'. fst (snd (client_sent_func ok lw oerr no_jobs c len)) = Some c'
     \<and> fst (snd (client_sent_func ok lw oerr sync c len)) = fst (sync c'))"
  by (auto simp: client_recv_func_def client_sent_func_def Let_def split: option.splits prod.splits)

section \<open>The list of clients\<close>

definition world_inv :: "tcp_world \<Rightarrow> bool" where
  "world_inv w \<longleftrightarrow> distinct (tw_list w) \<and> set (tw_list w) = dom (tw_clients w) \<and> tw_num w = int (length (tw_list w))"

lemma world_after_inv:
  assumes "world_inv w" "tw_clients w a \<noteq> None"
  shows "world_inv (world_after a r w)"
proof (cases r)
  case None
  have "a \<in> set (tw_list w)" using assms by (auto simp: world_inv_def)
  then have "int (length (remove1 a (tw_list w))) = int (length (tw_list w)) - 1"
    by (simp add: length_remove1, cases "tw_list w") auto
  then show ?thesis using None assms by (auto simp: world_after_def world_inv_def)
next
  case (Some c)
  then show ?thesis using assms by (auto simp: world_after_def world_inv_def)
qed

lemma murder_dead: "fst (client_murder c) = None"
  by (simp add: client_murder_def client_dealloc_def Let_def)

lemma free_clients_loop_empty:
  "world_inv w \<Longrightarrow> world_inv (free_clients_loop w) \<and> tw_list (free_clients_loop w) = []"
proof (induction w rule: free_clients_loop.induct)
  case (1 w)
  show ?case
  proof (cases "tw_list w")
    case Nil
    then show ?thesis using "1.prems" by (subst (1 2) free_clients_loop.simps) simp
  next
    case (Cons a as)
    then obtain c where c: "tw_clients w a = Some c" using "1.prems" by (auto simp: world_inv_def)
    have "free_clients_loop w = free_clients_loop (world_after a (fst (client_murder c)) w)"
      using Cons c by (subst free_clients_loop.simps) simp
    then show ?thesis using "1.IH" [OF Cons c] world_after_inv [OF "1.prems", of a] c by simp
  qed
qed

section \<open>Properties\<close>

definition tc_start :: "BAddr \<Rightarrow> BAddr \<Rightarrow> bool \<Rightarrow> tc_sys" where
  "tc_start local remote named =
     \<lparr>ts_client = Some (new_client local remote named), ts_in = [], ts_up = [], ts_down = [], ts_out = [],
      ts_acked = 0, ts_sending = None, ts_receiving = False\<rparr>"

lemma tc_reachable_inv:
  assumes "tc_step\<^sup>*\<^sup>* (tc_start l r named) s"
  shows "tc_inv s"
  using assms
proof (induction rule: rtranclp_induct)
  case base
  show ?case by (simp add: tc_start_def new_client_def tc_inv_def tc_client_inv_def tc_down_inv_def)
next
  case (step s s')
  then show ?case using tc_step_inv by blast
qed


definition demo_relay_state :: tc_sys where
  "demo_relay_state = (tc_start BAddr_None BAddr_None False)
     \<lparr>ts_client := Some ((new_client BAddr_None BAddr_None False)\<lparr>tc_buf := [1, 2]\<rparr>), ts_in := [1, 2]\<rparr>"

lemma demo_relay: "tc_step\<^sup>*\<^sup>* (tc_start BAddr_None BAddr_None False) demo_relay_state"
proof -
  let ?s = "tc_start BAddr_None BAddr_None False" and ?c = "new_client BAddr_None BAddr_None False"
  have "client_recv_func True no_jobs ?c (Some [1, 2]) = (ERR_OK, Some (?c\<lparr>tc_buf := [1, 2]\<rparr>), [TC_Pbuf_Free])"
    by (simp add: client_recv_func_def new_client_def TCP_WND_def)
  from lwip_recv [OF _ _ _ this, of ?s] have
    "tc_step ?s (ts_after (Some (?c\<lparr>tc_buf := [1, 2]\<rparr>), [TC_Pbuf_Free]) (?s\<lparr>ts_in := [1, 2]\<rparr>))"
    by (simp add: tc_start_def new_client_def)
  then show ?thesis by (intro r_into_rtranclp) (simp add: ts_after_simps tc_start_def demo_relay_state_def)
qed


text \<open>
  The \<^verbatim>\<open>ASSERT\<close>s at the entry of the callbacks and handlers, and those of \<^verbatim>\<open>client_recv_func\<close> and
  \<^verbatim>\<open>client_sent_func\<close> about the state they continue in.
\<close>

definition client_err_func_asserts :: "tcp_client \<Rightarrow> bool" where
  "client_err_func_asserts client \<longleftrightarrow> \<not> tc_client_closed client"

definition client_recv_func_asserts :: "tcp_client \<Rightarrow> bool" where
  "client_recv_func_asserts client \<longleftrightarrow> \<not> tc_client_closed client
     \<and> (tc_buf client = [] \<and> tc_socks_up client \<longrightarrow> \<not> tc_socks_closed client)"

definition client_sent_func_asserts :: "tcp_client \<Rightarrow> nat \<Rightarrow> bool" where
  "client_sent_func_asserts client len \<longleftrightarrow> \<not> tc_client_closed client \<and> tc_socks_up client
     \<and> len > 0 \<and> int len \<le> tc_socks_recv_tcp_pending client
     \<and> (tc_socks_recv_buf_used client > 0 \<longrightarrow>
          tc_socks_recv_waiting client \<and> tc_socks_recv_buf_sent client < tc_socks_recv_buf_used client)"

definition client_socks_handler_asserts :: "tcp_client \<Rightarrow> sc_event \<Rightarrow> bool" where
  "client_socks_handler_asserts client event \<longleftrightarrow> \<not> tc_socks_closed client
     \<and> (event = EVENT_UP \<longrightarrow> \<not> tc_socks_up client) \<and> (event = EVENT_ERROR_CLOSED \<longrightarrow> tc_socks_up client)"

definition client_socks_send_handler_done_asserts :: "tcp_client \<Rightarrow> nat \<Rightarrow> bool" where
  "client_socks_send_handler_done_asserts client data_len \<longleftrightarrow> \<not> tc_socks_closed client \<and> tc_socks_up client
     \<and> length (tc_buf client) > 0 \<and> data_len > 0 \<and> data_len \<le> length (tc_buf client)"

definition client_socks_recv_handler_done_asserts :: "tcp_client \<Rightarrow> nat \<Rightarrow> bool" where
  "client_socks_recv_handler_done_asserts client data_len \<longleftrightarrow> data_len > 0
     \<and> data_len \<le> CLIENT_SOCKS_RECV_BUF_SIZE \<and> \<not> tc_socks_closed client \<and> tc_socks_up client
     \<and> tc_socks_recv_buf_used client = -1"

text \<open>
  C27: A live client never waits for something that cannot happen, and the callbacks and handlers find the state
  they assert. In every reachable state with a live client: not both sides are closed; a client whose lwIP side
  is closed still has data that SOCKS is sending (or SOCKS is still connecting); a client whose SOCKS side is
  closed has unconfirmed data, and the callback that continues it is registered; while both sides are open
  either a receive is outstanding or a confirmation is due. The entry assertions of the error, receive and sent
  callbacks hold whenever the callback is registered (and, for the last, lwIP confirms bytes it took and did not
  confirm yet), those of the two completion handlers whenever their operation is outstanding and completes with
  a part of what was asked for, those of the SOCKS handler for every event the SOCKS client may report: up while
  not up, closed while up, an error.
\<close>

theorem tcp_relay_progress:
  assumes "tc_step\<^sup>*\<^sup>* (tc_start l r named) s" and "ts_client s = Some c"
  shows "\<not> (tc_client_closed c \<and> tc_socks_closed c)
    \<and> (tc_client_closed c \<longrightarrow> tc_buf c \<noteq> [] \<and> (tc_socks_up c \<longrightarrow> ts_sending s \<noteq> None))
    \<and> (tc_socks_closed c \<longrightarrow> tc_sent_cb c \<and> tc_socks_recv_tcp_pending c > 0 \<and> ts_acked s < length (ts_out s))
    \<and> (tc_socks_up c \<and> \<not> tc_socks_closed c \<and> \<not> tc_client_closed c \<longrightarrow>
         ts_receiving s \<or> tc_socks_recv_tcp_pending c > 0)
    \<and> (tc_err_cb c \<longrightarrow> client_err_func_asserts c)
    \<and> (tc_recv_cb c \<longrightarrow> client_recv_func_asserts c)
    \<and> (\<forall>len. tc_sent_cb c \<and> 0 < len \<and> ts_acked s + len \<le> length (ts_out s) \<longrightarrow> client_sent_func_asserts c len)
    \<and> (\<forall>data k. ts_sending s = Some data \<and> 0 < k \<and> k \<le> length data \<longrightarrow> client_socks_send_handler_done_asserts c k)
    \<and> (\<forall>k. ts_receiving s \<and> 0 < k \<and> k \<le> CLIENT_SOCKS_RECV_BUF_SIZE \<longrightarrow> client_socks_recv_handler_done_asserts c k)
    \<and> (\<forall>ev. \<not> tc_socks_closed c \<and> ((ev = EVENT_UP \<longleftrightarrow> \<not> tc_socks_up c) \<or> ev = EVENT_ERROR) \<longrightarrow>
         client_socks_handler_asserts c ev)"
proof -
  note i = tc_invD [OF tc_reachable_inv [OF assms(1)] assms(2)]
  note iv = tc_client_invD [OF i(1)]
  have u: "tc_socks_closed c \<Longrightarrow> tc_socks_up c \<and> \<not> tc_client_closed c" using iv(6,10) by blast
  have d: "tc_socks_recv_tcp_pending c = int (length (ts_out s)) - int (ts_acked s)"
    "tc_socks_recv_buf_used c = -1 \<and> (tc_socks_closed c \<and> tc_socks_recv_tcp_pending c > 0 \<or> ts_receiving s)
      \<or> tc_socks_recv_buf_sent c < tc_socks_recv_buf_used c \<and> tc_socks_recv_waiting c \<and> tc_socks_recv_tcp_pending c > 0"
    if "tc_socks_up c" "\<not> tc_client_closed c" using i(2) that unfolding tc_down_inv_def by blast+
  have closed: "tc_sent_cb c \<and> tc_socks_recv_tcp_pending c > 0 \<and> ts_acked s < length (ts_out s)" if "tc_socks_closed c"
  proof -
    have p: "tc_socks_up c" "\<not> tc_client_closed c" "tc_socks_recv_tcp_pending c > 0" using that u d(2) iv(9) by blast+
    then show ?thesis using iv(5) d(1) by auto
  qed
  have sent: "client_sent_func_asserts c len" if "tc_sent_cb c" "0 < len" "ts_acked s + len \<le> length (ts_out s)" for len
  proof -
    have n: "tc_socks_up c" "\<not> tc_client_closed c" using iv(5) that(1) by blast+
    show ?thesis using d(1) [OF n] d(2) [OF n] n that(2,3) by (auto simp: client_sent_func_asserts_def)
  qed
  have send: "client_socks_send_handler_done_asserts c k"
    if "ts_sending s = Some data" "0 < k" "k \<le> length data" for data k
    using iv(7) [OF that(1)] that(2,3) prefix_length_le [of data "tc_buf c"]
    by (auto simp: client_socks_send_handler_done_asserts_def)
  show ?thesis
  proof (intro conjI allI impI)
    show "\<not> (tc_client_closed c \<and> tc_socks_closed c)" using u by blast
    show "client_err_func_asserts c" if "tc_err_cb c" using iv(3) that by (simp add: client_err_func_asserts_def)
    show "client_recv_func_asserts c" if "tc_recv_cb c" using iv(4) that by (simp add: client_recv_func_asserts_def)
    show "client_socks_recv_handler_done_asserts c k" if "ts_receiving s \<and> 0 < k \<and> k \<le> CLIENT_SOCKS_RECV_BUF_SIZE" for k
      using iv(9) that by (simp add: client_socks_recv_handler_done_asserts_def)
    show "client_socks_handler_asserts c ev"
      if "\<not> tc_socks_closed c \<and> ((ev = EVENT_UP \<longleftrightarrow> \<not> tc_socks_up c) \<or> ev = EVENT_ERROR)" for ev
      using that by (cases ev) (auto simp: client_socks_handler_asserts_def)
    assume "tc_client_closed c" "tc_socks_up c"
    then show "ts_sending s \<noteq> None" using iv(6,8) by blast
  qed (use iv(5,6) d(2) closed sent send in auto)
qed

theorem tcp_relay_progress_witness:
  "\<exists>c. ts_client demo_relay_state = Some c \<and> client_recv_func_asserts c \<and> client_err_func_asserts c"
proof -
  let ?c = "(new_client BAddr_None BAddr_None False)\<lparr>tc_buf := [1, 2]\<rparr>"
  have c: "ts_client demo_relay_state = Some ?c" by (simp add: demo_relay_state_def)
  have cb: "tc_recv_cb ?c" "tc_err_cb ?c" by (simp_all add: new_client_def)
  show ?thesis using c cb tcp_relay_progress [OF demo_relay c] by blast
qed

text \<open>
  C28: Draining ends a half-closed client at the right moment. With the lwIP side closed, the completion of a
  send frees the client exactly when with it every byte lwIP delivered has been accepted by the SOCKS connection.
  With the SOCKS side closed and nothing left to queue, everything SOCKS delivered was queued to lwIP, and a
  confirmation frees the client exactly when it is the one of the last byte. These are the two ways in which a
  client drains; an error of the SOCKS connection or of lwIP frees a half-closed client at once, whatever is left.
\<close>

theorem tcp_relay_clean_close:
  assumes "tc_step\<^sup>*\<^sup>* (tc_start l r named) s" and "ts_client s = Some c"
  shows "(ts_sending s = Some data \<and> 0 < k \<and> k \<le> length data \<and> tc_client_closed c \<longrightarrow>
        (fst (client_socks_send_handler_done ok c k) = None \<longleftrightarrow> ts_up s @ take k data = ts_in s))
    \<and> (tc_sent_cb c \<and> tc_socks_closed c \<and> tc_socks_recv_buf_used c = -1 \<and> ts_acked s + len \<le> length (ts_out s) \<longrightarrow>
        ts_out s = ts_down s
        \<and> (fst (snd (client_sent_func ok lw oerr sync c len)) = None \<longleftrightarrow> ts_acked s + len = length (ts_out s)))"
proof (intro conjI impI; (elim conjE)?)
  note i = tc_invD [OF tc_reachable_inv [OF assms(1)] assms(2)]
  show "fst (client_socks_send_handler_done ok c k) = None \<longleftrightarrow> ts_up s @ take k data = ts_in s"
    if d: "ts_sending s = Some data" "k \<le> length data" and c: "tc_client_closed c"
  proof -
    have "prefix data (tc_buf c)" using tc_client_invD(7) [OF i(1) d(1)] by blast
    then have t: "take k data = take k (tc_buf c)" using d(2) by (auto simp: prefix_def)
    have "fst (client_socks_send_handler_done ok c k) = None \<longleftrightarrow> drop k (tc_buf c) = []"
      using c by (auto simp: client_socks_send_handler_done_def client_free_socks_eq Let_def)
    also have "\<dots> \<longleftrightarrow> take k (tc_buf c) = tc_buf c" by (simp add: take_all_iff)
    finally show ?thesis using tc_client_invD(1) [OF i(1)] t by simp
  qed
  assume s: "tc_sent_cb c" "tc_socks_closed c" "tc_socks_recv_buf_used c = -1" "ts_acked s + len \<le> length (ts_out s)"
  have n: "tc_socks_up c" "\<not> tc_client_closed c" using tc_client_invD(5) [OF i(1)] s by auto
  have d: "ts_down s = ts_out s" "tc_socks_recv_tcp_pending c = int (length (ts_out s)) - int (ts_acked s)"
    using i(2) n s unfolding tc_down_inv_def by auto
  then show "ts_out s = ts_down s" by simp
  have "fst (snd (client_sent_func ok lw oerr sync c len)) = None \<longleftrightarrow> tc_socks_recv_tcp_pending c - int len = 0"
    using s by (simp add: client_sent_func_def Let_def client_free_client_eq)
  then show "fst (snd (client_sent_func ok lw oerr sync c len)) = None \<longleftrightarrow> ts_acked s + len = length (ts_out s)"
    using d(2) s(4) by auto
qed

definition demo_closed :: tcp_client where
  "demo_closed = (remove_callbacks ((new_client BAddr_None BAddr_None False)\<lparr>tc_buf := [1, 2]\<rparr>))\<lparr>tc_client_closed := True\<rparr>"

definition demo_closing :: tc_sys where
  "demo_closing = ts_after (client_socks_handler True demo_closed EVENT_UP) (demo_relay_state\<lparr>ts_client := Some demo_closed\<rparr>)"

lemma demo_closing_reachable: "tc_step\<^sup>*\<^sup>* (tc_start BAddr_None BAddr_None False) demo_closing"
proof -
  let ?s = "demo_relay_state\<lparr>ts_client := Some demo_closed\<rparr>"
  let ?c = "(new_client BAddr_None BAddr_None False)\<lparr>tc_buf := [1, 2]\<rparr>"
  have "client_recv_func True no_jobs ?c None = (ERR_ABRT, Some demo_closed, [TC_Close])"
    by (simp add: client_recv_func_def client_free_client_eq demo_closed_def new_client_def)
  from lwip_fin [OF _ _ this, of demo_relay_state] have 1: "tc_step demo_relay_state ?s"
    by (simp add: ts_after_simps demo_relay_state_def new_client_def)
  have 2: "tc_step ?s demo_closing" unfolding demo_closing_def
    by (rule socks_event) (simp_all add: demo_closed_def new_client_def)
  from demo_relay 1 2 show ?thesis by (meson rtranclp.rtrancl_into_rtrancl)
qed

theorem tcp_relay_clean_close_witness:
  "ts_sending demo_closing = Some [1, 2] \<and> ts_up demo_closing @ take 2 [1, 2] = ts_in demo_closing"
proof -
  have c: "ts_client demo_closing = Some (demo_closed\<lparr>tc_socks_recv_buf_used := -1, tc_socks_recv_tcp_pending := 0, tc_socks_up := True\<rparr>)"
    "ts_sending demo_closing = Some [1, 2]" "tc_buf demo_closed = [1, 2]" "tc_client_closed demo_closed"
    by (simp_all add: demo_closing_def demo_closed_def new_client_def client_socks_handler_def client_send_to_socks_def
        remove_callbacks_def ts_after_simps)
  show ?thesis
    using tcp_relay_clean_close [OF demo_closing_reachable c(1), of "[1, 2]" 2 True 0 "\<lambda>i. (0, ERR_OK)" ERR_OK no_jobs] c(2-4)
    by (simp add: client_socks_send_handler_done_def client_free_socks_eq)
qed

text \<open>
  The accounting of clients is exact: a successful accept appends one client to the list, a failed one
  leaves list and counter alone, every handler keeps the list equal to the set of live clients with the
  right count, and the loop at exit frees every client and leaves the counter at zero.
\<close>

theorem tcp_clients_accounted:
  assumes "world_inv w" and "\<forall>a. malloc = Some a \<longrightarrow> tw_clients w a = None" and "tw_clients w b \<noteq> None"
  shows "(case listener_accept_func malloc cok sok print user app (\<lambda>w. w) lip lport rip rport w of (e, w', socks) \<Rightarrow>
        world_inv w' \<and> (e = ERR_OK \<longrightarrow> (\<exists>a. tw_list w' = tw_list w @ [a] \<and> tw_num w' = tw_num w + 1))
        \<and> (e \<noteq> ERR_OK \<longrightarrow> tw_list w' = tw_list w \<and> tw_num w' = tw_num w \<and> tw_clients w' = tw_clients w))
    \<and> world_inv (world_after b res w)
    \<and> tw_list (free_clients_loop w) = [] \<and> tw_num (free_clients_loop w) = 0 \<and> tw_clients (free_clients_loop w) = (\<lambda>_. None)"
proof (intro conjI)
  show "case listener_accept_func malloc cok sok print user app (\<lambda>w. w) lip lport rip rport w of (e, w', socks) \<Rightarrow>
        world_inv w' \<and> (e = ERR_OK \<longrightarrow> (\<exists>a. tw_list w' = tw_list w @ [a] \<and> tw_num w' = tw_num w + 1))
        \<and> (e \<noteq> ERR_OK \<longrightarrow> tw_list w' = tw_list w \<and> tw_num w' = tw_num w \<and> tw_clients w' = tw_clients w)"
    using assms(1,2)
    by (cases malloc; cases sok)
      (auto simp: listener_accept_func_def BSocksClient_Init_def Let_def world_inv_def killed_def new_client_def)
  show "world_inv (world_after b res w)" by (rule world_after_inv [OF assms(1,3)])
  note e = free_clients_loop_empty [OF assms(1)]
  then show "tw_list (free_clients_loop w) = []" "tw_num (free_clients_loop w) = 0" by (simp_all add: world_inv_def)
  have "set (tw_list (free_clients_loop w)) = dom (tw_clients (free_clients_loop w))" using e unfolding world_inv_def by blast
  then have "dom (tw_clients (free_clients_loop w)) = {}" using e by simp
  then show "tw_clients (free_clients_loop w) = (\<lambda>_. None)" by simp
qed

theorem tcp_clients_accounted_witness:
  "tw_list (free_clients_loop \<lparr>tw_clients = [5 \<mapsto> demo_closed], tw_list = [5], tw_num = 1, tw_auth = [Auth_None]\<rparr>) = []"
  using tcp_clients_accounted [of "\<lparr>tw_clients = [5 \<mapsto> demo_closed], tw_list = [5], tw_num = 1, tw_auth = [Auth_None]\<rparr>"
      "Some 6" 5 True True "\<lambda>_. []" None False "IP4 1" 2 "IP4 3" 4 None]
  by (simp add: world_inv_def)

text \<open>
  With \<^verbatim>\<open>--append-source-to-username\<close> every accept overwrites the credentials in the array all SOCKS
  clients point to: after a second connection is accepted, the credentials the first one has not sent
  yet are those of the second.
\<close>

lemma accept_shares_credentials:
  assumes "tw_auth w = [Auth_None, Auth_Password u pw]"
  shows "tw_auth (fst (snd (listener_accept_func (Some b) True True print (Some user) True (\<lambda>w. w) lip2 lport2 rip2 rport2
      (fst (snd (listener_accept_func (Some a) True True print (Some user) True (\<lambda>w. w) lip lport rip rport w))))))
    = [Auth_None, Auth_Password (user @ [0x40] @ print (baddr_from_lwip rip2 rport2)) pw]"
  using assms by (simp add: listener_accept_func_def BSocksClient_Init_def Let_def)

end
