(* ===== verification/Options.thy ===== *)
theory Options
  imports Socks_Client
begin

text \<open>
  The command line of tun2socks: \<^verbatim>\<open>parse_arguments\<close> and \<^verbatim>\<open>process_arguments\<close> of \<^verbatim>\<open>tun2socks/tun2socks.c\<close>
  with \<^verbatim>\<open>misc/loglevel.h\<close>, as built for Android. A \<^verbatim>\<open>char *\<close> option is a \<open>string option\<close>, \<open>None\<close> being
  \<^verbatim>\<open>NULL\<close>; \<open>argv\<close> without the program name is a list that each option shortens by what it consumes.
  The results \<^verbatim>\<open>return 0\<close> are \<open>None\<close>. The channel names are generated by the build, and
  \<^verbatim>\<open>BIPAddr_Resolve\<close>, \<^verbatim>\<open>BAddr_Parse2\<close>, \<^verbatim>\<open>ipaddr6_parse_ipv6_addr\<close> and \<^verbatim>\<open>read_file\<close> reach the resolver
  and the file system: they are arguments.
\<close>

section \<open>Numbers\<close>

definition isspace :: "char \<Rightarrow> bool" where
  "isspace c \<longleftrightarrow> c = CHR '' '' \<or> (9 \<le> (of_char c :: nat) \<and> (of_char c :: nat) \<le> 13)"

definition isdigit :: "char \<Rightarrow> bool" where
  "isdigit c \<longleftrightarrow> 48 \<le> (of_char c :: nat) \<and> (of_char c :: nat) \<le> 57"

definition digits_value :: "string \<Rightarrow> int" where
  "digits_value ds = foldl (\<lambda>n c. 10 * n + (int (of_char c) - 48)) 0 ds"

text \<open>
  \<^verbatim>\<open>strtol\<close> in base ten: the value and the rest. Without digits nothing is consumed. Values outside
  \<^verbatim>\<open>long\<close>, whose greatest value is \<open>lmax\<close> (it depends on the platform), saturate.
\<close>

definition strtol10 :: "int \<Rightarrow> string \<Rightarrow> int \<times> string" where
  "strtol10 lmax s =
     (let t = dropWhile isspace s;
          neg = (t \<noteq> [] \<and> hd t = CHR ''-'');
          u = (if t \<noteq> [] \<and> (hd t = CHR ''-'' \<or> hd t = CHR ''+'') then tl t else t);
          ds = takeWhile isdigit u
      in if ds = [] then (0, s)
         else (max (- lmax - 1) (min lmax (if neg then - digits_value ds else digits_value ds)), dropWhile isdigit u))"

text \<open>The result of \<^verbatim>\<open>atoi\<close> is that \<^verbatim>\<open>long\<close> converted to an \<^verbatim>\<open>int\<close>.\<close>

definition atoi :: "int \<Rightarrow> string \<Rightarrow> int" where
  "atoi lmax s = c_int (fst (strtol10 lmax s))"

text \<open>Numbers an \<^verbatim>\<open>int\<close> holds are read exactly; larger ones may wrap around into the accepted range.\<close>

lemma atoi_decimal:
  assumes "s \<noteq> []" "\<And>c. c \<in> set s \<Longrightarrow> isdigit c" "digits_value s \<le> INT_MAX" "0 \<le> digits_value s" "INT_MAX \<le> lmax"
  shows "atoi lmax s = digits_value s"
proof -
  have h: "isdigit (hd s)" using assms(1,2) by simp
  have c: "hd s \<noteq> CHR ''-''" "hd s \<noteq> CHR ''+''" "\<not> isspace (hd s)" using h by (auto simp: isdigit_def isspace_def)
  have "dropWhile isspace s = s" using c(3) assms(1) by (cases s) auto
  moreover have "takeWhile isdigit s = s" using assms(2) by (simp add: takeWhile_eq_all_conv)
  ultimately have "strtol10 lmax s = (max (- lmax - 1) (min lmax (digits_value s)), dropWhile isdigit s)"
    unfolding strtol10_def Let_def using c assms(1) by (simp del: takeWhile_eq_all_conv)
  then show ?thesis using assms by (simp add: atoi_def c_int_id)
qed

lemma atoi_wraps: "atoi (2 ^ 63 - 1) ''4294967298'' = 2"
  by (simp add: atoi_def strtol10_def isspace_def isdigit_def digits_value_def c_int_def)

section \<open>Options\<close>

datatype logger = LOGGER_STDOUT | LOGGER_SYSLOG

record options =
  op_help :: bool
  op_version :: bool
  op_logger :: logger
  op_logger_syslog_facility :: string
  op_logger_syslog_ident :: string
  op_loglevel :: int
  op_loglevels :: "int \<Rightarrow> int"
  op_netif_ipaddr :: "string option"
  op_netif_netmask :: "string option"
  op_netif_ip6addr :: "string option"
  op_socks_server_addr :: "string option"
  op_username :: "string option"
  op_password :: "string option"
  op_password_file :: "string option"
  op_append_source_to_username :: bool
  op_udpgw_remote_server_addr :: "string option"
  op_udpgw_max_connections :: int
  op_udpgw_connection_buffer_size :: int
  op_udpgw_transparent_dns :: bool
  op_tun_fd :: int
  op_tun_mtu :: int
  op_fake_proc :: bool
  op_pid :: "string option"
  op_dnsgw :: "string option"

definition DEFAULT_UDPGW_MAX_CONNECTIONS :: int where "DEFAULT_UDPGW_MAX_CONNECTIONS = 256"
definition DEFAULT_UDPGW_CONNECTION_BUFFER_SIZE :: int where "DEFAULT_UDPGW_CONNECTION_BUFFER_SIZE = 8"

definition parse_loglevel :: "int \<Rightarrow> string \<Rightarrow> int" where
  "parse_loglevel lmax str =
     (if str = ''none'' then 0
      else if str = ''error'' then 1
      else if str = ''warning'' then 2
      else if str = ''notice'' then 3
      else if str = ''info'' then 4
      else if str = ''debug'' then 5
      else let (res, endptr) = strtol10 lmax str
           in if str \<noteq> [] \<and> endptr = [] \<and> res \<ge> 0 \<and> res \<le> 5 then res else -1)"

text \<open>\<^verbatim>\<open>dnsgw\<close> is not assigned here: the zero initialisation of the file-scope \<^verbatim>\<open>options\<close> gives \<^verbatim>\<open>NULL\<close>.\<close>

definition options_init :: "string \<Rightarrow> options" where
  "options_init argv0 =
     \<lparr>op_help = False, op_version = False, op_logger = LOGGER_STDOUT, op_logger_syslog_facility = ''daemon'',
      op_logger_syslog_ident = argv0, op_loglevel = -1, op_loglevels = (\<lambda>_. -1), op_netif_ipaddr = None,
      op_netif_netmask = None, op_netif_ip6addr = None, op_socks_server_addr = None, op_username = None,
      op_password = None, op_password_file = None, op_append_source_to_username = False,
      op_udpgw_remote_server_addr = None, op_udpgw_max_connections = DEFAULT_UDPGW_MAX_CONNECTIONS,
      op_udpgw_connection_buffer_size = DEFAULT_UDPGW_CONNECTION_BUFFER_SIZE, op_udpgw_transparent_dns = False,
      op_tun_fd = -1, op_tun_mtu = 1500, op_fake_proc = False, op_pid = None, op_dnsgw = None\<rparr>"

text \<open>An option that requires an argument, and one whose argument is a positive number.\<close>

definition with_arg :: "string list \<Rightarrow> (string \<Rightarrow> options option) \<Rightarrow> (options \<times> string list) option" where
  "with_arg rest f = (case rest of [] \<Rightarrow> None | a # r \<Rightarrow> (case f a of None \<Rightarrow> None | Some v \<Rightarrow> Some (v, r)))"

definition with_number :: "int \<Rightarrow> string list \<Rightarrow> (int \<Rightarrow> options) \<Rightarrow> (options \<times> string list) option" where
  "with_number lmax rest f = with_arg rest (\<lambda>a. if atoi lmax a \<le> 0 then None else Some (f (atoi lmax a)))"

text \<open>The later options of the chain, from \<^verbatim>\<open>--netif-ipaddr\<close> on.\<close>

definition parse_option_net :: "int \<Rightarrow> string \<Rightarrow> string list \<Rightarrow> options \<Rightarrow> (options \<times> string list) option" where
  "parse_option_net lmax arg rest v =
     (if arg = ''--netif-ipaddr'' then with_arg rest (\<lambda>a. Some (v\<lparr>op_netif_ipaddr := Some a\<rparr>))
      else if arg = ''--netif-netmask'' then with_arg rest (\<lambda>a. Some (v\<lparr>op_netif_netmask := Some a\<rparr>))
      else if arg = ''--netif-ip6addr'' then with_arg rest (\<lambda>a. Some (v\<lparr>op_netif_ip6addr := Some a\<rparr>))
      else if arg = ''--socks-server-addr'' then with_arg rest (\<lambda>a. Some (v\<lparr>op_socks_server_addr := Some a\<rparr>))
      else if arg = ''--username'' then with_arg rest (\<lambda>a. Some (v\<lparr>op_username := Some a\<rparr>))
      else if arg = ''--password'' then with_arg rest (\<lambda>a. Some (v\<lparr>op_password := Some a\<rparr>))
      else if arg = ''--password-file'' then with_arg rest (\<lambda>a. Some (v\<lparr>op_password_file := Some a\<rparr>))
      else if arg = ''--append-source-to-username'' then Some (v\<lparr>op_append_source_to_username := True\<rparr>, rest)
      else if arg = ''--udpgw-remote-server-addr'' then with_arg rest (\<lambda>a. Some (v\<lparr>op_udpgw_remote_server_addr := Some a\<rparr>))
      else if arg = ''--udpgw-max-connections'' then with_number lmax rest (\<lambda>n. v\<lparr>op_udpgw_max_connections := n\<rparr>)
      else if arg = ''--udpgw-connection-buffer-size'' then with_number lmax rest (\<lambda>n. v\<lparr>op_udpgw_connection_buffer_size := n\<rparr>)
      else if arg = ''--udpgw-transparent-dns'' then Some (v\<lparr>op_udpgw_transparent_dns := True\<rparr>, rest)
      else None)"

text \<open>The body of the loop: the option \<open>arg\<close>, the arguments behind it, and the ones left over.\<close>

definition parse_option :: "int \<Rightarrow> (string \<Rightarrow> int) \<Rightarrow> string \<Rightarrow> string list \<Rightarrow> options \<Rightarrow> (options \<times> string list) option" where
  "parse_option lmax channel_by_name arg rest v =
     (if arg = ''--help'' then Some (v\<lparr>op_help := True\<rparr>, rest)
      else if arg = ''--version'' then Some (v\<lparr>op_version := True\<rparr>, rest)
      else if arg = ''--logger'' then with_arg rest (\<lambda>a.
        if a = ''stdout'' then Some (v\<lparr>op_logger := LOGGER_STDOUT\<rparr>)
        else if a = ''syslog'' then Some (v\<lparr>op_logger := LOGGER_SYSLOG\<rparr>) else None)
      else if arg = ''--syslog-facility'' then with_arg rest (\<lambda>a. Some (v\<lparr>op_logger_syslog_facility := a\<rparr>))
      else if arg = ''--syslog-ident'' then with_arg rest (\<lambda>a. Some (v\<lparr>op_logger_syslog_ident := a\<rparr>))
      else if arg = ''--loglevel'' then with_arg rest (\<lambda>a.
        if parse_loglevel lmax a < 0 then None else Some (v\<lparr>op_loglevel := parse_loglevel lmax a\<rparr>))
      else if arg = ''--channel-loglevel'' then
        (case rest of
           ch # lv # r \<Rightarrow>
             if channel_by_name ch < 0 then None
             else if parse_loglevel lmax lv < 0 then None
             else Some (v\<lparr>op_loglevels := (op_loglevels v)(channel_by_name ch := parse_loglevel lmax lv)\<rparr>, r)
         | _ \<Rightarrow> None)
      else if arg = ''--fake-proc'' then Some (v\<lparr>op_fake_proc := True\<rparr>, rest)
      else if arg = ''--tunfd'' then with_number lmax rest (\<lambda>n. v\<lparr>op_tun_fd := n\<rparr>)
      else if arg = ''--tunmtu'' then with_number lmax rest (\<lambda>n. v\<lparr>op_tun_mtu := n\<rparr>)
      else if arg = ''--dnsgw'' then with_arg rest (\<lambda>a. Some (v\<lparr>op_dnsgw := Some a\<rparr>))
      else if arg = ''--pid'' then with_arg rest (\<lambda>a. Some (v\<lparr>op_pid := Some a\<rparr>))
      else parse_option_net lmax arg rest v)"

lemma with_arg_shorter: "with_arg rest f = Some (v, r) \<Longrightarrow> length r < length rest"
  by (auto simp: with_arg_def split: list.splits option.splits)

lemma with_number_shorter: "with_number lmax rest f = Some (v, r) \<Longrightarrow> length r < length rest"
  by (auto simp: with_number_def dest: with_arg_shorter)

lemma parse_option_shorter: "parse_option lmax ch arg rest v = Some (v', r) \<Longrightarrow> length r \<le> length rest"
  by (auto simp: parse_option_def parse_option_net_def split: if_splits list.splits dest!: with_arg_shorter with_number_shorter)

function parse_options :: "int \<Rightarrow> (string \<Rightarrow> int) \<Rightarrow> string list \<Rightarrow> options \<Rightarrow> options option" where
  "parse_options lmax ch [] v = Some v"
| "parse_options lmax ch (arg # rest) v =
     (case parse_option lmax ch arg rest v of None \<Rightarrow> None | Some (v', r) \<Rightarrow> parse_options lmax ch r v')"
  by pat_completeness auto
termination
  by (relation "measure (\<lambda>(lmax, ch, args, v). length args)") (auto dest: parse_option_shorter)

definition options_complete :: "options \<Rightarrow> bool" where
  "options_complete v =
     (if op_help v \<or> op_version v then True
      else if op_netif_ipaddr v = None then False
      else if op_netif_netmask v = None then False
      else if op_socks_server_addr v = None then False
      else if op_username v \<noteq> None
      then if op_password v = None \<and> op_password_file v = None then False
           else if op_password v \<noteq> None \<and> op_password_file v \<noteq> None then False else True
      else True)"

definition parse_arguments :: "int \<Rightarrow> (string \<Rightarrow> int) \<Rightarrow> string list \<Rightarrow> options option" where
  "parse_arguments lmax ch argv =
     (case argv of
        [] \<Rightarrow> None
      | argv0 # args \<Rightarrow>
          (case parse_options lmax ch args (options_init argv0) of
             None \<Rightarrow> None
           | Some v \<Rightarrow> if options_complete v then Some v else None))"

section \<open>Processed arguments\<close>

record arguments =
  ar_netif_ipaddr :: BIPAddr
  ar_netif_netmask :: BIPAddr
  ar_netif_ip6addr :: "byte list option"
  ar_socks_server_addr :: BAddr
  ar_socks_auth_info :: "BSocksClient_auth_info list"
  ar_udpgw_remote_server_addr :: "BAddr option"
  ar_dnsgw :: "BAddr option"

definition string_bytes :: "string \<Rightarrow> byte list" where
  "string_bytes s = map of_char s"

definition process_auth :: "(string \<Rightarrow> byte list option) \<Rightarrow> options \<Rightarrow> BSocksClient_auth_info list option" where
  "process_auth read_file v =
     (case op_username v of
        None \<Rightarrow> Some [BSocksClient_auth_none]
      | Some user \<Rightarrow>
          (case (case op_password v of
                   Some pw \<Rightarrow> Some (string_bytes pw)
                 | None \<Rightarrow> (case op_password_file v of None \<Rightarrow> None | Some f \<Rightarrow> read_file f)) of
             None \<Rightarrow> None
           | Some pw \<Rightarrow> Some [BSocksClient_auth_none, BSocksClient_auth_password (string_bytes user) pw]))"

definition process_arguments ::
    "(string \<Rightarrow> BIPAddr option) \<Rightarrow> (string \<Rightarrow> BAddr option) \<Rightarrow> (string \<Rightarrow> byte list option) \<Rightarrow>
     (string \<Rightarrow> byte list option) \<Rightarrow> options \<Rightarrow> arguments option" where
  "process_arguments resolve parse2 parse_ip6 read_file v =
     (case resolve (the (op_netif_ipaddr v)) of
        Some (BIPAddr_IPv4 ip) \<Rightarrow>
          (case resolve (the (op_netif_netmask v)) of
             Some (BIPAddr_IPv4 netmask) \<Rightarrow>
               (case (case op_netif_ip6addr v of None \<Rightarrow> Some None | Some s \<Rightarrow> map_option Some (parse_ip6 s)) of
                  None \<Rightarrow> None
                | Some netif6 \<Rightarrow>
                    (case parse2 (the (op_socks_server_addr v)) of
                       None \<Rightarrow> None
                     | Some server \<Rightarrow>
                         (case process_auth read_file v of
                            None \<Rightarrow> None
                          | Some auth \<Rightarrow>
                              (case (case op_udpgw_remote_server_addr v of None \<Rightarrow> Some None | Some s \<Rightarrow> map_option Some (parse2 s)) of
                                 None \<Rightarrow> None
                               | Some udpgw \<Rightarrow>
                                   (case op_dnsgw v of
                                      None \<Rightarrow> Some \<lparr>ar_netif_ipaddr = BIPAddr_IPv4 ip, ar_netif_netmask = BIPAddr_IPv4 netmask,
                                        ar_netif_ip6addr = netif6, ar_socks_server_addr = server, ar_socks_auth_info = auth,
                                        ar_udpgw_remote_server_addr = udpgw, ar_dnsgw = None\<rparr>
                                    | Some s \<Rightarrow>
                                        (case parse2 s of
                                           Some (BAddr_IPv4 dip dport) \<Rightarrow>
                                             Some \<lparr>ar_netif_ipaddr = BIPAddr_IPv4 ip, ar_netif_netmask = BIPAddr_IPv4 netmask,
                                               ar_netif_ip6addr = netif6, ar_socks_server_addr = server, ar_socks_auth_info = auth,
                                               ar_udpgw_remote_server_addr = udpgw, ar_dnsgw = Some (BAddr_IPv4 dip dport)\<rparr>
                                         | _ \<Rightarrow> None))))))
           | _ \<Rightarrow> None)
      | _ \<Rightarrow> None)"

section \<open>What parsing establishes\<close>

definition options_numbers :: "options \<Rightarrow> bool" where
  "options_numbers v \<longleftrightarrow> 0 < op_tun_mtu v \<and> op_tun_mtu v \<le> INT_MAX
     \<and> (0 < op_tun_fd v \<and> op_tun_fd v \<le> INT_MAX \<or> op_tun_fd v = -1)
     \<and> 0 < op_udpgw_max_connections v \<and> op_udpgw_max_connections v \<le> INT_MAX
     \<and> 0 < op_udpgw_connection_buffer_size v \<and> op_udpgw_connection_buffer_size v \<le> INT_MAX
     \<and> (-1 \<le> op_loglevel v \<and> op_loglevel v \<le> 5) \<and> (\<forall>ch. -1 \<le> op_loglevels v ch \<and> op_loglevels v ch \<le> 5)"

lemma parse_loglevel_le: "parse_loglevel lmax s \<le> 5"
  by (auto simp: parse_loglevel_def split: prod.splits)

text \<open>A branch of the parser whose options, if it succeeds, satisfy \<open>options_numbers\<close>.\<close>

definition keeps :: "(options \<times> string list) option \<Rightarrow> bool" where
  "keeps res \<longleftrightarrow> (\<forall>v r. res = Some (v, r) \<longrightarrow> options_numbers v)"

lemma keeps_if [intro!]: "keeps x \<Longrightarrow> keeps y \<Longrightarrow> keeps (if b then x else y)"
  by simp

lemma keeps_simps [simp]: "keeps None" "keeps (Some (v, r)) \<longleftrightarrow> options_numbers v"
  by (simp_all add: keeps_def)

lemma keeps_with_arg: "(\<And>a w. f a = Some w \<Longrightarrow> options_numbers w) \<Longrightarrow> keeps (with_arg rest f)"
  by (auto simp: keeps_def with_arg_def split: list.splits option.splits)

lemma keeps_with_number: "(\<And>n. 0 < n \<Longrightarrow> n \<le> INT_MAX \<Longrightarrow> options_numbers (f n)) \<Longrightarrow> keeps (with_number lmax rest f)"
  unfolding with_number_def atoi_def by (rule keeps_with_arg) (auto simp: c_int_range split: if_splits)

lemma parse_option_numbers:
  assumes "options_numbers v"
  shows "keeps (parse_option lmax ch arg rest v)"
  unfolding parse_option_def parse_option_net_def
  by (intro keeps_if keeps_with_arg keeps_with_number)
    (use assms in \<open>auto simp: options_numbers_def parse_loglevel_le not_less split: if_splits list.splits\<close>)

lemma parse_options_numbers: "parse_options lmax ch args v = Some v' \<Longrightarrow> options_numbers v \<Longrightarrow> options_numbers v'"
proof (induction lmax ch args v rule: parse_options.induct)
  case (2 lmax ch arg rest v)
  then obtain w r where p: "parse_option lmax ch arg rest v = Some (w, r)" "parse_options lmax ch r w = Some v'"
    by (auto split: option.splits)
  have "options_numbers w" using parse_option_numbers [OF "2.prems"(2), of lmax ch arg rest] p(1) by simp
  then show ?case using "2.IH" [OF p(1) refl p(2)] by simp
qed simp

lemma options_sound:
  assumes "parse_arguments lmax ch argv = Some v"
  shows "options_numbers v
    \<and> (\<not> op_help v \<and> \<not> op_version v \<longrightarrow>
        op_netif_ipaddr v \<noteq> None \<and> op_netif_netmask v \<noteq> None \<and> op_socks_server_addr v \<noteq> None
        \<and> (op_username v \<noteq> None \<longrightarrow> (op_password v \<noteq> None) \<noteq> (op_password_file v \<noteq> None)))"
proof -
  obtain argv0 args where p: "parse_options lmax ch args (options_init argv0) = Some v" "options_complete v"
    using assms by (auto simp: parse_arguments_def split: list.splits option.splits if_splits)
  have "options_numbers (options_init argv0)"
    by (simp add: options_numbers_def options_init_def DEFAULT_UDPGW_MAX_CONNECTIONS_def
        DEFAULT_UDPGW_CONNECTION_BUFFER_SIZE_def)
  then show ?thesis using parse_options_numbers [OF p(1)] p(2) by (auto simp: options_complete_def split: if_splits)
qed

section \<open>Properties\<close>

text \<open>
  C29: Only complete and consistent command lines are accepted: when parsing succeeds and neither help nor
  version was asked for, the interface address, the netmask and the SOCKS server are given, a user name
  comes with exactly one of a password and a password file, and the numbers the options hold, as the
  \<^verbatim>\<open>int\<close>s \<^verbatim>\<open>atoi\<close> makes of the arguments, are in range: the MTU, the descriptor, the connection limit and the
  buffer size are positive \<^verbatim>\<open>int\<close>s, the log levels known ones. (\<^verbatim>\<open>atoi\<close> does not report arguments out of the
  range of \<^verbatim>\<open>int\<close>: see \<open>atoi_wraps\<close>.)
\<close>

theorem options_parse_sound:
  assumes "parse_arguments lmax ch argv = Some v"
  shows "options_numbers v
    \<and> (\<not> op_help v \<and> \<not> op_version v \<longrightarrow>
        op_netif_ipaddr v \<noteq> None \<and> op_netif_netmask v \<noteq> None \<and> op_socks_server_addr v \<noteq> None
        \<and> (op_username v \<noteq> None \<longrightarrow> (op_password v \<noteq> None) \<noteq> (op_password_file v \<noteq> None)))"
  by (rule options_sound [OF assms])

definition demo_argv :: "string list" where
  "demo_argv = [''tun2socks'', ''--netif-ipaddr'', ''26.26.26.2'', ''--netif-netmask'', ''255.255.255.0'',
     ''--socks-server-addr'', ''10.0.0.1:1080'', ''--tunmtu'', ''1400'', ''--loglevel'', ''3'',
     ''--username'', ''u'', ''--password'', ''p'']"

lemma demo_argv_parses:
  "\<exists>v. parse_arguments INT_MAX (\<lambda>_. -1) demo_argv = Some v \<and> op_tun_mtu v = 1400 \<and> op_username v = Some ''u''
    \<and> op_password v = Some ''p'' \<and> op_netif_ip6addr v = None \<and> \<not> op_help v \<and> \<not> op_version v"
  by (simp add: parse_arguments_def demo_argv_def parse_option_def parse_option_net_def with_arg_def with_number_def atoi_def strtol10_def
      isspace_def isdigit_def digits_value_def c_int_def parse_loglevel_def options_init_def options_complete_def)

theorem options_parse_sound_witness:
  "\<exists>v. parse_arguments INT_MAX (\<lambda>_. -1) demo_argv = Some v \<and> options_numbers v \<and> op_netif_netmask v \<noteq> None"
  using demo_argv_parses options_parse_sound by blast

lemma process_auth_cases:
  assumes "op_username v \<noteq> None \<longrightarrow> (op_password v \<noteq> None) \<noteq> (op_password_file v \<noteq> None)"
  shows "process_auth read_file v =
    (case op_username v of
       None \<Rightarrow> Some [Auth_None]
     | Some user \<Rightarrow> map_option (\<lambda>pw. [Auth_None, Auth_Password (string_bytes user) pw])
         (if op_password v \<noteq> None then Some (string_bytes (the (op_password v)))
          else read_file (the (op_password_file v))))"
  using assms
  by (auto simp: process_auth_def BSocksClient_auth_none_def BSocksClient_auth_password_def split: option.splits)

lemma process_arguments_None_iff:
  "process_arguments resolve parse2 parse_ip6 read_file v \<noteq> None \<longleftrightarrow>
     (\<exists>ip. resolve (the (op_netif_ipaddr v)) = Some (BIPAddr_IPv4 ip))
   \<and> (\<exists>m. resolve (the (op_netif_netmask v)) = Some (BIPAddr_IPv4 m))
   \<and> (\<forall>s. op_netif_ip6addr v = Some s \<longrightarrow> parse_ip6 s \<noteq> None)
   \<and> parse2 (the (op_socks_server_addr v)) \<noteq> None \<and> process_auth read_file v \<noteq> None
   \<and> (\<forall>s. op_udpgw_remote_server_addr v = Some s \<longrightarrow> parse2 s \<noteq> None)
   \<and> (\<forall>s. op_dnsgw v = Some s \<longrightarrow> (\<exists>ip port. parse2 s = Some (BAddr_IPv4 ip port)))"
  unfolding process_arguments_def
  by (cases "resolve (the (op_netif_ipaddr v))"; simp split: BIPAddr.split option.split BAddr.split)

text \<open>
  Processing an accepted command line fails exactly when an address does not resolve or has the
  wrong family (interface address, netmask and DNS gateway must be IPv4), the IPv6 address does not
  parse, or the password file cannot be read; on success SOCKS is offered no authentication and, with a
  user name, exactly the password authentication of that user with the password given or read.
\<close>

theorem arguments_processed:
  assumes "parse_arguments lmax ch argv = Some v" and "\<not> op_help v" and "\<not> op_version v"
  shows "(process_arguments resolve parse2 parse_ip6 read_file v = None \<longleftrightarrow>
        \<not> ((\<exists>ip. resolve (the (op_netif_ipaddr v)) = Some (BIPAddr_IPv4 ip))
         \<and> (\<exists>m. resolve (the (op_netif_netmask v)) = Some (BIPAddr_IPv4 m))
         \<and> (\<forall>s. op_netif_ip6addr v = Some s \<longrightarrow> parse_ip6 s \<noteq> None)
         \<and> parse2 (the (op_socks_server_addr v)) \<noteq> None
         \<and> (op_username v \<noteq> None \<and> op_password v = None \<longrightarrow> read_file (the (op_password_file v)) \<noteq> None)
         \<and> (\<forall>s. op_udpgw_remote_server_addr v = Some s \<longrightarrow> parse2 s \<noteq> None)
         \<and> (\<forall>s. op_dnsgw v = Some s \<longrightarrow> (\<exists>ip port. parse2 s = Some (BAddr_IPv4 ip port)))))
    \<and> (\<forall>a. process_arguments resolve parse2 parse_ip6 read_file v = Some a \<longrightarrow>
         ar_socks_auth_info a = (case op_username v of
             None \<Rightarrow> [Auth_None]
           | Some user \<Rightarrow> [Auth_None, Auth_Password (string_bytes user)
               (case op_password v of Some pw \<Rightarrow> string_bytes pw
                  | None \<Rightarrow> the (read_file (the (op_password_file v))))]))"
proof
  have c: "op_username v \<noteq> None \<longrightarrow> (op_password v \<noteq> None) \<noteq> (op_password_file v \<noteq> None)"
    using options_sound [OF assms(1)] assms(2,3) by blast
  note auth = process_auth_cases [OF c, of read_file]
  have pa: "process_auth read_file v \<noteq> None \<longleftrightarrow>
      (op_username v \<noteq> None \<and> op_password v = None \<longrightarrow> read_file (the (op_password_file v)) \<noteq> None)"
    by (auto simp: auth split: option.splits)
  show "process_arguments resolve parse2 parse_ip6 read_file v = None \<longleftrightarrow>
        \<not> ((\<exists>ip. resolve (the (op_netif_ipaddr v)) = Some (BIPAddr_IPv4 ip))
         \<and> (\<exists>m. resolve (the (op_netif_netmask v)) = Some (BIPAddr_IPv4 m))
         \<and> (\<forall>s. op_netif_ip6addr v = Some s \<longrightarrow> parse_ip6 s \<noteq> None)
         \<and> parse2 (the (op_socks_server_addr v)) \<noteq> None
         \<and> (op_username v \<noteq> None \<and> op_password v = None \<longrightarrow> read_file (the (op_password_file v)) \<noteq> None)
         \<and> (\<forall>s. op_udpgw_remote_server_addr v = Some s \<longrightarrow> parse2 s \<noteq> None)
         \<and> (\<forall>s. op_dnsgw v = Some s \<longrightarrow> (\<exists>ip port. parse2 s = Some (BAddr_IPv4 ip port))))"
    using process_arguments_None_iff [of resolve parse2 parse_ip6 read_file v, unfolded pa] by argo
  show "\<forall>a. process_arguments resolve parse2 parse_ip6 read_file v = Some a \<longrightarrow>
         ar_socks_auth_info a = (case op_username v of
             None \<Rightarrow> [Auth_None]
           | Some user \<Rightarrow> [Auth_None, Auth_Password (string_bytes user)
               (case op_password v of Some pw \<Rightarrow> string_bytes pw
                  | None \<Rightarrow> the (read_file (the (op_password_file v))))])"
  proof (intro allI impI)
    fix a
    assume "process_arguments resolve parse2 parse_ip6 read_file v = Some a"
    then have "process_auth read_file v = Some (ar_socks_auth_info a)"
      by (auto simp: process_arguments_def split: option.splits BIPAddr.splits BAddr.splits)
    then show "ar_socks_auth_info a = (case op_username v of
             None \<Rightarrow> [Auth_None]
           | Some user \<Rightarrow> [Auth_None, Auth_Password (string_bytes user)
               (case op_password v of Some pw \<Rightarrow> string_bytes pw
                  | None \<Rightarrow> the (read_file (the (op_password_file v))))])"
      by (auto simp: auth split: option.splits)
  qed
qed

theorem arguments_processed_witness:
  "\<exists>v a. parse_arguments INT_MAX (\<lambda>_. -1) demo_argv = Some v
     \<and> process_arguments (\<lambda>_. Some (BIPAddr_IPv4 1)) (\<lambda>_. Some (BAddr_IPv4 1 2)) (\<lambda>_. None) (\<lambda>_. None) v = Some a
     \<and> ar_socks_auth_info a = [Auth_None, Auth_Password (string_bytes ''u'') (string_bytes ''p'')]"
proof -
  obtain v where v: "parse_arguments INT_MAX (\<lambda>_. -1) demo_argv = Some v" "op_username v = Some ''u''" "op_password v = Some ''p''"
    "\<not> op_help v" "\<not> op_version v" "op_netif_ip6addr v = None"
    using demo_argv_parses by blast
  show ?thesis
    using v arguments_processed [OF v(1,4,5), of "\<lambda>_. Some (BIPAddr_IPv4 1)" "\<lambda>_. Some (BAddr_IPv4 1 2)" "\<lambda>_. None" "\<lambda>_. None"]
    by (cases "process_arguments (\<lambda>_. Some (BIPAddr_IPv4 1)) (\<lambda>_. Some (BAddr_IPv4 1 2)) (\<lambda>_. None) (\<lambda>_. None) v") auto
qed

end
