(* ===== verification/Tun_Main.thy ===== *)
theory Tun_Main
  imports UdpGw_Client Net_Proto Tun_Device Options
begin

text \<open>
  The life of the program: \<^verbatim>\<open>main\<close>, \<^verbatim>\<open>lwip_init_job_hadler\<close> and the handlers that end the event loop, of
  \<^verbatim>\<open>tun2socks/tun2socks.c\<close> as built for Android. What matters here is which resources are acquired and
  released on every path; the results of the fallible steps are the record \<open>main_env\<close>, and the trace
  is a list of events. \<open>None\<close> is a program that still waits for the descriptor of the TUN device.

  The resources are what \<^verbatim>\<open>main\<close> and the functions modelled here acquire themselves: the log, the contents of
  the password file, the reactor, the signal handling, the local socket and the connections accepted on it, the
  descriptor received over one of them, the device and its buffers, the gateway client, the job, the timer, the
  network interface and the listeners of lwIP. What the handlers allocate while the event loop runs is not among
  them: the TCP clients, which \<^verbatim>\<open>main\<close> frees in a loop of its own (\<^verbatim>\<open>free_clients_loop\<close> of theory
  \<^verbatim>\<open>Tcp_Client\<close>), and the \<^verbatim>\<open>Connection\<close> objects of forwarded DNS queries (theory \<^verbatim>\<open>Tun_Device\<close>), which are
  never freed.

  \<open>balanced\<close> is the reference: resources are released in the reverse order of their acquisition
  and none is left.
\<close>

section \<open>Resources\<close>

datatype main_res =
    R_Log | R_Password | R_Reactor | R_Signal | R_Socket | R_Sock2 | R_Tun_Fd | R_Tap | R_Read_Interface | R_Read_Buffer | R_Udpgw | R_Lwip_Job
  | R_Write_Buf | R_Tcp_Timer | R_Netif | R_Pcb | R_Listener | R_Listener6

datatype main_event = Acquire main_res | Release main_res | Fail_Step main_res | Event_Loop

datatype accept_result = Accept_Failed | Recv_Fd_Failed | Got_Fd int

record main_env =
  me_logger_ok :: bool
  me_network_ok :: bool
  me_read_file_ok :: bool
  me_arguments_ok :: bool
  me_reactor_ok :: bool
  me_signal_ok :: bool
  me_socket_ok :: bool
  me_bind_ok :: bool
  me_listen_ok :: bool
  me_accepts :: "accept_result list"
  me_tap_ok :: bool
  me_read_buffer_ok :: bool
  me_udpgw_ok :: bool
  me_write_buf_ok :: bool
  me_netif_ok :: bool
  me_tcp_new_ok :: bool
  me_tcp_bind_ok :: bool
  me_tcp_listen_ok :: bool
  me_tcp_new_ip6_ok :: bool
  me_tcp_bind_ip6_ok :: bool
  me_tcp_listen_ip6_ok :: bool

section \<open>The event handlers\<close>

text \<open>\<^verbatim>\<open>terminate\<close> sets \<^verbatim>\<open>quitting\<close> and asks the reactor to leave the loop; the result is the new \<^verbatim>\<open>quitting\<close>.\<close>

definition terminate :: "bool \<Rightarrow> bool" where
  "terminate quitting = True"

definition signal_handler :: "bool \<Rightarrow> bool" where
  "signal_handler quitting = terminate quitting"

definition device_error_handler :: "bool \<Rightarrow> bool" where
  "device_error_handler quitting = terminate quitting"

record lwip_state =
  ls_quitting :: bool
  ls_have_netif :: bool
  ls_listener :: bool
  ls_listener_ip6 :: bool

text \<open>A listener: a new pcb, bound to the interface, turned into a listening one.\<close>

definition init_listener :: "bool \<Rightarrow> bool \<Rightarrow> bool \<Rightarrow> main_res \<Rightarrow> bool \<times> main_event list" where
  "init_listener new_ok bind_ok listen_ok r =
     (if \<not> new_ok then (False, [Fail_Step R_Pcb])
      else if \<not> bind_ok then (False, [Acquire R_Pcb, Release R_Pcb])
      else if \<not> listen_ok then (False, [Acquire R_Pcb, Release R_Pcb])
      else (True, [Acquire R_Pcb, Release R_Pcb, Acquire r]))"

definition lwip_init_job_hadler :: "main_env \<Rightarrow> bool \<Rightarrow> lwip_state \<Rightarrow> lwip_state \<times> main_event list" where
  "lwip_init_job_hadler env have_ip6addr ls =
     (let fail = (\<lambda>ls. if \<not> ls_quitting ls then ls\<lparr>ls_quitting := terminate (ls_quitting ls)\<rparr> else ls)
      in if \<not> me_netif_ok env then (fail ls, [Fail_Step R_Netif])
         else
           let ls = ls\<lparr>ls_have_netif := True\<rparr>;
               (ok, c1) = init_listener (me_tcp_new_ok env) (me_tcp_bind_ok env) (me_tcp_listen_ok env) R_Listener
           in if \<not> ok then (fail ls, Acquire R_Netif # c1)
              else
                let ls = ls\<lparr>ls_listener := True\<rparr>
                in if \<not> have_ip6addr then (ls, Acquire R_Netif # c1)
                   else
                     let (ok, c2) = init_listener (me_tcp_new_ip6_ok env) (me_tcp_bind_ip6_ok env)
                           (me_tcp_listen_ip6_ok env) R_Listener6
                     in if \<not> ok then (fail ls, Acquire R_Netif # c1 @ c2)
                        else (ls\<lparr>ls_listener_ip6 := True\<rparr>, Acquire R_Netif # c1 @ c2))"

section \<open>main\<close>

definition compute_udp_mtu :: "int \<Rightarrow> bool \<Rightarrow> int" where
  "compute_udp_mtu device_mtu have_ip6addr =
     (let udp_mtu = device_mtu - int (sizeof_ipv4_header + sizeof_udp_header);
          udp_mtu = (if have_ip6addr
                     then let udp_ip6_mtu = device_mtu - int (sizeof_ipv6_header + sizeof_udp_header)
                          in if udp_mtu < udp_ip6_mtu then udp_ip6_mtu else udp_mtu
                     else udp_mtu)
      in if udp_mtu < 0 then 0 else udp_mtu)"

definition udp_mtu_too_large :: "nat \<Rightarrow> int \<Rightarrow> bool" where
  "udp_mtu_too_large smax udp_mtu =
     (let udpgw_mtu = udpgw_compute_mtu smax udp_mtu in udpgw_mtu < 0 \<or> udpgw_mtu > PACKETPROTO_MAXPAYLOAD)"

text \<open>The loop that waits for the descriptor: the remaining attempts are the argument.\<close>

fun accept_loop :: "accept_result list \<Rightarrow> (int \<times> main_event list) option" where
  "accept_loop [] = None"
| "accept_loop (Accept_Failed # rs) = accept_loop rs"
| "accept_loop (Recv_Fd_Failed # rs) =
     map_option (\<lambda>(fd, es). (fd, [Acquire R_Sock2, Fail_Step R_Tun_Fd, Release R_Sock2] @ es)) (accept_loop rs)"
| "accept_loop (Got_Fd fd # rs) = Some (fd, [Acquire R_Sock2, Acquire R_Tun_Fd, Release R_Sock2])"

text \<open>Whether \<^verbatim>\<open>process_arguments\<close> has read the password file.\<close>

definition password_read :: "main_env \<Rightarrow> options \<Rightarrow> bool" where
  "password_read env v = (op_username v \<noteq> None \<and> op_password v = None \<and> me_read_file_ok env)"

text \<open>
  The labels at the end of \<^verbatim>\<open>main\<close>, each falling through to the next; \<open>pw\<close> says whether
  \<^verbatim>\<open>password_file_contents\<close> is not \<^verbatim>\<open>NULL\<close>.
\<close>

definition main_fail1 :: "bool \<Rightarrow> main_event list" where
  "main_fail1 pw = (if pw then [Release R_Password] else []) @ [Release R_Log]"

definition main_fail2 :: "bool \<Rightarrow> main_event list" where
  "main_fail2 pw = Release R_Reactor # main_fail1 pw"

definition main_fail3 :: "bool \<Rightarrow> main_event list" where
  "main_fail3 pw = Release R_Signal # main_fail2 pw"

definition main_fail4 :: "bool \<Rightarrow> main_event list" where
  "main_fail4 pw = [Release R_Read_Interface, Release R_Tap] @ main_fail3 pw"

definition main_fail4a :: "bool \<Rightarrow> main_event list" where
  "main_fail4a pw = Release R_Read_Buffer # main_fail4 pw"

definition main_fail5 :: "bool \<Rightarrow> options \<Rightarrow> main_event list" where
  "main_fail5 pw v =
     Release R_Lwip_Job # (if op_udpgw_remote_server_addr v \<noteq> None then [Release R_Udpgw] else []) @ main_fail4a pw"

text \<open>The end of the program after the event loop (the clients are freed by \<^verbatim>\<open>free_clients_loop\<close> of theory \<^verbatim>\<open>Tcp_Client\<close>).\<close>

definition main_leave :: "bool \<Rightarrow> options \<Rightarrow> lwip_state \<Rightarrow> main_event list" where
  "main_leave pw v ls =
     (if ls_listener_ip6 ls then [Release R_Listener6] else [])
     @ (if ls_listener ls then [Release R_Listener] else [])
     @ (if ls_have_netif ls then [Release R_Netif] else [])
     @ [Release R_Tcp_Timer, Release R_Write_Buf] @ main_fail5 pw v"

definition main_run :: "main_env \<Rightarrow> options \<Rightarrow> main_event list" where
  "main_run env v =
     (let (ls, c) = lwip_init_job_hadler env (op_netif_ip6addr v \<noteq> None)
            \<lparr>ls_quitting = False, ls_have_netif = False, ls_listener = False, ls_listener_ip6 = False\<rparr>
      in [Acquire R_Write_Buf, Acquire R_Tcp_Timer, Event_Loop] @ c @ main_leave (password_read env v) v ls)"

text \<open>From the TUN device on; \<open>device_mtu\<close> is \<^verbatim>\<open>BTap_GetMTU\<close>.\<close>

definition main_device :: "nat \<Rightarrow> main_env \<Rightarrow> options \<Rightarrow> int \<Rightarrow> main_event list" where
  "main_device smax env v device_mtu =
     (let pw = password_read env v in
      if \<not> me_tap_ok env then Fail_Step R_Tap # main_fail3 pw
      else [Acquire R_Tap, Acquire R_Read_Interface] @
        (if \<not> me_read_buffer_ok env then Fail_Step R_Read_Buffer # main_fail4 pw
         else Acquire R_Read_Buffer #
           (let udpgw = (op_udpgw_remote_server_addr v \<noteq> None)
            in if udpgw \<and> (udp_mtu_too_large smax (compute_udp_mtu device_mtu (op_netif_ip6addr v \<noteq> None))
                           \<or> \<not> me_udpgw_ok env)
               then Fail_Step R_Udpgw # main_fail4a pw
               else (if udpgw then [Acquire R_Udpgw] else []) @ [Acquire R_Lwip_Job] @
                 (if \<not> me_write_buf_ok env then Fail_Step R_Write_Buf # main_fail5 pw v
                  else main_run env v))))"

definition main :: "nat \<Rightarrow> int \<Rightarrow> (string \<Rightarrow> int) \<Rightarrow> main_env \<Rightarrow> string list \<Rightarrow> (int \<times> main_event list) option" where
  "main smax lmax ch env argv =
     (case parse_arguments lmax ch argv of
        None \<Rightarrow> Some (1, [])
      | Some v \<Rightarrow>
          if op_help v \<or> op_version v then Some (0, [])
          else if op_logger v = LOGGER_SYSLOG \<and> \<not> me_logger_ok env then Some (1, [Fail_Step R_Log])
          else if \<not> me_network_ok env then Some (1, Acquire R_Log # main_fail1 False)
          else
            let pw = password_read env v;
                es = Acquire R_Log # (if pw then [Acquire R_Password] else [])
            in if \<not> me_arguments_ok env then Some (1, es @ main_fail1 pw)
               else if \<not> me_reactor_ok env then Some (1, es @ Fail_Step R_Reactor # main_fail1 pw)
               else if \<not> me_signal_ok env then Some (1, es @ [Acquire R_Reactor, Fail_Step R_Signal] @ main_fail2 pw)
               else if \<not> me_socket_ok env
               then Some (1, es @ [Acquire R_Reactor, Acquire R_Signal, Fail_Step R_Socket] @ main_fail2 pw)
               else if \<not> me_bind_ok env \<or> \<not> me_listen_ok env
               then Some (1, es @ [Acquire R_Reactor, Acquire R_Signal, Acquire R_Socket, Release R_Socket] @ main_fail2 pw)
               else (case accept_loop (me_accepts env) of
                       None \<Rightarrow> None
                     | Some (fd, acc) \<Rightarrow> Some (1, es @ [Acquire R_Reactor, Acquire R_Signal, Acquire R_Socket]
                         @ acc @ [Release R_Socket] @ main_device smax env v (op_tun_mtu v))))"

section \<open>Balance\<close>

fun balanced :: "main_event list \<Rightarrow> main_res list \<Rightarrow> bool" where
  "balanced [] held = (held = [])"
| "balanced (Acquire r # es) held = balanced es (r # held)"
| "balanced (Release r # es) held = (held \<noteq> [] \<and> hd held = r \<and> balanced es (tl held))"
| "balanced (_ # es) held = balanced es held"

lemmas main_fail_defs = main_fail1_def main_fail2_def main_fail3_def main_fail4_def main_fail4a_def main_fail5_def

text \<open>What is held while the device is set up.\<close>

abbreviation held_before_device :: "bool \<Rightarrow> main_res list" where
  "held_before_device pw \<equiv> [R_Signal, R_Reactor] @ (if pw then [R_Password] else []) @ [R_Log]"

lemma main_run_balanced:
  "balanced (main_run env v) (R_Lwip_Job # (if op_udpgw_remote_server_addr v \<noteq> None then [R_Udpgw] else [])
     @ [R_Read_Buffer, R_Read_Interface, R_Tap] @ held_before_device (password_read env v))"
  by (simp add: main_run_def lwip_init_job_hadler_def init_listener_def main_leave_def main_fail_defs Let_def)

lemma main_device_balanced: "balanced (main_device smax env v mtu) (held_before_device (password_read env v))"
  using main_run_balanced [of env v]
  by (auto simp: main_device_def Let_def main_fail_defs split: if_splits)

text \<open>
  The descriptor of the TUN device is the one resource nothing releases: \<^verbatim>\<open>BTap_Init2\<close> leaves a descriptor it
  is given to its owner. \<open>besides_fd\<close> is the trace of the other resources.
\<close>

definition besides_fd :: "main_event list \<Rightarrow> main_event list" where
  "besides_fd es = filter (\<lambda>e. e \<noteq> Acquire R_Tun_Fd) es"

lemma besides_fd_simps [simp]:
  "besides_fd [] = []" "besides_fd (es @ fs) = besides_fd es @ besides_fd fs"
  "besides_fd (Acquire r # es) = (if r = R_Tun_Fd then [] else [Acquire r]) @ besides_fd es"
  "besides_fd (Release r # es) = Release r # besides_fd es"
  "besides_fd (Fail_Step r # es) = Fail_Step r # besides_fd es"
  "besides_fd (Event_Loop # es) = Event_Loop # besides_fd es"
  by (simp_all add: besides_fd_def)

lemma accept_loop_balanced:
  "accept_loop rs = Some (fd, es) \<Longrightarrow> balanced (besides_fd es @ fs) held = balanced fs held"
  "accept_loop rs = Some (fd, es) \<Longrightarrow> filter (\<lambda>e. e \<in> {Acquire R_Tun_Fd, Release R_Tun_Fd}) es = [Acquire R_Tun_Fd]"
  by (induction rs arbitrary: fd es rule: accept_loop.induct) auto

lemma main_device_fd:
  "filter (\<lambda>e. e \<in> {Acquire R_Tun_Fd, Release R_Tun_Fd}) (main_device smax env v mtu) = []"
  by (simp add: main_device_def main_run_def lwip_init_job_hadler_def init_listener_def main_leave_def main_fail_defs Let_def)

lemma main_device_besides: "besides_fd (main_device smax env v mtu) = main_device smax env v mtu"
  using main_device_fd [of smax env v mtu] by (auto simp: besides_fd_def filter_id_conv filter_empty_conv)

text \<open>
  When the local socket for the descriptor cannot be created, bound or put to listen, \<^verbatim>\<open>main\<close> goes to the
  label behind \<^verbatim>\<open>BSignal_Finish\<close>, although \<^verbatim>\<open>BSignal_Init\<close> has succeeded.
\<close>

lemma main_skips_signal_finish:
  assumes "parse_arguments lmax ch argv = Some v" "\<not> op_help v" "\<not> op_version v" "op_logger v = LOGGER_STDOUT"
    "me_network_ok env" "me_arguments_ok env" "me_reactor_ok env" "me_signal_ok env" "\<not> me_socket_ok env"
  shows "\<exists>es. main smax lmax ch env argv = Some (1, es) \<and> Acquire R_Signal \<in> set es \<and> Release R_Signal \<notin> set es"
  using assms by (simp add: main_def main_fail_defs Let_def)

lemma parse_device_udp4_length:
  assumes "parse_device_udp4 data = Some (h, u, d)"
  shows "length d + 28 \<le> length data"
proof -
  obtain pl v where "ipv4_check data = Some (h, pl)" "udp_check pl = Some (v, d)"
    using assms by (auto simp: parse_device_udp4_def Let_def split: if_splits option.splits)
  then have "length pl + 20 \<le> length data" "length d + 8 \<le> length pl"
    by (auto simp: ipv4_check_def udp_check_def Let_def sizeof_headers split: if_splits)
  then show ?thesis by simp
qed

lemma parse_device_udp6_length:
  assumes "parse_device_udp6 data = Some (h, u, d)"
  shows "length d + 48 \<le> length data"
proof -
  obtain pl v where "ipv6_check data = Some (h, pl)" "udp_check pl = Some (v, d)"
    using assms by (auto simp: parse_device_udp6_def Let_def split: if_splits option.splits)
  then have "length pl + 40 \<le> length data" "length d + 8 \<le> length pl"
    by (auto simp: ipv6_check_def udp_check_def Let_def sizeof_headers split: if_splits)
  then show ?thesis by simp
qed

section \<open>Properties\<close>

text \<open>
  C16: \<^verbatim>\<open>main\<close> releases what it acquired, the descriptor of the TUN device excepted: on every path on which the
  local socket could be set up, whatever else fails, initialisation of lwIP included, the log, the contents of
  the password file, the reactor, the signal handling, the local socket and every connection accepted on it, the
  device with its buffers, the gateway client, the job, the timer, the network interface and the listeners are
  released exactly once, in the reverse order of acquisition. The descriptor received over the local socket is
  acquired at most once and never released. (What the handlers allocate during the event loop is not covered.)
\<close>

theorem main_resources_balanced:
  assumes "main smax lmax ch env argv = Some (code, es)" and "me_socket_ok env \<and> me_bind_ok env \<and> me_listen_ok env"
  shows "balanced (besides_fd es) []
    \<and> filter (\<lambda>e. e \<in> {Acquire R_Tun_Fd, Release R_Tun_Fd}) es \<in> {[], [Acquire R_Tun_Fd]}"
proof (cases "\<exists>v fd acc. parse_arguments lmax ch argv = Some v \<and> accept_loop (me_accepts env) = Some (fd, acc)
    \<and> es = Acquire R_Log # (if password_read env v then [Acquire R_Password] else [])
        @ [Acquire R_Reactor, Acquire R_Signal, Acquire R_Socket]
        @ acc @ [Release R_Socket] @ main_device smax env v (op_tun_mtu v)")
  case True
  then obtain v fd acc where acc: "accept_loop (me_accepts env) = Some (fd, acc)"
    and es: "es = Acquire R_Log # (if password_read env v then [Acquire R_Password] else [])
        @ [Acquire R_Reactor, Acquire R_Signal, Acquire R_Socket]
        @ acc @ [Release R_Socket] @ main_device smax env v (op_tun_mtu v)" by blast
  show ?thesis
    using accept_loop_balanced [OF acc] main_device_balanced [of smax env v "op_tun_mtu v"] main_device_fd
    by (cases "password_read env v") (simp_all add: es main_device_besides)
next
  case False
  then have "es = [] \<or> es = [Fail_Step R_Log] \<or> es = Acquire R_Log # main_fail1 False
    \<or> (\<exists>pw. es \<in> {Acquire R_Log # (if pw then [Acquire R_Password] else []) @ main_fail1 pw,
        Acquire R_Log # (if pw then [Acquire R_Password] else []) @ Fail_Step R_Reactor # main_fail1 pw,
        Acquire R_Log # (if pw then [Acquire R_Password] else []) @ [Acquire R_Reactor, Fail_Step R_Signal] @ main_fail2 pw})"
    using assms by (auto simp: main_def Let_def split: option.splits if_splits)
  then show ?thesis by (auto simp: main_fail_defs)
qed

definition demo_env :: main_env where
  "demo_env = \<lparr>me_logger_ok = True, me_network_ok = True, me_read_file_ok = False, me_arguments_ok = True, me_reactor_ok = True, me_signal_ok = True,
     me_socket_ok = True, me_bind_ok = True, me_listen_ok = True, me_accepts = [Accept_Failed, Got_Fd 7], me_tap_ok = True,
     me_read_buffer_ok = True, me_udpgw_ok = True, me_write_buf_ok = True, me_netif_ok = True, me_tcp_new_ok = True,
     me_tcp_bind_ok = True, me_tcp_listen_ok = False, me_tcp_new_ip6_ok = True, me_tcp_bind_ip6_ok = True,
     me_tcp_listen_ip6_ok = True\<rparr>"

theorem main_resources_balanced_witness:
  "\<exists>es. main 4294967295 INT_MAX (\<lambda>_. -1) demo_env demo_argv = Some (1, es) \<and> Event_Loop \<in> set es
    \<and> Acquire R_Tun_Fd \<in> set es \<and> balanced (besides_fd es) []"
proof -
  obtain v where v: "parse_arguments INT_MAX (\<lambda>_. -1) demo_argv = Some v" "\<not> op_help v" "\<not> op_version v" "op_logger v = LOGGER_STDOUT"
    "op_udpgw_remote_server_addr v = None"
    by (simp add: parse_arguments_def demo_argv_def parse_option_def parse_option_net_def with_arg_def with_number_def
        atoi_def strtol10_def isspace_def isdigit_def digits_value_def c_int_def parse_loglevel_def options_init_def options_complete_def)
  then obtain es where m: "main 4294967295 INT_MAX (\<lambda>_. -1) demo_env demo_argv = Some (1, es)" "Event_Loop \<in> set es"
      "Acquire R_Tun_Fd \<in> set es"
    by (simp add: main_def demo_env_def main_device_def main_run_def split_beta Let_def)
  from main_resources_balanced [OF m(1)] m show ?thesis by (auto simp: demo_env_def)
qed

text \<open>
  The MTU handed to the gateway covers the device: the payload of every UDP packet the device can
  deliver, over IPv4 or IPv6, is within the computed limit, so \<^verbatim>\<open>process_device_udp_packet\<close> never refuses a
  valid packet as too large; and when \<^verbatim>\<open>main\<close> accepts the limit, every gateway packet fits a frame.
\<close>

theorem udp_mtu_covers_device:
  assumes "int (length data) \<le> device_mtu"
  shows "(\<forall>h u d. parse_device_udp4 data = Some (h, u, d) \<longrightarrow> int (length d) \<le> compute_udp_mtu device_mtu have6)
    \<and> (\<forall>h u d. parse_device_udp6 data = Some (h, u, d) \<longrightarrow> int (length d) \<le> compute_udp_mtu device_mtu have6)
    \<and> (\<not> udp_mtu_too_large smax (compute_udp_mtu device_mtu have6) \<longrightarrow>
        0 \<le> udpgw_compute_mtu smax (compute_udp_mtu device_mtu have6)
        \<and> udpgw_compute_mtu smax (compute_udp_mtu device_mtu have6) \<le> 65535)"
proof (intro conjI allI impI)
  fix h u d
  assume "parse_device_udp4 data = Some (h, u, d)"
  then show "int (length d) \<le> compute_udp_mtu device_mtu have6"
    using parse_device_udp4_length [of data h u d] assms by (auto simp: compute_udp_mtu_def sizeof_headers Let_def)
next
  fix h u d
  assume "parse_device_udp6 data = Some (h, u, d)"
  then show "int (length d) \<le> compute_udp_mtu device_mtu have6"
    using parse_device_udp6_length [of data h u d] assms by (auto simp: compute_udp_mtu_def sizeof_headers Let_def)
qed (simp_all add: udp_mtu_too_large_def PACKETPROTO_MAXPAYLOAD_def Let_def)

theorem udp_mtu_covers_device_witness:
  "\<exists>h u. parse_device_udp4 (udp4_packet 1 2 3 4 [5]) = Some (h, u, [5]) \<and> int (length [5 :: byte]) \<le> compute_udp_mtu 1500 False"
proof -
  obtain h u where p: "parse_device_udp4 (udp4_packet 1 2 3 4 [5]) = Some (h, u, [5])"
    using udp4_packet_parses [of "[5]" 1 2 3 4] by auto
  then show ?thesis
    using udp_mtu_covers_device [of "udp4_packet 1 2 3 4 [5]" 1500 False 4294967295] by (simp add: length_udp_packets)
qed

end
