(* ===== verification/Udp_Path.thy ===== *)
theory Udp_Path
  imports UdpGw_Client Tun_Device
begin

text \<open>
  The path of a UDP packet through the program: from the device (\<^verbatim>\<open>process_device_udp_packet\<close>) into the
  gateway client (\<^verbatim>\<open>SocksUdpGwClient_SubmitPacket\<close>, which calls \<^verbatim>\<open>UdpGwClient_SubmitPacket\<close>, and the job that
  sends the first packet of a new connection), and from the gateway (\<^verbatim>\<open>recv_interface_handler_send\<close>) back to
  the device (\<^verbatim>\<open>udpgw_client_handler_received\<close>). The definitions compose the handlers of the theories
  \<^verbatim>\<open>Tun_Device\<close> and \<^verbatim>\<open>UdpGw_Client\<close>; the property of the whole path
  is in the root theory.
\<close>

section \<open>Composition\<close>

text \<open>
  A submitted packet: \<open>m\<close> is the result of \<^verbatim>\<open>malloc\<close> for a new connection, \<open>p\<close> whether its packet flow could
  be initialised, \<open>b\<close> whether the connection's send buffer has room for the packet. The first job of a new
  connection is the newest pending job, so it runs before any other event of the client.
\<close>

definition submit_and_run ::
    "nat option \<Rightarrow> bool \<Rightarrow> bool \<Rightarrow> UdpGwClient \<Rightarrow> BAddr \<Rightarrow> BAddr \<Rightarrow> bool \<Rightarrow> byte list \<Rightarrow>
     (UdpGwClient \<times> ug_call list) option" where
  "submit_and_run m p b gw l r dns data =
     (case UdpGwClient_SubmitPacket m p b gw l r dns data of
        None \<Rightarrow> None
      | Some (gw1, calls) \<Rightarrow>
          (case m of
             None \<Rightarrow> Some (gw1, calls)
           | Some con \<Rightarrow>
               if ug_cons gw1 con = None then Some (gw1, calls)
               else let (gw2, first) = connection_first_job_handler b con gw1 in Some (gw2, calls @ first)))"

definition udp_send ::
    "nat option \<Rightarrow> bool \<Rightarrow> bool \<Rightarrow> tun_state \<Rightarrow> UdpGwClient \<Rightarrow> byte list \<Rightarrow> (UdpGwClient \<times> ug_call list) option" where
  "udp_send m p b st gw pkt =
     (case process_device_udp_packet st pkt of
        (True, [TD_Udp_Submit l r dns data]) \<Rightarrow> submit_and_run m p b gw l r dns data
      | _ \<Rightarrow> Some (gw, []))"

definition udp_receive :: "tun_state \<Rightarrow> UdpGwClient \<Rightarrow> byte list \<Rightarrow> UdpGwClient \<times> td_call list" where
  "udp_receive st gw msg =
     (let (gw2, calls) = recv_interface_handler_send gw msg
      in (gw2, concat (map (\<lambda>c. case c of UG_Received l r data \<Rightarrow> udpgw_client_handler_received st l r data
                                        | _ \<Rightarrow> []) calls)))"

text \<open>
  What the client may do between a packet and its reply: submit packets, with whatever outcome of the
  allocations and of the send buffer, receive frames, deliverable or not, send keepalives, and lose and
  regain the server. The list holds the address pairs of the submitted packets and of the replies.
\<close>

definition received_addrs :: "ug_call list \<Rightarrow> UdpGwClient_conaddr list" where
  "received_addrs calls = concat (map (\<lambda>c. case c of
     UG_Received l r _ \<Rightarrow> [\<lparr>ca_local_addr = l, ca_remote_addr = r\<rparr>] | _ \<Rightarrow> []) calls)"

inductive udp_traffic :: "UdpGwClient \<Rightarrow> UdpGwClient_conaddr list \<Rightarrow> UdpGwClient \<Rightarrow> bool" for gw where
  traffic_Nil: "udp_traffic gw [] gw"
| traffic_submit: "udp_traffic gw as gw1 \<Longrightarrow> \<forall>con. m = Some con \<longrightarrow> ug_cons gw1 con = None \<Longrightarrow>
    submit_and_run m p b gw1 l r dns data = Some (gw2, calls) \<Longrightarrow>
    udp_traffic gw (as @ [\<lparr>ca_local_addr = l, ca_remote_addr = r\<rparr>]) gw2"
| traffic_receive: "udp_traffic gw as gw1 \<Longrightarrow> recv_interface_handler_send gw1 msg = (gw2, calls) \<Longrightarrow>
    udp_traffic gw (as @ received_addrs calls) gw2"
| traffic_keepalive: "udp_traffic gw as gw1 \<Longrightarrow> send_monitor_handler gw1 = (gw2, calls) \<Longrightarrow> udp_traffic gw as gw2"
| traffic_keepalive_done: "udp_traffic gw as gw1 \<Longrightarrow> udp_traffic gw as (keepalive_if_handler_done gw1)"
| traffic_connect: "udp_traffic gw as gw1 \<Longrightarrow> UdpGwClient_ConnectServer ok gw1 = (res, gw2, calls) \<Longrightarrow>
    udp_traffic gw as gw2"
| traffic_disconnect: "udp_traffic gw as gw1 \<Longrightarrow> UdpGwClient_DisconnectServer gw1 = (gw2, calls) \<Longrightarrow>
    udp_traffic gw as gw2"

section \<open>The path is a cache access\<close>

text \<open>A step either leaves the table alone or is an access of one address pair.\<close>

definition udp_quiet :: "UdpGwClient \<Rightarrow> UdpGwClient \<Rightarrow> bool" where
  "udp_quiet gw gw2 \<longleftrightarrow> (ug_inv gw \<longrightarrow> ug_inv gw2) \<and> ug_table gw2 = ug_table gw
     \<and> ug_max_connections gw2 = ug_max_connections gw \<and> ug_udp_mtu gw2 = ug_udp_mtu gw"

definition udp_access :: "UdpGwClient_conaddr \<Rightarrow> UdpGwClient \<Rightarrow> UdpGwClient \<Rightarrow> bool" where
  "udp_access a gw gw2 \<longleftrightarrow>
     (\<exists>m p b dns data calls. (\<forall>con. m = Some con \<longrightarrow> ug_cons gw con = None) \<and> ug_accepts m p gw a
        \<and> submit_and_run m p b gw (ca_local_addr a) (ca_remote_addr a) dns data = Some (gw2, calls))
   \<or> (\<exists>msg payload. recv_interface_handler_send gw msg =
        (gw2, [UG_Recv_Done, UG_Received (ca_local_addr a) (ca_remote_addr a) payload]))"

definition udp_uses :: "UdpGwClient_conaddr \<Rightarrow> UdpGwClient \<Rightarrow> UdpGwClient \<Rightarrow> bool" where
  "udp_uses a gw gw2 \<longleftrightarrow> (\<exists>gw1. udp_quiet gw gw1 \<and> udp_access a gw1 gw2)"

lemma udp_quiet_refl: "udp_quiet gw gw"
  by (simp add: udp_quiet_def)

lemma udp_quiet_trans: "udp_quiet gw gw1 \<Longrightarrow> udp_quiet gw1 gw2 \<Longrightarrow> udp_quiet gw gw2"
  by (simp add: udp_quiet_def)

lemma udp_quiet_keepalive: "udp_quiet gw (gw\<lparr>ug_keepalive_sending := k\<rparr>)" "udp_quiet gw (gw\<lparr>ug_have_server := k\<rparr>)"
  by (auto simp: udp_quiet_def ug_inv_def ug_table_def ug_entry_def)

lemma udp_quiet_handlers:
  "send_monitor_handler gw = (gw2, calls) \<Longrightarrow> udp_quiet gw gw2"
  "udp_quiet gw (keepalive_if_handler_done gw)"
  "UdpGwClient_ConnectServer ok gw = (res, gw2, calls') \<Longrightarrow> udp_quiet gw gw2"
  "UdpGwClient_DisconnectServer gw = (gw2, calls'') \<Longrightarrow> udp_quiet gw gw2"
  using udp_quiet_keepalive [of gw] udp_quiet_refl [of gw]
  by (auto simp: send_monitor_handler_def keepalive_if_handler_done_def UdpGwClient_ConnectServer_def
      UdpGwClient_DisconnectServer_def split: if_splits)

lemma first_job_quiet: "udp_quiet gw (fst (connection_first_job_handler b con gw))"
  by (auto simp: connection_first_job_handler_def udp_quiet_def ug_table_def ug_entry_def ug_inv_def split: option.splits)

lemma submit_mtu:
  assumes "UdpGwClient_SubmitPacket m p b gw l r dns data = Some (gw2, calls)"
  shows "ug_udp_mtu gw2 = ug_udp_mtu gw"
  using assms
  by (auto simp: UdpGwClient_SubmitPacket_def connection_init_def find_unused_conid_def reuse_connection_def
      move_to_end_def Let_def split: option.splits if_splits prod.splits)

lemma submit_and_run_form:
  assumes "submit_and_run m p b gw l r dns data = Some (gw2, calls)"
  obtains gw1 calls1 where "UdpGwClient_SubmitPacket m p b gw l r dns data = Some (gw1, calls1)" "udp_quiet gw1 gw2"
proof -
  obtain gw1 calls1 where s: "UdpGwClient_SubmitPacket m p b gw l r dns data = Some (gw1, calls1)"
    and "gw2 = gw1 \<or> (\<exists>con. gw2 = fst (connection_first_job_handler b con gw1))"
  proof (cases "UdpGwClient_SubmitPacket m p b gw l r dns data")
    case None
    with assms show ?thesis by (simp add: submit_and_run_def)
  next
    case (Some s)
    then have "UdpGwClient_SubmitPacket m p b gw l r dns data = Some (fst s, snd s)" by simp
    moreover have "gw2 = fst s \<or> (\<exists>con. gw2 = fst (connection_first_job_handler b con (fst s)))"
      using assms Some by (auto simp: submit_and_run_def Let_def split_beta split: option.splits if_splits)
    ultimately show ?thesis by (rule that)
  qed
  then have "udp_quiet gw1 gw2" using first_job_quiet udp_quiet_refl by blast
  with s show ?thesis by (rule that)
qed

abbreviation ug_touched :: "UdpGwClient_conaddr \<Rightarrow> UdpGwClient \<Rightarrow> UdpGwClient \<Rightarrow> bool" where
  "ug_touched a gw gw2 \<equiv> \<exists>v.
     (map_of (ug_table gw) a = None \<and> length (ug_table gw) < nat (ug_max_connections gw) \<longrightarrow> v \<notin> snd ` set (ug_table gw))
     \<and> ug_table gw2 = lru_touch (nat (ug_max_connections gw)) v a (ug_table gw)"

lemma submit_and_run_step:
  assumes inv: "ug_inv gw" and fresh: "\<forall>con. m = Some con \<longrightarrow> ug_cons gw con = None"
    and s: "submit_and_run m p b gw l r dns data = Some (gw2, calls)"
  shows "ug_inv gw2 \<and> ug_max_connections gw2 = ug_max_connections gw \<and> ug_udp_mtu gw2 = ug_udp_mtu gw \<and>
    (if ug_accepts m p gw \<lparr>ca_local_addr = l, ca_remote_addr = r\<rparr>
     then ug_touched \<lparr>ca_local_addr = l, ca_remote_addr = r\<rparr> gw gw2 else udp_quiet gw gw2)"
proof -
  obtain gw1 calls1 where s1: "UdpGwClient_SubmitPacket m p b gw l r dns data = Some (gw1, calls1)"
    and q: "udp_quiet gw1 gw2" by (rule submit_and_run_form [OF s])
  from SubmitPacket_step [OF inv fresh, of p b l r dns data] s1 submit_mtu [OF s1] q
  show ?thesis by (simp add: udp_quiet_def)
qed

lemma udp_access_touch:
  assumes inv: "ug_inv gw" and u: "udp_access a gw gw2"
  shows "ug_inv gw2 \<and> ug_max_connections gw2 = ug_max_connections gw \<and> ug_udp_mtu gw2 = ug_udp_mtu gw \<and> ug_touched a gw gw2"
  using u unfolding udp_access_def
proof (elim disjE exE conjE)
  fix m p b dns data calls
  assume s: "\<forall>con. m = Some con \<longrightarrow> ug_cons gw con = None" "ug_accepts m p gw a"
    "submit_and_run m p b gw (ca_local_addr a) (ca_remote_addr a) dns data = Some (gw2, calls)"
  have same: "\<lparr>ca_local_addr = ca_local_addr a, ca_remote_addr = ca_remote_addr a\<rparr> = a" by (cases a) simp
  from submit_and_run_step [OF inv s(1,3), unfolded same] s(2) show ?thesis by simp
next
  fix msg payload
  assume r: "recv_interface_handler_send gw msg =
    (gw2, [UG_Recv_Done, UG_Received (ca_local_addr a) (ca_remote_addr a) payload])"
  then have "ug_uses a gw gw2" unfolding ug_uses_def by blast
  moreover have "ug_udp_mtu gw2 = ug_udp_mtu gw" using recv_result [OF inv r] by (auto simp: move_to_end_def)
  ultimately show ?thesis using ug_uses_touch [OF inv] by simp
qed

lemma udp_uses_touch:
  assumes "ug_inv gw" and "udp_uses a gw gw2"
  shows "ug_inv gw2 \<and> ug_max_connections gw2 = ug_max_connections gw \<and> ug_udp_mtu gw2 = ug_udp_mtu gw \<and> ug_touched a gw gw2"
proof -
  obtain gw1 where q: "udp_quiet gw gw1" and a: "udp_access a gw1 gw2" using assms(2) unfolding udp_uses_def by blast
  have "ug_inv gw1" using q assms(1) by (simp add: udp_quiet_def)
  from udp_access_touch [OF this a] q show ?thesis by (simp add: udp_quiet_def)
qed

interpretation udp: lru_table "\<lambda>gw. ug_inv gw \<and> nat (ug_max_connections gw) = Suc n \<and> ug_udp_mtu gw = mtu"
  ug_table "Suc n" udp_uses
  for n :: nat and mtu :: int
  by unfold_locales (use udp_uses_touch ug_table_distinct in fastforce)+

text \<open>Traffic is a sequence of accesses of some of the pairs it lists.\<close>

lemma touches_quiet:
  assumes "touches udp_uses gw as gw1" "udp_quiet gw1 gw2" "udp_access a gw2 gw3"
  shows "touches udp_uses gw (as @ [a]) gw3"
  by (rule touches_snoc [OF assms(1)]) (use assms(2,3) in \<open>auto simp: udp_uses_def\<close>)

lemma udp_traffic_touches:
  assumes "udp_traffic gw as gw2" "ug_inv gw"
  shows "ug_inv gw2 \<and> (\<exists>bs gw1. touches udp_uses gw bs gw1 \<and> set bs \<subseteq> set as \<and> udp_quiet gw1 gw2)"
  using assms
proof (induction rule: udp_traffic.induct)
  case traffic_Nil
  then show ?case using touches_Nil [of udp_uses gw] udp_quiet_refl [of gw] by fastforce
next
  case (traffic_submit as gw1 m p b l r dns data gw2 calls)
  let ?a = "\<lparr>ca_local_addr = l, ca_remote_addr = r\<rparr>"
  obtain bs gw0 where i: "ug_inv gw1" and t: "touches udp_uses gw bs gw0" "set bs \<subseteq> set as" "udp_quiet gw0 gw1"
    using traffic_submit.IH [OF traffic_submit.prems] by blast
  note st = submit_and_run_step [OF i traffic_submit.hyps(2,3)]
  show ?case
  proof (cases "ug_accepts m p gw1 ?a")
    case True
    then have "udp_access ?a gw1 gw2"
      unfolding udp_access_def using traffic_submit.hyps(2,3)
      by (intro disjI1 exI [of _ m] exI [of _ p] exI [of _ b] exI [of _ dns] exI [of _ data] exI [of _ calls]) simp
    from touches_quiet [OF t(1,3) this] t(2) st udp_quiet_refl [of gw2] show ?thesis by fastforce
  next
    case False
    with st udp_quiet_trans [OF t(3)] t(1,2) show ?thesis by fastforce
  qed
next
  case (traffic_receive as gw1 msg gw2 calls)
  obtain bs gw0 where i: "ug_inv gw1" and t: "touches udp_uses gw bs gw0" "set bs \<subseteq> set as" "udp_quiet gw0 gw1"
    using traffic_receive.IH [OF traffic_receive.prems] by blast
  consider "gw2 = gw1" | l r payload where "calls = [UG_Recv_Done, UG_Received l r payload]"
    using recv_result [OF i traffic_receive.hyps(2)] by blast
  then show ?case
  proof cases
    case 1
    with i t show ?thesis by auto
  next
    case 2
    let ?a = "\<lparr>ca_local_addr = l, ca_remote_addr = r\<rparr>"
    have "udp_access ?a gw1 gw2"
      unfolding udp_access_def using traffic_receive.hyps(2) 2 by (intro disjI2) auto
    from touches_quiet [OF t(1,3) this] udp_access_touch [OF i this] t(2) udp_quiet_refl [of gw2] 2
    show ?thesis by (fastforce simp: received_addrs_def)
  qed
next
  case (traffic_keepalive as gw1 gw2 calls)
  with udp_quiet_handlers(1) [OF traffic_keepalive.hyps(2)] udp_quiet_trans show ?case by (meson udp_quiet_def)
next
  case (traffic_keepalive_done as gw1)
  with udp_quiet_handlers(2) [of gw1] udp_quiet_trans show ?case by (meson udp_quiet_def)
next
  case (traffic_connect as gw1 ok res gw2 calls)
  with udp_quiet_handlers(3) [OF traffic_connect.hyps(2)] udp_quiet_trans show ?case by (meson udp_quiet_def)
next
  case (traffic_disconnect as gw1 gw2 calls)
  with udp_quiet_handlers(4) [OF traffic_disconnect.hyps(2)] udp_quiet_trans show ?case by (meson udp_quiet_def)
qed

section \<open>What a submission sends\<close>

text \<open>
  An accepted packet is sent, exactly once, when the send buffer has room, under an id that the table holds
  for its address pair; every other packet is dropped.
\<close>

lemma submit_and_run_sends:
  assumes inv: "ug_inv gw" and fresh: "\<forall>con. m = Some con \<longrightarrow> ug_cons gw con = None"
  defines "a \<equiv> \<lambda>l r. \<lparr>ca_local_addr = l, ca_remote_addr = r\<rparr>"
  shows "\<exists>gw2 calls. submit_and_run m p b gw l r dns data = Some (gw2, calls)
    \<and> (if b \<and> ug_accepts m p gw (a l r)
       then \<exists>k conid g. calls = [UG_Packet k ([g] @ bytes16 conid @ udpgw_addr_bytes r @ data)]
              \<and> map_of (ug_table gw2) (a l r) = Some conid
       else calls = [])"
proof -
  let ?a = "\<lparr>ca_local_addr = l, ca_remote_addr = r\<rparr>"
  have sent: ?thesis
    if s: "submit_and_run m p b gw l r dns data = Some (gw2, connection_send b k c fl data)"
      and acc: "ug_accepts m p gw ?a"
      and c: "ug_cons gw2 k = Some c'" "cn_conaddr c' = ?a" "cn_conid c' = cn_conid c" "cn_conaddr c = ?a"
    for gw2 k c c' fl
  proof (cases b)
    case True
    have i: "ug_inv gw2" using submit_and_run_step [OF inv fresh s] by blast
    have t: "map_of (ug_table gw2) ?a = Some (cn_conid c)"
      using ug_table_lookup(1) [OF i] ug_inv_lookup(2) [OF i c(1)] c by auto
    obtain g where g: "connection_send True k c fl data = [UG_Packet k ([g] @ bytes16 (cn_conid c) @ udpgw_addr_bytes r @ data)]"
      using connection_send_form [OF c(4)] by blast
    show ?thesis
      by (rule exI [of _ gw2], rule exI [of _ "connection_send b k c fl data"]) (use s t g True acc in \<open>auto simp: a_def\<close>)
  next
    case False
    with s show ?thesis by (simp add: connection_send_def)
  qed
  show ?thesis
  proof (cases "ug_by_conaddr gw ?a")
    case (Some k)
    obtain c where c: "ug_cons gw k = Some c" "cn_conaddr c = ?a" and
      s: "UdpGwClient_SubmitPacket m p b gw l r dns data = Some (move_to_end k gw,
        connection_send b k c (if dns then UDPGW_CLIENT_FLAG_DNS else 0) data)"
      by (rule SubmitPacket_found [OF Some inv])
    have "ug_cons (move_to_end k gw) = ug_cons gw" by (simp add: move_to_end_def)
    then show ?thesis
      by (intro sent [of "move_to_end k gw" k c "if dns then UDPGW_CLIENT_FLAG_DNS else 0" c])
        (use s c fresh Some in \<open>simp_all add: submit_and_run_def ug_accepts_def split: option.splits\<close>)
  next
    case None
    show ?thesis
    proof (cases "ug_num gw = ug_max_connections gw")
      case True
      obtain c gw2 where c: "ug_cons gw (hd (ug_list gw)) = Some c" and
        s: "UdpGwClient_SubmitPacket m p b gw l r dns data = Some (gw2,
          connection_send b (hd (ug_list gw)) (c\<lparr>cn_conaddr := ?a\<rparr>)
            ((if dns then UDPGW_CLIENT_FLAG_DNS else 0) OR UDPGW_CLIENT_FLAG_REBIND) data)"
        and g: "ug_cons gw2 = (ug_cons gw)(hd (ug_list gw) \<mapsto> c\<lparr>cn_conaddr := ?a\<rparr>)"
        by (rule SubmitPacket_full [OF None inv True])
      have "\<forall>con. m = Some con \<longrightarrow> ug_cons gw2 con = None" using g fresh c by (auto simp: fun_upd_apply)
      then show ?thesis
        by (intro sent [of gw2 "hd (ug_list gw)" "c\<lparr>cn_conaddr := ?a\<rparr>"
              "(if dns then UDPGW_CLIENT_FLAG_DNS else 0) OR UDPGW_CLIENT_FLAG_REBIND" "c\<lparr>cn_conaddr := ?a\<rparr>"])
          (use s g True in \<open>simp_all add: submit_and_run_def ug_accepts_def split: option.splits\<close>)
    next
      case False
      have lt: "ug_num gw < ug_max_connections gw" using inv False by (simp add: ug_inv_def)
      have acc: "ug_accepts m p gw ?a \<longleftrightarrow> m \<noteq> None \<and> p" using None False by (simp add: ug_accepts_def)
      obtain gw1 where i: "connection_init m p gw ?a (if dns then UDPGW_CLIENT_FLAG_DNS else 0) data = Some gw1"
        and lost: "m = None \<or> \<not> p \<longrightarrow> ug_cons gw1 = ug_cons gw"
        and new: "p \<longrightarrow> (\<forall>con. m = Some con \<longrightarrow> (\<exists>conid. ug_cons gw1 = (ug_cons gw)(con \<mapsto> \<lparr>cn_conaddr = ?a,
          cn_first_flags = (if dns then UDPGW_CLIENT_FLAG_DNS else 0), cn_first_data = data, cn_conid = conid,
          cn_first_pending = True\<rparr>)))"
        using connection_init_inv [OF inv lt fresh None, of p "if dns then UDPGW_CLIENT_FLAG_DNS else 0" data] by blast
      have sub: "UdpGwClient_SubmitPacket m p b gw l r dns data = Some (gw1, [])"
        using SubmitPacket_new [OF None inv False] i by simp
      show ?thesis
      proof (cases "m \<noteq> None \<and> p")
        case no: False
        then have "m = None \<or> \<not> p" by blast
        with lost have "ug_cons gw1 = ug_cons gw" by blast
        then have "submit_and_run m p b gw l r dns data = Some (gw1, [])"
          using sub fresh by (auto simp: submit_and_run_def split: option.splits)
        with acc no show ?thesis unfolding a_def by (metis (no_types))
      next
        case yes: True
        then obtain con conid where m: "m = Some con" and
          g: "ug_cons gw1 = (ug_cons gw)(con \<mapsto> \<lparr>cn_conaddr = ?a,
          cn_first_flags = (if dns then UDPGW_CLIENT_FLAG_DNS else 0), cn_first_data = data, cn_conid = conid,
          cn_first_pending = True\<rparr>)" using new by blast
        let ?c = "\<lparr>cn_conaddr = ?a, cn_first_flags = (if dns then UDPGW_CLIENT_FLAG_DNS else 0), cn_first_data = data,
          cn_conid = conid, cn_first_pending = True\<rparr>"
        show ?thesis
          by (rule sent [of "gw1\<lparr>ug_cons := (ug_cons gw1)(con \<mapsto> ?c\<lparr>cn_first_pending := False\<rparr>)\<rparr>" con ?c _
                "?c\<lparr>cn_first_pending := False\<rparr>"])
            (use sub g m acc yes in \<open>simp_all add: submit_and_run_def connection_first_job_handler_def\<close>)
      qed
    qed
  qed
qed

text \<open>The addresses of a packet read from the device are of one family and well-formed.\<close>

lemma device_udp_addresses:
  assumes "process_device_udp_packet st q = (True, [TD_Udp_Submit l r dns d])"
  shows "td_have_udpgw st \<and> int (length d) \<le> td_udp_mtu st \<and> addr_wf l \<and> addr_wf r \<and> r \<noteq> BAddr_None \<and>
    ((\<exists>lip lport rip rport. l = BAddr_IPv4 lip lport \<and> r = BAddr_IPv4 rip rport)
     \<or> td_have_ip6addr st \<and> (\<exists>lip lport rip rport. l = BAddr_IPv6 lip lport \<and> r = BAddr_IPv6 rip rport))"
proof -
  have "length (ip6_source_address h) = 16 \<and> length (ip6_destination_address h) = 16"
    if "parse_device_udp6 q = Some (h, u, e)" for h u e
    using that by (auto simp: parse_device_udp6_def ipv6_check_def ipv6_header_read_def sizeof_headers Let_def
        split: if_splits option.splits)
  then show ?thesis
    using assms by (auto simp: process_device_udp_packet_def BAddr_MakeIPv4_def BAddr_MakeIPv6_def addr_wf_def Let_def
        split: if_splits option.splits)
qed

lemma udp_reply_reads_back:
  assumes "process_device_udp_packet st q = (True, [TD_Udp_Submit l r dns d])"
    and "int (length reply) \<le> td_udp_mtu st"
  shows "if udp_reply_fits st r reply
    then \<exists>out dns2. udpgw_client_handler_received st l r reply = [TD_Tap_Send out]
      \<and> int (length out) \<le> td_device_mtu st
      \<and> process_device_udp_packet st out = (True, [TD_Udp_Submit r l dns2 reply])
    else udpgw_client_handler_received st l r reply = []"
  using device_udp_addresses [OF assms(1)]
proof (elim conjE disjE exE)
  fix lip lport rip rport
  assume "td_have_udpgw st" "l = BAddr_IPv4 lip lport" "r = BAddr_IPv4 rip rport"
  with reply4_reads_back [of st reply rip rport lip lport] assms(2) show ?thesis by (cases "udp_reply_fits st r reply") auto
next
  fix lip lport rip rport
  assume "td_have_udpgw st" "l = BAddr_IPv6 lip lport" "r = BAddr_IPv6 rip rport" "td_have_ip6addr st"
    "addr_wf l" "addr_wf r"
  with reply6_reads_back [of st reply rip lip rport lport] assms(2) show ?thesis
    by (cases "udp_reply_fits st r reply") (auto simp: addr_wf_def)
qed

end
