(* ===== verification/Fair_Queue.thy ===== *)
theory Fair_Queue
  imports Misc BAddr
begin

text \<open>
  The fair queue through which the connections of the udpgw client share one output
  (\<^verbatim>\<open>flow/PacketPassFairQueue.c\<close>). Every flow has a virtual time, a \<^verbatim>\<open>uint64_t\<close>, that advances with the
  size of its packets; the queue always sends the packet of the flow with the least time. When a time
  would overflow, the least queued time is subtracted from all flows.

  A flow is named by its address; the heap \<open>fq_heap\<close> holds its fields. The AVL tree of queued flows is the
  list of its entries in the order of \<^verbatim>\<open>compare_flows\<close>. The input interfaces of the flows and the output
  are the calls the queue makes, the job \<^verbatim>\<open>schedule_job\<close> is a flag.

  \<open>fq_sys\<close> is the queue with its surroundings: the packet the output was given, and the packets the flows
  handed in and were not told done. \<open>fq_step\<close> is what can happen to it. The properties are the fairness
  bound of start-time fair queueing, measured by the packets given to the output, and the scheduling itself.
\<close>

section \<open>The code\<close>

record PacketPassFairQueueFlow =
  ff_handler_busy :: "nat option"
  ff_time :: u64
  ff_is_queued :: bool
  ff_data :: ptr
  ff_data_len :: int

record PacketPassFairQueue =
  fq_mtu :: int
  fq_use_cancel :: bool
  fq_packet_weight :: int
  fq_sending_flow :: "nat option"
  fq_sending_len :: int
  fq_previous_flow :: "nat option"
  fq_queued_tree :: "nat list"
  fq_flows_list :: "nat list"
  fq_freeing :: bool
  fq_schedule_job :: bool
  fq_heap :: "nat \<Rightarrow> PacketPassFairQueueFlow"

datatype fq_call =
    FQ_Output_Send ptr int
  | FQ_Output_RequestCancel
  | FQ_Input_Init nat int
  | FQ_Input_Free nat
  | FQ_Input_Done nat
  | FQ_Busy_Handler nat

definition FAIRQUEUE_MAX_TIME :: u64 where
  "FAIRQUEUE_MAX_TIME = - 1"

definition compare_flows :: "PacketPassFairQueue \<Rightarrow> nat \<Rightarrow> nat \<Rightarrow> int" where
  "compare_flows m f1 f2 =
     (let cmp = B_COMPARE (ff_time (fq_heap m f1)) (ff_time (fq_heap m f2))
      in if cmp \<noteq> 0 then cmp else B_COMPARE f1 f2)"

fun fq_tree_insert :: "PacketPassFairQueue \<Rightarrow> nat \<Rightarrow> nat list \<Rightarrow> nat list" where
  "fq_tree_insert m f [] = [f]"
| "fq_tree_insert m f (g # gs) =
     (if compare_flows m f g = 0 then g # gs
      else if compare_flows m f g < 0 then f # g # gs
      else g # fq_tree_insert m f gs)"

definition get_current_time :: "PacketPassFairQueue \<Rightarrow> u64" where
  "get_current_time m =
     (case fq_sending_flow m of
        Some s \<Rightarrow> ff_time (fq_heap m s)
      | None \<Rightarrow>
          let (time, have) = (case fq_queued_tree m of [] \<Rightarrow> (0, False) | first # _ \<Rightarrow> (ff_time (fq_heap m first), True));
              (time, have) =
                (case fq_previous_flow m of
                   None \<Rightarrow> (time, have)
                 | Some p \<Rightarrow> if \<not> have \<or> ff_time (fq_heap m p) < time then (ff_time (fq_heap m p), True) else (time, have))
          in if have then time else 0)"

text \<open>The body of the loop over all flows in \<^verbatim>\<open>increment_sent_flow\<close>.\<close>

definition subtract_time :: "nat \<Rightarrow> u64 \<Rightarrow> nat \<Rightarrow> (nat \<Rightarrow> PacketPassFairQueueFlow) \<Rightarrow> nat \<Rightarrow> PacketPassFairQueueFlow" where
  "subtract_time flow subtract someflow heap =
     heap(someflow :=
       (if subtract > ff_time (heap someflow) \<and> someflow \<noteq> flow then (heap someflow)\<lparr>ff_time := 0\<rparr>
        else (heap someflow)\<lparr>ff_time := ff_time (heap someflow) - subtract\<rparr>))"

definition increment_sent_flow :: "PacketPassFairQueue \<Rightarrow> nat \<Rightarrow> u64 \<Rightarrow> PacketPassFairQueue" where
  "increment_sent_flow m flow amount =
     (let heap =
        (if amount > FAIRQUEUE_MAX_TIME - ff_time (fq_heap m flow)
         then let subtract = (case fq_queued_tree m of
                                [] \<Rightarrow> ff_time (fq_heap m flow)
                              | first_flow # _ \<Rightarrow> ff_time (fq_heap m first_flow))
              in fold (subtract_time flow subtract) (fq_flows_list m) (fq_heap m)
         else fq_heap m)
      in m\<lparr>fq_heap := heap(flow := (heap flow)\<lparr>ff_time := ff_time (heap flow) + amount\<rparr>)\<rparr>)"

definition schedule :: "PacketPassFairQueue \<Rightarrow> PacketPassFairQueue \<times> fq_call list" where
  "schedule m =
     (let qflow = hd (fq_queued_tree m); fl = fq_heap m qflow
      in (m\<lparr>fq_queued_tree := tl (fq_queued_tree m), fq_heap := (fq_heap m)(qflow := fl\<lparr>ff_is_queued := False\<rparr>),
            fq_sending_flow := Some qflow, fq_sending_len := ff_data_len fl\<rparr>,
          [FQ_Output_Send (ff_data fl) (ff_data_len fl)]))"

definition schedule_job_handler :: "PacketPassFairQueue \<Rightarrow> PacketPassFairQueue \<times> fq_call list" where
  "schedule_job_handler m =
     (let m = m\<lparr>fq_previous_flow := None\<rparr>
      in if fq_queued_tree m \<noteq> [] then schedule m else (m, []))"

text \<open>\<^verbatim>\<open>input_handler_send\<close>: the flow before it is inserted into the tree, and in the tree.\<close>

definition fq_queue_data :: "PacketPassFairQueue \<Rightarrow> nat \<Rightarrow> ptr \<Rightarrow> int \<Rightarrow> PacketPassFairQueue" where
  "fq_queue_data m flow data data_len =
     (let m = (if fq_previous_flow m = Some flow then m\<lparr>fq_previous_flow := None\<rparr>
               else m\<lparr>fq_heap := (fq_heap m)(flow := (fq_heap m flow)
                        \<lparr>ff_time := bmax_uint64 (ff_time (fq_heap m flow)) (get_current_time m)\<rparr>)\<rparr>)
      in m\<lparr>fq_heap := (fq_heap m)(flow := (fq_heap m flow)\<lparr>ff_data := data, ff_data_len := data_len\<rparr>)\<rparr>)"

definition fq_enqueue :: "PacketPassFairQueue \<Rightarrow> nat \<Rightarrow> ptr \<Rightarrow> int \<Rightarrow> PacketPassFairQueue" where
  "fq_enqueue m flow data data_len =
     (let m = fq_queue_data m flow data data_len;
          m = m\<lparr>fq_queued_tree := fq_tree_insert m flow (fq_queued_tree m)\<rparr>
      in m\<lparr>fq_heap := (fq_heap m)(flow := (fq_heap m flow)\<lparr>ff_is_queued := True\<rparr>)\<rparr>)"

definition fq_input_handler_send ::
    "PacketPassFairQueue \<Rightarrow> nat \<Rightarrow> ptr \<Rightarrow> int \<Rightarrow> PacketPassFairQueue \<times> fq_call list" where
  "fq_input_handler_send m flow data data_len =
     (let m = fq_enqueue m flow data data_len
      in if fq_sending_flow m = None \<and> \<not> fq_schedule_job m then schedule m else (m, []))"

definition fq_output_handler_done :: "PacketPassFairQueue \<Rightarrow> PacketPassFairQueue \<times> fq_call list" where
  "fq_output_handler_done m =
     (case fq_sending_flow m of
        None \<Rightarrow> (m, [])
      | Some flow \<Rightarrow>
          let m = m\<lparr>fq_sending_flow := None, fq_previous_flow := Some flow\<rparr>;
              m = increment_sent_flow m flow (word_of_int (fq_packet_weight m) + word_of_int (fq_sending_len m));
              m = m\<lparr>fq_schedule_job := True\<rparr>
          in case ff_handler_busy (fq_heap m flow) of
               None \<Rightarrow> (m, [FQ_Input_Done flow])
             | Some user \<Rightarrow>
                 (m\<lparr>fq_heap := (fq_heap m)(flow := (fq_heap m flow)\<lparr>ff_handler_busy := None\<rparr>)\<rparr>,
                  [FQ_Input_Done flow, FQ_Busy_Handler user]))"

definition PacketPassFairQueue_Init :: "int \<Rightarrow> bool \<Rightarrow> int \<Rightarrow> (nat \<Rightarrow> PacketPassFairQueueFlow) \<Rightarrow> PacketPassFairQueue option" where
  "PacketPassFairQueue_Init output_mtu use_cancel packet_weight heap =
     (if \<not> ((word_of_int output_mtu :: u64) \<le> FAIRQUEUE_MAX_TIME
            \<and> (word_of_int packet_weight :: u64) \<le> FAIRQUEUE_MAX_TIME - word_of_int output_mtu) then None
      else Some \<lparr>fq_mtu = output_mtu, fq_use_cancel = use_cancel, fq_packet_weight = packet_weight,
             fq_sending_flow = None, fq_sending_len = 0, fq_previous_flow = None, fq_queued_tree = [],
             fq_flows_list = [], fq_freeing = False, fq_schedule_job = False, fq_heap = heap\<rparr>)"

definition PacketPassFairQueue_Free :: "PacketPassFairQueue \<Rightarrow> PacketPassFairQueue" where
  "PacketPassFairQueue_Free m = m\<lparr>fq_schedule_job := False\<rparr>"

definition PacketPassFairQueue_PrepareFree :: "PacketPassFairQueue \<Rightarrow> PacketPassFairQueue" where
  "PacketPassFairQueue_PrepareFree m = m\<lparr>fq_freeing := True\<rparr>"

definition PacketPassFairQueue_GetMTU :: "PacketPassFairQueue \<Rightarrow> int" where
  "PacketPassFairQueue_GetMTU m = fq_mtu m"

definition PacketPassFairQueueFlow_Init :: "nat \<Rightarrow> PacketPassFairQueue \<Rightarrow> PacketPassFairQueue \<times> fq_call list" where
  "PacketPassFairQueueFlow_Init flow m =
     (m\<lparr>fq_heap := (fq_heap m)(flow := (fq_heap m flow)\<lparr>ff_handler_busy := None, ff_time := 0, ff_is_queued := False\<rparr>),
        fq_flows_list := fq_flows_list m @ [flow]\<rparr>,
      [FQ_Input_Init flow (fq_mtu m)])"

definition PacketPassFairQueueFlow_Free :: "nat \<Rightarrow> PacketPassFairQueue \<Rightarrow> PacketPassFairQueue \<times> fq_call list" where
  "PacketPassFairQueueFlow_Free flow m =
     (let m = (if fq_sending_flow m = Some flow then m\<lparr>fq_sending_flow := None\<rparr> else m);
          m = (if fq_previous_flow m = Some flow then m\<lparr>fq_previous_flow := None\<rparr> else m);
          m = (if ff_is_queued (fq_heap m flow) then m\<lparr>fq_queued_tree := remove1 flow (fq_queued_tree m)\<rparr> else m)
      in (m\<lparr>fq_flows_list := remove1 flow (fq_flows_list m)\<rparr>, [FQ_Input_Free flow]))"

definition PacketPassFairQueueFlow_IsBusy :: "nat \<Rightarrow> PacketPassFairQueue \<Rightarrow> bool" where
  "PacketPassFairQueueFlow_IsBusy flow m = (fq_sending_flow m = Some flow)"

definition PacketPassFairQueueFlow_RequestCancel :: "nat \<Rightarrow> PacketPassFairQueue \<Rightarrow> fq_call list" where
  "PacketPassFairQueueFlow_RequestCancel flow m = [FQ_Output_RequestCancel]"

definition PacketPassFairQueueFlow_SetBusyHandler ::
    "nat \<Rightarrow> nat option \<Rightarrow> PacketPassFairQueue \<Rightarrow> PacketPassFairQueue" where
  "PacketPassFairQueueFlow_SetBusyHandler flow handler m =
     m\<lparr>fq_heap := (fq_heap m)(flow := (fq_heap m flow)\<lparr>ff_handler_busy := handler\<rparr>)\<rparr>"

section \<open>The asserted state\<close>

text \<open>The \<^verbatim>\<open>ASSERT\<close>s of the handlers and of the functions they call.\<close>

definition get_current_time_asserts :: "PacketPassFairQueue \<Rightarrow> bool" where
  "get_current_time_asserts m \<longleftrightarrow>
     (fq_sending_flow m = None \<longrightarrow>
       (case fq_queued_tree m of [] \<Rightarrow> True | first_flow # _ \<Rightarrow> ff_is_queued (fq_heap m first_flow)))"

definition increment_sent_flow_asserts :: "PacketPassFairQueue \<Rightarrow> nat \<Rightarrow> u64 \<Rightarrow> bool" where
  "increment_sent_flow_asserts m flow amount \<longleftrightarrow>
     amount \<le> FAIRQUEUE_MAX_TIME \<and> \<not> ff_is_queued (fq_heap m flow) \<and> fq_sending_flow m = None
     \<and> (amount > FAIRQUEUE_MAX_TIME - ff_time (fq_heap m flow) \<longrightarrow>
         (case fq_queued_tree m of [] \<Rightarrow> True | first_flow # _ \<Rightarrow> ff_is_queued (fq_heap m first_flow))
         \<and> (let subtract = (case fq_queued_tree m of
                              [] \<Rightarrow> ff_time (fq_heap m flow)
                            | first_flow # _ \<Rightarrow> ff_time (fq_heap m first_flow))
            in \<forall>someflow\<in>set (fq_flows_list m).
                 subtract > ff_time (fq_heap m someflow) \<and> someflow \<noteq> flow \<longrightarrow> \<not> ff_is_queued (fq_heap m someflow)))"

definition schedule_asserts :: "PacketPassFairQueue \<Rightarrow> bool" where
  "schedule_asserts m \<longleftrightarrow> fq_sending_flow m = None \<and> fq_previous_flow m = None \<and> \<not> fq_freeing m
     \<and> fq_queued_tree m \<noteq> [] \<and> ff_is_queued (fq_heap m (hd (fq_queued_tree m)))"

definition schedule_job_handler_asserts :: "PacketPassFairQueue \<Rightarrow> bool" where
  "schedule_job_handler_asserts m \<longleftrightarrow> fq_sending_flow m = None \<and> \<not> fq_freeing m
     \<and> (fq_queued_tree m \<noteq> [] \<longrightarrow> schedule_asserts (m\<lparr>fq_previous_flow := None\<rparr>))"

text \<open>\<^verbatim>\<open>ASSERT_EXECUTE(res)\<close>: the insertion succeeds, that is no entry compares equal.\<close>

definition fq_input_handler_send_asserts :: "PacketPassFairQueue \<Rightarrow> nat \<Rightarrow> ptr \<Rightarrow> int \<Rightarrow> bool" where
  "fq_input_handler_send_asserts m flow data data_len \<longleftrightarrow>
     fq_sending_flow m \<noteq> Some flow \<and> \<not> ff_is_queued (fq_heap m flow) \<and> \<not> fq_freeing m
     \<and> (fq_previous_flow m \<noteq> Some flow \<longrightarrow> get_current_time_asserts m)
     \<and> (\<forall>g\<in>set (fq_queued_tree m). compare_flows (fq_queue_data m flow data data_len) flow g \<noteq> 0)
     \<and> (fq_sending_flow m = None \<and> \<not> fq_schedule_job m \<longrightarrow> schedule_asserts (fq_enqueue m flow data data_len))"

definition fq_output_handler_done_asserts :: "PacketPassFairQueue \<Rightarrow> bool" where
  "fq_output_handler_done_asserts m \<longleftrightarrow>
     (case fq_sending_flow m of
        None \<Rightarrow> False
      | Some flow \<Rightarrow> fq_previous_flow m = None \<and> \<not> fq_schedule_job m \<and> \<not> fq_freeing m
          \<and> \<not> ff_is_queued (fq_heap m flow)
          \<and> increment_sent_flow_asserts (m\<lparr>fq_sending_flow := None, fq_previous_flow := Some flow\<rparr>) flow
              (word_of_int (fq_packet_weight m) + word_of_int (fq_sending_len m)))"

definition PacketPassFairQueue_Free_asserts :: "PacketPassFairQueue \<Rightarrow> bool" where
  "PacketPassFairQueue_Free_asserts m \<longleftrightarrow> fq_flows_list m = [] \<and> fq_queued_tree m = []
     \<and> fq_previous_flow m = None \<and> fq_sending_flow m = None"

section \<open>Runs\<close>

record fq_sys =
  fs_queue :: PacketPassFairQueue
  fs_output :: "(ptr \<times> int) option"
  fs_input :: "nat \<Rightarrow> (ptr \<times> int) option"

text \<open>The calls the queue makes on its output and on the inputs of its flows.\<close>

fun fq_effect :: "fq_call \<Rightarrow> fq_sys \<Rightarrow> fq_sys" where
  "fq_effect (FQ_Output_Send data data_len) s = s\<lparr>fs_output := Some (data, data_len)\<rparr>"
| "fq_effect (FQ_Input_Done f) s = s\<lparr>fs_input := (fs_input s)(f := None)\<rparr>"
| "fq_effect (FQ_Input_Free f) s = s\<lparr>fs_input := (fs_input s)(f := None)\<rparr>"
| "fq_effect _ s = s"

definition fq_apply :: "fq_sys \<Rightarrow> PacketPassFairQueue \<times> fq_call list \<Rightarrow> fq_sys" where
  "fq_apply s r = fold fq_effect (snd r) (s\<lparr>fs_queue := fst r\<rparr>)"

definition fq_start :: "PacketPassFairQueue \<Rightarrow> fq_sys" where
  "fq_start m = \<lparr>fs_queue = m, fs_output = None, fs_input = (\<lambda>_. None)\<rparr>"

datatype fq_ev = FQ_New nat | FQ_Gone nat | FQ_Send nat ptr int | FQ_Done nat int | FQ_Job | FQ_Busy nat

text \<open>
  A flow hands in a packet only when its last one is done, and is freed only when it is not busy, as the
  interfaces ask. The output finishes the packet it was given; the event carries the length of that packet and
  the flow that is told.
\<close>

inductive fq_step :: "fq_sys \<Rightarrow> fq_ev \<Rightarrow> fq_sys \<Rightarrow> bool" where
  fq_new: "f \<notin> set (fq_flows_list (fs_queue s)) \<Longrightarrow>
    fq_step s (FQ_New f) (fq_apply s (PacketPassFairQueueFlow_Init f (fs_queue s)))"
| fq_gone: "f \<in> set (fq_flows_list (fs_queue s)) \<Longrightarrow> \<not> PacketPassFairQueueFlow_IsBusy f (fs_queue s) \<Longrightarrow>
    fq_step s (FQ_Gone f) (fq_apply s (PacketPassFairQueueFlow_Free f (fs_queue s)))"
| fq_send: "f \<in> set (fq_flows_list (fs_queue s)) \<Longrightarrow> fs_input s f = None \<Longrightarrow>
    0 \<le> n \<Longrightarrow> n \<le> PacketPassFairQueue_GetMTU (fs_queue s) \<Longrightarrow>
    fq_step s (FQ_Send f data n)
      (fq_apply (s\<lparr>fs_input := (fs_input s)(f \<mapsto> (data, n))\<rparr>) (fq_input_handler_send (fs_queue s) f data n))"
| fq_done: "fs_output s = Some (data, n) \<Longrightarrow> fq_output_handler_done (fs_queue s) = (m', calls) \<Longrightarrow>
    FQ_Input_Done f \<in> set calls \<Longrightarrow>
    fq_step s (FQ_Done f n) (fq_apply (s\<lparr>fs_output := None\<rparr>) (m', calls))"
| fq_job: "fq_schedule_job (fs_queue s) \<Longrightarrow>
    fq_step s FQ_Job (fq_apply s (schedule_job_handler ((fs_queue s)\<lparr>fq_schedule_job := False\<rparr>)))"
| fq_busy: "fq_sending_flow (fs_queue s) = Some f \<Longrightarrow>
    fq_step s (FQ_Busy f) (fq_apply s (PacketPassFairQueueFlow_SetBusyHandler f h (fs_queue s), []))"

inductive_cases fq_stepE: "fq_step s ev s'"

text \<open>Runs during which \<open>P\<close> holds.\<close>

inductive fq_run :: "(fq_sys \<Rightarrow> bool) \<Rightarrow> fq_sys \<Rightarrow> fq_ev list \<Rightarrow> fq_sys \<Rightarrow> bool"
  for P where
  fq_run_Nil: "P s \<Longrightarrow> fq_run P s [] s"
| fq_run_snoc: "fq_run P s evs s' \<Longrightarrow> fq_step s' ev s'' \<Longrightarrow> P s'' \<Longrightarrow> fq_run P s (evs @ [ev]) s''"

text \<open>A flow with an unfinished packet, or whose packet was just finished.\<close>

definition backlogged :: "nat \<Rightarrow> fq_sys \<Rightarrow> bool" where
  "backlogged f s \<longleftrightarrow> fs_input s f \<noteq> None \<or> fq_previous_flow (fs_queue s) = Some f"

fun ev_service :: "int \<Rightarrow> nat \<Rightarrow> fq_ev \<Rightarrow> int" where
  "ev_service w f (FQ_Done g n) = (if g = f then w + n else 0)"
| "ev_service w f _ = 0"

text \<open>What a flow was served: the length of its packets given to the output, and the weight of each.\<close>

definition service :: "int \<Rightarrow> nat \<Rightarrow> fq_ev list \<Rightarrow> int" where
  "service w f evs = sum_list (map (ev_service w f) evs)"

definition flow_time :: "PacketPassFairQueue \<Rightarrow> nat \<Rightarrow> int" where
  "flow_time m f = uint (ff_time (fq_heap m f))"


section \<open>The order of the tree\<close>

interpretation flow_cmp: comparator UNIV "compare_flows m" for m
  by unfold_locales (auto simp: compare_flows_def Let_def B_COMPARE_simps B_COMPARE_def split: if_splits)

lemma compare_flows_le: "compare_flows m f g < 0 \<Longrightarrow> ff_time (fq_heap m f) \<le> ff_time (fq_heap m g)"
  by (auto simp: compare_flows_def Let_def B_COMPARE_simps split: if_splits)

lemma set_fq_tree_insert:
  "f \<notin> set t \<Longrightarrow> set (fq_tree_insert m f t) = insert f (set t)"
  by (induction t) (auto simp: flow_cmp.cmp_eq_0)

lemma fq_tree_insert_sorted:
  assumes "sorted_wrt (\<lambda>f g. compare_flows m f g < 0) t" "f \<notin> set t"
  shows "sorted_wrt (\<lambda>f g. compare_flows m f g < 0) (fq_tree_insert m f t)"
  using assms
proof (induction t)
  case (Cons g gs)
  have "compare_flows m f g < 0 \<Longrightarrow> h \<in> set gs \<Longrightarrow> compare_flows m f h < 0" for h
    using Cons.prems(1) flow_cmp.cmp_trans [of f g h m] by auto
  then show ?case
    using Cons flow_cmp.cmp_total [of f g m] set_fq_tree_insert [of f gs m] by (auto simp: flow_cmp.cmp_eq_0)
qed simp

lemma sorted_flows_cong:
  "(\<And>f. f \<in> set t \<Longrightarrow> ff_time (fq_heap m' f) = ff_time (fq_heap m f)) \<Longrightarrow>
    sorted_wrt (\<lambda>f g. compare_flows m' f g < 0) t \<longleftrightarrow> sorted_wrt (\<lambda>f g. compare_flows m f g < 0) t"
  by (induction t) (auto simp: compare_flows_def)

section \<open>Advancing the time\<close>

text \<open>The loop over the flows, in truncated subtraction on the natural numbers.\<close>

definition sub_time :: "nat \<Rightarrow> u64 \<Rightarrow> nat \<Rightarrow> u64 \<Rightarrow> u64" where
  "sub_time flow sub f t = (if sub > t \<and> f \<noteq> flow then 0 else t - sub)"

lemma subtract_time_other [simp]: "f \<noteq> g \<Longrightarrow> subtract_time flow sub g heap f = heap f"
  by (simp add: subtract_time_def)

lemma subtract_time_same [simp]:
  "subtract_time flow sub f heap f = (heap f)\<lparr>ff_time := sub_time flow sub f (ff_time (heap f))\<rparr>"
  by (simp add: subtract_time_def sub_time_def)

lemma fold_subtract_time:
  assumes "distinct fs"
  shows "fold (subtract_time flow sub) fs heap f =
    (if f \<in> set fs then (heap f)\<lparr>ff_time := sub_time flow sub f (ff_time (heap f))\<rparr> else heap f)"
  using assms
proof (induction fs arbitrary: heap)
  case (Cons g gs)
  then show ?case by (cases "f = g") simp_all
qed simp

lemma uint_sub_time:
  "f \<noteq> flow \<Longrightarrow> uint (sub_time flow sub f t) = max 0 (uint t - uint sub)"
  by (auto simp: sub_time_def word_less_def uint_sub_if')

lemma uint_sub_add:
  assumes "uint t + uint a \<ge> 2 ^ 64" "t \<le> sub"
  shows "uint (t - sub + a :: u64) = uint t + uint a - uint sub"
proof -
  have b: "uint a < 2 ^ 64" "uint sub < 2 ^ 64" using uint_lt2p [of a] uint_lt2p [of sub] by simp_all
  have "uint (t - sub + a) = (uint t - uint sub + uint a) mod 2 ^ 64"
    by (simp add: uint_word_ariths mod_simps)
  moreover have "0 \<le> uint t - uint sub + uint a" "uint t - uint sub + uint a < 2 ^ 64"
    using assms b by (simp_all add: word_le_def)
  ultimately show ?thesis by (simp add: mod_pos_pos_trivial)
qed

lemma overflow_iff:
  "a > FAIRQUEUE_MAX_TIME - t \<longleftrightarrow> uint t + uint a \<ge> 2 ^ 64"
proof -
  have "uint (FAIRQUEUE_MAX_TIME - t) = 2 ^ 64 - 1 - uint t"
    using uint_lt2p [of t] by (simp add: FAIRQUEUE_MAX_TIME_def uint_sub_if' word_le_def unsigned_minus_1_eq_mask mask_eq_exp_minus_1)
  then show ?thesis by (auto simp: word_less_def)
qed

lemma increment_frame:
  assumes "distinct (fq_flows_list m)"
  shows "increment_sent_flow m flow a = m\<lparr>fq_heap := fq_heap (increment_sent_flow m flow a)\<rparr>"
    and "fq_heap (increment_sent_flow m flow a) f
      = (fq_heap m f)\<lparr>ff_time := ff_time (fq_heap (increment_sent_flow m flow a) f)\<rparr>"
  using assms by (simp_all add: increment_sent_flow_def Let_def fold_subtract_time)

text \<open>
  The finished flow advances by exactly the amount and all flows move back by the same \<open>d\<close>, queued ones
  without being cut off: the relative times of the queued flows and of the finished flow are kept.
\<close>

lemma increment_time:
  assumes d: "distinct (fq_flows_list m)" and f: "flow \<in> set (fq_flows_list m)"
    and s: "sorted_wrt (\<lambda>f g. compare_flows m f g < 0) (fq_queued_tree m)"
    and q: "\<And>g. g \<in> set (fq_queued_tree m) \<Longrightarrow> ff_time (fq_heap m flow) \<le> ff_time (fq_heap m g)"
  shows "\<exists>d. 0 \<le> d \<and> flow_time (increment_sent_flow m flow a) flow = flow_time m flow + uint a - d
    \<and> (\<forall>g\<in>set (fq_flows_list m). g \<noteq> flow \<longrightarrow>
          flow_time (increment_sent_flow m flow a) g = max 0 (flow_time m g - d))
    \<and> (\<forall>g\<in>set (fq_queued_tree m). d \<le> flow_time m g)"
proof (cases "a > FAIRQUEUE_MAX_TIME - ff_time (fq_heap m flow)")
  case False
  then have "uint (ff_time (fq_heap m flow)) + uint a < 2 ^ 64" unfolding overflow_iff by linarith
  then have "uint (ff_time (fq_heap m flow) + a) = uint (ff_time (fq_heap m flow)) + uint a"
    using uint_add_lem [of "ff_time (fq_heap m flow)" a] by simp
  then show ?thesis using False
    by (intro exI [of _ 0]) (simp add: increment_sent_flow_def flow_time_def Let_def)
next
  case True
  let ?sub = "case fq_queued_tree m of [] \<Rightarrow> ff_time (fq_heap m flow) | g # _ \<Rightarrow> ff_time (fq_heap m g)"
  have le: "ff_time (fq_heap m flow) \<le> ?sub" using q by (cases "fq_queued_tree m") auto
  have min: "?sub \<le> ff_time (fq_heap m g)" if "g \<in> set (fq_queued_tree m)" for g
    using that s compare_flows_le by (cases "fq_queued_tree m") auto
  have o: "uint (ff_time (fq_heap m flow)) + uint a \<ge> 2 ^ 64" using True unfolding overflow_iff by simp
  show ?thesis
  proof (intro exI [of _ "uint ?sub"] conjI ballI impI)
    show "flow_time (increment_sent_flow m flow a) flow = flow_time m flow + uint a - uint ?sub"
      using True f d uint_sub_add [OF o le]
      by (simp add: increment_sent_flow_def flow_time_def Let_def fold_subtract_time sub_time_def)
    show "flow_time (increment_sent_flow m flow a) g = max 0 (flow_time m g - uint ?sub)"
      if "g \<in> set (fq_flows_list m)" "g \<noteq> flow" for g
      using True that d uint_sub_time [OF that(2), of ?sub]
      by (simp add: increment_sent_flow_def flow_time_def Let_def fold_subtract_time)
  qed (use min in \<open>simp_all add: flow_time_def word_le_def\<close>)
qed

section \<open>The invariant\<close>

definition fq_inv :: "PacketPassFairQueue \<Rightarrow> bool" where
  "fq_inv m \<longleftrightarrow> 0 \<le> fq_mtu m \<and> fq_mtu m \<le> INT_MAX \<and> 0 < fq_packet_weight m \<and> fq_packet_weight m \<le> INT_MAX
     \<and> distinct (fq_flows_list m) \<and> set (fq_queued_tree m) \<subseteq> set (fq_flows_list m)
     \<and> (\<forall>f\<in>set (fq_flows_list m). ff_is_queued (fq_heap m f) \<longleftrightarrow> f \<in> set (fq_queued_tree m))
     \<and> sorted_wrt (\<lambda>f g. compare_flows m f g < 0) (fq_queued_tree m)
     \<and> (\<forall>f\<in>set (fq_queued_tree m). 0 \<le> ff_data_len (fq_heap m f) \<and> ff_data_len (fq_heap m f) \<le> fq_mtu m)
     \<and> (\<forall>s. fq_sending_flow m = Some s \<longrightarrow> s \<in> set (fq_flows_list m) \<and> s \<notin> set (fq_queued_tree m)
          \<and> \<not> fq_schedule_job m \<and> fq_previous_flow m = None \<and> 0 \<le> fq_sending_len m \<and> fq_sending_len m \<le> fq_mtu m
          \<and> (\<forall>f\<in>set (fq_queued_tree m). ff_time (fq_heap m s) \<le> ff_time (fq_heap m f)))
     \<and> (\<forall>p. fq_previous_flow m = Some p \<longrightarrow> p \<in> set (fq_flows_list m) \<and> p \<notin> set (fq_queued_tree m) \<and> fq_schedule_job m)
     \<and> (\<not> fq_schedule_job m \<and> fq_sending_flow m = None \<longrightarrow> fq_queued_tree m = []) \<and> \<not> fq_freeing m"

text \<open>With an MTU and a weight of C integers the check for overflow always succeeds.\<close>

lemma fq_Init_Some:
  assumes "0 \<le> mtu" "mtu \<le> INT_MAX" "0 < w" "w \<le> INT_MAX"
  shows "PacketPassFairQueue_Init mtu c w heap = Some \<lparr>fq_mtu = mtu, fq_use_cancel = c, fq_packet_weight = w,
    fq_sending_flow = None, fq_sending_len = 0, fq_previous_flow = None, fq_queued_tree = [],
    fq_flows_list = [], fq_freeing = False, fq_schedule_job = False, fq_heap = heap\<rparr>"
proof -
  have u: "uint (word_of_int mtu :: u64) = mtu" "uint (word_of_int w :: u64) = w"
    using assms by (simp_all add: uint_word_of_int)
  have "\<not> (word_of_int w :: u64) > FAIRQUEUE_MAX_TIME - word_of_int mtu"
    unfolding overflow_iff using assms u by simp
  then show ?thesis by (simp add: PacketPassFairQueue_Init_def FAIRQUEUE_MAX_TIME_def not_less)
qed

lemma fq_inv_Init:
  assumes "PacketPassFairQueue_Init mtu c w heap = Some m" "0 \<le> mtu" "mtu \<le> INT_MAX" "0 < w" "w \<le> INT_MAX"
  shows "fq_inv m"
  using assms by (auto simp: PacketPassFairQueue_Init_def fq_inv_def split: if_splits)

text \<open>Scheduling needs the invariant without its last clause.\<close>

lemma schedule_inv:
  assumes "fq_inv (m\<lparr>fq_schedule_job := True\<rparr>)" "fq_queued_tree m \<noteq> []" "fq_sending_flow m = None"
    "fq_previous_flow m = None" "\<not> fq_schedule_job m"
  shows "fq_inv (fst (schedule m))"
proof -
  obtain f fs where q: "fq_queued_tree m = f # fs" using assms(2) by (cases "fq_queued_tree m") auto
  have s: "sorted_wrt (\<lambda>f g. compare_flows m f g < 0) (f # fs)"
    using assms(1) q sorted_flows_cong [of "f # fs" m "m\<lparr>fq_schedule_job := True\<rparr>"] by (simp add: fq_inv_def)
  then have nf: "f \<notin> set fs" using flow_cmp.cmp_refl [of f m] by auto
  have le: "\<forall>g\<in>set fs. ff_time (fq_heap m f) \<le> ff_time (fq_heap m g)"
    using s compare_flows_le by auto
  have s': "sorted_wrt (\<lambda>f g. compare_flows (fst (schedule m)) f g < 0) fs"
    using s nf sorted_flows_cong [of fs "fst (schedule m)" m] by (auto simp: schedule_def q Let_def)
  show ?thesis
    using assms q nf le s' unfolding fq_inv_def by (auto simp: schedule_def Let_def)
qed

lemma compare_flows_less:
  "compare_flows m f g < 0 \<longleftrightarrow> flow_time m f < flow_time m g \<or> flow_time m f = flow_time m g \<and> f < g"
  by (auto simp: compare_flows_def Let_def B_COMPARE_simps flow_time_def word_less_def word_uint_eq_iff split: if_splits)

lemma sorted_flows_distinct: "sorted_wrt (\<lambda>f g. compare_flows m f g < 0) t \<Longrightarrow> distinct t"
  by (induction t) (auto simp: compare_flows_less)

lemma sorted_flows_shift:
  "(\<And>f. f \<in> set t \<Longrightarrow> flow_time m' f = flow_time m f - d) \<Longrightarrow>
    sorted_wrt (\<lambda>f g. compare_flows m' f g < 0) t \<longleftrightarrow> sorted_wrt (\<lambda>f g. compare_flows m f g < 0) t"
  by (induction t) (auto simp: compare_flows_less)

lemma fq_invD:
  assumes "fq_inv m"
  shows "0 \<le> fq_mtu m" "fq_mtu m \<le> INT_MAX" "0 < fq_packet_weight m" "fq_packet_weight m \<le> INT_MAX"
    "distinct (fq_flows_list m)" "set (fq_queued_tree m) \<subseteq> set (fq_flows_list m)"
    "f \<in> set (fq_flows_list m) \<Longrightarrow> ff_is_queued (fq_heap m f) \<longleftrightarrow> f \<in> set (fq_queued_tree m)"
    "sorted_wrt (\<lambda>f g. compare_flows m f g < 0) (fq_queued_tree m)"
    "fq_sending_flow m = Some s \<Longrightarrow> s \<in> set (fq_flows_list m) \<and> s \<notin> set (fq_queued_tree m)
          \<and> \<not> fq_schedule_job m \<and> fq_previous_flow m = None \<and> 0 \<le> fq_sending_len m \<and> fq_sending_len m \<le> fq_mtu m
          \<and> (\<forall>f\<in>set (fq_queued_tree m). ff_time (fq_heap m s) \<le> ff_time (fq_heap m f))"
    "fq_previous_flow m = Some p \<Longrightarrow> p \<in> set (fq_flows_list m) \<and> p \<notin> set (fq_queued_tree m) \<and> fq_schedule_job m"
    "\<not> fq_schedule_job m \<Longrightarrow> fq_sending_flow m = None \<Longrightarrow> fq_queued_tree m = []"
  using assms by (simp_all add: fq_inv_def)

lemma inv_new:
  assumes "fq_inv m" "f \<notin> set (fq_flows_list m)"
  shows "fq_inv (fst (PacketPassFairQueueFlow_Init f m))"
proof -
  let ?m = "fst (PacketPassFairQueueFlow_Init f m)"
  have "ff_time (fq_heap ?m g) = ff_time (fq_heap m g)" if "g \<in> set (fq_queued_tree m)" for g
    using that fq_invD(6) [OF assms(1)] assms(2) by (auto simp: PacketPassFairQueueFlow_Init_def)
  then have "sorted_wrt (\<lambda>f g. compare_flows ?m f g < 0) (fq_queued_tree m)"
    using sorted_flows_cong [of "fq_queued_tree m" ?m m] fq_invD(8) [OF assms(1)] by simp
  then show ?thesis
    using assms unfolding fq_inv_def by (auto simp: PacketPassFairQueueFlow_Init_def)
qed

lemma inv_gone:
  assumes "fq_inv m" "f \<in> set (fq_flows_list m)" "fq_sending_flow m \<noteq> Some f"
  shows "fq_inv (fst (PacketPassFairQueueFlow_Free f m))"
proof -
  have q: "distinct (fq_queued_tree m)"
    by (rule sorted_flows_distinct [OF fq_invD(8) [OF assms(1)]])
  let ?m = "fst (PacketPassFairQueueFlow_Free f m)"
  have h: "fq_heap ?m = fq_heap m" by (simp add: PacketPassFairQueueFlow_Free_def Let_def)
  have t: "fq_queued_tree ?m = removeAll f (fq_queued_tree m)"
    using fq_invD(7) [OF assms(1,2)] q
    by (simp add: PacketPassFairQueueFlow_Free_def Let_def distinct_remove1_removeAll)
  have "sorted_wrt (\<lambda>f g. compare_flows ?m f g < 0) (fq_queued_tree ?m)"
    using sorted_flows_cong [of "fq_queued_tree ?m" ?m m] fq_invD(8) [OF assms(1)] h
    by (simp add: t removeAll_filter_not_eq sorted_wrt_filter)
  moreover have "fq_flows_list ?m = removeAll f (fq_flows_list m)"
    "fq_sending_flow ?m = fq_sending_flow m" "fq_schedule_job ?m = fq_schedule_job m" "fq_sending_len ?m = fq_sending_len m"
    "fq_previous_flow ?m = (if fq_previous_flow m = Some f then None else fq_previous_flow m)"
    "fq_mtu ?m = fq_mtu m" "fq_packet_weight ?m = fq_packet_weight m" "fq_freeing ?m = fq_freeing m"
    using assms(3) fq_invD(5) [OF assms(1)]
    by (simp_all add: PacketPassFairQueueFlow_Free_def Let_def distinct_remove1_removeAll)
  ultimately show ?thesis
    using assms h t unfolding fq_inv_def by (auto simp: distinct_removeAll)
qed

lemma inv_busy:
  assumes "fq_inv m"
  shows "fq_inv (PacketPassFairQueueFlow_SetBusyHandler f h m)"
proof -
  let ?m = "PacketPassFairQueueFlow_SetBusyHandler f h m"
  have "sorted_wrt (\<lambda>f g. compare_flows ?m f g < 0) (fq_queued_tree m)"
    using sorted_flows_cong [of "fq_queued_tree m" ?m m] fq_invD(8) [OF assms]
    by (simp add: PacketPassFairQueueFlow_SetBusyHandler_def)
  then show ?thesis
    using assms unfolding fq_inv_def by (auto simp: PacketPassFairQueueFlow_SetBusyHandler_def)
qed

lemma inv_job:
  assumes "fq_inv m" "fq_schedule_job m"
  shows "fq_inv (fst (schedule_job_handler (m\<lparr>fq_schedule_job := False\<rparr>)))"
proof (cases "fq_queued_tree m = []")
  case True
  then show ?thesis using assms by (auto simp: schedule_job_handler_def fq_inv_def)
next
  case False
  let ?m = "m\<lparr>fq_schedule_job := False, fq_previous_flow := None\<rparr>"
  have "sorted_wrt (\<lambda>f g. compare_flows (?m\<lparr>fq_schedule_job := True\<rparr>) f g < 0) (fq_queued_tree m)"
    using sorted_flows_cong [of "fq_queued_tree m" "?m\<lparr>fq_schedule_job := True\<rparr>" m] fq_invD(8) [OF assms(1)] by simp
  then have "fq_inv (?m\<lparr>fq_schedule_job := True\<rparr>)"
    using assms unfolding fq_inv_def by auto
  moreover have "fq_sending_flow ?m = None" using fq_invD(9) [OF assms(1)] assms(2) by (cases "fq_sending_flow m") auto
  ultimately show ?thesis using schedule_inv [of ?m] False by (simp add: schedule_job_handler_def Let_def)
qed

text \<open>A packet is queued: the flow waits at a time no earlier than that of the flow being sent.\<close>

lemma inv_send:
  assumes inv: "fq_inv m" and f: "f \<in> set (fq_flows_list m)" "fq_sending_flow m \<noteq> Some f" "\<not> ff_is_queued (fq_heap m f)"
    and n: "0 \<le> n" "n \<le> fq_mtu m"
  shows "fq_inv (fst (fq_input_handler_send m f data n))"
proof -
  define t where "t = (if fq_previous_flow m = Some f then ff_time (fq_heap m f)
    else bmax_uint64 (ff_time (fq_heap m f)) (get_current_time m))"
  define h where "h = (fq_heap m)(f := (fq_heap m f)\<lparr>ff_time := t, ff_data := data, ff_data_len := n\<rparr>)"
  let ?m = "if fq_previous_flow m = Some f then m\<lparr>fq_previous_flow := None\<rparr> else m"
  let ?q = "fq_tree_insert (m\<lparr>fq_heap := h\<rparr>) f (fq_queued_tree m)"
  define m1 where "m1 = ?m\<lparr>fq_queued_tree := ?q,
    fq_heap := h(f := (h f)\<lparr>ff_is_queued := True\<rparr>)\<rparr>"
  have ins: "fq_tree_insert (m\<lparr>fq_previous_flow := None, fq_heap := h\<rparr>) f q = fq_tree_insert (m\<lparr>fq_heap := h\<rparr>) f q" for q
    by (induction q) (simp_all add: compare_flows_def)
  have r: "fq_input_handler_send m f data n =
      (if fq_sending_flow m = None \<and> \<not> fq_schedule_job m then schedule m1 else (m1, []))"
    using ins by (cases "fq_previous_flow m = Some f") (simp_all add: fq_input_handler_send_def fq_enqueue_def fq_queue_data_def m1_def h_def t_def Let_def)
  have nf: "f \<notin> set (fq_queued_tree m)" using fq_invD(7) [OF inv f(1)] f(3) by simp
  then have sq: "set ?q = insert f (set (fq_queued_tree m))" by (simp add: set_fq_tree_insert)
  have "ff_time (h g) = ff_time (fq_heap m g)" if "g \<in> set (fq_queued_tree m)" for g
    using nf that by (auto simp: h_def)
  then have "sorted_wrt (\<lambda>f g. compare_flows (m\<lparr>fq_heap := h\<rparr>) f g < 0) (fq_queued_tree m)"
    using sorted_flows_cong [of "fq_queued_tree m" "m\<lparr>fq_heap := h\<rparr>" m] fq_invD(8) [OF inv] by simp
  then have s: "sorted_wrt (\<lambda>f g. compare_flows m1 f g < 0) ?q"
    using sorted_flows_cong [of ?q m1 "m\<lparr>fq_heap := h\<rparr>"] fq_tree_insert_sorted [OF _ nf] by (simp add: m1_def)
  have cur: "ff_time (fq_heap m s) \<le> t" if "fq_sending_flow m = Some s" for s
    using that fq_invD(9) [OF inv that] by (auto simp: t_def get_current_time_def bmax_uint64_def)
  have i1: "fq_inv m1" if "fq_schedule_job m \<or> fq_sending_flow m \<noteq> None"
    using inv f n s sq cur that unfolding fq_inv_def by (auto simp: m1_def h_def)
  show ?thesis
  proof (cases "fq_sending_flow m = None \<and> \<not> fq_schedule_job m")
    case True
    have pn: "fq_previous_flow m = None" using fq_invD(10) [OF inv] True by (cases "fq_previous_flow m") auto
    have "sorted_wrt (\<lambda>f g. compare_flows (m1\<lparr>fq_schedule_job := True\<rparr>) f g < 0) ?q"
      using sorted_flows_cong [of ?q "m1\<lparr>fq_schedule_job := True\<rparr>" m1] s by simp
    then have "fq_inv (m1\<lparr>fq_schedule_job := True\<rparr>)"
      using inv f n sq pn True unfolding fq_inv_def by (auto simp: m1_def h_def)
    moreover have "fq_queued_tree m1 \<noteq> []" using sq by (auto simp: m1_def)
    ultimately show ?thesis using schedule_inv [of m1] True pn r by (simp add: m1_def)
  qed (use i1 r in auto)
qed

lemma uint_amount:
  assumes "fq_inv m" "fq_sending_flow m = Some f"
  shows "uint (word_of_int (fq_packet_weight m) + word_of_int (fq_sending_len m) :: u64)
    = fq_packet_weight m + fq_sending_len m"
proof -
  have "0 \<le> fq_packet_weight m + fq_sending_len m" "fq_packet_weight m + fq_sending_len m < 2 ^ 64"
    using fq_invD(2-4) [OF assms(1)] fq_invD(9) [OF assms] by simp_all
  then show ?thesis by (simp add: uint_word_of_int flip: of_int_add)
qed

text \<open>A packet is finished.\<close>

lemma done_result:
  assumes inv: "fq_inv m" and f: "fq_sending_flow m = Some f"
  defines "m2 \<equiv> fst (fq_output_handler_done m)"
  shows "fq_sending_flow m2 = None" "fq_previous_flow m2 = Some f" "fq_schedule_job m2"
    "fq_queued_tree m2 = fq_queued_tree m" "fq_flows_list m2 = fq_flows_list m" "fq_mtu m2 = fq_mtu m"
    "fq_packet_weight m2 = fq_packet_weight m"
    "ff_is_queued (fq_heap m2 g) = ff_is_queued (fq_heap m g)" "ff_data_len (fq_heap m2 g) = ff_data_len (fq_heap m g)"
    "ff_data (fq_heap m2 g) = ff_data (fq_heap m g) \<and> fq_freeing m2 = fq_freeing m"
    and "\<exists>d. 0 \<le> d \<and> flow_time m2 f = flow_time m f + (fq_packet_weight m + fq_sending_len m) - d
      \<and> (\<forall>g\<in>set (fq_flows_list m). g \<noteq> f \<longrightarrow> flow_time m2 g = max 0 (flow_time m g - d))
      \<and> (\<forall>g\<in>set (fq_queued_tree m). d \<le> flow_time m g)"
proof -
  define m1 where "m1 = m\<lparr>fq_sending_flow := None, fq_previous_flow := Some f\<rparr>"
  define a :: u64 where "a = word_of_int (fq_packet_weight m) + word_of_int (fq_sending_len m)"
  define m' where "m' = increment_sent_flow m1 f a"
  note s = fq_invD(9) [OF inv f]
  have d: "distinct (fq_flows_list m1)" using fq_invD(5) [OF inv] by (simp add: m1_def)
  have fr: "m' = m1\<lparr>fq_heap := fq_heap m'\<rparr>" "fq_heap m' g = (fq_heap m1 g)\<lparr>ff_time := ff_time (fq_heap m' g)\<rparr>" for g
    unfolding m'_def by (rule increment_frame [OF d])+
  have fields: "fq_sending_flow m' = None" "fq_previous_flow m' = Some f" "fq_queued_tree m' = fq_queued_tree m"
    "fq_flows_list m' = fq_flows_list m" "fq_mtu m' = fq_mtu m" "fq_packet_weight m' = fq_packet_weight m"
    "fq_freeing m' = fq_freeing m"
    by (subst fr(1), simp add: m1_def)+
  have heap: "ff_is_queued (fq_heap m' g) = ff_is_queued (fq_heap m g)" "ff_data_len (fq_heap m' g) = ff_data_len (fq_heap m g)"
    "ff_data (fq_heap m' g) = ff_data (fq_heap m g)" for g by (subst fr(2), simp add: m1_def)+
  have r: "fq_output_handler_done m = (case ff_handler_busy (fq_heap m' f) of
      None \<Rightarrow> (m'\<lparr>fq_schedule_job := True\<rparr>, [FQ_Input_Done f])
    | Some u \<Rightarrow> (m'\<lparr>fq_schedule_job := True, fq_heap := (fq_heap m')(f := (fq_heap m' f)\<lparr>ff_handler_busy := None\<rparr>)\<rparr>,
        [FQ_Input_Done f, FQ_Busy_Handler u]))"
    by (simp add: fq_output_handler_done_def f Let_def m'_def m1_def a_def split: option.splits)
  show "fq_sending_flow m2 = None" "fq_previous_flow m2 = Some f" "fq_schedule_job m2"
    "fq_queued_tree m2 = fq_queued_tree m" "fq_flows_list m2 = fq_flows_list m" "fq_mtu m2 = fq_mtu m"
    "fq_packet_weight m2 = fq_packet_weight m"
    "ff_is_queued (fq_heap m2 g) = ff_is_queued (fq_heap m g)" "ff_data_len (fq_heap m2 g) = ff_data_len (fq_heap m g)"
    "ff_data (fq_heap m2 g) = ff_data (fq_heap m g) \<and> fq_freeing m2 = fq_freeing m"
    using fields heap by (simp_all add: m2_def r split: option.split)
  have t: "flow_time m2 g = flow_time m' g" for g
    by (simp add: m2_def r flow_time_def split: option.split)
  have "\<exists>d. 0 \<le> d \<and> flow_time m' f = flow_time m1 f + uint a - d
    \<and> (\<forall>g\<in>set (fq_flows_list m1). g \<noteq> f \<longrightarrow> flow_time m' g = max 0 (flow_time m1 g - d))
    \<and> (\<forall>g\<in>set (fq_queued_tree m1). d \<le> flow_time m1 g)"
    unfolding m'_def
  proof (rule increment_time [OF d])
    show "sorted_wrt (\<lambda>f g. compare_flows m1 f g < 0) (fq_queued_tree m1)"
      using sorted_flows_cong [of "fq_queued_tree m" m1 m] fq_invD(8) [OF inv] by (simp add: m1_def)
  qed (use s in \<open>auto simp: m1_def\<close>)
  moreover have "flow_time m1 g = flow_time m g" for g by (simp add: m1_def flow_time_def)
  ultimately show "\<exists>d. 0 \<le> d \<and> flow_time m2 f = flow_time m f + (fq_packet_weight m + fq_sending_len m) - d
      \<and> (\<forall>g\<in>set (fq_flows_list m). g \<noteq> f \<longrightarrow> flow_time m2 g = max 0 (flow_time m g - d))
      \<and> (\<forall>g\<in>set (fq_queued_tree m). d \<le> flow_time m g)"
    using uint_amount [OF inv f] by (simp add: t m1_def a_def)
qed

lemma inv_done:
  assumes inv: "fq_inv m" and f: "fq_sending_flow m = Some f"
  shows "fq_inv (fst (fq_output_handler_done m))"
proof -
  let ?m = "fst (fq_output_handler_done m)"
  note s = fq_invD(9) [OF inv f]
  obtain d where d: "\<forall>g\<in>set (fq_flows_list m). g \<noteq> f \<longrightarrow> flow_time ?m g = max 0 (flow_time m g - d)"
    "\<forall>g\<in>set (fq_queued_tree m). d \<le> flow_time m g"
    using done_result(11) [OF inv f] by blast
  have "flow_time ?m g = flow_time m g - d" if "g \<in> set (fq_queued_tree m)" for g
    using that d s fq_invD(6) [OF inv] by fastforce
  then have "sorted_wrt (\<lambda>f g. compare_flows ?m f g < 0) (fq_queued_tree m)"
    using sorted_flows_shift [of "fq_queued_tree m" ?m m d] fq_invD(8) [OF inv] by simp
  then show ?thesis
    using inv s done_result(1-10) [OF inv f] unfolding fq_inv_def by simp
qed

text \<open>The packets around the queue are those it has recorded.\<close>

definition fq_holds :: "PacketPassFairQueue \<Rightarrow> (ptr \<times> int) option \<Rightarrow> (nat \<Rightarrow> (ptr \<times> int) option) \<Rightarrow> bool" where
  "fq_holds m out inp \<longleftrightarrow>
     (\<forall>f. inp f = (if f \<in> set (fq_queued_tree m) then Some (ff_data (fq_heap m f), ff_data_len (fq_heap m f))
                   else if fq_sending_flow m = Some f then out else None))
     \<and> (case fq_sending_flow m of None \<Rightarrow> out = None | Some _ \<Rightarrow> \<exists>d. out = Some (d, fq_sending_len m))"

definition fs_inv :: "fq_sys \<Rightarrow> bool" where
  "fs_inv s \<longleftrightarrow> fq_inv (fs_queue s) \<and> fq_holds (fs_queue s) (fs_output s) (fs_input s)"

lemma fs_invD:
  assumes "fs_inv s"
  shows "fq_inv (fs_queue s)" "fq_holds (fs_queue s) (fs_output s) (fs_input s)"
    "fs_output s = Some p \<Longrightarrow> \<exists>f. fq_sending_flow (fs_queue s) = Some f \<and> fs_input s f = Some p \<and> snd p = fq_sending_len (fs_queue s)"
    "fq_sending_flow (fs_queue s) = Some f \<Longrightarrow> \<exists>p. fs_output s = Some p"
    "fs_input s f = None \<Longrightarrow> f \<notin> set (fq_queued_tree (fs_queue s)) \<and> fq_sending_flow (fs_queue s) \<noteq> Some f"
    "f \<in> set (fq_queued_tree (fs_queue s)) \<Longrightarrow>
      fs_input s f = Some (ff_data (fq_heap (fs_queue s) f), ff_data_len (fq_heap (fs_queue s) f))"
    "fs_input s f \<noteq> None \<Longrightarrow> f \<in> set (fq_queued_tree (fs_queue s)) \<or> fq_sending_flow (fs_queue s) = Some f"
proof -
  show i: "fq_inv (fs_queue s)" and h: "fq_holds (fs_queue s) (fs_output s) (fs_input s)"
    using assms by (simp_all add: fs_inv_def)
  show "\<exists>f. fq_sending_flow (fs_queue s) = Some f \<and> fs_input s f = Some p \<and> snd p = fq_sending_len (fs_queue s)"
    if "fs_output s = Some p"
  proof (cases "fq_sending_flow (fs_queue s)")
    case None
    with h that show ?thesis by (simp add: fq_holds_def)
  next
    case (Some g)
    then have "g \<notin> set (fq_queued_tree (fs_queue s))" using fq_invD(9) [OF i] by blast
    with h that Some show ?thesis by (auto simp: fq_holds_def)
  qed
  show "\<exists>p. fs_output s = Some p" if "fq_sending_flow (fs_queue s) = Some f"
    using h that by (auto simp: fq_holds_def)
  show "f \<notin> set (fq_queued_tree (fs_queue s)) \<and> fq_sending_flow (fs_queue s) \<noteq> Some f" if "fs_input s f = None"
  proof -
    have "fs_input s f = (if f \<in> set (fq_queued_tree (fs_queue s))
        then Some (ff_data (fq_heap (fs_queue s) f), ff_data_len (fq_heap (fs_queue s) f))
        else if fq_sending_flow (fs_queue s) = Some f then fs_output s else None)"
      using h by (simp add: fq_holds_def)
    moreover have "fs_output s \<noteq> None" if "fq_sending_flow (fs_queue s) = Some f"
      using h that by (auto simp: fq_holds_def)
    ultimately show ?thesis using that by (auto split: if_splits)
  qed
  show "fs_input s f = Some (ff_data (fq_heap (fs_queue s) f), ff_data_len (fq_heap (fs_queue s) f))"
    if "f \<in> set (fq_queued_tree (fs_queue s))"
    using h that by (simp add: fq_holds_def)
  show "f \<in> set (fq_queued_tree (fs_queue s)) \<or> fq_sending_flow (fs_queue s) = Some f" if "fs_input s f \<noteq> None"
    using h that by (auto simp: fq_holds_def split: if_splits)
qed

lemma schedule_holds:
  assumes "fq_holds m None inp" "fq_sending_flow m = None" "fq_queued_tree m = f # fs" "f \<notin> set fs"
  shows "fq_holds (fst (schedule m)) (Some (ff_data (fq_heap m f), ff_data_len (fq_heap m f))) inp"
  using assms by (auto simp: fq_holds_def schedule_def Let_def)

lemma schedule_calls:
  "fq_queued_tree m = f # fs \<Longrightarrow> snd (schedule m) = [FQ_Output_Send (ff_data (fq_heap m f)) (ff_data_len (fq_heap m f))]"
  by (simp add: schedule_def Let_def)

lemma enqueue_fields:
  assumes "f \<notin> set (fq_queued_tree m)"
  shows "set (fq_queued_tree (fq_enqueue m f data n)) = insert f (set (fq_queued_tree m))"
    "fq_sending_flow (fq_enqueue m f data n) = fq_sending_flow m"
    "fq_sending_len (fq_enqueue m f data n) = fq_sending_len m"
    "fq_schedule_job (fq_enqueue m f data n) = fq_schedule_job m" "fq_freeing (fq_enqueue m f data n) = fq_freeing m"
    "fq_previous_flow (fq_enqueue m f data n) = (if fq_previous_flow m = Some f then None else fq_previous_flow m)"
    "ff_data (fq_heap (fq_enqueue m f data n) g) = (if g = f then data else ff_data (fq_heap m g))"
    "ff_data_len (fq_heap (fq_enqueue m f data n) g) = (if g = f then n else ff_data_len (fq_heap m g))"
    "ff_is_queued (fq_heap (fq_enqueue m f data n) g) = (g = f \<or> ff_is_queued (fq_heap m g))"
    "fq_queued_tree m = [] \<Longrightarrow> fq_queued_tree (fq_enqueue m f data n) = [f]"
  using assms by (simp_all add: fq_enqueue_def fq_queue_data_def Let_def set_fq_tree_insert)

lemma fq_step_inv:
  assumes "fq_step s ev s'" "fs_inv s"
  shows "fs_inv s'"
  using assms(1)
proof (cases rule: fq_step.cases)
  case (fq_new f)
  have "f \<notin> set (fq_queued_tree (fs_queue s))" "fq_sending_flow (fs_queue s) \<noteq> Some f"
    using fq_new(3) fq_invD(6,9) [OF fs_invD(1) [OF assms(2)]] by auto
  then have "fq_holds (fst (PacketPassFairQueueFlow_Init f (fs_queue s))) (fs_output s) (fs_input s)"
    using fs_invD(2) [OF assms(2)] by (auto simp: fq_holds_def PacketPassFairQueueFlow_Init_def split: option.splits)
  moreover have "s' = s\<lparr>fs_queue := fst (PacketPassFairQueueFlow_Init f (fs_queue s))\<rparr>"
    by (simp add: fq_new fq_apply_def PacketPassFairQueueFlow_Init_def)
  ultimately show ?thesis using inv_new [OF fs_invD(1) [OF assms(2)] fq_new(3)] by (simp add: fs_inv_def)
next
  case (fq_gone f)
  let ?m = "fs_queue s"
  note i = fs_invD(1) [OF assms(2)]
  have ns: "fq_sending_flow ?m \<noteq> Some f" using fq_gone(4) by (simp add: PacketPassFairQueueFlow_IsBusy_def)
  have "fq_queued_tree (fst (PacketPassFairQueueFlow_Free f ?m)) = removeAll f (fq_queued_tree ?m)"
    "fq_sending_flow (fst (PacketPassFairQueueFlow_Free f ?m)) = fq_sending_flow ?m"
    "fq_sending_len (fst (PacketPassFairQueueFlow_Free f ?m)) = fq_sending_len ?m"
    "fq_heap (fst (PacketPassFairQueueFlow_Free f ?m)) = fq_heap ?m"
    using fq_invD(7) [OF i fq_gone(3)] sorted_flows_distinct [OF fq_invD(8) [OF i]] ns
    by (simp_all add: PacketPassFairQueueFlow_Free_def Let_def distinct_remove1_removeAll)
  then have "fq_holds (fst (PacketPassFairQueueFlow_Free f ?m)) (fs_output s) ((fs_input s)(f := None))"
    using fs_invD(2) [OF assms(2)] ns by (cases "fq_sending_flow ?m") (auto simp: fq_holds_def)
  moreover have "s' = s\<lparr>fs_queue := fst (PacketPassFairQueueFlow_Free f ?m), fs_input := (fs_input s)(f := None)\<rparr>"
    by (simp add: fq_gone fq_apply_def PacketPassFairQueueFlow_Free_def Let_def)
  ultimately show ?thesis using inv_gone [OF i fq_gone(3) ns] by (simp add: fs_inv_def)
next
  case (fq_send f n data)
  let ?m = "fs_queue s" and ?m1 = "fq_enqueue (fs_queue s) f data n" and ?inp = "(fs_input s)(f \<mapsto> (data, n))"
  note i = fs_invD(1) [OF assms(2)]
  note nf = fs_invD(5) [OF assms(2) fq_send(4)]
  have nq: "\<not> ff_is_queued (fq_heap ?m f)" using fq_invD(7) [OF i fq_send(3)] nf by simp
  have n: "n \<le> fq_mtu ?m" using fq_send(6) by (simp add: PacketPassFairQueue_GetMTU_def)
  note e = enqueue_fields [OF conjunct1 [OF nf], of data n]
  have h1: "fq_holds ?m1 (fs_output s) ?inp"
    using fs_invD(2) [OF assms(2)] nf e(1-3,7,8) by (cases "fq_sending_flow ?m") (auto simp: fq_holds_def)
  have q: "fq_inv (fst (fq_input_handler_send ?m f data n))"
    by (rule inv_send [OF i fq_send(3) conjunct2 [OF nf] nq fq_send(5) n])
  show ?thesis
  proof (cases "fq_sending_flow ?m = None \<and> \<not> fq_schedule_job ?m")
    case True
    then have "fq_queued_tree ?m = []" using fq_invD(11) [OF i] by blast
    then have t: "fq_queued_tree ?m1 = [f]" by (rule e(10))
    have "fs_output s = None" using fs_invD(3) [OF assms(2)] True by (cases "fs_output s") auto
    then have "fq_holds (fst (schedule ?m1)) (Some (data, n)) ?inp"
      using schedule_holds [of ?m1 ?inp f "[]"] h1 t True e(2,7,8) by simp
    moreover have "s' = s\<lparr>fs_queue := fst (schedule ?m1), fs_output := Some (data, n), fs_input := ?inp\<rparr>"
      using True e(2,4,7,8) by (simp add: fq_send fq_apply_def fq_input_handler_send_def schedule_calls [OF t])
    moreover have "fq_input_handler_send ?m f data n = schedule ?m1"
      using True e(2,4) by (simp add: fq_input_handler_send_def)
    ultimately show ?thesis using q by (simp add: fs_inv_def)
  next
    case False
    then have r: "fq_input_handler_send ?m f data n = (?m1, [])" using e(2,4) by (auto simp: fq_input_handler_send_def Let_def)
    then have "s' = s\<lparr>fs_queue := ?m1, fs_input := ?inp\<rparr>" by (simp add: fq_send fq_apply_def)
    with h1 q r show ?thesis by (simp add: fs_inv_def)
  qed
next
  case (fq_done data n m' calls f)
  note i = fs_invD(1) [OF assms(2)]
  obtain g where g: "fq_sending_flow (fs_queue s) = Some g" using fs_invD(3) [OF assms(2) fq_done(3)] by blast
  note nq = conjunct1 [OF conjunct2 [OF fq_invD(9) [OF i g]]]
  have m': "m' = fst (fq_output_handler_done (fs_queue s))" by (simp add: fq_done(4))
  have c: "calls = snd (fq_output_handler_done (fs_queue s))" by (simp add: fq_done(4))
  have calls: "calls = [FQ_Input_Done g] \<or> (\<exists>u. calls = [FQ_Input_Done g, FQ_Busy_Handler u])"
    by (simp add: c fq_output_handler_done_def g Let_def split: option.split)
  have "fq_holds m' None ((fs_input s)(g := None))"
    using fs_invD(2) [OF assms(2)] done_result(1,4,9,10) [OF i g] nq g by (auto simp: fq_holds_def m')
  moreover have "s' = s\<lparr>fs_queue := m', fs_output := None, fs_input := (fs_input s)(g := None)\<rparr>"
    using calls by (auto simp: fq_done fq_apply_def)
  ultimately show ?thesis using inv_done [OF i g] by (simp add: fs_inv_def m')
next
  case fq_job
  let ?m = "fs_queue s" and ?m1 = "(fs_queue s)\<lparr>fq_schedule_job := False, fq_previous_flow := None\<rparr>"
  note i = fs_invD(1) [OF assms(2)]
  have ns: "fq_sending_flow ?m = None" using fq_invD(9) [OF i] fq_job(3) by (cases "fq_sending_flow ?m") auto
  then have no: "fs_output s = None" using fs_invD(3) [OF assms(2)] by (cases "fs_output s") auto
  have h: "fq_holds ?m1 None (fs_input s)" using fs_invD(2) [OF assms(2)] ns no by (simp add: fq_holds_def)
  note q = inv_job [OF i fq_job(3)]
  show ?thesis
  proof (cases "fq_queued_tree ?m")
    case Nil
    then have "s' = s\<lparr>fs_queue := ?m1\<rparr>" by (simp add: fq_job fq_apply_def schedule_job_handler_def)
    with h q Nil no show ?thesis by (simp add: fs_inv_def schedule_job_handler_def)
  next
    case (Cons f fs)
    then have t: "fq_queued_tree ?m1 = f # fs" by simp
    have nf: "f \<notin> set fs" using sorted_flows_distinct [OF fq_invD(8) [OF i]] Cons by simp
    have r: "schedule_job_handler (?m\<lparr>fq_schedule_job := False\<rparr>) = schedule ?m1"
      using Cons by (simp add: schedule_job_handler_def Let_def)
    have "s' = s\<lparr>fs_queue := fst (schedule ?m1),
        fs_output := Some (ff_data (fq_heap ?m1 f), ff_data_len (fq_heap ?m1 f))\<rparr>"
      by (simp add: fq_job(2) fq_apply_def r schedule_calls [OF t])
    with schedule_holds [OF h _ t nf] ns q r show ?thesis by (simp add: fs_inv_def)
  qed
next
  case (fq_busy f h)
  have "fq_holds (PacketPassFairQueueFlow_SetBusyHandler f h (fs_queue s)) (fs_output s) (fs_input s)"
    using fs_invD(2) [OF assms(2)]
    by (cases "fq_sending_flow (fs_queue s)") (auto simp: fq_holds_def PacketPassFairQueueFlow_SetBusyHandler_def)
  then show ?thesis using inv_busy [OF fs_invD(1) [OF assms(2)]] by (simp add: fq_busy fq_apply_def fs_inv_def)
qed

lemma fq_run_inv: "fq_run P s evs s' \<Longrightarrow> fs_inv s \<Longrightarrow> fs_inv s'"
  by (induction rule: fq_run.induct) (auto intro: fq_step_inv)

lemma fs_inv_start:
  assumes "PacketPassFairQueue_Init mtu c w heap = Some m" "0 \<le> mtu" "mtu \<le> INT_MAX" "0 < w" "w \<le> INT_MAX"
  shows "fs_inv (fq_start m)"
  using fq_inv_Init [OF assms] assms(1)
  by (auto simp: fs_inv_def fq_start_def fq_holds_def PacketPassFairQueue_Init_def split: if_splits)

section \<open>Fairness\<close>

text \<open>What a step does to the queue itself.\<close>

lemma fq_apply_queue [simp]: "fs_queue (fq_apply s r) = fst r"
proof -
  have "fs_queue (fold fq_effect cs t) = fs_queue t" for cs t
  proof (induction cs arbitrary: t)
    case (Cons c cs)
    then show ?case by (cases c) simp_all
  qed simp
  then show ?thesis by (simp add: fq_apply_def)
qed

lemma fq_step_config:
  assumes "fq_step s ev s'" "fs_inv s"
  shows "fq_packet_weight (fs_queue s') = fq_packet_weight (fs_queue s) \<and> fq_mtu (fs_queue s') = fq_mtu (fs_queue s)"
  using assms(1)
proof (cases rule: fq_step.cases)
  case (fq_done data n m' calls f)
  then obtain g where "fq_sending_flow (fs_queue s) = Some g" using fs_invD(3) [OF assms(2)] by blast
  from done_result(6,7) [OF fs_invD(1) [OF assms(2)] this] fq_done show ?thesis by simp
qed (auto simp: PacketPassFairQueueFlow_Init_def PacketPassFairQueueFlow_Free_def fq_input_handler_send_def fq_enqueue_def
    fq_queue_data_def schedule_job_handler_def schedule_def PacketPassFairQueueFlow_SetBusyHandler_def Let_def)

lemma backlogged_flow:
  assumes "fs_inv s" "backlogged f s"
  shows "f \<in> set (fq_queued_tree (fs_queue s)) \<or> fq_sending_flow (fs_queue s) = Some f
    \<or> fq_previous_flow (fs_queue s) = Some f" "f \<in> set (fq_flows_list (fs_queue s))"
proof -
  show "f \<in> set (fq_queued_tree (fs_queue s)) \<or> fq_sending_flow (fs_queue s) = Some f
    \<or> fq_previous_flow (fs_queue s) = Some f"
    using assms(2) fs_invD(7) [OF assms(1), of f] by (auto simp: backlogged_def)
  then show "f \<in> set (fq_flows_list (fs_queue s))"
    using fq_invD(6,9,10) [OF fs_invD(1) [OF assms(1)]] by auto
qed

text \<open>Only finished packets change the time of a flow that stays backlogged.\<close>

lemma fq_step_keeps_time:
  assumes "fq_step s ev s'" "fs_inv s" "\<forall>x n. ev \<noteq> FQ_Done x n" "backlogged f s" "backlogged f s'"
  shows "flow_time (fs_queue s') f = flow_time (fs_queue s) f"
  using assms(1)
proof (cases rule: fq_step.cases)
  case (fq_new g)
  with backlogged_flow(2) [OF assms(2,4)] show ?thesis
    by (auto simp: PacketPassFairQueueFlow_Init_def flow_time_def)
next
  case (fq_send g n data)
  then have "g = f \<longrightarrow> fq_previous_flow (fs_queue s) = Some f" using assms(4) by (auto simp: backlogged_def)
  with fq_send show ?thesis
    by (auto simp: fq_input_handler_send_def fq_enqueue_def fq_queue_data_def schedule_def flow_time_def Let_def)
qed (use assms(3) in \<open>auto simp: PacketPassFairQueueFlow_Free_def schedule_job_handler_def schedule_def
      PacketPassFairQueueFlow_SetBusyHandler_def flow_time_def Let_def\<close>)

lemma fq_step_fair:
  assumes step: "fq_step s ev s'" and inv: "fs_inv s" and fg: "f \<noteq> g"
    and b: "backlogged f s" "backlogged g s" "backlogged f s'" "backlogged g s'"
  defines "m \<equiv> fs_queue s" and "m' \<equiv> fs_queue s'"
  shows "flow_time m' f - flow_time m' g = flow_time m f - flow_time m g
      + ev_service (fq_packet_weight m) f ev - ev_service (fq_packet_weight m) g ev
    \<and> flow_time m' f - flow_time m' g \<le> max (flow_time m f - flow_time m g) (fq_packet_weight m + fq_mtu m)"
proof (cases "\<exists>h n. ev = FQ_Done h n")
  case False
  then have "ev_service w x ev = 0" for w x by (cases ev) auto
  with False show ?thesis
    using fq_step_keeps_time [OF step inv] b by (simp add: m_def m'_def)
next
  case True
  then obtain j n where ev: "ev = FQ_Done j n" by blast
  with step obtain data m1 calls where out: "fs_output s = Some (data, n)"
    and r: "fq_output_handler_done m = (m1, calls)" "FQ_Input_Done j \<in> set calls" "m' = m1"
    by (auto simp: m_def m'_def elim: fq_stepE)
  note qi = fs_invD(1) [OF inv, folded m_def]
  obtain h where h: "fq_sending_flow m = Some h" "n = fq_sending_len m"
    using fs_invD(3) [OF inv out] by (auto simp: m_def)
  have m': "m' = fst (fq_output_handler_done m)" using r by simp
  have "j = h" using r(2) h(1) r(1) by (auto simp: fq_output_handler_done_def Let_def split: option.splits)
  note s = fq_invD(9) [OF qi h(1)]
  have le: "flow_time m h \<le> flow_time m x" if "x \<in> set (fq_queued_tree m)" for x
    using s that by (simp add: flow_time_def word_le_def)
  have q: "x \<in> set (fq_queued_tree m) \<or> x = h" if "backlogged x s" for x
    using backlogged_flow(1) [OF inv that] s h(1) by (auto simp: m_def)
  obtain d where d: "flow_time m' h = flow_time m h + (fq_packet_weight m + n) - d"
    "\<forall>x\<in>set (fq_flows_list m). x \<noteq> h \<longrightarrow> flow_time m' x = max 0 (flow_time m x - d)"
    "\<forall>x\<in>set (fq_queued_tree m). d \<le> flow_time m x"
    using done_result(11) [OF qi h(1)] h(2) m' by blast
  have o: "flow_time m' x = flow_time m x - d" if "x \<in> set (fq_queued_tree m)" "x \<noteq> h" for x
    using that d(2,3) fq_invD(6) [OF qi] by fastforce
  have n: "0 \<le> n" "n \<le> fq_mtu m" "0 < fq_packet_weight m" using s h(2) fq_invD(3) [OF qi] by simp_all
  consider "f = h" "g \<in> set (fq_queued_tree m)" "g \<noteq> h" | "g = h" "f \<in> set (fq_queued_tree m)" "f \<noteq> h"
    | "f \<in> set (fq_queued_tree m)" "f \<noteq> h" "g \<in> set (fq_queued_tree m)" "g \<noteq> h"
    using q [OF b(1)] q [OF b(2)] fg by blast
  then show ?thesis
  proof cases
    case 1
    then show ?thesis using o [OF 1(2,3)] d(1) le [OF 1(2)] n by (simp add: ev \<open>j = h\<close>)
  next
    case 2
    then show ?thesis using o [OF 2(2,3)] d(1) n by (simp add: ev \<open>j = h\<close>)
  next
    case 3
    then show ?thesis using o [OF 3(1,2)] o [OF 3(3,4)] by (simp add: ev \<open>j = h\<close>)
  qed
qed

lemma service_snoc [simp]: "service w f (evs @ [ev]) = service w f evs + ev_service w f ev"
  by (simp add: service_def)

lemma fq_run_end: "fq_run P s evs s' \<Longrightarrow> P s'"
  by (induction rule: fq_run.induct) auto

lemma fq_run_config:
  "fq_run P s evs s' \<Longrightarrow> fs_inv s \<Longrightarrow>
    fq_packet_weight (fs_queue s') = fq_packet_weight (fs_queue s) \<and> fq_mtu (fs_queue s') = fq_mtu (fs_queue s)"
  by (induction rule: fq_run.induct) (auto dest: fq_step_config fq_run_inv)

lemma fq_run_fair:
  assumes "fq_run (\<lambda>s. backlogged f s \<and> backlogged g s) s evs s'" and "fs_inv s" and "f \<noteq> g"
  shows "flow_time (fs_queue s') f - flow_time (fs_queue s') g = flow_time (fs_queue s) f - flow_time (fs_queue s) g
      + service (fq_packet_weight (fs_queue s)) f evs - service (fq_packet_weight (fs_queue s)) g evs
    \<and> flow_time (fs_queue s') f - flow_time (fs_queue s') g
      \<le> max (flow_time (fs_queue s) f - flow_time (fs_queue s) g) (fq_packet_weight (fs_queue s) + fq_mtu (fs_queue s))"
  using assms
proof (induction rule: fq_run.induct)
  case (fq_run_snoc s evs s' ev s'')
  note c = fq_run_config [OF fq_run_snoc(1) fq_run_snoc(5)]
  note st = fq_step_fair [OF fq_run_snoc(2) fq_run_inv [OF fq_run_snoc(1) fq_run_snoc(5)] fq_run_snoc(6)]
  from st fq_run_end [OF fq_run_snoc(1)] fq_run_snoc(3,4,5,6) c show ?case by auto
qed (auto simp: service_def)

section \<open>The assertions hold\<close>

lemma first_is_queued:
  assumes "fq_inv m" "fq_queued_tree m = f # fs"
  shows "ff_is_queued (fq_heap m f)"
  using fq_invD(6) [OF assms(1)] fq_invD(7) [OF assms(1), of f] assms(2) by simp

lemma job_asserts:
  assumes "fq_inv m" "fq_schedule_job m"
  shows "schedule_job_handler_asserts (m\<lparr>fq_schedule_job := False\<rparr>)"
proof -
  have "fq_sending_flow m = None" using fq_invD(9) [OF assms(1)] assms(2) by (cases "fq_sending_flow m") auto
  then show ?thesis using assms(1) first_is_queued [OF assms(1)]
    by (cases "fq_queued_tree m") (auto simp: schedule_job_handler_asserts_def schedule_asserts_def fq_inv_def)
qed

lemma send_asserts:
  assumes inv: "fq_inv m" and f: "f \<in> set (fq_flows_list m)" "f \<notin> set (fq_queued_tree m)" "fq_sending_flow m \<noteq> Some f"
  shows "fq_input_handler_send_asserts m f data n"
proof -
  note e = enqueue_fields [OF f(2), of data n]
  have fr: "\<not> fq_freeing m" using inv by (simp add: fq_inv_def)
  have cmp: "compare_flows m' f g \<noteq> 0" if "g \<in> set (fq_queued_tree m)" for m' g
    using flow_cmp.cmp_eq_0 [of f g m'] that f(2) by auto
  have t: "get_current_time_asserts m"
    using first_is_queued [OF inv] by (simp add: get_current_time_asserts_def split: list.split)
  have "schedule_asserts (fq_enqueue m f data n)" if idle: "fq_sending_flow m = None" "\<not> fq_schedule_job m"
  proof -
    have "fq_queued_tree m = []" using fq_invD(11) [OF inv] idle by blast
    moreover have "fq_previous_flow m = None" using fq_invD(10) [OF inv] idle(2) by (cases "fq_previous_flow m") auto
    ultimately show ?thesis using e fr idle by (simp add: schedule_asserts_def)
  qed
  then show ?thesis using f fr cmp t fq_invD(7) [OF inv f(1)] by (simp add: fq_input_handler_send_asserts_def)
qed

lemma done_asserts:
  assumes inv: "fq_inv m" and f: "fq_sending_flow m = Some f"
  shows "fq_output_handler_done_asserts m"
proof -
  note s = fq_invD(9) [OF inv f]
  have nq: "\<not> ff_is_queued (fq_heap m f)" using s fq_invD(7) [OF inv, of f] by blast
  have least: "case fq_queued_tree m of [] \<Rightarrow> True | g # _ \<Rightarrow> ff_is_queued (fq_heap m g)
      \<and> (\<forall>x\<in>set (fq_flows_list m). ff_time (fq_heap m g) > ff_time (fq_heap m x) \<longrightarrow> \<not> ff_is_queued (fq_heap m x))"
  proof (cases "fq_queued_tree m")
    case (Cons g gs)
    have "ff_time (fq_heap m g) \<le> ff_time (fq_heap m x)" if "x \<in> set (fq_queued_tree m)" for x
      using that fq_invD(8) [OF inv] compare_flows_le by (auto simp: Cons)
    then show ?thesis using first_is_queued [OF inv Cons] fq_invD(7) [OF inv] Cons by fastforce
  qed simp
  have only: "\<not> ff_is_queued (fq_heap m x)" if "fq_queued_tree m = []" "x \<in> set (fq_flows_list m)" for x
    using fq_invD(7) [OF inv that(2)] that(1) by simp
  have max: "a \<le> FAIRQUEUE_MAX_TIME" for a by (simp add: FAIRQUEUE_MAX_TIME_def)
  have "increment_sent_flow_asserts (m\<lparr>fq_sending_flow := None, fq_previous_flow := Some f\<rparr>) f a" for a
    using nq least only max by (auto simp: increment_sent_flow_asserts_def Let_def split: list.splits)
  then show ?thesis using f s nq inv by (simp add: fq_output_handler_done_asserts_def fq_inv_def)
qed

section \<open>Freeing the queue\<close>

definition fq_members :: "PacketPassFairQueue \<Rightarrow> bool" where
  "fq_members m \<longleftrightarrow> distinct (fq_flows_list m) \<and> distinct (fq_queued_tree m)
     \<and> (\<forall>f\<in>set (fq_flows_list m). ff_is_queued (fq_heap m f) \<longleftrightarrow> f \<in> set (fq_queued_tree m))
     \<and> set (fq_queued_tree m) \<union> set_option (fq_sending_flow m) \<union> set_option (fq_previous_flow m)
         \<subseteq> set (fq_flows_list m)"

lemma fq_inv_members:
  assumes "fq_inv m"
  shows "fq_members (PacketPassFairQueue_PrepareFree m)"
proof -
  have "set_option (fq_sending_flow m) \<subseteq> set (fq_flows_list m)" "set_option (fq_previous_flow m) \<subseteq> set (fq_flows_list m)"
    using fq_invD(9,10) [OF assms] by auto
  with fq_invD(5-8) [OF assms] sorted_flows_distinct show ?thesis
    by (auto simp: fq_members_def PacketPassFairQueue_PrepareFree_def)
qed

lemma free_flow_members:
  assumes "fq_members m" "f \<in> set (fq_flows_list m)"
  shows "fq_members (fst (PacketPassFairQueueFlow_Free f m))
    \<and> set (fq_flows_list (fst (PacketPassFairQueueFlow_Free f m))) = set (fq_flows_list m) - {f}"
proof -
  let ?m = "fst (PacketPassFairQueueFlow_Free f m)"
  have "fq_queued_tree ?m = removeAll f (fq_queued_tree m)" "fq_flows_list ?m = removeAll f (fq_flows_list m)"
    "fq_sending_flow ?m = (if fq_sending_flow m = Some f then None else fq_sending_flow m)"
    "fq_previous_flow ?m = (if fq_previous_flow m = Some f then None else fq_previous_flow m)" "fq_heap ?m = fq_heap m"
    using assms by (auto simp: PacketPassFairQueueFlow_Free_def fq_members_def Let_def distinct_remove1_removeAll)
  with assms show ?thesis by (auto simp: fq_members_def distinct_removeAll)
qed

lemma free_all_flows:
  assumes "fq_members m" "set fs = set (fq_flows_list m)" "distinct fs"
  shows "fq_members (fold (\<lambda>f m. fst (PacketPassFairQueueFlow_Free f m)) fs m)
    \<and> fq_flows_list (fold (\<lambda>f m. fst (PacketPassFairQueueFlow_Free f m)) fs m) = []"
  using assms
proof (induction fs arbitrary: m)
  case (Cons f fs)
  then show ?case using free_flow_members [of m f] by auto
qed simp

section \<open>Properties\<close>


text \<open>
  C17: The queue is fair: in every reachable state, while two flows both stay backlogged (each has an unfinished
  packet, or just had one finished), one is served at most one maximal packet (with its weight) more than the
  other, plus what it was behind in virtual time at the beginning. Service is the length of the packets that
  were given to the output and that the flow was told done. This includes the overflow of the 64-bit times, and
  at any time flows may come, go and send.
\<close>

theorem fair_queue_fair:
  assumes "PacketPassFairQueue_Init mtu c w heap = Some m0" and "0 \<le> mtu" and "mtu \<le> INT_MAX" and "0 < w" and "w \<le> INT_MAX"
    and "fq_run (\<lambda>_. True) (fq_start m0) before s"
    and "fq_run (\<lambda>s. backlogged f s \<and> backlogged g s) s evs s'" and "f \<noteq> g"
  shows "service w f evs - service w g evs \<le> max 0 (w + mtu + flow_time (fs_queue s) g - flow_time (fs_queue s) f)"
proof -
  have i0: "fs_inv (fq_start m0)" by (rule fs_inv_start [OF assms(1-5)])
  have i: "fs_inv s" by (rule fq_run_inv [OF assms(6) i0])
  have "fq_packet_weight (fs_queue s) = w" "fq_mtu (fs_queue s) = mtu"
    using fq_run_config [OF assms(6) i0] assms(1) by (auto simp: PacketPassFairQueue_Init_def fq_start_def split: if_splits)
  with fq_run_fair [OF assms(7) i assms(8)] show ?thesis by auto
qed

definition demo_heap :: "nat \<Rightarrow> PacketPassFairQueueFlow" where
  "demo_heap f = \<lparr>ff_handler_busy = None, ff_time = 0, ff_is_queued = False, ff_data = NULL, ff_data_len = 0\<rparr>"

definition demo_fq0 where "demo_fq0 = the (PacketPassFairQueue_Init 1500 False 1 demo_heap)"
definition demo_fq1 where "demo_fq1 = fst (PacketPassFairQueueFlow_Init 10 demo_fq0)"
definition demo_fq2 where "demo_fq2 = fst (PacketPassFairQueueFlow_Init 20 demo_fq1)"
definition demo_fq3 where "demo_fq3 = fst (fq_input_handler_send demo_fq2 10 NULL 100)"
definition demo_fq4 where "demo_fq4 = fst (fq_input_handler_send demo_fq3 20 NULL 200)"
definition demo_fq5 where "demo_fq5 = fst (fq_output_handler_done demo_fq4)"

lemmas demo_fq_defs = demo_heap_def PacketPassFairQueueFlow_Init_def fq_input_handler_send_def fq_enqueue_def
  fq_queue_data_def fq_output_handler_done_def
  increment_sent_flow_def schedule_def get_current_time_def bmax_uint64_def compare_flows_def B_COMPARE_def Let_def

lemma demo_Init: "PacketPassFairQueue_Init 1500 False 1 demo_heap = Some demo_fq0"
  by (simp add: demo_fq0_def fq_Init_Some)

lemma demo_fq2_eq: "demo_fq2 = \<lparr>fq_mtu = 1500, fq_use_cancel = False, fq_packet_weight = 1, fq_sending_flow = None,
    fq_sending_len = 0, fq_previous_flow = None, fq_queued_tree = [], fq_flows_list = [10, 20], fq_freeing = False,
    fq_schedule_job = False, fq_heap = demo_heap(10 := demo_heap 10, 20 := demo_heap 20)\<rparr>"
  by (simp add: demo_fq2_def demo_fq1_def demo_fq0_def fq_Init_Some demo_fq_defs)

lemma demo_fq3_eq: "demo_fq3 = demo_fq2\<lparr>fq_sending_flow := Some 10, fq_sending_len := 100,
    fq_heap := demo_heap(10 := (demo_heap 10)\<lparr>ff_data_len := 100\<rparr>, 20 := demo_heap 20)\<rparr>"
  by (auto simp: demo_fq3_def demo_fq2_eq demo_fq_defs)

lemma demo_fq4_eq: "demo_fq4 = demo_fq3\<lparr>fq_queued_tree := [20],
    fq_heap := demo_heap(10 := (demo_heap 10)\<lparr>ff_data_len := 100\<rparr>,
      20 := (demo_heap 20)\<lparr>ff_is_queued := True, ff_data_len := 200\<rparr>)\<rparr>"
  by (auto simp: demo_fq4_def demo_fq3_eq demo_fq2_eq demo_fq_defs)

definition demo_fs :: "PacketPassFairQueue \<Rightarrow> (ptr \<times> int) option \<Rightarrow> (nat \<Rightarrow> (ptr \<times> int) option) \<Rightarrow> fq_sys" where
  "demo_fs m out inp = \<lparr>fs_queue = m, fs_output = out, fs_input = inp\<rparr>"

abbreviation demo_fs4 :: fq_sys where
  "demo_fs4 \<equiv> demo_fs demo_fq4 (Some (NULL, 100)) ((\<lambda>_. None)(10 \<mapsto> (NULL, 100), 20 \<mapsto> (NULL, 200)))"

lemma demo_fq_before:
  "fq_run (\<lambda>_. True) (fq_start demo_fq0) [FQ_New 10, FQ_New 20, FQ_Send 10 NULL 100, FQ_Send 20 NULL 200] demo_fs4"
proof -
  have "fq_step (fq_start demo_fq0) (FQ_New 10) (demo_fs demo_fq1 None (\<lambda>_. None))"
    using fq_new [of 10 "fq_start demo_fq0"]
    by (simp add: fq_start_def demo_fs_def demo_fq1_def fq_apply_def PacketPassFairQueueFlow_Init_def demo_fq0_def fq_Init_Some)
  moreover have "fq_step (demo_fs demo_fq1 None (\<lambda>_. None)) (FQ_New 20) (demo_fs demo_fq2 None (\<lambda>_. None))"
    using fq_new [of 20 "demo_fs demo_fq1 None (\<lambda>_. None)"]
    by (simp add: demo_fs_def demo_fq2_def demo_fq1_def demo_fq0_def fq_apply_def PacketPassFairQueueFlow_Init_def fq_Init_Some)
  moreover have "fq_step (demo_fs demo_fq2 None (\<lambda>_. None)) (FQ_Send 10 NULL 100)
      (demo_fs demo_fq3 (Some (NULL, 100)) ((\<lambda>_. None)(10 \<mapsto> (NULL, 100))))"
    using fq_send [of 10 "demo_fs demo_fq2 None (\<lambda>_. None)" 100 NULL]
    by (simp add: demo_fs_def demo_fq3_def fq_apply_def fq_input_handler_send_def fq_enqueue_def fq_queue_data_def
        demo_fq2_eq demo_fq_defs PacketPassFairQueue_GetMTU_def)
  moreover have "fq_step (demo_fs demo_fq3 (Some (NULL, 100)) ((\<lambda>_. None)(10 \<mapsto> (NULL, 100)))) (FQ_Send 20 NULL 200) demo_fs4"
    using fq_send [of 20 "demo_fs demo_fq3 (Some (NULL, 100)) ((\<lambda>_. None)(10 \<mapsto> (NULL, 100)))" 200 NULL]
    by (simp add: demo_fs_def demo_fq4_def fq_apply_def fq_input_handler_send_def fq_enqueue_def fq_queue_data_def
        demo_fq3_eq demo_fq2_eq demo_fq_defs PacketPassFairQueue_GetMTU_def)
  ultimately show ?thesis
    using fq_run_snoc [OF fq_run_snoc [OF fq_run_snoc [OF fq_run_snoc [OF fq_run_Nil]]], of "\<lambda>_. True"] by fastforce
qed

lemma demo_fs4_inv: "fs_inv demo_fs4"
  by (rule fq_run_inv [OF demo_fq_before fs_inv_start [OF demo_Init]]) simp_all

lemma demo_fq_done:
  "fq_step demo_fs4 (FQ_Done 10 100) (demo_fs demo_fq5 None ((\<lambda>_. None)(20 \<mapsto> (NULL, 200))))"
proof -
  have r: "fq_output_handler_done demo_fq4 = (demo_fq5, [FQ_Input_Done 10])"
    by (simp add: demo_fq5_def demo_fq4_eq demo_fq3_eq demo_fq2_eq demo_fq_defs FAIRQUEUE_MAX_TIME_def)
  show ?thesis
    using fq_done [of demo_fs4 NULL 100 demo_fq5 "[FQ_Input_Done 10]" 10] r
    by (simp add: demo_fs_def fq_apply_def fun_upd_twist)
qed

theorem fair_queue_fair_witness:
  "\<exists>s s'. fq_run (\<lambda>s. backlogged 10 s \<and> backlogged 20 s) s [FQ_Done 10 100] s'
    \<and> service 1 10 [FQ_Done 10 100] = 101 \<and> service 1 20 [FQ_Done 10 100] = 0
    \<and> (101 :: int) - 0 \<le> max 0 (1 + 1500 + flow_time (fs_queue s) 20 - flow_time (fs_queue s) 10)"
proof -
  have b: "backlogged 10 demo_fs4 \<and> backlogged 20 demo_fs4" by (simp add: backlogged_def demo_fs_def)
  moreover have "fq_previous_flow demo_fq5 = Some 10"
    using done_result(2) [OF fs_invD(1) [OF demo_fs4_inv], of 10]
    by (simp add: demo_fs_def demo_fq5_def demo_fq4_eq demo_fq3_eq)
  ultimately have r: "fq_run (\<lambda>s. backlogged 10 s \<and> backlogged 20 s) demo_fs4 [FQ_Done 10 100]
      (demo_fs demo_fq5 None ((\<lambda>_. None)(20 \<mapsto> (NULL, 200))))"
    using fq_run_snoc [OF fq_run_Nil demo_fq_done, of "\<lambda>s. backlogged 10 s \<and> backlogged 20 s"]
    by (simp add: backlogged_def demo_fs_def)
  have "service 1 10 [FQ_Done 10 100] - service 1 20 [FQ_Done 10 100]
      \<le> max 0 (1 + 1500 + flow_time (fs_queue demo_fs4) 20 - flow_time (fs_queue demo_fs4) 10)"
    by (rule fair_queue_fair [OF demo_Init _ _ _ _ demo_fq_before r]) simp_all
  with r show ?thesis by (intro exI conjI) (simp_all add: service_def)
qed

text \<open>
  C30: The queue is work-conserving, sends what its flows hand in, and its assertions hold. In every reachable
  state: a queued packet waits only for a packet being sent or for the pending schedule job; the packet at the
  output is, data and length, the unfinished packet of the flow being sent; the schedule job sends, data and
  length, the unfinished packet of a flow with least time among those that wait, within the MTU. The assertions
  of the schedule job, of \<^verbatim>\<open>input_handler_send\<close> for every flow without an unfinished packet and of
  \<^verbatim>\<open>output_handler_done\<close> hold where they are called, those of \<^verbatim>\<open>schedule\<close>, \<^verbatim>\<open>increment_sent_flow\<close>,
  \<^verbatim>\<open>get_current_time\<close> and of the insertion into the tree included. After \<^verbatim>\<open>PacketPassFairQueue_PrepareFree\<close>
  the flows can be freed in any order, which leaves the queue as \<^verbatim>\<open>PacketPassFairQueue_Free\<close> asserts.
\<close>

theorem fair_queue_schedules:
  assumes "PacketPassFairQueue_Init mtu c w heap = Some m0" and "0 \<le> mtu" and "mtu \<le> INT_MAX" and "0 < w" and "w \<le> INT_MAX"
    and "fq_run (\<lambda>_. True) (fq_start m0) evs s" and "m = fs_queue s"
    and "distinct fs" and "set fs = set (fq_flows_list m)"
  shows "(fq_queued_tree m \<noteq> [] \<longrightarrow> fs_output s \<noteq> None \<or> fq_schedule_job m)
    \<and> (\<forall>p. fs_output s = Some p \<longrightarrow> (\<exists>f. fq_sending_flow m = Some f \<and> fs_input s f = Some p))
    \<and> (fq_schedule_job m \<and> fq_queued_tree m \<noteq> [] \<longrightarrow>
        (\<exists>f data n. snd (schedule_job_handler (m\<lparr>fq_schedule_job := False\<rparr>)) = [FQ_Output_Send data n]
          \<and> fs_input s f = Some (data, n) \<and> n \<le> mtu
          \<and> (\<forall>g. fs_input s g \<noteq> None \<longrightarrow> flow_time m f \<le> flow_time m g)))
    \<and> (fq_schedule_job m \<longrightarrow> schedule_job_handler_asserts (m\<lparr>fq_schedule_job := False\<rparr>))
    \<and> (\<forall>f data n. f \<in> set (fq_flows_list m) \<and> fs_input s f = None \<longrightarrow> fq_input_handler_send_asserts m f data n)
    \<and> (fs_output s \<noteq> None \<longrightarrow> fq_output_handler_done_asserts m)
    \<and> PacketPassFairQueue_Free_asserts
        (fold (\<lambda>f m. fst (PacketPassFairQueueFlow_Free f m)) fs (PacketPassFairQueue_PrepareFree m))"
proof -
  have i0: "fs_inv (fq_start m0)" by (rule fs_inv_start [OF assms(1-5)])
  have inv: "fs_inv s" by (rule fq_run_inv [OF assms(6) i0])
  note i = fs_invD(1) [OF inv, folded assms(7)]
  have mtu: "fq_mtu m = mtu"
    using fq_run_config [OF assms(6) i0] assms(1,7) by (auto simp: PacketPassFairQueue_Init_def fq_start_def split: if_splits)
  have 1: "fq_queued_tree m \<noteq> [] \<longrightarrow> fs_output s \<noteq> None \<or> fq_schedule_job m"
    using fq_invD(11) [OF i] fs_invD(4) [OF inv] assms(7) by (cases "fq_sending_flow m") auto
  have 2: "\<exists>f. fq_sending_flow m = Some f \<and> fs_input s f = Some p" if "fs_output s = Some p" for p
    using fs_invD(3) [OF inv that] assms(7) by blast
  have 3: "\<exists>f data n. snd (schedule_job_handler (m\<lparr>fq_schedule_job := False\<rparr>)) = [FQ_Output_Send data n]
          \<and> fs_input s f = Some (data, n) \<and> n \<le> mtu \<and> (\<forall>g. fs_input s g \<noteq> None \<longrightarrow> flow_time m f \<le> flow_time m g)"
    if job: "fq_schedule_job m" and ne: "fq_queued_tree m \<noteq> []"
  proof -
    obtain f q where q: "fq_queued_tree m = f # q" using ne by (cases "fq_queued_tree m") auto
    have "fq_sending_flow m = None" using fq_invD(9) [OF i] job by (cases "fq_sending_flow m") auto
    then have "g \<in> set (f # q)" if "fs_input s g \<noteq> None" for g using fs_invD(7) [OF inv that] assms(7) q by simp
    moreover have "flow_time m f \<le> flow_time m g" if "g \<in> set (f # q)" for g
      using fq_invD(8) [OF i] that by (auto simp: q compare_flows_less)
    moreover have "ff_data_len (fq_heap m f) \<le> mtu" using i q mtu by (auto simp: fq_inv_def)
    ultimately show ?thesis using fs_invD(6) [OF inv, of f] assms(7) q
      by (intro exI [of _ f] exI [of _ "ff_data (fq_heap m f)"] exI [of _ "ff_data_len (fq_heap m f)"])
        (simp add: schedule_job_handler_def schedule_def Let_def)
  qed
  have 4: "fq_input_handler_send_asserts m f data n" if "f \<in> set (fq_flows_list m)" "fs_input s f = None" for f data n
    using send_asserts [OF i that(1)] fs_invD(5) [OF inv that(2)] assms(7) by simp
  have 5: "fq_output_handler_done_asserts m" if "fs_output s \<noteq> None" using 2 done_asserts [OF i] that by blast
  let ?mf = "fold (\<lambda>f m. fst (PacketPassFairQueueFlow_Free f m)) fs (PacketPassFairQueue_PrepareFree m)"
  have "set fs = set (fq_flows_list (PacketPassFairQueue_PrepareFree m))"
    using assms(9) by (simp add: PacketPassFairQueue_PrepareFree_def)
  from free_all_flows [OF fq_inv_members [OF i] this assms(8)]
  have "fq_members ?mf \<and> fq_flows_list ?mf = []" .
  then have 6: "PacketPassFairQueue_Free_asserts ?mf"
    by (cases "fq_sending_flow ?mf"; cases "fq_previous_flow ?mf") (auto simp: fq_members_def PacketPassFairQueue_Free_asserts_def)
  show ?thesis using 1 2 3 4 5 6 job_asserts [OF i] by blast
qed

theorem fair_queue_schedules_witness:
  "\<exists>s. fq_run (\<lambda>_. True) (fq_start demo_fq0) [FQ_New 10, FQ_New 20, FQ_Send 10 NULL 100, FQ_Send 20 NULL 200] s
    \<and> fs_output s = Some (NULL, 100) \<and> fs_input s 10 = Some (NULL, 100)
    \<and> fq_output_handler_done_asserts (fs_queue s)
    \<and> PacketPassFairQueue_Free_asserts
        (fold (\<lambda>f m. fst (PacketPassFairQueueFlow_Free f m)) [20, 10] (PacketPassFairQueue_PrepareFree (fs_queue s)))"
proof -
  have f: "set [20, 10] = set (fq_flows_list (fs_queue demo_fs4))"
    by (auto simp: demo_fs_def demo_fq4_eq demo_fq3_eq demo_fq2_eq)
  note props = fair_queue_schedules [OF demo_Init _ _ _ _ demo_fq_before refl _ f]
  show ?thesis
    by (rule exI [of _ demo_fs4], intro conjI demo_fq_before) (use props in \<open>auto simp: demo_fs_def\<close>)
qed

end
