(* ===== verification/Packet_Flow.thy ===== *)
theory Packet_Flow
  imports ChunkBuffer2 Packet_Proto
begin

text \<open>
  The send path of a udpgw connection: \<^verbatim>\<open>flow/BufferWriter.c\<close>, \<^verbatim>\<open>flow/PacketBuffer.c\<close> and
  \<^verbatim>\<open>flow/PacketProtoFlow.c\<close>, which puts the encoder between the two. The user writes a packet directly into
  the ring of the packet buffer: the buffer requests a packet at a place of the ring, the encoder passes the
  request on behind the room for its header, the writer hands the place to the user.

  Each handler returns the calls it makes on its neighbours. \<open>flow_sys\<close> is the whole flow: between its
  elements one request or completion is on its way (\<open>fl_stage\<close>), and the output may be busy with a packet
  (\<open>fl_sending\<close>); \<open>fl_step\<close> runs one job, a write of the user or a completion of the output.
\<close>

section \<open>The code\<close>

subsection \<open>BufferWriter\<close>

record BufferWriter =
  bw_mtu :: int
  bw_out_have :: bool
  bw_out :: ptr

datatype bw_call = BW_Done int

definition BufferWriter_Init :: "int \<Rightarrow> BufferWriter" where
  "BufferWriter_Init mtu = \<lparr>bw_mtu = mtu, bw_out_have = False, bw_out = NULL\<rparr>"

definition BufferWriter_output_handler_recv :: "BufferWriter \<Rightarrow> ptr \<Rightarrow> BufferWriter" where
  "BufferWriter_output_handler_recv bw data = bw\<lparr>bw_out_have := True, bw_out := data\<rparr>"

text \<open>\<open>None\<close> is the result 0, \<open>Some\<close> the result 1 with the pointer stored.\<close>

definition BufferWriter_StartPacket :: "BufferWriter \<Rightarrow> ptr option" where
  "BufferWriter_StartPacket bw = (if \<not> bw_out_have bw then None else Some (bw_out bw))"

definition BufferWriter_EndPacket :: "BufferWriter \<Rightarrow> int \<Rightarrow> BufferWriter \<times> bw_call list" where
  "BufferWriter_EndPacket bw len = (bw\<lparr>bw_out_have := False\<rparr>, [BW_Done len])"

subsection \<open>PacketBuffer\<close>

record PacketBuffer =
  pb_input_mtu :: int
  pb_buf :: ChunkBuffer2

datatype pb_call = PB_Recv ptr | PB_Send ptr int

definition PacketBuffer_input_handler_done ::
    "mem \<Rightarrow> PacketBuffer \<Rightarrow> int \<Rightarrow> mem \<times> PacketBuffer \<times> pb_call list" where
  "PacketBuffer_input_handler_done m pb in_len =
     (let was_empty = (output_avail (pb_buf pb) < 0);
          (m, buf) = ChunkBuffer2_SubmitPacket m (pb_buf pb) in_len
      in (m, pb\<lparr>pb_buf := buf\<rparr>,
          (if input_avail buf \<ge> pb_input_mtu pb then [PB_Recv (input_dest buf)] else [])
          @ (if was_empty then [PB_Send (output_dest buf) (output_avail buf)] else [])))"

definition PacketBuffer_output_handler_done :: "mem \<Rightarrow> PacketBuffer \<Rightarrow> PacketBuffer \<times> pb_call list" where
  "PacketBuffer_output_handler_done m pb =
     (let was_full = (input_avail (pb_buf pb) < pb_input_mtu pb);
          buf = ChunkBuffer2_ConsumePacket m (pb_buf pb)
      in (pb\<lparr>pb_buf := buf\<rparr>,
          (if was_full \<and> input_avail buf \<ge> pb_input_mtu pb then [PB_Recv (input_dest buf)] else [])
          @ (if output_avail buf \<ge> 0 then [PB_Send (output_dest buf) (output_avail buf)] else [])))"

text \<open>\<open>alloc\<close> is the array of blocks, or a failed allocation.\<close>

definition PacketBuffer_Init :: "mem \<Rightarrow> nat option \<Rightarrow> int \<Rightarrow> int \<Rightarrow> (PacketBuffer \<times> pb_call list) option" where
  "PacketBuffer_Init m alloc input_mtu num_packets =
     (let num_blocks = ChunkBuffer2_calc_blocks input_mtu num_packets
      in if num_blocks < 0 then None
         else case alloc of
                None \<Rightarrow> None
              | Some buf_data \<Rightarrow>
                  let buf = ChunkBuffer2_Init m buf_data num_blocks input_mtu
                  in Some (\<lparr>pb_input_mtu = input_mtu, pb_buf = buf\<rparr>, [PB_Recv (input_dest buf)]))"

subsection \<open>PacketProtoFlow\<close>

record PacketProtoFlow =
  pf_ainput :: BufferWriter
  pf_encoder :: PacketProtoEncoder
  pf_buffer :: PacketBuffer

definition PacketProtoFlow_Init ::
    "mem \<Rightarrow> nat option \<Rightarrow> int \<Rightarrow> int \<Rightarrow> (PacketProtoFlow \<times> pb_call list) option" where
  "PacketProtoFlow_Init m alloc input_mtu num_packets =
     (let ainput = BufferWriter_Init input_mtu;
          encoder = PacketProtoEncoder_Init (bw_mtu ainput)
      in case PacketBuffer_Init m alloc (enc_output_mtu encoder) num_packets of
           None \<Rightarrow> None
         | Some (pbuf, calls) \<Rightarrow> Some (\<lparr>pf_ainput = ainput, pf_encoder = encoder, pf_buffer = pbuf\<rparr>, calls))"

section \<open>The flow as a whole\<close>

datatype flow_stage = Full | Recv_Encoder ptr | Recv_Writer ptr | Writing | Done_Encoder int | Done_Buffer int

text \<open>\<open>fl_in\<close> records the packets written, \<open>fl_out\<close> the packets the output has finished.\<close>

record flow_sys =
  fl_mem :: mem
  fl_flow :: PacketProtoFlow
  fl_stage :: flow_stage
  fl_sending :: "(ptr \<times> int) option"
  fl_in :: "byte list list"
  fl_out :: "byte list list"

fun pb_effects :: "pb_call list \<Rightarrow> flow_sys \<Rightarrow> flow_sys" where
  "pb_effects [] s = s"
| "pb_effects (PB_Recv p # cs) s = pb_effects cs (s\<lparr>fl_stage := Recv_Encoder p\<rparr>)"
| "pb_effects (PB_Send p n # cs) s = pb_effects cs (s\<lparr>fl_sending := Some (p, n)\<rparr>)"

definition flow_start :: "mem \<Rightarrow> PacketProtoFlow \<Rightarrow> pb_call list \<Rightarrow> flow_sys" where
  "flow_start m flow calls = pb_effects calls
     \<lparr>fl_mem = m, fl_flow = flow, fl_stage = Full, fl_sending = None, fl_in = [], fl_out = []\<rparr>"

inductive fl_step :: "flow_sys \<Rightarrow> flow_sys \<Rightarrow> bool" where
  fl_recv_encoder: "fl_stage s = Recv_Encoder p \<Longrightarrow>
    PacketProtoEncoder_output_handler_recv (pf_encoder (fl_flow s)) p = (enc, [Enc_Input_Recv p']) \<Longrightarrow>
    fl_step s (s\<lparr>fl_flow := (fl_flow s)\<lparr>pf_encoder := enc\<rparr>, fl_stage := Recv_Writer p'\<rparr>)"
| fl_recv_writer: "fl_stage s = Recv_Writer p \<Longrightarrow>
    fl_step s (s\<lparr>fl_flow := (fl_flow s)\<lparr>pf_ainput := BufferWriter_output_handler_recv (pf_ainput (fl_flow s)) p\<rparr>,
                 fl_stage := Writing\<rparr>)"
| fl_write: "BufferWriter_StartPacket (pf_ainput (fl_flow s)) = Some (Some a) \<Longrightarrow>
    int (length bs) \<le> bw_mtu (pf_ainput (fl_flow s)) \<Longrightarrow>
    BufferWriter_EndPacket (pf_ainput (fl_flow s)) (int (length bs)) = (bw, [BW_Done n]) \<Longrightarrow>
    fl_step s (s\<lparr>fl_mem := mem_write (fl_mem s) a bs, fl_flow := (fl_flow s)\<lparr>pf_ainput := bw\<rparr>,
                 fl_stage := Done_Encoder n, fl_in := fl_in s @ [bs]\<rparr>)"
| fl_done_encoder: "fl_stage s = Done_Encoder n \<Longrightarrow>
    PacketProtoEncoder_input_handler_done (fl_mem s) (pf_encoder (fl_flow s)) n = (m, enc, [Enc_Output_Done k]) \<Longrightarrow>
    fl_step s (s\<lparr>fl_mem := m, fl_flow := (fl_flow s)\<lparr>pf_encoder := enc\<rparr>, fl_stage := Done_Buffer k\<rparr>)"
| fl_done_buffer: "fl_stage s = Done_Buffer k \<Longrightarrow>
    PacketBuffer_input_handler_done (fl_mem s) (pf_buffer (fl_flow s)) k = (m, pb, cs) \<Longrightarrow>
    fl_step s (pb_effects cs (s\<lparr>fl_mem := m, fl_flow := (fl_flow s)\<lparr>pf_buffer := pb\<rparr>, fl_stage := Full\<rparr>))"
| fl_sent: "fl_sending s = Some (Some a, n) \<Longrightarrow>
    PacketBuffer_output_handler_done (fl_mem s) (pf_buffer (fl_flow s)) = (pb, cs) \<Longrightarrow>
    fl_step s (pb_effects cs (s\<lparr>fl_flow := (fl_flow s)\<lparr>pf_buffer := pb\<rparr>, fl_sending := None,
                 fl_out := fl_out s @ [mem_read (fl_mem s) a (nat n)]\<rparr>))"

inductive_cases fl_stepE: "fl_step s s'"

abbreviation fl_run :: "flow_sys \<Rightarrow> flow_sys \<Rightarrow> bool" where
  "fl_run \<equiv> fl_step\<^sup>*\<^sup>*"

section \<open>The invariant\<close>

definition fl_buf :: "flow_sys \<Rightarrow> ChunkBuffer2" where
  "fl_buf s = pb_buf (pf_buffer (fl_flow s))"

text \<open>What is on its way to the ring: the packet just written.\<close>

definition fl_pending :: "flow_sys \<Rightarrow> byte list list" where
  "fl_pending s = (case fl_stage s of Done_Encoder _ \<Rightarrow> [last (fl_in s)] | Done_Buffer _ \<Rightarrow> [last (fl_in s)] | _ \<Rightarrow> [])"

text \<open>The place of the request, for every stage of it.\<close>

definition stage_inv :: "flow_sys \<Rightarrow> nat \<Rightarrow> bool" where
  "stage_inv s a \<longleftrightarrow>
     (let enc = enc_output_packet (pf_encoder (fl_flow s)); bw = pf_ainput (fl_flow s); p = last (fl_in s)
      in case fl_stage s of
           Full \<Rightarrow> False
         | Recv_Encoder x \<Rightarrow> x = Some a \<and> \<not> bw_out_have bw
         | Recv_Writer x \<Rightarrow> x = Some (a + 2) \<and> enc = Some a \<and> \<not> bw_out_have bw
         | Writing \<Rightarrow> bw_out_have bw \<and> bw_out bw = Some (a + 2) \<and> enc = Some a
         | Done_Encoder n \<Rightarrow> n = int (length p) \<and> fl_in s \<noteq> [] \<and> enc = Some a \<and> \<not> bw_out_have bw
             \<and> int (length p) \<le> bw_mtu bw \<and> mem_read (fl_mem s) (a + 2) (length p) = p
         | Done_Buffer k \<Rightarrow> k = int (length (frame p)) \<and> fl_in s \<noteq> [] \<and> \<not> bw_out_have bw
             \<and> int (length p) \<le> bw_mtu bw \<and> mem_read (fl_mem s) a (length (frame p)) = frame p)"

definition fl_inv :: "int \<Rightarrow> flow_sys \<Rightarrow> byte list list \<Rightarrow> bool" where
  "fl_inv num s q \<longleftrightarrow>
     (let mtu = bw_mtu (pf_ainput (fl_flow s)); buf = fl_buf s
      in 0 \<le> mtu \<and> mtu \<le> UINT16_MAX \<and> 0 < num
       \<and> cb_rep (fl_mem s) buf q \<and> pb_input_mtu (pf_buffer (fl_flow s)) = mtu + 2
       \<and> cb_mtu buf = blocks_for (mtu + 2) \<and> cb_size buf = (1 + blocks_for (mtu + 2)) * (num + 1)
       \<and> cb_size buf \<le> cb_blocks_max
       \<and> (\<forall>p\<in>set q. int (length p) \<le> mtu + 2)
       \<and> fl_sending s = (if q = [] then None else Some (output_dest buf, output_avail buf))
       \<and> (if input_avail buf < mtu + 2 then fl_stage s = Full \<and> \<not> bw_out_have (pf_ainput (fl_flow s))
          else \<exists>a. input_dest buf = Some a \<and> stage_inv s a)
       \<and> map frame (fl_in s) = fl_out s @ q @ map frame (fl_pending s))"


lemma mem_write_behind: "mem_write m (a + k) bs = mem_write m a (mem_read m a k @ bs)"
  by (rule ext) (auto simp: mem_write_def nth_append)

lemma length_frame [simp]: "length (frame p) = 2 + length p"
  by (simp add: frame_def)

lemma input_dest_Some:
  assumes "cb_rep m buf q" "0 \<le> input_avail buf"
  shows "\<exists>a. input_dest buf = Some a"
  using assms cb_input [of buf] by (auto simp: cb_rep_def split: if_splits)

lemma Submit_fields:
  assumes "ChunkBuffer2_SubmitPacket m buf n = (m', buf')"
  shows "buffer buf' = buffer buf" "start buf' = start buf" "cb_mtu buf' = cb_mtu buf" "cb_size buf' = cb_size buf"
  using assms by (auto simp: ChunkBuffer2_SubmitPacket_def Let_def)

lemma Consume_fields:
  "cb_mtu (ChunkBuffer2_ConsumePacket m buf) = cb_mtu buf" "cb_size (ChunkBuffer2_ConsumePacket m buf) = cb_size buf"
  by (simp_all add: ChunkBuffer2_ConsumePacket_def Let_def)

text \<open>A ring with fewer than \<open>num\<close> packets has room for another.\<close>

lemma fl_room:
  assumes "fl_inv num s q" "int (length q) < num"
  shows "bw_mtu (pf_ainput (fl_flow s)) + 2 \<le> input_avail (fl_buf s)"
  by (rule cb_capacity [of "fl_mem s" "fl_buf s" q _ num]) (use assms in \<open>auto simp: fl_inv_def Let_def\<close>)

lemma pb_effects_frame [simp]:
  "fl_mem (pb_effects cs s) = fl_mem s" "fl_flow (pb_effects cs s) = fl_flow s"
  "fl_in (pb_effects cs s) = fl_in s" "fl_out (pb_effects cs s) = fl_out s"
  by (induction cs s rule: pb_effects.induct) simp_all

lemma fl_inv_start:
  assumes "PacketProtoFlow_Init m alloc mtu num = Some (flow, calls)" "0 \<le> mtu" "mtu \<le> UINT16_MAX" "0 < num"
    "ChunkBuffer2_calc_blocks (mtu + 2) num \<le> cb_blocks_max"
  shows "fl_inv num (flow_start m flow calls) []"
proof -
  let ?n = "ChunkBuffer2_calc_blocks (mtu + 2) num"
  obtain b where b: "alloc = Some b" "0 \<le> ?n"
    and f: "flow = \<lparr>pf_ainput = BufferWriter_Init mtu, pf_encoder = PacketProtoEncoder_Init mtu,
      pf_buffer = \<lparr>pb_input_mtu = mtu + 2, pb_buf = ChunkBuffer2_Init m b ?n (mtu + 2)\<rparr>\<rparr>"
    and c: "calls = [PB_Recv (input_dest (ChunkBuffer2_Init m b ?n (mtu + 2)))]"
    using assms(1) by (auto simp: PacketProtoFlow_Init_def PacketBuffer_Init_def BufferWriter_Init_def
        PacketProtoEncoder_Init_def PACKETPROTO_ENCLEN_def sizeof_packetproto_header_def Let_def add.commute
        split: if_splits option.splits)
  let ?buf = "ChunkBuffer2_Init m b ?n (mtu + 2)"
  have k: "?n = (1 + blocks_for (mtu + 2)) * (num + 1)" "blocks_for (mtu + 2) < ?n"
    using calc_blocks_bounds [of "mtu + 2" num] b(2) assms(2,4) by auto
  have r: "cb_rep m ?buf []" by (rule cb_rep_Init) (use assms(2) k in auto)
  have fs: "cb_mtu ?buf = blocks_for (mtu + 2)" "cb_size ?buf = (1 + blocks_for (mtu + 2)) * (num + 1)"
    and max: "cb_size ?buf \<le> cb_blocks_max"
    using assms(5) by (simp_all add: ChunkBuffer2_Init_def Let_def k(1))
  have "mtu + 2 \<le> input_avail ?buf"
    by (rule cb_capacity [OF r _ fs _ _ max]) (use assms in auto)
  moreover obtain a where "input_dest ?buf = Some a"
    using input_dest_Some [OF r] calculation assms(2) by auto
  ultimately show ?thesis
    using assms r fs max
    by (simp add: fl_inv_def flow_start_def f c fl_buf_def stage_inv_def fl_pending_def BufferWriter_Init_def Let_def)
qed

lemma fl_invD:
  assumes "fl_inv num s q"
  shows "0 \<le> bw_mtu (pf_ainput (fl_flow s))" "bw_mtu (pf_ainput (fl_flow s)) \<le> UINT16_MAX" "0 < num"
    "cb_rep (fl_mem s) (fl_buf s) q" "pb_input_mtu (pf_buffer (fl_flow s)) = bw_mtu (pf_ainput (fl_flow s)) + 2"
    "fl_sending s = (if q = [] then None else Some (output_dest (fl_buf s), output_avail (fl_buf s)))"
    "map frame (fl_in s) = fl_out s @ q @ map frame (fl_pending s)"
    "p \<in> set q \<Longrightarrow> int (length p) \<le> bw_mtu (pf_ainput (fl_flow s)) + 2"
    "cb_mtu (fl_buf s) = blocks_for (bw_mtu (pf_ainput (fl_flow s)) + 2)"
    "cb_size (fl_buf s) = (1 + blocks_for (bw_mtu (pf_ainput (fl_flow s)) + 2)) * (num + 1)"
    "cb_size (fl_buf s) \<le> cb_blocks_max"
  using assms by (simp_all add: fl_inv_def Let_def)

lemma fl_stageD:
  assumes "fl_inv num s q" "fl_stage s \<noteq> Full"
  obtains a where "input_dest (fl_buf s) = Some a" "stage_inv s a"
    "bw_mtu (pf_ainput (fl_flow s)) + 2 \<le> input_avail (fl_buf s)"
  using assms that by (auto simp: fl_inv_def Let_def split: if_splits)

text \<open>The steps that leave ring and output alone keep the invariant when they keep that of the stage.\<close>

lemma fl_inv_stage:
  assumes inv: "fl_inv num s q" and st: "fl_stage s \<noteq> Full"
    and same: "fl_buf s' = fl_buf s" "pb_input_mtu (pf_buffer (fl_flow s')) = pb_input_mtu (pf_buffer (fl_flow s))"
      "bw_mtu (pf_ainput (fl_flow s')) = bw_mtu (pf_ainput (fl_flow s))" "fl_sending s' = fl_sending s" "fl_out s' = fl_out s"
    and r: "cb_rep (fl_mem s') (fl_buf s) q"
    and stage: "\<And>a. input_dest (fl_buf s) = Some a \<Longrightarrow> stage_inv s a \<Longrightarrow> stage_inv s' a"
    and log: "map frame (fl_in s') = fl_out s @ q @ map frame (fl_pending s')"
  shows "fl_inv num s' q"
proof -
  obtain a where "input_dest (fl_buf s) = Some a" "stage_inv s a"
    "bw_mtu (pf_ainput (fl_flow s)) + 2 \<le> input_avail (fl_buf s)"
    by (rule fl_stageD [OF inv st])
  with stage fl_invD [OF inv] same r log show ?thesis by (auto simp: fl_inv_def Let_def)
qed

lemma inv_recv_encoder:
  assumes "fl_inv num s q" "fl_stage s = Recv_Encoder p"
    "PacketProtoEncoder_output_handler_recv (pf_encoder (fl_flow s)) p = (enc, [Enc_Input_Recv p'])"
  shows "fl_inv num (s\<lparr>fl_flow := (fl_flow s)\<lparr>pf_encoder := enc\<rparr>, fl_stage := Recv_Writer p'\<rparr>) q"
  by (rule fl_inv_stage [OF assms(1)])
    (use assms fl_invD(4,7) [OF assms(1)] in \<open>auto simp: fl_buf_def stage_inv_def fl_pending_def
      PacketProtoEncoder_output_handler_recv_def sizeof_packetproto_header_def nat_add_distrib Let_def\<close>)

lemma inv_recv_writer:
  assumes "fl_inv num s q" "fl_stage s = Recv_Writer p"
  shows "fl_inv num (s\<lparr>fl_flow := (fl_flow s)\<lparr>pf_ainput := BufferWriter_output_handler_recv (pf_ainput (fl_flow s)) p\<rparr>,
    fl_stage := Writing\<rparr>) q"
  by (rule fl_inv_stage [OF assms(1)])
    (use assms fl_invD(4,7) [OF assms(1)] in \<open>auto simp: fl_buf_def stage_inv_def fl_pending_def
      BufferWriter_output_handler_recv_def Let_def\<close>)

lemma fl_can_write:
  assumes "fl_inv num s q" "BufferWriter_StartPacket (pf_ainput (fl_flow s)) = Some p"
  obtains a where "fl_stage s = Writing" "input_dest (fl_buf s) = Some a" "p = Some (a + 2)"
    "enc_output_packet (pf_encoder (fl_flow s)) = Some a" "bw_mtu (pf_ainput (fl_flow s)) + 2 \<le> input_avail (fl_buf s)"
  using assms that
  by (auto simp: fl_inv_def BufferWriter_StartPacket_def stage_inv_def Let_def split: if_splits flow_stage.splits)

lemma inv_write:
  assumes inv: "fl_inv num s q" and w: "BufferWriter_StartPacket (pf_ainput (fl_flow s)) = Some (Some a)"
    and len: "int (length bs) \<le> bw_mtu (pf_ainput (fl_flow s))"
    and e: "BufferWriter_EndPacket (pf_ainput (fl_flow s)) (int (length bs)) = (bw, [BW_Done n])"
  shows "fl_inv num (s\<lparr>fl_mem := mem_write (fl_mem s) a bs, fl_flow := (fl_flow s)\<lparr>pf_ainput := bw\<rparr>,
    fl_stage := Done_Encoder n, fl_in := fl_in s @ [bs]\<rparr>) q"
proof -
  obtain b where b: "fl_stage s = Writing" "input_dest (fl_buf s) = Some b" "a = b + 2"
    "enc_output_packet (pf_encoder (fl_flow s)) = Some b" "bw_mtu (pf_ainput (fl_flow s)) + 2 \<le> input_avail (fl_buf s)"
    by (rule fl_can_write [OF inv w]) auto
  have "cb_rep (mem_write (fl_mem s) b (mem_read (fl_mem s) b 2 @ bs)) (fl_buf s) q"
    by (rule cb_rep_write_input [OF fl_invD(4) [OF inv] b(2)]) (use len b(5) in simp)
  then have r: "cb_rep (mem_write (fl_mem s) a bs) (fl_buf s) q" unfolding b(3) mem_write_behind .
  show ?thesis
    by (rule fl_inv_stage [OF inv])
      (use b r e len fl_invD(7) [OF inv] in \<open>auto simp: fl_buf_def stage_inv_def fl_pending_def BufferWriter_EndPacket_def
        mem_simps Let_def\<close>)
qed

lemma inv_done_encoder:
  assumes inv: "fl_inv num s q" and st: "fl_stage s = Done_Encoder n"
    and h: "PacketProtoEncoder_input_handler_done (fl_mem s) (pf_encoder (fl_flow s)) n = (m, enc, [Enc_Output_Done k])"
  shows "fl_inv num (s\<lparr>fl_mem := m, fl_flow := (fl_flow s)\<lparr>pf_encoder := enc\<rparr>, fl_stage := Done_Buffer k\<rparr>) q"
proof -
  let ?p = "last (fl_in s)"
  obtain a where a: "input_dest (fl_buf s) = Some a" "stage_inv s a"
    "bw_mtu (pf_ainput (fl_flow s)) + 2 \<le> input_avail (fl_buf s)"
    by (rule fl_stageD [OF inv]) (use st in auto)
  have p: "n = int (length ?p)" "mem_read (fl_mem s) (a + 2) (length ?p) = ?p" "enc_output_packet (pf_encoder (fl_flow s)) = Some a"
    "fl_in s \<noteq> []" "\<not> bw_out_have (pf_ainput (fl_flow s))" "int (length ?p) \<le> bw_mtu (pf_ainput (fl_flow s))"
    using a(2) st by (simp_all add: stage_inv_def Let_def)
  have m: "m = mem_write (fl_mem s) a (bytes16 (word_of_nat (length ?p)))" "k = 2 + int (length ?p)"
    using h p(1,3) by (auto simp: PacketProtoEncoder_input_handler_done_def Let_def byteorder_defs PACKETPROTO_ENCLEN_def
        sizeof_packetproto_header_def)
  have r: "cb_rep m (fl_buf s) q"
    unfolding m by (rule cb_rep_write_input [OF fl_invD(4) [OF inv] a(1)]) (use fl_invD(1) [OF inv] a(3) in simp)
  have f: "mem_read m a (2 + length ?p) = frame ?p"
    using p(2) by (subst mem_read_append) (simp add: m mem_simps frame_def)
  show ?thesis
    by (rule fl_inv_stage [OF inv])
      (use r f p m(2) a(1) st fl_invD(7) [OF inv] in \<open>auto simp: fl_buf_def stage_inv_def fl_pending_def Let_def\<close>)
qed

lemma inv_done_buffer:
  assumes inv: "fl_inv num s q" and st: "fl_stage s = Done_Buffer k"
    and h: "PacketBuffer_input_handler_done (fl_mem s) (pf_buffer (fl_flow s)) k = (m, pb, cs)"
  shows "fl_inv num (pb_effects cs (s\<lparr>fl_mem := m, fl_flow := (fl_flow s)\<lparr>pf_buffer := pb\<rparr>, fl_stage := Full\<rparr>))
    (q @ [frame (last (fl_in s))])"
proof -
  let ?p = "last (fl_in s)" and ?mtu = "bw_mtu (pf_ainput (fl_flow s))"
  let ?q = "q @ [frame ?p]"
  obtain a where a: "input_dest (fl_buf s) = Some a" "stage_inv s a" "?mtu + 2 \<le> input_avail (fl_buf s)"
    by (rule fl_stageD [OF inv]) (use st in auto)
  have p: "k = int (length (frame ?p))" "mem_read (fl_mem s) a (length (frame ?p)) = frame ?p" "fl_in s \<noteq> []"
    "\<not> bw_out_have (pf_ainput (fl_flow s))" "int (length ?p) \<le> ?mtu"
    using a(2) st by (simp_all add: stage_inv_def Let_def)
  obtain buf where sub: "ChunkBuffer2_SubmitPacket (fl_mem s) (fl_buf s) k = (m, buf)"
    and pb: "pb = (pf_buffer (fl_flow s))\<lparr>pb_buf := buf\<rparr>"
    and cs: "cs = (if input_avail buf \<ge> ?mtu + 2 then [PB_Recv (input_dest buf)] else [])
        @ (if output_avail (fl_buf s) < 0 then [PB_Send (output_dest buf) (output_avail buf)] else [])"
    using h fl_invD(5) [OF inv] by (auto simp: PacketBuffer_input_handler_done_def fl_buf_def Let_def split: prod.splits)
  have k: "0 \<le> k" "k \<le> input_avail (fl_buf s)" "k \<le> INT_MAX" using p(1,5) a(3) fl_invD(2) [OF inv] by simp_all
  have nk: "mem_read (fl_mem s) a (nat k) = frame ?p" using p(1,2) by (simp del: length_frame)
  have r: "cb_rep m buf ?q"
    using cb_rep_Submit [OF fl_invD(4) [OF inv] a(1) k sub] unfolding nk .
  have "output_avail (fl_buf s) < 0 \<longleftrightarrow> q = []"
    using cb_rep_output_avail [OF fl_invD(4) [OF inv]] by auto
  moreover have "output_dest buf = output_dest (fl_buf s) \<and> output_avail buf = output_avail (fl_buf s)" if "q \<noteq> []"
    using that cb_rep_Cons_output(1,2) [of m buf "hd q" "tl q @ [frame ?p]"]
      cb_rep_Cons_output(1,2) [of "fl_mem s" "fl_buf s" "hd q" "tl q"] r fl_invD(4) [OF inv] Submit_fields(1,2) [OF sub]
    by (cases q) auto
  ultimately have sending: "fl_sending (pb_effects cs s') = Some (output_dest buf, output_avail buf)"
    if "fl_sending s' = fl_sending s" for s'
    using that fl_invD(6) [OF inv] by (auto simp: cs)
  define s1 where "s1 = pb_effects cs (s\<lparr>fl_mem := m, fl_flow := (fl_flow s)\<lparr>pf_buffer := pb\<rparr>, fl_stage := Full\<rparr>)"
  have f1: "fl_buf s1 = buf" "fl_mem s1 = m" "pf_ainput (fl_flow s1) = pf_ainput (fl_flow s)" "fl_in s1 = fl_in s" "fl_out s1 = fl_out s"
    "pb_input_mtu (pf_buffer (fl_flow s1)) = ?mtu + 2" "fl_sending s1 = Some (output_dest buf, output_avail buf)"
    using sending fl_invD(5) [OF inv] by (simp_all add: s1_def fl_buf_def pb)
  have stage: "if input_avail buf < ?mtu + 2 then fl_stage s1 = Full else \<exists>b. input_dest buf = Some b \<and> fl_stage s1 = Recv_Encoder (Some b)"
    using input_dest_Some [OF r] fl_invD(1) [OF inv] by (auto simp: s1_def cs)
  then have "fl_pending s1 = []" by (auto simp: fl_pending_def split: if_splits)
  moreover have "map frame (fl_in s) = fl_out s @ ?q" using fl_invD(7) [OF inv] st by (simp add: fl_pending_def)
  moreover have "\<forall>x\<in>set ?q. int (length x) \<le> ?mtu + 2" using fl_invD(8) [OF inv] p(5) by auto
  moreover have "if input_avail buf < ?mtu + 2 then fl_stage s1 = Full \<and> \<not> bw_out_have (pf_ainput (fl_flow s))
      else \<exists>b. input_dest buf = Some b \<and> stage_inv s1 b"
    using stage p(4) f1(3) by (auto simp: stage_inv_def Let_def split: if_splits)
  ultimately show ?thesis
    using fl_invD(1-3,9-11) [OF inv] r Submit_fields(3,4) [OF sub] f1 unfolding s1_def [symmetric] fl_inv_def Let_def
    by simp
qed

lemma inv_sent:
  assumes inv: "fl_inv num s q" and snd: "fl_sending s = Some (Some a, n)"
    and h: "PacketBuffer_output_handler_done (fl_mem s) (pf_buffer (fl_flow s)) = (pb, cs)"
  shows "fl_inv num (pb_effects cs (s\<lparr>fl_flow := (fl_flow s)\<lparr>pf_buffer := pb\<rparr>, fl_sending := None,
    fl_out := fl_out s @ [mem_read (fl_mem s) a (nat n)]\<rparr>)) (tl q)"
proof -
  let ?mtu = "bw_mtu (pf_ainput (fl_flow s))" and ?buf = "ChunkBuffer2_ConsumePacket (fl_mem s) (fl_buf s)"
  obtain p q' where q: "q = p # q'" using fl_invD(6) [OF inv] snd by (cases q) auto
  have rq: "cb_rep (fl_mem s) (fl_buf s) (p # q')" using fl_invD(4) [OF inv] q by simp
  have out: "mem_read (fl_mem s) a (nat n) = p"
    using cb_rep_Cons_output [OF rq] fl_invD(6) [OF inv] snd q by auto
  have r: "cb_rep (fl_mem s) ?buf q'" by (rule cb_rep_Consume [OF rq])
  have pb: "pb = (pf_buffer (fl_flow s))\<lparr>pb_buf := ?buf\<rparr>"
    and cs: "cs = (if input_avail (fl_buf s) < ?mtu + 2 \<and> input_avail ?buf \<ge> ?mtu + 2 then [PB_Recv (input_dest ?buf)] else [])
        @ (if q' \<noteq> [] then [PB_Send (output_dest ?buf) (output_avail ?buf)] else [])"
    using h fl_invD(5) [OF inv] cb_rep_output_avail [OF r]
    by (auto simp: PacketBuffer_output_handler_done_def fl_buf_def Let_def)
  have dest: "\<exists>b. input_dest ?buf = Some b" if "input_avail ?buf \<ge> ?mtu + 2"
    using input_dest_Some [OF r] that fl_invD(1) [OF inv] by simp
  let ?s = "s\<lparr>fl_flow := (fl_flow s)\<lparr>pf_buffer := pb\<rparr>, fl_sending := None, fl_out := fl_out s @ [p]\<rparr>"
  have stage: "if input_avail ?buf < ?mtu + 2 then fl_stage (pb_effects cs ?s) = Full \<and> \<not> bw_out_have (pf_ainput (fl_flow s))
      else \<exists>b. input_dest ?buf = Some b \<and> stage_inv (pb_effects cs ?s) b"
  proof (cases "input_avail (fl_buf s) < ?mtu + 2")
    case True
    then have "fl_stage s = Full" "\<not> bw_out_have (pf_ainput (fl_flow s))" using inv by (simp_all add: fl_inv_def Let_def)
    with True dest show ?thesis by (auto simp: cs stage_inv_def)
  next
    case False
    then obtain b where b: "input_dest (fl_buf s) = Some b" "stage_inv s b" using inv by (auto simp: fl_inv_def Let_def)
    with cb_Consume_input_stable [OF rq b(1) fl_invD(11) [OF inv]] False show ?thesis
      by (auto simp: cs stage_inv_def Let_def pb split: flow_stage.splits)
  qed
  have pend: "fl_pending (pb_effects cs ?s) = fl_pending s"
    using inv by (auto simp: fl_inv_def fl_pending_def cs Let_def split: flow_stage.splits)
  show ?thesis
    using fl_invD [OF inv] r Consume_fields [of "fl_mem s" "fl_buf s"] stage pend unfolding out q fl_inv_def Let_def
    by (auto simp: fl_buf_def pb cs)
qed

lemma fl_step_inv:
  assumes "fl_step s s'" "fl_inv num s q"
  shows "\<exists>q'. fl_inv num s' q'"
  using assms(1)
proof (cases rule: fl_step.cases)
  case (fl_done_buffer k m pb cs)
  with inv_done_buffer [OF assms(2)] show ?thesis by blast
next
  case (fl_sent a n pb cs)
  with inv_sent [OF assms(2)] show ?thesis by blast
qed (use inv_recv_encoder [OF assms(2)] inv_recv_writer [OF assms(2)] inv_write [OF assms(2)]
    inv_done_encoder [OF assms(2)] in blast)+

lemma fl_run_inv: "fl_run s s' \<Longrightarrow> fl_inv num s q \<Longrightarrow> \<exists>q'. fl_inv num s' q'"
  by (induction arbitrary: q rule: converse_rtranclp_induct) (auto dest: fl_step_inv)

lemma fl_step_mtu: "fl_step s s' \<Longrightarrow> bw_mtu (pf_ainput (fl_flow s')) = bw_mtu (pf_ainput (fl_flow s))"
  by (induction rule: fl_step.induct) (auto simp: BufferWriter_output_handler_recv_def BufferWriter_EndPacket_def)

lemma fl_run_mtu:
  assumes "fl_run (flow_start m flow calls) s" "PacketProtoFlow_Init m alloc mtu num = Some (flow, calls)"
  shows "bw_mtu (pf_ainput (fl_flow s)) = mtu"
proof -
  have "bw_mtu (pf_ainput (fl_flow s)) = bw_mtu (pf_ainput (fl_flow (flow_start m flow calls)))"
    using assms(1) by induction (auto dest: fl_step_mtu)
  then show ?thesis using assms(2)
    by (auto simp: flow_start_def PacketProtoFlow_Init_def BufferWriter_Init_def Let_def split: option.splits)
qed

text \<open>A request or completion on its way is a pending job.\<close>

lemma fl_job_step:
  assumes inv: "fl_inv num s q" and "fl_stage s \<noteq> Full" "BufferWriter_StartPacket (pf_ainput (fl_flow s)) = None"
  shows "\<exists>s'. fl_step s s' \<and> fl_in s' = fl_in s \<and> fl_out s' = fl_out s"
proof (cases "fl_stage s")
  case (Recv_Encoder p)
  from fl_recv_encoder [OF this PacketProtoEncoder_output_handler_recv_def] show ?thesis by fastforce
next
  case (Recv_Writer p)
  from fl_recv_writer [OF this] show ?thesis by fastforce
next
  case Writing
  obtain a where "stage_inv s a" by (rule fl_stageD [OF inv assms(2)])
  with Writing assms(3) show ?thesis by (simp add: stage_inv_def BufferWriter_StartPacket_def Let_def)
next
  case (Done_Encoder n)
  obtain m enc k where "PacketProtoEncoder_input_handler_done (fl_mem s) (pf_encoder (fl_flow s)) n = (m, enc, [Enc_Output_Done k])"
    by (simp add: PacketProtoEncoder_input_handler_done_def Let_def)
  from fl_done_encoder [OF Done_Encoder this] show ?thesis by fastforce
next
  case (Done_Buffer k)
  obtain m pb cs where "PacketBuffer_input_handler_done (fl_mem s) (pf_buffer (fl_flow s)) k = (m, pb, cs)"
    by (rule prod_cases3)
  from fl_done_buffer [OF Done_Buffer this] show ?thesis by fastforce
qed (use assms in simp)

section \<open>Property\<close>

text \<open>
  C18: The send path of a connection loses, reorders and damages nothing and does not get stuck: in every
  reachable state the packets finished by the output are the frames of a prefix of the packets written; the
  packet being sent is the frame of the next one and within the MTU; whatever was written and is not on its
  way inside the flow is being sent; and when the user cannot write, either a job of the flow is pending or
  the output is busy and at least \<open>num\<close> packets are waiting. The ring has at most \<open>2 ^ 29\<close> blocks: in a
  larger one, which \<^verbatim>\<open>ChunkBuffer2_calc_blocks\<close> allows, the free space may wrap as a C \<^verbatim>\<open>int\<close>.
\<close>

theorem packet_flow_delivers:
  assumes "PacketProtoFlow_Init m alloc mtu num = Some (flow, calls)" and "0 \<le> mtu" and "mtu \<le> UINT16_MAX" and "0 < num"
    and "ChunkBuffer2_calc_blocks (mtu + 2) num \<le> 2 ^ 29"
    and "fl_run (flow_start m flow calls) s"
  shows "\<exists>rest. map frame (fl_in s) = fl_out s @ rest
    \<and> (\<forall>p n. fl_sending s = Some (p, n) \<longrightarrow> rest \<noteq> [] \<and> n = int (length (hd rest)) \<and> n \<le> mtu + 2
          \<and> (\<exists>a. p = Some a \<and> mem_read (fl_mem s) a (nat n) = hd rest))
    \<and> (fl_sending s = None \<longrightarrow> rest = map frame (fl_pending s))
    \<and> (BufferWriter_StartPacket (pf_ainput (fl_flow s)) = None \<longrightarrow>
          (\<exists>s'. fl_step s s' \<and> fl_in s' = fl_in s \<and> fl_out s' = fl_out s)
        \<or> fl_sending s \<noteq> None \<and> num \<le> int (length rest))"
proof -
  obtain q where inv: "fl_inv num s q" using fl_run_inv [OF assms(6) fl_inv_start [OF assms(1-5)]] by blast
  have mtu: "bw_mtu (pf_ainput (fl_flow s)) = mtu" by (rule fl_run_mtu [OF assms(6,1)])
  let ?rest = "q @ map frame (fl_pending s)"
  note d = fl_invD [OF inv]
  have snd: "?rest \<noteq> [] \<and> n = int (length (hd ?rest)) \<and> n \<le> mtu + 2
      \<and> (\<exists>a. p = Some a \<and> mem_read (fl_mem s) a (nat n) = hd ?rest)" if s: "fl_sending s = Some (p, n)" for p n
  proof -
    obtain x y where q: "q = x # y" using d(6) s by (cases q) auto
    then have "cb_rep (fl_mem s) (fl_buf s) (x # y)" using d(4) by simp
    from cb_rep_Cons_output [OF this] d(6) s d(8) [of x] q mtu show ?thesis by auto
  qed
  have stuck: "(\<exists>s'. fl_step s s' \<and> fl_in s' = fl_in s \<and> fl_out s' = fl_out s)
      \<or> fl_sending s \<noteq> None \<and> num \<le> int (length ?rest)"
    if "BufferWriter_StartPacket (pf_ainput (fl_flow s)) = None"
  proof (cases "fl_stage s = Full")
    case True
    then have "input_avail (fl_buf s) < mtu + 2" using inv mtu by (auto simp: fl_inv_def stage_inv_def Let_def split: if_splits)
    then have "num \<le> int (length q)" using fl_room [OF inv] mtu by fastforce
    moreover have "q \<noteq> []" using calculation d(3) by auto
    ultimately show ?thesis using d(6) by simp
  next
    case False
    then show ?thesis using fl_job_step [OF inv _ that] by blast
  qed
  show ?thesis
    by (rule exI [of _ ?rest]) (use d(6,7) snd stuck in auto)
qed

lemma demo_flow_init:
  "\<exists>flow. PacketProtoFlow_Init (\<lambda>_. 0) (Some 64) 4 2 = Some (flow, [PB_Recv (Some 68)])
    \<and> bw_mtu (pf_ainput flow) = 4"
  by (simp add: PacketProtoFlow_Init_def PacketBuffer_Init_def BufferWriter_Init_def PacketProtoEncoder_Init_def
      PACKETPROTO_ENCLEN_def sizeof_packetproto_header_def ChunkBuffer2_calc_blocks_def ChunkBuffer2_Init_def
      ChunkBuffer2_update_input_def ChunkBuffer2_update_output_def ChunkBuffer2_end_def blk_def blocks_for_def bdivide_up_def
      c_int_def Let_def)

theorem packet_flow_delivers_witness:
  "\<exists>flow calls s rest. PacketProtoFlow_Init (\<lambda>_. 0) (Some 64) 4 2 = Some (flow, calls)
    \<and> fl_run (flow_start (\<lambda>_. 0) flow calls) s \<and> fl_in s = [[7]] \<and> map frame [[7]] = fl_out s @ rest"
proof -
  obtain flow where i: "PacketProtoFlow_Init (\<lambda>_. 0) (Some 64) 4 2 = Some (flow, [PB_Recv (Some 68)])"
    and mtu: "bw_mtu (pf_ainput flow) = 4" using demo_flow_init by blast
  let ?s0 = "flow_start (\<lambda>_. 0) flow [PB_Recv (Some 68)]"
  let ?enc = "(pf_encoder flow)\<lparr>enc_output_packet := Some 68\<rparr>"
  let ?s1 = "?s0\<lparr>fl_flow := flow\<lparr>pf_encoder := ?enc\<rparr>, fl_stage := Recv_Writer (Some 70)\<rparr>"
  let ?bw = "BufferWriter_output_handler_recv (pf_ainput flow) (Some 70)"
  let ?s2 = "?s1\<lparr>fl_flow := flow\<lparr>pf_encoder := ?enc, pf_ainput := ?bw\<rparr>, fl_stage := Writing\<rparr>"
  have 1: "fl_step ?s0 ?s1"
    using fl_recv_encoder [of ?s0 "Some 68" ?enc "Some 70"]
    by (simp add: flow_start_def PacketProtoEncoder_output_handler_recv_def sizeof_packetproto_header_def)
  have 2: "fl_step ?s1 ?s2"
    using fl_recv_writer [of ?s1 "Some 70"] by simp
  obtain s3 where 3: "fl_step ?s2 s3" "fl_in s3 = [[7]]"
    using fl_write [of ?s2 70 "[7]" "?bw\<lparr>bw_out_have := False\<rparr>" 1] mtu
    by (simp add: BufferWriter_StartPacket_def BufferWriter_output_handler_recv_def BufferWriter_EndPacket_def flow_start_def)
  have r: "fl_run ?s0 s3"
    by (rule rtranclp.rtrancl_into_rtrancl [where b = ?s2], rule rtranclp.rtrancl_into_rtrancl [where b = ?s1],
        rule r_into_rtranclp [where r = fl_step]) (rule 1 2 3(1))+
  have "ChunkBuffer2_calc_blocks (4 + 2) 2 \<le> 2 ^ 29"
    by (simp add: ChunkBuffer2_calc_blocks_def blocks_for_def bdivide_up_def)
  from packet_flow_delivers [OF i _ _ _ this r] r 3(2) i show ?thesis by auto
qed

end
