(* ===== verification/Stream_Path.thy ===== *)
theory Stream_Path
  imports Misc
begin

text \<open>
  The end of the send path to the gateway: \<^verbatim>\<open>flow/PacketPassConnector.c\<close>, which keeps the packet at hand while
  no server is connected, and \<^verbatim>\<open>flow/PacketStreamSender.c\<close>, which passes packets to a stream; with them the
  other small elements of the program: \<^verbatim>\<open>flow/SinglePacketBuffer.c\<close> between device and program, and
  \<^verbatim>\<open>flowextra/PacketPassInactivityMonitor.c\<close>, which triggers the keep-alive packets.

  \<open>path_sys\<close> is connector and sender together. What an element calls on the other is a pending job;
  connecting and disconnecting a server can come between any two jobs, and disconnecting drops the jobs
  of the sender (\<^verbatim>\<open>PacketPassInterface_Free\<close>).
\<close>

section \<open>The code\<close>

subsection \<open>PacketPassConnector\<close>

record PacketPassConnector =
  pc_input_mtu :: int
  pc_in_len :: int
  pc_in :: ptr
  pc_output :: bool

datatype pc_call = PC_Output_Send ptr int | PC_Input_Done

definition PacketPassConnector_input_handler_send ::
    "PacketPassConnector \<Rightarrow> ptr \<Rightarrow> int \<Rightarrow> PacketPassConnector \<times> pc_call list" where
  "PacketPassConnector_input_handler_send o1 data data_len =
     (let o1 = o1\<lparr>pc_in_len := data_len, pc_in := data\<rparr>
      in (o1, if pc_output o1 then [PC_Output_Send (pc_in o1) (pc_in_len o1)] else []))"

definition PacketPassConnector_output_handler_done :: "PacketPassConnector \<Rightarrow> PacketPassConnector \<times> pc_call list" where
  "PacketPassConnector_output_handler_done o1 = (o1\<lparr>pc_in_len := -1\<rparr>, [PC_Input_Done])"

definition PacketPassConnector_Init :: "int \<Rightarrow> PacketPassConnector" where
  "PacketPassConnector_Init mtu = \<lparr>pc_input_mtu = mtu, pc_in_len = -1, pc_in = NULL, pc_output = False\<rparr>"

definition PacketPassConnector_ConnectOutput :: "PacketPassConnector \<Rightarrow> PacketPassConnector \<times> pc_call list" where
  "PacketPassConnector_ConnectOutput o1 =
     (o1\<lparr>pc_output := True\<rparr>, if pc_in_len o1 \<ge> 0 then [PC_Output_Send (pc_in o1) (pc_in_len o1)] else [])"

definition PacketPassConnector_DisconnectOutput :: "PacketPassConnector \<Rightarrow> PacketPassConnector" where
  "PacketPassConnector_DisconnectOutput o1 = o1\<lparr>pc_output := False\<rparr>"

subsection \<open>PacketStreamSender\<close>

record PacketStreamSender =
  ps_in_len :: int
  ps_in :: ptr
  ps_in_used :: int

datatype ps_call = PS_Output_Send ptr int | PS_Input_Done

definition PacketStreamSender_send_data :: "PacketStreamSender \<Rightarrow> PacketStreamSender \<times> ps_call list" where
  "PacketStreamSender_send_data s =
     (if ps_in_used s < ps_in_len s
      then (s, [PS_Output_Send (padd (ps_in s) (ps_in_used s)) (ps_in_len s - ps_in_used s)])
      else (s\<lparr>ps_in_len := -1\<rparr>, [PS_Input_Done]))"

definition PacketStreamSender_input_handler_send ::
    "PacketStreamSender \<Rightarrow> ptr \<Rightarrow> int \<Rightarrow> PacketStreamSender \<times> ps_call list" where
  "PacketStreamSender_input_handler_send s data data_len =
     PacketStreamSender_send_data (s\<lparr>ps_in_len := data_len, ps_in := data, ps_in_used := 0\<rparr>)"

definition PacketStreamSender_output_handler_done ::
    "PacketStreamSender \<Rightarrow> int \<Rightarrow> PacketStreamSender \<times> ps_call list" where
  "PacketStreamSender_output_handler_done s data_len =
     PacketStreamSender_send_data (s\<lparr>ps_in_used := ps_in_used s + data_len\<rparr>)"

definition PacketStreamSender_Init :: PacketStreamSender where
  "PacketStreamSender_Init = \<lparr>ps_in_len = -1, ps_in = NULL, ps_in_used = 0\<rparr>"

subsection \<open>SinglePacketBuffer\<close>

record SinglePacketBuffer =
  sb_buf :: nat

datatype sb_call = SB_Recv nat | SB_Send nat int

definition SinglePacketBuffer_input_handler_done :: "SinglePacketBuffer \<Rightarrow> int \<Rightarrow> sb_call list" where
  "SinglePacketBuffer_input_handler_done o1 in_len = [SB_Send (sb_buf o1) in_len]"

definition SinglePacketBuffer_output_handler_done :: "SinglePacketBuffer \<Rightarrow> sb_call list" where
  "SinglePacketBuffer_output_handler_done o1 = [SB_Recv (sb_buf o1)]"

definition SinglePacketBuffer_Init :: "nat option \<Rightarrow> (SinglePacketBuffer \<times> sb_call list) option" where
  "SinglePacketBuffer_Init alloc =
     (case alloc of None \<Rightarrow> None | Some b \<Rightarrow> Some (\<lparr>sb_buf = b\<rparr>, [SB_Recv b]))"

subsection \<open>PacketPassInactivityMonitor\<close>

record PacketPassInactivityMonitor =
  pm_handler :: "nat option"
  pm_timer :: bool

datatype pm_call = PM_Output_Send ptr int | PM_Output_RequestCancel | PM_Input_Done | PM_Handler nat | PM_Timer_After int

definition PacketPassInactivityMonitor_input_handler_send ::
    "PacketPassInactivityMonitor \<Rightarrow> ptr \<Rightarrow> int \<Rightarrow> PacketPassInactivityMonitor \<times> pm_call list" where
  "PacketPassInactivityMonitor_input_handler_send o1 data data_len =
     (o1\<lparr>pm_timer := False\<rparr>, [PM_Output_Send data data_len])"

definition PacketPassInactivityMonitor_input_handler_requestcancel ::
    "PacketPassInactivityMonitor \<Rightarrow> PacketPassInactivityMonitor \<times> pm_call list" where
  "PacketPassInactivityMonitor_input_handler_requestcancel o1 = (o1, [PM_Output_RequestCancel])"

definition PacketPassInactivityMonitor_output_handler_done ::
    "PacketPassInactivityMonitor \<Rightarrow> PacketPassInactivityMonitor \<times> pm_call list" where
  "PacketPassInactivityMonitor_output_handler_done o1 = (o1\<lparr>pm_timer := True\<rparr>, [PM_Input_Done])"

definition PacketPassInactivityMonitor_timer_handler ::
    "PacketPassInactivityMonitor \<Rightarrow> PacketPassInactivityMonitor \<times> pm_call list" where
  "PacketPassInactivityMonitor_timer_handler o1 =
     (let o1 = o1\<lparr>pm_timer := True\<rparr>
      in (o1, case pm_handler o1 of None \<Rightarrow> [] | Some user \<Rightarrow> [PM_Handler user]))"

definition PacketPassInactivityMonitor_Init :: "nat option \<Rightarrow> PacketPassInactivityMonitor" where
  "PacketPassInactivityMonitor_Init handler = \<lparr>pm_handler = handler, pm_timer = True\<rparr>"

definition PacketPassInactivityMonitor_Free :: "PacketPassInactivityMonitor \<Rightarrow> PacketPassInactivityMonitor" where
  "PacketPassInactivityMonitor_Free o1 = o1\<lparr>pm_timer := False\<rparr>"

definition PacketPassInactivityMonitor_SetHandler ::
    "nat option \<Rightarrow> PacketPassInactivityMonitor \<Rightarrow> PacketPassInactivityMonitor" where
  "PacketPassInactivityMonitor_SetHandler handler o1 = o1\<lparr>pm_handler := handler\<rparr>"

definition PacketPassInactivityMonitor_Force ::
    "PacketPassInactivityMonitor \<Rightarrow> PacketPassInactivityMonitor \<times> pm_call list" where
  "PacketPassInactivityMonitor_Force o1 = (o1\<lparr>pm_timer := True\<rparr>, [PM_Timer_After 0])"

section \<open>Connector and sender together\<close>

text \<open>
  \<open>pt_all\<close> and \<open>pt_done\<close> record the packets given to the connector and reported as sent, \<open>pt_sent\<close> those
  reported since the server was connected, \<open>pt_stream\<close> the bytes the connected server has taken.
\<close>

record path_sys =
  pt_mem :: mem
  pt_con :: PacketPassConnector
  pt_sender :: "PacketStreamSender option"
  pt_op :: "(ptr \<times> int) option"
  pt_done_job :: bool
  pt_out :: "(ptr \<times> int) option"
  pt_busy :: bool
  pt_all :: "byte list list"
  pt_done :: "byte list list"
  pt_sent :: "byte list list"
  pt_stream :: "byte list"

fun pc_effects :: "pc_call list \<Rightarrow> path_sys \<Rightarrow> path_sys" where
  "pc_effects [] s = s"
| "pc_effects (PC_Output_Send p n # cs) s = pc_effects cs (s\<lparr>pt_op := Some (p, n)\<rparr>)"
| "pc_effects (PC_Input_Done # cs) s = pc_effects cs (s\<lparr>pt_busy := False, pt_done := pt_done s @ [last (pt_all s)],
     pt_sent := pt_sent s @ [last (pt_all s)]\<rparr>)"

fun ps_effects :: "ps_call list \<Rightarrow> path_sys \<Rightarrow> path_sys" where
  "ps_effects [] s = s"
| "ps_effects (PS_Output_Send p n # cs) s = ps_effects cs (s\<lparr>pt_out := Some (p, n)\<rparr>)"
| "ps_effects (PS_Input_Done # cs) s = ps_effects cs (s\<lparr>pt_done_job := True\<rparr>)"

definition path_start :: "mem \<Rightarrow> int \<Rightarrow> path_sys" where
  "path_start m mtu = \<lparr>pt_mem = m, pt_con = PacketPassConnector_Init mtu, pt_sender = None, pt_op = None,
     pt_done_job = False, pt_out = None, pt_busy = False, pt_all = [], pt_done = [], pt_sent = [], pt_stream = []\<rparr>"

inductive pt_step :: "path_sys \<Rightarrow> path_sys \<Rightarrow> bool" where
  pt_submit: "\<not> pt_busy s \<Longrightarrow> int (length bs) \<le> pc_input_mtu (pt_con s) \<Longrightarrow>
    PacketPassConnector_input_handler_send (pt_con s) (Some a) (int (length bs)) = (con, cs) \<Longrightarrow>
    pt_step s (pc_effects cs (s\<lparr>pt_mem := mem_write (pt_mem s) a bs, pt_con := con, pt_busy := True,
      pt_all := pt_all s @ [bs]\<rparr>))"
| pt_run_op: "pt_op s = Some (p, n) \<Longrightarrow> pt_sender s = Some sn \<Longrightarrow>
    PacketStreamSender_input_handler_send sn p n = (sn', cs) \<Longrightarrow>
    pt_step s (ps_effects cs (s\<lparr>pt_op := None, pt_sender := Some sn'\<rparr>))"
| pt_taken: "pt_out s = Some (Some a, n) \<Longrightarrow> pt_sender s = Some sn \<Longrightarrow> 0 < k \<Longrightarrow> k \<le> n \<Longrightarrow>
    PacketStreamSender_output_handler_done sn k = (sn', cs) \<Longrightarrow>
    pt_step s (ps_effects cs (s\<lparr>pt_out := None, pt_sender := Some sn',
      pt_stream := pt_stream s @ mem_read (pt_mem s) a (nat k)\<rparr>))"
| pt_run_done: "pt_done_job s \<Longrightarrow> PacketPassConnector_output_handler_done (pt_con s) = (con, cs) \<Longrightarrow>
    pt_step s (pc_effects cs (s\<lparr>pt_done_job := False, pt_con := con\<rparr>))"
| pt_connect: "pt_sender s = None \<Longrightarrow> PacketPassConnector_ConnectOutput (pt_con s) = (con, cs) \<Longrightarrow>
    pt_step s (pc_effects cs (s\<lparr>pt_con := con, pt_sender := Some PacketStreamSender_Init, pt_sent := [], pt_stream := []\<rparr>))"
| pt_disconnect: "pt_sender s = Some sn \<Longrightarrow>
    pt_step s (s\<lparr>pt_con := PacketPassConnector_DisconnectOutput (pt_con s), pt_sender := None, pt_op := None,
      pt_done_job := False, pt_out := None\<rparr>)"

abbreviation pt_run :: "path_sys \<Rightarrow> path_sys \<Rightarrow> bool" where
  "pt_run \<equiv> pt_step\<^sup>*\<^sup>*"

section \<open>The invariant\<close>

definition pt_cur :: "path_sys \<Rightarrow> byte list" where
  "pt_cur s = (if pt_busy s then last (pt_all s) else [])"

lemma pt_cur_frame [simp]:
  "pt_cur (s\<lparr>pt_con := con\<rparr>) = pt_cur s" "pt_cur (s\<lparr>pt_sender := sn\<rparr>) = pt_cur s" "pt_cur (s\<lparr>pt_op := p\<rparr>) = pt_cur s"
  "pt_cur (s\<lparr>pt_done_job := j\<rparr>) = pt_cur s" "pt_cur (s\<lparr>pt_out := p\<rparr>) = pt_cur s" "pt_cur (s\<lparr>pt_done := ps\<rparr>) = pt_cur s"
  "pt_cur (s\<lparr>pt_sent := ps\<rparr>) = pt_cur s" "pt_cur (s\<lparr>pt_stream := st\<rparr>) = pt_cur s"
  by (simp_all add: pt_cur_def)

text \<open>The sender's part, while a server is connected.\<close>

definition sender_inv :: "path_sys \<Rightarrow> nat \<Rightarrow> PacketStreamSender \<Rightarrow> bool" where
  "sender_inv s a sn \<longleftrightarrow>
     (if \<not> pt_busy s then pt_op s = None \<and> \<not> pt_done_job s \<and> pt_out s = None \<and> pt_stream s = concat (pt_sent s)
      else if pt_done_job s then pt_op s = None \<and> pt_out s = None \<and> pt_stream s = concat (pt_sent s) @ pt_cur s
      else (case pt_out s of
              None \<Rightarrow> pt_op s = Some (Some a, int (length (pt_cur s))) \<and> pt_stream s = concat (pt_sent s)
            | Some (p, n) \<Rightarrow> pt_op s = None \<and> ps_in_len sn = int (length (pt_cur s)) \<and> ps_in sn = Some a
                \<and> 0 \<le> ps_in_used sn \<and> ps_in_used sn < ps_in_len sn
                \<and> p = Some (a + nat (ps_in_used sn)) \<and> n = ps_in_len sn - ps_in_used sn
                \<and> pt_stream s = concat (pt_sent s) @ take (nat (ps_in_used sn)) (pt_cur s)))"

definition pt_inv :: "path_sys \<Rightarrow> bool" where
  "pt_inv s \<longleftrightarrow>
     pt_all s = pt_done s @ (if pt_busy s then [pt_cur s] else [])
   \<and> (\<exists>before. pt_done s = before @ pt_sent s)
   \<and> (pt_busy s \<longleftrightarrow> pc_in_len (pt_con s) \<ge> 0)
   \<and> (pc_output (pt_con s) \<longleftrightarrow> pt_sender s \<noteq> None)
   \<and> (\<exists>a. (pt_busy s \<longrightarrow> pc_in (pt_con s) = Some a \<and> pc_in_len (pt_con s) = int (length (pt_cur s))
              \<and> mem_read (pt_mem s) a (length (pt_cur s)) = pt_cur s)
         \<and> (case pt_sender s of
              None \<Rightarrow> pt_op s = None \<and> \<not> pt_done_job s \<and> pt_out s = None
            | Some sn \<Rightarrow> sender_inv s a sn))"

lemma pt_inv_start: "pt_inv (path_start m mtu)"
  by (simp add: pt_inv_def path_start_def PacketPassConnector_Init_def)

lemma pt_invD:
  assumes "pt_inv s"
  shows "pt_all s = pt_done s @ (if pt_busy s then [pt_cur s] else [])" "\<exists>before. pt_done s = before @ pt_sent s"
    "pt_busy s \<longleftrightarrow> pc_in_len (pt_con s) \<ge> 0" "pc_output (pt_con s) \<longleftrightarrow> pt_sender s \<noteq> None"
    "pt_sender s = None \<Longrightarrow> pt_op s = None \<and> \<not> pt_done_job s \<and> pt_out s = None"
    "\<not> pt_busy s \<Longrightarrow> pt_op s = None \<and> \<not> pt_done_job s \<and> pt_out s = None"
    "\<not> pt_busy s \<Longrightarrow> pt_sender s = Some sn \<Longrightarrow> pt_stream s = concat (pt_sent s)"
  using assms by (cases "pt_sender s"; auto simp: pt_inv_def sender_inv_def simp del: not_None_eq)+

lemma pt_inv_busy:
  assumes "pt_inv s" "pt_busy s"
  obtains a where "pc_in (pt_con s) = Some a" "pc_in_len (pt_con s) = int (length (pt_cur s))"
    "mem_read (pt_mem s) a (length (pt_cur s)) = pt_cur s" "\<And>sn. pt_sender s = Some sn \<Longrightarrow> sender_inv s a sn"
  using assms unfolding pt_inv_def by (elim conjE exE) (auto split: option.splits)

lemma inv_submit:
  assumes inv: "pt_inv s" and b: "\<not> pt_busy s"
    and h: "PacketPassConnector_input_handler_send (pt_con s) (Some a) (int (length bs)) = (con, cs)"
  shows "pt_inv (pc_effects cs (s\<lparr>pt_mem := mem_write (pt_mem s) a bs, pt_con := con, pt_busy := True,
      pt_all := pt_all s @ [bs]\<rparr>))"
proof -
  note d = pt_invD [OF inv]
  have con: "con = (pt_con s)\<lparr>pc_in_len := int (length bs), pc_in := Some a\<rparr>"
    and cs: "cs = (if pt_sender s \<noteq> None then [PC_Output_Send (Some a) (int (length bs))] else [])"
    using h d(4) by (auto simp: PacketPassConnector_input_handler_send_def Let_def)
  show ?thesis
    unfolding pt_inv_def
    by (intro conjI exI [of _ a]; cases "pt_sender s")
      (use d(1,2,4,6,7) b in \<open>simp_all add: con cs pt_cur_def sender_inv_def mem_simps\<close>)
qed

lemma inv_connect:
  assumes inv: "pt_inv s" and n: "pt_sender s = None" and h: "PacketPassConnector_ConnectOutput (pt_con s) = (con, cs)"
  shows "pt_inv (pc_effects cs (s\<lparr>pt_con := con, pt_sender := Some PacketStreamSender_Init, pt_sent := [], pt_stream := []\<rparr>))"
proof -
  note d = pt_invD [OF inv]
  have con: "con = (pt_con s)\<lparr>pc_output := True\<rparr>"
    and cs: "cs = (if pt_busy s then [PC_Output_Send (pc_in (pt_con s)) (pc_in_len (pt_con s))] else [])"
    using h d(3) by (auto simp: PacketPassConnector_ConnectOutput_def)
  show ?thesis
  proof (cases "pt_busy s")
    case True
    obtain a where "pc_in (pt_con s) = Some a" "pc_in_len (pt_con s) = int (length (pt_cur s))"
      "mem_read (pt_mem s) a (length (pt_cur s)) = pt_cur s" by (rule pt_inv_busy [OF inv True])
    then show ?thesis unfolding pt_inv_def
      by (intro conjI exI [of _ a]) (use d(1,3,5) n True in \<open>simp_all add: con cs sender_inv_def\<close>)
  next
    case False
    then show ?thesis using d(1,3,5) n by (simp add: pt_inv_def con cs sender_inv_def)
  qed
qed

lemma inv_disconnect:
  assumes inv: "pt_inv s"
  shows "pt_inv (s\<lparr>pt_con := PacketPassConnector_DisconnectOutput (pt_con s), pt_sender := None, pt_op := None,
      pt_done_job := False, pt_out := None\<rparr>)"
  using assms by (auto simp: pt_inv_def PacketPassConnector_DisconnectOutput_def)

lemma inv_run_done:
  assumes inv: "pt_inv s" and j: "pt_done_job s" and h: "PacketPassConnector_output_handler_done (pt_con s) = (con, cs)"
  shows "pt_inv (pc_effects cs (s\<lparr>pt_done_job := False, pt_con := con\<rparr>))"
proof -
  note d = pt_invD [OF inv]
  have b: "pt_busy s" "pt_sender s \<noteq> None" using d(5,6) j by auto
  obtain a sn where a: "pt_sender s = Some sn" "sender_inv s a sn"
    using pt_inv_busy [OF inv b(1)] b(2) by (metis not_None_eq)
  then have st: "pt_op s = None" "pt_out s = None" "pt_stream s = concat (pt_sent s) @ pt_cur s"
    using j b by (auto simp: sender_inv_def)
  have "last (pt_all s) = pt_cur s" using b(1) by (simp add: pt_cur_def)
  then show ?thesis using d(1,2,4) a(1) st h b
    by (auto simp: pt_inv_def PacketPassConnector_output_handler_done_def sender_inv_def)
qed

text \<open>What the sender does with the rest of its packet.\<close>

lemma inv_send_data:
  assumes inv: "pt_inv s" and b: "pt_busy s" "pc_in (pt_con s) = Some a" and sn: "pt_sender s \<noteq> None"
    and s': "s' = s\<lparr>pt_op := None, pt_out := None, pt_sender := Some sn', pt_stream := st\<rparr>" "\<not> pt_done_job s"
    and p: "ps_in_len sn = int (length (pt_cur s))" "ps_in sn = Some a" "0 \<le> ps_in_used sn" "ps_in_used sn \<le> ps_in_len sn"
    and h: "PacketStreamSender_send_data sn = (sn', cs)"
    and st: "st = concat (pt_sent s) @ take (nat (ps_in_used sn)) (pt_cur s)"
  shows "pt_inv (ps_effects cs s')"
proof -
  note d = pt_invD [OF inv]
  obtain a' where a: "a' = a" "pc_in_len (pt_con s) = int (length (pt_cur s))" "mem_read (pt_mem s) a (length (pt_cur s)) = pt_cur s"
    using pt_inv_busy [OF inv b(1)] b(2) by (metis option.inject)
  have cur: "pt_cur (ps_effects cs s') = pt_cur s" using h by (auto simp: PacketStreamSender_send_data_def s' split: if_splits)
  show ?thesis
    unfolding pt_inv_def cur
    by (intro conjI exI [of _ a])
      (use d(1-4) a b sn s'(2) p st h cur in \<open>auto simp: PacketStreamSender_send_data_def s'(1) sender_inv_def nat_add_distrib
        split: if_splits\<close>)
qed

lemma pt_same:
  "pt_out s = None \<Longrightarrow> s\<lparr>pt_op := None, pt_sender := x\<rparr>
    = s\<lparr>pt_op := None, pt_out := None, pt_sender := x, pt_stream := pt_stream s\<rparr>"
  "pt_op s = None \<Longrightarrow> s\<lparr>pt_out := None, pt_sender := x, pt_stream := st\<rparr>
    = s\<lparr>pt_op := None, pt_out := None, pt_sender := x, pt_stream := st\<rparr>"
  by (cases s; simp)+

lemma inv_run_op:
  assumes inv: "pt_inv s" and o: "pt_op s = Some (p, n)" "pt_sender s = Some sn"
    and h: "PacketStreamSender_input_handler_send sn p n = (sn', cs)"
  shows "pt_inv (ps_effects cs (s\<lparr>pt_op := None, pt_sender := Some sn'\<rparr>))"
proof -
  have b: "pt_busy s" using pt_invD(6) [OF inv] o(1) by auto
  obtain a where a: "pc_in (pt_con s) = Some a" "sender_inv s a sn" using pt_inv_busy [OF inv b] o(2) by metis
  then have st: "\<not> pt_done_job s" "pt_out s = None" "p = Some a" "n = int (length (pt_cur s))" "pt_stream s = concat (pt_sent s)"
    using o b by (auto simp: sender_inv_def split: if_splits option.splits)
  show ?thesis
    unfolding pt_same(1) [OF st(2)]
    by (rule inv_send_data [OF inv b a(1) _ refl st(1), of "sn\<lparr>ps_in_len := n, ps_in := p, ps_in_used := 0\<rparr>"])
      (use o st h in \<open>simp_all add: PacketStreamSender_input_handler_send_def\<close>)
qed

lemma inv_taken:
  assumes inv: "pt_inv s" and o: "pt_out s = Some (Some b, n)" "pt_sender s = Some sn" and k: "0 < k" "k \<le> n"
    and h: "PacketStreamSender_output_handler_done sn k = (sn', cs)"
  shows "pt_inv (ps_effects cs (s\<lparr>pt_out := None, pt_sender := Some sn',
      pt_stream := pt_stream s @ mem_read (pt_mem s) b (nat k)\<rparr>))"
proof -
  have busy: "pt_busy s" using pt_invD(6) [OF inv] o(1) by auto
  obtain a where a: "pc_in (pt_con s) = Some a" "mem_read (pt_mem s) a (length (pt_cur s)) = pt_cur s" "sender_inv s a sn"
    using pt_inv_busy [OF inv busy] o(2) by metis
  then have st: "\<not> pt_done_job s" "pt_op s = None" "ps_in_len sn = int (length (pt_cur s))" "ps_in sn = Some a"
    "0 \<le> ps_in_used sn" "b = a + nat (ps_in_used sn)" "n = ps_in_len sn - ps_in_used sn"
    "pt_stream s = concat (pt_sent s) @ take (nat (ps_in_used sn)) (pt_cur s)"
    using o busy by (auto simp: sender_inv_def split: if_splits)
  have "mem_read (pt_mem s) b (nat k) = take (nat k) (drop (nat (ps_in_used sn)) (pt_cur s))"
    using mem_read_take_drop [of "nat (ps_in_used sn)" "nat k" "length (pt_cur s)" "pt_mem s" a] a(2) st k by auto
  then have "pt_stream s @ mem_read (pt_mem s) b (nat k) = concat (pt_sent s) @ take (nat (ps_in_used sn + k)) (pt_cur s)"
    using st(5,8) k(1) by (simp add: nat_add_distrib take_add)
  then show ?thesis
    unfolding pt_same(2) [OF st(2)]
    by (intro inv_send_data [OF inv busy a(1) _ refl st(1), of "sn\<lparr>ps_in_used := ps_in_used sn + k\<rparr>"])
      (use o st k h in \<open>simp_all add: PacketStreamSender_output_handler_done_def\<close>)
qed

lemma pt_step_inv: "pt_step s s' \<Longrightarrow> pt_inv s \<Longrightarrow> pt_inv s'"
  by (induction rule: pt_step.induct)
    (rule inv_submit inv_run_op inv_taken inv_run_done inv_connect inv_disconnect; assumption)+

lemma pt_run_inv: "pt_run s s' \<Longrightarrow> pt_inv s \<Longrightarrow> pt_inv s'"
  by (induction rule: rtranclp_induct) (auto intro: pt_step_inv)

lemma pc_effects_frame [simp]: "pt_all (pc_effects cs s) = pt_all s" "pt_sender (pc_effects cs s) = pt_sender s"
  by (induction cs s rule: pc_effects.induct) simp_all

lemma ps_effects_frame [simp]: "pt_all (ps_effects cs s) = pt_all s" "pt_sender (ps_effects cs s) = pt_sender s"
  by (induction cs s rule: ps_effects.induct) simp_all

text \<open>A packet at hand moves on: a job is pending, or the server takes more of it.\<close>

lemma pt_job_step:
  assumes inv: "pt_inv s" and sn: "pt_sender s = Some sn" and b: "pt_busy s"
  shows "\<exists>s'. pt_step s s' \<and> pt_all s' = pt_all s \<and> pt_sender s' \<noteq> None"
proof -
  obtain a where a: "sender_inv s a sn" using pt_inv_busy [OF inv b] sn by metis
  consider "pt_done_job s" | n where "pt_op s = Some (Some a, n)" | c n where "pt_out s = Some (Some c, n)" "0 < n"
    using a b by (auto simp: sender_inv_def split: if_splits option.splits)
  then show ?thesis
  proof cases
    case 1
    obtain con cs where "PacketPassConnector_output_handler_done (pt_con s) = (con, cs)" by (rule prod.exhaust)
    from pt_run_done [OF 1 this] sn show ?thesis by fastforce
  next
    case (2 n)
    obtain sn' cs where "PacketStreamSender_input_handler_send sn (Some a) n = (sn', cs)" by (rule prod.exhaust)
    from pt_run_op [OF 2 sn this] show ?thesis by fastforce
  next
    case (3 c n)
    obtain sn' cs where "PacketStreamSender_output_handler_done sn n = (sn', cs)" by (rule prod.exhaust)
    from pt_taken [OF 3(1) sn 3(2) order_refl this] show ?thesis by fastforce
  qed
qed

section \<open>The inactivity timer\<close>

text \<open>
  The timer of the monitor runs exactly while its output is idle: it is stopped when a packet is passed on
  and restarted when the packet is finished or the timer has fired.
\<close>

lemma inactivity_timer:
  "pm_timer (PacketPassInactivityMonitor_Init h)"
  "\<not> pm_timer (fst (PacketPassInactivityMonitor_input_handler_send o1 data n))"
  "pm_timer (fst (PacketPassInactivityMonitor_output_handler_done o1))"
  "pm_timer (fst (PacketPassInactivityMonitor_timer_handler o1))"
  by (simp_all add: PacketPassInactivityMonitor_Init_def PacketPassInactivityMonitor_input_handler_send_def
      PacketPassInactivityMonitor_output_handler_done_def PacketPassInactivityMonitor_timer_handler_def Let_def)

section \<open>Property\<close>

text \<open>
  C19: Packets survive the loss of the server without breaking the stream: every packet is reported as sent
  once and in order, whatever connections come and go; what the connected server has taken are the packets
  reported since it was connected, whole, and then a beginning of the current packet, so the stream of every
  connection starts at the beginning of a packet; and while a packet is at hand and a server is connected,
  a job is pending or the stream is busy.
\<close>

theorem packets_survive_reconnects:
  assumes "pt_run (path_start m mtu) s"
  shows "pt_all s = pt_done s @ (if pt_busy s then [pt_cur s] else [])
    \<and> (pt_sender s \<noteq> None \<longrightarrow> (\<exists>before k. pt_done s = before @ pt_sent s \<and> k \<le> length (pt_cur s)
          \<and> pt_stream s = concat (pt_sent s) @ take k (pt_cur s)))
    \<and> (pt_sender s \<noteq> None \<and> pt_busy s \<longrightarrow> (\<exists>s'. pt_step s s' \<and> pt_all s' = pt_all s \<and> pt_sender s' \<noteq> None))"
proof -
  have inv: "pt_inv s" by (rule pt_run_inv [OF assms pt_inv_start])
  note d = pt_invD [OF inv]
  have stream: "\<exists>k. k \<le> length (pt_cur s) \<and> pt_stream s = concat (pt_sent s) @ take k (pt_cur s)" if sn: "pt_sender s = Some sn" for sn
  proof (cases "pt_busy s")
    case True
    obtain a where a: "sender_inv s a sn" using pt_inv_busy [OF inv True] sn by metis
    show ?thesis
    proof (cases "pt_done_job s \<or> pt_out s = None")
      case True
      then show ?thesis using a \<open>pt_busy s\<close>
        by (intro exI [of _ "if pt_done_job s then length (pt_cur s) else 0"]) (auto simp: sender_inv_def)
    next
      case False
      then show ?thesis using a \<open>pt_busy s\<close> by (intro exI [of _ "nat (ps_in_used sn)"]) (auto simp: sender_inv_def)
    qed
  next
    case False
    then show ?thesis using d(7) [OF False sn] by (intro exI [of _ 0]) simp
  qed
  have step: "\<exists>s'. pt_step s s' \<and> pt_all s' = pt_all s \<and> pt_sender s' \<noteq> None" if "pt_sender s = Some sn" "pt_busy s" for sn
    by (rule pt_job_step [OF inv that])
  show ?thesis using d(1,2) stream step by fastforce
qed

theorem packets_survive_reconnects_witness:
  "\<exists>s before k. pt_run (path_start (\<lambda>_. 0) 9) s \<and> pt_sender s \<noteq> None \<and> pt_all s = [[1, 2]] \<and> pt_done s = before @ pt_sent s
    \<and> pt_stream s = concat (pt_sent s) @ take k (pt_cur s)"
proof -
  let ?s0 = "path_start (\<lambda>_. 0) 9"
  let ?c0 = "PacketPassConnector_Init 9"
  let ?c1 = "?c0\<lparr>pc_in_len := 2, pc_in := Some 5\<rparr>"
  let ?s1 = "?s0\<lparr>pt_mem := mem_write (\<lambda>_. 0) 5 [1, 2], pt_con := ?c1, pt_busy := True, pt_all := [[1, 2]]\<rparr>"
  have 1: "pt_step ?s0 ?s1"
    using pt_submit [of ?s0 "[1, 2]" 5 ?c1 "[]"]
    by (simp add: path_start_def PacketPassConnector_Init_def PacketPassConnector_input_handler_send_def)
  obtain s2 where 2: "pt_step ?s1 s2" "pt_sender s2 \<noteq> None" "pt_all s2 = [[1, 2]]"
    using pt_connect [of ?s1 "?c1\<lparr>pc_output := True\<rparr>" "[PC_Output_Send (Some 5) 2]"]
    by (simp add: path_start_def PacketPassConnector_ConnectOutput_def)
  have r: "pt_run ?s0 s2"
    by (rule rtranclp.rtrancl_into_rtrancl [where b = ?s1], rule r_into_rtranclp [where r = pt_step]) (rule 1 2(1))+
  from packets_survive_reconnects [OF r] 2(2) obtain before k where
    "pt_done s2 = before @ pt_sent s2" "pt_stream s2 = concat (pt_sent s2) @ take k (pt_cur s2)" by blast
  with r 2(2,3) show ?thesis by blast
qed

end
