(* ===== verification/BAVL.thy ===== *)
theory BAVL
  imports BAddr "HOL-Library.Monad_Syntax" "HOL-Library.Tree"
begin

text \<open>
  The intrusive AVL tree: \<^verbatim>\<open>structure/BAVL.h\<close>, used by \<^verbatim>\<open>tun2socks.c\<close> and \<^verbatim>\<open>UdpGwClient.c\<close>, as the code is:
  nodes with a parent pointer, two child pointers and a balance factor, changed in place.

  A node is named by its address, of any type \<open>'p\<close>; \<open>avl_node\<close> is the memory of the nodes. The C array
  \<^verbatim>\<open>link[2]\<close> is a function of the side (\<open>True\<close> is index 1), \<open>None\<close> is \<^verbatim>\<open>NULL\<close>. The \<^verbatim>\<open>comparator\<close>, \<^verbatim>\<open>user\<close> and
  \<^verbatim>\<open>offset\<close> fields are the two functions \<open>avl_cmp\<close> and \<open>avl_val\<close>, the value embedded beside a node. An
  operation that would dereference \<^verbatim>\<open>NULL\<close>, fail an \<^verbatim>\<open>ASSERT\<close> or never return is \<open>None\<close>; loops and recursion are
  \<open>partial_function\<close>s, so that returning is something to prove. \<^verbatim>\<open>BAVL_COUNT\<close> is not defined in this program.
  The theory \<open>BAVL_Refine\<close> proves what the operations do.
\<close>

section \<open>Data\<close>

record 'p bavl_node =
  bn_parent :: "'p option"
  bn_link :: "bool \<Rightarrow> 'p option"
  bn_balance :: int

record ('p, 'v) bavl =
  avl_cmp :: "'v \<Rightarrow> 'v \<Rightarrow> int"
  avl_val :: "'p \<Rightarrow> 'v"
  avl_root :: "'p option"
  avl_node :: "'p \<Rightarrow> 'p bavl_node"

text \<open>Assignments to the fields of a node.\<close>

definition set_parent :: "'p \<Rightarrow> 'p option \<Rightarrow> ('p, 'v) bavl \<Rightarrow> ('p, 'v) bavl" where
  "set_parent n q t = t\<lparr>avl_node := (avl_node t)(n := (avl_node t n)\<lparr>bn_parent := q\<rparr>)\<rparr>"

definition set_link :: "'p \<Rightarrow> bool \<Rightarrow> 'p option \<Rightarrow> ('p, 'v) bavl \<Rightarrow> ('p, 'v) bavl" where
  "set_link n side q t =
     t\<lparr>avl_node := (avl_node t)(n := (avl_node t n)\<lparr>bn_link := (bn_link (avl_node t n))(side := q)\<rparr>)\<rparr>"

definition set_balance :: "'p \<Rightarrow> int \<Rightarrow> ('p, 'v) bavl \<Rightarrow> ('p, 'v) bavl" where
  "set_balance n b t = t\<lparr>avl_node := (avl_node t)(n := (avl_node t n)\<lparr>bn_balance := b\<rparr>)\<rparr>"

abbreviation parent_of :: "('p, 'v) bavl \<Rightarrow> 'p \<Rightarrow> 'p option" where
  "parent_of t n \<equiv> bn_parent (avl_node t n)"

abbreviation link_of :: "('p, 'v) bavl \<Rightarrow> 'p \<Rightarrow> bool \<Rightarrow> 'p option" where
  "link_of t n \<equiv> bn_link (avl_node t n)"

abbreviation balance_of :: "('p, 'v) bavl \<Rightarrow> 'p \<Rightarrow> int" where
  "balance_of t n \<equiv> bn_balance (avl_node t n)"

text \<open>\<^verbatim>\<open>if (q) q->parent = n\<close>\<close>

definition adopt :: "'p \<Rightarrow> 'p option \<Rightarrow> ('p, 'v) bavl \<Rightarrow> ('p, 'v) bavl" where
  "adopt n q t = (case q of None \<Rightarrow> t | Some x \<Rightarrow> set_parent x (Some n) t)"

text \<open>
  \<^verbatim>\<open>if (par) par->link[old == par->link[1]] = new; else tree->root = new\<close>, the statement by which every
  operation hangs a subtree below the parent of another.
\<close>

definition hang :: "'p option \<Rightarrow> 'p \<Rightarrow> 'p option \<Rightarrow> ('p, 'v) bavl \<Rightarrow> ('p, 'v) bavl" where
  "hang par old new t =
     (case par of None \<Rightarrow> t\<lparr>avl_root := new\<rparr>
      | Some p \<Rightarrow> set_link p (Some old = link_of t p True) new t)"

definition BAVL_MAX :: "int \<Rightarrow> int \<Rightarrow> int" where
  "BAVL_MAX a b = (if a > b then a else b)"

definition BAVL_OPTNEG :: "int \<Rightarrow> bool \<Rightarrow> int" where
  "BAVL_OPTNEG a neg = (if neg then - a else a)"

definition BAVL_compare_values :: "('p, 'v) bavl \<Rightarrow> 'v \<Rightarrow> 'v \<Rightarrow> int option" where
  "BAVL_compare_values t v1 v2 =
     (let res = avl_cmp t v1 v2 in if res = -1 \<or> res = 0 \<or> res = 1 then Some res else None)"

definition BAVL_compare_nodes :: "('p, 'v) bavl \<Rightarrow> 'p \<Rightarrow> 'p \<Rightarrow> int option" where
  "BAVL_compare_nodes t n1 n2 = BAVL_compare_values t (avl_val t n1) (avl_val t n2)"

section \<open>Restructuring\<close>

definition BAVL_rotate :: "'p \<Rightarrow> bool \<Rightarrow> ('p, 'v) bavl \<Rightarrow> ('p, 'v) bavl option" where
  "BAVL_rotate r dir t = do {
     nr \<leftarrow> link_of t r (\<not> dir);
     let t = set_link r (\<not> dir) (link_of t nr dir) t;
     let t = adopt r (link_of t r (\<not> dir)) t;
     let t = set_link nr dir (Some r) t;
     let t = set_parent nr (parent_of t r) t;
     let t = hang (parent_of t nr) r (Some nr) t;
     Some (set_parent r (Some nr) t)
   }"

text \<open>\<^verbatim>\<open>while (n->link[side]) n = n->link[side]\<close>\<close>

partial_function (option) walk_down :: "bool \<Rightarrow> 'p \<Rightarrow> ('p, 'v) bavl \<Rightarrow> 'p option" where
  "walk_down side n t = (case link_of t n side of None \<Rightarrow> Some n | Some x \<Rightarrow> walk_down side x t)"

definition BAVL_subtree_max :: "'p \<Rightarrow> ('p, 'v) bavl \<Rightarrow> 'p option" where
  "BAVL_subtree_max n t = walk_down True n t"

definition BAVL_replace_subtree :: "'p \<Rightarrow> 'p option \<Rightarrow> ('p, 'v) bavl \<Rightarrow> ('p, 'v) bavl" where
  "BAVL_replace_subtree dest n t =
     (let t = hang (parent_of t dest) dest n t
      in case n of None \<Rightarrow> t | Some x \<Rightarrow> set_parent x (parent_of t dest) t)"

definition swap_connected :: "'p \<Rightarrow> 'p \<Rightarrow> ('p, 'v) bavl \<Rightarrow> ('p, 'v) bavl" where
  "swap_connected n1 n2 t =
     (let side = (Some n2 = link_of t n1 True);
          c = link_of t n1 (\<not> side);
          t = set_link n1 False (link_of t n2 False) t;
          t = adopt n1 (link_of t n1 False) t;
          t = set_link n1 True (link_of t n2 True) t;
          t = adopt n1 (link_of t n1 True) t;
          t = set_parent n2 (parent_of t n1) t;
          t = hang (parent_of t n2) n1 (Some n2) t;
          t = set_link n2 side (Some n1) t;
          t = set_parent n1 (Some n2) t;
          t = set_link n2 (\<not> side) c t
      in adopt n2 c t)"

definition swap_apart :: "'p \<Rightarrow> 'p \<Rightarrow> ('p, 'v) bavl \<Rightarrow> ('p, 'v) bavl" where
  "swap_apart n1 n2 t =
     (let temp = parent_of t n1;
          t = set_parent n1 (parent_of t n2) t;
          t = hang (parent_of t n1) n2 (Some n1) t;
          t = set_parent n2 temp t;
          t = hang (parent_of t n2) n1 (Some n2) t;
          temp = link_of t n1 False;
          t = set_link n1 False (link_of t n2 False) t;
          t = adopt n1 (link_of t n1 False) t;
          t = set_link n2 False temp t;
          t = adopt n2 (link_of t n2 False) t;
          temp = link_of t n1 True;
          t = set_link n1 True (link_of t n2 True) t;
          t = adopt n1 (link_of t n1 True) t;
          t = set_link n2 True temp t
      in adopt n2 (link_of t n2 True) t)"

definition BAVL_swap_nodes :: "'p \<Rightarrow> 'p \<Rightarrow> ('p, 'v) bavl \<Rightarrow> ('p, 'v) bavl" where
  "BAVL_swap_nodes n1 n2 t =
     (let t = (if parent_of t n2 = Some n1 then swap_connected n1 n2 t
               else if parent_of t n1 = Some n2 then swap_connected n2 n1 t
               else swap_apart n1 n2 t);
          b = balance_of t n1;
          t = set_balance n1 (balance_of t n2) t
      in set_balance n2 b t)"

text \<open>
  The transformations of \<^verbatim>\<open>_BAVL_rebalance\<close> when the balance factor of \<open>node\<close> is 2 or -2; the result has the
  new top of the subtree and \<^verbatim>\<open>delta\<close>.
\<close>

definition BAVL_transform :: "'p \<Rightarrow> int \<Rightarrow> ('p, 'v) bavl \<Rightarrow> ('p \<times> int \<times> ('p, 'v) bavl) option" where
  "BAVL_transform node delta t =
     (let bside = (balance_of t node = 2);
          bsidef = (if bside then 1 else -1)
      in do {
        child \<leftarrow> link_of t node bside;
        if balance_of t child * bsidef = 1 then do {
          t \<leftarrow> BAVL_rotate node (\<not> bside) t;
          let t = set_balance node 0 t;
          let t = set_balance child 0 t;
          Some (child, delta - 1, t)
        } else if balance_of t child * bsidef = 0 then do {
          t \<leftarrow> BAVL_rotate node (\<not> bside) t;
          let t = set_balance node (1 * bsidef) t;
          let t = set_balance child (- 1 * bsidef) t;
          Some (child, delta, t)
        } else if balance_of t child * bsidef = -1 then do {
          gchild \<leftarrow> link_of t child (\<not> bside);
          t \<leftarrow> BAVL_rotate child bside t;
          t \<leftarrow> BAVL_rotate node (\<not> bside) t;
          let t = set_balance node (- BAVL_MAX 0 (balance_of t gchild * bsidef) * bsidef) t;
          let t = set_balance child (BAVL_MAX 0 (- balance_of t gchild * bsidef) * bsidef) t;
          let t = set_balance gchild 0 t;
          Some (gchild, delta - 1, t)
        } else None
      })"

partial_function (option) BAVL_rebalance ::
    "'p \<Rightarrow> bool \<Rightarrow> int \<Rightarrow> ('p, 'v) bavl \<Rightarrow> ('p, 'v) bavl option" where
  "BAVL_rebalance node side deltac t =
     (if \<not> (deltac \<ge> -1 \<and> deltac \<le> 1 \<and> balance_of t node \<ge> -1 \<and> balance_of t node \<le> 1) then None
      else if deltac = 0 then Some t
      else
        let delta = BAVL_MAX deltac (BAVL_OPTNEG (balance_of t node) side)
                    - BAVL_MAX 0 (BAVL_OPTNEG (balance_of t node) side)
        in if \<not> (delta \<ge> -1 \<and> delta \<le> 1) then None
        else
          let t = set_balance node (balance_of t node - BAVL_OPTNEG deltac side) t
          in do {
            (node, delta, t) \<leftarrow>
              (if balance_of t node = 2 \<or> balance_of t node = -2 then BAVL_transform node delta t
               else Some (node, delta, t));
            if \<not> (delta \<ge> -1 \<and> delta \<le> 1) then None
            else case parent_of t node of
                None \<Rightarrow> Some t
              | Some p \<Rightarrow> BAVL_rebalance p (Some node = link_of t p True) delta t
          })"

section \<open>Operations\<close>

definition BAVL_Init :: "('v \<Rightarrow> 'v \<Rightarrow> int) \<Rightarrow> ('p \<Rightarrow> 'v) \<Rightarrow> ('p \<Rightarrow> 'p bavl_node) \<Rightarrow> ('p, 'v) bavl" where
  "BAVL_Init cmp val nodes =
     \<lparr>avl_cmp = cmp, avl_val = val, avl_root = None, avl_node = nodes\<rparr>"

text \<open>
  The descent of \<^verbatim>\<open>BAVL_Insert\<close>, \<^verbatim>\<open>BAVL_Lookup\<close> and \<^verbatim>\<open>BAVL_LookupExact\<close>, from node \<open>c\<close> with the comparison \<open>f\<close> of the
  value with a node: it stops at an equal node or at a missing child.
\<close>

partial_function (option) descend :: "('p \<Rightarrow> int option) \<Rightarrow> 'p \<Rightarrow> ('p, 'v) bavl \<Rightarrow> ('p \<times> int) option" where
  "descend f c t = do {
     comp \<leftarrow> f c;
     if comp = 0 then Some (c, comp)
     else case link_of t c (comp = 1) of
         None \<Rightarrow> Some (c, comp)
       | Some x \<Rightarrow> descend f x t
   }"

definition leaf_node :: "'p option \<Rightarrow> 'p \<Rightarrow> ('p, 'v) bavl \<Rightarrow> ('p, 'v) bavl" where
  "leaf_node par n t =
     (let t = set_parent n par t;
          t = set_link n False None t;
          t = set_link n True None t
      in set_balance n 0 t)"

text \<open>The result of \<^verbatim>\<open>BAVL_Insert\<close> and the value of \<^verbatim>\<open>*ref\<close>.\<close>

definition BAVL_Insert :: "'p \<Rightarrow> ('p, 'v) bavl \<Rightarrow> (bool \<times> 'p option \<times> ('p, 'v) bavl) option" where
  "BAVL_Insert n t =
     (case avl_root t of
        None \<Rightarrow> Some (True, None, leaf_node None n (t\<lparr>avl_root := Some n\<rparr>))
      | Some r \<Rightarrow> do {
          (c, comp) \<leftarrow> descend (BAVL_compare_nodes t n) r t;
          if comp = 0 then Some (False, Some c, t)
          else do {
            let side = (comp = 1);
            let t = set_link c side (Some n) t;
            let t = leaf_node (Some c) n t;
            t \<leftarrow> BAVL_rebalance c side 1 t;
            Some (True, Some c, t)
          }
        })"

definition BAVL_Remove :: "'p \<Rightarrow> ('p, 'v) bavl \<Rightarrow> ('p, 'v) bavl option" where
  "BAVL_Remove n t = do {
     t \<leftarrow> (case link_of t n False of
             Some l \<Rightarrow>
               if link_of t n True \<noteq> None
               then do { m \<leftarrow> BAVL_subtree_max l t; Some (BAVL_swap_nodes n m t) }
               else Some t
           | None \<Rightarrow> Some t);
     if link_of t n False \<noteq> None \<and> link_of t n True \<noteq> None then None
     else
       let par = parent_of t n;
           child = (if link_of t n False \<noteq> None then link_of t n False else link_of t n True)
       in case par of
           Some p \<Rightarrow>
             let side = (Some n = link_of t p True);
                 t = BAVL_replace_subtree n child t
             in BAVL_rebalance p side (-1) t
         | None \<Rightarrow> Some (BAVL_replace_subtree n child t)
   }"

definition BAVL_IsEmpty :: "('p, 'v) bavl \<Rightarrow> bool" where
  "BAVL_IsEmpty t \<longleftrightarrow> avl_root t = None"

text \<open>
  The lookups return \<open>Some q\<close> when they return, \<open>q\<close> the node or \<^verbatim>\<open>NULL\<close>.
\<close>

definition BAVL_Lookup :: "'v \<Rightarrow> ('p, 'v) bavl \<Rightarrow> 'p option option" where
  "BAVL_Lookup v t =
     (case avl_root t of
        None \<Rightarrow> Some None
      | Some r \<Rightarrow> do { (c, comp) \<leftarrow> descend (\<lambda>c. BAVL_compare_values t v (avl_val t c)) r t; Some (Some c) })"

definition BAVL_LookupExact :: "'v \<Rightarrow> ('p, 'v) bavl \<Rightarrow> 'p option option" where
  "BAVL_LookupExact v t =
     (case avl_root t of
        None \<Rightarrow> Some None
      | Some r \<Rightarrow> do {
          (c, comp) \<leftarrow> descend (\<lambda>c. BAVL_compare_values t v (avl_val t c)) r t;
          Some (if comp = 0 then Some c else None)
        })"

definition BAVL_GetFirst :: "('p, 'v) bavl \<Rightarrow> 'p option option" where
  "BAVL_GetFirst t =
     (case avl_root t of None \<Rightarrow> Some None | Some r \<Rightarrow> do { n \<leftarrow> walk_down False r t; Some (Some n) })"

definition BAVL_GetLast :: "('p, 'v) bavl \<Rightarrow> 'p option option" where
  "BAVL_GetLast t =
     (case avl_root t of None \<Rightarrow> Some None | Some r \<Rightarrow> do { n \<leftarrow> walk_down True r t; Some (Some n) })"

text \<open>\<^verbatim>\<open>while (n->parent && n == n->parent->link[side]) n = n->parent\<close>\<close>

partial_function (option) climb :: "bool \<Rightarrow> 'p \<Rightarrow> ('p, 'v) bavl \<Rightarrow> 'p option" where
  "climb side n t =
     (case parent_of t n of
        None \<Rightarrow> Some n
      | Some p \<Rightarrow> if Some n = link_of t p side then climb side p t else Some n)"

definition neighbour :: "bool \<Rightarrow> 'p \<Rightarrow> ('p, 'v) bavl \<Rightarrow> 'p option option" where
  "neighbour side n t =
     (case link_of t n side of
        Some x \<Rightarrow> do { m \<leftarrow> walk_down (\<not> side) x t; Some (Some m) }
      | None \<Rightarrow> do { m \<leftarrow> climb side n t; Some (parent_of t m) })"

definition BAVL_GetNext :: "'p \<Rightarrow> ('p, 'v) bavl \<Rightarrow> 'p option option" where
  "BAVL_GetNext = neighbour True"

definition BAVL_GetPrev :: "'p \<Rightarrow> ('p, 'v) bavl \<Rightarrow> 'p option option" where
  "BAVL_GetPrev = neighbour False"

section \<open>The self-check\<close>

text \<open>\<^verbatim>\<open>_BAVL_assert_recurser\<close> returns the height of the subtree; a failing \<^verbatim>\<open>ASSERT_FORCE\<close> is \<open>None\<close>.\<close>

partial_function (option) BAVL_assert_recurser :: "'p \<Rightarrow> ('p, 'v) bavl \<Rightarrow> int option" where
  "BAVL_assert_recurser n t =
     (if \<not> (balance_of t n \<ge> -1 \<and> balance_of t n \<le> 1) then None
      else do {
        height_left \<leftarrow>
          (case link_of t n False of
             None \<Rightarrow> Some 0
           | Some x \<Rightarrow>
               if parent_of t x \<noteq> Some n \<or> BAVL_compare_nodes t x n \<noteq> Some (-1) then None
               else BAVL_assert_recurser x t);
        height_right \<leftarrow>
          (case link_of t n True of
             None \<Rightarrow> Some 0
           | Some x \<Rightarrow>
               if parent_of t x \<noteq> Some n \<or> BAVL_compare_nodes t x n \<noteq> Some 1 then None
               else BAVL_assert_recurser x t);
        if balance_of t n \<noteq> height_right - height_left then None
        else Some (BAVL_MAX height_left height_right + 1)
      })"

definition BAVL_Verify :: "('p, 'v) bavl \<Rightarrow> bool" where
  "BAVL_Verify t =
     (case avl_root t of
        None \<Rightarrow> True
      | Some r \<Rightarrow> parent_of t r = None \<and> BAVL_assert_recurser r t \<noteq> None)"

text \<open>The loops as code equations, so that concrete runs evaluate.\<close>

lemmas bavl_loops [code] =
  walk_down.simps BAVL_rebalance.simps descend.simps climb.simps BAVL_assert_recurser.simps

end
