(* ===== verification/CAvl.thy ===== *)
theory CAvl
  imports BAVL
begin

text \<open>
  The other intrusive AVL tree: \<^verbatim>\<open>structure/CAvl_impl.h\<close>, and \<^verbatim>\<open>structure/SAvl_impl.h\<close>, which calls it. The reactor keeps
  its timers in one (\<^verbatim>\<open>BReactor_badvpn_timerstree.h\<close>), the fair queue its flows (\<^verbatim>\<open>PacketPassFairQueue_tree.h\<close>); both
  set the template parameters to no counts, no keys and no associated values, which is what is translated here.

  A \<^verbatim>\<open>CAvlRef\<close> is a pointer that may be \<^verbatim>\<open>NULL\<close>; \<^verbatim>\<open>CAvlDeref\<close> of \<^verbatim>\<open>NULL\<close> is \<^verbatim>\<open>NULL\<close>. The memory of the nodes is the record
  \<open>bavl\<close>, where \<open>avl_cmp\<close> and \<open>avl_val\<close> together are \<^verbatim>\<open>CAVL_PARAM_FUN_COMPARE_ENTRIES\<close>. Unlike in \<^verbatim>\<open>BAVL.h\<close>, the parents of
  the nodes that are moved are passed in, and asserted to be the parents. \<open>BAVL_Rebalance\<close> and \<open>BAVL_Refine\<close> prove both
  implementations side by side.
\<close>

section \<open>Restructuring\<close>

definition CAvl_check_parent :: "'p option \<Rightarrow> 'p \<Rightarrow> ('p, 'v) bavl \<Rightarrow> bool" where
  "CAvl_check_parent p c t \<longleftrightarrow>
     p = parent_of t c
     \<and> (case p of None \<Rightarrow> True | Some q \<Rightarrow> Some c = link_of t q False \<or> Some c = link_of t q True)"

definition CAvl_rotate :: "'p \<Rightarrow> bool \<Rightarrow> 'p option \<Rightarrow> ('p, 'v) bavl \<Rightarrow> ('p, 'v) bavl option" where
  "CAvl_rotate r dir r_parent t =
     (if \<not> CAvl_check_parent r_parent r t then None
      else do {
        nr \<leftarrow> link_of t r (\<not> dir);
        let t = set_link r (\<not> dir) (link_of t nr dir) t;
        let t = adopt r (link_of t r (\<not> dir)) t;
        let t = set_link nr dir (Some r) t;
        let t = set_parent nr r_parent t;
        let t = hang r_parent r (Some nr) t;
        Some (set_parent r (Some nr) t)
      })"

definition CAvl_subtree_min :: "'p \<Rightarrow> ('p, 'v) bavl \<Rightarrow> 'p option" where
  "CAvl_subtree_min n t = walk_down False n t"

definition CAvl_subtree_max :: "'p \<Rightarrow> ('p, 'v) bavl \<Rightarrow> 'p option" where
  "CAvl_subtree_max n t = walk_down True n t"

definition CAvl_replace_subtree_fix_assoc ::
    "'p \<Rightarrow> 'p option \<Rightarrow> 'p option \<Rightarrow> ('p, 'v) bavl \<Rightarrow> ('p, 'v) bavl option" where
  "CAvl_replace_subtree_fix_assoc dest n dest_parent t =
     (if \<not> CAvl_check_parent dest_parent dest t then None
      else
        let t = hang dest_parent dest n t
        in Some (case n of None \<Rightarrow> t | Some x \<Rightarrow> set_parent x (parent_of t dest) t))"

definition CAvl_swap_for_remove ::
    "'p \<Rightarrow> 'p \<Rightarrow> 'p option \<Rightarrow> 'p option \<Rightarrow> ('p, 'v) bavl \<Rightarrow> ('p, 'v) bavl option" where
  "CAvl_swap_for_remove node enode node_parent enode_parent t =
     (if \<not> CAvl_check_parent node_parent node t \<or> \<not> CAvl_check_parent enode_parent enode t then None
      else
        let t =
          (if enode_parent = Some node then
             let side = (Some enode = link_of t node True);
                 c = link_of t node (\<not> side);
                 t = set_link node False (link_of t enode False) t;
                 t = adopt node (link_of t node False) t;
                 t = set_link node True (link_of t enode True) t;
                 t = adopt node (link_of t node True) t;
                 t = set_parent enode (parent_of t node) t;
                 t = hang node_parent node (Some enode) t;
                 t = set_link enode side (Some node) t;
                 t = set_parent node (Some enode) t;
                 t = set_link enode (\<not> side) c t
             in adopt enode c t
           else
             let temp = node_parent;
                 t = set_parent node (parent_of t enode) t;
                 t = hang enode_parent enode (Some node) t;
                 t = set_parent enode temp t;
                 t = hang temp node (Some enode) t;
                 temp = link_of t node False;
                 t = set_link node False (link_of t enode False) t;
                 t = adopt node (link_of t node False) t;
                 t = set_link enode False temp t;
                 t = adopt enode (link_of t enode False) t;
                 temp = link_of t node True;
                 t = set_link node True (link_of t enode True) t;
                 t = adopt node (link_of t node True) t;
                 t = set_link enode True temp t
             in adopt enode (link_of t enode True) t);
          b = balance_of t node;
          t = set_balance node (balance_of t enode) t
        in Some (set_balance enode b t))"

definition CAvl_transform :: "'p \<Rightarrow> int \<Rightarrow> ('p, 'v) bavl \<Rightarrow> ('p \<times> int \<times> ('p, 'v) bavl) option" where
  "CAvl_transform node delta t =
     (let bside = (balance_of t node = 2);
          bsidef = (if bside then 1 else -1)
      in do {
        child \<leftarrow> link_of t node bside;
        if balance_of t child * bsidef = 1 then do {
          t \<leftarrow> CAvl_rotate node (\<not> bside) (parent_of t node) t;
          let t = set_balance node 0 t;
          let t = set_balance child 0 t;
          Some (child, delta - 1, t)
        } else if balance_of t child * bsidef = 0 then do {
          t \<leftarrow> CAvl_rotate node (\<not> bside) (parent_of t node) t;
          let t = set_balance node (1 * bsidef) t;
          let t = set_balance child (- 1 * bsidef) t;
          Some (child, delta, t)
        } else if balance_of t child * bsidef = -1 then do {
          gchild \<leftarrow> link_of t child (\<not> bside);
          t \<leftarrow> CAvl_rotate child bside (Some node) t;
          t \<leftarrow> CAvl_rotate node (\<not> bside) (parent_of t node) t;
          let t = set_balance node (- BAVL_MAX 0 (balance_of t gchild * bsidef) * bsidef) t;
          let t = set_balance child (BAVL_MAX 0 (- balance_of t gchild * bsidef) * bsidef) t;
          let t = set_balance gchild 0 t;
          Some (gchild, delta - 1, t)
        } else None
      })"

partial_function (option) CAvl_rebalance ::
    "'p \<Rightarrow> bool \<Rightarrow> int \<Rightarrow> ('p, 'v) bavl \<Rightarrow> ('p, 'v) bavl option" where
  "CAvl_rebalance node side deltac t =
     (if \<not> (deltac \<ge> -1 \<and> deltac \<le> 1 \<and> balance_of t node \<ge> -1 \<and> balance_of t node \<le> 1) then None
      else if deltac = 0 then Some t
      else
        let delta = BAVL_MAX deltac (BAVL_OPTNEG (balance_of t node) side)
                    - BAVL_MAX 0 (BAVL_OPTNEG (balance_of t node) side)
        in if \<not> (delta \<ge> -1 \<and> delta \<le> 1) then None
        else
          let t = set_balance node (balance_of t node - BAVL_OPTNEG deltac side) t
          in do {
            (node, delta, t) \<leftarrow>
              (if balance_of t node = 2 \<or> balance_of t node = -2 then CAvl_transform node delta t
               else Some (node, delta, t));
            if \<not> (delta \<ge> -1 \<and> delta \<le> 1) then None
            else case parent_of t node of
                None \<Rightarrow> Some t
              | Some p \<Rightarrow> CAvl_rebalance p (Some node = link_of t p True) delta t
          })"

section \<open>Operations\<close>

definition CAvl_Init :: "('p, 'v) bavl \<Rightarrow> ('p, 'v) bavl" where
  "CAvl_Init t = t\<lparr>avl_root := None\<rparr>"

text \<open>The result of \<^verbatim>\<open>CAvl_Insert\<close> and the value of \<^verbatim>\<open>*out_ref\<close>.\<close>

definition CAvl_Insert :: "'p \<Rightarrow> ('p, 'v) bavl \<Rightarrow> (bool \<times> 'p option \<times> ('p, 'v) bavl) option" where
  "CAvl_Insert n t =
     (case avl_root t of
        None \<Rightarrow> Some (True, None, leaf_node None n (t\<lparr>avl_root := Some n\<rparr>))
      | Some r \<Rightarrow> do {
          (c, comp) \<leftarrow> descend (BAVL_compare_nodes t n) r t;
          if comp = 0 then Some (False, Some c, t)
          else do {
            let side = (comp = 1);
            let t = set_link c side (Some n) t;
            let t = leaf_node (Some c) n t;
            t \<leftarrow> CAvl_rebalance c side 1 t;
            Some (True, Some c, t)
          }
        })"

definition CAvl_Remove :: "'p \<Rightarrow> ('p, 'v) bavl \<Rightarrow> ('p, 'v) bavl option" where
  "CAvl_Remove n t =
     (if avl_root t = None then None
      else do {
        t \<leftarrow> (case link_of t n False of
                Some l \<Rightarrow>
                  if link_of t n True \<noteq> None then do {
                    m \<leftarrow> CAvl_subtree_max l t;
                    CAvl_swap_for_remove n m (parent_of t n) (parent_of t m) t
                  } else Some t
              | None \<Rightarrow> Some t);
        if link_of t n False \<noteq> None \<and> link_of t n True \<noteq> None then None
        else
          let paren = parent_of t n;
              child = (if link_of t n False \<noteq> None then link_of t n False else link_of t n True)
          in case paren of
              Some p \<Rightarrow>
                let side = (Some n = link_of t p True)
                in do {
                  t \<leftarrow> CAvl_replace_subtree_fix_assoc n child paren t;
                  CAvl_rebalance p side (-1) t
                }
            | None \<Rightarrow> CAvl_replace_subtree_fix_assoc n child paren t
      })"

definition CAvl_GetFirst :: "('p, 'v) bavl \<Rightarrow> 'p option option" where
  "CAvl_GetFirst t =
     (case avl_root t of None \<Rightarrow> Some None | Some r \<Rightarrow> do { n \<leftarrow> CAvl_subtree_min r t; Some (Some n) })"

definition CAvl_GetLast :: "('p, 'v) bavl \<Rightarrow> 'p option option" where
  "CAvl_GetLast t =
     (case avl_root t of None \<Rightarrow> Some None | Some r \<Rightarrow> do { n \<leftarrow> CAvl_subtree_max r t; Some (Some n) })"

definition CAvl_GetNext :: "'p \<Rightarrow> ('p, 'v) bavl \<Rightarrow> 'p option option" where
  "CAvl_GetNext n t = (if avl_root t = None then None else neighbour True n t)"

definition CAvl_GetPrev :: "'p \<Rightarrow> ('p, 'v) bavl \<Rightarrow> 'p option option" where
  "CAvl_GetPrev n t = (if avl_root t = None then None else neighbour False n t)"

definition CAvl_IsEmpty :: "('p, 'v) bavl \<Rightarrow> bool" where
  "CAvl_IsEmpty t \<longleftrightarrow> avl_root t = None"

text \<open>\<^verbatim>\<open>CAvl_verify_recurser\<close> and \<^verbatim>\<open>CAvl_Verify\<close>.\<close>

partial_function (option) CAvl_verify_recurser :: "'p \<Rightarrow> ('p, 'v) bavl \<Rightarrow> int option" where
  "CAvl_verify_recurser n t =
     (if \<not> (balance_of t n \<ge> -1 \<and> balance_of t n \<le> 1) then None
      else do {
        height_left \<leftarrow>
          (case link_of t n False of
             None \<Rightarrow> Some 0
           | Some x \<Rightarrow>
               if parent_of t x \<noteq> Some n \<or> BAVL_compare_nodes t x n \<noteq> Some (-1) then None
               else CAvl_verify_recurser x t);
        height_right \<leftarrow>
          (case link_of t n True of
             None \<Rightarrow> Some 0
           | Some x \<Rightarrow>
               if parent_of t x \<noteq> Some n \<or> BAVL_compare_nodes t x n \<noteq> Some 1 then None
               else CAvl_verify_recurser x t);
        if balance_of t n \<noteq> height_right - height_left then None
        else Some (BAVL_MAX height_left height_right + 1)
      })"

definition CAvl_Verify :: "('p, 'v) bavl \<Rightarrow> bool" where
  "CAvl_Verify t =
     (case avl_root t of
        None \<Rightarrow> True
      | Some r \<Rightarrow> parent_of t r = None \<and> CAvl_verify_recurser r t \<noteq> None)"

lemmas cavl_loops [code] = CAvl_rebalance.simps CAvl_verify_recurser.simps

section \<open>The wrapper\<close>

definition SAvl_Init :: "('p, 'v) bavl \<Rightarrow> ('p, 'v) bavl" where
  "SAvl_Init t = CAvl_Init t"

definition SAvl_Insert :: "'p \<Rightarrow> ('p, 'v) bavl \<Rightarrow> (bool \<times> 'p option \<times> ('p, 'v) bavl) option" where
  "SAvl_Insert entry t = do { (res, out_ref, t) \<leftarrow> CAvl_Insert entry t; Some (res, out_ref, t) }"

definition SAvl_Remove :: "'p \<Rightarrow> ('p, 'v) bavl \<Rightarrow> ('p, 'v) bavl option" where
  "SAvl_Remove entry t = CAvl_Remove entry t"

definition SAvl_GetFirst :: "('p, 'v) bavl \<Rightarrow> 'p option option" where
  "SAvl_GetFirst t = CAvl_GetFirst t"

definition SAvl_GetLast :: "('p, 'v) bavl \<Rightarrow> 'p option option" where
  "SAvl_GetLast t = CAvl_GetLast t"

definition SAvl_GetNext :: "'p \<Rightarrow> ('p, 'v) bavl \<Rightarrow> 'p option option" where
  "SAvl_GetNext entry t = CAvl_GetNext entry t"

definition SAvl_GetPrev :: "'p \<Rightarrow> ('p, 'v) bavl \<Rightarrow> 'p option option" where
  "SAvl_GetPrev entry t = CAvl_GetPrev entry t"

definition SAvl_IsEmpty :: "('p, 'v) bavl \<Rightarrow> bool" where
  "SAvl_IsEmpty t = CAvl_IsEmpty t"

definition SAvl_Verify :: "('p, 'v) bavl \<Rightarrow> bool" where
  "SAvl_Verify t = CAvl_Verify t"

end
