(* ===== verification/BAVL_Rebalance.thy ===== *)
theory BAVL_Rebalance
  imports CAvl
begin

text \<open>
  Trees in the memory of nodes, and what rotations and \<^verbatim>\<open>_BAVL_rebalance\<close> of \<^verbatim>\<open>structure/BAVL.h\<close> do to them. The
  predicate \<open>subtree\<close> says that a pointer leads to a tree in memory, \<open>around\<close> that the rest of the tree around
  a hole is in memory, \<open>avl\<close> and \<open>avl_around\<close> that the stored balance factors are the height differences.
  The main result is \<open>rebalance_correct\<close>: after the height of one subtree has changed by one, the walk up to
  the root returns, passes every assertion of the code and restores a balanced tree with the same sequence
  of nodes; nodes outside the tree are not touched.
\<close>

section \<open>Trees in the memory of nodes\<close>

fun subtree :: "('p \<Rightarrow> 'p bavl_node) \<Rightarrow> 'p option \<Rightarrow> 'p option \<Rightarrow> 'p tree \<Rightarrow> bool" where
  "subtree h par q Leaf \<longleftrightarrow> q = None"
| "subtree h par q (Node l n r) \<longleftrightarrow>
     q = Some n \<and> bn_parent (h n) = par
     \<and> subtree h (Some n) (bn_link (h n) False) l \<and> subtree h (Some n) (bn_link (h n) True) r"

text \<open>A node with the subtree \<open>x\<close> on one side and \<open>y\<close> on the other.\<close>

definition nd :: "bool \<Rightarrow> 'p tree \<Rightarrow> 'p \<Rightarrow> 'p tree \<Rightarrow> 'p tree" where
  "nd s x n y = (if s then Node y n x else Node x n y)"

text \<open>A tree with a hole: the steps from the hole up to the root.\<close>

type_synonym 'p hole = "(bool \<times> 'p \<times> 'p tree) list"

fun plug :: "'p hole \<Rightarrow> 'p tree \<Rightarrow> 'p tree" where
  "plug [] t = t"
| "plug ((s, p, u) # c) t = plug c (nd s t p u)"

fun hole_parent :: "'p hole \<Rightarrow> 'p option" where
  "hole_parent [] = None"
| "hole_parent ((s, p, u) # c) = Some p"

fun hole_set :: "'p hole \<Rightarrow> 'p set" where
  "hole_set [] = {}"
| "hole_set ((s, p, u) # c) = insert p (set_tree u \<union> hole_set c)"

fun around :: "('p \<Rightarrow> 'p bavl_node) \<Rightarrow> 'p option \<Rightarrow> 'p hole \<Rightarrow> 'p option \<Rightarrow> bool" where
  "around h rt [] q \<longleftrightarrow> rt = q"
| "around h rt ((s, p, u) # c) q \<longleftrightarrow>
     bn_link (h p) s = q \<and> subtree h (Some p) (bn_link (h p) (\<not> s)) u
     \<and> bn_parent (h p) = hole_parent c \<and> around h rt c (Some p)"

fun left_of :: "'p hole \<Rightarrow> 'p list" where
  "left_of [] = []"
| "left_of ((s, p, u) # c) = left_of c @ (if s then inorder u @ [p] else [])"

fun right_of :: "'p hole \<Rightarrow> 'p list" where
  "right_of [] = []"
| "right_of ((s, p, u) # c) = (if s then [] else p # inorder u) @ right_of c"

lemma inorder_plug: "inorder (plug c t) = left_of c @ inorder t @ right_of c"
  by (induction c t rule: plug.induct) (auto simp: nd_def)

lemma inorder_nd: "inorder (nd s x n y) = (if s then inorder y @ n # inorder x else inorder x @ n # inorder y)"
  by (simp add: nd_def)

lemma set_nd [simp]: "set_tree (nd s x n y) = insert n (set_tree x \<union> set_tree y)"
  by (auto simp: nd_def)

lemma height_nd [simp]: "height (nd s x n y) = Suc (max (height x) (height y))"
  by (auto simp: nd_def max.commute)

lemma nd_neq [simp]: "nd s x n y \<noteq> Leaf" "Leaf \<noteq> nd s x n y"
  by (auto simp: nd_def)

lemma subtree_nd [simp]:
  "subtree h par q (nd s x n y) \<longleftrightarrow>
     q = Some n \<and> bn_parent (h n) = par
     \<and> subtree h (Some n) (bn_link (h n) s) x \<and> subtree h (Some n) (bn_link (h n) (\<not> s)) y"
  by (auto simp: nd_def)

lemma nd_cases: "t \<noteq> Leaf \<Longrightarrow> \<exists>x n y. t = nd s x n y"
  by (cases t; cases s) (auto simp: nd_def)

lemma subtree_plug:
  "subtree h None rt (plug c t) \<longleftrightarrow> (\<exists>q. subtree h (hole_parent c) q t \<and> around h rt c q)"
  by (induction c t rule: plug.induct) auto

lemma set_plug: "set_tree (plug c t) = set_tree t \<union> hole_set c"
  by (induction c t rule: plug.induct) auto

lemma subtree_root: "subtree h par (Some n) t \<Longrightarrow> n \<in> set_tree t"
  by (cases t) auto

lemma subtree_None: "subtree h par None t \<longleftrightarrow> t = Leaf"
  by (cases t) auto

text \<open>Nodes outside a subtree do not matter to it.\<close>

definition same_links :: "('p \<Rightarrow> 'p bavl_node) \<Rightarrow> ('p \<Rightarrow> 'p bavl_node) \<Rightarrow> 'p set \<Rightarrow> bool" where
  "same_links h h' A \<longleftrightarrow> (\<forall>x\<in>A. bn_parent (h' x) = bn_parent (h x) \<and> bn_link (h' x) = bn_link (h x))"

lemma subtree_frame: "subtree h par q t \<Longrightarrow> same_links h h' (set_tree t) \<Longrightarrow> subtree h' par q t"
  by (induction t arbitrary: par q) (auto simp: same_links_def)

lemma around_frame: "around h rt c q \<Longrightarrow> same_links h h' (hole_set c) \<Longrightarrow> around h' rt c q"
  by (induction c arbitrary: q rule: hole_set.induct)
    (auto simp: same_links_def intro: subtree_frame [unfolded same_links_def])

text \<open>Distinct addresses.\<close>

fun separate :: "'p hole \<Rightarrow> bool" where
  "separate [] \<longleftrightarrow> True"
| "separate ((s, p, u) # c) \<longleftrightarrow>
     p \<notin> set_tree u \<and> distinct (inorder u) \<and> p \<notin> hole_set c \<and> set_tree u \<inter> hole_set c = {} \<and> separate c"

lemma set_left_right: "set (left_of c) \<union> set (right_of c) = hole_set c"
  by (induction c rule: left_of.induct) auto

lemma distinct_nd:
  "distinct (inorder (nd s x n y)) \<longleftrightarrow>
     n \<notin> set_tree x \<and> n \<notin> set_tree y \<and> set_tree x \<inter> set_tree y = {} \<and> distinct (inorder x) \<and> distinct (inorder y)"
  by (auto simp: nd_def)

lemma distinct_plug:
  "distinct (inorder (plug c t)) \<longleftrightarrow>
     distinct (inorder t) \<and> set_tree t \<inter> hole_set c = {} \<and> separate c"
  by (induction c t rule: plug.induct) (auto simp: distinct_nd)

section \<open>Assignments\<close>

lemma set_simps [simp]:
  "avl_node (set_parent n q t) = (avl_node t)(n := (avl_node t n)\<lparr>bn_parent := q\<rparr>)"
  "avl_node (set_link n s q t) =
     (avl_node t)(n := (avl_node t n)\<lparr>bn_link := (bn_link (avl_node t n))(s := q)\<rparr>)"
  "avl_node (set_balance n b t) = (avl_node t)(n := (avl_node t n)\<lparr>bn_balance := b\<rparr>)"
  "avl_root (set_parent n q t) = avl_root t" "avl_root (set_link n s q t) = avl_root t"
  "avl_root (set_balance n b t) = avl_root t"
  "avl_cmp (set_parent n q t) = avl_cmp t" "avl_cmp (set_link n s q t) = avl_cmp t"
  "avl_cmp (set_balance n b t) = avl_cmp t"
  "avl_val (set_parent n q t) = avl_val t" "avl_val (set_link n s q t) = avl_val t"
  "avl_val (set_balance n b t) = avl_val t"
  by (simp_all add: set_parent_def set_link_def set_balance_def)

lemma adopt_simps [simp]:
  "adopt n None t = t" "adopt n (Some x) t = set_parent x (Some n) t"
  "avl_root (adopt n q t) = avl_root t"
  "avl_cmp (adopt n q t) = avl_cmp t" "avl_val (adopt n q t) = avl_val t"
  "bn_link (avl_node (adopt n q t) x) = bn_link (avl_node t x)"
  "bn_balance (avl_node (adopt n q t) x) = bn_balance (avl_node t x)"
  "bn_parent (avl_node (adopt n q t) x) = (if q = Some x then Some n else bn_parent (avl_node t x))"
  by (auto simp: adopt_def split: option.splits)

lemma hang_simps [simp]:
  "hang None old new t = t\<lparr>avl_root := new\<rparr>"
  "hang (Some p) old new t = set_link p (Some old = link_of t p True) new t"
  "avl_cmp (hang q old new t) = avl_cmp t" "avl_val (hang q old new t) = avl_val t"
  "bn_parent (avl_node (hang q old new t) x) = bn_parent (avl_node t x)"
  "bn_balance (avl_node (hang q old new t) x) = bn_balance (avl_node t x)"
  by (auto simp: hang_def split: option.splits)

lemma link_hang:
  "bn_link (avl_node (hang q old new t) x) =
     (if q = Some x then (link_of t x)(Some old = link_of t x True := new) else link_of t x)"
  by (auto simp: hang_def split: option.splits)

lemma root_hang: "avl_root (hang q old new t) = (if q = None then new else avl_root t)"
  by (auto simp: hang_def split: option.splits)

text \<open>\<open>hang\<close> replaces what is in the hole.\<close>

lemma around_side:
  assumes "around h rt ((s, p, u) # c) (Some x)" "x \<notin> set_tree u"
  shows "(Some x = bn_link (h p) True) = s"
  using assms subtree_root [of h "Some p" x u] by (cases s) auto

lemma around_hang:
  assumes "around (avl_node t) (avl_root t) c (Some x)" "x \<notin> hole_set c" "separate c"
  shows "around (avl_node (hang (hole_parent c) x new t)) (avl_root (hang (hole_parent c) x new t)) c new"
proof (cases c)
  case Nil
  then show ?thesis by simp
next
  case (Cons f c')
  obtain s p u where f: "f = (s, p, u)" by (cases f)
  have s: "(Some x = link_of t p True) = s"
    using around_side [of "avl_node t" "avl_root t" s p u c' x] assms(1,2) by (simp add: Cons f)
  have p: "p \<notin> set_tree u" "p \<notin> hole_set c'" using assms(3) by (auto simp: Cons f)
  let ?h = "(avl_node t)(p := (avl_node t p)\<lparr>bn_link := (link_of t p)(s := new)\<rparr>)"
  have "same_links (avl_node t) ?h (set_tree u)" "same_links (avl_node t) ?h (hole_set c')"
    using p by (auto simp: same_links_def)
  with assms(1) show ?thesis by (auto simp: Cons f s intro: subtree_frame around_frame)
qed

section \<open>Rotations\<close>

lemma same_linksI:
  "(\<And>x. x \<in> A \<Longrightarrow> bn_parent (h' x) = bn_parent (h x)) \<Longrightarrow> (\<And>x. x \<in> A \<Longrightarrow> bn_link (h' x) = bn_link (h x)) \<Longrightarrow>
    same_links h h' A"
  by (simp add: same_links_def)

text \<open>A subtree gets another parent: only its top node changes.\<close>

lemma subtree_adopted:
  assumes "subtree h par q t" "distinct (inorder t)"
    and "\<And>x. q = Some x \<Longrightarrow> bn_parent (h' x) = par'"
    and "\<And>x. x \<in> set_tree t \<Longrightarrow> bn_link (h' x) = bn_link (h x)"
    and "\<And>x. x \<in> set_tree t \<Longrightarrow> q \<noteq> Some x \<Longrightarrow> bn_parent (h' x) = bn_parent (h x)"
  shows "subtree h' par' q t"
proof (cases t)
  case (Node l n r)
  with assms have "same_links h h' (set_tree l)" "same_links h h' (set_tree r)"
    by (auto intro!: same_linksI)
  with Node assms show ?thesis by (auto intro: subtree_frame)
qed (use assms in simp)

text \<open>What the operations keep besides the links.\<close>

definition same_rest :: "('p, 'v) bavl \<Rightarrow> ('p, 'v) bavl \<Rightarrow> 'p set \<Rightarrow> bool" where
  "same_rest t t' A \<longleftrightarrow>
     avl_cmp t' = avl_cmp t \<and> avl_val t' = avl_val t \<and> (\<forall>x. x \<notin> A \<longrightarrow> avl_node t' x = avl_node t x)"

lemma rotate_correct:
  assumes "around (avl_node t) (avl_root t) c (Some r)"
    and "subtree (avl_node t) (hole_parent c) (Some r) (nd (\<not> d) (nd d b nr e) r a)"
    and "distinct (inorder (plug c (nd (\<not> d) (nd d b nr e) r a)))"
  shows "\<exists>t'. BAVL_rotate r d t = Some t' \<and> around (avl_node t') (avl_root t') c (Some nr)
    \<and> subtree (avl_node t') (hole_parent c) (Some nr) (nd d (nd (\<not> d) b r a) nr e)
    \<and> balance_of t' = balance_of t
    \<and> same_rest t t' (insert r (insert nr (set_tree b \<union> hole_set c)))"
proof -
  have D: "r \<noteq> nr" "r \<notin> set_tree b" "r \<notin> set_tree e" "r \<notin> set_tree a" "nr \<notin> set_tree b" "nr \<notin> set_tree e"
    "nr \<notin> set_tree a" "set_tree b \<inter> set_tree e = {}" "set_tree b \<inter> set_tree a = {}"
    "set_tree e \<inter> set_tree a = {}" "distinct (inorder a)" "distinct (inorder b)" "distinct (inorder e)"
    "separate c" "r \<notin> hole_set c" "nr \<notin> hole_set c" "set_tree a \<inter> hole_set c = {}" "set_tree b \<inter> hole_set c = {}"
    "set_tree e \<inter> hole_set c = {}"
    using assms(3) by (auto simp: distinct_plug distinct_nd)
  have dj: "x \<in> set_tree b \<Longrightarrow> x \<noteq> r \<and> x \<noteq> nr \<and> x \<notin> hole_set c"
    "x \<in> set_tree a \<union> set_tree e \<Longrightarrow> x \<noteq> r \<and> x \<noteq> nr \<and> x \<notin> hole_set c \<and> x \<notin> set_tree b" for x
    using D by blast+
  from assms(2) have S: "link_of t r (\<not> d) = Some nr" "parent_of t r = hole_parent c" "parent_of t nr = Some r"
    "subtree (avl_node t) (Some nr) (link_of t nr d) b" "subtree (avl_node t) (Some nr) (link_of t nr (\<not> d)) e"
    "subtree (avl_node t) (Some r) (link_of t r d) a" by auto
  have bx: "link_of t nr d = Some x \<Longrightarrow> x \<in> set_tree b" for x using S(4) subtree_root by fastforce
  have hp: "hole_parent c = Some p \<Longrightarrow> p \<in> hole_set c" for p by (cases c) auto
  define t1 where "t1 = set_link nr d (Some r)
      (adopt r (link_of t nr d) (set_link r (\<not> d) (link_of t nr d) t))"
  define t2 where "t2 = set_parent nr (parent_of t1 r) t1"
  define t3 where "t3 = hang (parent_of t2 nr) r (Some nr) t2"
  define t4 where "t4 = set_parent r (Some nr) t3"
  have res: "BAVL_rotate r d t = Some t4"
    by (simp add: BAVL_rotate_def S(1) t1_def t2_def t3_def t4_def)
  have p2: "parent_of t2 nr = hole_parent c"
    using D(1,2) bx S(2) by (auto simp: t2_def t1_def)
  have ar: "around (avl_node t2) (avl_root t2) c (Some r)"
  proof -
    have "same_links (avl_node t) (avl_node t2) (hole_set c)"
      using D(15,16) bx dj(1) by (auto simp: t2_def t1_def intro!: same_linksI)
    from around_frame [OF assms(1) this] show ?thesis by (simp add: t2_def t1_def)
  qed
  have ar3: "around (avl_node t3) (avl_root t3) c (Some nr)"
    unfolding t3_def p2 by (rule around_hang [OF ar D(15,14)])
  have "same_links (avl_node t3) (avl_node t4) (hole_set c)"
    using D by (auto simp: t4_def intro!: same_linksI)
  then have ar4: "around (avl_node t4) (avl_root t4) c (Some nr)"
    using around_frame [OF ar3] by (simp add: t4_def)
  have L: "bn_link (avl_node t4 r) = (link_of t r)(\<not> d := link_of t nr d)"
    "bn_link (avl_node t4 nr) = (link_of t nr)(d := Some r)"
    "x \<noteq> r \<Longrightarrow> x \<noteq> nr \<Longrightarrow> x \<notin> hole_set c \<Longrightarrow> bn_link (avl_node t4 x) = link_of t x" for x
    using D hp p2 by (auto simp: t4_def t3_def link_hang t2_def t1_def)
  have P: "bn_parent (avl_node t4 r) = Some nr" "bn_parent (avl_node t4 nr) = hole_parent c"
    "x \<noteq> r \<Longrightarrow> x \<noteq> nr \<Longrightarrow> bn_parent (avl_node t4 x) = (if link_of t nr d = Some x then Some r else parent_of t x)" for x
    using D(1) p2 by (auto simp: t4_def t3_def t2_def t1_def)
  have "subtree (avl_node t4) (Some r) (link_of t nr d) b"
    using P L dj(1) bx D(12) by (intro subtree_adopted [OF S(4)]) simp_all
  moreover have "subtree (avl_node t4) (Some nr) (link_of t nr (\<not> d)) e"
    using L P dj(2) bx by (intro subtree_frame [OF S(5)] same_linksI) auto
  moreover have "subtree (avl_node t4) (Some r) (link_of t r d) a"
    using L P dj(2) bx by (intro subtree_frame [OF S(6)] same_linksI) auto
  ultimately have "subtree (avl_node t4) (hole_parent c) (Some nr) (nd d (nd (\<not> d) b r a) nr e)"
    by (simp add: L P)
  moreover have "balance_of t4 = balance_of t"
    by (rule ext) (simp add: t4_def t3_def t2_def t1_def)
  moreover have "same_rest t t4 (insert r (insert nr (set_tree b \<union> hole_set c)))"
    unfolding same_rest_def
  proof (intro conjI allI impI)
    fix x assume x: "x \<notin> insert r (insert nr (set_tree b \<union> hole_set c))"
    then have "bn_link (avl_node t4 x) = link_of t x" "bn_parent (avl_node t4 x) = parent_of t x"
      "balance_of t4 x = balance_of t x"
      using L P bx \<open>balance_of t4 = balance_of t\<close> by (auto dest: fun_cong)
    then show "avl_node t4 x = avl_node t x" by (simp add: bavl_node.equality)
  qed (simp_all add: t4_def t3_def t2_def t1_def)
  ultimately show ?thesis using res ar4 by blast
qed

text \<open>The rotation of \<^verbatim>\<open>CAvl_impl.h\<close>, given the parent, is the same.\<close>

lemma tree_check_parent:
  assumes "around (avl_node t) (avl_root t) c (Some r)" "parent_of t r = hole_parent c"
  shows "CAvl_check_parent (hole_parent c) r t"
proof (cases c)
  case Nil
  then show ?thesis using assms by (simp add: CAvl_check_parent_def)
next
  case (Cons f d)
  obtain s p u where "f = (s, p, u)" by (cases f)
  with Cons show ?thesis using assms by (cases s) (auto simp: CAvl_check_parent_def)
qed

lemma CAvl_rotate_eq:
  assumes "around (avl_node t) (avl_root t) c (Some r)"
    and "subtree (avl_node t) (hole_parent c) (Some r) (nd (\<not> d) (nd d b nr e) r a)"
    and "distinct (inorder (plug c (nd (\<not> d) (nd d b nr e) r a)))"
  shows "CAvl_rotate r d (hole_parent c) t = BAVL_rotate r d t"
proof -
  have D: "r \<noteq> nr" "r \<notin> set_tree b" using assms(3) by (auto simp: distinct_plug distinct_nd)
  have S: "link_of t r (\<not> d) = Some nr" "parent_of t r = hole_parent c" "subtree (avl_node t) (Some nr) (link_of t nr d) b"
    using assms(2) by auto
  have b: "link_of t nr d \<noteq> Some r" using S(3) D(2) subtree_root by fastforce
  have "CAvl_check_parent (hole_parent c) r t" by (rule tree_check_parent [OF assms(1) S(2)])
  then show ?thesis using D(1) b by (simp add: CAvl_rotate_def BAVL_rotate_def S(1,2) Let_def)
qed

section \<open>Balance\<close>

fun avl :: "('p \<Rightarrow> int) \<Rightarrow> 'p tree \<Rightarrow> bool" where
  "avl bal Leaf \<longleftrightarrow> True"
| "avl bal (Node l n r) \<longleftrightarrow>
     bal n = int (height r) - int (height l) \<and> \<bar>bal n\<bar> \<le> 1 \<and> avl bal l \<and> avl bal r"

text \<open>The balance factor of a node with its sides exchanged if \<open>s\<close> is not set.\<close>

definition sg :: "bool \<Rightarrow> int" where
  "sg s = (if s then 1 else -1)"

lemma sg_simps [simp]: "sg True = 1" "sg False = -1" "sg s * sg s = 1" "sg (\<not> s) = - sg s" "sg s * (sg s * k) = k"
  by (auto simp: sg_def)

lemma sg_abs [simp]: "\<bar>sg s * k\<bar> = \<bar>k\<bar>"
  by (auto simp: sg_def)

lemma avl_nd:
  "avl bal (nd s x n y) \<longleftrightarrow>
     bal n = sg s * (int (height x) - int (height y)) \<and> \<bar>int (height x) - int (height y)\<bar> \<le> 1
     \<and> avl bal x \<and> avl bal y"
  by (auto simp: nd_def)

lemma avl_cong: "(\<And>x. x \<in> set_tree t \<Longrightarrow> bal x = bal' x) \<Longrightarrow> avl bal t = avl bal' t"
  by (induction t) auto

lemma nd_flip: "nd s x n y = nd (\<not> s) y n x"
  by (simp add: nd_def)

text \<open>The nodes around a hole of height \<open>H\<close>.\<close>

fun avl_around :: "('p \<Rightarrow> int) \<Rightarrow> 'p hole \<Rightarrow> nat \<Rightarrow> bool" where
  "avl_around bal [] H \<longleftrightarrow> True"
| "avl_around bal ((s, p, u) # c) H \<longleftrightarrow>
     bal p = sg s * (int H - int (height u)) \<and> \<bar>int H - int (height u)\<bar> \<le> 1
     \<and> avl bal u \<and> avl_around bal c (Suc (max H (height u)))"

lemma avl_plug: "avl bal (plug c t) \<longleftrightarrow> avl bal t \<and> avl_around bal c (height t)"
  by (induction c t rule: plug.induct) (auto simp: avl_nd)

lemma avl_around_cong: "(\<And>x. x \<in> hole_set c \<Longrightarrow> bal x = bal' x) \<Longrightarrow> avl_around bal c H = avl_around bal' c H"
proof (induction c arbitrary: H rule: hole_set.induct)
  case (2 s p u c)
  then have "avl bal u = avl bal' u" by (intro avl_cong) simp
  with 2 show ?case by simp
qed simp

text \<open>The transformation makes a subtree whose sides differ by 2 balanced, and tells its new height.\<close>

definition transformed :: "('p, 'v) bavl \<Rightarrow> 'p hole \<Rightarrow> 'p tree \<Rightarrow> 'p \<Rightarrow> 'p tree \<Rightarrow> ('p, 'v) bavl \<Rightarrow> bool" where
  "transformed t c T n' T' t' \<longleftrightarrow>
     around (avl_node t') (avl_root t') c (Some n') \<and> subtree (avl_node t') (hole_parent c) (Some n') T'
     \<and> inorder T' = inorder T \<and> avl (balance_of t') T' \<and> (\<forall>q\<in>hole_set c. balance_of t' q = balance_of t q)
     \<and> same_rest t t' (set_tree T \<union> hole_set c)"

lemma same_rest_balance:
  "same_rest t t' A \<Longrightarrow> n \<in> A \<Longrightarrow> same_rest t (set_balance n b t') A"
  by (auto simp: same_rest_def)

lemma same_rest_mono: "same_rest t t' A \<Longrightarrow> A \<subseteq> B \<Longrightarrow> same_rest t t' B"
  by (auto simp: same_rest_def)

lemma same_rest_trans: "same_rest t t' A \<Longrightarrow> same_rest t' t'' A \<Longrightarrow> same_rest t t'' A"
  by (auto simp: same_rest_def)

lemma links_balance:
  "subtree (avl_node (set_balance n b t)) par q T = subtree (avl_node t) par q T"
  "around (avl_node (set_balance n b t)) rt c q = around (avl_node t) rt c q"
proof -
  have *: "same_links (avl_node t) (avl_node (set_balance n b t)) A"
    "same_links (avl_node (set_balance n b t)) (avl_node t) A" for A
    by (auto intro!: same_linksI)
  show "subtree (avl_node (set_balance n b t)) par q T = subtree (avl_node t) par q T"
    using subtree_frame * by blast
  show "around (avl_node (set_balance n b t)) rt c q = around (avl_node t) rt c q"
    using around_frame * by blast
qed

lemma transform_single:
  assumes ar: "around (avl_node t) (avl_root t) c (Some p)"
    and sub: "subtree (avl_node t) (hole_parent c) (Some p) (nd b (nd (\<not> b) x2 ch x1) p y)"
    and dist: "distinct (inorder (plug c (nd b (nd (\<not> b) x2 ch x1) p y)))"
    and avl: "avl (balance_of t) x1" "avl (balance_of t) x2" "avl (balance_of t) y"
    and h: "int (height x1) = int (height y) + 1" "height x2 = height x1 \<or> Suc (height x2) = height x1"
      "balance_of t p = 2 * sg b" "balance_of t ch = sg b * (int (height x1) - int (height x2))"
  shows "\<exists>t'. BAVL_transform p delta t =
        Some (ch, (if height x2 = height x1 then delta else delta - 1), t')
    \<and> transformed t c (nd b (nd (\<not> b) x2 ch x1) p y) ch (nd (\<not> b) (nd b x2 p y) ch x1) t'"
proof -
  obtain t1 where t1: "BAVL_rotate p (\<not> b) t = Some t1" "around (avl_node t1) (avl_root t1) c (Some ch)"
    "subtree (avl_node t1) (hole_parent c) (Some ch) (nd (\<not> b) (nd b x2 p y) ch x1)"
    "balance_of t1 = balance_of t" "same_rest t t1 (insert p (insert ch (set_tree x2 \<union> hole_set c)))"
    using rotate_correct [of t c p "\<not> b" x2 ch x1 y] ar sub dist by auto
  define e where "e = int (height x1) - int (height x2)"
  define t2 where "t2 = set_balance ch (- (1 - e) * sg b) (set_balance p ((1 - e) * sg b) t1)"
  have ne: "p \<noteq> ch" "p \<notin> set_tree x1" "p \<notin> set_tree x2" "p \<notin> set_tree y" "ch \<notin> set_tree x1" "ch \<notin> set_tree x2"
    "ch \<notin> set_tree y" "p \<notin> hole_set c" "ch \<notin> hole_set c"
    using dist by (auto simp: distinct_plug distinct_nd)
  have e: "e = 0 \<or> e = 1" using h(2) by (auto simp: e_def)
  have side: "(balance_of t p = 2) = b" using h(3) by (cases b) auto
  have lk: "link_of t p b = Some ch" using sub by simp
  have bl: "balance_of t ch * (if b then 1 else - 1) = e"
    using h(4) by (cases b) (auto simp: e_def)
  have res: "BAVL_transform p delta t = Some (ch, (if e = 0 then delta else delta - 1), t2)"
    using e by (auto simp: BAVL_transform_def Let_def side lk bl t1(1) t2_def sg_def)
  have bal2: "balance_of t2 = (balance_of t)(p := (1 - e) * sg b, ch := - (1 - e) * sg b)"
    by (rule ext) (simp add: t2_def ne(1) fun_cong [OF t1(4)])
  have lk2: "around (avl_node t2) (avl_root t2) c (Some ch)"
    "subtree (avl_node t2) (hole_parent c) (Some ch) (nd (\<not> b) (nd b x2 p y) ch x1)"
    using t1(2,3) by (simp_all add: t2_def links_balance del: set_simps(3) subtree_nd)
  have "avl (balance_of t2) x1" "avl (balance_of t2) x2" "avl (balance_of t2) y"
    using avl ne by (auto simp: bal2 elim!: avl_cong [THEN iffD1, rotated])
  moreover have "balance_of t2 p = sg b * (int (height x2) - int (height y))"
    "balance_of t2 ch = sg (\<not> b) * (int (height (nd b x2 p y)) - int (height x1))"
    using h(1,2) ne(1) by (auto simp: fun_cong [OF bal2] e_def max_def)
  ultimately have "avl (balance_of t2) (nd (\<not> b) (nd b x2 p y) ch x1)"
    unfolding avl_nd using h(1,2) by auto
  moreover have "same_rest t t2 (set_tree (nd b (nd (\<not> b) x2 ch x1) p y) \<union> hole_set c)"
    unfolding t2_def by (intro same_rest_balance same_rest_mono [OF t1(5)]) auto
  moreover have "inorder (nd (\<not> b) (nd b x2 p y) ch x1) = inorder (nd b (nd (\<not> b) x2 ch x1) p y)"
    by (auto simp: inorder_nd)
  ultimately have "transformed t c (nd b (nd (\<not> b) x2 ch x1) p y) ch (nd (\<not> b) (nd b x2 p y) ch x1) t2"
    using lk2 ne by (auto simp: transformed_def fun_cong [OF bal2])
  moreover have "e = 0 \<longleftrightarrow> height x2 = height x1" by (auto simp: e_def)
  ultimately show ?thesis using res by auto
qed

lemma transform_double:
  assumes ar: "around (avl_node t) (avl_root t) c (Some p)"
    and sub: "subtree (avl_node t) (hole_parent c) (Some p) (nd b (nd (\<not> b) (nd b g1 gc g2) ch x1) p y)"
    and dist: "distinct (inorder (plug c (nd b (nd (\<not> b) (nd b g1 gc g2) ch x1) p y)))"
    and avl: "avl (balance_of t) x1" "avl (balance_of t) (nd b g1 gc g2)" "avl (balance_of t) y"
    and h: "height x1 = height y" "height (nd b g1 gc g2) = Suc (height x1)"
      "balance_of t p = 2 * sg b" "balance_of t ch = - sg b"
  shows "\<exists>t'. BAVL_transform p delta t = Some (gc, delta - 1, t')
    \<and> transformed t c (nd b (nd (\<not> b) (nd b g1 gc g2) ch x1) p y) gc
        (nd (\<not> b) (nd b g2 p y) gc (nd (\<not> b) g1 ch x1)) t'"
proof -
  let ?T = "nd b (nd (\<not> b) (nd b g1 gc g2) ch x1) p y"
  let ?A = "set_tree ?T \<union> hole_set c"
  from sub have lk: "link_of t p b = Some ch" "link_of t ch (\<not> b) = Some gc" by simp_all
  obtain t1 where t1: "BAVL_rotate ch b t = Some t1" "around (avl_node t1) (avl_root t1) ((b, p, y) # c) (Some gc)"
    "subtree (avl_node t1) (Some p) (Some gc) (nd b (nd (\<not> b) g1 ch x1) gc g2)"
    "balance_of t1 = balance_of t"
    "same_rest t t1 (insert ch (insert gc (set_tree g1 \<union> hole_set ((b, p, y) # c))))"
    using rotate_correct [of t "(b, p, y) # c" ch b g1 gc g2 x1] ar sub dist by auto
  have sub1: "subtree (avl_node t1) (hole_parent c) (Some p) (nd b (nd b (nd (\<not> b) g1 ch x1) gc g2) p y)"
    and ar1: "around (avl_node t1) (avl_root t1) c (Some p)"
    using t1(2,3) by auto
  have dist1: "distinct (inorder (plug c (nd b (nd b (nd (\<not> b) g1 ch x1) gc g2) p y)))"
    using dist by (auto simp: distinct_plug distinct_nd)
  have flip: "nd b (nd (\<not> b) g1 ch x1) gc g2 = nd (\<not> b) g2 gc (nd (\<not> b) g1 ch x1)"
    by (rule nd_flip)
  obtain t2 where t2: "BAVL_rotate p (\<not> b) t1 = Some t2" "around (avl_node t2) (avl_root t2) c (Some gc)"
    "subtree (avl_node t2) (hole_parent c) (Some gc) (nd (\<not> b) (nd b g2 p y) gc (nd (\<not> b) g1 ch x1))"
    "balance_of t2 = balance_of t"
    "same_rest t1 t2 (insert p (insert gc (set_tree g2 \<union> hole_set c)))"
    using rotate_correct [of t1 c p "\<not> b" g2 gc "nd (\<not> b) g1 ch x1" y] ar1 sub1 [unfolded flip]
      dist1 [unfolded flip] t1(4) by auto
  define e where "e = int (height g1) - int (height g2)"
  have ne: "p \<noteq> ch" "p \<noteq> gc" "ch \<noteq> gc" "p \<notin> set_tree x1" "p \<notin> set_tree g1" "p \<notin> set_tree g2" "p \<notin> set_tree y"
    "ch \<notin> set_tree x1" "ch \<notin> set_tree g1" "ch \<notin> set_tree g2" "ch \<notin> set_tree y"
    "gc \<notin> set_tree x1" "gc \<notin> set_tree g1" "gc \<notin> set_tree g2" "gc \<notin> set_tree y"
    "p \<notin> hole_set c" "ch \<notin> hole_set c" "gc \<notin> hole_set c"
    using dist by (auto simp: distinct_plug distinct_nd)
  have bg: "balance_of t gc = sg b * e" "\<bar>e\<bar> \<le> 1" using avl(2) by (auto simp: avl_nd e_def)
  define t3 where "t3 = set_balance gc 0 (set_balance ch (max 0 (- e) * sg b) (set_balance p (- max 0 e * sg b) t2))"
  have side: "(balance_of t p = 2) = b" using h(3) by (cases b) auto
  have res: "BAVL_transform p delta t = Some (gc, delta - 1, t3)"
    using h(4) t1(1) t2(1) ne fun_cong [OF t2(4)] bg(1) side lk
    by (cases b) (simp_all add: BAVL_transform_def Let_def t3_def BAVL_MAX_def max_def)
  have bal3: "balance_of t3 = (balance_of t)(p := - max 0 e * sg b, ch := max 0 (- e) * sg b, gc := 0)"
    by (rule ext) (simp add: t3_def ne fun_cong [OF t2(4)])
  have lk3: "around (avl_node t3) (avl_root t3) c (Some gc)"
    "subtree (avl_node t3) (hole_parent c) (Some gc) (nd (\<not> b) (nd b g2 p y) gc (nd (\<not> b) g1 ch x1))"
    using t2(2,3) by (simp_all add: t3_def links_balance del: set_simps(3) subtree_nd)
  have "avl (balance_of t3) x1" "avl (balance_of t3) g1" "avl (balance_of t3) g2" "avl (balance_of t3) y"
    using avl ne by (auto simp: bal3 avl_nd elim!: avl_cong [THEN iffD1, rotated])
  moreover have "balance_of t3 p = sg b * (int (height g2) - int (height y))"
    "balance_of t3 ch = sg (\<not> b) * (int (height g1) - int (height x1))"
    "balance_of t3 gc = sg (\<not> b) * (int (height (nd b g2 p y)) - int (height (nd (\<not> b) g1 ch x1)))"
    using h(1,2) ne(1-3) bg(2) by (cases b; auto simp: fun_cong [OF bal3] e_def max_def split: if_splits)+
  ultimately have "avl (balance_of t3) (nd (\<not> b) (nd b g2 p y) gc (nd (\<not> b) g1 ch x1))"
    unfolding avl_nd using h(1,2) bg(2) by (auto simp: e_def)
  moreover have "same_rest t t3 ?A"
  proof -
    have "same_rest t t2 ?A"
      by (rule same_rest_trans [OF same_rest_mono [OF t1(5)] same_rest_mono [OF t2(5)]]) auto
    then show ?thesis unfolding t3_def by (intro same_rest_balance) auto
  qed
  moreover have "inorder (nd (\<not> b) (nd b g2 p y) gc (nd (\<not> b) g1 ch x1)) = inorder ?T"
    by (auto simp: inorder_nd)
  ultimately have "transformed t c ?T gc (nd (\<not> b) (nd b g2 p y) gc (nd (\<not> b) g1 ch x1)) t3"
    using lk3 ne by (auto simp: transformed_def fun_cong [OF bal3])
  with res show ?thesis by auto
qed

lemma transform_correct:
  assumes ar: "around (avl_node t) (avl_root t) c (Some p)"
    and sub: "subtree (avl_node t) (hole_parent c) (Some p) (nd b x p y)"
    and dist: "distinct (inorder (plug c (nd b x p y)))"
    and avl: "avl (balance_of t) x" "avl (balance_of t) y"
    and h: "height x = height y + 2" "balance_of t p = 2 * sg b"
  shows "\<exists>n' T' t'. BAVL_transform p delta t = Some (n', delta + int (height T') - int (Suc (height x)), t')
    \<and> (height T' = height x \<or> height T' = Suc (height x)) \<and> transformed t c (nd b x p y) n' T' t'"
proof -
  obtain x2 ch x1 where x: "x = nd (\<not> b) x2 ch x1" using h(1) nd_cases [of x "\<not> b"] by fastforce
  have ax: "avl (balance_of t) x1" "avl (balance_of t) x2" "\<bar>int (height x2) - int (height x1)\<bar> \<le> 1"
    "balance_of t ch = sg b * (int (height x1) - int (height x2))"
    using avl(1) by (auto simp: x avl_nd algebra_simps)
  show ?thesis
  proof (cases "height x2 \<le> height x1")
    case True
    have h1: "int (height x1) = int (height y) + 1" using h(1) True by (simp add: x)
    have h2: "height x2 = height x1 \<or> Suc (height x2) = height x1" using True ax(3) by linarith
    obtain t' where "BAVL_transform p delta t = Some (ch, (if height x2 = height x1 then delta else delta - 1), t')"
      "transformed t c (nd b x p y) ch (nd (\<not> b) (nd b x2 p y) ch x1) t'"
      using transform_single [OF ar sub [unfolded x] dist [unfolded x] ax(1,2) avl(2) h1 h2 h(2) ax(4), where delta = delta, folded x]
      by (elim exE conjE) blast
    moreover have "(if height x2 = height x1 then delta else delta - 1)
        = delta + int (height (nd (\<not> b) (nd b x2 p y) ch x1)) - int (Suc (height x))"
      "height (nd (\<not> b) (nd b x2 p y) ch x1) = height x \<or> height (nd (\<not> b) (nd b x2 p y) ch x1) = Suc (height x)"
      using h1 h2 by (auto simp: x)
    ultimately show ?thesis
      by (intro exI [of _ ch] exI [of _ "nd (\<not> b) (nd b x2 p y) ch x1"] exI [of _ t'] conjI) simp_all
  next
    case False
    then have h2: "height x2 = Suc (height x1)" using ax(3) by linarith
    then obtain g1 gc g2 where x2: "x2 = nd b g1 gc g2" using nd_cases [of x2 b] by fastforce
    have h1: "height x1 = height y" using h(1) h2 by (simp add: x)
    have bc: "balance_of t ch = - sg b" using ax(4) h2 by (simp add: algebra_simps)
    obtain t' where "BAVL_transform p delta t = Some (gc, delta - 1, t')"
      "transformed t c (nd b x p y) gc (nd (\<not> b) (nd b g2 p y) gc (nd (\<not> b) g1 ch x1)) t'"
      using transform_double [OF ar sub [unfolded x x2] dist [unfolded x x2] ax(1) ax(2) [unfolded x2] avl(2)
        h1 h2 [unfolded x2] h(2) bc, where delta = delta, folded x2, folded x]
      by (elim exE conjE) blast
    moreover have "delta - 1 = delta + int (height (nd (\<not> b) (nd b g2 p y) gc (nd (\<not> b) g1 ch x1))) - int (Suc (height x))"
      "height (nd (\<not> b) (nd b g2 p y) gc (nd (\<not> b) g1 ch x1)) = height x"
      using h1 h2 ax(2) by (auto simp: x x2 avl_nd)
    ultimately show ?thesis
      by (intro exI [of _ gc] exI [of _ "nd (\<not> b) (nd b g2 p y) gc (nd (\<not> b) g1 ch x1)"] exI [of _ t'] conjI)
        simp_all
  qed
qed

lemma CAvl_transform_eq:
  assumes ar: "around (avl_node t) (avl_root t) c (Some p)"
    and sub: "subtree (avl_node t) (hole_parent c) (Some p) (nd b x p y)"
    and dist: "distinct (inorder (plug c (nd b x p y)))"
    and avl: "avl (balance_of t) x"
    and h: "height x = height y + 2" "balance_of t p = 2 * sg b"
  shows "CAvl_transform p delta t = BAVL_transform p delta t"
proof -
  obtain x2 ch x1 where x: "x = nd (\<not> b) x2 ch x1" using h(1) nd_cases [of x "\<not> b"] by fastforce
  have side: "(balance_of t p = 2) = b" using h(2) by (cases b) auto
  have lk: "link_of t p b = Some ch" "parent_of t p = hole_parent c" using sub by (simp_all add: x)
  have one: "CAvl_rotate p (\<not> b) (hole_parent c) t = BAVL_rotate p (\<not> b) t"
    using CAvl_rotate_eq [of t c p "\<not> b" x2 ch x1 y] ar sub dist by (simp add: x)
  have two: "link_of t ch (\<not> b) = Some gc \<Longrightarrow> CAvl_rotate ch b (Some p) t = BAVL_rotate ch b t
      \<and> (\<forall>t1. BAVL_rotate ch b t = Some t1 \<longrightarrow>
            CAvl_rotate p (\<not> b) (parent_of t1 p) t1 = BAVL_rotate p (\<not> b) t1)" for gc
  proof -
    assume gc: "link_of t ch (\<not> b) = Some gc"
    have s2: "subtree (avl_node t) (Some ch) (Some gc) x2" using sub gc by (simp add: x)
    then have "x2 \<noteq> Leaf" by auto
    then obtain g1 n g2 where "x2 = nd b g1 n g2" using nd_cases by blast
    with s2 have x2: "x2 = nd b g1 gc g2" by simp
    let ?c = "(b, p, y) # c"
    have P: "around (avl_node t) (avl_root t) ?c (Some ch)"
      "subtree (avl_node t) (hole_parent ?c) (Some ch) (nd (\<not> b) (nd b g1 gc g2) ch x1)"
      "distinct (inorder (plug ?c (nd (\<not> b) (nd b g1 gc g2) ch x1)))"
      using ar sub dist by (auto simp: x x2)
    obtain t1 where t1: "BAVL_rotate ch b t = Some t1" "around (avl_node t1) (avl_root t1) ?c (Some gc)"
      "subtree (avl_node t1) (Some p) (Some gc) (nd b (nd (\<not> b) g1 ch x1) gc g2)"
      using rotate_correct [OF P] by auto
    have sub1: "subtree (avl_node t1) (hole_parent c) (Some p) (nd b (nd b (nd (\<not> b) g1 ch x1) gc g2) p y)"
      and ar1: "around (avl_node t1) (avl_root t1) c (Some p)"
      using t1(2,3) by auto
    have dist1: "distinct (inorder (plug c (nd b (nd b (nd (\<not> b) g1 ch x1) gc g2) p y)))"
      using dist by (auto simp: distinct_plug distinct_nd x x2)
    have flip: "nd b (nd (\<not> b) g1 ch x1) gc g2 = nd (\<not> b) g2 gc (nd (\<not> b) g1 ch x1)" by (rule nd_flip)
    have "parent_of t1 p = hole_parent c" using sub1 by simp
    then have "CAvl_rotate p (\<not> b) (parent_of t1 p) t1 = BAVL_rotate p (\<not> b) t1"
      using CAvl_rotate_eq [of t1 c p "\<not> b" g2 gc "nd (\<not> b) g1 ch x1" y] ar1 sub1 [unfolded flip] dist1 [unfolded flip]
      by simp
    then show ?thesis using CAvl_rotate_eq [OF P] t1(1) by simp
  qed
  show ?thesis
    unfolding CAvl_transform_def BAVL_transform_def Let_def side lk(1) bind.bind_lunit
    by (cases "link_of t ch (\<not> b)"; cases "BAVL_rotate ch b t") (use two in \<open>simp_all add: one lk(2)\<close>)
qed

section \<open>Rebalancing\<close>

text \<open>The tree \<open>t\<close> is the balanced tree \<open>T\<close>.\<close>

definition bavl_tree :: "('p, 'v) bavl \<Rightarrow> 'p tree \<Rightarrow> bool" where
  "bavl_tree t T \<longleftrightarrow> subtree (avl_node t) None (avl_root t) T \<and> distinct (inorder T) \<and> avl (balance_of t) T"

text \<open>One level: \<open>H\<close> is the height the subtree \<open>T\<close> on side \<open>s\<close> of \<open>p\<close> had before it changed.\<close>

lemma rebalance_level:
  assumes ar: "around (avl_node t) (avl_root t) ((s, p, u) # c) q" and sub: "subtree (avl_node t) (Some p) q T"
    and dist: "distinct (inorder (plug ((s, p, u) # c) T))" and avl: "avl (balance_of t) T"
    and avc: "avl_around (balance_of t) ((s, p, u) # c) H"
    and dc: "int (height T) = int H + deltac" "\<bar>deltac\<bar> \<le> 1" "deltac \<noteq> 0"
  shows "\<exists>n' T' t'. BAVL_rebalance p s deltac t =
        (case parent_of t' n' of
           None \<Rightarrow> Some t'
         | Some p' \<Rightarrow> BAVL_rebalance p' (Some n' = link_of t' p' True)
             (int (height T') - int (Suc (max H (height u)))) t')
    \<and> CAvl_rebalance p s deltac t =
        (case parent_of t' n' of
           None \<Rightarrow> Some t'
         | Some p' \<Rightarrow> CAvl_rebalance p' (Some n' = link_of t' p' True)
             (int (height T') - int (Suc (max H (height u)))) t')
    \<and> \<bar>int (height T') - int (Suc (max H (height u)))\<bar> \<le> 1
    \<and> avl_around (balance_of t') c (Suc (max H (height u)))
    \<and> transformed t c (nd s T p u) n' T' t'"
proof -
  define k where "k = int (height u)"
  define h where "h = int (height T)"
  let ?t = "set_balance p (sg s * (h - k)) t"
  define delta where "delta = max h k - max (int H) k"
  have bp: "balance_of t p = sg s * (int H - k)" "\<bar>int H - k\<bar> \<le> 1" "avl (balance_of t) u"
    "avl_around (balance_of t) c (Suc (max H (height u)))" using avc by (auto simp: k_def)
  have ne: "p \<notin> set_tree T" "p \<notin> set_tree u" "p \<notin> hole_set c"
    using dist by (auto simp: distinct_plug distinct_nd)
  have bt: "balance_of ?t = (balance_of t)(p := sg s * (h - k))" by (rule ext) simp
  have av: "avl (balance_of ?t) T" "avl (balance_of ?t) u" "avl_around (balance_of ?t) c (Suc (max H (height u)))"
    unfolding bt using ne avl bp(3,4)
    by (auto elim!: avl_cong [THEN iffD1, rotated] avl_around_cong [THEN iffD1, rotated])
  have "subtree (avl_node t) (hole_parent c) (Some p) (nd s T p u)" "around (avl_node t) (avl_root t) c (Some p)"
    using ar sub by auto
  then have sub': "subtree (avl_node ?t) (hole_parent c) (Some p) (nd s T p u)"
    and ar': "around (avl_node ?t) (avl_root ?t) c (Some p)"
    by (simp_all add: links_balance del: set_simps(3) subtree_nd)
  have dist': "distinct (inorder (plug c (nd s T p u)))" using dist by simp
  have "\<exists>n' T' t'. (if balance_of ?t p = 2 \<or> balance_of ?t p = - 2 then BAVL_transform p delta ?t
        else Some (p, delta, ?t)) = Some (n', int (height T') - int (Suc (max H (height u))), t')
      \<and> \<bar>int (height T') - int (Suc (max H (height u)))\<bar> \<le> 1
      \<and> transformed ?t c (nd s T p u) n' T' t'
      \<and> (balance_of ?t p = 2 \<or> balance_of ?t p = - 2 \<longrightarrow> CAvl_transform p delta ?t = BAVL_transform p delta ?t)"
      (is "?step")
  proof -
    consider (ok) "\<bar>h - k\<bar> \<le> 1" | (up) "h = k + 2" "int H = k + 1" | (down) "k = h + 2" "k = int H + 1"
      using bp(2) dc unfolding h_def by linarith
    then show ?step
    proof cases
      case ok
      have "avl (balance_of ?t) (nd s T p u)" unfolding avl_nd using av ok by (auto simp: h_def k_def)
      moreover have "\<not> (balance_of ?t p = 2 \<or> balance_of ?t p = - 2)" using ok by (auto simp: sg_def)
      moreover have "delta = int (height (nd s T p u)) - int (Suc (max H (height u)))"
        by (auto simp: delta_def h_def k_def)
      moreover have "\<bar>delta\<bar> \<le> 1" using dc by (auto simp: delta_def h_def)
      moreover have "same_rest ?t ?t A" for A by (simp add: same_rest_def)
      ultimately show ?thesis using sub' ar'
        by (intro exI [of _ p] exI [of _ "nd s T p u"] exI [of _ ?t]) (simp add: transformed_def)
    next
      case up
      have h2: "height T = height u + 2" using up by (simp add: h_def k_def)
      have b2: "balance_of ?t p = 2 * sg s" using up by simp
      have d: "delta = 1" using up by (simp add: delta_def)
      obtain n' T' t' where r: "BAVL_transform p delta ?t = Some (n', delta + int (height T') - int (Suc (height T)), t')"
        "height T' = height T \<or> height T' = Suc (height T)" "transformed ?t c (nd s T p u) n' T' t'"
        using transform_correct [OF ar' sub' dist' av(1,2) h2 b2] by blast
      note eq = CAvl_transform_eq [OF ar' sub' dist' av(1) h2 b2, of delta]
      have "Suc (max H (height u)) = height T" using up by (simp add: h_def k_def)
      then show ?thesis using r b2 d eq
        by (intro exI [of _ n'] exI [of _ T'] exI [of _ t']) (auto simp: sg_def simp del: set_simps)
    next
      case down
      have h2: "height u = height T + 2" using down by (simp add: h_def k_def)
      have b2: "balance_of ?t p = 2 * sg (\<not> s)" using down by simp
      have d: "delta = 0" using down by (simp add: delta_def)
      have f: "nd s T p u = nd (\<not> s) u p T" by (rule nd_flip)
      obtain n' T' t' where r: "BAVL_transform p delta ?t = Some (n', delta + int (height T') - int (Suc (height u)), t')"
        "height T' = height u \<or> height T' = Suc (height u)" "transformed ?t c (nd s T p u) n' T' t'"
        using transform_correct [OF ar' sub' [unfolded f] dist' [unfolded f] av(2,1) h2 b2] unfolding f by blast
      note eq = CAvl_transform_eq [OF ar' sub' [unfolded f] dist' [unfolded f] av(2) h2 b2, of delta]
      have "max H (height u) = height u" using down by (simp add: h_def k_def)
      then show ?thesis using r b2 d eq
        by (intro exI [of _ n'] exI [of _ T'] exI [of _ t']) (auto simp: sg_def simp del: set_simps)
    qed
  qed
  then obtain n' T' t' where st: "(if balance_of ?t p = 2 \<or> balance_of ?t p = - 2 then BAVL_transform p delta ?t
        else Some (p, delta, ?t)) = Some (n', int (height T') - int (Suc (max H (height u))), t')"
    "\<bar>int (height T') - int (Suc (max H (height u)))\<bar> \<le> 1" "transformed ?t c (nd s T p u) n' T' t'"
    and ct: "balance_of ?t p = 2 \<or> balance_of ?t p = - 2 \<longrightarrow> CAvl_transform p delta ?t = BAVL_transform p delta ?t"
    by blast
  have cst: "(if balance_of ?t p = 2 \<or> balance_of ?t p = - 2 then CAvl_transform p delta ?t
        else Some (p, delta, ?t)) = Some (n', int (height T') - int (Suc (max H (height u))), t')"
  proof (cases "balance_of ?t p = 2 \<or> balance_of ?t p = - 2")
    case True
    then show ?thesis using st(1) ct [rule_format, OF True] by (simp only: if_True)
  next
    case False
    then show ?thesis using st(1) by (simp only: if_False)
  qed
  have "transformed t c (nd s T p u) n' T' t'"
    using st(3) ne(3) by (auto simp: transformed_def same_rest_def)
  moreover have "avl_around (balance_of t') c (Suc (max H (height u)))"
    using av(3) st(3) unfolding transformed_def
    by (auto elim!: avl_around_cong [THEN iffD1, rotated])
  moreover have "BAVL_rebalance p s deltac t =
      (case parent_of t' n' of
         None \<Rightarrow> Some t'
       | Some p' \<Rightarrow> BAVL_rebalance p' (Some n' = link_of t' p' True)
           (int (height T') - int (Suc (max H (height u)))) t')"
    "CAvl_rebalance p s deltac t =
      (case parent_of t' n' of
         None \<Rightarrow> Some t'
       | Some p' \<Rightarrow> CAvl_rebalance p' (Some n' = link_of t' p' True)
           (int (height T') - int (Suc (max H (height u)))) t')"
  proof -
    have bal: "balance_of t p \<ge> -1" "balance_of t p \<le> 1" using bp(1,2) by (auto simp: sg_def)
    have opt: "BAVL_OPTNEG (balance_of t p) s = k - int H" using bp(1) by (auto simp: BAVL_OPTNEG_def sg_def)
    have del: "BAVL_MAX deltac (k - int H) - BAVL_MAX 0 (k - int H) = delta"
      using dc(1) by (auto simp: BAVL_MAX_def delta_def h_def)
    have dr: "delta \<ge> -1" "delta \<le> 1" using dc by (auto simp: delta_def h_def)
    have nb: "balance_of t p - BAVL_OPTNEG deltac s = sg s * (h - k)"
      using bp(1) dc(1) by (auto simp: BAVL_OPTNEG_def sg_def h_def)
    show "BAVL_rebalance p s deltac t =
      (case parent_of t' n' of
         None \<Rightarrow> Some t'
       | Some p' \<Rightarrow> BAVL_rebalance p' (Some n' = link_of t' p' True)
           (int (height T') - int (Suc (max H (height u)))) t')"
      using dc(2,3) bal dr st(2)
      by (subst BAVL_rebalance.simps) (simp add: opt del nb st(1) Let_def abs_le_iff del: set_simps of_nat_Suc)
    show "CAvl_rebalance p s deltac t =
      (case parent_of t' n' of
         None \<Rightarrow> Some t'
       | Some p' \<Rightarrow> CAvl_rebalance p' (Some n' = link_of t' p' True)
           (int (height T') - int (Suc (max H (height u)))) t')"
      using dc(2,3) bal dr st(2)
      by (subst CAvl_rebalance.simps) (simp add: opt del nb cst Let_def abs_le_iff del: set_simps of_nat_Suc)
  qed
  ultimately show ?thesis using st(2) by blast
qed

lemma rebalance_zero:
  assumes "around (avl_node t) (avl_root t) ((s, p, u) # c) q" "subtree (avl_node t) (Some p) q T"
    and "distinct (inorder (plug ((s, p, u) # c) T))" "avl (balance_of t) T"
    and "avl_around (balance_of t) ((s, p, u) # c) H" "int (height T) = int H + deltac" "deltac = 0"
  shows "\<exists>t' T'. BAVL_rebalance p s deltac t = Some t' \<and> CAvl_rebalance p s deltac t = Some t' \<and> bavl_tree t' T'
    \<and> inorder T' = inorder (plug ((s, p, u) # c) T) \<and> same_rest t t' (set (inorder (plug ((s, p, u) # c) T)))"
proof -
  have "\<bar>balance_of t p\<bar> \<le> 1" using assms(5) by auto
  then have "BAVL_rebalance p s deltac t = Some t"
    using assms(7) by (subst BAVL_rebalance.simps) (simp add: abs_le_iff)
  moreover have "CAvl_rebalance p s deltac t = Some t"
    using assms(7) \<open>\<bar>balance_of t p\<bar> \<le> 1\<close> by (subst CAvl_rebalance.simps) (simp add: abs_le_iff)
  moreover have "subtree (avl_node t) None (avl_root t) (plug ((s, p, u) # c) T)"
    unfolding subtree_plug using assms(1,2) by auto
  moreover have "avl (balance_of t) (plug ((s, p, u) # c) T)"
    unfolding avl_plug using assms(4-7) by auto
  ultimately show ?thesis using assms(3) by (auto simp: bavl_tree_def same_rest_def)
qed

lemma rebalance_correct:
  assumes "around (avl_node t) (avl_root t) ((s, p, u) # c) q" "subtree (avl_node t) (Some p) q T"
    and "distinct (inorder (plug ((s, p, u) # c) T))" "avl (balance_of t) T"
    and "avl_around (balance_of t) ((s, p, u) # c) H" "int (height T) = int H + deltac" "\<bar>deltac\<bar> \<le> 1"
  shows "\<exists>t' T'. BAVL_rebalance p s deltac t = Some t' \<and> CAvl_rebalance p s deltac t = Some t' \<and> bavl_tree t' T'
    \<and> inorder T' = inorder (plug ((s, p, u) # c) T) \<and> same_rest t t' (set (inorder (plug ((s, p, u) # c) T)))"
  using assms
proof (induction c arbitrary: t s p u q T H deltac)
  case Nil
  show ?case
  proof (cases "deltac = 0")
    case True
    with Nil show ?thesis by (intro rebalance_zero) auto
  next
    case False
    obtain n' T' t' where l: "BAVL_rebalance p s deltac t =
        (case parent_of t' n' of
           None \<Rightarrow> Some t'
         | Some p' \<Rightarrow> BAVL_rebalance p' (Some n' = link_of t' p' True)
             (int (height T') - int (Suc (max H (height u)))) t')"
      "CAvl_rebalance p s deltac t =
        (case parent_of t' n' of
           None \<Rightarrow> Some t'
         | Some p' \<Rightarrow> CAvl_rebalance p' (Some n' = link_of t' p' True)
             (int (height T') - int (Suc (max H (height u)))) t')" "transformed t [] (nd s T p u) n' T' t'"
      using rebalance_level [OF Nil False] by blast
    have "parent_of t' n' = None" using l(3) by (cases T') (auto simp: transformed_def)
    moreover have "bavl_tree t' T'" using l(3) Nil(3) by (simp add: transformed_def bavl_tree_def)
    ultimately show ?thesis using l by (auto simp: transformed_def)
  qed
next
  case (Cons f c)
  show ?case
  proof (cases "deltac = 0")
    case True
    with Cons.prems show ?thesis by (intro rebalance_zero) auto
  next
    case False
    obtain s' p' u' where f: "f = (s', p', u')" by (cases f)
    obtain n' T' t' where l: "BAVL_rebalance p s deltac t =
        (case parent_of t' n' of
           None \<Rightarrow> Some t'
         | Some p' \<Rightarrow> BAVL_rebalance p' (Some n' = link_of t' p' True)
             (int (height T') - int (Suc (max H (height u)))) t')"
        "CAvl_rebalance p s deltac t =
        (case parent_of t' n' of
           None \<Rightarrow> Some t'
         | Some p' \<Rightarrow> CAvl_rebalance p' (Some n' = link_of t' p' True)
             (int (height T') - int (Suc (max H (height u)))) t')"
        "\<bar>int (height T') - int (Suc (max H (height u)))\<bar> \<le> 1"
        "avl_around (balance_of t') (f # c) (Suc (max H (height u)))"
        "transformed t (f # c) (nd s T p u) n' T' t'"
      using rebalance_level [OF Cons.prems False] by blast
    have par: "parent_of t' n' = Some p'" using l(5) by (cases T') (auto simp: transformed_def f)
    have ino: "inorder (plug (f # c) T') = inorder (plug ((s, p, u) # f # c) T)"
      using l(5) by (simp add: transformed_def inorder_plug [of "f # c"])
    have dis: "distinct (inorder (plug (f # c) T'))" using Cons.prems(3) by (simp only: ino)
    then have "n' \<notin> set_tree u'" using l(5) subtree_root [of "avl_node t'" "Some p'" n' T']
      by (auto simp: f distinct_plug distinct_nd transformed_def)
    then have side: "(Some n' = link_of t' p' True) = s'"
      using l(5) around_side [of "avl_node t'" "avl_root t'" s' p' u' c n'] by (simp add: transformed_def f)
    obtain t'' T'' where r: "BAVL_rebalance p' s' (int (height T') - int (Suc (max H (height u)))) t' = Some t''"
      "CAvl_rebalance p' s' (int (height T') - int (Suc (max H (height u)))) t' = Some t''"
      "bavl_tree t'' T''" "inorder T'' = inorder (plug (f # c) T')"
      "same_rest t' t'' (set (inorder (plug (f # c) T')))"
      using Cons.IH [of t' s' p' u' "Some n'" T' "Suc (max H (height u))"
          "int (height T') - int (Suc (max H (height u)))"] l(3-5) dis
      unfolding transformed_def f by (auto simp del: of_nat_Suc)
    have "same_rest t t' (set (inorder (plug (f # c) T')))"
      unfolding ino by (rule same_rest_mono [of _ _ "set_tree (nd s T p u) \<union> hole_set (f # c)"])
        (use l(5) in \<open>auto simp: transformed_def set_plug\<close>)
    with r(5) have "same_rest t t'' (set (inorder (plug (f # c) T')))" by (rule same_rest_trans [rotated])
    then show ?thesis using r l(1,2) par side by (auto simp: ino)
  qed
qed

end
