(* ===== verification/BAVL_Refine.thy ===== *)
theory BAVL_Refine
  imports BAVL_Rebalance
begin

text \<open>
  The operations of \<^verbatim>\<open>structure/BAVL.h\<close> on a balanced tree in memory: descent, insertion, exchange of two nodes,
  removal, neighbours and the self-check, each against the in-order sequence of the nodes; and the bound on
  the height of a balanced tree.
\<close>

section \<open>Searching\<close>

text \<open>
  \<open>cut g xs\<close>: \<open>g\<close>, the comparison of a value with the nodes, is 1 on a first part of the sequence and -1 on
  the rest, and 0 for at most one node between them.
\<close>

definition cut :: "('p \<Rightarrow> int) \<Rightarrow> 'p list \<Rightarrow> bool" where
  "cut g xs \<longleftrightarrow> (\<forall>x\<in>set xs. g x \<in> {-1, 0, 1}) \<and> sorted_wrt (\<lambda>x y. g y \<le> g x \<and> (g x = 0 \<longrightarrow> g y = -1)) xs"

lemma cut_append:
  "cut g (xs @ ys) \<longleftrightarrow> cut g xs \<and> cut g ys \<and> (\<forall>x\<in>set xs. \<forall>y\<in>set ys. g y \<le> g x \<and> (g x = 0 \<longrightarrow> g y = -1))"
  by (auto simp: cut_def sorted_wrt_append)

lemma cut_Cons:
  "cut g (x # xs) \<longleftrightarrow> g x \<in> {-1, 0, 1} \<and> cut g xs \<and> (\<forall>y\<in>set xs. g y \<le> g x \<and> (g x = 0 \<longrightarrow> g y = -1))"
  by (auto simp: cut_def)

lemma cut_range: "cut g xs \<Longrightarrow> x \<in> set xs \<Longrightarrow> g x \<in> {-1, 0, 1}"
  by (auto simp: cut_def)

lemma plug_append: "plug (c @ d) t = plug d (plug c t)"
  by (induction c t rule: plug.induct) auto

lemma left_of_append: "left_of (c @ d) = left_of d @ left_of c"
  by (induction c rule: left_of.induct) auto

lemma right_of_append: "right_of (c @ d) = right_of c @ right_of d"
  by (induction c rule: right_of.induct) auto

definition splits :: "('p \<Rightarrow> int) \<Rightarrow> 'p hole \<Rightarrow> bool" where
  "splits g c \<longleftrightarrow> (\<forall>y\<in>set (left_of c). g y = 1) \<and> (\<forall>y\<in>set (right_of c). g y = -1)"

lemma splits_append: "splits g (c @ d) \<longleftrightarrow> splits g c \<and> splits g d"
  by (auto simp: splits_def left_of_append right_of_append)

lemma descend_correct:
  assumes "subtree (avl_node t) par (Some r) T" "cut g (inorder T)"
    and "\<And>x. x \<in> set_tree T \<Longrightarrow> f x = Some (g x)"
  shows "\<exists>x. descend f r t = Some (x, g x) \<and> x \<in> set_tree T \<and>
    (g x \<noteq> 0 \<longrightarrow> (\<exists>c u. T = plug ((g x = 1, x, u) # c) Leaf \<and> splits g ((g x = 1, x, u) # c)))"
  using assms
proof (induction T arbitrary: par r)
  case (Node L n R)
  then have r: "r = n" and fn: "f n = Some (g n)" by simp_all
  have gn: "g n \<in> {-1, 0, 1}" using Node.prems(2) by (rule cut_range) simp
  show ?case
  proof (cases "g n = 0")
    case True
    then show ?thesis using fn r by (subst descend.simps) simp
  next
    case False
    define s where "s = (g n = 1)"
    define X where "X = (if s then R else L)"
    define U where "U = (if s then L else R)"
    have T: "Node L n R = nd s X n U" by (simp add: nd_def X_def U_def)
    have sp: "splits g [(s, n, U)]"
      using Node.prems(2) gn False by (fastforce simp: splits_def s_def U_def cut_append cut_Cons dest: cut_range)
    have step: "descend f r t = (case link_of t n s of None \<Rightarrow> Some (n, g n) | Some x \<Rightarrow> descend f x t)"
      unfolding r using False fn by (subst descend.simps) (simp add: s_def)
    have subX: "subtree (avl_node t) (Some n) (link_of t n s) X" using Node.prems(1) unfolding T by simp
    show ?thesis
    proof (cases "link_of t n s")
      case None
      then have "X = Leaf" using subX by (simp add: subtree_None)
      then show ?thesis using step None sp T s_def by (intro exI [of _ n]) (auto intro!: exI [of _ "[]"])
    next
      case (Some m)
      have "cut g (inorder X)" "\<And>x. x \<in> set_tree X \<Longrightarrow> f x = Some (g x)"
        using Node.prems(2,3) by (auto simp: X_def cut_append cut_Cons split: if_splits)
      then obtain x where x: "descend f m t = Some (x, g x)" "x \<in> set_tree X"
        "g x \<noteq> 0 \<longrightarrow> (\<exists>c u. X = plug ((g x = 1, x, u) # c) Leaf \<and> splits g ((g x = 1, x, u) # c))"
        using Node.IH(1) [of "Some n" m] Node.IH(2) [of "Some n" m] subX Some unfolding X_def by (cases s) auto
      have "\<exists>c u. nd s X n U = plug ((g x = 1, x, u) # c) Leaf \<and> splits g ((g x = 1, x, u) # c)" if gx: "g x \<noteq> 0"
      proof -
        obtain c u where c: "X = plug ((g x = 1, x, u) # c) Leaf" "splits g ((g x = 1, x, u) # c)"
          using x(3) gx by blast
        have "nd s X n U = plug ((g x = 1, x, u) # c @ [(s, n, U)]) Leaf"
          using c(1) plug_append [of "(g x = 1, x, u) # c" "[(s, n, U)]"] by simp
        moreover have "splits g ((g x = 1, x, u) # c @ [(s, n, U)])"
          using c(2) sp splits_append [of g "(g x = 1, x, u) # c" "[(s, n, U)]"] by simp
        ultimately show ?thesis by blast
      qed
      moreover have "x \<in> set_tree (Node L n R)" using x(2) by (auto simp: X_def split: if_splits)
      ultimately show ?thesis using step Some x(1) T by auto
    qed
  qed
qed simp

section \<open>Insertion\<close>

text \<open>The reference: insertion into the sorted sequence of nodes, by the comparison \<open>g\<close> of the new node.\<close>

fun sorted_ins :: "('p \<Rightarrow> int) \<Rightarrow> 'p \<Rightarrow> 'p list \<Rightarrow> 'p list" where
  "sorted_ins g n [] = [n]"
| "sorted_ins g n (x # xs) = (if g x < 0 then n # x # xs else x # sorted_ins g n xs)"

lemma sorted_ins_split:
  "(\<And>y. y \<in> set xs \<Longrightarrow> g y = 1) \<Longrightarrow> (\<And>y. y \<in> set ys \<Longrightarrow> g y = -1) \<Longrightarrow> sorted_ins g n (xs @ ys) = xs @ n # ys"
  by (induction xs) (auto, cases ys, auto)

lemma cut_find:
  assumes "cut g xs" "x \<in> set xs" "g x = 0"
  shows "List.find (\<lambda>y. g y = 0) xs = Some x"
  using assms by (induction xs) (auto simp: cut_Cons)

lemma leaf_node_simps [simp]:
  "avl_node (leaf_node par n t) =
     (avl_node t)(n := (avl_node t n)\<lparr>bn_parent := par, bn_link := \<lambda>_. None, bn_balance := 0\<rparr>)"
  "avl_root (leaf_node par n t) = avl_root t" "avl_cmp (leaf_node par n t) = avl_cmp t"
  "avl_val (leaf_node par n t) = avl_val t"
proof -
  have "f(False := None, True := None) = (\<lambda>_. None)" for f :: "bool \<Rightarrow> 'p option"
  proof
    fix x show "(f(False := None, True := None)) x = None" by (cases x) auto
  qed
  then show "avl_node (leaf_node par n t) =
      (avl_node t)(n := (avl_node t n)\<lparr>bn_parent := par, bn_link := \<lambda>_. None, bn_balance := 0\<rparr>)"
    by (auto simp: leaf_node_def Let_def fun_eq_iff intro!: bavl_node.equality)
qed (simp_all add: leaf_node_def Let_def)

text \<open>The node nearest to a place in the sequence: the last one before it or the first one after it.\<close>

definition beside :: "'p option \<Rightarrow> ('p \<Rightarrow> int) \<Rightarrow> 'p list \<Rightarrow> bool" where
  "beside ref g xs \<longleftrightarrow>
     (case ref of
        None \<Rightarrow> xs = []
      | Some x \<Rightarrow> (\<exists>ys zs. xs = ys @ x # zs
          \<and> (g x = 0 \<or> g x = 1 \<and> (\<forall>z\<in>set zs. g z = -1) \<or> g x = -1 \<and> (\<forall>y\<in>set ys. g y = 1))))"

lemma splits_beside:
  assumes "splits g ((g x = 1, x, u) # c)" "g x \<in> {1, -1}"
  shows "beside (Some x) g (inorder (plug ((g x = 1, x, u) # c) Leaf))"
proof (cases "g x = 1")
  case True
  then have "inorder (plug ((g x = 1, x, u) # c) Leaf) = (left_of c @ inorder u) @ x # right_of c"
    "\<forall>z\<in>set (right_of c). g z = -1"
    using assms(1) by (simp_all add: inorder_plug splits_def del: plug.simps)
  with True show ?thesis unfolding beside_def option.case by metis
next
  case False
  then have "inorder (plug ((g x = 1, x, u) # c) Leaf) = left_of c @ x # (inorder u @ right_of c)"
    "\<forall>y\<in>set (left_of c). g y = 1" "g x = -1"
    using assms by (simp_all add: inorder_plug splits_def del: plug.simps)
  then show ?thesis unfolding beside_def option.case by metis
qed

lemma insert_correct:
  assumes tree: "bavl_tree t T" and new: "n \<notin> set_tree T"
    and g: "\<And>x. x \<in> set_tree T \<Longrightarrow> BAVL_compare_nodes t n x = Some (g x)" and cut: "cut g (inorder T)"
  shows "case List.find (\<lambda>y. g y = 0) (inorder T) of
      Some x \<Rightarrow> BAVL_Insert n t = Some (False, Some x, t) \<and> CAvl_Insert n t = Some (False, Some x, t)
    | None \<Rightarrow> \<exists>ref t' T'. BAVL_Insert n t = Some (True, ref, t') \<and> CAvl_Insert n t = Some (True, ref, t')
        \<and> bavl_tree t' T'
        \<and> inorder T' = sorted_ins g n (inorder T) \<and> beside ref g (inorder T)
        \<and> same_rest t t' (insert n (set_tree T))"
proof (cases "avl_root t")
  case None
  then have T: "T = Leaf" using tree by (simp add: bavl_tree_def subtree_None)
  have "bavl_tree (leaf_node None n (t\<lparr>avl_root := Some n\<rparr>)) (Node Leaf n Leaf)"
    by (simp add: bavl_tree_def)
  moreover have "same_rest t (leaf_node None n (t\<lparr>avl_root := Some n\<rparr>)) {n}" by (simp add: same_rest_def)
  ultimately show ?thesis using None unfolding T
    by (auto simp: BAVL_Insert_def CAvl_Insert_def beside_def intro!: exI [of _ "Node Leaf n Leaf"])
next
  case (Some r)
  have sub: "subtree (avl_node t) None (Some r) T" and dist: "distinct (inorder T)" and bal: "avl (balance_of t) T"
    using tree Some by (simp_all add: bavl_tree_def)
  obtain x where x: "descend (BAVL_compare_nodes t n) r t = Some (x, g x)" "x \<in> set_tree T"
    "g x \<noteq> 0 \<longrightarrow> (\<exists>c u. T = plug ((g x = 1, x, u) # c) Leaf \<and> splits g ((g x = 1, x, u) # c))"
    using descend_correct [OF sub cut g] by blast
  show ?thesis
  proof (cases "g x = 0")
    case True
    then have "List.find (\<lambda>y. g y = 0) (inorder T) = Some x" using cut_find [OF cut] x(2) by simp
    then show ?thesis using x(1) True Some by (simp add: BAVL_Insert_def CAvl_Insert_def)
  next
    case False
    define s where "s = (g x = 1)"
    obtain c u where c: "T = plug ((s, x, u) # c) Leaf" "splits g ((s, x, u) # c)"
      using x(3) False by (auto simp: s_def)
    have gx: "g x \<in> {1, -1}" using cut_range [OF cut] x(2) False by auto
    define t1 where "t1 = leaf_node (Some x) n (set_link x s (Some n) t)"
    have nx: "n \<noteq> x" "n \<notin> set_tree u" "n \<notin> hole_set c" using new unfolding c(1) set_plug by auto
    have sep: "separate ((s, x, u) # c)" using dist unfolding c(1) distinct_plug by simp
    have A: "subtree (avl_node t) (Some x) (link_of t x (\<not> s)) u" "parent_of t x = hole_parent c"
      "around (avl_node t) (avl_root t1) c (Some x)"
      using sub Some unfolding c(1) subtree_plug by (auto simp: t1_def)
    have fr: "same_links (avl_node t) (avl_node t1) (set_tree u)" "same_links (avl_node t) (avl_node t1) (hole_set c)"
      using sep nx by (auto simp: t1_def intro!: same_linksI)
    have ar: "around (avl_node t1) (avl_root t1) ((s, x, u) # c) (Some n)"
      using subtree_frame [OF A(1) fr(1)] around_frame [OF A(3) fr(2)] A(2) nx(1) by (simp add: t1_def)
    have sub1: "subtree (avl_node t1) (Some x) (Some n) (Node Leaf n Leaf)" by (simp add: t1_def)
    have dist1: "distinct (inorder (plug ((s, x, u) # c) (Node Leaf n Leaf)))"
      unfolding distinct_plug using sep nx by simp
    have "avl_around (balance_of t) ((s, x, u) # c) 0" using bal unfolding c(1) avl_plug by simp
    moreover have "balance_of t1 y = balance_of t y" if "y \<in> hole_set ((s, x, u) # c)" for y
      using that nx by (auto simp: t1_def)
    ultimately have avc: "avl_around (balance_of t1) ((s, x, u) # c) 0"
      using avl_around_cong [of "(s, x, u) # c" "balance_of t1" "balance_of t"] by blast
    obtain t' T' where r: "BAVL_rebalance x s 1 t1 = Some t'" "bavl_tree t' T'"
      and rc: "CAvl_rebalance x s 1 t1 = Some t'" and r':
      "inorder T' = inorder (plug ((s, x, u) # c) (Node Leaf n Leaf))"
      "same_rest t1 t' (set (inorder (plug ((s, x, u) # c) (Node Leaf n Leaf))))"
      using rebalance_correct [OF ar sub1 dist1 _ avc, of 1] by (auto simp: t1_def)
    note r = r r'
    have "same_rest t t' (insert n (set_tree T))"
    proof (rule same_rest_trans)
      show "same_rest t t1 (insert n (set_tree T))"
        unfolding c(1) by (auto simp: same_rest_def t1_def set_plug)
      show "same_rest t1 t' (insert n (set_tree T))"
        using r(4) unfolding c(1) by (rule same_rest_mono) (auto simp: set_plug)
    qed
    moreover have "inorder T' = sorted_ins g n (inorder T)"
      unfolding r(3) c(1) inorder_plug using c(2) sorted_ins_split [of "left_of ((s, x, u) # c)" g "right_of ((s, x, u) # c)"]
      by (auto simp: splits_def)
    moreover have "beside (Some x) g (inorder T)"
      unfolding c(1) s_def by (rule splits_beside) (use c(2) gx s_def in auto)
    moreover have "List.find (\<lambda>y. g y = 0) (inorder T) = None"
      unfolding find_None_iff c(1) inorder_plug using c(2) by (cases s) (auto simp: splits_def)
    moreover have "BAVL_Insert n t = Some (True, Some x, t')"
      using Some x(1) False r(1) by (simp add: BAVL_Insert_def s_def t1_def)
    moreover have "CAvl_Insert n t = Some (True, Some x, t')"
      using Some x(1) False rc by (simp add: CAvl_Insert_def s_def t1_def)
    ultimately show ?thesis using r(2) by auto
  qed
qed


section \<open>Exchanging two nodes\<close>

text \<open>Parent and child pointers of a tree in memory agree.\<close>

lemma link_parent:
  "subtree h par q T \<Longrightarrow> x \<in> set_tree T \<Longrightarrow> bn_link (h x) s = Some y \<Longrightarrow> y \<in> set_tree T \<and> bn_parent (h y) = Some x"
proof (induction T arbitrary: par q)
  case (Node l n r)
  have top: "subtree h p (Some y) X \<Longrightarrow> y \<in> set_tree X \<and> bn_parent (h y) = p" for p X by (cases X) auto
  show ?case
  proof (cases "x = n")
    case True
    then have "\<exists>X. set_tree X \<subseteq> set_tree (Node l n r) \<and> subtree h (Some x) (bn_link (h x) s) X"
      using Node.prems by (cases s) auto
    then show ?thesis using top Node.prems(3) by fastforce
  next
    case False
    with Node show ?thesis by auto
  qed
qed simp

lemma parent_link:
  "subtree h par q T \<Longrightarrow> y \<in> set_tree T \<Longrightarrow>
    q = Some y \<and> bn_parent (h y) = par
    \<or> (\<exists>x s. x \<in> set_tree T \<and> bn_parent (h y) = Some x \<and> bn_link (h x) s = Some y)"
proof (induction T arbitrary: par q)
  case (Node l n r)
  then show ?case by (auto; metis)
qed simp

lemma link_sides:
  "subtree h par q T \<Longrightarrow> distinct (inorder T) \<Longrightarrow> x \<in> set_tree T \<Longrightarrow> bn_link (h x) s = Some y \<Longrightarrow>
    bn_link (h x) (\<not> s) \<noteq> Some y"
proof (induction T arbitrary: par q)
  case (Node l n r)
  have top: "subtree h p (Some y) X \<Longrightarrow> y \<in> set_tree X" for p X by (rule subtree_root)
  show ?case
  proof (cases "x = n")
    case True
    with Node.prems top show ?thesis by (cases s) (auto dest!: top)
  next
    case False
    with Node show ?thesis by auto
  qed
qed simp

lemma find_hole:
  "x \<in> set_tree T \<Longrightarrow> \<exists>c l r. T = plug c (Node l x r)"
proof (induction T)
  case (Node l n r)
  then consider "x = n" | "x \<in> set_tree l" | "x \<in> set_tree r" by auto
  then show ?case
  proof cases
    case 1 then show ?thesis by (intro exI [of _ "[]"]) auto
  next
    case 2
    then obtain c l' r' where "l = plug c (Node l' x r')" using Node.IH(1) by blast
    then have "Node l n r = plug (c @ [(False, n, r)]) (Node l' x r')" by (simp add: plug_append nd_def)
    then show ?thesis by blast
  next
    case 3
    then obtain c l' r' where "r = plug c (Node l' x r')" using Node.IH(2) by blast
    then have "Node l n r = plug (c @ [(True, n, l)]) (Node l' x r')" by (simp add: plug_append nd_def)
    then show ?thesis by blast
  qed
qed simp

lemma no_loop:
  assumes "subtree h None rt T" "distinct (inorder T)" "x \<in> set_tree T" "bn_parent (h x) = Some p"
  shows "p \<noteq> x" "bn_parent (h p) \<noteq> Some x"
proof -
  obtain c l r where c: "T = plug c (Node l x r)" using find_hole [OF assms(3)] by blast
  then have x: "subtree h (hole_parent c) (Some x) (Node l x r)" and a: "around h rt c (Some x)"
    using assms(1) by (auto simp: subtree_plug)
  obtain s u d where d: "c = (s, p, u) # d" using x assms(4) by (cases c) auto
  have D: "distinct (inorder (Node l x r))" "set_tree (Node l x r) \<inter> hole_set c = {}"
    using assms(2) unfolding c distinct_plug by auto
  then show "p \<noteq> x" by (auto simp: d)
  have "bn_parent (h p) = hole_parent d" using a d by simp
  moreover have "hole_parent d = Some y \<Longrightarrow> y \<in> hole_set c" for y unfolding d by (cases d) auto
  ultimately show "bn_parent (h p) \<noteq> Some x" using D(2) by auto
qed

definition xchg :: "'p \<Rightarrow> 'p \<Rightarrow> 'p \<Rightarrow> 'p" where
  "xchg a b x = (if x = a then b else if x = b then a else x)"

lemma xchg_simps [simp]: "xchg a b a = b" "xchg a b b = a" "x \<noteq> a \<Longrightarrow> x \<noteq> b \<Longrightarrow> xchg a b x = x"
  "xchg a b (xchg a b x) = x"
  by (auto simp: xchg_def)

text \<open>What the exchange of two nodes does to the tree: the same tree with the two names exchanged.\<close>

definition exchanged :: "'p \<Rightarrow> 'p \<Rightarrow> 'p set \<Rightarrow> ('p, 'v) bavl \<Rightarrow> ('p, 'v) bavl \<Rightarrow> bool" where
  "exchanged a b A t t' \<longleftrightarrow>
     avl_root t' = map_option (xchg a b) (avl_root t)
     \<and> (\<forall>x\<in>A. parent_of t' (xchg a b x) = map_option (xchg a b) (parent_of t x)
         \<and> (\<forall>s. link_of t' (xchg a b x) s = map_option (xchg a b) (link_of t x s)))
     \<and> (\<forall>x. x \<notin> A \<longrightarrow> avl_node t' x = avl_node t x)"

lemma subtree_xchg:
  assumes "subtree (avl_node t) par q T"
    and "\<And>x. x \<in> set_tree T \<Longrightarrow> parent_of t' (f x) = map_option f (parent_of t x)"
    and "\<And>x s. x \<in> set_tree T \<Longrightarrow> link_of t' (f x) s = map_option f (link_of t x s)"
  shows "subtree (avl_node t') (map_option f par) (map_option f q) (map_tree f T)"
  using assms
proof (induction T arbitrary: par q)
  case (Node l n r)
  then show ?case using Node.IH(1) [of "Some n"] Node.IH(2) [of "Some n"] by simp
qed simp

definition swap_parents :: "'p \<Rightarrow> 'p \<Rightarrow> ('p, 'v) bavl \<Rightarrow> ('p, 'v) bavl" where
  "swap_parents a b t =
     (let temp = parent_of t a;
          t = set_parent a (parent_of t b) t;
          t = hang (parent_of t a) b (Some a) t;
          t = set_parent b temp t
      in hang (parent_of t b) a (Some b) t)"

definition swap_child :: "'p \<Rightarrow> 'p \<Rightarrow> bool \<Rightarrow> ('p, 'v) bavl \<Rightarrow> ('p, 'v) bavl" where
  "swap_child a b s t =
     (let temp = link_of t a s;
          t = set_link a s (link_of t b s) t;
          t = adopt a (link_of t a s) t;
          t = set_link b s temp t
      in adopt b (link_of t b s) t)"

lemma swap_apart_alt: "swap_apart a b t = swap_child a b True (swap_child a b False (swap_parents a b t))"
  by (simp only: swap_apart_def swap_child_def swap_parents_def Let_def)

lemma swap_child_link:
  "a \<noteq> b \<Longrightarrow> link_of (swap_child a b s t) x s' =
     (if s' = s then if x = a then link_of t b s else if x = b then link_of t a s else link_of t x s else link_of t x s')"
  by (simp add: swap_child_def Let_def)

lemma swap_child_parent:
  "a \<noteq> b \<Longrightarrow> parent_of (swap_child a b s t) x =
     (if link_of t a s = Some x then Some b else if link_of t b s = Some x then Some a else parent_of t x)"
  by (simp add: swap_child_def Let_def)

lemma swap_child_rest:
  "avl_root (swap_child a b s t) = avl_root t" "avl_cmp (swap_child a b s t) = avl_cmp t"
  "avl_val (swap_child a b s t) = avl_val t" "balance_of (swap_child a b s t) x = balance_of t x"
  by (simp_all add: swap_child_def Let_def)

lemmas swap_child_simps = swap_child_link swap_child_parent swap_child_rest

lemma swap_parents_parent:
  "a \<noteq> b \<Longrightarrow> parent_of (swap_parents a b t) x = (if x = a then parent_of t b else if x = b then parent_of t a else parent_of t x)"
  by (simp add: swap_parents_def Let_def)

lemma swap_parents_link:
  assumes "a \<noteq> b" "parent_of t a \<noteq> parent_of t b"
  shows "link_of (swap_parents a b t) x =
       (if parent_of t a = Some x then (link_of t x)(Some a = link_of t x True := Some b)
        else if parent_of t b = Some x then (link_of t x)(Some b = link_of t x True := Some a)
        else link_of t x)"
proof -
  define t1 where "t1 = hang (parent_of t b) b (Some a) (set_parent a (parent_of t b) t)"
  have "swap_parents a b t = hang (parent_of t a) a (Some b) (set_parent b (parent_of t a) t1)"
    by (simp add: swap_parents_def Let_def t1_def)
  moreover have "link_of (set_parent b q t1) x = link_of t1 x" for q by simp
  ultimately have "link_of (swap_parents a b t) x =
      (if parent_of t a = Some x then (link_of t1 x)(Some a = link_of t1 x True := Some b) else link_of t1 x)"
    by (simp only: link_hang)
  moreover have "link_of t1 x =
      (if parent_of t b = Some x then (link_of t x)(Some b = link_of t x True := Some a) else link_of t x)"
    unfolding t1_def link_hang by simp
  ultimately show ?thesis using assms(2) by (simp only: if_False split: if_split) metis
qed

lemma swap_parents_rest:
  "a \<noteq> b \<Longrightarrow> avl_root (swap_parents a b t) =
       (if parent_of t a = None then Some b else if parent_of t b = None then Some a else avl_root t)"
  "avl_cmp (swap_parents a b t) = avl_cmp t"
  "avl_val (swap_parents a b t) = avl_val t" "balance_of (swap_parents a b t) x = balance_of t x"
  by (simp_all add: swap_parents_def Let_def root_hang)

lemmas swap_parents_simps = swap_parents_parent swap_parents_link swap_parents_rest

lemma swap_apart_simps:
  assumes "a \<noteq> b" "parent_of t a \<noteq> parent_of t b" "parent_of t a \<noteq> Some a" "parent_of t b \<noteq> Some b"
    "parent_of t b \<noteq> Some a" "parent_of t a \<noteq> Some b"
  shows "parent_of (swap_apart a b t) x =
    (if link_of t a True = Some x then Some b else if link_of t b True = Some x then Some a
     else if link_of t a False = Some x then Some b else if link_of t b False = Some x then Some a
     else if x = a then parent_of t b else if x = b then parent_of t a else parent_of t x)"
    "link_of (swap_apart a b t) x s =
      (if x = a then link_of t b s else if x = b then link_of t a s
       else if parent_of t a = Some x then ((link_of t x)(Some a = link_of t x True := Some b)) s
       else if parent_of t b = Some x then ((link_of t x)(Some b = link_of t x True := Some a)) s
       else link_of t x s)"
    "avl_root (swap_apart a b t) =
       (if parent_of t a = None then Some b else if parent_of t b = None then Some a else avl_root t)"
    "balance_of (swap_apart a b t) x = balance_of t x"
    "avl_cmp (swap_apart a b t) = avl_cmp t" "avl_val (swap_apart a b t) = avl_val t"
proof -
  note sp = swap_parents_parent [OF assms(1)] swap_parents_link [OF assms(1,2)] swap_parents_rest(1) [OF assms(1)]
    swap_parents_rest(2-4)
  show "parent_of (swap_apart a b t) x =
    (if link_of t a True = Some x then Some b else if link_of t b True = Some x then Some a
     else if link_of t a False = Some x then Some b else if link_of t b False = Some x then Some a
     else if x = a then parent_of t b else if x = b then parent_of t a else parent_of t x)"
    using assms by (simp add: swap_apart_alt swap_child_simps sp)
  show "link_of (swap_apart a b t) x s =
      (if x = a then link_of t b s else if x = b then link_of t a s
       else if parent_of t a = Some x then ((link_of t x)(Some a = link_of t x True := Some b)) s
       else if parent_of t b = Some x then ((link_of t x)(Some b = link_of t x True := Some a)) s
       else link_of t x s)"
    using assms by (cases s) (simp_all add: swap_apart_alt swap_child_simps sp)
qed (simp_all add: swap_apart_alt swap_child_simps swap_parents_parent [OF assms(1)] swap_parents_link [OF assms(1,2)] swap_parents_rest(1) [OF assms(1)]
    swap_parents_rest(2-4))

lemma swap_connected_simps:
  assumes "a \<noteq> b" "parent_of t a \<noteq> Some a" "parent_of t a \<noteq> Some b" "link_of t a side = Some b"
    "link_of t a (\<not> side) \<noteq> Some b" "link_of t a (\<not> side) \<noteq> Some a" "\<And>s. link_of t b s \<noteq> Some a \<and> link_of t b s \<noteq> Some b"
    "\<And>s. link_of t b s = link_of t a (\<not> side) \<longrightarrow> link_of t b s = None"
  shows "parent_of (swap_connected a b t) x =
    (if x = a then Some b else if x = b then parent_of t a
     else if link_of t a (\<not> side) = Some x then Some b
     else if link_of t b True = Some x \<or> link_of t b False = Some x then Some a else parent_of t x)"
    "link_of (swap_connected a b t) x s =
      (if x = a then link_of t b s else if x = b then if s = side then Some a else link_of t a s
       else if parent_of t a = Some x then ((link_of t x)(Some a = link_of t x True := Some b)) s
       else link_of t x s)"
    "avl_root (swap_connected a b t) = (if parent_of t a = None then Some b else avl_root t)"
    "balance_of (swap_connected a b t) x = balance_of t x"
    "avl_cmp (swap_connected a b t) = avl_cmp t" "avl_val (swap_connected a b t) = avl_val t"
proof -
  have side: "(Some b = link_of t a True) = side" using assms(4,5) by (cases side) auto
  have l: "link_of t b True \<noteq> Some a" "link_of t b True \<noteq> Some b" "link_of t b False \<noteq> Some a" "link_of t b False \<noteq> Some b"
    using assms(7) by auto
  show "parent_of (swap_connected a b t) x =
    (if x = a then Some b else if x = b then parent_of t a
     else if link_of t a (\<not> side) = Some x then Some b
     else if link_of t b True = Some x \<or> link_of t b False = Some x then Some a else parent_of t x)"
    using assms(1-6) l unfolding swap_connected_def side Let_def by (simp add: link_hang)
  show "link_of (swap_connected a b t) x s =
      (if x = a then link_of t b s else if x = b then if s = side then Some a else link_of t a s
       else if parent_of t a = Some x then ((link_of t x)(Some a = link_of t x True := Some b)) s
       else link_of t x s)"
    using assms(1-6) l unfolding swap_connected_def side Let_def by (cases side; cases s) (simp_all add: link_hang)
  show "avl_root (swap_connected a b t) = (if parent_of t a = None then Some b else avl_root t)"
    using assms(1-6) l unfolding swap_connected_def side Let_def by (simp add: root_hang)
qed (simp_all add: swap_connected_def Let_def)


definition linked :: "('p, 'v) bavl \<Rightarrow> 'p set \<Rightarrow> bool" where
  "linked t A \<longleftrightarrow>
     (\<forall>x\<in>A. \<forall>s y. link_of t x s = Some y \<longrightarrow> y \<in> A \<and> parent_of t y = Some x \<and> link_of t x (\<not> s) \<noteq> Some y)
     \<and> (\<forall>y\<in>A. \<forall>x. parent_of t y = Some x \<longrightarrow> x \<in> A \<and> x \<noteq> y \<and> (\<exists>s. link_of t x s = Some y))
     \<and> (\<forall>y\<in>A. \<forall>x. parent_of t y = Some x \<longrightarrow> parent_of t x \<noteq> Some y)
     \<and> (\<forall>y\<in>A. parent_of t y = None \<longleftrightarrow> avl_root t = Some y) \<and> (A \<noteq> {} \<longrightarrow> (\<exists>r\<in>A. avl_root t = Some r))"

lemma tree_linked:
  assumes "subtree (avl_node t) None (avl_root t) T" "distinct (inorder T)"
  shows "linked t (set_tree T)"
proof -
  have root: "avl_root t = Some y \<Longrightarrow> parent_of t y = None" for y using assms(1) by (cases T) auto
  have "set_tree T \<noteq> {} \<Longrightarrow> \<exists>r\<in>set_tree T. avl_root t = Some r" using assms(1) by (cases T) auto
  then show ?thesis
    unfolding linked_def
    using link_parent [OF assms(1)] parent_link [OF assms(1)] link_sides [OF assms] no_loop [OF assms] root
    by (safe; (metis option.distinct(1) option.inject)?)
qed

lemma linkedD:
  assumes "linked t A"
  shows "x \<in> A \<Longrightarrow> link_of t x s = Some y \<Longrightarrow> y \<in> A" "x \<in> A \<Longrightarrow> link_of t x s = Some y \<Longrightarrow> parent_of t y = Some x"
    "x \<in> A \<Longrightarrow> link_of t x s = Some y \<Longrightarrow> link_of t x (\<not> s) \<noteq> Some y"
    "y \<in> A \<Longrightarrow> parent_of t y = Some x \<Longrightarrow> x \<in> A \<and> x \<noteq> y \<and> (\<exists>s. link_of t x s = Some y)"
    "y \<in> A \<Longrightarrow> parent_of t y = Some x \<Longrightarrow> parent_of t x \<noteq> Some y"
    "y \<in> A \<Longrightarrow> parent_of t y = None \<longleftrightarrow> avl_root t = Some y" "y \<in> A \<Longrightarrow> \<exists>r\<in>A. avl_root t = Some r"
  using assms unfolding linked_def by blast+

lemma swap_apart_exchanged:
  assumes l: "linked t A" and ab: "a \<in> A" "b \<in> A" "a \<noteq> b"
    and ne: "parent_of t a \<noteq> parent_of t b" "parent_of t b \<noteq> Some a" "parent_of t a \<noteq> Some b"
  shows "exchanged a b A t (swap_apart a b t)"
  unfolding exchanged_def
proof (intro conjI ballI allI impI)
  note K = linkedD [OF l]
  have nl: "parent_of t a \<noteq> Some a" "parent_of t b \<noteq> Some b" using K(4) ab by blast+
  note sim = swap_apart_simps [OF ab(3) ne(1) nl ne(2,3)]
  show "avl_root (swap_apart a b t) = map_option (xchg a b) (avl_root t)"
    unfolding sim(3) using K(6) [OF ab(1)] K(6) [OF ab(2)] K(7) [OF ab(1)] ab ne(1) by (auto simp: xchg_def)
  {
    fix y assume y: "y \<notin> A"
    have "link_of t a s \<noteq> Some y" "link_of t b s \<noteq> Some y" "parent_of t a \<noteq> Some y" "parent_of t b \<noteq> Some y" "y \<noteq> a" "y \<noteq> b" for s
      using K(1,4) ab y by metis+
    then have "link_of (swap_apart a b t) y s = link_of t y s" "parent_of (swap_apart a b t) y = parent_of t y" "balance_of (swap_apart a b t) y = balance_of t y" for s
      by (simp_all add: sim)
    then show "avl_node (swap_apart a b t) y = avl_node t y" by (intro bavl_node.equality ext) simp_all
  }
  fix x assume x: "x \<in> A"
  show "parent_of (swap_apart a b t) (xchg a b x) = map_option (xchg a b) (parent_of t x)"
  proof -
    consider "x = a" | "x = b" | "x \<noteq> a" "x \<noteq> b" by blast
    then show ?thesis
    proof cases
      case 1
      have "link_of t a s \<noteq> Some b" "link_of t b s \<noteq> Some b" for s using K(2) ab ne nl by metis+
      then show ?thesis unfolding sim(1) using 1 ne nl ab by (cases "parent_of t a") auto
    next
      case 2
      have "link_of t a s \<noteq> Some a" "link_of t b s \<noteq> Some a" for s using K(2) ab ne nl by metis+
      then show ?thesis unfolding sim(1) using 2 ne nl ab by (cases "parent_of t b") auto
    next
      case 3
      have "link_of t a s = Some x \<Longrightarrow> parent_of t x = Some a" "link_of t b s = Some x \<Longrightarrow> parent_of t x = Some b" for s
        using K(2) ab by metis+
      moreover have "parent_of t x = Some a \<Longrightarrow> link_of t a True = Some x \<or> link_of t a False = Some x"
        "parent_of t x = Some b \<Longrightarrow> link_of t b True = Some x \<or> link_of t b False = Some x"
        using K(4) [OF x] by (metis (full_types))+
      ultimately show ?thesis unfolding sim(1) using 3 ab by (cases "parent_of t x") (auto simp: xchg_def)
    qed
  qed
  fix s
  show "link_of (swap_apart a b t) (xchg a b x) s = map_option (xchg a b) (link_of t x s)"
  proof -
    consider "x = a" | "x = b" | "x \<noteq> a" "x \<noteq> b" by blast
    then show ?thesis
    proof cases
      case 1
      have "link_of t a s \<noteq> Some a" "link_of t a s \<noteq> Some b" using K(2) ab ne nl by metis+
      then show ?thesis unfolding sim(2) using 1 ab by (cases "link_of t a s") auto
    next
      case 2
      have "link_of t b s \<noteq> Some a" "link_of t b s \<noteq> Some b" using K(2) ab ne nl by metis+
      then show ?thesis unfolding sim(2) using 2 ab by (cases "link_of t b s") auto
    next
      case 3
      have old: "link_of t x s = Some a \<Longrightarrow> parent_of t a = Some x" "link_of t x s = Some b \<Longrightarrow> parent_of t b = Some x"
        using K(2) [OF x] by metis+
      have side: "(s = (Some y = link_of t x True)) = (link_of t x s = Some y)" if "y \<in> A" "parent_of t y = Some x" for y
        using K(3) [OF x, of _ y] K(4) [OF that] by (metis (full_types))
      show ?thesis
        unfolding sim(2) using 3 ab old side [of a] side [of b] ne(1)
        by (cases "link_of t x s") (auto simp: xchg_def)
    qed
  qed
qed

lemma swap_connected_exchanged:
  assumes l: "linked t A" and ab: "a \<in> A" "b \<in> A" "parent_of t b = Some a"
  shows "exchanged a b A t (swap_connected a b t)"
  unfolding exchanged_def
proof (intro conjI ballI allI impI)
  note K = linkedD [OF l]
  obtain side where sd: "link_of t a side = Some b" using K(4) ab by blast
  have ne: "a \<noteq> b" "parent_of t a \<noteq> Some a" "parent_of t a \<noteq> Some b" using K(4,5) ab by blast+
  have o1: "link_of t a (\<not> side) \<noteq> Some b" "link_of t a (\<not> side) \<noteq> Some a" using K(2,3) ab sd ne by metis+
  have o2: "link_of t b s \<noteq> Some a \<and> link_of t b s \<noteq> Some b" for s using K(2) ab ne by metis
  have o3: "link_of t b s = link_of t a (\<not> side) \<longrightarrow> link_of t b s = None" for s
    using K(2) ab ne by (metis option.exhaust option.inject)
  note sim = swap_connected_simps [OF ne sd o1 o2 o3]
  show "avl_root (swap_connected a b t) = map_option (xchg a b) (avl_root t)"
    unfolding sim(3) using K(6) [OF ab(1)] K(6) [OF ab(2)] K(7) [OF ab(1)] ab by (auto simp: xchg_def)
  {
    fix y assume y: "y \<notin> A"
    have "link_of t a s \<noteq> Some y" "link_of t b s \<noteq> Some y" "parent_of t a \<noteq> Some y" "parent_of t b \<noteq> Some y" "y \<noteq> a" "y \<noteq> b" for s
      using K(1,4) ab y by metis+
    then have "link_of (swap_connected a b t) y s = link_of t y s" "parent_of (swap_connected a b t) y = parent_of t y" "balance_of (swap_connected a b t) y = balance_of t y" for s
      by (simp_all add: sim)
    then show "avl_node (swap_connected a b t) y = avl_node t y" by (intro bavl_node.equality ext) simp_all
  }
  fix x assume x: "x \<in> A"
  show "parent_of (swap_connected a b t) (xchg a b x) = map_option (xchg a b) (parent_of t x)"
  proof -
    consider "x = a" | "x = b" | "x \<noteq> a" "x \<noteq> b" by blast
    then show ?thesis
    proof cases
      case 1
      then show ?thesis unfolding sim(1) using ne by (cases "parent_of t a") auto
    next
      case 2
      then show ?thesis unfolding sim(1) using ab by simp
    next
      case 3
      have "link_of t a s = Some x \<Longrightarrow> parent_of t x = Some a" "link_of t b s = Some x \<Longrightarrow> parent_of t x = Some b" for s
        using K(2) ab by metis+
      moreover have "link_of t a (\<not> side) = Some x" if pa: "parent_of t x = Some a"
      proof -
        obtain s' where "link_of t a s' = Some x" using K(4) [OF x pa] by blast
        with sd 3 show ?thesis by (cases s'; cases side) auto
      qed
      moreover have "link_of t b True = Some x \<or> link_of t b False = Some x" if "parent_of t x = Some b"
        using K(4) [OF x that] by (metis (full_types))
      ultimately show ?thesis unfolding sim(1) using 3 ne(1) by (cases "parent_of t x") (auto simp: xchg_def)
    qed
  qed
  fix s
  show "link_of (swap_connected a b t) (xchg a b x) s = map_option (xchg a b) (link_of t x s)"
  proof -
    consider "x = a" | "x = b" | "x \<noteq> a" "x \<noteq> b" by blast
    then show ?thesis
    proof cases
      case 1
      show ?thesis
      proof (cases "s = side")
        case True
        then show ?thesis unfolding sim(2) using 1 ne(1) sd by simp
      next
        case False
        then have "s = (\<not> side)" by blast
        then have "link_of t a s \<noteq> Some a" "link_of t a s \<noteq> Some b" using o1 by simp_all
        then show ?thesis unfolding sim(2) using 1 ne(1) False by (cases "link_of t a s") auto
      qed
    next
      case 2
      then show ?thesis unfolding sim(2) using o2 [of s] ne(1) by (cases "link_of t b s") auto
    next
      case 3
      have old: "link_of t x s = Some a \<Longrightarrow> parent_of t a = Some x" "link_of t x s \<noteq> Some b"
        using K(2) [OF x] ab 3 by (metis option.inject)+
      have side: "(s = (Some a = link_of t x True)) = (link_of t x s = Some a)" if "parent_of t a = Some x"
        using K(3) [OF x, of _ a] K(4) [OF ab(1) that] by (metis (full_types))
      show ?thesis
        unfolding sim(2) using 3 old side
        by (cases "link_of t x s") (auto simp: xchg_def)
    qed
  qed
qed


text \<open>The exchange does not depend on which of the two nodes comes first.\<close>

lemma exchanged_sym: "exchanged a b A t t' \<Longrightarrow> exchanged b a A t t'"
proof -
  have "xchg a b = xchg b a" by (rule ext) (auto simp: xchg_def)
  then show "exchanged a b A t t' \<Longrightarrow> exchanged b a A t t'" by (simp add: exchanged_def)
qed

lemma avl_map: "avl bal' (map_tree f T) = avl (bal' \<circ> f) T"
  by (induction T) auto

lemma inorder_map: "inorder (map_tree f T) = map f (inorder T)"
  by (induction T) auto

text \<open>\<^verbatim>\<open>_BAVL_swap_nodes\<close> exchanges two nodes that do not have the same parent.\<close>

lemma swap_nodes_correct:
  assumes tree: "bavl_tree t T" and ab: "a \<in> set_tree T" "b \<in> set_tree T" "parent_of t a \<noteq> parent_of t b"
  shows "bavl_tree (BAVL_swap_nodes a b t) (map_tree (xchg a b) T)"
    "same_rest t (BAVL_swap_nodes a b t) (set_tree T)"
proof -
  let ?A = "set_tree T"
  have sub: "subtree (avl_node t) None (avl_root t) T" and dist: "distinct (inorder T)" and bal: "avl (balance_of t) T"
    using tree by (simp_all add: bavl_tree_def)
  have l: "linked t ?A" by (rule tree_linked [OF sub dist])
  have ne: "a \<noteq> b" using ab(3) by auto
  define t1 where "t1 = (if parent_of t b = Some a then swap_connected a b t
    else if parent_of t a = Some b then swap_connected b a t else swap_apart a b t)"
  have ex: "exchanged a b ?A t t1"
    using swap_connected_exchanged [OF l ab(1,2)] swap_connected_exchanged [OF l ab(2,1)]
      swap_apart_exchanged [OF l ab(1,2) ne ab(3)] exchanged_sym [of b a] by (auto simp: t1_def)
  have b1: "balance_of t1 x = balance_of t x" for x
    by (simp add: t1_def swap_apart_def swap_connected_def Let_def)
  define t2 where "t2 = set_balance b (balance_of t1 a) (set_balance a (balance_of t1 b) t1)"
  have t2: "BAVL_swap_nodes a b t = t2" by (simp add: BAVL_swap_nodes_def Let_def t1_def t2_def)
  have "subtree (avl_node t1) (map_option (xchg a b) None) (map_option (xchg a b) (avl_root t)) (map_tree (xchg a b) T)"
    using ex by (intro subtree_xchg [OF sub]) (simp_all add: exchanged_def)
  then have "subtree (avl_node t2) None (avl_root t2) (map_tree (xchg a b) T)"
    using ex by (simp add: t2_def links_balance exchanged_def del: set_simps(3))
  moreover have "distinct (inorder (map_tree (xchg a b) T))"
    using dist by (auto simp: inorder_map distinct_map inj_on_def) (metis xchg_simps(4))
  moreover have "avl (balance_of t2) (map_tree (xchg a b) T)"
  proof -
    have "balance_of t2 \<circ> xchg a b = balance_of t"
      using ne by (auto simp: fun_eq_iff t2_def b1 xchg_def)
    then show ?thesis using bal by (simp add: avl_map)
  qed
  ultimately show "bavl_tree (BAVL_swap_nodes a b t) (map_tree (xchg a b) T)" by (simp add: t2 bavl_tree_def)
  have "avl_cmp t2 = avl_cmp t" "avl_val t2 = avl_val t"
    by (simp_all add: t2_def t1_def swap_apart_def swap_connected_def Let_def)
  then show "same_rest t (BAVL_swap_nodes a b t) (set_tree T)"
    using ex ab(1,2) by (auto simp: t2 same_rest_def t2_def exchanged_def)
qed


lemma node_check_parent:
  assumes "subtree (avl_node t) None (avl_root t) T" "x \<in> set_tree T"
  shows "CAvl_check_parent (parent_of t x) x t"
proof -
  obtain c l r where T: "T = plug c (Node l x r)" using find_hole [OF assms(2)] by blast
  from assms(1) have "subtree (avl_node t) (hole_parent c) (Some x) (Node l x r)" "around (avl_node t) (avl_root t) c (Some x)"
    unfolding T subtree_plug by auto
  then show ?thesis using tree_check_parent [of t c x] by simp
qed

text \<open>The exchange of \<^verbatim>\<open>CAvl_impl.h\<close> for a node and one below it.\<close>

lemma CAvl_swap_eq:
  assumes sub: "subtree (avl_node t) None (avl_root t) T" and ab: "a \<in> set_tree T" "b \<in> set_tree T"
    and p: "parent_of t a \<noteq> parent_of t b" "parent_of t a \<noteq> Some b"
  shows "CAvl_swap_for_remove a b (parent_of t a) (parent_of t b) t = Some (BAVL_swap_nodes a b t)"
proof -
  have c: "CAvl_check_parent (parent_of t a) a t" "CAvl_check_parent (parent_of t b) b t"
    using node_check_parent [OF sub] ab by blast+
  have ne: "a \<noteq> b" using p(1) by auto
  have l: "link_of t b s \<noteq> Some a" for s using link_parent [OF sub ab(2), of s a] p(2) by auto
  show ?thesis
  proof (cases "parent_of t b = Some a")
    case True
    then show ?thesis using c l ne
      by (simp add: CAvl_swap_for_remove_def BAVL_swap_nodes_def swap_connected_def Let_def)
  next
    case False
    then show ?thesis using c p ne
      by (simp add: CAvl_swap_for_remove_def BAVL_swap_nodes_def swap_apart_def Let_def)
  qed
qed

section \<open>Removal\<close>

lemma walk_down_correct:
  "subtree (avl_node t) par (Some p) X \<Longrightarrow>
    \<exists>m c y. walk_down s p t = Some m \<and> X = plug c (nd s Leaf m y) \<and> (if s then right_of c else left_of c) = []"
proof (induction X arbitrary: par p)
  case (Node l n r)
  define Y where "Y = (if s then r else l)"
  define U where "U = (if s then l else r)"
  have X: "Node l n r = nd s Y n U" by (simp add: nd_def Y_def U_def)
  have p: "p = n" and sub: "subtree (avl_node t) (Some n) (link_of t n s) Y"
    using Node.prems unfolding X by simp_all
  have step: "walk_down s p t = (case link_of t n s of None \<Rightarrow> Some n | Some x \<Rightarrow> walk_down s x t)"
    unfolding p by (subst walk_down.simps) simp
  show ?case
  proof (cases "link_of t n s")
    case None
    then have "Y = Leaf" using sub by (simp add: subtree_None)
    then show ?thesis unfolding step None X by (intro exI [of _ n] exI [of _ "[]"] exI [of _ U]) simp
  next
    case (Some q)
    have "\<exists>m c y. walk_down s q t = Some m \<and> Y = plug c (nd s Leaf m y) \<and> (if s then right_of c else left_of c) = []"
      using Node.IH(1) [of "Some n" q] Node.IH(2) [of "Some n" q] sub Some unfolding Y_def by (cases s) auto
    then obtain m c y where m: "walk_down s q t = Some m" "Y = plug c (nd s Leaf m y)"
      "(if s then right_of c else left_of c) = []" by blast
    then have "nd s Y n U = plug (c @ [(s, n, U)]) (nd s Leaf m y)"
      "(if s then right_of (c @ [(s, n, U)]) else left_of (c @ [(s, n, U)])) = []"
      by (simp_all add: plug_append right_of_append left_of_append split: if_splits)
    moreover have "walk_down s n t = Some m" using step p Some m(1) by simp
    ultimately show ?thesis unfolding X p by blast
  qed
qed simp

lemma hole_parent_set: "hole_parent c = Some p \<Longrightarrow> p \<in> hole_set c"
  by (cases c) auto

lemma replace_subtree_correct:
  assumes ar: "around (avl_node t) (avl_root t) c (Some n)" and sub: "subtree (avl_node t) (hole_parent c) (Some n) T"
    and dist: "distinct (inorder (plug c T))"
    and X: "subtree (avl_node t) (Some n) q X" "distinct (inorder X)" "set_tree X \<subseteq> set_tree T - {n}"
  shows "around (avl_node (BAVL_replace_subtree n q t)) (avl_root (BAVL_replace_subtree n q t)) c q"
    "subtree (avl_node (BAVL_replace_subtree n q t)) (hole_parent c) q X"
    "balance_of (BAVL_replace_subtree n q t) = balance_of t"
    "same_rest t (BAVL_replace_subtree n q t) (set_tree X \<union> hole_set c)"
proof -
  define t2 where "t2 = BAVL_replace_subtree n q t"
  define t1 where "t1 = hang (hole_parent c) n q t"
  have n: "n \<in> set_tree T" "n \<notin> hole_set c" "separate c" "set_tree X \<inter> hole_set c = {}"
    using dist subtree_root [OF sub] X(3) by (auto simp: distinct_plug)
  have par: "parent_of t n = hole_parent c" using sub by (cases T) auto
  have np: "hole_parent c \<noteq> Some n" using n(2) hole_parent_set by fastforce
  have qx: "q = Some x \<Longrightarrow> x \<in> set_tree X" for x using X(1) subtree_root by fastforce
  have p1: "parent_of t1 n = hole_parent c" by (simp add: t1_def par)
  have t: "t2 = (case q of None \<Rightarrow> t1 | Some x \<Rightarrow> set_parent x (hole_parent c) t1)"
    unfolding t2_def BAVL_replace_subtree_def Let_def par t1_def [symmetric] p1 by (rule refl)
  have lk: "link_of t2 x = link_of t1 x" "avl_root t2 = avl_root t1" "balance_of t2 x = balance_of t x"
    "parent_of t2 x = (if q = Some x then hole_parent c else parent_of t x)"
    "avl_cmp t2 = avl_cmp t" "avl_val t2 = avl_val t" for x
    by (auto simp: t t1_def split: option.splits)
  have l1: "link_of t1 x = link_of t x" if "x \<notin> hole_set c" for x
    using that hole_parent_set [of c x] by (auto simp: t1_def link_hang)
  have "around (avl_node t1) (avl_root t1) c q" unfolding t1_def by (rule around_hang [OF ar n(2,3)])
  moreover have "same_links (avl_node t1) (avl_node t2) (hole_set c)"
    using qx n(4) by (auto simp: lk t1_def disjoint_iff intro!: same_linksI)
  ultimately show "around (avl_node (BAVL_replace_subtree n q t)) (avl_root (BAVL_replace_subtree n q t)) c q"
    unfolding t2_def [symmetric] lk(2) by (rule around_frame)
  show "subtree (avl_node (BAVL_replace_subtree n q t)) (hole_parent c) q X"
    unfolding t2_def [symmetric] using n(4) by (intro subtree_adopted [OF X(1,2)]) (auto simp: lk l1 disjoint_iff)
  have bal: "balance_of t2 = balance_of t" by (rule ext) (rule lk(3))
  then show "balance_of (BAVL_replace_subtree n q t) = balance_of t" by (simp only: t2_def)
  show "same_rest t (BAVL_replace_subtree n q t) (set_tree X \<union> hole_set c)"
    unfolding t2_def [symmetric] using qx by (auto simp: same_rest_def lk(5,6) l1 fun_cong [OF bal] lk(1,4) intro!: bavl_node.equality)
qed

text \<open>The part of \<^verbatim>\<open>BAVL_Remove\<close> after the exchange.\<close>

definition remove_top :: "'p \<Rightarrow> ('p, 'v) bavl \<Rightarrow> ('p, 'v) bavl option" where
  "remove_top n t =
     (if link_of t n False \<noteq> None \<and> link_of t n True \<noteq> None then None
      else
        let par = parent_of t n;
            child = (if link_of t n False \<noteq> None then link_of t n False else link_of t n True)
        in case par of
            Some p \<Rightarrow>
              let side = (Some n = link_of t p True);
                  t = BAVL_replace_subtree n child t
              in BAVL_rebalance p side (-1) t
          | None \<Rightarrow> Some (BAVL_replace_subtree n child t))"

definition CAvl_remove_top :: "'p \<Rightarrow> ('p, 'v) bavl \<Rightarrow> ('p, 'v) bavl option" where
  "CAvl_remove_top n t =
     (if link_of t n False \<noteq> None \<and> link_of t n True \<noteq> None then None
      else
        let paren = parent_of t n;
            child = (if link_of t n False \<noteq> None then link_of t n False else link_of t n True)
        in case paren of
            Some p \<Rightarrow>
              let side = (Some n = link_of t p True)
              in do { t \<leftarrow> CAvl_replace_subtree_fix_assoc n child paren t; CAvl_rebalance p side (-1) t }
          | None \<Rightarrow> CAvl_replace_subtree_fix_assoc n child paren t)"

lemma remove_top_correct:
  assumes tree: "bavl_tree t (plug c (Node l n r))" and one: "l = Leaf \<or> r = Leaf"
  shows "\<exists>t' T'. remove_top n t = Some t' \<and> CAvl_remove_top n t = Some t' \<and> bavl_tree t' T'
    \<and> inorder T' = left_of c @ inorder l @ inorder r @ right_of c
    \<and> same_rest t t' (set_tree (plug c (Node l n r)))"
proof -
  let ?N = "Node l n r"
  define X where "X = (if l = Leaf then r else l)"
  have dist: "distinct (inorder (plug c ?N))" and bal: "avl (balance_of t) (plug c ?N)"
    and sub: "subtree (avl_node t) None (avl_root t) (plug c ?N)"
    using tree by (simp_all add: bavl_tree_def)
  from sub have N: "subtree (avl_node t) (hole_parent c) (Some n) ?N" and ar: "around (avl_node t) (avl_root t) c (Some n)"
    unfolding subtree_plug by auto
  have leaf: "l = Leaf \<longleftrightarrow> link_of t n False = None" "r = Leaf \<longleftrightarrow> link_of t n True = None"
    using N by (cases l; cases r; simp)+
  define q where "q = (if link_of t n False \<noteq> None then link_of t n False else link_of t n True)"
  have X: "subtree (avl_node t) (Some n) q X" "distinct (inorder X)" "set_tree X \<subseteq> set_tree ?N - {n}"
    "inorder X = inorder l @ inorder r" "height ?N = Suc (height X)" "avl (balance_of t) X"
    using N dist bal one leaf by (auto simp: X_def q_def distinct_plug avl_plug)
  define t1 where "t1 = BAVL_replace_subtree n q t"
  note rs = replace_subtree_correct [OF ar N dist X(1-3), folded t1_def]
  have par: "parent_of t n = hole_parent c" using N by simp
  have sr: "same_rest t t1 (set_tree (plug c ?N))"
    by (rule same_rest_mono [OF rs(4)]) (use X(3) in \<open>auto simp: set_plug\<close>)
  have cr: "CAvl_replace_subtree_fix_assoc n q (parent_of t n) t = Some t1"
    using node_check_parent [OF sub, of n] by (auto simp: CAvl_replace_subtree_fix_assoc_def BAVL_replace_subtree_def t1_def set_plug Let_def)
  have dX: "distinct (inorder (plug c X))" using dist X(2,3) by (auto simp: distinct_plug)
  have sX: "set (inorder (plug c X)) \<subseteq> set_tree (plug c ?N)" using X(3) by (auto simp: set_plug)
  show ?thesis
  proof (cases c)
    case Nil
    have "remove_top n t = Some t1"
      using one leaf par by (auto simp: remove_top_def Nil t1_def q_def)
    moreover have "CAvl_remove_top n t = Some t1"
      using one leaf par cr [unfolded q_def] by (auto simp: CAvl_remove_top_def Nil)
    moreover have "bavl_tree t1 X" using rs(1-3) X by (simp add: bavl_tree_def Nil)
    ultimately show ?thesis using sr X(4) by (auto simp: Nil)
  next
    case (Cons f d)
    obtain s p u where f: "f = (s, p, u)" by (cases f)
    have "n \<notin> set_tree u" using dist by (auto simp: Cons f distinct_plug distinct_nd)
    then have side: "(Some n = link_of t p True) = s"
      using around_side [of "avl_node t" "avl_root t" s p u d n] ar by (simp add: Cons f)
    have rm: "remove_top n t = BAVL_rebalance p s (-1) t1"
      using one leaf par side by (auto simp: remove_top_def Cons f t1_def q_def)
    have crm: "CAvl_remove_top n t = CAvl_rebalance p s (-1) t1"
      using one leaf par side cr [unfolded q_def] by (auto simp: CAvl_remove_top_def Cons f)
    have "avl_around (balance_of t1) c (Suc (height X))"
      using bal X(5) unfolding avl_plug rs(3) by simp
    then have pre: "around (avl_node t1) (avl_root t1) ((s, p, u) # d) q" "subtree (avl_node t1) (Some p) q X"
      "distinct (inorder (plug ((s, p, u) # d) X))" "avl (balance_of t1) X"
      "avl_around (balance_of t1) ((s, p, u) # d) (Suc (height X))"
      using rs(1,2) dX X(6) unfolding rs(3) by (simp_all only: Cons f hole_parent.simps)
    obtain t' T' where r: "BAVL_rebalance p s (-1) t1 = Some t'" "bavl_tree t' T'"
      "CAvl_rebalance p s (-1) t1 = Some t'" "inorder T' = inorder (plug c X)" "same_rest t1 t' (set (inorder (plug c X)))"
      using rebalance_correct [OF pre, where deltac = "-1"] unfolding Cons f by (elim meta_impE exE conjE; simp)
    have "same_rest t t' (set_tree (plug c ?N))"
      by (rule same_rest_trans [OF sr same_rest_mono [OF r(5) sX]])
    then show ?thesis using rm crm r(1-4) X(4) by (auto simp: inorder_plug)
  qed
qed

definition map_hole :: "('p \<Rightarrow> 'p) \<Rightarrow> 'p hole \<Rightarrow> 'p hole" where
  "map_hole f c = map (\<lambda>(s, p, u). (s, f p, map_tree f u)) c"

lemma map_hole_simps [simp]:
  "map_hole f [] = []" "map_hole f ((s, p, u) # c) = (s, f p, map_tree f u) # map_hole f c"
  by (simp_all add: map_hole_def)

lemma map_plug: "map_tree f (plug c t) = plug (map_hole f c) (map_tree f t)"
  by (induction c t rule: plug.induct) (auto simp: nd_def)

lemma map_left_right: "left_of (map_hole f c) = map f (left_of c)" "right_of (map_hole f c) = map f (right_of c)"
  by (induction c rule: left_of.induct) (auto simp: inorder_map)

lemma remove_correct:
  assumes tree: "bavl_tree t T" and n: "n \<in> set_tree T"
  shows "\<exists>t' T'. BAVL_Remove n t = Some t' \<and> CAvl_Remove n t = Some t' \<and> bavl_tree t' T' \<and> inorder T' = remove1 n (inorder T)
    \<and> same_rest t t' (set_tree T)"
proof -
  obtain c l r where T: "T = plug c (Node l n r)" using find_hole [OF n] by blast
  have dist: "distinct (inorder T)" and sub: "subtree (avl_node t) None (avl_root t) T"
    using tree by (simp_all add: bavl_tree_def)
  from sub have N: "subtree (avl_node t) (hole_parent c) (Some n) (Node l n r)"
    unfolding T subtree_plug by auto
  have root: "avl_root t \<noteq> None" using sub n by (cases T) auto
  show ?thesis
  proof (cases "l = Leaf \<or> r = Leaf")
    case True
    have "link_of t n True = None \<or> link_of t n False = None" using True N by auto
    then have "BAVL_Remove n t = remove_top n t"
      by (auto simp: BAVL_Remove_def remove_top_def split: option.splits)
    moreover have "CAvl_Remove n t = CAvl_remove_top n t" using \<open>link_of t n True = None \<or> link_of t n False = None\<close> root
      by (auto simp: CAvl_Remove_def CAvl_remove_top_def split: option.splits)
    moreover have "left_of c @ inorder l @ inorder r @ right_of c = remove1 n (inorder T)"
      using dist unfolding T inorder_plug by (auto simp: remove1_append)
    ultimately show ?thesis using remove_top_correct [OF tree [unfolded T] True] unfolding T by auto
  next
    case False
    then obtain lp where lp: "link_of t n False = Some lp" "link_of t n True \<noteq> None"
      using N by (cases l; cases r) auto
    have "subtree (avl_node t) (Some n) (Some lp) l" using N lp(1) by simp
    from walk_down_correct [OF this, of True] obtain m c2 a where
      m: "walk_down True lp t = Some m" "l = plug c2 (Node a m Leaf)" "right_of c2 = []"
      by (auto simp: nd_def)
    let ?c = "c2 @ (False, n, r) # c"
    let ?f = "xchg n m"
    have Tm: "T = plug ?c (Node a m Leaf)" unfolding T m(2) plug_append by (simp add: nd_def)
    have mm: "m \<in> set_tree l" "m \<in> set_tree T" unfolding T set_plug by (simp_all add: m(2) set_plug)
    have D: "distinct (inorder (Node l n r))" "set_tree (Node l n r) \<inter> hole_set c = {}"
      using dist unfolding T distinct_plug by auto
    have nm: "n \<noteq> m" using D(1) mm(1) by auto
    have pm: "parent_of t m = hole_parent ?c" using sub unfolding Tm subtree_plug by auto
    have "\<exists>p. hole_parent ?c = Some p \<and> p \<in> set_tree (Node l n r)"
    proof (cases c2)
      case Nil then show ?thesis by simp
    next
      case (Cons g c3)
      then obtain p where "hole_parent c2 = Some p" by (cases g) auto
      moreover from this have "p \<in> set_tree l" using hole_parent_set [of c2 p] by (simp add: m(2) set_plug)
      ultimately show ?thesis using Cons by (cases g) auto
    qed
    then have pne: "parent_of t n \<noteq> parent_of t m"
      using D(2) hole_parent_set [of c] N unfolding pm by auto
    have "parent_of t n \<noteq> Some m" using N hole_parent_set [of c m] D(2) mm(1) by auto
    note csw = CAvl_swap_eq [OF sub n mm(2) pne this]
    note sw = swap_nodes_correct [OF tree n mm(2) pne]
    let ?t = "BAVL_swap_nodes n m t"
    have T1: "map_tree ?f T = plug (map_hole ?f ?c) (Node (map_tree ?f a) n Leaf)"
      unfolding Tm map_plug by simp
    obtain t' T' where r: "remove_top n ?t = Some t'" "bavl_tree t' T'" "CAvl_remove_top n ?t = Some t'"
      "inorder T' = left_of (map_hole ?f ?c) @ inorder (map_tree ?f a) @ right_of (map_hole ?f ?c)"
      "same_rest ?t t' (set_tree (plug (map_hole ?f ?c) (Node (map_tree ?f a) n Leaf)))"
      using remove_top_correct [OF sw(1) [unfolded T1]] by auto
    have "BAVL_Remove n t = remove_top n ?t"
      using lp m(1) by (auto simp: BAVL_Remove_def remove_top_def BAVL_subtree_max_def)
    moreover have "CAvl_Remove n t = CAvl_remove_top n ?t"
      using lp m(1) csw root by (auto simp: CAvl_Remove_def CAvl_remove_top_def CAvl_subtree_max_def)
    moreover have "inorder T' = remove1 n (inorder T)"
    proof -
      define P where "P = left_of ?c @ inorder a"
      define Q where "Q = inorder r @ right_of c"
      have T: "inorder T = P @ m # n # Q"
        unfolding Tm inorder_plug by (simp add: P_def Q_def right_of_append m(3))
      have "map ?f P = P" "map ?f Q = Q" using dist unfolding T by (auto intro!: map_idI simp: xchg_def)
      moreover have "inorder T' = map ?f P @ ?f n # map ?f Q"
        unfolding r(4) by (simp add: map_left_right inorder_map P_def Q_def right_of_append m(3))
      ultimately show ?thesis using dist unfolding T by (simp add: remove1_append)
    qed
    moreover have "same_rest t t' (set_tree T)"
    proof (rule same_rest_trans [OF sw(2)])
      have "set_tree (map_tree ?f T) \<subseteq> set_tree T" using n mm(2) by (auto simp: tree.set_map xchg_def)
      then show "same_rest ?t t' (set_tree T)" using r(5) unfolding T1 by (rule same_rest_mono [rotated])
    qed
    ultimately show ?thesis using r(1-3) by auto
  qed
qed


section \<open>Neighbours\<close>

abbreviation first_opt :: "'a list \<Rightarrow> 'a option" where
  "first_opt xs \<equiv> (case xs of [] \<Rightarrow> None | y # _ \<Rightarrow> Some y)"

lemma walk_down_end:
  assumes "subtree (avl_node t) par (Some p) X"
  shows "\<exists>m. walk_down s p t = Some m \<and> first_opt (if s then rev (inorder X) else inorder X) = Some m"
proof -
  obtain m c y where "walk_down s p t = Some m" "X = plug c (nd s Leaf m y)" "(if s then right_of c else left_of c) = []"
    using walk_down_correct [OF assms, of s] by blast
  then show ?thesis by (cases s) (auto simp: inorder_plug inorder_nd)
qed

lemma climb_correct:
  assumes "around (avl_node t) (avl_root t) c (Some n)" "parent_of t n = hole_parent c" "n \<notin> hole_set c" "separate c"
  shows "\<exists>k. climb s n t = Some k \<and> parent_of t k = first_opt (if s then right_of c else rev (left_of c))"
  using assms
proof (induction c arbitrary: n)
  case Nil
  then show ?case by (subst climb.simps) simp
next
  case (Cons f c)
  obtain s' p u where f: "f = (s', p, u)" by (cases f)
  have side: "(Some n = link_of t p s) = (s' = s)"
    using Cons.prems(1,3) subtree_root [of "avl_node t" "Some p" n u] by (cases s; cases s') (auto simp: f)
  have step: "climb s n t = (if s' = s then climb s p t else Some n)"
    using Cons.prems(2) side by (subst climb.simps) (simp add: f)
  show ?case
  proof (cases "s' = s")
    case True
    then obtain k where "climb s p t = Some k" "parent_of t k = first_opt (if s then right_of c else rev (left_of c))"
      using Cons.IH [of p] Cons.prems by (auto simp: f)
    then show ?thesis using step True by (auto simp: f)
  next
    case False
    then show ?thesis using step Cons.prems(2) by (cases s) (auto simp: f)
  qed
qed

lemma neighbour_correct:
  assumes tree: "bavl_tree t T" and xs: "inorder T = xs @ n # ys"
  shows "neighbour s n t = Some (first_opt (if s then ys else rev xs))"
proof -
  have n: "n \<in> set_tree T" using arg_cong [OF xs, of set] by simp
  obtain c l r where T: "T = plug c (Node l n r)" using find_hole [OF n] by blast
  have sub: "subtree (avl_node t) None (avl_root t) T" and dist: "distinct (inorder T)"
    using tree by (simp_all add: bavl_tree_def)
  have N: "subtree (avl_node t) (hole_parent c) (Some n) (Node l n r)" "around (avl_node t) (avl_root t) c (Some n)"
    using sub unfolding T subtree_plug by auto
  have D: "n \<notin> hole_set c" "separate c" using dist unfolding T distinct_plug by auto
  have "xs @ n # ys = (left_of c @ inorder l) @ n # (inorder r @ right_of c)"
    using xs unfolding T inorder_plug by simp
  moreover have "n \<notin> set xs" "n \<notin> set ys" using dist unfolding xs by simp_all
  ultimately have ab: "xs = left_of c @ inorder l" "ys = inorder r @ right_of c"
    using append_Cons_eq_iff [of n xs ys] by blast+
  define Y where "Y = (if s then r else l)"
  have Y: "subtree (avl_node t) (Some n) (link_of t n s) Y" using N(1) by (auto simp: Y_def)
  show ?thesis
  proof (cases "link_of t n s")
    case None
    then have "Y = Leaf" using Y by (simp add: subtree_None)
    moreover obtain k where "climb s n t = Some k" "parent_of t k = first_opt (if s then right_of c else rev (left_of c))"
      using climb_correct [OF N(2) _ D, of s] N(1) by auto
    ultimately show ?thesis using None by (cases s) (auto simp: neighbour_def ab Y_def)
  next
    case (Some x)
    obtain m where m: "walk_down (\<not> s) x t = Some m" "first_opt (if \<not> s then rev (inorder Y) else inorder Y) = Some m"
      using walk_down_end [OF Y [unfolded Some], of "\<not> s"] by blast
    then show ?thesis using Some by (cases s) (auto simp: neighbour_def ab Y_def split: list.splits)
  qed
qed

section \<open>The self-check and the height\<close>

lemma assert_recurser_correct:
  assumes "subtree (avl_node t) par (Some r) T" "avl (balance_of t) T"
    and "sorted_wrt (\<lambda>x y. BAVL_compare_nodes t x y = Some (-1) \<and> BAVL_compare_nodes t y x = Some 1) (inorder T)"
  shows "BAVL_assert_recurser r t = Some (int (height T))"
  using assms
proof (induction T arbitrary: par r)
  case (Node L n R)
  have r: "r = n" using Node.prems(1) by simp
  have b: "balance_of t n = int (height R) - int (height L)" "\<bar>balance_of t n\<bar> \<le> 1"
    using Node.prems(2) unfolding avl.simps by blast+
  have L: "(case link_of t n False of None \<Rightarrow> Some 0
      | Some x \<Rightarrow> if parent_of t x \<noteq> Some n \<or> BAVL_compare_nodes t x n \<noteq> Some (-1) then None
          else BAVL_assert_recurser x t) = Some (int (height L))"
  proof (cases "link_of t n False")
    case None
    then show ?thesis using Node.prems(1) by (auto simp: subtree_None)
  next
    case (Some x)
    then have x: "subtree (avl_node t) (Some n) (Some x) L" using Node.prems(1) by simp
    have "parent_of t x = Some n" "x \<in> set_tree L" using x by (cases L; auto)+
    moreover from this have "BAVL_compare_nodes t x n = Some (-1)" using Node.prems(3) by (auto simp: sorted_wrt_append)
    moreover have "BAVL_assert_recurser x t = Some (int (height L))"
      using Node.prems by (intro Node.IH(1) [OF x]) (auto simp: sorted_wrt_append)
    ultimately show ?thesis using Some by simp
  qed
  have R: "(case link_of t n True of None \<Rightarrow> Some 0
      | Some x \<Rightarrow> if parent_of t x \<noteq> Some n \<or> BAVL_compare_nodes t x n \<noteq> Some 1 then None
          else BAVL_assert_recurser x t) = Some (int (height R))"
  proof (cases "link_of t n True")
    case None
    then show ?thesis using Node.prems(1) by (auto simp: subtree_None)
  next
    case (Some x)
    then have x: "subtree (avl_node t) (Some n) (Some x) R" using Node.prems(1) by simp
    have "parent_of t x = Some n" "x \<in> set_tree R" using x by (cases R; auto)+
    moreover from this have "BAVL_compare_nodes t x n = Some 1" using Node.prems(3) by (auto simp: sorted_wrt_append)
    moreover have "BAVL_assert_recurser x t = Some (int (height R))"
      using Node.prems by (intro Node.IH(2) [OF x]) (auto simp: sorted_wrt_append)
    ultimately show ?thesis using Some by simp
  qed
  show ?case unfolding r using b
    by (subst BAVL_assert_recurser.simps) (auto simp: L R BAVL_MAX_def max_def abs_le_iff)
qed simp

lemma avl_height:
  assumes "avl bal T"
  shows "2 ^ height T \<le> (Suc (size T))\<^sup>2"
proof -
  have split: "2 ^ Suc (max h k) \<le> (a + b)\<^sup>2"
    if a: "2 ^ h \<le> a\<^sup>2" and b: "2 ^ k \<le> b\<^sup>2" and hk: "h \<le> Suc k" "k \<le> Suc h" and pos: "0 < a" "0 < b"
    for a b h k :: nat
  proof -
    have one: "2 ^ Suc (Suc j) \<le> (a + b)\<^sup>2" if a: "2 ^ Suc j \<le> a\<^sup>2" and b: "2 ^ j \<le> b\<^sup>2" for a b j :: nat
    proof -
      have "(2 ^ j)\<^sup>2 \<le> (a * b)\<^sup>2"
      proof -
        have "(2::nat) ^ j * 2 ^ j \<le> a\<^sup>2 * b\<^sup>2" using a b by (intro mult_mono) auto
        then show ?thesis by (simp add: power2_eq_square algebra_simps)
      qed
      then have "2 ^ j \<le> a * b" using power2_le_iff_abs_le power_mono_iff [of "2 ^ j" "a * b" 2] by simp
      then show ?thesis using a b by (simp add: power2_sum)
    qed
    consider "h = k" | "h = Suc k" | "k = Suc h" using hk by linarith
    then show ?thesis
    proof cases
      case 1
      have "(2 ^ h)\<^sup>2 \<le> (a * b)\<^sup>2"
      proof -
        have "(2::nat) ^ h * 2 ^ h \<le> a\<^sup>2 * b\<^sup>2" using a b 1 by (intro mult_mono) auto
        then show ?thesis by (simp add: power2_eq_square algebra_simps)
      qed
      then have "2 ^ h \<le> a * b" using power_mono_iff [of "2 ^ h" "a * b" 2] by simp
      then show ?thesis using a b 1 by (simp add: power2_sum)
    next
      case 2
      then show ?thesis using one [of k a b] a b by (simp add: max_def)
    next
      case 3
      then show ?thesis using one [of h b a] a b by (simp add: max_def add.commute)
    qed
  qed
  show ?thesis using assms
  proof (induction T)
    case (Node l n r)
    then show ?case
      using split [of "height l" "Suc (size l)" "height r" "Suc (size r)"] by auto
  qed simp
qed


end
