(* ===== verification/BAVL_Index.thy ===== *)
theory BAVL_Index
  imports BAVL_Refine
begin

text \<open>
  The contract of the search trees of the program, and the AVL tree of \<^verbatim>\<open>structure/BAVL.h\<close> as an implementation of
  it. The locale \<open>ordered_index\<close> is what the users of a tree rely on: the nodes form a sequence sorted by their
  keys, and the operations act on that sequence; inside it the tree is a finite map from keys to nodes. The
  locale \<open>tree_order\<close> is what the tree relies on, a comparator that returns -1, 0 or 1 and orders the keys; every
  such comparator makes the tree an \<open>ordered_index\<close>.
\<close>

section \<open>The contract\<close>

lemma option_eqI: "(\<And>x. a = Some x \<longleftrightarrow> b = Some x) \<Longrightarrow> a = b"
  by (metis option.exhaust)

abbreviation find_key :: "('v \<Rightarrow> 'v \<Rightarrow> int) \<Rightarrow> ('p \<Rightarrow> 'v) \<Rightarrow> 'v \<Rightarrow> 'p list \<Rightarrow> 'p option" where
  "find_key cmp key v xs \<equiv> List.find (\<lambda>x. cmp v (key x) = 0) xs"

locale ordered_index = comparator D cmp for D :: "'v set" and cmp +
  fixes holds :: "'t \<Rightarrow> 'p list \<Rightarrow> bool" and key :: "'t \<Rightarrow> 'p \<Rightarrow> 'v"
    and ins :: "'p \<Rightarrow> 't \<Rightarrow> (bool \<times> 'p option \<times> 't) option" and rm :: "'p \<Rightarrow> 't \<Rightarrow> 't option"
    and look :: "'v \<Rightarrow> 't \<Rightarrow> 'p option option"
  assumes holds_sorted: "holds t xs \<Longrightarrow> sorted_wrt (\<lambda>x y. cmp (key t x) (key t y) < 0) xs"
    and holds_dom: "holds t xs \<Longrightarrow> key t ` set xs \<subseteq> D"
    and ins_present: "holds t xs \<Longrightarrow> n \<notin> set xs \<Longrightarrow> key t n \<in> D \<Longrightarrow>
      find_key cmp (key t) (key t n) xs = Some x \<Longrightarrow> ins n t = Some (False, Some x, t)"
    and ins_absent: "holds t xs \<Longrightarrow> n \<notin> set xs \<Longrightarrow> key t n \<in> D \<Longrightarrow>
      find_key cmp (key t) (key t n) xs = None \<Longrightarrow>
      \<exists>ref t'. ins n t = Some (True, ref, t') \<and> key t' = key t
        \<and> holds t' (sorted_ins (\<lambda>x. cmp (key t n) (key t x)) n xs)"
    and rm_present: "holds t xs \<Longrightarrow> n \<in> set xs \<Longrightarrow>
      \<exists>t'. rm n t = Some t' \<and> key t' = key t \<and> holds t' (remove1 n xs)"
    and look_find: "holds t xs \<Longrightarrow> v \<in> D \<Longrightarrow> look v t = Some (find_key cmp (key t) v xs)"
begin

lemma sorted_keys_distinct:
  "sorted_wrt (\<lambda>x y. cmp (f x) (f y) < 0) xs \<Longrightarrow> f ` set xs \<subseteq> D \<Longrightarrow> distinct xs"
proof (induction xs)
  case (Cons x xs)
  have "x \<notin> set xs" using Cons.prems cmp_refl [of "f x"] by auto
  with Cons show ?case by simp
qed simp

lemma holds_distinct: "holds t xs \<Longrightarrow> distinct xs"
  using sorted_keys_distinct holds_sorted holds_dom by blast

text \<open>As a map from keys to nodes.\<close>

definition index_map :: "('p \<Rightarrow> 'v) \<Rightarrow> 'p list \<Rightarrow> 'v \<Rightarrow> 'p option" where
  "index_map f xs v = find_key cmp f v xs"

lemma index_map_Some:
  assumes "holds t xs" "v \<in> D"
  shows "index_map (key t) xs v = Some x \<longleftrightarrow> x \<in> set xs \<and> key t x = v"
proof -
  have d: "y \<in> set xs \<Longrightarrow> key t y \<in> D" for y using holds_dom [OF assms(1)] by auto
  have inj: "inj_on (key t) (set xs)"
  proof -
    have "sorted_wrt (\<lambda>x y. cmp (key t x) (key t y) < 0) xs \<Longrightarrow> key t ` set xs \<subseteq> D \<Longrightarrow> inj_on (key t) (set xs)"
    proof (induction xs)
      case (Cons x xs)
      then have "\<forall>y\<in>set xs. key t y \<noteq> key t x" using cmp_refl by fastforce
      then show ?case using Cons by auto
    qed simp
    then show ?thesis using holds_sorted holds_dom assms(1) by blast
  qed
  have e: "y \<in> set xs \<Longrightarrow> cmp v (key t y) = 0 \<longleftrightarrow> key t y = v" for y using cmp_eq_0 [OF assms(2) d] by auto
  show ?thesis
  proof
    assume "index_map (key t) xs v = Some x"
    then show "x \<in> set xs \<and> key t x = v"
      using e by (auto simp: index_map_def find_Some_iff)
  next
    assume x: "x \<in> set xs \<and> key t x = v"
    then have "find_key cmp (key t) v xs \<noteq> None" using e by (auto simp: find_None_iff)
    then obtain y where y: "find_key cmp (key t) v xs = Some y" by auto
    then have "y \<in> set xs" "cmp v (key t y) = 0" by (auto simp: find_Some_iff)
    then have "y = x" using x inj e by (auto dest: inj_onD)
    then show "index_map (key t) xs v = Some x" using y by (simp add: index_map_def)
  qed
qed

lemma set_sorted_ins: "set (sorted_ins g n xs) = insert n (set xs)"
  by (induction xs) auto

text \<open>Insertion, removal and lookup of the map.\<close>

lemma look_map: "holds t xs \<Longrightarrow> v \<in> D \<Longrightarrow> look v t = Some (index_map (key t) xs v)"
  by (simp add: look_find index_map_def)

lemma ins_map:
  assumes "holds t xs" "n \<notin> set xs" "key t n \<in> D" "index_map (key t) xs (key t n) = None"
  shows "\<exists>ref t' xs'. ins n t = Some (True, ref, t') \<and> holds t' xs' \<and> key t' = key t \<and> set xs' = insert n (set xs)
    \<and> (\<forall>v\<in>D. index_map (key t') xs' v = ((index_map (key t) xs)(key t n \<mapsto> n)) v)"
proof -
  let ?xs = "sorted_ins (\<lambda>x. cmp (key t n) (key t x)) n xs"
  obtain ref t' where t': "ins n t = Some (True, ref, t')" "key t' = key t" "holds t' ?xs"
    using ins_absent [OF assms(1-3)] assms(4) by (auto simp: index_map_def)
  have "index_map (key t') ?xs v = ((index_map (key t) xs)(key t n \<mapsto> n)) v" if v: "v \<in> D" for v
  proof (cases "v = key t n")
    case True
    then show ?thesis using index_map_Some [OF t'(3) v, of n] by (simp add: t'(2) set_sorted_ins)
  next
    case False
    have "index_map (key t') ?xs v = Some x \<longleftrightarrow> index_map (key t) xs v = Some x" for x
      using index_map_Some [OF t'(3) v, of x] index_map_Some [OF assms(1) v, of x] False
      by (auto simp: t'(2) set_sorted_ins)
    then show ?thesis using False by (intro option_eqI) simp
  qed
  then show ?thesis
    by (intro exI [of _ ref] exI [of _ t'] exI [of _ ?xs]) (simp add: t' set_sorted_ins)
qed

lemma rm_map:
  assumes "holds t xs" "n \<in> set xs"
  shows "\<exists>t' xs'. rm n t = Some t' \<and> holds t' xs' \<and> key t' = key t \<and> set xs' = set xs - {n}
    \<and> (\<forall>v\<in>D. index_map (key t') xs' v = ((index_map (key t) xs)(key t n := None)) v)"
proof -
  obtain t' where t': "rm n t = Some t'" "key t' = key t" "holds t' (remove1 n xs)"
    using rm_present [OF assms] by blast
  have s: "set (remove1 n xs) = set xs - {n}" by (rule set_remove1_eq [OF holds_distinct [OF assms(1)]])
  have n: "key t n \<in> D" using holds_dom [OF assms(1)] assms(2) by auto
  have "index_map (key t') (remove1 n xs) v = ((index_map (key t) xs)(key t n := None)) v" if v: "v \<in> D" for v
  proof -
    have "index_map (key t') (remove1 n xs) v = Some x \<longleftrightarrow> ((index_map (key t) xs)(key t n := None)) v = Some x" for x
      using index_map_Some [OF t'(3) v, of x] index_map_Some [OF assms(1) v, of x]
        index_map_Some [OF assms(1) n, of n] index_map_Some [OF assms(1) n, of x] assms(2)
      by (auto simp: t'(2) s)
    then show ?thesis by (rule option_eqI)
  qed
  then show ?thesis using t' s by blast
qed

end

section \<open>The tree\<close>

text \<open>The tree \<open>t\<close> holds the nodes \<open>xs\<close>, in this order.\<close>

definition bavl_holds :: "'v set \<Rightarrow> ('v \<Rightarrow> 'v \<Rightarrow> int) \<Rightarrow> ('p, 'v) bavl \<Rightarrow> 'p list \<Rightarrow> bool" where
  "bavl_holds D cmp t xs \<longleftrightarrow>
     avl_cmp t = cmp \<and> (\<exists>T. bavl_tree t T \<and> inorder T = xs)
     \<and> sorted_wrt (\<lambda>x y. cmp (avl_val t x) (avl_val t y) < 0) xs \<and> avl_val t ` set xs \<subseteq> D"

locale tree_order = comparator D cmp for D :: "'v set" and cmp +
  assumes cmp_range: "x \<in> D \<Longrightarrow> y \<in> D \<Longrightarrow> cmp x y \<in> {-1, 0, 1}"
begin

lemma cmp_less: "x \<in> D \<Longrightarrow> y \<in> D \<Longrightarrow> cmp x y < 0 \<longleftrightarrow> cmp x y = -1"
  using cmp_range by fastforce

lemma cmp_flip: "x \<in> D \<Longrightarrow> y \<in> D \<Longrightarrow> cmp x y = -1 \<longleftrightarrow> cmp y x = 1"
  using cmp_swap [of x y] cmp_range [of x y] cmp_range [of y x] by auto

lemma compare_nodes:
  "avl_cmp t = cmp \<Longrightarrow> avl_val t x \<in> D \<Longrightarrow> avl_val t y \<in> D \<Longrightarrow>
    BAVL_compare_nodes t x y = Some (cmp (avl_val t x) (avl_val t y))"
  using cmp_range [of "avl_val t x" "avl_val t y"]
  by (auto simp: BAVL_compare_nodes_def BAVL_compare_values_def Let_def)

lemma compare_values:
  "avl_cmp t = cmp \<Longrightarrow> v \<in> D \<Longrightarrow> w \<in> D \<Longrightarrow> BAVL_compare_values t v w = Some (cmp v w)"
  using cmp_range [of v w] by (auto simp: BAVL_compare_values_def Let_def)

lemma cut_sorted:
  "v \<in> D \<Longrightarrow> f ` set xs \<subseteq> D \<Longrightarrow> sorted_wrt (\<lambda>x y. cmp (f x) (f y) < 0) xs \<Longrightarrow> cut (\<lambda>x. cmp v (f x)) xs"
proof (induction xs)
  case Nil
  then show ?case by (simp add: cut_def)
next
  case (Cons x xs)
  have x: "f x \<in> D" using Cons.prems(2) by simp
  have "cmp v (f y) \<le> cmp v (f x) \<and> (cmp v (f x) = 0 \<longrightarrow> cmp v (f y) = -1)" if y: "y \<in> set xs" for y
  proof -
    have d: "f y \<in> D" and lt: "cmp (f x) (f y) < 0" using Cons.prems y by auto
    have r: "cmp v (f x) \<in> {-1, 0, 1}" "cmp v (f y) \<in> {-1, 0, 1}" using cmp_range Cons.prems(1) x d by blast+
    have "cmp v (f y) < 0" if "cmp v (f x) < 0" using cmp_trans [OF Cons.prems(1) x d that lt] .
    moreover have "cmp v (f y) < 0" if "cmp v (f x) = 0" using that lt cmp_eq_0 [OF Cons.prems(1) x] by simp
    ultimately show ?thesis using r by auto
  qed
  moreover have "cut (\<lambda>x. cmp v (f x)) xs" using Cons by simp
  ultimately show ?case using cmp_range [OF Cons.prems(1) x] by (simp add: cut_Cons)
qed

lemma holdsE:
  assumes "bavl_holds D cmp t xs"
  obtains T where "bavl_tree t T" "inorder T = xs" "set_tree T = set xs" "distinct xs"
proof -
  obtain T where T: "bavl_tree t T" "inorder T = xs" using assms by (auto simp: bavl_holds_def)
  moreover have "set_tree T = set xs" using T(2) by (metis set_inorder)
  ultimately show ?thesis using that by (auto simp: bavl_tree_def)
qed

lemma sorted_ins_sorted:
  assumes "v \<in> D" "f n = v" "f ` set xs \<subseteq> D" "sorted_wrt (\<lambda>x y. cmp (f x) (f y) < 0) xs"
    "\<And>x. x \<in> set xs \<Longrightarrow> cmp v (f x) \<noteq> 0"
  shows "sorted_wrt (\<lambda>x y. cmp (f x) (f y) < 0) (sorted_ins (\<lambda>x. cmp v (f x)) n xs)"
  using assms
proof (induction xs)
  case (Cons x xs)
  have x: "f x \<in> D" using Cons.prems(3) by simp
  have s: "set (sorted_ins g n ys) = insert n (set ys)" for g and ys :: "'a list" by (induction ys) auto
  show ?case
  proof (cases "cmp v (f x) < 0")
    case True
    then have "cmp v (f y) < 0" if "y \<in> set xs" for y
      using that Cons.prems cmp_trans [OF Cons.prems(1) x, of "f y"] by auto
    then show ?thesis using Cons.prems True by auto
  next
    case False
    then have "cmp (f x) v < 0" using cmp_swap [OF x Cons.prems(1)] Cons.prems(5) [of x] by auto
    then show ?thesis using Cons False by (auto simp: s)
  qed
qed simp

lemma tree_insert_absent:
  assumes h: "bavl_holds D cmp t xs" and n: "n \<notin> set xs" "avl_val t n \<in> D"
    and f: "find_key cmp (avl_val t) (avl_val t n) xs = None"
  shows "\<exists>ref t'. BAVL_Insert n t = Some (True, ref, t') \<and> avl_val t' = avl_val t
    \<and> bavl_holds D cmp t' (sorted_ins (\<lambda>x. cmp (avl_val t n) (avl_val t x)) n xs)
    \<and> beside ref (\<lambda>x. cmp (avl_val t n) (avl_val t x)) xs
    \<and> (\<forall>x. x \<notin> insert n (set xs) \<longrightarrow> avl_node t' x = avl_node t x)"
proof -
  obtain T where T: "bavl_tree t T" "inorder T = xs" "set_tree T = set xs" by (rule holdsE [OF h])
  have hd: "avl_cmp t = cmp" "sorted_wrt (\<lambda>x y. cmp (avl_val t x) (avl_val t y) < 0) xs" "avl_val t ` set xs \<subseteq> D"
    using h by (simp_all add: bavl_holds_def)
  let ?g = "\<lambda>x. cmp (avl_val t n) (avl_val t x)"
  have g: "x \<in> set_tree T \<Longrightarrow> BAVL_compare_nodes t n x = Some (?g x)" for x
    using compare_nodes [OF hd(1) n(2)] hd(3) T(3) by auto
  have c: "cut ?g (inorder T)" unfolding T(2) by (rule cut_sorted [OF n(2) hd(3,2)])
  obtain ref t' T' where r: "BAVL_Insert n t = Some (True, ref, t')" "bavl_tree t' T'"
    "inorder T' = sorted_ins ?g n xs" "beside ref ?g xs" "same_rest t t' (insert n (set xs))"
    using insert_correct [OF T(1) _ g c] n(1) f unfolding T(2,3) by auto
  have s: "set (sorted_ins ?g n xs) = insert n (set xs)" by (induction xs) auto
  have ne: "x \<in> set xs \<Longrightarrow> ?g x \<noteq> 0" for x using f by (auto simp: find_None_iff)
  have "sorted_wrt (\<lambda>x y. cmp (avl_val t x) (avl_val t y) < 0) (sorted_ins ?g n xs)"
    using sorted_ins_sorted [of "avl_val t n" "avl_val t" n xs] n(2) hd(2,3) ne by simp
  then have "bavl_holds D cmp t' (sorted_ins ?g n xs)"
    using r(2,3,5) hd(1,3) n(2) s unfolding bavl_holds_def same_rest_def by auto
  then show ?thesis using r by (auto simp: same_rest_def)
qed

lemma tree_insert_present:
  assumes h: "bavl_holds D cmp t xs" and n: "n \<notin> set xs" "avl_val t n \<in> D"
    and f: "find_key cmp (avl_val t) (avl_val t n) xs = Some x"
  shows "BAVL_Insert n t = Some (False, Some x, t)"
proof -
  obtain T where T: "bavl_tree t T" "inorder T = xs" "set_tree T = set xs" by (rule holdsE [OF h])
  have hd: "avl_cmp t = cmp" "sorted_wrt (\<lambda>x y. cmp (avl_val t x) (avl_val t y) < 0) xs" "avl_val t ` set xs \<subseteq> D"
    using h by (simp_all add: bavl_holds_def)
  let ?g = "\<lambda>x. cmp (avl_val t n) (avl_val t x)"
  have g: "x \<in> set_tree T \<Longrightarrow> BAVL_compare_nodes t n x = Some (?g x)" for x
    using compare_nodes [OF hd(1) n(2)] hd(3) T(3) by auto
  have c: "cut ?g (inorder T)" unfolding T(2) by (rule cut_sorted [OF n(2) hd(3,2)])
  show ?thesis using insert_correct [OF T(1) _ g c] n(1) f unfolding T(2,3) by auto
qed

lemma tree_remove:
  assumes h: "bavl_holds D cmp t xs" and n: "n \<in> set xs"
  shows "\<exists>t'. BAVL_Remove n t = Some t' \<and> avl_val t' = avl_val t \<and> bavl_holds D cmp t' (remove1 n xs)
    \<and> (\<forall>x. x \<notin> set xs \<longrightarrow> avl_node t' x = avl_node t x)"
proof -
  obtain T where T: "bavl_tree t T" "inorder T = xs" "set_tree T = set xs" "distinct xs" by (rule holdsE [OF h])
  obtain t' T' where r: "BAVL_Remove n t = Some t'" "bavl_tree t' T'" "inorder T' = remove1 n xs"
    "same_rest t t' (set xs)"
    using remove_correct [OF T(1), of n] n unfolding T(2,3) by auto
  have "remove1 n xs = filter ((\<noteq>) n) xs"
    using distinct_remove1_removeAll [OF T(4), of n] by (simp add: removeAll_filter_not_eq)
  then have "sorted_wrt (\<lambda>x y. cmp (avl_val t x) (avl_val t y) < 0) (remove1 n xs)"
    using h by (simp add: bavl_holds_def sorted_wrt_filter)
  moreover have "avl_val t ` set (remove1 n xs) \<subseteq> D"
    using h set_remove1_subset [of n xs] by (auto simp: bavl_holds_def)
  moreover have "avl_cmp t' = cmp" "avl_val t' = avl_val t"
    using h r(4) by (simp_all add: bavl_holds_def same_rest_def)
  ultimately have "bavl_holds D cmp t' (remove1 n xs)"
    using r(2,3) by (auto simp: bavl_holds_def)
  then show ?thesis using r by (auto simp: same_rest_def)
qed

lemma descend_value:
  assumes h: "bavl_holds D cmp t xs" and v: "v \<in> D" and r: "avl_root t = Some r"
  shows "\<exists>x. descend (\<lambda>c. BAVL_compare_values t v (avl_val t c)) r t = Some (x, cmp v (avl_val t x)) \<and> x \<in> set xs
    \<and> (if cmp v (avl_val t x) = 0 then find_key cmp (avl_val t) v xs = Some x
       else find_key cmp (avl_val t) v xs = None) \<and> beside (Some x) (\<lambda>x. cmp v (avl_val t x)) xs"
proof -
  obtain T where T: "bavl_tree t T" "inorder T = xs" "set_tree T = set xs" by (rule holdsE [OF h])
  have hd: "avl_cmp t = cmp" "sorted_wrt (\<lambda>x y. cmp (avl_val t x) (avl_val t y) < 0) xs" "avl_val t ` set xs \<subseteq> D"
    using h by (simp_all add: bavl_holds_def)
  let ?g = "\<lambda>x. cmp v (avl_val t x)"
  have g: "x \<in> set_tree T \<Longrightarrow> BAVL_compare_values t v (avl_val t x) = Some (?g x)" for x
    using compare_values [OF hd(1) v] hd(3) T(3) by auto
  have c: "cut ?g (inorder T)" unfolding T(2) by (rule cut_sorted [OF v hd(3,2)])
  have sub: "subtree (avl_node t) None (Some r) T" using T(1) r by (simp add: bavl_tree_def)
  obtain x where x: "descend (\<lambda>c. BAVL_compare_values t v (avl_val t c)) r t = Some (x, ?g x)" "x \<in> set_tree T"
    "?g x \<noteq> 0 \<longrightarrow> (\<exists>c u. T = plug ((?g x = 1, x, u) # c) Leaf \<and> splits ?g ((?g x = 1, x, u) # c))"
    using descend_correct [OF sub c g] by blast
  show ?thesis
  proof (cases "?g x = 0")
    case True
    have "find_key cmp (avl_val t) v xs = Some x" using cut_find [OF c] x(2) True T(3) unfolding T(2) by simp
    moreover obtain ys zs where "xs = ys @ x # zs" using x(2) T(3) by (metis split_list)
    then have "beside (Some x) ?g xs" using True by (auto simp: beside_def)
    ultimately show ?thesis using x(1,2) True T(3) by auto
  next
    case False
    then obtain c' u where c': "T = plug ((?g x = 1, x, u) # c') Leaf" "splits ?g ((?g x = 1, x, u) # c')"
      using x(3) by blast
    have gx: "?g x \<in> {1, -1}" using cut_range [OF c] x(2) False by auto
    have "beside (Some x) ?g xs" using splits_beside [OF c'(2) gx] c'(1) T(2) by simp
    moreover have "find_key cmp (avl_val t) v xs = None"
      unfolding find_None_iff T(2) [symmetric] c'(1) inorder_plug using c'(2)
      by (cases "?g x = 1") (auto simp: splits_def)
    ultimately show ?thesis using x(1,2) False T(3) by auto
  qed
qed

lemma tree_lookup_exact:
  assumes "bavl_holds D cmp t xs" "v \<in> D"
  shows "BAVL_LookupExact v t = Some (find_key cmp (avl_val t) v xs)"
proof (cases "avl_root t")
  case None
  then have "xs = []" using assms(1) by (auto simp: bavl_holds_def bavl_tree_def subtree_None)
  then show ?thesis using None by (simp add: BAVL_LookupExact_def)
next
  case (Some r)
  then show ?thesis using descend_value [OF assms Some] by (auto simp: BAVL_LookupExact_def split: if_splits)
qed

lemma tree_lookup:
  assumes "bavl_holds D cmp t xs" "v \<in> D"
  shows "\<exists>q. BAVL_Lookup v t = Some q \<and> beside q (\<lambda>x. cmp v (avl_val t x)) xs
    \<and> (\<forall>x. find_key cmp (avl_val t) v xs = Some x \<longrightarrow> q = Some x)"
proof (cases "avl_root t")
  case None
  then have "xs = []" using assms(1) by (auto simp: bavl_holds_def bavl_tree_def subtree_None)
  then show ?thesis using None by (simp add: BAVL_Lookup_def beside_def)
next
  case (Some r)
  then show ?thesis using descend_value [OF assms Some] by (auto simp: BAVL_Lookup_def split: if_splits)
qed

lemma tree_height:
  assumes "bavl_holds D cmp t xs" "avl_root t = Some r"
  shows "parent_of t r = None \<and> (\<exists>h. BAVL_assert_recurser r t = Some (int h) \<and> 2 ^ h \<le> (Suc (length xs))\<^sup>2)"
proof -
  obtain T where T: "bavl_tree t T" "inorder T = xs" "set_tree T = set xs" by (rule holdsE [OF assms(1)])
  have hd: "avl_cmp t = cmp" "sorted_wrt (\<lambda>x y. cmp (avl_val t x) (avl_val t y) < 0) xs" "avl_val t ` set xs \<subseteq> D"
    using assms(1) by (simp_all add: bavl_holds_def)
  have "BAVL_compare_nodes t x y = Some (-1) \<and> BAVL_compare_nodes t y x = Some 1"
    if "x \<in> set xs" "y \<in> set xs" "cmp (avl_val t x) (avl_val t y) < 0" for x y
  proof -
    have d: "avl_val t x \<in> D" "avl_val t y \<in> D" using that(1,2) hd(3) by auto
    show ?thesis using cmp_less [OF d] cmp_flip [OF d] that(3) compare_nodes [OF hd(1)] d by simp
  qed
  then have s: "sorted_wrt (\<lambda>x y. BAVL_compare_nodes t x y = Some (-1) \<and> BAVL_compare_nodes t y x = Some 1) xs"
    by (rule sorted_wrt_mono_rel [OF _ hd(2)])
  have "BAVL_assert_recurser r t = Some (int (height T))"
    using T(1) s assms(2) unfolding bavl_tree_def T(2) [symmetric] by (intro assert_recurser_correct) auto
  moreover have "parent_of t r = None" using T(1) assms(2) by (cases T) (auto simp: bavl_tree_def)
  moreover have "2 ^ height T \<le> (Suc (length xs))\<^sup>2"
    using avl_height [of "balance_of t" T] T(1) unfolding T(2) [symmetric] by (simp add: bavl_tree_def)
  ultimately show ?thesis by blast
qed

lemma tree_verify: "bavl_holds D cmp t xs \<Longrightarrow> BAVL_Verify t"
  using tree_height [of t xs] by (cases "avl_root t") (auto simp: BAVL_Verify_def)

text \<open>Every comparator of this kind makes the tree an index.\<close>

sublocale index: ordered_index D cmp "bavl_holds D cmp" avl_val BAVL_Insert BAVL_Remove BAVL_LookupExact
proof unfold_locales
  fix t :: "('p, 'v) bavl" and xs n x v
  assume h: "bavl_holds D cmp t xs"
  then show "sorted_wrt (\<lambda>x y. cmp (avl_val t x) (avl_val t y) < 0) xs" "avl_val t ` set xs \<subseteq> D"
    by (simp_all add: bavl_holds_def)
  show "v \<in> D \<Longrightarrow> BAVL_LookupExact v t = Some (find_key cmp (avl_val t) v xs)"
    by (rule tree_lookup_exact [OF h])
  show "n \<in> set xs \<Longrightarrow> \<exists>t'. BAVL_Remove n t = Some t' \<and> avl_val t' = avl_val t \<and> bavl_holds D cmp t' (remove1 n xs)"
    using tree_remove [OF h] by blast
  assume n: "n \<notin> set xs" "avl_val t n \<in> D"
  show "find_key cmp (avl_val t) (avl_val t n) xs = Some x \<Longrightarrow> BAVL_Insert n t = Some (False, Some x, t)"
    by (rule tree_insert_present [OF h n])
  show "find_key cmp (avl_val t) (avl_val t n) xs = None \<Longrightarrow>
      \<exists>ref t'. BAVL_Insert n t = Some (True, ref, t') \<and> avl_val t' = avl_val t
        \<and> bavl_holds D cmp t' (sorted_ins (\<lambda>x. cmp (avl_val t n) (avl_val t x)) n xs)"
    using tree_insert_absent [OF h n] by blast
qed

end

section \<open>Properties of the tree\<close>

lemma get_first_last:
  assumes "bavl_tree t T"
  shows "BAVL_GetFirst t = Some (first_opt (inorder T))" "BAVL_GetLast t = Some (first_opt (rev (inorder T)))"
proof -
  have "BAVL_GetFirst t = Some (first_opt (inorder T)) \<and> BAVL_GetLast t = Some (first_opt (rev (inorder T)))"
  proof (cases "avl_root t")
    case None
    then show ?thesis using assms by (auto simp: BAVL_GetFirst_def BAVL_GetLast_def bavl_tree_def subtree_None)
  next
    case (Some r)
    have sub: "subtree (avl_node t) None (Some r) T" using assms Some by (simp add: bavl_tree_def)
    show ?thesis
      using walk_down_end [OF sub, of False] walk_down_end [OF sub, of True] Some
      by (auto simp: BAVL_GetFirst_def BAVL_GetLast_def)
  qed
  then show "BAVL_GetFirst t = Some (first_opt (inorder T))" "BAVL_GetLast t = Some (first_opt (rev (inorder T)))"
    by simp_all
qed

text \<open>
  A client that visits the nodes from \<open>q\<close> on with \<^verbatim>\<open>BAVL_GetNext\<close>, and stops at \<^verbatim>\<open>NULL\<close>; more than \<open>k\<close> nodes give
  \<open>None\<close>.
\<close>

fun collect :: "nat \<Rightarrow> 'p option \<Rightarrow> ('p, 'v) bavl \<Rightarrow> 'p list option" where
  "collect k None t = Some []"
| "collect 0 (Some n) t = None"
| "collect (Suc k) (Some n) t = do { q \<leftarrow> BAVL_GetNext n t; ns \<leftarrow> collect k q t; Some (n # ns) }"

lemma collect_from:
  assumes "bavl_tree t T"
  shows "inorder T = xs @ ys \<Longrightarrow> collect (length ys) (first_opt ys) t = Some ys"
proof (induction ys arbitrary: xs)
  case (Cons y ys)
  have "BAVL_GetNext y t = Some (first_opt ys)"
    using neighbour_correct [OF assms Cons.prems, of True] by (simp add: BAVL_GetNext_def)
  moreover have "collect (length ys) (first_opt ys) t = Some ys"
    using Cons.IH [of "xs @ [y]"] Cons.prems by simp
  ultimately show ?case by simp
qed simp

text \<open>
  Everything a program does with a tree: it initialises it, inserts nodes that are not in it, removes nodes
  that are, and owns the memory of the nodes that are not in the tree and of their values.
\<close>

inductive bavl_run :: "'v set \<Rightarrow> ('v \<Rightarrow> 'v \<Rightarrow> int) \<Rightarrow> ('p, 'v) bavl \<Rightarrow> 'p set \<Rightarrow> bool" for D cmp where
  run_init: "bavl_run D cmp (BAVL_Init cmp val nodes) {}"
| run_insert: "bavl_run D cmp t A \<Longrightarrow> n \<notin> A \<Longrightarrow> avl_val t n \<in> D \<Longrightarrow>
    BAVL_Insert n t = Some (True, ref, t') \<Longrightarrow> bavl_run D cmp t' (insert n A)"
| run_present: "bavl_run D cmp t A \<Longrightarrow> n \<notin> A \<Longrightarrow> avl_val t n \<in> D \<Longrightarrow>
    BAVL_Insert n t = Some (False, ref, t') \<Longrightarrow> bavl_run D cmp t' A"
| run_remove: "bavl_run D cmp t A \<Longrightarrow> n \<in> A \<Longrightarrow> BAVL_Remove n t = Some t' \<Longrightarrow> bavl_run D cmp t' (A - {n})"
| run_outside: "bavl_run D cmp t A \<Longrightarrow> \<forall>x\<in>A. nodes x = avl_node t x \<and> val x = avl_val t x \<Longrightarrow>
    bavl_run D cmp (t\<lparr>avl_node := nodes, avl_val := val\<rparr>) A"

lemma bavl_tree_outside:
  assumes "bavl_tree t T" "\<And>x. x \<in> set_tree T \<Longrightarrow> nodes x = avl_node t x"
  shows "bavl_tree (t\<lparr>avl_node := nodes, avl_val := val\<rparr>) T"
proof -
  have "same_links (avl_node t) nodes (set_tree T)" using assms(2) by (auto intro!: same_linksI)
  then have "subtree nodes None (avl_root t) T"
    using assms(1) subtree_frame unfolding bavl_tree_def by blast
  moreover have "avl (\<lambda>x. bn_balance (nodes x)) T \<longleftrightarrow> avl (balance_of t) T"
    using assms(2) by (intro avl_cong) simp
  ultimately show ?thesis using assms(1) by (simp add: bavl_tree_def)
qed

lemma init_holds: "bavl_holds D cmp (BAVL_Init cmp val nodes) []"
proof -
  have "bavl_tree (BAVL_Init cmp val nodes) Leaf" by (simp add: bavl_tree_def BAVL_Init_def)
  then show ?thesis by (auto simp: bavl_holds_def BAVL_Init_def intro!: exI [of _ Leaf])
qed

lemma run_holds:
  assumes o: "tree_order D cmp" and "bavl_run D cmp t A"
  shows "\<exists>xs. bavl_holds D cmp t xs \<and> set xs = A"
  using assms(2)
proof induction
  case (run_init val nodes)
  then show ?case using init_holds by fastforce
next
  case (run_insert t A n ref t')
  then obtain xs where xs: "bavl_holds D cmp t xs" "set xs = A" by blast
  have n: "n \<notin> set xs" using run_insert xs by simp
  have f: "find_key cmp (avl_val t) (avl_val t n) xs = None"
    using tree_order.tree_insert_present [OF o xs(1) n run_insert(3)] run_insert(4) by fastforce
  have s: "set (sorted_ins g n xs) = insert n A" for g unfolding xs(2) [symmetric] by (induction xs) auto
  show ?case using tree_order.tree_insert_absent [OF o xs(1) n run_insert(3) f] run_insert(4) s by auto
next
  case (run_present t A n ref t')
  then obtain xs where xs: "bavl_holds D cmp t xs" "set xs = A" by blast
  have n: "n \<notin> set xs" using run_present xs by simp
  show ?case
  proof (cases "find_key cmp (avl_val t) (avl_val t n) xs")
    case None
    then show ?thesis using tree_order.tree_insert_absent [OF o xs(1) n run_present(3)] run_present(4) by auto
  next
    case (Some x)
    then show ?thesis using tree_order.tree_insert_present [OF o xs(1) n run_present(3)] run_present(4) xs by auto
  qed
next
  case (run_remove t A n t')
  then obtain xs where xs: "bavl_holds D cmp t xs" "set xs = A" by blast
  have "distinct xs" using xs(1) by (auto simp: bavl_holds_def bavl_tree_def)
  then have "set (remove1 n xs) = A - {n}" using xs(2) by simp
  then show ?case using tree_order.tree_remove [OF o xs(1), of n] run_remove xs(2) by auto
next
  case (run_outside t A nodes val)
  then obtain xs T where xs: "bavl_holds D cmp t xs" "set xs = A" "bavl_tree t T" "inorder T = xs"
    by (auto simp: bavl_holds_def)
  have "set_tree T = A" using xs(2,4) by (metis set_inorder)
  then have "bavl_tree (t\<lparr>avl_node := nodes, avl_val := val\<rparr>) T"
    using run_outside(2) by (intro bavl_tree_outside [OF xs(3)]) simp
  moreover have "sorted_wrt (\<lambda>x y. cmp (val x) (val y) < 0) xs"
    by (rule sorted_wrt_mono_rel [of xs "\<lambda>x y. cmp (avl_val t x) (avl_val t y) < 0"])
      (use xs(1,2) run_outside(2) in \<open>simp_all add: bavl_holds_def\<close>)
  moreover have "val ` set xs \<subseteq> D" using xs(1,2) run_outside(2) by (auto simp: bavl_holds_def)
  ultimately show ?case using xs by (auto simp: bavl_holds_def intro!: exI [of _ xs])
qed

text \<open>
  C11: \<^verbatim>\<open>BAVL_Insert\<close> refines insertion into a sorted sequence. In a tree that holds the nodes \<open>xs\<close> in order, with a
  comparator that orders the keys, inserting a node that is not in the tree always returns. If a node of the
  tree has an equal key, the tree is unchanged and that node is reported. Otherwise the tree then is a
  balanced search tree that holds exactly the sequence with the new node at its place, \<^verbatim>\<open>*ref\<close> is the next smaller
  or the next greater node, or \<^verbatim>\<open>NULL\<close> for an empty tree, and no memory outside the tree's nodes is written.
\<close>

theorem bavl_insert_refines:
  assumes "tree_order D cmp" "bavl_holds D cmp t xs" "n \<notin> set xs" "avl_val t n \<in> D"
  shows "case find_key cmp (avl_val t) (avl_val t n) xs of
      Some x \<Rightarrow> BAVL_Insert n t = Some (False, Some x, t)
    | None \<Rightarrow> \<exists>ref t'. BAVL_Insert n t = Some (True, ref, t')
        \<and> bavl_holds D cmp t' (sorted_ins (\<lambda>x. cmp (avl_val t n) (avl_val t x)) n xs) \<and> avl_val t' = avl_val t
        \<and> beside ref (\<lambda>x. cmp (avl_val t n) (avl_val t x)) xs
        \<and> (\<forall>x. x \<notin> insert n (set xs) \<longrightarrow> avl_node t' x = avl_node t x)"
  using tree_order.tree_insert_present [OF assms] tree_order.tree_insert_absent [OF assms]
  by (fastforce split: option.split)

text \<open>
  C31: \<^verbatim>\<open>BAVL_Remove\<close> refines removal from the sorted sequence: removing any node of the tree returns, the result is
  a balanced search tree that holds the other nodes in their order, and no memory outside the tree's nodes is
  written.
\<close>

theorem bavl_remove_refines:
  assumes "tree_order D cmp" "bavl_holds D cmp t xs" "n \<in> set xs"
  shows "\<exists>t'. BAVL_Remove n t = Some t' \<and> bavl_holds D cmp t' (remove1 n xs) \<and> avl_val t' = avl_val t
    \<and> (\<forall>x. x \<notin> set xs \<longrightarrow> avl_node t' x = avl_node t x)"
  using tree_order.tree_remove [OF assms] by blast

text \<open>
  Lookups return, and return what \<^verbatim>\<open>BAVL.h\<close> promises: \<^verbatim>\<open>BAVL_LookupExact\<close> the node with an equal key or \<^verbatim>\<open>NULL\<close>;
  \<^verbatim>\<open>BAVL_Lookup\<close> the node with an equal key if there is one, else the greatest smaller or the smallest greater
  node, and \<^verbatim>\<open>NULL\<close> only for an empty tree.
\<close>

theorem bavl_lookup_nearest:
  assumes "tree_order D cmp" "bavl_holds D cmp t xs" "v \<in> D"
  shows "BAVL_LookupExact v t = Some (find_key cmp (avl_val t) v xs)
    \<and> (\<exists>q. BAVL_Lookup v t = Some q \<and> beside q (\<lambda>x. cmp v (avl_val t x)) xs
         \<and> (\<forall>x. find_key cmp (avl_val t) v xs = Some x \<longrightarrow> q = Some x))"
  using tree_order.tree_lookup_exact [OF assms] tree_order.tree_lookup [OF assms] by blast

text \<open>
  C32: However a program uses a tree (insertions of nodes not in it, removals of nodes in it, in any order, and
  any changes to the memory of nodes outside), the tree stays well formed: the code's own self-check
  \<^verbatim>\<open>BAVL_Verify\<close> succeeds, the height it computes is at most logarithmic in the number of nodes, and a walk with
  \<^verbatim>\<open>BAVL_GetFirst\<close> and \<^verbatim>\<open>BAVL_GetNext\<close> visits every node in the tree exactly once, in the order of the keys.
\<close>

theorem bavl_run_well_formed:
  assumes "tree_order D cmp" "bavl_run D cmp t A"
  shows "BAVL_Verify t \<and> finite A
    \<and> (\<forall>r. avl_root t = Some r \<longrightarrow> (\<exists>h. BAVL_assert_recurser r t = Some (int h) \<and> 2 ^ h \<le> (Suc (card A))\<^sup>2))
    \<and> (\<exists>q xs. BAVL_GetFirst t = Some q \<and> collect (card A) q t = Some xs \<and> set xs = A \<and> distinct xs
         \<and> sorted_wrt (\<lambda>x y. cmp (avl_val t x) (avl_val t y) = -1) xs)"
proof -
  obtain xs T where xs: "bavl_holds D cmp t xs" "set xs = A" "bavl_tree t T" "inorder T = xs"
    using run_holds [OF assms] by (auto simp: bavl_holds_def)
  have d: "distinct xs" "length xs = card A" "size T = card A"
    using xs distinct_card [of xs] by (auto simp: bavl_tree_def length_inorder [symmetric] simp del: length_inorder)
  have v: "BAVL_Verify t" by (rule tree_order.tree_verify [OF assms(1) xs(1)])
  have "\<exists>h. BAVL_assert_recurser r t = Some (int h) \<and> 2 ^ h \<le> (Suc (card A))\<^sup>2" if "avl_root t = Some r" for r
    using tree_order.tree_height [OF assms(1) xs(1) that] d(2) by simp
  moreover have "BAVL_GetFirst t = Some (first_opt xs)" using get_first_last(1) [OF xs(3)] xs(4) by simp
  moreover have "collect (card A) (first_opt xs) t = Some xs"
    using collect_from [OF xs(3), of "[]" xs] xs(4) d(2) by simp
  moreover have "sorted_wrt (\<lambda>x y. cmp (avl_val t x) (avl_val t y) = -1) xs"
  proof (rule sorted_wrt_mono_rel)
    show "sorted_wrt (\<lambda>x y. cmp (avl_val t x) (avl_val t y) < 0) xs" using xs(1) by (simp add: bavl_holds_def)
    fix x y assume "x \<in> set xs" "y \<in> set xs" and lt: "cmp (avl_val t x) (avl_val t y) < 0"
    then have "avl_val t x \<in> D" "avl_val t y \<in> D" using xs(1) by (auto simp: bavl_holds_def)
    then show "cmp (avl_val t x) (avl_val t y) = -1" using lt tree_order.cmp_less [OF assms(1)] by blast
  qed
  moreover have "finite A" unfolding xs(2) [symmetric] by simp
  ultimately show ?thesis using v xs(2) d(1) by blast
qed

text \<open>
  C33: Every operation returns on every tree a program can build, without dereferencing \<^verbatim>\<open>NULL\<close> and without a failing
  assertion: the loops of the searches and walks and the recursion of \<^verbatim>\<open>_BAVL_rebalance\<close> end.
\<close>

theorem bavl_operations_return:
  assumes "tree_order D cmp" "bavl_run D cmp t A"
  shows "(\<forall>n. n \<notin> A \<and> avl_val t n \<in> D \<longrightarrow> BAVL_Insert n t \<noteq> None) \<and> (\<forall>n\<in>A. BAVL_Remove n t \<noteq> None)
    \<and> (\<forall>v\<in>D. BAVL_Lookup v t \<noteq> None \<and> BAVL_LookupExact v t \<noteq> None)
    \<and> BAVL_GetFirst t \<noteq> None \<and> BAVL_GetLast t \<noteq> None
    \<and> (\<forall>n\<in>A. BAVL_GetNext n t \<noteq> None \<and> BAVL_GetPrev n t \<noteq> None)"
proof (intro conjI allI ballI impI)
  obtain xs T where xs: "bavl_holds D cmp t xs" "set xs = A" "bavl_tree t T" "inorder T = xs"
    using run_holds [OF assms] by (auto simp: bavl_holds_def)
  note L = tree_order.tree_lookup_exact [OF assms(1) xs(1)] tree_order.tree_lookup [OF assms(1) xs(1)]
  show "BAVL_GetFirst t \<noteq> None" "BAVL_GetLast t \<noteq> None" using get_first_last [OF xs(3)] by simp_all
  fix v assume "v \<in> D" then show "BAVL_Lookup v t \<noteq> None" "BAVL_LookupExact v t \<noteq> None" using L(1) L(2) [of v] by auto
next
  obtain xs T where xs: "bavl_holds D cmp t xs" "set xs = A" "bavl_tree t T" "inorder T = xs"
    using run_holds [OF assms] by (auto simp: bavl_holds_def)
  fix n assume "n \<in> A"
  then show "BAVL_Remove n t \<noteq> None" using tree_order.tree_remove [OF assms(1) xs(1)] xs(2) by auto
  obtain ys zs where "xs = ys @ n # zs" using \<open>n \<in> A\<close> xs(2) by (metis split_list)
  then show "BAVL_GetNext n t \<noteq> None" "BAVL_GetPrev n t \<noteq> None"
    using neighbour_correct [OF xs(3)] xs(4) by (simp_all add: BAVL_GetNext_def BAVL_GetPrev_def)
next
  obtain xs where xs: "bavl_holds D cmp t xs" "set xs = A" using run_holds [OF assms] by blast
  fix n assume n: "n \<notin> A \<and> avl_val t n \<in> D"
  then show "BAVL_Insert n t \<noteq> None"
    using tree_order.tree_insert_present [OF assms(1) xs(1), of n] tree_order.tree_insert_absent [OF assms(1) xs(1), of n] xs(2)
    by (cases "find_key cmp (avl_val t) (avl_val t n) xs") auto
qed

section \<open>Concrete trees\<close>

text \<open>Memory of nodes before anything is written to it.\<close>

definition blank_nodes :: "'p \<Rightarrow> 'p bavl_node" where
  "blank_nodes = (\<lambda>_. \<lparr>bn_parent = None, bn_link = (\<lambda>_. None), bn_balance = 0\<rparr>)"

interpretation linorder_tree: tree_order UNIV "B_COMPARE :: 'k::linorder \<Rightarrow> 'k \<Rightarrow> int"
  by unfold_locales (simp add: B_COMPARE_def)

text \<open>A tree of the nodes 1 and 2, with node 1 on top; inserting node 3 makes a rotation necessary.\<close>

definition two_nodes :: "(nat, nat) bavl" where
  "two_nodes = \<lparr>avl_cmp = B_COMPARE, avl_val = (\<lambda>n. n), avl_root = Some 1,
     avl_node = (\<lambda>n. if n = 1 then \<lparr>bn_parent = None, bn_link = (\<lambda>s. if s then Some 2 else None), bn_balance = 1\<rparr>
                     else \<lparr>bn_parent = Some 1, bn_link = (\<lambda>_. None), bn_balance = 0\<rparr>)\<rparr>"

lemma two_nodes_holds: "bavl_holds UNIV B_COMPARE two_nodes [1, 2]"
proof -
  have "bavl_tree two_nodes (Node Leaf 1 (Node Leaf 2 Leaf))"
    by (simp add: bavl_tree_def two_nodes_def)
  then show ?thesis
    by (auto simp: bavl_holds_def two_nodes_def B_COMPARE_def intro!: exI [of _ "Node Leaf 1 (Node Leaf 2 Leaf)"])
qed

lemma two_nodes_val [simp]: "avl_val two_nodes n = n"
  by (simp add: two_nodes_def)

theorem bavl_insert_refines_witness:
  "\<exists>ref t'. BAVL_Insert 3 two_nodes = Some (True, ref, t') \<and> bavl_holds UNIV B_COMPARE t' [1, 2, 3]"
  using bavl_insert_refines [OF linorder_tree.tree_order_axioms two_nodes_holds, of 3]
  by (auto simp: B_COMPARE_def)

theorem bavl_remove_refines_witness:
  "\<exists>t'. BAVL_Remove 1 two_nodes = Some t' \<and> bavl_holds UNIV B_COMPARE t' [2]"
  using bavl_remove_refines [OF linorder_tree.tree_order_axioms two_nodes_holds, of 1] by auto

theorem bavl_lookup_nearest_witness:
  "BAVL_LookupExact 2 two_nodes = Some (Some 2) \<and> BAVL_LookupExact 7 two_nodes = Some None
   \<and> BAVL_Lookup 2 two_nodes = Some (Some 2)"
  using bavl_lookup_nearest [OF linorder_tree.tree_order_axioms two_nodes_holds, of 2]
    bavl_lookup_nearest [OF linorder_tree.tree_order_axioms two_nodes_holds, of 7]
  by (auto simp: B_COMPARE_def)

lemma one_node_run: "bavl_run UNIV B_COMPARE (leaf_node None 5 (BAVL_Init B_COMPARE (\<lambda>n. n) nodes\<lparr>avl_root := Some 5\<rparr>)) {5::nat}"
  by (rule bavl_run.run_insert [OF bavl_run.run_init]) (simp_all add: BAVL_Insert_def BAVL_Init_def)

theorem bavl_run_well_formed_witness:
  "BAVL_Verify (leaf_node None 5 (BAVL_Init B_COMPARE (\<lambda>n. n) blank_nodes\<lparr>avl_root := Some (5::nat)\<rparr>))"
  using bavl_run_well_formed [OF linorder_tree.tree_order_axioms one_node_run] by blast

theorem bavl_operations_return_witness:
  "BAVL_Remove 5 (leaf_node None 5 (BAVL_Init B_COMPARE (\<lambda>n. n) blank_nodes\<lparr>avl_root := Some (5::nat)\<rparr>)) \<noteq> None"
  using bavl_operations_return [OF linorder_tree.tree_order_axioms one_node_run] by blast

text \<open>
  The check of the search order in \<^verbatim>\<open>_BAVL_assert_recurser\<close> compares a node with its two children only. It accepts
  this tree of the keys 5, 3, 9 (below 3) and 8, which is not a search tree: the key 9 is left of 5, and a lookup
  does not find it.
\<close>

definition misplaced :: "(nat, nat) bavl" where
  "misplaced = \<lparr>avl_cmp = B_COMPARE, avl_val = (\<lambda>n. n), avl_root = Some 5,
     avl_node = (\<lambda>n. if n = 5 then \<lparr>bn_parent = None, bn_link = (\<lambda>s. if s then Some 8 else Some 3), bn_balance = -1\<rparr>
       else if n = 3 then \<lparr>bn_parent = Some 5, bn_link = (\<lambda>s. if s then Some 9 else None), bn_balance = 1\<rparr>
       else if n = 9 then \<lparr>bn_parent = Some 3, bn_link = (\<lambda>_. None), bn_balance = 0\<rparr>
       else \<lparr>bn_parent = Some 5, bn_link = (\<lambda>_. None), bn_balance = 0\<rparr>)\<rparr>"

lemma verify_accepts_misplaced:
  "BAVL_Verify misplaced" "BAVL_GetNext 3 misplaced = Some (Some 9)" "BAVL_LookupExact 9 misplaced = Some None"
  by code_simp+

end
