(* ===== verification/Tree_Users.thy ===== *)
theory Tree_Users
  imports BAVL_Index UdpGw_Client Tun_Device
begin

text \<open>
  The search trees of the program on their AVL trees. The comparators of \<^verbatim>\<open>UdpGwClient.c\<close> and \<^verbatim>\<open>tun2socks.c\<close> are
  interpreted as a \<open>tree_order\<close>, so that the trees are an \<open>ordered_index\<close>; the maps of \<open>UdpGw_Client\<close> and the sorted
  list of \<open>Tun_Device\<close> are then what these trees hold.
\<close>

section \<open>The comparators\<close>

interpretation port_tree: tree_order UNIV port_comparator
  by unfold_locales (simp add: port_comparator_def)

interpretation conid_tree: tree_order UNIV uint16_comparator
proof -
  have "uint16_comparator = B_COMPARE" by (simp add: fun_eq_iff uint16_comparator_def)
  then show "tree_order UNIV uint16_comparator" using linorder_tree.tree_order_axioms by simp
qed

lemma addr_order_range: "BAddr_CompareOrder a b \<in> {-1, 0, 1}"
  by (cases a; cases b) (auto simp: Let_def B_COMPARE_def)

definition conaddr_wf :: "UdpGwClient_conaddr \<Rightarrow> bool" where
  "conaddr_wf a \<longleftrightarrow> addr_wf (ca_local_addr a) \<and> addr_wf (ca_remote_addr a)"

lemma conaddr_lex:
  "conaddr_comparator x y = cmp_lex BAddr_CompareOrder BAddr_CompareOrder
     (ca_remote_addr x, ca_local_addr x) (ca_remote_addr y, ca_local_addr y)"
  by (simp add: conaddr_comparator_def cmp_lex_def Let_def)

interpretation conaddr_tree: tree_order "{a. conaddr_wf a}" conaddr_comparator
proof -
  note lex = comparator_lex [OF addr_cmp.comparator_axioms addr_cmp.comparator_axioms]
  show "tree_order {a. conaddr_wf a} conaddr_comparator"
  proof unfold_locales
    fix x y z assume "x \<in> {a. conaddr_wf a}" "y \<in> {a. conaddr_wf a}"
    then have w: "(ca_remote_addr x, ca_local_addr x) \<in> {a. addr_wf a} \<times> {a. addr_wf a}"
      "(ca_remote_addr y, ca_local_addr y) \<in> {a. addr_wf a} \<times> {a. addr_wf a}"
      by (auto simp: conaddr_wf_def)
    show "conaddr_comparator x y = 0 \<longleftrightarrow> x = y"
      using comparator.cmp_eq_0 [OF lex w] by (cases x; cases y) (auto simp: conaddr_lex)
    show "conaddr_comparator x y < 0 \<longleftrightarrow> 0 < conaddr_comparator y x"
      using comparator.cmp_swap [OF lex w] by (simp add: conaddr_lex)
    show "conaddr_comparator x y \<in> {-1, 0, 1}"
      using addr_order_range [of "ca_remote_addr x" "ca_remote_addr y"]
        addr_order_range [of "ca_local_addr x" "ca_local_addr y"]
      by (auto simp: conaddr_comparator_def Let_def)
    assume "z \<in> {a. conaddr_wf a}"
    then have "(ca_remote_addr z, ca_local_addr z) \<in> {a. addr_wf a} \<times> {a. addr_wf a}" by (auto simp: conaddr_wf_def)
    from comparator.cmp_trans [OF lex w this]
    show "conaddr_comparator x y < 0 \<Longrightarrow> conaddr_comparator y z < 0 \<Longrightarrow> conaddr_comparator x z < 0"
      by (simp add: conaddr_lex)
  qed
qed

section \<open>A tree that is a map\<close>

text \<open>The tree \<open>t\<close> is the map \<open>m\<close> from the keys of its nodes to the nodes.\<close>

definition tree_is_map :: "'v set \<Rightarrow> ('v \<Rightarrow> 'v \<Rightarrow> int) \<Rightarrow> ('p, 'v) bavl \<Rightarrow> ('v \<Rightarrow> 'p option) \<Rightarrow> bool" where
  "tree_is_map D cmp t m \<longleftrightarrow>
     (\<exists>xs. bavl_holds D cmp t xs \<and> (\<forall>v\<in>D. m v = find_key cmp (avl_val t) v xs))"

lemma init_is_map: "tree_is_map D cmp (BAVL_Init cmp val nodes) (\<lambda>_. None)"
  using init_holds by (fastforce simp: tree_is_map_def)

context tree_order
begin

lemma map_nodes:
  assumes "bavl_holds D cmp t xs" "\<forall>v\<in>D. m v = find_key cmp (avl_val t) v xs" "v \<in> D"
  shows "m v = Some n \<longleftrightarrow> n \<in> set xs \<and> avl_val t n = v"
  using index.index_map_Some [OF assms(1,3)] assms(2,3) by (simp add: index.index_map_def)

lemma map_lookup: "tree_is_map D cmp t m \<Longrightarrow> v \<in> D \<Longrightarrow> BAVL_LookupExact v t = Some (m v)"
  using tree_lookup_exact by (auto simp: tree_is_map_def)

lemma map_remove:
  assumes m: "tree_is_map D cmp t m" and n: "v \<in> D" "m v = Some n"
  shows "\<exists>t'. BAVL_Remove n t = Some t' \<and> avl_val t' = avl_val t \<and> tree_is_map D cmp t' (m(v := None))"
proof -
  obtain xs where xs: "bavl_holds D cmp t xs" "\<forall>v\<in>D. m v = find_key cmp (avl_val t) v xs"
    using m by (auto simp: tree_is_map_def)
  have nx: "n \<in> set xs" "avl_val t n = v" using map_nodes [OF xs n(1)] n(2) by auto
  obtain t' xs' where "BAVL_Remove n t = Some t'" "bavl_holds D cmp t' xs'" "avl_val t' = avl_val t"
    "\<forall>w\<in>D. find_key cmp (avl_val t') w xs' = (if w = v then None else find_key cmp (avl_val t) w xs)"
    using index.rm_map [OF xs(1) nx(1)] nx(2) by (auto simp: index.index_map_def fun_upd_def)
  then show ?thesis using xs(2) by (auto simp: tree_is_map_def)
qed

lemma map_insert:
  assumes m: "tree_is_map D cmp t m" and n: "\<forall>v\<in>D. m v \<noteq> Some n" "avl_val t n = v" "v \<in> D" "m v = None"
  shows "\<exists>ref t'. BAVL_Insert n t = Some (True, ref, t') \<and> avl_val t' = avl_val t \<and> tree_is_map D cmp t' (m(v \<mapsto> n))"
proof -
  obtain xs where xs: "bavl_holds D cmp t xs" "\<forall>v\<in>D. m v = find_key cmp (avl_val t) v xs"
    using m by (auto simp: tree_is_map_def)
  have nx: "n \<notin> set xs"
  proof
    assume "n \<in> set xs"
    moreover from this have "avl_val t n \<in> D" using xs(1) by (auto simp: bavl_holds_def)
    ultimately show False using map_nodes [OF xs, of "avl_val t n" n] n(1) by auto
  qed
  obtain ref t' xs' where "BAVL_Insert n t = Some (True, ref, t')" "bavl_holds D cmp t' xs'" "avl_val t' = avl_val t"
    "\<forall>w\<in>D. find_key cmp (avl_val t') w xs' = (if w = v then Some n else find_key cmp (avl_val t) w xs)"
    using index.ins_map [OF xs(1) nx] n(2-4) xs(2) by (auto simp: index.index_map_def fun_upd_def)
  then show ?thesis using xs(2) by (auto simp: tree_is_map_def)
qed

text \<open>The owner of a node that is not in the tree may change its key.\<close>

lemma map_rekey:
  assumes m: "tree_is_map D cmp t m" and n: "\<forall>v\<in>D. m v \<noteq> Some n"
  shows "tree_is_map D cmp (t\<lparr>avl_val := (avl_val t)(n := w)\<rparr>) m"
proof -
  obtain xs where xs: "bavl_holds D cmp t xs" "\<forall>v\<in>D. m v = find_key cmp (avl_val t) v xs"
    using m by (auto simp: tree_is_map_def)
  have "x \<in> set xs \<Longrightarrow> x \<noteq> n" for x
    using map_nodes [OF xs, of "avl_val t x" x] n xs(1) by (auto simp: bavl_holds_def)
  define val' where "val' = (avl_val t)(n := w)"
  have v: "x \<in> set xs \<Longrightarrow> val' x = avl_val t x" for x
    using \<open>\<And>x. x \<in> set xs \<Longrightarrow> x \<noteq> n\<close> by (auto simp: val'_def)
  obtain T where T: "bavl_tree t T" "inorder T = xs" using xs(1) by (auto simp: bavl_holds_def)
  have tr: "bavl_tree (t\<lparr>avl_val := val'\<rparr>) T"
    using bavl_tree_outside [OF T(1), of "avl_node t"] by simp
  have so: "sorted_wrt (\<lambda>x y. cmp (val' x) (val' y) < 0) xs"
    by (rule sorted_wrt_mono_rel [of xs "\<lambda>x y. cmp (avl_val t x) (avl_val t y) < 0"])
      (use v xs(1) in \<open>simp_all add: bavl_holds_def\<close>)
  have "val' ` set xs \<subseteq> D" using v xs(1) by (auto simp: bavl_holds_def)
  then have "bavl_holds D cmp (t\<lparr>avl_val := val'\<rparr>) xs"
    using tr so T(2) xs(1) by (auto simp: bavl_holds_def)
  moreover have "find_key cmp val' u xs = find_key cmp (avl_val t) u xs" for u
    using v by (intro find_cong) auto
  ultimately show ?thesis using xs(2) unfolding val'_def [symmetric] by (auto simp: tree_is_map_def)
qed

end

section \<open>The trees of the udpgw client\<close>

text \<open>
  The two trees of the client, with the keys in the connection objects, are the two maps of the model.
\<close>

definition client_trees ::
    "UdpGwClient \<Rightarrow> (nat, UdpGwClient_conaddr) bavl \<Rightarrow> (nat, u16) bavl \<Rightarrow> bool" where
  "client_trees o1 ta ti \<longleftrightarrow>
     tree_is_map {a. conaddr_wf a} conaddr_comparator ta (ug_by_conaddr o1)
     \<and> tree_is_map UNIV uint16_comparator ti (ug_by_conid o1)
     \<and> (\<forall>con c. ug_cons o1 con = Some c \<longrightarrow>
          conaddr_wf (cn_conaddr c) \<and> avl_val ta con = cn_conaddr c \<and> avl_val ti con = cn_conid c)"

text \<open>
  C34: The two search trees of \<^verbatim>\<open>UdpGwClient.c\<close> are the maps by which the model of the client represents them, and
  every \<^verbatim>\<open>ASSERT_EXECUTE\<close> around their insertions holds. In a consistent client, \<^verbatim>\<open>BAVL_LookupExact\<close> finds what
  the client's search functions return; \<^verbatim>\<open>connection_init\<close>, which writes the keys of a new object and inserts it into
  both trees, \<^verbatim>\<open>connection_free\<close>, which removes an object from both, and \<^verbatim>\<open>reuse_connection\<close>, which takes the oldest
  object out of the tree of addresses, changes its address and inserts it again, all return, insert
  successfully, and leave trees that again are the maps of the client.
\<close>

theorem udpgw_trees_refined:
  assumes inv: "ug_inv o1" and tr: "client_trees o1 ta ti" and a: "conaddr_wf a"
  shows "BAVL_LookupExact a ta = Some (find_connection_by_conaddr o1 a)
    \<and> BAVL_LookupExact conid ti = Some (find_connection_by_conid o1 conid)
    \<and> (\<forall>con o2 flags data. ug_cons o1 con = None \<and> find_connection_by_conaddr o1 a = None
         \<and> connection_init (Some con) True o1 a flags data = Some o2 \<and> ug_num o1 < ug_max_connections o1 \<longrightarrow>
         (\<exists>c ra ri ta' ti'. ug_cons o2 con = Some c
            \<and> BAVL_Insert con (ta\<lparr>avl_val := (avl_val ta)(con := a)\<rparr>) = Some (True, ra, ta')
            \<and> BAVL_Insert con (ti\<lparr>avl_val := (avl_val ti)(con := cn_conid c)\<rparr>) = Some (True, ri, ti')
            \<and> client_trees o2 ta' ti'))
    \<and> (\<forall>con c. ug_cons o1 con = Some c \<longrightarrow>
         (\<exists>ta' ti'. BAVL_Remove con ti = Some ti' \<and> BAVL_Remove con ta = Some ta'
            \<and> client_trees (connection_free con o1) ta' ti'))
    \<and> (ug_list o1 \<noteq> [] \<and> find_connection_by_conaddr o1 a = None \<longrightarrow>
         (\<exists>ta' r ta''. BAVL_Remove (hd (ug_list o1)) ta = Some ta'
            \<and> BAVL_Insert (hd (ug_list o1)) (ta'\<lparr>avl_val := (avl_val ta')(hd (ug_list o1) := a)\<rparr>) = Some (True, r, ta'')
            \<and> client_trees (fst (reuse_connection o1 a)) ta'' ti))"
proof -
  have ma: "tree_is_map {a. conaddr_wf a} conaddr_comparator ta (ug_by_conaddr o1)"
    and mi: "tree_is_map UNIV uint16_comparator ti (ug_by_conid o1)"
    and key: "ug_cons o1 con = Some c \<Longrightarrow>
      conaddr_wf (cn_conaddr c) \<and> avl_val ta con = cn_conaddr c \<and> avl_val ti con = cn_conid c" for con c
    using tr by (auto simp: client_trees_def)
  have look: "BAVL_LookupExact a ta = Some (find_connection_by_conaddr o1 a)
      \<and> BAVL_LookupExact conid ti = Some (find_connection_by_conid o1 conid)"
    using conaddr_tree.map_lookup [OF ma, of a] conid_tree.map_lookup [OF mi, of conid] a
    by (simp add: find_connection_by_conaddr_def find_connection_by_conid_def)
  have init: "\<exists>c ra ri ta' ti'. ug_cons o2 con = Some c
      \<and> BAVL_Insert con (ta\<lparr>avl_val := (avl_val ta)(con := a)\<rparr>) = Some (True, ra, ta')
      \<and> BAVL_Insert con (ti\<lparr>avl_val := (avl_val ti)(con := cn_conid c)\<rparr>) = Some (True, ri, ti')
      \<and> client_trees o2 ta' ti'"
    if new: "ug_cons o1 con = None" "find_connection_by_conaddr o1 a = None"
      and ci: "connection_init (Some con) True o1 a flags data = Some o2" and lt: "ug_num o1 < ug_max_connections o1"
    for con o2 flags data
  proof -
    obtain n where f: "find_unused_conid o1 = Some (o1\<lparr>ug_next_conid := n\<rparr>, word_of_int n)"
      and u: "ug_by_conid o1 (word_of_int n) = None"
      using find_unused_conid_returns [OF inv lt] by blast
    obtain conid' where o2: "ug_by_conid o1 conid' = None"
      "ug_cons o2 = (ug_cons o1)(con \<mapsto> \<lparr>cn_conaddr = a, cn_first_flags = flags,
         cn_first_data = data, cn_conid = conid', cn_first_pending = True\<rparr>)"
      "ug_by_conaddr o2 = (ug_by_conaddr o1)(a \<mapsto> con)" "ug_by_conid o2 = (ug_by_conid o1)(conid' \<mapsto> con)"
      using ci f u new(2) by (auto simp: connection_init_def bavl_insert_def find_connection_by_conaddr_def)
    have na: "\<forall>v\<in>{a. conaddr_wf a}. ug_by_conaddr o1 v \<noteq> Some con" "\<forall>v\<in>UNIV. ug_by_conid o1 v \<noteq> Some con"
      using ug_inv_found [OF inv] new(1) by fastforce+
    have fa: "ug_by_conaddr o1 a = None" using new(2) by (simp add: find_connection_by_conaddr_def)
    obtain ra ta' where ta': "BAVL_Insert con (ta\<lparr>avl_val := (avl_val ta)(con := a)\<rparr>) = Some (True, ra, ta')"
      "avl_val ta' = (avl_val ta)(con := a)"
      "tree_is_map {a. conaddr_wf a} conaddr_comparator ta' ((ug_by_conaddr o1)(a \<mapsto> con))"
      using conaddr_tree.map_insert [OF conaddr_tree.map_rekey [OF ma na(1)] na(1) _ _ fa] a by force
    obtain ri ti' where ti': "BAVL_Insert con (ti\<lparr>avl_val := (avl_val ti)(con := conid')\<rparr>) = Some (True, ri, ti')"
      "avl_val ti' = (avl_val ti)(con := conid')"
      "tree_is_map UNIV uint16_comparator ti' ((ug_by_conid o1)(conid' \<mapsto> con))"
      using conid_tree.map_insert [OF conid_tree.map_rekey [OF mi na(2)] na(2) _ _ o2(1)] by force
    have "client_trees o2 ta' ti'"
      using ta' ti' key a by (auto simp: client_trees_def o2)
    then show ?thesis using ta'(1) ti'(1) by (simp add: o2(2))
  qed
  have free: "\<exists>ta' ti'. BAVL_Remove con ti = Some ti' \<and> BAVL_Remove con ta = Some ta'
      \<and> client_trees (connection_free con o1) ta' ti'" if c: "ug_cons o1 con = Some c" for con c
  proof -
    note k = key [OF c]
    have m: "ug_by_conaddr o1 (cn_conaddr c) = Some con" "ug_by_conid o1 (cn_conid c) = Some con"
      using ug_inv_lookup [OF inv c] by simp_all
    obtain ta' where ta': "BAVL_Remove con ta = Some ta'" "avl_val ta' = avl_val ta"
      "tree_is_map {a. conaddr_wf a} conaddr_comparator ta' ((ug_by_conaddr o1)(cn_conaddr c := None))"
      using conaddr_tree.map_remove [OF ma _ m(1)] k by blast
    obtain ti' where ti': "BAVL_Remove con ti = Some ti'" "avl_val ti' = avl_val ti"
      "tree_is_map UNIV uint16_comparator ti' ((ug_by_conid o1)(cn_conid c := None))"
      using conid_tree.map_remove [OF mi _ m(2)] by blast
    have "client_trees (connection_free con o1) ta' ti'"
      using ta'(2,3) ti'(2,3) key c by (auto simp: client_trees_def connection_free_def)
    then show ?thesis using ta'(1) ti'(1) by blast
  qed
  have reuse: "\<exists>ta' r ta''. BAVL_Remove (hd (ug_list o1)) ta = Some ta'
      \<and> BAVL_Insert (hd (ug_list o1)) (ta'\<lparr>avl_val := (avl_val ta')(hd (ug_list o1) := a)\<rparr>) = Some (True, r, ta'')
      \<and> client_trees (fst (reuse_connection o1 a)) ta'' ti"
    if ne: "ug_list o1 \<noteq> []" and new: "find_connection_by_conaddr o1 a = None"
  proof -
    let ?con = "hd (ug_list o1)"
    have fa: "ug_by_conaddr o1 a = None" using new by (simp add: find_connection_by_conaddr_def)
    obtain c where c: "ug_cons o1 ?con = Some c" and o2: "fst (reuse_connection o1 a) =
        o1\<lparr>ug_by_conaddr := (ug_by_conaddr o1)(cn_conaddr c := None, a \<mapsto> ?con),
           ug_cons := (ug_cons o1)(?con \<mapsto> c\<lparr>cn_conaddr := a\<rparr>)\<rparr>"
      using reuse_connection_inv [OF inv ne fa] by auto
    note k = key [OF c]
    have m: "ug_by_conaddr o1 (cn_conaddr c) = Some ?con" using ug_inv_lookup [OF inv c] by simp
    let ?m = "(ug_by_conaddr o1)(cn_conaddr c := None)"
    obtain ta' where ta': "BAVL_Remove ?con ta = Some ta'" "avl_val ta' = avl_val ta"
      "tree_is_map {a. conaddr_wf a} conaddr_comparator ta' ?m"
      using conaddr_tree.map_remove [OF ma _ m] k by blast
    have na: "\<forall>v\<in>{a. conaddr_wf a}. ?m v \<noteq> Some ?con"
    proof
      fix v show "?m v \<noteq> Some ?con" using ug_inv_found(2) [OF inv, of v ?con] c by (cases "v = cn_conaddr c") auto
    qed
    have fm: "?m a = None" using fa by simp
    obtain r ta'' where ta'': "BAVL_Insert ?con (ta'\<lparr>avl_val := (avl_val ta')(?con := a)\<rparr>) = Some (True, r, ta'')"
      "avl_val ta'' = (avl_val ta')(?con := a)"
      "tree_is_map {a. conaddr_wf a} conaddr_comparator ta'' (?m(a \<mapsto> ?con))"
    proof -
      have "avl_val (ta'\<lparr>avl_val := (avl_val ta')(?con := a)\<rparr>) ?con = a" "a \<in> {a. conaddr_wf a}" using a by simp_all
      from conaddr_tree.map_insert [OF conaddr_tree.map_rekey [OF ta'(3) na] na this fm] that show ?thesis
        by (elim exE conjE) simp
    qed
    have "client_trees (fst (reuse_connection o1 a)) ta'' ti"
      using ta''(2,3) ta'(2) mi key a c unfolding o2 by (auto simp: client_trees_def)
    then show ?thesis using ta'(1) ta''(1) by blast
  qed
  show ?thesis using look init free reuse by blast
qed


text \<open>The client at its start: no connection, two empty trees.\<close>

theorem udpgw_trees_refined_witness:
  "\<exists>o1. UdpGwClient_Init 10000 1500 256 4 True = Some o1
    \<and> BAVL_LookupExact (7 :: u16) (BAVL_Init uint16_comparator (\<lambda>_. 0) blank_nodes) = Some (find_connection_by_conid o1 7)"
proof -
  obtain o1 where o1: "UdpGwClient_Init 10000 1500 256 4 True = Some o1"
    by (auto simp: UdpGwClient_Init_def Let_def)
  have inv: "ug_inv o1" by (rule ug_inv_Init [OF o1]) simp
  have "client_trees o1 (BAVL_Init conaddr_comparator (\<lambda>_. \<lparr>ca_local_addr = BAddr_None, ca_remote_addr = BAddr_None\<rparr>) blank_nodes)
      (BAVL_Init uint16_comparator (\<lambda>_. 0) blank_nodes)"
    using o1 by (auto simp: client_trees_def UdpGwClient_Init_def Let_def init_is_map)
  from udpgw_trees_refined [OF inv this, of "\<lparr>ca_local_addr = BAddr_None, ca_remote_addr = BAddr_None\<rparr>" 7] o1
  show ?thesis by (auto simp: conaddr_wf_def addr_wf_def)
qed

section \<open>The tree of forwarded DNS queries\<close>

text \<open>
  The sorted list by which the model of \<^verbatim>\<open>tun2socks.c\<close> represents the tree of forwarded DNS queries is what the AVL
  tree holds, in order. For a tree whose nodes \<open>p\<close>, in order, carry the entries of the list, \<^verbatim>\<open>BAVL_LookupExact\<close>
  finds the entry of a port that the list has, \<^verbatim>\<open>BAVL_Insert\<close> of a new port and \<^verbatim>\<open>BAVL_Remove\<close> give the tree of the list
  after \<open>tree_insert\<close> and \<open>tree_remove\<close>, and \<^verbatim>\<open>BAVL_GetLast\<close>, with which \<^verbatim>\<open>free_connections\<close> empties the tree, is the
  node of the last entry.
\<close>

theorem dns_tree_refined:
  assumes h: "bavl_holds UNIV port_comparator t xs" and tbl: "tbl = map (\<lambda>p. (avl_val t p, con p)) xs"
  shows "(\<exists>q. BAVL_LookupExact port t = Some q \<and> map_option con q = map_of tbl port)
    \<and> (\<forall>p. p \<notin> set xs \<and> map_of tbl (avl_val t p) = None \<longrightarrow>
         (\<exists>ref t' xs'. BAVL_Insert p t = Some (True, ref, t') \<and> bavl_holds UNIV port_comparator t' xs'
            \<and> map (\<lambda>p. (avl_val t' p, con p)) xs' = tree_insert (avl_val t p) (con p) tbl))
    \<and> (\<forall>p\<in>set xs. \<exists>t' xs'. BAVL_Remove p t = Some t' \<and> bavl_holds UNIV port_comparator t' xs'
            \<and> map (\<lambda>p. (avl_val t' p, con p)) xs' = tree_remove (avl_val t p) tbl)
    \<and> BAVL_GetLast t = Some (if xs = [] then None else Some (last xs))"
proof -
  have pc: "port_comparator a b = 0 \<longleftrightarrow> b = a" for a b by (auto simp: port_comparator_def)
  have fk: "map_of (map (\<lambda>p. (avl_val t p, con p)) ys) a = map_option con (find_key port_comparator (avl_val t) a ys)" for a ys
    by (induction ys) (auto simp: pc)
  have ins: "map (\<lambda>p. (avl_val t p, con p)) (sorted_ins (\<lambda>x. port_comparator (avl_val t n) (avl_val t x)) n ys)
      = tree_insert (avl_val t n) (con n) (map (\<lambda>p. (avl_val t p, con p)) ys)" for n ys
    by (induction ys) auto
  have inj: "inj_on (avl_val t) (set xs)"
    using port_tree.index.index_map_Some [OF h] by (auto simp: inj_on_def) (metis option.inject)
  have d: "distinct xs" by (rule port_tree.index.holds_distinct [OF h])
  have rem: "map (\<lambda>p. (avl_val t p, con p)) (remove1 n xs) = tree_remove (avl_val t n) tbl" if "n \<in> set xs" for n
  proof -
    have "remove1 n xs = filter (\<lambda>p. avl_val t p \<noteq> avl_val t n) xs"
      unfolding distinct_remove1_removeAll [OF d] removeAll_filter_not_eq
      using inj that by (intro filter_cong) (auto dest: inj_onD)
    then show ?thesis by (simp add: tree_remove_def tbl filter_map comp_def)
  qed
  obtain T where T: "bavl_tree t T" "inorder T = xs" using h by (auto simp: bavl_holds_def)
  have "BAVL_GetLast t = Some (if xs = [] then None else Some (last xs))"
    using get_first_last(2) [OF T(1)] T(2) by (cases xs rule: rev_cases) auto
  moreover have "\<exists>q. BAVL_LookupExact port t = Some q \<and> map_option con q = map_of tbl port"
    using port_tree.tree_lookup_exact [OF h, of port] fk tbl by auto
  moreover have "\<exists>ref t' xs'. BAVL_Insert p t = Some (True, ref, t') \<and> bavl_holds UNIV port_comparator t' xs'
      \<and> map (\<lambda>p. (avl_val t' p, con p)) xs' = tree_insert (avl_val t p) (con p) tbl"
    if p: "p \<notin> set xs" "map_of tbl (avl_val t p) = None" for p
  proof -
    have "find_key port_comparator (avl_val t) (avl_val t p) xs = None" using p(2) by (simp add: tbl fk)
    then obtain ref t' where t': "BAVL_Insert p t = Some (True, ref, t')" "avl_val t' = avl_val t"
      "bavl_holds UNIV port_comparator t' (sorted_ins (\<lambda>x. port_comparator (avl_val t p) (avl_val t x)) p xs)"
      using port_tree.tree_insert_absent [OF h p(1)] by auto
    then show ?thesis using ins [of p xs] by (auto simp: tbl)
  qed
  moreover have "\<exists>t' xs'. BAVL_Remove p t = Some t' \<and> bavl_holds UNIV port_comparator t' xs'
      \<and> map (\<lambda>p. (avl_val t' p, con p)) xs' = tree_remove (avl_val t p) tbl" if "p \<in> set xs" for p
    using port_tree.tree_remove [OF h that] rem [OF that] by auto
  ultimately show ?thesis by blast
qed

theorem dns_tree_refined_witness:
  "BAVL_GetLast (BAVL_Init port_comparator (\<lambda>_. 53) (blank_nodes :: nat \<Rightarrow> nat bavl_node)) = Some None"
  using dns_tree_refined [OF init_holds [of UNIV port_comparator "\<lambda>_. 53" "blank_nodes :: nat \<Rightarrow> nat bavl_node"] refl, where port = 53
    and con = "\<lambda>_. undefined"] by simp

end
