(* ===== verification/Ordered_Queue.thy ===== *)
theory Ordered_Queue
  imports BAVL_Index Fair_Queue
begin

text \<open>
  The AVL tree of \<^verbatim>\<open>structure/CAvl_impl.h\<close> as a priority queue. Without keys it has no lookup; its users insert,
  remove and take the first entry. The locale \<open>ordered_queue\<close> is the contract of these three operations, with what
  the reactor and the fair queue rely on proved inside it; every \<open>tree_order\<close> gives one. The tree does the same as the
  tree of \<^verbatim>\<open>structure/BAVL.h\<close> on every tree, and the tree of queued flows of the fair queue is what the sorted
  list of \<open>Fair_Queue\<close> says it is.
\<close>

section \<open>The contract\<close>

locale ordered_queue = comparator D cmp for D :: "'v set" and cmp +
  fixes holds :: "'t \<Rightarrow> 'p list \<Rightarrow> bool" and key :: "'t \<Rightarrow> 'p \<Rightarrow> 'v"
    and ins :: "'p \<Rightarrow> 't \<Rightarrow> (bool \<times> 'p option \<times> 't) option" and rm :: "'p \<Rightarrow> 't \<Rightarrow> 't option"
    and first :: "'t \<Rightarrow> 'p option option"
  assumes q_sorted: "holds t xs \<Longrightarrow> sorted_wrt (\<lambda>x y. cmp (key t x) (key t y) < 0) xs"
    and q_dom: "holds t xs \<Longrightarrow> key t ` set xs \<subseteq> D"
    and q_ins: "holds t xs \<Longrightarrow> n \<notin> set xs \<Longrightarrow> key t n \<in> D \<Longrightarrow> key t n \<notin> key t ` set xs \<Longrightarrow>
      \<exists>ref t'. ins n t = Some (True, ref, t') \<and> key t' = key t
        \<and> holds t' (sorted_ins (\<lambda>x. cmp (key t n) (key t x)) n xs)"
    and q_rm: "holds t xs \<Longrightarrow> n \<in> set xs \<Longrightarrow> \<exists>t'. rm n t = Some t' \<and> key t' = key t \<and> holds t' (remove1 n xs)"
    and q_first: "holds t xs \<Longrightarrow> first t = Some (first_opt xs)"
begin

lemma q_first_least:
  assumes "holds t xs" "first t = Some (Some n)"
  shows "n \<in> set xs" "x \<in> set xs \<Longrightarrow> x = n \<or> cmp (key t n) (key t x) < 0"
  using q_first [OF assms(1)] q_sorted [OF assms(1)] assms(2) by (cases xs; auto)+

text \<open>Taking the first entry out leaves the rest.\<close>

lemma q_pop:
  assumes "holds t (n # xs)"
  shows "first t = Some (Some n)" "\<exists>t'. rm n t = Some t' \<and> key t' = key t \<and> holds t' xs"
  using q_first [OF assms] q_rm [OF assms, of n] by simp_all

end

section \<open>The tree\<close>

lemma CAvl_verify_recurser_eq:
  "subtree (avl_node t) par (Some r) T \<Longrightarrow> CAvl_verify_recurser r t = BAVL_assert_recurser r t"
proof (induction T arbitrary: par r)
  case (Node L n R)
  have r: "r = n" using Node.prems by simp
  have ih: "CAvl_verify_recurser x t = BAVL_assert_recurser x t" if "link_of t n s = Some x" for s x
    using Node that by (cases s) auto
  then show ?case unfolding r
    by (subst CAvl_verify_recurser.simps, subst BAVL_assert_recurser.simps) (cases "link_of t n False"; cases "link_of t n True"; simp add: ih)
qed simp

lemma CAvl_Verify_eq: "bavl_holds D cmp t xs \<Longrightarrow> CAvl_Verify t = BAVL_Verify t"
proof -
  assume "bavl_holds D cmp t xs"
  then obtain T where T: "subtree (avl_node t) None (avl_root t) T" by (auto simp: bavl_holds_def bavl_tree_def)
  show ?thesis
  proof (cases "avl_root t")
    case (Some r)
    then show ?thesis using CAvl_verify_recurser_eq [of t None r T] T by (simp add: CAvl_Verify_def BAVL_Verify_def)
  qed (simp add: CAvl_Verify_def BAVL_Verify_def)
qed

lemma CAvl_first_last: "CAvl_GetFirst t = BAVL_GetFirst t" "CAvl_GetLast t = BAVL_GetLast t"
  by (cases "avl_root t"; simp add: CAvl_GetFirst_def CAvl_GetLast_def BAVL_GetFirst_def BAVL_GetLast_def
      CAvl_subtree_min_def CAvl_subtree_max_def)+

lemma holds_root: "bavl_holds D cmp t xs \<Longrightarrow> avl_root t = None \<longleftrightarrow> xs = []"
proof -
  assume "bavl_holds D cmp t xs"
  then obtain T where "subtree (avl_node t) None (avl_root t) T" "inorder T = xs"
    by (auto simp: bavl_holds_def bavl_tree_def)
  then show ?thesis by (cases T) auto
qed

text \<open>What happens to the memory and the keys of other nodes does not matter to a tree.\<close>

lemma holds_outside:
  assumes h: "bavl_holds D cmp t xs" and o: "\<And>x. x \<in> set xs \<Longrightarrow> nodes x = avl_node t x \<and> val x = avl_val t x"
  shows "bavl_holds D cmp (t\<lparr>avl_node := nodes, avl_val := val\<rparr>) xs"
proof -
  obtain T where T: "bavl_tree t T" "inorder T = xs" "avl_cmp t = cmp" "avl_val t ` set xs \<subseteq> D"
    "sorted_wrt (\<lambda>x y. cmp (avl_val t x) (avl_val t y) < 0) xs"
    using h by (auto simp: bavl_holds_def)
  have "set_tree T = set xs" using T(2) by (metis set_inorder)
  then have "bavl_tree (t\<lparr>avl_node := nodes, avl_val := val\<rparr>) T"
    using o by (intro bavl_tree_outside [OF T(1)]) simp
  moreover have "sorted_wrt (\<lambda>x y. cmp (val x) (val y) < 0) xs"
    by (rule sorted_wrt_mono_rel [OF _ T(5)]) (simp add: o)
  ultimately show ?thesis using T(2-4) o by (auto simp: bavl_holds_def)
qed

context tree_order
begin

lemma CAvl_Insert_eq:
  assumes h: "bavl_holds D cmp t xs" and n: "n \<notin> set xs" "avl_val t n \<in> D"
  shows "CAvl_Insert n t = BAVL_Insert n t"
proof -
  obtain T where T: "bavl_tree t T" "inorder T = xs" "set_tree T = set xs" by (rule holdsE [OF h])
  have hd: "avl_cmp t = cmp" "sorted_wrt (\<lambda>x y. cmp (avl_val t x) (avl_val t y) < 0) xs" "avl_val t ` set xs \<subseteq> D"
    using h by (simp_all add: bavl_holds_def)
  let ?g = "\<lambda>x. cmp (avl_val t n) (avl_val t x)"
  have g: "x \<in> set_tree T \<Longrightarrow> BAVL_compare_nodes t n x = Some (?g x)" for x
    using compare_nodes [OF hd(1) n(2)] hd(3) T(3) by auto
  have c: "cut ?g (inorder T)" unfolding T(2) by (rule cut_sorted [OF n(2) hd(3,2)])
  show ?thesis using insert_correct [OF T(1) _ g c] n(1) unfolding T(3) by (auto split: option.splits)
qed

lemma CAvl_Remove_eq:
  assumes h: "bavl_holds D cmp t xs" and n: "n \<in> set xs"
  shows "CAvl_Remove n t = BAVL_Remove n t"
proof -
  obtain T where "bavl_tree t T" "set_tree T = set xs" by (rule holdsE [OF h])
  then show ?thesis using remove_correct [of t T n] n by auto
qed

lemma holds_first: "bavl_holds D cmp t xs \<Longrightarrow> CAvl_GetFirst t = Some (first_opt xs)"
  using get_first_last(1) by (auto simp: CAvl_first_last bavl_holds_def)

sublocale queue: ordered_queue D cmp "bavl_holds D cmp" avl_val CAvl_Insert CAvl_Remove CAvl_GetFirst
proof unfold_locales
  fix t :: "('p, 'v) bavl" and xs n
  assume h: "bavl_holds D cmp t xs"
  then show "sorted_wrt (\<lambda>x y. cmp (avl_val t x) (avl_val t y) < 0) xs" "avl_val t ` set xs \<subseteq> D"
    by (simp_all add: bavl_holds_def)
  show "CAvl_GetFirst t = Some (first_opt xs)" by (rule holds_first [OF h])
  show "n \<in> set xs \<Longrightarrow> \<exists>t'. CAvl_Remove n t = Some t' \<and> avl_val t' = avl_val t \<and> bavl_holds D cmp t' (remove1 n xs)"
    using tree_remove [OF h, of n] CAvl_Remove_eq [OF h, of n] by auto
  assume n: "n \<notin> set xs" "avl_val t n \<in> D" "avl_val t n \<notin> avl_val t ` set xs"
  have "find_key cmp (avl_val t) (avl_val t n) xs = None"
    using n(3) h cmp_eq_0 [OF n(2)] by (fastforce simp: find_None_iff bavl_holds_def)
  then show "\<exists>ref t'. CAvl_Insert n t = Some (True, ref, t') \<and> avl_val t' = avl_val t
      \<and> bavl_holds D cmp t' (sorted_ins (\<lambda>x. cmp (avl_val t n) (avl_val t x)) n xs)"
    using tree_insert_absent [OF h n(1,2)] CAvl_Insert_eq [OF h n(1,2)] by auto
qed

end

section \<open>Two keys compared one after the other\<close>

lemma tree_order_lex:
  assumes "tree_order A f" "tree_order B g"
  shows "tree_order (A \<times> B) (cmp_lex f g)"
proof -
  have c: "comparator A f" "comparator B g"
    using assms by (simp_all add: tree_order_def)
  show ?thesis
    unfolding tree_order_def tree_order_axioms_def
    using comparator_lex [OF c] tree_order.cmp_range [OF assms(1)] tree_order.cmp_range [OF assms(2)]
    by (auto simp: cmp_lex_def)
qed

text \<open>A number and an address: the entries of the timers tree and of the tree of queued flows.\<close>

definition number_order :: "'k::linorder \<times> nat \<Rightarrow> 'k \<times> nat \<Rightarrow> int" where
  "number_order = cmp_lex B_COMPARE B_COMPARE"

interpretation number_tree: tree_order UNIV "number_order :: 'k::linorder \<times> nat \<Rightarrow> 'k \<times> nat \<Rightarrow> int"
  using tree_order_lex [OF linorder_tree.tree_order_axioms linorder_tree.tree_order_axioms]
  by (simp add: number_order_def)

lemma number_order_less:
  "number_order (a, p) (b, q) < 0 \<longleftrightarrow> a < b \<or> a = b \<and> p < q"
  by (auto simp: number_order_def cmp_lex_simps B_COMPARE_simps)

section \<open>The same as the other tree\<close>

text \<open>
  C35: The two AVL trees of the program do the same. On every tree a program can build, \<^verbatim>\<open>CAvl_Insert\<close> of a node not in it,
  \<^verbatim>\<open>CAvl_Remove\<close> of a node in it, the first, last, next and previous nodes and the self-check of \<^verbatim>\<open>CAvl_impl.h\<close>, where
  the callers pass the parents of the nodes that move, return, and give the same result and the same memory as the
  functions of \<^verbatim>\<open>BAVL.h\<close>; no assertion about a parent fails.
\<close>

theorem avl_trees_agree:
  assumes "tree_order D cmp" "bavl_run D cmp t A"
  shows "(\<forall>n. n \<notin> A \<and> avl_val t n \<in> D \<longrightarrow> CAvl_Insert n t = BAVL_Insert n t \<and> BAVL_Insert n t \<noteq> None)
    \<and> (\<forall>n\<in>A. CAvl_Remove n t = BAVL_Remove n t \<and> BAVL_Remove n t \<noteq> None
         \<and> CAvl_GetNext n t = BAVL_GetNext n t \<and> CAvl_GetPrev n t = BAVL_GetPrev n t)
    \<and> CAvl_GetFirst t = BAVL_GetFirst t \<and> CAvl_GetLast t = BAVL_GetLast t
    \<and> CAvl_IsEmpty t = BAVL_IsEmpty t \<and> CAvl_Verify t \<and> BAVL_Verify t"
proof -
  obtain xs where xs: "bavl_holds D cmp t xs" "set xs = A" using run_holds [OF assms] by blast
  have v: "BAVL_Verify t" by (rule tree_order.tree_verify [OF assms(1) xs(1)])
  have ins: "CAvl_Insert n t = BAVL_Insert n t \<and> BAVL_Insert n t \<noteq> None" if n: "n \<notin> A" "avl_val t n \<in> D" for n
    using tree_order.CAvl_Insert_eq [OF assms(1) xs(1), of n] n xs(2)
      tree_order.tree_insert_present [OF assms(1) xs(1), of n] tree_order.tree_insert_absent [OF assms(1) xs(1), of n]
    by (cases "find_key cmp (avl_val t) (avl_val t n) xs") auto
  have rem: "CAvl_Remove n t = BAVL_Remove n t \<and> BAVL_Remove n t \<noteq> None
      \<and> CAvl_GetNext n t = BAVL_GetNext n t \<and> CAvl_GetPrev n t = BAVL_GetPrev n t" if n: "n \<in> A" for n
    using tree_order.CAvl_Remove_eq [OF assms(1) xs(1), of n] tree_order.tree_remove [OF assms(1) xs(1), of n]
      holds_root [OF xs(1)] n xs(2)
    by (auto simp: CAvl_GetNext_def CAvl_GetPrev_def BAVL_GetNext_def BAVL_GetPrev_def)
  have "CAvl_Verify t" using v CAvl_Verify_eq [OF xs(1)] by simp
  moreover have "CAvl_IsEmpty t = BAVL_IsEmpty t" by (simp add: CAvl_IsEmpty_def BAVL_IsEmpty_def)
  ultimately show ?thesis using ins rem v by (simp add: CAvl_first_last)
qed

theorem avl_trees_agree_witness:
  "CAvl_Remove 5 (leaf_node None 5 (BAVL_Init B_COMPARE (\<lambda>n. n) blank_nodes\<lparr>avl_root := Some (5::nat)\<rparr>))
   = BAVL_Remove 5 (leaf_node None 5 (BAVL_Init B_COMPARE (\<lambda>n. n) blank_nodes\<lparr>avl_root := Some (5::nat)\<rparr>))"
  using avl_trees_agree [OF linorder_tree.tree_order_axioms one_node_run, of blank_nodes] by simp

section \<open>The tree of queued flows\<close>

lemma compare_flows_order:
  "compare_flows m f g = number_order (ff_time (fq_heap m f), f) (ff_time (fq_heap m g), g)"
  by (simp add: compare_flows_def number_order_def cmp_lex_def Let_def)

text \<open>The tree \<open>t\<close> in the memory of the flows of \<open>m\<close> holds the queued flows.\<close>

definition flows_tree :: "PacketPassFairQueue \<Rightarrow> (nat, u64 \<times> nat) bavl \<Rightarrow> bool" where
  "flows_tree m t \<longleftrightarrow>
     (\<forall>f. avl_val t f = (ff_time (fq_heap m f), f)) \<and> bavl_holds UNIV number_order t (fq_queued_tree m)"

lemma fq_tree_insert_ins:
  "f \<notin> set q \<Longrightarrow> fq_tree_insert m f q = sorted_ins (compare_flows m f) f q"
proof (induction q)
  case (Cons g q)
  then show ?case using flow_cmp.cmp_eq_0 [of f g m] by simp
qed simp

text \<open>
  C36: The list of queued flows by which the fair queue is modelled is what its tree holds, in order. With the tree of
  the queued flows, \<^verbatim>\<open>SAvl_GetFirst\<close> gives the flow that \<^verbatim>\<open>schedule\<close> sends from, \<^verbatim>\<open>SAvl_Remove\<close> of it leaves the tree of the
  queue that \<^verbatim>\<open>schedule\<close> leaves, \<^verbatim>\<open>SAvl_Insert\<close> of a flow with a new time that is not queued succeeds and gives the tree of the list
  after \<open>fq_tree_insert\<close>, removal of any queued flow gives the tree without it, and the self-check succeeds.
\<close>

theorem fair_queue_tree_refined:
  assumes t: "flows_tree m t"
  shows "SAvl_GetFirst t = Some (first_opt (fq_queued_tree m)) \<and> SAvl_IsEmpty t = (fq_queued_tree m = []) \<and> SAvl_Verify t
    \<and> (fq_queued_tree m \<noteq> [] \<longrightarrow>
         (\<exists>t'. SAvl_Remove (hd (fq_queued_tree m)) t = Some t' \<and> flows_tree (fst (schedule m)) t'))
    \<and> (\<forall>f\<in>set (fq_queued_tree m). \<exists>t'. SAvl_Remove f t = Some t'
         \<and> flows_tree (m\<lparr>fq_queued_tree := remove1 f (fq_queued_tree m)\<rparr>) t')
    \<and> (\<forall>f time. f \<notin> set (fq_queued_tree m) \<longrightarrow>
         (let m' = m\<lparr>fq_heap := (fq_heap m)(f := (fq_heap m f)\<lparr>ff_time := time\<rparr>)\<rparr> in
          \<exists>ref t'. SAvl_Insert f (t\<lparr>avl_val := (avl_val t)(f := (time, f))\<rparr>) = Some (True, ref, t')
            \<and> flows_tree (m'\<lparr>fq_queued_tree := fq_tree_insert m' f (fq_queued_tree m')\<rparr>) t'))"
proof -
  define q where "q = fq_queued_tree m"
  have val: "avl_val t f = (ff_time (fq_heap m f), f)" for f using t by (simp add: flows_tree_def)
  have h: "bavl_holds UNIV number_order t q" using t by (simp add: flows_tree_def q_def)
  have rem: "\<exists>t'. SAvl_Remove f t = Some t' \<and> (\<forall>g. avl_val t' g = (ff_time (fq_heap m g), g))
      \<and> bavl_holds UNIV number_order t' (remove1 f q)" if "f \<in> set q" for f
    using number_tree.queue.q_rm [OF h that] val by (auto simp: SAvl_Remove_def)
  have sched: "\<exists>t'. SAvl_Remove (hd q) t = Some t' \<and> flows_tree (fst (schedule m)) t'" if "q \<noteq> []"
  proof -
    have "hd q \<in> set q" "remove1 (hd q) q = tl q" using that by (cases q; simp)+
    then show ?thesis using rem [of "hd q"] by (auto simp: flows_tree_def schedule_def Let_def q_def)
  qed
  have ins: "\<exists>ref t'. SAvl_Insert f (t\<lparr>avl_val := (avl_val t)(f := (time, f))\<rparr>) = Some (True, ref, t')
      \<and> flows_tree (m'\<lparr>fq_queued_tree := fq_tree_insert m' f (fq_queued_tree m')\<rparr>) t'"
    if f: "f \<notin> set q" and m': "m' = m\<lparr>fq_heap := (fq_heap m)(f := (fq_heap m f)\<lparr>ff_time := time\<rparr>)\<rparr>" for f time m'
  proof -
    define t1 where "t1 = t\<lparr>avl_val := (avl_val t)(f := (time, f))\<rparr>"
    have v1: "avl_val t1 g = (ff_time (fq_heap m' g), g)" for g by (simp add: t1_def m' val)
    have h1: "bavl_holds UNIV number_order t1 q"
    proof -
      have "bavl_holds UNIV number_order (t\<lparr>avl_node := avl_node t, avl_val := avl_val t1\<rparr>) q"
        using f by (intro holds_outside [OF h]) (auto simp: t1_def)
      moreover have "t\<lparr>avl_node := avl_node t, avl_val := avl_val t1\<rparr> = t1" by (simp add: t1_def)
      ultimately show ?thesis by simp
    qed
    have "avl_val t1 f \<notin> avl_val t1 ` set q" using f by (auto simp: v1)
    then obtain ref t' where t': "CAvl_Insert f t1 = Some (True, ref, t')" "avl_val t' = avl_val t1"
      "bavl_holds UNIV number_order t' (sorted_ins (\<lambda>x. number_order (avl_val t1 f) (avl_val t1 x)) f q)"
      using number_tree.queue.q_ins [OF h1 f] by auto
    have "sorted_ins (\<lambda>x. number_order (avl_val t1 f) (avl_val t1 x)) f q = fq_tree_insert m' f q"
      using ext [of "compare_flows m' f", OF compare_flows_order] by (simp add: fq_tree_insert_ins [OF f] v1)
    then show ?thesis using t' v1 q_def by (auto simp: SAvl_Insert_def flows_tree_def m' t1_def [symmetric])
  qed
  have ver: "SAvl_Verify t"
    using number_tree.tree_verify [OF h] CAvl_Verify_eq [OF h] by (simp add: SAvl_Verify_def)
  have first: "SAvl_GetFirst t = Some (first_opt q)" "SAvl_IsEmpty t = (q = [])"
    using number_tree.queue.q_first [OF h] holds_root [OF h]
    by (simp_all add: SAvl_GetFirst_def SAvl_IsEmpty_def CAvl_IsEmpty_def)
  show ?thesis
    unfolding q_def [symmetric] Let_def
  proof (intro conjI impI ballI allI first ver sched)
    fix f assume "f \<in> set q"
    then show "\<exists>t'. SAvl_Remove f t = Some t' \<and> flows_tree (m\<lparr>fq_queued_tree := remove1 f q\<rparr>) t'"
      using rem [of f] by (auto simp: flows_tree_def)
  next
    fix f time assume "f \<notin> set q"
    from ins [OF this refl, of time]
    show "\<exists>ref t'. SAvl_Insert f (t\<lparr>avl_val := (avl_val t)(f := (time, f))\<rparr>) = Some (True, ref, t')
        \<and> flows_tree (m\<lparr>fq_heap := (fq_heap m)(f := (fq_heap m f)\<lparr>ff_time := time\<rparr>),
            fq_queued_tree := fq_tree_insert (m\<lparr>fq_heap := (fq_heap m)(f := (fq_heap m f)\<lparr>ff_time := time\<rparr>)\<rparr>) f
              (fq_queued_tree (m\<lparr>fq_heap := (fq_heap m)(f := (fq_heap m f)\<lparr>ff_time := time\<rparr>)\<rparr>))\<rparr>) t'"
      by simp
  qed
qed

text \<open>The queue at its start.\<close>

theorem fair_queue_tree_refined_witness:
  "PacketPassFairQueue_Init 1500 False 1 demo_heap = Some demo_fq0
    \<and> SAvl_GetFirst (BAVL_Init number_order (\<lambda>f. (ff_time (demo_heap f), f)) blank_nodes) = Some None"
proof -
  have q: "fq_queued_tree demo_fq0 = []" "fq_heap demo_fq0 = demo_heap"
    by (simp_all add: demo_fq0_def fq_Init_Some)
  have "flows_tree demo_fq0 (BAVL_Init number_order (\<lambda>f. (ff_time (demo_heap f), f)) blank_nodes)"
    using q init_holds [of UNIV number_order "\<lambda>f. (ff_time (demo_heap f), f)" blank_nodes]
    by (simp add: flows_tree_def BAVL_Init_def)
  from fair_queue_tree_refined [OF this] q demo_Init show ?thesis by simp
qed

end
