(* ===== verification/LinkedList1.thy ===== *)
theory LinkedList1
  imports BPending
begin

text \<open>
  The doubly linked list of \<^verbatim>\<open>structure/LinkedList1.h\<close>, which holds the expired timers and the active limits of the
  reactor: nodes in memory, named by their addresses, with previous and next pointers, and the two ends of
  the list. The record has the memory of the nodes and the ends of one list; the list that
  \<^verbatim>\<open>LinkedList1_InsertListAfter\<close> splices in is a pair of pointers into the same memory. \<open>ll_rep\<close> relates a list to the
  sequence of its nodes; each operation is a sequence of pointer assignments and an operation on the sequence.
\<close>

section \<open>Operations\<close>

record 'p ll_node =
  ll_p :: "'p option"
  ll_n :: "'p option"

record 'p LinkedList1 =
  ll_first :: "'p option"
  ll_last :: "'p option"
  ll_nodes :: "'p \<Rightarrow> 'p ll_node"

definition ll_set_p :: "'p \<Rightarrow> 'p option \<Rightarrow> 'p LinkedList1 \<Rightarrow> 'p LinkedList1" where
  "ll_set_p x v l = l\<lparr>ll_nodes := (ll_nodes l)(x := (ll_nodes l x)\<lparr>ll_p := v\<rparr>)\<rparr>"

definition ll_set_n :: "'p \<Rightarrow> 'p option \<Rightarrow> 'p LinkedList1 \<Rightarrow> 'p LinkedList1" where
  "ll_set_n x v l = l\<lparr>ll_nodes := (ll_nodes l)(x := (ll_nodes l x)\<lparr>ll_n := v\<rparr>)\<rparr>"

definition LinkedList1_Init :: "'p LinkedList1 \<Rightarrow> 'p LinkedList1" where
  "LinkedList1_Init l = l\<lparr>ll_first := None, ll_last := None\<rparr>"

definition LinkedList1_IsEmpty :: "'p LinkedList1 \<Rightarrow> bool" where
  "LinkedList1_IsEmpty l \<longleftrightarrow> ll_first l = None"

definition LinkedList1_GetFirst :: "'p LinkedList1 \<Rightarrow> 'p option" where
  "LinkedList1_GetFirst l = ll_first l"

definition LinkedList1_GetLast :: "'p LinkedList1 \<Rightarrow> 'p option" where
  "LinkedList1_GetLast l = ll_last l"

definition LinkedList1_Prepend :: "'p \<Rightarrow> 'p LinkedList1 \<Rightarrow> 'p LinkedList1" where
  "LinkedList1_Prepend node l =
     (let l = ll_set_p node None l;
          l = ll_set_n node (ll_first l) l;
          l = (case ll_first l of Some f \<Rightarrow> ll_set_p f (Some node) l | None \<Rightarrow> l\<lparr>ll_last := Some node\<rparr>)
      in l\<lparr>ll_first := Some node\<rparr>)"

definition LinkedList1_Append :: "'p \<Rightarrow> 'p LinkedList1 \<Rightarrow> 'p LinkedList1" where
  "LinkedList1_Append node l =
     (let l = ll_set_p node (ll_last l) l;
          l = ll_set_n node None l;
          l = (case ll_last l of Some e \<Rightarrow> ll_set_n e (Some node) l | None \<Rightarrow> l\<lparr>ll_first := Some node\<rparr>)
      in l\<lparr>ll_last := Some node\<rparr>)"

definition LinkedList1_InsertBefore :: "'p \<Rightarrow> 'p \<Rightarrow> 'p LinkedList1 \<Rightarrow> 'p LinkedList1" where
  "LinkedList1_InsertBefore node target l =
     (let l = ll_set_p node (ll_p (ll_nodes l target)) l;
          l = ll_set_n node (Some target) l;
          l = (case ll_p (ll_nodes l target) of
                 Some p \<Rightarrow> ll_set_n p (Some node) l | None \<Rightarrow> l\<lparr>ll_first := Some node\<rparr>)
      in ll_set_p target (Some node) l)"

definition LinkedList1_InsertAfter :: "'p \<Rightarrow> 'p \<Rightarrow> 'p LinkedList1 \<Rightarrow> 'p LinkedList1" where
  "LinkedList1_InsertAfter node target l =
     (let l = ll_set_p node (Some target) l;
          l = ll_set_n node (ll_n (ll_nodes l target)) l;
          l = (case ll_n (ll_nodes l target) of
                 Some n \<Rightarrow> ll_set_p n (Some node) l | None \<Rightarrow> l\<lparr>ll_last := Some node\<rparr>)
      in ll_set_n target (Some node) l)"

definition LinkedList1_Remove :: "'p \<Rightarrow> 'p LinkedList1 \<Rightarrow> 'p LinkedList1" where
  "LinkedList1_Remove node l =
     (let l = (case ll_p (ll_nodes l node) of
                 Some p \<Rightarrow> ll_set_n p (ll_n (ll_nodes l node)) l
               | None \<Rightarrow> l\<lparr>ll_first := ll_n (ll_nodes l node)\<rparr>)
      in case ll_n (ll_nodes l node) of
           Some n \<Rightarrow> ll_set_p n (ll_p (ll_nodes l node)) l
         | None \<Rightarrow> l\<lparr>ll_last := ll_p (ll_nodes l node)\<rparr>)"

definition LinkedList1_InsertListAfter ::
    "'p option \<times> 'p option \<Rightarrow> 'p option \<Rightarrow> 'p LinkedList1 \<Rightarrow> 'p LinkedList1" where
  "LinkedList1_InsertListAfter ins_list target l =
     (case ins_list of
        (Some ins_first, Some ins_last) \<Rightarrow>
          (let t_next = (case target of Some t \<Rightarrow> ll_n (ll_nodes l t) | None \<Rightarrow> ll_first l);
               l = ll_set_p ins_first target l;
               l = ll_set_n ins_last t_next l;
               l = (case target of Some t \<Rightarrow> ll_set_n t (Some ins_first) l | None \<Rightarrow> l\<lparr>ll_first := Some ins_first\<rparr>)
           in case t_next of Some n \<Rightarrow> ll_set_p n (Some ins_last) l | None \<Rightarrow> l\<lparr>ll_last := Some ins_last\<rparr>)
      | _ \<Rightarrow> l)"

definition LinkedList1Node_Next :: "'p LinkedList1 \<Rightarrow> 'p \<Rightarrow> 'p option" where
  "LinkedList1Node_Next l node = ll_n (ll_nodes l node)"

definition LinkedList1Node_Prev :: "'p LinkedList1 \<Rightarrow> 'p \<Rightarrow> 'p option" where
  "LinkedList1Node_Prev l node = ll_p (ll_nodes l node)"

section \<open>The sequence of nodes\<close>

lemma ll_set_simps [simp]:
  "ll_nodes (ll_set_p x v l) = (ll_nodes l)(x := (ll_nodes l x)\<lparr>ll_p := v\<rparr>)"
  "ll_nodes (ll_set_n x v l) = (ll_nodes l)(x := (ll_nodes l x)\<lparr>ll_n := v\<rparr>)"
  "ll_first (ll_set_p x v l) = ll_first l" "ll_first (ll_set_n x v l) = ll_first l"
  "ll_last (ll_set_p x v l) = ll_last l" "ll_last (ll_set_n x v l) = ll_last l"
  by (simp_all add: ll_set_p_def ll_set_n_def)

definition first_or :: "'p list \<Rightarrow> 'p option \<Rightarrow> 'p option" where
  "first_or xs n = (case xs of [] \<Rightarrow> n | y # _ \<Rightarrow> Some y)"

definition end_or :: "'p list \<Rightarrow> 'p option \<Rightarrow> 'p option" where
  "end_or xs p = (if xs = [] then p else Some (last xs))"

lemma ends_or [simp]:
  "first_or [] n = n" "first_or (x # xs) n = Some x" "first_or (xs @ ys) n = first_or xs (first_or ys n)"
  "end_or [] p = p" "end_or (x # xs) p = end_or xs (Some x)" "end_or (xs @ ys) p = end_or ys (end_or xs p)"
  by (simp_all add: first_or_def end_or_def split: list.splits)

lemma ends_or_in:
  "xs \<noteq> [] \<Longrightarrow> \<exists>x\<in>set xs. first_or xs n = Some x" "xs \<noteq> [] \<Longrightarrow> \<exists>x\<in>set xs. end_or xs p = Some x"
  by (auto simp: first_or_def end_or_def split: list.splits)

lemma ends_nonempty:
  "xs \<noteq> [] \<Longrightarrow> first_or xs n = Some (hd xs)" "xs \<noteq> [] \<Longrightarrow> end_or xs p = Some (last xs)"
  by (auto simp: first_or_def end_or_def split: list.splits)

lemma ends_or_None: "first_or xs None = None \<longleftrightarrow> xs = []" "end_or xs None = None \<longleftrightarrow> xs = []"
  by (auto simp: first_or_def end_or_def split: list.splits)

text \<open>\<open>lseg h p xs n\<close>: the nodes \<open>xs\<close> are linked, before them is \<open>p\<close>, after them \<open>n\<close>.\<close>

primrec lseg :: "('p \<Rightarrow> 'p ll_node) \<Rightarrow> 'p option \<Rightarrow> 'p list \<Rightarrow> 'p option \<Rightarrow> bool" where
  "lseg h p [] n \<longleftrightarrow> True"
| "lseg h p (x # xs) n \<longleftrightarrow> ll_p (h x) = p \<and> ll_n (h x) = first_or xs n \<and> lseg h (Some x) xs n"

lemma lseg_append: "lseg h p (xs @ ys) n \<longleftrightarrow> lseg h p xs (first_or ys n) \<and> lseg h (end_or xs p) ys n"
  by (induction xs arbitrary: p) auto

lemma lseg_cong:
  "(\<And>x. x \<in> set xs \<Longrightarrow> h' x = h x) \<Longrightarrow> lseg h' p xs n \<longleftrightarrow> lseg h p xs n"
  by (induction xs arbitrary: p) auto

lemma lseg_upd [simp]: "x \<notin> set xs \<Longrightarrow> lseg (h(x := v)) p xs n \<longleftrightarrow> lseg h p xs n"
  by (rule lseg_cong) auto

lemma lseg_set_first:
  "lseg h p (x # xs) n \<Longrightarrow> x \<notin> set xs \<Longrightarrow> lseg (h(x := (h x)\<lparr>ll_p := p'\<rparr>)) p' (x # xs) n"
  by simp

lemma lseg_set_end:
  "lseg h p (xs @ [x]) n \<Longrightarrow> x \<notin> set xs \<Longrightarrow> lseg (h(x := (h x)\<lparr>ll_n := n'\<rparr>)) p (xs @ [x]) n'"
  by (simp add: lseg_append)

definition ll_rep :: "'p LinkedList1 \<Rightarrow> 'p list \<Rightarrow> bool" where
  "ll_rep l xs \<longleftrightarrow> distinct xs \<and> ll_first l = first_or xs None \<and> ll_last l = end_or xs None
     \<and> lseg (ll_nodes l) None xs None"

lemma ll_rep_distinct: "ll_rep l xs \<Longrightarrow> distinct xs"
  by (simp add: ll_rep_def)

text \<open>Linking a first part to a second part, whatever was between them.\<close>

definition connect :: "'p option \<Rightarrow> 'p option \<Rightarrow> 'p LinkedList1 \<Rightarrow> 'p LinkedList1" where
  "connect a b l =
     (let l = (case a of Some x \<Rightarrow> ll_set_n x b l | None \<Rightarrow> l\<lparr>ll_first := b\<rparr>)
      in case b of Some y \<Rightarrow> ll_set_p y a l | None \<Rightarrow> l\<lparr>ll_last := a\<rparr>)"

definition halves :: "'p LinkedList1 \<Rightarrow> 'p list \<Rightarrow> 'p list \<Rightarrow> bool" where
  "halves l xs ys \<longleftrightarrow> distinct (xs @ ys)
     \<and> (\<exists>n. lseg (ll_nodes l) None xs n) \<and> (\<exists>p. lseg (ll_nodes l) p ys None)
     \<and> (xs \<noteq> [] \<longrightarrow> ll_first l = first_or xs None) \<and> (ys \<noteq> [] \<longrightarrow> ll_last l = end_or ys None)"

lemma halves_of_rep: "ll_rep l (xs @ ys) \<Longrightarrow> halves l xs ys"
  by (cases xs; cases ys rule: rev_cases) (auto simp: halves_def ll_rep_def lseg_append)

lemma halves_without: "ll_rep l (xs @ e # ys) \<Longrightarrow> halves l xs ys"
  by (cases xs; cases ys rule: rev_cases) (auto simp: halves_def ll_rep_def lseg_append)

lemma connect_segs:
  assumes d: "distinct (xs @ ys)" and xs: "lseg (ll_nodes l) p xs n" and ys: "lseg (ll_nodes l) q ys m"
  defines "l' \<equiv> connect (end_or xs None) (first_or ys None) l"
  shows "lseg (ll_nodes l') p xs (first_or ys None)" "lseg (ll_nodes l') (end_or xs None) ys m"
    "ll_first l' = (if xs = [] then first_or ys None else ll_first l)"
    "ll_last l' = (if ys = [] then end_or xs None else ll_last l)"
    "z \<notin> set xs \<Longrightarrow> z \<notin> set ys \<Longrightarrow> ll_nodes l' z = ll_nodes l z"
proof -
  define l1 where "l1 = (case end_or xs None of Some x \<Rightarrow> ll_set_n x (first_or ys None) l
    | None \<Rightarrow> l\<lparr>ll_first := first_or ys None\<rparr>)"
  have l': "l' = (case first_or ys None of Some y \<Rightarrow> ll_set_p y (end_or xs None) l1 | None \<Rightarrow> l1\<lparr>ll_last := end_or xs None\<rparr>)"
    unfolding l'_def connect_def l1_def Let_def ..
  have x1: "lseg (ll_nodes l1) p xs (first_or ys None)" "lseg (ll_nodes l1) q ys m"
    "ll_first l1 = (if xs = [] then first_or ys None else ll_first l)" "ll_last l1 = ll_last l"
    "z \<notin> set xs \<Longrightarrow> ll_nodes l1 z = ll_nodes l z" for z
  proof -
    show "lseg (ll_nodes l1) p xs (first_or ys None)"
    proof (cases xs rule: rev_cases)
      case (snoc ws x)
      then show ?thesis using lseg_set_end [of "ll_nodes l" p ws x n "first_or ys None"] xs d by (simp add: l1_def)
    qed simp
    show "lseg (ll_nodes l1) q ys m"
      using ys d by (cases xs rule: rev_cases) (simp_all add: l1_def)
    show "ll_first l1 = (if xs = [] then first_or ys None else ll_first l)" "ll_last l1 = ll_last l"
      "z \<notin> set xs \<Longrightarrow> ll_nodes l1 z = ll_nodes l z"
      by (cases xs rule: rev_cases; simp add: l1_def)+
  qed
  show "lseg (ll_nodes l') p xs (first_or ys None)"
    using x1(1) d by (cases ys) (simp_all add: l')
  show "lseg (ll_nodes l') (end_or xs None) ys m"
    using x1(2) d by (cases ys) (simp_all add: l')
  show "ll_first l' = (if xs = [] then first_or ys None else ll_first l)"
    "ll_last l' = (if ys = [] then end_or xs None else ll_last l)"
    using x1(3,4) by (cases ys; simp add: l')+
  show "z \<notin> set xs \<Longrightarrow> z \<notin> set ys \<Longrightarrow> ll_nodes l' z = ll_nodes l z"
    using x1(5) by (cases ys) (simp_all add: l')
qed

lemma connect_halves:
  assumes "halves l xs ys"
  shows "ll_rep (connect (end_or xs None) (first_or ys None) l) (xs @ ys)"
proof -
  obtain n q where s: "lseg (ll_nodes l) None xs n" "lseg (ll_nodes l) q ys None" and d: "distinct (xs @ ys)"
    using assms by (auto simp: halves_def)
  note c = connect_segs [OF d s]
  show ?thesis
    unfolding ll_rep_def lseg_append using c(1-4) assms d by (cases "xs = []"; cases "ys = []") (auto simp: halves_def ends_nonempty)
qed

lemma connect_middle:
  assumes "halves l xs ys" "zs \<noteq> []" "distinct (xs @ zs @ ys)" "lseg (ll_nodes l) p zs n"
  shows "halves (connect (end_or xs None) (first_or zs None) l) (xs @ zs) ys"
proof -
  obtain m q where s: "lseg (ll_nodes l) None xs m" "lseg (ll_nodes l) q ys None"
    using assms(1) by (auto simp: halves_def)
  have d: "distinct (xs @ zs)" using assms(3) by auto
  note c = connect_segs [OF d s(1) assms(4)]
  let ?l = "connect (end_or xs None) (first_or zs None) l"
  have fz: "first_or zs m = first_or zs None" for m using assms(2) by (cases zs) auto
  have "lseg (ll_nodes ?l) None (xs @ zs) n" unfolding lseg_append using c(1,2) fz by metis
  moreover have "lseg (ll_nodes ?l) q ys None"
    using s(2) assms(3) c(5) by (subst lseg_cong [where h = "ll_nodes l"]) auto
  moreover have "ll_first ?l = first_or (xs @ zs) None" using c(3) assms(1) by (cases xs) (auto simp: halves_def)
  moreover have "ys \<noteq> [] \<Longrightarrow> ll_last ?l = end_or ys None" using c(4) assms(1,2) by (auto simp: halves_def)
  ultimately show ?thesis using assms(3) by (auto simp: halves_def)
qed

lemma splice_rep:
  assumes "ll_rep l (xs @ ys)" "zs \<noteq> []" "distinct (xs @ zs @ ys)" "lseg (ll_nodes l) p zs n"
  shows "ll_rep (connect (end_or zs None) (first_or ys None) (connect (end_or xs None) (first_or zs None) l)) (xs @ zs @ ys)"
proof -
  have "end_or (xs @ zs) None = end_or zs None" using assms(2) by (cases zs) auto
  then show ?thesis using connect_halves [OF connect_middle [OF halves_of_rep [OF assms(1)] assms(2-4)]] by simp
qed

lemma insert_rep:
  assumes "ll_rep l (xs @ ys)" "e \<notin> set xs" "e \<notin> set ys"
  shows "ll_rep (connect (Some e) (first_or ys None) (connect (end_or xs None) (Some e) l)) (xs @ e # ys)"
  using splice_rep [of l xs ys "[e]" "ll_p (ll_nodes l e)" "ll_n (ll_nodes l e)"] assms ll_rep_distinct [OF assms(1)]
  by simp

section \<open>What the operations do\<close>

text \<open>Assignments to different places commute.\<close>

lemma ll_set_commute:
  "ll_set_p x v (ll_set_n y w l) = ll_set_n y w (ll_set_p x v l)"
  "(ll_set_p x v l)\<lparr>ll_first := b\<rparr> = ll_set_p x v (l\<lparr>ll_first := b\<rparr>)"
  "(ll_set_p x v l)\<lparr>ll_last := b\<rparr> = ll_set_p x v (l\<lparr>ll_last := b\<rparr>)"
  "(ll_set_n x v l)\<lparr>ll_first := b\<rparr> = ll_set_n x v (l\<lparr>ll_first := b\<rparr>)"
  "(ll_set_n x v l)\<lparr>ll_last := b\<rparr> = ll_set_n x v (l\<lparr>ll_last := b\<rparr>)"
  by (auto simp: ll_set_p_def ll_set_n_def fun_eq_iff)

lemma ll_set_twist:
  "x \<noteq> y \<Longrightarrow> ll_set_p x v (ll_set_p y w l) = ll_set_p y w (ll_set_p x v l)"
  "x \<noteq> y \<Longrightarrow> ll_set_n x v (ll_set_n y w l) = ll_set_n y w (ll_set_n x v l)"
  by (auto simp: ll_set_p_def ll_set_n_def fun_upd_twist)

lemma ll_rep_ends:
  "ll_rep l xs \<Longrightarrow> ll_first l = first_or xs None" "ll_rep l xs \<Longrightarrow> ll_last l = end_or xs None"
  by (simp_all add: ll_rep_def)

lemma ll_rep_links:
  "ll_rep l (xs @ e # ys) \<Longrightarrow> ll_p (ll_nodes l e) = end_or xs None"
  "ll_rep l (xs @ e # ys) \<Longrightarrow> ll_n (ll_nodes l e) = first_or ys None"
  by (simp_all add: ll_rep_def lseg_append)

lemma ll_rep_Init: "ll_rep (LinkedList1_Init l) []"
  by (simp add: ll_rep_def LinkedList1_Init_def)

lemma ll_rep_query:
  assumes "ll_rep l xs"
  shows "LinkedList1_IsEmpty l \<longleftrightarrow> xs = []" "LinkedList1_GetFirst l = first_or xs None"
    "LinkedList1_GetLast l = end_or xs None"
  using assms
  by (simp_all add: LinkedList1_IsEmpty_def LinkedList1_GetFirst_def LinkedList1_GetLast_def ll_rep_def ends_or_None)

lemma ll_rep_Prepend: "ll_rep l xs \<Longrightarrow> e \<notin> set xs \<Longrightarrow> ll_rep (LinkedList1_Prepend e l) (e # xs)"
proof -
  assume a: "ll_rep l xs" "e \<notin> set xs"
  have "LinkedList1_Prepend e l = connect (Some e) (first_or xs None) (connect None (Some e) l)"
    unfolding LinkedList1_Prepend_def connect_def Let_def using ll_rep_ends(1) [OF a(1)] a(2)
    by (cases xs) (auto simp: ll_set_p_def ll_set_n_def fun_upd_twist intro!: LinkedList1.equality)
  with insert_rep [of l "[]" xs e] a show ?thesis by simp
qed

lemma ll_rep_Append: "ll_rep l xs \<Longrightarrow> e \<notin> set xs \<Longrightarrow> ll_rep (LinkedList1_Append e l) (xs @ [e])"
proof -
  assume a: "ll_rep l xs" "e \<notin> set xs"
  have "LinkedList1_Append e l = connect (Some e) None (connect (end_or xs None) (Some e) l)"
    unfolding LinkedList1_Append_def connect_def Let_def using ll_rep_ends(2) [OF a(1)] a(2)
    by (cases xs rule: rev_cases) (auto simp: ll_set_p_def ll_set_n_def fun_upd_twist intro!: LinkedList1.equality)
  with insert_rep [of l xs "[]" e] a show ?thesis by simp
qed

lemma ll_rep_InsertBefore:
  assumes "ll_rep l (xs @ t # ys)" "e \<notin> set (xs @ t # ys)"
  shows "ll_rep (LinkedList1_InsertBefore e t l) (xs @ e # t # ys)"
proof -
  have d: "distinct (xs @ t # ys)" by (rule ll_rep_distinct [OF assms(1)])
  have "LinkedList1_InsertBefore e t l = connect (Some e) (Some t) (connect (end_or xs None) (Some e) l)"
    unfolding LinkedList1_InsertBefore_def connect_def Let_def using ll_rep_links(1) [OF assms(1)] assms(2) d
    by (cases xs rule: rev_cases) (auto simp: ll_set_p_def ll_set_n_def fun_upd_twist intro!: LinkedList1.equality)
  with insert_rep [of l xs "t # ys" e] assms show ?thesis by simp
qed

lemma ll_rep_InsertAfter:
  assumes "ll_rep l (xs @ t # ys)" "e \<notin> set (xs @ t # ys)"
  shows "ll_rep (LinkedList1_InsertAfter e t l) (xs @ t # e # ys)"
proof -
  have d: "distinct (xs @ t # ys)" by (rule ll_rep_distinct [OF assms(1)])
  have "LinkedList1_InsertAfter e t l = connect (Some e) (first_or ys None) (connect (Some t) (Some e) l)"
    unfolding LinkedList1_InsertAfter_def connect_def Let_def using ll_rep_links(2) [OF assms(1)] assms(2) d
    by (cases ys) (auto simp: ll_set_p_def ll_set_n_def fun_upd_twist intro!: LinkedList1.equality)
  with insert_rep [of l "xs @ [t]" ys e] assms show ?thesis by simp
qed

lemma ll_rep_Remove:
  assumes "ll_rep l (xs @ e # ys)"
  shows "ll_rep (LinkedList1_Remove e l) (xs @ ys)"
proof -
  have d: "distinct (xs @ e # ys)" by (rule ll_rep_distinct [OF assms(1)])
  have "LinkedList1_Remove e l = connect (end_or xs None) (first_or ys None) l"
    unfolding LinkedList1_Remove_def connect_def Let_def using ll_rep_links [OF assms(1)] d
    by (cases xs rule: rev_cases; cases ys) (auto simp: ll_set_p_def ll_set_n_def)
  with connect_halves [OF halves_without [OF assms]] show ?thesis by simp
qed

lemma ll_rep_remove1: "ll_rep l xs \<Longrightarrow> e \<in> set xs \<Longrightarrow> ll_rep (LinkedList1_Remove e l) (remove1 e xs)"
proof -
  assume a: "ll_rep l xs" "e \<in> set xs"
  then obtain ys zs where "xs = ys @ e # zs" by (meson split_list)
  moreover from this have "remove1 e xs = ys @ zs" using ll_rep_distinct [OF a(1)] by (simp add: remove1_append)
  ultimately show ?thesis using ll_rep_Remove a(1) by metis
qed

text \<open>The spliced list \<open>zs\<close> is a list of its own in the same memory.\<close>

lemma ll_rep_InsertListAfter:
  assumes l: "ll_rep l (xs @ ys)" and z: "ll_rep (l\<lparr>ll_first := f, ll_last := e\<rparr>) zs"
    and d: "set zs \<inter> set (xs @ ys) = {}" and t: "target = end_or xs None"
  shows "ll_rep (LinkedList1_InsertListAfter (f, e) target l) (xs @ zs @ ys)"
proof (cases "zs = []")
  case True
  then have "f = None" using z by (simp add: ll_rep_def)
  then show ?thesis using l True by (simp add: LinkedList1_InsertListAfter_def)
next
  case False
  have zz: "distinct zs" "f = first_or zs None" "e = end_or zs None" "lseg (ll_nodes l) None zs None"
    using z by (simp_all add: ll_rep_def)
  obtain a b where ab: "f = Some a" "e = Some b" "a \<in> set zs" "b \<in> set zs"
    using ends_or_in [OF False, of None] zz(2,3) by auto
  have d': "distinct (xs @ zs @ ys)" using ll_rep_distinct [OF l] zz(1) d by auto
  have tn: "(case target of Some t \<Rightarrow> ll_n (ll_nodes l t) | None \<Rightarrow> ll_first l) = first_or ys None"
  proof (cases xs rule: rev_cases)
    case Nil
    then show ?thesis using l t by (simp add: ll_rep_def)
  next
    case (snoc ws x)
    then show ?thesis using ll_rep_links(2) [of l ws x ys] l t by simp
  qed
  have "LinkedList1_InsertListAfter (f, e) target l
      = connect (end_or zs None) (first_or ys None) (connect (end_or xs None) (first_or zs None) l)"
    unfolding LinkedList1_InsertListAfter_def connect_def Let_def
    unfolding prod.case ab option.case tn
    using ab d' zz(2,3) t
    by (cases xs rule: rev_cases; cases ys) (auto simp: ll_set_commute intro!: ll_set_twist)
  with splice_rep [OF l False d' zz(4)] show ?thesis by simp
qed

lemma ll_rep_neighbours:
  assumes "ll_rep l (xs @ e # ys)"
  shows "LinkedList1Node_Next l e = first_or ys None" "LinkedList1Node_Prev l e = end_or xs None"
  using ll_rep_links [OF assms] by (simp_all add: LinkedList1Node_Next_def LinkedList1Node_Prev_def)

end
