(* ===== verification/Reactor.thy ===== *)
theory Reactor
  imports Ordered_Queue LinkedList1
begin

text \<open>
  The event loop: \<^verbatim>\<open>system/BReactor_badvpn.c\<close> as it is built here, with \<^verbatim>\<open>epoll\<close>, and the clock of \<^verbatim>\<open>system/BTime.h\<close>. Jobs
  are the group of \<open>BPending\<close>, running timers are in the AVL tree of \<open>CAvl\<close>, expired timers and used limits in lists
  of \<open>LinkedList1\<close>, all in memory; timers, file descriptors and limits are objects named by their addresses. A
  \<^verbatim>\<open>BTimer\<close> is a \<^verbatim>\<open>BSmallTimer\<close> with two more fields. The child pointers of a timer share their memory with its
  list node; a timer is never in tree and list at once, so they are two fields here.

  The kernel is a parameter: \<open>rc_efd\<close> is the interest list that \<^verbatim>\<open>epoll_ctl\<close> maintains, the answers of \<^verbatim>\<open>epoll_wait\<close> and
  the readings of the clock are arguments. A failing \<^verbatim>\<open>ASSERT\<close> or \<^verbatim>\<open>ASSERT_FORCE\<close>, or a \<^verbatim>\<open>NULL\<close> dereference, is \<open>None\<close>.
  \<open>Reactor_Timers\<close>, \<open>Reactor_Rep\<close>, \<open>Reactor_Spec\<close>, \<open>Reactor_Run\<close> and \<open>Reactor_Safety\<close> prove what the loop does.
\<close>

section \<open>Time\<close>

text \<open>\<^verbatim>\<open>btime_t\<close> is \<^verbatim>\<open>int64_t\<close>; the values that occur are shown to be in range.\<close>

definition INT64_MAX :: int where "INT64_MAX = 2 ^ 63 - 1"
definition INT64_MIN :: int where "INT64_MIN = - (2 ^ 63)"

definition add_int64_overflows :: "int \<Rightarrow> int \<Rightarrow> int" where
  "add_int64_overflows a b =
     (if (a < 0) \<noteq> (b < 0) then 0
      else if a < 0 then - (if a < INT64_MIN - b then 1 else 0)
      else (if a > INT64_MAX - b then 1 else 0))"

definition btime_add :: "int \<Rightarrow> int \<Rightarrow> int" where
  "btime_add t1 t2 =
     (let overflows = add_int64_overflows t1 t2
      in if overflows \<noteq> 0 then (if overflows > 0 then INT64_MAX else INT64_MIN) else t1 + t2)"

definition btime_getpast :: int where "btime_getpast = INT64_MIN"

record btime_global =
  start_time :: int
  use_gettimeofday :: bool

text \<open>\<open>monotonic\<close> is what \<^verbatim>\<open>clock_gettime\<close> returns, seconds and nanoseconds, if it succeeds, \<open>tv\<close> what \<^verbatim>\<open>gettimeofday\<close> returns, with microseconds.\<close>

definition BTime_Init :: "(int \<times> int) option \<Rightarrow> int \<times> int \<Rightarrow> btime_global" where
  "BTime_Init monotonic tv =
     (case monotonic of
        None \<Rightarrow> \<lparr>start_time = fst tv * 1000 + snd tv div 1000, use_gettimeofday = True\<rparr>
      | Some ts \<Rightarrow> \<lparr>start_time = fst ts * 1000 + snd ts div 1000000, use_gettimeofday = False\<rparr>)"

definition btime_gettime :: "btime_global \<Rightarrow> int \<times> int \<Rightarrow> int \<times> int \<Rightarrow> int" where
  "btime_gettime g ts tv =
     (if use_gettimeofday g then fst tv * 1000 + snd tv div 1000
      else fst ts * 1000 + snd ts div 1000000 - start_time g)"

section \<open>Data\<close>

datatype timer_state = TIMER_STATE_INACTIVE | TIMER_STATE_RUNNING | TIMER_STATE_EXPIRED

datatype timer_mode = BTIMER_SET_ABSOLUTE | BTIMER_SET_RELATIVE

record 'h BTimer =
  bt_handler :: 'h
  bt_absTime :: int
  bt_state :: timer_state
  bt_is_small :: bool
  bt_msTime :: int

definition BREACTOR_READ :: u32 where "BREACTOR_READ = 1"
definition BREACTOR_WRITE :: u32 where "BREACTOR_WRITE = 2"
definition BREACTOR_ERROR :: u32 where "BREACTOR_ERROR = 4"
definition BREACTOR_HUP :: u32 where "BREACTOR_HUP = 8"

text \<open>The event bits of \<^verbatim>\<open><sys/epoll.h>\<close>.\<close>

definition EPOLLIN :: u32 where "EPOLLIN = 1"
definition EPOLLOUT :: u32 where "EPOLLOUT = 4"
definition EPOLLERR :: u32 where "EPOLLERR = 8"
definition EPOLLHUP :: u32 where "EPOLLHUP = 16"

record epoll_event =
  ev_events :: u32
  ev_ptr :: "nat option"

record 'h BFileDescriptor =
  fd_fd :: int
  fd_handler :: 'h
  fd_active :: bool
  fd_waitEvents :: u32
  fd_epoll_returned_ptr :: "nat option"

record BReactorLimit =
  lim_limit :: int
  lim_count :: int

definition BSYSTEM_MAX_RESULTS :: nat where "BSYSTEM_MAX_RESULTS = 64"

text \<open>\<^verbatim>\<open>epoll_returned_ptr\<close> points into the results array: it is an index.\<close>

record 'h BReactor =
  rc_exiting :: bool
  rc_exit_code :: int
  rc_pending_jobs :: "'h BPendingGroup"
  rc_timers_tree :: "(nat, int \<times> nat) bavl"
  rc_timers_expired_list :: "nat LinkedList1"
  rc_active_limits_list :: "nat LinkedList1"
  rc_epoll_results :: "epoll_event list"
  rc_epoll_results_num :: nat
  rc_epoll_results_pos :: nat
  rc_timers :: "nat \<Rightarrow> 'h BTimer"
  rc_fds :: "nat \<Rightarrow> 'h BFileDescriptor"
  rc_limits :: "nat \<Rightarrow> BReactorLimit"
  rc_efd :: "int \<Rightarrow> epoll_event option"

section \<open>Timers\<close>

definition compare_timers :: "int \<times> nat \<Rightarrow> int \<times> nat \<Rightarrow> int" where
  "compare_timers t1 t2 =
     (let cmp = B_COMPARE (fst t1) (fst t2) in if cmp \<noteq> 0 then cmp else B_COMPARE (snd t1) (snd t2))"

text \<open>The tree as its operations see it: they compare the times in the memory of the timers, and the addresses.\<close>

definition timers_tree :: "'h BReactor \<Rightarrow> (nat, int \<times> nat) bavl" where
  "timers_tree r = (rc_timers_tree r)
     \<lparr>avl_cmp := compare_timers, avl_val := \<lambda>t. (bt_absTime (rc_timers r t), t)\<rparr>"

definition set_timer_state :: "nat \<Rightarrow> timer_state \<Rightarrow> 'h BReactor \<Rightarrow> 'h BReactor" where
  "set_timer_state t s r = r\<lparr>rc_timers := (rc_timers r)(t := (rc_timers r t)\<lparr>bt_state := s\<rparr>)\<rparr>"

definition BSmallTimer_Init :: "nat \<Rightarrow> 'h \<Rightarrow> 'h BReactor \<Rightarrow> 'h BReactor" where
  "BSmallTimer_Init t handler r =
     r\<lparr>rc_timers := (rc_timers r)(t := (rc_timers r t)
         \<lparr>bt_handler := handler, bt_state := TIMER_STATE_INACTIVE, bt_is_small := True\<rparr>)\<rparr>"

definition BSmallTimer_IsRunning :: "nat \<Rightarrow> 'h BReactor \<Rightarrow> bool" where
  "BSmallTimer_IsRunning t r \<longleftrightarrow> bt_state (rc_timers r t) \<noteq> TIMER_STATE_INACTIVE"

definition BTimer_Init :: "nat \<Rightarrow> int \<Rightarrow> 'h \<Rightarrow> 'h BReactor \<Rightarrow> 'h BReactor" where
  "BTimer_Init t msTime handler r =
     r\<lparr>rc_timers := (rc_timers r)(t := (rc_timers r t)
         \<lparr>bt_handler := handler, bt_state := TIMER_STATE_INACTIVE, bt_is_small := False, bt_msTime := msTime\<rparr>)\<rparr>"

definition BTimer_IsRunning :: "nat \<Rightarrow> 'h BReactor \<Rightarrow> bool" where
  "BTimer_IsRunning t r = BSmallTimer_IsRunning t r"

text \<open>Removing a timer from the tree, appending it to the list of expired timers, and its new state.\<close>

definition expire :: "nat \<Rightarrow> 'h BReactor \<Rightarrow> 'h BReactor option" where
  "expire t r = do {
     tree \<leftarrow> CAvl_Remove t (timers_tree r);
     let r = r\<lparr>rc_timers_tree := tree\<rparr>;
     let r = r\<lparr>rc_timers_expired_list := LinkedList1_Append t (rc_timers_expired_list r)\<rparr>;
     Some (set_timer_state t TIMER_STATE_EXPIRED r)
   }"

partial_function (option) move_expired_timers ::
    "int \<Rightarrow> bool \<Rightarrow> 'h BReactor \<Rightarrow> (bool \<times> 'h BReactor) option" where
  "move_expired_timers now moved r = do {
     first \<leftarrow> CAvl_GetFirst (timers_tree r);
     case first of
       None \<Rightarrow> Some (moved, r)
     | Some timer \<Rightarrow>
         if bt_state (rc_timers r timer) \<noteq> TIMER_STATE_RUNNING then None
         else if bt_absTime (rc_timers r timer) > now then Some (moved, r)
         else do { r \<leftarrow> expire timer r; move_expired_timers now True r }
   }"

partial_function (option) move_same_timers :: "int \<Rightarrow> 'h BReactor \<Rightarrow> 'h BReactor option" where
  "move_same_timers first_time r = do {
     first \<leftarrow> CAvl_GetFirst (timers_tree r);
     case first of
       None \<Rightarrow> Some r
     | Some timer \<Rightarrow>
         if bt_state (rc_timers r timer) \<noteq> TIMER_STATE_RUNNING
            \<or> \<not> bt_absTime (rc_timers r timer) \<ge> first_time then None
         else if bt_absTime (rc_timers r timer) > first_time then Some r
         else do { r \<leftarrow> expire timer r; move_same_timers first_time r }
   }"

definition move_first_timers :: "'h BReactor \<Rightarrow> 'h BReactor option" where
  "move_first_timers r = do {
     first \<leftarrow> CAvl_GetFirst (timers_tree r);
     first_timer \<leftarrow> first;
     if bt_state (rc_timers r first_timer) \<noteq> TIMER_STATE_RUNNING then None
     else do {
       let first_time = bt_absTime (rc_timers r first_timer);
       r \<leftarrow> expire first_timer r;
       move_same_timers first_time r
     }
   }"

lemmas reactor_loops [code] = move_expired_timers.simps move_same_timers.simps

definition BReactor_RemoveSmallTimer :: "nat \<Rightarrow> 'h BReactor \<Rightarrow> 'h BReactor option" where
  "BReactor_RemoveSmallTimer t r =
     (if bt_state (rc_timers r t) = TIMER_STATE_INACTIVE then Some r
      else do {
        r \<leftarrow> (if bt_state (rc_timers r t) = TIMER_STATE_EXPIRED
              then Some (r\<lparr>rc_timers_expired_list := LinkedList1_Remove t (rc_timers_expired_list r)\<rparr>)
              else do { tree \<leftarrow> CAvl_Remove t (timers_tree r); Some (r\<lparr>rc_timers_tree := tree\<rparr>) });
        Some (set_timer_state t TIMER_STATE_INACTIVE r)
      })"

text \<open>\<open>now\<close> is the reading of the clock, which is used in the relative mode only.\<close>

definition BReactor_SetSmallTimer :: "nat \<Rightarrow> timer_mode \<Rightarrow> int \<Rightarrow> int \<Rightarrow> 'h BReactor \<Rightarrow> 'h BReactor option" where
  "BReactor_SetSmallTimer t mode time now r = do {
     r \<leftarrow> BReactor_RemoveSmallTimer t r;
     let time = (if mode = BTIMER_SET_RELATIVE then btime_add now time else time);
     let r = r\<lparr>rc_timers := (rc_timers r)(t := (rc_timers r t)\<lparr>bt_absTime := time\<rparr>)\<rparr>;
     let r = set_timer_state t TIMER_STATE_RUNNING r;
     (res, _, tree) \<leftarrow> CAvl_Insert t (timers_tree r);
     if res then Some (r\<lparr>rc_timers_tree := tree\<rparr>) else None
   }"

definition BReactor_SetTimer :: "nat \<Rightarrow> int \<Rightarrow> 'h BReactor \<Rightarrow> 'h BReactor option" where
  "BReactor_SetTimer t now r = BReactor_SetSmallTimer t BTIMER_SET_RELATIVE (bt_msTime (rc_timers r t)) now r"

definition BReactor_SetTimerAfter :: "nat \<Rightarrow> int \<Rightarrow> int \<Rightarrow> 'h BReactor \<Rightarrow> 'h BReactor option" where
  "BReactor_SetTimerAfter t after now r = BReactor_SetSmallTimer t BTIMER_SET_RELATIVE after now r"

definition BReactor_SetTimerAbsolute :: "nat \<Rightarrow> int \<Rightarrow> 'h BReactor \<Rightarrow> 'h BReactor option" where
  "BReactor_SetTimerAbsolute t time r = BReactor_SetSmallTimer t BTIMER_SET_ABSOLUTE time 0 r"

definition BReactor_RemoveTimer :: "nat \<Rightarrow> 'h BReactor \<Rightarrow> 'h BReactor option" where
  "BReactor_RemoveTimer t r = BReactor_RemoveSmallTimer t r"

section \<open>File descriptors\<close>

text \<open>
  \<^verbatim>\<open>epoll_ctl\<close>: adding a descriptor that is there fails, as may any addition (\<open>ok\<close>); changing and deleting one fail
  exactly when it is not there.
\<close>

definition epoll_ctl_add :: "bool \<Rightarrow> int \<Rightarrow> epoll_event \<Rightarrow> 'h BReactor \<Rightarrow> 'h BReactor option" where
  "epoll_ctl_add ok fd event r =
     (if \<not> ok \<or> rc_efd r fd \<noteq> None then None else Some (r\<lparr>rc_efd := (rc_efd r)(fd \<mapsto> event)\<rparr>))"

definition epoll_ctl_mod :: "int \<Rightarrow> epoll_event \<Rightarrow> 'h BReactor \<Rightarrow> 'h BReactor option" where
  "epoll_ctl_mod fd event r = (if rc_efd r fd = None then None else Some (r\<lparr>rc_efd := (rc_efd r)(fd \<mapsto> event)\<rparr>))"

definition epoll_ctl_del :: "int \<Rightarrow> 'h BReactor \<Rightarrow> 'h BReactor option" where
  "epoll_ctl_del fd r = (if rc_efd r fd = None then None else Some (r\<lparr>rc_efd := (rc_efd r)(fd := None)\<rparr>))"

definition BFileDescriptor_Init :: "nat \<Rightarrow> int \<Rightarrow> 'h \<Rightarrow> 'h BReactor \<Rightarrow> 'h BReactor" where
  "BFileDescriptor_Init bs fd handler r =
     r\<lparr>rc_fds := (rc_fds r)(bs := (rc_fds r bs)\<lparr>fd_fd := fd, fd_handler := handler, fd_active := False\<rparr>)\<rparr>"

text \<open>The result and the reactor after \<^verbatim>\<open>BReactor_AddFileDescriptor\<close>.\<close>

definition BReactor_AddFileDescriptor :: "bool \<Rightarrow> nat \<Rightarrow> 'h BReactor \<Rightarrow> (bool \<times> 'h BReactor) option" where
  "BReactor_AddFileDescriptor ok bs r =
     (if fd_active (rc_fds r bs) then None
      else case epoll_ctl_add ok (fd_fd (rc_fds r bs)) \<lparr>ev_events = 0, ev_ptr = Some bs\<rparr> r of
          None \<Rightarrow> Some (False, r)
        | Some r \<Rightarrow>
            Some (True, r\<lparr>rc_fds := (rc_fds r)(bs := (rc_fds r bs)
                \<lparr>fd_epoll_returned_ptr := None, fd_active := True, fd_waitEvents := 0\<rparr>)\<rparr>))"

definition BReactor_RemoveFileDescriptor :: "nat \<Rightarrow> 'h BReactor \<Rightarrow> 'h BReactor option" where
  "BReactor_RemoveFileDescriptor bs r =
     (if \<not> fd_active (rc_fds r bs) then None
      else do {
        let r = r\<lparr>rc_fds := (rc_fds r)(bs := (rc_fds r bs)\<lparr>fd_active := False\<rparr>)\<rparr>;
        r \<leftarrow> epoll_ctl_del (fd_fd (rc_fds r bs)) r;
        Some (case fd_epoll_returned_ptr (rc_fds r bs) of
                Some i \<Rightarrow> r\<lparr>rc_epoll_results := (rc_epoll_results r)[i := (rc_epoll_results r ! i)\<lparr>ev_ptr := None\<rparr>]\<rparr>
              | None \<Rightarrow> r)
      })"

definition BReactor_SetFileDescriptorEvents :: "nat \<Rightarrow> u32 \<Rightarrow> 'h BReactor \<Rightarrow> 'h BReactor option" where
  "BReactor_SetFileDescriptorEvents bs events r =
     (if \<not> fd_active (rc_fds r bs) \<or> events AND NOT (BREACTOR_READ OR BREACTOR_WRITE) \<noteq> 0 then None
      else if fd_waitEvents (rc_fds r bs) = events then Some r
      else
        let eevents = (if events AND BREACTOR_READ \<noteq> 0 then EPOLLIN else 0);
            eevents = (if events AND BREACTOR_WRITE \<noteq> 0 then eevents OR EPOLLOUT else eevents)
        in do {
          r \<leftarrow> epoll_ctl_mod (fd_fd (rc_fds r bs)) \<lparr>ev_events = eevents, ev_ptr = Some bs\<rparr> r;
          Some (r\<lparr>rc_fds := (rc_fds r)(bs := (rc_fds r bs)\<lparr>fd_waitEvents := events\<rparr>)\<rparr>)
        })"

section \<open>Limits\<close>

definition BReactorLimit_Init :: "nat \<Rightarrow> int \<Rightarrow> 'h BReactor \<Rightarrow> 'h BReactor option" where
  "BReactorLimit_Init o1 limit r =
     (if \<not> limit > 0 then None
      else Some (r\<lparr>rc_limits := (rc_limits r)(o1 := \<lparr>lim_limit = limit, lim_count = 0\<rparr>)\<rparr>))"

definition BReactorLimit_Free :: "nat \<Rightarrow> 'h BReactor \<Rightarrow> 'h BReactor" where
  "BReactorLimit_Free o1 r =
     (if lim_count (rc_limits r o1) > 0
      then r\<lparr>rc_active_limits_list := LinkedList1_Remove o1 (rc_active_limits_list r)\<rparr> else r)"

definition BReactorLimit_Increment :: "nat \<Rightarrow> 'h BReactor \<Rightarrow> bool \<times> 'h BReactor" where
  "BReactorLimit_Increment o1 r =
     (if lim_count (rc_limits r o1) \<ge> lim_limit (rc_limits r o1) then (False, r)
      else
        let r = r\<lparr>rc_limits := (rc_limits r)(o1 := (rc_limits r o1)\<lparr>lim_count := lim_count (rc_limits r o1) + 1\<rparr>)\<rparr>
        in (True, if lim_count (rc_limits r o1) = 1
                  then r\<lparr>rc_active_limits_list := LinkedList1_Append o1 (rc_active_limits_list r)\<rparr> else r))"

definition BReactorLimit_SetLimit :: "nat \<Rightarrow> int \<Rightarrow> 'h BReactor \<Rightarrow> 'h BReactor option" where
  "BReactorLimit_SetLimit o1 limit r =
     (if \<not> limit > 0 then None
      else Some (r\<lparr>rc_limits := (rc_limits r)(o1 := (rc_limits r o1)\<lparr>lim_limit := limit\<rparr>)\<rparr>))"

text \<open>The loop at the end of \<^verbatim>\<open>wait_for_events\<close>.\<close>

partial_function (option) reset_limits :: "'h BReactor \<Rightarrow> 'h BReactor option" where
  "reset_limits r =
     (case LinkedList1_GetFirst (rc_active_limits_list r) of
        None \<Rightarrow> Some r
      | Some limit \<Rightarrow>
          if \<not> lim_count (rc_limits r limit) > 0 then None
          else
            let r = r\<lparr>rc_limits := (rc_limits r)(limit := (rc_limits r limit)\<lparr>lim_count := 0\<rparr>)\<rparr>
            in reset_limits (r\<lparr>rc_active_limits_list := LinkedList1_Remove limit (rc_active_limits_list r)\<rparr>))"

lemmas reset_limits_code [code] = reset_limits.simps

section \<open>Waiting\<close>

text \<open>The loop of \<^verbatim>\<open>set_epoll_fd_pointers\<close> from entry \<open>i\<close> on.\<close>

fun set_epoll_fd_pointers :: "nat \<Rightarrow> epoll_event list \<Rightarrow> (nat \<Rightarrow> 'h BFileDescriptor) \<Rightarrow> (nat \<Rightarrow> 'h BFileDescriptor) option" where
  "set_epoll_fd_pointers i [] fds = Some fds"
| "set_epoll_fd_pointers i (event # events) fds =
     (case ev_ptr event of
        None \<Rightarrow> None
      | Some bfd \<Rightarrow>
          if \<not> fd_active (fds bfd) \<or> fd_epoll_returned_ptr (fds bfd) \<noteq> None then None
          else set_epoll_fd_pointers (Suc i) events (fds(bfd := (fds bfd)\<lparr>fd_epoll_returned_ptr := Some i\<rparr>)))"

text \<open>
  What \<^verbatim>\<open>epoll_wait\<close> answers: events, none of them when the time is over, an interruption (\<^verbatim>\<open>EINTR\<close>) or another error. Each answer
  comes with the time at which \<^verbatim>\<open>epoll_wait\<close> returns. When the answers end, the program is still in \<^verbatim>\<open>epoll_wait\<close>, with the given timeout.
\<close>

datatype epoll_answer = Epoll_Events "epoll_event list" | Epoll_Interrupted | Epoll_Error

datatype 'h waited =
    Wait_Returns (waited_timers: bool) (waited_reactor: "'h BReactor")
  | Wait_Blocks int
  | Wait_Fails

definition timeout_rel_trunc :: "int option \<Rightarrow> int \<Rightarrow> int" where
  "timeout_rel_trunc timeout_abs now =
     (case timeout_abs of None \<Rightarrow> 0 | Some t \<Rightarrow> if t - now > INT_MAX then INT_MAX else t - now)"

definition epoll_timeout :: "int option \<Rightarrow> int \<Rightarrow> int" where
  "epoll_timeout timeout_abs now = (if timeout_abs = None then -1 else timeout_rel_trunc timeout_abs now)"

text \<open>After the loop the limits are reset.\<close>

definition leave_wait :: "'h BReactor option \<Rightarrow> 'h waited" where
  "leave_wait r = (case r \<bind> reset_limits of None \<Rightarrow> Wait_Fails | Some r \<Rightarrow> Wait_Returns False r)"

fun epoll_loop :: "int option \<Rightarrow> int \<Rightarrow> (epoll_answer \<times> int) list \<Rightarrow> 'h BReactor \<Rightarrow> 'h waited" where
  "epoll_loop timeout_abs now [] r = Wait_Blocks (epoll_timeout timeout_abs now)"
| "epoll_loop timeout_abs now ((answer, after) # env) r =
     (let timeout_rel = (case timeout_abs of None \<Rightarrow> 0 | Some t \<Rightarrow> t - now);
          try_again =
            (case timeout_abs of
               None \<Rightarrow> epoll_loop timeout_abs now env r
             | Some t \<Rightarrow> if after \<ge> t then leave_wait (move_first_timers r) else epoll_loop timeout_abs after env r)
      in case answer of
           Epoll_Error \<Rightarrow> Wait_Fails
         | Epoll_Interrupted \<Rightarrow> try_again
         | Epoll_Events events \<Rightarrow>
             if events = [] \<and> timeout_abs = None \<or> length events > BSYSTEM_MAX_RESULTS then Wait_Fails
             else if events \<noteq> [] then
               (case set_epoll_fd_pointers 0 events (rc_fds r) of
                  None \<Rightarrow> Wait_Fails
                | Some fds \<Rightarrow>
                    leave_wait (Some (r\<lparr>rc_epoll_results := events @ drop (length events) (rc_epoll_results r),
                      rc_epoll_results_num := length events, rc_fds := fds\<rparr>)))
             else if timeout_rel_trunc timeout_abs now = timeout_rel then leave_wait (move_first_timers r)
             else try_again)"

definition wait_for_events :: "int \<Rightarrow> (epoll_answer \<times> int) list \<Rightarrow> 'h BReactor \<Rightarrow> 'h waited" where
  "wait_for_events now env r =
     (if BPendingGroup_HasJobs (rc_pending_jobs r) \<or> \<not> LinkedList1_IsEmpty (rc_timers_expired_list r)
         \<or> rc_epoll_results_pos r \<noteq> rc_epoll_results_num r then Wait_Fails
      else
        let r = r\<lparr>rc_epoll_results_num := 0, rc_epoll_results_pos := 0\<rparr>
        in case CAvl_GetFirst (timers_tree r) of
             None \<Rightarrow> Wait_Fails
           | Some None \<Rightarrow> epoll_loop None 0 env r
           | Some (Some first_timer) \<Rightarrow>
               if bt_state (rc_timers r first_timer) \<noteq> TIMER_STATE_RUNNING then Wait_Fails
               else case move_expired_timers now False r of
                      None \<Rightarrow> Wait_Fails
                    | Some (True, r) \<Rightarrow> Wait_Returns True r
                    | Some (False, r) \<Rightarrow> epoll_loop (Some (bt_absTime (rc_timers r first_timer))) now env r)"

section \<open>The loop\<close>

definition BReactor_Init :: "bool \<Rightarrow> 'h BReactor \<Rightarrow> 'h BReactor option" where
  "BReactor_Init epoll_ok r =
     (let r = r\<lparr>rc_exiting := False, rc_pending_jobs := BPendingGroup_Init (rc_pending_jobs r),
                rc_timers_tree := CAvl_Init (rc_timers_tree r),
                rc_timers_expired_list := LinkedList1_Init (rc_timers_expired_list r),
                rc_active_limits_list := LinkedList1_Init (rc_active_limits_list r)\<rparr>
      in if \<not> epoll_ok then None
         else Some (r\<lparr>rc_efd := Map.empty, rc_epoll_results_num := 0, rc_epoll_results_pos := 0\<rparr>))"

text \<open>The assertions of \<^verbatim>\<open>BReactor_Free\<close>; then the descriptor of \<^verbatim>\<open>epoll\<close> is closed.\<close>

definition BReactor_Free :: "'h BReactor \<Rightarrow> 'h BReactor option" where
  "BReactor_Free r =
     (if BPendingGroup_HasJobs (rc_pending_jobs r) \<or> \<not> CAvl_IsEmpty (timers_tree r)
         \<or> \<not> LinkedList1_IsEmpty (rc_timers_expired_list r) \<or> \<not> LinkedList1_IsEmpty (rc_active_limits_list r) then None
      else Some (r\<lparr>rc_efd := Map.empty\<rparr>))"

definition BReactor_Quit :: "int \<Rightarrow> 'h BReactor \<Rightarrow> 'h BReactor" where
  "BReactor_Quit code r = r\<lparr>rc_exiting := True, rc_exit_code := code\<rparr>"

definition report_events :: "u32 \<Rightarrow> u32 \<Rightarrow> u32" where
  "report_events waitEvents eevents =
     (let events = (0 :: u32);
          events = (if waitEvents AND BREACTOR_READ \<noteq> 0 \<and> eevents AND EPOLLIN \<noteq> 0 then events OR BREACTOR_READ else events);
          events = (if waitEvents AND BREACTOR_WRITE \<noteq> 0 \<and> eevents AND EPOLLOUT \<noteq> 0 then events OR BREACTOR_WRITE else events);
          events = (if eevents AND EPOLLERR \<noteq> 0 then events OR BREACTOR_ERROR else events)
      in if eevents AND EPOLLHUP \<noteq> 0 then events OR BREACTOR_HUP else events)"

text \<open>What an iteration of the loop does: the handler it calls, or what else happens.\<close>

datatype 'h dispatched =
    Ran_Job 'h
  | Ran_Timer nat 'h
  | Ran_FD nat 'h u32
  | Skipped_Event "nat option"
  | Waited bool
  | Blocked int
  | Exited int

text \<open>
  One iteration of the loop of \<^verbatim>\<open>BReactor_Exec\<close> up to the call of the handler. What the handler then does to the
  reactor is up to the program.
\<close>

definition BReactor_Exec_iteration ::
    "int \<Rightarrow> (epoll_answer \<times> int) list \<Rightarrow> 'h BReactor \<Rightarrow> ('h dispatched \<times> 'h BReactor) option" where
  "BReactor_Exec_iteration now env r =
     (if rc_exiting r then Some (Exited (rc_exit_code r), r)
      else if BPendingGroup_HasJobs (rc_pending_jobs r) then do {
        (g, handler) \<leftarrow> BPendingGroup_ExecuteJob (rc_pending_jobs r);
        Some (Ran_Job handler, r\<lparr>rc_pending_jobs := g\<rparr>)
      }
      else case LinkedList1_GetFirst (rc_timers_expired_list r) of
        Some timer \<Rightarrow>
          if bt_state (rc_timers r timer) \<noteq> TIMER_STATE_EXPIRED then None
          else
            let r = r\<lparr>rc_timers_expired_list := LinkedList1_Remove timer (rc_timers_expired_list r)\<rparr>;
                r = set_timer_state timer TIMER_STATE_INACTIVE r
            in Some (Ran_Timer timer (bt_handler (rc_timers r timer)), r)
      | None \<Rightarrow>
          if rc_epoll_results_pos r < rc_epoll_results_num r then
            let pos = rc_epoll_results_pos r;
                event = rc_epoll_results r ! pos;
                r = r\<lparr>rc_epoll_results_pos := pos + 1\<rparr>
            in case ev_ptr event of
                 None \<Rightarrow> Some (Skipped_Event None, r)
               | Some bfd \<Rightarrow>
                   if \<not> fd_active (rc_fds r bfd) \<or> fd_epoll_returned_ptr (rc_fds r bfd) \<noteq> Some pos then None
                   else
                     let r = r\<lparr>rc_fds := (rc_fds r)(bfd := (rc_fds r bfd)\<lparr>fd_epoll_returned_ptr := None\<rparr>)\<rparr>;
                         events = report_events (fd_waitEvents (rc_fds r bfd)) (ev_events event)
                     in if events = 0 then Some (Skipped_Event (Some bfd), r)
                        else Some (Ran_FD bfd (fd_handler (rc_fds r bfd)) events, r)
          else case wait_for_events now env r of
                 Wait_Fails \<Rightarrow> None
               | Wait_Blocks timeout \<Rightarrow> Some (Blocked timeout, r)
               | Wait_Returns timers r \<Rightarrow> Some (Waited timers, r))"

text \<open>\<^verbatim>\<open>BReactor_Synchronize\<close> executes the jobs before \<open>ref\<close>; one iteration of its loop: \<open>Inl\<close> the result.\<close>

definition BReactor_Synchronize_iteration :: "nat \<Rightarrow> 'h BReactor \<Rightarrow> (bool + 'h \<times> 'h BReactor) option" where
  "BReactor_Synchronize_iteration ref r =
     (if rc_exiting r then Some (Inl False)
      else if \<not> BPendingGroup_HasJobs (rc_pending_jobs r) then None
      else if BPendingGroup_PeekJob (rc_pending_jobs r) = Some ref then Some (Inl True)
      else do {
        (g, handler) \<leftarrow> BPendingGroup_ExecuteJob (rc_pending_jobs r);
        Some (Inr (handler, r\<lparr>rc_pending_jobs := g\<rparr>))
      })"

end
