(* ===== verification/Reactor_Timers.thy ===== *)
theory Reactor_Timers
  imports Reactor
begin

text \<open>
  What the timers of the reactor stand for: the tree holds the running timers in the order of their times, the list
  the expired ones, in that order too. Every operation on timers succeeds and changes the two sequences as an operation on
  sorted lists does. The tree is used through the contract of \<open>Ordered_Queue\<close>, the list through \<open>ll_rep\<close>.
\<close>

section \<open>The two sequences\<close>

lemma compare_timers_order: "compare_timers = number_order"
  by (auto simp: fun_eq_iff compare_timers_def number_order_def cmp_lex_def Let_def)

abbreviation abs_of :: "'h BReactor \<Rightarrow> nat \<Rightarrow> int" where
  "abs_of r t \<equiv> bt_absTime (rc_timers r t)"

abbreviation state_of :: "'h BReactor \<Rightarrow> nat \<Rightarrow> timer_state" where
  "state_of r t \<equiv> bt_state (rc_timers r t)"

definition earlier :: "'h BReactor \<Rightarrow> nat \<Rightarrow> nat \<Rightarrow> bool" where
  "earlier r s t \<longleftrightarrow> abs_of r s < abs_of r t \<or> abs_of r s = abs_of r t \<and> s < t"

lemma number_order_earlier: "number_order (abs_of r s, s) (abs_of r t, t) < 0 \<longleftrightarrow> earlier r s t"
  by (simp add: number_order_less earlier_def)

definition timers_inv :: "nat set \<Rightarrow> 'h BReactor \<Rightarrow> nat list \<Rightarrow> nat list \<Rightarrow> bool" where
  "timers_inv T r rs es \<longleftrightarrow>
     bavl_holds UNIV compare_timers (timers_tree r) rs \<and> ll_rep (rc_timers_expired_list r) es
     \<and> set rs = {t \<in> T. state_of r t = TIMER_STATE_RUNNING} \<and> set es = {t \<in> T. state_of r t = TIMER_STATE_EXPIRED}
     \<and> sorted_wrt (earlier r) es"

text \<open>What the operations on timers leave alone.\<close>

definition timers_only :: "'h BReactor \<Rightarrow> 'h BReactor \<Rightarrow> bool" where
  "timers_only r r' \<longleftrightarrow>
     (\<exists>tree l ts. r' = r\<lparr>rc_timers_tree := tree, rc_timers_expired_list := l, rc_timers := ts\<rparr>)
     \<and> (\<forall>t. bt_handler (rc_timers r' t) = bt_handler (rc_timers r t) \<and> bt_msTime (rc_timers r' t) = bt_msTime (rc_timers r t))"

lemma timers_onlyI:
  assumes "rc_exiting r' = rc_exiting r" "rc_exit_code r' = rc_exit_code r" "rc_pending_jobs r' = rc_pending_jobs r"
    "rc_active_limits_list r' = rc_active_limits_list r" "rc_limits r' = rc_limits r" "rc_fds r' = rc_fds r"
    "rc_efd r' = rc_efd r" "rc_epoll_results r' = rc_epoll_results r"
    "rc_epoll_results_num r' = rc_epoll_results_num r" "rc_epoll_results_pos r' = rc_epoll_results_pos r"
    "\<And>t. bt_handler (rc_timers r' t) = bt_handler (rc_timers r t) \<and> bt_msTime (rc_timers r' t) = bt_msTime (rc_timers r t)"
  shows "timers_only r r'"
  unfolding timers_only_def
proof (intro conjI allI assms exI)
  show "r' = r\<lparr>rc_timers_tree := rc_timers_tree r', rc_timers_expired_list := rc_timers_expired_list r', rc_timers := rc_timers r'\<rparr>"
    using assms by (intro BReactor.equality) simp_all
qed (use assms in simp_all)

lemma timers_only_refl: "timers_only r r"
  unfolding timers_only_def
  by (intro conjI exI [of _ "rc_timers_tree r"] exI [of _ "rc_timers_expired_list r"] exI [of _ "rc_timers r"]) simp_all

lemma timers_only_fields:
  assumes "timers_only r r'"
  shows "rc_exiting r' = rc_exiting r" "rc_exit_code r' = rc_exit_code r" "rc_pending_jobs r' = rc_pending_jobs r"
    "rc_active_limits_list r' = rc_active_limits_list r" "rc_limits r' = rc_limits r" "rc_fds r' = rc_fds r"
    "rc_efd r' = rc_efd r" "rc_epoll_results r' = rc_epoll_results r"
    "rc_epoll_results_num r' = rc_epoll_results_num r" "rc_epoll_results_pos r' = rc_epoll_results_pos r"
  using assms by (auto simp: timers_only_def)

lemma timers_only_trans: "timers_only r r' \<Longrightarrow> timers_only r' r'' \<Longrightarrow> timers_only r r''"
  by (auto simp: timers_only_def) blast

lemma timers_tree_simps [simp]:
  "avl_val (timers_tree r) = (\<lambda>t. (abs_of r t, t))" "avl_cmp (timers_tree r) = compare_timers"
  by (simp_all add: timers_tree_def)

lemma timers_inv_sorted:
  assumes "timers_inv T r rs es"
  shows "sorted_wrt (earlier r) rs" "distinct rs" "distinct es" "set rs \<inter> set es = {}"
proof -
  show s: "sorted_wrt (earlier r) rs"
    using assms by (simp add: timers_inv_def bavl_holds_def compare_timers_order number_order_earlier)
  have d: "sorted_wrt (earlier r) ys \<Longrightarrow> distinct ys" for ys
    by (induction ys) (auto simp: earlier_def)
  show "distinct rs" by (rule d [OF s])
  show "distinct es" "set rs \<inter> set es = {}"
    using assms by (auto simp: timers_inv_def ll_rep_def)
qed

lemma timers_first:
  assumes "timers_inv T r rs es"
  shows "CAvl_GetFirst (timers_tree r) = Some (first_opt rs)"
  using assms number_tree.queue.q_first by (auto simp: timers_inv_def compare_timers_order)

lemma earlier_cong: "(\<And>t. abs_of r' t = abs_of r t) \<Longrightarrow> earlier r' = earlier r"
  by (simp add: earlier_def fun_eq_iff)

text \<open>The tree after a removal.\<close>

lemma timers_tree_remove:
  assumes h: "bavl_holds UNIV compare_timers (timers_tree r) rs" and t: "t \<in> set rs"
  obtains tree where "CAvl_Remove t (timers_tree r) = Some tree" "avl_cmp tree = compare_timers"
    "avl_val tree = (\<lambda>t. (abs_of r t, t))" "bavl_holds UNIV compare_timers tree (remove1 t rs)"
proof -
  obtain tree where "CAvl_Remove t (timers_tree r) = Some tree" "avl_val tree = avl_val (timers_tree r)"
    "bavl_holds UNIV compare_timers tree (remove1 t rs)"
    using number_tree.queue.q_rm [of "timers_tree r" rs t] h t unfolding compare_timers_order by auto
  then show ?thesis by (intro that) (auto simp: bavl_holds_def)
qed

lemma timers_tree_of:
  "avl_cmp tree = compare_timers \<Longrightarrow> avl_val tree = (\<lambda>t. (abs_of r t, t)) \<Longrightarrow> rc_timers_tree r = tree \<Longrightarrow>
    timers_tree r = tree"
  by (simp add: timers_tree_def)

lemma expire_inv:
  assumes inv: "timers_inv T r (t # rs) es" and s: "\<forall>e\<in>set es. earlier r e t"
  obtains r' where "expire t r = Some r'" "timers_inv T r' rs (es @ [t])" "timers_only r r'"
    "\<And>x. abs_of r' x = abs_of r x"
proof -
  obtain tree where tree: "CAvl_Remove t (timers_tree r) = Some tree" "avl_cmp tree = compare_timers"
    "avl_val tree = (\<lambda>t. (abs_of r t, t))" "bavl_holds UNIV compare_timers tree rs"
    using timers_tree_remove [of r "t # rs" t] inv by (auto simp: timers_inv_def)
  let ?r = "set_timer_state t TIMER_STATE_EXPIRED (r\<lparr>rc_timers_tree := tree,
    rc_timers_expired_list := LinkedList1_Append t (rc_timers_expired_list r)\<rparr>)"
  have a: "abs_of ?r x = abs_of r x" for x by (simp add: set_timer_state_def)
  have st: "state_of ?r x = (if x = t then TIMER_STATE_EXPIRED else state_of r x)" for x
    by (simp add: set_timer_state_def)
  have tt: "timers_tree ?r = tree" 
    using tree(2,3) a by (intro timers_tree_of) (simp_all add: set_timer_state_def)
  note so = timers_inv_sorted [OF inv]
  have "ll_rep (rc_timers_expired_list ?r) (es @ [t])"
    using inv so(4) by (auto simp: timers_inv_def set_timer_state_def intro!: ll_rep_Append)
  moreover have "set rs = {x \<in> T. state_of ?r x = TIMER_STATE_RUNNING}"
    using inv so(2) by (auto simp: timers_inv_def st)
  moreover have "set (es @ [t]) = {x \<in> T. state_of ?r x = TIMER_STATE_EXPIRED}"
    using inv by (auto simp: timers_inv_def st)
  moreover have "sorted_wrt (earlier ?r) (es @ [t])"
    using inv s earlier_cong [of ?r r, OF a] by (auto simp: timers_inv_def sorted_wrt_append)
  ultimately have "timers_inv T ?r rs (es @ [t])" using tree(4) by (simp add: timers_inv_def tt)
  moreover have "timers_only r ?r" by (rule timers_onlyI) (simp_all add: set_timer_state_def)

  ultimately show ?thesis using tree(1) a by (intro that [of ?r]) (simp_all add: expire_def)
qed

lemma takeWhile_move:
  "sorted_wrt P (es @ x # rs) \<Longrightarrow> sorted_wrt P ((es @ [x]) @ rs)"
  by simp

lemma move_expired_inv:
  assumes "timers_inv T r rs es" "sorted_wrt (earlier r) (es @ rs)"
  shows "\<exists>r'. move_expired_timers now moved r = Some (moved \<or> takeWhile (\<lambda>t. abs_of r t \<le> now) rs \<noteq> [], r')
    \<and> timers_inv T r' (dropWhile (\<lambda>t. abs_of r t \<le> now) rs) (es @ takeWhile (\<lambda>t. abs_of r t \<le> now) rs)
    \<and> timers_only r r' \<and> (\<forall>x. abs_of r' x = abs_of r x)"
  using assms
proof (induction rs arbitrary: r es moved)
  case Nil
  then show ?case using timers_first [OF Nil(1)]
    by (subst move_expired_timers.simps) (simp add: timers_only_refl)
next
  case (Cons t rs)
  have run: "state_of r t = TIMER_STATE_RUNNING" using Cons.prems(1) by (auto simp: timers_inv_def)
  show ?case
  proof (cases "abs_of r t \<le> now")
    case False
    then show ?thesis using timers_first [OF Cons.prems(1)] run Cons.prems(1)
      by (subst move_expired_timers.simps) (simp add: timers_only_refl)
  next
    case True
    obtain r1 where r1: "expire t r = Some r1" "timers_inv T r1 rs (es @ [t])" "timers_only r r1"
      "\<And>x. abs_of r1 x = abs_of r x"
      using expire_inv [OF Cons.prems(1)] Cons.prems(2) by (auto simp: sorted_wrt_append)
    have "sorted_wrt (earlier r1) ((es @ [t]) @ rs)"
      using Cons.prems(2) earlier_cong [of r1 r, OF r1(4)] by simp
    from Cons.IH [OF r1(2) this, of True] obtain r' where r': "move_expired_timers now True r1 = Some (True, r')"
      "timers_inv T r' (dropWhile (\<lambda>t. abs_of r t \<le> now) rs) ((es @ [t]) @ takeWhile (\<lambda>t. abs_of r t \<le> now) rs)"
      "timers_only r1 r'" "\<forall>x. abs_of r' x = abs_of r x"
      by (auto simp: r1(4))
    have "move_expired_timers now moved r = Some (True, r')"
      using timers_first [OF Cons.prems(1)] run True r1(1) r'(1) by (subst move_expired_timers.simps) simp
    then show ?thesis using r' True timers_only_trans [OF r1(3) r'(3)] by simp
  qed
qed

lemma move_same_inv:
  assumes "timers_inv T r rs es" "sorted_wrt (earlier r) (es @ rs)" "\<forall>t\<in>set rs. a \<le> abs_of r t"
  shows "\<exists>r'. move_same_timers a r = Some r'
    \<and> timers_inv T r' (dropWhile (\<lambda>t. abs_of r t = a) rs) (es @ takeWhile (\<lambda>t. abs_of r t = a) rs)
    \<and> timers_only r r' \<and> (\<forall>x. abs_of r' x = abs_of r x)"
  using assms
proof (induction rs arbitrary: r es)
  case Nil
  then show ?case using timers_first [OF Nil(1)]
    by (subst move_same_timers.simps) (simp add: timers_only_refl)
next
  case (Cons t rs)
  have run: "state_of r t = TIMER_STATE_RUNNING" using Cons.prems(1) by (auto simp: timers_inv_def)
  show ?case
  proof (cases "abs_of r t = a")
    case False
    then show ?thesis using timers_first [OF Cons.prems(1)] run Cons.prems(1,3)
      by (subst move_same_timers.simps) (simp add: timers_only_refl)
  next
    case True
    obtain r1 where r1: "expire t r = Some r1" "timers_inv T r1 rs (es @ [t])" "timers_only r r1"
      "\<And>x. abs_of r1 x = abs_of r x"
      using expire_inv [OF Cons.prems(1)] Cons.prems(2) by (auto simp: sorted_wrt_append)
    have "sorted_wrt (earlier r1) ((es @ [t]) @ rs)"
      using Cons.prems(2) earlier_cong [of r1 r, OF r1(4)] by simp
    from Cons.IH [OF r1(2) this] obtain r' where r': "move_same_timers a r1 = Some r'"
      "timers_inv T r' (dropWhile (\<lambda>t. abs_of r t = a) rs) ((es @ [t]) @ takeWhile (\<lambda>t. abs_of r t = a) rs)"
      "timers_only r1 r'" "\<forall>x. abs_of r' x = abs_of r x"
      using Cons.prems(3) by (auto simp: r1(4))
    have "move_same_timers a r = Some r'"
      using timers_first [OF Cons.prems(1)] run True r1(1) r'(1) by (subst move_same_timers.simps) simp
    then show ?thesis using r' True timers_only_trans [OF r1(3) r'(3)] by simp
  qed
qed

lemma move_first_inv:
  assumes inv: "timers_inv T r (t # rs) []"
  shows "\<exists>r'. move_first_timers r = Some r'
    \<and> timers_inv T r' (dropWhile (\<lambda>x. abs_of r x = abs_of r t) (t # rs)) (takeWhile (\<lambda>x. abs_of r x = abs_of r t) (t # rs))
    \<and> timers_only r r' \<and> (\<forall>x. abs_of r' x = abs_of r x)"
proof -
  have run: "state_of r t = TIMER_STATE_RUNNING" using inv by (auto simp: timers_inv_def)
  obtain r1 where r1: "expire t r = Some r1" "timers_inv T r1 rs [t]" "timers_only r r1" "\<And>x. abs_of r1 x = abs_of r x"
    using expire_inv [OF inv] by auto
  have s: "sorted_wrt (earlier r1) ([t] @ rs)"
    using timers_inv_sorted(1) [OF inv] earlier_cong [of r1 r, OF r1(4)] by simp
  have "\<forall>x\<in>set rs. abs_of r t \<le> abs_of r1 x"
    using timers_inv_sorted(1) [OF inv] by (auto simp: r1(4) earlier_def)
  from move_same_inv [OF r1(2) s this] obtain r' where "move_same_timers (abs_of r t) r1 = Some r'"
    "timers_inv T r' (dropWhile (\<lambda>x. abs_of r x = abs_of r t) rs) ([t] @ takeWhile (\<lambda>x. abs_of r x = abs_of r t) rs)"
    "timers_only r1 r'" "\<forall>x. abs_of r' x = abs_of r x"
    by (auto simp: r1(4))
  then show ?thesis
    using timers_first [OF inv] run r1(1) timers_only_trans [OF r1(3)] by (auto simp: move_first_timers_def)
qed

lemma sorted_remove1: "sorted_wrt P xs \<Longrightarrow> sorted_wrt P (remove1 x xs)"
proof (induction xs)
  case (Cons a xs)
  then show ?case using set_remove1_subset [of x xs] by auto
qed simp

lemma remove_timer_inv:
  assumes inv: "timers_inv T r rs es" and t: "t \<in> T"
  shows "\<exists>r'. BReactor_RemoveSmallTimer t r = Some r' \<and> timers_inv T r' (remove1 t rs) (remove1 t es) \<and> timers_only r r'
    \<and> (\<forall>x. abs_of r' x = abs_of r x)
    \<and> (\<forall>x. state_of r' x = (if x = t then TIMER_STATE_INACTIVE else state_of r x))"
proof -
  note so = timers_inv_sorted [OF inv]
  have S: "bavl_holds UNIV compare_timers (timers_tree r) rs" "ll_rep (rc_timers_expired_list r) es"
    "set rs = {t \<in> T. state_of r t = TIMER_STATE_RUNNING}" "set es = {t \<in> T. state_of r t = TIMER_STATE_EXPIRED}"
    "sorted_wrt (earlier r) es"
    using inv by (simp_all add: timers_inv_def)
  have fin: "timers_inv T r' (remove1 t rs) (remove1 t es)"
    if "bavl_holds UNIV compare_timers (timers_tree r') (remove1 t rs)" "ll_rep (rc_timers_expired_list r') (remove1 t es)"
      "\<And>x. abs_of r' x = abs_of r x" "\<And>x. state_of r' x = (if x = t then TIMER_STATE_INACTIVE else state_of r x)" for r'
    using that S(3-5) so(2,3) earlier_cong [of r' r, OF that(3)] sorted_remove1 [OF S(5)]
    by (auto simp: timers_inv_def)
  consider (none) "state_of r t = TIMER_STATE_INACTIVE" | (exp) "state_of r t = TIMER_STATE_EXPIRED"
    | (run) "state_of r t = TIMER_STATE_RUNNING" by (cases "state_of r t") auto
  then show ?thesis
  proof cases
    case none
    then have "t \<notin> set rs" "t \<notin> set es" using S(3,4) by auto
    then show ?thesis using none inv by (auto simp: BReactor_RemoveSmallTimer_def remove1_idem timers_only_refl)
  next
    case exp
    let ?r = "set_timer_state t TIMER_STATE_INACTIVE (r\<lparr>rc_timers_expired_list := LinkedList1_Remove t (rc_timers_expired_list r)\<rparr>)"
    have te: "t \<in> set es" "t \<notin> set rs" using exp t S(3,4) by auto
    have a: "abs_of ?r x = abs_of r x" for x by (simp add: set_timer_state_def)
    have tt: "timers_tree ?r = timers_tree r" using a by (simp add: timers_tree_def set_timer_state_def)
    have "timers_inv T ?r (remove1 t rs) (remove1 t es)"
    proof (rule fin)
      show "bavl_holds UNIV compare_timers (timers_tree ?r) (remove1 t rs)" using S(1) te(2) by (simp add: tt remove1_idem)
      show "ll_rep (rc_timers_expired_list ?r) (remove1 t es)" using ll_rep_remove1 [OF S(2) te(1)] by (simp add: set_timer_state_def)
    qed (simp_all add: set_timer_state_def)
    moreover have "timers_only r ?r" by (rule timers_onlyI) (simp_all add: set_timer_state_def)
    ultimately show ?thesis using exp a
      by (intro exI [of _ ?r]) (simp add: BReactor_RemoveSmallTimer_def set_timer_state_def)
  next
    case run
    then have tr: "t \<in> set rs" "t \<notin> set es" using t S(3,4) by auto
    obtain tree where tree: "CAvl_Remove t (timers_tree r) = Some tree" "avl_cmp tree = compare_timers"
      "avl_val tree = (\<lambda>t. (abs_of r t, t))" "bavl_holds UNIV compare_timers tree (remove1 t rs)"
      using timers_tree_remove [OF S(1) tr(1)] by blast
    let ?r = "set_timer_state t TIMER_STATE_INACTIVE (r\<lparr>rc_timers_tree := tree\<rparr>)"
    have a: "abs_of ?r x = abs_of r x" for x by (simp add: set_timer_state_def)
    have tt: "timers_tree ?r = tree"
      using tree(2,3) a by (intro timers_tree_of) (simp_all add: set_timer_state_def)
    have "timers_inv T ?r (remove1 t rs) (remove1 t es)"
    proof (rule fin)
      show "bavl_holds UNIV compare_timers (timers_tree ?r) (remove1 t rs)" using tree(4) by (simp add: tt)
      show "ll_rep (rc_timers_expired_list ?r) (remove1 t es)" using S(2) tr(2) by (simp add: set_timer_state_def remove1_idem)
    qed (simp_all add: set_timer_state_def)
    moreover have "timers_only r ?r" by (rule timers_onlyI) (simp_all add: set_timer_state_def)
    ultimately show ?thesis using run a tree(1)
      by (intro exI [of _ ?r]) (simp add: BReactor_RemoveSmallTimer_def set_timer_state_def)
  qed
qed

definition timer_due :: "timer_mode \<Rightarrow> int \<Rightarrow> int \<Rightarrow> int" where
  "timer_due mode time now = (if mode = BTIMER_SET_RELATIVE then btime_add now time else time)"

lemma set_timer_inv:
  assumes inv: "timers_inv T r rs es" and t: "t \<in> T"
  shows "\<exists>r' rs'. BReactor_SetSmallTimer t mode time now r = Some r' \<and> timers_inv T r' rs' (remove1 t es) \<and> timers_only r r'
    \<and> (\<forall>x. abs_of r' x = (if x = t then timer_due mode time now else abs_of r x))
    \<and> (\<forall>x. state_of r' x = (if x = t then TIMER_STATE_RUNNING else state_of r x))"
proof -
  obtain r1 where r1: "BReactor_RemoveSmallTimer t r = Some r1" "timers_inv T r1 (remove1 t rs) (remove1 t es)"
    "timers_only r r1" "\<And>x. abs_of r1 x = abs_of r x"
    "\<And>x. state_of r1 x = (if x = t then TIMER_STATE_INACTIVE else state_of r x)"
    using remove_timer_inv [OF inv t] by blast
  define due where "due = timer_due mode time now"
  define r2 where "r2 = set_timer_state t TIMER_STATE_RUNNING
    (r1\<lparr>rc_timers := (rc_timers r1)(t := (rc_timers r1 t)\<lparr>bt_absTime := due\<rparr>)\<rparr>)"
  let ?rs = "remove1 t rs" and ?es = "remove1 t es"
  note so = timers_inv_sorted [OF inv]
  have nt: "t \<notin> set ?rs" "t \<notin> set ?es" using so(2,3) by simp_all
  have S: "bavl_holds UNIV compare_timers (timers_tree r1) ?rs" "ll_rep (rc_timers_expired_list r1) ?es"
    "set ?rs = {t \<in> T. state_of r1 t = TIMER_STATE_RUNNING}" "set ?es = {t \<in> T. state_of r1 t = TIMER_STATE_EXPIRED}"
    "sorted_wrt (earlier r1) ?es"
    using r1(2) by (simp_all add: timers_inv_def)
  have a2: "abs_of r2 x = (if x = t then due else abs_of r x)" for x by (simp add: r2_def set_timer_state_def r1(4))
  have st2: "state_of r2 x = (if x = t then TIMER_STATE_RUNNING else state_of r x)" for x
    by (simp add: r2_def set_timer_state_def r1(5))
  have "bavl_holds UNIV compare_timers ((timers_tree r1)\<lparr>avl_node := avl_node (timers_tree r1), avl_val := \<lambda>x. (abs_of r2 x, x)\<rparr>) ?rs"
    using nt(1) by (intro holds_outside [OF S(1)]) (auto simp: a2 r1(4))
  moreover have "(timers_tree r1)\<lparr>avl_node := avl_node (timers_tree r1), avl_val := \<lambda>x. (abs_of r2 x, x)\<rparr> = timers_tree r2"
    by (simp add: timers_tree_def r2_def set_timer_state_def)
  ultimately have h2: "bavl_holds UNIV compare_timers (timers_tree r2) ?rs" by simp
  have "avl_val (timers_tree r2) t \<notin> avl_val (timers_tree r2) ` set ?rs" using nt(1) by auto
  then obtain ref tree where tree: "CAvl_Insert t (timers_tree r2) = Some (True, ref, tree)"
    "avl_val tree = avl_val (timers_tree r2)"
    "bavl_holds UNIV compare_timers tree (sorted_ins (\<lambda>x. compare_timers (avl_val (timers_tree r2) t) (avl_val (timers_tree r2) x)) t ?rs)"
    using number_tree.queue.q_ins [of "timers_tree r2" ?rs t] h2 nt(1) unfolding compare_timers_order by auto
  let ?rs' = "sorted_ins (\<lambda>x. compare_timers (avl_val (timers_tree r2) t) (avl_val (timers_tree r2) x)) t ?rs"
  let ?r = "r2\<lparr>rc_timers_tree := tree\<rparr>"
  have tt: "timers_tree ?r = tree"
    using tree(2,3) by (intro timers_tree_of) (auto simp: bavl_holds_def)
  have srs: "set ?rs' = insert t (set ?rs)"
  proof -
    have "set (sorted_ins g n ys) = insert n (set ys)" for g n and ys :: "nat list" by (induction ys) auto
    then show ?thesis .
  qed
  have "timers_inv T ?r ?rs' ?es"
  proof -
    have "ll_rep (rc_timers_expired_list ?r) ?es" using S(2) by (simp add: r2_def set_timer_state_def)
    moreover have "set ?rs' = {x \<in> T. state_of ?r x = TIMER_STATE_RUNNING}"
      unfolding srs using S(3) t by (auto simp: st2 r1(5))
    moreover have "set ?es = {x \<in> T. state_of ?r x = TIMER_STATE_EXPIRED}"
      using S(4) by (auto simp: st2 r1(5))
    moreover have "sorted_wrt (earlier ?r) ?es"
      using nt(2) by (intro sorted_wrt_mono_rel [OF _ S(5)]) (auto simp: earlier_def a2 r1(4))
    ultimately show ?thesis using tree(3) by (simp add: timers_inv_def tt)
  qed
  moreover have "timers_only r ?r"
  proof (rule timers_only_trans [OF r1(3)])
    show "timers_only r1 ?r" by (rule timers_onlyI) (simp_all add: r2_def set_timer_state_def)
  qed
  moreover have "BReactor_SetSmallTimer t mode time now r = Some ?r"
    using r1(1) tree(1) by (simp add: BReactor_SetSmallTimer_def r2_def due_def timer_due_def Let_def)
  ultimately show ?thesis using a2 st2 due_def by (intro exI [of _ ?r] exI [of _ ?rs']) simp
qed

end
