(* ===== verification/Reactor_Rep.thy ===== *)
theory Reactor_Rep
  imports Reactor_Timers
begin

text \<open>
  What the limits and the descriptors of the reactor stand for, and what waiting does. \<open>limits_inv\<close>: the list holds
  the limits in use. \<open>fds_inv\<close>: the kernel knows the active descriptors, and the events that are still to be dispatched
  belong to active descriptors, which point back to them.
\<close>

section \<open>Limits\<close>

definition limits_inv :: "nat set \<Rightarrow> 'h BReactor \<Rightarrow> nat list \<Rightarrow> bool" where
  "limits_inv A r ls \<longleftrightarrow>
     ll_rep (rc_active_limits_list r) ls \<and> set ls = {l \<in> A. 0 < lim_count (rc_limits r l)}
     \<and> (\<forall>l\<in>A. 0 \<le> lim_count (rc_limits r l))"

lemma limits_inv_cong:
  "rc_active_limits_list r' = rc_active_limits_list r \<Longrightarrow> rc_limits r' = rc_limits r \<Longrightarrow>
    limits_inv A r' ls = limits_inv A r ls"
  by (simp add: limits_inv_def)

lemma limit_Init_inv:
  "limits_inv A r ls \<Longrightarrow> l \<notin> A \<Longrightarrow> 0 < n \<Longrightarrow>
    \<exists>r'. BReactorLimit_Init l n r = Some r' \<and> limits_inv (insert l A) r' ls
      \<and> r' = r\<lparr>rc_limits := (rc_limits r)(l := \<lparr>lim_limit = n, lim_count = 0\<rparr>)\<rparr>"
  by (auto simp: BReactorLimit_Init_def limits_inv_def)

lemma limit_Free_inv:
  assumes "limits_inv A r ls" "l \<in> A"
  shows "limits_inv (A - {l}) (BReactorLimit_Free l r) (remove1 l ls)"
proof -
  have d: "distinct ls" using assms(1) by (auto simp: limits_inv_def ll_rep_def)
  show ?thesis
  proof (cases "0 < lim_count (rc_limits r l)")
    case True
    then have "l \<in> set ls" using assms by (auto simp: limits_inv_def)
    then show ?thesis using True assms d ll_rep_remove1 [of "rc_active_limits_list r" ls l]
      by (auto simp: limits_inv_def BReactorLimit_Free_def)
  next
    case False
    then have "l \<notin> set ls" using assms by (auto simp: limits_inv_def)
    then show ?thesis using False assms by (auto simp: limits_inv_def BReactorLimit_Free_def remove1_idem)
  qed
qed

lemma limit_Increment_inv:
  assumes "limits_inv A r ls" "l \<in> A"
  shows "\<exists>ls'. limits_inv A (snd (BReactorLimit_Increment l r)) ls'"
proof (cases "lim_count (rc_limits r l) \<ge> lim_limit (rc_limits r l)")
  case True
  then show ?thesis using assms by (auto simp: BReactorLimit_Increment_def)
next
  case False
  have nn: "0 \<le> lim_count (rc_limits r l)" using assms by (auto simp: limits_inv_def)
  let ?ls = "if lim_count (rc_limits r l) = 0 then ls @ [l] else ls"
  have "l \<notin> set ls" if "lim_count (rc_limits r l) = 0" using assms that by (auto simp: limits_inv_def)
  then have "limits_inv A (snd (BReactorLimit_Increment l r)) ?ls"
    using assms False nn ll_rep_Append [of "rc_active_limits_list r" ls l]
    by (auto simp: limits_inv_def BReactorLimit_Increment_def Let_def)
  then show ?thesis by blast
qed

lemma limit_SetLimit_inv:
  "limits_inv A r ls \<Longrightarrow> 0 < n \<Longrightarrow>
    \<exists>r'. BReactorLimit_SetLimit l n r = Some r' \<and> limits_inv A r' ls
      \<and> r' = r\<lparr>rc_limits := (rc_limits r)(l := (rc_limits r l)\<lparr>lim_limit := n\<rparr>)\<rparr>"
  by (auto simp: BReactorLimit_SetLimit_def limits_inv_def)

lemma reset_limits_inv:
  assumes "limits_inv A r ls"
  shows "\<exists>r'. reset_limits r = Some r' \<and> limits_inv A r' []
    \<and> r' = r\<lparr>rc_limits := rc_limits r', rc_active_limits_list := rc_active_limits_list r'\<rparr>
    \<and> (\<forall>l. rc_limits r' l = (if l \<in> set ls then (rc_limits r l)\<lparr>lim_count := 0\<rparr> else rc_limits r l))"
  using assms
proof (induction ls arbitrary: r)
  case Nil
  then have "LinkedList1_GetFirst (rc_active_limits_list r) = None"
    using ll_rep_query(2) by (fastforce simp: limits_inv_def)
  then show ?case using Nil by (subst reset_limits.simps) simp
next
  case (Cons l ls)
  have f: "LinkedList1_GetFirst (rc_active_limits_list r) = Some l"
    using ll_rep_query(2) [of _ "l # ls"] Cons.prems by (simp add: limits_inv_def)
  have l: "l \<in> A" "0 < lim_count (rc_limits r l)" "l \<notin> set ls"
    using Cons.prems by (auto simp: limits_inv_def ll_rep_def)
  let ?r = "r\<lparr>rc_limits := (rc_limits r)(l := (rc_limits r l)\<lparr>lim_count := 0\<rparr>),
    rc_active_limits_list := LinkedList1_Remove l (rc_active_limits_list r)\<rparr>"
  have "limits_inv A ?r ls"
    using Cons.prems l ll_rep_Remove [of "rc_active_limits_list r" "[]" l ls] by (auto simp: limits_inv_def)
  from Cons.IH [OF this] obtain r' where r': "reset_limits ?r = Some r'" "limits_inv A r' []"
    "r' = ?r\<lparr>rc_limits := rc_limits r', rc_active_limits_list := rc_active_limits_list r'\<rparr>"
    "\<forall>x. rc_limits r' x = (if x \<in> set ls then (rc_limits ?r x)\<lparr>lim_count := 0\<rparr> else rc_limits ?r x)" by blast
  have "reset_limits r = Some r'" using f l(2) r'(1) by (subst reset_limits.simps) simp
  moreover have "r' = r\<lparr>rc_limits := rc_limits r', rc_active_limits_list := rc_active_limits_list r'\<rparr>"
    by (subst r'(3)) simp
  ultimately show ?case using r'(2,4) l(3) by auto
qed

section \<open>File descriptors\<close>

definition epoll_mask :: "u32 \<Rightarrow> u32" where
  "epoll_mask events =
     (let eevents = (if events AND BREACTOR_READ \<noteq> 0 then EPOLLIN else 0)
      in if events AND BREACTOR_WRITE \<noteq> 0 then eevents OR EPOLLOUT else eevents)"

abbreviation active :: "'h BReactor \<Rightarrow> nat \<Rightarrow> bool" where
  "active r p \<equiv> fd_active (rc_fds r p)"

abbreviation returned :: "'h BReactor \<Rightarrow> nat \<Rightarrow> nat option" where
  "returned r p \<equiv> fd_epoll_returned_ptr (rc_fds r p)"

definition undelivered :: "'h BReactor \<Rightarrow> nat \<Rightarrow> nat \<Rightarrow> bool" where
  "undelivered r i p \<longleftrightarrow> rc_epoll_results_pos r \<le> i \<and> i < rc_epoll_results_num r \<and> ev_ptr (rc_epoll_results r ! i) = Some p"

definition registered :: "nat set \<Rightarrow> 'h BReactor \<Rightarrow> bool" where
  "registered F r \<longleftrightarrow>
     (\<forall>p\<in>F. active r p \<longrightarrow> rc_efd r (fd_fd (rc_fds r p))
        = Some \<lparr>ev_events = epoll_mask (fd_waitEvents (rc_fds r p)), ev_ptr = Some p\<rparr>)
     \<and> (\<forall>fd e. rc_efd r fd = Some e \<longrightarrow> (\<exists>p\<in>F. ev_ptr e = Some p \<and> active r p \<and> fd_fd (rc_fds r p) = fd))"

definition results_inv :: "nat set \<Rightarrow> 'h BReactor \<Rightarrow> bool" where
  "results_inv F r \<longleftrightarrow>
     rc_epoll_results_pos r \<le> rc_epoll_results_num r \<and> rc_epoll_results_num r \<le> length (rc_epoll_results r)
     \<and> (\<forall>i p. undelivered r i p \<longrightarrow> p \<in> F \<and> active r p \<and> returned r p = Some i)
     \<and> (\<forall>p\<in>F. \<forall>i. active r p \<and> returned r p = Some i \<longrightarrow> undelivered r i p)"

definition fds_inv :: "nat set \<Rightarrow> 'h BReactor \<Rightarrow> bool" where
  "fds_inv F r \<longleftrightarrow> registered F r \<and> results_inv F r"

lemma registeredD:
  "registered F r \<Longrightarrow> p \<in> F \<Longrightarrow> active r p \<Longrightarrow> rc_efd r (fd_fd (rc_fds r p))
    = Some \<lparr>ev_events = epoll_mask (fd_waitEvents (rc_fds r p)), ev_ptr = Some p\<rparr>"
  "registered F r \<Longrightarrow> rc_efd r fd = Some e \<Longrightarrow> \<exists>p\<in>F. ev_ptr e = Some p \<and> active r p \<and> fd_fd (rc_fds r p) = fd"
  by (simp_all add: registered_def)

lemma registeredI:
  "(\<And>p. p \<in> F \<Longrightarrow> active r p \<Longrightarrow> rc_efd r (fd_fd (rc_fds r p))
      = Some \<lparr>ev_events = epoll_mask (fd_waitEvents (rc_fds r p)), ev_ptr = Some p\<rparr>) \<Longrightarrow>
   (\<And>fd e. rc_efd r fd = Some e \<Longrightarrow> \<exists>p\<in>F. ev_ptr e = Some p \<and> active r p \<and> fd_fd (rc_fds r p) = fd) \<Longrightarrow> registered F r"
  by (simp add: registered_def)

lemma results_invD:
  "results_inv F r \<Longrightarrow> rc_epoll_results_pos r \<le> rc_epoll_results_num r"
  "results_inv F r \<Longrightarrow> rc_epoll_results_num r \<le> length (rc_epoll_results r)"
  "results_inv F r \<Longrightarrow> undelivered r i p \<Longrightarrow> p \<in> F"
  "results_inv F r \<Longrightarrow> undelivered r i p \<Longrightarrow> active r p"
  "results_inv F r \<Longrightarrow> undelivered r i p \<Longrightarrow> returned r p = Some i"
  "results_inv F r \<Longrightarrow> p \<in> F \<Longrightarrow> active r p \<Longrightarrow> returned r p = Some i \<Longrightarrow> undelivered r i p"
  unfolding results_inv_def by blast+

lemma results_invI:
  "rc_epoll_results_pos r \<le> rc_epoll_results_num r \<Longrightarrow> rc_epoll_results_num r \<le> length (rc_epoll_results r) \<Longrightarrow>
   (\<And>i p. undelivered r i p \<Longrightarrow> p \<in> F \<and> active r p \<and> returned r p = Some i) \<Longrightarrow>
   (\<And>i p. p \<in> F \<Longrightarrow> active r p \<Longrightarrow> returned r p = Some i \<Longrightarrow> undelivered r i p) \<Longrightarrow> results_inv F r"
  unfolding results_inv_def by blast

text \<open>The results survive changes after which the descriptors in use are active as before and point where they did.\<close>

lemma results_inv_mono:
  assumes inv: "results_inv F r" and F: "F \<subseteq> G"
    and len: "rc_epoll_results_pos r' = rc_epoll_results_pos r" "rc_epoll_results_num r' = rc_epoll_results_num r"
      "length (rc_epoll_results r') = length (rc_epoll_results r)"
    and u: "\<And>i p. undelivered r' i p \<Longrightarrow> undelivered r i p \<and> active r' p \<and> returned r' p = returned r p"
    and a: "\<And>i p. p \<in> G \<Longrightarrow> active r' p \<Longrightarrow> returned r' p = Some i \<Longrightarrow>
      p \<in> F \<and> active r p \<and> returned r p = Some i \<and> (undelivered r i p \<longrightarrow> undelivered r' i p)"
  shows "results_inv G r'"
proof (rule results_invI)
  show "rc_epoll_results_pos r' \<le> rc_epoll_results_num r'" "rc_epoll_results_num r' \<le> length (rc_epoll_results r')"
    using results_invD(1,2) [OF inv] len by simp_all
next
  fix i p assume "undelivered r' i p"
  then have "undelivered r i p" "active r' p" "returned r' p = returned r p" using u by simp_all
  then show "p \<in> G \<and> active r' p \<and> returned r' p = Some i" using results_invD(3,5) [OF inv] F by auto
next
  fix i p assume "p \<in> G" "active r' p" "returned r' p = Some i"
  from a [OF this] show "undelivered r' i p" using results_invD(6) [OF inv] by blast
qed

lemma fds_inv_cong:
  "rc_fds r' = rc_fds r \<Longrightarrow> rc_efd r' = rc_efd r \<Longrightarrow> rc_epoll_results r' = rc_epoll_results r \<Longrightarrow>
    rc_epoll_results_num r' = rc_epoll_results_num r \<Longrightarrow> rc_epoll_results_pos r' = rc_epoll_results_pos r \<Longrightarrow>
    fds_inv F r' = fds_inv F r"
  by (simp add: fds_inv_def registered_def results_inv_def undelivered_def)

lemma fd_Init_inv:
  assumes "fds_inv F r" "p \<notin> F \<or> \<not> active r p"
  shows "fds_inv (insert p F) (BFileDescriptor_Init p fd h r)"
proof -
  let ?r = "BFileDescriptor_Init p fd h r"
  have f: "rc_fds ?r q = (if q = p then (rc_fds r p)\<lparr>fd_fd := fd, fd_handler := h, fd_active := False\<rparr> else rc_fds r q)"
    "rc_efd ?r = rc_efd r" "undelivered ?r = undelivered r" "rc_epoll_results_pos ?r = rc_epoll_results_pos r"
    "rc_epoll_results_num ?r = rc_epoll_results_num r" "rc_epoll_results ?r = rc_epoll_results r" for q
    by (auto simp: BFileDescriptor_Init_def undelivered_def fun_eq_iff)
  have res: "results_inv F r" using assms(1) by (simp add: fds_inv_def)
  have np: "\<not> undelivered r i p" for i using assms(2) results_invD(3,4) [OF res] by blast
  have ne: "rc_efd r x = Some e \<Longrightarrow> \<exists>q\<in>F. q \<noteq> p \<and> ev_ptr e = Some q \<and> active r q \<and> fd_fd (rc_fds r q) = x" for x e
    using assms by (fastforce simp: fds_inv_def registered_def)
  have "registered (insert p F) ?r"
  proof (rule registeredI)
    fix q assume "q \<in> insert p F" "active ?r q"
    then have "q \<in> F" "q \<noteq> p" "active r q" by (auto simp: f split: if_splits)
    then show "rc_efd ?r (fd_fd (rc_fds ?r q))
        = Some \<lparr>ev_events = epoll_mask (fd_waitEvents (rc_fds ?r q)), ev_ptr = Some q\<rparr>"
      using registeredD(1) [of F r q] assms(1) by (simp add: f fds_inv_def)
  next
    fix x e assume "rc_efd ?r x = Some e"
    then have "rc_efd r x = Some e" by (simp add: f)
    from ne [OF this] obtain q where "q \<in> F" "q \<noteq> p" "ev_ptr e = Some q" "active r q" "fd_fd (rc_fds r q) = x" by blast
    then show "\<exists>q\<in>insert p F. ev_ptr e = Some q \<and> active ?r q \<and> fd_fd (rc_fds ?r q) = x"
      by (intro bexI [of _ q]) (simp_all add: f)
  qed
  moreover have "results_inv (insert p F) ?r"
  proof (rule results_inv_mono [OF res])
    fix i q assume "undelivered ?r i q"
    then have "undelivered r i q" "q \<noteq> p" using np by (auto simp: f(3))
    then show "undelivered r i q \<and> active ?r q \<and> returned ?r q = returned r q"
      using results_invD(4) [OF res] by (simp add: f)
  next
    fix i q assume "q \<in> insert p F" "active ?r q" "returned ?r q = Some i"
    then show "q \<in> F \<and> active r q \<and> returned r q = Some i \<and> (undelivered r i q \<longrightarrow> undelivered ?r i q)"
      by (auto simp: f split: if_splits)
  qed (auto simp: f)
  ultimately show ?thesis by (simp add: fds_inv_def)
qed

lemma fd_Add_inv:
  assumes inv: "fds_inv F r" and p: "p \<in> F" "\<not> active r p"
  shows "\<exists>ok r'. BReactor_AddFileDescriptor k p r = Some (ok, r') \<and> fds_inv F r'
    \<and> r' = r\<lparr>rc_efd := rc_efd r', rc_fds := rc_fds r'\<rparr>
    \<and> undelivered r' = undelivered r
    \<and> (\<forall>q. rc_fds r' q = (if ok \<and> q = p
          then (rc_fds r p)\<lparr>fd_epoll_returned_ptr := None, fd_active := True, fd_waitEvents := 0\<rparr> else rc_fds r q))"
proof (cases "\<not> k \<or> rc_efd r (fd_fd (rc_fds r p)) \<noteq> None")
  case True
  then show ?thesis using p inv by (auto simp: BReactor_AddFileDescriptor_def epoll_ctl_add_def)
next
  case False
  let ?e = "\<lparr>ev_events = 0, ev_ptr = Some p\<rparr>"
  let ?fd = "fd_fd (rc_fds r p)"
  let ?r = "r\<lparr>rc_efd := (rc_efd r)(?fd \<mapsto> ?e), rc_fds := (rc_fds r)(p := (rc_fds r p)
      \<lparr>fd_epoll_returned_ptr := None, fd_active := True, fd_waitEvents := 0\<rparr>)\<rparr>"
  have u: "undelivered ?r = undelivered r" by (simp add: undelivered_def fun_eq_iff)
  have res: "results_inv F r" using inv by (simp add: fds_inv_def)
  have np: "\<not> undelivered r i p" for i using p results_invD(4) [OF res] by blast
  have m0: "epoll_mask 0 = 0" by (simp add: epoll_mask_def)
  have "registered F ?r"
  proof (rule registeredI)
    fix q assume q: "q \<in> F" "active ?r q"
    show "rc_efd ?r (fd_fd (rc_fds ?r q)) = Some \<lparr>ev_events = epoll_mask (fd_waitEvents (rc_fds ?r q)), ev_ptr = Some q\<rparr>"
    proof (cases "q = p")
      case False
      then have "rc_efd r (fd_fd (rc_fds r q)) = Some \<lparr>ev_events = epoll_mask (fd_waitEvents (rc_fds r q)), ev_ptr = Some q\<rparr>"
        using q inv registeredD(1) [of F r q] by (simp add: fds_inv_def)
      then show ?thesis using False \<open>\<not> (\<not> k \<or> rc_efd r ?fd \<noteq> None)\<close> by auto
    qed (simp add: m0)
  next
    fix x e assume e: "rc_efd ?r x = Some e"
    show "\<exists>q\<in>F. ev_ptr e = Some q \<and> active ?r q \<and> fd_fd (rc_fds ?r q) = x"
    proof (cases "x = ?fd")
      case True
      then have "ev_ptr e = Some p" using e by auto
      then show ?thesis using True p by (intro bexI [of _ p]) simp_all
    next
      case False
      then have "rc_efd r x = Some e" using e by simp
      then obtain q where "q \<in> F" "ev_ptr e = Some q" "active r q" "fd_fd (rc_fds r q) = x"
        using inv registeredD(2) unfolding fds_inv_def by blast
      then show ?thesis using p by (intro bexI [of _ q]) auto
    qed
  qed
  moreover have "results_inv F ?r"
  proof (rule results_inv_mono [OF res])
    fix i q assume "undelivered ?r i q"
    then have "undelivered r i q" "q \<noteq> p" using np by (auto simp: u)
    then show "undelivered r i q \<and> active ?r q \<and> returned ?r q = returned r q"
      using results_invD(4) [OF res] by simp
  next
    fix i q assume "q \<in> F" "active ?r q" "returned ?r q = Some i"
    then show "q \<in> F \<and> active r q \<and> returned r q = Some i \<and> (undelivered r i q \<longrightarrow> undelivered ?r i q)"
      unfolding u by (cases "q = p") simp_all
  qed simp_all
  ultimately show ?thesis using False p u
    by (intro exI [of _ True] exI [of _ ?r]) (simp add: BReactor_AddFileDescriptor_def epoll_ctl_add_def fds_inv_def)
qed

lemma fd_Remove_inv:
  assumes inv: "fds_inv F r" and p: "p \<in> F" "active r p"
  shows "\<exists>r'. BReactor_RemoveFileDescriptor p r = Some r' \<and> fds_inv F r'
    \<and> r' = r\<lparr>rc_efd := rc_efd r', rc_fds := (rc_fds r)(p := (rc_fds r p)\<lparr>fd_active := False\<rparr>),
             rc_epoll_results := rc_epoll_results r'\<rparr>
    \<and> (\<forall>i q. undelivered r' i q \<longleftrightarrow> undelivered r i q \<and> q \<noteq> p)
    \<and> (\<forall>i q. undelivered r' i q \<longrightarrow> ev_events (rc_epoll_results r' ! i) = ev_events (rc_epoll_results r ! i))"
proof -
  let ?fd = "fd_fd (rc_fds r p)"
  let ?res = "case returned r p of Some i \<Rightarrow> (rc_epoll_results r)[i := (rc_epoll_results r ! i)\<lparr>ev_ptr := None\<rparr>] | None \<Rightarrow> rc_epoll_results r"
  let ?r = "r\<lparr>rc_efd := (rc_efd r)(?fd := None), rc_fds := (rc_fds r)(p := (rc_fds r p)\<lparr>fd_active := False\<rparr>),
    rc_epoll_results := ?res\<rparr>"
  have reg: "registered F r" and res: "results_inv F r" using inv by (simp_all add: fds_inv_def)
  have efd: "rc_efd r ?fd \<noteq> None" using registeredD(1) [OF reg p] by simp
  have rm: "BReactor_RemoveFileDescriptor p r = Some ?r"
    using p efd by (auto simp: BReactor_RemoveFileDescriptor_def epoll_ctl_del_def Let_def split: option.splits)
  have u: "undelivered ?r i q \<longleftrightarrow> undelivered r i q \<and> q \<noteq> p" for i q
  proof (cases "returned r p")
    case None
    then have "\<not> undelivered r i p" using results_invD(5) [OF res, of i p] by auto
    then show ?thesis using None by (auto simp: undelivered_def)
  next
    case (Some k)
    then have k: "undelivered r k p" "k < length (rc_epoll_results r)"
      using results_invD(6) [OF res p Some] results_invD(2) [OF res] by (auto simp: undelivered_def)
    have "undelivered r i p \<Longrightarrow> i = k" using results_invD(5) [OF res, of i p] Some by simp
    then show ?thesis using Some k by (cases "i = k") (auto simp: undelivered_def)
  qed
  have ev: "ev_events (?res ! i) = ev_events (rc_epoll_results r ! i)" for i
  proof (cases "returned r p")
    case (Some k)
    then show ?thesis by (cases "k < length (rc_epoll_results r)"; cases "i = k") (simp_all add: list_update_beyond)
  qed simp
  have len: "length ?res = length (rc_epoll_results r)" by (simp split: option.splits)
  have "registered F ?r"
  proof (rule registeredI)
    fix q assume q: "q \<in> F" "active ?r q"
    then have q': "q \<noteq> p" "active r q" by (auto split: if_splits)
    then have e: "rc_efd r (fd_fd (rc_fds r q)) = Some \<lparr>ev_events = epoll_mask (fd_waitEvents (rc_fds r q)), ev_ptr = Some q\<rparr>"
      using q registeredD(1) [OF reg] by simp
    moreover have "fd_fd (rc_fds r q) \<noteq> ?fd" using e registeredD(1) [OF reg p] q'(1) by auto
    ultimately show "rc_efd ?r (fd_fd (rc_fds ?r q)) = Some \<lparr>ev_events = epoll_mask (fd_waitEvents (rc_fds ?r q)), ev_ptr = Some q\<rparr>"
      using q' by simp
  next
    fix x e assume "rc_efd ?r x = Some e"
    then have x: "rc_efd r x = Some e" "x \<noteq> ?fd" by (auto split: if_splits)
    obtain q where "q \<in> F" "ev_ptr e = Some q" "active r q" "fd_fd (rc_fds r q) = x"
      using registeredD(2) [OF reg x(1)] by blast
    then show "\<exists>q\<in>F. ev_ptr e = Some q \<and> active ?r q \<and> fd_fd (rc_fds ?r q) = x"
      using x(2) by (intro bexI [of _ q]) auto
  qed
  moreover have "results_inv F ?r"
  proof (rule results_inv_mono [OF res])
    fix i q assume "undelivered ?r i q"
    then have "undelivered r i q" "q \<noteq> p" using u by blast+
    then show "undelivered r i q \<and> active ?r q \<and> returned ?r q = returned r q"
      using results_invD(4) [OF res] by simp
  next
    fix i q assume q: "q \<in> F" "active ?r q" "returned ?r q = Some i"
    then have "q \<noteq> p" by (auto split: if_splits)
    then show "q \<in> F \<and> active r q \<and> returned r q = Some i \<and> (undelivered r i q \<longrightarrow> undelivered ?r i q)"
      unfolding u using q by simp
  qed (simp_all add: len)
  ultimately show ?thesis using rm u ev
    by (intro exI [of _ ?r]) (simp add: fds_inv_def)
qed

lemma fd_SetEvents_inv:
  assumes inv: "fds_inv F r" and p: "p \<in> F" "active r p" "w AND NOT (BREACTOR_READ OR BREACTOR_WRITE) = 0"
  shows "\<exists>r'. BReactor_SetFileDescriptorEvents p w r = Some r' \<and> fds_inv F r'
    \<and> r' = r\<lparr>rc_efd := rc_efd r', rc_fds := (rc_fds r)(p := (rc_fds r p)\<lparr>fd_waitEvents := w\<rparr>)\<rparr>"
proof (cases "fd_waitEvents (rc_fds r p) = w")
  case True
  then have "(rc_fds r)(p := (rc_fds r p)\<lparr>fd_waitEvents := w\<rparr>) = rc_fds r" by auto
  then show ?thesis using True inv p by (auto simp: BReactor_SetFileDescriptorEvents_def)
next
  case False
  let ?fd = "fd_fd (rc_fds r p)"
  let ?r = "r\<lparr>rc_efd := (rc_efd r)(?fd \<mapsto> \<lparr>ev_events = epoll_mask w, ev_ptr = Some p\<rparr>),
    rc_fds := (rc_fds r)(p := (rc_fds r p)\<lparr>fd_waitEvents := w\<rparr>)\<rparr>"
  have reg: "registered F r" and res: "results_inv F r" using inv by (simp_all add: fds_inv_def)
  have efd: "rc_efd r ?fd \<noteq> None" using registeredD(1) [OF reg p(1,2)] by simp
  have rm: "BReactor_SetFileDescriptorEvents p w r = Some ?r"
    using p efd False by (simp add: BReactor_SetFileDescriptorEvents_def epoll_ctl_mod_def epoll_mask_def Let_def)
  have "registered F ?r"
  proof (rule registeredI)
    fix q assume q: "q \<in> F" "active ?r q"
    then have q': "active r q" by (auto split: if_splits)
    then have e: "rc_efd r (fd_fd (rc_fds r q)) = Some \<lparr>ev_events = epoll_mask (fd_waitEvents (rc_fds r q)), ev_ptr = Some q\<rparr>"
      using q registeredD(1) [OF reg] by simp
    have "q \<noteq> p \<Longrightarrow> fd_fd (rc_fds r q) \<noteq> ?fd" using e registeredD(1) [OF reg p(1,2)] by auto
    then show "rc_efd ?r (fd_fd (rc_fds ?r q)) = Some \<lparr>ev_events = epoll_mask (fd_waitEvents (rc_fds ?r q)), ev_ptr = Some q\<rparr>"
      using q' e by (cases "q = p") simp_all
  next
    fix x e assume e: "rc_efd ?r x = Some e"
    show "\<exists>q\<in>F. ev_ptr e = Some q \<and> active ?r q \<and> fd_fd (rc_fds ?r q) = x"
    proof (cases "x = ?fd")
      case True
      then have "ev_ptr e = Some p" using e by auto
      then show ?thesis using True p by (intro bexI [of _ p]) simp_all
    next
      case False
      then have "rc_efd r x = Some e" using e by simp
      then obtain q where "q \<in> F" "ev_ptr e = Some q" "active r q" "fd_fd (rc_fds r q) = x"
        using registeredD(2) [OF reg] by blast
      then show ?thesis by (intro bexI [of _ q]) auto
    qed
  qed
  moreover have "results_inv F ?r"
  proof (rule results_inv_mono [OF res])
    fix i q assume "undelivered ?r i q"
    then have "undelivered r i q" by (simp add: undelivered_def)
    then show "undelivered r i q \<and> active ?r q \<and> returned ?r q = returned r q"
      using results_invD(4) [OF res, of i q] by (cases "q = p") simp_all
  next
    fix i q assume "q \<in> F" "active ?r q" "returned ?r q = Some i"
    then show "q \<in> F \<and> active r q \<and> returned r q = Some i \<and> (undelivered r i q \<longrightarrow> undelivered ?r i q)"
      by (cases "q = p") (simp_all add: undelivered_def)
  qed simp_all
  ultimately show ?thesis using rm by (intro exI [of _ ?r]) (simp add: fds_inv_def)
qed

section \<open>Waiting\<close>

text \<open>
  What \<^verbatim>\<open>epoll_wait\<close> promises: at most 64 events, of different registered descriptors, each among the events asked for or
  an error or hangup; an answer without events comes when the timeout has passed.
\<close>

definition valid_events :: "'h BReactor \<Rightarrow> epoll_event list \<Rightarrow> bool" where
  "valid_events r evs \<longleftrightarrow>
     length evs \<le> BSYSTEM_MAX_RESULTS \<and> distinct (map ev_ptr evs)
     \<and> (\<forall>e\<in>set evs. \<exists>fd k. rc_efd r fd = Some k \<and> ev_ptr e = ev_ptr k
          \<and> ev_events e AND NOT (ev_events k OR EPOLLERR OR EPOLLHUP) = 0)"

definition answer_ok :: "'h BReactor \<Rightarrow> int \<Rightarrow> int \<Rightarrow> epoll_answer \<Rightarrow> int \<Rightarrow> bool" where
  "answer_ok r timeout before a after \<longleftrightarrow>
     before \<le> after
     \<and> (case a of
          Epoll_Error \<Rightarrow> False
        | Epoll_Interrupted \<Rightarrow> True
        | Epoll_Events evs \<Rightarrow> valid_events r evs \<and> (evs = [] \<longrightarrow> 0 \<le> timeout \<and> before + timeout \<le> after))"

lemma set_pointers:
  assumes "distinct (map ev_ptr evs)"
    and "\<forall>e\<in>set evs. \<exists>p. ev_ptr e = Some p \<and> fd_active (fds p) \<and> fd_epoll_returned_ptr (fds p) = None"
  shows "\<exists>fds'. set_epoll_fd_pointers k evs fds = Some fds'
    \<and> (\<forall>i p. i < length evs \<longrightarrow> ev_ptr (evs ! i) = Some p \<longrightarrow> fds' p = (fds p)\<lparr>fd_epoll_returned_ptr := Some (k + i)\<rparr>)
    \<and> (\<forall>p. Some p \<notin> ev_ptr ` set evs \<longrightarrow> fds' p = fds p)"
  using assms
proof (induction evs arbitrary: k fds)
  case (Cons e evs)
  obtain p where p: "ev_ptr e = Some p" "fd_active (fds p)" "fd_epoll_returned_ptr (fds p) = None"
    using Cons.prems(2) by auto
  let ?fds = "fds(p := (fds p)\<lparr>fd_epoll_returned_ptr := Some k\<rparr>)"
  have np: "Some p \<notin> ev_ptr ` set evs" using Cons.prems(1) p(1) by auto
  have free: "\<forall>e\<in>set evs. \<exists>q. ev_ptr e = Some q \<and> fd_active (?fds q) \<and> fd_epoll_returned_ptr (?fds q) = None"
  proof
    fix e' assume e': "e' \<in> set evs"
    then obtain q where q: "ev_ptr e' = Some q" "fd_active (fds q)" "fd_epoll_returned_ptr (fds q) = None"
      using Cons.prems(2) by auto
    then have "q \<noteq> p" using np e' by force
    then show "\<exists>q. ev_ptr e' = Some q \<and> fd_active (?fds q) \<and> fd_epoll_returned_ptr (?fds q) = None" using q by auto
  qed
  have "distinct (map ev_ptr evs)" using Cons.prems(1) by simp
  from Cons.IH [OF this free, of "Suc k"] obtain fds' where
    f: "set_epoll_fd_pointers (Suc k) evs ?fds = Some fds'"
    "\<And>i q. i < length evs \<Longrightarrow> ev_ptr (evs ! i) = Some q \<Longrightarrow> fds' q = (?fds q)\<lparr>fd_epoll_returned_ptr := Some (Suc k + i)\<rparr>"
    "\<And>q. Some q \<notin> ev_ptr ` set evs \<Longrightarrow> fds' q = ?fds q" by blast
  have "set_epoll_fd_pointers k (e # evs) fds = Some fds'" using p f(1) by simp
  moreover have "fds' q = (fds q)\<lparr>fd_epoll_returned_ptr := Some (k + i)\<rparr>"
    if i: "i < length (e # evs)" "ev_ptr ((e # evs) ! i) = Some q" for i q
  proof (cases i)
    case 0
    then show ?thesis using i p f(3) np by simp
  next
    case (Suc j)
    then have j: "j < length evs" "ev_ptr (evs ! j) = Some q" using i by simp_all
    then have "Some q \<in> ev_ptr ` set evs" using nth_mem by force
    then have "q \<noteq> p" using np by auto
    then show ?thesis using f(2) [OF j] Suc by simp
  qed
  moreover have "fds' q = fds q" if "Some q \<notin> ev_ptr ` set (e # evs)" for q
    using that f(3) [of q] p(1) by auto
  ultimately show ?case by blast
qed simp

lemma idle_returned:
  assumes "fds_inv F r" "rc_epoll_results_pos r = rc_epoll_results_num r"
  shows "\<not> undelivered r i p" "p \<in> F \<Longrightarrow> active r p \<Longrightarrow> returned r p = None"
proof -
  have res: "results_inv F r" using assms(1) by (simp add: fds_inv_def)
  show u: "\<not> undelivered r i p" for i p using assms(2) by (simp add: undelivered_def)
  show "returned r p = None" if "p \<in> F" "active r p"
    using results_invD(6) [OF res that] u by (cases "returned r p") auto
qed

text \<open>The events of an answer become the events that are to be dispatched.\<close>

lemma fd_poll_inv:
  assumes inv: "fds_inv F r" and idle: "rc_epoll_results_pos r = rc_epoll_results_num r" and v: "valid_events r evs"
  shows "\<exists>fds r'. set_epoll_fd_pointers 0 evs (rc_fds r) = Some fds
    \<and> r' = r\<lparr>rc_epoll_results := evs @ drop (length evs) (rc_epoll_results r), rc_epoll_results_num := length evs,
             rc_epoll_results_pos := 0, rc_fds := fds\<rparr>
    \<and> fds_inv F r' \<and> (\<forall>i p. undelivered r' i p \<longleftrightarrow> i < length evs \<and> ev_ptr (evs ! i) = Some p)
    \<and> (\<forall>p. \<exists>x. fds p = (rc_fds r p)\<lparr>fd_epoll_returned_ptr := x\<rparr>)"
proof -
  have reg: "registered F r" using inv by (simp add: fds_inv_def)
  have d: "distinct (map ev_ptr evs)" using v by (simp add: valid_events_def)
  have ptr: "\<exists>p\<in>F. ev_ptr e = Some p \<and> active r p" if "e \<in> set evs" for e
  proof -
    obtain fd k where "rc_efd r fd = Some k" "ev_ptr e = ev_ptr k" using v \<open>e \<in> set evs\<close> by (auto simp: valid_events_def)
    then show ?thesis using registeredD(2) [OF reg] by metis
  qed
  then have "\<forall>e\<in>set evs. \<exists>p. ev_ptr e = Some p \<and> fd_active (rc_fds r p) \<and> fd_epoll_returned_ptr (rc_fds r p) = None"
    using idle_returned(2) [OF inv idle] by blast
  from set_pointers [OF d this, of 0] obtain fds where f: "set_epoll_fd_pointers 0 evs (rc_fds r) = Some fds"
    "\<And>i p. i < length evs \<Longrightarrow> ev_ptr (evs ! i) = Some p \<Longrightarrow> fds p = (rc_fds r p)\<lparr>fd_epoll_returned_ptr := Some i\<rparr>"
    "\<And>p. Some p \<notin> ev_ptr ` set evs \<Longrightarrow> fds p = rc_fds r p" by auto
  have upd: "\<exists>x. fds p = (rc_fds r p)\<lparr>fd_epoll_returned_ptr := x\<rparr>" for p
  proof (cases "Some p \<in> ev_ptr ` set evs")
    case True
    then obtain i where "i < length evs" "ev_ptr (evs ! i) = Some p" by (force simp: in_set_conv_nth)
    then show ?thesis using f(2) by blast
  next
    case False
    then show ?thesis using f(3) by (intro exI [of _ "returned r p"]) simp
  qed
  let ?r = "r\<lparr>rc_epoll_results := evs @ drop (length evs) (rc_epoll_results r), rc_epoll_results_num := length evs,
    rc_epoll_results_pos := 0, rc_fds := fds\<rparr>"
  have same: "fd_active (fds p) = active r p" "fd_fd (fds p) = fd_fd (rc_fds r p)"
    "fd_waitEvents (fds p) = fd_waitEvents (rc_fds r p)" for p
    using upd [of p] by auto
  have u: "undelivered ?r i p \<longleftrightarrow> i < length evs \<and> ev_ptr (evs ! i) = Some p" for i p
    by (auto simp: undelivered_def nth_append)
  have "registered F ?r" using reg by (simp add: registered_def same)
  moreover have "results_inv F ?r"
  proof (rule results_invI)
    fix i p assume "undelivered ?r i p"
    then have i: "i < length evs" "ev_ptr (evs ! i) = Some p" by (simp_all only: u)
    then show "p \<in> F \<and> active ?r p \<and> returned ?r p = Some i"
      using ptr [of "evs ! i"] f(2) [OF i] by auto
  next
    fix i p assume p: "p \<in> F" "active ?r p" "returned ?r p = Some i"
    have a: "active r p" using p(2) same by simp
    show "undelivered ?r i p"
    proof (cases "Some p \<in> ev_ptr ` set evs")
      case True
      then obtain j where j: "j < length evs" "ev_ptr (evs ! j) = Some p" by (force simp: in_set_conv_nth)
      then have "j = i" using f(2) [OF j] p(3) by simp
      then show ?thesis using j u by blast
    next
      case False
      then show ?thesis using f(3) idle_returned(2) [OF inv idle p(1) a] p(3) by simp
    qed
  qed simp_all
  ultimately have "fds_inv F ?r" by (simp add: fds_inv_def)
  then show ?thesis using f(1) u upd by blast
qed

lemma leave_wait_not_blocks: "leave_wait r \<noteq> Wait_Blocks t"
  by (simp add: leave_wait_def split: option.splits)

text \<open>While the program waits, the loop has forgotten all earlier answers but the time of the last.\<close>

lemma epoll_loop_snoc:
  "epoll_loop tabs now env r = Wait_Blocks timeout \<Longrightarrow>
   \<exists>before. timeout = epoll_timeout tabs before \<and> (\<forall>x. epoll_loop tabs now (env @ [x]) r = epoll_loop tabs before [x] r)
     \<and> (tabs \<noteq> None \<longrightarrow> before = last (now # map snd env) \<and> (now < the tabs \<longrightarrow> before < the tabs))"
proof (induction env arbitrary: now)
  case (Cons x env)
  obtain a after where x: "x = (a, after)" by (cases x)
  have again: "(case tabs of None \<Rightarrow> epoll_loop tabs now env r
      | Some t \<Rightarrow> if after \<ge> t then leave_wait (move_first_timers r) else epoll_loop tabs after env r) = Wait_Blocks timeout"
    "a \<noteq> Epoll_Error \<and> (\<forall>evs. a = Epoll_Events evs \<longrightarrow> evs = [] \<and> tabs \<noteq> None
       \<and> timeout_rel_trunc tabs now \<noteq> (case tabs of None \<Rightarrow> 0 | Some t \<Rightarrow> t - now))"
    using Cons.prems leave_wait_not_blocks
    by (auto simp: x Let_def split: epoll_answer.splits if_splits option.splits)
  let ?now = "if tabs = None then now else after"
  have "epoll_loop tabs ?now env r = Wait_Blocks timeout" and late: "tabs \<noteq> None \<Longrightarrow> after < the tabs"
    using again(1) leave_wait_not_blocks by (auto split: option.splits if_splits)
  from Cons.IH [OF this(1)] obtain before where b: "timeout = epoll_timeout tabs before"
    "\<And>x. epoll_loop tabs ?now (env @ [x]) r = epoll_loop tabs before [x] r"
    "tabs \<noteq> None \<Longrightarrow> before = last (?now # map snd env) \<and> (?now < the tabs \<longrightarrow> before < the tabs)" by blast
  have step: "epoll_loop tabs now ((x # env) @ [y]) r = epoll_loop tabs ?now (env @ [y]) r" for y
    using again(2) late by (cases a) (auto simp: x Let_def split: option.splits)
  show ?case
  proof (intro exI conjI allI impI)
    show "timeout = epoll_timeout tabs before" by (rule b)
    show "epoll_loop tabs now ((x # env) @ [y]) r = epoll_loop tabs before [y] r" for y
      using step b(2) by simp
    show "before = last (now # map snd (x # env))" if "tabs \<noteq> None" using b(3) that by (simp add: x)
    show "before < the tabs" if "tabs \<noteq> None" using b(3) late that by simp
  qed
qed auto

text \<open>What waiting leaves alone.\<close>

definition settings_kept :: "'h BReactor \<Rightarrow> 'h BReactor \<Rightarrow> bool" where
  "settings_kept r r' \<longleftrightarrow>
     rc_exiting r' = rc_exiting r \<and> rc_exit_code r' = rc_exit_code r \<and> rc_pending_jobs r' = rc_pending_jobs r
     \<and> rc_efd r' = rc_efd r
     \<and> (\<forall>p. \<exists>x. rc_fds r' p = (rc_fds r p)\<lparr>fd_epoll_returned_ptr := x\<rparr>)
     \<and> (\<forall>t. abs_of r' t = abs_of r t \<and> bt_handler (rc_timers r' t) = bt_handler (rc_timers r t)
          \<and> bt_msTime (rc_timers r' t) = bt_msTime (rc_timers r t))
     \<and> (\<forall>l. lim_limit (rc_limits r' l) = lim_limit (rc_limits r l))"

lemma fd_same: "\<exists>x. f = (f :: 'h BFileDescriptor)\<lparr>fd_epoll_returned_ptr := x\<rparr>"
  by (rule exI [of _ "fd_epoll_returned_ptr f"]) simp

lemma settings_kept_timers: "timers_only r r' \<Longrightarrow> (\<And>t. abs_of r' t = abs_of r t) \<Longrightarrow> settings_kept r r'"
  using fd_same by (auto simp: settings_kept_def timers_only_def)

lemma settings_kept_trans: "settings_kept r r' \<Longrightarrow> settings_kept r' r'' \<Longrightarrow> settings_kept r r''"
proof -
  assume a: "settings_kept r r'" "settings_kept r' r''"
  have "\<exists>x. rc_fds r'' p = (rc_fds r p)\<lparr>fd_epoll_returned_ptr := x\<rparr>" for p
  proof -
    obtain x y where "rc_fds r' p = (rc_fds r p)\<lparr>fd_epoll_returned_ptr := x\<rparr>"
      "rc_fds r'' p = (rc_fds r' p)\<lparr>fd_epoll_returned_ptr := y\<rparr>" using a unfolding settings_kept_def by blast
    then show ?thesis by (intro exI [of _ y]) simp
  qed
  then show "settings_kept r r''" using a by (simp add: settings_kept_def)
qed

definition idle :: "'h BReactor \<Rightarrow> bool" where
  "idle r \<longleftrightarrow> \<not> BPendingGroup_HasJobs (rc_pending_jobs r) \<and> LinkedList1_IsEmpty (rc_timers_expired_list r)
     \<and> rc_epoll_results_pos r = rc_epoll_results_num r"

abbreviation swept :: "'h BReactor \<Rightarrow> 'h BReactor" where
  "swept r \<equiv> r\<lparr>rc_epoll_results_num := 0, rc_epoll_results_pos := 0\<rparr>"

lemma timers_inv_cong:
  "rc_timers_tree r' = rc_timers_tree r \<Longrightarrow> rc_timers_expired_list r' = rc_timers_expired_list r \<Longrightarrow>
    rc_timers r' = rc_timers r \<Longrightarrow> timers_inv T r' rs es = timers_inv T r rs es"
  by (simp add: timers_inv_def timers_tree_def earlier_def [abs_def])

lemma swept_inv:
  assumes "fds_inv F r" "rc_epoll_results_pos r = rc_epoll_results_num r"
  shows "fds_inv F (swept r)" "settings_kept r (swept r)"
proof -
  have "results_inv F (swept r)"
    by (rule results_invI) (use idle_returned(2) [OF assms] in \<open>auto simp: undelivered_def\<close>)
  moreover have "registered F (swept r)" using assms(1) by (simp add: fds_inv_def registered_def)
  ultimately show "fds_inv F (swept r)" by (simp add: fds_inv_def)
  show "settings_kept r (swept r)" using fd_same by (auto simp: settings_kept_def)
qed

text \<open>Timers that are due already: only they are moved, and the limits stay.\<close>

lemma wait_due:
  assumes t: "timers_inv T r (t # rs) []" and f: "fds_inv F r" and l: "limits_inv A r ls" and i: "idle r"
    and d: "abs_of r t \<le> now"
  shows "\<exists>r'. wait_for_events now env r = Wait_Returns True r'
    \<and> timers_inv T r' (dropWhile (\<lambda>x. abs_of r x \<le> now) (t # rs)) (takeWhile (\<lambda>x. abs_of r x \<le> now) (t # rs))
    \<and> fds_inv F r' \<and> rc_epoll_results_pos r' = rc_epoll_results_num r' \<and> limits_inv A r' ls \<and> rc_limits r' = rc_limits r
    \<and> settings_kept r r'"
proof -
  have idle: "\<not> BPendingGroup_HasJobs (rc_pending_jobs r)" "LinkedList1_IsEmpty (rc_timers_expired_list r)"
    "rc_epoll_results_pos r = rc_epoll_results_num r" using i by (simp_all add: idle_def)
  have t0: "timers_inv T (swept r) (t # rs) []" using t by (subst timers_inv_cong) simp_all
  have "sorted_wrt (earlier (swept r)) ([] @ t # rs)" using timers_inv_sorted(1) [OF t0] by simp
  from move_expired_inv [OF t0 this, of now False] d obtain r' where
    r': "move_expired_timers now False (swept r) = Some (True, r')"
    "timers_inv T r' (dropWhile (\<lambda>x. abs_of r x \<le> now) (t # rs)) (takeWhile (\<lambda>x. abs_of r x \<le> now) (t # rs))"
    "timers_only (swept r) r'" "\<And>x. abs_of r' x = abs_of (swept r) x" by auto
  note only = timers_only_fields [OF r'(3)]
  have "state_of r t = TIMER_STATE_RUNNING" using t by (auto simp: timers_inv_def)
  then have "wait_for_events now env r = Wait_Returns True r'"
    using idle timers_first [OF t0] r'(1) by (simp add: wait_for_events_def)
  moreover have "fds_inv F r'"
    using swept_inv(1) [OF f idle(3)] fds_inv_cong [of r' "swept r"] only by simp
  moreover have "limits_inv A r' ls" using l only by (subst limits_inv_cong [of r' r]) simp_all
  moreover have "settings_kept r r'"
    using settings_kept_trans [OF swept_inv(2) [OF f idle(3)] settings_kept_timers [OF r'(3,4)]] .
  ultimately show ?thesis using r'(2) only by auto
qed

lemma leave_limits:
  assumes "limits_inv A r ls"
  shows "\<exists>r'. leave_wait (Some r) = Wait_Returns False r' \<and> limits_inv A r' []
    \<and> r' = r\<lparr>rc_limits := rc_limits r', rc_active_limits_list := rc_active_limits_list r'\<rparr> \<and> settings_kept r r'"
proof -
  obtain r' where r': "reset_limits r = Some r'" "limits_inv A r' []"
    "r' = r\<lparr>rc_limits := rc_limits r', rc_active_limits_list := rc_active_limits_list r'\<rparr>"
    "\<forall>l. rc_limits r' l = (if l \<in> set ls then (rc_limits r l)\<lparr>lim_count := 0\<rparr> else rc_limits r l)"
    using reset_limits_inv [OF assms] by blast
  have "lim_limit (rc_limits r' l) = lim_limit (rc_limits r l)" for l using r'(4) by simp
  then have "settings_kept r r'" using fd_same by (subst r'(3)) (auto simp: settings_kept_def)
  then show ?thesis using r'(1-3) by (auto simp: leave_wait_def)
qed

lemma leave_timers:
  assumes t: "timers_inv T r (t # rs) []" and f: "fds_inv F r" and l: "limits_inv A r ls"
  shows "\<exists>r'. leave_wait (move_first_timers r) = Wait_Returns False r'
    \<and> timers_inv T r' (dropWhile (\<lambda>x. abs_of r x = abs_of r t) (t # rs)) (takeWhile (\<lambda>x. abs_of r x = abs_of r t) (t # rs))
    \<and> fds_inv F r' \<and> rc_epoll_results_pos r' = rc_epoll_results_pos r \<and> rc_epoll_results_num r' = rc_epoll_results_num r
    \<and> limits_inv A r' [] \<and> settings_kept r r'"
proof -
  obtain r1 where r1: "move_first_timers r = Some r1"
    "timers_inv T r1 (dropWhile (\<lambda>x. abs_of r x = abs_of r t) (t # rs)) (takeWhile (\<lambda>x. abs_of r x = abs_of r t) (t # rs))"
    "timers_only r r1" "\<And>x. abs_of r1 x = abs_of r x" using move_first_inv [OF t] by blast
  note only = timers_only_fields [OF r1(3)]
  have "limits_inv A r1 ls" using l only by (subst limits_inv_cong [of r1 r]) simp_all
  from leave_limits [OF this] obtain r2 where r2: "leave_wait (Some r1) = Wait_Returns False r2" "limits_inv A r2 []"
    "r2 = r1\<lparr>rc_limits := rc_limits r2, rc_active_limits_list := rc_active_limits_list r2\<rparr>" "settings_kept r1 r2" by blast
  have same: "rc_timers_tree r2 = rc_timers_tree r1" "rc_timers_expired_list r2 = rc_timers_expired_list r1"
    "rc_timers r2 = rc_timers r1" "rc_fds r2 = rc_fds r1" "rc_efd r2 = rc_efd r1" "rc_epoll_results r2 = rc_epoll_results r1"
    "rc_epoll_results_num r2 = rc_epoll_results_num r1" "rc_epoll_results_pos r2 = rc_epoll_results_pos r1"
    by (subst r2(3), simp)+
  have "fds_inv F r2" using f fds_inv_cong [of r2 r] same only by simp
  moreover have "settings_kept r r2"
    using settings_kept_trans [OF settings_kept_timers [OF r1(3,4)] r2(4)] .
  ultimately show ?thesis using r1(1,2) r2(1,2) timers_inv_cong [OF same(1-3)] same only by auto
qed

text \<open>One answer of \<^verbatim>\<open>epoll_wait\<close>.\<close>

definition first_due :: "'h BReactor \<Rightarrow> nat list \<Rightarrow> int option" where
  "first_due r rs = map_option (abs_of r) (first_opt rs)"

lemma wait_answer:
  assumes t: "timers_inv T r rs []" and f: "fds_inv F r" and l: "limits_inv A r ls"
    and i: "rc_epoll_results_pos r = 0" "rc_epoll_results_num r = 0"
    and a: "answer_ok r (epoll_timeout (first_due r rs) now) clk a after" and c: "rs \<noteq> [] \<Longrightarrow> now = clk"
  shows "(\<exists>timeout. epoll_loop (first_due r rs) now [(a, after)] r = Wait_Blocks timeout)
    \<or> (\<exists>r' t. epoll_loop (first_due r rs) now [(a, after)] r = Wait_Returns False r'
        \<and> rs \<noteq> [] \<and> t = abs_of r (hd rs) \<and> t \<le> after \<and> (\<forall>evs. a = Epoll_Events evs \<longrightarrow> evs = [])
        \<and> timers_inv T r' (dropWhile (\<lambda>x. abs_of r x = t) rs) (takeWhile (\<lambda>x. abs_of r x = t) rs)
        \<and> fds_inv F r' \<and> rc_epoll_results_pos r' = rc_epoll_results_num r' \<and> limits_inv A r' [] \<and> settings_kept r r')
    \<or> (\<exists>r' evs. epoll_loop (first_due r rs) now [(a, after)] r = Wait_Returns False r' \<and> a = Epoll_Events evs \<and> evs \<noteq> []
        \<and> timers_inv T r' rs [] \<and> fds_inv F r' \<and> rc_epoll_results r' = evs @ drop (length evs) (rc_epoll_results r)
        \<and> (\<forall>i p. undelivered r' i p \<longleftrightarrow> i < length evs \<and> ev_ptr (evs ! i) = Some p)
        \<and> limits_inv A r' [] \<and> settings_kept r r')"
    (is "?B \<or> ?T \<or> ?E")
proof -
  let ?go = "epoll_loop (first_due r rs) now [(a, after)] r"
  have again: "?B \<or> ?T" if "?go = (case first_due r rs of None \<Rightarrow> epoll_loop (first_due r rs) now [] r
      | Some t \<Rightarrow> if after \<ge> t then leave_wait (move_first_timers r) else epoll_loop (first_due r rs) after [] r)"
    "\<forall>evs. a = Epoll_Events evs \<longrightarrow> evs = []"
  proof (cases rs)
    case Nil
    then show ?thesis using that by (simp add: first_due_def)
  next
    case (Cons t rs')
    then show ?thesis
      using that leave_timers [OF t [unfolded Cons] f l] i by (cases "abs_of r t \<le> after") (auto simp: first_due_def)
  qed
  show ?thesis
  proof (cases a)
    case Epoll_Error
    then show ?thesis using a by (simp add: answer_ok_def)
  next
    case Epoll_Interrupted
    then show ?thesis using again by (simp add: Let_def)
  next
    case (Epoll_Events evs)
    then have v: "valid_events r evs" using a by (simp add: answer_ok_def)
    then have len: "\<not> length evs > BSYSTEM_MAX_RESULTS" by (simp add: valid_events_def)
    show ?thesis
    proof (cases "evs = []")
      case False
      obtain fds r1 where p: "set_epoll_fd_pointers 0 evs (rc_fds r) = Some fds"
        "r1 = r\<lparr>rc_epoll_results := evs @ drop (length evs) (rc_epoll_results r), rc_epoll_results_num := length evs,
             rc_epoll_results_pos := 0, rc_fds := fds\<rparr>" "fds_inv F r1"
        "\<forall>i p. undelivered r1 i p \<longleftrightarrow> i < length evs \<and> ev_ptr (evs ! i) = Some p"
        "\<forall>p. \<exists>x. fds p = (rc_fds r p)\<lparr>fd_epoll_returned_ptr := x\<rparr>"
        using fd_poll_inv [OF f _ v] i by auto
      have r1: "r1 = r\<lparr>rc_epoll_results := evs @ drop (length evs) (rc_epoll_results r), rc_epoll_results_num := length evs,
          rc_fds := fds\<rparr>" unfolding p(2) using i by (intro BReactor.equality) simp_all
      have go: "?go = leave_wait (Some r1)" using Epoll_Events False len p(1) r1 by (simp add: Let_def)
      have "limits_inv A r1 ls" using l by (subst limits_inv_cong [of r1 r]) (simp_all add: r1)
      from leave_limits [OF this] obtain r2 where r2: "leave_wait (Some r1) = Wait_Returns False r2" "limits_inv A r2 []"
        "r2 = r1\<lparr>rc_limits := rc_limits r2, rc_active_limits_list := rc_active_limits_list r2\<rparr>" "settings_kept r1 r2" by blast
      have same: "rc_timers_tree r2 = rc_timers_tree r" "rc_timers_expired_list r2 = rc_timers_expired_list r"
        "rc_timers r2 = rc_timers r" "rc_fds r2 = rc_fds r1" "rc_efd r2 = rc_efd r1" "rc_epoll_results r2 = rc_epoll_results r1"
        "rc_epoll_results_num r2 = rc_epoll_results_num r1" "rc_epoll_results_pos r2 = rc_epoll_results_pos r1"
        by (subst r2(3), simp add: r1)+
      have "settings_kept r r1" using p(5) by (auto simp: settings_kept_def r1)
      then have k: "settings_kept r r2" using settings_kept_trans r2(4) by blast
      have u: "undelivered r2 = undelivered r1" by (simp add: undelivered_def fun_eq_iff same)
      have ff: "fds_inv F r2" using p(3) fds_inv_cong [of r2 r1] same by simp
      have tt: "timers_inv T r2 rs []" using t by (subst timers_inv_cong [OF same(1-3)])
      have res: "rc_epoll_results r2 = evs @ drop (length evs) (rc_epoll_results r)" by (simp add: same r1)
      have ?E
        by (rule exI [of _ r2], rule exI [of _ evs]) (use go r2(1,2) Epoll_Events False tt ff res k p(4) u in simp)
      then show ?thesis by blast
    next
      case True
      have tab: "first_due r rs \<noteq> None"
        using a Epoll_Events True by (cases "first_due r rs") (simp_all add: answer_ok_def epoll_timeout_def)
      show ?thesis
      proof (cases "timeout_rel_trunc (first_due r rs) now = (case first_due r rs of None \<Rightarrow> 0 | Some t \<Rightarrow> t - now)")
        case False
        then show ?thesis using again tab len Epoll_Events True by (simp add: Let_def)
      next
        case rel: True
        obtain t rs' where rs: "rs = t # rs'" using tab by (cases rs) (auto simp: first_due_def)
        have "abs_of r t \<le> after"
          using a c rel Epoll_Events True rs by (auto simp: answer_ok_def epoll_timeout_def first_due_def)
        moreover have "?go = leave_wait (move_first_timers r)"
          using rel len Epoll_Events True rs by (simp add: Let_def first_due_def)
        ultimately show ?thesis using leave_timers [OF t [unfolded rs] f l] i Epoll_Events True rs by auto
      qed
    qed
  qed
qed

end
