(* ===== verification/Reactor_Spec.thy ===== *)
theory Reactor_Spec
  imports Reactor_Rep
begin

text \<open>
  What the event loop promises, and that it keeps the promise. The specification knows which timers are armed for when, which
  descriptors are monitored and what was reported for them, how often a limit was used, and which jobs are pending; it is
  computed from the operations of the program and the iterations of the loop. Every operation that its contract allows, and every
  iteration, succeeds and refines the specification.
\<close>

section \<open>The specification\<close>

text \<open>Timers have a handler and a \<^verbatim>\<open>BTimer\<close> a period, descriptors a number and a handler, limits a bound and a count.\<close>

record 'h reactor_spec =
  sp_timer :: "nat \<rightharpoonup> 'h \<times> int option"
  sp_armed :: "nat \<rightharpoonup> int"
  sp_fd :: "nat \<rightharpoonup> int \<times> 'h"
  sp_monitored :: "nat \<rightharpoonup> u32"
  sp_reported :: "nat \<rightharpoonup> u32"
  sp_limit :: "nat \<rightharpoonup> int \<times> int"
  sp_job :: "nat \<rightharpoonup> 'h"
  sp_pending :: "nat list"
  sp_exit :: "int option"

definition spec_start :: "'h reactor_spec" where
  "spec_start = \<lparr>sp_timer = Map.empty, sp_armed = Map.empty, sp_fd = Map.empty, sp_monitored = Map.empty,
     sp_reported = Map.empty, sp_limit = Map.empty, sp_job = Map.empty, sp_pending = [], sp_exit = None\<rparr>"

text \<open>The operations of the program; \<open>Add_FD\<close> comes with the success of \<^verbatim>\<open>epoll_ctl\<close>.\<close>

datatype 'h reactor_op =
    Init_Timer nat 'h
  | Init_BTimer nat int 'h
  | Set_Timer nat timer_mode int
  | Set_BTimer nat
  | Stop_Timer nat
  | Init_FD nat int 'h
  | Add_FD nat bool
  | Remove_FD nat
  | Set_FD nat u32
  | Init_Limit nat int
  | Free_Limit nat
  | Increment_Limit nat
  | Set_Limit nat int
  | Init_Job nat 'h
  | Set_Job nat
  | Unset_Job nat
  | Free_Job nat
  | Quit int

definition finished :: "'h BReactor option \<Rightarrow> (bool \<times> 'h BReactor) option" where
  "finished r = map_option (Pair True) r"

definition do_op :: "int \<Rightarrow> 'h reactor_op \<Rightarrow> 'h BReactor \<Rightarrow> (bool \<times> 'h BReactor) option" where
  "do_op now a r =
     (case a of
        Init_Timer t h \<Rightarrow> Some (True, BSmallTimer_Init t h r)
      | Init_BTimer t ms h \<Rightarrow> Some (True, BTimer_Init t ms h r)
      | Set_Timer t mode time \<Rightarrow> finished (BReactor_SetSmallTimer t mode time now r)
      | Set_BTimer t \<Rightarrow> finished (BReactor_SetTimer t now r)
      | Stop_Timer t \<Rightarrow> finished (BReactor_RemoveSmallTimer t r)
      | Init_FD p fd h \<Rightarrow> Some (True, BFileDescriptor_Init p fd h r)
      | Add_FD p ok \<Rightarrow> BReactor_AddFileDescriptor ok p r
      | Remove_FD p \<Rightarrow> finished (BReactor_RemoveFileDescriptor p r)
      | Set_FD p w \<Rightarrow> finished (BReactor_SetFileDescriptorEvents p w r)
      | Init_Limit l n \<Rightarrow> finished (BReactorLimit_Init l n r)
      | Free_Limit l \<Rightarrow> Some (True, BReactorLimit_Free l r)
      | Increment_Limit l \<Rightarrow> Some (BReactorLimit_Increment l r)
      | Set_Limit l n \<Rightarrow> finished (BReactorLimit_SetLimit l n r)
      | Init_Job j h \<Rightarrow> Some (True, r\<lparr>rc_pending_jobs := BPending_Init j (rc_pending_jobs r) h\<rparr>)
      | Set_Job j \<Rightarrow> Some (True, r\<lparr>rc_pending_jobs := BPending_Set j (rc_pending_jobs r)\<rparr>)
      | Unset_Job j \<Rightarrow> Some (True, r\<lparr>rc_pending_jobs := BPending_Unset j (rc_pending_jobs r)\<rparr>)
      | Free_Job j \<Rightarrow> Some (True, r\<lparr>rc_pending_jobs := BPending_Free j (rc_pending_jobs r)\<rparr>)
      | Quit code \<Rightarrow> Some (True, BReactor_Quit code r))"

text \<open>When the program may call an operation.\<close>

definition allowed :: "'h reactor_spec \<Rightarrow> 'h reactor_op \<Rightarrow> bool" where
  "allowed s a =
     (case a of
        Init_Timer t h \<Rightarrow> sp_armed s t = None
      | Init_BTimer t ms h \<Rightarrow> sp_armed s t = None
      | Set_Timer t mode time \<Rightarrow> t \<in> dom (sp_timer s)
      | Set_BTimer t \<Rightarrow> (case sp_timer s t of Some (h, Some ms) \<Rightarrow> True | _ \<Rightarrow> False)
      | Stop_Timer t \<Rightarrow> t \<in> dom (sp_timer s)
      | Init_FD p fd h \<Rightarrow> sp_monitored s p = None
      | Add_FD p ok \<Rightarrow> p \<in> dom (sp_fd s) \<and> sp_monitored s p = None
      | Remove_FD p \<Rightarrow> sp_monitored s p \<noteq> None
      | Set_FD p w \<Rightarrow> sp_monitored s p \<noteq> None \<and> w AND NOT (BREACTOR_READ OR BREACTOR_WRITE) = 0
      | Init_Limit l n \<Rightarrow> l \<notin> dom (sp_limit s) \<and> 0 < n
      | Free_Limit l \<Rightarrow> l \<in> dom (sp_limit s)
      | Increment_Limit l \<Rightarrow> l \<in> dom (sp_limit s)
      | Set_Limit l n \<Rightarrow> l \<in> dom (sp_limit s) \<and> 0 < n
      | Init_Job j h \<Rightarrow> j \<notin> dom (sp_job s)
      | Set_Job j \<Rightarrow> j \<in> dom (sp_job s)
      | Unset_Job j \<Rightarrow> j \<in> dom (sp_job s)
      | Free_Job j \<Rightarrow> j \<in> dom (sp_job s)
      | Quit code \<Rightarrow> True)"

text \<open>What an operation with result \<open>ok\<close> at time \<open>now\<close> means.\<close>

definition spec_op :: "int \<Rightarrow> 'h reactor_op \<Rightarrow> bool \<Rightarrow> 'h reactor_spec \<Rightarrow> 'h reactor_spec" where
  "spec_op now a ok s =
     (case a of
        Init_Timer t h \<Rightarrow> s\<lparr>sp_timer := (sp_timer s)(t \<mapsto> (h, None))\<rparr>
      | Init_BTimer t ms h \<Rightarrow> s\<lparr>sp_timer := (sp_timer s)(t \<mapsto> (h, Some ms))\<rparr>
      | Set_Timer t mode time \<Rightarrow> s\<lparr>sp_armed := (sp_armed s)(t \<mapsto> timer_due mode time now)\<rparr>
      | Set_BTimer t \<Rightarrow>
          (case sp_timer s t of
             Some (h, Some ms) \<Rightarrow> s\<lparr>sp_armed := (sp_armed s)(t \<mapsto> btime_add now ms)\<rparr>
           | _ \<Rightarrow> s)
      | Stop_Timer t \<Rightarrow> s\<lparr>sp_armed := (sp_armed s)(t := None)\<rparr>
      | Init_FD p fd h \<Rightarrow> s\<lparr>sp_fd := (sp_fd s)(p \<mapsto> (fd, h))\<rparr>
      | Add_FD p k \<Rightarrow> if ok then s\<lparr>sp_monitored := (sp_monitored s)(p \<mapsto> 0)\<rparr> else s
      | Remove_FD p \<Rightarrow> s\<lparr>sp_monitored := (sp_monitored s)(p := None), sp_reported := (sp_reported s)(p := None)\<rparr>
      | Set_FD p w \<Rightarrow> s\<lparr>sp_monitored := (sp_monitored s)(p \<mapsto> w)\<rparr>
      | Init_Limit l n \<Rightarrow> s\<lparr>sp_limit := (sp_limit s)(l \<mapsto> (n, 0))\<rparr>
      | Free_Limit l \<Rightarrow> s\<lparr>sp_limit := (sp_limit s)(l := None)\<rparr>
      | Increment_Limit l \<Rightarrow>
          if ok then s\<lparr>sp_limit := (sp_limit s)(l := map_option (\<lambda>(n, c). (n, c + 1)) (sp_limit s l))\<rparr> else s
      | Set_Limit l n \<Rightarrow> s\<lparr>sp_limit := (sp_limit s)(l := map_option (\<lambda>(_, c). (n, c)) (sp_limit s l))\<rparr>
      | Init_Job j h \<Rightarrow> s\<lparr>sp_job := (sp_job s)(j \<mapsto> h)\<rparr>
      | Set_Job j \<Rightarrow> s\<lparr>sp_pending := job_set j (sp_pending s)\<rparr>
      | Unset_Job j \<Rightarrow> s\<lparr>sp_pending := job_unset j (sp_pending s)\<rparr>
      | Free_Job j \<Rightarrow> s\<lparr>sp_job := (sp_job s)(j := None), sp_pending := job_unset j (sp_pending s)\<rparr>
      | Quit code \<Rightarrow> s\<lparr>sp_exit := Some code\<rparr>)"

text \<open>The events of the last answer; what an iteration does: \<open>env\<close> are the answers it took.\<close>

definition events_of :: "epoll_event list \<Rightarrow> nat \<rightharpoonup> u32" where
  "events_of evs p = map_option ev_events (find (\<lambda>e. ev_ptr e = Some p) evs)"

definition reported_of :: "(epoll_answer \<times> int) list \<Rightarrow> nat \<rightharpoonup> u32" where
  "reported_of env = (if env = [] then Map.empty else case fst (last env) of Epoll_Events evs \<Rightarrow> events_of evs | _ \<Rightarrow> Map.empty)"

definition spec_iteration :: "(epoll_answer \<times> int) list \<Rightarrow> 'h dispatched \<Rightarrow> 'h reactor_spec \<Rightarrow> 'h reactor_spec" where
  "spec_iteration env d s =
     (case d of
        Ran_Job h \<Rightarrow> s\<lparr>sp_pending := tl (sp_pending s)\<rparr>
      | Ran_Timer t h \<Rightarrow> s\<lparr>sp_armed := (sp_armed s)(t := None)\<rparr>
      | Ran_FD p h ev \<Rightarrow> s\<lparr>sp_reported := (sp_reported s)(p := None)\<rparr>
      | Skipped_Event (Some p) \<Rightarrow> s\<lparr>sp_reported := (sp_reported s)(p := None)\<rparr>
      | Skipped_Event None \<Rightarrow> s
      | Waited timers \<Rightarrow>
          if timers then s
          else s\<lparr>sp_reported := reported_of env, sp_limit := (\<lambda>l. map_option (\<lambda>(n, _). (n, 0)) (sp_limit s l))\<rparr>
      | Blocked timeout \<Rightarrow> s
      | Exited code \<Rightarrow> s)"

section \<open>What it means to refine the specification\<close>

definition timers_match :: "'h reactor_spec \<Rightarrow> int \<Rightarrow> 'h BReactor \<Rightarrow> bool" where
  "timers_match s clk r \<longleftrightarrow>
     (\<exists>rs es. timers_inv (dom (sp_timer s)) r rs es \<and> (\<forall>t\<in>set es. abs_of r t \<le> clk))
     \<and> (\<forall>t. sp_armed s t = (if t \<in> dom (sp_timer s) \<and> state_of r t \<noteq> TIMER_STATE_INACTIVE then Some (abs_of r t) else None))
     \<and> (\<forall>t h p. sp_timer s t = Some (h, p) \<longrightarrow> bt_handler (rc_timers r t) = h \<and> (\<forall>ms. p = Some ms \<longrightarrow> bt_msTime (rc_timers r t) = ms))"

definition fds_match :: "'h reactor_spec \<Rightarrow> 'h BReactor \<Rightarrow> bool" where
  "fds_match s r \<longleftrightarrow>
     fds_inv (dom (sp_fd s)) r
     \<and> (\<forall>p fd h. sp_fd s p = Some (fd, h) \<longrightarrow> fd_fd (rc_fds r p) = fd \<and> fd_handler (rc_fds r p) = h)
     \<and> (\<forall>p. sp_monitored s p = (if p \<in> dom (sp_fd s) \<and> active r p then Some (fd_waitEvents (rc_fds r p)) else None))
     \<and> (\<forall>i p. undelivered r i p \<longrightarrow> sp_reported s p = Some (ev_events (rc_epoll_results r ! i)))
     \<and> (\<forall>p. sp_reported s p \<noteq> None \<longrightarrow> (\<exists>i. undelivered r i p))"

definition limits_match :: "'h reactor_spec \<Rightarrow> 'h BReactor \<Rightarrow> bool" where
  "limits_match s r \<longleftrightarrow>
     (\<exists>ls. limits_inv (dom (sp_limit s)) r ls)
     \<and> (\<forall>l n c. sp_limit s l = Some (n, c) \<longrightarrow> lim_limit (rc_limits r l) = n \<and> lim_count (rc_limits r l) = c)"

definition jobs_match :: "'h reactor_spec \<Rightarrow> 'h BReactor \<Rightarrow> bool" where
  "jobs_match s r \<longleftrightarrow>
     pg_rep (dom (sp_job s)) (rc_pending_jobs r) (sp_pending s)
     \<and> (\<forall>j h. sp_job s j = Some h \<longrightarrow> bp_handler (bp_heap (rc_pending_jobs r) j) = h)"

definition exit_match :: "'h reactor_spec \<Rightarrow> 'h BReactor \<Rightarrow> bool" where
  "exit_match s r \<longleftrightarrow> rc_exiting r = (sp_exit s \<noteq> None) \<and> (\<forall>c. sp_exit s = Some c \<longrightarrow> rc_exit_code r = c)"

definition refines :: "'h reactor_spec \<Rightarrow> int \<Rightarrow> 'h BReactor \<Rightarrow> bool" where
  "refines s clk r \<longleftrightarrow> timers_match s clk r \<and> fds_match s r \<and> limits_match s r \<and> jobs_match s r \<and> exit_match s r"

text \<open>Each part depends on its own fields only.\<close>

lemma timers_match_cong:
  assumes "timers_match s clk r" "clk \<le> clk'" "sp_timer s' = sp_timer s" "sp_armed s' = sp_armed s"
    "rc_timers_tree r' = rc_timers_tree r" "rc_timers_expired_list r' = rc_timers_expired_list r" "rc_timers r' = rc_timers r"
  shows "timers_match s' clk' r'"
proof -
  obtain rs es where i: "timers_inv (dom (sp_timer s)) r rs es" "\<forall>t\<in>set es. abs_of r t \<le> clk"
    using assms(1) unfolding timers_match_def by blast
  have "timers_inv (dom (sp_timer s')) r' rs es" using i(1) timers_inv_cong [OF assms(5-7)] assms(3) by simp
  moreover have "\<forall>t\<in>set es. abs_of r' t \<le> clk'"
    using i(2) assms(2) unfolding assms(7) by (meson order_trans)
  ultimately have "\<exists>rs es. timers_inv (dom (sp_timer s')) r' rs es \<and> (\<forall>t\<in>set es. abs_of r' t \<le> clk')" by blast
  then show ?thesis using assms(1) unfolding timers_match_def assms(3,4,7) by simp
qed

lemma fds_match_cong:
  assumes "fds_match s r" "sp_fd s' = sp_fd s" "sp_monitored s' = sp_monitored s" "sp_reported s' = sp_reported s"
    "rc_fds r' = rc_fds r" "rc_efd r' = rc_efd r" "rc_epoll_results r' = rc_epoll_results r"
    "rc_epoll_results_num r' = rc_epoll_results_num r" "rc_epoll_results_pos r' = rc_epoll_results_pos r"
  shows "fds_match s' r'"
proof -
  have "undelivered r' = undelivered r" using assms by (simp add: undelivered_def fun_eq_iff)
  moreover have "fds_inv F r' = fds_inv F r" for F using assms by (intro fds_inv_cong)
  ultimately show ?thesis using assms by (simp add: fds_match_def)
qed

lemma limits_match_cong:
  assumes "limits_match s r" "sp_limit s' = sp_limit s"
    "rc_active_limits_list r' = rc_active_limits_list r" "rc_limits r' = rc_limits r"
  shows "limits_match s' r'"
  using assms limits_inv_cong [OF assms(3,4)] by (simp add: limits_match_def)

lemma jobs_match_cong:
  assumes "jobs_match s r" "sp_job s' = sp_job s" "sp_pending s' = sp_pending s" "rc_pending_jobs r' = rc_pending_jobs r"
  shows "jobs_match s' r'"
  using assms by (simp add: jobs_match_def)

lemma exit_match_cong:
  assumes "exit_match s r" "sp_exit s' = sp_exit s" "rc_exiting r' = rc_exiting r" "rc_exit_code r' = rc_exit_code r"
  shows "exit_match s' r'"
  using assms by (simp add: exit_match_def)

lemma refinesD:
  assumes "refines s clk r"
  shows "timers_match s clk r" "fds_match s r" "limits_match s r" "jobs_match s r" "exit_match s r"
  using assms by (simp_all add: refines_def)

section \<open>Operations\<close>

definition timers_frame :: "'h BReactor \<Rightarrow> 'h BReactor \<Rightarrow> bool" where
  "timers_frame r r' \<longleftrightarrow> (\<exists>a b c. r' = r\<lparr>rc_timers_tree := a, rc_timers_expired_list := b, rc_timers := c\<rparr>)"

lemma timers_only_frame: "timers_only r r' \<Longrightarrow> timers_frame r r'"
  unfolding timers_only_def timers_frame_def by blast

lemma refines_timers:
  assumes "refines s clk r" "timers_frame r r'" "timers_match s' clk' r'"
    "sp_fd s' = sp_fd s" "sp_monitored s' = sp_monitored s" "sp_reported s' = sp_reported s" "sp_limit s' = sp_limit s"
    "sp_job s' = sp_job s" "sp_pending s' = sp_pending s" "sp_exit s' = sp_exit s"
  shows "refines s' clk' r'"
proof -
  note R = refinesD [OF assms(1)]
  have only: "rc_active_limits_list r' = rc_active_limits_list r" "rc_limits r' = rc_limits r" "rc_fds r' = rc_fds r"
    "rc_efd r' = rc_efd r" "rc_epoll_results r' = rc_epoll_results r"
    "rc_epoll_results_num r' = rc_epoll_results_num r" "rc_epoll_results_pos r' = rc_epoll_results_pos r"
    "rc_pending_jobs r' = rc_pending_jobs r" "rc_exiting r' = rc_exiting r" "rc_exit_code r' = rc_exit_code r"
    using assms(2) by (auto simp: timers_frame_def)
  show ?thesis unfolding refines_def
    using assms(3) fds_match_cong [OF R(2) assms(4-6)] limits_match_cong [OF R(3) assms(7)]
      jobs_match_cong [OF R(4) assms(8,9)] exit_match_cong [OF R(5) assms(10)] only by simp
qed

lemma timers_match_init:
  assumes m: "timers_match s clk r" and n: "sp_armed s t = None" and le: "clk \<le> clk'"
    and r': "rc_timers r' = (rc_timers r)(t := x)" "rc_timers_tree r' = rc_timers_tree r"
      "rc_timers_expired_list r' = rc_timers_expired_list r"
    and x: "bt_absTime x = abs_of r t" "bt_state x = TIMER_STATE_INACTIVE" "bt_handler x = h" "\<forall>ms. p = Some ms \<longrightarrow> bt_msTime x = ms"
    and s': "sp_timer s' = (sp_timer s)(t \<mapsto> (h, p))" "sp_armed s' = sp_armed s"
  shows "timers_match s' clk' r'"
proof -
  obtain rs es where i: "timers_inv (dom (sp_timer s)) r rs es" "\<forall>t\<in>set es. abs_of r t \<le> clk"
    and a: "\<forall>t. sp_armed s t = (if t \<in> dom (sp_timer s) \<and> state_of r t \<noteq> TIMER_STATE_INACTIVE then Some (abs_of r t) else None)"
    and h: "\<forall>t h p. sp_timer s t = Some (h, p) \<longrightarrow> bt_handler (rc_timers r t) = h \<and> (\<forall>ms. p = Some ms \<longrightarrow> bt_msTime (rc_timers r t) = ms)"
    using m unfolding timers_match_def by blast
  have ab: "abs_of r' u = abs_of r u" for u using r'(1) x(1) by simp
  have off: "t \<notin> dom (sp_timer s) \<or> state_of r t = TIMER_STATE_INACTIVE"
    using n a by (metis option.discI)
  have tt: "timers_tree r' = timers_tree r" using r'(2) ab by (simp add: timers_tree_def)
  have "timers_inv (insert t (dom (sp_timer s))) r' rs es"
  proof -
    have "set rs = {u \<in> insert t (dom (sp_timer s)). state_of r' u = TIMER_STATE_RUNNING}"
      "set es = {u \<in> insert t (dom (sp_timer s)). state_of r' u = TIMER_STATE_EXPIRED}"
      using i(1) off r'(1) x(2) unfolding timers_inv_def by auto
    then show ?thesis using i(1) tt r'(3) earlier_cong [of r' r, OF ab] by (simp add: timers_inv_def)
  qed
  moreover have "\<forall>u\<in>set es. abs_of r' u \<le> clk'" using i(2) le ab by (metis order_trans)
  moreover have "sp_armed s' u = (if u \<in> dom (sp_timer s') \<and> state_of r' u \<noteq> TIMER_STATE_INACTIVE then Some (abs_of r' u) else None)" for u
    using a n s' ab r'(1) x(2) by (cases "u = t") auto
  moreover have "bt_handler (rc_timers r' u) = h' \<and> (\<forall>ms. p' = Some ms \<longrightarrow> bt_msTime (rc_timers r' u) = ms)"
    if "sp_timer s' u = Some (h', p')" for u h' p'
    using h s'(1) r'(1) x(3,4) that by (cases "u = t") auto
  moreover have "dom (sp_timer s') = insert t (dom (sp_timer s))" using s'(1) by simp
  ultimately show ?thesis unfolding timers_match_def by auto
qed

lemma set_remove1_sub: "\<forall>x\<in>set xs. P x \<Longrightarrow> \<forall>x\<in>set (remove1 y xs). P x"
  using set_remove1_subset by fastforce

lemma timers_match_set:
  assumes m: "timers_match s clk r" and t: "t \<in> dom (sp_timer s)" and le: "clk \<le> clk'"
    and s': "sp_timer s' = sp_timer s" "sp_armed s' = (sp_armed s)(t \<mapsto> timer_due mode time now)"
  shows "\<exists>r'. BReactor_SetSmallTimer t mode time now r = Some r' \<and> timers_only r r' \<and> timers_match s' clk' r'"
proof -
  obtain rs es where i: "timers_inv (dom (sp_timer s)) r rs es" "\<forall>t\<in>set es. abs_of r t \<le> clk"
    and a: "\<forall>t. sp_armed s t = (if t \<in> dom (sp_timer s) \<and> state_of r t \<noteq> TIMER_STATE_INACTIVE then Some (abs_of r t) else None)"
    and h: "\<forall>t h p. sp_timer s t = Some (h, p) \<longrightarrow> bt_handler (rc_timers r t) = h \<and> (\<forall>ms. p = Some ms \<longrightarrow> bt_msTime (rc_timers r t) = ms)"
    using m unfolding timers_match_def by blast
  obtain r' rs' where r': "BReactor_SetSmallTimer t mode time now r = Some r'" "timers_inv (dom (sp_timer s)) r' rs' (remove1 t es)"
    "timers_only r r'" "\<And>x. abs_of r' x = (if x = t then timer_due mode time now else abs_of r x)"
    "\<And>x. state_of r' x = (if x = t then TIMER_STATE_RUNNING else state_of r x)"
    using set_timer_inv [OF i(1) t, of mode time now] by blast
  have "t \<notin> set (remove1 t es)" using timers_inv_sorted(3) [OF i(1)] by simp
  then have "\<forall>u\<in>set (remove1 t es). abs_of r' u \<le> clk'"
    using set_remove1_sub [OF i(2)] r'(4) le by (auto dest: order_trans)
  moreover have "sp_armed s' u = (if u \<in> dom (sp_timer s') \<and> state_of r' u \<noteq> TIMER_STATE_INACTIVE then Some (abs_of r' u) else None)" for u
    using a s' t r'(4,5) by (cases "u = t") auto
  moreover have "\<forall>t h p. sp_timer s' t = Some (h, p) \<longrightarrow> bt_handler (rc_timers r' t) = h \<and> (\<forall>ms. p = Some ms \<longrightarrow> bt_msTime (rc_timers r' t) = ms)"
    using h s'(1) r'(3) by (simp add: timers_only_def)
  ultimately have "timers_match s' clk' r'" using r'(2) s'(1) unfolding timers_match_def by auto
  then show ?thesis using r'(1,3) by blast
qed

lemma timers_match_stop:
  assumes m: "timers_match s clk r" and t: "t \<in> dom (sp_timer s)" and le: "clk \<le> clk'"
    and s': "sp_timer s' = sp_timer s" "sp_armed s' = (sp_armed s)(t := None)"
  shows "\<exists>r'. BReactor_RemoveSmallTimer t r = Some r' \<and> timers_only r r' \<and> timers_match s' clk' r'"
proof -
  obtain rs es where i: "timers_inv (dom (sp_timer s)) r rs es" "\<forall>t\<in>set es. abs_of r t \<le> clk"
    and a: "\<forall>t. sp_armed s t = (if t \<in> dom (sp_timer s) \<and> state_of r t \<noteq> TIMER_STATE_INACTIVE then Some (abs_of r t) else None)"
    and h: "\<forall>t h p. sp_timer s t = Some (h, p) \<longrightarrow> bt_handler (rc_timers r t) = h \<and> (\<forall>ms. p = Some ms \<longrightarrow> bt_msTime (rc_timers r t) = ms)"
    using m unfolding timers_match_def by blast
  obtain r' where r': "BReactor_RemoveSmallTimer t r = Some r'" "timers_inv (dom (sp_timer s)) r' (remove1 t rs) (remove1 t es)"
    "timers_only r r'" "\<And>x. abs_of r' x = abs_of r x"
    "\<And>x. state_of r' x = (if x = t then TIMER_STATE_INACTIVE else state_of r x)"
    using remove_timer_inv [OF i(1) t] by blast
  have "\<forall>u\<in>set (remove1 t es). abs_of r' u \<le> clk'"
    using set_remove1_sub [OF i(2)] r'(4) le by (auto dest: order_trans)
  moreover have "sp_armed s' u = (if u \<in> dom (sp_timer s') \<and> state_of r' u \<noteq> TIMER_STATE_INACTIVE then Some (abs_of r' u) else None)" for u
    using a s' r'(4,5) by (cases "u = t") auto
  moreover have "\<forall>t h p. sp_timer s' t = Some (h, p) \<longrightarrow> bt_handler (rc_timers r' t) = h \<and> (\<forall>ms. p = Some ms \<longrightarrow> bt_msTime (rc_timers r' t) = ms)"
    using h s'(1) r'(3) by (simp add: timers_only_def)
  ultimately have "timers_match s' clk' r'" using r'(2) s'(1) unfolding timers_match_def by auto
  then show ?thesis using r'(1,3) by blast
qed

definition fds_only :: "'h BReactor \<Rightarrow> 'h BReactor \<Rightarrow> bool" where
  "fds_only r r' \<longleftrightarrow>
     (\<exists>a b c d e. r' = r\<lparr>rc_efd := a, rc_fds := b, rc_epoll_results := c, rc_epoll_results_num := d, rc_epoll_results_pos := e\<rparr>)"

lemma fds_onlyI:
  "\<exists>a b c. r' = r\<lparr>rc_efd := a, rc_fds := b, rc_epoll_results := c\<rparr> \<Longrightarrow> fds_only r r'"
proof -
  assume "\<exists>a b c. r' = r\<lparr>rc_efd := a, rc_fds := b, rc_epoll_results := c\<rparr>"
  then obtain a b c where "r' = r\<lparr>rc_efd := a, rc_fds := b, rc_epoll_results := c\<rparr>" by blast
  then show ?thesis unfolding fds_only_def
    by (intro exI [of _ a] exI [of _ b] exI [of _ c] exI [of _ "rc_epoll_results_num r"] exI [of _ "rc_epoll_results_pos r"]) simp
qed

lemma refines_fds:
  assumes "refines s clk r" "clk \<le> clk'" "fds_only r r'" "fds_match s' r'"
    "sp_timer s' = sp_timer s" "sp_armed s' = sp_armed s" "sp_limit s' = sp_limit s"
    "sp_job s' = sp_job s" "sp_pending s' = sp_pending s" "sp_exit s' = sp_exit s"
  shows "refines s' clk' r'"
proof -
  note R = refinesD [OF assms(1)]
  have only: "rc_timers_tree r' = rc_timers_tree r" "rc_timers_expired_list r' = rc_timers_expired_list r"
    "rc_timers r' = rc_timers r" "rc_active_limits_list r' = rc_active_limits_list r" "rc_limits r' = rc_limits r"
    "rc_pending_jobs r' = rc_pending_jobs r" "rc_exiting r' = rc_exiting r" "rc_exit_code r' = rc_exit_code r"
    using assms(3) by (auto simp: fds_only_def)
  show ?thesis unfolding refines_def
    using assms(4) timers_match_cong [OF R(1) assms(2,5,6)] limits_match_cong [OF R(3) assms(7)]
      jobs_match_cong [OF R(4) assms(8,9)] exit_match_cong [OF R(5) assms(10)] only by simp
qed

lemma fds_matchD:
  assumes "fds_match s r"
  shows "fds_inv (dom (sp_fd s)) r"
    "sp_fd s p = Some (fd, h) \<Longrightarrow> fd_fd (rc_fds r p) = fd \<and> fd_handler (rc_fds r p) = h"
    "sp_monitored s p = (if p \<in> dom (sp_fd s) \<and> active r p then Some (fd_waitEvents (rc_fds r p)) else None)"
    "undelivered r i p \<Longrightarrow> sp_reported s p = Some (ev_events (rc_epoll_results r ! i))"
    "sp_reported s p \<noteq> None \<Longrightarrow> \<exists>i. undelivered r i p"
  using assms unfolding fds_match_def by blast+

lemma fds_match_reported:
  "fds_match s r \<Longrightarrow> sp_reported s p = None \<or> p \<in> dom (sp_fd s) \<and> active r p"
proof -
  assume m: "fds_match s r"
  then have "results_inv (dom (sp_fd s)) r" using fds_matchD(1) [of s r] by (simp add: fds_inv_def)
  then show ?thesis using fds_matchD(5) [OF m, of p] results_invD(3,4) by blast
qed

lemma fds_match_monitored:
  "fds_match s r \<Longrightarrow> sp_monitored s p \<noteq> None \<longleftrightarrow> p \<in> dom (sp_fd s) \<and> active r p"
  by (simp add: fds_matchD(3))

text \<open>If the events stay and only \<open>p\<close> changes, four facts about \<open>p\<close> are left.\<close>

lemma fds_matchI:
  assumes m: "fds_match s r"
    and i: "fds_inv (dom (sp_fd s')) r'" and o: "\<And>q. q \<noteq> p \<Longrightarrow> rc_fds r' q = rc_fds r q \<and> sp_fd s' q = sp_fd s q
        \<and> sp_monitored s' q = sp_monitored s q \<and> sp_reported s' q = sp_reported s q"
    and p: "\<And>fd h. sp_fd s' p = Some (fd, h) \<Longrightarrow> fd_fd (rc_fds r' p) = fd \<and> fd_handler (rc_fds r' p) = h"
      "sp_monitored s' p = (if p \<in> dom (sp_fd s') \<and> active r' p then Some (fd_waitEvents (rc_fds r' p)) else None)"
      "sp_reported s' p = None"
    and u: "\<And>i q. undelivered r' i q \<longleftrightarrow> undelivered r i q \<and> q \<noteq> p"
    and ev: "\<And>i q. undelivered r' i q \<Longrightarrow> ev_events (rc_epoll_results r' ! i) = ev_events (rc_epoll_results r ! i)"
  shows "fds_match s' r'"
  unfolding fds_match_def
proof (intro conjI allI impI)
  show "fds_inv (dom (sp_fd s')) r'" by (rule i)
  fix q fd h assume q: "sp_fd s' q = Some (fd, h)"
  have "fd_fd (rc_fds r' q) = fd \<and> fd_handler (rc_fds r' q) = h"
  proof (cases "q = p")
    case False
    then have "sp_fd s q = Some (fd, h)" "rc_fds r' q = rc_fds r q" using o q by simp_all
    then show ?thesis using fds_matchD(2) [OF m, of q] by simp
  qed (use p(1) q in simp)
  then show "fd_fd (rc_fds r' q) = fd" "fd_handler (rc_fds r' q) = h" by simp_all
next
  show "sp_monitored s' q = (if q \<in> dom (sp_fd s') \<and> active r' q then Some (fd_waitEvents (rc_fds r' q)) else None)" for q
  proof (cases "q = p")
    case False
    then have "q \<in> dom (sp_fd s') \<longleftrightarrow> q \<in> dom (sp_fd s)" using o by (simp add: dom_def)
    then show ?thesis using False o [of q] fds_matchD(3) [OF m, of q] by simp
  qed (use p(2) in simp)
  show "sp_reported s' q = Some (ev_events (rc_epoll_results r' ! i))" if "undelivered r' i q" for i q
    using that u ev [OF that] o [of q] fds_matchD(4) [OF m] by simp
  show "\<exists>i. undelivered r' i q" if "sp_reported s' q \<noteq> None" for q
    using that p(3) o [of q] fds_matchD(5) [OF m, of q] u by (cases "q = p") auto
qed

lemma fds_match_init:
  assumes m: "fds_match s r" and n: "sp_monitored s p = None" and s': "s' = s\<lparr>sp_fd := (sp_fd s)(p \<mapsto> (fd, h))\<rparr>"
  shows "fds_match s' (BFileDescriptor_Init p fd h r)"
proof (rule fds_matchI [OF m])
  have off: "p \<notin> dom (sp_fd s) \<or> \<not> active r p" using fds_match_monitored [OF m, of p] n by simp
  have res: "results_inv (dom (sp_fd s)) r" using fds_matchD(1) [OF m] by (simp add: fds_inv_def)
  show "fds_inv (dom (sp_fd s')) (BFileDescriptor_Init p fd h r)"
    using fd_Init_inv [OF fds_matchD(1) [OF m] off] by (simp add: s')
  show "sp_reported s' p = None" using fds_match_reported [OF m, of p] off by (auto simp: s')
  show "undelivered (BFileDescriptor_Init p fd h r) i q \<longleftrightarrow> undelivered r i q \<and> q \<noteq> p" for i q
    using results_invD(3,4) [OF res] off by (auto simp: undelivered_def BFileDescriptor_Init_def)
qed (use n in \<open>simp_all add: BFileDescriptor_Init_def s'\<close>)

lemma fds_match_add:
  assumes m: "fds_match s r" and p: "p \<in> dom (sp_fd s)" and n: "sp_monitored s p = None"
  shows "\<exists>ok r'. BReactor_AddFileDescriptor k p r = Some (ok, r') \<and> fds_only r r'
    \<and> fds_match (if ok then s\<lparr>sp_monitored := (sp_monitored s)(p \<mapsto> 0)\<rparr> else s) r'"
proof -
  have off: "\<not> active r p" using fds_match_monitored [OF m, of p] n p by simp
  obtain ok r' where r': "BReactor_AddFileDescriptor k p r = Some (ok, r')" "fds_inv (dom (sp_fd s)) r'"
    "r' = r\<lparr>rc_efd := rc_efd r', rc_fds := rc_fds r'\<rparr>" "undelivered r' = undelivered r"
    "\<And>q. rc_fds r' q = (if ok \<and> q = p
          then (rc_fds r p)\<lparr>fd_epoll_returned_ptr := None, fd_active := True, fd_waitEvents := 0\<rparr> else rc_fds r q)"
    using fd_Add_inv [OF fds_matchD(1) [OF m] p off, of k] by blast
  have res: "rc_epoll_results r' = rc_epoll_results r" by (subst r'(3)) simp
  have only: "fds_only r r'" 
    by (rule fds_onlyI, rule exI [of _ "rc_efd r'"], rule exI [of _ "rc_fds r'"], rule exI [of _ "rc_epoll_results r"]) (subst r'(3), simp)
  have np: "\<not> undelivered r i p" "sp_reported s p = None" for i
    using off results_invD(4) [of "dom (sp_fd s)" r i p] fds_matchD(1) [OF m] fds_match_reported [OF m, of p]
    by (auto simp: fds_inv_def)
  have "fds_match (if ok then s\<lparr>sp_monitored := (sp_monitored s)(p \<mapsto> 0)\<rparr> else s) r'"
  proof (rule fds_matchI [OF m, where p = p])
    show "undelivered r' i q \<longleftrightarrow> undelivered r i q \<and> q \<noteq> p" for i q using np(1) r'(4) by auto
    show "fd_fd (rc_fds r' p) = fd \<and> fd_handler (rc_fds r' p) = h"
      if "sp_fd (if ok then s\<lparr>sp_monitored := (sp_monitored s)(p \<mapsto> 0)\<rparr> else s) p = Some (fd, h)" for fd h
      using that fds_matchD(2) [OF m, of p] r'(5) by (simp split: if_splits)
  qed (use r'(2,5) n off p np(2) res in auto)
  then show ?thesis using r'(1) only by blast
qed

lemma fds_match_remove:
  assumes m: "fds_match s r" and n: "sp_monitored s p \<noteq> None"
  shows "\<exists>r'. BReactor_RemoveFileDescriptor p r = Some r' \<and> fds_only r r'
    \<and> fds_match (s\<lparr>sp_monitored := (sp_monitored s)(p := None), sp_reported := (sp_reported s)(p := None)\<rparr>) r'"
proof -
  have p: "p \<in> dom (sp_fd s)" "active r p" using fds_match_monitored [OF m, of p] n by simp_all
  obtain r' where r': "BReactor_RemoveFileDescriptor p r = Some r'" "fds_inv (dom (sp_fd s)) r'"
    "r' = r\<lparr>rc_efd := rc_efd r', rc_fds := (rc_fds r)(p := (rc_fds r p)\<lparr>fd_active := False\<rparr>),
             rc_epoll_results := rc_epoll_results r'\<rparr>"
    "\<And>i q. undelivered r' i q \<longleftrightarrow> undelivered r i q \<and> q \<noteq> p"
    "\<And>i q. undelivered r' i q \<Longrightarrow> ev_events (rc_epoll_results r' ! i) = ev_events (rc_epoll_results r ! i)"
    using fd_Remove_inv [OF fds_matchD(1) [OF m] p] by blast
  have f: "rc_fds r' = (rc_fds r)(p := (rc_fds r p)\<lparr>fd_active := False\<rparr>)" by (subst r'(3)) simp
  have only: "fds_only r r'" by (rule fds_onlyI) (use r'(3) in blast)
  have "fds_match (s\<lparr>sp_monitored := (sp_monitored s)(p := None), sp_reported := (sp_reported s)(p := None)\<rparr>) r'"
    using fds_matchI [OF m, of "s\<lparr>sp_monitored := (sp_monitored s)(p := None), sp_reported := (sp_reported s)(p := None)\<rparr>" r' p]
      r'(2,4,5) fds_matchD(2) [OF m, of p] by (simp add: f)
  then show ?thesis using r'(1) only by blast
qed

lemma fds_match_events:
  assumes m: "fds_match s r" and n: "sp_monitored s p \<noteq> None" and w: "w AND NOT (BREACTOR_READ OR BREACTOR_WRITE) = 0"
  shows "\<exists>r'. BReactor_SetFileDescriptorEvents p w r = Some r' \<and> fds_only r r'
    \<and> fds_match (s\<lparr>sp_monitored := (sp_monitored s)(p \<mapsto> w)\<rparr>) r'"
proof -
  have p: "p \<in> dom (sp_fd s)" "active r p" using fds_match_monitored [OF m, of p] n by simp_all
  obtain r' where r': "BReactor_SetFileDescriptorEvents p w r = Some r'" "fds_inv (dom (sp_fd s)) r'"
    "r' = r\<lparr>rc_efd := rc_efd r', rc_fds := (rc_fds r)(p := (rc_fds r p)\<lparr>fd_waitEvents := w\<rparr>)\<rparr>"
    using fd_SetEvents_inv [OF fds_matchD(1) [OF m] p w] by blast
  have f: "rc_fds r' = (rc_fds r)(p := (rc_fds r p)\<lparr>fd_waitEvents := w\<rparr>)" "rc_epoll_results r' = rc_epoll_results r"
    "undelivered r' = undelivered r" by (subst r'(3), simp add: undelivered_def fun_eq_iff)+
  have only: "fds_only r r'" 
    by (rule fds_onlyI, rule exI [of _ "rc_efd r'"], rule exI [of _ "rc_fds r'"], rule exI [of _ "rc_epoll_results r"])
      (subst r'(3), simp add: f(1))
  have "fds_match (s\<lparr>sp_monitored := (sp_monitored s)(p \<mapsto> w)\<rparr>) r'"
    using m r'(2) p unfolding fds_match_def by (auto simp: f)
  then show ?thesis using r'(1) only by blast
qed

definition limits_only :: "'h BReactor \<Rightarrow> 'h BReactor \<Rightarrow> bool" where
  "limits_only r r' \<longleftrightarrow> (\<exists>a b. r' = r\<lparr>rc_limits := a, rc_active_limits_list := b\<rparr>)"

lemma refines_limits:
  assumes "refines s clk r" "clk \<le> clk'" "limits_only r r'" "limits_match s' r'"
    "sp_timer s' = sp_timer s" "sp_armed s' = sp_armed s" "sp_fd s' = sp_fd s" "sp_monitored s' = sp_monitored s"
    "sp_reported s' = sp_reported s" "sp_job s' = sp_job s" "sp_pending s' = sp_pending s" "sp_exit s' = sp_exit s"
  shows "refines s' clk' r'"
proof -
  note R = refinesD [OF assms(1)]
  have only: "rc_timers_tree r' = rc_timers_tree r" "rc_timers_expired_list r' = rc_timers_expired_list r"
    "rc_timers r' = rc_timers r" "rc_fds r' = rc_fds r" "rc_efd r' = rc_efd r" "rc_epoll_results r' = rc_epoll_results r"
    "rc_epoll_results_num r' = rc_epoll_results_num r" "rc_epoll_results_pos r' = rc_epoll_results_pos r"
    "rc_pending_jobs r' = rc_pending_jobs r" "rc_exiting r' = rc_exiting r" "rc_exit_code r' = rc_exit_code r"
    using assms(3) by (auto simp: limits_only_def)
  show ?thesis unfolding refines_def
    using assms(4) timers_match_cong [OF R(1) assms(2,5,6)] fds_match_cong [OF R(2) assms(7-9)]
      jobs_match_cong [OF R(4) assms(10,11)] exit_match_cong [OF R(5) assms(12)] only by simp
qed

lemma limits_matchD:
  "limits_match s r \<Longrightarrow> \<exists>ls. limits_inv (dom (sp_limit s)) r ls"
  "limits_match s r \<Longrightarrow> sp_limit s l = Some (n, c) \<Longrightarrow> lim_limit (rc_limits r l) = n \<and> lim_count (rc_limits r l) = c"
  unfolding limits_match_def by blast+

lemma limits_match_init:
  assumes "limits_match s r" "l \<notin> dom (sp_limit s)" "0 < n"
  shows "\<exists>r'. BReactorLimit_Init l n r = Some r' \<and> limits_only r r' \<and> limits_match (s\<lparr>sp_limit := (sp_limit s)(l \<mapsto> (n, 0))\<rparr>) r'"
proof -
  obtain ls where "limits_inv (dom (sp_limit s)) r ls" using limits_matchD(1) [OF assms(1)] by blast
  from limit_Init_inv [OF this assms(2,3)] obtain r' where r': "BReactorLimit_Init l n r = Some r'"
    "limits_inv (insert l (dom (sp_limit s))) r' ls" "r' = r\<lparr>rc_limits := (rc_limits r)(l := \<lparr>lim_limit = n, lim_count = 0\<rparr>)\<rparr>" by blast
  have "limits_only r r'" unfolding limits_only_def
    by (rule exI [of _ "rc_limits r'"], rule exI [of _ "rc_active_limits_list r"]) (simp add: r'(3))
  moreover have "limits_match (s\<lparr>sp_limit := (sp_limit s)(l \<mapsto> (n, 0))\<rparr>) r'"
    using r'(2) limits_matchD(2) [OF assms(1)] by (auto simp: limits_match_def r'(3))
  ultimately show ?thesis using r'(1) by blast
qed

lemma limits_match_free:
  assumes "limits_match s r" "l \<in> dom (sp_limit s)"
  shows "limits_only r (BReactorLimit_Free l r) \<and> limits_match (s\<lparr>sp_limit := (sp_limit s)(l := None)\<rparr>) (BReactorLimit_Free l r)"
proof -
  let ?r = "BReactorLimit_Free l r"
  obtain ls where "limits_inv (dom (sp_limit s)) r ls" using limits_matchD(1) [OF assms(1)] by blast
  from limit_Free_inv [OF this assms(2)] have i: "limits_inv (dom (sp_limit s) - {l}) ?r (remove1 l ls)" .
  have f: "rc_limits ?r = rc_limits r" by (simp add: BReactorLimit_Free_def)
  have "limits_only r ?r" unfolding limits_only_def
    by (rule exI [of _ "rc_limits r"], rule exI [of _ "rc_active_limits_list ?r"]) (simp add: BReactorLimit_Free_def)
  moreover have "limits_match (s\<lparr>sp_limit := (sp_limit s)(l := None)\<rparr>) ?r"
    using i limits_matchD(2) [OF assms(1)] by (auto simp: limits_match_def f)
  ultimately show ?thesis by blast
qed

lemma limits_match_increment:
  assumes "limits_match s r" "sp_limit s l = Some (n, c)" "BReactorLimit_Increment l r = (ok, r')"
  shows "ok = (c < n)" "limits_only r r'"
    "limits_match (if ok then s\<lparr>sp_limit := (sp_limit s)(l \<mapsto> (n, c + 1))\<rparr> else s) r'"
proof -
  have lc: "lim_limit (rc_limits r l) = n" "lim_count (rc_limits r l) = c" using limits_matchD(2) [OF assms(1,2)] by simp_all
  show ok: "ok = (c < n)" using assms(3) lc by (auto simp: BReactorLimit_Increment_def Let_def split: if_splits)
  obtain ls where i: "limits_inv (dom (sp_limit s)) r ls" using limits_matchD(1) [OF assms(1)] by blast
  have "l \<in> dom (sp_limit s)" using assms(2) by auto
  from limit_Increment_inv [OF i this] obtain ls' where i': "limits_inv (dom (sp_limit s)) r' ls'" using assms(3) by auto
  show "limits_only r r'" unfolding limits_only_def
    by (rule exI [of _ "rc_limits r'"], rule exI [of _ "rc_active_limits_list r'"])
      (use assms(3) in \<open>auto simp: BReactorLimit_Increment_def Let_def split: if_splits\<close>)
  have f: "rc_limits r' = (if ok then (rc_limits r)(l := (rc_limits r l)\<lparr>lim_count := c + 1\<rparr>) else rc_limits r)"
    using assms(3) lc by (auto simp: BReactorLimit_Increment_def Let_def split: if_splits)
  show "limits_match (if ok then s\<lparr>sp_limit := (sp_limit s)(l \<mapsto> (n, c + 1))\<rparr> else s) r'"
  proof (cases ok)
    case True
    have "insert l (dom (sp_limit s)) = dom (sp_limit s)" using assms(2) by auto
    then show ?thesis using True i' limits_matchD(2) [OF assms(1)] lc by (auto simp: limits_match_def f)
  next
    case False
    then show ?thesis using i' limits_matchD(2) [OF assms(1)] by (auto simp: limits_match_def f)
  qed
qed

lemma limits_match_set:
  assumes "limits_match s r" "sp_limit s l = Some (m, c)" "0 < n"
  shows "\<exists>r'. BReactorLimit_SetLimit l n r = Some r' \<and> limits_only r r' \<and> limits_match (s\<lparr>sp_limit := (sp_limit s)(l \<mapsto> (n, c))\<rparr>) r'"
proof -
  obtain ls where "limits_inv (dom (sp_limit s)) r ls" using limits_matchD(1) [OF assms(1)] by blast
  from limit_SetLimit_inv [OF this assms(3), of l] obtain r' where r': "BReactorLimit_SetLimit l n r = Some r'"
    "limits_inv (dom (sp_limit s)) r' ls" "r' = r\<lparr>rc_limits := (rc_limits r)(l := (rc_limits r l)\<lparr>lim_limit := n\<rparr>)\<rparr>" by blast
  have "limits_only r r'" unfolding limits_only_def
    by (rule exI [of _ "rc_limits r'"], rule exI [of _ "rc_active_limits_list r"]) (simp add: r'(3))
  moreover have "insert l (dom (sp_limit s)) = dom (sp_limit s)" using assms(2) by auto
  then have "limits_match (s\<lparr>sp_limit := (sp_limit s)(l \<mapsto> (n, c))\<rparr>) r'"
    using r'(2) limits_matchD(2) [OF assms(1)] assms(2) by (auto simp: limits_match_def r'(3))
  ultimately show ?thesis using r'(1) by blast
qed

lemma refines_jobs:
  assumes "refines s clk r" "clk \<le> clk'" "r' = r\<lparr>rc_pending_jobs := g\<rparr>"
    "pg_rep (dom (sp_job s')) g (sp_pending s')" "\<And>j h. sp_job s' j = Some h \<Longrightarrow> bp_handler (bp_heap g j) = h"
    "s' = s\<lparr>sp_job := a, sp_pending := b\<rparr>"
  shows "refines s' clk' r'"
proof -
  note R = refinesD [OF assms(1)]
  have "jobs_match s' r'" using assms(3-5) by (simp add: jobs_match_def)
  then show ?thesis unfolding refines_def
    using timers_match_cong [OF R(1) assms(2), of s' r'] fds_match_cong [OF R(2), of s' r']
      limits_match_cong [OF R(3), of s' r'] exit_match_cong [OF R(5), of s' r'] assms(3,6) by simp
qed

lemma jobs_refine:
  assumes r: "refines s clk r" and le: "clk \<le> clk'"
  shows "j \<notin> dom (sp_job s) \<Longrightarrow> refines (s\<lparr>sp_job := (sp_job s)(j \<mapsto> h)\<rparr>) clk' (r\<lparr>rc_pending_jobs := BPending_Init j (rc_pending_jobs r) h\<rparr>)"
    "j \<in> dom (sp_job s) \<Longrightarrow> refines (s\<lparr>sp_pending := job_set j (sp_pending s)\<rparr>) clk' (r\<lparr>rc_pending_jobs := BPending_Set j (rc_pending_jobs r)\<rparr>)"
    "j \<in> dom (sp_job s) \<Longrightarrow> refines (s\<lparr>sp_pending := job_unset j (sp_pending s)\<rparr>) clk' (r\<lparr>rc_pending_jobs := BPending_Unset j (rc_pending_jobs r)\<rparr>)"
    "j \<in> dom (sp_job s) \<Longrightarrow> refines (s\<lparr>sp_job := (sp_job s)(j := None), sp_pending := job_unset j (sp_pending s)\<rparr>) clk'
       (r\<lparr>rc_pending_jobs := BPending_Free j (rc_pending_jobs r)\<rparr>)"
proof -
  let ?g = "rc_pending_jobs r"
  have p: "pg_rep (dom (sp_job s)) ?g (sp_pending s)" and h: "sp_job s j = Some h \<Longrightarrow> bp_handler (bp_heap ?g j) = h" for j h
    using refinesD(4) [OF r] by (simp_all add: jobs_match_def)
  show "j \<notin> dom (sp_job s) \<Longrightarrow> refines (s\<lparr>sp_job := (sp_job s)(j \<mapsto> h)\<rparr>) clk' (r\<lparr>rc_pending_jobs := BPending_Init j ?g h\<rparr>)"
    by (rule refines_jobs [OF r le refl, where a = "(sp_job s)(j \<mapsto> h)" and b = "sp_pending s"])
      (use pg_rep_Pending_Init [OF p] h in \<open>auto simp: BPending_wrappers BSmallPending_Init_def set_next_def split: if_splits\<close>)
  show "j \<in> dom (sp_job s) \<Longrightarrow> refines (s\<lparr>sp_pending := job_set j (sp_pending s)\<rparr>) clk' (r\<lparr>rc_pending_jobs := BPending_Set j ?g\<rparr>)"
    by (rule refines_jobs [OF r le refl, where a = "sp_job s" and b = "job_set j (sp_pending s)"])
      (use pg_rep_Set [OF p] h in \<open>auto simp: BPending_wrappers\<close>)
  show "j \<in> dom (sp_job s) \<Longrightarrow> refines (s\<lparr>sp_pending := job_unset j (sp_pending s)\<rparr>) clk' (r\<lparr>rc_pending_jobs := BPending_Unset j ?g\<rparr>)"
    by (rule refines_jobs [OF r le refl, where a = "sp_job s" and b = "job_unset j (sp_pending s)"])
      (use pg_rep_Unset [OF p] h in \<open>auto simp: BPending_wrappers\<close>)
  show "j \<in> dom (sp_job s) \<Longrightarrow> refines (s\<lparr>sp_job := (sp_job s)(j := None), sp_pending := job_unset j (sp_pending s)\<rparr>) clk'
       (r\<lparr>rc_pending_jobs := BPending_Free j ?g\<rparr>)"
    by (rule refines_jobs [OF r le refl, where a = "(sp_job s)(j := None)" and b = "job_unset j (sp_pending s)"])
      (use pg_rep_Free [OF p] h remove_heap_frame [of ?g j] in \<open>auto simp: BPending_wrappers BSmallPending_Free_def split: if_splits\<close>)
qed

lemma timer_init_refines:
  assumes r: "refines s clk r" and n: "sp_armed s t = None" and le: "clk \<le> clk'"
    and x: "bt_absTime x = abs_of r t" "bt_state x = TIMER_STATE_INACTIVE" "bt_handler x = h" "\<forall>ms. p = Some ms \<longrightarrow> bt_msTime x = ms"
  shows "refines (s\<lparr>sp_timer := (sp_timer s)(t \<mapsto> (h, p))\<rparr>) clk' (r\<lparr>rc_timers := (rc_timers r)(t := x)\<rparr>)"
proof (rule refines_timers [OF r])
  show "timers_match (s\<lparr>sp_timer := (sp_timer s)(t \<mapsto> (h, p))\<rparr>) clk' (r\<lparr>rc_timers := (rc_timers r)(t := x)\<rparr>)"
    by (rule timers_match_init [OF refinesD(1) [OF r] n le _ _ _ x]) simp_all
  show "timers_frame r (r\<lparr>rc_timers := (rc_timers r)(t := x)\<rparr>)" unfolding timers_frame_def
    by (rule exI [of _ "rc_timers_tree r"], rule exI [of _ "rc_timers_expired_list r"], rule exI [of _ "(rc_timers r)(t := x)"]) simp
qed simp_all

lemma timer_set_refines:
  assumes r: "refines s clk r" and t: "t \<in> dom (sp_timer s)" and le: "clk \<le> clk'"
  shows "\<exists>r'. BReactor_SetSmallTimer t mode time now r = Some r'
    \<and> refines (s\<lparr>sp_armed := (sp_armed s)(t \<mapsto> timer_due mode time now)\<rparr>) clk' r'"
proof -
  let ?s = "s\<lparr>sp_armed := (sp_armed s)(t \<mapsto> timer_due mode time now)\<rparr>"
  obtain r' where "BReactor_SetSmallTimer t mode time now r = Some r'" "timers_only r r'" "timers_match ?s clk' r'"
    using timers_match_set [OF refinesD(1) [OF r] t le, of ?s mode time now] by auto
  moreover have "refines ?s clk' r'"
    by (rule refines_timers [OF r timers_only_frame [OF calculation(2)] calculation(3)]) simp_all
  ultimately show ?thesis by blast
qed

lemma timer_stop_refines:
  assumes r: "refines s clk r" and t: "t \<in> dom (sp_timer s)" and le: "clk \<le> clk'"
  shows "\<exists>r'. BReactor_RemoveSmallTimer t r = Some r' \<and> refines (s\<lparr>sp_armed := (sp_armed s)(t := None)\<rparr>) clk' r'"
proof -
  let ?s = "s\<lparr>sp_armed := (sp_armed s)(t := None)\<rparr>"
  obtain r' where "BReactor_RemoveSmallTimer t r = Some r'" "timers_only r r'" "timers_match ?s clk' r'"
    using timers_match_stop [OF refinesD(1) [OF r] t le, of ?s] by auto
  moreover have "refines ?s clk' r'"
    by (rule refines_timers [OF r timers_only_frame [OF calculation(2)] calculation(3)]) simp_all
  ultimately show ?thesis by blast
qed

lemma op_refines:
  assumes r: "refines s clk r" and le: "clk \<le> now" and a: "allowed s a"
  shows "\<exists>ok r'. do_op now a r = Some (ok, r') \<and> refines (spec_op now a ok s) now r'
    \<and> (\<forall>l n c. a = Increment_Limit l \<longrightarrow> sp_limit s l = Some (n, c) \<longrightarrow> ok = (c < n))"
proof (cases a)
  case (Init_Timer t h)
  show ?thesis using timer_init_refines [OF r _ le, of t _ h None] a
    by (intro exI [of _ True]) (simp add: Init_Timer allowed_def do_op_def spec_op_def BSmallTimer_Init_def)
next
  case (Init_BTimer t ms h)
  show ?thesis using timer_init_refines [OF r _ le, of t _ h "Some ms"] a
    by (intro exI [of _ True]) (simp add: Init_BTimer allowed_def do_op_def spec_op_def BTimer_Init_def)
next
  case (Set_Timer t mode time)
  show ?thesis using timer_set_refines [OF r _ le, of t mode time now] a
    by (auto simp: Set_Timer allowed_def do_op_def spec_op_def finished_def)
next
  case (Set_BTimer t)
  obtain h ms where t: "sp_timer s t = Some (h, Some ms)"
    using a by (auto simp: Set_BTimer allowed_def split: option.splits)
  then have "bt_msTime (rc_timers r t) = ms" using refinesD(1) [OF r] by (simp add: timers_match_def)
  then show ?thesis using timer_set_refines [OF r _ le, of t BTIMER_SET_RELATIVE ms now] t
    by (auto simp: Set_BTimer do_op_def spec_op_def finished_def BReactor_SetTimer_def timer_due_def)
next
  case (Stop_Timer t)
  show ?thesis using timer_stop_refines [OF r _ le, of t] a
    by (auto simp: Stop_Timer allowed_def do_op_def spec_op_def finished_def)
next
  case (Init_FD p fd h)
  let ?s = "s\<lparr>sp_fd := (sp_fd s)(p \<mapsto> (fd, h))\<rparr>" and ?r = "BFileDescriptor_Init p fd h r"
  have "fds_only r ?r" unfolding BFileDescriptor_Init_def
    by (rule fds_onlyI, rule exI [of _ "rc_efd r"], rule exI, rule exI [of _ "rc_epoll_results r"]) simp
  moreover have "fds_match ?s ?r"
    using fds_match_init [OF refinesD(2) [OF r], of p ?s fd h] a by (simp add: Init_FD allowed_def)
  ultimately have "refines ?s now ?r" by (rule refines_fds [OF r le]) simp_all
  then show ?thesis by (intro exI [of _ True]) (simp add: Init_FD do_op_def spec_op_def)
next
  case (Add_FD p k)
  have p: "p \<in> dom (sp_fd s)" "sp_monitored s p = None" using a by (simp_all add: Add_FD allowed_def)
  obtain ok r' where r': "BReactor_AddFileDescriptor k p r = Some (ok, r')" "fds_only r r'"
    "fds_match (if ok then s\<lparr>sp_monitored := (sp_monitored s)(p \<mapsto> 0)\<rparr> else s) r'"
    using fds_match_add [OF refinesD(2) [OF r] p] by blast
  have "refines (if ok then s\<lparr>sp_monitored := (sp_monitored s)(p \<mapsto> 0)\<rparr> else s) now r'"
    by (rule refines_fds [OF r le r'(2,3)]) simp_all
  then show ?thesis using r'(1) by (simp add: Add_FD do_op_def spec_op_def)
next
  case (Remove_FD p)
  let ?s = "s\<lparr>sp_monitored := (sp_monitored s)(p := None), sp_reported := (sp_reported s)(p := None)\<rparr>"
  obtain r' where r': "BReactor_RemoveFileDescriptor p r = Some r'" "fds_only r r'" "fds_match ?s r'"
    using fds_match_remove [OF refinesD(2) [OF r], of p] a by (auto simp: Remove_FD allowed_def)
  have "refines ?s now r'" by (rule refines_fds [OF r le r'(2,3)]) simp_all
  then show ?thesis using r'(1) by (intro exI [of _ True]) (simp add: Remove_FD do_op_def spec_op_def finished_def)
next
  case (Set_FD p w)
  let ?s = "s\<lparr>sp_monitored := (sp_monitored s)(p \<mapsto> w)\<rparr>"
  have "sp_monitored s p \<noteq> None" "w AND NOT (BREACTOR_READ OR BREACTOR_WRITE) = 0"
    using a unfolding Set_FD allowed_def by simp_all
  from fds_match_events [OF refinesD(2) [OF r] this] obtain r' where
    r': "BReactor_SetFileDescriptorEvents p w r = Some r'" "fds_only r r'" "fds_match ?s r'" by blast
  have "refines ?s now r'" by (rule refines_fds [OF r le r'(2,3)]) simp_all
  then show ?thesis using r'(1) by (intro exI [of _ True]) (simp add: Set_FD do_op_def spec_op_def finished_def)
next
  case (Init_Limit l n)
  let ?s = "s\<lparr>sp_limit := (sp_limit s)(l \<mapsto> (n, 0))\<rparr>"
  obtain r' where r': "BReactorLimit_Init l n r = Some r'" "limits_only r r'" "limits_match ?s r'"
    using limits_match_init [OF refinesD(3) [OF r], of l n] a by (auto simp: Init_Limit allowed_def)
  have "refines ?s now r'" by (rule refines_limits [OF r le r'(2,3)]) simp_all
  then show ?thesis using r'(1) by (intro exI [of _ True]) (simp add: Init_Limit do_op_def spec_op_def finished_def)
next
  case (Free_Limit l)
  let ?s = "s\<lparr>sp_limit := (sp_limit s)(l := None)\<rparr>"
  have r': "limits_only r (BReactorLimit_Free l r)" "limits_match ?s (BReactorLimit_Free l r)"
    using limits_match_free [OF refinesD(3) [OF r], of l] a by (simp_all add: Free_Limit allowed_def)
  have "refines ?s now (BReactorLimit_Free l r)" by (rule refines_limits [OF r le r']) simp_all
  then show ?thesis by (intro exI [of _ True]) (simp add: Free_Limit do_op_def spec_op_def)
next
  case (Increment_Limit l)
  obtain n c where l: "sp_limit s l = Some (n, c)" using a by (auto simp: Increment_Limit allowed_def)
  obtain ok r' where i: "BReactorLimit_Increment l r = (ok, r')" by (cases "BReactorLimit_Increment l r")
  note r' = limits_match_increment [OF refinesD(3) [OF r] l i]
  have "refines (if ok then s\<lparr>sp_limit := (sp_limit s)(l \<mapsto> (n, c + 1))\<rparr> else s) now r'"
    by (rule refines_limits [OF r le r'(2,3)]) simp_all
  then show ?thesis using i l r'(1)
    by (intro exI [of _ ok] exI [of _ r']) (simp add: Increment_Limit do_op_def spec_op_def split: if_splits)
next
  case (Set_Limit l n)
  obtain m c where l: "sp_limit s l = Some (m, c)" "0 < n" using a by (auto simp: Set_Limit allowed_def)
  let ?s = "s\<lparr>sp_limit := (sp_limit s)(l \<mapsto> (n, c))\<rparr>"
  obtain r' where r': "BReactorLimit_SetLimit l n r = Some r'" "limits_only r r'" "limits_match ?s r'"
    using limits_match_set [OF refinesD(3) [OF r] l] by blast
  have "refines ?s now r'" by (rule refines_limits [OF r le r'(2,3)]) simp_all
  then show ?thesis using r'(1) l by (intro exI [of _ True]) (simp add: Set_Limit do_op_def spec_op_def finished_def)
next
  case (Quit code)
  have "exit_match (s\<lparr>sp_exit := Some code\<rparr>) (BReactor_Quit code r)" by (simp add: exit_match_def BReactor_Quit_def)
  then have "refines (s\<lparr>sp_exit := Some code\<rparr>) now (BReactor_Quit code r)"
    using timers_match_cong [OF refinesD(1) [OF r] le, of "s\<lparr>sp_exit := Some code\<rparr>" "BReactor_Quit code r"]
      fds_match_cong [OF refinesD(2) [OF r], of "s\<lparr>sp_exit := Some code\<rparr>" "BReactor_Quit code r"]
      limits_match_cong [OF refinesD(3) [OF r], of "s\<lparr>sp_exit := Some code\<rparr>" "BReactor_Quit code r"]
      jobs_match_cong [OF refinesD(4) [OF r], of "s\<lparr>sp_exit := Some code\<rparr>" "BReactor_Quit code r"]
    by (simp add: refines_def BReactor_Quit_def)
  then show ?thesis by (intro exI [of _ True]) (simp add: Quit do_op_def spec_op_def)
qed (use jobs_refine [OF r le] a in \<open>intro exI [of _ True], auto simp: allowed_def do_op_def spec_op_def\<close>)

end
