(* ===== verification/Reactor_Run.thy ===== *)
theory Reactor_Run
  imports Reactor_Spec
begin

text \<open>
  Iterations of the event loop. \<open>answers r now env clk\<close>: the answers \<open>env\<close> of the kernel, each given while the loop of \<open>r\<close> is
  in \<^verbatim>\<open>epoll_wait\<close>, to the timeout that it waits with. \<open>spec_allows\<close>: what the specification lets an iteration do. Every iteration
  succeeds, does what it may, and refines the specification.
\<close>

section \<open>What an iteration may do\<close>

inductive answers :: "'h BReactor \<Rightarrow> int \<Rightarrow> (epoll_answer \<times> int) list \<Rightarrow> int \<Rightarrow> bool" for r now where
  answers_none: "answers r now [] now"
| answers_more: "answers r now env clk \<Longrightarrow> BReactor_Exec_iteration now env r = Some (Blocked timeout, r) \<Longrightarrow>
    answer_ok r timeout clk a after \<Longrightarrow> answers r now (env @ [(a, after)]) after"

text \<open>\<open>timeout\<close> is the time to the first armed timer, as far as \<^verbatim>\<open>epoll_wait\<close> can wait.\<close>

definition sleeps_well :: "'h reactor_spec \<Rightarrow> int \<Rightarrow> int \<Rightarrow> bool" where
  "sleeps_well s clk timeout \<longleftrightarrow>
     (if sp_armed s = Map.empty then timeout = -1
      else 1 \<le> timeout \<and> timeout \<le> INT_MAX \<and> (\<forall>t a. sp_armed s t = Some a \<longrightarrow> clk + timeout \<le> a)
        \<and> (timeout = INT_MAX \<or> (\<exists>t. sp_armed s t = Some (clk + timeout))))"

definition has_events :: "(epoll_answer \<times> int) list \<Rightarrow> bool" where
  "has_events env \<longleftrightarrow> env \<noteq> [] \<and> (\<exists>evs. fst (last env) = Epoll_Events evs \<and> evs \<noteq> [])"

definition wakes :: "'h reactor_spec \<Rightarrow> int \<Rightarrow> (epoll_answer \<times> int) list \<Rightarrow> int \<Rightarrow> bool \<Rightarrow> bool" where
  "wakes s now env clk timers \<longleftrightarrow>
     (if timers then \<exists>t a. sp_armed s t = Some a \<and> a \<le> now
      else (\<forall>t a. sp_armed s t = Some a \<longrightarrow> now < a) \<and> ((\<exists>t a. sp_armed s t = Some a \<and> a \<le> clk) \<or> has_events env))"

definition spec_allows :: "'h reactor_spec \<Rightarrow> int \<Rightarrow> (epoll_answer \<times> int) list \<Rightarrow> int \<Rightarrow> 'h dispatched \<Rightarrow> bool" where
  "spec_allows s now env clk d \<longleftrightarrow>
     (case sp_exit s of
        Some c \<Rightarrow> d = Exited c
      | None \<Rightarrow>
          case sp_pending s of
            j # _ \<Rightarrow> (\<exists>h. sp_job s j = Some h \<and> d = Ran_Job h)
          | [] \<Rightarrow>
              case d of
                Ran_Job h \<Rightarrow> False
              | Exited c \<Rightarrow> False
              | Ran_Timer t h \<Rightarrow> \<exists>p a. sp_timer s t = Some (h, p) \<and> sp_armed s t = Some a \<and> a \<le> now
              | Ran_FD p h ev \<Rightarrow> \<exists>fd w e. sp_fd s p = Some (fd, h) \<and> sp_monitored s p = Some w \<and> sp_reported s p = Some e
                  \<and> ev = report_events w e \<and> ev \<noteq> 0
              | Skipped_Event None \<Rightarrow> True
              | Skipped_Event (Some p) \<Rightarrow> \<exists>w e. sp_monitored s p = Some w \<and> sp_reported s p = Some e \<and> report_events w e = 0
              | Waited timers \<Rightarrow> sp_reported s = Map.empty \<and> wakes s now env clk timers
              | Blocked timeout \<Rightarrow> sp_reported s = Map.empty \<and> sleeps_well s clk timeout)"

section \<open>Dispatching\<close>

lemma jobs_match_has: "jobs_match s r \<Longrightarrow> BPendingGroup_HasJobs (rc_pending_jobs r) \<longleftrightarrow> sp_pending s \<noteq> []"
  by (cases "sp_pending s") (auto simp: jobs_match_def pg_rep_def BPendingGroup_HasJobs_def SLinkedList_IsEmpty_def)

lemma exec_job_refines:
  assumes r: "refines s clk r" and p: "sp_pending s = j # js" and le: "clk \<le> clk'"
  shows "\<exists>g h. BPendingGroup_ExecuteJob (rc_pending_jobs r) = Some (g, h) \<and> sp_job s j = Some h
    \<and> refines (s\<lparr>sp_pending := js\<rparr>) clk' (r\<lparr>rc_pending_jobs := g\<rparr>)"
proof -
  have m: "pg_rep (dom (sp_job s)) (rc_pending_jobs r) (j # js)"
    "\<And>j h. sp_job s j = Some h \<Longrightarrow> bp_handler (bp_heap (rc_pending_jobs r) j) = h"
    using refinesD(4) [OF r] p by (simp_all add: jobs_match_def)
  obtain h where h: "sp_job s j = Some h" using m(1) by (auto simp: pg_rep_def)
  obtain g where g: "BPendingGroup_ExecuteJob (rc_pending_jobs r) = Some (g, bp_handler (bp_heap (rc_pending_jobs r) j))"
    "pg_rep (dom (sp_job s)) g js" "\<forall>x. bp_handler (bp_heap g x) = bp_handler (bp_heap (rc_pending_jobs r) x)"
    using pg_rep_Execute_Cons [OF m(1)] by blast
  have "refines (s\<lparr>sp_pending := js\<rparr>) clk' (r\<lparr>rc_pending_jobs := g\<rparr>)"
    by (rule refines_jobs [OF r le refl, where a = "sp_job s" and b = js]) (use g m(2) in simp_all)
  then show ?thesis using g(1) h m(2) by auto
qed

lemma timers_match_sets:
  assumes "timers_match s clk r" "timers_inv (dom (sp_timer s)) r rs es"
  shows "sp_armed s t = (if t \<in> set rs \<union> set es then Some (abs_of r t) else None)"
proof -
  have "sp_armed s t = (if t \<in> dom (sp_timer s) \<and> state_of r t \<noteq> TIMER_STATE_INACTIVE then Some (abs_of r t) else None)"
    using assms(1) unfolding timers_match_def by blast
  moreover have "t \<in> set rs \<union> set es \<longleftrightarrow> t \<in> dom (sp_timer s) \<and> state_of r t \<noteq> TIMER_STATE_INACTIVE"
    using assms(2) unfolding timers_inv_def by (cases "state_of r t") auto
  ultimately show ?thesis by presburger
qed

lemma exec_timer_refines:
  assumes r: "refines s clk r" and i: "timers_inv (dom (sp_timer s)) r rs (t # es)" and le: "clk \<le> clk'"
  shows "state_of r t = TIMER_STATE_EXPIRED \<and> sp_timer s t \<noteq> None
    \<and> refines (s\<lparr>sp_armed := (sp_armed s)(t := None)\<rparr>) clk'
        (set_timer_state t TIMER_STATE_INACTIVE (r\<lparr>rc_timers_expired_list := LinkedList1_Remove t (rc_timers_expired_list r)\<rparr>))"
proof -
  have t: "t \<in> dom (sp_timer s)" "state_of r t = TIMER_STATE_EXPIRED" using i by (auto simp: timers_inv_def)
  from timer_stop_refines [OF r t(1) le] t show ?thesis by (auto simp: BReactor_RemoveSmallTimer_def)
qed

text \<open>The event at \<open>rc_epoll_results_pos\<close>.\<close>

lemma registered_cong:
  "rc_efd r' = rc_efd r \<Longrightarrow> (\<And>p. active r' p = active r p \<and> fd_fd (rc_fds r' p) = fd_fd (rc_fds r p)
      \<and> fd_waitEvents (rc_fds r' p) = fd_waitEvents (rc_fds r p)) \<Longrightarrow> registered F r' = registered F r"
  by (simp add: registered_def)

lemma fds_match_skip:
  assumes m: "fds_match s r" and e: "rc_epoll_results_pos r < rc_epoll_results_num r"
    "ev_ptr (rc_epoll_results r ! rc_epoll_results_pos r) = None"
  shows "fds_match s (r\<lparr>rc_epoll_results_pos := rc_epoll_results_pos r + 1\<rparr>)"
proof -
  let ?r = "r\<lparr>rc_epoll_results_pos := rc_epoll_results_pos r + 1\<rparr>"
  have reg: "registered (dom (sp_fd s)) r" and res: "results_inv (dom (sp_fd s)) r"
    using fds_matchD(1) [OF m] by (simp_all add: fds_inv_def)
  have u: "undelivered ?r = undelivered r"
  proof (intro ext)
    fix i p
    show "undelivered ?r i p = undelivered r i p"
      using e by (cases "i = rc_epoll_results_pos r") (auto simp: undelivered_def)
  qed
  have "registered (dom (sp_fd s)) ?r" using reg by (simp add: registered_def)
  moreover have "results_inv (dom (sp_fd s)) ?r"
  proof (rule results_invI)
    fix i p assume "undelivered ?r i p"
    then show "p \<in> dom (sp_fd s) \<and> active ?r p \<and> returned ?r p = Some i"
      unfolding u using results_invD(3-5) [OF res] by simp
  next
    fix i p assume "p \<in> dom (sp_fd s)" "active ?r p" "returned ?r p = Some i"
    then show "undelivered ?r i p" unfolding u using results_invD(6) [OF res] by simp
  qed (use results_invD(1,2) [OF res] e in simp_all)
  ultimately have "fds_inv (dom (sp_fd s)) ?r" by (simp add: fds_inv_def)
  then show ?thesis using m unfolding fds_match_def u by simp
qed

lemma fds_match_take:
  assumes m: "fds_match s r" and e: "rc_epoll_results_pos r < rc_epoll_results_num r"
    "ev_ptr (rc_epoll_results r ! rc_epoll_results_pos r) = Some p"
  shows "active r p \<and> returned r p = Some (rc_epoll_results_pos r) \<and> p \<in> dom (sp_fd s)
    \<and> sp_reported s p = Some (ev_events (rc_epoll_results r ! rc_epoll_results_pos r))
    \<and> fds_match (s\<lparr>sp_reported := (sp_reported s)(p := None)\<rparr>)
        (r\<lparr>rc_epoll_results_pos := rc_epoll_results_pos r + 1,
           rc_fds := (rc_fds r)(p := (rc_fds r p)\<lparr>fd_epoll_returned_ptr := None\<rparr>)\<rparr>)"
proof -
  let ?pos = "rc_epoll_results_pos r"
  let ?r = "r\<lparr>rc_epoll_results_pos := ?pos + 1, rc_fds := (rc_fds r)(p := (rc_fds r p)\<lparr>fd_epoll_returned_ptr := None\<rparr>)\<rparr>"
  let ?s = "s\<lparr>sp_reported := (sp_reported s)(p := None)\<rparr>"
  have reg: "registered (dom (sp_fd s)) r" and res: "results_inv (dom (sp_fd s)) r"
    using fds_matchD(1) [OF m] by (simp_all add: fds_inv_def)
  have up: "undelivered r ?pos p" using e by (simp add: undelivered_def)
  have p: "p \<in> dom (sp_fd s)" "active r p" "returned r p = Some ?pos"
    using results_invD(3-5) [OF res up] by simp_all
  have u: "undelivered ?r i q \<longleftrightarrow> undelivered r i q \<and> q \<noteq> p" for i q
  proof (cases "i = ?pos")
    case True
    then show ?thesis using e by (auto simp: undelivered_def)
  next
    case False
    then have "\<not> undelivered r i p" using results_invD(5) [OF res, of i p] p(3) by auto
    moreover have "undelivered ?r i q \<longleftrightarrow> undelivered r i q" using False by (auto simp: undelivered_def)
    ultimately show ?thesis by auto
  qed
  have "registered (dom (sp_fd s)) ?r"
    using reg registered_cong [of ?r r] by simp
  moreover have "results_inv (dom (sp_fd s)) ?r"
  proof (rule results_invI)
    fix i q assume "undelivered ?r i q"
    then have "undelivered r i q" "q \<noteq> p" using u by blast+
    then show "q \<in> dom (sp_fd s) \<and> active ?r q \<and> returned ?r q = Some i" using results_invD(3-5) [OF res] by simp
  next
    fix i q assume q: "q \<in> dom (sp_fd s)" "active ?r q" "returned ?r q = Some i"
    then have "q \<noteq> p" by auto
    then show "undelivered ?r i q" using u results_invD(6) [OF res] q by simp
  qed (use results_invD(1,2) [OF res] e in simp_all)
  ultimately have "fds_inv (dom (sp_fd ?s)) ?r" by (simp add: fds_inv_def)
  then have "fds_match ?s ?r"
    by (rule fds_matchI [OF m, where p = p]) (use u fds_matchD(2,3) [OF m, of p] in simp_all)
  then show ?thesis using p fds_matchD(4) [OF m up] by blast
qed

section \<open>Waiting\<close>

lemma answers_clk: "answers r now env clk \<Longrightarrow> clk = last (now # map snd env) \<and> now \<le> clk"
  by (induction rule: answers.induct) (auto simp: answer_ok_def)

lemma iteration_idle:
  assumes "idle r" "\<not> rc_exiting r"
  shows "BReactor_Exec_iteration now env r =
    (case wait_for_events now env r of
       Wait_Fails \<Rightarrow> None | Wait_Blocks timeout \<Rightarrow> Some (Blocked timeout, r) | Wait_Returns timers r \<Rightarrow> Some (Waited timers, r))"
  using assms by (simp add: idle_def BReactor_Exec_iteration_def LinkedList1_IsEmpty_def LinkedList1_GetFirst_def)

lemma wait_eq:
  assumes i: "idle r" and t: "timers_inv T r rs []" and n: "rs = [] \<or> now < abs_of r (hd rs)"
  shows "wait_for_events now env r = epoll_loop (first_due r rs) (if rs = [] then 0 else now) env (swept r)"
proof -
  have t0: "timers_inv T (swept r) rs []" using t by (subst timers_inv_cong) simp_all
  show ?thesis
  proof (cases rs)
    case Nil
    then show ?thesis using i timers_first [OF t0] by (simp add: wait_for_events_def idle_def first_due_def)
  next
    case (Cons x xs)
    then have run: "state_of r x = TIMER_STATE_RUNNING" "now < abs_of r x" using t n by (auto simp: timers_inv_def)
    have "move_expired_timers now False (swept r) = Some (False, swept r)"
      using timers_first [OF t0] Cons run by (subst move_expired_timers.simps) simp
    then show ?thesis using i timers_first [OF t0] Cons run by (simp add: wait_for_events_def idle_def first_due_def)
  qed
qed

lemma wait_blocks:
  assumes i: "idle r" and t: "timers_inv T r rs []" and n: "rs = [] \<or> now < abs_of r (hd rs)"
    and b: "wait_for_events now env r = Wait_Blocks timeout"
  shows "\<exists>before. timeout = epoll_timeout (first_due r rs) before
    \<and> (\<forall>x. wait_for_events now (env @ [x]) r = epoll_loop (first_due r rs) before [x] (swept r))
    \<and> (rs \<noteq> [] \<longrightarrow> before = last (now # map snd env) \<and> before < abs_of r (hd rs))"
proof -
  have "epoll_loop (first_due r rs) (if rs = [] then 0 else now) env (swept r) = Wait_Blocks timeout"
    using b wait_eq [OF i t n] by simp
  from epoll_loop_snoc [OF this] show ?thesis
    unfolding wait_eq [OF i t n] using n by (cases rs) (auto simp: first_due_def)
qed

lemma timers_sleep:
  assumes m: "timers_match s clk r" and t: "timers_inv (dom (sp_timer s)) r rs []"
    and n: "rs \<noteq> [] \<Longrightarrow> c = now \<and> now < abs_of r (hd rs)"
  shows "sleeps_well s now (epoll_timeout (first_due r rs) c)"
proof (cases rs)
  case Nil
  then have "sp_armed s = Map.empty" using timers_match_sets [OF m t] by (auto simp: fun_eq_iff)
  then show ?thesis using Nil by (simp add: sleeps_well_def epoll_timeout_def first_due_def)
next
  case (Cons x xs)
  have ar: "sp_armed s u = (if u \<in> set rs then Some (abs_of r u) else None)" for u
    using timers_match_sets [OF m t] by simp
  have first: "abs_of r x \<le> abs_of r u" if "u \<in> set rs" for u
    using timers_inv_sorted(1) [OF t] that Cons by (auto simp: earlier_def)
  have c: "c = now" "now < abs_of r x" using n Cons by simp_all
  have "sp_armed s x = Some (abs_of r x)" using ar Cons by simp
  then have ne: "sp_armed s \<noteq> Map.empty" by auto
  have T: "epoll_timeout (first_due r rs) c = (if abs_of r x - now > INT_MAX then INT_MAX else abs_of r x - now)"
    using Cons c by (simp add: epoll_timeout_def first_due_def timeout_rel_trunc_def)
  have pos: "1 \<le> (INT_MAX :: int)" by simp
  have le: "now + epoll_timeout (first_due r rs) c \<le> a" if "sp_armed s u = Some a" for u a
    using that ar [of u] first [of u] T by (auto split: if_splits)
  have ex: "epoll_timeout (first_due r rs) c = INT_MAX \<or> (\<exists>u. sp_armed s u = Some (now + epoll_timeout (first_due r rs) c))"
    using T \<open>sp_armed s x = Some (abs_of r x)\<close> by (cases "abs_of r x - now > INT_MAX") auto
  show ?thesis unfolding sleeps_well_def using ne le ex T pos c(2) by auto
qed

lemma timers_match_wait:
  assumes m: "timers_match s clk r" and t: "timers_inv (dom (sp_timer s)) r rs []"
    and t': "timers_inv (dom (sp_timer s)) r' rs' es'" and same: "set rs' \<union> set es' = set rs"
    and le: "\<forall>t\<in>set es'. abs_of r t \<le> clk'" and k: "settings_kept r r'"
    and s': "sp_timer s' = sp_timer s" "sp_armed s' = sp_armed s"
  shows "timers_match s' clk' r'"
proof -
  have kept: "abs_of r' t = abs_of r t" "bt_handler (rc_timers r' t) = bt_handler (rc_timers r t)"
    "bt_msTime (rc_timers r' t) = bt_msTime (rc_timers r t)" for t using k by (simp_all add: settings_kept_def)
  have st: "u \<in> dom (sp_timer s) \<and> state_of r' u \<noteq> TIMER_STATE_INACTIVE \<longleftrightarrow> u \<in> set rs" for u
  proof -
    have "u \<in> set rs' \<union> set es' \<longleftrightarrow> u \<in> dom (sp_timer s) \<and> state_of r' u \<noteq> TIMER_STATE_INACTIVE"
      using t' unfolding timers_inv_def by (cases "state_of r' u") auto
    then show ?thesis using same by simp
  qed
  have "sp_armed s u = (if u \<in> set rs then Some (abs_of r u) else None)" for u
    using timers_match_sets [OF m t] by simp
  then have "\<forall>u. sp_armed s' u = (if u \<in> dom (sp_timer s') \<and> state_of r' u \<noteq> TIMER_STATE_INACTIVE then Some (abs_of r' u) else None)"
    unfolding s' st kept by blast
  moreover have "\<exists>rs es. timers_inv (dom (sp_timer s')) r' rs es \<and> (\<forall>t\<in>set es. abs_of r' t \<le> clk')"
    using t' le s'(1) kept(1) by auto
  moreover have "\<forall>t h p. sp_timer s' t = Some (h, p) \<longrightarrow> bt_handler (rc_timers r' t) = h \<and> (\<forall>ms. p = Some ms \<longrightarrow> bt_msTime (rc_timers r' t) = ms)"
    using m unfolding timers_match_def s' kept by blast
  ultimately show ?thesis unfolding timers_match_def by blast
qed

lemma fds_match_wait:
  assumes m: "fds_match s r" and f: "fds_inv (dom (sp_fd s)) r'" and k: "settings_kept r r'"
    and u: "\<And>i p. undelivered r' i p \<Longrightarrow> sp_reported s' p = Some (ev_events (rc_epoll_results r' ! i))"
      "\<And>p. sp_reported s' p \<noteq> None \<Longrightarrow> \<exists>i. undelivered r' i p"
    and s': "sp_fd s' = sp_fd s" "sp_monitored s' = sp_monitored s"
  shows "fds_match s' r'"
proof -
  have kept: "fd_fd (rc_fds r' p) = fd_fd (rc_fds r p)" "fd_handler (rc_fds r' p) = fd_handler (rc_fds r p)"
    "active r' p = active r p" "fd_waitEvents (rc_fds r' p) = fd_waitEvents (rc_fds r p)" for p
  proof -
    obtain x where "rc_fds r' p = (rc_fds r p)\<lparr>fd_epoll_returned_ptr := x\<rparr>" using k unfolding settings_kept_def by blast
    then show "fd_fd (rc_fds r' p) = fd_fd (rc_fds r p)" "fd_handler (rc_fds r' p) = fd_handler (rc_fds r p)"
      "active r' p = active r p" "fd_waitEvents (rc_fds r' p) = fd_waitEvents (rc_fds r p)" by simp_all
  qed
  show ?thesis unfolding fds_match_def s' kept
    using f fds_matchD(2,3) [OF m] u by blast
qed

lemma limits_match_wait:
  assumes m: "limits_match s r" and i: "limits_inv (dom (sp_limit s)) r' []" and k: "settings_kept r r'"
    and s': "sp_limit s' = (\<lambda>l. map_option (\<lambda>(n, _). (n, 0)) (sp_limit s l))"
  shows "limits_match s' r'"
proof -
  have d: "dom (sp_limit s') = dom (sp_limit s)" by (auto simp: s' dom_def)
  have "lim_limit (rc_limits r' l) = n \<and> lim_count (rc_limits r' l) = c" if l: "sp_limit s' l = Some (n, c)" for l n c
  proof -
    obtain c0 where l0: "sp_limit s l = Some (n, c0)" "c = 0" using l by (auto simp: s')
    then have "lim_count (rc_limits r' l) = 0" using i by (force simp: limits_inv_def dom_def)
    then show ?thesis using limits_matchD(2) [OF m l0(1)] k l0(2) by (simp add: settings_kept_def)
  qed
  then show ?thesis unfolding limits_match_def d using i by blast
qed

lemma events_of_nth:
  "distinct (map ev_ptr evs) \<Longrightarrow> i < length evs \<Longrightarrow> ev_ptr (evs ! i) = Some p \<Longrightarrow> events_of evs p = Some (ev_events (evs ! i))"
proof (induction evs arbitrary: i)
  case (Cons e evs)
  show ?case
  proof (cases i)
    case 0
    then show ?thesis using Cons.prems by (simp add: events_of_def)
  next
    case (Suc j)
    then have j: "j < length evs" "ev_ptr (evs ! j) = Some p" using Cons.prems by simp_all
    then have "Some p \<in> ev_ptr ` set evs" by (metis image_eqI nth_mem)
    then have "ev_ptr e \<noteq> Some p" using Cons.prems(1) by auto
    moreover have "events_of evs p = Some (ev_events (evs ! j))"
      using Cons.IH [OF _ j] Cons.prems(1) by simp
    ultimately show ?thesis using Suc by (simp add: events_of_def)
  qed
qed simp

lemma events_of_some: "events_of evs p \<noteq> None \<Longrightarrow> \<exists>i<length evs. ev_ptr (evs ! i) = Some p"
  by (auto simp: events_of_def find_Some_iff)

lemma reported_none: "\<not> has_events env \<Longrightarrow> reported_of env = Map.empty"
  by (auto simp: has_events_def reported_of_def events_of_def fun_eq_iff split: epoll_answer.splits)

lemma kept_exit: "settings_kept r r' \<Longrightarrow> exit_match s r \<Longrightarrow> sp_exit s' = sp_exit s \<Longrightarrow> exit_match s' r'"
  by (rule exit_match_cong) (auto simp: settings_kept_def)

lemma kept_jobs: "settings_kept r r' \<Longrightarrow> jobs_match s r \<Longrightarrow> sp_job s' = sp_job s \<Longrightarrow> sp_pending s' = sp_pending s \<Longrightarrow> jobs_match s' r'"
  by (rule jobs_match_cong) (auto simp: settings_kept_def)

lemma idle_reported:
  assumes "fds_match s r" "rc_epoll_results_pos r = rc_epoll_results_num r"
  shows "sp_reported s = Map.empty"
  using fds_matchD(5) [OF assms(1)] assms(2) by (force simp: undelivered_def fun_eq_iff)

lemma swept_match:
  assumes r: "refines s clk r" and i: "idle r" and t: "timers_inv (dom (sp_timer s)) r rs []"
  shows "refines s clk (swept r)" "timers_inv (dom (sp_timer s)) (swept r) rs []"
proof -
  note R = refinesD [OF r]
  have pos: "rc_epoll_results_pos r = rc_epoll_results_num r" using i by (simp add: idle_def)
  note sw = swept_inv [OF fds_matchD(1) [OF R(2)] pos]
  have "fds_match s (swept r)"
    by (rule fds_match_wait [OF R(2) sw]) (simp_all add: undelivered_def idle_reported [OF R(2) pos])
  then show "refines s clk (swept r)" unfolding refines_def
    using timers_match_cong [OF R(1), of clk s "swept r"] limits_match_cong [OF R(3), of s "swept r"]
      jobs_match_cong [OF R(4), of s "swept r"] exit_match_cong [OF R(5), of s "swept r"] by simp
  show "timers_inv (dom (sp_timer s)) (swept r) rs []" using t by (subst timers_inv_cong) simp_all
qed

lemma batch_set: "set (dropWhile P xs) \<union> set (takeWhile P xs) = set xs"
  by (metis set_append sup_commute takeWhile_dropWhile_id)

text \<open>Timers that were due when the loop came to wait.\<close>

lemma wait_due_refines:
  assumes r: "refines s clk r" and p: "sp_pending s = []" "sp_exit s = None" and i: "idle r"
    and t: "timers_inv (dom (sp_timer s)) r (x # rs) []" and d: "abs_of r x \<le> now" and le: "now \<le> clk'"
  shows "\<exists>r'. wait_for_events now env r = Wait_Returns True r' \<and> refines s clk' r' \<and> spec_allows s now env clk' (Waited True)"
proof -
  note R = refinesD [OF r]
  obtain ls where l: "limits_inv (dom (sp_limit s)) r ls" using limits_matchD(1) [OF R(3)] by blast
  obtain r' where w: "wait_for_events now env r = Wait_Returns True r'"
    and tt: "timers_inv (dom (sp_timer s)) r' (dropWhile (\<lambda>u. abs_of r u \<le> now) (x # rs)) (takeWhile (\<lambda>u. abs_of r u \<le> now) (x # rs))"
    and f: "fds_inv (dom (sp_fd s)) r'" "rc_epoll_results_pos r' = rc_epoll_results_num r'"
    and l': "limits_inv (dom (sp_limit s)) r' ls" "rc_limits r' = rc_limits r" and k: "settings_kept r r'"
    using wait_due [OF t fds_matchD(1) [OF R(2)] l i d, of env] by blast
  have none: "sp_reported s = Map.empty" using idle_reported [OF R(2)] i by (simp add: idle_def)
  have "timers_match s clk' r'"
  proof (rule timers_match_wait [OF R(1) t tt batch_set _ k refl refl])
    show "\<forall>u\<in>set (takeWhile (\<lambda>u. abs_of r u \<le> now) (x # rs)). abs_of r u \<le> clk'"
    proof
      fix u assume "u \<in> set (takeWhile (\<lambda>u. abs_of r u \<le> now) (x # rs))"
      from set_takeWhileD [OF this] le show "abs_of r u \<le> clk'" by simp
    qed
  qed
  moreover have "fds_match s r'"
    by (rule fds_match_wait [OF R(2) f(1) k]) (use f(2) none in \<open>auto simp: undelivered_def\<close>)
  moreover have "limits_match s r'"
    using l' limits_matchD(2) [OF R(3)] unfolding limits_match_def by auto
  ultimately have "refines s clk' r'"
    using kept_jobs [OF k R(4) refl refl] kept_exit [OF k R(5) refl] by (simp add: refines_def)
  moreover have "sp_armed s x = Some (abs_of r x)" using timers_match_sets [OF R(1) t, of x] by simp
  then have "spec_allows s now env clk' (Waited True)"
    using p d none by (auto simp: spec_allows_def wakes_def)
  ultimately show ?thesis using w by blast
qed

text \<open>After the answers of the kernel.\<close>

lemma wait_answers_refines:
  assumes r: "refines s clk r" and p: "sp_pending s = []" "sp_exit s = None" and i: "idle r"
    and t: "timers_inv (dom (sp_timer s)) r rs []" and n: "rs = [] \<or> now < abs_of r (hd rs)"
    and an: "answers r now env clk'" and le: "clk \<le> now"
  shows "\<exists>d r'. (case wait_for_events now env r of
       Wait_Fails \<Rightarrow> None | Wait_Blocks timeout \<Rightarrow> Some (Blocked timeout, r) | Wait_Returns timers r \<Rightarrow> Some (Waited timers, r))
       = Some (d, r') \<and> refines (spec_iteration env d s) clk' r' \<and> spec_allows s now env clk' d"
proof -
  note R = refinesD [OF r]
  have pos: "rc_epoll_results_pos r = rc_epoll_results_num r" using i by (simp add: idle_def)
  have ex: "\<not> rc_exiting r" using R(5) p(2) by (simp add: exit_match_def)
  have none: "sp_reported s = Map.empty" using idle_reported [OF R(2) pos] .
  have ar: "sp_armed s u = (if u \<in> set rs then Some (abs_of r u) else None)" for u using timers_match_sets [OF R(1) t] by simp
  have clk: "clk' = last (now # map snd env)" "now \<le> clk'" using answers_clk [OF an] by simp_all
  have later: "now < a" if "sp_armed s u = Some a" for u a
  proof -
    have "u \<in> set rs" "a = abs_of r u" using that ar by (auto split: if_splits)
    then show ?thesis using n timers_inv_sorted(1) [OF t] by (cases rs) (auto simp: earlier_def)
  qed
  have mono: "refines s clk' r"
    using timers_match_cong [OF R(1), of clk' s r] R le clk(2) by (simp add: refines_def)
  have blocked: ?thesis if b: "wait_for_events now env r = Wait_Blocks T" for T
  proof -
    obtain c where c: "T = epoll_timeout (first_due r rs) c" "rs \<noteq> [] \<longrightarrow> c = clk' \<and> c < abs_of r (hd rs)"
      using wait_blocks [OF i t n b] clk(1) by blast
    have "sleeps_well s clk' T" unfolding c(1) by (rule timers_sleep [OF R(1) t]) (use c(2) in auto)
    then have "spec_allows s now env clk' (Blocked T)" using p none by (simp add: spec_allows_def)
    then show ?thesis using b mono by (simp add: spec_iteration_def)
  qed
  from an show ?thesis
  proof cases
    case answers_none
    have "\<exists>T. wait_for_events now [] r = Wait_Blocks T" using wait_eq [OF i t n, of "[]"] by simp
    then show ?thesis using blocked answers_none(1) by blast
  next
    case (answers_more env0 clk0 T0 a)
    have e: "env = env0 @ [(a, clk')]" by (rule answers_more)
    have "wait_for_events now env0 r = Wait_Blocks T0"
      using answers_more(3) iteration_idle [OF i ex, of now env0] by (simp split: waited.splits)
    from wait_blocks [OF i t n this] obtain c where c: "T0 = epoll_timeout (first_due r rs) c"
      "wait_for_events now env r = epoll_loop (first_due r rs) c [(a, clk')] (swept r)"
      "rs \<noteq> [] \<longrightarrow> c = clk0 \<and> c < abs_of r (hd rs)"
      unfolding e using answers_clk [OF answers_more(2)] by blast
    note S = swept_match [OF r i t]
    have fd: "first_due (swept r) rs = first_due r rs" by (simp add: first_due_def)
    have ok: "answer_ok (swept r) (epoll_timeout (first_due (swept r) rs) c) clk0 a clk'"
      using answers_more(4) c(1) unfolding fd by (simp add: answer_ok_def valid_events_def split: epoll_answer.splits)
    obtain ls where l: "limits_inv (dom (sp_limit s)) (swept r) ls"
      using limits_matchD(1) [OF refinesD(3) [OF S(1)]] by blast
    have k0: "settings_kept r (swept r)" by (rule swept_inv(2) [OF fds_matchD(1) [OF R(2)] pos])
    let ?s = "spec_iteration env (Waited False) s"
    have s': "?s = s\<lparr>sp_reported := reported_of env, sp_limit := (\<lambda>l. map_option (\<lambda>(n, _). (n, 0)) (sp_limit s l))\<rparr>"
      by (simp add: spec_iteration_def)
    have fin: "refines ?s clk' r'"
      if "timers_match ?s clk' r'" "fds_match ?s r'" "limits_inv (dom (sp_limit s)) r' []" "settings_kept r r'" for r'
      using that(1,2) limits_match_wait [OF R(3) that(3,4), of ?s] kept_jobs [OF that(4) R(4), of ?s] kept_exit [OF that(4) R(5), of ?s]
      unfolding refines_def s' by simp
    from wait_answer [OF S(2) fds_matchD(1) [OF refinesD(2) [OF S(1)]] l _ _ ok] c(2,3)
    consider (b) T where "wait_for_events now env r = Wait_Blocks T"
      | (tm) r' u where "wait_for_events now env r = Wait_Returns False r'" "rs \<noteq> []" "u = abs_of r (hd rs)" "u \<le> clk'"
          "\<forall>evs. a = Epoll_Events evs \<longrightarrow> evs = []"
          "timers_inv (dom (sp_timer s)) r' (dropWhile (\<lambda>x. abs_of r x = u) rs) (takeWhile (\<lambda>x. abs_of r x = u) rs)"
          "fds_inv (dom (sp_fd s)) r'" "rc_epoll_results_pos r' = rc_epoll_results_num r'" "limits_inv (dom (sp_limit s)) r' []"
          "settings_kept (swept r) r'"
      | (ev) r' evs where "wait_for_events now env r = Wait_Returns False r'" "a = Epoll_Events evs" "evs \<noteq> []"
          "timers_inv (dom (sp_timer s)) r' rs []" "fds_inv (dom (sp_fd s)) r'"
          "rc_epoll_results r' = evs @ drop (length evs) (rc_epoll_results (swept r))"
          "\<forall>i p. undelivered r' i p \<longleftrightarrow> i < length evs \<and> ev_ptr (evs ! i) = Some p"
          "limits_inv (dom (sp_limit s)) r' []" "settings_kept (swept r) r'"
      unfolding fd by fastforce
    then show ?thesis
    proof cases
      case b
      then show ?thesis by (rule blocked)
    next
      case tm
      have k: "settings_kept r r'" using settings_kept_trans [OF k0 tm(10)] .
      have he: "\<not> has_events env" using tm(5) by (auto simp: has_events_def e)
      have "timers_match ?s clk' r'"
        by (rule timers_match_wait [OF R(1) t tm(6) batch_set _ k]) (use tm(4) in \<open>auto simp: s' dest: set_takeWhileD\<close>)
      moreover have "fds_match ?s r'"
        by (rule fds_match_wait [OF R(2) tm(7) k])
          (use tm(8) reported_none [OF he] in \<open>auto simp: s' undelivered_def\<close>)
      ultimately have "refines ?s clk' r'" using tm(9) k by (rule fin)
      moreover have "sp_armed s (hd rs) = Some (abs_of r (hd rs))" using ar tm(2) by simp
      then have "spec_allows s now env clk' (Waited False)"
        using p none later tm(3,4) by (auto simp: spec_allows_def wakes_def)
      ultimately show ?thesis using tm(1) by simp
    next
      case ev
      have k: "settings_kept r r'" using settings_kept_trans [OF k0 ev(9)] .
      have he: "has_events env" and rep: "reported_of env = events_of evs"
        using ev(2,3) by (simp_all add: has_events_def reported_of_def e)
      have d: "distinct (map ev_ptr evs)" using ok ev(2) by (simp add: answer_ok_def valid_events_def)
      have "timers_match ?s clk' r'"
        by (rule timers_match_wait [OF R(1) t ev(4) _ _ k]) (simp_all add: s')
      moreover have "fds_match ?s r'"
      proof (rule fds_match_wait [OF R(2) ev(5) k])
        fix i p assume "undelivered r' i p"
        then have "i < length evs" "ev_ptr (evs ! i) = Some p" using ev(7) by simp_all
        then show "sp_reported ?s p = Some (ev_events (rc_epoll_results r' ! i))"
          using events_of_nth [OF d] by (simp add: s' rep ev(6) nth_append)
      next
        fix p assume "sp_reported ?s p \<noteq> None"
        then show "\<exists>i. undelivered r' i p" using events_of_some [of evs p] ev(7) by (auto simp: s' rep)
      qed (simp_all add: s')
      ultimately have "refines ?s clk' r'" using ev(8) k by (rule fin)
      moreover have "spec_allows s now env clk' (Waited False)"
        using p none later he by (auto simp: spec_allows_def wakes_def)
      ultimately show ?thesis using ev(1) by simp
    qed
  qed
qed

section \<open>Iterations refine the specification\<close>

lemma fds_only_pos: "fds_only r (r\<lparr>rc_epoll_results_pos := i\<rparr>)" "fds_only r (r\<lparr>rc_epoll_results_pos := i, rc_fds := f\<rparr>)"
  unfolding fds_only_def
  by (rule exI [of _ "rc_efd r"], rule exI, rule exI [of _ "rc_epoll_results r"], rule exI [of _ "rc_epoll_results_num r"],
      rule exI [of _ i], rule BReactor.equality, simp_all)+

lemma iteration_refines:
  assumes r: "refines s clk r" and le: "clk \<le> now" and an: "answers r now env clk'"
  shows "\<exists>d r'. BReactor_Exec_iteration now env r = Some (d, r') \<and> refines (spec_iteration env d s) clk' r'
    \<and> spec_allows s now env clk' d"
proof -
  note R = refinesD [OF r]
  have le': "now \<le> clk'" "clk \<le> clk'" using answers_clk [OF an] le by auto
  have mono: "refines s clk' r"
    using timers_match_cong [OF R(1), of clk' s r] R le'(2) by (simp add: refines_def)
  show ?thesis
  proof (cases "sp_exit s")
    case (Some c)
    then show ?thesis using mono R(5)
      by (simp add: exit_match_def BReactor_Exec_iteration_def spec_allows_def spec_iteration_def)
  next
    case run: None
    then have ex: "\<not> rc_exiting r" using R(5) by (simp add: exit_match_def)
    show ?thesis
    proof (cases "sp_pending s")
      case (Cons j js)
      obtain g h where "BPendingGroup_ExecuteJob (rc_pending_jobs r) = Some (g, h)" "sp_job s j = Some h"
        "refines (s\<lparr>sp_pending := js\<rparr>) clk' (r\<lparr>rc_pending_jobs := g\<rparr>)"
        using exec_job_refines [OF r Cons le'(2)] by blast
      then show ?thesis using ex run Cons jobs_match_has [OF R(4)]
        by (simp add: BReactor_Exec_iteration_def spec_allows_def spec_iteration_def)
    next
      case jobs: Nil
      then have nj: "\<not> BPendingGroup_HasJobs (rc_pending_jobs r)" using jobs_match_has [OF R(4)] by simp
      obtain rs es where t: "timers_inv (dom (sp_timer s)) r rs es" "\<forall>t\<in>set es. abs_of r t \<le> clk"
        using R(1) unfolding timers_match_def by blast
      have ll: "ll_rep (rc_timers_expired_list r) es" using t(1) by (simp add: timers_inv_def)
      show ?thesis
      proof (cases es)
        case (Cons x es')
        have f: "LinkedList1_GetFirst (rc_timers_expired_list r) = Some x" using ll_rep_query(2) [OF ll] Cons by simp
        have x: "state_of r x = TIMER_STATE_EXPIRED" "sp_timer s x \<noteq> None"
          "refines (s\<lparr>sp_armed := (sp_armed s)(x := None)\<rparr>) clk'
            (set_timer_state x TIMER_STATE_INACTIVE (r\<lparr>rc_timers_expired_list := LinkedList1_Remove x (rc_timers_expired_list r)\<rparr>))"
          using exec_timer_refines [OF r t(1) [unfolded Cons] le'(2)] by simp_all
        obtain h p where hp: "sp_timer s x = Some (h, p)" using x(2) by auto
        then have h: "bt_handler (rc_timers r x) = h" using R(1) unfolding timers_match_def by blast
        have "sp_armed s x = Some (abs_of r x)" using timers_match_sets [OF R(1) t(1), of x] Cons by simp
        moreover have "abs_of r x \<le> now" using t(2) le Cons by auto
        ultimately have "spec_allows s now env clk' (Ran_Timer x h)" using run jobs hp by (auto simp: spec_allows_def)
        then show ?thesis using x(1,3) ex nj f h
          by (simp add: BReactor_Exec_iteration_def spec_iteration_def set_timer_state_def)
      next
        case timers: Nil
        have f: "LinkedList1_GetFirst (rc_timers_expired_list r) = None" "LinkedList1_IsEmpty (rc_timers_expired_list r)"
          using ll_rep_query(1,2) [OF ll] timers by simp_all
        show ?thesis
        proof (cases "rc_epoll_results_pos r < rc_epoll_results_num r")
          case e: True
          show ?thesis
          proof (cases "ev_ptr (rc_epoll_results r ! rc_epoll_results_pos r)")
            case None
            have "refines s clk' (r\<lparr>rc_epoll_results_pos := rc_epoll_results_pos r + 1\<rparr>)"
              by (rule refines_fds [OF r le'(2) fds_only_pos(1) fds_match_skip [OF R(2) e None]]) simp_all
            then show ?thesis using ex nj f e None run jobs
              by (simp add: BReactor_Exec_iteration_def spec_iteration_def spec_allows_def Let_def)
          next
            case (Some p)
            let ?r = "r\<lparr>rc_epoll_results_pos := rc_epoll_results_pos r + 1,
              rc_fds := (rc_fds r)(p := (rc_fds r p)\<lparr>fd_epoll_returned_ptr := None\<rparr>)\<rparr>"
            let ?e = "ev_events (rc_epoll_results r ! rc_epoll_results_pos r)"
            let ?ev = "report_events (fd_waitEvents (rc_fds r p)) ?e"
            have p: "active r p" "returned r p = Some (rc_epoll_results_pos r)" "p \<in> dom (sp_fd s)" "sp_reported s p = Some ?e"
              "fds_match (s\<lparr>sp_reported := (sp_reported s)(p := None)\<rparr>) ?r"
              using fds_match_take [OF R(2) e Some] by simp_all
            have "refines (s\<lparr>sp_reported := (sp_reported s)(p := None)\<rparr>) clk' ?r"
              by (rule refines_fds [OF r le'(2) fds_only_pos(2) p(5)]) simp_all
            moreover obtain fd h where fd: "sp_fd s p = Some (fd, h)" using p(3) by auto
            moreover have "fd_handler (rc_fds r p) = h" using fds_matchD(2) [OF R(2) fd] by simp
            moreover have "sp_monitored s p = Some (fd_waitEvents (rc_fds r p))" using fds_matchD(3) [OF R(2), of p] p by simp
            ultimately show ?thesis using ex nj f e Some run jobs p(1,2,4)
              by (cases "?ev = 0") (simp_all add: BReactor_Exec_iteration_def spec_iteration_def spec_allows_def Let_def)
          qed
        next
          case False
          have "rc_epoll_results_pos r \<le> rc_epoll_results_num r"
            using fds_matchD(1) [OF R(2)] results_invD(1) by (auto simp: fds_inv_def)
          then have i: "idle r" using nj f(2) False by (simp add: idle_def)
          note t0 = t(1) [unfolded timers]
          show ?thesis
          proof (cases "rs = [] \<or> now < abs_of r (hd rs)")
            case True
            show ?thesis using wait_answers_refines [OF r jobs run i t0 True an le] iteration_idle [OF i ex] by simp
          next
            case due: False
            then obtain x xs where rs: "rs = x # xs" "abs_of r x \<le> now" by (cases rs) auto
            obtain r' where "wait_for_events now env r = Wait_Returns True r'" "refines s clk' r'"
              "spec_allows s now env clk' (Waited True)"
              using wait_due_refines [OF r jobs run i t0 [unfolded rs(1)] rs(2) le'(1)] by blast
            then show ?thesis using iteration_idle [OF i ex] by (simp add: spec_iteration_def)
          qed
        qed
      qed
    qed
  qed
qed

section \<open>Runs\<close>

text \<open>What happened, the last event first: the operations that the program called and the iterations of the loop.\<close>

datatype 'h reactor_event =
    Called int "'h reactor_op" bool
  | Iterated "(epoll_answer \<times> int) list" "'h dispatched"

primrec spec_of :: "'h reactor_event list \<Rightarrow> 'h reactor_spec" where
  "spec_of [] = spec_start"
| "spec_of (e # h) =
     (case e of Called now a ok \<Rightarrow> spec_op now a ok (spec_of h) | Iterated env d \<Rightarrow> spec_iteration env d (spec_of h))"

text \<open>A run of the program: \<open>clk\<close> is the last reading of the clock, which never goes back. \<^verbatim>\<open>BReactor_Synchronize\<close> executes jobs too.\<close>

inductive reactor_run :: "'h reactor_event list \<Rightarrow> int \<Rightarrow> 'h BReactor \<Rightarrow> bool" where
  run_start: "BReactor_Init True r0 = Some r \<Longrightarrow> reactor_run [] clk r"
| run_called: "reactor_run h clk r \<Longrightarrow> clk \<le> now \<Longrightarrow> allowed (spec_of h) a \<Longrightarrow> do_op now a r = Some (ok, r') \<Longrightarrow>
    reactor_run (Called now a ok # h) now r'"
| run_iterated: "reactor_run h clk r \<Longrightarrow> clk \<le> now \<Longrightarrow> answers r now env clk' \<Longrightarrow>
    BReactor_Exec_iteration now env r = Some (d, r') \<Longrightarrow> reactor_run (Iterated env d # h) clk' r'"
| run_synchronized: "reactor_run h clk r \<Longrightarrow> BReactor_Synchronize_iteration ref r = Some (Inr (job, r')) \<Longrightarrow>
    reactor_run (Iterated [] (Ran_Job job) # h) clk r'"

lemma init_refines:
  assumes "BReactor_Init True r0 = Some r"
  shows "refines spec_start clk r"
proof -
  have r: "r = r0\<lparr>rc_exiting := False, rc_pending_jobs := BPendingGroup_Init (rc_pending_jobs r0),
      rc_timers_tree := CAvl_Init (rc_timers_tree r0), rc_timers_expired_list := LinkedList1_Init (rc_timers_expired_list r0),
      rc_active_limits_list := LinkedList1_Init (rc_active_limits_list r0),
      rc_efd := Map.empty, rc_epoll_results_num := 0, rc_epoll_results_pos := 0\<rparr>"
    using assms by (simp add: BReactor_Init_def Let_def)
  have "bavl_tree (timers_tree r) Leaf" by (simp add: bavl_tree_def timers_tree_def r CAvl_Init_def)
  then have "bavl_holds UNIV compare_timers (timers_tree r) []"
    unfolding bavl_holds_def by (intro conjI exI [of _ Leaf]) simp_all
  then have "timers_inv {} r [] []" by (simp add: timers_inv_def r ll_rep_Init)
  moreover have "fds_inv {} r" by (simp add: fds_inv_def registered_def results_inv_def undelivered_def r)
  moreover have "limits_inv {} r []" by (simp add: limits_inv_def r ll_rep_Init)
  moreover have "pg_rep {} (rc_pending_jobs r) []" by (simp add: r pg_rep_Init)
  moreover have "timers_match spec_start clk r"
    unfolding timers_match_def using calculation(1)
    by (intro conjI exI [of _ "[]"]) (simp_all add: spec_start_def)
  moreover have "fds_match spec_start r"
    unfolding fds_match_def using calculation(2) by (simp add: spec_start_def undelivered_def r)
  moreover have "limits_match spec_start r"
    unfolding limits_match_def using calculation(3) by (auto simp: spec_start_def)
  moreover have "jobs_match spec_start r"
    unfolding jobs_match_def using calculation(4) by (simp add: spec_start_def)
  ultimately show ?thesis by (simp add: refines_def exit_match_def spec_start_def r)
qed

lemma synchronize_refines:
  assumes r: "refines s clk r" and e: "BReactor_Synchronize_iteration ref r = Some (Inr (job, r'))"
  shows "refines (spec_iteration [] (Ran_Job job) s) clk r'"
proof -
  note R = refinesD [OF r]
  obtain g where g: "BPendingGroup_HasJobs (rc_pending_jobs r)" "BPendingGroup_ExecuteJob (rc_pending_jobs r) = Some (g, job)"
    "r' = r\<lparr>rc_pending_jobs := g\<rparr>"
    using e by (auto simp: BReactor_Synchronize_iteration_def bind_eq_Some_conv split: if_splits)
  then obtain j js where "sp_pending s = j # js" using jobs_match_has [OF R(4)] by (cases "sp_pending s") auto
  from exec_job_refines [OF r this order_refl] this g show ?thesis by (auto simp: spec_iteration_def)
qed

lemma reactor_run_refines: "reactor_run h clk r \<Longrightarrow> refines (spec_of h) clk r"
proof (induction rule: reactor_run.induct)
  case (run_called h clk r now a ok r')
  then show ?case using op_refines [OF run_called.IH run_called.hyps(2,3)] by auto
next
  case (run_iterated h clk r now env clk' d r')
  then show ?case using iteration_refines [OF run_iterated.IH run_iterated.hyps(2,3)] by auto
qed (simp_all add: init_refines synchronize_refines)

end
