(* ===== verification/Reactor_Safety.thy ===== *)
theory Reactor_Safety
  imports Reactor_Run
begin

text \<open>
  What the program can rely on in every run of the event loop: a timer fires when it is due and not otherwise, a descriptor gets
  only events that were reported for it and that it waits for, the loop sleeps until the first timer, a limit counts the work
  since the last wait, and timers that are due run in the order of their times.
\<close>

section \<open>The loop on a batch of timers\<close>

text \<open>\<open>k\<close> iterations at the time \<open>now\<close>, of which the kernel answers none and whose handlers do nothing to the reactor.\<close>

fun iterations :: "nat \<Rightarrow> int \<Rightarrow> 'h BReactor \<Rightarrow> ('h dispatched list \<times> 'h BReactor) option" where
  "iterations 0 now r = Some ([], r)"
| "iterations (Suc k) now r = do {
     (d, r) \<leftarrow> BReactor_Exec_iteration now [] r;
     (ds, r) \<leftarrow> iterations k now r;
     Some (d # ds, r)
   }"

definition timer_handler :: "'h reactor_spec \<Rightarrow> nat \<Rightarrow> 'h" where
  "timer_handler s t = fst (the (sp_timer s t))"

definition runs_first :: "'h reactor_spec \<Rightarrow> nat \<Rightarrow> nat \<Rightarrow> bool" where
  "runs_first s t u \<longleftrightarrow> the (sp_armed s t) < the (sp_armed s u) \<or> the (sp_armed s t) = the (sp_armed s u) \<and> t < u"

lemma batch_runs:
  assumes "timers_inv T r rs es" "\<not> rc_exiting r" "\<not> BPendingGroup_HasJobs (rc_pending_jobs r)"
  shows "\<exists>r'. iterations (length es) now r = Some (map (\<lambda>t. Ran_Timer t (bt_handler (rc_timers r t))) es, r')"
  using assms
proof (induction es arbitrary: r)
  case (Cons x es)
  have x: "x \<in> T" "state_of r x = TIMER_STATE_EXPIRED" "x \<notin> set rs"
    using Cons.prems(1) timers_inv_sorted(4) [OF Cons.prems(1)] by (auto simp: timers_inv_def)
  have f: "LinkedList1_GetFirst (rc_timers_expired_list r) = Some x"
    using ll_rep_query(2) [of _ "x # es"] Cons.prems(1) by (simp add: timers_inv_def)
  obtain r1 where r1: "BReactor_RemoveSmallTimer x r = Some r1" "timers_inv T r1 rs es" "timers_only r r1"
    using remove_timer_inv [OF Cons.prems(1) x(1)] x(3) by (auto simp: remove1_idem)
  have e: "BReactor_Exec_iteration now [] r = Some (Ran_Timer x (bt_handler (rc_timers r x)), r1)"
    using Cons.prems(2,3) f x(2) r1(1) by (auto simp: BReactor_Exec_iteration_def BReactor_RemoveSmallTimer_def set_timer_state_def)
  have "bt_handler (rc_timers r1 t) = bt_handler (rc_timers r t)" for t using r1(3) by (simp add: timers_only_def)
  then show ?case using Cons.IH [OF r1(2)] Cons.prems(2,3) timers_only_fields [OF r1(3)] e by auto
qed simp

lemma takeWhile_sorted:
  "sorted_wrt (earlier r) ts \<Longrightarrow> set (takeWhile (\<lambda>t. abs_of r t \<le> now) ts) = {t \<in> set ts. abs_of r t \<le> now}"
proof (induction ts)
  case (Cons t ts)
  have "{u \<in> set (t # ts). abs_of r u \<le> now} = {}" if "\<not> abs_of r t \<le> now"
    using Cons.prems that by (auto simp: earlier_def)
  then show ?case using Cons by auto
qed simp

lemma due_batch:
  assumes run: "reactor_run h clk r" and le: "clk \<le> now" and i: "idle r" and e: "sp_exit (spec_of h) = None"
    and t: "sp_armed (spec_of h) t = Some a" "a \<le> now"
  shows "\<exists>ts r'. iterations (Suc (length ts)) now r = Some (Waited True # map (\<lambda>t. Ran_Timer t (timer_handler (spec_of h) t)) ts, r')
    \<and> set ts = {t. \<exists>a. sp_armed (spec_of h) t = Some a \<and> a \<le> now} \<and> sorted_wrt (runs_first (spec_of h)) ts"
proof -
  let ?s = "spec_of h"
  note r = reactor_run_refines [OF run]
  note R = refinesD [OF r]
  have ex: "\<not> rc_exiting r" using R(5) e by (simp add: exit_match_def)
  obtain rs es where ti: "timers_inv (dom (sp_timer ?s)) r rs es" using R(1) unfolding timers_match_def by blast
  have "es = []" using ti i ll_rep_query(1) by (auto simp: timers_inv_def idle_def)
  note ti = ti [unfolded this]
  have ar: "sp_armed ?s u = (if u \<in> set rs then Some (abs_of r u) else None)" for u using timers_match_sets [OF R(1) ti] by simp
  have so: "sorted_wrt (earlier r) rs" by (rule timers_inv_sorted(1) [OF ti])
  let ?ts = "takeWhile (\<lambda>t. abs_of r t \<le> now) rs"
  have set: "set ?ts = {t. \<exists>a. sp_armed ?s t = Some a \<and> a \<le> now}"
    using takeWhile_sorted [OF so] by (auto simp: ar)
  have "t \<in> set ?ts" using t unfolding set by auto
  then obtain x xs where rs: "rs = x # xs" "abs_of r x \<le> now" by (cases rs) (auto split: if_splits)
  obtain ls where l: "limits_inv (dom (sp_limit ?s)) r ls" using limits_matchD(1) [OF R(3)] by blast
  obtain r1 where r1: "wait_for_events now [] r = Wait_Returns True r1"
    "timers_inv (dom (sp_timer ?s)) r1 (dropWhile (\<lambda>t. abs_of r t \<le> now) rs) ?ts" "settings_kept r r1"
    using wait_due [OF ti [unfolded rs(1)] fds_matchD(1) [OF R(2)] l i rs(2), of "[]"] rs(1) by auto
  have w: "BReactor_Exec_iteration now [] r = Some (Waited True, r1)" using iteration_idle [OF i ex] r1(1) by simp
  have k: "\<not> rc_exiting r1" "\<not> BPendingGroup_HasJobs (rc_pending_jobs r1)" "bt_handler (rc_timers r1 u) = bt_handler (rc_timers r u)" for u
    using r1(3) ex i by (simp_all add: settings_kept_def idle_def)
  obtain r2 where b: "iterations (length ?ts) now r1 = Some (map (\<lambda>t. Ran_Timer t (bt_handler (rc_timers r t))) ?ts, r2)"
    using batch_runs [OF r1(2) k(1,2)] k(3) by auto
  have h: "bt_handler (rc_timers r u) = timer_handler ?s u" if "u \<in> set ?ts" for u
  proof -
    have "u \<in> dom (sp_timer ?s)" using that ti by (auto simp: timers_inv_def dest: set_takeWhileD)
    then obtain h' p where "sp_timer ?s u = Some (h', p)" by auto
    then show ?thesis using R(1) unfolding timers_match_def timer_handler_def by fastforce
  qed
  have "iterations (Suc (length ?ts)) now r = Some (Waited True # map (\<lambda>t. Ran_Timer t (timer_handler ?s t)) ?ts, r2)"
    using w b h by simp
  moreover have "sorted_wrt (runs_first ?s) ?ts"
  proof (rule sorted_wrt_mono_rel)
    show "sorted_wrt (earlier r) ?ts" using so by (metis sorted_wrt_append takeWhile_dropWhile_id)
    show "runs_first ?s u v" if "u \<in> set ?ts" "v \<in> set ?ts" "earlier r u v" for u v
      using that ar by (auto simp: runs_first_def earlier_def dest!: set_takeWhileD)
  qed
  ultimately show ?thesis using set by blast
qed

section \<open>Limits\<close>

text \<open>How often a limit was used since the loop waited last.\<close>

fun uses :: "'h reactor_event list \<Rightarrow> nat \<Rightarrow> int" where
  "uses [] l = 0"
| "uses (e # h) l =
     (case e of
        Called now (Increment_Limit k) True \<Rightarrow> if k = l then uses h l + 1 else uses h l
      | Called now (Init_Limit k n) ok \<Rightarrow> if k = l then 0 else uses h l
      | Iterated env (Waited False) \<Rightarrow> 0
      | _ \<Rightarrow> uses h l)"

lemma spec_uses: "reactor_run h clk r \<Longrightarrow> sp_limit (spec_of h) l = Some (n, c) \<Longrightarrow> c = uses h l"
proof (induction arbitrary: n c rule: reactor_run.induct)
  case (run_called h clk r now a ok r')
  then show ?case
    by (cases a) (auto simp: spec_op_def split: if_splits option.splits bool.splits)
next
  case (run_iterated h clk r now env clk' d r')
  then show ?case
    by (cases d) (auto simp: spec_iteration_def split: if_splits option.splits bool.splits)
qed (auto simp: spec_start_def spec_iteration_def)

section \<open>Events\<close>

lemma read_write_bits:
  "(w :: u32) AND BREACTOR_READ \<noteq> 0 \<Longrightarrow> BREACTOR_READ AND NOT w = 0"
  "(w :: u32) AND BREACTOR_WRITE \<noteq> 0 \<Longrightarrow> BREACTOR_WRITE AND NOT w = 0"
proof -
  have one: "2 ^ n AND NOT w = 0" if "w AND 2 ^ n \<noteq> 0" for n
  proof -
    have "bit w n" using that and_exp_eq_0_iff_not_bit [of w n] by blast
    then have "\<not> bit (NOT w) n" by (simp add: bit_not_iff)
    then show ?thesis using and_exp_eq_0_iff_not_bit [of "NOT w" n] by (simp add: and.commute)
  qed
  show "w AND BREACTOR_READ \<noteq> 0 \<Longrightarrow> BREACTOR_READ AND NOT w = 0"
    using one [of 0] by (simp add: BREACTOR_READ_def)
  show "w AND BREACTOR_WRITE \<noteq> 0 \<Longrightarrow> BREACTOR_WRITE AND NOT w = 0"
    using one [of 1] by (simp add: BREACTOR_WRITE_def)
qed

lemma report_events_sub: "report_events w e AND NOT (w OR BREACTOR_ERROR OR BREACTOR_HUP) = 0"
proof -
  define m where "m = NOT (w OR BREACTOR_ERROR OR BREACTOR_HUP)"
  have m: "m = NOT w AND (NOT BREACTOR_ERROR AND NOT BREACTOR_HUP)" by (simp add: m_def bit.de_Morgan_disj and.assoc)
  have b: "BREACTOR_READ AND m = 0" if "w AND BREACTOR_READ \<noteq> 0"
    using read_write_bits(1) [OF that] by (simp add: m and.assoc [symmetric])
  have c: "BREACTOR_WRITE AND m = 0" if "w AND BREACTOR_WRITE \<noteq> 0"
    using read_write_bits(2) [OF that] by (simp add: m and.assoc [symmetric])
  have d: "BREACTOR_ERROR AND m = 0" "BREACTOR_HUP AND m = 0"
  proof -
    have "BREACTOR_ERROR AND m = (NOT w AND NOT BREACTOR_HUP) AND (BREACTOR_ERROR AND NOT BREACTOR_ERROR)"
      "BREACTOR_HUP AND m = (NOT w AND NOT BREACTOR_ERROR) AND (BREACTOR_HUP AND NOT BREACTOR_HUP)"
      unfolding m by (simp_all only: ac_simps)
    then show "BREACTOR_ERROR AND m = 0" "BREACTOR_HUP AND m = 0" by simp_all
  qed
  have "report_events w e AND m = 0"
    using b c d
    by (cases "w AND BREACTOR_READ \<noteq> 0 \<and> e AND EPOLLIN \<noteq> 0"; cases "w AND BREACTOR_WRITE \<noteq> 0 \<and> e AND EPOLLOUT \<noteq> 0";
        cases "e AND EPOLLERR \<noteq> 0"; cases "e AND EPOLLHUP \<noteq> 0")
      (simp_all add: report_events_def bit.conj_disj_distrib2)
  then show ?thesis by (simp add: m_def)
qed

section \<open>Properties\<close>

inductive_cases run_iteratedE: "reactor_run (Iterated env d # h) clk r"

lemma iterated_allowed:
  assumes "reactor_run (Iterated env d # h) clk r" "\<And>x. d \<noteq> Ran_Job x"
  obtains now where "now \<le> clk" "spec_allows (spec_of h) now env clk d"
proof (rule run_iteratedE [OF assms(1)])
  fix clk0 r0 now assume run: "reactor_run h clk0 r0" "clk0 \<le> now" "answers r0 now env clk"
    "BReactor_Exec_iteration now env r0 = Some (d, r)"
  have "spec_allows (spec_of h) now env clk d"
    using iteration_refines [OF reactor_run_refines [OF run(1)] run(2,3)] run(4) by simp
  then show ?thesis using that answers_clk [OF run(3)] by blast
qed (use assms(2) in blast)

text \<open>C3: In every run of the event loop its memory (the tree and the list of timers, the descriptors, the results of epoll, the limits
  and the jobs) refines the specification that is computed from what happened; every operation that its contract allows
  succeeds and keeps that, and every iteration succeeds, does what the specification allows, and keeps that.\<close>

theorem reactor_refines_specification:
  assumes "reactor_run h clk r" "clk \<le> now"
  shows "refines (spec_of h) clk r
    \<and> (\<forall>a. allowed (spec_of h) a \<longrightarrow> (\<exists>ok r'. do_op now a r = Some (ok, r') \<and> refines (spec_op now a ok (spec_of h)) now r'))
    \<and> (\<forall>env clk'. answers r now env clk' \<longrightarrow>
         (\<exists>d r'. BReactor_Exec_iteration now env r = Some (d, r') \<and> refines (spec_iteration env d (spec_of h)) clk' r'
            \<and> spec_allows (spec_of h) now env clk' d))"
  using reactor_run_refines [OF assms(1)] op_refines [OF reactor_run_refines [OF assms(1)] assms(2)]
    iteration_refines [OF reactor_run_refines [OF assms(1)] assms(2)] by blast

text \<open>C4: When the loop calls the handler of a timer, the timer is armed (it was set, and neither stopped nor run since), the time it was
  last set to has come, and the handler is the one it was initialised with.\<close>

theorem timers_fire_when_due:
  assumes "reactor_run (Iterated env (Ran_Timer t x) # h) clk r"
  shows "\<exists>p a. sp_timer (spec_of h) t = Some (x, p) \<and> sp_armed (spec_of h) t = Some a \<and> a \<le> clk"
proof -
  obtain now where "now \<le> clk" "spec_allows (spec_of h) now env clk (Ran_Timer t x)"
    by (rule iterated_allowed [OF assms]) auto
  then show ?thesis by (auto simp: spec_allows_def split: option.splits list.splits)
qed

text \<open>C5: When the loop calls the handler of a descriptor, the descriptor is still added, the events were reported for it by the last wait
  and not dispatched since (a report for a removed descriptor is dropped, even if the descriptor is added again), and the handler
  gets some event, only ones it waits for, an error or a hangup.\<close>

theorem events_reach_their_descriptor:
  assumes "reactor_run (Iterated env (Ran_FD p x ev) # h) clk r"
  shows "\<exists>fd w e. sp_fd (spec_of h) p = Some (fd, x) \<and> sp_monitored (spec_of h) p = Some w \<and> sp_reported (spec_of h) p = Some e
    \<and> ev = report_events w e \<and> ev \<noteq> 0 \<and> ev AND NOT (w OR BREACTOR_ERROR OR BREACTOR_HUP) = 0"
proof -
  obtain now where "spec_allows (spec_of h) now env clk (Ran_FD p x ev)"
    by (rule iterated_allowed [OF assms]) auto
  then obtain fd w e where "sp_fd (spec_of h) p = Some (fd, x)" "sp_monitored (spec_of h) p = Some w"
    "sp_reported (spec_of h) p = Some e" "ev = report_events w e" "ev \<noteq> 0"
    by (auto simp: spec_allows_def split: option.splits list.splits)
  then show ?thesis using report_events_sub by blast
qed

text \<open>C37: The loop sleeps in epoll only when no job is pending and no report is to be dispatched; without armed timers it sleeps without a
  timeout, otherwise for a positive time that fits an int, never past the first armed timer, and shorter only when
  the time does not fit.\<close>

theorem reactor_sleeps_until_first_timer:
  assumes "reactor_run (Iterated env (Blocked timeout) # h) clk r"
  shows "sp_pending (spec_of h) = [] \<and> sp_reported (spec_of h) = Map.empty
    \<and> (if sp_armed (spec_of h) = Map.empty then timeout = -1
       else 1 \<le> timeout \<and> timeout \<le> INT_MAX \<and> (\<forall>t a. sp_armed (spec_of h) t = Some a \<longrightarrow> clk + timeout \<le> a)
         \<and> (timeout = INT_MAX \<or> (\<exists>t. sp_armed (spec_of h) t = Some (clk + timeout))))"
proof -
  obtain now where a: "spec_allows (spec_of h) now env clk (Blocked timeout)"
    by (rule iterated_allowed [OF assms]) auto
  then have "sp_pending (spec_of h) = []" "sp_reported (spec_of h) = Map.empty" "sleeps_well (spec_of h) clk timeout"
    unfolding spec_allows_def by (auto split: option.splits list.splits)
  then show ?thesis unfolding sleeps_well_def by blast
qed

text \<open>A limit counts its successful increments since the loop last waited for the kernel (or since it was initialised); an increment
  succeeds exactly while the count is below the limit.\<close>

theorem limits_bound_uses:
  assumes "reactor_run h clk r" "sp_limit (spec_of h) l = Some (n, c)"
  shows "lim_count (rc_limits r l) = uses h l \<and> fst (BReactorLimit_Increment l r) = (uses h l < n)"
proof -
  have m: "limits_match (spec_of h) r" using refinesD(3) [OF reactor_run_refines [OF assms(1)]] .
  obtain ok r' where i: "BReactorLimit_Increment l r = (ok, r')" by (cases "BReactorLimit_Increment l r")
  show ?thesis
    using limits_match_increment(1) [OF m assms(2) i] limits_matchD(2) [OF m assms(2)] spec_uses [OF assms] i by simp
qed

text \<open>C38: When the loop has nothing to do and timers are due, then as long as the handlers do nothing to the reactor (they set no job and
  neither set nor unset a timer) and the clock stands still, its next iterations call the handlers of exactly the timers that are due, in
  the order of their times (and of their addresses where these are equal).\<close>

theorem due_timers_run_in_order:
  assumes "reactor_run h clk r" "clk \<le> now" "idle r" "sp_exit (spec_of h) = None"
    and "sp_armed (spec_of h) t = Some a" "a \<le> now"
  shows "\<exists>ts r'. iterations (Suc (length ts)) now r = Some (Waited True # map (\<lambda>t. Ran_Timer t (timer_handler (spec_of h) t)) ts, r')
    \<and> set ts = {t. \<exists>a. sp_armed (spec_of h) t = Some a \<and> a \<le> now} \<and> sorted_wrt (runs_first (spec_of h)) ts"
  by (rule due_batch [OF assms])

section \<open>A run\<close>

definition called :: "int \<Rightarrow> 'h reactor_op \<Rightarrow> 'h BReactor \<Rightarrow> 'h BReactor" where
  "called now a r = snd (the (do_op now a r))"

definition iterated :: "int \<Rightarrow> (epoll_answer \<times> int) list \<Rightarrow> 'h BReactor \<Rightarrow> 'h BReactor" where
  "iterated now env r = snd (the (BReactor_Exec_iteration now env r))"

lemma run_called_step:
  assumes "reactor_run h clk r" "clk \<le> now" "allowed (spec_of h) a" "map_option fst (do_op now a r) = Some ok"
  shows "reactor_run (Called now a ok # h) now (called now a r)"
  using assms(4) by (intro run_called [OF assms(1-3)]) (auto simp: called_def)

lemma run_iterated_step:
  assumes "reactor_run h clk r" "clk \<le> now" "answers r now env clk'" "map_option fst (BReactor_Exec_iteration now env r) = Some d"
  shows "reactor_run (Iterated env d # h) clk' (iterated now env r)"
  using assms(4) by (intro run_iterated [OF assms(1-3)]) (auto simp: iterated_def)

definition demo_memory :: "nat BReactor" where
  "demo_memory =
     \<lparr>rc_exiting = True, rc_exit_code = 0, rc_pending_jobs = \<lparr>bp_first = None, bp_heap = \<lambda>_. \<lparr>bp_handler = 0, bp_prev = None, bp_next = None\<rparr>\<rparr>,
      rc_timers_tree = BAVL_Init compare_timers (\<lambda>_. (0, 0)) blank_nodes,
      rc_timers_expired_list = \<lparr>ll_first = None, ll_last = None, ll_nodes = \<lambda>_. \<lparr>ll_p = None, ll_n = None\<rparr>\<rparr>,
      rc_active_limits_list = \<lparr>ll_first = None, ll_last = None, ll_nodes = \<lambda>_. \<lparr>ll_p = None, ll_n = None\<rparr>\<rparr>,
      rc_epoll_results = [], rc_epoll_results_num = 3, rc_epoll_results_pos = 0,
      rc_timers = \<lambda>_. \<lparr>bt_handler = 0, bt_absTime = 0, bt_state = TIMER_STATE_EXPIRED, bt_is_small = False, bt_msTime = 0\<rparr>,
      rc_fds = \<lambda>_. \<lparr>fd_fd = 0, fd_handler = 0, fd_active = True, fd_waitEvents = 0, fd_epoll_returned_ptr = None\<rparr>,
      rc_limits = \<lambda>_. \<lparr>lim_limit = 0, lim_count = 0\<rparr>, rc_efd = Map.empty\<rparr>"

definition demo_reactor :: "nat BReactor" where
  "demo_reactor = the (BReactor_Init True demo_memory)"

text \<open>Timer 1 with handler 7 is set to 5; descriptor 2, number 9 with handler 8, waits for reading; limit 3 is used once.\<close>

definition demo_set :: "nat BReactor" where
  "demo_set = called 0 (Increment_Limit 3) (called 0 (Init_Limit 3 2) (called 0 (Set_FD 2 BREACTOR_READ)
     (called 0 (Add_FD 2 True) (called 0 (Init_FD 2 9 8) (called 0 (Set_Timer 1 BTIMER_SET_ABSOLUTE 5)
     (called 0 (Init_Timer 1 7) demo_reactor))))))"

definition demo_calls :: "nat reactor_event list" where
  "demo_calls = [Called 0 (Increment_Limit 3) True, Called 0 (Init_Limit 3 2) True, Called 0 (Set_FD 2 BREACTOR_READ) True,
     Called 0 (Add_FD 2 True) True, Called 0 (Init_FD 2 9 8) True, Called 0 (Set_Timer 1 BTIMER_SET_ABSOLUTE 5) True,
     Called 0 (Init_Timer 1 7) True]"

lemma demo_start: "reactor_run [] 0 demo_reactor"
  by (rule run_start [of demo_memory]) (simp add: demo_reactor_def BReactor_Init_def Let_def)

lemmas demo_spec = allowed_def spec_op_def spec_iteration_def spec_start_def

lemma demo_reactor_run: "reactor_run demo_calls 0 demo_set"
  unfolding demo_calls_def demo_set_def
  by (rule run_called_step, rule run_called_step, rule run_called_step, rule run_called_step, rule run_called_step,
      rule run_called_step, rule run_called_step, rule demo_start) ((simp add: demo_spec; fail) | (code_simp; fail))+

text \<open>Then the loop waits until the descriptor is readable, calls its handler, waits until the timer is due, and calls its handler.\<close>

definition demo_answer :: "(epoll_answer \<times> int) list" where
  "demo_answer = [(Epoll_Events [\<lparr>ev_events = EPOLLIN, ev_ptr = Some 2\<rparr>], 3)]"

definition demo_polled :: "nat BReactor" where "demo_polled = iterated 1 demo_answer demo_set"
definition demo_served :: "nat BReactor" where "demo_served = iterated 3 [] demo_polled"
definition demo_due :: "nat BReactor" where "demo_due = iterated 6 [] demo_served"
definition demo_fired :: "nat BReactor" where "demo_fired = iterated 6 [] demo_due"

definition demo_waited :: "nat reactor_event list" where
  "demo_waited = Iterated demo_answer (Waited False) # demo_calls"
definition demo_read :: "nat reactor_event list" where
  "demo_read = Iterated [] (Ran_FD 2 8 BREACTOR_READ) # demo_waited"
definition demo_expired :: "nat reactor_event list" where
  "demo_expired = Iterated [] (Waited True) # demo_read"

lemma blocked_same: "BReactor_Exec_iteration now env r = Some (Blocked timeout, r') \<Longrightarrow> r' = r"
  by (auto simp: BReactor_Exec_iteration_def Let_def bind_eq_Some_conv split: if_splits option.splits waited.splits)

lemma demo_blocks: "BReactor_Exec_iteration 1 [] demo_set = Some (Blocked 4, demo_set)"
proof -
  have "map_option fst (BReactor_Exec_iteration 1 [] demo_set) = Some (Blocked 4)" by code_simp
  then show ?thesis using blocked_same by fastforce
qed

lemma demo_answers: "answers demo_set 1 demo_answer 3"
proof -
  have "map_option ev_ptr (rc_efd demo_set 9) = Some (Some 2) \<and> map_option ev_events (rc_efd demo_set 9) = Some EPOLLIN"
    by code_simp
  then obtain k where k: "rc_efd demo_set 9 = Some k" "ev_ptr k = Some 2" "ev_events k = EPOLLIN" by auto
  have "EPOLLIN AND NOT (EPOLLIN OR EPOLLERR OR EPOLLHUP) = 0" by code_simp
  then have "answer_ok demo_set 4 1 (Epoll_Events [\<lparr>ev_events = EPOLLIN, ev_ptr = Some 2\<rparr>]) 3"
    unfolding answer_ok_def valid_events_def using k
    by (auto simp: BSYSTEM_MAX_RESULTS_def simp del: bit.de_Morgan_disj intro!: exI [of _ 9])
  from answers_more [OF answers_none demo_blocks this] show ?thesis by (simp add: demo_answer_def)
qed

lemma demo_runs:
  "reactor_run demo_waited 3 demo_polled" "reactor_run demo_read 3 demo_served"
  "reactor_run demo_expired 6 demo_due" "reactor_run (Iterated [] (Ran_Timer 1 7) # demo_expired) 6 demo_fired"
proof -
  show a: "reactor_run demo_waited 3 demo_polled"
    unfolding demo_waited_def demo_polled_def
    by (rule run_iterated_step [OF demo_reactor_run _ demo_answers]) (simp, code_simp)
  show b: "reactor_run demo_read 3 demo_served"
    unfolding demo_read_def demo_served_def by (rule run_iterated_step [OF a _ answers_none]) (simp, code_simp)
  show c: "reactor_run demo_expired 6 demo_due"
    unfolding demo_expired_def demo_due_def by (rule run_iterated_step [OF b _ answers_none]) (simp, code_simp)
  show "reactor_run (Iterated [] (Ran_Timer 1 7) # demo_expired) 6 demo_fired"
    unfolding demo_fired_def by (rule run_iterated_step [OF c _ answers_none]) (simp, code_simp)
qed

lemma demo_specs:
  "sp_timer (spec_of demo_calls) = [1 \<mapsto> (7, None)]" "sp_armed (spec_of demo_calls) = [1 \<mapsto> 5]"
  "sp_monitored (spec_of demo_calls) = [2 \<mapsto> BREACTOR_READ]" "sp_limit (spec_of demo_calls) = [3 \<mapsto> (2, 1)]"
  "sp_exit (spec_of demo_read) = None" "sp_armed (spec_of demo_read) = [1 \<mapsto> 5]" "sp_exit (spec_of demo_calls) = None"
  by (simp_all add: demo_calls_def demo_waited_def demo_read_def demo_spec timer_due_def)

theorem reactor_refines_specification_witness:
  "refines (spec_of demo_calls) 0 demo_set \<and> (\<exists>ok r'. do_op 4 (Remove_FD 2) demo_set = Some (ok, r'))
    \<and> (\<exists>d r'. BReactor_Exec_iteration 4 [] demo_set = Some (d, r'))"
proof -
  have a: "allowed (spec_of demo_calls) (Remove_FD 2)" by (simp add: allowed_def demo_specs)
  show ?thesis using reactor_refines_specification [OF demo_reactor_run, of 4] a answers_none [of demo_set 4] by fastforce
qed

theorem timers_fire_when_due_witness:
  "\<exists>p a. sp_timer (spec_of demo_expired) 1 = Some (7, p) \<and> sp_armed (spec_of demo_expired) 1 = Some a \<and> a \<le> 6"
  by (rule timers_fire_when_due [OF demo_runs(4)])

theorem events_reach_their_descriptor_witness:
  "\<exists>fd w e. sp_fd (spec_of demo_waited) 2 = Some (fd, 8) \<and> sp_monitored (spec_of demo_waited) 2 = Some w
    \<and> sp_reported (spec_of demo_waited) 2 = Some e \<and> BREACTOR_READ = report_events w e \<and> BREACTOR_READ \<noteq> 0
    \<and> BREACTOR_READ AND NOT (w OR BREACTOR_ERROR OR BREACTOR_HUP) = 0"
  by (rule events_reach_their_descriptor [OF demo_runs(2) [unfolded demo_read_def]])

theorem reactor_sleeps_until_first_timer_witness:
  "sp_pending (spec_of demo_calls) = [] \<and> sp_reported (spec_of demo_calls) = Map.empty
    \<and> (\<exists>t. sp_armed (spec_of demo_calls) t = Some (1 + 4))"
proof -
  have "reactor_run (Iterated [] (Blocked 4) # demo_calls) 1 demo_set"
    by (rule run_iterated [OF demo_reactor_run _ answers_none demo_blocks]) simp
  from reactor_sleeps_until_first_timer [OF this] show ?thesis by (simp add: demo_specs split: if_splits)
qed

theorem limits_bound_uses_witness:
  "lim_count (rc_limits demo_set 3) = 1 \<and> fst (BReactorLimit_Increment 3 demo_set)"
proof -
  have "sp_limit (spec_of demo_calls) 3 = Some (2, 1)" by (simp add: demo_specs)
  from limits_bound_uses [OF demo_reactor_run this] show ?thesis by (simp add: demo_calls_def)
qed

theorem due_timers_run_in_order_witness:
  "\<exists>ts r'. iterations (Suc (length ts)) 6 demo_served = Some (Waited True # map (\<lambda>t. Ran_Timer t (timer_handler (spec_of demo_read) t)) ts, r')
    \<and> set ts = {1}"
proof -
  have i: "idle demo_served" by code_simp
  have t: "sp_armed (spec_of demo_read) 1 = Some 5" "{t. \<exists>a. sp_armed (spec_of demo_read) t = Some a \<and> a \<le> 6} = {1}"
    by (auto simp: demo_specs)
  from due_timers_run_in_order [OF demo_runs(2) _ i demo_specs(5) t(1), of 6] show ?thesis unfolding t(2) by auto
qed

end
