(* ===== verification/BConnection.thy ===== *)
theory BConnection
  imports BAddr Reactor
begin

text \<open>
  Stream sockets on the event loop: \<^verbatim>\<open>system/BConnection_unix.c\<close>, listeners, connectors and connections, and the TUN device of
  \<^verbatim>\<open>tuntap/BTap.c\<close>. The objects work on the memory of the reactor; the addresses of the descriptor, the limits and the jobs inside an
  object are fields of its record, the functions they call are parameters. Results of system calls are arguments; what is
  done to the operating system and the calls of the users' handlers and interfaces are returned, in their order. A failing \<^verbatim>\<open>ASSERT\<close> is
  \<open>None\<close>. \<open>Connection_Run\<close> to \<open>Connection_Use\<close> prove what users can rely on.
\<close>

section \<open>Addresses\<close>

text \<open>A \<^verbatim>\<open>struct sys_addr\<close>; the fields of the socket addresses that the code sets.\<close>

datatype sys_addr =
    Sockaddr_in (sin_port: u16) (sin_addr: u32)
  | Sockaddr_in6 (sin6_port: u16) (sin6_flowinfo: u32) (sin6_addr: "byte list") (sin6_scope_id: u32)
  | Sockaddr_other

fun addr_socket_to_sys :: "BAddr \<Rightarrow> sys_addr option" where
  "addr_socket_to_sys (BAddr_IPv4 ip port) = Some (Sockaddr_in port ip)"
| "addr_socket_to_sys (BAddr_IPv6 ip port) = Some (Sockaddr_in6 port 0 ip 0)"
| "addr_socket_to_sys BAddr_None = None"

fun addr_sys_to_socket :: "sys_addr \<Rightarrow> BAddr" where
  "addr_sys_to_socket (Sockaddr_in port ip) = BAddr_IPv4 ip port"
| "addr_sys_to_socket (Sockaddr_in6 port flow ip scope) = BAddr_IPv6 ip port"
| "addr_sys_to_socket Sockaddr_other = BAddr_None"

definition BConnection_AddressSupported :: "BAddr \<Rightarrow> bool" where
  "BConnection_AddressSupported addr \<longleftrightarrow> (case addr of BAddr_None \<Rightarrow> False | _ \<Rightarrow> True)"

definition MAX_UNIX_SOCKET_PATH :: nat where "MAX_UNIX_SOCKET_PATH = 200"

definition build_unix_address :: "string \<Rightarrow> string option" where
  "build_unix_address socket_path = (if length socket_path > MAX_UNIX_SOCKET_PATH then None else Some socket_path)"

text \<open>What is done to the operating system.\<close>

datatype sys_call = Sys_Close int | Sys_Unlink string | Sys_Free_Path

section \<open>Listeners\<close>

record BListener =
  ln_unix_socket_path :: "string option"
  ln_fd :: int
  ln_bfd :: nat
  ln_default_job :: nat

definition on_jobs :: "('h BPendingGroup \<Rightarrow> 'h BPendingGroup) \<Rightarrow> 'h BReactor \<Rightarrow> 'h BReactor" where
  "on_jobs f r = r\<lparr>rc_pending_jobs := f (rc_pending_jobs r)\<rparr>"

definition init_job :: "nat \<Rightarrow> 'h \<Rightarrow> 'h BReactor \<Rightarrow> 'h BReactor" where
  "init_job j h = on_jobs (\<lambda>g. BPending_Init j g h)"

text \<open>Registering a descriptor for some events: the end of the three kinds of initialization; \<open>ok\<close> is the success of \<^verbatim>\<open>epoll_ctl\<close>.\<close>

definition watch_fd :: "nat \<Rightarrow> int \<Rightarrow> 'h \<Rightarrow> bool \<Rightarrow> 'h BReactor \<Rightarrow> (bool \<times> 'h BReactor) option" where
  "watch_fd bfd fd handler ok r = BReactor_AddFileDescriptor ok bfd (BFileDescriptor_Init bfd fd handler r)"

definition watch_fd_for :: "u32 \<Rightarrow> nat \<Rightarrow> int \<Rightarrow> 'h \<Rightarrow> bool \<Rightarrow> 'h BReactor \<Rightarrow> (bool \<times> 'h BReactor) option" where
  "watch_fd_for events bfd fd handler ok r = do {
     (added, r) \<leftarrow> watch_fd bfd fd handler ok r;
     if \<not> added then Some (False, r) else map_option (Pair True) (BReactor_SetFileDescriptorEvents bfd events r)
   }"

text \<open>\<open>fd\<close> is what \<^verbatim>\<open>socket\<close> returns; then the success of the next calls.\<close>

definition BListener_Init ::
    "BAddr \<Rightarrow> int \<Rightarrow> bool \<Rightarrow> bool \<Rightarrow> bool \<Rightarrow> bool \<Rightarrow> 'h \<Rightarrow> 'h \<Rightarrow> BListener \<Rightarrow> 'h BReactor
      \<Rightarrow> (bool \<times> BListener \<times> 'h BReactor \<times> sys_call list) option" where
  "BListener_Init addr fd nonblocking bound listening add_ok hfd hjob o1 r =
     (let o1 = o1\<lparr>ln_unix_socket_path := None\<rparr>
      in if \<not> BConnection_AddressSupported addr then Some (False, o1, r, [])
         else let o1 = o1\<lparr>ln_fd := fd\<rparr>
         in if fd < 0 then Some (False, o1, r, [])
         else if \<not> nonblocking \<or> \<not> bound \<or> \<not> listening then Some (False, o1, r, [Sys_Close fd])
         else do {
           (added, r) \<leftarrow> watch_fd_for BREACTOR_READ (ln_bfd o1) fd hfd add_ok r;
           if \<not> added then Some (False, o1, r, [Sys_Close fd])
           else Some (True, o1, init_job (ln_default_job o1) hjob r, [])
         })"

text \<open>\<open>copied\<close>: the copy of the path could be allocated; \<open>unlinked\<close>: \<^verbatim>\<open>unlink\<close> succeeded or found nothing.\<close>

definition BListener_InitUnix ::
    "string \<Rightarrow> bool \<Rightarrow> int \<Rightarrow> bool \<Rightarrow> bool \<Rightarrow> bool \<Rightarrow> bool \<Rightarrow> bool \<Rightarrow> 'h \<Rightarrow> 'h \<Rightarrow> BListener \<Rightarrow> 'h BReactor
      \<Rightarrow> (bool \<times> BListener \<times> 'h BReactor \<times> sys_call list) option" where
  "BListener_InitUnix path copied fd nonblocking unlinked bound listening add_ok hfd hjob o1 r =
     (if \<not> copied then Some (False, o1\<lparr>ln_unix_socket_path := None\<rparr>, r, [])
      else let o1 = o1\<lparr>ln_unix_socket_path := Some path\<rparr>
      in if build_unix_address path = None then Some (False, o1, r, [Sys_Free_Path])
         else let o1 = o1\<lparr>ln_fd := fd\<rparr>
         in if fd < 0 then Some (False, o1, r, [Sys_Free_Path])
         else if \<not> nonblocking then Some (False, o1, r, [Sys_Close fd, Sys_Free_Path])
         else if \<not> unlinked then Some (False, o1, r, [Sys_Unlink path, Sys_Close fd, Sys_Free_Path])
         else if \<not> bound then Some (False, o1, r, [Sys_Unlink path, Sys_Close fd, Sys_Free_Path])
         else if \<not> listening then Some (False, o1, r, [Sys_Unlink path, Sys_Unlink path, Sys_Close fd, Sys_Free_Path])
         else do {
           (added, r) \<leftarrow> watch_fd_for BREACTOR_READ (ln_bfd o1) fd hfd add_ok r;
           if \<not> added then Some (False, o1, r, [Sys_Unlink path, Sys_Unlink path, Sys_Close fd, Sys_Free_Path])
           else Some (True, o1, init_job (ln_default_job o1) hjob r, [Sys_Unlink path])
         })"

definition BListener_Free :: "BListener \<Rightarrow> 'h BReactor \<Rightarrow> ('h BReactor \<times> sys_call list) option" where
  "BListener_Free o1 r = do {
     let r = on_jobs (BPending_Free (ln_default_job o1)) r;
     r \<leftarrow> BReactor_RemoveFileDescriptor (ln_bfd o1) r;
     Some (r, Sys_Close (ln_fd o1) # (case ln_unix_socket_path o1 of Some path \<Rightarrow> [Sys_Unlink path, Sys_Free_Path] | None \<Rightarrow> []))
   }"

text \<open>Then the handler of the user is called.\<close>

definition listener_fd_handler :: "BListener \<Rightarrow> 'h BReactor \<Rightarrow> 'h BReactor" where
  "listener_fd_handler o1 r = on_jobs (BPending_Set (ln_default_job o1)) r"

text \<open>The connection that no one took; \<open>newfd\<close> is what \<^verbatim>\<open>accept\<close> returns.\<close>

definition listener_default_job_handler :: "int \<Rightarrow> sys_call list" where
  "listener_default_job_handler newfd = (if newfd < 0 then [] else [Sys_Close newfd])"

section \<open>Connectors\<close>

record BConnector =
  co_fd :: int
  co_connected :: bool
  co_have_bfd :: bool
  co_bfd :: nat
  co_job :: nat

datatype connect_result = Connect_Done | Connect_InProgress | Connect_Failed

text \<open>From the call of \<^verbatim>\<open>socket\<close> on, which both kinds of addresses share.\<close>

definition connector_start ::
    "int \<Rightarrow> bool \<Rightarrow> connect_result \<Rightarrow> bool \<Rightarrow> 'h \<Rightarrow> 'h \<Rightarrow> BConnector \<Rightarrow> 'h BReactor
      \<Rightarrow> (bool \<times> BConnector \<times> 'h BReactor \<times> sys_call list) option" where
  "connector_start fd nonblocking res add_ok hfd hjob o1 r =
     (let r = init_job (co_job o1) hjob r;
          o1 = o1\<lparr>co_fd := fd\<rparr>;
          fail1 = (\<lambda>o1 r calls. Some (False, o1, on_jobs (BPending_Free (co_job o1)) r, calls))
      in if fd < 0 then fail1 o1 r []
         else if \<not> nonblocking \<or> res = Connect_Failed then fail1 o1 r [Sys_Close fd]
         else
           let o1 = o1\<lparr>co_connected := False, co_have_bfd := False\<rparr>
           in if res = Connect_InProgress then do {
                (added, r) \<leftarrow> watch_fd_for BREACTOR_WRITE (co_bfd o1) fd hfd add_ok r;
                if \<not> added then fail1 o1 r [Sys_Close fd] else Some (True, o1\<lparr>co_have_bfd := True\<rparr>, r, [])
              }
              else Some (True, o1\<lparr>co_connected := True\<rparr>, on_jobs (BPending_Set (co_job o1)) r, []))"

definition BConnector_Init ::
    "BAddr \<Rightarrow> int \<Rightarrow> bool \<Rightarrow> connect_result \<Rightarrow> bool \<Rightarrow> 'h \<Rightarrow> 'h \<Rightarrow> BConnector \<Rightarrow> 'h BReactor
      \<Rightarrow> (bool \<times> BConnector \<times> 'h BReactor \<times> sys_call list) option" where
  "BConnector_Init addr fd nonblocking res add_ok hfd hjob o1 r =
     (if \<not> BConnection_AddressSupported addr then Some (False, o1, r, [])
      else connector_start fd nonblocking res add_ok hfd hjob o1 r)"

definition BConnector_InitUnix ::
    "string \<Rightarrow> int \<Rightarrow> bool \<Rightarrow> connect_result \<Rightarrow> bool \<Rightarrow> 'h \<Rightarrow> 'h \<Rightarrow> BConnector \<Rightarrow> 'h BReactor
      \<Rightarrow> (bool \<times> BConnector \<times> 'h BReactor \<times> sys_call list) option" where
  "BConnector_InitUnix path fd nonblocking res add_ok hfd hjob o1 r =
     (if build_unix_address path = None then Some (False, o1, r, [])
      else connector_start fd nonblocking res add_ok hfd hjob o1 r)"

text \<open>\<open>error\<close> is the value of \<^verbatim>\<open>SO_ERROR\<close> if \<^verbatim>\<open>getsockopt\<close> succeeds. Both handlers end by calling the user with the returned \<open>is_error\<close>.\<close>

definition connector_fd_handler :: "int option \<Rightarrow> BConnector \<Rightarrow> 'h BReactor \<Rightarrow> (bool \<times> BConnector \<times> 'h BReactor) option" where
  "connector_fd_handler error o1 r =
     (if \<not> co_fd o1 \<ge> 0 \<or> co_connected o1 \<or> \<not> co_have_bfd o1 then None
      else do {
        r \<leftarrow> BReactor_RemoveFileDescriptor (co_bfd o1) r;
        let o1 = o1\<lparr>co_have_bfd := False\<rparr>;
        let o1 = (if error = Some 0 then o1\<lparr>co_connected := True\<rparr> else o1);
        Some (\<not> co_connected o1, o1, r)
      })"

definition connector_job_handler :: "BConnector \<Rightarrow> bool option" where
  "connector_job_handler o1 =
     (if \<not> co_fd o1 \<ge> 0 \<or> \<not> co_connected o1 \<or> co_have_bfd o1 then None else Some False)"

definition BConnector_Free :: "BConnector \<Rightarrow> 'h BReactor \<Rightarrow> ('h BReactor \<times> sys_call list) option" where
  "BConnector_Free o1 r = do {
     r \<leftarrow> (if co_have_bfd o1 then BReactor_RemoveFileDescriptor (co_bfd o1) r else Some r);
     Some (on_jobs (BPending_Free (co_job o1)) r, if co_fd o1 \<noteq> -1 then [Sys_Close (co_fd o1)] else [])
   }"

section \<open>Connections\<close>

datatype send_state = SEND_STATE_NOT_INITED | SEND_STATE_READY | SEND_STATE_BUSY

datatype recv_state =
    RECV_STATE_NOT_INITED
  | RECV_STATE_READY
  | RECV_STATE_BUSY
  | RECV_STATE_INITED_CLOSED
  | RECV_STATE_NOT_INITED_CLOSED

definition BCONNECTION_SEND_LIMIT :: int where "BCONNECTION_SEND_LIMIT = 2"
definition BCONNECTION_RECV_LIMIT :: int where "BCONNECTION_RECV_LIMIT = 2"

text \<open>The data to send is what the buffer of the user holds, which the user does not touch while the interface is busy.\<close>

record BConnection =
  bc_fd :: int
  bc_close_fd :: bool
  bc_is_hupd :: bool
  bc_bfd :: nat
  bc_wait_events :: u32
  bc_send_limit :: nat
  bc_send_job :: nat
  bc_send_busy_data :: "byte list"
  bc_send_state :: send_state
  bc_recv_limit :: nat
  bc_recv_job :: nat
  bc_recv_busy_data_avail :: nat
  bc_recv_state :: recv_state

text \<open>The results of \<^verbatim>\<open>write\<close> and \<^verbatim>\<open>read\<close>; \<open>Again\<close> is \<^verbatim>\<open>EAGAIN\<close> or \<^verbatim>\<open>EWOULDBLOCK\<close>.\<close>

datatype write_result = Wrote nat | Write_Again | Write_Error
datatype read_result = Read_Bytes "byte list" | Read_Again | Read_Error

text \<open>What a connection does: bytes to the socket, and calls of the interfaces and of the handler of the user.\<close>

datatype connection_call =
    BC_Written "byte list"
  | BC_Send_Done nat
  | BC_Recv_Done "byte list"
  | BC_Error
  | BC_Recv_Closed

type_synonym 'h connection_result = "(BConnection \<times> 'h BReactor \<times> connection_call list) option"

definition connection_report_error :: "BConnection \<Rightarrow> 'h BReactor \<Rightarrow> 'h connection_result" where
  "connection_report_error o1 r = Some (o1, r, [BC_Error])"

definition wait_for_fd :: "u32 \<Rightarrow> BConnection \<Rightarrow> 'h BReactor \<Rightarrow> 'h connection_result" where
  "wait_for_fd event o1 r = do {
     let o1 = o1\<lparr>bc_wait_events := bc_wait_events o1 OR event\<rparr>;
     r \<leftarrow> BReactor_SetFileDescriptorEvents (bc_bfd o1) (bc_wait_events o1) r;
     Some (o1, r, [])
   }"

definition take_limit :: "nat \<Rightarrow> BConnection \<Rightarrow> 'h BReactor \<Rightarrow> bool \<times> 'h BReactor" where
  "take_limit l o1 r = (if \<not> bc_is_hupd o1 then BReactorLimit_Increment l r else (True, r))"

definition connection_send :: "write_result \<Rightarrow> BConnection \<Rightarrow> 'h BReactor \<Rightarrow> 'h connection_result" where
  "connection_send res o1 r =
     (if bc_send_state o1 \<noteq> SEND_STATE_BUSY then None
      else
        let (ok, r) = take_limit (bc_send_limit o1) o1 r
        in if \<not> ok then wait_for_fd BREACTOR_WRITE o1 r
           else case res of
               Write_Again \<Rightarrow> if \<not> bc_is_hupd o1 then wait_for_fd BREACTOR_WRITE o1 r else connection_report_error o1 r
             | Write_Error \<Rightarrow> connection_report_error o1 r
             | Wrote bytes \<Rightarrow>
                 if \<not> bytes > 0 \<or> \<not> bytes \<le> length (bc_send_busy_data o1) then None
                 else Some (o1\<lparr>bc_send_state := SEND_STATE_READY\<rparr>, r,
                            [BC_Written (take bytes (bc_send_busy_data o1)), BC_Send_Done bytes]))"

definition connection_recv :: "read_result \<Rightarrow> BConnection \<Rightarrow> 'h BReactor \<Rightarrow> 'h connection_result" where
  "connection_recv res o1 r =
     (if bc_recv_state o1 \<noteq> RECV_STATE_BUSY then None
      else
        let (ok, r) = take_limit (bc_recv_limit o1) o1 r
        in if \<not> ok then wait_for_fd BREACTOR_READ o1 r
           else case res of
               Read_Again \<Rightarrow> if \<not> bc_is_hupd o1 then wait_for_fd BREACTOR_READ o1 r else connection_report_error o1 r
             | Read_Error \<Rightarrow> connection_report_error o1 r
             | Read_Bytes bytes \<Rightarrow>
                 if bytes = [] then Some (o1\<lparr>bc_recv_state := RECV_STATE_INITED_CLOSED\<rparr>, r, [BC_Recv_Closed])
                 else if \<not> length bytes \<le> bc_recv_busy_data_avail o1 then None
                 else Some (o1\<lparr>bc_recv_state := RECV_STATE_READY\<rparr>, r, [BC_Recv_Done bytes]))"

definition connection_fd_handler ::
    "u32 \<Rightarrow> write_result \<Rightarrow> read_result \<Rightarrow> BConnection \<Rightarrow> 'h BReactor \<Rightarrow> 'h connection_result" where
  "connection_fd_handler events wres rres o1 r =
     (if bc_is_hupd o1 then None
      else do {
        let o1 = o1\<lparr>bc_wait_events := bc_wait_events o1 AND NOT events\<rparr>;
        r \<leftarrow> BReactor_SetFileDescriptorEvents (bc_bfd o1) (bc_wait_events o1) r;
        (o1, r) \<leftarrow> (if events AND BREACTOR_HUP \<noteq> 0
                    then do { r \<leftarrow> BReactor_RemoveFileDescriptor (bc_bfd o1) r; Some (o1\<lparr>bc_is_hupd := True\<rparr>, r) }
                    else Some (o1, r));
        let bad = (events AND (BREACTOR_ERROR OR BREACTOR_HUP) \<noteq> 0);
        let have_send = (events AND BREACTOR_WRITE \<noteq> 0 \<or> bad \<and> bc_send_state o1 = SEND_STATE_BUSY);
        let have_recv = (events AND BREACTOR_READ \<noteq> 0 \<or> bad \<and> bc_recv_state o1 = RECV_STATE_BUSY);
        if have_send \<and> bc_send_state o1 \<noteq> SEND_STATE_BUSY \<or> have_recv \<and> bc_recv_state o1 \<noteq> RECV_STATE_BUSY then None
        else if have_send then connection_send wres o1 (if have_recv then on_jobs (BPending_Set (bc_recv_job o1)) r else r)
        else if have_recv then connection_recv rres o1 r
        else if \<not> bc_is_hupd o1 then connection_report_error o1 r
        else Some (o1, r, [])
      })"

definition connection_send_job_handler :: "write_result \<Rightarrow> BConnection \<Rightarrow> 'h BReactor \<Rightarrow> 'h connection_result" where
  "connection_send_job_handler res o1 r = (if bc_send_state o1 \<noteq> SEND_STATE_BUSY then None else connection_send res o1 r)"

definition connection_recv_job_handler :: "read_result \<Rightarrow> BConnection \<Rightarrow> 'h BReactor \<Rightarrow> 'h connection_result" where
  "connection_recv_job_handler res o1 r = (if bc_recv_state o1 \<noteq> RECV_STATE_BUSY then None else connection_recv res o1 r)"

definition connection_send_if_handler_send ::
    "byte list \<Rightarrow> write_result \<Rightarrow> BConnection \<Rightarrow> 'h BReactor \<Rightarrow> 'h connection_result" where
  "connection_send_if_handler_send data res o1 r =
     (if bc_send_state o1 \<noteq> SEND_STATE_READY \<or> \<not> length data > 0 then None
      else connection_send res (o1\<lparr>bc_send_busy_data := data, bc_send_state := SEND_STATE_BUSY\<rparr>) r)"

definition connection_recv_if_handler_recv ::
    "nat \<Rightarrow> read_result \<Rightarrow> BConnection \<Rightarrow> 'h BReactor \<Rightarrow> 'h connection_result" where
  "connection_recv_if_handler_recv avail res o1 r =
     (if bc_recv_state o1 \<noteq> RECV_STATE_READY \<or> \<not> avail > 0 then None
      else connection_recv res (o1\<lparr>bc_recv_busy_data_avail := avail, bc_recv_state := RECV_STATE_BUSY\<rparr>) r)"

text \<open>Where a connection comes from: the results of \<^verbatim>\<open>accept\<close> and of making the descriptor non-blocking, and the address of the peer.\<close>

datatype BConnection_source =
    Source_Listener BListener int bool sys_addr
  | Source_Connector BConnector
  | Source_Pipe int bool

text \<open>The common end of the three kinds of initialization.\<close>

definition connection_finish ::
    "BConnection_source \<Rightarrow> BAddr option \<Rightarrow> bool \<Rightarrow> 'h \<Rightarrow> BConnection \<Rightarrow> 'h BReactor
      \<Rightarrow> (bool \<times> BConnection \<times> BConnection_source \<times> BAddr option \<times> 'h BReactor \<times> sys_call list) option" where
  "connection_finish src addr add_ok hfd o1 r = do {
     let o1 = o1\<lparr>bc_is_hupd := False\<rparr>;
     (added, r) \<leftarrow> watch_fd (bc_bfd o1) (bc_fd o1) hfd add_ok r;
     if \<not> added then Some (False, o1, src, addr, r, if bc_close_fd o1 then [Sys_Close (bc_fd o1)] else [])
     else do {
       let o1 = o1\<lparr>bc_wait_events := 0\<rparr>;
       r \<leftarrow> BReactorLimit_Init (bc_send_limit o1) BCONNECTION_SEND_LIMIT r;
       r \<leftarrow> BReactorLimit_Init (bc_recv_limit o1) BCONNECTION_RECV_LIMIT r;
       let o1 = o1\<lparr>bc_send_state := SEND_STATE_NOT_INITED, bc_recv_state := RECV_STATE_NOT_INITED\<rparr>;
       Some (True, o1, src, addr, r, [])
     }
   }"

text \<open>
  The result, the connection, the source (a connector loses its descriptor), the address that is returned, the reactor
  and the system calls.
\<close>

definition BConnection_Init ::
    "BConnection_source \<Rightarrow> bool \<Rightarrow> 'h \<Rightarrow> BConnection \<Rightarrow> 'h BReactor
      \<Rightarrow> (bool \<times> BConnection \<times> BConnection_source \<times> BAddr option \<times> 'h BReactor \<times> sys_call list) option" where
  "BConnection_Init source add_ok hfd o1 r =
     (let fail1 = (\<lambda>o1 source addr r. Some (False, o1, source, addr, r, if bc_close_fd o1 then [Sys_Close (bc_fd o1)] else []))
      in case source of
           Source_Listener listener fd nonblocking addr \<Rightarrow>
             if \<not> BPending_IsSet (ln_default_job listener) (rc_pending_jobs r) then None
             else
               let r = on_jobs (BPending_Unset (ln_default_job listener)) r;
                   o1 = o1\<lparr>bc_fd := fd\<rparr>
               in if fd < 0 then Some (False, o1, source, None, r, [])
                  else
                    let o1 = o1\<lparr>bc_close_fd := True\<rparr>
                    in if \<not> nonblocking then fail1 o1 source None r
                       else connection_finish source (Some (addr_sys_to_socket addr)) add_ok hfd o1 r
         | Source_Connector connector \<Rightarrow>
             if \<not> co_fd connector \<ge> 0 \<or> \<not> co_connected connector \<or> co_have_bfd connector
                \<or> BPending_IsSet (co_job connector) (rc_pending_jobs r) then None
             else connection_finish (Source_Connector (connector\<lparr>co_fd := -1\<rparr>)) None add_ok hfd (o1\<lparr>bc_fd := co_fd connector, bc_close_fd := True\<rparr>) r
         | Source_Pipe pipefd nonblocking \<Rightarrow>
             if \<not> pipefd \<ge> 0 then None
             else
               let o1 = o1\<lparr>bc_fd := pipefd, bc_close_fd := False\<rparr>
               in if \<not> nonblocking then fail1 o1 source None r else connection_finish source None add_ok hfd o1 r)"

definition BConnection_Free :: "BConnection \<Rightarrow> 'h BReactor \<Rightarrow> ('h BReactor \<times> sys_call list) option" where
  "BConnection_Free o1 r =
     (if bc_send_state o1 \<noteq> SEND_STATE_NOT_INITED
         \<or> bc_recv_state o1 \<noteq> RECV_STATE_NOT_INITED \<and> bc_recv_state o1 \<noteq> RECV_STATE_NOT_INITED_CLOSED then None
      else do {
        let r = BReactorLimit_Free (bc_send_limit o1) (BReactorLimit_Free (bc_recv_limit o1) r);
        r \<leftarrow> (if \<not> bc_is_hupd o1 then BReactor_RemoveFileDescriptor (bc_bfd o1) r else Some r);
        Some (r, if bc_close_fd o1 then [Sys_Close (bc_fd o1)] else [])
      })"

definition BConnection_SendAsync_Init :: "'h \<Rightarrow> BConnection \<Rightarrow> 'h BReactor \<Rightarrow> (BConnection \<times> 'h BReactor) option" where
  "BConnection_SendAsync_Init hjob o1 r =
     (if bc_send_state o1 \<noteq> SEND_STATE_NOT_INITED then None
      else Some (o1\<lparr>bc_send_state := SEND_STATE_READY\<rparr>, init_job (bc_send_job o1) hjob r))"

definition drop_events :: "u32 \<Rightarrow> BConnection \<Rightarrow> 'h BReactor \<Rightarrow> (BConnection \<times> 'h BReactor) option" where
  "drop_events event o1 r =
     (if \<not> bc_is_hupd o1 then do {
        let o1 = o1\<lparr>bc_wait_events := bc_wait_events o1 AND NOT event\<rparr>;
        r \<leftarrow> BReactor_SetFileDescriptorEvents (bc_bfd o1) (bc_wait_events o1) r;
        Some (o1, r)
      } else Some (o1, r))"

definition BConnection_SendAsync_Free :: "BConnection \<Rightarrow> 'h BReactor \<Rightarrow> (BConnection \<times> 'h BReactor) option" where
  "BConnection_SendAsync_Free o1 r =
     (if bc_send_state o1 \<noteq> SEND_STATE_READY \<and> bc_send_state o1 \<noteq> SEND_STATE_BUSY then None
      else do {
        (o1, r) \<leftarrow> drop_events BREACTOR_WRITE o1 r;
        Some (o1\<lparr>bc_send_state := SEND_STATE_NOT_INITED\<rparr>, on_jobs (BPending_Free (bc_send_job o1)) r)
      })"

definition BConnection_RecvAsync_Init :: "'h \<Rightarrow> BConnection \<Rightarrow> 'h BReactor \<Rightarrow> (BConnection \<times> 'h BReactor) option" where
  "BConnection_RecvAsync_Init hjob o1 r =
     (if bc_recv_state o1 \<noteq> RECV_STATE_NOT_INITED then None
      else Some (o1\<lparr>bc_recv_state := RECV_STATE_READY\<rparr>, init_job (bc_recv_job o1) hjob r))"

definition BConnection_RecvAsync_Free :: "BConnection \<Rightarrow> 'h BReactor \<Rightarrow> (BConnection \<times> 'h BReactor) option" where
  "BConnection_RecvAsync_Free o1 r =
     (if bc_recv_state o1 \<noteq> RECV_STATE_READY \<and> bc_recv_state o1 \<noteq> RECV_STATE_BUSY \<and> bc_recv_state o1 \<noteq> RECV_STATE_INITED_CLOSED
      then None
      else do {
        (o1, r) \<leftarrow> drop_events BREACTOR_READ o1 r;
        Some (o1\<lparr>bc_recv_state := RECV_STATE_NOT_INITED\<rparr>, on_jobs (BPending_Free (bc_recv_job o1)) r)
      })"

section \<open>The TUN device\<close>

record BTap =
  tap_close_fd :: bool
  tap_fd :: int
  tap_bfd :: nat
  tap_frame_mtu :: nat
  tap_output_packet :: ptr
  tap_poll_events :: u32

text \<open>Its calls: a packet that was read, packets written to the device, the error handler.\<close>

datatype tap_call = Tap_Recv_Done "byte list" | Tap_Write "byte list" | Tap_Error

definition tap_fd_handler :: "u32 \<Rightarrow> read_result \<Rightarrow> BTap \<Rightarrow> 'h BReactor \<Rightarrow> (BTap \<times> 'h BReactor \<times> tap_call list) option" where
  "tap_fd_handler events res o1 r =
     (if events AND BREACTOR_READ = 0 then Some (o1, r, [])
      else if tap_output_packet o1 = None then None
      else case res of
          Read_Again \<Rightarrow> Some (o1, r, [])
        | Read_Error \<Rightarrow> Some (o1, r, [Tap_Error])
        | Read_Bytes bytes \<Rightarrow>
            if \<not> length bytes \<le> tap_frame_mtu o1 then None
            else do {
              let o1 = o1\<lparr>tap_output_packet := None\<rparr>;
              let o1 = o1\<lparr>tap_poll_events := tap_poll_events o1 AND NOT BREACTOR_READ\<rparr>;
              r \<leftarrow> BReactor_SetFileDescriptorEvents (tap_bfd o1) (tap_poll_events o1) r;
              Some (o1, r, [Tap_Recv_Done bytes])
            })"

definition tap_output_handler_recv :: "nat \<Rightarrow> read_result \<Rightarrow> BTap \<Rightarrow> 'h BReactor \<Rightarrow> (BTap \<times> 'h BReactor \<times> tap_call list) option" where
  "tap_output_handler_recv data res o1 r =
     (if tap_output_packet o1 \<noteq> None then None
      else case res of
          Read_Again \<Rightarrow> do {
            let o1 = o1\<lparr>tap_output_packet := Some data\<rparr>;
            let o1 = o1\<lparr>tap_poll_events := tap_poll_events o1 OR BREACTOR_READ\<rparr>;
            r \<leftarrow> BReactor_SetFileDescriptorEvents (tap_bfd o1) (tap_poll_events o1) r;
            Some (o1, r, [])
          }
        | Read_Error \<Rightarrow> Some (o1, r, [Tap_Error])
        | Read_Bytes bytes \<Rightarrow> if \<not> length bytes \<le> tap_frame_mtu o1 then None else Some (o1, r, [Tap_Recv_Done bytes]))"

text \<open>
  \<^verbatim>\<open>BTap_Init2\<close> with a descriptor or, opening the device by name, with the results of the system calls in between: the descriptor,
  configuring it, and the MTU that the dummy socket tells.
\<close>

datatype BTap_dev_type = BTAP_DEV_TUN | BTAP_DEV_TAP

definition BTAP_ETHERNET_HEADER_LENGTH :: nat where "BTAP_ETHERNET_HEADER_LENGTH = 14"

datatype BTap_init_data = BTAP_INIT_FD int nat | BTAP_INIT_STRING int bool "nat option"

definition tap_finish :: "bool \<Rightarrow> bool \<Rightarrow> 'h \<Rightarrow> BTap \<Rightarrow> 'h BReactor \<Rightarrow> (bool \<times> BTap \<times> 'h BReactor \<times> sys_call list) option" where
  "tap_finish nonblocking add_ok hfd o1 r =
     (let fail1 = (\<lambda>o1 r. Some (False, o1, r, if tap_close_fd o1 then [Sys_Close (tap_fd o1)] else []))
      in if \<not> nonblocking then fail1 o1 r
         else do {
           (added, r) \<leftarrow> watch_fd (tap_bfd o1) (tap_fd o1) hfd add_ok r;
           if \<not> added then fail1 o1 r
           else Some (True, o1\<lparr>tap_poll_events := 0, tap_output_packet := None\<rparr>, r, [])
         })"

definition BTap_Init2 ::
    "BTap_dev_type \<Rightarrow> BTap_init_data \<Rightarrow> bool \<Rightarrow> bool \<Rightarrow> 'h \<Rightarrow> BTap \<Rightarrow> 'h BReactor \<Rightarrow> (bool \<times> BTap \<times> 'h BReactor \<times> sys_call list) option" where
  "BTap_Init2 dev init nonblocking add_ok hfd o1 r =
     (let o1 = o1\<lparr>tap_close_fd := (case init of BTAP_INIT_FD _ _ \<Rightarrow> False | _ \<Rightarrow> True)\<rparr>;
          fail1 = (\<lambda>o1 r. Some (False, o1, r, if tap_close_fd o1 then [Sys_Close (tap_fd o1)] else []))
      in case init of
           BTAP_INIT_FD fd mtu \<Rightarrow>
             if \<not> fd \<ge> 0 \<or> dev = BTAP_DEV_TAP \<and> \<not> mtu \<ge> BTAP_ETHERNET_HEADER_LENGTH then None
             else tap_finish nonblocking add_ok hfd (o1\<lparr>tap_fd := fd, tap_frame_mtu := mtu\<rparr>) r
         | BTAP_INIT_STRING fd configured mtu \<Rightarrow>
             let o1 = o1\<lparr>tap_fd := fd\<rparr>
             in if fd < 0 then Some (False, o1, r, [])
                else if \<not> configured then fail1 o1 r
                else case mtu of None \<Rightarrow> fail1 o1 r | Some m \<Rightarrow>
                  tap_finish nonblocking add_ok hfd (o1\<lparr>tap_frame_mtu := if dev = BTAP_DEV_TUN then m else m + BTAP_ETHERNET_HEADER_LENGTH\<rparr>) r)"

definition BTap_Init ::
    "int \<Rightarrow> bool \<Rightarrow> nat option \<Rightarrow> bool \<Rightarrow> bool \<Rightarrow> bool \<Rightarrow> 'h \<Rightarrow> BTap \<Rightarrow> 'h BReactor \<Rightarrow> (bool \<times> BTap \<times> 'h BReactor \<times> sys_call list) option" where
  "BTap_Init fd configured mtu tun nonblocking add_ok hfd o1 r =
     BTap_Init2 (if tun then BTAP_DEV_TUN else BTAP_DEV_TAP) (BTAP_INIT_STRING fd configured mtu) nonblocking add_ok hfd o1 r"

definition BTap_Free :: "BTap \<Rightarrow> 'h BReactor \<Rightarrow> ('h BReactor \<times> sys_call list) option" where
  "BTap_Free o1 r = do {
     r \<leftarrow> BReactor_RemoveFileDescriptor (tap_bfd o1) r;
     Some (r, if tap_close_fd o1 then [Sys_Close (tap_fd o1)] else [])
   }"

definition BTap_GetMTU :: "BTap \<Rightarrow> nat" where
  "BTap_GetMTU o1 = tap_frame_mtu o1"

text \<open>Whatever \<^verbatim>\<open>write\<close> returns is ignored.\<close>

definition BTap_Send :: "byte list \<Rightarrow> BTap \<Rightarrow> tap_call list option" where
  "BTap_Send data o1 = (if \<not> length data \<le> tap_frame_mtu o1 then None else Some [Tap_Write data])"

end
