(* ===== verification/Connection_Run.thy ===== *)
theory Connection_Run
  imports BConnection Reactor_Safety
begin

text \<open>
  Connections on the event loop. \<open>conn_wf\<close>: the reactor knows the objects of a connection and monitors its descriptor for its
  events. \<open>conn_live\<close>: what its pending operations wait for is among these events and, when it is \<open>exact\<close>, nothing else is.
  Every handler succeeds when it is called as the interfaces promise and its assertions hold.
\<close>

section \<open>Sets of events\<close>

definition rw_events :: "bool \<Rightarrow> bool \<Rightarrow> u32" where
  "rw_events rd wr = (if rd then BREACTOR_READ else 0) OR (if wr then BREACTOR_WRITE else 0)"

lemma event_bits:
  "bit BREACTOR_READ n \<longleftrightarrow> n = 0" "bit BREACTOR_WRITE n \<longleftrightarrow> n = 1"
  "bit BREACTOR_ERROR n \<longleftrightarrow> n = 2" "bit BREACTOR_HUP n \<longleftrightarrow> n = 3"
proof -
  have e: "BREACTOR_READ = 2 ^ 0" "BREACTOR_WRITE = 2 ^ 1" "BREACTOR_ERROR = 2 ^ 2" "BREACTOR_HUP = 2 ^ 3"
    by (simp_all add: BREACTOR_READ_def BREACTOR_WRITE_def BREACTOR_ERROR_def BREACTOR_HUP_def)
  show "bit BREACTOR_READ n \<longleftrightarrow> n = 0" unfolding e bit_exp_iff by auto
  show "bit BREACTOR_WRITE n \<longleftrightarrow> n = 1" unfolding e bit_exp_iff by auto
  show "bit BREACTOR_ERROR n \<longleftrightarrow> n = 2" unfolding e bit_exp_iff by auto
  show "bit BREACTOR_HUP n \<longleftrightarrow> n = 3" unfolding e bit_exp_iff by auto
qed

lemma rw_bit: "bit (rw_events rd wr) n \<longleftrightarrow> n = 0 \<and> rd \<or> n = 1 \<and> wr"
  by (cases rd; cases wr) (auto simp: rw_events_def bit_or_iff event_bits)

lemma and_read_bit: "(w :: u32) AND BREACTOR_READ \<noteq> 0 \<longleftrightarrow> bit w 0"
  using and_exp_eq_0_iff_not_bit [of w 0] by (simp add: BREACTOR_READ_def)

lemma and_write_bit: "(w :: u32) AND BREACTOR_WRITE \<noteq> 0 \<longleftrightarrow> bit w 1"
  using and_exp_eq_0_iff_not_bit [of w 1] by (simp add: BREACTOR_WRITE_def)

lemma rw_has [simp]:
  "rw_events rd wr AND BREACTOR_READ \<noteq> 0 \<longleftrightarrow> rd" "rw_events rd wr AND BREACTOR_WRITE \<noteq> 0 \<longleftrightarrow> wr"
  by (simp_all add: and_read_bit and_write_bit rw_bit)

lemma rw_clear: "rw_events rd wr AND NOT ev = rw_events (rd \<and> ev AND BREACTOR_READ = 0) (wr \<and> ev AND BREACTOR_WRITE = 0)"
  using and_read_bit [of ev] and_write_bit [of ev]
  by (intro bit_word_eqI) (auto simp: bit_simps rw_bit)

lemma rw_drop:
  "rw_events rd wr AND NOT BREACTOR_READ = rw_events False wr" "rw_events rd wr AND NOT BREACTOR_WRITE = rw_events rd False"
proof -
  have "BREACTOR_READ AND BREACTOR_READ \<noteq> 0" "BREACTOR_READ AND BREACTOR_WRITE = 0"
    "BREACTOR_WRITE AND BREACTOR_READ = 0" "BREACTOR_WRITE AND BREACTOR_WRITE \<noteq> 0"
    using and_read_bit [of BREACTOR_READ] and_write_bit [of BREACTOR_READ] and_read_bit [of BREACTOR_WRITE]
      and_write_bit [of BREACTOR_WRITE] by (simp_all add: event_bits)
  then show "rw_events rd wr AND NOT BREACTOR_READ = rw_events False wr" "rw_events rd wr AND NOT BREACTOR_WRITE = rw_events rd False"
    unfolding rw_clear by simp_all
qed

lemma rw_add:
  "rw_events rd wr OR BREACTOR_READ = rw_events True wr" "rw_events rd wr OR BREACTOR_WRITE = rw_events rd True"
  by (simp_all add: rw_events_def or.commute or.left_commute or.assoc)

lemma rw_valid: "rw_events rd wr AND NOT (BREACTOR_READ OR BREACTOR_WRITE) = 0"
proof -
  have "BREACTOR_READ OR BREACTOR_WRITE = rw_events True True" by (simp add: rw_events_def)
  then show ?thesis by (simp only: rw_clear rw_has) (simp add: rw_events_def)
qed

lemma rw_inject [simp]: "rw_events a b = rw_events c d \<longleftrightarrow> a = c \<and> b = d"
proof
  assume e: "rw_events a b = rw_events c d"
  show "a = c \<and> b = d" using rw_bit [of a b 0] rw_bit [of a b 1] rw_bit [of c d 0] rw_bit [of c d 1] unfolding e by simp
qed simp

text \<open>What the reactor promises about an event: it is monitored, an error or a hangup.\<close>

definition reported_for :: "u32 \<Rightarrow> u32 \<Rightarrow> bool" where
  "reported_for w ev \<longleftrightarrow> ev \<noteq> 0 \<and> ev AND NOT (w OR BREACTOR_ERROR OR BREACTOR_HUP) = 0"

lemma reported_rw:
  assumes "reported_for (rw_events rd wr) ev"
  shows "ev AND BREACTOR_READ \<noteq> 0 \<Longrightarrow> rd" "ev AND BREACTOR_WRITE \<noteq> 0 \<Longrightarrow> wr"
    "ev AND BREACTOR_READ = 0 \<Longrightarrow> ev AND BREACTOR_WRITE = 0 \<Longrightarrow> ev AND (BREACTOR_ERROR OR BREACTOR_HUP) \<noteq> 0"
proof -
  have b: "bit ev n \<Longrightarrow> bit (rw_events rd wr) n \<or> bit (BREACTOR_ERROR OR BREACTOR_HUP) n" for n
  proof -
    assume n: "bit ev n"
    then have "n < 32" using bit_imp_le_length by fastforce
    moreover have "\<not> bit (ev AND NOT (rw_events rd wr OR BREACTOR_ERROR OR BREACTOR_HUP)) n"
      using assms by (simp only: reported_for_def) simp
    ultimately show ?thesis using n by (simp add: bit_simps)
  qed
  have eh: "bit (BREACTOR_ERROR OR BREACTOR_HUP) n \<longleftrightarrow> n = 2 \<or> n = 3" for n
    by (simp add: bit_or_iff event_bits)
  show "ev AND BREACTOR_READ \<noteq> 0 \<Longrightarrow> rd" using b [of 0] by (simp add: and_read_bit rw_bit eh)
  show "ev AND BREACTOR_WRITE \<noteq> 0 \<Longrightarrow> wr" using b [of 1] by (simp add: and_write_bit rw_bit eh)
  assume z: "ev AND BREACTOR_READ = 0" "ev AND BREACTOR_WRITE = 0"
  have "ev \<noteq> 0" using assms by (simp add: reported_for_def)
  have "\<exists>n. bit ev n"
  proof (rule ccontr)
    assume "\<not> (\<exists>n. bit ev n)"
    then have "ev = 0" by (intro bit_eqI) simp
    then show False using \<open>ev \<noteq> 0\<close> by simp
  qed
  then obtain n where n: "bit ev n" by blast
  then have "n = 2 \<or> n = 3" using b [OF n] z and_read_bit [of ev] and_write_bit [of ev] by (auto simp: rw_bit eh)
  then have "bit (ev AND (BREACTOR_ERROR OR BREACTOR_HUP)) n" using n eh by (simp add: bit_and_iff)
  then show "ev AND (BREACTOR_ERROR OR BREACTOR_HUP) \<noteq> 0" by auto
qed

section \<open>Steps of the reactor\<close>

lemma set_events_step:
  assumes r: "refines s clk r" and m: "sp_monitored s p \<noteq> None"
  shows "\<exists>r'. BReactor_SetFileDescriptorEvents p (rw_events rd wr) r = Some r'
    \<and> refines (s\<lparr>sp_monitored := (sp_monitored s)(p \<mapsto> rw_events rd wr)\<rparr>) clk r'"
proof -
  obtain r' where r': "BReactor_SetFileDescriptorEvents p (rw_events rd wr) r = Some r'" "fds_only r r'"
    "fds_match (s\<lparr>sp_monitored := (sp_monitored s)(p \<mapsto> rw_events rd wr)\<rparr>) r'"
    using fds_match_events [OF refinesD(2) [OF r] m rw_valid] by blast
  have "refines (s\<lparr>sp_monitored := (sp_monitored s)(p \<mapsto> rw_events rd wr)\<rparr>) clk r'"
    by (rule refines_fds [OF r order_refl r'(2,3)]) simp_all
  then show ?thesis using r'(1) by blast
qed

lemma remove_fd_step:
  assumes r: "refines s clk r" and m: "sp_monitored s p \<noteq> None"
  shows "\<exists>r'. BReactor_RemoveFileDescriptor p r = Some r'
    \<and> refines (s\<lparr>sp_monitored := (sp_monitored s)(p := None), sp_reported := (sp_reported s)(p := None)\<rparr>) clk r'"
proof -
  let ?s = "s\<lparr>sp_monitored := (sp_monitored s)(p := None), sp_reported := (sp_reported s)(p := None)\<rparr>"
  obtain r' where r': "BReactor_RemoveFileDescriptor p r = Some r'" "fds_only r r'" "fds_match ?s r'"
    using fds_match_remove [OF refinesD(2) [OF r] m] by blast
  have "refines ?s clk r'" by (rule refines_fds [OF r order_refl r'(2,3)]) simp_all
  then show ?thesis using r'(1) by blast
qed

lemma limit_step:
  assumes r: "refines s clk r" and l: "l \<in> dom (sp_limit s)" and i: "BReactorLimit_Increment l r = (ok, r')"
  shows "\<exists>L. refines (s\<lparr>sp_limit := L\<rparr>) clk r' \<and> dom L = dom (sp_limit s) \<and> (\<forall>k. k \<noteq> l \<longrightarrow> L k = sp_limit s k) \<and> (\<not> ok \<longrightarrow> L = sp_limit s)"
proof -
  obtain n c where nc: "sp_limit s l = Some (n, c)" using l by auto
  let ?L = "if ok then (sp_limit s)(l \<mapsto> (n, c + 1)) else sp_limit s"
  note m = limits_match_increment [OF refinesD(3) [OF r] nc i]
  have e: "(if ok then s\<lparr>sp_limit := (sp_limit s)(l \<mapsto> (n, c + 1))\<rparr> else s) = s\<lparr>sp_limit := ?L\<rparr>" by simp
  have "refines (s\<lparr>sp_limit := ?L\<rparr>) clk r'"
    by (rule refines_limits [OF r order_refl m(2) m(3) [unfolded e]]) simp_all
  then show ?thesis using l by (intro exI [of _ ?L]) auto
qed

section \<open>What holds of a connection\<close>

definition conn_wf :: "BConnection \<Rightarrow> 'h reactor_spec \<Rightarrow> bool" where
  "conn_wf o1 s \<longleftrightarrow>
     (\<exists>h. sp_fd s (bc_bfd o1) = Some (bc_fd o1, h))
     \<and> sp_monitored s (bc_bfd o1) = (if bc_is_hupd o1 then None else Some (bc_wait_events o1))
     \<and> (\<exists>rd wr. bc_wait_events o1 = rw_events rd wr)
     \<and> bc_send_limit o1 \<in> dom (sp_limit s) \<and> bc_recv_limit o1 \<in> dom (sp_limit s) \<and> bc_send_limit o1 \<noteq> bc_recv_limit o1
     \<and> (bc_send_job o1 \<in> dom (sp_job s) \<longleftrightarrow> bc_send_state o1 \<noteq> SEND_STATE_NOT_INITED)
     \<and> (bc_recv_job o1 \<in> dom (sp_job s) \<longleftrightarrow> bc_recv_state o1 \<noteq> RECV_STATE_NOT_INITED)
     \<and> bc_send_job o1 \<noteq> bc_recv_job o1 \<and> bc_recv_state o1 \<noteq> RECV_STATE_NOT_INITED_CLOSED
     \<and> bc_send_job o1 \<notin> set (sp_pending s) \<and> (bc_recv_job o1 \<in> set (sp_pending s) \<longrightarrow> bc_recv_state o1 = RECV_STATE_BUSY)"

definition recv_waits :: "BConnection \<Rightarrow> 'h reactor_spec \<Rightarrow> bool" where
  "recv_waits o1 s \<longleftrightarrow> bc_recv_state o1 = RECV_STATE_BUSY \<and> bc_recv_job o1 \<notin> set (sp_pending s)"

definition waits_for :: "bool \<Rightarrow> u32 \<Rightarrow> bool \<Rightarrow> bool \<Rightarrow> bool" where
  "waits_for exact w rd wr \<longleftrightarrow> (\<exists>a b. w = rw_events a b \<and> (rd \<longrightarrow> a) \<and> (wr \<longrightarrow> b) \<and> (exact \<longrightarrow> a = rd \<and> b = wr))"

definition conn_live :: "bool \<Rightarrow> BConnection \<Rightarrow> 'h reactor_spec \<Rightarrow> bool" where
  "conn_live exact o1 s \<longleftrightarrow>
     (if bc_is_hupd o1 then bc_send_state o1 \<noteq> SEND_STATE_BUSY \<and> \<not> recv_waits o1 s
      else waits_for exact (bc_wait_events o1) (recv_waits o1 s) (bc_send_state o1 = SEND_STATE_BUSY))"

text \<open>
  What a handler does to the reactor: the descriptor of the connection, its limits, and if \<open>q\<close> its receive job. Nothing else
  of the specification changes.
\<close>

definition conn_changes :: "bool \<Rightarrow> BConnection \<Rightarrow> 'h reactor_spec \<Rightarrow> BConnection \<Rightarrow> 'h reactor_spec \<Rightarrow> bool" where
  "conn_changes q o1 s o2 s' \<longleftrightarrow>
     sp_timer s' = sp_timer s \<and> sp_armed s' = sp_armed s \<and> sp_fd s' = sp_fd s \<and> sp_job s' = sp_job s \<and> sp_exit s' = sp_exit s
     \<and> sp_monitored s' = (sp_monitored s)(bc_bfd o1 := if bc_is_hupd o2 then None else Some (bc_wait_events o2))
     \<and> sp_reported s' = (if bc_is_hupd o2 \<and> \<not> bc_is_hupd o1 then (sp_reported s)(bc_bfd o1 := None) else sp_reported s)
     \<and> dom (sp_limit s') = dom (sp_limit s)
     \<and> (\<forall>l. l \<noteq> bc_send_limit o1 \<and> l \<noteq> bc_recv_limit o1 \<longrightarrow> sp_limit s' l = sp_limit s l)
     \<and> sp_pending s' = (if q then job_set (bc_recv_job o1) (sp_pending s) else sp_pending s)"

text \<open>The addresses of its parts and its descriptor are fixed.\<close>

definition same_parts :: "BConnection \<Rightarrow> BConnection \<Rightarrow> bool" where
  "same_parts o1 o2 \<longleftrightarrow>
     bc_fd o2 = bc_fd o1 \<and> bc_bfd o2 = bc_bfd o1 \<and> bc_close_fd o2 = bc_close_fd o1 \<and> bc_send_limit o2 = bc_send_limit o1
     \<and> bc_recv_limit o2 = bc_recv_limit o1 \<and> bc_send_job o2 = bc_send_job o1 \<and> bc_recv_job o2 = bc_recv_job o1"

lemma conn_wfD:
  assumes "conn_wf o1 s"
  shows "bc_is_hupd o1 \<or> sp_monitored s (bc_bfd o1) = Some (bc_wait_events o1)" "\<exists>rd wr. bc_wait_events o1 = rw_events rd wr"
    "bc_send_limit o1 \<in> dom (sp_limit s)" "bc_recv_limit o1 \<in> dom (sp_limit s)"
    "sp_monitored s (bc_bfd o1) = (if bc_is_hupd o1 then None else Some (bc_wait_events o1))"
  using assms by (auto simp: conn_wf_def)

section \<open>Sending and receiving\<close>

text \<open>\<^verbatim>\<open>write\<close> and \<^verbatim>\<open>read\<close> return a positive number of bytes, no more than they were asked for.\<close>

definition write_ok :: "byte list \<Rightarrow> write_result \<Rightarrow> bool" where
  "write_ok data res \<longleftrightarrow> (case res of Wrote n \<Rightarrow> 0 < n \<and> n \<le> length data | _ \<Rightarrow> True)"

definition read_ok :: "nat \<Rightarrow> read_result \<Rightarrow> bool" where
  "read_ok avail res \<longleftrightarrow> (case res of Read_Bytes d \<Rightarrow> length d \<le> avail | _ \<Rightarrow> True)"

definition send_outcome :: "write_result \<Rightarrow> BConnection \<Rightarrow> BConnection \<Rightarrow> connection_call list \<Rightarrow> bool" where
  "send_outcome res o1 o2 cs \<longleftrightarrow>
     \<not> bc_is_hupd o1 \<and> o2 = o1\<lparr>bc_wait_events := bc_wait_events o1 OR BREACTOR_WRITE\<rparr> \<and> cs = []
     \<or> (\<exists>n. res = Wrote n \<and> o2 = o1\<lparr>bc_send_state := SEND_STATE_READY\<rparr> \<and> cs = [BC_Written (take n (bc_send_busy_data o1)), BC_Send_Done n])
     \<or> o2 = o1 \<and> cs = [BC_Error]"

definition recv_outcome :: "read_result \<Rightarrow> BConnection \<Rightarrow> BConnection \<Rightarrow> connection_call list \<Rightarrow> bool" where
  "recv_outcome res o1 o2 cs \<longleftrightarrow>
     \<not> bc_is_hupd o1 \<and> o2 = o1\<lparr>bc_wait_events := bc_wait_events o1 OR BREACTOR_READ\<rparr> \<and> cs = []
     \<or> (\<exists>d. res = Read_Bytes d \<and> d \<noteq> [] \<and> o2 = o1\<lparr>bc_recv_state := RECV_STATE_READY\<rparr> \<and> cs = [BC_Recv_Done d])
     \<or> res = Read_Bytes [] \<and> o2 = o1\<lparr>bc_recv_state := RECV_STATE_INITED_CLOSED\<rparr> \<and> cs = [BC_Recv_Closed]
     \<or> o2 = o1 \<and> cs = [BC_Error]"

text \<open>The state of the reactor may already differ from \<open>s\<close> in what the connection has changed.\<close>

definition conn_at :: "bool \<Rightarrow> BConnection \<Rightarrow> 'h reactor_spec \<Rightarrow> int \<Rightarrow> BConnection \<Rightarrow> 'h BReactor \<Rightarrow> bool" where
  "conn_at q o1 s clk o2 r \<longleftrightarrow> (\<exists>s'. refines s' clk r \<and> conn_changes q o1 s o2 s') \<and> same_parts o1 o2
     \<and> bc_send_limit o1 \<in> dom (sp_limit s) \<and> bc_recv_limit o1 \<in> dom (sp_limit s) \<and> (\<exists>rd wr. bc_wait_events o2 = rw_events rd wr)"

lemma conn_at_start: "refines s clk r \<Longrightarrow> conn_wf o1 s \<Longrightarrow> conn_at False o1 s clk o1 r"
proof -
  assume r: "refines s clk r" and w: "conn_wf o1 s"
  note W = conn_wfD [OF w]
  have "conn_changes False o1 s o1 s"
    unfolding conn_changes_def using W(5) by (simp add: fun_upd_idem)
  then show ?thesis using r W by (auto simp: conn_at_def same_parts_def)
qed

lemma conn_atE:
  assumes "conn_at q o1 s clk o2 r"
  obtains s' where "refines s' clk r" "conn_changes q o1 s o2 s'" "same_parts o1 o2"
    "sp_monitored s' (bc_bfd o2) = (if bc_is_hupd o2 then None else Some (bc_wait_events o2))"
    "bc_send_limit o2 \<in> dom (sp_limit s')" "bc_recv_limit o2 \<in> dom (sp_limit s')"
proof -
  obtain s' where s': "refines s' clk r" "conn_changes q o1 s o2 s'" and p: "same_parts o1 o2"
    "bc_send_limit o1 \<in> dom (sp_limit s)" "bc_recv_limit o1 \<in> dom (sp_limit s)"
    using assms by (auto simp: conn_at_def)
  have d: "dom (sp_limit s') = dom (sp_limit s)" "sp_monitored s' (bc_bfd o2) = (if bc_is_hupd o2 then None else Some (bc_wait_events o2))"
    using s'(2) p(1) by (simp_all add: conn_changes_def same_parts_def)
  show ?thesis by (rule that [OF s' p(1) d(2)]) (use p d(1) in \<open>simp_all add: same_parts_def\<close>)
qed

lemma conn_at_state:
  "conn_at q o1 s clk o2 r \<Longrightarrow> bc_is_hupd o3 = bc_is_hupd o2 \<Longrightarrow> bc_wait_events o3 = bc_wait_events o2 \<Longrightarrow> same_parts o2 o3 \<Longrightarrow>
    conn_at q o1 s clk o3 r"
proof -
  assume a: "conn_at q o1 s clk o2 r" and e: "bc_is_hupd o3 = bc_is_hupd o2" "bc_wait_events o3 = bc_wait_events o2" "same_parts o2 o3"
  have "conn_changes q o1 s o3 s' = conn_changes q o1 s o2 s'" for s' by (simp add: conn_changes_def e(1,2))
  moreover have "same_parts o1 o2 \<Longrightarrow> same_parts o1 o3" using e(3) by (simp add: same_parts_def)
  ultimately show ?thesis using a by (simp add: conn_at_def e(2))
qed

lemma conn_at_events:
  assumes a: "conn_at q o1 s clk o2 r" and n: "\<not> bc_is_hupd o2"
  shows "\<exists>r'. BReactor_SetFileDescriptorEvents (bc_bfd o2) (rw_events rd wr) r = Some r'
    \<and> conn_at q o1 s clk (o2\<lparr>bc_wait_events := rw_events rd wr\<rparr>) r'"
proof -
  from a obtain s' where s': "refines s' clk r" "conn_changes q o1 s o2 s'" "same_parts o1 o2"
    "sp_monitored s' (bc_bfd o2) = Some (bc_wait_events o2)" by (rule conn_atE) (use n in auto)
  obtain r' where r': "BReactor_SetFileDescriptorEvents (bc_bfd o2) (rw_events rd wr) r = Some r'"
    "refines (s'\<lparr>sp_monitored := (sp_monitored s')(bc_bfd o2 \<mapsto> rw_events rd wr)\<rparr>) clk r'"
    using set_events_step [OF s'(1), of "bc_bfd o2" rd wr] s'(4) by auto
  have "conn_changes q o1 s (o2\<lparr>bc_wait_events := rw_events rd wr\<rparr>) (s'\<lparr>sp_monitored := (sp_monitored s')(bc_bfd o2 \<mapsto> rw_events rd wr)\<rparr>)"
    using s'(2,3) n by (simp add: conn_changes_def same_parts_def)
  then have "conn_at q o1 s clk (o2\<lparr>bc_wait_events := rw_events rd wr\<rparr>) r'"
    using r'(2) a by (auto simp: conn_at_def same_parts_def)
  then show ?thesis using r'(1) by blast
qed

lemma conn_at_limit:
  assumes a: "conn_at q o1 s clk o2 r" and l: "l = bc_send_limit o2 \<or> l = bc_recv_limit o2" and t: "take_limit l o2 r = (ok, r')"
  shows "conn_at q o1 s clk o2 r'" "bc_is_hupd o2 \<Longrightarrow> ok"
proof -
  show "bc_is_hupd o2 \<Longrightarrow> ok" using t by (simp add: take_limit_def)
  show "conn_at q o1 s clk o2 r'"
  proof (cases "bc_is_hupd o2")
    case True
    then show ?thesis using a t by (simp add: take_limit_def)
  next
    case False
    from a obtain s' where s': "refines s' clk r" "conn_changes q o1 s o2 s'" "same_parts o1 o2" "l \<in> dom (sp_limit s')"
      by (rule conn_atE) (use l in auto)
    have i: "BReactorLimit_Increment l r = (ok, r')" using t False by (simp add: take_limit_def)
    obtain L where L: "refines (s'\<lparr>sp_limit := L\<rparr>) clk r'" "dom L = dom (sp_limit s')" "\<forall>k. k \<noteq> l \<longrightarrow> L k = sp_limit s' k"
      using limit_step [OF s'(1,4) i] by blast
    have "bc_send_limit o2 = bc_send_limit o1" "bc_recv_limit o2 = bc_recv_limit o1" using s'(3) by (simp_all add: same_parts_def)
    then have "L k = sp_limit s k" if "k \<noteq> bc_send_limit o1 \<and> k \<noteq> bc_recv_limit o1" for k
      using that s'(2) L(3) l unfolding conn_changes_def by metis
    then have "conn_changes q o1 s o2 (s'\<lparr>sp_limit := L\<rparr>)"
      using s'(2) L(2) unfolding conn_changes_def by simp
    then show ?thesis using L(1) a by (auto simp: conn_at_def)
  qed
qed

lemma conn_at_wait_for:
  assumes a: "conn_at q o1 s clk o2 r" and n: "\<not> bc_is_hupd o2" and e: "ev = BREACTOR_READ \<or> ev = BREACTOR_WRITE"
  shows "\<exists>r'. wait_for_fd ev o2 r = Some (o2\<lparr>bc_wait_events := bc_wait_events o2 OR ev\<rparr>, r', [])
    \<and> conn_at q o1 s clk (o2\<lparr>bc_wait_events := bc_wait_events o2 OR ev\<rparr>) r'"
proof -
  obtain rd wr where "bc_wait_events o2 = rw_events rd wr" using a by (auto simp: conn_at_def)
  then obtain rd' wr' where w: "bc_wait_events o2 OR ev = rw_events rd' wr'" using e rw_add by metis
  show ?thesis using conn_at_events [OF a n, of rd' wr'] by (auto simp: wait_for_fd_def w)
qed

lemma same_parts_simps [simp]:
  "same_parts o1 o1" "same_parts o1 (o1\<lparr>bc_wait_events := w\<rparr>)" "same_parts o1 (o1\<lparr>bc_send_state := x\<rparr>)"
  "same_parts o1 (o1\<lparr>bc_recv_state := y\<rparr>)" "same_parts o1 (o1\<lparr>bc_is_hupd := b\<rparr>)"
  by (simp_all add: same_parts_def)

lemma connection_send_step:
  assumes a: "conn_at q o1 s clk o2 r" and b: "bc_send_state o2 = SEND_STATE_BUSY" and w: "write_ok (bc_send_busy_data o2) res"
  shows "\<exists>o3 r3 cs. connection_send res o2 r = Some (o3, r3, cs) \<and> conn_at q o1 s clk o3 r3 \<and> send_outcome res o2 o3 cs"
proof -
  obtain ok r1 where t: "take_limit (bc_send_limit o2) o2 r = (ok, r1)" by (cases "take_limit (bc_send_limit o2) o2 r")
  note l = conn_at_limit [OF a _ t, simplified]
  have wait: "\<not> bc_is_hupd o2 \<Longrightarrow> ?thesis" if "connection_send res o2 r = wait_for_fd BREACTOR_WRITE o2 r1"
    using conn_at_wait_for [OF l(1), of BREACTOR_WRITE] unfolding that send_outcome_def by blast
  have err: ?thesis if "connection_send res o2 r = connection_report_error o2 r1"
    using l(1) that by (auto simp: connection_report_error_def send_outcome_def)
  show ?thesis
  proof (cases ok)
    case False
    then have n: "\<not> bc_is_hupd o2" using l(2) by blast
    have "connection_send res o2 r = wait_for_fd BREACTOR_WRITE o2 r1" using False b t by (simp add: connection_send_def)
    then show ?thesis using wait n by blast
  next
    case True
    show ?thesis
    proof (cases res)
      case (Wrote n)
      have "conn_at q o1 s clk (o2\<lparr>bc_send_state := SEND_STATE_READY\<rparr>) r1" by (rule conn_at_state [OF l(1)]) simp_all
      then show ?thesis using True Wrote w b t by (auto simp: connection_send_def write_ok_def send_outcome_def)
    next
      case Write_Again
      then show ?thesis using True wait err b t by (cases "bc_is_hupd o2") (simp_all add: connection_send_def)
    next
      case Write_Error
      then show ?thesis using True err b t by (simp add: connection_send_def)
    qed
  qed
qed

lemma connection_recv_step:
  assumes a: "conn_at q o1 s clk o2 r" and b: "bc_recv_state o2 = RECV_STATE_BUSY" and w: "read_ok (bc_recv_busy_data_avail o2) res"
  shows "\<exists>o3 r3 cs. connection_recv res o2 r = Some (o3, r3, cs) \<and> conn_at q o1 s clk o3 r3 \<and> recv_outcome res o2 o3 cs"
proof -
  obtain ok r1 where t: "take_limit (bc_recv_limit o2) o2 r = (ok, r1)" by (cases "take_limit (bc_recv_limit o2) o2 r")
  note l = conn_at_limit [OF a _ t, simplified]
  have wait: "\<not> bc_is_hupd o2 \<Longrightarrow> ?thesis" if "connection_recv res o2 r = wait_for_fd BREACTOR_READ o2 r1"
    using conn_at_wait_for [OF l(1), of BREACTOR_READ] unfolding that recv_outcome_def by blast
  have err: ?thesis if "connection_recv res o2 r = connection_report_error o2 r1"
    using l(1) that by (auto simp: connection_report_error_def recv_outcome_def)
  have st: "conn_at q o1 s clk (o2\<lparr>bc_recv_state := x\<rparr>) r1" for x by (rule conn_at_state [OF l(1)]) simp_all
  show ?thesis
  proof (cases ok)
    case False
    then have n: "\<not> bc_is_hupd o2" using l(2) by blast
    have "connection_recv res o2 r = wait_for_fd BREACTOR_READ o2 r1" using False b t by (simp add: connection_recv_def)
    then show ?thesis using wait n by blast
  next
    case True
    show ?thesis
    proof (cases res)
      case (Read_Bytes d)
      then show ?thesis using True w b t st by (auto simp: connection_recv_def read_ok_def recv_outcome_def)
    next
      case Read_Again
      then show ?thesis using True wait err b t by (cases "bc_is_hupd o2") (simp_all add: connection_recv_def)
    next
      case Read_Error
      then show ?thesis using True err b t by (simp add: connection_recv_def)
    qed
  qed
qed

lemma conn_at_hup:
  assumes a: "conn_at False o1 s clk o2 r" and n: "\<not> bc_is_hupd o2" "\<not> bc_is_hupd o1"
  shows "\<exists>r'. BReactor_RemoveFileDescriptor (bc_bfd o2) r = Some r' \<and> conn_at False o1 s clk (o2\<lparr>bc_is_hupd := True\<rparr>) r'"
proof -
  from a obtain s' where s': "refines s' clk r" "conn_changes False o1 s o2 s'" "same_parts o1 o2"
    "sp_monitored s' (bc_bfd o2) = Some (bc_wait_events o2)" by (rule conn_atE) (use n in auto)
  obtain r' where r': "BReactor_RemoveFileDescriptor (bc_bfd o2) r = Some r'"
    "refines (s'\<lparr>sp_monitored := (sp_monitored s')(bc_bfd o2 := None), sp_reported := (sp_reported s')(bc_bfd o2 := None)\<rparr>) clk r'"
    using remove_fd_step [OF s'(1), of "bc_bfd o2"] s'(4) by auto
  have "conn_changes False o1 s (o2\<lparr>bc_is_hupd := True\<rparr>)
      (s'\<lparr>sp_monitored := (sp_monitored s')(bc_bfd o2 := None), sp_reported := (sp_reported s')(bc_bfd o2 := None)\<rparr>)"
    using s'(2,3) n by (auto simp: conn_changes_def same_parts_def)
  then have "conn_at False o1 s clk (o2\<lparr>bc_is_hupd := True\<rparr>) r'"
    using r'(2) a by (auto simp: conn_at_def same_parts_def)
  then show ?thesis using r'(1) by blast
qed

lemma conn_at_job:
  assumes a: "conn_at False o1 s clk o2 r" and j: "bc_recv_job o1 \<in> dom (sp_job s)"
  shows "conn_at True o1 s clk o2 (on_jobs (BPending_Set (bc_recv_job o2)) r)"
proof -
  from a obtain s' where s': "refines s' clk r" "conn_changes False o1 s o2 s'" "same_parts o1 o2" by (rule conn_atE)
  have "bc_recv_job o2 \<in> dom (sp_job s')" using s'(2,3) j by (auto simp: conn_changes_def same_parts_def)
  from jobs_refine(2) [OF s'(1) order_refl this]
  have "refines (s'\<lparr>sp_pending := job_set (bc_recv_job o2) (sp_pending s')\<rparr>) clk (on_jobs (BPending_Set (bc_recv_job o2)) r)"
    by (simp add: on_jobs_def)
  moreover have "conn_changes True o1 s o2 (s'\<lparr>sp_pending := job_set (bc_recv_job o2) (sp_pending s')\<rparr>)"
    using s'(2,3) by (auto simp: conn_changes_def same_parts_def)
  ultimately show ?thesis using a by (auto simp: conn_at_def)
qed

section \<open>The descriptor handler\<close>

definition have_send :: "u32 \<Rightarrow> BConnection \<Rightarrow> bool" where
  "have_send ev o1 \<longleftrightarrow> ev AND BREACTOR_WRITE \<noteq> 0 \<or> ev AND (BREACTOR_ERROR OR BREACTOR_HUP) \<noteq> 0 \<and> bc_send_state o1 = SEND_STATE_BUSY"

definition have_recv :: "u32 \<Rightarrow> BConnection \<Rightarrow> bool" where
  "have_recv ev o1 \<longleftrightarrow> ev AND BREACTOR_READ \<noteq> 0 \<or> ev AND (BREACTOR_ERROR OR BREACTOR_HUP) \<noteq> 0 \<and> bc_recv_state o1 = RECV_STATE_BUSY"

definition after_event :: "u32 \<Rightarrow> BConnection \<Rightarrow> BConnection" where
  "after_event ev o1 = o1\<lparr>bc_wait_events := bc_wait_events o1 AND NOT ev, bc_is_hupd := (ev AND BREACTOR_HUP \<noteq> 0)\<rparr>"

definition fd_outcome :: "u32 \<Rightarrow> write_result \<Rightarrow> read_result \<Rightarrow> BConnection \<Rightarrow> BConnection \<Rightarrow> connection_call list \<Rightarrow> bool" where
  "fd_outcome ev wres rres o1 o2 cs \<longleftrightarrow>
     (if have_send ev o1 then send_outcome wres (after_event ev o1) o2 cs
      else if have_recv ev o1 then recv_outcome rres (after_event ev o1) o2 cs
      else o2 = after_event ev o1 \<and> cs = (if bc_is_hupd o2 then [] else [BC_Error]))"

text \<open>The assertions of the handler: it serves only operations that are pending.\<close>

definition fd_asserts :: "u32 \<Rightarrow> BConnection \<Rightarrow> bool" where
  "fd_asserts ev o1 \<longleftrightarrow> (have_send ev o1 \<longrightarrow> bc_send_state o1 = SEND_STATE_BUSY) \<and> (have_recv ev o1 \<longrightarrow> bc_recv_state o1 = RECV_STATE_BUSY)"

lemma fd_handler_asserts: "connection_fd_handler ev wres rres o1 r = Some x \<Longrightarrow> fd_asserts ev o1"
  by (auto simp: connection_fd_handler_def fd_asserts_def have_send_def have_recv_def Let_def split: if_splits bind_splits)

lemma monitored_conn:
  assumes "conn_wf o1 s" "sp_monitored s (bc_bfd o1) = Some w"
  shows "\<not> bc_is_hupd o1" "w = bc_wait_events o1"
  using assms by (auto simp: conn_wf_def split: if_splits)

lemma conn_live_asserts:
  assumes "conn_wf o1 s" "conn_live True o1 s" "sp_monitored s (bc_bfd o1) = Some w" "reported_for w ev"
  shows "fd_asserts ev o1"
proof -
  note m = monitored_conn [OF assms(1,3)]
  have w: "w = rw_events (recv_waits o1 s) (bc_send_state o1 = SEND_STATE_BUSY)"
    using assms(2) m by (auto simp: conn_live_def waits_for_def)
  note ev = reported_rw [OF assms(4) [unfolded w]]
  show ?thesis unfolding fd_asserts_def have_send_def have_recv_def using ev(1,2) unfolding recv_waits_def by blast
qed

lemma fd_handler_step:
  assumes r: "refines s clk r" and wf: "conn_wf o1 s" and as: "fd_asserts ev o1"
    and m: "sp_monitored s (bc_bfd o1) = Some w" "reported_for w ev"
    and res: "write_ok (bc_send_busy_data o1) wres" "read_ok (bc_recv_busy_data_avail o1) rres"
  shows "\<exists>o2 r2 cs. connection_fd_handler ev wres rres o1 r = Some (o2, r2, cs)
    \<and> conn_at (have_send ev o1 \<and> have_recv ev o1) o1 s clk o2 r2 \<and> fd_outcome ev wres rres o1 o2 cs"
proof -
  have ev: "\<not> bc_is_hupd o1" "have_send ev o1 \<Longrightarrow> bc_send_state o1 = SEND_STATE_BUSY" "have_recv ev o1 \<Longrightarrow> bc_recv_state o1 = RECV_STATE_BUSY"
    using monitored_conn(1) [OF wf m(1)] as by (simp_all add: fd_asserts_def)
  obtain rd wr where w: "bc_wait_events o1 = rw_events rd wr" using conn_wfD(2) [OF wf] by blast
  then obtain rd' wr' where w': "bc_wait_events o1 AND NOT ev = rw_events rd' wr'" using rw_clear by metis
  let ?o1 = "o1\<lparr>bc_wait_events := bc_wait_events o1 AND NOT ev\<rparr>"
  obtain r1 where r1: "BReactor_SetFileDescriptorEvents (bc_bfd o1) (bc_wait_events o1 AND NOT ev) r = Some r1"
    "conn_at False o1 s clk ?o1 r1"
    using conn_at_events [OF conn_at_start [OF r wf] ev(1), of rd' wr'] unfolding w' by blast
  have "\<exists>r2. (if ev AND BREACTOR_HUP \<noteq> 0
      then do { r \<leftarrow> BReactor_RemoveFileDescriptor (bc_bfd ?o1) r1; Some (?o1\<lparr>bc_is_hupd := True\<rparr>, r) }
      else Some (?o1, r1)) = Some (after_event ev o1, r2) \<and> conn_at False o1 s clk (after_event ev o1) r2"
  proof (cases "ev AND BREACTOR_HUP \<noteq> 0")
    case True
    have "after_event ev o1 = ?o1\<lparr>bc_is_hupd := True\<rparr>" using True by (simp add: after_event_def)
    then show ?thesis using conn_at_hup [OF r1(2) _ ev(1)] True ev(1) by auto
  next
    case False
    have "after_event ev o1 = ?o1" using False ev(1) by (simp add: after_event_def)
    then show ?thesis using r1(2) False by simp
  qed
  then obtain r2 where r2: "(if ev AND BREACTOR_HUP \<noteq> 0
      then do { r \<leftarrow> BReactor_RemoveFileDescriptor (bc_bfd ?o1) r1; Some (?o1\<lparr>bc_is_hupd := True\<rparr>, r) }
      else Some (?o1, r1)) = Some (after_event ev o1, r2)" "conn_at False o1 s clk (after_event ev o1) r2" by blast
  let ?o2 = "after_event ev o1"
  have same: "bc_send_state ?o2 = bc_send_state o1" "bc_recv_state ?o2 = bc_recv_state o1"
    "bc_recv_job ?o2 = bc_recv_job o1" "bc_send_busy_data ?o2 = bc_send_busy_data o1"
    "bc_recv_busy_data_avail ?o2 = bc_recv_busy_data_avail o1" by (simp_all add: after_event_def)
  have fd: "connection_fd_handler ev wres rres o1 r =
      (if have_send ev o1 then connection_send wres ?o2 (if have_recv ev o1 then on_jobs (BPending_Set (bc_recv_job ?o2)) r2 else r2)
       else if have_recv ev o1 then connection_recv rres ?o2 r2
       else if \<not> bc_is_hupd ?o2 then connection_report_error ?o2 r2
       else Some (?o2, r2, []))"
    using ev(1-3) r1(1) r2(1) by (simp add: connection_fd_handler_def same have_send_def have_recv_def del: bit.conj_disj_distrib)
  show ?thesis
  proof (cases "have_send ev o1")
    case True
    have b: "bc_send_state ?o2 = SEND_STATE_BUSY" using ev(2) [OF True] same by simp
    have "\<exists>r3. r3 = (if have_recv ev o1 then on_jobs (BPending_Set (bc_recv_job ?o2)) r2 else r2)
        \<and> conn_at (have_send ev o1 \<and> have_recv ev o1) o1 s clk ?o2 r3"
    proof (cases "have_recv ev o1")
      case hr: True
      have "bc_recv_job o1 \<in> dom (sp_job s)" using wf ev(3) [OF hr] by (simp add: conn_wf_def)
      then show ?thesis using conn_at_job [OF r2(2)] hr True by simp
    qed (use r2(2) in simp)
    then obtain r3 where r3: "r3 = (if have_recv ev o1 then on_jobs (BPending_Set (bc_recv_job ?o2)) r2 else r2)"
      "conn_at (have_send ev o1 \<and> have_recv ev o1) o1 s clk ?o2 r3" by blast
    show ?thesis
      using connection_send_step [OF r3(2) b, of wres] res(1) same True unfolding fd r3(1) [symmetric] fd_outcome_def by auto
  next
    case ns: False
    show ?thesis
    proof (cases "have_recv ev o1")
      case True
      have b: "bc_recv_state ?o2 = RECV_STATE_BUSY" using ev(3) [OF True] same by simp
      show ?thesis
        using connection_recv_step [OF r2(2) b, of rres] res(2) same True ns unfolding fd fd_outcome_def by auto
    next
      case False
      show ?thesis
        using ns False r2(2) unfolding fd fd_outcome_def connection_report_error_def by auto
    qed
  qed
qed

end
