(* ===== verification/Connection_Safety.thy ===== *)
theory Connection_Safety
  imports Connection_Run
begin

text \<open>
  What the users of a connection can rely on, over whole runs: \<open>conn_run\<close> interleaves the operations of one connection, called as the
  interfaces and the reactor promise, with whatever else happens on the same reactor. A run records what was asked of the
  connection and what it did, and every error the reactor reported alone (\<open>Bare_Error\<close>), without a hangup and without the
  readiness the descriptor was monitored for: the handler then serves the pending operations but leaves their events
  registered. The properties: the pending operations are waited for, and after no such error nothing else is and no call
  fails; the bytes written are those whose sending was confirmed.
\<close>

section \<open>Operations\<close>

text \<open>The operations of the user, the interfaces and the reactor, with the results of the system calls they make.\<close>

datatype 'h conn_op =
    Init_Send 'h | Init_Recv 'h | Free_Send | Free_Recv
  | Send "byte list" write_result | Recv nat read_result
  | FD_Event u32 write_result read_result | Recv_Job read_result

definition conn_do :: "'h conn_op \<Rightarrow> BConnection \<Rightarrow> 'h BReactor \<Rightarrow> 'h connection_result" where
  "conn_do a o1 r = (case a of
     Init_Send h \<Rightarrow> map_option (\<lambda>(o2, r). (o2, r, [])) (BConnection_SendAsync_Init h o1 r)
   | Init_Recv h \<Rightarrow> map_option (\<lambda>(o2, r). (o2, r, [])) (BConnection_RecvAsync_Init h o1 r)
   | Free_Send \<Rightarrow> map_option (\<lambda>(o2, r). (o2, r, [])) (BConnection_SendAsync_Free o1 r)
   | Free_Recv \<Rightarrow> map_option (\<lambda>(o2, r). (o2, r, [])) (BConnection_RecvAsync_Free o1 r)
   | Send data res \<Rightarrow> connection_send_if_handler_send data res o1 r
   | Recv n res \<Rightarrow> connection_recv_if_handler_recv n res o1 r
   | FD_Event ev wres rres \<Rightarrow> connection_fd_handler ev wres rres o1 r
   | Recv_Job res \<Rightarrow> do {
       (g, h) \<leftarrow> BPendingGroup_ExecuteJob (rc_pending_jobs r);
       connection_recv_job_handler res o1 (r\<lparr>rc_pending_jobs := g\<rparr>)
     })"

text \<open>
  When they may be called. The reactor calls the descriptor handler with an event that is monitored, an error or a hangup, when no job
  is pending.
\<close>

definition conn_allowed :: "'h conn_op \<Rightarrow> BConnection \<Rightarrow> 'h reactor_spec \<Rightarrow> bool" where
  "conn_allowed a o1 s \<longleftrightarrow> (case a of
     Init_Send h \<Rightarrow> bc_send_state o1 = SEND_STATE_NOT_INITED
   | Init_Recv h \<Rightarrow> bc_recv_state o1 = RECV_STATE_NOT_INITED
   | Free_Send \<Rightarrow> bc_send_state o1 \<noteq> SEND_STATE_NOT_INITED
   | Free_Recv \<Rightarrow> bc_recv_state o1 \<noteq> RECV_STATE_NOT_INITED
   | Send data res \<Rightarrow> bc_send_state o1 = SEND_STATE_READY \<and> data \<noteq> [] \<and> write_ok data res
   | Recv n res \<Rightarrow> bc_recv_state o1 = RECV_STATE_READY \<and> 0 < n \<and> read_ok n res
   | FD_Event ev wres rres \<Rightarrow> sp_pending s = []
       \<and> (\<exists>w. sp_monitored s (bc_bfd o1) = Some w \<and> reported_for w ev)
       \<and> write_ok (bc_send_busy_data o1) wres \<and> read_ok (bc_recv_busy_data_avail o1) rres
   | Recv_Job res \<Rightarrow> (\<exists>js. sp_pending s = bc_recv_job o1 # js) \<and> read_ok (bc_recv_busy_data_avail o1) res)"

text \<open>What they do to the reactor.\<close>

definition freed :: "nat \<Rightarrow> BConnection \<Rightarrow> BConnection \<Rightarrow> 'h reactor_spec \<Rightarrow> 'h reactor_spec" where
  "freed j o1 o2 s = s\<lparr>sp_monitored := (if bc_is_hupd o1 then sp_monitored s else (sp_monitored s)(bc_bfd o1 \<mapsto> bc_wait_events o2)),
     sp_job := (sp_job s)(j := None), sp_pending := job_unset j (sp_pending s)\<rparr>"

definition conn_effect :: "'h conn_op \<Rightarrow> BConnection \<Rightarrow> 'h reactor_spec \<Rightarrow> BConnection \<Rightarrow> 'h reactor_spec \<Rightarrow> bool" where
  "conn_effect a o1 s o2 s' \<longleftrightarrow> (case a of
     Init_Send h \<Rightarrow> s' = s\<lparr>sp_job := (sp_job s)(bc_send_job o1 \<mapsto> h)\<rparr>
   | Init_Recv h \<Rightarrow> s' = s\<lparr>sp_job := (sp_job s)(bc_recv_job o1 \<mapsto> h)\<rparr>
   | Free_Send \<Rightarrow> s' = freed (bc_send_job o1) o1 o2 s
   | Free_Recv \<Rightarrow> s' = freed (bc_recv_job o1) o1 o2 s
   | Send data res \<Rightarrow> conn_changes False o1 s o2 s'
   | Recv n res \<Rightarrow> conn_changes False o1 s o2 s'
   | FD_Event ev wres rres \<Rightarrow> conn_changes (have_send ev o1 \<and> have_recv ev o1) o1 s o2 s'
   | Recv_Job res \<Rightarrow> conn_changes False o1 (s\<lparr>sp_pending := tl (sp_pending s)\<rparr>) o2 s')"

text \<open>What they do to the connection, and what the connection does.\<close>

definition asked_send :: "byte list \<Rightarrow> BConnection \<Rightarrow> BConnection" where
  "asked_send data o1 = o1\<lparr>bc_send_busy_data := data, bc_send_state := SEND_STATE_BUSY\<rparr>"

definition asked_recv :: "nat \<Rightarrow> BConnection \<Rightarrow> BConnection" where
  "asked_recv n o1 = o1\<lparr>bc_recv_busy_data_avail := n, bc_recv_state := RECV_STATE_BUSY\<rparr>"

definition unwait :: "u32 \<Rightarrow> BConnection \<Rightarrow> BConnection" where
  "unwait ev o1 = (if bc_is_hupd o1 then o1 else o1\<lparr>bc_wait_events := bc_wait_events o1 AND NOT ev\<rparr>)"

definition conn_outcome :: "'h conn_op \<Rightarrow> BConnection \<Rightarrow> BConnection \<Rightarrow> connection_call list \<Rightarrow> bool" where
  "conn_outcome a o1 o2 cs \<longleftrightarrow> (case a of
     Init_Send h \<Rightarrow> o2 = o1\<lparr>bc_send_state := SEND_STATE_READY\<rparr> \<and> cs = []
   | Init_Recv h \<Rightarrow> o2 = o1\<lparr>bc_recv_state := RECV_STATE_READY\<rparr> \<and> cs = []
   | Free_Send \<Rightarrow> o2 = (unwait BREACTOR_WRITE o1)\<lparr>bc_send_state := SEND_STATE_NOT_INITED\<rparr> \<and> cs = []
   | Free_Recv \<Rightarrow> o2 = (unwait BREACTOR_READ o1)\<lparr>bc_recv_state := RECV_STATE_NOT_INITED\<rparr> \<and> cs = []
   | Send data res \<Rightarrow> send_outcome res (asked_send data o1) o2 cs
   | Recv n res \<Rightarrow> recv_outcome res (asked_recv n o1) o2 cs
   | FD_Event ev wres rres \<Rightarrow> fd_outcome ev wres rres o1 o2 cs
   | Recv_Job res \<Rightarrow> recv_outcome res o1 o2 cs)"

text \<open>An error reported alone; the assertions of the operations, which only the descriptor handler can fail.\<close>

definition bare_error :: "u32 \<Rightarrow> BConnection \<Rightarrow> bool" where
  "bare_error ev o1 \<longleftrightarrow> ev AND BREACTOR_ERROR \<noteq> 0 \<and> ev AND BREACTOR_HUP = 0 \<and> bc_wait_events o1 AND NOT ev \<noteq> 0"

fun bare :: "'h conn_op \<Rightarrow> BConnection \<Rightarrow> bool" where
  "bare (FD_Event ev wres rres) o1 = bare_error ev o1"
| "bare _ o1 = False"

fun op_asserts :: "'h conn_op \<Rightarrow> BConnection \<Rightarrow> bool" where
  "op_asserts (FD_Event ev wres rres) o1 = fd_asserts ev o1"
| "op_asserts _ o1 = True"

lemma conn_do_asserts: "conn_do a o1 r = Some x \<Longrightarrow> op_asserts a o1"
  by (cases a; cases x) (auto simp: conn_do_def intro: fd_handler_asserts)

lemma live_asserts: "conn_wf o1 s \<Longrightarrow> conn_live True o1 s \<Longrightarrow> conn_allowed a o1 s \<Longrightarrow> op_asserts a o1"
  using conn_live_asserts by (cases a) (auto simp: conn_allowed_def)

section \<open>Every allowed operation whose assertions hold succeeds\<close>

lemma conn_at_free:
  assumes r: "refines s clk r" and wf: "conn_wf o1 s" and ev: "ev = BREACTOR_READ \<or> ev = BREACTOR_WRITE" and j: "j \<in> dom (sp_job s)"
  shows "\<exists>r'. drop_events ev o1 r = Some (unwait ev o1, r')
    \<and> refines (freed j o1 (unwait ev o1) s) clk (on_jobs (BPending_Free j) r')"
proof (cases "bc_is_hupd o1")
  case True
  then show ?thesis using jobs_refine(4) [OF r order_refl j] by (simp add: drop_events_def unwait_def freed_def on_jobs_def)
next
  case False
  obtain rd wr where "bc_wait_events o1 = rw_events rd wr" using conn_wfD(2) [OF wf] by blast
  then obtain rd' wr' where w: "bc_wait_events o1 AND NOT ev = rw_events rd' wr'" using rw_clear by metis
  have "sp_monitored s (bc_bfd o1) \<noteq> None" using conn_wfD(1) [OF wf] False by simp
  from set_events_step [OF r this, of rd' wr'] obtain r' where r': "BReactor_SetFileDescriptorEvents (bc_bfd o1) (rw_events rd' wr') r = Some r'"
    "refines (s\<lparr>sp_monitored := (sp_monitored s)(bc_bfd o1 \<mapsto> rw_events rd' wr')\<rparr>) clk r'" by blast
  then show ?thesis using jobs_refine(4) [OF r'(2) order_refl, of j] j False
    by (auto simp: drop_events_def unwait_def freed_def on_jobs_def w)
qed

lemma conn_op_step:
  assumes r: "refines s clk r" and wf: "conn_wf o1 s" and a: "conn_allowed a o1 s"
    and as: "op_asserts a o1"
  shows "\<exists>o2 r2 cs s2. conn_do a o1 r = Some (o2, r2, cs) \<and> refines s2 clk r2 \<and> conn_effect a o1 s o2 s2 \<and> conn_outcome a o1 o2 cs"
proof -
  have at: "conn_at False o1 s clk o1' r" if "bc_is_hupd o1' = bc_is_hupd o1" "bc_wait_events o1' = bc_wait_events o1" "same_parts o1 o1'" for o1'
    using conn_at_state [OF conn_at_start [OF r wf] that] .
  show ?thesis
  proof (cases a)
    case (Init_Send h)
    have "bc_send_job o1 \<notin> dom (sp_job s)" using wf a by (simp add: conn_wf_def conn_allowed_def Init_Send)
    from jobs_refine(1) [OF r order_refl this, of h] show ?thesis using a
      by (simp add: Init_Send conn_do_def conn_allowed_def conn_effect_def conn_outcome_def BConnection_SendAsync_Init_def init_job_def on_jobs_def)
  next
    case (Init_Recv h)
    have "bc_recv_job o1 \<notin> dom (sp_job s)" using wf a by (simp add: conn_wf_def conn_allowed_def Init_Recv)
    from jobs_refine(1) [OF r order_refl this, of h] show ?thesis using a
      by (simp add: Init_Recv conn_do_def conn_allowed_def conn_effect_def conn_outcome_def BConnection_RecvAsync_Init_def init_job_def on_jobs_def)
  next
    case Free_Send
    have "bc_send_job o1 \<in> dom (sp_job s)" using wf a by (simp add: conn_wf_def conn_allowed_def Free_Send)
    from conn_at_free [OF r wf _ this, of BREACTOR_WRITE] obtain r' where "drop_events BREACTOR_WRITE o1 r = Some (unwait BREACTOR_WRITE o1, r')"
      "refines (freed (bc_send_job o1) o1 (unwait BREACTOR_WRITE o1) s) clk (on_jobs (BPending_Free (bc_send_job o1)) r')" by blast
    moreover have "bc_send_state o1 = SEND_STATE_READY \<or> bc_send_state o1 = SEND_STATE_BUSY"
      using a by (cases "bc_send_state o1") (simp_all add: conn_allowed_def Free_Send)
    ultimately show ?thesis
      by (auto simp: Free_Send conn_do_def conn_effect_def conn_outcome_def BConnection_SendAsync_Free_def freed_def unwait_def)
  next
    case Free_Recv
    have "bc_recv_job o1 \<in> dom (sp_job s)" using wf a by (simp add: conn_wf_def conn_allowed_def Free_Recv)
    from conn_at_free [OF r wf _ this, of BREACTOR_READ] obtain r' where "drop_events BREACTOR_READ o1 r = Some (unwait BREACTOR_READ o1, r')"
      "refines (freed (bc_recv_job o1) o1 (unwait BREACTOR_READ o1) s) clk (on_jobs (BPending_Free (bc_recv_job o1)) r')" by blast
    moreover have "bc_recv_state o1 = RECV_STATE_READY \<or> bc_recv_state o1 = RECV_STATE_BUSY \<or> bc_recv_state o1 = RECV_STATE_INITED_CLOSED"
      using a wf by (cases "bc_recv_state o1") (simp_all add: conn_allowed_def Free_Recv conn_wf_def)
    ultimately show ?thesis
      by (auto simp: Free_Recv conn_do_def conn_effect_def conn_outcome_def BConnection_RecvAsync_Free_def freed_def unwait_def)
  next
    case (Send data res)
    have "conn_at False o1 s clk (asked_send data o1) r" by (rule at) (simp_all add: asked_send_def same_parts_def)
    from connection_send_step [OF this, of res] a show ?thesis
      by (auto simp: Send conn_do_def conn_allowed_def conn_effect_def conn_outcome_def connection_send_if_handler_send_def asked_send_def conn_at_def)
  next
    case (Recv n res)
    have "conn_at False o1 s clk (asked_recv n o1) r" by (rule at) (simp_all add: asked_recv_def same_parts_def)
    from connection_recv_step [OF this, of res] a show ?thesis
      by (auto simp: Recv conn_do_def conn_allowed_def conn_effect_def conn_outcome_def connection_recv_if_handler_recv_def asked_recv_def conn_at_def)
  next
    case (FD_Event ev wres rres)
    have l: "fd_asserts ev o1" using as by (simp add: FD_Event)
    obtain w where w: "sp_monitored s (bc_bfd o1) = Some w" "reported_for w ev" using a by (auto simp: conn_allowed_def FD_Event)
    from fd_handler_step [OF r wf l w, of wres rres] a show ?thesis
      by (auto simp: FD_Event conn_do_def conn_allowed_def conn_effect_def conn_outcome_def conn_at_def)
  next
    case (Recv_Job res)
    obtain js where js: "sp_pending s = bc_recv_job o1 # js" using a by (auto simp: conn_allowed_def Recv_Job)
    from exec_job_refines [OF r js order_refl] obtain g h where g: "BPendingGroup_ExecuteJob (rc_pending_jobs r) = Some (g, h)"
      "refines (s\<lparr>sp_pending := js\<rparr>) clk (r\<lparr>rc_pending_jobs := g\<rparr>)" by blast
    have b: "bc_recv_state o1 = RECV_STATE_BUSY" using wf js by (simp add: conn_wf_def)
    have "conn_wf o1 (s\<lparr>sp_pending := js\<rparr>)" using wf js unfolding conn_wf_def by (auto simp del: dom_def)
    from connection_recv_step [OF conn_at_start [OF g(2) this] b, of res] a show ?thesis
      using g(1) b js by (auto simp: Recv_Job conn_do_def conn_allowed_def conn_effect_def conn_outcome_def connection_recv_job_handler_def conn_at_def)
  qed
qed


section \<open>The invariants\<close>

lemma pending_distinct: "refines s clk r \<Longrightarrow> distinct (sp_pending s)"
  by (simp add: refines_def jobs_match_def pg_rep_def)

lemma asked_simps [simp]:
  "bc_wait_events (asked_send d o1) = bc_wait_events o1" "bc_is_hupd (asked_send d o1) = bc_is_hupd o1"
  "bc_send_state (asked_send d o1) = SEND_STATE_BUSY" "bc_recv_state (asked_send d o1) = bc_recv_state o1"
  "bc_send_busy_data (asked_send d o1) = d" "bc_recv_busy_data_avail (asked_send d o1) = bc_recv_busy_data_avail o1"
  "bc_wait_events (asked_recv n o1) = bc_wait_events o1" "bc_is_hupd (asked_recv n o1) = bc_is_hupd o1"
  "bc_recv_state (asked_recv n o1) = RECV_STATE_BUSY" "bc_send_state (asked_recv n o1) = bc_send_state o1"
  "bc_send_busy_data (asked_recv n o1) = bc_send_busy_data o1" "bc_recv_busy_data_avail (asked_recv n o1) = n"
  "same_parts o1 (asked_send d o1)" "same_parts o1 (asked_recv n o1)" "same_parts o1 (after_event ev o1)" "same_parts o1 (unwait ev o1)"
  by (simp_all add: asked_send_def asked_recv_def same_parts_def after_event_def unwait_def)

lemma unwait_simps [simp]:
  "bc_is_hupd (unwait ev o1) = bc_is_hupd o1" "bc_send_state (unwait ev o1) = bc_send_state o1"
  "bc_recv_state (unwait ev o1) = bc_recv_state o1" "bc_send_busy_data (unwait ev o1) = bc_send_busy_data o1"
  "bc_recv_busy_data_avail (unwait ev o1) = bc_recv_busy_data_avail o1"
  by (simp_all add: unwait_def)

lemma after_event_simps [simp]:
  "bc_send_state (after_event ev o1) = bc_send_state o1" "bc_recv_state (after_event ev o1) = bc_recv_state o1"
  "bc_send_busy_data (after_event ev o1) = bc_send_busy_data o1"
  "bc_recv_busy_data_avail (after_event ev o1) = bc_recv_busy_data_avail o1"
  "bc_wait_events (after_event ev o1) = bc_wait_events o1 AND NOT ev" "bc_is_hupd (after_event ev o1) = (ev AND BREACTOR_HUP \<noteq> 0)"
  by (simp_all add: after_event_def)

lemma same_parts_trans: "same_parts o1 o2 \<Longrightarrow> same_parts o2 o3 \<Longrightarrow> same_parts o1 o3"
  by (simp add: same_parts_def)

text \<open>What an outcome leaves of the connection.\<close>

lemma send_outcome_keeps:
  assumes "send_outcome res o1 o2 cs"
  shows "same_parts o1 o2" "bc_is_hupd o2 = bc_is_hupd o1" "bc_recv_state o2 = bc_recv_state o1"
    "bc_send_busy_data o2 = bc_send_busy_data o1" "bc_recv_busy_data_avail o2 = bc_recv_busy_data_avail o1"
    "bc_send_state o1 = SEND_STATE_BUSY \<Longrightarrow> bc_send_state o2 \<noteq> SEND_STATE_NOT_INITED"
    "bc_wait_events o1 = rw_events a b \<Longrightarrow> \<exists>c d. bc_wait_events o2 = rw_events c d"
  using assms by (auto simp: send_outcome_def rw_add)

lemma recv_outcome_keeps:
  assumes "recv_outcome res o1 o2 cs"
  shows "same_parts o1 o2" "bc_is_hupd o2 = bc_is_hupd o1" "bc_send_state o2 = bc_send_state o1"
    "bc_send_busy_data o2 = bc_send_busy_data o1" "bc_recv_busy_data_avail o2 = bc_recv_busy_data_avail o1"
    "bc_recv_state o1 = RECV_STATE_BUSY \<Longrightarrow> bc_recv_state o2 \<in> {RECV_STATE_READY, RECV_STATE_BUSY, RECV_STATE_INITED_CLOSED}"
    "bc_wait_events o1 = rw_events a b \<Longrightarrow> \<exists>c d. bc_wait_events o2 = rw_events c d"
  using assms by (auto simp: recv_outcome_def rw_add)

lemma wf_changes:
  assumes wf: "conn_wf o1 s" and c: "conn_changes q o1 s o2 s'" and p: "same_parts o1 o2" and d: "distinct (sp_pending s)"
    and st: "bc_send_state o2 = SEND_STATE_NOT_INITED \<longleftrightarrow> bc_send_state o1 = SEND_STATE_NOT_INITED"
      "bc_recv_state o2 = RECV_STATE_NOT_INITED \<longleftrightarrow> bc_recv_state o1 = RECV_STATE_NOT_INITED"
      "bc_recv_state o2 \<noteq> RECV_STATE_NOT_INITED_CLOSED"
    and e: "\<exists>rd wr. bc_wait_events o2 = rw_events rd wr"
    and j: "q \<or> bc_recv_job o1 \<in> set (sp_pending s) \<Longrightarrow> bc_recv_state o2 = RECV_STATE_BUSY"
  shows "conn_wf o2 s'"
proof -
  have P: "bc_fd o2 = bc_fd o1" "bc_bfd o2 = bc_bfd o1" "bc_send_limit o2 = bc_send_limit o1" "bc_recv_limit o2 = bc_recv_limit o1"
    "bc_send_job o2 = bc_send_job o1" "bc_recv_job o2 = bc_recv_job o1" using p by (simp_all add: same_parts_def)
  have C: "sp_fd s' = sp_fd s" "sp_job s' = sp_job s" "dom (sp_limit s') = dom (sp_limit s)"
    "sp_monitored s' (bc_bfd o1) = (if bc_is_hupd o2 then None else Some (bc_wait_events o2))"
    "set (sp_pending s') = (if q then insert (bc_recv_job o1) (set (sp_pending s)) else set (sp_pending s))"
    using c d by (simp_all add: conn_changes_def)
  show ?thesis unfolding conn_wf_def P C st(1,2) using wf e j st(3) unfolding conn_wf_def by auto
qed

text \<open>The pending operations, before the one whose outcome is taken decides whether it waits.\<close>

lemma waits_for_add:
  "waits_for k w rd wr \<Longrightarrow> waits_for k (w OR BREACTOR_READ) True wr"
  "waits_for k w rd wr \<Longrightarrow> waits_for k (w OR BREACTOR_WRITE) rd True"
proof -
  assume "waits_for k w rd wr"
  then obtain a b where "w = rw_events a b" "rd \<longrightarrow> a" "wr \<longrightarrow> b" "k \<longrightarrow> a = rd \<and> b = wr" by (auto simp: waits_for_def)
  then show "waits_for k (w OR BREACTOR_READ) True wr" "waits_for k (w OR BREACTOR_WRITE) rd True"
    by (auto simp: waits_for_def rw_add)
qed

lemma waits_for_drop:
  "waits_for k w rd wr \<Longrightarrow> waits_for k (w AND NOT BREACTOR_READ) False wr"
  "waits_for k w rd wr \<Longrightarrow> waits_for k (w AND NOT BREACTOR_WRITE) rd False"
proof -
  assume "waits_for k w rd wr"
  then obtain a b where "w = rw_events a b" "rd \<longrightarrow> a" "wr \<longrightarrow> b" "k \<longrightarrow> a = rd \<and> b = wr" by (auto simp: waits_for_def)
  then show "waits_for k (w AND NOT BREACTOR_READ) False wr" "waits_for k (w AND NOT BREACTOR_WRITE) rd False"
    by (auto simp: waits_for_def rw_drop)
qed

lemma live_send:
  assumes "send_outcome res o1 o2 cs" "BC_Error \<notin> set cs" "bc_send_state o1 = SEND_STATE_BUSY" "bc_recv_job o2 = bc_recv_job o1"
    and "if bc_is_hupd o1 then \<not> recv_waits o1 s' else waits_for k (bc_wait_events o1) (recv_waits o1 s') False"
  shows "conn_live k o2 s'"
  using assms waits_for_add(2) [of k "bc_wait_events o1"] unfolding send_outcome_def conn_live_def recv_waits_def by (auto split: if_splits)

lemma live_recv:
  assumes "recv_outcome res o1 o2 cs" "BC_Error \<notin> set cs" "bc_recv_state o1 = RECV_STATE_BUSY" "bc_recv_job o2 = bc_recv_job o1"
    and "bc_recv_job o1 \<notin> set (sp_pending s')"
    and "if bc_is_hupd o1 then bc_send_state o1 \<noteq> SEND_STATE_BUSY else waits_for k (bc_wait_events o1) False (bc_send_state o1 = SEND_STATE_BUSY)"
  shows "conn_live k o2 s'"
  using assms waits_for_add(1) [of k "bc_wait_events o1"] unfolding recv_outcome_def conn_live_def recv_waits_def by (auto split: if_splits)

lemma freed_wf:
  assumes wf: "conn_wf o1 s" and d: "distinct (sp_pending s)" and ev: "ev = BREACTOR_READ \<or> ev = BREACTOR_WRITE"
  shows "\<exists>rd wr. bc_wait_events (unwait ev o1) = rw_events rd wr"
    "sp_monitored (freed j o1 (unwait ev o1) s) (bc_bfd o1) = (if bc_is_hupd o1 then None else Some (bc_wait_events (unwait ev o1)))"
    "set (sp_pending (freed j o1 (unwait ev o1) s)) = set (sp_pending s) - {j}"
    "sp_fd (freed j o1 (unwait ev o1) s) = sp_fd s" "sp_limit (freed j o1 (unwait ev o1) s) = sp_limit s"
    "dom (sp_job (freed j o1 (unwait ev o1) s)) = dom (sp_job s) - {j}"
proof -
  obtain rd wr where "bc_wait_events o1 = rw_events rd wr" using conn_wfD(2) [OF wf] by blast
  then show "\<exists>rd wr. bc_wait_events (unwait ev o1) = rw_events rd wr" using ev by (auto simp: unwait_def rw_drop)
qed (use conn_wfD(5) [OF wf] d in \<open>simp_all add: freed_def\<close>)

lemma conn_op_wf:
  assumes wf: "conn_wf o1 s" and d: "distinct (sp_pending s)" and a: "conn_allowed a o1 s"
    and as: "op_asserts a o1"
    and out: "conn_outcome a o1 o2 cs" and eff: "conn_effect a o1 s o2 s2"
  shows "conn_wf o2 s2"
proof -
  obtain rd wr where w: "bc_wait_events o1 = rw_events rd wr" using conn_wfD(2) [OF wf] by blast
  have nc: "bc_recv_state o1 \<noteq> RECV_STATE_NOT_INITED_CLOSED" using wf by (simp add: conn_wf_def)
  have pj: "bc_recv_job o1 \<in> set (sp_pending s) \<Longrightarrow> bc_recv_state o1 = RECV_STATE_BUSY" using wf by (simp add: conn_wf_def)
  show ?thesis
  proof (cases a)
    case (Init_Send h)
    then show ?thesis using wf a out eff unfolding conn_wf_def conn_allowed_def conn_outcome_def conn_effect_def by auto
  next
    case (Init_Recv h)
    then show ?thesis using wf a out eff unfolding conn_wf_def conn_allowed_def conn_outcome_def conn_effect_def by auto
  next
    case Free_Send
    have o2: "o2 = (unwait BREACTOR_WRITE o1)\<lparr>bc_send_state := SEND_STATE_NOT_INITED\<rparr>" using out by (simp add: Free_Send conn_outcome_def)
    have s2: "s2 = freed (bc_send_job o1) o1 (unwait BREACTOR_WRITE o1) s" using eff by (simp add: Free_Send conn_effect_def o2 freed_def)
    note F = freed_wf(1) [OF wf d, of BREACTOR_WRITE] freed_wf(2-6) [OF wf d, of BREACTOR_WRITE "bc_send_job o1"]
    have P: "same_parts o1 o2" by (simp add: o2 same_parts_def unwait_def)
    show ?thesis using wf F P unfolding conn_wf_def s2 by (auto simp: o2 same_parts_def)
  next
    case Free_Recv
    have o2: "o2 = (unwait BREACTOR_READ o1)\<lparr>bc_recv_state := RECV_STATE_NOT_INITED\<rparr>" using out by (simp add: Free_Recv conn_outcome_def)
    have s2: "s2 = freed (bc_recv_job o1) o1 (unwait BREACTOR_READ o1) s" using eff by (simp add: Free_Recv conn_effect_def o2 freed_def)
    note F = freed_wf(1) [OF wf d, of BREACTOR_READ] freed_wf(2-6) [OF wf d, of BREACTOR_READ "bc_recv_job o1"]
    have P: "same_parts o1 o2" by (simp add: o2 same_parts_def unwait_def)
    show ?thesis using wf F P unfolding conn_wf_def s2 by (auto simp: o2 same_parts_def)
  next
    case (Send data res)
    have o: "send_outcome res (asked_send data o1) o2 cs" using out by (simp add: Send conn_outcome_def)
    note K = send_outcome_keeps [OF o]
    show ?thesis
    proof (rule wf_changes [OF wf _ same_parts_trans [OF _ K(1)] d])
      show "conn_changes False o1 s o2 s2" using eff by (simp add: Send conn_effect_def)
    qed (use a K(3,6) K(7) [of rd wr] w nc pj in \<open>simp_all add: Send conn_allowed_def\<close>)
  next
    case (Recv n res)
    have o: "recv_outcome res (asked_recv n o1) o2 cs" using out by (simp add: Recv conn_outcome_def)
    note K = recv_outcome_keeps [OF o]
    have b: "bc_recv_state o1 = RECV_STATE_READY" using a by (simp add: Recv conn_allowed_def)
    show ?thesis
    proof (rule wf_changes [OF wf _ same_parts_trans [OF _ K(1)] d])
      show "conn_changes False o1 s o2 s2" using eff by (simp add: Recv conn_effect_def)
    qed (use K(3,6) K(7) [of rd wr] w b pj in auto)
  next
    case (FD_Event ev wres rres)
    have w': "sp_pending s = []" using a by (auto simp: conn_allowed_def FD_Event)
    have L: "have_send ev o1 \<Longrightarrow> bc_send_state o1 = SEND_STATE_BUSY" "have_recv ev o1 \<Longrightarrow> bc_recv_state o1 = RECV_STATE_BUSY"
      using as by (simp_all add: FD_Event fd_asserts_def)
    have c: "conn_changes (have_send ev o1 \<and> have_recv ev o1) o1 s o2 s2" using eff by (simp add: FD_Event conn_effect_def)
    obtain rd' wr' where we: "bc_wait_events (after_event ev o1) = rw_events rd' wr'" using rw_clear by (metis after_event_simps(5) w)
    have f: "fd_outcome ev wres rres o1 o2 cs" using out by (simp add: FD_Event conn_outcome_def)
    show ?thesis
    proof (cases "have_send ev o1")
      case True
      note K = send_outcome_keeps [OF f [unfolded fd_outcome_def if_P [OF True]]]
      show ?thesis
        by (rule wf_changes [OF wf c same_parts_trans [OF _ K(1)] d])
          (use K(3,6) K(7) [OF we] L True nc w' in simp_all)
    next
      case ns: False
      show ?thesis
      proof (cases "have_recv ev o1")
        case True
        note K = recv_outcome_keeps [OF f [unfolded fd_outcome_def if_not_P [OF ns] if_P [OF True]]]
        show ?thesis
          by (rule wf_changes [OF wf c same_parts_trans [OF _ K(1)] d])
            (use K(3,6) K(7) [OF we] L(2) True ns w' in auto)
      next
        case False
        have "o2 = after_event ev o1" using f ns False by (simp add: fd_outcome_def)
        then show ?thesis by (intro wf_changes [OF wf c _ d]) (use we nc ns w' in auto)
      qed
    qed
  next
    case (Recv_Job res)
    obtain js where js: "sp_pending s = bc_recv_job o1 # js" using a by (auto simp: conn_allowed_def Recv_Job)
    have wf': "conn_wf o1 (s\<lparr>sp_pending := js\<rparr>)" using wf js unfolding conn_wf_def by auto
    have o: "recv_outcome res o1 o2 cs" using out by (simp add: Recv_Job conn_outcome_def)
    note K = recv_outcome_keeps [OF o]
    have b: "bc_recv_state o1 = RECV_STATE_BUSY" using pj js by simp
    have c: "conn_changes False o1 (s\<lparr>sp_pending := js\<rparr>) o2 s2" using eff js by (simp add: Recv_Job conn_effect_def)
    show ?thesis by (rule wf_changes [OF wf' c K(1)]) (use K(3,6) K(7) [OF w] b d js in auto)
  qed
qed

text \<open>After the handled events are cleared, what the handler does not serve is still waited for.\<close>

lemma after_event_waits:
  assumes wf: "conn_wf o1 s" and live: "conn_live k o1 s"
    and w: "sp_monitored s (bc_bfd o1) = Some w" "sp_pending s = []" and er: "k \<longrightarrow> \<not> bare_error ev o1"
  shows "\<not> bc_is_hupd (after_event ev o1) \<Longrightarrow> waits_for k (bc_wait_events (after_event ev o1))
      (bc_recv_state o1 = RECV_STATE_BUSY \<and> \<not> have_recv ev o1) (bc_send_state o1 = SEND_STATE_BUSY \<and> \<not> have_send ev o1)"
    "bc_is_hupd (after_event ev o1) \<Longrightarrow>
      (bc_recv_state o1 = RECV_STATE_BUSY \<longrightarrow> have_recv ev o1) \<and> (bc_send_state o1 = SEND_STATE_BUSY \<longrightarrow> have_send ev o1)"
proof -
  note n1 = monitored_conn(1) [OF wf w(1)]
  obtain a b where ab: "bc_wait_events o1 = rw_events a b" "bc_recv_state o1 = RECV_STATE_BUSY \<longrightarrow> a" "bc_send_state o1 = SEND_STATE_BUSY \<longrightarrow> b"
    "k \<longrightarrow> a = (bc_recv_state o1 = RECV_STATE_BUSY) \<and> b = (bc_send_state o1 = SEND_STATE_BUSY)"
    using live n1 w(2) by (auto simp: conn_live_def waits_for_def recv_waits_def)
  let ?o = "after_event ev o1" and ?a = "a \<and> ev AND BREACTOR_READ = 0" and ?b = "b \<and> ev AND BREACTOR_WRITE = 0"
  have we: "bc_wait_events ?o = rw_events ?a ?b" using rw_clear by (simp add: ab(1))
  show "waits_for k (bc_wait_events ?o)
      (bc_recv_state o1 = RECV_STATE_BUSY \<and> \<not> have_recv ev o1) (bc_send_state o1 = SEND_STATE_BUSY \<and> \<not> have_send ev o1)"
    if n: "\<not> bc_is_hupd ?o"
  proof -
    have h: "ev AND BREACTOR_HUP = 0" using n by simp
    have "\<not> have_recv ev o1" if "k" "?a"
    proof (cases "ev AND BREACTOR_ERROR \<noteq> 0")
      case True
      have "rw_events ?a ?b = 0" using er that(1) True h we by (simp add: bare_error_def)
      then have "rw_events ?a ?b = rw_events False False" by (simp add: rw_events_def)
      then show ?thesis using that(2) by simp
    next
      case False
      then show ?thesis using h that(2) by (simp add: have_recv_def bit.conj_disj_distrib)
    qed
    moreover have "\<not> have_send ev o1" if "k" "?b"
    proof (cases "ev AND BREACTOR_ERROR \<noteq> 0")
      case True
      have "rw_events ?a ?b = 0" using er that(1) True h we by (simp add: bare_error_def)
      then have "rw_events ?a ?b = rw_events False False" by (simp add: rw_events_def)
      then show ?thesis using that(2) by simp
    next
      case False
      then show ?thesis using h that(2) by (simp add: have_send_def bit.conj_disj_distrib)
    qed
    moreover have "\<not> have_recv ev o1 \<Longrightarrow> ev AND BREACTOR_READ = 0" "\<not> have_send ev o1 \<Longrightarrow> ev AND BREACTOR_WRITE = 0"
      by (simp_all add: have_recv_def have_send_def)
    ultimately show ?thesis unfolding waits_for_def using we ab by blast
  qed
  show "(bc_recv_state o1 = RECV_STATE_BUSY \<longrightarrow> have_recv ev o1) \<and> (bc_send_state o1 = SEND_STATE_BUSY \<longrightarrow> have_send ev o1)"
    if "bc_is_hupd ?o"
  proof -
    have "ev AND (BREACTOR_ERROR OR BREACTOR_HUP) \<noteq> 0" using that by (simp add: bit.conj_disj_distrib or_eq_0_iff)
    then show ?thesis by (simp add: have_send_def have_recv_def)
  qed
qed

lemma conn_op_live:
  assumes wf: "conn_wf o1 s" and d: "distinct (sp_pending s)" and a: "conn_allowed a o1 s" and live: "conn_live k o1 s"
    and as: "op_asserts a o1" and er: "k \<Longrightarrow> \<not> bare a o1"
    and out: "conn_outcome a o1 o2 cs" "BC_Error \<notin> set cs" and eff: "conn_effect a o1 s o2 s2"
  shows "conn_live k o2 s2"
proof -
  have pj: "bc_recv_job o1 \<in> set (sp_pending s) \<Longrightarrow> bc_recv_state o1 = RECV_STATE_BUSY" using wf by (simp add: conn_wf_def)
  have jobs: "bc_send_job o1 \<noteq> bc_recv_job o1" using wf by (simp add: conn_wf_def)
  have parts: "same_parts o1 o2 \<Longrightarrow> bc_recv_job o2 = bc_recv_job o1" by (simp add: same_parts_def)
  show ?thesis
  proof (cases a)
    case (Init_Send h)
    then show ?thesis using live a out eff unfolding conn_live_def recv_waits_def conn_allowed_def conn_outcome_def conn_effect_def
      by (auto split: if_splits)
  next
    case (Init_Recv h)
    then show ?thesis using live a out eff unfolding conn_live_def recv_waits_def conn_allowed_def conn_outcome_def conn_effect_def
      by (auto split: if_splits)
  next
    case Free_Send
    have o2: "o2 = (unwait BREACTOR_WRITE o1)\<lparr>bc_send_state := SEND_STATE_NOT_INITED\<rparr>" using out by (simp add: Free_Send conn_outcome_def)
    have "set (sp_pending s2) = set (sp_pending s) - {bc_send_job o1}" using eff d by (simp add: Free_Send conn_effect_def freed_def)
    then have "bc_recv_job o1 \<in> set (sp_pending s2) \<longleftrightarrow> bc_recv_job o1 \<in> set (sp_pending s)" using jobs by simp
    then show ?thesis using live waits_for_drop(2) by (cases "bc_is_hupd o1") (auto simp: conn_live_def recv_waits_def o2 unwait_def)
  next
    case Free_Recv
    have o2: "o2 = (unwait BREACTOR_READ o1)\<lparr>bc_recv_state := RECV_STATE_NOT_INITED\<rparr>" using out by (simp add: Free_Recv conn_outcome_def)
    then show ?thesis using live waits_for_drop(1) by (cases "bc_is_hupd o1") (auto simp: conn_live_def recv_waits_def o2 unwait_def)
  next
    case (Send data res)
    have o: "send_outcome res (asked_send data o1) o2 cs" using out by (simp add: Send conn_outcome_def)
    have p: "sp_pending s2 = sp_pending s" using eff by (simp add: Send conn_effect_def conn_changes_def)
    have "bc_send_state o1 = SEND_STATE_READY" using a by (simp add: Send conn_allowed_def)
    moreover have "bc_recv_job (asked_send data o1) = bc_recv_job o1" "bc_recv_job o2 = bc_recv_job o1"
      using send_outcome_keeps(1) [OF o] by (simp_all add: asked_send_def same_parts_def)
    ultimately show ?thesis using live by (intro live_send [OF o out(2)]) (auto simp: conn_live_def recv_waits_def p split: if_splits)
  next
    case (Recv n res)
    have o: "recv_outcome res (asked_recv n o1) o2 cs" using out by (simp add: Recv conn_outcome_def)
    have p: "sp_pending s2 = sp_pending s" using eff by (simp add: Recv conn_effect_def conn_changes_def)
    have "bc_recv_state o1 = RECV_STATE_READY" using a by (simp add: Recv conn_allowed_def)
    moreover have "bc_recv_job (asked_recv n o1) = bc_recv_job o1" "bc_recv_job o2 = bc_recv_job o1"
      using recv_outcome_keeps(1) [OF o] by (simp_all add: asked_recv_def same_parts_def)
    ultimately show ?thesis using live pj by (intro live_recv [OF o out(2)]) (auto simp: conn_live_def recv_waits_def p split: if_splits)
  next
    case (Recv_Job res)
    obtain js where js: "sp_pending s = bc_recv_job o1 # js" using a by (auto simp: conn_allowed_def Recv_Job)
    have o: "recv_outcome res o1 o2 cs" using out by (simp add: Recv_Job conn_outcome_def)
    have p: "sp_pending s2 = js" using eff js by (simp add: Recv_Job conn_effect_def conn_changes_def)
    have "bc_recv_job o2 = bc_recv_job o1" using recv_outcome_keeps(1) [OF o] by (simp add: same_parts_def)
    then show ?thesis using live pj js d by (intro live_recv [OF o out(2)]) (auto simp: conn_live_def recv_waits_def p split: if_splits)
  next
    case (FD_Event ev wres rres)
    obtain w where w: "sp_monitored s (bc_bfd o1) = Some w" "sp_pending s = []"
      using a by (auto simp: conn_allowed_def FD_Event)
    have er': "k \<longrightarrow> \<not> bare_error ev o1" using er by (simp add: FD_Event)
    have L: "have_send ev o1 \<Longrightarrow> bc_send_state o1 = SEND_STATE_BUSY" "have_recv ev o1 \<Longrightarrow> bc_recv_state o1 = RECV_STATE_BUSY"
      using as by (simp_all add: FD_Event fd_asserts_def)
    let ?o = "after_event ev o1"
    have pend: "set (sp_pending s2) = (if have_send ev o1 \<and> have_recv ev o1 then {bc_recv_job o1} else {})"
      using eff w(2) by (simp add: FD_Event conn_effect_def conn_changes_def)
    note wait = after_event_waits(1) [OF wf live w er'] and hup = after_event_waits(2) [OF wf live w er']
    have job: "bc_recv_job ?o = bc_recv_job o1" by (simp add: after_event_def)
    have f: "fd_outcome ev wres rres o1 o2 cs" using out by (simp add: FD_Event conn_outcome_def)
    show ?thesis
    proof (cases "have_send ev o1")
      case True
      have o: "send_outcome wres ?o o2 cs" using f True by (simp add: fd_outcome_def)
      have "bc_recv_job o2 = bc_recv_job ?o" using send_outcome_keeps(1) [OF o] by (simp add: same_parts_def)
      then show ?thesis
          by (rule live_send [OF o out(2), rotated]; cases "have_recv ev o1")
            (use True L wait hup pend job in \<open>simp_all add: recv_waits_def del: after_event_simps(5,6)\<close>)
    next
      case ns: False
      show ?thesis
      proof (cases "have_recv ev o1")
        case True
        have o: "recv_outcome rres ?o o2 cs" using f True ns by (simp add: fd_outcome_def)
        have "bc_recv_job o2 = bc_recv_job ?o" using recv_outcome_keeps(1) [OF o] by (simp add: same_parts_def)
        then show ?thesis
          by (rule live_recv [OF o out(2), rotated]) (use True ns L wait hup pend job in \<open>simp_all del: after_event_simps(5,6)\<close>)
      next
        case False
        have o2: "o2 = ?o" "bc_is_hupd ?o" using f ns False out(2) by (simp_all add: fd_outcome_def split: if_splits)
        then show ?thesis using hup [OF o2(2)] ns False by (simp add: conn_live_def recv_waits_def)
      qed
    qed
  qed
qed

section \<open>Runs\<close>

text \<open>What was asked of a connection, and what it did, the latest first.\<close>

datatype conn_event = Asked_Send "byte list" | Asked_Recv nat | Freed_Send | Freed_Recv | Bare_Error | Did connection_call

fun asked_of :: "'h conn_op \<Rightarrow> conn_event list" where
  "asked_of (Send data res) = [Asked_Send data]"
| "asked_of (Recv n res) = [Asked_Recv n]"
| "asked_of Free_Send = [Freed_Send]"
| "asked_of Free_Recv = [Freed_Recv]"
| "asked_of _ = []"

definition log_op :: "'h conn_op \<Rightarrow> BConnection \<Rightarrow> connection_call list \<Rightarrow> conn_event list \<Rightarrow> conn_event list" where
  "log_op a o1 cs tr = rev (map Did cs) @ (if bare a o1 then [Bare_Error] else []) @ asked_of a @ tr"

text \<open>After an error a connection can only be freed.\<close>

definition may_do :: "'h conn_op \<Rightarrow> conn_event list \<Rightarrow> bool" where
  "may_do a tr \<longleftrightarrow> Did BC_Error \<notin> set tr \<or> a = Free_Send \<or> a = Free_Recv"

text \<open>What else happens on the reactor does not touch the objects of the connection, and leaves its limits registered.\<close>

definition conn_frame :: "BConnection \<Rightarrow> 'h reactor_spec \<Rightarrow> 'h reactor_spec \<Rightarrow> bool" where
  "conn_frame o1 s s' \<longleftrightarrow>
     sp_fd s' (bc_bfd o1) = sp_fd s (bc_bfd o1) \<and> sp_monitored s' (bc_bfd o1) = sp_monitored s (bc_bfd o1)
     \<and> bc_send_limit o1 \<in> dom (sp_limit s') \<and> bc_recv_limit o1 \<in> dom (sp_limit s')
     \<and> (\<forall>j. j = bc_send_job o1 \<or> j = bc_recv_job o1 \<longrightarrow> sp_job s' j = sp_job s j \<and> (j \<in> set (sp_pending s') \<longleftrightarrow> j \<in> set (sp_pending s)))"

definition conn_fresh :: "BConnection \<Rightarrow> bool" where
  "conn_fresh o1 \<longleftrightarrow> \<not> bc_is_hupd o1 \<and> bc_wait_events o1 = 0
     \<and> bc_send_state o1 = SEND_STATE_NOT_INITED \<and> bc_recv_state o1 = RECV_STATE_NOT_INITED"

inductive conn_run :: "BConnection \<Rightarrow> 'h reactor_spec \<Rightarrow> int \<Rightarrow> 'h BReactor \<Rightarrow> conn_event list \<Rightarrow> bool" where
  conn_start: "refines s clk r \<Longrightarrow> conn_wf o1 s \<Longrightarrow> conn_fresh o1 \<Longrightarrow> conn_run o1 s clk r []"
| conn_others: "conn_run o1 s clk r tr \<Longrightarrow> refines s' clk' r' \<Longrightarrow> conn_frame o1 s s' \<Longrightarrow> conn_run o1 s' clk' r' tr"
| conn_step: "conn_run o1 s clk r tr \<Longrightarrow> conn_allowed a o1 s \<Longrightarrow> may_do a tr \<Longrightarrow> conn_do a o1 r = Some (o2, r2, cs) \<Longrightarrow>
    refines s2 clk r2 \<Longrightarrow> conn_effect a o1 s o2 s2 \<Longrightarrow> conn_run o2 s2 clk r2 (log_op a o1 cs tr)"

lemma did_log: "Did c \<in> set (log_op a o1 cs tr) \<longleftrightarrow> c \<in> set cs \<or> Did c \<in> set tr"
  by (cases a) (auto simp: log_op_def)

lemma bare_log: "Bare_Error \<in> set (log_op a o1 cs tr) \<longleftrightarrow> bare a o1 \<or> Bare_Error \<in> set tr"
  by (cases a) (auto simp: log_op_def)

lemma frame_wf: "conn_wf o1 s \<Longrightarrow> conn_frame o1 s s' \<Longrightarrow> conn_wf o1 s'"
  unfolding conn_wf_def conn_frame_def by (auto simp: domIff)

lemma frame_live: "conn_live k o1 s \<Longrightarrow> conn_frame o1 s s' \<Longrightarrow> conn_live k o1 s'"
  unfolding conn_live_def recv_waits_def conn_frame_def by simp

lemma fresh_live: "conn_fresh o1 \<Longrightarrow> conn_live k o1 s"
  by (auto simp: conn_fresh_def conn_live_def recv_waits_def waits_for_def rw_events_def intro!: exI [of _ False])

lemma conn_run_inv:
  "conn_run o1 s clk r tr \<Longrightarrow>
    refines s clk r \<and> conn_wf o1 s \<and> (Did BC_Error \<notin> set tr \<longrightarrow> conn_live False o1 s \<and> (Bare_Error \<notin> set tr \<longrightarrow> conn_live True o1 s))"
proof (induction rule: conn_run.induct)
  case (conn_start s clk r o1)
  then show ?case using fresh_live by blast
next
  case (conn_others o1 s clk r tr s' clk' r')
  then show ?case using frame_wf frame_live by blast
next
  case (conn_step o1 s clk r tr a o2 r2 cs s2)
  then have r: "refines s clk r" and wf: "conn_wf o1 s"
    and live: "Did BC_Error \<notin> set tr \<Longrightarrow> conn_live False o1 s"
      "Did BC_Error \<notin> set tr \<Longrightarrow> Bare_Error \<notin> set tr \<Longrightarrow> conn_live True o1 s" by blast+
  have as: "op_asserts a o1" by (rule conn_do_asserts [OF conn_step.hyps(4)])
  have out: "conn_outcome a o1 o2 cs" using conn_op_step [OF r wf conn_step.hyps(2) as] conn_step.hyps(4) by auto
  note d = pending_distinct [OF r]
  have "conn_wf o2 s2" by (rule conn_op_wf [OF wf d conn_step.hyps(2) as out conn_step.hyps(6)])
  moreover have "conn_live False o2 s2" if "Did BC_Error \<notin> set (log_op a o1 cs tr)"
    using conn_op_live [OF wf d conn_step.hyps(2) live(1) as _ out _ conn_step.hyps(6)] that by (simp add: did_log)
  moreover have "conn_live True o2 s2" if "Did BC_Error \<notin> set (log_op a o1 cs tr)" "Bare_Error \<notin> set (log_op a o1 cs tr)"
    using conn_op_live [OF wf d conn_step.hyps(2) live(2) as _ out _ conn_step.hyps(6)] that by (simp add: did_log bare_log)
  ultimately show ?case using conn_step.hyps(5) by blast
qed

text \<open>Only events of the descriptor can fail, and they only after an error reported alone.\<close>

fun is_event :: "'h conn_op \<Rightarrow> bool" where
  "is_event (FD_Event ev wres rres) = True"
| "is_event _ = False"

lemma conn_run_can:
  assumes run: "conn_run o1 s clk r tr" and a: "conn_allowed a o1 s" "may_do a tr" and e: "is_event a \<Longrightarrow> Bare_Error \<notin> set tr"
  shows "\<exists>o2 r2 cs s2. conn_do a o1 r = Some (o2, r2, cs) \<and> conn_outcome a o1 o2 cs \<and> conn_run o2 s2 clk r2 (log_op a o1 cs tr)"
proof -
  note I = conn_run_inv [OF run]
  have as: "op_asserts a o1"
  proof (cases "is_event a")
    case True
    then have "a \<noteq> Free_Send \<and> a \<noteq> Free_Recv" by (cases a) simp_all
    then have "conn_live True o1 s" using I a(2) e [OF True] by (auto simp: may_do_def)
    then show ?thesis using live_asserts I a(1) by blast
  next
    case False
    then show ?thesis by (cases a) simp_all
  qed
  obtain o2 r2 cs s2 where s2: "conn_do a o1 r = Some (o2, r2, cs)" "refines s2 clk r2" "conn_effect a o1 s o2 s2" "conn_outcome a o1 o2 cs"
    using conn_op_step [of s clk r o1 a] I a(1) as by blast
  then show ?thesis using conn_run.conn_step [OF run a s2(1-3)] by blast
qed

section \<open>What was promised and what was done\<close>

fun outstanding_send :: "conn_event list \<Rightarrow> byte list option" where
  "outstanding_send [] = None"
| "outstanding_send (Asked_Send data # tr) = Some data"
| "outstanding_send (Freed_Send # tr) = None"
| "outstanding_send (Did (BC_Send_Done n) # tr) = None"
| "outstanding_send (_ # tr) = outstanding_send tr"

fun outstanding_recv :: "conn_event list \<Rightarrow> nat option" where
  "outstanding_recv [] = None"
| "outstanding_recv (Asked_Recv n # tr) = Some n"
| "outstanding_recv (Freed_Recv # tr) = None"
| "outstanding_recv (Did (BC_Recv_Done data) # tr) = None"
| "outstanding_recv (Did BC_Recv_Closed # tr) = None"
| "outstanding_recv (_ # tr) = outstanding_recv tr"

text \<open>The bytes written to the socket; the bytes whose sending was confirmed; each answer fits the request that it answers.\<close>

fun written :: "conn_event list \<Rightarrow> byte list" where
  "written [] = []"
| "written (Did (BC_Written data) # tr) = written tr @ data"
| "written (_ # tr) = written tr"

fun confirmed :: "conn_event list \<Rightarrow> byte list" where
  "confirmed [] = []"
| "confirmed (Did (BC_Send_Done n) # tr) = confirmed tr @ (case outstanding_send tr of Some data \<Rightarrow> take n data | None \<Rightarrow> [])"
| "confirmed (_ # tr) = confirmed tr"

fun answers_fit :: "conn_event list \<Rightarrow> bool" where
  "answers_fit [] \<longleftrightarrow> True"
| "answers_fit (Asked_Send data # tr) \<longleftrightarrow> outstanding_send tr = None \<and> answers_fit tr"
| "answers_fit (Asked_Recv n # tr) \<longleftrightarrow> outstanding_recv tr = None \<and> answers_fit tr"
| "answers_fit (Did (BC_Send_Done n) # tr) \<longleftrightarrow> (\<exists>data. outstanding_send tr = Some data \<and> 0 < n \<and> n \<le> length data) \<and> answers_fit tr"
| "answers_fit (Did (BC_Recv_Done data) # tr) \<longleftrightarrow> (\<exists>n. outstanding_recv tr = Some n \<and> data \<noteq> [] \<and> length data \<le> n) \<and> answers_fit tr"
| "answers_fit (Did BC_Recv_Closed # tr) \<longleftrightarrow> outstanding_recv tr \<noteq> None \<and> answers_fit tr"
| "answers_fit (_ # tr) \<longleftrightarrow> answers_fit tr"

definition tracks :: "BConnection \<Rightarrow> conn_event list \<Rightarrow> bool" where
  "tracks o1 tr \<longleftrightarrow>
     outstanding_send tr = (if bc_send_state o1 = SEND_STATE_BUSY then Some (bc_send_busy_data o1) else None)
     \<and> outstanding_recv tr = (if bc_recv_state o1 = RECV_STATE_BUSY then Some (bc_recv_busy_data_avail o1) else None)
     \<and> written tr = confirmed tr \<and> answers_fit tr"

lemma tracks_send:
  assumes "tracks o1 tr" "send_outcome res o1 o2 cs" "bc_send_state o1 = SEND_STATE_BUSY" "write_ok (bc_send_busy_data o1) res"
  shows "tracks o2 (rev (map Did cs) @ tr)"
  using assms by (auto simp: tracks_def send_outcome_def write_ok_def)

lemma tracks_recv:
  assumes "tracks o1 tr" "recv_outcome res o1 o2 cs" "bc_recv_state o1 = RECV_STATE_BUSY" "read_ok (bc_recv_busy_data_avail o1) res"
  shows "tracks o2 (rev (map Did cs) @ tr)"
  using assms by (auto simp: tracks_def recv_outcome_def read_ok_def)

lemma tracks_op:
  assumes t: "tracks o1 tr" and wf: "conn_wf o1 s" and a: "conn_allowed a o1 s" and as: "op_asserts a o1"
    and out: "conn_outcome a o1 o2 cs"
  shows "tracks o2 (log_op a o1 cs tr)"
proof (cases a)
  case (Send data res)
  have "tracks (asked_send data o1) (Asked_Send data # tr)" using t a by (simp add: Send tracks_def conn_allowed_def)
  from tracks_send [OF this] show ?thesis using a out by (auto simp: Send log_op_def conn_allowed_def conn_outcome_def)
next
  case (Recv n res)
  have "tracks (asked_recv n o1) (Asked_Recv n # tr)" using t a by (simp add: Recv tracks_def conn_allowed_def)
  from tracks_recv [OF this] show ?thesis using a out by (auto simp: Recv log_op_def conn_allowed_def conn_outcome_def)
next
  case (Recv_Job res)
  have "bc_recv_state o1 = RECV_STATE_BUSY" using wf a by (auto simp: Recv_Job conn_wf_def conn_allowed_def)
  from tracks_recv [OF t _ this] show ?thesis using a out by (auto simp: Recv_Job log_op_def conn_allowed_def conn_outcome_def)
next
  case (FD_Event ev wres rres)
  have L: "have_send ev o1 \<Longrightarrow> bc_send_state o1 = SEND_STATE_BUSY" "have_recv ev o1 \<Longrightarrow> bc_recv_state o1 = RECV_STATE_BUSY"
    using as by (simp_all add: FD_Event fd_asserts_def)
  let ?tr = "(if bare_error ev o1 then [Bare_Error] else []) @ tr"
  have t': "tracks (after_event ev o1) ?tr" using t by (simp add: tracks_def)
  have "tracks o2 ?tr" if "o2 = after_event ev o1" using t' that by simp
  moreover have "tracks o2 (Did BC_Error # ?tr)" if "o2 = after_event ev o1" using t' that by (simp add: tracks_def)
  ultimately show ?thesis using tracks_send [OF t', of wres o2 cs] tracks_recv [OF t', of rres o2 cs] L a out
    by (simp add: FD_Event log_op_def conn_allowed_def conn_outcome_def fd_outcome_def split: if_splits)
qed (use t a out in \<open>simp_all add: log_op_def conn_allowed_def conn_outcome_def tracks_def\<close>)

lemma conn_run_tracks: "conn_run o1 s clk r tr \<Longrightarrow> tracks o1 tr"
proof (induction rule: conn_run.induct)
  case (conn_start s clk r o1)
  then show ?case by (simp add: conn_fresh_def tracks_def)
next
  case (conn_step o1 s clk r tr a o2 r2 cs s2)
  note I = conn_run_inv [OF conn_step.hyps(1)]
  have as: "op_asserts a o1" by (rule conn_do_asserts [OF conn_step.hyps(4)])
  have "conn_outcome a o1 o2 cs" using conn_op_step [OF _ _ conn_step.hyps(2) as] I conn_step.hyps(4) by fastforce
  with tracks_op [OF conn_step.IH _ conn_step.hyps(2) as] I show ?case by blast
qed
end
