(* ===== verification/Connection_Open.thy ===== *)
theory Connection_Open
  imports Connection_Safety
begin

text \<open>
  How connections begin and end: listeners, connectors, \<open>BConnection_Init\<close> and \<open>BConnection_Free\<close>. None of the operations fails an
  assertion, none leaves a descriptor registered or open when it fails, and the descriptor of a connector is closed by the connector or by the connection it
  is handed to.
\<close>

section \<open>Registering\<close>

lemma reactor_do:
  assumes "refines s clk r" "allowed s a"
  obtains ok r' where "do_op clk a r = Some (ok, r')" "refines (spec_op clk a ok s) clk r'"
  using op_refines [OF assms(1) order_refl assms(2)] by blast

lemma watch_step:
  assumes r: "refines s clk r" and m: "sp_monitored s p = None"
  shows "\<exists>added r'. watch_fd p fd h ok r = Some (added, r')
    \<and> refines (s\<lparr>sp_fd := (sp_fd s)(p \<mapsto> (fd, h)), sp_monitored := (sp_monitored s)(p := if added then Some 0 else None)\<rparr>) clk r'"
proof -
  have "allowed s (Init_FD p fd h)" using m by (simp add: allowed_def)
  from reactor_do [OF r this] have r1: "refines (s\<lparr>sp_fd := (sp_fd s)(p \<mapsto> (fd, h))\<rparr>) clk (BFileDescriptor_Init p fd h r)"
    by (auto simp: do_op_def spec_op_def)
  have "allowed (s\<lparr>sp_fd := (sp_fd s)(p \<mapsto> (fd, h))\<rparr>) (Add_FD p ok)" using m by (simp add: allowed_def)
  from reactor_do [OF r1 this] obtain added r' where
    "BReactor_AddFileDescriptor ok p (BFileDescriptor_Init p fd h r) = Some (added, r')"
    "refines (spec_op clk (Add_FD p ok) added (s\<lparr>sp_fd := (sp_fd s)(p \<mapsto> (fd, h))\<rparr>)) clk r'" by (auto simp: do_op_def)
  moreover have "(sp_monitored s)(p := None) = sp_monitored s" using m by (simp add: fun_upd_idem)
  ultimately show ?thesis by (cases added) (auto simp: watch_fd_def spec_op_def)
qed

lemma watch_for_step:
  assumes r: "refines s clk r" and m: "sp_monitored s p = None"
  shows "\<exists>added r'. watch_fd_for (rw_events rd wr) p fd h ok r = Some (added, r')
    \<and> refines (s\<lparr>sp_fd := (sp_fd s)(p \<mapsto> (fd, h)),
         sp_monitored := (sp_monitored s)(p := if added then Some (rw_events rd wr) else None)\<rparr>) clk r'"
proof -
  obtain added r1 where w: "watch_fd p fd h ok r = Some (added, r1)"
    "refines (s\<lparr>sp_fd := (sp_fd s)(p \<mapsto> (fd, h)), sp_monitored := (sp_monitored s)(p := if added then Some 0 else None)\<rparr>) clk r1"
    using watch_step [OF r m] by blast
  show ?thesis
  proof (cases added)
    case True
    have w2: "refines (s\<lparr>sp_fd := (sp_fd s)(p \<mapsto> (fd, h)), sp_monitored := (sp_monitored s)(p \<mapsto> 0)\<rparr>) clk r1" using w(2) True by simp
    from set_events_step [OF this, of p rd wr] show ?thesis using w(1) True by (auto simp: watch_fd_for_def)
  qed (use w in \<open>auto simp: watch_fd_for_def\<close>)
qed

lemma init_job_step:
  "refines s clk r \<Longrightarrow> j \<notin> dom (sp_job s) \<Longrightarrow> refines (s\<lparr>sp_job := (sp_job s)(j \<mapsto> h)\<rparr>) clk (init_job j h r)"
  using jobs_refine(1) [OF _ order_refl] by (simp add: init_job_def on_jobs_def)

lemma on_jobs_step:
  assumes "refines s clk r" "j \<in> dom (sp_job s)"
  shows "refines (s\<lparr>sp_pending := job_set j (sp_pending s)\<rparr>) clk (on_jobs (BPending_Set j) r)"
    "refines (s\<lparr>sp_pending := job_unset j (sp_pending s)\<rparr>) clk (on_jobs (BPending_Unset j) r)"
    "refines (s\<lparr>sp_job := (sp_job s)(j := None), sp_pending := job_unset j (sp_pending s)\<rparr>) clk (on_jobs (BPending_Free j) r)"
  using jobs_refine(2-4) [OF assms(1) order_refl assms(2)] by (simp_all add: on_jobs_def)

lemma refines_jobsD:
  assumes "refines s clk r"
  shows "set (sp_pending s) \<subseteq> dom (sp_job s)" "j \<in> dom (sp_job s) \<Longrightarrow> BPending_IsSet j (rc_pending_jobs r) \<longleftrightarrow> j \<in> set (sp_pending s)"
  using refinesD(4) [OF assms] pg_rep_IsSet [of "dom (sp_job s)" "rc_pending_jobs r" "sp_pending s" j]
  by (auto simp: jobs_match_def pg_rep_def BPending_wrappers)

section \<open>Connectors\<close>

definition connector_wf :: "BConnector \<Rightarrow> 'h reactor_spec \<Rightarrow> bool" where
  "connector_wf c s \<longleftrightarrow>
     (if co_have_bfd c then \<not> co_connected c \<and> 0 \<le> co_fd c \<and> sp_monitored s (co_bfd c) = Some BREACTOR_WRITE
        \<and> (\<exists>h. sp_fd s (co_bfd c) = Some (co_fd c, h))
      else sp_monitored s (co_bfd c) = None)
     \<and> co_job c \<in> dom (sp_job s) \<and> (co_job c \<in> set (sp_pending s) \<longrightarrow> co_connected c \<and> 0 \<le> co_fd c)"

lemma write_rw: "BREACTOR_WRITE = rw_events False True" "BREACTOR_READ = rw_events True False"
  by (simp_all add: rw_events_def)

definition connector_new :: "BConnector \<Rightarrow> 'h reactor_spec \<Rightarrow> bool" where
  "connector_new c s \<longleftrightarrow> sp_monitored s (co_bfd c) = None \<and> co_job c \<notin> dom (sp_job s)"

text \<open>A connector that fails leaves no trace: the descriptor is closed, and nothing is monitored or pending for it.\<close>

definition connector_started ::
    "BConnector \<Rightarrow> int \<Rightarrow> connect_result \<Rightarrow> 'h \<Rightarrow> 'h reactor_spec \<Rightarrow> bool \<Rightarrow> BConnector \<Rightarrow> 'h reactor_spec \<Rightarrow> sys_call list \<Rightarrow> bool" where
  "connector_started c fd res hjob s ok c' s' calls \<longleftrightarrow>
     co_bfd c' = co_bfd c \<and> co_job c' = co_job c \<and> sp_limit s' = sp_limit s
     \<and> (if ok then connector_wf c' s' \<and> calls = [] \<and> co_fd c' = fd \<and> 0 \<le> fd \<and> (co_have_bfd c' \<longleftrightarrow> res = Connect_InProgress)
          \<and> (co_connected c' \<longleftrightarrow> res = Connect_Done) \<and> sp_job s' = (sp_job s)(co_job c \<mapsto> hjob)
          \<and> (\<forall>p. p \<noteq> co_bfd c \<longrightarrow> sp_monitored s' p = sp_monitored s p)
          \<and> set (sp_pending s') = (if res = Connect_Done then insert (co_job c) (set (sp_pending s)) else set (sp_pending s))
        else sp_monitored s' = sp_monitored s \<and> sp_job s' = sp_job s \<and> sp_pending s' = sp_pending s
          \<and> calls = (if fd < 0 then [] else [Sys_Close fd]))"

lemma connector_undo:
  assumes "refines s' clk r'" "sp_job s' = (sp_job s)(j \<mapsto> h)" "sp_pending s' = sp_pending s" "j \<notin> dom (sp_job s)" "j \<notin> set (sp_pending s)"
  shows "refines (s'\<lparr>sp_job := sp_job s, sp_pending := sp_pending s\<rparr>) clk (on_jobs (BPending_Free j) r')"
proof -
  have "(sp_job s)(j := None) = sp_job s" using assms(4) by (simp add: fun_upd_idem domIff)
  then show ?thesis using on_jobs_step(3) [OF assms(1), of j] assms(2,3,5) by simp
qed

lemma connector_waits:
  assumes r: "refines (s\<lparr>sp_job := (sp_job s)(co_job c \<mapsto> hjob)\<rparr>) clk (init_job (co_job c) hjob r)" and n: "connector_new c s"
    and nj: "co_job c \<notin> set (sp_pending s)" and fd: "0 \<le> fd"
  shows "\<exists>ok c' r' calls s'. connector_start fd True Connect_InProgress add_ok hfd hjob c r = Some (ok, c', r', calls) \<and> refines s' clk r'
    \<and> connector_started c fd Connect_InProgress hjob s ok c' s' calls"
proof -
  let ?s1 = "s\<lparr>sp_job := (sp_job s)(co_job c \<mapsto> hjob)\<rparr>"
  let ?s2 = "\<lambda>w. ?s1\<lparr>sp_fd := (sp_fd ?s1)(co_bfd c \<mapsto> (fd, hfd)), sp_monitored := (sp_monitored ?s1)(co_bfd c := w)\<rparr>"
  have j: "co_job c \<notin> dom (sp_job s)" and m: "sp_monitored s (co_bfd c) = None" using n by (simp_all add: connector_new_def)
  obtain added r2 where w: "watch_fd_for BREACTOR_WRITE (co_bfd c) fd hfd add_ok (init_job (co_job c) hjob r) = Some (added, r2)"
    "refines (?s2 (if added then Some BREACTOR_WRITE else None)) clk r2"
    using watch_for_step [OF r, of "co_bfd c" False True fd hfd add_ok] m unfolding write_rw by auto
  show ?thesis
  proof (cases added)
    case True
    then show ?thesis using w fd nj
      by (intro exI [of _ True] exI [of _ "c\<lparr>co_fd := fd, co_connected := False, co_have_bfd := True\<rparr>"] exI [of _ r2] exI [of _ "[]"]
          exI [of _ "?s2 (Some BREACTOR_WRITE)"]) (simp add: connector_start_def connector_wf_def connector_started_def)
  next
    case False
    have keep: "(sp_monitored s)(co_bfd c := None) = sp_monitored s" using m by (simp add: fun_upd_idem)
    have "refines (s\<lparr>sp_fd := (sp_fd s)(co_bfd c \<mapsto> (fd, hfd))\<rparr>) clk (on_jobs (BPending_Free (co_job c)) r2)"
      using connector_undo [OF w(2), of s "co_job c" hjob] False keep j nj by simp
    then show ?thesis using w(1) False fd
      by (intro exI [of _ False] exI [of _ "c\<lparr>co_fd := fd, co_connected := False, co_have_bfd := False\<rparr>"]
          exI [of _ "on_jobs (BPending_Free (co_job c)) r2"] exI [of _ "[Sys_Close fd]"] exI [of _ "s\<lparr>sp_fd := (sp_fd s)(co_bfd c \<mapsto> (fd, hfd))\<rparr>"])
        (simp add: connector_start_def connector_started_def)
  qed
qed

lemma connector_start_step:
  assumes r: "refines s clk r" and n: "connector_new c s"
  shows "\<exists>ok c' r' calls s'. connector_start fd nonblocking res add_ok hfd hjob c r = Some (ok, c', r', calls) \<and> refines s' clk r'
    \<and> connector_started c fd res hjob s ok c' s' calls"
proof -
  let ?s1 = "s\<lparr>sp_job := (sp_job s)(co_job c \<mapsto> hjob)\<rparr>"
  have j: "co_job c \<notin> dom (sp_job s)" and m: "sp_monitored s (co_bfd c) = None" using n by (simp_all add: connector_new_def)
  have r1: "refines ?s1 clk (init_job (co_job c) hjob r)" by (rule init_job_step [OF r j])
  have p: "distinct (sp_pending s)" "co_job c \<notin> set (sp_pending s)" using refines_jobsD(1) [OF r] pending_distinct [OF r] j by blast+
  consider "fd < 0 \<or> \<not> nonblocking \<or> res = Connect_Failed" | "0 \<le> fd" "nonblocking" "res = Connect_InProgress"
    | "0 \<le> fd" "nonblocking" "res = Connect_Done" by (cases res) force+
  then show ?thesis
  proof cases
    case 1
    then show ?thesis using connector_undo [OF r1, of s "co_job c" hjob] j p(2)
      by (intro exI [of _ False] exI [of _ "c\<lparr>co_fd := fd\<rparr>"] exI [of _ "on_jobs (BPending_Free (co_job c)) (init_job (co_job c) hjob r)"])
        (auto simp: connector_start_def connector_started_def Let_def intro!: exI [of _ s])
  next
    case 2
    then show ?thesis using connector_waits [OF r1 n p(2), of fd add_ok hfd] by simp
  next
    case 3
    have "refines (?s1\<lparr>sp_pending := job_set (co_job c) (sp_pending s)\<rparr>) clk (on_jobs (BPending_Set (co_job c)) (init_job (co_job c) hjob r))"
      using on_jobs_step(1) [OF r1, of "co_job c"] by simp
    then show ?thesis using 3 m p(1)
      by (intro exI [of _ True] exI [of _ "c\<lparr>co_fd := fd, co_connected := True, co_have_bfd := False\<rparr>"]
          exI [of _ "on_jobs (BPending_Set (co_job c)) (init_job (co_job c) hjob r)"] exI [of _ "[]"]
          exI [of _ "?s1\<lparr>sp_pending := job_set (co_job c) (sp_pending s)\<rparr>"])
        (simp add: connector_start_def connector_wf_def connector_started_def)
  qed
qed


lemma connector_fd_step:
  assumes r: "refines s clk r" and c: "connector_wf c s" "co_have_bfd c"
  shows "\<exists>c' r' s'. connector_fd_handler error c r = Some (error \<noteq> Some 0, c', r') \<and> refines s' clk r' \<and> connector_wf c' s'
    \<and> c' = c\<lparr>co_have_bfd := False, co_connected := (error = Some 0)\<rparr> \<and> sp_pending s' = sp_pending s
    \<and> sp_job s' = sp_job s \<and> sp_limit s' = sp_limit s \<and> (\<forall>p. p \<noteq> co_bfd c \<longrightarrow> sp_monitored s' p = sp_monitored s p)"
proof -
  have m: "sp_monitored s (co_bfd c) \<noteq> None" "\<not> co_connected c" "0 \<le> co_fd c" using c by (auto simp: connector_wf_def)
  obtain r' where r': "BReactor_RemoveFileDescriptor (co_bfd c) r = Some r'"
    "refines (s\<lparr>sp_monitored := (sp_monitored s)(co_bfd c := None), sp_reported := (sp_reported s)(co_bfd c := None)\<rparr>) clk r'"
    using remove_fd_step [OF r m(1)] by blast
  then show ?thesis using m c
    by (intro exI [of _ "c\<lparr>co_have_bfd := False, co_connected := (error = Some 0)\<rparr>"] exI [of _ r']
        exI [of _ "s\<lparr>sp_monitored := (sp_monitored s)(co_bfd c := None), sp_reported := (sp_reported s)(co_bfd c := None)\<rparr>"])
      (cases c, auto simp: connector_fd_handler_def connector_wf_def Let_def)
qed

lemma connector_free_step:
  assumes r: "refines s clk r" and c: "connector_wf c s"
  shows "\<exists>r' s'. BConnector_Free c r = Some (r', if co_fd c = -1 then [] else [Sys_Close (co_fd c)]) \<and> refines s' clk r'
    \<and> sp_monitored s' = (sp_monitored s)(co_bfd c := None) \<and> sp_job s' = (sp_job s)(co_job c := None)
    \<and> set (sp_pending s') = set (sp_pending s) - {co_job c} \<and> sp_limit s' = sp_limit s"
proof -
  have j: "co_job c \<in> dom (sp_job s)" "distinct (sp_pending s)" using c pending_distinct [OF r] by (simp_all add: connector_wf_def)
  show ?thesis
  proof (cases "co_have_bfd c")
    case True
    have m: "sp_monitored s (co_bfd c) \<noteq> None" using c True by (auto simp: connector_wf_def)
    obtain r1 where r1: "BReactor_RemoveFileDescriptor (co_bfd c) r = Some r1"
      "refines (s\<lparr>sp_monitored := (sp_monitored s)(co_bfd c := None), sp_reported := (sp_reported s)(co_bfd c := None)\<rparr>) clk r1"
      using remove_fd_step [OF r m] by blast
    let ?s = "s\<lparr>sp_monitored := (sp_monitored s)(co_bfd c := None), sp_reported := (sp_reported s)(co_bfd c := None),
      sp_job := (sp_job s)(co_job c := None), sp_pending := job_unset (co_job c) (sp_pending s)\<rparr>"
    have "refines ?s clk (on_jobs (BPending_Free (co_job c)) r1)" using on_jobs_step(3) [OF r1(2), of "co_job c"] j(1) by simp
    then show ?thesis using j r1(1) True
      by (intro exI [of _ "on_jobs (BPending_Free (co_job c)) r1"] exI [of _ ?s]) (simp add: BConnector_Free_def)
  next
    case False
    have "(sp_monitored s)(co_bfd c := None) = sp_monitored s" using c False by (simp add: connector_wf_def fun_upd_idem)
    with on_jobs_step(3) [OF r j(1)] j(2) False show ?thesis
      by (intro exI [of _ "on_jobs (BPending_Free (co_job c)) r"]
          exI [of _ "s\<lparr>sp_job := (sp_job s)(co_job c := None), sp_pending := job_unset (co_job c) (sp_pending s)\<rparr>"])
        (simp add: BConnector_Free_def)
  qed
qed

section \<open>Connections\<close>

definition conn_new :: "BConnection \<Rightarrow> 'h reactor_spec \<Rightarrow> bool" where
  "conn_new o1 s \<longleftrightarrow> sp_monitored s (bc_bfd o1) = None
     \<and> bc_send_limit o1 \<notin> dom (sp_limit s) \<and> bc_recv_limit o1 \<notin> dom (sp_limit s) \<and> bc_send_limit o1 \<noteq> bc_recv_limit o1
     \<and> bc_send_job o1 \<notin> dom (sp_job s) \<and> bc_recv_job o1 \<notin> dom (sp_job s) \<and> bc_send_job o1 \<noteq> bc_recv_job o1"

text \<open>A listener in its handler, a connector that has reported its success, or a descriptor.\<close>

fun source_ready :: "BConnection_source \<Rightarrow> 'h reactor_spec \<Rightarrow> bool" where
  "source_ready (Source_Listener l fd nonblocking addr) s \<longleftrightarrow> ln_default_job l \<in> set (sp_pending s)"
| "source_ready (Source_Connector c) s \<longleftrightarrow> connector_wf c s \<and> 0 \<le> co_fd c \<and> co_connected c \<and> co_job c \<notin> set (sp_pending s)"
| "source_ready (Source_Pipe fd nonblocking) s \<longleftrightarrow> 0 \<le> fd"

fun source_fd :: "BConnection_source \<Rightarrow> int" where
  "source_fd (Source_Listener l fd nonblocking addr) = fd"
| "source_fd (Source_Connector c) = co_fd c"
| "source_fd (Source_Pipe fd nonblocking) = fd"

text \<open>A connector loses its descriptor, and the descriptor of a pipe is never closed.\<close>

fun source_taken :: "BConnection_source \<Rightarrow> BConnection_source" where
  "source_taken (Source_Connector c) = Source_Connector (c\<lparr>co_fd := -1\<rparr>)"
| "source_taken src = src"

fun source_owned :: "BConnection_source \<Rightarrow> bool" where
  "source_owned (Source_Pipe fd nonblocking) = False"
| "source_owned _ = True"

definition conn_opened :: "BConnection_source \<Rightarrow> BConnection \<Rightarrow> 'h reactor_spec \<Rightarrow> bool \<Rightarrow> BConnection \<Rightarrow> 'h reactor_spec \<Rightarrow> sys_call list \<Rightarrow> bool" where
  "conn_opened src o0 s ok o1 s' calls \<longleftrightarrow>
     (if ok then conn_wf o1 s' \<and> conn_fresh o1 \<and> bc_fd o1 = source_fd src \<and> bc_close_fd o1 = source_owned src \<and> calls = []
        \<and> bc_bfd o1 = bc_bfd o0 \<and> sp_monitored s' = (sp_monitored s)(bc_bfd o0 \<mapsto> 0)
      else sp_monitored s' = sp_monitored s \<and> sp_limit s' = sp_limit s
        \<and> calls = (if source_owned src \<and> 0 \<le> source_fd src then [Sys_Close (source_fd src)] else []))
     \<and> sp_job s' = sp_job s \<and> sp_pending s' = (case src of Source_Listener l _ _ _ \<Rightarrow> job_unset (ln_default_job l) (sp_pending s) | _ \<Rightarrow> sp_pending s)"

lemma init_limit_step:
  assumes "refines s clk r" "l \<notin> dom (sp_limit s)" "0 < n"
  shows "\<exists>r'. BReactorLimit_Init l n r = Some r' \<and> refines (s\<lparr>sp_limit := (sp_limit s)(l \<mapsto> (n, 0))\<rparr>) clk r'"
  using reactor_do [OF assms(1), of "Init_Limit l n"] assms(2,3) by (auto simp: allowed_def do_op_def spec_op_def finished_def)

lemma connection_finish_step:
  assumes r: "refines s clk r" and n: "conn_new o1 s"
  shows "\<exists>ok o2 r' calls s'. connection_finish src addr add_ok hfd o1 r = Some (ok, o2, src, addr, r', calls) \<and> refines s' clk r'
    \<and> (if ok then conn_wf o2 s' \<and> conn_fresh o2 \<and> bc_fd o2 = bc_fd o1 \<and> bc_close_fd o2 = bc_close_fd o1 \<and> calls = []
         \<and> bc_bfd o2 = bc_bfd o1 \<and> sp_monitored s' = (sp_monitored s)(bc_bfd o1 \<mapsto> 0)
       else sp_monitored s' = sp_monitored s \<and> sp_limit s' = sp_limit s \<and> calls = (if bc_close_fd o1 then [Sys_Close (bc_fd o1)] else []))
    \<and> sp_job s' = sp_job s \<and> sp_pending s' = sp_pending s"
proof -
  have N: "sp_monitored s (bc_bfd o1) = None" "bc_send_limit o1 \<notin> dom (sp_limit s)" "bc_recv_limit o1 \<notin> dom (sp_limit s)"
    "bc_send_limit o1 \<noteq> bc_recv_limit o1" using n by (simp_all add: conn_new_def)
  have nj: "bc_send_job o1 \<notin> set (sp_pending s)" "bc_recv_job o1 \<notin> set (sp_pending s)"
    using refines_jobsD(1) [OF r] n by (auto simp: conn_new_def)
  have keep: "(sp_monitored s)(bc_bfd o1 := None) = sp_monitored s" using N by (simp add: fun_upd_idem)
  let ?s1 = "\<lambda>w. s\<lparr>sp_fd := (sp_fd s)(bc_bfd o1 \<mapsto> (bc_fd o1, hfd)), sp_monitored := (sp_monitored s)(bc_bfd o1 := w)\<rparr>"
  obtain added r1 where w: "watch_fd (bc_bfd o1) (bc_fd o1) hfd add_ok r = Some (added, r1)" "refines (?s1 (if added then Some 0 else None)) clk r1"
    using watch_step [OF r N(1)] by blast
  show ?thesis
  proof (cases added)
    case False
    then show ?thesis using w keep
      by (intro exI [of _ False] exI [of _ "o1\<lparr>bc_is_hupd := False\<rparr>"] exI [of _ r1] exI [of _ "if bc_close_fd o1 then [Sys_Close (bc_fd o1)] else []"]
          exI [of _ "?s1 None"]) (simp add: connection_finish_def)
  next
    case True
    have w2: "refines (?s1 (Some 0)) clk r1" using w(2) True by simp
    obtain r2 where r2: "BReactorLimit_Init (bc_send_limit o1) BCONNECTION_SEND_LIMIT r1 = Some r2"
      "refines ((?s1 (Some 0))\<lparr>sp_limit := (sp_limit s)(bc_send_limit o1 \<mapsto> (BCONNECTION_SEND_LIMIT, 0))\<rparr>) clk r2"
      using init_limit_step [OF w2, of "bc_send_limit o1" BCONNECTION_SEND_LIMIT] N by (auto simp: BCONNECTION_SEND_LIMIT_def)
    obtain r3 where r3: "BReactorLimit_Init (bc_recv_limit o1) BCONNECTION_RECV_LIMIT r2 = Some r3"
      "refines ((?s1 (Some 0))\<lparr>sp_limit := (sp_limit s)(bc_send_limit o1 \<mapsto> (BCONNECTION_SEND_LIMIT, 0), bc_recv_limit o1 \<mapsto> (BCONNECTION_RECV_LIMIT, 0))\<rparr>) clk r3"
      using init_limit_step [OF r2(2), of "bc_recv_limit o1" BCONNECTION_RECV_LIMIT] N by (auto simp: BCONNECTION_RECV_LIMIT_def)
    let ?s3 = "(?s1 (Some 0))\<lparr>sp_limit := (sp_limit s)(bc_send_limit o1 \<mapsto> (BCONNECTION_SEND_LIMIT, 0), bc_recv_limit o1 \<mapsto> (BCONNECTION_RECV_LIMIT, 0))\<rparr>"
    let ?o = "o1\<lparr>bc_is_hupd := False, bc_wait_events := 0, bc_send_state := SEND_STATE_NOT_INITED, bc_recv_state := RECV_STATE_NOT_INITED\<rparr>"
    have "(0 :: u32) = rw_events False False" by (simp add: rw_events_def)
    then have "\<exists>rd wr. (0 :: u32) = rw_events rd wr" by blast
    then have "conn_wf ?o ?s3" using n nj unfolding conn_wf_def conn_new_def by simp
    moreover have "conn_fresh ?o" by (simp add: conn_fresh_def)
    moreover have "connection_finish src addr add_ok hfd o1 r = Some (True, ?o, src, addr, r3, [])"
      using w(1) True r2(1) r3(1) by (simp add: connection_finish_def)
    ultimately show ?thesis using r3(2)
      by (intro exI [of _ True] exI [of _ ?o] exI [of _ r3] exI [of _ "[]"] exI [of _ ?s3]) simp
  qed
qed


lemma conn_open_step:
  assumes r: "refines s clk r" and n: "conn_new o0 s" and src: "source_ready src s"
  shows "\<exists>ok o1 addr r' calls s'. BConnection_Init src add_ok hfd o0 r = Some (ok, o1, if 0 \<le> source_fd src then source_taken src else src, addr, r', calls)
    \<and> refines s' clk r' \<and> conn_opened src o0 s ok o1 s' calls"
proof (cases src)
  case (Source_Listener l fd nonblocking addr)
  have p: "ln_default_job l \<in> set (sp_pending s)" using src by (simp add: Source_Listener)
  then have j: "ln_default_job l \<in> dom (sp_job s)" using refines_jobsD(1) [OF r] by blast
  have set_job: "BPending_IsSet (ln_default_job l) (rc_pending_jobs r)" using refines_jobsD(2) [OF r j] p by simp
  let ?s = "s\<lparr>sp_pending := job_unset (ln_default_job l) (sp_pending s)\<rparr>"
  let ?r = "on_jobs (BPending_Unset (ln_default_job l)) r"
  have r1: "refines ?s clk ?r" by (rule on_jobs_step(2) [OF r j])
  show ?thesis
  proof (cases "fd < 0 \<or> \<not> nonblocking")
    case True
    then show ?thesis using r1 set_job
      by (intro exI [of _ False] exI [of _ "if fd < 0 then o0\<lparr>bc_fd := fd\<rparr> else o0\<lparr>bc_fd := fd, bc_close_fd := True\<rparr>"] exI [of _ None] exI [of _ ?r]
          exI [of _ "if fd < 0 then [] else [Sys_Close fd]"] exI [of _ ?s])
        (auto simp: Source_Listener BConnection_Init_def conn_opened_def)
  next
    case False
    have "conn_new (o0\<lparr>bc_fd := fd, bc_close_fd := True\<rparr>) ?s" using n by (simp add: conn_new_def)
    from connection_finish_step [OF r1 this, of src "Some (addr_sys_to_socket addr)" add_ok hfd]
    obtain ok o2 r' calls s' where "connection_finish src (Some (addr_sys_to_socket addr)) add_ok hfd (o0\<lparr>bc_fd := fd, bc_close_fd := True\<rparr>) ?r
        = Some (ok, o2, src, Some (addr_sys_to_socket addr), r', calls)" "refines s' clk r'" "conn_opened src o0 s ok o2 s' calls"
      using False by (auto simp: conn_opened_def Source_Listener)
    then show ?thesis using False set_job
      by (intro exI [of _ ok] exI [of _ o2] exI [of _ "Some (addr_sys_to_socket addr)"] exI [of _ r'] exI [of _ calls] exI [of _ s'])
        (simp add: Source_Listener BConnection_Init_def Let_def)
  qed
next
  case (Source_Connector c)
  have c: "0 \<le> co_fd c" "co_connected c" "\<not> co_have_bfd c" "co_job c \<in> dom (sp_job s)" "co_job c \<notin> set (sp_pending s)"
    using src by (auto simp: Source_Connector connector_wf_def split: if_splits)
  have ns: "\<not> BPending_IsSet (co_job c) (rc_pending_jobs r)" using refines_jobsD(2) [OF r c(4)] c(5) by simp
  have "conn_new (o0\<lparr>bc_fd := co_fd c, bc_close_fd := True\<rparr>) s" using n by (simp add: conn_new_def)
  from connection_finish_step [OF r this, of "Source_Connector (c\<lparr>co_fd := -1\<rparr>)" None add_ok hfd]
  obtain ok o2 r' calls s' where "connection_finish (Source_Connector (c\<lparr>co_fd := -1\<rparr>)) None add_ok hfd (o0\<lparr>bc_fd := co_fd c, bc_close_fd := True\<rparr>) r
      = Some (ok, o2, Source_Connector (c\<lparr>co_fd := -1\<rparr>), None, r', calls)" "refines s' clk r'" "conn_opened src o0 s ok o2 s' calls"
    using c by (auto simp: conn_opened_def Source_Connector)
  then show ?thesis using c ns
    by (intro exI [of _ ok] exI [of _ o2] exI [of _ None] exI [of _ r'] exI [of _ calls] exI [of _ s'])
      (simp add: Source_Connector BConnection_Init_def Let_def)
next
  case (Source_Pipe fd nonblocking)
  have fd: "0 \<le> fd" using src by (simp add: Source_Pipe)
  show ?thesis
  proof (cases nonblocking)
    case False
    then show ?thesis using r fd
      by (intro exI [of _ False] exI [of _ "o0\<lparr>bc_fd := fd, bc_close_fd := False\<rparr>"] exI [of _ None] exI [of _ r] exI [of _ "[]"] exI [of _ s])
        (auto simp: Source_Pipe BConnection_Init_def conn_opened_def)
  next
    case True
    have "conn_new (o0\<lparr>bc_fd := fd, bc_close_fd := False\<rparr>) s" using n by (simp add: conn_new_def)
    from connection_finish_step [OF r this, of src None add_ok hfd]
    obtain ok o2 r' calls s' where "connection_finish src None add_ok hfd (o0\<lparr>bc_fd := fd, bc_close_fd := False\<rparr>) r = Some (ok, o2, src, None, r', calls)"
        "refines s' clk r'" "conn_opened src o0 s ok o2 s' calls" by (auto simp: conn_opened_def Source_Pipe)
    then show ?thesis using fd True
      by (intro exI [of _ ok] exI [of _ o2] exI [of _ None] exI [of _ r'] exI [of _ calls] exI [of _ s'])
        (simp add: Source_Pipe BConnection_Init_def Let_def)
  qed
qed

lemma conn_free_step:
  assumes r: "refines s clk r" and wf: "conn_wf o1 s" and n: "bc_send_state o1 = SEND_STATE_NOT_INITED" "bc_recv_state o1 = RECV_STATE_NOT_INITED"
  shows "\<exists>r' s'. BConnection_Free o1 r = Some (r', if bc_close_fd o1 then [Sys_Close (bc_fd o1)] else []) \<and> refines s' clk r'
    \<and> sp_monitored s' = (sp_monitored s)(bc_bfd o1 := None)
    \<and> sp_limit s' = (sp_limit s)(bc_recv_limit o1 := None, bc_send_limit o1 := None) \<and> sp_job s' = sp_job s \<and> sp_pending s' = sp_pending s"
proof -
  have l: "bc_send_limit o1 \<in> dom (sp_limit s)" "bc_recv_limit o1 \<in> dom (sp_limit s)" "bc_send_limit o1 \<noteq> bc_recv_limit o1"
    using wf by (simp_all add: conn_wf_def)
  let ?r1 = "BReactorLimit_Free (bc_recv_limit o1) r" and ?s1 = "s\<lparr>sp_limit := (sp_limit s)(bc_recv_limit o1 := None)\<rparr>"
  have r1: "refines ?s1 clk ?r1"
    using reactor_do [OF r, of "Free_Limit (bc_recv_limit o1)"] l by (auto simp: allowed_def do_op_def spec_op_def)
  let ?r2 = "BReactorLimit_Free (bc_send_limit o1) ?r1" and ?s2 = "s\<lparr>sp_limit := (sp_limit s)(bc_recv_limit o1 := None, bc_send_limit o1 := None)\<rparr>"
  have r2: "refines ?s2 clk ?r2"
    using reactor_do [OF r1, of "Free_Limit (bc_send_limit o1)"] l by (auto simp: allowed_def do_op_def spec_op_def)
  show ?thesis
  proof (cases "bc_is_hupd o1")
    case True
    have "(sp_monitored s)(bc_bfd o1 := None) = sp_monitored s" using conn_wfD(5) [OF wf] True by (simp add: fun_upd_idem)
    then show ?thesis using r2 True n by (intro exI [of _ ?r2] exI [of _ ?s2]) (simp add: BConnection_Free_def)
  next
    case False
    have "sp_monitored ?s2 (bc_bfd o1) \<noteq> None" using conn_wfD(1) [OF wf] False by simp
    from remove_fd_step [OF r2 this] obtain r3 where "BReactor_RemoveFileDescriptor (bc_bfd o1) ?r2 = Some r3"
      "refines (?s2\<lparr>sp_monitored := (sp_monitored s)(bc_bfd o1 := None), sp_reported := (sp_reported s)(bc_bfd o1 := None)\<rparr>) clk r3" by auto
    then show ?thesis using False n
      by (intro exI [of _ r3] exI [of _ "?s2\<lparr>sp_monitored := (sp_monitored s)(bc_bfd o1 := None), sp_reported := (sp_reported s)(bc_bfd o1 := None)\<rparr>"])
        (simp add: BConnection_Free_def)
  qed
qed


section \<open>From a connector to a connection\<close>

text \<open>After the handover the connector can be freed at any time, and closes nothing.\<close>

lemma connector_taken:
  assumes "connector_wf c s" "\<not> co_have_bfd c" "co_job c \<notin> set (sp_pending s)" "co_bfd c \<noteq> bc_bfd o0"
    and "conn_opened (Source_Connector c) o0 s ok o1 s' calls"
  shows "connector_wf (c\<lparr>co_fd := -1\<rparr>) s'"
  using assms by (auto simp: connector_wf_def conn_opened_def split: if_splits)

lemma connector_handover:
  assumes r: "refines s clk r" and c: "connector_wf c s" "\<not> co_have_bfd c" "co_connected c" "0 \<le> co_fd c" "co_job c \<notin> set (sp_pending s)"
    and n: "conn_new o0 s" "co_bfd c \<noteq> bc_bfd o0"
  shows "\<exists>ok o1 r' calls. BConnection_Init (Source_Connector c) add_ok hfd o0 r = Some (ok, o1, Source_Connector (c\<lparr>co_fd := -1\<rparr>), None, r', calls)
    \<and> (if ok then calls = [] \<and> bc_fd o1 = co_fd c \<and> bc_close_fd o1 \<and> (\<exists>s'. conn_run o1 s' clk r' []) else calls = [Sys_Close (co_fd c)])
    \<and> (\<exists>r''. BConnector_Free (c\<lparr>co_fd := -1\<rparr>) r' = Some (r'', []))"
proof -
  let ?src = "Source_Connector c"
  have ready: "source_ready ?src s" using c by simp
  from conn_open_step [OF r n(1) ready, of add_ok hfd] c(4) obtain ok o1 addr r' calls s' where
    i: "BConnection_Init ?src add_ok hfd o0 r = Some (ok, o1, Source_Connector (c\<lparr>co_fd := -1\<rparr>), addr, r', calls)"
    and r': "refines s' clk r'" and o: "conn_opened ?src o0 s ok o1 s' calls" by auto
  have "addr = None"
    using i by (auto simp: BConnection_Init_def connection_finish_def Let_def bind_eq_Some_conv split: if_splits)
  moreover have "\<exists>s'. conn_run o1 s' clk r' []" if ok using that o conn_start [OF r'] by (auto simp: conn_opened_def)
  moreover obtain r'' where "BConnector_Free (c\<lparr>co_fd := -1\<rparr>) r' = Some (r'', [])"
    using connector_free_step [OF r' connector_taken [OF c(1,2,5) n(2) o]] by auto
  ultimately show ?thesis using i o c(4) by (auto simp: conn_opened_def)
qed

section \<open>Listeners\<close>

definition listener_wf :: "BListener \<Rightarrow> 'h reactor_spec \<Rightarrow> bool" where
  "listener_wf l s \<longleftrightarrow> (\<exists>h. sp_fd s (ln_bfd l) = Some (ln_fd l, h)) \<and> sp_monitored s (ln_bfd l) = Some BREACTOR_READ
     \<and> ln_default_job l \<in> dom (sp_job s)"

lemma listener_init_step:
  assumes r: "refines s clk r" and n: "sp_monitored s (ln_bfd l) = None" "ln_default_job l \<notin> dom (sp_job s)"
  shows "\<exists>ok l' r' calls s'. BListener_Init addr fd nonblocking bound listening add_ok hfd hjob l r = Some (ok, l', r', calls) \<and> refines s' clk r'
    \<and> (if ok then listener_wf l' s' \<and> ln_fd l' = fd \<and> 0 \<le> fd \<and> BConnection_AddressSupported addr \<and> calls = []
       else sp_monitored s' = sp_monitored s \<and> sp_job s' = sp_job s
         \<and> calls = (if BConnection_AddressSupported addr \<and> 0 \<le> fd then [Sys_Close fd] else []))"
proof (cases "BConnection_AddressSupported addr \<and> 0 \<le> fd \<and> nonblocking \<and> bound \<and> listening")
  case False
  then show ?thesis using r
    by (intro exI [of _ False] exI [of _ "if BConnection_AddressSupported addr then l\<lparr>ln_unix_socket_path := None, ln_fd := fd\<rparr> else l\<lparr>ln_unix_socket_path := None\<rparr>"]
        exI [of _ r] exI [of _ "if BConnection_AddressSupported addr \<and> 0 \<le> fd then [Sys_Close fd] else []"] exI [of _ s])
      (auto simp: BListener_Init_def Let_def)
next
  case True
  let ?s = "\<lambda>w. s\<lparr>sp_fd := (sp_fd s)(ln_bfd l \<mapsto> (fd, hfd)), sp_monitored := (sp_monitored s)(ln_bfd l := w)\<rparr>"
  let ?l = "l\<lparr>ln_unix_socket_path := None, ln_fd := fd\<rparr>"
  have keep: "(sp_monitored s)(ln_bfd l := None) = sp_monitored s" using n by (simp add: fun_upd_idem)
  obtain added r1 where w: "watch_fd_for BREACTOR_READ (ln_bfd l) fd hfd add_ok r = Some (added, r1)"
    "refines (?s (if added then Some BREACTOR_READ else None)) clk r1"
    using watch_for_step [OF r n(1), of True False fd hfd add_ok] unfolding write_rw by blast
  show ?thesis
  proof (cases added)
    case a: False
    then show ?thesis using w True keep
      by (intro exI [of _ False] exI [of _ ?l] exI [of _ r1] exI [of _ "[Sys_Close fd]"] exI [of _ "?s None"]) (simp add: BListener_Init_def Let_def)
  next
    case a: True
    have w2: "refines (?s (Some BREACTOR_READ)) clk r1" using w(2) a by simp
    have "refines ((?s (Some BREACTOR_READ))\<lparr>sp_job := (sp_job s)(ln_default_job l \<mapsto> hjob)\<rparr>) clk (init_job (ln_default_job l) hjob r1)"
      using init_job_step [OF w2, of "ln_default_job l"] n(2) by simp
    then show ?thesis using w(1) True a
      by (intro exI [of _ True] exI [of _ ?l] exI [of _ "init_job (ln_default_job l) hjob r1"] exI [of _ "[]"]
          exI [of _ "(?s (Some BREACTOR_READ))\<lparr>sp_job := (sp_job s)(ln_default_job l \<mapsto> hjob)\<rparr>"]) (simp add: BListener_Init_def listener_wf_def Let_def)
  qed
qed

lemma listener_fd_step:
  assumes "refines s clk r" "listener_wf l s"
  shows "\<exists>s'. refines s' clk (listener_fd_handler l r) \<and> listener_wf l s' \<and> source_ready (Source_Listener l fd nonblocking addr) s'"
  using on_jobs_step(1) [OF assms(1), of "ln_default_job l"] assms(2) pending_distinct [OF assms(1)]
  by (intro exI [of _ "s\<lparr>sp_pending := job_set (ln_default_job l) (sp_pending s)\<rparr>"]) (auto simp: listener_fd_handler_def listener_wf_def)

lemma listener_free_step:
  assumes r: "refines s clk r" and l: "listener_wf l s"
  shows "\<exists>r' calls s'. BListener_Free l r = Some (r', calls) \<and> refines s' clk r' \<and> sp_monitored s' = (sp_monitored s)(ln_bfd l := None)
    \<and> sp_job s' = (sp_job s)(ln_default_job l := None) \<and> Sys_Close (ln_fd l) \<in> set calls"
proof -
  let ?s1 = "s\<lparr>sp_job := (sp_job s)(ln_default_job l := None), sp_pending := job_unset (ln_default_job l) (sp_pending s)\<rparr>"
  have r1: "refines ?s1 clk (on_jobs (BPending_Free (ln_default_job l)) r)"
    using on_jobs_step(3) [OF r, of "ln_default_job l"] l by (simp add: listener_wf_def)
  have "sp_monitored ?s1 (ln_bfd l) \<noteq> None" using l by (simp add: listener_wf_def)
  from remove_fd_step [OF r1 this] obtain r' where "BReactor_RemoveFileDescriptor (ln_bfd l) (on_jobs (BPending_Free (ln_default_job l)) r) = Some r'"
    "refines (?s1\<lparr>sp_monitored := (sp_monitored s)(ln_bfd l := None), sp_reported := (sp_reported s)(ln_bfd l := None)\<rparr>) clk r'" by auto
  then show ?thesis
    by (intro exI [of _ r'] exI [of _ "Sys_Close (ln_fd l) # (case ln_unix_socket_path l of Some path \<Rightarrow> [Sys_Unlink path, Sys_Free_Path] | None \<Rightarrow> [])"]
        exI [of _ "?s1\<lparr>sp_monitored := (sp_monitored s)(ln_bfd l := None), sp_reported := (sp_reported s)(ln_bfd l := None)\<rparr>"])
      (simp add: BListener_Free_def)
qed

end
