(* ===== verification/Connection_Use.thy ===== *)
theory Connection_Use
  imports Connection_Open
begin

text \<open>
  The TUN device on the event loop, the properties of connections and of the device, and a connection in use.
\<close>

section \<open>The TUN device\<close>

text \<open>The device is watched for input exactly while a packet is asked for that could not be read at once.\<close>

definition tap_wf :: "BTap \<Rightarrow> 'h reactor_spec \<Rightarrow> bool" where
  "tap_wf t s \<longleftrightarrow> (\<exists>h. sp_fd s (tap_bfd t) = Some (tap_fd t, h)) \<and> sp_monitored s (tap_bfd t) = Some (tap_poll_events t)
     \<and> tap_poll_events t = rw_events (tap_output_packet t \<noteq> None) False"

lemma tap_poll_step:
  assumes r: "refines s clk r" and t: "tap_wf t s"
  shows "\<exists>r' s'. BReactor_SetFileDescriptorEvents (tap_bfd t) (rw_events rd False) r = Some r' \<and> refines s' clk r'
    \<and> (\<forall>p. rd = (p \<noteq> None) \<longrightarrow> tap_wf (t\<lparr>tap_output_packet := p, tap_poll_events := rw_events rd False\<rparr>) s')"
proof -
  have "sp_monitored s (tap_bfd t) \<noteq> None" using t by (simp add: tap_wf_def)
  from set_events_step [OF r this, of rd False] obtain r' where r': "BReactor_SetFileDescriptorEvents (tap_bfd t) (rw_events rd False) r = Some r'"
    "refines (s\<lparr>sp_monitored := (sp_monitored s)(tap_bfd t \<mapsto> rw_events rd False)\<rparr>) clk r'" by blast
  then show ?thesis using t
    by (intro exI [of _ r'] exI [of _ "s\<lparr>sp_monitored := (sp_monitored s)(tap_bfd t \<mapsto> rw_events rd False)\<rparr>"]) (simp add: tap_wf_def)
qed

lemma tap_recv_step:
  assumes r: "refines s clk r" and t: "tap_wf t s" and n: "tap_output_packet t = None" and l: "read_ok (tap_frame_mtu t) res"
  shows "\<exists>t' r' cs s'. tap_output_handler_recv data res t r = Some (t', r', cs) \<and> refines s' clk r' \<and> tap_wf t' s'
    \<and> cs = (case res of Read_Again \<Rightarrow> [] | Read_Error \<Rightarrow> [Tap_Error] | Read_Bytes bytes \<Rightarrow> [Tap_Recv_Done bytes])
    \<and> tap_output_packet t' = (if res = Read_Again then Some data else None)"
proof (cases res)
  case Read_Again
  have "tap_poll_events t = rw_events False False" using t n by (simp add: tap_wf_def)
  then have e: "tap_poll_events t OR BREACTOR_READ = rw_events True False" by (simp add: rw_add)
  obtain r' s' where "BReactor_SetFileDescriptorEvents (tap_bfd t) (rw_events True False) r = Some r'" "refines s' clk r'"
    "tap_wf (t\<lparr>tap_output_packet := Some data, tap_poll_events := rw_events True False\<rparr>) s'"
    using tap_poll_step [OF r t, of True] by auto
  then show ?thesis using Read_Again n e by (auto simp: tap_output_handler_recv_def)
qed (use r t n l in \<open>auto simp: tap_output_handler_recv_def read_ok_def\<close>)

lemma tap_fd_step:
  assumes r: "refines s clk r" and t: "tap_wf t s" and ev: "reported_for (tap_poll_events t) ev" and l: "read_ok (tap_frame_mtu t) res"
  shows "\<exists>t' r' cs s'. tap_fd_handler ev res t r = Some (t', r', cs) \<and> refines s' clk r' \<and> tap_wf t' s'
    \<and> cs = (if ev AND BREACTOR_READ = 0 then [] else case res of Read_Again \<Rightarrow> [] | Read_Error \<Rightarrow> [Tap_Error] | Read_Bytes bytes \<Rightarrow> [Tap_Recv_Done bytes])
    \<and> tap_output_packet t' = (if \<exists>bytes. Tap_Recv_Done bytes \<in> set cs then None else tap_output_packet t)"
proof (cases "ev AND BREACTOR_READ = 0")
  case False
  have p: "tap_poll_events t = rw_events (tap_output_packet t \<noteq> None) False" using t by (simp add: tap_wf_def)
  have some: "tap_output_packet t \<noteq> None" using reported_rw(1) [OF ev [unfolded p] False] .
  show ?thesis
  proof (cases res)
    case (Read_Bytes bytes)
    have e: "tap_poll_events t AND NOT BREACTOR_READ = rw_events False False" using p by (simp add: rw_drop)
    obtain r' s' where "BReactor_SetFileDescriptorEvents (tap_bfd t) (rw_events False False) r = Some r'" "refines s' clk r'"
      "tap_wf (t\<lparr>tap_output_packet := None, tap_poll_events := rw_events False False\<rparr>) s'"
      using tap_poll_step [OF r t, of False] by auto
    then show ?thesis using Read_Bytes False some l e by (auto simp: tap_fd_handler_def read_ok_def)
  qed (use r t False some in \<open>auto simp: tap_fd_handler_def\<close>)
qed (use r t in \<open>auto simp: tap_fd_handler_def\<close>)

definition tap_opened :: "BTap \<Rightarrow> 'h reactor_spec \<Rightarrow> bool \<Rightarrow> BTap \<Rightarrow> 'h reactor_spec \<Rightarrow> sys_call list \<Rightarrow> bool" where
  "tap_opened t s ok t' s' calls \<longleftrightarrow>
     (if ok then tap_wf t' s' \<and> tap_output_packet t' = None \<and> tap_fd t' = tap_fd t \<and> calls = []
      else sp_monitored s' = sp_monitored s \<and> calls = (if tap_close_fd t then [Sys_Close (tap_fd t)] else []))"

lemma tap_finish_step:
  assumes r: "refines s clk r" and n: "sp_monitored s (tap_bfd t) = None"
  shows "\<exists>ok t' r' calls s'. tap_finish nonblocking add_ok hfd t r = Some (ok, t', r', calls) \<and> refines s' clk r' \<and> tap_opened t s ok t' s' calls"
proof -
  let ?s = "\<lambda>w. s\<lparr>sp_fd := (sp_fd s)(tap_bfd t \<mapsto> (tap_fd t, hfd)), sp_monitored := (sp_monitored s)(tap_bfd t := w)\<rparr>"
  let ?c = "if tap_close_fd t then [Sys_Close (tap_fd t)] else []"
  have keep: "(sp_monitored s)(tap_bfd t := None) = sp_monitored s" using n by (simp add: fun_upd_idem)
  obtain added r' where w: "watch_fd (tap_bfd t) (tap_fd t) hfd add_ok r = Some (added, r')" "refines (?s (if added then Some 0 else None)) clk r'"
    using watch_step [OF r n] by blast
  consider "\<not> nonblocking" | "nonblocking" "\<not> added" | "nonblocking" "added" by blast
  then show ?thesis
  proof cases
    case 1
    then show ?thesis using r by (intro exI [of _ False] exI [of _ t] exI [of _ r] exI [of _ ?c] exI [of _ s]) (simp add: tap_finish_def tap_opened_def)
  next
    case 2
    then show ?thesis using w keep
      by (intro exI [of _ False] exI [of _ t] exI [of _ r'] exI [of _ ?c] exI [of _ "?s None"]) (simp add: tap_finish_def tap_opened_def)
  next
    case 3
    then show ?thesis using w
      by (intro exI [of _ True] exI [of _ "t\<lparr>tap_poll_events := 0, tap_output_packet := None\<rparr>"] exI [of _ r'] exI [of _ "[]"] exI [of _ "?s (Some 0)"])
        (simp add: tap_finish_def tap_opened_def tap_wf_def rw_events_def)
  qed
qed

text \<open>A descriptor that was passed in stays open when the initialization fails, one that was opened is closed.\<close>

fun tap_source :: "BTap_dev_type \<Rightarrow> BTap_init_data \<Rightarrow> BTap \<Rightarrow> BTap" where
  "tap_source dev (BTAP_INIT_FD fd mtu) t = t\<lparr>tap_close_fd := False, tap_fd := fd, tap_frame_mtu := mtu\<rparr>"
| "tap_source dev (BTAP_INIT_STRING fd configured mtu) t =
     t\<lparr>tap_close_fd := (0 \<le> fd), tap_fd := fd, tap_frame_mtu := (case mtu of Some m \<Rightarrow> if dev = BTAP_DEV_TUN then m else m + BTAP_ETHERNET_HEADER_LENGTH | None \<Rightarrow> tap_frame_mtu t)\<rparr>"

lemma tap_open_step:
  assumes r: "refines s clk r" and n: "sp_monitored s (tap_bfd t) = None" and fd: "\<And>fd mtu. init = BTAP_INIT_FD fd mtu \<Longrightarrow> 0 \<le> fd \<and> (dev = BTAP_DEV_TAP \<longrightarrow> BTAP_ETHERNET_HEADER_LENGTH \<le> mtu)"
  shows "\<exists>ok t' r' calls s'. BTap_Init2 dev init nonblocking add_ok hfd t r = Some (ok, t', r', calls) \<and> refines s' clk r'
    \<and> tap_opened (tap_source dev init t) s ok t' s' calls"
proof (cases init)
  case (BTAP_INIT_FD fd mtu)
  have "sp_monitored s (tap_bfd (tap_source dev init t)) = None" using n BTAP_INIT_FD by simp
  from tap_finish_step [OF r this, of nonblocking add_ok hfd] show ?thesis using fd BTAP_INIT_FD by (simp add: BTap_Init2_def Let_def)
next
  case (BTAP_INIT_STRING fd configured mtu)
  have n': "sp_monitored s (tap_bfd (tap_source dev init t)) = None" using n BTAP_INIT_STRING by simp
  show ?thesis
  proof (cases "0 \<le> fd \<and> configured \<and> mtu \<noteq> None")
    case True
    then have "BTap_Init2 dev init nonblocking add_ok hfd t r = tap_finish nonblocking add_ok hfd (tap_source dev init t) r"
      using BTAP_INIT_STRING by (auto simp: BTap_Init2_def Let_def)
    then show ?thesis using tap_finish_step [OF r n', of nonblocking add_ok hfd] by simp
  next
    case False
    then show ?thesis using r BTAP_INIT_STRING
      by (intro exI [of _ False] exI [of _ "t\<lparr>tap_close_fd := True, tap_fd := fd\<rparr>"] exI [of _ r]
          exI [of _ "if 0 \<le> fd then [Sys_Close fd] else []"] exI [of _ s])
        (auto simp: BTap_Init2_def Let_def tap_opened_def split: option.splits)
  qed
qed

lemma tap_free_step:
  assumes r: "refines s clk r" and t: "tap_wf t s"
  shows "\<exists>r' s'. BTap_Free t r = Some (r', if tap_close_fd t then [Sys_Close (tap_fd t)] else []) \<and> refines s' clk r'
    \<and> sp_monitored s' = (sp_monitored s)(tap_bfd t := None)"
proof -
  have "sp_monitored s (tap_bfd t) \<noteq> None" using t by (simp add: tap_wf_def)
  from remove_fd_step [OF r this] obtain r' where "BReactor_RemoveFileDescriptor (tap_bfd t) r = Some r'"
    "refines (s\<lparr>sp_monitored := (sp_monitored s)(tap_bfd t := None), sp_reported := (sp_reported s)(tap_bfd t := None)\<rparr>) clk r'" by blast
  then show ?thesis
    by (intro exI [of _ r'] exI [of _ "s\<lparr>sp_monitored := (sp_monitored s)(tap_bfd t := None), sp_reported := (sp_reported s)(tap_bfd t := None)\<rparr>"])
      (simp add: BTap_Free_def)
qed


section \<open>Properties\<close>

lemma address_roundtrip: "BConnection_AddressSupported addr \<Longrightarrow> map_option addr_sys_to_socket (addr_socket_to_sys addr) = Some addr"
  by (cases addr) (simp_all add: BConnection_AddressSupported_def)

text \<open>
  C6: No wakeup is lost: whatever events the reactor reports, until the connection itself reports an error its descriptor is registered
  for writing if a send is pending and for reading if a receive is pending that its job does not retry anyway; after a hangup it is not
  registered, and nothing is left waiting for it. As long as no error was reported alone (\<open>Bare_Error\<close>: with neither a hangup nor all the
  readiness waited for), it is registered for nothing else, so no wakeup comes for an operation that is not pending.
\<close>

theorem connection_waits_for_pending_io:
  assumes "conn_run o1 s clk r tr" "Did BC_Error \<notin> set tr"
  shows "if bc_is_hupd o1
      then sp_monitored s (bc_bfd o1) = None \<and> bc_send_state o1 \<noteq> SEND_STATE_BUSY
        \<and> (bc_recv_state o1 = RECV_STATE_BUSY \<longrightarrow> bc_recv_job o1 \<in> set (sp_pending s))
      else \<exists>rd wr. sp_monitored s (bc_bfd o1) = Some (rw_events rd wr) \<and> fd_waitEvents (rc_fds r (bc_bfd o1)) = rw_events rd wr
        \<and> (bc_recv_state o1 = RECV_STATE_BUSY \<and> bc_recv_job o1 \<notin> set (sp_pending s) \<longrightarrow> rd)
        \<and> (bc_send_state o1 = SEND_STATE_BUSY \<longrightarrow> wr)
        \<and> (Bare_Error \<notin> set tr \<longrightarrow> (rd \<longrightarrow> bc_recv_state o1 = RECV_STATE_BUSY \<and> bc_recv_job o1 \<notin> set (sp_pending s))
             \<and> (wr \<longrightarrow> bc_send_state o1 = SEND_STATE_BUSY))"
proof -
  have I: "refines s clk r" "conn_wf o1 s" "conn_live (Bare_Error \<notin> set tr) o1 s"
    using conn_run_inv [OF assms(1)] assms(2) by (simp_all, cases "Bare_Error \<in> set tr") simp_all
  have m: "sp_monitored s (bc_bfd o1) = Some (fd_waitEvents (rc_fds r (bc_bfd o1)))" if "sp_monitored s (bc_bfd o1) \<noteq> None"
    using that fds_matchD(3) [OF refinesD(2) [OF I(1)], of "bc_bfd o1"] by (simp split: if_splits)
  show ?thesis
  proof (cases "bc_is_hupd o1")
    case True
    then show ?thesis using I(3) conn_wfD(5) [OF I(2)] by (simp add: conn_live_def recv_waits_def)
  next
    case False
    then obtain a b where "bc_wait_events o1 = rw_events a b" "recv_waits o1 s \<longrightarrow> a" "bc_send_state o1 = SEND_STATE_BUSY \<longrightarrow> b"
      "Bare_Error \<notin> set tr \<longrightarrow> a = recv_waits o1 s \<and> b = (bc_send_state o1 = SEND_STATE_BUSY)"
      using I(3) by (auto simp: conn_live_def waits_for_def)
    then show ?thesis using False m conn_wfD(5) [OF I(2)] unfolding recv_waits_def
      by (simp only: if_False) (intro exI [of _ a] exI [of _ b], simp)
  qed
qed

text \<open>
  C7: Whenever the user and the interfaces keep their promises, no operation of a connection other than the handling of a descriptor event
  fails an assertion or breaks the event loop, and the connection is again in a state of a run; and no descriptor event that the
  reactor may report does, an error alone included, as long as none was reported alone before. When the interfaces are freed the connection can
  be freed, whatever happened before.
\<close>

theorem connection_never_fails:
  assumes "conn_run o1 s clk r tr"
  shows "(conn_allowed a o1 s \<and> may_do a tr \<and> (is_event a \<longrightarrow> Bare_Error \<notin> set tr) \<longrightarrow>
      (\<exists>o2 r2 cs s2. conn_do a o1 r = Some (o2, r2, cs) \<and> refines s2 clk r2 \<and> conn_run o2 s2 clk r2 (log_op a o1 cs tr)))
    \<and> (bc_send_state o1 = SEND_STATE_NOT_INITED \<and> bc_recv_state o1 = RECV_STATE_NOT_INITED \<longrightarrow>
      (\<exists>r' s'. BConnection_Free o1 r = Some (r', if bc_close_fd o1 then [Sys_Close (bc_fd o1)] else []) \<and> refines s' clk r'
         \<and> sp_monitored s' (bc_bfd o1) = None))"
proof -
  have I: "refines s clk r" "conn_wf o1 s" using conn_run_inv [OF assms] by simp_all
  show ?thesis using conn_run_can [OF assms, of a] conn_run_inv conn_free_step [OF I] by fastforce
qed

text \<open>
  C8: What a connection wrote to its socket is, byte for byte, what it confirmed as sent. A request is outstanding exactly while the
  interface is busy; every answer belongs to an outstanding request, confirms or delivers at least one byte and no more than were asked for.
  This is of every run up to the first failed assertion; by \<open>connection_never_fails\<close> none fails before an error was reported alone.
\<close>

theorem connection_streams:
  assumes "conn_run o1 s clk r tr"
  shows "written tr = confirmed tr \<and> answers_fit tr
    \<and> outstanding_send tr = (if bc_send_state o1 = SEND_STATE_BUSY then Some (bc_send_busy_data o1) else None)
    \<and> outstanding_recv tr = (if bc_recv_state o1 = RECV_STATE_BUSY then Some (bc_recv_busy_data_avail o1) else None)"
  using conn_run_tracks [OF assms] by (simp add: tracks_def)

text \<open>
  C39: A connector that waits for its connection reports success exactly if the socket has no error. The descriptor is then
  handed to the connection, which starts a run or closes it; the connector closes it otherwise. It is never closed twice.
\<close>

theorem connect_hands_over_descriptor:
  assumes "refines s clk r" "connector_wf c s" "co_have_bfd c" "conn_new o0 s" "co_bfd c \<noteq> bc_bfd o0"
  shows "\<exists>c' r'. connector_fd_handler error c r = Some (error \<noteq> Some 0, c', r')
    \<and> (if error = Some 0
       then \<exists>ok o1 c2 r2 calls. BConnection_Init (Source_Connector c') add_ok hfd o0 r' = Some (ok, o1, Source_Connector c2, None, r2, calls)
         \<and> (if ok then calls = [] \<and> bc_fd o1 = co_fd c \<and> bc_close_fd o1 \<and> (\<exists>s'. conn_run o1 s' clk r2 []) else calls = [Sys_Close (co_fd c)])
         \<and> (\<exists>r3. BConnector_Free c2 r2 = Some (r3, []))
       else \<exists>r3. BConnector_Free c' r' = Some (r3, [Sys_Close (co_fd c)]))"
proof -
  let ?c = "c\<lparr>co_have_bfd := False, co_connected := (error = Some 0)\<rparr>"
  obtain r' s' where h: "connector_fd_handler error c r = Some (error \<noteq> Some 0, ?c, r')" "refines s' clk r'" "connector_wf ?c s'"
    "sp_pending s' = sp_pending s" "sp_job s' = sp_job s" "sp_limit s' = sp_limit s" "\<forall>p. p \<noteq> co_bfd c \<longrightarrow> sp_monitored s' p = sp_monitored s p"
    using connector_fd_step [OF assms(1-3), of error] by blast
  have fd: "0 \<le> co_fd c" "co_job c \<notin> set (sp_pending s)" using assms(2,3) by (auto simp: connector_wf_def)
  have n: "conn_new o0 s'" using assms(4,5) h(5-7) by (simp add: conn_new_def)
  show ?thesis
  proof (cases "error = Some 0")
    case True
    have c: "connector_wf ?c s'" "\<not> co_have_bfd ?c" "co_connected ?c" "0 \<le> co_fd ?c" "co_job ?c \<notin> set (sp_pending s')" "co_bfd ?c \<noteq> bc_bfd o0"
      using h(3,4) fd True assms(5) by simp_all
    from connector_handover [OF h(2) c(1-5) n c(6), of add_ok hfd] obtain ok o1 r2 calls where
      H: "BConnection_Init (Source_Connector ?c) add_ok hfd o0 r' = Some (ok, o1, Source_Connector (?c\<lparr>co_fd := -1\<rparr>), None, r2, calls)"
      "if ok then calls = [] \<and> bc_fd o1 = co_fd ?c \<and> bc_close_fd o1 \<and> (\<exists>s'. conn_run o1 s' clk r2 []) else calls = [Sys_Close (co_fd ?c)]"
      "\<exists>r3. BConnector_Free (?c\<lparr>co_fd := -1\<rparr>) r2 = Some (r3, [])" by blast
    show ?thesis unfolding if_P [OF True] h(1)
      by (rule exI [of _ ?c], rule exI [of _ r'], rule conjI, rule refl, rule exI [of _ ok], rule exI [of _ o1],
          rule exI [of _ "?c\<lparr>co_fd := -1\<rparr>"], rule exI [of _ r2], rule exI [of _ calls]) (use H in simp)
  next
    case False
    have "co_fd ?c \<noteq> -1" using fd(1) by simp
    then show ?thesis using connector_free_step [OF h(2,3)] False unfolding if_not_P [OF False] h(1)
      by (intro exI [of _ ?c] exI [of _ r']) auto
  qed
qed

text \<open>
  C40: Whatever \<^verbatim>\<open>read\<close> returns, asking the TUN device for a packet and an event of its descriptor succeed: a packet is delivered at most once and
  only while one is asked for, and the descriptor stays registered for input exactly while a request could not be answered at once.
\<close>

theorem tun_device_waits_for_reader:
  assumes "refines s clk r" "tap_wf t s" "read_ok (tap_frame_mtu t) res"
  shows "sp_monitored s (tap_bfd t) = Some (if tap_output_packet t = None then 0 else BREACTOR_READ)
    \<and> (tap_output_packet t = None \<longrightarrow> (\<exists>t' r' cs s'. tap_output_handler_recv data res t r = Some (t', r', cs) \<and> refines s' clk r' \<and> tap_wf t' s'
         \<and> cs = (case res of Read_Again \<Rightarrow> [] | Read_Error \<Rightarrow> [Tap_Error] | Read_Bytes bytes \<Rightarrow> [Tap_Recv_Done bytes])
         \<and> tap_output_packet t' = (if res = Read_Again then Some data else None)))
    \<and> (reported_for (tap_poll_events t) ev \<longrightarrow> (\<exists>t' r' cs s'. tap_fd_handler ev res t r = Some (t', r', cs) \<and> refines s' clk r' \<and> tap_wf t' s'
         \<and> cs = (if ev AND BREACTOR_READ = 0 then [] else case res of Read_Again \<Rightarrow> [] | Read_Error \<Rightarrow> [Tap_Error] | Read_Bytes bytes \<Rightarrow> [Tap_Recv_Done bytes])
         \<and> tap_output_packet t' = (if \<exists>bytes. Tap_Recv_Done bytes \<in> set cs then None else tap_output_packet t)))"
proof -
  have "sp_monitored s (tap_bfd t) = Some (if tap_output_packet t = None then 0 else BREACTOR_READ)"
    using assms(2) by (simp add: tap_wf_def rw_events_def)
  then show ?thesis using tap_recv_step [OF assms(1,2) _ assms(3)] tap_fd_step [OF assms(1,2) _ assms(3)] by simp
qed


section \<open>A connection in use\<close>

text \<open>
  On the reactor of \<open>demo_reactor\<close>: a connection over the descriptor 7 sends three bytes, of which two are written, and then one byte for which it has to
  wait; a connector waits for its connection; the TUN device is descriptor 5.
\<close>

definition demo_conn0 :: BConnection where
  "demo_conn0 = \<lparr>bc_fd = 0, bc_close_fd = False, bc_is_hupd = True, bc_bfd = 1, bc_wait_events = 5, bc_send_limit = 2, bc_send_job = 4,
     bc_send_busy_data = [], bc_send_state = SEND_STATE_BUSY, bc_recv_limit = 3, bc_recv_job = 5, bc_recv_busy_data_avail = 0,
     bc_recv_state = RECV_STATE_BUSY\<rparr>"

definition demo_opened :: "BConnection \<times> nat BReactor" where
  "demo_opened = (case BConnection_Init (Source_Pipe 7 True) True 9 demo_conn0 demo_reactor of
     Some (ok, o1, src, addr, r, calls) \<Rightarrow> (o1, r) | None \<Rightarrow> (demo_conn0, demo_reactor))"

definition demo_next :: "nat conn_op \<Rightarrow> BConnection \<times> nat BReactor \<Rightarrow> BConnection \<times> nat BReactor" where
  "demo_next a x = (case conn_do a (fst x) (snd x) of Some (o2, r2, cs) \<Rightarrow> (o2, r2) | None \<Rightarrow> x)"

definition demo_ready :: "BConnection \<times> nat BReactor" where "demo_ready = demo_next (Init_Send 4) demo_opened"
definition demo_sent :: "BConnection \<times> nat BReactor" where "demo_sent = demo_next (Send [1, 2, 3] (Wrote 2)) demo_ready"
definition demo_stuck :: "BConnection \<times> nat BReactor" where "demo_stuck = demo_next (Send [3] Write_Again) demo_sent"

lemma demo_start_refines: "refines spec_start 0 demo_reactor"
  using reactor_run_refines [OF demo_start] by simp

lemma demo_run_opened: "\<exists>s. conn_run (fst demo_opened) s 0 (snd demo_opened) []"
proof -
  have n: "conn_new demo_conn0 (spec_start :: nat reactor_spec)" by (simp add: conn_new_def demo_conn0_def spec_start_def)
  have "source_ready (Source_Pipe 7 True) (spec_start :: nat reactor_spec)" by simp
  from conn_open_step [OF demo_start_refines n this, of True 9] obtain ok o1 addr r' calls s' where
    i: "BConnection_Init (Source_Pipe 7 True) True 9 demo_conn0 demo_reactor = Some (ok, o1, Source_Pipe 7 True, addr, r', calls)"
    "refines s' 0 r'" "conn_opened (Source_Pipe 7 True) demo_conn0 spec_start ok o1 s' calls" by auto
  have "map_option fst (BConnection_Init (Source_Pipe 7 True) True 9 demo_conn0 demo_reactor) = Some True" by code_simp
  then have "ok" using i(1) by simp
  then have "conn_run o1 s' 0 r' []" using i(2,3) conn_start [of s' 0 r' o1] by (simp add: conn_opened_def)
  moreover have e: "demo_opened = (o1, r')" using i(1) by (simp add: demo_opened_def)
  ultimately show ?thesis unfolding e fst_conv snd_conv by blast
qed

lemma demo_run_next:
  assumes "\<exists>s. conn_run (fst x) s 0 (snd x) tr" "\<And>s. conn_run (fst x) s 0 (snd x) tr \<Longrightarrow> conn_allowed a (fst x) s" "may_do a tr"
    "map_option (snd \<circ> snd) (conn_do a (fst x) (snd x)) = Some cs" "Bare_Error \<notin> set tr"
  shows "\<exists>s. conn_run (fst (demo_next a x)) s 0 (snd (demo_next a x)) (log_op a (fst x) cs tr)"
proof -
  obtain s where s: "conn_run (fst x) s 0 (snd x) tr" using assms(1) by blast
  from conn_run_can [OF s assms(2) [OF s] assms(3,5)] show ?thesis using assms(4) by (auto simp: demo_next_def)
qed

lemma demo_states: "bc_send_state (fst demo_opened) = SEND_STATE_NOT_INITED" "bc_send_state (fst demo_ready) = SEND_STATE_READY"
  "bc_send_state (fst demo_sent) = SEND_STATE_READY" "bc_send_state (fst demo_stuck) = SEND_STATE_BUSY" "bc_recv_state (fst demo_stuck) = RECV_STATE_NOT_INITED"
  "bc_is_hupd (fst demo_stuck) = False" "bc_bfd (fst demo_stuck) = 1" "bc_send_busy_data (fst demo_stuck) = [3]"
  by code_simp+

lemma demo_run_ready: "\<exists>s. conn_run (fst demo_ready) s 0 (snd demo_ready) []"
proof -
  have "map_option (snd \<circ> snd) (conn_do (Init_Send 4) (fst demo_opened) (snd demo_opened)) = Some []" by code_simp
  from demo_run_next [OF demo_run_opened _ _ this] show ?thesis by (simp add: demo_ready_def conn_allowed_def demo_states may_do_def log_op_def)
qed

lemma demo_run_sent: "\<exists>s. conn_run (fst demo_sent) s 0 (snd demo_sent) [Did (BC_Send_Done 2), Did (BC_Written [1, 2]), Asked_Send [1, 2, 3]]"
proof -
  have "map_option (snd \<circ> snd) (conn_do (Send [1, 2, 3] (Wrote 2)) (fst demo_ready) (snd demo_ready)) = Some [BC_Written [1, 2], BC_Send_Done 2]"
    by code_simp
  from demo_run_next [OF demo_run_ready _ _ this] show ?thesis
    by (simp add: demo_sent_def conn_allowed_def demo_states may_do_def log_op_def write_ok_def)
qed

definition demo_log :: "conn_event list" where
  "demo_log = [Asked_Send [3], Did (BC_Send_Done 2), Did (BC_Written [1, 2]), Asked_Send [1, 2, 3]]"

lemma demo_run_stuck: "\<exists>s. conn_run (fst demo_stuck) s 0 (snd demo_stuck) demo_log"
proof -
  have "map_option (snd \<circ> snd) (conn_do (Send [3] Write_Again) (fst demo_sent) (snd demo_sent)) = Some []" by code_simp
  from demo_run_next [OF demo_run_sent _ _ this] show ?thesis
    by (simp add: demo_stuck_def demo_log_def conn_allowed_def demo_states may_do_def log_op_def write_ok_def)
qed

theorem connection_waits_for_pending_io_witness:
  "\<exists>s. conn_run (fst demo_stuck) s 0 (snd demo_stuck) demo_log \<and> sp_monitored s 1 = Some BREACTOR_WRITE"
proof -
  obtain s where s: "conn_run (fst demo_stuck) s 0 (snd demo_stuck) demo_log" using demo_run_stuck by blast
  from connection_waits_for_pending_io [OF s] show ?thesis using s by (auto simp: demo_log_def demo_states rw_events_def)
qed

theorem connection_never_fails_witness:
  "\<exists>o2 r2 cs s2. conn_do Free_Send (fst demo_stuck) (snd demo_stuck) = Some (o2, r2, cs)
    \<and> conn_run o2 s2 0 r2 (log_op (Free_Send :: nat conn_op) (fst demo_stuck) cs demo_log)"
proof -
  obtain s where s: "conn_run (fst demo_stuck) s 0 (snd demo_stuck) demo_log" using demo_run_stuck by blast
  have "conn_allowed Free_Send (fst demo_stuck) s" "may_do (Free_Send :: nat conn_op) demo_log" by (simp_all add: conn_allowed_def may_do_def demo_states)
  moreover have "\<not> is_event (Free_Send :: nat conn_op)" by simp
  ultimately show ?thesis using connection_never_fails [OF s, of Free_Send] by blast
qed

theorem connection_streams_witness:
  "written demo_log = [1, 2] \<and> confirmed demo_log = [1, 2] \<and> outstanding_send demo_log = Some [3]"
proof -
  obtain s where s: "conn_run (fst demo_stuck) s 0 (snd demo_stuck) demo_log" using demo_run_stuck by blast
  show ?thesis using connection_streams [OF s] by (simp add: demo_states demo_log_def)
qed

text \<open>
  Why the exactness and the assertions need that no error was reported alone. The connection of \<open>demo_wait\<close> waits to write one byte. The
  reactor reports an error without readiness to write, as a poll of the write end of a full pipe does when the reading end is closed; the handler
  tries the write (which may succeed when the descriptor has room again by then), confirms it and leaves \<^verbatim>\<open>BREACTOR_WRITE\<close> registered, since it
  cleared only the events it was given. The next event for writing then finds no send pending: its assertion fails, and in a build
  with \<^verbatim>\<open>NDEBUG\<close> the handler writes and confirms without a request.
\<close>

definition demo_wait :: "BConnection \<times> nat BReactor" where "demo_wait = demo_next (Send [3] Write_Again) demo_ready"

definition demo_bare :: "BConnection \<times> nat BReactor" where
  "demo_bare = demo_next (FD_Event BREACTOR_ERROR (Wrote 1) Read_Again) demo_wait"

lemma conn_run_event:
  assumes "conn_run o1 s clk r tr" "\<not> bc_is_hupd o1" "\<not> BPendingGroup_HasJobs (rc_pending_jobs r)" "reported_for (bc_wait_events o1) ev"
    "write_ok (bc_send_busy_data o1) wres" "read_ok (bc_recv_busy_data_avail o1) rres"
  shows "conn_allowed (FD_Event ev wres rres) o1 s"
proof -
  have I: "refines s clk r" "conn_wf o1 s" using conn_run_inv [OF assms(1)] by simp_all
  have "sp_pending s = []" using jobs_match_has [OF refinesD(4) [OF I(1)]] assms(3) by simp
  then show ?thesis using conn_wfD(5) [OF I(2)] assms by (simp add: conn_allowed_def)
qed

lemma demo_bare_states:
  "bc_send_state (fst demo_wait) = SEND_STATE_BUSY" "bc_is_hupd (fst demo_wait) = False" "bc_send_busy_data (fst demo_wait) = [3]"
  "BPendingGroup_HasJobs (rc_pending_jobs (snd demo_wait)) = False" "bc_wait_events (fst demo_wait) = BREACTOR_WRITE"
  "BPendingGroup_HasJobs (rc_pending_jobs (snd demo_bare)) = False" "bc_wait_events (fst demo_bare) = BREACTOR_WRITE"
  "bc_is_hupd (fst demo_bare) = False" "bc_send_state (fst demo_bare) = SEND_STATE_READY" "bc_send_busy_data (fst demo_bare) = [3]"
  "reported_for BREACTOR_WRITE BREACTOR_ERROR" "reported_for BREACTOR_WRITE BREACTOR_WRITE" "bare_error BREACTOR_ERROR (fst demo_wait)"
  "conn_do (FD_Event BREACTOR_WRITE (Wrote 1) Read_Again) (fst demo_bare) (snd demo_bare) = None"
  by code_simp+

lemma demo_run_wait: "\<exists>s. conn_run (fst demo_wait) s 0 (snd demo_wait) [Asked_Send [3]]"
proof -
  have "map_option (snd \<circ> snd) (conn_do (Send [3] Write_Again) (fst demo_ready) (snd demo_ready)) = Some []" by code_simp
  from demo_run_next [OF demo_run_ready _ _ this] show ?thesis
    by (simp add: demo_wait_def conn_allowed_def demo_states may_do_def log_op_def write_ok_def)
qed

lemma bare_error_leaves_stale_registration:
  "\<exists>s. conn_run (fst demo_bare) s 0 (snd demo_bare) (Did (BC_Send_Done 1) # Did (BC_Written [3]) # Bare_Error # [Asked_Send [3]])
    \<and> bc_send_state (fst demo_bare) = SEND_STATE_READY \<and> sp_monitored s 1 = Some BREACTOR_WRITE
    \<and> conn_allowed (FD_Event BREACTOR_WRITE (Wrote 1) Read_Again) (fst demo_bare) s
    \<and> conn_do (FD_Event BREACTOR_WRITE (Wrote 1) Read_Again) (fst demo_bare) (snd demo_bare) = None"
proof -
  let ?tr = "Did (BC_Send_Done 1) # Did (BC_Written [3]) # Bare_Error # [Asked_Send [3]]"
  have d: "map_option (snd \<circ> snd) (conn_do (FD_Event BREACTOR_ERROR (Wrote 1) Read_Again) (fst demo_wait) (snd demo_wait))
      = Some [BC_Written [3], BC_Send_Done 1]" by code_simp
  have "conn_allowed (FD_Event BREACTOR_ERROR (Wrote 1) Read_Again) (fst demo_wait) s" if "conn_run (fst demo_wait) s 0 (snd demo_wait) [Asked_Send [3]]" for s
    by (rule conn_run_event [OF that]) (simp_all add: demo_states demo_bare_states write_ok_def read_ok_def)
  from demo_run_next [OF demo_run_wait this _ d] obtain s where s: "conn_run (fst demo_bare) s 0 (snd demo_bare) ?tr"
    by (auto simp: demo_bare_def log_op_def may_do_def demo_bare_states)
  have "conn_allowed (FD_Event BREACTOR_WRITE (Wrote 1) Read_Again) (fst demo_bare) s"
    by (rule conn_run_event [OF s]) (simp_all add: demo_bare_states write_ok_def read_ok_def)
  moreover have "bc_bfd (fst demo_bare) = 1" by code_simp
  ultimately show ?thesis using s conn_wfD(5) [of "fst demo_bare" s] conn_run_inv [OF s] by (intro exI [of _ s]) (simp add: demo_bare_states del: One_nat_def)
qed

definition demo_connecting :: "BConnector \<times> nat BReactor" where
  "demo_connecting = (case BConnector_Init (BAddr_IPv4 1 80) 6 True Connect_InProgress True 1 2
       \<lparr>co_fd = 0, co_connected = True, co_have_bfd = False, co_bfd = 8, co_job = 9\<rparr> demo_reactor of
     Some (ok, c, r, calls) \<Rightarrow> (c, r) | None \<Rightarrow> (\<lparr>co_fd = 0, co_connected = True, co_have_bfd = False, co_bfd = 8, co_job = 9\<rparr>, demo_reactor))"

lemma demo_connecting_wf:
  "\<exists>s. refines s 0 (snd demo_connecting) \<and> connector_wf (fst demo_connecting) s \<and> co_have_bfd (fst demo_connecting) \<and> conn_new demo_conn0 s
    \<and> co_bfd (fst demo_connecting) = 8"
proof -
  let ?c = "\<lparr>co_fd = 0, co_connected = True, co_have_bfd = False, co_bfd = 8, co_job = 9\<rparr>"
  have n: "connector_new ?c (spec_start :: nat reactor_spec)" by (simp add: connector_new_def spec_start_def)
  from connector_start_step [OF demo_start_refines n, of 6 True Connect_InProgress True 1 2] obtain ok c' r' calls s' where
    i: "connector_start 6 True Connect_InProgress True 1 2 ?c demo_reactor = Some (ok, c', r', calls)" "refines s' 0 r'"
    "connector_started ?c 6 Connect_InProgress 2 spec_start ok c' s' calls" by blast
  have e: "BConnector_Init (BAddr_IPv4 1 80) 6 True Connect_InProgress True 1 2 ?c demo_reactor = connector_start 6 True Connect_InProgress True 1 2 ?c demo_reactor"
    by (simp add: BConnector_Init_def BConnection_AddressSupported_def)
  have "map_option fst (BConnector_Init (BAddr_IPv4 1 80) 6 True Connect_InProgress True 1 2 ?c demo_reactor) = Some True" by code_simp
  then have ok: "ok" using i(1) by (simp only: e) simp
  have d: "demo_connecting = (c', r')" using i(1) unfolding demo_connecting_def e by simp
  show ?thesis unfolding d fst_conv snd_conv using i(2,3) ok
    by (intro exI [of _ s']) (auto simp: connector_started_def conn_new_def demo_conn0_def spec_start_def)
qed

theorem connect_hands_over_descriptor_witness:
  "\<exists>c' r'. connector_fd_handler (Some 0) (fst demo_connecting) (snd demo_connecting) = Some (False, c', r')
    \<and> (\<exists>ok o1 c2 r2 calls r3. BConnection_Init (Source_Connector c') True 3 demo_conn0 r' = Some (ok, o1, Source_Connector c2, None, r2, calls)
         \<and> BConnector_Free c2 r2 = Some (r3, []))"
proof -
  obtain s where s: "refines s 0 (snd demo_connecting)" "connector_wf (fst demo_connecting) s" "co_have_bfd (fst demo_connecting)"
    "conn_new demo_conn0 s" "co_bfd (fst demo_connecting) = 8" using demo_connecting_wf by blast
  have "co_bfd (fst demo_connecting) \<noteq> bc_bfd demo_conn0" using s(5) by (simp add: demo_conn0_def)
  from connect_hands_over_descriptor [OF s(1-4) this, of "Some 0" True 3] show ?thesis by (auto intro: exI)
qed

definition demo_tap :: "BTap \<times> nat BReactor" where
  "demo_tap = (case BTap_Init2 BTAP_DEV_TUN (BTAP_INIT_FD 5 1500) True True 3
       \<lparr>tap_close_fd = True, tap_fd = 0, tap_bfd = 6, tap_frame_mtu = 0, tap_output_packet = Some 1, tap_poll_events = 9\<rparr> demo_reactor of
     Some (ok, t, r, calls) \<Rightarrow> (t, r) | None \<Rightarrow> (\<lparr>tap_close_fd = True, tap_fd = 0, tap_bfd = 6, tap_frame_mtu = 0, tap_output_packet = Some 1, tap_poll_events = 9\<rparr>, demo_reactor))"

lemma demo_tap_wf: "\<exists>s. refines s 0 (snd demo_tap) \<and> tap_wf (fst demo_tap) s" "tap_frame_mtu (fst demo_tap) = 1500" "tap_output_packet (fst demo_tap) = None"
proof -
  let ?t = "\<lparr>tap_close_fd = True, tap_fd = 0, tap_bfd = 6, tap_frame_mtu = 0, tap_output_packet = Some 1, tap_poll_events = 9\<rparr>"
  have "sp_monitored (spec_start :: nat reactor_spec) (tap_bfd ?t) = None" by (simp add: spec_start_def)
  from tap_open_step [OF demo_start_refines this, of "BTAP_INIT_FD 5 1500" BTAP_DEV_TUN True True 3] obtain ok t' r' calls s' where
    i: "BTap_Init2 BTAP_DEV_TUN (BTAP_INIT_FD 5 1500) True True 3 ?t demo_reactor = Some (ok, t', r', calls)" "refines s' 0 r'"
    "tap_opened (tap_source BTAP_DEV_TUN (BTAP_INIT_FD 5 1500) ?t) spec_start ok t' s' calls" by auto
  have "map_option fst (BTap_Init2 BTAP_DEV_TUN (BTAP_INIT_FD 5 1500) True True 3 ?t demo_reactor) = Some True" by code_simp
  then have "ok" using i(1) by simp
  moreover have d: "demo_tap = (t', r')" using i(1) by (simp add: demo_tap_def)
  ultimately show "\<exists>s. refines s 0 (snd demo_tap) \<and> tap_wf (fst demo_tap) s"
    unfolding d fst_conv snd_conv using i(2,3) by (auto simp: tap_opened_def)
  show "tap_frame_mtu (fst demo_tap) = 1500" "tap_output_packet (fst demo_tap) = None" by code_simp+
qed

theorem tun_device_waits_for_reader_witness:
  "\<exists>t' r' cs s'. tap_output_handler_recv 4 Read_Again (fst demo_tap) (snd demo_tap) = Some (t', r', cs) \<and> refines s' 0 r' \<and> tap_wf t' s'
    \<and> cs = [] \<and> tap_output_packet t' = Some 4"
proof -
  obtain s where s: "refines s 0 (snd demo_tap)" "tap_wf (fst demo_tap) s" using demo_tap_wf(1) by blast
  have "read_ok (tap_frame_mtu (fst demo_tap)) Read_Again" by (simp add: read_ok_def)
  from tun_device_waits_for_reader [OF s this, of 4] show ?thesis by (simp add: demo_tap_wf(3))
qed

end
