(* ===== verification/Spec2Isabelle.thy ===== *)
theory Spec2Isabelle
  imports Prelude Misc Fifo ChunkBuffer2 BPending Flow_Interfaces Packet_Proto BAddr Socks_Client
    UdpGw_Client Socks_UdpGw Net_Proto Tun_Device Tcp_Client Options Tun_Main Udp_Path
    Fair_Queue Packet_Flow Stream_Path BAVL CAvl BAVL_Rebalance BAVL_Refine BAVL_Index Tree_Users
    Ordered_Queue LinkedList1 Reactor Reactor_Timers Reactor_Rep Reactor_Spec Reactor_Run Reactor_Safety
    BConnection Connection_Run Connection_Safety Connection_Open Connection_Use
begin

text \<open>
  Verification of the native core of WSocksDroid: \<^verbatim>\<open>tun2socks\<close>, the program under
  \<^verbatim>\<open>src/app/src/main/jni/badvpn\<close> that reads IP packets from a TUN device and relays TCP through a SOCKS5
  server, UDP through a udpgw server reached over SOCKS, and DNS to a local gateway. The models follow the
  code as \<^verbatim>\<open>Android.mk\<close> builds it: Linux, little-endian, \<^verbatim>\<open>ANDROID\<close> and \<^verbatim>\<open>NDEBUG\<close> defined, \<^verbatim>\<open>ANDROID_UDP\<close> not.

  \<^bold>\<open>The program.\<close> Everything runs in one thread. The event loop runs the pending jobs
  (\<^verbatim>\<open>base/BPending.c\<close>), newest first, before it waits for descriptors and timers; the parts talk to each other
  through interfaces whose calls are such jobs (\<^verbatim>\<open>flow/*Interface.*\<close>). A packet read from the device goes to
  \<^verbatim>\<open>device_read_handler_send\<close> of \<^verbatim>\<open>tun2socks/tun2socks.c\<close>, which tries DNS, then UDP, then gives it to lwIP. lwIP
  calls back for accepted connections, received data and free send space; each connection is relayed by a
  \<^verbatim>\<open>tcp_client\<close> with its own SOCKS client (\<^verbatim>\<open>socksclient/BSocksClient.c\<close>). UDP packets go to
  \<^verbatim>\<open>SocksUdpGwClient\<close>, which keeps a SOCKS connection to the udpgw server alive, and to \<^verbatim>\<open>UdpGwClient\<close>, which gives
  every address pair a connection id; its connections write through a packet flow (writer, encoder, ring),
  share the output through a fair queue, and end in a connector and a stream sender.

  \<^bold>\<open>Theories and the code they model.\<close>
  \<^item> \<^verbatim>\<open>Prelude\<close>: machine types, a flat byte memory with \<^verbatim>\<open>memcpy\<close>, list and map lemmas. \<^verbatim>\<open>Misc\<close>: \<^verbatim>\<open>misc/byteorder.h\<close>,
    \<^verbatim>\<open>read_write_int.h\<close>, \<^verbatim>\<open>balign.h\<close>, \<^verbatim>\<open>minmax.h\<close>, \<^verbatim>\<open>compare.h\<close>, \<^verbatim>\<open>bsize.h\<close>.
  \<^item> \<^verbatim>\<open>Fifo\<close>, \<^verbatim>\<open>ChunkBuffer2\<close>: \<^verbatim>\<open>structure/ChunkBuffer2.h\<close>, the packet ring, on a byte memory. The ring refines a queue
    (locale \<open>packet_fifo\<close>); up to the size its \<^verbatim>\<open>int\<close> arithmetic allows it has the promised capacity; receiving in place is
    safe, its assertions hold.
  \<^item> \<^verbatim>\<open>BPending\<close>: \<^verbatim>\<open>base/BPending.c\<close> and the linked list of \<^verbatim>\<open>structure/SLinkedList_impl.h\<close> refine a stack of pending
    jobs (locale \<open>job_group\<close>).
  \<^item> \<^verbatim>\<open>Flow_Interfaces\<close>: the four interfaces. The locale \<open>io_interface\<close> states their common laws; each follows the
    protocol \<open>iface_proto\<close> as long as its users respect the assertions.
  \<^item> \<^verbatim>\<open>Packet_Proto\<close>: \<^verbatim>\<open>protocol/packetproto.h\<close>, encoder and decoder (locale \<open>framing\<close>). The decoder refines the
    reference parser \<open>parse_frames\<close> for every chunking of the stream.
  \<^item> \<^verbatim>\<open>Packet_Flow\<close>: \<^verbatim>\<open>flow/BufferWriter.c\<close>, \<^verbatim>\<open>PacketBuffer.c\<close>, \<^verbatim>\<open>PacketProtoFlow.c\<close>, composed with the encoder and the
    ring: nothing is lost, reordered or damaged, and the flow does not get stuck while the ring has at most \<open>2 ^ 29\<close> blocks.
  \<^item> \<^verbatim>\<open>Fair_Queue\<close>: \<^verbatim>\<open>flow/PacketPassFairQueue.c\<close>, with its 64-bit virtual times and their overflow, run with the
    inputs that hand it packets and the output it sends them to: the fairness bound of start-time fair queueing, measured in the
    packets sent, work conservation, tear-down, and that the assertions of its functions hold.
  \<^item> \<^verbatim>\<open>Stream_Path\<close>: \<^verbatim>\<open>flow/PacketPassConnector.c\<close>, \<^verbatim>\<open>PacketStreamSender.c\<close>, \<^verbatim>\<open>SinglePacketBuffer.c\<close>,
    \<^verbatim>\<open>flowextra/PacketPassInactivityMonitor.c\<close>: packets survive the loss of the server and every connection's
    stream starts with a whole packet.
  \<^item> \<^verbatim>\<open>BAddr\<close>: \<^verbatim>\<open>system/BAddr.h\<close>, addresses and their order (locale \<open>comparator\<close>, also interpreted for ports and flows).
  \<^item> \<^verbatim>\<open>Socks_Client\<close>: \<^verbatim>\<open>socksclient/BSocksClient.c\<close>, every handler: up is reported only after a correct handshake, a
    correct server reply in any chunks completes it, resources are balanced.
  \<^item> \<^verbatim>\<open>UdpGw_Client\<close>: \<^verbatim>\<open>udpgw_client/UdpGwClient.c\<close>, \<^verbatim>\<open>protocol/udpgw_proto.h\<close>. The connection table is a
    least-recently-used cache (locale \<open>lru_table\<close>); ids stay while they are in use; replies reach their owner only.
  \<^item> \<^verbatim>\<open>Socks_UdpGw\<close>: \<^verbatim>\<open>tun2socks/SocksUdpGwClient.c\<close>: exactly one of SOCKS client and reconnect timer exists.
  \<^item> \<^verbatim>\<open>Net_Proto\<close>: \<^verbatim>\<open>misc/ipv4_proto.h\<close>, \<^verbatim>\<open>ipv6_proto.h\<close>, \<^verbatim>\<open>udp_proto.h\<close>: headers in memory layout, checksums at the width
    of the code, proved against the one's complement sum of the RFCs.
  \<^item> \<^verbatim>\<open>Tun_Device\<close>: the packet handlers of \<^verbatim>\<open>tun2socks.c\<close>: DNS forwarding and its table, UDP in both directions,
    output of lwIP. \<^verbatim>\<open>Tcp_Client\<close>: the relay of TCP connections between what lwIP received and what was handed to the SOCKS
    client, and back: streams are passed on unchanged, a live client can always continue, half-closed clients drain
    unless an error ends them, clients are accounted for.
  \<^item> \<^verbatim>\<open>Options\<close>: \<^verbatim>\<open>parse_arguments\<close> and \<^verbatim>\<open>process_arguments\<close>. \<^verbatim>\<open>Tun_Main\<close>: \<^verbatim>\<open>main\<close> with every failure label and
    \<^verbatim>\<open>lwip_init_job_hadler\<close>: what these two acquire is released, but for the descriptor of the TUN device; the MTU for the gateway.
  \<^item> \<^verbatim>\<open>BAVL\<close>: \<^verbatim>\<open>structure/BAVL.h\<close>, the AVL tree in the memory of its nodes. \<^verbatim>\<open>BAVL_Rebalance\<close>, \<^verbatim>\<open>BAVL_Refine\<close>: rotations,
    rebalancing, insertion, removal and walks against the in-order sequence. \<^verbatim>\<open>BAVL_Index\<close>: the contract of a search tree
    (locale \<open>ordered_index\<close>), that the tree fulfils it for every comparator of the locale \<open>tree_order\<close>, its
    well-formedness in every run, and that its operations return. \<^verbatim>\<open>Tree_Users\<close>: the maps of \<^verbatim>\<open>UdpGw_Client\<close> and the
    sorted list of \<^verbatim>\<open>Tun_Device\<close> are what the trees of the code hold.
  \<^item> \<^verbatim>\<open>CAvl\<close>: \<^verbatim>\<open>structure/CAvl_impl.h\<close>, \<^verbatim>\<open>SAvl_impl.h\<close>, the second AVL tree, under timers and flows; the proofs of
    \<^verbatim>\<open>BAVL_Rebalance\<close> and \<^verbatim>\<open>BAVL_Refine\<close> go through for both. \<^verbatim>\<open>Ordered_Queue\<close>: it agrees with the first one, is a priority
    queue (locale \<open>ordered_queue\<close>, interpreted for times with addresses), and holds the queued flows of \<^verbatim>\<open>Fair_Queue\<close>.
    \<^verbatim>\<open>LinkedList1\<close>: \<^verbatim>\<open>structure/LinkedList1.h\<close>, pointers against the sequence of nodes.
  \<^item> \<^verbatim>\<open>Reactor\<close>: the event loop, \<^verbatim>\<open>system/BReactor_badvpn.c\<close> with epoll, and \<^verbatim>\<open>system/BTime.h\<close>, on those trees, lists and
    jobs. \<^verbatim>\<open>Reactor_Timers\<close>, \<^verbatim>\<open>Reactor_Rep\<close>: what its memory stands for and what each operation and waiting do to that.
    \<^verbatim>\<open>Reactor_Spec\<close>: the abstract specification and that the operations refine it. \<^verbatim>\<open>Reactor_Run\<close>: so do the iterations of
    the loop, whatever the kernel answers within its contract. \<^verbatim>\<open>Reactor_Safety\<close>: timers fire when they are due and in
    order, events reach the descriptor they were reported for, the loop sleeps soundly, limits bound work.
  \<^item> \<^verbatim>\<open>BConnection\<close>: stream sockets, \<^verbatim>\<open>system/BConnection_unix.c\<close> (listeners, connectors, connections), and the TUN device,
    \<^verbatim>\<open>tuntap/BTap.c\<close>, on the memory of the event loop. \<^verbatim>\<open>Connection_Run\<close>: every handler of a connection keeps the reactor
    and what holds of the connection. \<^verbatim>\<open>Connection_Safety\<close>: runs of a connection among everything else on the reactor, and
    their invariants. \<^verbatim>\<open>Connection_Open\<close>: how connections begin and end. \<^verbatim>\<open>Connection_Use\<close>: the device and the properties:
    pending operations are waited for, no call fails and nothing else is waited for until an error is reported alone, what is
    written is what is confirmed, descriptors are closed once.
  \<^item> \<^verbatim>\<open>Udp_Path\<close> and this theory: device, gateway client and device again, composed. Whether memory can be allocated,
    the output takes a packet and the send buffer has room are arguments of every packet.

  \<^bold>\<open>How the models correspond to the code.\<close> A C struct is a record, a function a definition of the same name
  (static handlers carry the name of their file's object in front); an operation returns the new state and
  the calls it makes on its neighbours, in order. Allocation and system call results, what lwIP returns and what
  peers send are arguments, so every error path is a branch. Integers whose width matters are words
  (ids, ports, checksums, the 64-bit times), wrap around explicitly (\<open>c_int\<close>: the room of the ring, the numbers of the
  command line) or are compared with \<open>INT_MAX\<close>; \<^verbatim>\<open>int\<close> values that stay in range are unbounded. The
  users of a tree (\<^verbatim>\<open>BAVL\<close>, \<^verbatim>\<open>SAvl\<close>) see its sorted contents or lookup function, linked lists of connections are lists;
  the AVL trees, the linked list, the job list, the event loop and the ring are modelled down to their pointers. Loops that might not end are
  \<open>partial_function (option)\<close> (the search for a connection id, the loops of the AVL trees and of the event loop, all proved to return); all others are functions with termination proofs, so no
  fuel is used. State machines are \<open>inductive\<close> steps over the handlers, with jobs that run between
  handlers as steps of their own where the order matters.

  \<^bold>\<open>What the code does not do.\<close> The lemmas \<open>udp_checksum_sends_zero\<close>, \<open>main_skips_signal_finish\<close>,
  \<open>dns_connections_leak\<close>, \<open>accept_shares_credentials\<close>, \<open>input_avail_wraps\<close>, \<open>atoi_wraps\<close> and
  \<open>bare_error_leaves_stale_registration\<close> record defects the models show: a computed UDP checksum of
  zero is sent as zero; failing to set up the local socket skips \<^verbatim>\<open>BSignal_Finish\<close>; DNS table entries leak at exit;
  with \<^verbatim>\<open>--append-source-to-username\<close> connecting clients share one user name; the room of a ring of more than
  \<open>2 ^ 29\<close> blocks overflows; numbers on the command line wrap around; an error that epoll reports without the readiness waited for
  leaves a connection registered for an operation that is over. By \<open>verify_accepts_misplaced\<close> the
  self-check of the AVL tree does not check the search order it says it checks.

  \<^bold>\<open>Not modelled.\<close> lwIP, pdnsd, libancillary and the parser generators are third-party code; their results are
  arguments. Datagram sockets and signals (\<^verbatim>\<open>system/BDatagram_unix.c\<close>, \<^verbatim>\<open>BUnixSignal.c\<close>, \<^verbatim>\<open>BSignal.c\<close>)
  wrap system calls: their events are the steps of the models. Of the event loop only the epoll variant is built. The VPN client and server, the udpgw server and NCD in the same tree
  are not built into the application; the Java and Kotlin application around the native programs is outside.
\<close>

section \<open>A UDP exchange through the whole program\<close>

text \<open>
  C1: A UDP exchange through the whole program. A packet of the device is either sent to the gateway, exactly
  once and with its payload, under a connection id, or dropped; it is sent exactly when its address pair gets a
  connection (it has one, the least recently used one is rebound, or a new one can be allocated) and the send
  buffer of the connection has room. If it was sent then, after any traffic in which fewer other address pairs
  than the limit of connections occur, and whatever of it is lost, a frame of the gateway with that id and
  remote address and a payload within the UDP MTU makes the program write to the device exactly one packet if
  the payload fits the device behind the headers of its IP version, and nothing otherwise. That packet fits the
  device and is a valid UDP packet with the reply as payload, from the address the first packet was sent to and
  to the address it came from.
\<close>

theorem udp_end_to_end:
  assumes "process_device_udp_packet st q = (True, [TD_Udp_Submit l r dns d])"
    and "ug_inv gw" and "\<forall>con. m = Some con \<longrightarrow> ug_cons gw con = None" and "ug_udp_mtu gw = td_udp_mtu st"
  shows "\<exists>gw1 calls. udp_send m p b st gw q = Some (gw1, calls)
    \<and> (if b \<and> ug_accepts m p gw \<lparr>ca_local_addr = l, ca_remote_addr = r\<rparr>
       then \<exists>k conid g. calls = [UG_Packet k ([g] @ bytes16 conid @ udpgw_addr_bytes r @ d)]
         \<and> (\<forall>as gw2 f reply. udp_traffic gw1 as gw2
              \<and> int (card (insert \<lparr>ca_local_addr = l, ca_remote_addr = r\<rparr> (set as))) \<le> ug_max_connections gw
              \<and> (f AND UDPGW_CLIENT_FLAG_IPV6 \<noteq> 0 \<longleftrightarrow> (\<exists>ip port. r = BAddr_IPv6 ip port))
              \<and> int (length reply) \<le> td_udp_mtu st
            \<longrightarrow> (\<exists>gw3 outs. udp_receive st gw2 ([f] @ bytes16 conid @ udpgw_addr_bytes r @ reply) = (gw3, outs)
              \<and> (if udp_reply_fits st r reply
                 then \<exists>out dns2. outs = [TD_Tap_Send out] \<and> int (length out) \<le> td_device_mtu st
                   \<and> process_device_udp_packet st out = (True, [TD_Udp_Submit r l dns2 reply])
                 else outs = [])))
       else calls = [])"
proof -
  let ?a = "\<lparr>ca_local_addr = l, ca_remote_addr = r\<rparr>"
  obtain gw1 calls where s: "submit_and_run m p b gw l r dns d = Some (gw1, calls)"
    and c: "if b \<and> ug_accepts m p gw ?a
       then \<exists>k conid g. calls = [UG_Packet k ([g] @ bytes16 conid @ udpgw_addr_bytes r @ d)]
              \<and> map_of (ug_table gw1) ?a = Some conid
       else calls = []"
    using submit_and_run_sends [OF assms(2,3), of p b l r dns d] by blast
  have snd: "udp_send m p b st gw q = Some (gw1, calls)" using assms(1) s by (simp add: udp_send_def)
  let ?n = "nat (ug_max_connections gw) - 1"
  have i: "ug_inv gw \<and> nat (ug_max_connections gw) = Suc ?n \<and> ug_udp_mtu gw = td_udp_mtu st"
    using assms(2,4) by (auto simp: ug_inv_def)
  have reply: "\<exists>gw3 outs. udp_receive st gw2 ([f] @ bytes16 conid @ udpgw_addr_bytes r @ reply) = (gw3, outs)
              \<and> (if udp_reply_fits st r reply
                 then \<exists>out dns2. outs = [TD_Tap_Send out] \<and> int (length out) \<le> td_device_mtu st
                   \<and> process_device_udp_packet st out = (True, [TD_Udp_Submit r l dns2 reply])
                 else outs = [])"
    if acc: "ug_accepts m p gw ?a" and m: "map_of (ug_table gw1) ?a = Some conid"
      and t: "udp_traffic gw1 as gw2" and c: "int (card (insert ?a (set as))) \<le> ug_max_connections gw"
      and f: "f AND UDPGW_CLIENT_FLAG_IPV6 \<noteq> 0 \<longleftrightarrow> (\<exists>ip port. r = BAddr_IPv6 ip port)"
      and len: "int (length reply) \<le> td_udp_mtu st"
    for conid as gw2 f reply
  proof -
    have u: "udp_uses ?a gw gw1" unfolding udp_uses_def udp_access_def using assms(3) s acc
      by (intro exI [of _ gw] conjI udp_quiet_refl disjI1 exI [of _ m] exI [of _ p] exI [of _ b] exI [of _ dns]
          exI [of _ d] exI [of _ calls]) simp_all
    have "ug_inv gw1" using udp_uses_touch [OF assms(2) u] by blast
    from udp_traffic_touches [OF t this] obtain bs gw0 where t': "touches udp_uses gw1 bs gw0" "set bs \<subseteq> set as"
      and q: "udp_quiet gw0 gw2" by blast
    have "card (insert ?a (set bs)) \<le> card (insert ?a (set as))" by (rule card_mono) (use t'(2) in auto)
    then have "card (insert ?a (set bs)) \<le> Suc ?n" using c i by linarith
    from udp.used_kept [OF i u m t'(1) this] q
    have k: "map_of (ug_table gw2) ?a = Some conid" "ug_inv gw2" "ug_udp_mtu gw2 = td_udp_mtu st"
      by (auto simp: udp_quiet_def)
    obtain j c where c: "ug_cons gw2 j = Some c" "cn_conaddr c = ?a" "cn_conid c = conid"
      using ug_table_con [OF k(2,1)] by blast
    have w: "addr_wf r" "r \<noteq> BAddr_None" using device_udp_addresses [OF assms(1)] by auto
    have "recv_interface_handler_send gw2 ([f] @ bytes16 conid @ udpgw_addr_bytes r @ reply)
        = (move_to_end j gw2, [UG_Recv_Done, UG_Received l r reply])"
      using reply_delivered [OF k(2) c(1,2) w _ f, of reply] len k(3) c(3) by simp
    then have "udp_receive st gw2 ([f] @ bytes16 conid @ udpgw_addr_bytes r @ reply)
        = (move_to_end j gw2, udpgw_client_handler_received st l r reply)" by (simp add: udp_receive_def)
    with udp_reply_reads_back [OF assms(1) len] show ?thesis by blast
  qed
  show ?thesis
  proof (cases "b \<and> ug_accepts m p gw ?a")
    case True
    then obtain k conid g where k: "calls = [UG_Packet k ([g] @ bytes16 conid @ udpgw_addr_bytes r @ d)]"
      "map_of (ug_table gw1) ?a = Some conid" using c by auto
    show ?thesis unfolding if_P [OF True]
      by (rule exI [of _ gw1], rule exI [of _ calls], rule conjI [OF snd], rule exI [of _ k], rule exI [of _ conid],
          rule exI [of _ g], rule conjI [OF k(1)]) (use reply [OF conjunct2 [OF True] k(2)] in blast)
  next
    case False
    with snd c show ?thesis by simp
  qed
qed

theorem udp_end_to_end_witness:
  "(\<exists>gw1 k conid g gw3 out dns2. udp_send (Some 7) True True demo_td demo_gw (udp4_packet 1 2 3 4 [5])
      = Some (gw1, [UG_Packet k ([g] @ bytes16 conid @ udpgw_addr_bytes (BAddr_IPv4 3 4) @ [5])])
    \<and> udp_receive demo_td gw1 ([0] @ bytes16 conid @ udpgw_addr_bytes (BAddr_IPv4 3 4) @ [6]) = (gw3, [TD_Tap_Send out])
    \<and> process_device_udp_packet demo_td out = (True, [TD_Udp_Submit (BAddr_IPv4 3 4) (BAddr_IPv4 1 2) dns2 [6]]))
   \<and> (\<exists>gw1. udp_send None True True demo_td demo_gw (udp4_packet 1 2 3 4 [5]) = Some (gw1, []))"
proof -
  obtain h u where p: "parse_device_udp4 (udp4_packet 1 2 3 4 [5]) = Some (h, u, [5])"
    "ip4_source_address h = 1" "ip4_destination_address h = 3" "udp_source_port u = 2" "udp_dest_port u = 4"
    using udp4_packet_parses [of "[5]" 1 2 3 4] by auto
  have q: "process_device_udp_packet demo_td (udp4_packet 1 2 3 4 [5])
      = (True, [TD_Udp_Submit (BAddr_IPv4 1 2) (BAddr_IPv4 3 4) False [5]])"
    using p by (simp add: process_device_udp_packet_def packet_versions demo_td_def BAddr_MakeIPv4_def)
  have g: "\<forall>con. Some 7 = Some con \<longrightarrow> ug_cons demo_gw con = None" "ug_udp_mtu demo_gw = td_udp_mtu demo_td"
    "ug_max_connections demo_gw = 256" "\<forall>con. None = Some con \<longrightarrow> ug_cons demo_gw con = None"
    by (simp_all add: demo_gw_def UdpGwClient_Init_def Let_def demo_td_def)
  have m: "td_udp_mtu demo_td = 1472" "udp_reply_fits demo_td (BAddr_IPv4 3 4) [6]"
    by (simp_all add: demo_td_def udp_reply_fits_def)
  have a: "ug_accepts (Some 7) True demo_gw a" "\<not> ug_accepts None True demo_gw a" for a
    by (simp_all add: ug_accepts_def demo_gw_def UdpGwClient_Init_def Let_def)
  have "\<exists>gw1. udp_send None True True demo_td demo_gw (udp4_packet 1 2 3 4 [5]) = Some (gw1, [])"
    using udp_end_to_end [OF q demo_gw_inv g(4,2), of True True] a by auto
  moreover have "\<exists>gw1 k conid g gw3 out dns2. udp_send (Some 7) True True demo_td demo_gw (udp4_packet 1 2 3 4 [5])
      = Some (gw1, [UG_Packet k ([g] @ bytes16 conid @ udpgw_addr_bytes (BAddr_IPv4 3 4) @ [5])])
    \<and> udp_receive demo_td gw1 ([0] @ bytes16 conid @ udpgw_addr_bytes (BAddr_IPv4 3 4) @ [6]) = (gw3, [TD_Tap_Send out])
    \<and> process_device_udp_packet demo_td out = (True, [TD_Udp_Submit (BAddr_IPv4 3 4) (BAddr_IPv4 1 2) dns2 [6]])"
    using udp_end_to_end [OF q demo_gw_inv g(1,2), of True True]
    unfolding if_P [OF conjI [OF TrueI a(1)]]
  proof (elim exE conjE, goal_cases)
    case (1 gw1 calls k conid gf)
    note reply = 1(3) [THEN spec, THEN spec, THEN spec, THEN spec, THEN mp, of "[]" gw1 0 "[6]"]
    have "\<exists>gw3 outs. udp_receive demo_td gw1 ([0] @ bytes16 conid @ udpgw_addr_bytes (BAddr_IPv4 3 4) @ [6]) = (gw3, outs)
      \<and> (if udp_reply_fits demo_td (BAddr_IPv4 3 4) [6]
         then \<exists>out dns2. outs = [TD_Tap_Send out] \<and> int (length out) \<le> td_device_mtu demo_td
           \<and> process_device_udp_packet demo_td out = (True, [TD_Udp_Submit (BAddr_IPv4 3 4) (BAddr_IPv4 1 2) dns2 [6]])
         else outs = [])"
      by (rule reply) (use g(3) m in \<open>simp add: traffic_Nil\<close>)
    with 1(1,2) m(2) show ?case by auto
  qed
  ultimately show ?thesis by blast
qed

end
